(* ===== verification/Prelude.thy ===== *)
theory Prelude
  imports Main "HOL-Library.Word" "HOL-Library.Signed_Division"
begin

text \<open>
  The vocabulary every component shares. A C string is a \<open>string\<close> without its final NUL, and a
  \<open>char *\<close> walking over it is the suffix that is still unread: \<open>deref p\<close> is \<open>*p\<close> (the NUL at the
  end), \<open>tl p\<close> is \<open>p + 1\<close>. Character classes are those of the C locale. Host integers that
  can wrap are written with \<open>wrap32\<close> and \<open>wrap64\<close> (two's complement) or as words.
\<close>

unbundle bit_operations_syntax

named_theorems cstr "unfolding facts about C string pointers"
named_theorems wraps "facts about wrap-around arithmetic"

type_synonym cstring = string

section \<open>Pointers into strings\<close>

definition NUL :: char where
  "NUL = CHR 0x00"

definition deref :: "string \<Rightarrow> char" where
  "deref p = (case p of [] \<Rightarrow> NUL | c # _ \<Rightarrow> c)"

definition deref_at :: "string \<Rightarrow> nat \<Rightarrow> char" where
  "deref_at p i = deref (drop i p)"

definition startswith :: "string \<Rightarrow> string \<Rightarrow> bool" where
  "startswith p q \<longleftrightarrow> take (length q) p = q"

lemma deref_simps [simp, cstr]:
  "deref [] = NUL"
  "deref (c # p) = c"
  by (simp_all add: deref_def)

lemma deref_at_simps [simp, cstr]:
  "deref_at p 0 = deref p"
  "deref_at [] n = NUL"
  "deref_at (c # p) (Suc n) = deref_at p n"
  by (simp_all add: deref_at_def)

lemma startswith_Nil [simp]: "startswith p []"
  by (simp add: startswith_def)

lemma startswith_Cons [simp]:
  "startswith [] (x # q) \<longleftrightarrow> False"
  "startswith (c # p) (x # q) \<longleftrightarrow> c = x \<and> startswith p q"
  by (simp_all add: startswith_def)

lemma startswith_iff: "startswith p q \<longleftrightarrow> (\<exists>r. p = q @ r)"
proof
  assume "startswith p q"
  then have "p = q @ drop (length q) p"
    unfolding startswith_def by (metis append_take_drop_id)
  then show "\<exists>r. p = q @ r" by blast
qed (auto simp: startswith_def)

lemma startswith_length: "startswith p q \<Longrightarrow> length q \<le> length p"
  by (auto simp: startswith_iff)

section \<open>Character classes of the C locale\<close>

definition code :: "char \<Rightarrow> nat" where
  "code c = of_char c"

definition in_chars :: "char \<Rightarrow> char \<Rightarrow> char \<Rightarrow> bool" where
  "in_chars lo hi c \<longleftrightarrow> code lo \<le> code c \<and> code c \<le> code hi"

definition is_space :: "char \<Rightarrow> bool" where
  "is_space c \<longleftrightarrow> code c = 32 \<or> (9 \<le> code c \<and> code c \<le> 13)"

definition is_digit :: "char \<Rightarrow> bool" where
  "is_digit c \<longleftrightarrow> 48 \<le> code c \<and> code c \<le> 57"

definition is_xdigit :: "char \<Rightarrow> bool" where
  "is_xdigit c \<longleftrightarrow> is_digit c \<or> (65 \<le> code c \<and> code c \<le> 70) \<or> (97 \<le> code c \<and> code c \<le> 102)"

definition is_alpha :: "char \<Rightarrow> bool" where
  "is_alpha c \<longleftrightarrow> (65 \<le> code c \<and> code c \<le> 90) \<or> (97 \<le> code c \<and> code c \<le> 122)"

definition is_punct :: "char \<Rightarrow> bool" where
  "is_punct c \<longleftrightarrow> 33 \<le> code c \<and> code c \<le> 126 \<and> \<not> is_digit c \<and> \<not> is_alpha c"

definition digit_val :: "char \<Rightarrow> nat" where
  "digit_val c = code c - 48"

text \<open>The four characters the text processing code tests by name.\<close>

abbreviation NL :: char where "NL \<equiv> CHR 0x0A"
abbreviation DQ :: char where "DQ \<equiv> CHR 0x22"
abbreviation SQ :: char where "SQ \<equiv> CHR 0x27"
abbreviation BSL :: char where "BSL \<equiv> CHR 0x5C"

lemma code_bound: "code c < 256"
  by (simp add: code_def)

lemma code_inj [simp]: "code c = code d \<longleftrightarrow> c = d"
  by (simp add: code_def)

lemma code_NUL [simp]: "code NUL = 0"
  by (simp add: code_def NUL_def)

section \<open>Wrap-around of the host's int and int64_t\<close>

definition wrap32 :: "int \<Rightarrow> int" where
  "wrap32 x = signed_take_bit 31 x"

definition wrap64 :: "int \<Rightarrow> int" where
  "wrap64 x = signed_take_bit 63 x"

definition in32 :: "int \<Rightarrow> bool" where
  "in32 x \<longleftrightarrow> - (2 ^ 31) \<le> x \<and> x < 2 ^ 31"

definition in64 :: "int \<Rightarrow> bool" where
  "in64 x \<longleftrightarrow> - (2 ^ 63) \<le> x \<and> x < 2 ^ 63"

lemma wrap32_id [wraps]: "in32 x \<Longrightarrow> wrap32 x = x"
  unfolding in32_def wrap32_def by (rule signed_take_bit_int_eq_self) simp_all

lemma wrap64_id [wraps]: "in64 x \<Longrightarrow> wrap64 x = x"
  unfolding in64_def wrap64_def by (rule signed_take_bit_int_eq_self) simp_all

lemma in32_wrap32 [simp]: "in32 (wrap32 x)"
  unfolding in32_def wrap32_def
  using signed_take_bit_int_greater_eq_minus_exp [of 31 x] signed_take_bit_int_less_exp [of 31 x]
  by simp

lemma in64_wrap64 [simp]: "in64 (wrap64 x)"
  unfolding in64_def wrap64_def
  using signed_take_bit_int_greater_eq_minus_exp [of 63 x] signed_take_bit_int_less_exp [of 63 x]
  by simp

lemma wrap32_wrap32 [simp]: "wrap32 (wrap32 x) = wrap32 x"
  by (simp add: wrap32_id)

lemma wrap64_wrap64 [simp]: "wrap64 (wrap64 x) = wrap64 x"
  by (simp add: wrap64_id)

lemma wrap32_wrap64 [simp]: "wrap32 (wrap64 x) = wrap32 x"
  by (simp add: wrap32_def wrap64_def signed_take_bit_signed_take_bit)

lemma wrap32_eq_iff_mod: "wrap32 x = wrap32 y \<longleftrightarrow> x mod 2 ^ 32 = y mod 2 ^ 32"
  unfolding wrap32_def signed_take_bit_eq_iff_take_bit_eq
  by (simp add: take_bit_eq_mod)

lemma wrap32_arith [wraps]:
  "wrap32 (wrap32 x + wrap32 y) = wrap32 (x + y)"
  "wrap32 (wrap32 x - wrap32 y) = wrap32 (x - y)"
  "wrap32 (wrap32 x * wrap32 y) = wrap32 (x * y)"
proof -
  have m: "wrap32 z mod 2 ^ 32 = z mod 2 ^ 32" for z
    using wrap32_eq_iff_mod [of "wrap32 z" z] by simp
  show "wrap32 (wrap32 x + wrap32 y) = wrap32 (x + y)"
    by (simp only: wrap32_eq_iff_mod) (metis m mod_add_eq)
  show "wrap32 (wrap32 x - wrap32 y) = wrap32 (x - y)"
    by (simp only: wrap32_eq_iff_mod) (metis m mod_diff_eq)
  show "wrap32 (wrap32 x * wrap32 y) = wrap32 (x * y)"
    by (simp only: wrap32_eq_iff_mod) (metis m mod_mult_eq)
qed

section \<open>Lists\<close>

lemma length_dropWhile_less: "xs \<noteq> [] \<Longrightarrow> P (hd xs) \<Longrightarrow> length (dropWhile P xs) < length xs"
  by (cases xs) (auto simp: length_dropWhile_le less_Suc_eq_le)

lemma find_append: "find P (xs @ ys) = (case find P xs of Some x \<Rightarrow> Some x | None \<Rightarrow> find P ys)"
  by (induction xs) auto

lemma takeWhile_dropWhile_length:
  "length (takeWhile P xs) + length (dropWhile P xs) = length xs"
  by (metis length_append takeWhile_dropWhile_id)

end
