(* ===== verification/Arena.thy ===== *)
theory Arena
  imports Prelude
begin

text \<open>
  The arena allocator of \<open>src/alloc.c\<close>. The chunk list is newest first, as the C list is;
  a pointer is the number of the chunk (counted from the oldest) and the byte offset into its
  \<open>data\<close>. \<open>size_t\<close> is a 64-bit word. \<open>calloc\<close> is taken to succeed; the code does not test it.
\<close>

type_synonym size_t = "64 word"

record chunk =
  csize :: size_t
  cused :: size_t

type_synonym arena = "chunk list"
type_synonym arena_ptr = "nat \<times> nat"

definition arena_round :: "size_t \<Rightarrow> size_t" where
  "arena_round sz = (sz + 7) AND NOT 7"

definition chunk_default :: size_t where
  "chunk_default = 1024 * 1024"

definition new_chunk :: "size_t \<Rightarrow> chunk" where
  "new_chunk sz =
     (let chunk_size = (if sz > chunk_default then sz else chunk_default)
      in \<lparr>csize = chunk_size, cused = 0\<rparr>)"

definition arena_alloc :: "size_t \<Rightarrow> arena \<Rightarrow> arena_ptr \<times> arena" where
  "arena_alloc sz st =
     (let sz = arena_round sz;
          st1 = (case st of
                   [] \<Rightarrow> new_chunk sz # st
                 | c # cs \<Rightarrow> if cused c + sz > csize c then new_chunk sz # st else st);
          c = hd st1
      in ((length st1 - 1, unat (cused c)), c\<lparr>cused := cused c + sz\<rparr> # tl st1))"

section \<open>The contract of an allocator\<close>

text \<open>A run of requests, and the blocks it is answered with.\<close>

fun alloc_run :: "('n \<Rightarrow> 's \<Rightarrow> 'p \<times> 's) \<Rightarrow> 'n list \<Rightarrow> 's \<Rightarrow> ('p \<times> 'n) list \<times> 's" where
  "alloc_run alloc [] s = ([], s)"
| "alloc_run alloc (n # ns) s =
     (let (p, s1) = alloc n s; (ps, s2) = alloc_run alloc ns s1 in ((p, n) # ps, s2))"

text \<open>
  What a client of an allocator relies on: the bytes of a new block were not handed out before,
  blocks handed out stay handed out, and a block lies in the storage the allocator obtained, which
  only grows.
\<close>

locale fresh_alloc =
  fixes alloc :: "'n \<Rightarrow> 's \<Rightarrow> 'p \<times> 's"
    and fits :: "'n \<Rightarrow> bool"
    and inv :: "'s \<Rightarrow> bool"
    and owned :: "'s \<Rightarrow> 'a set"
    and block :: "'p \<Rightarrow> 'n \<Rightarrow> 'a set"
    and room :: "'s \<Rightarrow> 'a set"
  assumes alloc_inv: "inv s \<Longrightarrow> fits n \<Longrightarrow> alloc n s = (p, s') \<Longrightarrow> inv s'"
    and alloc_fresh: "inv s \<Longrightarrow> fits n \<Longrightarrow> alloc n s = (p, s') \<Longrightarrow> block p n \<inter> owned s = {}"
    and alloc_owned: "inv s \<Longrightarrow> fits n \<Longrightarrow> alloc n s = (p, s') \<Longrightarrow> owned s \<union> block p n \<subseteq> owned s'"
    and alloc_room: "inv s \<Longrightarrow> fits n \<Longrightarrow> alloc n s = (p, s') \<Longrightarrow> room s \<union> block p n \<subseteq> room s'"
begin

lemma allocs_inv: "inv s \<Longrightarrow> \<forall>n \<in> set ns. fits n \<Longrightarrow> inv (snd (alloc_run alloc ns s))"
proof (induction ns arbitrary: s)
  case (Cons n ns)
  obtain p s1 where a: "alloc n s = (p, s1)" by fastforce
  with Cons.prems have "inv s1" by (auto intro: alloc_inv)
  with Cons.IH [of s1] Cons.prems a show ?case by (simp add: case_prod_beta)
qed simp

lemma allocs_owned:
  "inv s \<Longrightarrow> \<forall>n \<in> set ns. fits n \<Longrightarrow> (p, n) \<in> set (fst (alloc_run alloc ns s)) \<Longrightarrow> block p n \<inter> owned s = {}"
proof (induction ns arbitrary: s)
  case (Cons m ns)
  obtain q s1 where a: "alloc m s = (q, s1)" by fastforce
  with Cons.prems have "inv s1" and sub: "owned s \<subseteq> owned s1"
    by (auto intro: alloc_inv dest: alloc_owned)
  show ?case
  proof (cases "(p, n) = (q, m)")
    case True
    with Cons.prems a show ?thesis by (auto dest: alloc_fresh)
  next
    case False
    with Cons.prems a have "(p, n) \<in> set (fst (alloc_run alloc ns s1))" by (auto split: prod.splits)
    with Cons.IH [OF \<open>inv s1\<close>] Cons.prems sub show ?thesis by auto
  qed
qed simp

lemma allocs_room_grows:
  "inv s \<Longrightarrow> \<forall>n \<in> set ns. fits n \<Longrightarrow> room s \<subseteq> room (snd (alloc_run alloc ns s))"
proof (induction ns arbitrary: s)
  case (Cons n ns)
  obtain p s1 where a: "alloc n s = (p, s1)" by fastforce
  with Cons.prems have "inv s1" "room s \<subseteq> room s1" by (auto intro: alloc_inv dest: alloc_room)
  with Cons.IH [of s1] Cons.prems a show ?case by (auto simp: case_prod_beta)
qed simp

lemma allocs_room:
  "inv s \<Longrightarrow> \<forall>n \<in> set ns. fits n \<Longrightarrow> (p, n) \<in> set (fst (alloc_run alloc ns s)) \<Longrightarrow>
   block p n \<subseteq> room (snd (alloc_run alloc ns s))"
proof (induction ns arbitrary: s)
  case (Cons m ns)
  obtain q s1 where a: "alloc m s = (q, s1)" by fastforce
  with Cons.prems have i: "inv s1" and b: "block q m \<subseteq> room s1"
    by (auto intro: alloc_inv dest: alloc_room)
  show ?case
  proof (cases "(p, n) = (q, m)")
    case True
    with allocs_room_grows [OF i, of ns] Cons.prems a b show ?thesis by (auto simp: case_prod_beta)
  next
    case False
    with Cons.prems a have "(p, n) \<in> set (fst (alloc_run alloc ns s1))" by (auto split: prod.splits)
    with Cons.IH [OF i] Cons.prems a show ?thesis by (simp add: case_prod_beta)
  qed
qed simp

theorem allocs_disjoint:
  "inv s \<Longrightarrow> \<forall>n \<in> set ns. fits n \<Longrightarrow>
   sorted_wrt (\<lambda>(p, n) (q, m). block p n \<inter> block q m = {}) (fst (alloc_run alloc ns s))"
proof (induction ns arbitrary: s)
  case (Cons m ns)
  obtain q s1 where a: "alloc m s = (q, s1)" by fastforce
  with Cons.prems have "inv s1" and sub: "block q m \<subseteq> owned s1"
    by (auto intro: alloc_inv dest: alloc_owned)
  have "\<forall>(p, n) \<in> set (fst (alloc_run alloc ns s1)). block q m \<inter> block p n = {}"
    using allocs_owned [OF \<open>inv s1\<close>] Cons.prems sub by fastforce
  with Cons.IH [OF \<open>inv s1\<close>] Cons.prems a show ?case by (simp add: case_prod_beta)
qed simp

end

section \<open>The arena keeps the contract\<close>

text \<open>Requests are below 2 ^ 62 bytes, far above any address space, so that rounding cannot wrap.\<close>

definition arena_fits :: "size_t \<Rightarrow> bool" where
  "arena_fits sz \<longleftrightarrow> unat sz < 2 ^ 62"

definition chunk_ok :: "chunk \<Rightarrow> bool" where
  "chunk_ok c \<longleftrightarrow> unat (cused c) \<le> unat (csize c) \<and> unat (csize c) \<le> 2 ^ 62 \<and> 8 dvd unat (cused c)"

definition arena_inv :: "arena \<Rightarrow> bool" where
  "arena_inv st \<longleftrightarrow> list_all chunk_ok st"

text \<open>The bytes of a chunk list that lie below the bump pointers.\<close>

fun arena_owned :: "arena \<Rightarrow> (nat \<times> nat) set" where
  "arena_owned [] = {}"
| "arena_owned (c # cs) = {length cs} \<times> {..< unat (cused c)} \<union> arena_owned cs"

text \<open>All the bytes of the \<open>data\<close> arrays of the chunks.\<close>

fun arena_bytes :: "arena \<Rightarrow> (nat \<times> nat) set" where
  "arena_bytes [] = {}"
| "arena_bytes (c # cs) = {length cs} \<times> {..< unat (csize c)} \<union> arena_bytes cs"

text \<open>The object a caller puts at \<open>p\<close>: as many bytes as it asked for.\<close>

definition arena_block :: "arena_ptr \<Rightarrow> size_t \<Rightarrow> (nat \<times> nat) set" where
  "arena_block p sz = {fst p} \<times> {snd p ..< snd p + unat sz}"

lemma arena_owned_bound: "(k, i) \<in> arena_owned cs \<Longrightarrow> k < length cs"
  by (induction cs) auto

lemma unat_arena_round:
  assumes "arena_fits sz"
  shows "unat (arena_round sz) = 8 * ((unat sz + 7) div 8)"
proof -
  have s: "unat (sz + 7) = unat sz + 7"
    using assms by (simp add: arena_fits_def unat_word_ariths)
  have m: "7 = (mask 3 :: size_t)" by (simp add: mask_eq_exp_minus_1)
  have "arena_round sz = push_bit 3 (drop_bit 3 (sz + 7))"
    unfolding arena_round_def m
    by (rule bit_eqI) (auto simp: bit_and_iff bit_not_iff bit_mask_iff bit_push_bit_iff bit_drop_bit_eq)
  then have "unat (arena_round sz) = take_bit 64 (push_bit 3 (drop_bit 3 (unat sz + 7)))"
    by (simp only: unsigned_push_bit_eq unsigned_drop_bit_eq s) (use assms in \<open>simp add: arena_fits_def take_bit_nat_eq_self\<close>)
  also have "\<dots> = push_bit 3 (drop_bit 3 (unat sz + 7))"
    using assms by (intro take_bit_nat_eq_self) (simp add: arena_fits_def drop_bit_eq_div push_bit_eq_mult)
  finally show ?thesis by (simp add: drop_bit_eq_div push_bit_eq_mult)
qed

lemma arena_round_bounds:
  assumes "arena_fits sz"
  shows "unat sz \<le> unat (arena_round sz)" "unat (arena_round sz) \<le> 2 ^ 62" "8 dvd unat (arena_round sz)"
  using assms by (auto simp: unat_arena_round arena_fits_def)

lemma new_chunk_ok:
  assumes "unat sz \<le> 2 ^ 62"
  shows "chunk_ok (new_chunk sz)" "unat sz \<le> unat (csize (new_chunk sz))" "cused (new_chunk sz) = 0"
  using assms
  by (auto simp: new_chunk_def chunk_ok_def chunk_default_def word_less_nat_alt Let_def)

text \<open>The chunk \<open>arena_alloc\<close> bumps: its room, and that the older ones are untouched.\<close>

lemma arena_alloc_cases:
  assumes inv: "arena_inv st" and fits: "arena_fits sz" and run: "arena_alloc sz st = (p, st')"
  obtains c cs where
    "p = (length cs, unat (cused c))"
    "st' = c\<lparr>cused := cused c + arena_round sz\<rparr> # cs"
    "chunk_ok c" "arena_inv cs"
    "unat (cused c) + unat (arena_round sz) \<le> unat (csize c)"
    "c # cs = st \<or> (cs = st \<and> cused c = 0)"
proof -
  let ?r = "arena_round sz"
  note obt = that
  note rb = arena_round_bounds [OF fits]
  have new: thesis if "arena_alloc sz st =
      ((length st, unat (cused (new_chunk ?r))),
       (new_chunk ?r)\<lparr>cused := cused (new_chunk ?r) + ?r\<rparr> # st)"
    using that run inv new_chunk_ok [OF rb(2)]
    by (intro obt [of st "new_chunk ?r"]) auto
  show thesis
  proof (cases st)
    case Nil
    then show ?thesis by (intro new) (simp add: arena_alloc_def Let_def)
  next
    case (Cons c cs)
    then have c: "chunk_ok c" "arena_inv cs" using inv by (auto simp: arena_inv_def)
    have sum: "unat (cused c + ?r) = unat (cused c) + unat ?r"
      using c rb(2) by (intro unat_add_lem [THEN iffD1]) (simp add: chunk_ok_def)
    show ?thesis
    proof (cases "cused c + ?r > csize c")
      case True
      then show ?thesis using Cons by (intro new) (simp add: arena_alloc_def Let_def)
    next
      case False
      then have "unat (cused c) + unat ?r \<le> unat (csize c)"
        using sum by (simp add: word_less_nat_alt)
      with False Cons c run show ?thesis
        by (intro obt [of cs c]) (auto simp: arena_alloc_def Let_def)
    qed
  qed
qed

interpretation arena: fresh_alloc arena_alloc arena_fits arena_inv arena_owned arena_block arena_bytes
proof unfold_locales
  fix st sz p st'
  assume asm: "arena_inv st" "arena_fits sz" "arena_alloc sz st = (p, st')"
  then obtain c cs where
    a: "p = (length cs, unat (cused c))" "st' = c\<lparr>cused := cused c + arena_round sz\<rparr> # cs"
    "chunk_ok c" "arena_inv cs" "unat (cused c) + unat (arena_round sz) \<le> unat (csize c)"
    "c # cs = st \<or> (cs = st \<and> cused c = 0)"
    by (rule arena_alloc_cases)
  note rb = arena_round_bounds [OF asm(2)]
  have sum: "unat (cused c + arena_round sz) = unat (cused c) + unat (arena_round sz)"
    using a(3,5) by (intro unat_add_lem [THEN iffD1]) (simp add: chunk_ok_def)
  show "arena_inv st'"
    using a sum rb by (simp add: arena_inv_def chunk_ok_def)
  show "arena_block p sz \<inter> arena_owned st = {}"
    using a by (auto simp: arena_block_def dest: arena_owned_bound)
  show "arena_owned st \<union> arena_block p sz \<subseteq> arena_owned st'"
    using a sum rb(1) by (auto simp: arena_block_def)
  show "arena_bytes st \<union> arena_block p sz \<subseteq> arena_bytes st'"
    using a rb(1) by (auto simp: arena_block_def)
qed

lemma arena_inv_empty [simp]: "arena_inv []"
  by (simp add: arena_inv_def)

text \<open>Every pointer handed out is a multiple of eight bytes into its chunk.\<close>

lemma arena_alloc_aligned:
  assumes "arena_inv st" "arena_fits sz" "arena_alloc sz st = (p, st')"
  shows "8 dvd snd p"
  using assms by (rule arena_alloc_cases) (auto simp: chunk_ok_def)

lemma alloc_run_aligned:
  "arena_inv st \<Longrightarrow> \<forall>n \<in> set ns. arena_fits n \<Longrightarrow>
   (p, n) \<in> set (fst (alloc_run arena_alloc ns st)) \<Longrightarrow> 8 dvd snd p"
proof (induction ns arbitrary: st)
  case (Cons m ns)
  obtain q s1 where a: "arena_alloc m st = (q, s1)" by fastforce
  with Cons.prems have "arena_inv s1" "8 dvd snd q"
    by (auto intro: arena.alloc_inv arena_alloc_aligned)
  with Cons a show ?case by (auto split: prod.splits)
qed simp

section \<open>Properties\<close>

text \<open>
  C29. Any sequence of arena requests, each below 2 ^ 62 bytes and starting from the empty arena, is
  answered with blocks of the requested sizes that do not overlap; each lies within the data of a
  chunk the arena obtained and starts at a multiple of eight bytes.
\<close>

theorem arena_blocks_disjoint:
  assumes "\<forall>n \<in> set ns. arena_fits n" and "alloc_run arena_alloc ns [] = (bs, st)"
  shows "sorted_wrt (\<lambda>(p, n) (q, m). arena_block p n \<inter> arena_block q m = {}) bs \<and>
         (\<forall>(p, n) \<in> set bs. arena_block p n \<subseteq> arena_bytes st \<and> 8 dvd snd p)"
  using arena.allocs_disjoint [of "[]" ns] arena.allocs_room [of "[]" ns] alloc_run_aligned [of "[]" ns] assms
  by auto

theorem arena_blocks_disjoint_witness:
  "\<exists>bs st. alloc_run arena_alloc [5, 16, 2 ^ 21] [] = (bs, st) \<and>
     sorted_wrt (\<lambda>(p, n) (q, m). arena_block p n \<inter> arena_block q m = {}) bs \<and>
     (\<forall>(p, n) \<in> set bs. arena_block p n \<subseteq> arena_bytes st \<and> 8 dvd snd p)"
proof -
  obtain bs st where r: "alloc_run arena_alloc [5, 16, 2 ^ 21] [] = (bs, st)" by fastforce
  have "\<forall>n \<in> set [5, 16, 2 ^ 21]. arena_fits n" by (simp add: arena_fits_def)
  from arena_blocks_disjoint [OF this r] r show ?thesis by blast
qed

end
