(* ===== verification/Intern.thy ===== *)
theory Intern
  imports Arena
begin

text \<open>
  String interning (\<open>str_intern\<close> in \<open>src/alloc.c\<close>), and the lookups of \<open>src/parser.c\<close> that
  compare interned names by address. A bucket is the chain of \<open>InternedStr\<close> nodes, newest
  first. The string of a node is kept beside the address \<open>str\<close> it was copied to; the node
  itself takes \<open>sizeof(InternedStr)\<close> bytes of the same arena.
\<close>

section \<open>The hash table\<close>

definition fnv_step :: "32 word \<Rightarrow> char \<Rightarrow> 32 word" where
  "fnv_step h c = (h XOR of_char c) * 16777619"

definition hash_str :: "string \<Rightarrow> 32 word" where
  "hash_str s = foldl fnv_step 2166136261 s"

definition HASH_SIZE :: nat where
  "HASH_SIZE = 4096"

definition bucket_of :: "string \<Rightarrow> nat" where
  "bucket_of s = unat (hash_str s) mod HASH_SIZE"

record interned =
  istr :: arena_ptr
  itext :: string

record interner_state =
  istrings :: "nat \<Rightarrow> interned list"
  iarena :: arena

definition interned_size :: size_t where
  "interned_size = 24"

definition interner_empty :: interner_state where
  "interner_empty = \<lparr>istrings = (\<lambda>_. []), iarena = []\<rparr>"

fun bucket_find :: "interned list \<Rightarrow> string \<Rightarrow> arena_ptr option" where
  "bucket_find [] s = None"
| "bucket_find (e # es) s =
     (if length (itext e) = length s \<and> itext e = s then Some (istr e) else bucket_find es s)"

definition str_intern :: "string \<Rightarrow> interner_state \<Rightarrow> arena_ptr \<times> interner_state" where
  "str_intern s st =
     (let h = bucket_of s
      in case bucket_find (istrings st h) s of
           Some p \<Rightarrow> (p, st)
         | None \<Rightarrow>
             (let (_, a1) = arena_alloc interned_size (iarena st);
                  (p, a2) = arena_alloc (of_nat (length s + 1)) a1
              in (p, \<lparr>istrings = (istrings st)(h := \<lparr>istr = p, itext = s\<rparr> # istrings st h),
                      iarena = a2\<rparr>)))"

section \<open>The contract of an interner\<close>

fun intern_run :: "('k \<Rightarrow> 's \<Rightarrow> 'p \<times> 's) \<Rightarrow> 'k list \<Rightarrow> 's \<Rightarrow> 'p list \<times> 's" where
  "intern_run f [] s = ([], s)"
| "intern_run f (x # xs) s =
     (let (p, s1) = f x s; (ps, s2) = intern_run f xs s1 in (p # ps, s2))"

locale interner =
  fixes intern :: "'k \<Rightarrow> 's \<Rightarrow> 'p \<times> 's"
    and fits :: "'k \<Rightarrow> bool"
    and inv :: "'s \<Rightarrow> bool"
    and content :: "'s \<Rightarrow> 'p \<Rightarrow> 'k option"
  assumes intern_inv: "inv s \<Longrightarrow> fits x \<Longrightarrow> intern x s = (p, s') \<Longrightarrow> inv s'"
    and intern_content: "inv s \<Longrightarrow> fits x \<Longrightarrow> intern x s = (p, s') \<Longrightarrow> content s' p = Some x"
    and intern_stable:
      "inv s \<Longrightarrow> fits x \<Longrightarrow> intern x s = (p, s') \<Longrightarrow> content s q = Some y \<Longrightarrow> content s' q = Some y"
    and content_inj: "inv s \<Longrightarrow> content s p = Some x \<Longrightarrow> content s q = Some x \<Longrightarrow> p = q"
begin

lemma intern_run_spec:
  "inv s \<Longrightarrow> \<forall>x \<in> set xs. fits x \<Longrightarrow> intern_run intern xs s = (ps, s') \<Longrightarrow>
   inv s' \<and> list_all2 (\<lambda>x p. content s' p = Some x) xs ps \<and>
   (\<forall>q y. content s q = Some y \<longrightarrow> content s' q = Some y)"
proof (induction xs arbitrary: s ps s')
  case (Cons x xs)
  obtain p s1 where a: "intern x s = (p, s1)" by fastforce
  obtain ps1 s2 where b: "intern_run intern xs s1 = (ps1, s2)" by fastforce
  from Cons.prems a have "inv s1" "content s1 p = Some x"
    by (auto intro: intern_inv intern_content)
  with Cons.IH [OF \<open>inv s1\<close> _ b] Cons.prems a b show ?case
    by (auto dest: intern_stable)
qed auto

text \<open>Addresses of interned strings agree exactly when the strings do.\<close>

theorem intern_run_eq_iff:
  assumes "inv s" "\<forall>x \<in> set xs. fits x" "intern_run intern xs s = (ps, s')"
    and "i < length xs" "j < length xs"
  shows "ps ! i = ps ! j \<longleftrightarrow> xs ! i = xs ! j"
proof -
  from intern_run_spec [OF assms(1-3)]
  have inv: "inv s'" and c: "list_all2 (\<lambda>x p. content s' p = Some x) xs ps" by auto
  from c assms(4,5) have "content s' (ps ! i) = Some (xs ! i)" "content s' (ps ! j) = Some (xs ! j)"
    by (auto dest: list_all2_nthD)
  with content_inj [OF inv] show ?thesis by (metis option.inject)
qed

text \<open>
  A client that compares interned names by address finds what a search by content would:
  the shape of \<open>find_var\<close>, \<open>find_typedef\<close> and \<open>find_tag\<close>.
\<close>

lemma find_by_address:
  assumes "inv s" and "content s p = Some x"
    and "\<forall>v \<in> set vs. content s (addr v) = Some (text_of v)"
  shows "find (\<lambda>v. addr v = p) vs = find (\<lambda>v. text_of v = x) vs"
proof -
  have "addr v = p \<longleftrightarrow> text_of v = x" if "v \<in> set vs" for v
    using that assms content_inj by (metis option.inject)
  then show ?thesis by (intro find_cong) auto
qed

end

section \<open>The table keeps the contract\<close>

definition text_fits :: "string \<Rightarrow> bool" where
  "text_fits s \<longleftrightarrow> length s < 2 ^ 31"

definition all_interned :: "interner_state \<Rightarrow> interned list" where
  "all_interned st = concat (map (istrings st) [0 ..< HASH_SIZE])"

definition interner_inv :: "interner_state \<Rightarrow> bool" where
  "interner_inv st \<longleftrightarrow>
     arena_inv (iarena st) \<and>
     (\<forall>h. \<forall>e \<in> set (istrings st h). h = bucket_of (itext e) \<and> istr e \<in> arena_owned (iarena st)) \<and>
     (\<forall>h. inj_on itext (set (istrings st h))) \<and>
     inj_on istr (set (all_interned st))"

definition interned_text :: "interner_state \<Rightarrow> arena_ptr \<Rightarrow> string option" where
  "interned_text st p = map_option itext (find (\<lambda>e. istr e = p) (all_interned st))"

lemma bucket_of_less: "bucket_of s < HASH_SIZE"
  by (simp add: bucket_of_def HASH_SIZE_def)

lemma set_all_interned: "set (all_interned st) = (\<Union>h < HASH_SIZE. set (istrings st h))"
  by (auto simp: all_interned_def)

lemma in_all_interned_iff:
  assumes "interner_inv st"
  shows "e \<in> set (all_interned st) \<longleftrightarrow> e \<in> set (istrings st (bucket_of (itext e)))"
  using assms bucket_of_less by (fastforce simp: set_all_interned interner_inv_def)

lemma interned_text_iff:
  assumes "interner_inv st"
  shows "interned_text st p = Some x \<longleftrightarrow> \<lparr>istr = p, itext = x\<rparr> \<in> set (all_interned st)"
proof
  assume "interned_text st p = Some x"
  then obtain e where "find (\<lambda>e. istr e = p) (all_interned st) = Some e" "itext e = x"
    by (auto simp: interned_text_def)
  then have "e \<in> set (all_interned st)" "e = \<lparr>istr = p, itext = x\<rparr>"
    by (auto simp: find_Some_iff)
  then show "\<lparr>istr = p, itext = x\<rparr> \<in> set (all_interned st)" by simp
next
  assume e: "\<lparr>istr = p, itext = x\<rparr> \<in> set (all_interned st)"
  then obtain e' where f: "find (\<lambda>e. istr e = p) (all_interned st) = Some e'"
    by (metis (mono_tags, lifting) find_None_iff interned.select_convs(1) not_Some_eq)
  then have "e' \<in> set (all_interned st)" "istr e' = p"
    by (auto simp: find_Some_iff)
  moreover have "inj_on istr (set (all_interned st))"
    using assms by (simp add: interner_inv_def)
  ultimately have "e' = \<lparr>istr = p, itext = x\<rparr>"
    using inj_onD [of istr _ e' "\<lparr>istr = p, itext = x\<rparr>"] e by simp
  with f show "interned_text st p = Some x" by (simp add: interned_text_def)
qed

lemma bucket_find_Some:
  "bucket_find es s = Some p \<Longrightarrow> \<lparr>istr = p, itext = s\<rparr> \<in> set es"
  by (induction es) (auto split: if_splits)

lemma bucket_find_None: "bucket_find es s = None \<longleftrightarrow> s \<notin> itext ` set es"
  by (induction es) auto

text \<open>The branch of \<open>str_intern\<close> that copies a new string: its address was never handed out.\<close>

lemma str_intern_new:
  assumes inv: "interner_inv st" and fits: "text_fits s"
    and new: "bucket_find (istrings st (bucket_of s)) s = None"
    and run: "str_intern s st = (p, st')"
  obtains a where
    "st' = \<lparr>istrings = (istrings st)(bucket_of s := \<lparr>istr = p, itext = s\<rparr> # istrings st (bucket_of s)),
            iarena = a\<rparr>"
    "arena_inv a" "arena_owned (iarena st) \<subseteq> arena_owned a"
    "p \<in> arena_owned a" "p \<notin> arena_owned (iarena st)"
proof -
  let ?n = "of_nat (length s + 1) :: size_t"
  obtain q a1 where a1: "arena_alloc interned_size (iarena st) = (q, a1)" by fastforce
  obtain p' a2 where a2: "arena_alloc ?n a1 = (p', a2)" by fastforce
  have f1: "arena_fits interned_size" by (simp add: arena_fits_def interned_size_def)
  have n: "unat ?n = length s + 1"
    using fits by (simp add: text_fits_def unat_of_nat del: of_nat_Suc)
  then have f2: "arena_fits ?n" using fits by (simp add: arena_fits_def text_fits_def)
  have inv0: "arena_inv (iarena st)" using inv by (simp add: interner_inv_def)
  note i1 = arena.alloc_inv [OF inv0 f1 a1] and o1 = arena.alloc_owned [OF inv0 f1 a1]
  note i2 = arena.alloc_inv [OF i1 f2 a2] and o2 = arena.alloc_owned [OF i1 f2 a2]
  have blk: "p' \<in> arena_block p' ?n"
    using n by (cases p') (simp add: arena_block_def)
  have "p = p'" "st' = \<lparr>istrings = (istrings st)(bucket_of s := \<lparr>istr = p, itext = s\<rparr> # istrings st (bucket_of s)),
            iarena = a2\<rparr>"
    using run new a1 a2 by (auto simp: str_intern_def Let_def)
  with i2 o1 o2 blk arena.alloc_fresh [OF i1 f2 a2] show ?thesis
    by (intro that [of a2]) auto
qed

lemma str_intern_found:
  assumes "interner_inv st" "bucket_find (istrings st (bucket_of s)) s = Some q"
    and "str_intern s st = (p, st')"
  shows "p = q" "st' = st" "interned_text st q = Some s"
  using assms bucket_find_Some [OF assms(2)]
  by (auto simp: str_intern_def interned_text_iff in_all_interned_iff Let_def)

lemma all_interned_new:
  "set (all_interned \<lparr>istrings = (istrings st)(bucket_of s := e # istrings st (bucket_of s)), iarena = a\<rparr>)
     = insert e (set (all_interned st))"
  using bucket_of_less [of s] by (auto simp: set_all_interned split: if_splits)

lemma str_intern_new_inv:
  assumes inv: "interner_inv st" and fits: "text_fits s"
    and new: "bucket_find (istrings st (bucket_of s)) s = None"
    and run: "str_intern s st = (p, st')"
  shows "interner_inv st'"
proof -
  obtain a where a:
    "st' = \<lparr>istrings = (istrings st)(bucket_of s := \<lparr>istr = p, itext = s\<rparr> # istrings st (bucket_of s)),
            iarena = a\<rparr>"
    "arena_inv a" "arena_owned (iarena st) \<subseteq> arena_owned a"
    "p \<in> arena_owned a" "p \<notin> arena_owned (iarena st)"
    using str_intern_new [OF assms] by metis
  have "p \<notin> istr ` set (all_interned st)"
    using inv a(5) by (auto simp: interner_inv_def set_all_interned)
  then have "inj_on istr (set (all_interned st'))"
    using inv unfolding a(1) all_interned_new by (auto simp: interner_inv_def)
  moreover have "inj_on itext (set (istrings st' h))" for h
    using inv new a(1) by (auto simp: interner_inv_def bucket_find_None inj_on_def image_iff)
  ultimately show ?thesis
    using inv a by (auto simp: interner_inv_def)
qed

interpretation si: interner str_intern text_fits interner_inv interned_text
proof unfold_locales
  fix st s p st'
  assume asm: "interner_inv st" "text_fits s" "str_intern s st = (p, st')"
  show inv': "interner_inv st'"
  proof (cases "bucket_find (istrings st (bucket_of s)) s")
    case None
    then show ?thesis using str_intern_new_inv asm by blast
  next
    case (Some q)
    then show ?thesis using str_intern_found asm by blast
  qed
  show "interned_text st' p = Some s"
  proof (cases "bucket_find (istrings st (bucket_of s)) s")
    case None
    then obtain a where
      "st' = \<lparr>istrings = (istrings st)(bucket_of s := \<lparr>istr = p, itext = s\<rparr> # istrings st (bucket_of s)),
              iarena = a\<rparr>"
      using str_intern_new asm by metis
    then show ?thesis using inv' by (simp add: interned_text_iff all_interned_new)
  next
    case (Some q)
    then show ?thesis using str_intern_found asm by blast
  qed
  fix q y
  assume y: "interned_text st q = Some y"
  show "interned_text st' q = Some y"
  proof (cases "bucket_find (istrings st (bucket_of s)) s")
    case None
    then obtain a where
      "st' = \<lparr>istrings = (istrings st)(bucket_of s := \<lparr>istr = p, itext = s\<rparr> # istrings st (bucket_of s)),
              iarena = a\<rparr>"
      using str_intern_new asm by metis
    then show ?thesis using inv' y asm(1) by (simp add: interned_text_iff all_interned_new)
  next
    case (Some q')
    then show ?thesis using str_intern_found asm y by blast
  qed
next
  fix st p x q
  assume "interner_inv st" "interned_text st p = Some x" "interned_text st q = Some x"
  then have e: "\<lparr>istr = p, itext = x\<rparr> \<in> set (istrings st (bucket_of x))"
    "\<lparr>istr = q, itext = x\<rparr> \<in> set (istrings st (bucket_of x))"
    and i: "inj_on itext (set (istrings st (bucket_of x)))"
    by (auto simp: interned_text_iff in_all_interned_iff interner_inv_def)
  from inj_onD [OF i _ e] show "p = q" by simp
qed

lemma interner_inv_empty [simp]: "interner_inv interner_empty"
  by (simp add: interner_inv_def interner_empty_def all_interned_def)

section \<open>Lookups that compare addresses\<close>

text \<open>
  \<open>find_var\<close> walks the locals and then the globals, newest first, and compares the
  interned \<open>name\<close> pointers.
\<close>

record lvar_entry =
  lv_name :: arena_ptr
  lv_local :: bool
  lv_off :: int

definition find_var :: "arena_ptr \<Rightarrow> lvar_entry list \<Rightarrow> lvar_entry list \<Rightarrow> lvar_entry option" where
  "find_var name locals globals =
     (case find (\<lambda>v. lv_name v = name) locals of
        Some v \<Rightarrow> Some v
      | None \<Rightarrow> find (\<lambda>v. lv_name v = name) globals)"

definition find_global_name :: "arena_ptr \<Rightarrow> lvar_entry list \<Rightarrow> lvar_entry option" where
  "find_global_name name globals = find (\<lambda>v. lv_name v = name) globals"

section \<open>Properties\<close>

text \<open>
  C13. Interning: in any run of \<open>str_intern\<close> from the empty table, two results are the same address
  exactly when the two strings have the same length and bytes.
\<close>

theorem str_intern_run_eq_iff:
  assumes "\<forall>x \<in> set xs. text_fits x" and "intern_run str_intern xs interner_empty = (ps, st)"
    and "i < length xs" and "j < length xs"
  shows "ps ! i = ps ! j \<longleftrightarrow> xs ! i = xs ! j"
  by (rule si.intern_run_eq_iff [OF interner_inv_empty assms])

theorem str_intern_run_eq_iff_witness:
  "\<exists>ps st. intern_run str_intern [''ab'', ''c'', ''ab''] interner_empty = (ps, st) \<and>
     ps ! 0 = ps ! 2 \<and> ps ! 0 \<noteq> ps ! 1"
proof -
  let ?xs = "[''ab'', ''c'', ''ab'']"
  obtain ps st where r: "intern_run str_intern ?xs interner_empty = (ps, st)" by fastforce
  have f: "\<forall>x \<in> set ?xs. text_fits x" by (simp add: text_fits_def)
  from str_intern_run_eq_iff [OF f r, of 0 2] str_intern_run_eq_iff [OF f r, of 0 1] r
  show ?thesis by auto
qed

text \<open>
  C30. Scoping by address: \<open>find_var\<close>, which compares interned pointers only, returns the innermost
  declaration whose spelling is the one looked for.
\<close>

theorem find_var_by_spelling:
  assumes "interner_inv st" and "interned_text st name = Some x"
    and "\<forall>v \<in> set locals \<union> set globals. interned_text st (lv_name v) = Some (spelling v)"
  shows "find_var name locals globals = find (\<lambda>v. spelling v = x) (locals @ globals)"
proof -
  have "find (\<lambda>v. lv_name v = name) vs = find (\<lambda>v. spelling v = x) vs"
    if "set vs \<subseteq> set locals \<union> set globals" for vs
    using that assms by (intro si.find_by_address) auto
  then show ?thesis
    by (simp add: find_var_def find_append split: option.split)
qed

theorem find_var_by_spelling_witness:
  "\<exists>st p. interned_text st p = Some ''x'' \<and>
     find_var p [\<lparr>lv_name = p, lv_local = True, lv_off = 8\<rparr>] [] =
       Some \<lparr>lv_name = p, lv_local = True, lv_off = 8\<rparr>"
proof -
  obtain p st where r: "str_intern ''x'' interner_empty = (p, st)" by fastforce
  have f: "text_fits ''x''" by (simp add: text_fits_def)
  note i = si.intern_inv [OF interner_inv_empty f r] si.intern_content [OF interner_inv_empty f r]
  from find_var_by_spelling [OF i, of "[\<lparr>lv_name = p, lv_local = True, lv_off = 8\<rparr>]" "[]" "\<lambda>_. ''x''"] i
  show ?thesis by (intro exI [of _ st] exI [of _ p]) simp
qed

end
