(* ===== verification/CTypes.thy ===== *)
theory CTypes
  imports Prelude
begin

text \<open>
  The C types of \<open>src/rcc.h\<close> and the functions on them in \<open>src/type.c\<close> and \<open>src/parser.c\<close>. The
  scalar fields of \<open>struct Type\<close> are the record \<open>type_info\<close>; the fields that point to
  other types make the datatype \<open>ctype\<close>. The identity of a struct or union (its address, which
  \<open>type_equal\<close> compares) is the field \<open>taddr\<close>. The length expression of a VLA is only ever passed
  on, never inspected, by the code modelled here: it is a number naming the node.
  A struct that contains a pointer to itself is unrolled to a finite depth.
\<close>

section \<open>Data\<close>

datatype type_kind =
    TY_VOID | TY_BOOL | TY_INT | TY_CHAR | TY_SHORT | TY_LONG | TY_LLONG | TY_FLOAT | TY_DOUBLE
  | TY_LDOUBLE | TY_PTR | TY_ARRAY | TY_VLA | TY_STRUCT | TY_UNION | TY_FUNC

datatype bf_mode = BF_MODE_DEFAULT | BF_MODE_GCC | BF_MODE_MS

record type_info =
  kind :: type_kind
  tsize :: int
  talign :: int
  is_unsigned :: bool
  is_enum :: bool
  is_signed_char :: bool
  qual :: nat
  is_variadic :: bool
  is_oldstyle :: bool
  pack_align_of :: int
  bitfield_mode :: bf_mode
  cleanup_func :: "string option"
  tname :: "string option"
  vla_len_expr :: "nat option"
  array_len_of :: int
  taddr :: nat

record member_info =
  mname :: "string option"
  moffset :: int
  bit_width :: int
  bit_offset :: int
  bf_load_size :: int

datatype ctype =
  CType (tinfo: type_info) (tbase: "ctype option") (tmembers: "member list")
        (treturn: "ctype option") (tparams: "ctype list")
and member = Member (mty: ctype) (minfo: member_info)

text \<open>\<open>arena_alloc(sizeof(Type))\<close>: every field zero but the ones the code sets.\<close>

definition zero_info :: "type_kind \<Rightarrow> int \<Rightarrow> int \<Rightarrow> bool \<Rightarrow> type_info" where
  "zero_info k s a u =
     \<lparr>kind = k, tsize = s, talign = a, is_unsigned = u, is_enum = False, is_signed_char = False,
      qual = 0, is_variadic = False, is_oldstyle = False, pack_align_of = 0,
      bitfield_mode = BF_MODE_DEFAULT, cleanup_func = None, tname = None, vla_len_expr = None,
      array_len_of = 0, taddr = 0\<rparr>"

definition basic :: "type_kind \<Rightarrow> int \<Rightarrow> int \<Rightarrow> bool \<Rightarrow> ctype" where
  "basic k s a u = CType (zero_info k s a u) None [] None []"

abbreviation tkind :: "ctype \<Rightarrow> type_kind" where "tkind t \<equiv> kind (tinfo t)"
abbreviation sizeof :: "ctype \<Rightarrow> int" where "sizeof t \<equiv> tsize (tinfo t)"
abbreviation alignof :: "ctype \<Rightarrow> int" where "alignof t \<equiv> talign (tinfo t)"
abbreviation unsigned_ty :: "ctype \<Rightarrow> bool" where "unsigned_ty t \<equiv> is_unsigned (tinfo t)"
abbreviation tqual :: "ctype \<Rightarrow> nat" where "tqual t \<equiv> qual (tinfo t)"

text \<open>The host the compiler was built for decides two of the static types.\<close>

datatype platform = Linux | Win32 | Apple

definition ty_void :: ctype where "ty_void = basic TY_VOID 1 1 False"
definition ty_bool :: ctype where "ty_bool = basic TY_BOOL 1 1 True"
definition ty_char :: ctype where "ty_char = basic TY_CHAR 1 1 False"
definition ty_uchar :: ctype where "ty_uchar = basic TY_CHAR 1 1 True"
definition ty_short :: ctype where "ty_short = basic TY_SHORT 2 2 False"
definition ty_ushort :: ctype where "ty_ushort = basic TY_SHORT 2 2 True"
definition ty_int :: ctype where "ty_int = basic TY_INT 4 4 False"
definition ty_uint :: ctype where "ty_uint = basic TY_INT 4 4 True"
definition ty_llong :: ctype where "ty_llong = basic TY_LLONG 8 8 False"
definition ty_ullong :: ctype where "ty_ullong = basic TY_LLONG 8 8 True"
definition ty_float :: ctype where "ty_float = basic TY_FLOAT 4 4 False"
definition ty_double :: ctype where "ty_double = basic TY_DOUBLE 8 8 False"

fun ty_long :: "platform \<Rightarrow> ctype" where
  "ty_long Win32 = basic TY_LONG 4 4 False"
| "ty_long _ = basic TY_LONG 8 8 False"

fun ty_ulong :: "platform \<Rightarrow> ctype" where
  "ty_ulong Win32 = basic TY_LONG 4 4 True"
| "ty_ulong _ = basic TY_LONG 8 8 True"

fun ty_ldouble :: "platform \<Rightarrow> ctype" where
  "ty_ldouble Apple = basic TY_LDOUBLE 8 8 False"
| "ty_ldouble _ = basic TY_LDOUBLE 16 16 False"

lemmas static_types =
  ty_void_def ty_bool_def ty_char_def ty_uchar_def ty_short_def ty_ushort_def ty_int_def ty_uint_def
  ty_llong_def ty_ullong_def ty_float_def ty_double_def ty_long.simps ty_ulong.simps
  ty_ldouble.simps basic_def zero_info_def

section \<open>Predicates and constructors of \<open>type.c\<close>\<close>

definition is_integer :: "ctype \<Rightarrow> bool" where
  "is_integer ty \<longleftrightarrow>
     tkind ty = TY_BOOL \<or> tkind ty = TY_CHAR \<or> tkind ty = TY_SHORT \<or>
     tkind ty = TY_INT \<or> tkind ty = TY_LONG \<or> tkind ty = TY_LLONG"

definition is_flonum :: "ctype \<Rightarrow> bool" where
  "is_flonum ty \<longleftrightarrow> tkind ty = TY_FLOAT \<or> tkind ty = TY_DOUBLE \<or> tkind ty = TY_LDOUBLE"

definition is_number :: "ctype \<Rightarrow> bool" where
  "is_number ty \<longleftrightarrow> is_integer ty \<or> is_flonum ty"

definition get_integer_type :: "int \<Rightarrow> bool \<Rightarrow> ctype" where
  "get_integer_type sz u =
     (if sz \<le> 1 then (if u then ty_uchar else ty_char)
      else if sz \<le> 2 then (if u then ty_ushort else ty_short)
      else if sz \<le> 4 then (if u then ty_uint else ty_int)
      else (if u then ty_ullong else ty_llong))"

text \<open>\<open>pointer_to\<close> only stores its argument, which may be a null pointer.\<close>

definition pointer_to_opt :: "ctype option \<Rightarrow> ctype" where
  "pointer_to_opt base = CType (zero_info TY_PTR 8 8 False) base [] None []"

abbreviation pointer_to :: "ctype \<Rightarrow> ctype" where
  "pointer_to base \<equiv> pointer_to_opt (Some base)"

definition array_of :: "ctype \<Rightarrow> int \<Rightarrow> ctype" where
  "array_of base len =
     CType (zero_info TY_ARRAY (wrap64 (sizeof base * len)) (alignof base) False) (Some base) [] None []"

definition func_type :: "ctype \<Rightarrow> ctype" where
  "func_type return_ty = CType (zero_info TY_FUNC 1 1 False) None [] (Some return_ty) []"

definition vla_of :: "ctype \<Rightarrow> nat option \<Rightarrow> int \<Rightarrow> ctype" where
  "vla_of base len arr_len =
     CType (case len of
              Some e \<Rightarrow> (zero_info TY_VLA 16 8 False)\<lparr>vla_len_expr := Some e\<rparr>
            | None \<Rightarrow> (zero_info TY_VLA 16 8 False)\<lparr>array_len_of := arr_len\<rparr>)
           (Some base) [] None []"

section \<open>Usual arithmetic conversions\<close>

definition integer_promotion :: "ctype \<Rightarrow> ctype" where
  "integer_promotion ty = (if \<not> is_integer ty then ty else if sizeof ty < 4 then ty_int else ty)"

definition get_float_type :: "platform \<Rightarrow> ctype \<Rightarrow> ctype \<Rightarrow> ctype" where
  "get_float_type pl lhs rhs =
     (if tkind lhs = TY_LDOUBLE \<or> tkind rhs = TY_LDOUBLE then ty_ldouble pl
      else if tkind lhs = TY_DOUBLE \<or> tkind rhs = TY_DOUBLE then ty_double
      else ty_float)"

fun rank_of_kind :: "type_kind \<Rightarrow> nat" where
  "rank_of_kind TY_BOOL = 0"
| "rank_of_kind TY_CHAR = 1"
| "rank_of_kind TY_SHORT = 2"
| "rank_of_kind TY_INT = 3"
| "rank_of_kind TY_LONG = 4"
| "rank_of_kind TY_LLONG = 5"
| "rank_of_kind _ = 3"

definition int_rank :: "ctype \<Rightarrow> nat" where
  "int_rank ty = rank_of_kind (tkind ty)"

definition usual_arith_type :: "platform \<Rightarrow> ctype \<Rightarrow> ctype \<Rightarrow> ctype" where
  "usual_arith_type pl lhs rhs =
     (if is_flonum lhs \<or> is_flonum rhs then get_float_type pl lhs rhs
      else
        let lhs = integer_promotion lhs;
            rhs = integer_promotion rhs;
            is_uns = unsigned_ty lhs \<or> unsigned_ty rhs;
            higher = (if int_rank lhs \<ge> int_rank rhs then lhs else rhs)
        in if is_uns = unsigned_ty higher then higher
           else get_integer_type (sizeof higher) is_uns)"

section \<open>Type operations of \<open>parser.c\<close>\<close>

definition align_to :: "int \<Rightarrow> int \<Rightarrow> int" where
  "align_to n align = (n + align - 1) AND NOT (align - 1)"

definition copy_type :: "ctype \<Rightarrow> nat \<Rightarrow> ctype" where
  "copy_type ty fresh =
     (if tkind ty = TY_STRUCT \<or> tkind ty = TY_UNION then ty
      else CType ((tinfo ty)\<lparr>taddr := fresh\<rparr>) (tbase ty) (tmembers ty) (treturn ty) (tparams ty))"

definition array_len :: "ctype option \<Rightarrow> int" where
  "array_len ty =
     (case ty of
        None \<Rightarrow> 0
      | Some t \<Rightarrow>
          (if tkind t \<noteq> TY_ARRAY then 0
           else case tbase t of
                  None \<Rightarrow> 0
                | Some b \<Rightarrow> if sizeof b = 0 then 0 else wrap32 (sizeof t sdiv sizeof b)))"

text \<open>
  \<open>type_equal\<close>: two null pointers are equal, a null and a non-null one are not. The first test of the
  code, on the addresses, is a shortcut: \<open>type_equal_same\<close> below shows that the comparison of a type
  with itself gives the same answer.
\<close>

fun type_equal :: "ctype \<Rightarrow> ctype \<Rightarrow> bool"
  and type_equal_opt :: "ctype option \<Rightarrow> ctype option \<Rightarrow> bool"
  and params_equal :: "ctype list \<Rightarrow> ctype list \<Rightarrow> bool" where
  "type_equal (CType a ba ma ra pa) (CType b bb mb rb pb) =
     (if kind a \<noteq> kind b then False
      else if qual a \<noteq> qual b then False
      else if is_unsigned a \<noteq> is_unsigned b then False
      else if kind a = TY_CHAR \<and> is_signed_char a \<noteq> is_signed_char b then False
      else if is_variadic a \<noteq> is_variadic b then False
      else case kind a of
             TY_PTR \<Rightarrow> type_equal_opt ba bb
           | TY_ARRAY \<Rightarrow> (if tsize a \<noteq> tsize b then False else type_equal_opt ba bb)
           | TY_FUNC \<Rightarrow>
               (if \<not> type_equal_opt ra rb then False
                else if pa = [] \<or> pb = [] then True
                else params_equal pa pb)
           | TY_STRUCT \<Rightarrow> taddr a = taddr b
           | TY_UNION \<Rightarrow> taddr a = taddr b
           | _ \<Rightarrow> True)"
| "type_equal_opt None None = True"
| "type_equal_opt (Some a) (Some b) = type_equal a b"
| "type_equal_opt _ _ = False"
| "params_equal [] [] = True"
| "params_equal (a # as) (b # bs) = (type_equal a b \<and> params_equal as bs)"
| "params_equal _ _ = False"

section \<open>Facts the other components use\<close>

lemma static_kinds [simp]:
  "tkind ty_void = TY_VOID" "tkind ty_int = TY_INT" "tkind ty_uint = TY_INT"
  "tkind ty_llong = TY_LLONG" "tkind ty_ullong = TY_LLONG" "tkind ty_float = TY_FLOAT"
  "tkind ty_double = TY_DOUBLE" "tkind (ty_ldouble pl) = TY_LDOUBLE"
  "tkind (ty_long pl) = TY_LONG" "tkind (ty_ulong pl) = TY_LONG"
  "tkind (pointer_to_opt b) = TY_PTR" "tbase (pointer_to_opt b) = b" "sizeof (pointer_to_opt b) = 8"
  "sizeof ty_int = 4" "sizeof ty_uint = 4" "sizeof ty_llong = 8" "sizeof ty_ullong = 8"
  by (cases pl; simp add: static_types pointer_to_opt_def)+

lemma integer_cases: "is_integer ty \<Longrightarrow> \<not> is_flonum ty"
  by (auto simp: is_integer_def is_flonum_def)

lemma kind_classes [simp]:
  "is_integer ty_int" "is_integer ty_uint" "is_integer ty_llong" "is_integer ty_ullong"
  "is_integer (ty_long pl)" "is_integer (ty_ulong pl)"
  "is_flonum (ty_ldouble pl)" "is_flonum ty_double" "is_flonum ty_float"
  "\<not> is_integer (pointer_to_opt b)" "\<not> is_flonum (pointer_to_opt b)"
  by (simp_all add: is_integer_def is_flonum_def)

lemma is_integer_get_integer_type [simp]: "is_integer (get_integer_type n u)"
  by (simp add: get_integer_type_def is_integer_def static_types)

lemma is_integer_promotion [simp]: "is_integer (integer_promotion ty) = is_integer ty"
  by (simp add: integer_promotion_def)

lemma get_float_type_class [simp]:
  "is_flonum (get_float_type pl l r)" "\<not> is_integer (get_float_type pl l r)"
  by (auto simp: get_float_type_def is_integer_def)

text \<open>The result of the usual arithmetic conversions of two numbers is a number of the right class.\<close>

lemma usual_arith_class:
  assumes "is_number l" "is_number r"
  shows "is_flonum (usual_arith_type pl l r) \<longleftrightarrow> is_flonum l \<or> is_flonum r"
    and "is_integer (usual_arith_type pl l r) \<longleftrightarrow> is_integer l \<and> is_integer r"
  using assms integer_cases
  by (auto simp: usual_arith_type_def Let_def is_number_def)

text \<open>Rounding up to a power of two.\<close>

lemma int_and_not_mask: "(x::int) AND NOT (2 ^ k - 1) = 2 ^ k * (x div 2 ^ k)"
proof -
  have "x AND NOT (mask k) = push_bit k (drop_bit k x)"
    by (rule bit_eqI) (auto simp: bit_and_iff bit_not_iff bit_mask_iff bit_push_bit_iff bit_drop_bit_eq)
  then show ?thesis
    by (simp add: mask_eq_exp_minus_1 push_bit_eq_mult drop_bit_eq_div mult.commute)
qed

lemma align_to_pow2:
  assumes "a = 2 ^ k"
  shows "align_to n a = a * ((n + a - 1) div a)"
  unfolding align_to_def assms by (rule int_and_not_mask)

lemma align_to_bounds:
  assumes "a = 2 ^ k"
  shows "n \<le> align_to n a" "align_to n a < n + a" "a dvd align_to n a"
proof -
  have a: "0 < a" using assms by simp
  have m: "n + a - 1 = a * ((n + a - 1) div a) + (n + a - 1) mod a" by simp
  have "(n + a - 1) mod a < a" "0 \<le> (n + a - 1) mod a" using a by auto
  with m show "n \<le> align_to n a" "align_to n a < n + a"
    unfolding align_to_pow2 [OF assms] by linarith+
  show "a dvd align_to n a"
    unfolding align_to_pow2 [OF assms] by simp
qed

lemma align_to_id:
  assumes "a = 2 ^ k" "a dvd n"
  shows "align_to n a = n"
proof -
  have a: "0 < a" using assms by simp
  obtain m where "n = a * m" using assms by blast
  then have "n + a - 1 = a * m + (a - 1)" by simp
  also have "\<dots> div a = m" using a by (simp add: div_pos_pos_trivial)
  finally have "(n + a - 1) div a = m" .
  then show ?thesis
    using \<open>n = a * m\<close> by (simp only: align_to_pow2 [OF assms(1)])
qed

section \<open>The conversions of the C standard\<close>

text \<open>
  C11 6.3.1, with ranks, ranges and rules of its own: an integer type is its conversion rank, its width
  in bits and whether it is unsigned; a floating type is its position in \<open>float\<close>, \<open>double\<close>,
  \<open>long double\<close>.
\<close>

datatype c_arith = C_int (c_rank: nat) (c_bits: nat) (c_uns: bool) | C_float nat

abbreviation C_signed_int :: c_arith where "C_signed_int \<equiv> C_int 3 32 False"
abbreviation C_unsigned_int :: c_arith where "C_unsigned_int \<equiv> C_int 3 32 True"

text \<open>6.3.1.1p1: \<open>_Bool\<close> below \<open>char\<close> below \<open>short\<close> below \<open>int\<close> below \<open>long\<close> below \<open>long long\<close>.\<close>

fun c11_rank :: "type_kind \<Rightarrow> nat" where
  "c11_rank TY_BOOL = 0"
| "c11_rank TY_CHAR = 1"
| "c11_rank TY_SHORT = 2"
| "c11_rank TY_INT = 3"
| "c11_rank TY_LONG = 4"
| "c11_rank _ = 5"

definition standard_sizes :: "(type_kind \<times> int) list" where
  "standard_sizes =
     [(TY_BOOL, 1), (TY_CHAR, 1), (TY_SHORT, 2), (TY_INT, 4), (TY_LONG, 4), (TY_LONG, 8), (TY_LLONG, 8)]"

text \<open>The C type a record of the compiler stands for; an integer of another size is ranked by its width.\<close>

definition c_arith_of :: "ctype \<Rightarrow> c_arith" where
  "c_arith_of t =
     (if tkind t = TY_FLOAT then C_float 0
      else if tkind t = TY_DOUBLE then C_float 1
      else if tkind t = TY_LDOUBLE then C_float 2
      else C_int (if (tkind t, sizeof t) \<in> set standard_sizes then c11_rank (tkind t)
                  else if sizeof t \<le> 1 then 1 else if sizeof t \<le> 2 then 2 else if sizeof t \<le> 4 then 3 else 4)
             (nat (8 * sizeof t)) (unsigned_ty t))"

text \<open>How an integer type computes: its width and whether it is unsigned.\<close>

fun c_width_sign :: "c_arith \<Rightarrow> (nat \<times> bool) option" where
  "c_width_sign (C_int r n u) = Some (n, u)"
| "c_width_sign (C_float r) = None"

text \<open>\<open>can_hold a b\<close>: every value of \<open>b\<close> is a value of \<open>a\<close>.\<close>

fun c_low :: "c_arith \<Rightarrow> int" where
  "c_low (C_int r n u) = (if u then 0 else - (2 ^ (n - 1)))"
| "c_low (C_float r) = 0"

fun c_high :: "c_arith \<Rightarrow> int" where
  "c_high (C_int r n u) = (if u then 2 ^ n else 2 ^ (n - 1))"
| "c_high (C_float r) = 0"

definition can_hold :: "c_arith \<Rightarrow> c_arith \<Rightarrow> bool" where
  "can_hold a b \<longleftrightarrow> c_low a \<le> c_low b \<and> c_high b \<le> c_high a"

text \<open>6.3.1.1p2, the integer promotions, and 6.3.1.8, the usual arithmetic conversions.\<close>

fun c_promote :: "c_arith \<Rightarrow> c_arith" where
  "c_promote (C_int r n u) =
     (if 3 < r then C_int r n u
      else if can_hold C_signed_int (C_int r n u) then C_signed_int
      else C_unsigned_int)"
| "c_promote (C_float r) = C_float r"

definition c_usual_int :: "c_arith \<Rightarrow> c_arith \<Rightarrow> c_arith" where
  "c_usual_int a b =
     (if c_uns a = c_uns b then (if c_rank b \<le> c_rank a then a else b)
      else
        let (u, s) = (if c_uns a then (a, b) else (b, a))
        in if c_rank s \<le> c_rank u then u
           else if can_hold s u then s
           else C_int (c_rank s) (c_bits s) True)"

fun c_usual :: "c_arith \<Rightarrow> c_arith \<Rightarrow> c_arith" where
  "c_usual (C_float a) (C_float b) = C_float (max a b)"
| "c_usual (C_float a) (C_int r n u) = C_float a"
| "c_usual (C_int r n u) (C_float a) = C_float a"
| "c_usual a b = c_usual_int (c_promote a) (c_promote b)"

text \<open>
  The arithmetic types of a platform: what matters is kind, size and signedness, so this includes the
  static types, their copies (\<open>copy_type\<close>), qualified versions and enumerations.
\<close>

fun arith_shapes :: "platform \<Rightarrow> (type_kind \<times> int \<times> bool) list" where
  "arith_shapes pl =
     (let long = (if pl = Win32 then 4 else 8)
      in [(TY_BOOL, 1, True), (TY_CHAR, 1, False), (TY_CHAR, 1, True), (TY_SHORT, 2, False), (TY_SHORT, 2, True),
          (TY_INT, 4, False), (TY_INT, 4, True), (TY_LONG, long, False), (TY_LONG, long, True),
          (TY_LLONG, 8, False), (TY_LLONG, 8, True), (TY_FLOAT, 4, False), (TY_DOUBLE, 8, False),
          (TY_LDOUBLE, if pl = Apple then 8 else 16, False)])"

definition tshape :: "ctype \<Rightarrow> type_kind \<times> int \<times> bool" where
  "tshape t = (tkind t, sizeof t, unsigned_ty t)"

definition arith_type :: "platform \<Rightarrow> ctype \<Rightarrow> bool" where
  "arith_type pl t \<longleftrightarrow> tshape t \<in> set (arith_shapes pl)"

text \<open>After promotion one operand is signed and strictly wider than the other, an unsigned one.\<close>

definition wider_signed :: "c_arith \<Rightarrow> c_arith \<Rightarrow> bool" where
  "wider_signed a b \<longleftrightarrow>
     (case (c_promote a, c_promote b) of
        (C_int _ n u, C_int _ m v) \<Rightarrow> (\<not> u \<and> v \<and> m < n) \<or> (u \<and> \<not> v \<and> n < m)
      | _ \<Rightarrow> False)"

text \<open>The common type is \<open>unsigned long\<close> and the operand that decides its size a signed \<open>long\<close>.\<close>

definition signed_long_first :: "c_arith \<Rightarrow> c_arith \<Rightarrow> bool" where
  "signed_long_first a b \<longleftrightarrow>
     (case (c_usual a b, a) of
        (C_int r n u, C_int r' n' u') \<Rightarrow>
          r = 4 \<and> u \<and> (r' = 4 \<and> \<not> u' \<or> r' < 4 \<and> (case b of C_int q m v \<Rightarrow> q = 4 \<and> \<not> v | _ \<Rightarrow> False))
      | _ \<Rightarrow> False)"

text \<open>The common type of two types depends on their shapes only; there are finitely many of them.\<close>

definition shape_type :: "type_kind \<times> int \<times> bool \<Rightarrow> ctype" where
  "shape_type s = basic (fst s) (fst (snd s)) (fst (snd s)) (snd (snd s))"

lemma shape_type_simps [simp]:
  "tkind (shape_type s) = fst s" "sizeof (shape_type s) = fst (snd s)" "unsigned_ty (shape_type s) = snd (snd s)"
  "tshape (shape_type s) = s"
  by (simp_all add: tshape_def shape_type_def basic_def zero_info_def)

lemma c_arith_of_shape: "c_arith_of (shape_type (tshape t)) = c_arith_of t"
  by (simp add: c_arith_of_def tshape_def)

lemma usual_arith_type_shape:
  "tshape (usual_arith_type pl (shape_type (tshape l)) (shape_type (tshape r))) = tshape (usual_arith_type pl l r)"
proof -
  have c: "is_integer (shape_type (tshape t)) = is_integer t" "is_flonum (shape_type (tshape t)) = is_flonum t" for t
    by (simp_all add: is_integer_def is_flonum_def tshape_def)
  have p: "tshape (integer_promotion (shape_type (tshape t))) = tshape (integer_promotion t)" for t
    by (simp add: integer_promotion_def c) (simp add: tshape_def)
  have q: "tkind x = tkind y" "sizeof x = sizeof y" "unsigned_ty x = unsigned_ty y" if "tshape x = tshape y" for x y
    using that by (simp_all add: tshape_def)
  note q = q [OF p]
  show ?thesis
  proof (cases "is_flonum l \<or> is_flonum r")
    case True
    have "get_float_type pl (shape_type (tshape l)) (shape_type (tshape r)) = get_float_type pl l r"
      unfolding get_float_type_def shape_type_simps by (simp only: tshape_def fst_conv)
    then show ?thesis unfolding usual_arith_type_def c by (simp only: True if_True)
  next
    case False
    show ?thesis
      unfolding usual_arith_type_def Let_def int_rank_def c if_not_P [OF False]
      by (cases "rank_of_kind (tkind (integer_promotion r)) \<le> rank_of_kind (tkind (integer_promotion l))")
        (simp_all only: q if_True if_False if_distrib [of tshape] p)
  qed
qed

definition conversion_ok :: "platform \<Rightarrow> type_kind \<times> int \<times> bool \<Rightarrow> type_kind \<times> int \<times> bool \<Rightarrow> bool" where
  "conversion_ok pl l r \<longleftrightarrow>
     (let t = usual_arith_type pl (shape_type l) (shape_type r);
          a = c_arith_of (shape_type l); b = c_arith_of (shape_type r)
      in tshape t \<in> set (arith_shapes pl) \<and>
         (c_arith_of t = c_usual a b) = (\<not> wider_signed a b \<and> \<not> signed_long_first a b) \<and>
         (c_width_sign (c_arith_of t) = c_width_sign (c_usual a b)) = (\<not> wider_signed a b) \<and>
         (is_integer t \<longrightarrow> fst (snd l) \<le> sizeof t \<and> fst (snd r) \<le> sizeof t))"

definition conversions_row :: "platform \<Rightarrow> type_kind \<times> int \<times> bool \<Rightarrow> bool" where
  "conversions_row pl l = list_all (conversion_ok pl l) (arith_shapes pl)"

text \<open>There are finitely many pairs of arithmetic types; the kernel evaluates each.\<close>

lemma conversions_rows: "list_all (conversions_row pl) (arith_shapes pl)"
proof (cases pl)
  case Linux
  show ?thesis unfolding Linux by code_simp
next
  case Win32
  show ?thesis unfolding Win32 by code_simp
next
  case Apple
  show ?thesis unfolding Apple by code_simp
qed

lemma conversions_ok:
  assumes "arith_type pl l" "arith_type pl r"
  shows "conversion_ok pl (tshape l) (tshape r)"
  using conversions_rows [of pl] assms by (auto simp: list_all_iff conversions_row_def arith_type_def)

lemma usual_arith_conversions:
  assumes "arith_type pl l" "arith_type pl r"
  shows "arith_type pl (usual_arith_type pl l r)"
    and "c_width_sign (c_arith_of (usual_arith_type pl l r)) = c_width_sign (c_usual (c_arith_of l) (c_arith_of r)) \<longleftrightarrow>
           \<not> wider_signed (c_arith_of l) (c_arith_of r)"
    and "c_arith_of (usual_arith_type pl l r) = c_usual (c_arith_of l) (c_arith_of r) \<longleftrightarrow>
           \<not> wider_signed (c_arith_of l) (c_arith_of r) \<and> \<not> signed_long_first (c_arith_of l) (c_arith_of r)"
    and "is_integer (usual_arith_type pl l r) \<Longrightarrow>
           sizeof l \<le> sizeof (usual_arith_type pl l r) \<and> sizeof r \<le> sizeof (usual_arith_type pl l r)"
proof -
  let ?t = "usual_arith_type pl (shape_type (tshape l)) (shape_type (tshape r))"
  have t: "c_arith_of ?t = c_arith_of (usual_arith_type pl l r)"
    by (simp only: c_arith_of_shape [symmetric, of ?t] usual_arith_type_shape c_arith_of_shape)
  have i: "is_integer ?t = is_integer (usual_arith_type pl l r)" "sizeof ?t = sizeof (usual_arith_type pl l r)"
    using usual_arith_type_shape [of pl l r] by (simp_all add: tshape_def is_integer_def)
  note ok = conversions_ok [OF assms, unfolded conversion_ok_def Let_def t c_arith_of_shape usual_arith_type_shape]
  show "arith_type pl (usual_arith_type pl l r)" using ok unfolding arith_type_def by (rule conjunct1)
  show "c_width_sign (c_arith_of (usual_arith_type pl l r)) = c_width_sign (c_usual (c_arith_of l) (c_arith_of r)) \<longleftrightarrow>
      \<not> wider_signed (c_arith_of l) (c_arith_of r)"
    using ok [THEN conjunct2, THEN conjunct2, THEN conjunct1] .
  show "c_arith_of (usual_arith_type pl l r) = c_usual (c_arith_of l) (c_arith_of r) \<longleftrightarrow>
      \<not> wider_signed (c_arith_of l) (c_arith_of r) \<and> \<not> signed_long_first (c_arith_of l) (c_arith_of r)"
    using ok [THEN conjunct2, THEN conjunct1] .
  show "is_integer (usual_arith_type pl l r) \<Longrightarrow>
      sizeof l \<le> sizeof (usual_arith_type pl l r) \<and> sizeof r \<le> sizeof (usual_arith_type pl l r)"
    using ok [THEN conjunct2, THEN conjunct2, THEN conjunct2, unfolded i] by (simp add: tshape_def)
qed

text \<open>The integer promotions of the compiler are those of the standard.\<close>

definition promotion_ok :: "platform \<Rightarrow> type_kind \<times> int \<times> bool \<Rightarrow> bool" where
  "promotion_ok pl s \<longleftrightarrow>
     (let t = integer_promotion (shape_type s)
      in tshape t \<in> set (arith_shapes pl) \<and> c_arith_of t = c_promote (c_arith_of (shape_type s)) \<and>
         is_number (shape_type s))"

lemma promotions_ok: "list_all (promotion_ok pl) (arith_shapes pl)"
  by (cases pl; (simp only:)?; code_simp)

lemma promotion_c11:
  assumes "arith_type pl t"
  shows "arith_type pl (integer_promotion t)" "c_arith_of (integer_promotion t) = c_promote (c_arith_of t)" "is_number t"
proof -
  have ok: "promotion_ok pl (tshape t)"
    using promotions_ok [of pl] assms by (simp add: list_all_iff arith_type_def)
  have c: "is_integer (shape_type (tshape t)) = is_integer t" "is_flonum (shape_type (tshape t)) = is_flonum t"
    by (simp_all add: is_integer_def is_flonum_def tshape_def)
  have p: "tshape (integer_promotion (shape_type (tshape t))) = tshape (integer_promotion t)"
    by (simp add: integer_promotion_def c) (simp add: tshape_def)
  have q: "c_arith_of (integer_promotion (shape_type (tshape t))) = c_arith_of (integer_promotion t)"
    by (simp only: c_arith_of_shape [symmetric, of "integer_promotion (shape_type (tshape t))"] p c_arith_of_shape)
  show "arith_type pl (integer_promotion t)" "c_arith_of (integer_promotion t) = c_promote (c_arith_of t)" "is_number t"
    using ok unfolding promotion_ok_def Let_def p q c_arith_of_shape arith_type_def is_number_def c by auto
qed

section \<open>Type equality\<close>

text \<open>
  What a type says to a C program: the kind, the qualifiers, the signedness (and for \<open>char\<close> whether
  \<open>signed\<close> was written), whether a function is variadic; then the pointee, the element and size of an
  array, the result and parameters of a function, the tag of a struct or union. The alignment, the name, the
  attributes and the address of the record are not part of it; nor is the element type of a VLA.
\<close>

datatype tview = View "type_kind \<times> nat \<times> bool \<times> bool \<times> bool" view_shape
and view_shape =
    Plain | Pointer "tview option" | Array int "tview option"
  | Function "tview option" "tview list" | Tag nat

fun ty_view :: "ctype \<Rightarrow> tview" where
  "ty_view (CType a ba ma ra pa) =
     View (kind a, qual a, is_unsigned a, kind a = TY_CHAR \<and> is_signed_char a, is_variadic a)
       (case kind a of
          TY_PTR \<Rightarrow> Pointer (map_option ty_view ba)
        | TY_ARRAY \<Rightarrow> Array (tsize a) (map_option ty_view ba)
        | TY_FUNC \<Rightarrow> Function (map_option ty_view ra) (map ty_view pa)
        | TY_STRUCT \<Rightarrow> Tag (taddr a)
        | TY_UNION \<Rightarrow> Tag (taddr a)
        | _ \<Rightarrow> Plain)"

text \<open>\<open>completes v w\<close>: \<open>w\<close> is \<open>v\<close> with parameter lists given to some unprototyped functions.\<close>

inductive completes :: "tview \<Rightarrow> tview \<Rightarrow> bool" where
  plain: "completes (View h Plain) (View h Plain)"
| tag: "completes (View h (Tag t)) (View h (Tag t))"
| pointer: "rel_option completes b c \<Longrightarrow> completes (View h (Pointer b)) (View h (Pointer c))"
| array: "rel_option completes b c \<Longrightarrow> completes (View h (Array n b)) (View h (Array n c))"
| func: "rel_option completes r q \<Longrightarrow> ps = [] \<or> list_all2 completes ps qs \<Longrightarrow>
    completes (View h (Function r ps)) (View h (Function q qs))"

inductive_simps completes_simps [simp]:
  "completes (View h Plain) v"
  "completes (View h (Tag t)) v"
  "completes (View h (Pointer b)) v"
  "completes (View h (Array n b)) v"
  "completes (View h (Function r ps)) v"

lemma completes_refl:
  "completes v v"
  "completes (View h s) (View h s)"
proof -
  have a: "completes v v" and b: "\<forall>h. completes (View h s) (View h s)"
    by (induction v and s) (auto intro!: completes.intros option.rel_refl_strong list.rel_refl_strong)
  show "completes v v" by (rule a)
  show "completes (View h s) (View h s)" using b by (rule spec)
qed

lemma completes_head: "completes (View h s) c \<Longrightarrow> completes (View h' s') c \<Longrightarrow> h' = h"
  by (auto elim!: completes.cases)

lemma completes_list_refl [simp]: "list_all2 completes vs vs"
  by (rule list.rel_refl_strong) (rule completes_refl)

lemma type_equal_completes:
  "type_equal a b \<Longrightarrow> \<exists>c. completes (ty_view a) c \<and> completes (ty_view b) c"
  "type_equal_opt oa ob \<Longrightarrow>
     \<exists>c. rel_option completes (map_option ty_view oa) c \<and> rel_option completes (map_option ty_view ob) c"
  "params_equal pa pb \<Longrightarrow>
     \<exists>c. list_all2 completes (map ty_view pa) c \<and> list_all2 completes (map ty_view pb) c"
proof (induction a b and oa ob and pa pb rule: type_equal_type_equal_opt_params_equal.induct)
  case (1 a ba ma ra pa b bb mb rb pb)
  show ?case
  proof (cases "kind a = TY_FUNC")
    case True
    have h: "kind b = TY_FUNC" "qual b = qual a" "is_unsigned b = is_unsigned a" "is_variadic b = is_variadic a"
      "type_equal_opt ra rb" "pa = [] \<or> pb = [] \<or> params_equal pa pb"
      using 1(5) True by (auto split: if_splits)
    with 1 True obtain r where r: "rel_option completes (map_option ty_view ra) r" "rel_option completes (map_option ty_view rb) r"
      by auto
    have "\<exists>ps. (pa = [] \<or> list_all2 completes (map ty_view pa) ps) \<and> (pb = [] \<or> list_all2 completes (map ty_view pb) ps)"
    proof (cases "pa = [] \<or> pb = []")
      case True
      then show ?thesis using completes_list_refl by blast
    next
      case False
      with 1(4) h \<open>kind a = TY_FUNC\<close> 1(1-3) show ?thesis by auto
    qed
    then obtain ps where ps: "pa = [] \<or> list_all2 completes (map ty_view pa) ps" "pb = [] \<or> list_all2 completes (map ty_view pb) ps"
      by blast
    show ?thesis
      using h True r ps
      by (intro exI [of _ "View (TY_FUNC, qual a, is_unsigned a, False, is_variadic a) (Function r ps)"]) simp
  next
    case False
    with 1 show ?thesis by (cases "kind a") (auto split: if_splits)
  qed
next
  case (3 a b)
  then obtain c where "completes (ty_view a) c" "completes (ty_view b) c" by auto
  then show ?case by (intro exI [of _ "Some c"]) simp
qed auto

lemma completes_type_equal:
  "completes (ty_view a) c \<Longrightarrow> completes (ty_view b) c \<Longrightarrow> type_equal a b"
  "rel_option completes (map_option ty_view oa) oc \<Longrightarrow> rel_option completes (map_option ty_view ob) oc \<Longrightarrow>
     type_equal_opt oa ob"
  "list_all2 completes (map ty_view pa) pc \<Longrightarrow> list_all2 completes (map ty_view pb) pc \<Longrightarrow> params_equal pa pb"
proof (induction a b and oa ob and pa pb arbitrary: c and oc and pc rule: type_equal_type_equal_opt_params_equal.induct)
  case (1 a ba ma ra pa b bb mb rb pb)
  have h: "kind b = kind a" "qual b = qual a" "is_unsigned b = is_unsigned a" "is_variadic b = is_variadic a"
    "kind a = TY_CHAR \<Longrightarrow> is_signed_char b = is_signed_char a"
    using completes_head [OF 1(5) [unfolded ty_view.simps] 1(6) [unfolded ty_view.simps]] by auto
  show ?case
    using 1 h by (cases "kind a") auto
next
  case (3 a b)
  then show ?case by (cases oc) auto
next
  case "4_1"
  then show ?case by (cases oc) auto
next
  case "4_2"
  then show ?case by (cases oc) auto
next
  case (6 a as b bs)
  then show ?case by (cases pc) auto
next
  case "7_1"
  then show ?case by (cases pc) auto
next
  case "7_2"
  then show ?case by (cases pc) auto
qed auto

text \<open>The first test of \<open>type_equal\<close>, on the addresses, can be left out: a type equals itself.\<close>

lemma type_equal_same: "type_equal a a"
  using completes_type_equal(1) completes_refl(1) by blast

section \<open>Properties\<close>

text \<open>
  C16. Usual arithmetic conversions, of all arithmetic types (copies, qualified types and enumerations
  included): the compiler's common type is an arithmetic type; it has the width and signedness the C
  standard prescribes unless, after promotion, a signed operand is strictly wider than an unsigned one
  (the standard keeps the signed type, the compiler makes it unsigned); and it is the very type of the
  standard unless, moreover, a signed \<open>long\<close> is made unsigned, which becomes another unsigned type of the
  same size. The standard's conversions are stated with ranks and value ranges of their own.
\<close>

theorem usual_arith_type_c11:
  assumes "arith_type pl l" and "arith_type pl r"
  shows "arith_type pl (usual_arith_type pl l r) \<and>
         (c_width_sign (c_arith_of (usual_arith_type pl l r)) = c_width_sign (c_usual (c_arith_of l) (c_arith_of r)) \<longleftrightarrow>
            \<not> wider_signed (c_arith_of l) (c_arith_of r)) \<and>
         (c_arith_of (usual_arith_type pl l r) = c_usual (c_arith_of l) (c_arith_of r) \<longleftrightarrow>
            \<not> wider_signed (c_arith_of l) (c_arith_of r) \<and> \<not> signed_long_first (c_arith_of l) (c_arith_of r))"
  using usual_arith_conversions [OF assms] by blast

theorem usual_arith_type_c11_witness:
  "c_arith_of (usual_arith_type Linux (copy_type ty_char 7) ty_ushort) = C_signed_int \<and>
   c_usual (c_arith_of ty_uint) (c_arith_of (ty_long Linux)) = C_int 4 64 False \<and>
   c_arith_of (usual_arith_type Linux ty_uint (ty_long Linux)) \<noteq> C_int 4 64 False"
proof -
  have "arith_type Linux (copy_type ty_char 7)" "arith_type Linux ty_ushort" by code_simp+
  moreover have "c_usual (c_arith_of (copy_type ty_char 7)) (c_arith_of ty_ushort) = C_signed_int"
    "\<not> wider_signed (c_arith_of (copy_type ty_char 7)) (c_arith_of ty_ushort)"
    "\<not> signed_long_first (c_arith_of (copy_type ty_char 7)) (c_arith_of ty_ushort)" by code_simp+
  ultimately have 1: "c_arith_of (usual_arith_type Linux (copy_type ty_char 7) ty_ushort) = C_signed_int"
    using usual_arith_type_c11 [of Linux "copy_type ty_char 7" ty_ushort] by simp
  have "arith_type Linux ty_uint" "arith_type Linux (ty_long Linux)" by code_simp+
  moreover have u: "c_usual (c_arith_of ty_uint) (c_arith_of (ty_long Linux)) = C_int 4 64 False" by code_simp
  moreover have "wider_signed (c_arith_of ty_uint) (c_arith_of (ty_long Linux))" by code_simp
  ultimately show ?thesis
    using 1 u usual_arith_type_c11 [of Linux ty_uint "ty_long Linux"] by simp
qed

text \<open>
  C31. Which types \<open>_Generic\<close> (\<open>type_equal\<close>) takes for equal: exactly those whose views have a common
  completion, that is which agree in kind, qualifiers, signedness and variadicness, in the size and elements
  of arrays, in the results and parameters of functions and in the tags of structs and unions, where a
  function type without a parameter list agrees with any parameter list.
\<close>

theorem type_equal_composite:
  "type_equal a b \<longleftrightarrow> (\<exists>c. completes (ty_view a) c \<and> completes (ty_view b) c)"
  using type_equal_completes(1) completes_type_equal(1) by blast

end
