(* ===== verification/Ast.thy ===== *)
theory Ast
  imports CTypes
begin

text \<open>
  The syntax tree of \<open>src/rcc.h\<close>: \<open>NodeKind\<close>, \<open>LVar\<close>, \<open>Node\<close>. The scalar fields of a node are the
  record \<open>node_info\<close>; child pointers are options (\<open>None\<close> is a null pointer), and the statement and
  argument chains linked through \<open>next\<close> are lists. Fields only the code generator reads
  (labels, inline assembly, atomics) are left out. The tree owns its children: \<open>stmt_expr_result\<close>,
  which in the C code points at a node of \<open>body\<close>, is a copy of that node.
\<close>

datatype node_kind =
    ND_ADD | ND_SUB | ND_MUL | ND_DIV | ND_MOD | ND_SHL | ND_SHR | ND_BITAND | ND_BITXOR | ND_BITOR
  | ND_EQ | ND_NE | ND_LT | ND_LE | ND_ASSIGN | ND_POST_INC | ND_POST_DEC | ND_ADDR | ND_DEREF
  | ND_CAST | ND_BITNOT | ND_FUNCALL | ND_LVAR | ND_NUM | ND_RETURN | ND_IF | ND_FOR | ND_DO
  | ND_SWITCH | ND_CASE | ND_BREAK | ND_CONTINUE | ND_GOTO | ND_GOTO_IND | ND_LABEL | ND_LABEL_VAL
  | ND_STMT_EXPR | ND_BLOCK | ND_EXPR_STMT | ND_NULL | ND_STR | ND_MEMBER | ND_LOGAND | ND_LOGOR
  | ND_COND | ND_COMMA | ND_SIZEOF | ND_FNUM | ND_NEG | ND_NOT | ND_ZERO_INIT | ND_ASM | ND_VA_START
  | ND_VA_COPY | ND_VA_ARG | ND_ALLOCA | ND_ALLOCA_ZINIT | ND_CHAIN | ND_ATOMIC_LOAD
  | ND_ATOMIC_STORE | ND_ATOMIC_EXCHANGE | ND_ATOMIC_CAS | ND_ATOMIC_FENCE | ND_ATOMIC_FETCH_OP

record lvar =
  vname :: string
  voffset :: int
  vty :: "ctype option"
  vis_local :: bool
  vcleanup :: "string option"
  vasm_name :: "string option"

record node_info =
  nkind :: node_kind
  nty :: "ctype option"
  nval :: int
  funcname :: "string option"
  nvar :: "lvar option"
  nmember :: "member option"
  leaves :: "lvar list"

datatype node =
  Node (info: node_info) (lhs: "node option") (rhs: "node option") (ncond: "node option")
       (nthen: "node option") (nels: "node option") (ninit: "node option") (ninc: "node option")
       (nbody: "node list") (nargs: "node list") (stmt_expr_result: "node option")

abbreviation ndkind :: "node \<Rightarrow> node_kind" where "ndkind n \<equiv> nkind (info n)"
abbreviation ndty :: "node \<Rightarrow> ctype option" where "ndty n \<equiv> nty (info n)"
abbreviation ndval :: "node \<Rightarrow> int" where "ndval n \<equiv> nval (info n)"

section \<open>Building nodes\<close>

definition zero_node :: "node_kind \<Rightarrow> node_info" where
  "zero_node k = \<lparr>nkind = k, nty = None, nval = 0, funcname = None, nvar = None, nmember = None, leaves = []\<rparr>"

definition new_node :: "node_kind \<Rightarrow> node" where
  "new_node k = Node (zero_node k) None None None None None None None [] [] None"

definition new_binary :: "node_kind \<Rightarrow> node \<Rightarrow> node \<Rightarrow> node" where
  "new_binary k l r = Node (zero_node k) (Some l) (Some r) None None None None None [] [] None"

definition new_unary :: "node_kind \<Rightarrow> node \<Rightarrow> node" where
  "new_unary k e = Node (zero_node k) (Some e) None None None None None None [] [] None"

definition new_var_node :: "lvar \<Rightarrow> node" where
  "new_var_node v =
     Node ((zero_node ND_LVAR)\<lparr>nvar := Some v, nty := vty v\<rparr>) None None None None None None None [] [] None"

text \<open>A number node as \<open>new_scale_mul\<close> and the folder build it.\<close>

definition num_node :: "int \<Rightarrow> ctype option \<Rightarrow> node" where
  "num_node v t =
     Node ((zero_node ND_NUM)\<lparr>nval := v, nty := t\<rparr>) None None None None None None None [] [] None"

definition cast_node :: "node \<Rightarrow> ctype \<Rightarrow> node" where
  "cast_node e t =
     Node ((zero_node ND_CAST)\<lparr>nty := Some t\<rparr>) (Some e) None None None None None None [] [] None"

text \<open>Assigning to a field of a node.\<close>

fun set_info :: "(node_info \<Rightarrow> node_info) \<Rightarrow> node \<Rightarrow> node" where
  "set_info f (Node i l r c t e a b bo ar sr) = Node (f i) l r c t e a b bo ar sr"

fun set_lhs :: "node \<Rightarrow> node \<Rightarrow> node" where
  "set_lhs x (Node i l r c t e a b bo ar sr) = Node i (Some x) r c t e a b bo ar sr"

fun set_rhs :: "node \<Rightarrow> node \<Rightarrow> node" where
  "set_rhs x (Node i l r c t e a b bo ar sr) = Node i l (Some x) c t e a b bo ar sr"

definition set_ty :: "ctype option \<Rightarrow> node \<Rightarrow> node" where
  "set_ty t n = set_info (\<lambda>i. i\<lparr>nty := t\<rparr>) n"

lemma set_ty_sel [simp]:
  "ndty (set_ty t n) = t" "ndkind (set_ty t n) = ndkind n" "ndval (set_ty t n) = ndval n"
  "lhs (set_ty t n) = lhs n" "rhs (set_ty t n) = rhs n" "ncond (set_ty t n) = ncond n"
  "nthen (set_ty t n) = nthen n" "nels (set_ty t n) = nels n"
  "nbody (set_ty t n) = nbody n" "nargs (set_ty t n) = nargs n"
  by (cases n; simp add: set_ty_def)+

lemma set_child_sel [simp]:
  "info (set_lhs x n) = info n" "lhs (set_lhs x n) = Some x" "rhs (set_lhs x n) = rhs n"
  "info (set_rhs x n) = info n" "rhs (set_rhs x n) = Some x" "lhs (set_rhs x n) = lhs n"
  by (cases n; simp)+

lemma built_sel [simp]:
  "ndkind (num_node v t) = ND_NUM" "ndty (num_node v t) = t" "ndval (num_node v t) = v"
  "ndkind (cast_node e u) = ND_CAST" "ndty (cast_node e u) = Some u" "lhs (cast_node e u) = Some e"
  "ndkind (new_binary k l r) = k" "lhs (new_binary k l r) = Some l" "rhs (new_binary k l r) = Some r"
  "ndty (new_binary k l r) = None"
  "ndkind (new_unary k e) = k" "lhs (new_unary k e) = Some e" "ndty (new_unary k e) = None"
  by (simp_all add: num_node_def cast_node_def new_binary_def new_unary_def zero_node_def)

end
