(* ===== verification/CheckType.thy ===== *)
theory CheckType
  imports Ast
begin

text \<open>
  The type checker of \<open>src/type.c\<close>: \<open>add_type_internal\<close>. A node is typed after its children; a
  node that already has a type is left alone. What stops the compiler is a value of \<open>type_error\<close>:
  \<open>Null_deref\<close> where the code would follow a null pointer, \<open>Invalid_deref\<close> where it calls
  \<open>error_tok\<close>. The global symbol table (\<open>find_global_name\<close>) and the platform are parameters.
\<close>

datatype type_error = Null_deref | Invalid_deref

type_synonym 'a tc = "type_error + 'a"

definition with_node :: "node option \<Rightarrow> (node \<Rightarrow> 'a tc) \<Rightarrow> 'a tc" where
  "with_node n f = (case n of None \<Rightarrow> Inl Null_deref | Some m \<Rightarrow> f m)"

text \<open>Reading \<open>node->ty\<close> to look at the type: both pointers are followed.\<close>

definition with_ty :: "node option \<Rightarrow> (node \<Rightarrow> ctype \<Rightarrow> 'a tc) \<Rightarrow> 'a tc" where
  "with_ty n f = with_node n (\<lambda>m. case ndty m of None \<Rightarrow> Inl Null_deref | Some t \<Rightarrow> f m t)"

lemma with_simps [simp]:
  "with_node None f = Inl Null_deref" "with_node (Some m) f = f m"
  "with_ty None g = Inl Null_deref"
  "ndty m = Some t \<Longrightarrow> with_ty (Some m) g = g m t"
  by (simp_all add: with_node_def with_ty_def)

section \<open>Arithmetic operators\<close>

definition new_scale_mul :: "node \<Rightarrow> int \<Rightarrow> node" where
  "new_scale_mul r sz = set_ty (Some ty_int) (new_binary ND_MUL r (num_node (wrap32 sz) (Some ty_int)))"

text \<open>The two operands of an arithmetic node, converted to the common type.\<close>

definition convert_operands :: "ctype \<Rightarrow> node \<Rightarrow> ctype \<Rightarrow> node \<Rightarrow> ctype \<Rightarrow> node \<times> node" where
  "convert_operands t l lty r rty =
     (if is_flonum t then
        (if is_integer lty then cast_node l t else l,
         if is_integer rty then cast_node r t else r)
      else if is_integer t then
        (if sizeof t > sizeof lty then cast_node l t else l,
         if sizeof t > sizeof rty then cast_node r t else r)
      else (l, r))"

definition decayed :: "ctype \<Rightarrow> ctype option \<Rightarrow> ctype" where
  "decayed ty base = (if tkind ty = TY_ARRAY \<or> tkind ty = TY_VLA then pointer_to_opt base else ty)"

text \<open>The scaled index of pointer arithmetic, widened to eight bytes.\<close>

definition scaled_index :: "platform \<Rightarrow> node \<Rightarrow> ctype \<Rightarrow> node" where
  "scaled_index pl idx base =
     (let m = new_scale_mul idx (sizeof base)
      in case ndty m of
           None \<Rightarrow> m
         | Some t \<Rightarrow>
             if sizeof t < 8 then cast_node m (if unsigned_ty t then ty_ulong pl else ty_long pl) else m)"

definition type_add_sub :: "platform \<Rightarrow> node \<Rightarrow> node tc" where
  "type_add_sub pl n =
     with_ty (lhs n) (\<lambda>l lty. with_ty (rhs n) (\<lambda>r rty.
       if is_number lty \<and> is_number rty then
         (let t = usual_arith_type pl lty rty;
              (l', r') = convert_operands t l lty r rty
          in Inr (set_ty (Some t) (set_rhs r' (set_lhs l' n))))
       else case (tbase lty, tbase rty) of
         (Some lb, rb) \<Rightarrow>
           (if is_integer rty then
              Inr (set_ty (Some (decayed lty (Some lb))) (set_rhs (scaled_index pl r lb) n))
            else if is_integer lty \<and> rb \<noteq> None then
              (if ndkind n = ND_SUB then Inr (set_ty (Some ty_int) n)
               else Inr (set_ty (Some (decayed rty rb))
                          (set_rhs (scaled_index pl l (the rb)) (set_lhs r n))))
            else Inr (set_ty (Some ty_int) n))
       | (None, Some rb) \<Rightarrow>
           (if is_integer lty then
              (if ndkind n = ND_SUB then Inr (set_ty (Some ty_int) n)
               else Inr (set_ty (Some (decayed rty (Some rb)))
                          (set_rhs (scaled_index pl l rb) (set_lhs r n))))
            else Inr (set_ty (Some ty_int) n))
       | (None, None) \<Rightarrow> Inr (set_ty (Some ty_int) n)))"

definition type_arith :: "platform \<Rightarrow> node \<Rightarrow> node tc" where
  "type_arith pl n =
     with_ty (lhs n) (\<lambda>l lty. with_ty (rhs n) (\<lambda>r rty.
       let t = usual_arith_type pl lty rty;
           (l', r') = convert_operands t l lty r rty
       in Inr (set_ty (Some t) (set_rhs r' (set_lhs l' n)))))"

definition type_neg :: "node \<Rightarrow> node tc" where
  "type_neg n =
     with_ty (lhs n) (\<lambda>_ t. Inr (set_ty (Some (if is_flonum t then t else integer_promotion t)) n))"

definition type_promoted :: "node \<Rightarrow> node tc" where
  "type_promoted n = with_ty (lhs n) (\<lambda>_ t. Inr (set_ty (Some (integer_promotion t)) n))"

definition type_compare :: "platform \<Rightarrow> node \<Rightarrow> node tc" where
  "type_compare pl n =
     with_ty (lhs n) (\<lambda>l lty. with_ty (rhs n) (\<lambda>r rty.
       if is_number lty \<and> is_number rty then
         (let t = usual_arith_type pl lty rty;
              (l', r') = convert_operands t l lty r rty
          in Inr (set_ty (Some ty_int) (set_rhs r' (set_lhs l' n))))
       else Inr (set_ty (Some ty_int) n)))"

section \<open>Assignment, conditional and comma\<close>

definition type_assign :: "node \<Rightarrow> node tc" where
  "type_assign n =
     with_node (lhs n) (\<lambda>l. with_node (rhs n) (\<lambda>r.
       case (ndty l, ndty r) of
         (Some lt, Some rt) \<Rightarrow>
           (let lf = is_flonum lt; rf = is_flonum rt
            in if (lf \<and> \<not> rf) \<or> (\<not> lf \<and> rf) \<or> (lf \<and> rf \<and> sizeof lt \<noteq> sizeof rt)
               then Inr (set_ty (Some lt) (set_rhs (cast_node r lt) n))
               else if \<not> lf \<and> \<not> rf \<and> is_integer lt \<and> is_integer rt \<and> sizeof lt > sizeof rt
               then Inr (set_ty (Some lt) (set_rhs (cast_node r lt) n))
               else Inr (set_ty (Some lt) n))
       | _ \<Rightarrow> Inr (set_ty (ndty l) n)))"

definition pointerish :: "ctype \<Rightarrow> bool" where
  "pointerish t \<longleftrightarrow> tkind t = TY_PTR \<or> tkind t = TY_ARRAY \<or> tkind t = TY_VLA"

definition zero_const :: "node \<Rightarrow> bool" where
  "zero_const n \<longleftrightarrow>
     (case ndty n of None \<Rightarrow> False | Some t \<Rightarrow> is_integer t \<and> ndkind n = ND_NUM \<and> ndval n = 0)"

text \<open>A null pointer constant: the integer 0, or that cast to an unqualified \<open>void *\<close>.\<close>

definition null_const :: "node \<Rightarrow> bool" where
  "null_const n \<longleftrightarrow>
     zero_const n \<or>
     (ndkind n = ND_CAST \<and>
      (case ndty n of
         None \<Rightarrow> False
       | Some t \<Rightarrow>
           tkind t = TY_PTR \<and>
           (case tbase t of None \<Rightarrow> False | Some b \<Rightarrow> tkind b = TY_VOID \<and> tqual b = 0) \<and>
           (case lhs n of None \<Rightarrow> False | Some i \<Rightarrow> zero_const i)))"

definition set_qual :: "nat \<Rightarrow> ctype \<Rightarrow> ctype" where
  "set_qual q t = CType ((tinfo t)\<lparr>qual := q\<rparr>) (tbase t) (tmembers t) (treturn t) (tparams t)"

definition set_base :: "ctype \<Rightarrow> ctype \<Rightarrow> ctype" where
  "set_base b t = CType (tinfo t) (Some b) (tmembers t) (treturn t) (tparams t)"

text \<open>The composite of two pointer operands with bases \<open>tb\<close> and \<open>eb\<close>.\<close>

definition composite_pointer :: "ctype \<Rightarrow> ctype \<Rightarrow> ctype \<Rightarrow> ctype \<Rightarrow> ctype" where
  "composite_pointer t tb e eb =
     (if tkind tb = TY_VOID \<or> tkind eb = TY_VOID then
        (let (vptr, vbase) = (if tkind eb \<noteq> TY_VOID then (t, tb) else (e, eb));
             combined = tqual tb OR tqual eb
         in if tqual vbase \<noteq> combined then set_base (set_qual combined vbase) vptr else vptr)
      else
        (let chosen = decayed t (Some tb); other = decayed e (Some eb);
             use_other = (tkind tb = TY_ARRAY \<and> sizeof tb = 0 \<and> tkind eb = TY_ARRAY \<and> sizeof eb > 0);
             (ch, cb) = (if use_other then (other, eb) else (chosen, tb));
             combined = tqual cb OR (if use_other then tqual tb else tqual eb)
         in if tqual cb \<noteq> combined then set_base (set_qual combined cb) ch else ch))"

definition type_cond :: "platform \<Rightarrow> node \<Rightarrow> node tc" where
  "type_cond pl n =
     with_node (nthen n) (\<lambda>th. with_node (nels n) (\<lambda>el.
       let is_void = (\<lambda>t. case t of None \<Rightarrow> False | Some t \<Rightarrow> tkind t = TY_VOID)
       in if is_void (ndty th) \<or> is_void (ndty el) then Inr (set_ty (Some ty_void) n)
          else case (ndty th, ndty el) of
            (Some t, Some e) \<Rightarrow>
              (if null_const th \<and> pointerish e then
                 Inr (set_ty (Some (decayed e (tbase e))) n)
               else if null_const el \<and> pointerish t then
                 Inr (set_ty (Some (decayed t (tbase t))) n)
               else if pointerish t \<and> pointerish e then
                 (case (tbase t, tbase e) of
                    (Some tb, Some eb) \<Rightarrow> Inr (set_ty (Some (composite_pointer t tb e eb)) n)
                  | _ \<Rightarrow> Inl Null_deref)
               else if is_number t \<and> is_number e then
                 Inr (set_ty (Some (usual_arith_type pl t e)) n)
               else Inr (set_ty (Some t) n))
          | (Some t, None) \<Rightarrow> Inr (set_ty (Some t) n)
          | (None, e) \<Rightarrow> Inr (set_ty e n)))"

definition type_comma :: "node \<Rightarrow> node tc" where
  "type_comma n =
     with_ty (rhs n) (\<lambda>_ t.
       if tkind t = TY_ARRAY \<or> tkind t = TY_VLA then Inr (set_ty (Some (pointer_to_opt (tbase t))) n)
       else if tkind t = TY_FUNC then Inr (set_ty (Some (pointer_to t)) n)
       else Inr (set_ty (Some t) n))"

section \<open>Primary and unary expressions\<close>

definition type_lvar :: "node \<Rightarrow> node tc" where
  "type_lvar n =
     (case nvar (info n) of
        None \<Rightarrow> Inl Null_deref
      | Some v \<Rightarrow>
          (let v' = (if vty v = None then v\<lparr>vty := Some ty_int\<rparr> else v)
           in Inr (set_info (\<lambda>i. i\<lparr>nvar := Some v', nty := vty v'\<rparr>) n)))"

definition type_addr :: "node \<Rightarrow> node tc" where
  "type_addr n =
     with_node (lhs n) (\<lambda>l.
       Inr (set_ty (Some (pointer_to_opt (ndty l))) n))"

definition type_deref :: "node \<Rightarrow> node tc" where
  "type_deref n =
     with_ty (lhs n) (\<lambda>_ t.
       if \<not> pointerish t then Inl Invalid_deref else Inr (set_ty (tbase t) n))"

definition type_cast :: "node \<Rightarrow> node tc" where
  "type_cast n = (if ndty n = None then with_node (lhs n) (\<lambda>l. Inr (set_ty (ndty l) n)) else Inr n)"

text \<open>The result type of a call by name.\<close>

definition named_call_type :: "(string \<Rightarrow> lvar option) \<Rightarrow> string \<Rightarrow> ctype" where
  "named_call_type genv f =
     (case genv f of
        Some g \<Rightarrow>
          (case vty g of
             Some t \<Rightarrow>
               (if tkind t = TY_FUNC then
                  (case treturn t of Some r \<Rightarrow> r
                   | None \<Rightarrow> if f = ''alloca'' then pointer_to ty_void else ty_int)
                else if f = ''alloca'' then pointer_to ty_void else ty_int)
           | None \<Rightarrow> if f = ''alloca'' then pointer_to ty_void else ty_int)
      | None \<Rightarrow> if f = ''alloca'' then pointer_to ty_void else ty_int)"

definition call_type :: "(string \<Rightarrow> lvar option) \<Rightarrow> node \<Rightarrow> ctype option" where
  "call_type genv n =
     (case (case lhs n of None \<Rightarrow> None | Some l \<Rightarrow> ndty l) of
        Some t \<Rightarrow>
          (case tbase t of
             Some b \<Rightarrow>
               if tkind t = TY_PTR \<and> tkind b = TY_FUNC then treturn b
               else if tkind t = TY_FUNC then treturn t
               else (case funcname (info n) of Some f \<Rightarrow> Some (named_call_type genv f) | None \<Rightarrow> Some ty_int)
           | None \<Rightarrow>
               if tkind t = TY_FUNC then treturn t
               else (case funcname (info n) of Some f \<Rightarrow> Some (named_call_type genv f) | None \<Rightarrow> Some ty_int))
      | None \<Rightarrow>
          (case funcname (info n) of Some f \<Rightarrow> Some (named_call_type genv f) | None \<Rightarrow> Some ty_int))"

definition member_type :: "member \<Rightarrow> ctype" where
  "member_type m =
     (if bit_width (minfo m) > 0 then
        (let bw = bit_width (minfo m); uns = unsigned_ty (mty m)
         in if sizeof (mty m) \<ge> 8 then mty m
            else if bw < 32 \<or> (bw = 32 \<and> \<not> uns) then ty_int
            else if bw = 32 then ty_uint
            else mty m)
      else mty m)"

definition type_member :: "node \<Rightarrow> node tc" where
  "type_member n =
     (case nmember (info n) of
        None \<Rightarrow> Inl Null_deref
      | Some m \<Rightarrow> Inr (set_ty (Some (member_type m)) n))"

section \<open>The dispatch and the recursion\<close>

text \<open>The \<open>switch\<close> on the kind, for a node whose children are typed.\<close>

definition type_node :: "platform \<Rightarrow> (string \<Rightarrow> lvar option) \<Rightarrow> node \<Rightarrow> node tc" where
  "type_node pl genv n =
     (case ndkind n of
        ND_ADD \<Rightarrow> type_add_sub pl n
      | ND_SUB \<Rightarrow> type_add_sub pl n
      | ND_MUL \<Rightarrow> type_arith pl n
      | ND_DIV \<Rightarrow> type_arith pl n
      | ND_MOD \<Rightarrow> type_arith pl n
      | ND_BITAND \<Rightarrow> type_arith pl n
      | ND_BITXOR \<Rightarrow> type_arith pl n
      | ND_BITOR \<Rightarrow> type_arith pl n
      | ND_NEG \<Rightarrow> type_neg n
      | ND_NOT \<Rightarrow> Inr (set_ty (Some ty_int) n)
      | ND_SHL \<Rightarrow> type_promoted n
      | ND_SHR \<Rightarrow> type_promoted n
      | ND_LOGAND \<Rightarrow> Inr (set_ty (Some ty_int) n)
      | ND_LOGOR \<Rightarrow> Inr (set_ty (Some ty_int) n)
      | ND_ASSIGN \<Rightarrow> type_assign n
      | ND_EQ \<Rightarrow> type_compare pl n
      | ND_NE \<Rightarrow> type_compare pl n
      | ND_LT \<Rightarrow> type_compare pl n
      | ND_LE \<Rightarrow> type_compare pl n
      | ND_SIZEOF \<Rightarrow> Inr (set_ty (Some ty_int) n)
      | ND_POST_INC \<Rightarrow> with_node (lhs n) (\<lambda>l. Inr (set_ty (ndty l) n))
      | ND_POST_DEC \<Rightarrow> with_node (lhs n) (\<lambda>l. Inr (set_ty (ndty l) n))
      | ND_COND \<Rightarrow> type_cond pl n
      | ND_COMMA \<Rightarrow> type_comma n
      | ND_NUM \<Rightarrow> Inr (set_ty (Some ty_int) n)
      | ND_LVAR \<Rightarrow> type_lvar n
      | ND_ADDR \<Rightarrow> type_addr n
      | ND_DEREF \<Rightarrow> type_deref n
      | ND_CAST \<Rightarrow> type_cast n
      | ND_BITNOT \<Rightarrow> type_promoted n
      | ND_FUNCALL \<Rightarrow> Inr (set_ty (call_type genv n) n)
      | ND_STR \<Rightarrow> Inr (set_ty (Some (pointer_to ty_char)) n)
      | ND_MEMBER \<Rightarrow> type_member n
      | ND_STMT_EXPR \<Rightarrow>
          Inr (set_ty (case stmt_expr_result n of Some r \<Rightarrow> ndty r | None \<Rightarrow> Some ty_int) n)
      | _ \<Rightarrow> Inr n)"

text \<open>
  The children are typed in the order of the C code: the seven child pointers, the body chain,
  the argument chain. The result of a statement expression, a node of the body, is typed with it. The
  second walk over the arguments of a call finds them typed and is not repeated here.
\<close>

fun add_type :: "platform \<Rightarrow> (string \<Rightarrow> lvar option) \<Rightarrow> node \<Rightarrow> node tc"
  and add_type_opt :: "platform \<Rightarrow> (string \<Rightarrow> lvar option) \<Rightarrow> node option \<Rightarrow> node option tc"
  and add_type_list :: "platform \<Rightarrow> (string \<Rightarrow> lvar option) \<Rightarrow> node list \<Rightarrow> node list tc" where
  "add_type pl g (Node i l r c t e a b bo ar sr) =
     (if nty i \<noteq> None then Inr (Node i l r c t e a b bo ar sr)
      else case add_type_opt pl g l of Inl x \<Rightarrow> Inl x | Inr l' \<Rightarrow>
           (case add_type_opt pl g r of Inl x \<Rightarrow> Inl x | Inr r' \<Rightarrow>
           (case add_type_opt pl g c of Inl x \<Rightarrow> Inl x | Inr c' \<Rightarrow>
           (case add_type_opt pl g t of Inl x \<Rightarrow> Inl x | Inr t' \<Rightarrow>
           (case add_type_opt pl g e of Inl x \<Rightarrow> Inl x | Inr e' \<Rightarrow>
           (case add_type_opt pl g a of Inl x \<Rightarrow> Inl x | Inr a' \<Rightarrow>
           (case add_type_opt pl g b of Inl x \<Rightarrow> Inl x | Inr b' \<Rightarrow>
           (case add_type_list pl g bo of Inl x \<Rightarrow> Inl x | Inr bo' \<Rightarrow>
           (case add_type_list pl g ar of Inl x \<Rightarrow> Inl x | Inr ar' \<Rightarrow>
           (case (if nkind i = ND_STMT_EXPR then add_type_opt pl g sr else Inr sr) of
              Inl x \<Rightarrow> Inl x
            | Inr sr' \<Rightarrow> type_node pl g (Node i l' r' c' t' e' a' b' bo' ar' sr')))))))))))"
| "add_type_opt pl g None = Inr None"
| "add_type_opt pl g (Some n) =
     (case add_type pl g n of Inl x \<Rightarrow> Inl x | Inr n' \<Rightarrow> Inr (Some n'))"
| "add_type_list pl g [] = Inr []"
| "add_type_list pl g (n # ns) =
     (case add_type pl g n of Inl x \<Rightarrow> Inl x
      | Inr n' \<Rightarrow> (case add_type_list pl g ns of Inl x \<Rightarrow> Inl x | Inr ns' \<Rightarrow> Inr (n' # ns')))"

definition check_type :: "platform \<Rightarrow> (string \<Rightarrow> lvar option) \<Rightarrow> node \<Rightarrow> node tc" where
  "check_type pl g n = add_type pl g n"

section \<open>Facts about the checker\<close>

lemma add_type_typed: "ndty n = Some t \<Longrightarrow> add_type pl g n = Inr n"
  by (cases n) simp


lemma add_type_binary:
  "add_type pl g (new_binary k l r) =
     (case add_type pl g l of Inl x \<Rightarrow> Inl x | Inr l' \<Rightarrow>
      (case add_type pl g r of Inl x \<Rightarrow> Inl x | Inr r' \<Rightarrow> type_node pl g (new_binary k l' r')))"
  if "k \<noteq> ND_STMT_EXPR"
  using that by (simp add: new_binary_def zero_node_def split: sum.splits)


section \<open>The typing rules of the standard\<close>

text \<open>
  \<open>c_expr pl n a\<close>: by the rules of the C standard the tree \<open>n\<close> over typed operands and untyped
  literals has type \<open>a\<close>. An operator is left out where the compiler's common type is not the standard's
  (\<open>usual_arith_type_c11\<close>).
\<close>

fun c_integer :: "c_arith \<Rightarrow> bool" where
  "c_integer (C_int r n u) = True"
| "c_integer (C_float r) = False"

definition c_agreed :: "c_arith \<Rightarrow> c_arith \<Rightarrow> bool" where
  "c_agreed a b \<longleftrightarrow> \<not> wider_signed a b \<and> \<not> signed_long_first a b"



text \<open>
  An operand \<open>m\<close> converted to the common type \<open>t\<close>: as it is, or below a cast to \<open>t\<close>, and then an
  integer of the width of \<open>t\<close> when \<open>t\<close> is an integer type, a floating value when \<open>t\<close> is floating.
\<close>

fun same_class :: "c_arith \<Rightarrow> c_arith \<Rightarrow> bool" where
  "same_class (C_int r n u) (C_int q m v) \<longleftrightarrow> n = m"
| "same_class (C_float r) (C_float q) \<longleftrightarrow> True"
| "same_class _ _ \<longleftrightarrow> False"

definition converted :: "node \<Rightarrow> ctype \<Rightarrow> node \<Rightarrow> bool" where
  "converted m t m' \<longleftrightarrow>
     (m' = m \<or> m' = cast_node m t) \<and>
     (case ndty m' of None \<Rightarrow> False | Some u \<Rightarrow> same_class (c_arith_of u) (c_arith_of t))"




lemma c_integer_of: "c_integer (c_arith_of t) \<longleftrightarrow> \<not> is_flonum t"
  by (auto simp: c_arith_of_def is_flonum_def)

lemma same_class_refl [simp]: "same_class a a"
  by (cases a) auto

text \<open>What \<open>convert_operands\<close> does to two operands of arithmetic type.\<close>

lemma convert_operands_converted:
  assumes l: "ndty l = Some lt" "arith_type pl lt" and r: "ndty r = Some rt" "arith_type pl rt"
    and c: "convert_operands (usual_arith_type pl lt rt) l lt r rt = (l', r')"
  shows "converted l (usual_arith_type pl lt rt) l'" "converted r (usual_arith_type pl lt rt) r'"
proof -
  let ?t = "usual_arith_type pl lt rt"
  note n = promotion_c11(3) [OF l(2)] promotion_c11(3) [OF r(2)]
  note cls = usual_arith_class [OF n, of pl] and sz = usual_arith_conversions(4) [OF l(2) r(2)]
  have int: "same_class (c_arith_of u) (c_arith_of v)" if "is_integer u" "is_integer v" "sizeof u = sizeof v" for u v
    using that integer_cases by (auto simp: c_arith_of_def is_flonum_def)
  have flt: "same_class (c_arith_of u) (c_arith_of v)" if "is_flonum u" "is_flonum v" for u v
    using that by (auto simp: c_arith_of_def is_flonum_def)
  have "converted l ?t l' \<and> converted r ?t r'"
  proof (cases "is_flonum ?t")
    case True
    then show ?thesis
      using c l(1) r(1) n flt integer_cases by (auto simp: convert_operands_def converted_def is_number_def)
  next
    case False
    then have "is_integer ?t" "is_integer lt" "is_integer rt"
      using cls n by (auto simp: is_number_def)
    with sz False show ?thesis
      using c l(1) r(1) int by (auto simp: convert_operands_def converted_def)
  qed
  then show "converted l ?t l'" "converted r ?t r'" by auto
qed

text \<open>The node of a binary arithmetic operator or comparison whose operands are typed.\<close>

lemma type_node_arith:
  assumes l: "ndty l = Some lt" "arith_type pl lt" and r: "ndty r = Some rt" "arith_type pl rt"
    and c: "convert_operands (usual_arith_type pl lt rt) l lt r rt = (l', r')"
  shows "k \<in> {ND_ADD, ND_SUB, ND_MUL, ND_DIV, ND_MOD, ND_BITAND, ND_BITXOR, ND_BITOR} \<Longrightarrow>
           type_node pl g (new_binary k l r) = Inr (set_ty (Some (usual_arith_type pl lt rt)) (new_binary k l' r'))"
    and "k \<in> {ND_EQ, ND_NE, ND_LT, ND_LE} \<Longrightarrow>
           type_node pl g (new_binary k l r) = Inr (set_ty (Some ty_int) (new_binary k l' r'))"
proof -
  note n = promotion_c11(3) [OF l(2)] promotion_c11(3) [OF r(2)]
  have b: "set_rhs r' (set_lhs l' (new_binary k l r)) = new_binary k l' r'"
    by (simp add: new_binary_def zero_node_def)
  show "k \<in> {ND_ADD, ND_SUB, ND_MUL, ND_DIV, ND_MOD, ND_BITAND, ND_BITXOR, ND_BITOR} \<Longrightarrow>
      type_node pl g (new_binary k l r) = Inr (set_ty (Some (usual_arith_type pl lt rt)) (new_binary k l' r'))"
    using l(1) r(1) c n b by (auto simp: type_node_def type_add_sub_def type_arith_def Let_def)
  show "k \<in> {ND_EQ, ND_NE, ND_LT, ND_LE} \<Longrightarrow>
      type_node pl g (new_binary k l r) = Inr (set_ty (Some ty_int) (new_binary k l' r'))"
    using l(1) r(1) c n b by (auto simp: type_node_def type_compare_def Let_def)
qed

lemma add_type_binary_typed:
  assumes "add_type pl g l = Inr ml" "add_type pl g r = Inr mr" "k \<noteq> ND_STMT_EXPR"
  shows "add_type pl g (new_binary k l r) = type_node pl g (new_binary k ml mr)"
  using assms by (simp add: add_type_binary)



section \<open>Properties\<close>



text \<open>
  C28. The operands of a binary arithmetic operator, whatever their arithmetic types, are converted: the
  typed node has the common type, of the standard except for the pairs of types the compiler gets wrong, and
  each operand is either the operand itself or a cast of it to the common type, and is an integer of the
  width of the common type when that is an integer type, and floating point when it is.
\<close>

theorem arith_operands_converted:
  assumes "ndty l = Some lt" "ndty r = Some rt" "arith_type pl lt" "arith_type pl rt"
    and "k \<in> {ND_ADD, ND_SUB, ND_MUL, ND_DIV, ND_MOD, ND_BITAND, ND_BITXOR, ND_BITOR}"
  shows "\<exists>l' r' t. check_type pl genv (new_binary k l r) = Inr (set_ty (Some t) (new_binary k l' r')) \<and>
           arith_type pl t \<and>
           (c_arith_of t = c_usual (c_arith_of lt) (c_arith_of rt) \<longleftrightarrow> c_agreed (c_arith_of lt) (c_arith_of rt)) \<and>
           converted l t l' \<and> converted r t r'"
proof -
  obtain l' r' where c: "convert_operands (usual_arith_type pl lt rt) l lt r rt = (l', r')" by fastforce
  have "k \<noteq> ND_STMT_EXPR" using assms(5) by auto
  then have "check_type pl genv (new_binary k l r) = Inr (set_ty (Some (usual_arith_type pl lt rt)) (new_binary k l' r'))"
    using type_node_arith(1) [OF assms(1,3,2,4) c assms(5)] assms(1,2)
    by (simp add: check_type_def add_type_binary_typed add_type_typed)
  then show ?thesis
    using usual_arith_conversions(1,3) [OF assms(3,4)] convert_operands_converted [OF assms(1,3,2,4) c]
    unfolding c_agreed_def by blast
qed

theorem arith_operands_converted_witness:
  "\<exists>l' r' t. check_type Linux (\<lambda>_. None) (new_binary ND_ADD (num_node 1 (Some ty_char)) (num_node 2 (Some ty_llong)))
       = Inr (set_ty (Some t) (new_binary ND_ADD l' r')) \<and>
     arith_type Linux t \<and> (c_arith_of t = c_usual (c_arith_of ty_char) (c_arith_of ty_llong) \<longleftrightarrow> c_agreed (c_arith_of ty_char) (c_arith_of ty_llong)) \<and>
     converted (num_node 1 (Some ty_char)) t l' \<and> converted (num_node 2 (Some ty_llong)) t r'"
proof -
  have "arith_type Linux ty_char" "arith_type Linux ty_llong" by code_simp+
  then show ?thesis by (intro arith_operands_converted) simp_all
qed

text \<open>
  Pointer addition: \<open>i + p\<close> and \<open>p + i\<close> are the same typed tree, a pointer (an array decays)
  plus the index multiplied by the element size. The product has type \<open>int\<close> whatever the type of the
  index, and is widened to \<open>long\<close> only afterwards.
\<close>

theorem pointer_add_commutes:
  assumes "ndty p = Some pt" "tbase pt = Some b" "\<not> is_number pt"
    and "ndty i = Some it" "is_integer it" "tbase it = None"
  shows "check_type pl genv (new_binary ND_ADD i p) = check_type pl genv (new_binary ND_ADD p i) \<and>
         check_type pl genv (new_binary ND_ADD p i) =
           Inr (set_ty (Some (decayed pt (Some b)))
             (new_binary ND_ADD p
               (cast_node (set_ty (Some ty_int)
                  (new_binary ND_MUL i (num_node (wrap32 (sizeof b)) (Some ty_int)))) (ty_long pl))))"
  using assms
  by (simp add: check_type_def add_type_binary add_type_typed type_node_def type_add_sub_def
      scaled_index_def new_scale_mul_def Let_def is_number_def)
    (simp add: new_binary_def set_ty_def static_types)

theorem pointer_add_commutes_witness:
  "check_type Linux (\<lambda>_. None) (new_binary ND_ADD (num_node 3 (Some (ty_long Linux))) (num_node 0 (Some (pointer_to ty_int)))) =
   check_type Linux (\<lambda>_. None) (new_binary ND_ADD (num_node 0 (Some (pointer_to ty_int))) (num_node 3 (Some (ty_long Linux))))"
  by (rule pointer_add_commutes [where pt = "pointer_to ty_int" and b = ty_int and it = "ty_long Linux", THEN conjunct1])
    (simp_all add: is_number_def is_integer_def static_types pointer_to_opt_def is_flonum_def)

end
