(* ===== verification/Outcome.thy ===== *)
theory Outcome
  imports Prelude
begin

text \<open>
  Results of code that may leave the C standard or not return: \<open>Done\<close> a value, \<open>UB\<close> where the C code has
  undefined behaviour (signed overflow, division overflow, a bad shift, an index out of bounds, a null
  pointer followed), \<open>Fuel\<close> where the recursion went deeper than the fuel of the model.
\<close>

datatype 'a res = Fuel | UB | Done (the_res: 'a)

fun rbind :: "'a res \<Rightarrow> ('a \<Rightarrow> 'b res) \<Rightarrow> 'b res" where
  "rbind Fuel f = Fuel"
| "rbind UB f = UB"
| "rbind (Done x) f = f x"

definition rmap :: "('a \<Rightarrow> 'b) \<Rightarrow> 'a res \<Rightarrow> 'b res" where
  "rmap f x = rbind x (\<lambda>v. Done (f v))"

lemma rbind_cong [fundef_cong]:
  "x = y \<Longrightarrow> (\<And>v. y = Done v \<Longrightarrow> f v = g v) \<Longrightarrow> rbind x f = rbind y g"
  by (cases y) auto

lemma rbind_eq_Done [simp]: "rbind x f = Done y \<longleftrightarrow> (\<exists>v. x = Done v \<and> f v = Done y)"
  by (cases x) auto

lemma rbind_assoc: "rbind (rbind x f) g = rbind x (\<lambda>v. rbind (f v) g)"
  by (cases x) auto

lemma rmap_simps [simp]: "rmap f Fuel = Fuel" "rmap f UB = UB" "rmap f (Done v) = Done (f v)"
  by (simp_all add: rmap_def)

lemma rmap_eq_Done [simp]: "rmap f x = Done y \<longleftrightarrow> (\<exists>v. x = Done v \<and> y = f v)"
  by (cases x) auto

text \<open>A signed result that must be representable.\<close>

definition ck32 :: "int \<Rightarrow> int res" where
  "ck32 x = (if in32 x then Done x else UB)"

definition ck64 :: "int \<Rightarrow> int res" where
  "ck64 x = (if in64 x then Done x else UB)"

lemma ck_eq_Done [simp]:
  "ck32 x = Done y \<longleftrightarrow> in32 x \<and> y = x"
  "ck64 x = Done y \<longleftrightarrow> in64 x \<and> y = x"
  by (auto simp: ck32_def ck64_def)

lemma ck_not_Fuel [simp]: "ck32 x \<noteq> Fuel" "ck64 x \<noteq> Fuel"
  by (simp_all add: ck32_def ck64_def)

text \<open>Information order: more fuel only turns \<open>Fuel\<close> into an answer.\<close>

definition res_le :: "'a res \<Rightarrow> 'a res \<Rightarrow> bool" where
  "res_le x y \<longleftrightarrow> x = Fuel \<or> x = y"

lemma res_le_refl [simp]: "res_le x x"
  by (simp add: res_le_def)

lemma res_le_Done: "res_le (Done v) y \<Longrightarrow> y = Done v"
  by (simp add: res_le_def)

lemma res_le_rbind: "res_le x y \<Longrightarrow> (\<And>v. x = Done v \<Longrightarrow> res_le (f v) (g v)) \<Longrightarrow> res_le (rbind x f) (rbind y g)"
  by (cases x) (auto simp: res_le_def)


section \<open>Runs of operations that implement an abstract one\<close>

fun run_ops :: "('op \<Rightarrow> 's \<Rightarrow> 's res) \<Rightarrow> 'op list \<Rightarrow> 's \<Rightarrow> 's res" where
  "run_ops step [] s = Done s"
| "run_ops step (x # xs) s = rbind (step x s) (run_ops step xs)"

lemma run_ops_append: "run_ops step (xs @ ys) s = rbind (run_ops step xs s) (run_ops step ys)"
proof (induction xs arbitrary: s)
  case (Cons x xs)
  then have "run_ops step (xs @ ys) = (\<lambda>s. rbind (run_ops step xs s) (run_ops step ys))" by (intro ext)
  then show ?case by (simp add: rbind_assoc)
qed simp

text \<open>
  The contract of a component with a state: in a state of the invariant every allowed operation succeeds, keeps
  the invariant and does to the abstract state what the specification says.
\<close>

locale simulation =
  fixes step :: "'op \<Rightarrow> 's \<Rightarrow> 's res"
    and allowed :: "'op \<Rightarrow> bool"
    and inv :: "'s \<Rightarrow> bool"
    and abs :: "'s \<Rightarrow> 'a"
    and astep :: "'op \<Rightarrow> 'a \<Rightarrow> 'a"
  assumes step_sim: "inv s \<Longrightarrow> allowed x \<Longrightarrow> \<exists>s'. step x s = Done s' \<and> inv s' \<and> abs s' = astep x (abs s)"
begin

lemma run_sim:
  "inv s \<Longrightarrow> list_all allowed xs \<Longrightarrow> \<exists>s'. run_ops step xs s = Done s' \<and> inv s' \<and> abs s' = fold astep xs (abs s)"
proof (induction xs arbitrary: s)
  case (Cons x xs)
  from step_sim [of s x] Cons.prems obtain s1 where s1: "step x s = Done s1" "inv s1" "abs s1 = astep x (abs s)" by auto
  from Cons.IH [OF s1(2)] Cons.prems s1 show ?case by auto
qed simp

end

section \<open>Errors\<close>

text \<open>A call of \<open>error\<close> ends the compiler with a message: the left side of a sum.\<close>

type_synonym 'a exec = "(string + 'a) res"

definition ebind :: "'a exec \<Rightarrow> ('a \<Rightarrow> 'b exec) \<Rightarrow> 'b exec" where
  "ebind x f = rbind x (\<lambda>r. case r of Inl e \<Rightarrow> Done (Inl e) | Inr a \<Rightarrow> f a)"

definition ok :: "'a \<Rightarrow> 'a exec" where
  "ok a = Done (Inr a)"

definition fatal :: "string \<Rightarrow> 'a exec" where
  "fatal e = Done (Inl e)"

lemma ebind_cong [fundef_cong]:
  "x = y \<Longrightarrow> (\<And>v. y = Done (Inr v) \<Longrightarrow> f v = g v) \<Longrightarrow> ebind x f = ebind y g"
  by (cases y) (auto simp: ebind_def split: sum.splits)

lemma ebind_simps [simp]:
  "ebind (Done (Inr a)) f = f a" "ebind (Done (Inl e)) f = Done (Inl e)" "ebind Fuel f = Fuel" "ebind UB f = UB"
  "ebind (ok a) f = f a" "ebind (fatal e) f = fatal e"
  by (simp_all add: ebind_def ok_def fatal_def)

lemma ebind_ok [simp]: "ebind x f = Done (Inr b) \<longleftrightarrow> (\<exists>a. x = Done (Inr a) \<and> f a = Done (Inr b))"
  by (cases x) (auto simp: ebind_def split: sum.splits)

end
