(* ===== verification/ConstEval.thy ===== *)
theory ConstEval
  imports Ast Outcome
begin

text \<open>
  The parser's evaluator of integer constant expressions, \<open>eval_const_expr\<close> and
  \<open>eval_const_addr_expr\<close> of \<open>src/parser.c\<close>: array sizes, enumerators, case labels, bit-field widths.
  \<open>Done (Some v)\<close> is \<open>return true\<close> with \<open>*val = v\<close>, \<open>Done None\<close> is \<open>return false\<close>. All arithmetic is on
  \<open>long long\<close>; shifts of a representable amount wrap, as the host compilers define them.
\<close>

type_synonym const_val = "int option res"

text \<open>\<open>eval(lhs) && eval(rhs) && ...\<close>: the right operand is evaluated only after a success.\<close>

definition both :: "const_val \<Rightarrow> const_val \<Rightarrow> (int \<Rightarrow> int \<Rightarrow> const_val) \<Rightarrow> const_val" where
  "both a b f =
     rbind a (\<lambda>x. case x of None \<Rightarrow> Done None
       | Some l \<Rightarrow> rbind b (\<lambda>y. case y of None \<Rightarrow> Done None | Some r \<Rightarrow> f l r))"

definition one :: "const_val \<Rightarrow> (int \<Rightarrow> const_val) \<Rightarrow> const_val" where
  "one a f = rbind a (\<lambda>x. case x of None \<Rightarrow> Done None | Some l \<Rightarrow> f l)"

definition c64 :: "int \<Rightarrow> const_val" where
  "c64 x = rmap Some (ck64 x)"

definition cbool :: "bool \<Rightarrow> const_val" where
  "cbool b = Done (Some (if b then 1 else 0))"

definition shift_ok :: "int \<Rightarrow> bool" where
  "shift_ok r \<longleftrightarrow> 0 \<le> r \<and> r < 64"

definition const_binop :: "node_kind \<Rightarrow> (int \<Rightarrow> int \<Rightarrow> const_val) option" where
  "const_binop k =
     (case k of
        ND_ADD \<Rightarrow> Some (\<lambda>l r. c64 (l + r))
      | ND_SUB \<Rightarrow> Some (\<lambda>l r. c64 (l - r))
      | ND_MUL \<Rightarrow> Some (\<lambda>l r. c64 (l * r))
      | ND_DIV \<Rightarrow> Some (\<lambda>l r. if r = 0 then Done None else c64 (l sdiv r))
      | ND_MOD \<Rightarrow> Some (\<lambda>l r. if r = 0 then Done None
                              else if l = - (2 ^ 63) \<and> r = -1 then UB else c64 (l smod r))
      | ND_SHL \<Rightarrow> Some (\<lambda>l r. if shift_ok r then Done (Some (wrap64 (push_bit (nat r) l))) else UB)
      | ND_SHR \<Rightarrow> Some (\<lambda>l r. if shift_ok r then Done (Some (drop_bit (nat r) l)) else UB)
      | ND_BITAND \<Rightarrow> Some (\<lambda>l r. Done (Some (l AND r)))
      | ND_BITXOR \<Rightarrow> Some (\<lambda>l r. Done (Some (l XOR r)))
      | ND_BITOR \<Rightarrow> Some (\<lambda>l r. Done (Some (l OR r)))
      | ND_EQ \<Rightarrow> Some (\<lambda>l r. cbool (l = r))
      | ND_NE \<Rightarrow> Some (\<lambda>l r. cbool (l \<noteq> r))
      | ND_LT \<Rightarrow> Some (\<lambda>l r. cbool (l < r))
      | ND_LE \<Rightarrow> Some (\<lambda>l r. cbool (l \<le> r))
      | ND_LOGAND \<Rightarrow> Some (\<lambda>l r. cbool (l \<noteq> 0 \<and> r \<noteq> 0))
      | ND_LOGOR \<Rightarrow> Some (\<lambda>l r. cbool (l \<noteq> 0 \<or> r \<noteq> 0))
      | _ \<Rightarrow> None)"

definition const_unop :: "node_kind \<Rightarrow> (int \<Rightarrow> const_val) option" where
  "const_unop k =
     (case k of
        ND_NEG \<Rightarrow> Some (\<lambda>l. c64 (- l))
      | ND_NOT \<Rightarrow> Some (\<lambda>l. cbool (l = 0))
      | ND_BITNOT \<Rightarrow> Some (\<lambda>l. Done (Some (NOT l)))
      | ND_CAST \<Rightarrow> Some (\<lambda>l. Done (Some l))
      | _ \<Rightarrow> None)"

definition size_of_type :: "ctype option \<Rightarrow> const_val" where
  "size_of_type t =
     (case t of None \<Rightarrow> Done None
      | Some t \<Rightarrow> if tkind t = TY_VLA then Done None else Done (Some (sizeof t)))"

definition const_sizeof :: "node \<Rightarrow> const_val" where
  "const_sizeof n =
     (case (case lhs n of None \<Rightarrow> None | Some l \<Rightarrow> ndty l) of
        Some t \<Rightarrow> size_of_type (Some t)
      | None \<Rightarrow> size_of_type (ndty n))"

lemma child_size:
  "lhs n = Some m \<Longrightarrow> size m < size n" "rhs n = Some m \<Longrightarrow> size m < size n"
  "ncond n = Some m \<Longrightarrow> size m < size n" "nthen n = Some m \<Longrightarrow> size m < size n"
  "nels n = Some m \<Longrightarrow> size m < size n"
  by (cases n; simp)+

fun opt_size :: "node option \<Rightarrow> nat" where
  "opt_size None = 0"
| "opt_size (Some n) = Suc (size n)"

lemma opt_size_child:
  "opt_size (lhs n) \<le> size n" "opt_size (rhs n) \<le> size n" "opt_size (ncond n) \<le> size n"
  "opt_size (nthen n) \<le> size n" "opt_size (nels n) \<le> size n"
  using child_size [of n] by (cases "lhs n"; cases "rhs n"; cases "ncond n"; cases "nthen n"; cases "nels n"; force)+

lemma opt_size_steps:
  "2 * opt_size (lhs n) \<le> Suc (2 * size n)" "2 * opt_size (rhs n) \<le> Suc (2 * size n)"
  "2 * opt_size (ncond n) \<le> Suc (2 * size n)" "2 * opt_size (nthen n) \<le> Suc (2 * size n)"
  "2 * opt_size (nels n) \<le> Suc (2 * size n)"
  using opt_size_child [of n] by auto

lemma opt_size_grandchild:
  assumes "lhs n = Some l"
  shows "2 * opt_size (lhs l) \<le> Suc (2 * size n)" "Suc (Suc (2 * size l)) \<le> 2 * size n"
  using opt_size_child(1) [of l] child_size(1) [OF assms] by auto

function (sequential) eval_const_expr :: "node option \<Rightarrow> const_val"
  and eval_const_addr_expr :: "node option \<Rightarrow> const_val" where
  "eval_const_expr None = Done None"
| "eval_const_expr (Some n) =
     (case const_binop (ndkind n) of
        Some f \<Rightarrow> both (eval_const_expr (lhs n)) (eval_const_expr (rhs n)) f
      | None \<Rightarrow>
     (case const_unop (ndkind n) of
        Some f \<Rightarrow> one (eval_const_expr (lhs n)) f
      | None \<Rightarrow>
        if ndkind n = ND_NUM then Done (Some (ndval n))
        else if ndkind n = ND_SIZEOF then const_sizeof n
        else if ndkind n = ND_ADDR then
          (case lhs n of
             None \<Rightarrow> UB
           | Some l \<Rightarrow> if ndkind l = ND_DEREF then eval_const_expr (lhs l)
                       else eval_const_addr_expr (Some l))
        else if ndkind n = ND_COMMA then eval_const_expr (rhs n)
        else if ndkind n = ND_COND then
          (case eval_const_expr (ncond n) of
             Done (Some x) \<Rightarrow> if x \<noteq> 0 then eval_const_expr (nthen n) else eval_const_expr (nels n)
           | r \<Rightarrow> r)
        else Done None))"
| "eval_const_addr_expr None = Done None"
| "eval_const_addr_expr (Some n) =
     (if ndkind n = ND_MEMBER then
        one (eval_const_addr_expr (lhs n))
          (\<lambda>base. case nmember (info n) of None \<Rightarrow> UB | Some m \<Rightarrow> c64 (base + moffset (minfo m)))
      else if ndkind n = ND_DEREF then eval_const_expr (lhs n)
      else eval_const_expr (Some n))"
  by pat_completeness auto

termination
  by (relation "measure (\<lambda>x. case x of Inl n \<Rightarrow> 2 * opt_size n | Inr n \<Rightarrow> 2 * opt_size n + 1)")
    (auto simp: opt_size_steps opt_size_steps [THEN le_SucI] opt_size_grandchild less_Suc_eq_le)

declare eval_const_expr.simps(2) [simp del] eval_const_addr_expr.simps(2) [simp del]

section \<open>The dispatch on concrete kinds\<close>

lemma const_binop_simps [simp]:
  "const_binop ND_ADD = Some (\<lambda>l r. c64 (l + r))"
  "const_binop ND_SUB = Some (\<lambda>l r. c64 (l - r))"
  "const_binop ND_MUL = Some (\<lambda>l r. c64 (l * r))"
  "const_binop ND_DIV = Some (\<lambda>l r. if r = 0 then Done None else c64 (l sdiv r))"
  "const_binop ND_MOD = Some (\<lambda>l r. if r = 0 then Done None
                              else if l = - (2 ^ 63) \<and> r = -1 then UB else c64 (l smod r))"
  "const_binop ND_SHL = Some (\<lambda>l r. if shift_ok r then Done (Some (wrap64 (push_bit (nat r) l))) else UB)"
  "const_binop ND_SHR = Some (\<lambda>l r. if shift_ok r then Done (Some (drop_bit (nat r) l)) else UB)"
  "const_binop ND_BITAND = Some (\<lambda>l r. Done (Some (l AND r)))"
  "const_binop ND_BITXOR = Some (\<lambda>l r. Done (Some (l XOR r)))"
  "const_binop ND_BITOR = Some (\<lambda>l r. Done (Some (l OR r)))"
  "const_binop ND_EQ = Some (\<lambda>l r. cbool (l = r))"
  "const_binop ND_NE = Some (\<lambda>l r. cbool (l \<noteq> r))"
  "const_binop ND_LT = Some (\<lambda>l r. cbool (l < r))"
  "const_binop ND_LE = Some (\<lambda>l r. cbool (l \<le> r))"
  "const_binop ND_LOGAND = Some (\<lambda>l r. cbool (l \<noteq> 0 \<and> r \<noteq> 0))"
  "const_binop ND_LOGOR = Some (\<lambda>l r. cbool (l \<noteq> 0 \<or> r \<noteq> 0))"
  "const_binop ND_NUM = None" "const_binop ND_SIZEOF = None" "const_binop ND_ADDR = None"
  "const_binop ND_COMMA = None" "const_binop ND_COND = None" "const_binop ND_FUNCALL = None"
  "const_binop ND_CAST = None" "const_binop ND_NEG = None" "const_binop ND_NOT = None"
  "const_binop ND_BITNOT = None" "const_binop ND_MEMBER = None" "const_binop ND_DEREF = None"
  by (simp_all add: const_binop_def)

lemma const_unop_simps [simp]:
  "const_unop ND_NEG = Some (\<lambda>l. c64 (- l))"
  "const_unop ND_NOT = Some (\<lambda>l. cbool (l = 0))"
  "const_unop ND_BITNOT = Some (\<lambda>l. Done (Some (NOT l)))"
  "const_unop ND_CAST = Some (\<lambda>l. Done (Some l))"
  "const_unop ND_NUM = None" "const_unop ND_SIZEOF = None" "const_unop ND_ADDR = None"
  "const_unop ND_COMMA = None" "const_unop ND_COND = None" "const_unop ND_FUNCALL = None"
  "const_unop ND_MEMBER = None" "const_unop ND_DEREF = None"
  by (simp_all add: const_unop_def)

lemma both_Done [simp]:
  "both a b g = Done (Some v) \<longleftrightarrow> (\<exists>l r. a = Done (Some l) \<and> b = Done (Some r) \<and> g l r = Done (Some v))"
  by (auto simp: both_def split: option.splits)

lemma one_Done [simp]: "one a g = Done (Some v) \<longleftrightarrow> (\<exists>l. a = Done (Some l) \<and> g l = Done (Some v))"
  by (auto simp: one_def split: option.splits)

lemma c64_Done [simp]: "c64 x = Done (Some v) \<longleftrightarrow> in64 x \<and> v = x"
  by (auto simp: c64_def)

lemma cbool_Done [simp]: "cbool b = Done (Some v) \<longleftrightarrow> v = of_bool b"
  by (auto simp: cbool_def)

lemma eval_const_binop:
  assumes "const_binop (ndkind n) = Some g"
  shows "eval_const_expr (Some n) = both (eval_const_expr (lhs n)) (eval_const_expr (rhs n)) g"
  using assms by (simp add: eval_const_expr.simps)

lemma eval_const_unop:
  assumes "const_binop (ndkind n) = None" "const_unop (ndkind n) = Some g"
  shows "eval_const_expr (Some n) = one (eval_const_expr (lhs n)) g"
  using assms by (simp add: eval_const_expr.simps)

lemma eval_const_num: "ndkind n = ND_NUM \<Longrightarrow> eval_const_expr (Some n) = Done (Some (ndval n))"
  by (simp add: eval_const_expr.simps)

lemma eval_const_call: "ndkind n = ND_FUNCALL \<Longrightarrow> eval_const_expr (Some n) = Done None"
  by (simp add: eval_const_expr.simps)

lemma eval_const_literal [simp]:
  "eval_const_expr (Some (num_node v t)) = Done (Some v)"
  "eval_const_addr_expr (Some (num_node v t)) = Done (Some v)"
  by (simp_all add: eval_const_num eval_const_addr_expr.simps)

lemma eval_const_sizeof: "ndkind n = ND_SIZEOF \<Longrightarrow> eval_const_expr (Some n) = const_sizeof n"
  by (simp add: eval_const_expr.simps)

lemma eval_const_comma: "ndkind n = ND_COMMA \<Longrightarrow> eval_const_expr (Some n) = eval_const_expr (rhs n)"
  by (simp add: eval_const_expr.simps)

lemma eval_const_addr_of:
  "ndkind n = ND_ADDR \<Longrightarrow> lhs n = Some l \<Longrightarrow>
     eval_const_expr (Some n) =
       (if ndkind l = ND_DEREF then eval_const_expr (lhs l) else eval_const_addr_expr (Some l))"
  by (simp add: eval_const_expr.simps)

lemma eval_addr_deref: "ndkind l = ND_DEREF \<Longrightarrow> eval_const_addr_expr (Some l) = eval_const_expr (lhs l)"
  by (simp add: eval_const_addr_expr.simps)

lemma eval_const_cond:
  "ndkind n = ND_COND \<Longrightarrow> eval_const_expr (ncond n) = Done (Some x) \<Longrightarrow>
     eval_const_expr (Some n) = eval_const_expr (if x \<noteq> 0 then nthen n else nels n)"
  by (simp add: eval_const_expr.simps)

text \<open>The ways a constant expression gets a value.\<close>

lemma eval_const_cases [consumes 1, case_names binop unop number sizeof addr comma cond]:
  assumes "eval_const_expr (Some n) = Done (Some v)"
  obtains
    (binop) g l r where "const_binop (ndkind n) = Some g" "eval_const_expr (lhs n) = Done (Some l)"
      "eval_const_expr (rhs n) = Done (Some r)" "g l r = Done (Some v)"
  | (unop) g l where "const_binop (ndkind n) = None" "const_unop (ndkind n) = Some g"
      "eval_const_expr (lhs n) = Done (Some l)" "g l = Done (Some v)"
  | (number) "ndkind n = ND_NUM" "v = ndval n"
  | (sizeof) "ndkind n = ND_SIZEOF" "const_sizeof n = Done (Some v)"
  | (addr) l where "ndkind n = ND_ADDR" "lhs n = Some l"
      "(if ndkind l = ND_DEREF then eval_const_expr (lhs l) else eval_const_addr_expr (Some l)) = Done (Some v)"
  | (comma) "ndkind n = ND_COMMA" "eval_const_expr (rhs n) = Done (Some v)"
  | (cond) x where "ndkind n = ND_COND" "eval_const_expr (ncond n) = Done (Some x)"
      "eval_const_expr (if x \<noteq> 0 then nthen n else nels n) = Done (Some v)"
proof (cases "const_binop (ndkind n)")
  case (Some g)
  then show thesis using assms binop by (auto simp: eval_const_binop)
next
  case None
  note nb = None
  show thesis
  proof (cases "const_unop (ndkind n)")
    case (Some g)
    then show thesis using assms unop nb by (auto simp: eval_const_unop)
  next
    case None
    with nb have e: "eval_const_expr (Some n) =
       (if ndkind n = ND_NUM then Done (Some (ndval n))
        else if ndkind n = ND_SIZEOF then const_sizeof n
        else if ndkind n = ND_ADDR then
          (case lhs n of
             None \<Rightarrow> UB
           | Some l \<Rightarrow> if ndkind l = ND_DEREF then eval_const_expr (lhs l)
                       else eval_const_addr_expr (Some l))
        else if ndkind n = ND_COMMA then eval_const_expr (rhs n)
        else if ndkind n = ND_COND then
          (case eval_const_expr (ncond n) of
             Done (Some x) \<Rightarrow> if x \<noteq> 0 then eval_const_expr (nthen n) else eval_const_expr (nels n)
           | r \<Rightarrow> r)
        else Done None)"
      by (simp add: eval_const_expr.simps)
    show thesis
      using assms [unfolded e] number sizeof addr comma cond
      by (simp split: if_splits option.splits res.splits)
  qed
qed

section \<open>Bounds\<close>

lemma in64_wrap: "in64 x \<longleftrightarrow> wrap64 x = x"
  using wrap64_id in64_wrap64 by metis

lemma in64_bits:
  assumes "in64 x" "in64 y"
  shows "in64 (x AND y)" "in64 (x OR y)" "in64 (x XOR y)" "in64 (NOT x)"
proof -
  have x: "signed_take_bit 63 x = x" "signed_take_bit 63 y = y"
    using assms by (simp_all add: in64_wrap wrap64_def)
  have "signed_take_bit 63 (a AND b) = signed_take_bit 63 a AND signed_take_bit 63 b"
    "signed_take_bit 63 (a OR b) = signed_take_bit 63 a OR signed_take_bit 63 b"
    "signed_take_bit 63 (a XOR b) = signed_take_bit 63 a XOR signed_take_bit 63 b"
    "signed_take_bit 63 (NOT a) = NOT (signed_take_bit 63 a)" for a b :: int
    by (rule bit_eqI, simp add: bit_signed_take_bit_iff bit_simps)+
  then show "in64 (x AND y)" "in64 (x OR y)" "in64 (x XOR y)" "in64 (NOT x)"
    by (simp_all add: in64_wrap wrap64_def x)
qed

lemma in64_drop_bit: "in64 x \<Longrightarrow> in64 (drop_bit n x)"
proof -
  assume x: "in64 x"
  have "0 \<le> x div 2 ^ n \<and> x div 2 ^ n \<le> x" if "0 \<le> x"
    using zdiv_mono2 [OF that, of 1 "2 ^ n"] that by (simp add: pos_imp_zdiv_nonneg_iff)
  moreover have "x \<le> x div 2 ^ n \<and> x div 2 ^ n < 0" if "x < 0"
    using zdiv_mono2_neg [OF that, of 1 "2 ^ n"] that by (simp add: div_neg_pos_less0)
  ultimately show ?thesis using x by (cases "0 \<le> x") (auto simp: in64_def drop_bit_eq_div)
qed

text \<open>Every literal and every type size of a tree fits in a \<open>long long\<close>.\<close>

fun consts64 :: "node \<Rightarrow> bool"
  and consts64_opt :: "node option \<Rightarrow> bool" where
  "consts64 (Node i l r c t e a b bo ar sr) \<longleftrightarrow>
     in64 (nval i) \<and> (case nty i of None \<Rightarrow> True | Some ty \<Rightarrow> in64 (sizeof ty)) \<and>
     consts64_opt l \<and> consts64_opt r \<and> consts64_opt c \<and> consts64_opt t \<and> consts64_opt e"
| "consts64_opt None = True"
| "consts64_opt (Some n) = consts64 n"

lemma consts64_sel:
  assumes "consts64 n"
  shows "in64 (ndval n) \<and> (\<forall>ty. ndty n = Some ty \<longrightarrow> in64 (sizeof ty)) \<and> consts64_opt (lhs n) \<and>
    consts64_opt (rhs n) \<and> consts64_opt (ncond n) \<and> consts64_opt (nthen n) \<and> consts64_opt (nels n)"
  using assms by (cases n) (auto split: option.splits)

lemma in64_of_bool: "in64 (of_bool b)"
  by (simp add: in64_def)

lemma const_binop_cases:
  assumes "const_binop k = Some g"
  shows "k \<in> set [ND_ADD, ND_SUB, ND_MUL, ND_DIV, ND_MOD, ND_SHL, ND_SHR, ND_BITAND, ND_BITXOR, ND_BITOR,
     ND_EQ, ND_NE, ND_LT, ND_LE, ND_LOGAND, ND_LOGOR]"
  using assms by (cases k) (simp_all add: const_binop_def)

lemma const_ops_in64:
  "const_binop k = Some g \<Longrightarrow> g l r = Done (Some v) \<Longrightarrow> in64 l \<Longrightarrow> in64 r \<Longrightarrow> in64 v"
  "const_unop k = Some u \<Longrightarrow> u l = Done (Some v) \<Longrightarrow> in64 l \<Longrightarrow> in64 v"
  subgoal
    using const_binop_cases [of k g]
    by (auto simp: in64_bits in64_drop_bit in64_of_bool split: if_splits)
  subgoal
    by (cases k) (auto simp: const_unop_def in64_bits in64_of_bool)
  done

lemma sizeof_in64:
  assumes "consts64 n" "const_sizeof n = Done (Some v)"
  shows "in64 v"
proof -
  have "in64 (sizeof ty)" if "lhs n = Some l" "ndty l = Some ty" for l ty
    using consts64_sel [OF assms(1)] consts64_sel [of l] that by simp
  then show ?thesis
    using assms consts64_sel [OF assms(1)]
    by (auto simp: const_sizeof_def size_of_type_def split: option.splits if_splits)
qed

lemma eval_const_in64:
  "consts64_opt no \<Longrightarrow> eval_const_expr no = Done (Some v) \<Longrightarrow> in64 v"
  "consts64_opt ao \<Longrightarrow> eval_const_addr_expr ao = Done (Some v) \<Longrightarrow> in64 v"
proof (induction no and ao arbitrary: v and v rule: eval_const_expr_eval_const_addr_expr.induct)
  case (2 n)
  have n: "consts64 n" using 2(10) by simp
  note c = consts64_sel [OF n]
  show ?case using 2(11)
  proof (cases rule: eval_const_cases)
    case (binop g l r)
    then show ?thesis
      using const_ops_in64(1) [OF binop(1,4)] 2(8) [OF binop(1) _ binop(2)] 2(9) [OF binop(1) _ binop(3)] c by simp
  next
    case (unop g l)
    then show ?thesis
      using const_ops_in64(2) [OF unop(2,4)] 2(7) [OF unop(1,2) _ unop(3)] c by simp
  next
    case number
    then show ?thesis using c by simp
  next
    case sizeof
    then show ?thesis using sizeof_in64 [OF n] by simp
  next
    case (addr l)
    have d: "const_binop (ndkind n) = None" "const_unop (ndkind n) = None" "ndkind n \<noteq> ND_NUM" "ndkind n \<noteq> ND_SIZEOF"
      using addr(1) by simp_all
    show ?thesis
    proof (cases "ndkind l = ND_DEREF")
      case True
      have "consts64_opt (lhs l)" using c addr(2) consts64_sel [of l] by simp
      then show ?thesis using 2(1) [OF d addr(1,2) True] addr(3) True by simp
    next
      case False
      have "consts64_opt (Some l)" using c addr(2) by simp
      then show ?thesis using 2(2) [OF d addr(1,2) False] addr(3) False by simp
    qed
  next
    case comma
    then show ?thesis using 2(3) [OF _ _ _ _ _ comma(1)] c by simp
  next
    case (cond x)
    have d: "const_binop (ndkind n) = None" "const_unop (ndkind n) = None" "ndkind n \<noteq> ND_NUM"
      "ndkind n \<noteq> ND_SIZEOF" "ndkind n \<noteq> ND_ADDR" "ndkind n \<noteq> ND_COMMA"
      using cond(1) by simp_all
    show ?thesis
    proof (cases "x = 0")
      case True
      then have "eval_const_expr (nels n) = Done (Some v)" "\<not> x \<noteq> 0" using cond(3) by simp_all
      then show ?thesis using 2(6) [OF d cond(1,2) refl] c by simp
    next
      case False
      then have "eval_const_expr (nthen n) = Done (Some v)" using cond(3) by simp
      then show ?thesis using 2(5) [OF d cond(1,2) refl False] c by simp
    qed
  qed
next
  case (4 n)
  have n: "consts64 n" using 4(4) by simp
  note c = consts64_sel [OF n]
  consider (m) "ndkind n = ND_MEMBER" | (d) "ndkind n = ND_DEREF"
    | (e) "ndkind n \<noteq> ND_MEMBER" "ndkind n \<noteq> ND_DEREF" by blast
  then show ?case
  proof cases
    case m
    then show ?thesis
      using 4(5) by (simp add: eval_const_addr_expr.simps split: option.splits) blast
  next
    case d
    then have "eval_const_expr (lhs n) = Done (Some v)"
      using 4(5) by (simp add: eval_const_addr_expr.simps)
    then show ?thesis using 4(2) d c by simp
  next
    case e
    then have "eval_const_expr (Some n) = Done (Some v)"
      using 4(5) by (simp add: eval_const_addr_expr.simps)
    then show ?thesis using 4(3,4) e by blast
  qed
qed auto

section \<open>Properties\<close>

text \<open>
  Constant expressions evaluate within 64 bits: when the literals and type sizes of a tree fit in a
  \<open>long long\<close>, so does every value the evaluator returns.
\<close>

theorem eval_const_bounded:
  assumes "consts64 n" and "eval_const_expr (Some n) = Done (Some v)"
  shows "- (2 ^ 63) \<le> v \<and> v < 2 ^ 63"
  using eval_const_in64(1) [of "Some n" v] assms by (simp add: in64_def)

theorem eval_const_bounded_witness:
  "- (2 ^ 63) \<le> (48 :: int) \<and> (48 :: int) < 2 ^ 63"
proof (rule eval_const_bounded)
  show "consts64 (new_binary ND_SHL (num_node 3 None) (num_node 4 None))"
    by (simp add: new_binary_def num_node_def zero_node_def in64_def)
  show "eval_const_expr (Some (new_binary ND_SHL (num_node 3 None) (num_node 4 None))) = Done (Some 48)"
    by (simp add: eval_const_binop shift_ok_def push_bit_eq_mult wrap64_id in64_def)
qed

text \<open>
  The logical operators of constant expressions do not short-circuit: \<open>0 && 1 / 0\<close> and \<open>1 || 1 / 0\<close>, which
  C evaluates to 0 and 1, are rejected as not constant.
\<close>

theorem eval_const_no_short_circuit:
  "eval_const_expr (Some (new_binary ND_LOGAND (num_node 0 t)
     (new_binary ND_DIV (num_node 1 t) (num_node 0 t)))) = Done None \<and>
   eval_const_expr (Some (new_binary ND_LOGOR (num_node 1 t)
     (new_binary ND_DIV (num_node 1 t) (num_node 0 t)))) = Done None"
  by (simp add: eval_const_binop both_def)

text \<open>
  Casts are transparent to the constant evaluator: the value of \<open>(T)e\<close> is the value of \<open>e\<close> for every \<open>T\<close>, so
  \<open>(unsigned char)300\<close> has the value 300.
\<close>

theorem eval_const_ignores_casts:
  "eval_const_expr (Some (cast_node e t)) = eval_const_expr (Some e)"
  by (cases "eval_const_expr (Some e)") (auto simp: eval_const_unop one_def split: option.splits)

end
