(* ===== verification/Optimizer.thy ===== *)
theory Optimizer
  imports ConstEval
begin

text \<open>
  The compile-time evaluator and constant folder of \<open>src/opt.c\<close> (\<open>-O1\<close>). \<open>eval_ast\<close> interprets a
  function body over an array of 256 ints indexed by \<open>offset / 8\<close>; \<open>optimize_node\<close> folds constant
  arithmetic and calls with constant arguments. The interpreter can run for ever on a recursive
  program, so it has fuel. A result is the value, the array, the control-flow flag
  (\<open>CF_RETURN\<close>) and the \<open>success\<close> flag.
\<close>

record function_def =
  fname :: string
  fparams :: "lvar list"
  flocals :: "lvar list"
  fbody :: "node list"

datatype tl_item = TL_FUNC function_def | TL_ASM string

type_synonym program = "tl_item list"

record estate =
  env :: "int list"
  cf_return :: bool
  success :: bool

type_synonym eval_res = "(int \<times> estate) res"

section \<open>The environment\<close>

text \<open>\<open>env[var->offset / 8]\<close>; an index outside the array is undefined.\<close>

definition slot :: "lvar \<Rightarrow> int" where
  "slot v = voffset v sdiv 8"

definition env_get :: "estate \<Rightarrow> lvar \<Rightarrow> int res" where
  "env_get s v =
     (if 0 \<le> slot v \<and> slot v < int (length (env s)) then Done (env s ! nat (slot v)) else UB)"

definition env_set :: "estate \<Rightarrow> lvar \<Rightarrow> int \<Rightarrow> estate res" where
  "env_set s v x =
     (if 0 \<le> slot v \<and> slot v < int (length (env s))
      then Done (s\<lparr>env := (env s)[nat (slot v) := x]\<rparr>) else UB)"

definition fresh_state :: estate where
  "fresh_state = \<lparr>env = replicate 256 0, cf_return = False, success = True\<rparr>"

text \<open>The parameters of a call, bound in order; surplus arguments are dropped.\<close>

fun bind_params :: "lvar list \<Rightarrow> int list \<Rightarrow> estate \<Rightarrow> estate res" where
  "bind_params (p # ps) (x # xs) s = rbind (env_set s p x) (bind_params ps xs)"
| "bind_params _ _ s = Done s"

definition find_function :: "program \<Rightarrow> string \<Rightarrow> function_def option" where
  "find_function prog f =
     (case find (\<lambda>item. case item of TL_FUNC fn \<Rightarrow> fname fn = f | TL_ASM _ \<Rightarrow> False) prog of
        Some (TL_FUNC fn) \<Rightarrow> Some fn
      | _ \<Rightarrow> None)"

section \<open>The interpreter\<close>

definition failed :: "estate \<Rightarrow> eval_res" where
  "failed s = Done (0, s\<lparr>success := False\<rparr>)"

definition int_binop :: "node_kind \<Rightarrow> int \<Rightarrow> int \<Rightarrow> estate \<Rightarrow> eval_res" where
  "int_binop k l r s =
     (if k = ND_ADD then rmap (\<lambda>v. (v, s)) (ck32 (l + r))
      else if k = ND_SUB then rmap (\<lambda>v. (v, s)) (ck32 (l - r))
      else if k = ND_MUL then rmap (\<lambda>v. (v, s)) (ck32 (l * r))
      else if k = ND_DIV then (if r = 0 then failed s else rmap (\<lambda>v. (v, s)) (ck32 (l sdiv r)))
      else if k = ND_MOD then
        (if r = 0 then failed s
         else if l = - (2 ^ 31) \<and> r = -1 then UB else Done (l smod r, s))
      else if k = ND_EQ then Done (of_bool (l = r), s)
      else if k = ND_NE then Done (of_bool (l \<noteq> r), s)
      else if k = ND_LT then Done (of_bool (l < r), s)
      else if k = ND_LE then Done (of_bool (l \<le> r), s)
      else failed s)"

text \<open>
  The interpreter's recursive calls go through a parameter \<open>ev\<close>; \<open>eval_ast\<close> below ties the knot with
  one unit of fuel per level of the C recursion. A subexpression has a control-flow flag of its own.
\<close>

type_synonym evaluator = "node option \<Rightarrow> estate \<Rightarrow> eval_res"

definition eval_sub :: "evaluator \<Rightarrow> evaluator" where
  "eval_sub ev n s =
     rmap (\<lambda>(v, s'). (v, s'\<lparr>cf_return := cf_return s\<rparr>)) (ev n (s\<lparr>cf_return := False\<rparr>))"

fun eval_body :: "evaluator \<Rightarrow> node list \<Rightarrow> estate \<Rightarrow> eval_res" where
  "eval_body ev [] s = Done (0, s)"
| "eval_body ev (n # ns) s =
     rbind (ev (Some n) s) (\<lambda>(v, s').
       if \<not> success s' \<or> cf_return s' \<or> ns = [] then Done (v, s') else eval_body ev ns s')"

fun eval_args :: "evaluator \<Rightarrow> node list \<Rightarrow> nat \<Rightarrow> estate \<Rightarrow> (int list \<times> estate) res" where
  "eval_args ev [] k s = Done ([], s)"
| "eval_args ev (n # ns) k s =
     rbind (eval_sub ev (Some n) s) (\<lambda>(v, s').
       if \<not> success s' \<or> k + 1 \<ge> 10 then Done ([], s'\<lparr>success := False\<rparr>)
       else rmap (\<lambda>(vs, s''). (v # vs, s'')) (eval_args ev ns (k + 1) s'))"

definition eval_assign :: "evaluator \<Rightarrow> node \<Rightarrow> estate \<Rightarrow> eval_res" where
  "eval_assign ev n s =
     (case lhs n of None \<Rightarrow> UB
      | Some l \<Rightarrow>
          if ndkind l \<noteq> ND_LVAR then failed s
          else rbind (eval_sub ev (rhs n) s) (\<lambda>(v, s').
                 case nvar (info l) of None \<Rightarrow> UB
                 | Some x \<Rightarrow> rmap (\<lambda>s''. (v, s'')) (env_set s' x v)))"

definition eval_if :: "evaluator \<Rightarrow> node \<Rightarrow> estate \<Rightarrow> eval_res" where
  "eval_if ev n s =
     rbind (eval_sub ev (ncond n) s) (\<lambda>(c, s').
       if \<not> success s' then Done (0, s')
       else if c \<noteq> 0 then ev (nthen n) s'
       else if nels n \<noteq> None then ev (nels n) s'
       else Done (0, s'))"

definition eval_binop :: "evaluator \<Rightarrow> node \<Rightarrow> estate \<Rightarrow> eval_res" where
  "eval_binop ev n s =
     rbind (eval_sub ev (lhs n) s) (\<lambda>(l, s1).
     rbind (eval_sub ev (rhs n) s1) (\<lambda>(r, s2).
       if \<not> success s2 then Done (0, s2) else int_binop (ndkind n) l r s2))"

definition eval_call :: "program \<Rightarrow> evaluator \<Rightarrow> node \<Rightarrow> estate \<Rightarrow> eval_res" where
  "eval_call prog ev n s =
     rbind (eval_args ev (nargs n) 0 s) (\<lambda>(args, s').
       if \<not> success s' then Done (0, s')
       else case funcname (info n) of None \<Rightarrow> UB
       | Some name \<Rightarrow>
          (case find_function prog name of
             None \<Rightarrow> failed s'
           | Some target \<Rightarrow>
               if fbody target \<noteq> [] \<and> name \<noteq> ''printf'' then
                 rbind (bind_params (fparams target) args fresh_state) (\<lambda>e0.
                   rmap (\<lambda>(v, e). (v, s'\<lparr>success := success e\<rparr>)) (eval_body ev (fbody target) e0))
               else failed s'))"

definition eval_node :: "program \<Rightarrow> evaluator \<Rightarrow> node \<Rightarrow> estate \<Rightarrow> eval_res" where
  "eval_node prog ev n s =
     (case ndkind n of
        ND_NUM \<Rightarrow> Done (wrap32 (ndval n), s)
      | ND_LVAR \<Rightarrow> (case nvar (info n) of None \<Rightarrow> UB | Some v \<Rightarrow> rmap (\<lambda>x. (x, s)) (env_get s v))
      | ND_ASSIGN \<Rightarrow> eval_assign ev n s
      | ND_BLOCK \<Rightarrow>
          rmap (\<lambda>(v, s'). (if success s' \<and> \<not> cf_return s' then 0 else v, s')) (eval_body ev (nbody n) s)
      | ND_RETURN \<Rightarrow> rmap (\<lambda>(v, s'). (v, s'\<lparr>cf_return := True\<rparr>)) (eval_sub ev (lhs n) s)
      | ND_IF \<Rightarrow> eval_if ev n s
      | ND_EXPR_STMT \<Rightarrow> eval_sub ev (lhs n) s
      | ND_ADD \<Rightarrow> eval_binop ev n s
      | ND_SUB \<Rightarrow> eval_binop ev n s
      | ND_MUL \<Rightarrow> eval_binop ev n s
      | ND_DIV \<Rightarrow> eval_binop ev n s
      | ND_MOD \<Rightarrow> eval_binop ev n s
      | ND_EQ \<Rightarrow> eval_binop ev n s
      | ND_NE \<Rightarrow> eval_binop ev n s
      | ND_LT \<Rightarrow> eval_binop ev n s
      | ND_LE \<Rightarrow> eval_binop ev n s
      | ND_FUNCALL \<Rightarrow> eval_call prog ev n s
      | _ \<Rightarrow> failed s)"

primrec eval_ast :: "program \<Rightarrow> nat \<Rightarrow> evaluator" where
  "eval_ast prog 0 = (\<lambda>n s. Fuel)"
| "eval_ast prog (Suc f) =
     (\<lambda>n s. case n of
        None \<Rightarrow> Done (0, s)
      | Some m \<Rightarrow> if \<not> success s then Done (0, s) else eval_node prog (eval_ast prog f) m s)"

section \<open>The folder\<close>

definition has_cleanup_local :: "function_def \<Rightarrow> bool" where
  "has_cleanup_local fn \<longleftrightarrow> list_ex (\<lambda>v. vcleanup v \<noteq> None) (flocals fn)"

definition has_addr_arg :: "node \<Rightarrow> bool" where
  "has_addr_arg n \<longleftrightarrow> list_ex (\<lambda>a. ndkind a = ND_ADDR) (nargs n)"

definition fold_value :: "node_kind \<Rightarrow> int \<Rightarrow> int \<Rightarrow> int option res" where
  "fold_value k l r =
     (case k of
        ND_ADD \<Rightarrow> rmap Some (ck64 (l + r))
      | ND_SUB \<Rightarrow> rmap Some (ck64 (l - r))
      | ND_MUL \<Rightarrow> rmap Some (ck64 (l * r))
      | ND_DIV \<Rightarrow> if r = 0 then Done None else rmap Some (ck64 (l sdiv r))
      | ND_MOD \<Rightarrow> if r = 0 then Done None
                  else if l = - (2 ^ 63) \<and> r = -1 then UB else rmap Some (ck64 (l smod r))
      | _ \<Rightarrow> Done None)"

definition num_child :: "node option \<Rightarrow> int option" where
  "num_child m = (case m of Some n \<Rightarrow> if ndkind n = ND_NUM then Some (ndval n) else None | None \<Rightarrow> None)"

text \<open>Two literal operands of an arithmetic node; a division by zero is left for run time.\<close>

definition fold_arith :: "node \<Rightarrow> node res" where
  "fold_arith n =
     (case (num_child (lhs n), num_child (rhs n)) of
        (Some l, Some r) \<Rightarrow>
          rmap (\<lambda>x. case x of Some v \<Rightarrow> num_node v (ndty n) | None \<Rightarrow> n) (fold_value (ndkind n) l r)
      | _ \<Rightarrow> Done n)"

text \<open>A call whose arguments are all literals; the first ten are passed, truncated to \<open>int\<close>.\<close>

definition fold_call :: "program \<Rightarrow> nat \<Rightarrow> node \<Rightarrow> node res" where
  "fold_call prog f n =
     (case funcname (info n) of
        None \<Rightarrow> Done n
      | Some name \<Rightarrow>
          if list_all (\<lambda>a. ndkind a = ND_NUM) (nargs n) \<and> \<not> has_addr_arg n \<and> name \<noteq> ''printf'' then
            (case find_function prog name of
               None \<Rightarrow> Done n
             | Some target \<Rightarrow>
                 if fbody target \<noteq> [] \<and> \<not> has_cleanup_local target then
                   rbind (bind_params (fparams target) (map (\<lambda>a. wrap32 (ndval a)) (take 10 (nargs n))) fresh_state)
                     (\<lambda>e0. rmap (\<lambda>(v, e). if success e then num_node v (ndty n) else n)
                        (eval_body (eval_ast prog f) (fbody target) e0))
                 else Done n)
          else Done n)"

definition fold_node :: "program \<Rightarrow> nat \<Rightarrow> node \<Rightarrow> node res" where
  "fold_node prog f n =
     (if ndkind n \<in> {ND_ADD, ND_SUB, ND_MUL, ND_DIV, ND_MOD} then fold_arith n
      else if ndkind n = ND_FUNCALL then fold_call prog f n
      else Done n)"

fun optimize_node :: "program \<Rightarrow> nat \<Rightarrow> node \<Rightarrow> node res"
  and optimize_opt :: "program \<Rightarrow> nat \<Rightarrow> node option \<Rightarrow> node option res"
  and optimize_list :: "program \<Rightarrow> nat \<Rightarrow> node list \<Rightarrow> node list res" where
  "optimize_node prog f (Node i l r c t e a b bo ar sr) =
     rbind (optimize_opt prog f l) (\<lambda>l'. rbind (optimize_opt prog f r) (\<lambda>r'.
     rbind (optimize_opt prog f c) (\<lambda>c'. rbind (optimize_opt prog f t) (\<lambda>t'.
     rbind (optimize_opt prog f e) (\<lambda>e'. rbind (optimize_opt prog f a) (\<lambda>a'.
     rbind (optimize_opt prog f b) (\<lambda>b'. rbind (optimize_list prog f bo) (\<lambda>bo'.
     rbind (optimize_list prog f ar) (\<lambda>ar'.
       fold_node prog f (Node i l' r' c' t' e' a' b' bo' ar' sr))))))))))"
| "optimize_opt prog f None = Done None"
| "optimize_opt prog f (Some n) = rmap Some (optimize_node prog f n)"
| "optimize_list prog f [] = Done []"
| "optimize_list prog f (n # ns) =
     rbind (optimize_node prog f n) (\<lambda>n'. rbind (optimize_list prog f ns) (\<lambda>ns'. Done (n' # ns')))"

text \<open>
  The driver: statement by statement, function by function, each seeing the program as it stands.
  The statement being optimised is seen unoptimised.
\<close>

fun optimize_stmts :: "(node list \<Rightarrow> program) \<Rightarrow> nat \<Rightarrow> node list \<Rightarrow> node list \<Rightarrow> node list res" where
  "optimize_stmts ctx f acc [] = Done acc"
| "optimize_stmts ctx f acc (n # ns) =
     rbind (optimize_node (ctx (acc @ n # ns)) f n) (\<lambda>n'. optimize_stmts ctx f (acc @ [n']) ns)"

fun optimize_items :: "nat \<Rightarrow> program \<Rightarrow> program \<Rightarrow> program res" where
  "optimize_items f before [] = Done before"
| "optimize_items f before (TL_FUNC fn # items) =
     rbind (optimize_stmts (\<lambda>b. before @ TL_FUNC (fn\<lparr>fbody := b\<rparr>) # items) f [] (fbody fn))
       (\<lambda>b. optimize_items f (before @ [TL_FUNC (fn\<lparr>fbody := b\<rparr>)]) items)"
| "optimize_items f before (TL_ASM a # items) = optimize_items f (before @ [TL_ASM a]) items"

definition optimize :: "nat \<Rightarrow> program \<Rightarrow> program res" where
  "optimize f prog = optimize_items f [] prog"

section \<open>Folding and constant evaluation\<close>

lemma fold_shape:
  assumes "fold_node prog f n = Done m"
  shows "m = n \<or> (\<exists>v. m = num_node v (ndty n) \<and> ndkind n \<in> {ND_ADD, ND_SUB, ND_MUL, ND_DIV, ND_MOD, ND_FUNCALL})"
  using assms
  by (auto simp: fold_node_def fold_arith_def fold_call_def split: if_splits option.splits prod.splits)

lemma optimize_node_shape:
  assumes "optimize_node prog f n = Done m"
  obtains n' where "info n' = info n" "fold_node prog f n' = Done m"
    "optimize_opt prog f (lhs n) = Done (lhs n')" "optimize_opt prog f (rhs n) = Done (rhs n')"
    "optimize_opt prog f (ncond n) = Done (ncond n')" "optimize_opt prog f (nthen n) = Done (nthen n')"
    "optimize_opt prog f (nels n) = Done (nels n')"
proof (cases n)
  case (Node i l r c t e a b bo ar sr)
  with assms obtain l' r' c' t' e' a' b' bo' ar' where
    "optimize_opt prog f l = Done l'" "optimize_opt prog f r = Done r'" "optimize_opt prog f c = Done c'"
    "optimize_opt prog f t = Done t'" "optimize_opt prog f e = Done e'"
    "fold_node prog f (Node i l' r' c' t' e' a' b' bo' ar' sr) = Done m"
    by auto
  with Node show thesis by (intro that [of "Node i l' r' c' t' e' a' b' bo' ar' sr"]) simp_all
qed

lemma optimize_ty:
  assumes "optimize_node prog f n = Done m"
  shows "ndty m = ndty n"
proof -
  obtain n' where n': "info n' = info n" "fold_node prog f n' = Done m"
    using assms by (rule optimize_node_shape)
  show ?thesis using fold_shape [OF n'(2)] n'(1) by auto
qed

lemma optimize_opt_None: "optimize_opt prog f None = Done x \<longleftrightarrow> x = None"
  by auto

lemma optimize_opt_Some:
  "optimize_opt prog f (Some n) = Done x \<longleftrightarrow> (\<exists>m. x = Some m \<and> optimize_node prog f n = Done m)"
  by auto

lemma child_ty:
  assumes "optimize_opt prog f x = Done y"
  shows "(case y of None \<Rightarrow> None | Some l \<Rightarrow> ndty l) = (case x of None \<Rightarrow> None | Some l \<Rightarrow> ndty l)"
  using assms optimize_ty by (cases x) auto

lemma const_ops_of_folds:
  assumes "fold_value k l r = Done (Some v)"
  shows "\<exists>g. const_binop k = Some g \<and> g l r = Done (Some v)"
  using assms by (auto simp: fold_value_def split: node_kind.splits if_splits)

text \<open>One folding step leaves the value of a constant expression alone.\<close>

lemma fold_preserves:
  assumes f: "fold_node prog f n = Done m" and v: "eval_const_expr (Some n) = Done (Some v)"
  shows "eval_const_expr (Some m) = Done (Some v)"
proof (cases "m = n")
  case True
  then show ?thesis using v by simp
next
  case False
  have nc: "ndkind n \<noteq> ND_FUNCALL"
    using v eval_const_call by auto
  with f False obtain l r w where w: "num_child (lhs n) = Some l" "num_child (rhs n) = Some r"
    "fold_value (ndkind n) l r = Done (Some w)" "m = num_node w (ndty n)"
    by (auto simp: fold_node_def fold_arith_def split: if_splits option.splits)
  then have "eval_const_expr (lhs n) = Done (Some l)" "eval_const_expr (rhs n) = Done (Some r)"
    by (auto simp: num_child_def eval_const_num split: option.splits if_splits)
  moreover obtain g where "const_binop (ndkind n) = Some g" "g l r = Done (Some w)"
    using const_ops_of_folds [OF w(3)] by blast
  ultimately have "eval_const_expr (Some n) = Done (Some w)"
    by (simp add: eval_const_binop)
  with v w(4) show ?thesis by simp
qed

lemma fold_keeps:
  "fold_node prog f n = Done m \<Longrightarrow> ndkind n \<notin> {ND_ADD, ND_SUB, ND_MUL, ND_DIV, ND_MOD, ND_FUNCALL} \<Longrightarrow> m = n"
  using fold_shape by blast

lemma optimize_preserves:
  "optimize_opt prog f no = Done mo \<Longrightarrow> eval_const_expr no = Done (Some v) \<Longrightarrow>
     eval_const_expr mo = Done (Some v)"
  "optimize_opt prog f ao = Done mo \<Longrightarrow> eval_const_addr_expr ao = Done (Some v) \<Longrightarrow>
     eval_const_addr_expr mo = Done (Some v)"
proof (induction no and ao arbitrary: mo v and mo v rule: eval_const_expr_eval_const_addr_expr.induct)
  case (2 n)
  obtain m n' where m: "mo = Some m" and n': "info n' = info n" "fold_node prog f n' = Done m"
    "optimize_opt prog f (lhs n) = Done (lhs n')" "optimize_opt prog f (rhs n) = Done (rhs n')"
    "optimize_opt prog f (ncond n) = Done (ncond n')" "optimize_opt prog f (nthen n) = Done (nthen n')"
    "optimize_opt prog f (nels n) = Done (nels n')"
    using 2(10) unfolding optimize_opt_Some by (auto elim: optimize_node_shape)
  have k: "ndkind n' = ndkind n" using n'(1) by simp
  have "eval_const_expr (Some n') = Done (Some v)"
    using 2(11)
  proof (cases rule: eval_const_cases)
    case (binop g l r)
    moreover have "eval_const_expr (lhs n') = Done (Some l)" "eval_const_expr (rhs n') = Done (Some r)"
      using 2(8,9) n' binop by blast+
    ultimately show ?thesis using k by (simp add: eval_const_binop)
  next
    case (unop g l)
    moreover have "eval_const_expr (lhs n') = Done (Some l)"
      using 2(7) n' unop by blast
    ultimately show ?thesis using k by (simp add: eval_const_unop)
  next
    case number
    then show ?thesis using k n'(1) by (simp add: eval_const_num)
  next
    case sizeof
    then show ?thesis
      using k child_ty [OF n'(3)] n'(1)
      by (simp add: eval_const_sizeof const_sizeof_def cong: option.case_cong)
  next
    case (addr l)
    then obtain l' where l': "lhs n' = Some l'" "optimize_node prog f l = Done l'"
      using n'(3) by auto
    show ?thesis
    proof (cases "ndkind l = ND_DEREF")
      case True
      obtain l2 where l2: "info l2 = info l" "fold_node prog f l2 = Done l'"
        "optimize_opt prog f (lhs l) = Done (lhs l2)"
        using l'(2) by (rule optimize_node_shape)
      then have "l' = l2" using fold_keeps [of prog f l2 l'] True by simp
      moreover have "eval_const_expr (lhs l2) = Done (Some v)"
        using 2(1) [OF _ _ _ _ _ addr(2) True l2(3)] addr True by simp
      ultimately show ?thesis using k addr(1) l'(1) l2(1) True by (simp add: eval_const_addr_of)
    next
      case False
      have "eval_const_addr_expr (Some l') = Done (Some v)"
        using 2(2) [OF _ _ _ _ _ addr(2) False, of "Some l'"] l'(2) addr False by simp
      then show ?thesis
        using k addr(1) l'(1) by (cases "ndkind l' = ND_DEREF") (simp_all add: eval_const_addr_of eval_addr_deref)
    qed
  next
    case comma
    then have "eval_const_expr (rhs n') = Done (Some v)"
      using 2(3) n'(4) by simp
    then show ?thesis using k comma(1) by (simp add: eval_const_comma)
  next
    case (cond x)
    have "eval_const_expr (ncond n') = Done (Some x)"
      using 2(4) n'(5) cond by simp
    moreover have "eval_const_expr (if x \<noteq> 0 then nthen n' else nels n') = Done (Some v)"
      using 2(5) [OF _ _ _ _ _ _ _ cond(2) refl _ n'(6)] 2(6) [OF _ _ _ _ _ _ _ cond(2) refl _ n'(7)] cond by auto
    ultimately show ?thesis using k cond(1) by (simp add: eval_const_cond)
  qed
  then show ?case using fold_preserves n'(2) m by simp
next
  case (4 n)
  obtain m n' where m: "mo = Some m" and n': "info n' = info n" "fold_node prog f n' = Done m"
    "optimize_opt prog f (lhs n) = Done (lhs n')"
    using 4(4) unfolding optimize_opt_Some by (auto elim: optimize_node_shape)
  show ?case
  proof (cases "ndkind n = ND_MEMBER \<or> ndkind n = ND_DEREF")
    case True
    then have "m = n'" using fold_keeps [OF n'(2)] n'(1) by auto
    then show ?thesis
      using True m n' 4(1,2,5)
      by (auto simp: eval_const_addr_expr.simps split: option.splits)
  next
    case False
    then have "eval_const_expr (Some n) = Done (Some v)"
      using 4(5) by (simp add: eval_const_addr_expr.simps)
    then have "eval_const_expr (Some m) = Done (Some v)"
      using 4(3) 4(4) False m by simp
    moreover have "ndkind m \<noteq> ND_MEMBER" "ndkind m \<noteq> ND_DEREF"
      using fold_shape [OF n'(2)] n'(1) False by auto
    ultimately show ?thesis using m by (simp add: eval_const_addr_expr.simps)
  qed
qed auto

section \<open>The interpreter\<close>

lemma res_le_rmap: "res_le x y \<Longrightarrow> res_le (rmap g x) (rmap g y)"
  by (auto simp: rmap_def intro: res_le_rbind)

definition ev_le :: "evaluator \<Rightarrow> evaluator \<Rightarrow> bool" where
  "ev_le e1 e2 \<longleftrightarrow> (\<forall>n s. res_le (e1 n s) (e2 n s))"

lemma ev_leD: "ev_le e1 e2 \<Longrightarrow> res_le (e1 n s) (e2 n s)"
  by (simp add: ev_le_def)

lemma eval_sub_mono: "ev_le e1 e2 \<Longrightarrow> res_le (eval_sub e1 n s) (eval_sub e2 n s)"
  by (auto simp: eval_sub_def intro: res_le_rmap ev_leD)

lemma eval_body_mono:
  assumes "ev_le e1 e2"
  shows "res_le (eval_body e1 ns s) (eval_body e2 ns s)"
  using ev_leD [OF assms]
  by (induction ns arbitrary: s) (auto intro!: res_le_rbind split: prod.splits)

lemma eval_args_mono: "ev_le e1 e2 \<Longrightarrow> res_le (eval_args e1 ns k s) (eval_args e2 ns k s)"
  by (induction ns arbitrary: k s) (auto intro!: res_le_rbind res_le_rmap eval_sub_mono split: prod.splits)

lemma eval_parts_mono:
  assumes "ev_le e1 e2"
  shows "res_le (eval_assign e1 n s) (eval_assign e2 n s)" "res_le (eval_if e1 n s) (eval_if e2 n s)"
    "res_le (eval_binop e1 n s) (eval_binop e2 n s)" "res_le (eval_call prog e1 n s) (eval_call prog e2 n s)"
  unfolding eval_assign_def eval_if_def eval_binop_def eval_call_def
  using ev_leD [OF assms] eval_sub_mono [OF assms] eval_args_mono [OF assms] eval_body_mono [OF assms]
  by (auto intro!: res_le_rbind res_le_rmap split: prod.splits option.splits)

lemma eval_node_mono: "ev_le e1 e2 \<Longrightarrow> res_le (eval_node prog e1 n s) (eval_node prog e2 n s)"
  unfolding eval_node_def
  by (cases "ndkind n")
    (simp_all add: eval_parts_mono eval_sub_mono eval_body_mono res_le_rmap)

lemma eval_ast_Suc_mono: "ev_le (eval_ast prog f) (eval_ast prog (Suc f))"
proof (induction f)
  case 0
  then show ?case by (simp add: ev_le_def res_le_def)
next
  case (Suc f)
  then show ?case
    using eval_node_mono [OF Suc] by (auto simp: ev_le_def split: option.splits)
qed

lemma ev_le_trans: "ev_le a b \<Longrightarrow> ev_le b c \<Longrightarrow> ev_le a c"
  unfolding ev_le_def res_le_def by metis

lemma eval_ast_mono: "f \<le> g \<Longrightarrow> ev_le (eval_ast prog f) (eval_ast prog g)"
proof (induction g rule: dec_induct)
  case base
  then show ?case by (simp add: ev_le_def)
next
  case (step g)
  then show ?case using eval_ast_Suc_mono ev_le_trans by blast
qed

text \<open>Without calls the recursion is bounded by the tree.\<close>

fun call_free :: "node \<Rightarrow> bool"
  and call_free_opt :: "node option \<Rightarrow> bool"
  and call_free_list :: "node list \<Rightarrow> bool" where
  "call_free (Node i l r c t e a b bo ar sr) \<longleftrightarrow>
     nkind i \<noteq> ND_FUNCALL \<and> call_free_opt l \<and> call_free_opt r \<and> call_free_opt c \<and> call_free_opt t \<and>
     call_free_opt e \<and> call_free_list bo"
| "call_free_opt None = True"
| "call_free_opt (Some n) = call_free n"
| "call_free_list [] = True"
| "call_free_list (n # ns) \<longleftrightarrow> call_free n \<and> call_free_list ns"

lemma call_free_list_member: "call_free_list ns \<Longrightarrow> m \<in> set ns \<Longrightarrow> call_free m"
  by (induction ns) auto

lemma call_free_children:
  assumes "call_free n"
  shows "ndkind n \<noteq> ND_FUNCALL \<and> call_free_opt (lhs n) \<and> call_free_opt (rhs n) \<and> call_free_opt (ncond n) \<and>
    call_free_opt (nthen n) \<and> call_free_opt (nels n) \<and> call_free_list (nbody n)"
  using assms by (cases n) simp

lemma size_list_member: "m \<in> set ns \<Longrightarrow> size m \<le> size_list size (ns :: node list)"
  by (induction ns) auto

lemma body_size:
  assumes "m \<in> set (nbody n)"
  shows "size m < size n"
proof (cases n)
  case (Node i l r c t e a b bo ar sr)
  then show ?thesis using size_list_member [of m bo] assms by simp
qed

lemma rbind_Fuel [simp]: "rbind x g = Fuel \<longleftrightarrow> x = Fuel \<or> (\<exists>v. x = Done v \<and> g v = Fuel)"
  by (cases x) auto

lemma rmap_not_Fuel [simp]: "rmap g x = Fuel \<longleftrightarrow> x = Fuel"
  by (cases x) auto

lemma env_ops_not_Fuel [simp]: "env_get s v \<noteq> Fuel" "env_set s v x \<noteq> Fuel" "failed s \<noteq> Fuel"
  by (simp_all add: env_get_def env_set_def failed_def)

lemma int_binop_not_Fuel: "int_binop k l r s \<noteq> Fuel"
  by (simp add: int_binop_def)

lemma eval_body_not_Fuel:
  "(\<And>n s. n \<in> set ns \<Longrightarrow> ev (Some n) s \<noteq> Fuel) \<Longrightarrow> eval_body ev ns s \<noteq> Fuel"
  by (induction ns arbitrary: s) (auto split: prod.splits if_splits)

lemma eval_node_not_Fuel:
  assumes "\<And>s. ev (lhs n) s \<noteq> Fuel" "\<And>s. ev (rhs n) s \<noteq> Fuel" "\<And>s. ev (ncond n) s \<noteq> Fuel"
    "\<And>s. ev (nthen n) s \<noteq> Fuel" "\<And>s. ev (nels n) s \<noteq> Fuel"
    "\<And>m s. m \<in> set (nbody n) \<Longrightarrow> ev (Some m) s \<noteq> Fuel" and "ndkind n \<noteq> ND_FUNCALL"
  shows "eval_node prog ev n s \<noteq> Fuel"
proof -
  have sub: "eval_sub ev (lhs n) s \<noteq> Fuel" "eval_sub ev (rhs n) s \<noteq> Fuel" "eval_sub ev (ncond n) s \<noteq> Fuel" for s
    using assms(1-3) by (simp_all add: eval_sub_def)
  have "eval_assign ev n s \<noteq> Fuel" "eval_if ev n s \<noteq> Fuel" "eval_binop ev n s \<noteq> Fuel"
    unfolding eval_assign_def eval_if_def eval_binop_def
    using sub assms(4,5) int_binop_not_Fuel
    by (auto split: option.splits prod.splits if_splits)
  then show ?thesis
    using assms(7) sub eval_body_not_Fuel [of "nbody n" ev s, OF assms(6)]
    unfolding eval_node_def by (cases "ndkind n") (simp_all split: option.splits)
qed

lemma enough_fuel:
  "call_free n \<Longrightarrow> size n < f \<Longrightarrow> eval_ast prog f (Some n) s \<noteq> Fuel"
proof (induction f arbitrary: n s)
  case (Suc f)
  have child: "eval_ast prog f c s \<noteq> Fuel" if "call_free_opt c" "\<And>m. c = Some m \<Longrightarrow> size m < size n" for c s
  proof (cases c)
    case None
    have "f \<noteq> 0" using Suc.prems by (cases n) auto
    then obtain g where "f = Suc g" using not0_implies_Suc by blast
    then show ?thesis using None by simp
  next
    case (Some m)
    then show ?thesis using Suc.IH [of m] Suc.prems that by simp
  qed
  have "eval_node prog (eval_ast prog f) n s \<noteq> Fuel"
  proof (rule eval_node_not_Fuel)
    show "eval_ast prog f (Some m) s \<noteq> Fuel" if "m \<in> set (nbody n)" for m s
      using Suc.IH [of m s] Suc.prems(2) body_size [OF that] call_free_children [OF Suc.prems(1)]
        call_free_list_member [OF _ that] by simp
  qed (use call_free_children [OF Suc.prems(1)] child_size [of n] child in auto)
  then show ?case by simp
qed simp

section \<open>Parameter slots\<close>

lemma bind_params_other:
  assumes "bind_params ps xs s = Done e" "slot v \<notin> slot ` set ps"
  shows "env_get e v = env_get s v"
  using assms
proof (induction ps xs s rule: bind_params.induct)
  case (1 p ps x xs s)
  obtain s' where s': "env_set s p x = Done s'" "bind_params ps xs s' = Done e"
    using 1(2) by auto
  have "env_get s' v = env_get s v"
    using s'(1) 1(3)
    by (auto simp: env_set_def env_get_def nth_list_update split: if_splits)
  then show ?case using 1 s' by simp
qed auto

lemma bind_params_binds:
  assumes "length xs = length ps" "distinct (map slot ps)"
    "list_all (\<lambda>p. 0 \<le> slot p \<and> slot p < int (length (env s))) ps"
  shows "\<exists>e. bind_params ps xs s = Done e \<and> (\<forall>i < length ps. env_get e (ps ! i) = Done (xs ! i))"
  using assms
proof (induction ps xs s rule: bind_params.induct)
  case (1 p ps x xs s)
  then obtain s' where s': "env_set s p x = Done s'" "length (env s') = length (env s)"
    "env_get s' p = Done x"
    by (auto simp: env_set_def env_get_def)
  then obtain e where e: "bind_params ps xs s' = Done e" "\<forall>i < length ps. env_get e (ps ! i) = Done (xs ! i)"
    using 1 by auto
  have "env_get e p = Done x"
    using bind_params_other [OF e(1)] s'(3) 1(3) by auto
  then show ?case using s'(1) e by (auto simp: nth_Cons split: nat.splits)
qed auto

section \<open>The integer sublanguage\<close>

definition int_binops :: "node_kind list" where
  "int_binops = [ND_ADD, ND_SUB, ND_MUL, ND_DIV, ND_MOD, ND_EQ, ND_NE, ND_LT, ND_LE]"

inductive int_expr :: "node \<Rightarrow> bool" where
  literal: "in32 v \<Longrightarrow> int_expr (num_node v t)"
| binary: "int_expr l \<Longrightarrow> int_expr r \<Longrightarrow> k \<in> set int_binops \<Longrightarrow> int_expr (new_binary k l r)"

lemma in32_in64: "in32 x \<Longrightarrow> in64 x"
  by (simp add: in32_def in64_def)

lemma smod_in64: "in32 l \<Longrightarrow> in32 r \<Longrightarrow> r \<noteq> 0 \<Longrightarrow> in64 (l smod r)"
  using smod_int_range [of r l] by (auto simp: in32_def in64_def)

lemma int_binop_const:
  assumes "int_binop k l r s = Done (v, s')" "success s'" "success s" "in32 l" "in32 r" "k \<in> set int_binops"
  shows "s' = s \<and> (\<exists>g. const_binop k = Some g \<and> g l r = Done (Some v)) \<and> in32 v"
proof -
  have "in32 (l smod r)" if "r \<noteq> 0"
    using smod_int_range [OF that, of l] assms(5) by (auto simp: in32_def)
  then show ?thesis
    using assms in32_in64
    by (auto simp: int_binops_def int_binop_def failed_def in32_def [of 0] in32_def [of 1] split: if_splits)
      (auto simp: in32_def)
qed

lemma eval_num: "eval_ast prog (Suc f) (Some (num_node v t)) s = Done (wrap32 v, s)" if "success s"
  using that by (simp add: eval_node_def)

lemma eval_bin:
  "eval_ast prog (Suc f) (Some (new_binary k l r)) s = eval_binop (eval_ast prog f) (new_binary k l r) s"
  if "success s" "k \<in> set int_binops"
  using that by (auto simp: eval_node_def int_binops_def)

lemma eval_sub_failed: "\<not> success s \<Longrightarrow> eval_sub (eval_ast prog f) n s = Done (v, s') \<Longrightarrow> \<not> success s'"
  by (cases f; cases n) (auto simp: eval_sub_def)

lemma int_expr_eval:
  assumes "int_expr n"
  shows "eval_ast prog f (Some n) s = Done (v, s') \<Longrightarrow> success s \<Longrightarrow> success s' \<Longrightarrow> \<not> cf_return s \<Longrightarrow>
           s' = s \<and> eval_const_expr (Some n) = Done (Some v) \<and> in32 v"
  using assms
proof (induction n arbitrary: f s v s' rule: int_expr.induct)
  case (literal x t)
  then show ?case by (cases f) (auto simp: eval_node_def wrap32_id)
next
  case (binary l r k)
  then obtain g where g: "f = Suc g" by (cases f) auto
  have same: "s\<lparr>cf_return := False\<rparr> = s" using binary.prems(4) by simp
  obtain lv s1 rv s2 where e: "eval_sub (eval_ast prog g) (Some l) s = Done (lv, s1)"
    "eval_sub (eval_ast prog g) (Some r) s1 = Done (rv, s2)" "success s2" "int_binop k lv rv s2 = Done (v, s')"
    using binary.prems(1,2,3) binary.hyps(3) g
    by (auto simp: eval_bin eval_binop_def simp del: eval_ast.simps split: if_splits)
  then have s1: "success s1"
    by (rule_tac ccontr) (auto simp: eval_sub_failed)
  obtain t1 where t1: "eval_ast prog g (Some l) s = Done (lv, t1)" "s1 = t1\<lparr>cf_return := cf_return s\<rparr>"
    using e(1) same by (auto simp: eval_sub_def)
  then have l: "s1 = s" "eval_const_expr (Some l) = Done (Some lv)" "in32 lv"
    using binary.IH(1) [OF t1(1) binary.prems(2)] s1 binary.prems(4) by auto
  obtain t2 where t2: "eval_ast prog g (Some r) s = Done (rv, t2)" "s2 = t2\<lparr>cf_return := cf_return s\<rparr>"
    using e(2) same l(1) by (auto simp: eval_sub_def)
  then have r: "s2 = s" "eval_const_expr (Some r) = Done (Some rv)" "in32 rv"
    using binary.IH(2) [OF t2(1) binary.prems(2)] e(3) binary.prems(4) by auto
  show ?case
    using int_binop_const [OF e(4) binary.prems(3) e(3) l(3) r(3) binary.hyps(3)] l r
    by (auto simp: eval_const_binop)
qed

section \<open>Properties\<close>

text \<open>
  C9. Folding keeps the value the compiler gives to a constant expression: whatever the optimiser rewrites in a
  tree, the parser's evaluator \<open>eval_const_expr\<close> gives the rewritten tree the value it gave the tree. This value is
  computed in signed 64-bit arithmetic and is not always that of C (\<open>unsigned_division_folded\<close>).
\<close>

theorem optimize_keeps_constants:
  assumes "optimize_node prog f n = Done m" and "eval_const_expr (Some n) = Done (Some v)"
  shows "eval_const_expr (Some m) = Done (Some v)"
  using optimize_preserves(1) [of prog f "Some n" "Some m" v] assms by simp

theorem optimize_keeps_constants_witness:
  "eval_const_expr (Some (num_node 7 None)) = Done (Some 7)"
proof (rule optimize_keeps_constants)
  show "optimize_node [] 0 (new_binary ND_ADD (num_node 3 None) (num_node 4 None)) = Done (num_node 7 None)"
    by (simp add: new_binary_def num_node_def zero_node_def fold_node_def fold_arith_def num_child_def
        fold_value_def ck64_def in64_def)
  show "eval_const_expr (Some (new_binary ND_ADD (num_node 3 None) (num_node 4 None))) = Done (Some 7)"
    by (simp add: eval_const_binop in64_def)
qed

text \<open>
  C27. The interpreter agrees with the constant evaluator: on a tree of 32-bit literals and integer operators a
  successful run of \<open>eval_ast\<close> leaves the state alone and returns the value of the constant expression.
\<close>

theorem eval_ast_agrees:
  assumes "int_expr n" and "eval_ast prog f (Some n) s = Done (v, s')"
    and "success s" "success s'" "\<not> cf_return s"
  shows "s' = s \<and> eval_const_expr (Some n) = Done (Some v)"
  using int_expr_eval [OF assms(1,2)] assms(3-5) by simp

theorem eval_ast_agrees_witness:
  "eval_const_expr (Some (new_binary ND_SUB (num_node 2 None) (num_node 9 None))) = Done (Some (- 7))"
proof -
  have i: "int_expr (new_binary ND_SUB (num_node 2 None) (num_node 9 None))"
    by (intro int_expr.intros) (simp_all add: in32_def int_binops_def)
  have "eval_ast [] 2 (Some (new_binary ND_SUB (num_node 2 None) (num_node 9 None))) fresh_state =
    Done (-7, fresh_state)"
    by (simp add: numeral_2_eq_2 eval_node_def eval_binop_def eval_sub_def int_binop_def fresh_state_def
        ck32_def in32_def wrap32_id)
  from eval_ast_agrees [OF i this] show ?thesis
    by (simp add: fresh_state_def)
qed

text \<open>
  The interpreter terminates on code without calls: fuel beyond the size of the tree always gives an
  answer, and more fuel never changes an answer.
\<close>

theorem eval_ast_terminates:
  assumes "call_free n" and "size n < f"
  shows "\<exists>r. r \<noteq> Fuel \<and> (\<forall>g \<ge> f. eval_ast prog g (Some n) s = r)"
proof -
  have "eval_ast prog g (Some n) s = eval_ast prog f (Some n) s" if "f \<le> g" for g
    using ev_leD [OF eval_ast_mono [OF that, of prog], of "Some n" s] enough_fuel [OF assms, of prog s]
    by (auto simp: res_le_def)
  then show ?thesis using enough_fuel [OF assms, of prog s] by blast
qed

theorem eval_ast_terminates_witness:
  "\<exists>r. r \<noteq> Fuel \<and> (\<forall>g \<ge> 100. eval_ast [] g (Some (new_unary ND_RETURN (num_node 1 None))) fresh_state = r)"
  by (rule eval_ast_terminates) (simp_all add: new_unary_def num_node_def zero_node_def)

text \<open>
  A call evaluated at compile time sees its arguments: when the parameters have distinct slots in the
  environment, every parameter is bound to its own argument.
\<close>

theorem params_bound:
  assumes "length xs = length ps" and "distinct (map slot ps)"
    and "list_all (\<lambda>p. 0 \<le> slot p \<and> slot p < 256) ps"
  shows "\<exists>e. bind_params ps xs fresh_state = Done e \<and> (\<forall>i < length ps. env_get e (ps ! i) = Done (xs ! i))"
  using bind_params_binds [of xs ps fresh_state] assms by (simp add: fresh_state_def)

definition param :: "string \<Rightarrow> int \<Rightarrow> lvar" where
  "param x off = \<lparr>vname = x, voffset = off, vty = Some ty_int, vis_local = True, vcleanup = None, vasm_name = None\<rparr>"

lemma slot_param [simp]: "slot (param x off) = off sdiv 8"
  by (simp add: slot_def param_def)

theorem params_bound_witness:
  "\<exists>e. bind_params [param ''a'' 8, param ''b'' 16] [10, 20] fresh_state = Done e \<and>
       (\<forall>i < length [param ''a'' 8, param ''b'' 16]. env_get e ([param ''a'' 8, param ''b'' 16] ! i) = Done ([10, 20] ! i))"
  by (rule params_bound) (simp_all add: signed_divide_int_def)

text \<open>\<open>int f(int a, int b, int c) { return b; }\<close> with the offsets \<open>new_var\<close> gives \<open>int\<close> parameters.\<close>

definition second_of_three :: function_def where
  "second_of_three =
     \<lparr>fname = ''f'', fparams = [param ''a'' 4, param ''b'' 8, param ''c'' 12],
      flocals = [param ''c'' 12, param ''b'' 8, param ''a'' 4],
      fbody = [new_unary ND_RETURN (new_var_node (param ''b'' 8))]\<rparr>"

definition call_node :: "string \<Rightarrow> node list \<Rightarrow> node" where
  "call_node f args =
     Node ((zero_node ND_FUNCALL)\<lparr>funcname := Some f, nty := Some ty_int\<rparr>) None None None None None None None [] args None"

text \<open>
  Parameters of type \<open>int\<close> share slots: offsets 8 and 12 have the same slot, so the call \<open>f(1, 2, 3)\<close> of a
  function that returns its second parameter is folded to 3.
\<close>

theorem int_params_collide:
  "optimize_node [TL_FUNC second_of_three] 5
     (call_node ''f'' [num_node 1 (Some ty_int), num_node 2 (Some ty_int), num_node 3 (Some ty_int)])
   = Done (num_node 3 (Some ty_int))"
proof -
  have s: "(4::int) sdiv 8 = 0" "(8::int) sdiv 8 = 1" "(12::int) sdiv 8 = 1"
    by (simp_all add: signed_divide_int_def)
  have b: "bind_params (fparams second_of_three) [1, 2, 3] fresh_state =
      Done (fresh_state\<lparr>env := (replicate 256 0)[0 := 1, 1 := 3]\<rparr>)"
    by (simp add: second_of_three_def env_set_def s fresh_state_def)
  let ?e = "fresh_state\<lparr>env := (replicate 256 0)[0 := 1, 1 := 3]\<rparr>"
  have "env_get ?e (param ''b'' 8) = Done 3"
    by (simp add: env_get_def s fresh_state_def)
  then have r: "eval_body (eval_ast prog 5) (fbody second_of_three) ?e = Done (3, ?e\<lparr>cf_return := True\<rparr>)" for prog
    by (simp add: second_of_three_def eval_node_def eval_sub_def new_unary_def new_var_node_def zero_node_def
        numeral_eq_Suc fresh_state_def)
  have "find_function [TL_FUNC second_of_three] ''f'' = Some second_of_three"
    by (simp add: find_function_def second_of_three_def)
  with b r show ?thesis
    by (simp add: call_node_def zero_node_def num_node_def fold_node_def fold_call_def has_addr_arg_def
        has_cleanup_local_def wrap32_id in32_def)
      (simp add: second_of_three_def param_def fresh_state_def)
qed

text \<open>\<open>int g; int f(void) { g = 1; }\<close>: a global has offset 0, like no slot of its own.\<close>

definition global_g :: lvar where
  "global_g = \<lparr>vname = ''g'', voffset = 0, vty = Some ty_int, vis_local = False, vcleanup = None, vasm_name = None\<rparr>"

definition set_g :: function_def where
  "set_g = \<lparr>fname = ''f'', fparams = [], flocals = [],
     fbody = [new_unary ND_EXPR_STMT (new_binary ND_ASSIGN (new_var_node global_g) (num_node 1 (Some ty_int)))]\<rparr>"

text \<open>
  A call whose body stores into a global variable is folded too: the interpreter takes the store for one to
  the environment, the call becomes the number 1, and the store is gone from the program.
\<close>

theorem global_store_folded:
  "optimize_node [TL_FUNC set_g] 5 (call_node ''f'' []) = Done (num_node 1 (Some ty_int))"
proof -
  have r: "eval_body (eval_ast prog 5) (fbody set_g) fresh_state =
      Done (1, fresh_state\<lparr>env := (replicate 256 0)[0 := 1]\<rparr>)" for prog
    by (simp add: set_g_def eval_node_def eval_sub_def eval_assign_def new_unary_def new_binary_def
        new_var_node_def zero_node_def num_node_def numeral_eq_Suc fresh_state_def env_set_def slot_def global_g_def
        wrap32_id in32_def signed_divide_int_def)
  have f: "find_function [TL_FUNC set_g] ''f'' = Some set_g"
    by (simp add: find_function_def set_g_def)
  show ?thesis
    using r f
    by (simp add: call_node_def zero_node_def num_node_def fold_node_def fold_call_def has_addr_arg_def
        has_cleanup_local_def)
      (simp add: set_g_def fresh_state_def)
qed

text \<open>
  Division of unsigned 64-bit literals is folded as a signed one: for a dividend at or above \<open>2 ^ 63\<close>, stored
  as the negative number \<open>l\<close>, and a divisor \<open>r > 1\<close>, the folded value is not the unsigned quotient.
\<close>

theorem unsigned_division_folded:
  assumes "- (2 ^ 63) \<le> l" "l < 0" "1 < r" "r < 2 ^ 63"
  shows "\<exists>v. optimize_node prog f (set_ty (Some ty_ullong)
            (new_binary ND_DIV (num_node l (Some ty_ullong)) (num_node r (Some ty_ullong)))) =
              Done (num_node v (Some ty_ullong)) \<and>
          v mod 2 ^ 64 \<noteq> (l mod 2 ^ 64) div r"
proof -
  have v: "l sdiv r = - ((- l) div r)"
    using assms by (simp add: signed_divide_int_def sgn_if)
  have q: "0 \<le> (- l) div r" "(- l) div r \<le> (- l) div 2"
    using assms by (auto intro: zdiv_mono2 simp: pos_imp_zdiv_nonneg_iff)
  then have "in64 (l sdiv r)" using assms unfolding v in64_def by auto
  then have "optimize_node prog f (set_ty (Some ty_ullong)
            (new_binary ND_DIV (num_node l (Some ty_ullong)) (num_node r (Some ty_ullong)))) =
              Done (num_node (l sdiv r) (Some ty_ullong))"
    using assms by (simp add: set_ty_def new_binary_def num_node_def zero_node_def fold_node_def fold_arith_def
        num_child_def fold_value_def ck64_def)
  moreover have "(l sdiv r) mod 2 ^ 64 \<noteq> (l mod 2 ^ 64) div r"
  proof -
    have lm: "l mod 2 ^ 64 = l + 2 ^ 64"
      using mod_pos_pos_trivial [of "l + 2 ^ 64" "2 ^ 64"] assms by simp
    have up: "(l + 2 ^ 64) div r \<le> (l + 2 ^ 64) div 2"
      using assms by (intro zdiv_mono2) auto
    have low: "1 \<le> (l + 2 ^ 64) div r"
      using assms by (simp add: pos_imp_zdiv_pos_iff int_one_le_iff_zero_less)
    show ?thesis
    proof (cases "(- l) div r = 0")
      case True
      then show ?thesis using v lm low by simp
    next
      case False
      then have "(- ((- l) div r)) mod 2 ^ 64 = 2 ^ 64 - (- l) div r"
        using q assms mod_pos_pos_trivial [of "2 ^ 64 - (- l) div r" "2 ^ 64"] by auto
      then show ?thesis using v lm up q assms by auto
    qed
  qed
  ultimately show ?thesis by blast
qed

theorem unsigned_division_folded_witness:
  "\<exists>v. optimize_node [] 0 (set_ty (Some ty_ullong)
            (new_binary ND_DIV (num_node (- 1) (Some ty_ullong)) (num_node 2 (Some ty_ullong)))) =
              Done (num_node v (Some ty_ullong)) \<and> v mod 2 ^ 64 \<noteq> ((- 1) mod 2 ^ 64) div 2"
  by (rule unsigned_division_folded) simp_all

end
