(* ===== verification/Utf8.thy ===== *)
theory Utf8
  imports Outcome
begin

text \<open>
  The UTF-8 codecs of \<open>src/unicode.c\<close>. The lexer's pair \<open>encode_utf8\<close>, \<open>decode_utf8\<close> and the identifier
  library's table-driven pair \<open>enc_utf8\<close>, \<open>dec_utf8\<close> are translated separately; bytes are 8-bit words,
  code points 32-bit words. \<open>decode_utf8\<close> walks over a NUL-terminated string, given without its
  NUL; \<open>dec_utf8\<close> can step over the NUL, so it is given the whole rest of the buffer.
\<close>

type_synonym byte = "8 word"
type_synonym codepoint = "32 word"

section \<open>The codec of the lexer\<close>

definition MASK :: "nat \<Rightarrow> byte" where
  "MASK bits = push_bit bits 1 - 1"

definition MASK2 :: "nat \<Rightarrow> nat \<Rightarrow> byte" where
  "MASK2 bits shift = push_bit shift (MASK bits)"

definition lead_byte :: "byte \<Rightarrow> codepoint \<Rightarrow> byte" where
  "lead_byte m x = ucast (ucast m OR x)"

definition cont_byte :: "codepoint \<Rightarrow> byte" where
  "cont_byte x = ucast (ucast (MASK2 1 7) OR (x AND ucast (MASK 6)))"

definition encode_utf8 :: "codepoint \<Rightarrow> byte list" where
  "encode_utf8 c =
     (if c \<le> 0x7F then [ucast c]
      else if c \<le> 0x7FF then [lead_byte (MASK2 2 6) (drop_bit 6 c), cont_byte c]
      else if c \<le> 0xFFFF then
        [lead_byte (MASK2 3 5) (drop_bit 12 c), cont_byte (drop_bit 6 c), cont_byte c]
      else
        [lead_byte (MASK2 4 4) (drop_bit 18 c), cont_byte (drop_bit 12 c), cont_byte (drop_bit 6 c), cont_byte c])"

text \<open>\<open>*p\<close>, with the NUL behind the last byte.\<close>

definition byte_at :: "byte list \<Rightarrow> byte" where
  "byte_at p = (case p of [] \<Rightarrow> 0 | b # _ \<Rightarrow> b)"

datatype utf8_error = Invalid_utf8

fun decode_tail :: "nat \<Rightarrow> codepoint \<Rightarrow> byte list \<Rightarrow> utf8_error + codepoint \<times> byte list" where
  "decode_tail 0 c p = Inr (c, p)"
| "decode_tail (Suc n) c p =
     (if drop_bit 6 (byte_at p) \<noteq> MASK2 1 1 then Inl Invalid_utf8
      else decode_tail n (push_bit 6 c OR ucast (byte_at p AND MASK 6)) (tl p))"

definition decode_utf8 :: "byte list \<Rightarrow> utf8_error + codepoint \<times> byte list" where
  "decode_utf8 p =
     (let b = byte_at p
      in if b < 128 then Inr (ucast b, tl p)
         else if b \<ge> MASK2 4 4 then decode_tail 3 (ucast (b AND MASK 3)) (tl p)
         else if b \<ge> MASK2 3 5 then decode_tail 2 (ucast (b AND MASK 4)) (tl p)
         else if b \<ge> MASK2 2 6 then decode_tail 1 (ucast (b AND MASK 5)) (tl p)
         else Inl Invalid_utf8)"

text \<open>\<open>utf8_len\<close> counts the bytes that do not continue a character.\<close>

definition utf8_len :: "byte list \<Rightarrow> nat" where
  "utf8_len p = length (filter (\<lambda>b. b AND 0xC0 \<noteq> 0x80) (takeWhile (\<lambda>b. b \<noteq> 0) p))"

section \<open>The table-driven codec\<close>

record utf_row =
  mask_of :: byte
  lead :: byte
  beg :: codepoint
  end_cp :: codepoint
  bits_stored :: nat

definition utf :: "utf_row list" where
  "utf =
     [\<lparr>mask_of = 0x3F, lead = 0x80, beg = 0, end_cp = 0, bits_stored = 6\<rparr>,
      \<lparr>mask_of = 0x7F, lead = 0x00, beg = 0, end_cp = 0x7F, bits_stored = 7\<rparr>,
      \<lparr>mask_of = 0x1F, lead = 0xC0, beg = 0x80, end_cp = 0x7FF, bits_stored = 5\<rparr>,
      \<lparr>mask_of = 0x0F, lead = 0xE0, beg = 0x800, end_cp = 0xFFFF, bits_stored = 4\<rparr>,
      \<lparr>mask_of = 0x07, lead = 0xF0, beg = 0x10000, end_cp = 0x10FFFF, bits_stored = 3\<rparr>,
      \<lparr>mask_of = 0, lead = 0, beg = 0, end_cp = 0, bits_stored = 0\<rparr>]"

text \<open>The search stops at a null pointer, which the table does not have: past its end it is undefined.\<close>

fun row_index :: "(utf_row \<Rightarrow> bool) \<Rightarrow> utf_row list \<Rightarrow> nat \<Rightarrow> nat res" where
  "row_index P [] n = UB"
| "row_index P (u # us) n = (if P u then Done n else row_index P us (n + 1))"

definition utf8_byte_len :: "byte \<Rightarrow> nat res" where
  "utf8_byte_len ch = row_index (\<lambda>u. ch AND NOT (mask_of u) = lead u) utf 0"

definition cp_len :: "codepoint \<Rightarrow> nat res" where
  "cp_len cp = row_index (\<lambda>u. beg u \<le> cp \<and> cp \<le> end_cp u) utf 0"

text \<open>The continuation bytes: \<open>cp |= (*str & 0x3f) << shift\<close>, six bits less each time.\<close>

fun dec_tail :: "nat \<Rightarrow> codepoint \<Rightarrow> byte list \<Rightarrow> (codepoint \<times> byte list) res" where
  "dec_tail 0 cp p = Done (cp, p)"
| "dec_tail (Suc n) cp [] = UB"
| "dec_tail (Suc n) cp (b # p) =
     dec_tail n (cp OR push_bit (6 * n) (ucast (b AND mask_of (utf ! 0)))) p"

text \<open>
  A lead byte of no row fails with code point 0 and leaves the pointer alone; a continuation byte in lead
  position has length 0 and a negative shift, which the assertion rejects.
\<close>

definition dec_utf8 :: "byte list \<Rightarrow> (codepoint \<times> byte list) res" where
  "dec_utf8 p =
     (case p of
        [] \<Rightarrow> UB
      | b # p' \<Rightarrow>
          rbind (utf8_byte_len b) (\<lambda>bytes.
            if bytes > 4 then Done (0, p)
            else if bytes = 0 then UB
            else dec_tail (bytes - 1)
                   (push_bit (6 * (bytes - 1)) (ucast (b AND mask_of (utf ! bytes)))) p'))"

fun enc_tail :: "nat \<Rightarrow> codepoint \<Rightarrow> byte list" where
  "enc_tail 0 cp = []"
| "enc_tail (Suc n) cp = ucast (drop_bit (6 * n) cp AND ucast (mask_of (utf ! 0)) OR ucast (lead (utf ! 0))) # enc_tail n cp"

text \<open>\<open>None\<close> is the null pointer returned above the Unicode range.\<close>

definition enc_utf8 :: "codepoint \<Rightarrow> byte list option res" where
  "enc_utf8 cp =
     (if cp > 0x10FFFF then Done None
      else rbind (cp_len cp) (\<lambda>bytes.
        if bytes > 4 then Done None
        else if bytes = 0 then UB
        else Done (Some (ucast (drop_bit (6 * (bytes - 1)) cp AND ucast (mask_of (utf ! bytes)) OR ucast (lead (utf ! bytes)))
                         # enc_tail (bytes - 1) cp))))"

section \<open>Bits\<close>

lemma masks [simp]:
  "MASK2 (Suc 0) 7 = 0x80" "MASK2 (Suc 0) (Suc 0) = 2" "MASK2 2 6 = 0xC0" "MASK2 3 5 = 0xE0" "MASK2 4 4 = 0xF0"
  "MASK 3 = 0x07" "MASK 4 = 0x0F" "MASK 5 = 0x1F" "MASK 6 = 0x3F"
  by (simp_all add: MASK_def MASK2_def push_bit_eq_mult)

lemma byte_at_simps [simp]: "byte_at [] = 0" "byte_at (b # p) = b"
  by (simp_all add: byte_at_def)

lemma byte_eqI:
  assumes "list_all (\<lambda>n. bit a n = bit b n) [0, 1, 2, 3, 4, 5, 6, 7]"
  shows "a = (b :: byte)"
proof (rule bit_word_eqI)
  fix n assume "n < LENGTH(8)"
  then have "n \<in> set [0..<8]" by simp
  also have "[0..<8] = [0, 1, 2, 3, 4, 5, 6, 7]" by code_simp
  finally show "bit a n = bit b n" using assms unfolding list_all_iff by blast
qed

lemma codepoint_eqI:
  assumes "list_all (\<lambda>n. bit a n = bit b n)
    [0, 1, 2, 3, 4, 5, 6, 7, 8, 9, 10, 11, 12, 13, 14, 15, 16, 17, 18, 19, 20, 21, 22, 23, 24, 25, 26, 27, 28, 29, 30, 31]"
  shows "a = (b :: codepoint)"
proof (rule bit_word_eqI)
  fix n assume "n < LENGTH(32)"
  then have "n \<in> set [0..<32]" by simp
  also have "[0..<32] = [0, 1, 2, 3, 4, 5, 6, 7, 8, 9, 10, 11, 12, 13, 14, 15, 16, 17, 18, 19, 20, 21, 22, 23, 24, 25, 26, 27, 28, 29, 30, 31]"
    by code_simp
  finally show "bit a n = bit b n" using assms unfolding list_all_iff by blast
qed

lemma high_bits:
  assumes "unat (x :: codepoint) < 2 ^ k" "k \<le> n"
  shows "\<not> bit x n"
proof
  assume "bit x n"
  then have "bit (unat x) n" by (simp add: bit_unsigned_iff bit_imp_le_length)
  moreover have "take_bit k (unat x) = unat x" using assms(1) by (rule take_bit_nat_eq_self)
  ultimately show False using assms(2) by (metis bit_take_bit_iff not_le)
qed

text \<open>The six bits a continuation byte carries.\<close>

lemma cont_byte_facts [simp]:
  "ucast (cont_byte x AND 0x3F) = (take_bit 6 x :: codepoint)"
  "drop_bit 6 (cont_byte x) = 2"
  "cont_byte x AND 0xC0 = 0x80"
  "cont_byte x \<noteq> 0"
proof -
  show "ucast (cont_byte x AND 0x3F) = (take_bit 6 x :: codepoint)"
    by (rule codepoint_eqI) (simp add: cont_byte_def bit_simps)
  show "drop_bit 6 (cont_byte x) = 2"
    by (rule byte_eqI) (simp add: cont_byte_def bit_simps)
  show c: "cont_byte x AND 0xC0 = 0x80"
    by (rule byte_eqI) (simp add: cont_byte_def bit_simps)
  show "cont_byte x \<noteq> 0" using c by force
qed

lemma join_bits: "push_bit 6 (drop_bit 6 x) OR take_bit 6 x = (x :: codepoint)"
  by (rule bit_word_eqI) (auto simp: bit_simps)

lemma decode_tail_encoded:
  "decode_tail (Suc n) (drop_bit 6 x) (cont_byte x # p) = decode_tail n x p"
  by (simp add: join_bits)

lemma drop_bit_range:
  assumes "drop_bit k b = (m :: byte)"
  shows "unat m * 2 ^ k \<le> unat b" "unat b < (unat m + 1) * 2 ^ k"
proof -
  have m: "unat m = unat b div 2 ^ k"
    using assms by (auto simp: unat_drop_bit_eq simp flip: drop_bit_eq_div)
  show "unat m * 2 ^ k \<le> unat b" unfolding m by (simp add: mult.commute)
  show "unat b < (unat m + 1) * 2 ^ k"
    unfolding m using dividend_less_div_times [of "2 ^ k" "unat b"] by (simp add: algebra_simps)
qed

lemma lead2: "unat x < 32 \<Longrightarrow> ucast (lead_byte 0xC0 x AND 0x1F) = x \<and> drop_bit 5 (lead_byte 0xC0 x) = 6"
  by (intro conjI codepoint_eqI byte_eqI) (simp_all add: lead_byte_def bit_simps high_bits [of x 5])

lemma lead3: "unat x < 16 \<Longrightarrow> ucast (lead_byte 0xE0 x AND 0x0F) = x \<and> drop_bit 4 (lead_byte 0xE0 x) = 14"
  by (intro conjI codepoint_eqI byte_eqI) (simp_all add: lead_byte_def bit_simps high_bits [of x 4])

lemma lead4: "unat x < 8 \<Longrightarrow> ucast (lead_byte 0xF0 x AND 0x07) = x \<and> drop_bit 3 (lead_byte 0xF0 x) = 30"
  by (intro conjI codepoint_eqI byte_eqI) (simp_all add: lead_byte_def bit_simps high_bits [of x 3])

lemma lead_order:
  "drop_bit 5 b = (6 :: byte) \<Longrightarrow> \<not> b < 128 \<and> \<not> b \<ge> 0xE0 \<and> \<not> b \<ge> 0xF0 \<and> b \<ge> 0xC0"
  "drop_bit 4 b = (14 :: byte) \<Longrightarrow> \<not> b < 128 \<and> b \<ge> 0xE0 \<and> \<not> b \<ge> 0xF0"
  "drop_bit 3 b = (30 :: byte) \<Longrightarrow> \<not> b < 128 \<and> b \<ge> 0xF0"
  using drop_bit_range [of 5 b 6] drop_bit_range [of 4 b 14] drop_bit_range [of 3 b 30]
  by (auto simp: word_le_nat_alt word_less_nat_alt)

lemma drop_bit_bound: "unat (c :: codepoint) < a * 2 ^ m \<Longrightarrow> unat (drop_bit m c) < a"
  unfolding unat_drop_bit_eq by (simp add: drop_bit_eq_div div_less_iff_less_mult)

lemma decode_encode_aux:
  assumes "unat c < 0x200000"
  shows "decode_utf8 (encode_utf8 c @ p) = Inr (c, p)"
proof -
  consider (1) "unat c \<le> 0x7F" | (2) "\<not> unat c \<le> 0x7F" "unat c \<le> 0x7FF"
    | (3) "\<not> unat c \<le> 0x7FF" "unat c \<le> 0xFFFF" | (4) "\<not> unat c \<le> 0xFFFF" by fastforce
  then show ?thesis
  proof cases
    case 1
    then have "ucast (ucast c :: byte) = c"
      by (intro codepoint_eqI) (simp add: bit_simps high_bits [of c 7])
    moreover have "drop_bit 7 (ucast c :: byte) = 0"
      using 1 by (intro byte_eqI) (simp add: bit_simps high_bits [of c 7])
    then have "(ucast c :: byte) < 128"
      using drop_bit_range(2) [of 7 "ucast c" 0] by (simp add: word_less_nat_alt)
    ultimately have "ucast (ucast c :: byte) = c \<and> (ucast c :: byte) < 128" ..
    then show ?thesis using 1
      by (simp add: encode_utf8_def decode_utf8_def Let_def word_le_nat_alt)
  next
    case 2
    then have b: "unat (drop_bit 6 c) < 32" by (intro drop_bit_bound) simp
    have "decode_tail 1 (drop_bit 6 c) (cont_byte c # p) = Inr (c, p)"
      using decode_tail_encoded [of 0 c p] by simp
    then show ?thesis
      using 2 lead2 [OF b] lead_order(1) [of "lead_byte 0xC0 (drop_bit 6 c)"]
      by (simp add: encode_utf8_def decode_utf8_def Let_def word_le_nat_alt del: decode_tail.simps)
  next
    case 3
    then have b: "unat (drop_bit 12 c) < 16" by (intro drop_bit_bound) simp
    have "decode_tail 2 (drop_bit 12 c) (cont_byte (drop_bit 6 c) # cont_byte c # p) = Inr (c, p)"
      using decode_tail_encoded [of 1 "drop_bit 6 c" "cont_byte c # p"] decode_tail_encoded [of 0 c p]
      by (simp del: decode_tail.simps(2) add: numeral_2_eq_2)
    then show ?thesis
      using 3 lead3 [OF b] lead_order(2) [of "lead_byte 0xE0 (drop_bit 12 c)"]
      by (simp add: encode_utf8_def decode_utf8_def Let_def word_le_nat_alt del: decode_tail.simps)
  next
    case 4
    then have b: "unat (drop_bit 18 c) < 8" using assms by (intro drop_bit_bound) simp
    have "decode_tail 3 (drop_bit 18 c)
        (cont_byte (drop_bit 12 c) # cont_byte (drop_bit 6 c) # cont_byte c # p) = Inr (c, p)"
      using decode_tail_encoded [of 2 "drop_bit 12 c" "cont_byte (drop_bit 6 c) # cont_byte c # p"]
        decode_tail_encoded [of 1 "drop_bit 6 c" "cont_byte c # p"] decode_tail_encoded [of 0 c p]
      by (simp del: decode_tail.simps(2) add: numeral_3_eq_3 numeral_2_eq_2)
    then show ?thesis
      using 4 lead4 [OF b] lead_order(3) [of "lead_byte 0xF0 (drop_bit 18 c)"]
      by (simp add: encode_utf8_def decode_utf8_def Let_def word_le_nat_alt del: decode_tail.simps)
  qed
qed

section \<open>The table-driven codec against the lexer's\<close>

lemma table_masks [simp]:
  "mask_of (utf ! 0) = 0x3F" "lead (utf ! 0) = 0x80" "mask_of (utf ! Suc 0) = 0x7F" "lead (utf ! Suc 0) = 0"
  "mask_of (utf ! 2) = 0x1F" "lead (utf ! 2) = 0xC0" "mask_of (utf ! 3) = 0x0F" "lead (utf ! 3) = 0xE0"
  "mask_of (utf ! 4) = 0x07" "lead (utf ! 4) = 0xF0"
  by (simp_all add: utf_def)

lemma utf8_byte_len_eq:
  "utf8_byte_len b =
     (if b AND 0xC0 = 0x80 then Done 0 else if b AND 0x80 = 0 then Done 1
      else if b AND 0xE0 = 0xC0 then Done 2 else if b AND 0xF0 = 0xE0 then Done 3
      else if b AND 0xF8 = 0xF0 then Done 4 else if b = 0 then Done 5 else UB)"
proof -
  have n: "(- 64 :: byte) = 0xC0" "(- 128 :: byte) = 0x80" "(- 32 :: byte) = 0xE0" "(- 16 :: byte) = 0xF0"
    "(- 8 :: byte) = 0xF8"
    by simp_all
  show ?thesis by (simp add: utf8_byte_len_def utf_def n)
qed

lemma cp_len_eq:
  "cp_len c = (if c = 0 then Done 0 else if c \<le> 0x7F then Done 1 else if c \<le> 0x7FF then Done 2
     else if c \<le> 0xFFFF then Done 3 else if c \<le> 0x10FFFF then Done 4 else UB)"
  by (auto simp: cp_len_def utf_def word_le_nat_alt word_less_nat_alt unat_eq_0)

lemma cont_byte_table: "ucast (x AND 0x3F OR 0x80) = cont_byte x"
  by (rule byte_eqI) (simp add: cont_byte_def bit_simps disj_commute)

lemma enc_tail_Suc: "enc_tail (Suc n) c = cont_byte (drop_bit (6 * n) c) # enc_tail n c"
  using cont_byte_table [of "drop_bit (6 * n) c"] by simp

lemma enc_tail_simps:
  "enc_tail (Suc 0) c = [cont_byte c]"
  "enc_tail 2 c = [cont_byte (drop_bit 6 c), cont_byte c]"
  "enc_tail 3 c = [cont_byte (drop_bit 12 c), cont_byte (drop_bit 6 c), cont_byte c]"
  unfolding numeral_3_eq_3 numeral_2_eq_2 enc_tail_Suc by simp_all

lemma lead_tests:
  "unat x < 32 \<Longrightarrow> lead_byte 0xC0 x AND 0xC0 = 0xC0 \<and> lead_byte 0xC0 x AND 0x80 = 0x80 \<and> lead_byte 0xC0 x AND 0xE0 = 0xC0"
  "unat x < 16 \<Longrightarrow> lead_byte 0xE0 x AND 0xC0 = 0xC0 \<and> lead_byte 0xE0 x AND 0x80 = 0x80 \<and>
     lead_byte 0xE0 x AND 0xE0 = 0xE0 \<and> lead_byte 0xE0 x AND 0xF0 = 0xE0"
  "unat x < 8 \<Longrightarrow> lead_byte 0xF0 x AND 0xC0 = 0xC0 \<and> lead_byte 0xF0 x AND 0x80 = 0x80 \<and>
     lead_byte 0xF0 x AND 0xE0 = 0xE0 \<and> lead_byte 0xF0 x AND 0xF0 = 0xF0 \<and> lead_byte 0xF0 x AND 0xF8 = 0xF0"
  by (intro conjI byte_eqI; simp add: lead_byte_def bit_simps high_bits [of x 5] high_bits [of x 4] high_bits [of x 3])+

lemma lead_table:
  "unat x < 32 \<Longrightarrow> ucast (x AND 0x1F OR 0xC0) = lead_byte 0xC0 x"
  "unat x < 16 \<Longrightarrow> ucast (x AND 0x0F OR 0xE0) = lead_byte 0xE0 x"
  "unat x < 8 \<Longrightarrow> ucast (x AND 0x07 OR 0xF0) = lead_byte 0xF0 x"
  by (intro byte_eqI; simp add: lead_byte_def bit_simps high_bits [of x 5] high_bits [of x 4] high_bits [of x 3])+

lemma encode_cases:
  assumes "unat c < 0x200000"
  obtains
    (one) "unat c \<le> 0x7F" "encode_utf8 c = [ucast c]" "(ucast (ucast c :: byte) :: codepoint) = c"
  | (two) "\<not> unat c \<le> 0x7F" "unat c \<le> 0x7FF" "unat (drop_bit 6 c) < 32"
      "encode_utf8 c = [lead_byte 0xC0 (drop_bit 6 c), cont_byte c]"
  | (three) "\<not> unat c \<le> 0x7FF" "unat c \<le> 0xFFFF" "unat (drop_bit 12 c) < 16"
      "encode_utf8 c = [lead_byte 0xE0 (drop_bit 12 c), cont_byte (drop_bit 6 c), cont_byte c]"
  | (four) "\<not> unat c \<le> 0xFFFF" "unat (drop_bit 18 c) < 8"
      "encode_utf8 c = [lead_byte 0xF0 (drop_bit 18 c), cont_byte (drop_bit 12 c), cont_byte (drop_bit 6 c), cont_byte c]"
proof -
  consider (1) "unat c \<le> 0x7F" | (2) "\<not> unat c \<le> 0x7F" "unat c \<le> 0x7FF"
    | (3) "\<not> unat c \<le> 0x7FF" "unat c \<le> 0xFFFF" | (4) "\<not> unat c \<le> 0xFFFF" by fastforce
  then show thesis
  proof cases
    case 1
    then have "(ucast (ucast c :: byte) :: codepoint) = c"
      by (intro codepoint_eqI) (simp add: bit_simps high_bits [of c 7])
    with 1 show ?thesis by (intro one) (simp_all add: encode_utf8_def word_le_nat_alt)
  next
    case 2
    then show ?thesis
      by (intro two) (auto simp: encode_utf8_def word_le_nat_alt intro!: drop_bit_bound)
  next
    case 3
    then show ?thesis
      by (intro three) (auto simp: encode_utf8_def word_le_nat_alt intro!: drop_bit_bound)
  next
    case 4
    then show ?thesis using assms
      by (intro four) (auto simp: encode_utf8_def word_le_nat_alt intro!: drop_bit_bound)
  qed
qed

lemma enc_utf8_encode:
  assumes "0 < unat c" "unat c \<le> 0x10FFFF"
  shows "enc_utf8 c = Done (Some (encode_utf8 c))"
proof -
  have u: "\<not> c > 0x10FFFF" "c \<noteq> 0" using assms by (auto simp: word_less_nat_alt)
  have c: "unat c < 0x200000" using assms by simp
  from c show ?thesis
  proof (cases rule: encode_cases)
    case one
    have "(ucast (c AND 0x7F OR 0) :: byte) = ucast c"
      by (rule byte_eqI) (use one in \<open>simp add: bit_simps high_bits [of c 7]\<close>)
    with one u show ?thesis
      by (simp add: enc_utf8_def cp_len_eq word_le_nat_alt)
  next
    case two
    then have "cp_len c = Done 2" using u by (simp add: cp_len_eq word_le_nat_alt)
    then show ?thesis using two u lead_table(1) [OF two(3)]
      by (simp add: enc_utf8_def enc_tail_simps del: enc_tail.simps)
  next
    case three
    then have "cp_len c = Done 3" using u by (simp add: cp_len_eq word_le_nat_alt)
    then show ?thesis using three u lead_table(2) [OF three(3)]
      by (simp add: enc_utf8_def enc_tail_simps del: enc_tail.simps)
  next
    case four
    then have "cp_len c = Done 4" using u assms(2) by (simp add: cp_len_eq word_le_nat_alt)
    then show ?thesis using four u lead_table(3) [OF four(2)]
      by (simp add: enc_utf8_def enc_tail_simps del: enc_tail.simps)
  qed
qed

lemma dec_tail_simps:
  "dec_tail (Suc 0) cp (a # p) = Done (cp OR ucast (a AND 0x3F), p)"
  "dec_tail 2 cp (a # b # p) = Done ((cp OR push_bit 6 (ucast (a AND 0x3F))) OR ucast (b AND 0x3F), p)"
  "dec_tail 3 cp (a # b # d # p) =
     Done (((cp OR push_bit 12 (ucast (a AND 0x3F))) OR push_bit 6 (ucast (b AND 0x3F))) OR ucast (d AND 0x3F), p)"
  unfolding numeral_3_eq_3 numeral_2_eq_2 by simp_all

lemma dec_utf8_encode:
  assumes "unat c < 0x200000"
  shows "dec_utf8 (encode_utf8 c @ p) = Done (c, p)"
  using assms
proof (cases rule: encode_cases)
  case one
  have z: "(ucast c :: byte) AND 0x80 = 0"
    by (rule byte_eqI) (use one in \<open>simp add: bit_simps high_bits [of c 7]\<close>)
  have "(ucast c :: byte) AND 0xC0 \<noteq> 0x80"
  proof
    assume "(ucast c :: byte) AND 0xC0 = 0x80"
    then have "bit ((ucast c :: byte) AND 0xC0) 7" by simp
    then show False using one by (simp add: bit_simps high_bits [of c 7])
  qed
  moreover have "ucast ((ucast c :: byte) AND 0x7F) = c"
    by (rule codepoint_eqI) (use one in \<open>simp add: bit_simps high_bits [of c 7]\<close>)
  ultimately show ?thesis using one z
    by (simp add: dec_utf8_def utf8_byte_len_eq)
next
  case two
  have "push_bit 6 (drop_bit 6 c) OR take_bit 6 c = c" by (rule join_bits)
  then show ?thesis using two lead_tests(1) [OF two(3)] lead2 [OF two(3)]
    by (simp add: dec_utf8_def utf8_byte_len_eq)
next
  case three
  have "(push_bit 12 (drop_bit 12 c) OR push_bit 6 (take_bit 6 (drop_bit 6 c))) OR take_bit 6 c = c"
    by (rule codepoint_eqI) (simp add: bit_simps)
  then show ?thesis using three lead_tests(2) [OF three(3)] lead3 [OF three(3)]
    by (simp add: dec_utf8_def utf8_byte_len_eq dec_tail_simps del: dec_tail.simps)
next
  case four
  have "((push_bit 18 (drop_bit 18 c) OR push_bit 12 (take_bit 6 (drop_bit 12 c))) OR
      push_bit 6 (take_bit 6 (drop_bit 6 c))) OR take_bit 6 c = c"
    by (rule codepoint_eqI) (simp add: bit_simps)
  then show ?thesis using four lead_tests(3) [OF four(2)] lead4 [OF four(2)]
    by (simp add: dec_utf8_def utf8_byte_len_eq dec_tail_simps del: dec_tail.simps)
qed

section \<open>Counting\<close>

definition lead_count :: "byte list \<Rightarrow> nat" where
  "lead_count bs = length (filter (\<lambda>b. b AND 0xC0 \<noteq> 0x80) bs)"

lemma encode_lead_count:
  assumes "0 < unat c" "unat c < 0x200000"
  shows "lead_count (encode_utf8 c) = 1 \<and> 0 \<notin> set (encode_utf8 c)"
  using assms(2)
proof (cases rule: encode_cases)
  case one
  have "(ucast c :: byte) AND 0xC0 \<noteq> 0x80"
  proof
    assume "(ucast c :: byte) AND 0xC0 = 0x80"
    then have "bit ((ucast c :: byte) AND 0xC0) 7" by simp
    then show False using one by (simp add: bit_simps high_bits [of c 7])
  qed
  moreover have "(ucast c :: byte) \<noteq> 0" using one(3) assms(1) by auto
  ultimately show ?thesis using one by (simp add: lead_count_def)
next
  case two
  then show ?thesis using lead_tests(1) [OF two(3)] by (auto simp: lead_count_def)
next
  case three
  then show ?thesis using lead_tests(2) [OF three(3)] by (auto simp: lead_count_def)
next
  case four
  then show ?thesis using lead_tests(3) [OF four(2)] by (auto simp: lead_count_def)
qed

lemma lead_count_append: "lead_count (a @ b) = lead_count a + lead_count b"
  by (simp add: lead_count_def)

lemma decode_tail_consumes:
  "decode_tail n c p = Inr (d, q) \<Longrightarrow> n \<le> length p \<and> q = drop n p"
proof (induction n c p rule: decode_tail.induct)
  case (2 n c p)
  then have "drop_bit 6 (byte_at p) = 2" by (simp split: if_splits)
  then have "p \<noteq> []" by auto
  with 2 show ?case by (cases p) (auto split: if_splits)
qed simp

lemma decode_utf8_progress:
  assumes "decode_utf8 p = Inr (c, q)" and "p \<noteq> []"
  shows "\<exists>k. 1 \<le> k \<and> k \<le> 4 \<and> k \<le> length p \<and> q = drop k p"
proof -
  obtain b p' where p: "p = b # p'" using assms(2) by (cases p) auto
  have "q = p' \<or> (\<exists>n d. n \<le> 3 \<and> decode_tail n d p' = Inr (c, q))"
    using assms(1)
    by (auto simp: decode_utf8_def Let_def p simp del: decode_tail.simps split: if_splits
        intro!: exI [where P = "\<lambda>n. \<exists>d. n \<le> 3 \<and> decode_tail n d p' = Inr (c, q)", THEN disjI2])
  then show ?thesis
  proof
    assume "q = p'"
    then show ?thesis using p by (intro exI [of _ 1]) simp
  next
    assume "\<exists>n d. n \<le> 3 \<and> decode_tail n d p' = Inr (c, q)"
    then obtain n d where n: "n \<le> 3" "decode_tail n d p' = Inr (c, q)" by blast
    then show ?thesis
      using decode_tail_consumes [OF n(2)] p by (intro exI [of _ "Suc n"]) simp
  qed
qed

section \<open>Properties\<close>

text \<open>
  C32. Round trip: decoding the encoding of any code point below \<open>2 ^ 21\<close>, whatever bytes follow, gives the code
  point back and stops exactly behind it.
\<close>

theorem decode_encode_utf8:
  assumes "c < 0x200000"
  shows "decode_utf8 (encode_utf8 c @ p) = Inr (c, p)"
  using decode_encode_aux assms by (simp add: word_less_nat_alt)

theorem decode_encode_utf8_witness:
  "decode_utf8 (encode_utf8 0x20AC @ [65]) = Inr (0x20AC, [65])"
  by (rule decode_encode_utf8) simp

text \<open>
  C33. The two codecs agree: for every code point of Unicode but 0 the table-driven encoder writes the bytes of the
  lexer's encoder, and the table-driven decoder reads them back.
\<close>

theorem codecs_agree:
  assumes "0 < c" and "c \<le> 0x10FFFF"
  shows "enc_utf8 c = Done (Some (encode_utf8 c)) \<and> dec_utf8 (encode_utf8 c @ p) = Done (c, p)"
  using enc_utf8_encode dec_utf8_encode assms by (simp add: word_less_nat_alt word_le_nat_alt)

theorem codecs_agree_witness:
  "enc_utf8 0x1F600 = Done (Some (encode_utf8 0x1F600)) \<and> dec_utf8 (encode_utf8 0x1F600 @ [0]) = Done (0x1F600, [0])"
  by (rule codecs_agree) simp_all

text \<open>
  C34. Decoding stays inside the string and makes progress: a successful decode of a non-empty string consumes
  between one and four of its bytes, and never steps over its end.
\<close>

theorem decode_utf8_consumes:
  assumes "decode_utf8 p = Inr (c, q)" and "p \<noteq> []"
  shows "\<exists>k. 1 \<le> k \<and> k \<le> 4 \<and> k \<le> length p \<and> q = drop k p"
  using assms by (rule decode_utf8_progress)

theorem decode_utf8_consumes_witness:
  "\<exists>k. 1 \<le> k \<and> k \<le> (4::nat) \<and> k \<le> length [0xC3, 0xA9 :: byte] \<and> [] = drop k [0xC3, 0xA9 :: byte]"
  by (rule decode_utf8_consumes [of _ "0xE9"]) code_simp+

text \<open>
  \<open>utf8_len\<close> counts characters: the encoding of a string of non-zero code points has as many of them.
\<close>

theorem utf8_len_encode:
  assumes "\<forall>c \<in> set cs. 0 < c \<and> c < 0x200000"
  shows "utf8_len (concat (map encode_utf8 cs)) = length cs"
proof -
  have "lead_count (concat (map encode_utf8 cs)) = length cs \<and> 0 \<notin> set (concat (map encode_utf8 cs))"
    using assms
  proof (induction cs)
    case (Cons c cs)
    then show ?case
      using encode_lead_count [of c] by (simp add: lead_count_append word_less_nat_alt)
  qed (simp add: lead_count_def)
  note e = this
  then have tw: "takeWhile (\<lambda>b. b \<noteq> 0) (concat (map encode_utf8 cs)) = concat (map encode_utf8 cs)"
    by (auto simp: takeWhile_eq_all_conv simp del: set_concat)
  show ?thesis
    unfolding utf8_len_def tw using e by (simp add: lead_count_def)
qed

theorem utf8_len_encode_witness:
  "utf8_len (concat (map encode_utf8 [0x41, 0xE9, 0x20AC])) = length [0x41, 0xE9, 0x20AC :: codepoint]"
  by (rule utf8_len_encode) simp

text \<open>
  The table-driven decoder runs off its table: the length search of a byte has no defined result exactly for the
  lead bytes from \<open>0xF8\<close>, because the table ends with an all-zero row and not with a null pointer.
\<close>

theorem utf8_byte_len_off_table:
  "utf8_byte_len b = UB \<longleftrightarrow> 0xF8 \<le> b"
proof -
  have "list_all (\<lambda>n. utf8_byte_len (word_of_nat n) = UB \<longleftrightarrow> 0xF8 \<le> (word_of_nat n :: byte)) [0..<256]"
    by code_simp
  moreover obtain n where "n < 256" "b = word_of_nat n"
    using that [of "unat b"] unsigned_less [of b, where 'a = nat] by simp
  ultimately show ?thesis by (simp add: list_all_iff)
qed

text \<open>
  Decoding is not strict: the lexer's decoder accepts overlong encodings, so two byte strings decode to the
  same code point.
\<close>

theorem decode_utf8_overlong:
  "decode_utf8 [0xC1, 0x81] = decode_utf8 [0x41] \<and> decode_utf8 [0xE0, 0x81, 0x81] = decode_utf8 [0x41]"
  by code_simp

end
