(* ===== verification/RangeSearch.thy ===== *)
theory RangeSearch
  imports Utf8
begin

text \<open>
  The searches in the Unicode tables of \<open>src/unicode.c\<close>: \<open>linear_search\<close>, \<open>binary_search\<close> and
  \<open>in_range\<close> (through the C library's \<open>bsearch\<close>), with the small tables of \<open>src/unicode.h\<close>. An entry
  is anything with a range; an index outside the table is undefined (\<open>UB\<close>). The large generated
  tables are arguments of the functions that use them.
\<close>

type_synonym range = "codepoint \<times> codepoint"

section \<open>The searches\<close>

text \<open>\<open>(cp - from) <= (to - from)\<close> on unsigned numbers that wrap.\<close>

definition hit :: "codepoint \<Rightarrow> range \<Rightarrow> bool" where
  "hit cp r \<longleftrightarrow> cp - fst r \<le> snd r - fst r"

fun linear_search :: "codepoint \<Rightarrow> range list \<Rightarrow> bool" where
  "linear_search cp [] = False"
| "linear_search cp (r # rs) =
     (if hit cp r then True else if cp \<le> snd r then False else linear_search cp rs)"

function binary_search :: "('a \<Rightarrow> range) \<Rightarrow> codepoint \<Rightarrow> 'a list \<Rightarrow> nat \<Rightarrow> nat \<Rightarrow> 'a option res" where
  "binary_search rng cp xs p n =
     (if n = 0 then Done None
      else let m = p + n div 2
           in if m \<ge> length xs then UB
              else if hit cp (rng (xs ! m)) then Done (Some (xs ! m))
              else if cp < fst (rng (xs ! m)) then binary_search rng cp xs p (n div 2)
              else binary_search rng cp xs (m + 1) (n - (n div 2 + 1)))"
  by pat_completeness auto
termination by (relation "measure (\<lambda>(_, _, _, _, n). n)") auto

declare binary_search.simps [simp del]

definition range_bool_search :: "codepoint \<Rightarrow> range list \<Rightarrow> bool res" where
  "range_bool_search cp list = rmap (\<lambda>x. x \<noteq> None) (binary_search id cp list 0 (length list))"

definition compare_range :: "codepoint \<Rightarrow> range \<Rightarrow> int" where
  "compare_range c r = (if c < fst r then -1 else if c > snd r then 1 else 0)"

text \<open>The binary search of the C library, on the half-open interval from \<open>l\<close> to \<open>u\<close>.\<close>

function bsearch :: "('a \<Rightarrow> int) \<Rightarrow> 'a list \<Rightarrow> nat \<Rightarrow> nat \<Rightarrow> 'a option" where
  "bsearch cmp xs l u =
     (if l \<ge> u then None
      else let m = (l + u) div 2
           in if cmp (xs ! m) < 0 then bsearch cmp xs l m
              else if cmp (xs ! m) > 0 then bsearch cmp xs (m + 1) u
              else Some (xs ! m))"
  by pat_completeness auto
termination by (relation "measure (\<lambda>(_, _, l, u). u - l)") auto

declare bsearch.simps [simp del]

definition in_range :: "codepoint \<Rightarrow> range list \<Rightarrow> bool" where
  "in_range c rs \<longleftrightarrow> bsearch (compare_range c) rs 0 (length rs) \<noteq> None"

section \<open>Tables\<close>

definition bidi_list :: "range list" where
  "bidi_list = [(0x202A, 0x202E), (0x2066, 0x2069)]"

definition tr39_medial_list :: "range list" where
  "tr39_medial_list = [(0x30FB, 0x30FB)]"

definition math_start :: "range list" where
  "math_start =
     [(0x2202, 0x2202), (0x2207, 0x2207), (0x221E, 0x221E), (0x1D6C1, 0x1D6C1),
      (0x1D6DB, 0x1D6DB), (0x1D6FB, 0x1D6FB), (0x1D715, 0x1D715), (0x1D735, 0x1D735),
      (0x1D74F, 0x1D74F), (0x1D76F, 0x1D76F), (0x1D789, 0x1D789), (0x1D7A9, 0x1D7A9),
      (0x1D7C3, 0x1D7C3)]"

definition math_cont :: "range list" where
  "math_cont =
     [(0xB2, 0xB3), (0xB9, 0xB9), (0x2070, 0x2070), (0x2074, 0x207E), (0x2080, 0x208E)]"

definition is_bidi :: "codepoint \<Rightarrow> bool" where
  "is_bidi cp = linear_search cp bidi_list"

definition is_tr39_MEDIAL :: "codepoint \<Rightarrow> bool res" where
  "is_tr39_MEDIAL cp = range_bool_search cp tr39_medial_list"

datatype gc =
    GC_Cc | GC_Cf | GC_Co | GC_Cs | GC_Ll | GC_Lm | GC_Lo | GC_Lt | GC_Lu | GC_Mc | GC_Me | GC_Mn
  | GC_Nd | GC_Nl | GC_No | GC_Pc | GC_Pd | GC_Pe | GC_Pf | GC_Pi | GC_Po | GC_Ps | GC_Sc | GC_Sk
  | GC_Sm | GC_So | GC_Zl | GC_Zp | GC_Zs | GC_L | GC_V | GC_INVALID

text \<open>An entry: its range, script, general category and the script extensions, if any.\<close>

record sc_tr39 =
  tr_range :: range
  tr_sc :: nat
  tr_gc :: gc
  tr_scx :: "nat list option"

definition SC_Common :: nat where "SC_Common = 0"
definition SC_Inherited :: nat where "SC_Inherited = 1"
definition SC_Latin :: nat where "SC_Latin = 2"
definition SC_Arabic :: nat where "SC_Arabic = 3"
definition SC_Bopomofo :: nat where "SC_Bopomofo = 6"
definition SC_Cyrillic :: nat where "SC_Cyrillic = 7"
definition SC_Greek :: nat where "SC_Greek = 11"
definition SC_Hangul :: nat where "SC_Hangul = 14"
definition SC_Han :: nat where "SC_Han = 15"
definition SC_Hebrew :: nat where "SC_Hebrew = 16"
definition SC_Hiragana :: nat where "SC_Hiragana = 17"
definition SC_Katakana :: nat where "SC_Katakana = 18"
definition SC_Unknown :: nat where "SC_Unknown = 174"
definition FIRST_LIMITED_USE_SCRIPT :: nat where "FIRST_LIMITED_USE_SCRIPT = 140"

lemmas sc_numbers [simp] =
  SC_Common_def SC_Inherited_def SC_Latin_def SC_Arabic_def SC_Bopomofo_def SC_Cyrillic_def SC_Greek_def
  SC_Hangul_def SC_Han_def SC_Hebrew_def SC_Hiragana_def SC_Katakana_def SC_Unknown_def
  FIRST_LIMITED_USE_SCRIPT_def

definition tr39_entry :: "codepoint \<Rightarrow> codepoint \<Rightarrow> nat \<Rightarrow> gc \<Rightarrow> nat list option \<Rightarrow> sc_tr39" where
  "tr39_entry a b s g x = \<lparr>tr_range = (a, b), tr_sc = s, tr_gc = g, tr_scx = x\<rparr>"

definition tr39_cont_list :: "sc_tr39 list" where
  "tr39_cont_list =
     [tr39_entry 0x30 0x39 SC_Common GC_Nd None,
      tr39_entry 0x5F 0x5F SC_Common GC_Pc None,
      tr39_entry 0x660 0x669 SC_Arabic GC_Nd (Some [0x03, 0x1c, 0x8a]),
      tr39_entry 0x6F0 0x6F9 SC_Arabic GC_Nd None,
      tr39_entry 0x966 0x96F 8 GC_Nd (Some [0x08, 0x32, 0x42, 0x4d]),
      tr39_entry 0x9E6 0x9EF 5 GC_Nd (Some [0x05, 0x91, 0xa5]),
      tr39_entry 0xAE6 0xAEF 12 GC_Nd (Some [0x0c, 0x46]),
      tr39_entry 0xCE6 0xCEF 19 GC_Nd (Some [0x13, 0x5c, 0x86]),
      tr39_entry 0xE50 0xE59 29 GC_Nd None,
      tr39_entry 0xED0 0xED9 21 GC_Nd None,
      tr39_entry 0xF20 0xF29 30 GC_Nd None,
      tr39_entry 0x1040 0x1049 23 GC_Nd (Some [0x91, 0x17, 0xa7]),
      tr39_entry 0x17E0 0x17E9 20 GC_Nd None,
      tr39_entry 0x203F 0x2040 SC_Common GC_Pc None,
      tr39_entry 0x30FB 0x30FB SC_Common GC_Po (Some [0x06, 0x0e, 0x0f, 0x11, 0x12, 0xad])]"

text \<open>The table of start characters is an argument.\<close>

definition isTR39_start :: "sc_tr39 list \<Rightarrow> codepoint \<Rightarrow> sc_tr39 option res" where
  "isTR39_start start_list cp = binary_search tr_range cp start_list 0 (length start_list)"

definition isTR39_cont :: "codepoint \<Rightarrow> sc_tr39 option res" where
  "isTR39_cont cp = binary_search tr_range cp tr39_cont_list 0 (length tr39_cont_list)"

definition u8ident_get_tr39 :: "sc_tr39 list \<Rightarrow> codepoint \<Rightarrow> sc_tr39 option res" where
  "u8ident_get_tr39 start_list cp =
     rbind (isTR39_start start_list cp) (\<lambda>x. case x of Some e \<Rightarrow> Done (Some e) | None \<Rightarrow> isTR39_cont cp)"

definition u8ident_get_script :: "sc_tr39 list \<Rightarrow> codepoint \<Rightarrow> nat res" where
  "u8ident_get_script start_list cp =
     rmap (\<lambda>x. case x of Some e \<Rightarrow> tr_sc e | None \<Rightarrow> SC_Unknown) (u8ident_get_tr39 start_list cp)"

definition is32_ident1 :: "sc_tr39 list \<Rightarrow> codepoint \<Rightarrow> bool res" where
  "is32_ident1 start_list c = rmap (\<lambda>x. x \<noteq> None \<or> in_range c math_start) (isTR39_start start_list c)"

definition is32_ident2 :: "sc_tr39 list \<Rightarrow> codepoint \<Rightarrow> bool res" where
  "is32_ident2 start_list c =
     rbind (is32_ident1 start_list c) (\<lambda>b.
       if b then Done True
       else rmap (\<lambda>x. x \<noteq> None \<or> in_range c math_cont) (isTR39_cont c))"

section \<open>Searching a sorted table\<close>

text \<open>What the searches rely on: every range is non-empty, and each ends before the next starts.\<close>

definition sorted_ranges :: "range list \<Rightarrow> bool" where
  "sorted_ranges rs \<longleftrightarrow>
     list_all (\<lambda>r. fst r \<le> snd r) rs \<and> sorted_wrt (\<lambda>r s. snd r < fst s) rs"

definition within :: "codepoint \<Rightarrow> range \<Rightarrow> bool" where
  "within cp r \<longleftrightarrow> fst r \<le> cp \<and> cp \<le> snd r"

lemma hit_within:
  assumes "fst r \<le> snd r"
  shows "hit cp r \<longleftrightarrow> within cp r"
proof -
  have "unat (snd r) < 2 ^ 32" using unsigned_less [of "snd r", where 'a = nat] by simp
  then show ?thesis
    using assms unfolding hit_def within_def
    by (auto simp: word_le_nat_alt unat_sub_if_size word_size)
qed

lemma sorted_ranges_Cons:
  "sorted_ranges (r # rs) \<longleftrightarrow>
     fst r \<le> snd r \<and> (\<forall>s \<in> set rs. snd r < fst s) \<and> sorted_ranges rs"
  by (auto simp: sorted_ranges_def)

lemma linear_search_find:
  assumes "sorted_ranges rs"
  shows "linear_search cp rs \<longleftrightarrow> (\<exists>r \<in> set rs. within cp r)"
  using assms
proof (induction rs)
  case (Cons r rs)
  have "\<not> within cp s" if "cp \<le> snd r" "s \<in> set rs" for s
    using that Cons.prems by (fastforce simp: sorted_ranges_Cons within_def)
  then show ?case
    using Cons hit_within [of r cp] by (auto simp: sorted_ranges_Cons)
qed simp

text \<open>The interval the binary search still has to look at, and what is outside of it.\<close>

lemma sorted_nth:
  assumes "sorted_ranges rs" "i < j" "j < length rs"
  shows "snd (rs ! i) < fst (rs ! j)"
  using assms by (simp add: sorted_ranges_def sorted_wrt_iff_nth_less)

lemma nonempty_nth: "sorted_ranges rs \<Longrightarrow> i < length rs \<Longrightarrow> fst (rs ! i) \<le> snd (rs ! i)"
  by (simp add: sorted_ranges_def list_all_length)

lemma not_within_right: "cp < fst r \<Longrightarrow> fst r \<le> snd r \<Longrightarrow> snd r < fst s \<Longrightarrow> \<not> within cp s"
  unfolding within_def by (meson leD le_less_trans less_trans)

lemma not_within_left: "snd r < cp \<Longrightarrow> fst r \<le> snd r \<Longrightarrow> snd s < fst r \<Longrightarrow> \<not> within cp s"
  unfolding within_def by (meson leD less_le_trans less_trans)

lemma not_within_cases:
  assumes "\<not> within cp r" "\<not> cp < fst r"
  shows "snd r < cp"
  using assms unfolding within_def by (meson not_le not_less)

lemma binary_search_spec:
  assumes "sorted_ranges (map rng xs)" "p + n \<le> length xs"
    and "\<forall>i < length xs. within cp (rng (xs ! i)) \<longrightarrow> p \<le> i \<and> i < p + n"
  shows "(\<exists>i < length xs. binary_search rng cp xs p n = Done (Some (xs ! i)) \<and> within cp (rng (xs ! i))) \<or>
         (binary_search rng cp xs p n = Done None \<and> (\<forall>i < length xs. \<not> within cp (rng (xs ! i))))"
  using assms
proof (induction rng cp xs p n rule: binary_search.induct)
  case (1 rng cp xs p n)
  show ?case
  proof (cases "n = 0")
    case True
    then show ?thesis using 1 by (auto simp: binary_search.simps [of rng cp xs p 0])
  next
    case False
    define m where "m = p + n div 2"
    have m: "m < length xs" using 1 False by (simp add: m_def)
    have ne: "fst (rng (xs ! m)) \<le> snd (rng (xs ! m))"
      using nonempty_nth [OF 1(3), of m] m by simp
    have low: "snd (rng (xs ! i)) < fst (rng (xs ! m))" if "i < m" for i
      using sorted_nth [OF 1(3) that] m that by simp
    have high: "snd (rng (xs ! m)) < fst (rng (xs ! i))" if "m < i" "i < length xs" for i
      using sorted_nth [OF 1(3) that(1)] that by simp
    note step = binary_search.simps [of rng cp xs p n, folded m_def]
    show ?thesis
    proof (cases "hit cp (rng (xs ! m))")
      case True
      then show ?thesis using step m False hit_within [OF ne] by (auto simp: m_def Let_def)
    next
      case nh: False
      then have nw: "\<not> within cp (rng (xs ! m))" using hit_within [OF ne] by simp
      show ?thesis
      proof (cases "cp < fst (rng (xs ! m))")
        case True
        have right: "\<not> within cp (rng (xs ! i))" if "m \<le> i" "i < length xs" for i
          using not_within_right [OF True ne high [of i]] that nw by (cases "i = m") simp_all
        have "p \<le> i \<and> i < p + n div 2" if "i < length xs" "within cp (rng (xs ! i))" for i
          using right [of i] 1(5) that unfolding m_def by (meson not_le)
        then have "\<forall>i < length xs. within cp (rng (xs ! i)) \<longrightarrow> p \<le> i \<and> i < p + n div 2"
          by blast
        then show ?thesis
          using 1(1) [OF False m_def] 1(3,4) m nh True step False by (simp add: Let_def m_def)
      next
        case ge: False
        have lt: "snd (rng (xs ! m)) < cp" using nw ge by (rule not_within_cases)
        have left: "\<not> within cp (rng (xs ! i))" if "i \<le> m" for i
          using not_within_left [OF lt ne low [of i]] that nw by (cases "i = m") simp_all
        have "m + 1 \<le> i \<and> i < m + 1 + (n - (n div 2 + 1))" if "i < length xs" "within cp (rng (xs ! i))" for i
        proof -
          have "m < i" using left [of i] that by (meson not_le)
          moreover have "i < p + n" using 1(5) that by blast
          ultimately show ?thesis using False by (simp add: m_def)
        qed
        then have "\<forall>i < length xs. within cp (rng (xs ! i)) \<longrightarrow> m + 1 \<le> i \<and> i < m + 1 + (n - (n div 2 + 1))"
          by blast
        moreover have "m + 1 + (n - (n div 2 + 1)) \<le> length xs" using 1(4) False by (simp add: m_def)
        ultimately show ?thesis
          using 1(2) [OF False m_def] 1(3) m nh ge step False by (simp add: Let_def m_def)
      qed
    qed
  qed
qed

lemma find_unique:
  assumes "i < length xs" "P (xs ! i)" "\<And>j. j < i \<Longrightarrow> \<not> P (xs ! j)"
  shows "find P xs = Some (xs ! i)"
proof -
  have "find P xs = Some (xs ! i) \<longleftrightarrow> (\<exists>k < length xs. P (xs ! k) \<and> xs ! i = xs ! k \<and> (\<forall>j < k. \<not> P (xs ! j)))"
    by (simp add: find_Some_iff)
  then show ?thesis using assms by auto
qed

lemma binary_search_find:
  assumes "sorted_ranges (map rng xs)"
  shows "binary_search rng cp xs 0 (length xs) = Done (find (\<lambda>e. within cp (rng e)) xs)"
proof -
  have "(\<exists>i < length xs. binary_search rng cp xs 0 (length xs) = Done (Some (xs ! i)) \<and> within cp (rng (xs ! i))) \<or>
        (binary_search rng cp xs 0 (length xs) = Done None \<and> (\<forall>i < length xs. \<not> within cp (rng (xs ! i))))"
    using binary_search_spec [of rng xs 0 "length xs" cp] assms by simp
  then show ?thesis
  proof
    assume "\<exists>i < length xs. binary_search rng cp xs 0 (length xs) = Done (Some (xs ! i)) \<and> within cp (rng (xs ! i))"
    then obtain i where i: "i < length xs" "binary_search rng cp xs 0 (length xs) = Done (Some (xs ! i))"
      "within cp (rng (xs ! i))" by blast
    have "\<not> within cp (rng (xs ! j))" if "j < i" for j
    proof -
      have "snd (rng (xs ! j)) < fst (rng (xs ! i))" using sorted_nth [OF assms that] i that by simp
      then show ?thesis using i(3) unfolding within_def by (meson leD less_le_trans)
    qed
    then have "find (\<lambda>e. within cp (rng e)) xs = Some (xs ! i)"
      using i by (intro find_unique) auto
    then show ?thesis using i by simp
  next
    assume r: "binary_search rng cp xs 0 (length xs) = Done None \<and> (\<forall>i < length xs. \<not> within cp (rng (xs ! i)))"
    then have "find (\<lambda>e. within cp (rng e)) xs = None"
      by (auto simp: find_None_iff in_set_conv_nth)
    with r show ?thesis by simp
  qed
qed

lemma bsearch_spec:
  assumes "sorted_ranges rs" "u \<le> length rs" "\<forall>i < length rs. within c (rs ! i) \<longrightarrow> l \<le> i \<and> i < u"
  shows "bsearch (compare_range c) rs l u \<noteq> None \<longleftrightarrow> (\<exists>i < length rs. within c (rs ! i))"
  using assms
proof (induction "compare_range c" rs l u rule: bsearch.induct)
  case (1 rs l u)
  note step = bsearch.simps [of "compare_range c" rs l u]
  show ?case
  proof (cases "l \<ge> u")
    case True
    then show ?thesis using 1(5) step by fastforce
  next
    case False
    define m where "m = (l + u) div 2"
    have m: "m < length rs" "l \<le> m" "m < u" using 1(4) False by (simp_all add: m_def)
    have ne: "fst (rs ! m) \<le> snd (rs ! m)" using nonempty_nth [OF 1(3) m(1)] .
    consider (less) "c < fst (rs ! m)" | (greater) "\<not> c < fst (rs ! m)" "snd (rs ! m) < c"
      | (eq) "within c (rs ! m)" by (meson not_within_cases)
    then show ?thesis
    proof cases
      case less
      have right: "\<not> within c (rs ! i)" if "m \<le> i" "i < length rs" for i
        using not_within_right [OF less ne sorted_nth [OF 1(3), of m i]] that less
        by (cases "i = m") (auto simp: within_def)
      have "\<forall>i < length rs. within c (rs ! i) \<longrightarrow> l \<le> i \<and> i < m"
        using right 1(5) by (meson not_le)
      moreover have "compare_range c (rs ! m) < 0" using less by (simp add: compare_range_def)
      ultimately show ?thesis
        using 1(1) [OF False m_def] 1(3) m step False by (simp add: m_def Let_def)
    next
      case greater
      have left: "\<not> within c (rs ! i)" if "i \<le> m" for i
        using not_within_left [OF greater(2) ne sorted_nth [OF 1(3), of i m]] that greater m
        by (cases "i = m") (simp_all add: within_def not_le)
      have "m + 1 \<le> i \<and> i < u" if "i < length rs" "within c (rs ! i)" for i
      proof -
        have "m < i" using left [of i] that by (meson not_le)
        then show ?thesis using 1(5) that by simp
      qed
      then have "\<forall>i < length rs. within c (rs ! i) \<longrightarrow> m + 1 \<le> i \<and> i < u" by blast
      moreover have "\<not> compare_range c (rs ! m) < 0" "0 < compare_range c (rs ! m)"
        using greater by (simp_all add: compare_range_def)
      ultimately show ?thesis
        using 1(2) [OF False m_def] 1(3,4) step False by (simp add: m_def Let_def)
    next
      case eq
      then have "compare_range c (rs ! m) = 0" by (auto simp: compare_range_def within_def)
      then show ?thesis using step False eq m by (auto simp: m_def Let_def)
    qed
  qed
qed

lemma in_range_iff: "sorted_ranges rs \<Longrightarrow> in_range c rs \<longleftrightarrow> (\<exists>r \<in> set rs. within c r)"
  using bsearch_spec [of rs "length rs" c 0] unfolding in_range_def Bex_def in_set_conv_nth by blast

lemma range_bool_search_iff:
  "sorted_ranges rs \<Longrightarrow> range_bool_search cp rs = Done (\<exists>r \<in> set rs. within cp r)"
  using binary_search_find [of id rs cp] find_None_iff [of "within cp" rs]
  by (auto simp: range_bool_search_def simp del: split_paired_Ex not_None_eq)

section \<open>The contract of a set of code points\<close>

text \<open>
  What the callers of the searches rely on: the membership test always answers, and says whether
  one of the ranges holds the code point.
\<close>

locale codepoint_set =
  fixes ranges :: "range list" and member :: "codepoint \<Rightarrow> bool res"
  assumes member_iff: "member cp = Done (\<exists>r \<in> set ranges. within cp r)"
begin

lemma member_total: "member cp \<noteq> UB" "member cp \<noteq> Fuel"
  by (simp_all add: member_iff)

lemma below_all: "list_all (\<lambda>r. cp < fst r) ranges \<Longrightarrow> member cp = Done False"
  by (auto simp: member_iff list_all_iff within_def)

lemma at_start: "r \<in> set ranges \<Longrightarrow> fst r \<le> snd r \<Longrightarrow> member (fst r) = Done True"
  by (auto simp: member_iff within_def)

end

lemma tables_sorted:
  "sorted_ranges bidi_list" "sorted_ranges tr39_medial_list" "sorted_ranges math_start" "sorted_ranges math_cont"
  "sorted_ranges (map tr_range tr39_cont_list)"
  by code_simp+

interpretation bidi: codepoint_set bidi_list "\<lambda>cp. Done (is_bidi cp)"
  by unfold_locales (simp add: is_bidi_def linear_search_find tables_sorted)

interpretation medial: codepoint_set tr39_medial_list is_tr39_MEDIAL
  by unfold_locales (simp add: is_tr39_MEDIAL_def range_bool_search_iff tables_sorted)

interpretation math_start: codepoint_set math_start "\<lambda>cp. Done (in_range cp math_start)"
  by unfold_locales (simp add: in_range_iff tables_sorted)

interpretation math_cont: codepoint_set math_cont "\<lambda>cp. Done (in_range cp math_cont)"
  by unfold_locales (simp add: in_range_iff tables_sorted)

lemma isTR39_cont_find: "isTR39_cont cp = Done (find (\<lambda>e. within cp (tr_range e)) tr39_cont_list)"
  by (simp add: isTR39_cont_def binary_search_find tables_sorted)

section \<open>Properties\<close>

text \<open>
  C36. Binary search is linear search: in a table of non-empty, increasing, disjoint ranges the binary search never
  leaves the table and returns what a scan from the front would find.
\<close>

theorem binary_search_correct:
  assumes "sorted_ranges (map rng xs)"
  shows "binary_search rng cp xs 0 (length xs) = Done (find (\<lambda>e. fst (rng e) \<le> cp \<and> cp \<le> snd (rng e)) xs)"
  using binary_search_find [OF assms] by (simp add: within_def)

theorem binary_search_correct_witness:
  "binary_search tr_range 0x6F5 tr39_cont_list 0 (length tr39_cont_list) =
     Done (find (\<lambda>e. fst (tr_range e) \<le> 0x6F5 \<and> 0x6F5 \<le> snd (tr_range e)) tr39_cont_list)"
  by (rule binary_search_correct) (rule tables_sorted)

text \<open>
  The tables compiled into the program are sorted, so their membership tests are exact: bidi controls, the
  mathematical start and continuation characters and the medial characters are found exactly when one of
  the listed ranges holds them.
\<close>

theorem small_tables_exact:
  "is_bidi cp = (\<exists>r \<in> set bidi_list. fst r \<le> cp \<and> cp \<le> snd r) \<and>
   in_range cp math_start = (\<exists>r \<in> set math_start. fst r \<le> cp \<and> cp \<le> snd r) \<and>
   in_range cp math_cont = (\<exists>r \<in> set math_cont. fst r \<le> cp \<and> cp \<le> snd r) \<and>
   is_tr39_MEDIAL cp = Done (cp = 0x30FB)"
  using bidi.member_iff [of cp] math_start.member_iff [of cp] math_cont.member_iff [of cp] medial.member_iff [of cp]
  by (auto simp: within_def tr39_medial_list_def)

end
