(* ===== verification/Scripts.thy ===== *)
theory Scripts
  imports RangeSearch
begin

text \<open>
  The identifier security check of \<open>src/unicode.c\<close> (TR39): the script context and
  \<open>u8ident_check_buf\<close>. The generated tables and the normaliser are fields of \<open>tables\<close>. A check
  either rejects with an error and the context as it was left, or goes on; \<open>UB\<close> marks reads outside a
  buffer or a table. The loop over the characters has fuel, one unit per character.
\<close>

section \<open>The script context\<close>

text \<open>
  \<open>struct ctx_t\<close>. The union of eight script bytes and a pointer to more is the list \<open>scripts\<close>,
  of which the first \<open>count\<close> entries are in use; \<open>count\<close> is an eight-bit counter.
\<close>

record ctx =
  count :: nat
  has_han :: bool
  is_japanese :: bool
  is_chinese :: bool
  is_korean :: bool
  is_rtl :: bool
  last_cp :: codepoint
  scripts :: "nat list"

definition zero_ctx :: ctx where
  "zero_ctx = \<lparr>count = 0, has_han = False, is_japanese = False, is_chinese = False, is_korean = False,
     is_rtl = False, last_cp = 0, scripts = []\<rparr>"

definition has_script_ctx :: "nat \<Rightarrow> ctx \<Rightarrow> bool" where
  "has_script_ctx scr c \<longleftrightarrow> scr \<in> set (take (count c) (scripts c))"

definition add_script_ctx :: "nat \<Rightarrow> ctx \<Rightarrow> int \<times> ctx" where
  "add_script_ctx scr c =
     (if scr < 2 \<or> scr \<ge> FIRST_LIMITED_USE_SCRIPT then (-1, c)
      else
        let c1 = c\<lparr>scripts := take (count c) (scripts c) @ [scr]\<rparr>;
            c2 = (if scr = SC_Han then c1\<lparr>has_han := True\<rparr>
                  else if scr = SC_Bopomofo then c1\<lparr>is_chinese := True\<rparr>
                  else if scr = SC_Katakana \<or> scr = SC_Hiragana then c1\<lparr>is_japanese := True\<rparr>
                  else if scr = SC_Hangul then c1\<lparr>is_korean := True\<rparr>
                  else if scr = SC_Hebrew \<or> scr = SC_Arabic then c1\<lparr>is_rtl := True\<rparr>
                  else c1)
        in (0, c2\<lparr>count := (count c + 1) mod 256\<rparr>))"

section \<open>The five preallocated contexts\<close>

text \<open>Past the fifth context the code indexes behind its allocations.\<close>

record u8state =
  i_ctx :: nat
  ctxs :: "ctx list"

definition U8ID_CTX_TRESH :: nat where "U8ID_CTX_TRESH = 5"

definition initial_state :: u8state where
  "initial_state = \<lparr>i_ctx = 0, ctxs = replicate U8ID_CTX_TRESH zero_ctx\<rparr>"

definition u8ident_ctx :: "u8state \<Rightarrow> ctx res" where
  "u8ident_ctx s = (if i_ctx s < U8ID_CTX_TRESH then Done (ctxs s ! i_ctx s) else UB)"

definition set_ctx :: "ctx \<Rightarrow> u8state \<Rightarrow> u8state" where
  "set_ctx c s = s\<lparr>ctxs := (ctxs s)[i_ctx s := c]\<rparr>"

definition u8ident_new_ctx :: "u8state \<Rightarrow> u8state res" where
  "u8ident_new_ctx s =
     (let i = i_ctx s + 1
      in if i \<ge> U8ID_CTX_TRESH then UB
         else Done (s\<lparr>i_ctx := i, ctxs := (ctxs s)[i := zero_ctx]\<rparr>))"

text \<open>Only the first four bytes are cleared: the count and the flags, not \<open>last_cp\<close> and the scripts.\<close>

definition clear_head :: "ctx \<Rightarrow> ctx" where
  "clear_head c = zero_ctx\<lparr>last_cp := last_cp c, scripts := scripts c\<rparr>"

definition u8ident_free_ctx :: "nat \<Rightarrow> u8state \<Rightarrow> int \<times> u8state" where
  "u8ident_free_ctx i s =
     (if i \<le> i_ctx s
      then (0, s\<lparr>i_ctx := (if i > 0 then i - 1 else 0), ctxs := (ctxs s)[i := clear_head (ctxs s ! i)]\<rparr>)
      else (-1, s))"

definition script_names :: "string list" where
  "script_names =
     [''Latin'', ''Arabic'', ''Armenian'', ''Bengali'', ''Bopomofo'', ''Cyrillic'', ''Devanagari'',
      ''Ethiopic'', ''Georgian'', ''Greek'', ''Gujarati'', ''Gurmukhi'', ''Hangul'', ''Han'', ''Hebrew'',
      ''Hiragana'', ''Katakana'', ''Kannada'', ''Khmer'', ''Lao'', ''Malayalam'', ''Myanmar'', ''Oriya'',
      ''Sinhala'', ''Tamil'', ''Telugu'', ''Thaana'', ''Thai'', ''Tibetan'']"

text \<open>The identifiers of the names are 2, 3, ... in order.\<close>

definition script_id :: "string \<Rightarrow> nat option" where
  "script_id name = map_of (zip script_names [2..<31]) name"

definition u8ident_allow_script :: "string \<Rightarrow> u8state \<Rightarrow> u8state res" where
  "u8ident_allow_script name s =
     (if name = ''reset'' then u8ident_new_ctx (snd (u8ident_free_ctx 0 s))
      else case script_id name of
             None \<Rightarrow> Done s
           | Some i \<Rightarrow> rmap (\<lambda>c. set_ctx (snd (add_script_ctx i c)) s) (u8ident_ctx s))"

section \<open>Combining marks\<close>

record tables =
  start_list :: "sc_tr39 list"
  nfc_n :: "range list"
  nfc_m :: "range list"
  nsm_letters :: "(codepoint \<times> codepoint list) list"
  greek_confus :: "codepoint list"
  normalize :: "byte list \<Rightarrow> byte list option"

definition dotless :: "codepoint list" where
  "dotless = [0x69, 0x131, 0x237, 0x25F, 0x284, 0x1DA1, 0x10798, 0x1D6A4, 0x1D645]"

text \<open>\<open>wcschr\<close> also finds the terminating 0 of the letters.\<close>

fun nsm_scan :: "(codepoint \<times> codepoint list) list \<Rightarrow> codepoint \<Rightarrow> codepoint \<Rightarrow> bool" where
  "nsm_scan [] base_cp cp = True"
| "nsm_scan ((nsm, letters) # ls) base_cp cp =
     (if nsm > cp then True
      else if nsm \<noteq> cp then nsm_scan ls base_cp cp
      else if base_cp \<in> set letters \<or> base_cp = 0 then False
      else nsm_scan ls base_cp cp)"

definition nsm_check :: "tables \<Rightarrow> codepoint \<Rightarrow> codepoint \<Rightarrow> bool" where
  "nsm_check T base_cp cp =
     (if cp = 0x307 \<and> base_cp \<in> set dotless then False
      else nsm_scan (nsm_letters T) base_cp cp)"

definition maybe_normalized :: "tables \<Rightarrow> codepoint \<Rightarrow> bool res" where
  "maybe_normalized T cp =
     rbind (range_bool_search cp (nfc_n T)) (\<lambda>b. if b then Done True else range_bool_search cp (nfc_m T))"

definition is_greek_latin_confus :: "tables \<Rightarrow> codepoint \<Rightarrow> bool" where
  "is_greek_latin_confus T cp \<longleftrightarrow>
     bsearch (\<lambda>x. if cp < x then -1 else if cp = x then 0 else 1) (greek_confus T) 0 (length (greek_confus T)) \<noteq> None"

section \<open>The check of one character\<close>

datatype u8id_error = ERR_XID | ERR_SCRIPT | ERR_SCRIPTS | ERR_COMBINE | ERR_CONFUS

record lstate =
  l_ctx :: ctx
  l_rest :: "byte list"
  l_cp :: codepoint
  l_prev :: codepoint
  l_base_cp :: codepoint
  l_basesc :: nat
  l_seq_mn :: nat
  l_latin :: bool
  l_norm :: bool
  l_tr39 :: sc_tr39

type_synonym 'a checked = "(u8id_error \<times> ctx + 'a) res"

definition reject :: "u8id_error \<Rightarrow> lstate \<Rightarrow> 'a checked" where
  "reject e s = Done (Inl (e, (l_ctx s)\<lparr>last_cp := l_cp s\<rparr>))"

definition pass :: "'a \<Rightarrow> 'a checked" where
  "pass x = Done (Inr x)"

definition cbind :: "'a checked \<Rightarrow> ('a \<Rightarrow> 'b checked) \<Rightarrow> 'b checked" where
  "cbind x f = rbind x (\<lambda>r. case r of Inl e \<Rightarrow> Done (Inl e) | Inr v \<Rightarrow> f v)"

text \<open>Limited-use scripts, bidi controls, and whether the result has to be normalised.\<close>

definition check_allowed :: "tables \<Rightarrow> lstate \<Rightarrow> lstate checked" where
  "check_allowed T s =
     (if tr_sc (l_tr39 s) \<ge> FIRST_LIMITED_USE_SCRIPT then reject ERR_SCRIPT s
      else if \<not> is_rtl (l_ctx s) \<and> is_bidi (l_cp s) then reject ERR_SCRIPT s
      else if l_norm s then pass s
      else rmap (\<lambda>b. Inr (s\<lparr>l_norm := b\<rparr>)) (maybe_normalized T (l_cp s)))"

text \<open>Combining marks with script extensions; the counter of marks is advanced for \<open>GC_Mn\<close>.\<close>

definition check_mark :: "tables \<Rightarrow> gc \<Rightarrow> nat list \<Rightarrow> lstate \<Rightarrow> lstate checked" where
  "check_mark T g scx s =
     (if count (l_ctx s) = 0 \<or> l_basesc s = SC_Unknown then reject ERR_COMBINE s
      else if l_basesc s \<notin> set scx then reject ERR_COMBINE s
      else if l_cp s = l_prev s then reject ERR_COMBINE s
      else if g = GC_Mn \<and> l_seq_mn s + 1 > 4 then reject ERR_COMBINE s
      else if \<not> nsm_check T (l_base_cp s) (l_cp s) then reject ERR_COMBINE s
      else pass (if g = GC_Mn then s\<lparr>l_seq_mn := l_seq_mn s + 1\<rparr> else s))"

text \<open>Characters of script Common or Inherited; the flag returned is \<open>is_new\<close>.\<close>

definition check_scx :: "tables \<Rightarrow> lstate \<Rightarrow> (lstate \<times> bool) checked" where
  "check_scx T s =
     rbind (u8ident_get_tr39 (start_list T) (l_cp s)) (\<lambda>x.
       case x of
         None \<Rightarrow> pass (s, False)
       | Some this \<Rightarrow>
           (case tr_scx this of
              None \<Rightarrow> pass (s, False)
            | Some scx \<Rightarrow>
                let c = l_ctx s; cp = l_cp s; g = tr_gc this in
                if count c \<noteq> 0 \<and> \<not> is_japanese c \<and> ((0x30FC \<le> cp \<and> cp \<le> 0x30FE) \<or> cp = 0xFF70)
                then reject ERR_SCRIPTS s
                else if count c \<noteq> 0 \<and> \<not> l_latin s \<and> scx = [0x11, 0x12] \<and> \<not> is_japanese c
                then reject ERR_SCRIPTS s
                else if count c \<noteq> 0 \<and> \<not> l_latin s \<and> scx = [0x06, 0x0e, 0x0f, 0x11, 0x12] \<and>
                        \<not> is_japanese c \<and> \<not> has_han c \<and> \<not> is_korean c
                then reject ERR_SCRIPTS s
                else cbind (if g = GC_Mn \<or> g = GC_Mc then check_mark T g scx s else pass (s\<lparr>l_seq_mn := 0\<rparr>))
                       (\<lambda>s'. pass (s', \<not> list_ex (\<lambda>x. has_script_ctx x c) scx))))"

text \<open>Adding a script, at the label \<open>ok\<close>.\<close>

definition accept_script :: "nat \<Rightarrow> lstate \<Rightarrow> lstate" where
  "accept_script scr s =
     (let s1 = s\<lparr>l_basesc := scr\<rparr>
      in if has_script_ctx scr (l_ctx s1) then s1
         else s1\<lparr>l_ctx := snd (add_script_ctx scr (l_ctx s1))\<rparr>)"

text \<open>A script not seen before: the combinations that may be mixed.\<close>

definition check_new_script :: "tables \<Rightarrow> lstate \<Rightarrow> lstate checked" where
  "check_new_script T s =
     (let scr = tr_sc (l_tr39 s); c = l_ctx s in
      if scr \<ge> FIRST_LIMITED_USE_SCRIPT then reject ERR_SCRIPT s
      else if count c = 0 then pass (accept_script scr s)
      else if scr = SC_Bopomofo then
        (if \<not> has_han c \<and> \<not> l_latin s then reject ERR_SCRIPTS s else pass (accept_script scr s))
      else if scr = SC_Han then
        (if \<not> (is_chinese c \<or> is_japanese c \<or> is_korean c \<or> l_latin s) then reject ERR_SCRIPTS s
         else pass (accept_script scr s))
      else if scr = SC_Katakana \<or> scr = SC_Hiragana then
        (if \<not> (is_japanese c \<or> has_han c \<or> l_latin s) then reject ERR_SCRIPTS s
         else pass (accept_script scr s))
      else if scr = SC_Common \<or> scr = SC_Inherited then pass (accept_script scr s)
      else if count c \<ge> 2 \<or> scr = SC_Cyrillic then reject ERR_SCRIPTS s
      else if scr = SC_Greek \<and> l_latin s then
        (if is_greek_latin_confus T (l_cp s) then reject ERR_CONFUS s else pass (accept_script scr s))
      else pass (accept_script scr s))"

text \<open>A Common or Inherited character that brings nothing new: illegal runs of marks.\<close>

definition check_run :: "tables \<Rightarrow> lstate \<Rightarrow> lstate checked" where
  "check_run T s =
     (let g = tr_gc (l_tr39 s) in
      cbind (if g = GC_Mn \<or> g = GC_Me then
               (if l_cp s = l_prev s then reject ERR_COMBINE s
                else if l_seq_mn s + 1 > 4 then reject ERR_COMBINE s
                else if \<not> nsm_check T (l_base_cp s) (l_cp s) then reject ERR_COMBINE s
                else pass (s\<lparr>l_seq_mn := l_seq_mn s + 1\<rparr>))
             else pass s)
        (\<lambda>s'. if l_basesc s' = SC_Unknown \<and> (g = GC_Mn \<or> g = GC_Me \<or> g = GC_Mc)
              then reject ERR_COMBINE s' else pass s'))"

definition is_common :: "nat \<Rightarrow> bool" where
  "is_common scr \<longleftrightarrow> scr = SC_Common \<or> scr = SC_Inherited"

definition check_common :: "tables \<Rightarrow> lstate \<Rightarrow> (lstate \<times> bool) checked" where
  "check_common T s =
     (if is_common (tr_sc (l_tr39 s)) then check_scx T s
      else pass (s\<lparr>l_base_cp := l_cp s\<rparr>, False))"

text \<open>Latin goes with everything; any other script is new, known, or common.\<close>

definition accept_latin :: "lstate \<Rightarrow> lstate" where
  "accept_latin s =
     (if has_script_ctx SC_Latin (l_ctx s) then s
      else s\<lparr>l_latin := True, l_ctx := snd (add_script_ctx SC_Latin (l_ctx s))\<rparr>)\<lparr>l_basesc := SC_Latin\<rparr>"

definition check_script :: "tables \<Rightarrow> bool \<Rightarrow> lstate \<Rightarrow> lstate checked" where
  "check_script T is_new s =
     (let scr = tr_sc (l_tr39 s) in
      if scr = SC_Latin then pass (accept_latin s)
      else if (if \<not> is_new \<and> \<not> is_common scr then \<not> has_script_ctx scr (l_ctx s) else is_new)
      then check_new_script T s
      else if scr = SC_Greek \<and> l_latin s \<and> is_greek_latin_confus T (l_cp s) then reject ERR_CONFUS s
      else if \<not> is_common scr then pass (s\<lparr>l_basesc := scr, l_base_cp := l_cp s\<rparr>)
      else check_run T s)"

definition check_char :: "tables \<Rightarrow> lstate \<Rightarrow> lstate checked" where
  "check_char T s =
     cbind (check_allowed T s) (\<lambda>s1.
     cbind (check_common T s1) (\<lambda>(s2, is_new). check_script T is_new s2))"

section \<open>The loop\<close>

text \<open>
  Reading the next character, at the label \<open>next\<close>. \<open>after\<close> is the number of bytes of the buffer from
  its end \<open>e\<close> on: \<open>s <= e\<close> holds when at least that many bytes are left.
\<close>

definition next_char :: "tables \<Rightarrow> nat \<Rightarrow> lstate \<Rightarrow> lstate checked" where
  "next_char T after s =
     rbind (dec_utf8 (l_rest s)) (\<lambda>(cp, rest).
       let s1 = s\<lparr>l_prev := l_cp s, l_cp := cp, l_rest := rest\<rparr> in
       if after \<le> length rest \<and> cp \<noteq> 0 then
         rbind (isTR39_cont cp) (\<lambda>x.
         rbind (case x of Some e \<Rightarrow> Done (Some e) | None \<Rightarrow> isTR39_start (start_list T) cp) (\<lambda>y.
           case y of
             None \<Rightarrow> reject ERR_XID s1
           | Some e \<Rightarrow>
               if length rest = after then
                 rbind (is_tr39_MEDIAL cp) (\<lambda>m.
                   if m then reject ERR_XID (s1\<lparr>l_tr39 := e\<rparr>) else pass (s1\<lparr>l_tr39 := e\<rparr>))
               else pass (s1\<lparr>l_tr39 := e\<rparr>)))
       else pass s1)"

fun check_loop :: "tables \<Rightarrow> nat \<Rightarrow> nat \<Rightarrow> lstate \<Rightarrow> lstate checked" where
  "check_loop T after 0 s = Fuel"
| "check_loop T after (Suc f) s =
     cbind (check_char T s) (\<lambda>s1. cbind (next_char T after s1) (\<lambda>s2.
       if after \<le> length (l_rest s2) then check_loop T after f s2 else pass s2))"

datatype verdict = U8ID_EOK | U8ID_EOK_NORM | U8ID_ERR u8id_error

definition start_state :: "ctx \<Rightarrow> codepoint \<Rightarrow> byte list \<Rightarrow> sc_tr39 \<Rightarrow> lstate" where
  "start_state c cp rest e =
     \<lparr>l_ctx = c, l_rest = rest, l_cp = cp, l_prev = 0, l_base_cp = 0, l_basesc = SC_Unknown,
      l_seq_mn = 0, l_latin = has_script_ctx SC_Latin c, l_norm = False, l_tr39 = e\<rparr>"

definition verdict_of :: "tables \<Rightarrow> byte list \<Rightarrow> nat \<Rightarrow> u8id_error \<times> ctx + lstate \<Rightarrow> verdict \<times> ctx" where
  "verdict_of T buf bufsz r =
     (case r of
        Inl (err, c') \<Rightarrow> (U8ID_ERR err, c')
      | Inr s \<Rightarrow>
          if l_norm s \<and> normalize T (take bufsz buf) \<noteq> Some (takeWhile (\<lambda>b. b \<noteq> 0) buf)
          then (U8ID_EOK_NORM, (l_ctx s)\<lparr>last_cp := 0\<rparr>)
          else (U8ID_EOK, l_ctx s))"

text \<open>
  The identifier is the first \<open>bufsz\<close> bytes of \<open>buf\<close>; the byte behind it is read too. The normalised
  string is compared with the whole string \<open>buf\<close>.
\<close>

definition u8ident_check_buf :: "tables \<Rightarrow> byte list \<Rightarrow> nat \<Rightarrow> ctx \<Rightarrow> (verdict \<times> ctx) res" where
  "u8ident_check_buf T buf bufsz c =
     rbind (dec_utf8 buf) (\<lambda>(cp, rest).
     rbind (isTR39_start (start_list T) cp) (\<lambda>x.
       case x of
         None \<Rightarrow> Done (U8ID_ERR ERR_XID, c\<lparr>last_cp := cp\<rparr>)
       | Some e \<Rightarrow>
           rmap (verdict_of T buf bufsz)
             (check_loop T (length buf - bufsz) (length buf) (start_state c cp rest e))))"

section \<open>What the lexer reports\<close>

definition failed_char :: "u8state \<Rightarrow> nat \<Rightarrow> codepoint" where
  "failed_char s i = (if i \<le> i_ctx s then last_cp (ctxs s ! i) else 0)"

definition failed_script :: "tables \<Rightarrow> u8state \<Rightarrow> nat \<Rightarrow> nat option res" where
  "failed_script T s i =
     (if i \<le> i_ctx s \<and> last_cp (ctxs s ! i) > 0
      then rmap Some (u8ident_get_script (start_list T) (last_cp (ctxs s ! i))) else Done None)"

datatype message = Disallowed_script nat codepoint | Confusing_mix | Bad_marks | Confusable

definition u8ident_check_ident :: "tables \<Rightarrow> byte list \<Rightarrow> nat \<Rightarrow> u8state \<Rightarrow> (message option \<times> u8state) res" where
  "u8ident_check_ident T name len s =
     rbind (u8ident_ctx s) (\<lambda>c.
     rbind (u8ident_check_buf T name len c) (\<lambda>(v, c').
       let s' = set_ctx c' s in
       case v of
         U8ID_ERR ERR_SCRIPT \<Rightarrow>
           rmap (\<lambda>x. (Some (case x of Some sc \<Rightarrow> Disallowed_script sc (failed_char s' 0) | None \<Rightarrow> Confusing_mix), s'))
             (failed_script T s' 0)
       | U8ID_ERR ERR_SCRIPTS \<Rightarrow>
           rmap (\<lambda>x. (Some (case x of Some sc \<Rightarrow> Disallowed_script sc (failed_char s' 0) | None \<Rightarrow> Confusing_mix), s'))
             (failed_script T s' 0)
       | U8ID_ERR ERR_COMBINE \<Rightarrow> Done (Some Bad_marks, s')
       | U8ID_ERR ERR_CONFUS \<Rightarrow> Done (Some Confusable, s')
       | _ \<Rightarrow> Done (None, s')))"

section \<open>One step of the check\<close>

lemma cbind_simps [simp]:
  "cbind (pass x) g = g x" "cbind (Done (Inr x)) g = g x" "cbind (Done (Inl y)) g = Done (Inl y)"
  "cbind (reject r s) g = reject r s" "cbind UB g = UB" "cbind Fuel g = Fuel"
  by (simp_all add: cbind_def pass_def reject_def)

text \<open>What holds of every state a check lets through.\<close>

definition accepts :: "('a \<Rightarrow> bool) \<Rightarrow> 'a checked \<Rightarrow> bool" where
  "accepts P x \<longleftrightarrow> (\<forall>v. x = Done (Inr v) \<longrightarrow> P v)"

lemma accepts_simps [simp]:
  "accepts P (pass v) = P v" "accepts P (reject e s)" "accepts P (Done (Inr v)) = P v"
  "accepts P UB" "accepts P Fuel" "accepts P (Done (Inl x))"
  by (auto simp: accepts_def pass_def reject_def)

lemma accepts_cbind: "accepts Q x \<Longrightarrow> (\<And>v. Q v \<Longrightarrow> accepts P (g v)) \<Longrightarrow> accepts P (cbind x g)"
  by (cases x; cases "the_res x") (auto simp: accepts_def cbind_def)

lemma accepts_rbind: "(\<And>v. x = Done v \<Longrightarrow> accepts P (g v)) \<Longrightarrow> accepts P (rbind x g)"
  by (cases x) auto

lemma accepts_rmap: "(\<And>v. P (g v)) \<Longrightarrow> accepts P (rmap (\<lambda>v. Inr (g v)) x)"
  by (cases x) auto

lemma accepts_if: "(b \<Longrightarrow> accepts P x) \<Longrightarrow> (\<not> b \<Longrightarrow> accepts P y) \<Longrightarrow> accepts P (if b then x else y)"
  by simp

lemma acceptsD: "accepts P x \<Longrightarrow> x = Done (Inr v) \<Longrightarrow> P v"
  by (simp add: accepts_def)

lemma accepts_weaken: "accepts P x \<Longrightarrow> (\<And>v. P v \<Longrightarrow> Q v) \<Longrightarrow> accepts Q x"
  by (simp add: accepts_def)

text \<open>No step clears the right-to-left flag, and none moves the reading position.\<close>

definition keeps :: "lstate \<Rightarrow> lstate \<Rightarrow> bool" where
  "keeps s s' \<longleftrightarrow> l_rest s' = l_rest s \<and> l_cp s' = l_cp s \<and> (is_rtl (l_ctx s) \<longrightarrow> is_rtl (l_ctx s'))"

lemma screen_keeps_refl [simp]: "keeps s s"
  by (simp add: keeps_def)

lemma screen_keeps_trans: "keeps s t \<Longrightarrow> keeps t u \<Longrightarrow> keeps s u"
  by (simp add: keeps_def)

lemma add_script_rtl: "is_rtl c \<Longrightarrow> is_rtl (snd (add_script_ctx scr c))"
  by (simp add: add_script_ctx_def Let_def)

lemma accept_script_keeps: "keeps s (accept_script scr s)"
  by (simp add: keeps_def accept_script_def Let_def add_script_rtl)

lemma check_allowed_accepts:
  "accepts (\<lambda>s'. keeps s s' \<and> (is_bidi (l_cp s) \<longrightarrow> is_rtl (l_ctx s')) \<and>
     l_tr39 s' = l_tr39 s \<and> tr_sc (l_tr39 s) < FIRST_LIMITED_USE_SCRIPT) (check_allowed T s)"
  unfolding check_allowed_def by (intro accepts_if accepts_rmap) (auto simp: keeps_def)

lemma check_mark_accepts: "accepts (keeps s) (check_mark T g x s)"
  unfolding check_mark_def by (intro accepts_if) (auto simp: keeps_def)

lemma check_scx_accepts: "accepts (\<lambda>(s', b). keeps s s') (check_scx T s)"
  unfolding check_scx_def Let_def
  by (intro accepts_rbind)
    (auto split: option.split simp: keeps_def
      intro!: accepts_if accepts_cbind [where Q = "keeps s"] check_mark_accepts)

lemma check_new_script_accepts: "accepts (keeps s) (check_new_script T s)"
  unfolding check_new_script_def Let_def
  by (intro accepts_if) (simp_all add: accept_script_keeps)

lemma check_run_accepts: "accepts (keeps s) (check_run T s)"
  unfolding check_run_def Let_def
  by (intro accepts_cbind [where Q = "keeps s"] accepts_if) (auto simp: keeps_def)

lemma check_common_accepts: "accepts (\<lambda>(s', b). keeps s s') (check_common T s)"
  unfolding check_common_def
  by (intro accepts_if check_scx_accepts) (simp add: keeps_def)

lemma check_script_accepts: "accepts (keeps s) (check_script T b s)"
  unfolding check_script_def Let_def
  by (intro accepts_if check_new_script_accepts check_run_accepts)
    (simp_all add: accept_latin_def keeps_def add_script_rtl)

lemma check_char_accepts:
  "accepts (\<lambda>s'. keeps s s' \<and> (is_bidi (l_cp s) \<longrightarrow> is_rtl (l_ctx s')) \<and>
     tr_sc (l_tr39 s) < FIRST_LIMITED_USE_SCRIPT) (check_char T s)"
  unfolding check_char_def
proof (rule accepts_cbind [OF check_allowed_accepts], rule accepts_cbind [OF check_common_accepts], clarify)
  fix s1 s2 b
  assume "keeps s s1" "is_bidi (l_cp s) \<longrightarrow> is_rtl (l_ctx s1)" "l_tr39 s1 = l_tr39 s"
    "tr_sc (l_tr39 s) < FIRST_LIMITED_USE_SCRIPT" "keeps s1 s2"
  then show "accepts (\<lambda>s'. keeps s s' \<and> (is_bidi (l_cp s) \<longrightarrow> is_rtl (l_ctx s')) \<and>
     tr_sc (l_tr39 s) < FIRST_LIMITED_USE_SCRIPT) (check_script T b s2)"
    by (intro accepts_weaken [OF check_script_accepts]) (auto simp: keeps_def)
qed

section \<open>The loop over an encoded identifier\<close>

definition utf8_bytes :: "codepoint list \<Rightarrow> byte list" where
  "utf8_bytes cs = concat (map encode_utf8 cs)"

definition valid_cps :: "codepoint list \<Rightarrow> bool" where
  "valid_cps cs \<longleftrightarrow> list_all (\<lambda>c. 0 < c \<and> c < 0x200000) cs"

definition known :: "tables \<Rightarrow> codepoint \<Rightarrow> bool" where
  "known T d \<longleftrightarrow> (\<exists>e. isTR39_cont d = Done (Some e)) \<or> (\<exists>e. isTR39_start (start_list T) d = Done (Some e))"

lemma utf8_bytes_simps [simp]: "utf8_bytes [] = []" "utf8_bytes (c # cs) = encode_utf8 c @ utf8_bytes cs"
  by (simp_all add: utf8_bytes_def)

lemma dec_utf8_bytes:
  "valid_cps (c # cs) \<Longrightarrow> dec_utf8 (utf8_bytes (c # cs) @ p) = Done (c, utf8_bytes cs @ p)"
  using dec_utf8_encode [of c "utf8_bytes cs @ p"] by (simp add: valid_cps_def word_less_nat_alt)

lemma pass_eq [simp]: "pass x = pass y \<longleftrightarrow> x = y"
  by (simp add: pass_def)

lemma dec_utf8_NUL [simp]: "dec_utf8 [0] = Done (0, [])"
  by code_simp

lemma next_char_end: "l_rest s = [0] \<Longrightarrow> next_char T 1 s = pass (s\<lparr>l_prev := l_cp s, l_cp := 0, l_rest := []\<rparr>)"
  by (simp add: next_char_def)

lemma next_char_accepts:
  assumes "l_rest s = utf8_bytes (d # ds) @ [0]" "valid_cps (d # ds)"
  shows "accepts (\<lambda>s'. l_ctx s' = l_ctx s \<and> l_cp s' = d \<and> l_rest s' = utf8_bytes ds @ [0] \<and> known T d) (next_char T 1 s)"
proof -
  have d: "dec_utf8 (l_rest s) = Done (d, utf8_bytes ds @ [0])" "d \<noteq> 0"
    using dec_utf8_bytes assms by (auto simp: valid_cps_def)
  show ?thesis
    unfolding next_char_def d(1)
    by (auto simp: d(2) Let_def known_def split: option.splits intro!: accepts_rbind accepts_if)
qed

lemma check_loop_accepts:
  assumes "l_rest s = utf8_bytes cs @ [0]" "valid_cps cs"
  shows "accepts (\<lambda>s'. (is_rtl (l_ctx s) \<longrightarrow> is_rtl (l_ctx s')) \<and>
           (\<forall>d \<in> set (l_cp s # cs). is_bidi d \<longrightarrow> is_rtl (l_ctx s')) \<and> (\<forall>d \<in> set cs. known T d))
         (check_loop T 1 f s)"
  using assms
proof (induction f arbitrary: s cs)
  case (Suc f)
  show ?case unfolding check_loop.simps
  proof (rule accepts_cbind [OF check_char_accepts])
    fix s1 :: lstate
    assume s1: "keeps s s1 \<and> (is_bidi (l_cp s) \<longrightarrow> is_rtl (l_ctx s1)) \<and> tr_sc (l_tr39 s) < FIRST_LIMITED_USE_SCRIPT"
    then have r1: "l_rest s1 = utf8_bytes cs @ [0]" using Suc.prems(1) by (simp add: keeps_def)
    show "accepts (\<lambda>s'. (is_rtl (l_ctx s) \<longrightarrow> is_rtl (l_ctx s')) \<and>
           (\<forall>d \<in> set (l_cp s # cs). is_bidi d \<longrightarrow> is_rtl (l_ctx s')) \<and> (\<forall>d \<in> set cs. known T d))
       (cbind (next_char T 1 s1) (\<lambda>s2. if 1 \<le> length (l_rest s2) then check_loop T 1 f s2 else pass s2))"
    proof (cases cs)
      case Nil
      then show ?thesis using r1 s1 next_char_end [of s1 T] by (auto simp: keeps_def)
    next
      case (Cons d ds)
      then have v: "valid_cps (d # ds)" "valid_cps ds" using Suc.prems(2) by (simp_all add: valid_cps_def)
      show ?thesis
      proof (rule accepts_cbind [OF next_char_accepts [OF r1 [unfolded Cons] v(1)]])
        fix s2 :: lstate
        assume s2: "l_ctx s2 = l_ctx s1 \<and> l_cp s2 = d \<and> l_rest s2 = utf8_bytes ds @ [0] \<and> known T d"
        then have "accepts (\<lambda>s'. (is_rtl (l_ctx s2) \<longrightarrow> is_rtl (l_ctx s')) \<and>
           (\<forall>d \<in> set (l_cp s2 # ds). is_bidi d \<longrightarrow> is_rtl (l_ctx s')) \<and> (\<forall>d \<in> set ds. known T d)) (check_loop T 1 f s2)"
          by (intro Suc.IH) (simp_all add: v)
        then show "accepts (\<lambda>s'. (is_rtl (l_ctx s) \<longrightarrow> is_rtl (l_ctx s')) \<and>
           (\<forall>d \<in> set (l_cp s # cs). is_bidi d \<longrightarrow> is_rtl (l_ctx s')) \<and> (\<forall>d \<in> set cs. known T d))
          (if 1 \<le> length (l_rest s2) then check_loop T 1 f s2 else pass s2)"
          using s1 s2 Cons by (auto simp: keeps_def accepts_def)
      qed
    qed
  qed
qed simp

section \<open>ASCII identifiers\<close>

definition ascii_letter :: "codepoint \<Rightarrow> bool" where
  "ascii_letter c \<longleftrightarrow> (0x41 \<le> c \<and> c \<le> 0x5A) \<or> c = 0x5F \<or> (0x61 \<le> c \<and> c \<le> 0x7A)"

definition ascii_digit :: "codepoint \<Rightarrow> bool" where
  "ascii_digit c \<longleftrightarrow> 0x30 \<le> c \<and> c \<le> 0x39"

text \<open>What the generated tables say about ASCII.\<close>

definition ascii_tables :: "tables \<Rightarrow> bool" where
  "ascii_tables T \<longleftrightarrow>
     (\<forall>c. ascii_letter c \<longrightarrow>
        (\<exists>e. isTR39_start (start_list T) c = Done (Some e) \<and> tr_sc e = SC_Latin \<and> tr_scx e = None)) \<and>
     (\<forall>c. ascii_digit c \<longrightarrow> isTR39_start (start_list T) c = Done None) \<and>
     (\<forall>c < 0x80. maybe_normalized T c = Done False)"

lemma ascii_range:
  assumes "ascii_letter c \<or> ascii_digit c"
  shows "0 < c" "c < 0x80" "c < 0x200000" "\<not> is_bidi c" "is_tr39_MEDIAL c = Done False"
proof -
  show b: "0 < c" "c < 0x80" "c < 0x200000"
    using assms unfolding ascii_letter_def ascii_digit_def
    by (auto simp: word_less_nat_alt word_le_nat_alt)
  have "list_all (\<lambda>r. c < fst r) bidi_list" "list_all (\<lambda>r. c < fst r) tr39_medial_list"
    using b(2) by (simp_all add: bidi_list_def tr39_medial_list_def word_less_nat_alt)
  then show "\<not> is_bidi c" "is_tr39_MEDIAL c = Done False"
    using bidi.below_all [of c] medial.below_all [of c] by simp_all
qed

text \<open>The entry an ASCII character is checked with.\<close>

definition ascii_entry :: "tables \<Rightarrow> codepoint \<Rightarrow> sc_tr39 \<Rightarrow> bool" where
  "ascii_entry T c e \<longleftrightarrow>
     (tr_sc e = SC_Latin \<or> (tr_sc e = SC_Common \<and> tr_gc e \<in> {GC_Nd, GC_Pc} \<and>
        (\<exists>x. u8ident_get_tr39 (start_list T) c = Done (Some x) \<and> tr_scx x = None)))"

lemma check_char_ascii:
  assumes T: "ascii_tables T" and c: "ascii_letter (l_cp s) \<or> ascii_digit (l_cp s)"
    and e: "ascii_entry T (l_cp s) (l_tr39 s)" and n: "\<not> l_norm s"
  shows "\<exists>s'. check_char T s = pass s' \<and> keeps s s' \<and> \<not> l_norm s'"
proof -
  have a: "check_allowed T s = pass s"
    using T e n ascii_range [OF c] by (auto simp: check_allowed_def ascii_tables_def ascii_entry_def pass_def)
  show ?thesis
  proof (cases "tr_sc (l_tr39 s) = SC_Latin")
    case True
    then show ?thesis
      using a n by (auto simp: check_char_def check_common_def check_script_def is_common_def Let_def
          accept_latin_def keeps_def add_script_rtl)
  next
    case False
    then have "check_common T s = pass (s, False)" "check_script T False s = pass s"
      using e by (auto simp: ascii_entry_def check_common_def check_scx_def is_common_def check_script_def
          check_run_def Let_def)
    then show ?thesis using a n by (auto simp: check_char_def)
  qed
qed

lemma cont_digit: "ascii_digit c \<Longrightarrow> isTR39_cont c = Done (Some (tr39_entry 0x30 0x39 SC_Common GC_Nd None))"
  by (simp add: isTR39_cont_find tr39_cont_list_def tr39_entry_def within_def ascii_digit_def)

lemma cont_underscore: "isTR39_cont 0x5F = Done (Some (tr39_entry 0x5F 0x5F SC_Common GC_Pc None))"
  by code_simp

lemma cont_letter:
  assumes "ascii_letter c" "c \<noteq> 0x5F"
  shows "isTR39_cont c = Done None"
proof -
  have c: "0x39 < c" "c < 0x80"
    using assms ascii_range(2) [of c]
    by (auto simp: ascii_letter_def intro: less_le_trans [where y = "0x41"] less_le_trans [where y = "0x61"])
  have "list_all (\<lambda>e. snd (tr_range e) \<le> 0x39 \<or> tr_range e = (0x5F, 0x5F) \<or> 0x80 \<le> fst (tr_range e)) tr39_cont_list"
    by code_simp
  note table = this [unfolded list_all_iff]
  have "\<not> within c (tr_range e)" if e: "e \<in> set tr39_cont_list" for e
  proof
    assume w: "within c (tr_range e)"
    consider "snd (tr_range e) \<le> 0x39" | "tr_range e = (0x5F, 0x5F)" | "0x80 \<le> fst (tr_range e)"
      using table e by blast
    then show False
    proof cases
      case 1
      have "c \<le> 0x39" by (rule order_trans [OF _ 1]) (use w in \<open>simp add: within_def\<close>)
      then show ?thesis using leD [of c "0x39"] c(1) by blast
    next
      case 2
      then have "0x5F \<le> c" "c \<le> 0x5F" using w by (simp_all add: within_def)
      then have "c = 0x5F" by (intro order_antisym)
      then show ?thesis using assms(2) by blast
    next
      case 3
      have "0x80 \<le> c" by (rule order_trans [OF 3]) (use w in \<open>simp add: within_def\<close>)
      then show ?thesis using leD [of "0x80" c] c(2) by blast
    qed
  qed
  then have "find (\<lambda>e. within c (tr_range e)) tr39_cont_list = None"
    by (simp add: find_None_iff)
  then show ?thesis by (simp add: isTR39_cont_find)
qed

lemma entry_ascii:
  assumes T: "ascii_tables T" and d: "ascii_letter d \<or> ascii_digit d"
  shows "\<exists>e. rbind (isTR39_cont d) (\<lambda>x. case x of Some e \<Rightarrow> Done (Some e) | None \<Rightarrow> isTR39_start (start_list T) d)
      = Done (Some e) \<and> ascii_entry T d e"
proof -
  consider (digit) "ascii_digit d" | (underscore) "d = 0x5F" | (letter) "ascii_letter d" "d \<noteq> 0x5F"
    using d by blast
  then show ?thesis
  proof cases
    case digit
    then have "isTR39_start (start_list T) d = Done None" using T by (simp add: ascii_tables_def)
    then show ?thesis using cont_digit [OF digit]
      by (auto simp: ascii_entry_def u8ident_get_tr39_def tr39_entry_def)
  next
    case underscore
    then have "ascii_letter d" by (simp add: ascii_letter_def)
    then obtain x where "isTR39_start (start_list T) d = Done (Some x)" "tr_scx x = None"
      using T by (auto simp: ascii_tables_def)
    then show ?thesis using cont_underscore underscore
      by (auto simp: ascii_entry_def u8ident_get_tr39_def tr39_entry_def)
  next
    case letter
    then obtain x where "isTR39_start (start_list T) d = Done (Some x)" "tr_sc x = SC_Latin"
      using T by (auto simp: ascii_tables_def)
    then show ?thesis using cont_letter [OF letter] by (auto simp: ascii_entry_def)
  qed
qed

lemma next_char_ascii:
  assumes T: "ascii_tables T" and d: "ascii_letter d \<or> ascii_digit d"
    and r: "l_rest s = utf8_bytes (d # ds) @ [0]" and v: "valid_cps (d # ds)"
  shows "\<exists>e. next_char T 1 s = pass (s\<lparr>l_prev := l_cp s, l_cp := d, l_rest := utf8_bytes ds @ [0], l_tr39 := e\<rparr>)
    \<and> ascii_entry T d e"
proof -
  have dec: "dec_utf8 (l_rest s) = Done (d, utf8_bytes ds @ [0])" "d \<noteq> 0"
    using dec_utf8_bytes r v by (auto simp: valid_cps_def)
  obtain e x where e: "isTR39_cont d = Done x"
      "(case x of Some e \<Rightarrow> Done (Some e) | None \<Rightarrow> isTR39_start (start_list T) d) = Done (Some e)"
      "ascii_entry T d e"
    using entry_ascii [OF T d] by auto
  show ?thesis
    unfolding next_char_def dec(1) using e dec(2) ascii_range(5) [OF d]
    by (intro exI [of _ e]) (simp add: Let_def)
qed

lemma check_loop_ascii:
  assumes T: "ascii_tables T"
  shows "list_all (\<lambda>c. ascii_letter c \<or> ascii_digit c) (l_cp s # cs) \<Longrightarrow> ascii_entry T (l_cp s) (l_tr39 s) \<Longrightarrow>
     \<not> l_norm s \<Longrightarrow> l_rest s = utf8_bytes cs @ [0] \<Longrightarrow> length cs < f \<Longrightarrow>
     \<exists>s'. check_loop T 1 f s = pass s' \<and> \<not> l_norm s'"
proof (induction f arbitrary: s cs)
  case (Suc f)
  have c: "ascii_letter (l_cp s) \<or> ascii_digit (l_cp s)" using Suc.prems(1) by simp
  obtain s1 where s1: "check_char T s = pass s1" "keeps s s1" "\<not> l_norm s1"
    using check_char_ascii [OF T c Suc.prems(2,3)] by blast
  then have r1: "l_rest s1 = utf8_bytes cs @ [0]" using Suc.prems(4) by (simp add: keeps_def)
  show ?case
  proof (cases cs)
    case Nil
    then show ?thesis using s1 r1 next_char_end [of s1 T] by simp
  next
    case (Cons d ds)
    have v: "valid_cps (d # ds)"
      using Suc.prems(1) Cons ascii_range(1,3) by (auto simp: valid_cps_def list_all_iff)
    have d: "ascii_letter d \<or> ascii_digit d" using Suc.prems(1) Cons by simp
    obtain e where e: "next_char T 1 s1 = pass (s1\<lparr>l_prev := l_cp s1, l_cp := d, l_rest := utf8_bytes ds @ [0], l_tr39 := e\<rparr>)"
      "ascii_entry T d e"
      using next_char_ascii [OF T d r1 [unfolded Cons] v] by blast
    have "\<exists>s'. check_loop T 1 f (s1\<lparr>l_prev := l_cp s1, l_cp := d, l_rest := utf8_bytes ds @ [0], l_tr39 := e\<rparr>) = pass s'
        \<and> \<not> l_norm s'"
      using Suc.prems Cons e(2) s1(3) by (intro Suc.IH [where cs = ds]) simp_all
    then show ?thesis using s1(1) e(1) by simp
  qed
qed simp
lemma check_buf_start:
  assumes "valid_cps (c # cs)" "isTR39_start (start_list T) c = Done (Some e)"
  shows "u8ident_check_buf T (utf8_bytes (c # cs) @ [0]) (length (utf8_bytes (c # cs))) ctx =
    rmap (verdict_of T (utf8_bytes (c # cs) @ [0]) (length (utf8_bytes (c # cs))))
      (check_loop T 1 (length (utf8_bytes (c # cs) @ [0])) (start_state ctx c (utf8_bytes cs @ [0]) e))"
  unfolding u8ident_check_buf_def dec_utf8_bytes [OF assms(1)] by (simp add: assms(2))

section \<open>Properties\<close>

text \<open>
  C35. What the check lets through: if an identifier is accepted, every character after the first is in the table of start
  or of continuation characters, the first is a start character, and no character is a bidi control
  unless the script context the check ends with is right to left.
\<close>

theorem accepted_identifier_safe:
  assumes "u8ident_check_buf T (utf8_bytes (c # cs) @ [0]) (length (utf8_bytes (c # cs))) ctx = Done (v, ctx')"
    and "valid_cps (c # cs)" and "v = U8ID_EOK \<or> v = U8ID_EOK_NORM"
  shows "(\<exists>e. isTR39_start (start_list T) c = Done (Some e)) \<and> (\<forall>d \<in> set cs. known T d) \<and>
         (\<forall>d \<in> set (c # cs). is_bidi d \<longrightarrow> is_rtl ctx')"
proof -
  have dec: "dec_utf8 (utf8_bytes (c # cs) @ [0]) = Done (c, utf8_bytes cs @ [0])"
    using dec_utf8_bytes assms(2) by blast
  obtain e where e: "isTR39_start (start_list T) c = Done (Some e)"
    using assms(1,3) unfolding u8ident_check_buf_def dec by (auto split: option.splits)
  obtain r where r: "check_loop T 1 (length (utf8_bytes (c # cs) @ [0])) (start_state ctx c (utf8_bytes cs @ [0]) e) = Done r"
    "verdict_of T (utf8_bytes (c # cs) @ [0]) (length (utf8_bytes (c # cs))) r = (v, ctx')"
    using assms(1) unfolding check_buf_start [OF assms(2) e] by (auto simp del: check_loop.simps)
  then obtain s' where s': "r = Inr s'" "is_rtl (l_ctx s') = is_rtl ctx'"
    using assms(3) by (cases r) (auto simp: verdict_of_def split: if_splits)
  have "valid_cps cs" using assms(2) by (simp add: valid_cps_def)
  then have "accepts (\<lambda>s'. (is_rtl ctx \<longrightarrow> is_rtl (l_ctx s')) \<and>
           (\<forall>d \<in> set (c # cs). is_bidi d \<longrightarrow> is_rtl (l_ctx s')) \<and> (\<forall>d \<in> set cs. known T d))
         (check_loop T 1 (length (utf8_bytes (c # cs) @ [0])) (start_state ctx c (utf8_bytes cs @ [0]) e))"
    using check_loop_accepts [of "start_state ctx c (utf8_bytes cs @ [0]) e" cs T]
    by (simp add: start_state_def del: check_loop.simps)
  from acceptsD [OF this r(1) [unfolded s'(1)]] e s'(2) show ?thesis by simp
qed

text \<open>A table with the ASCII start characters and the Cyrillic small letters.\<close>

definition small_tables :: tables where
  "small_tables =
     \<lparr>start_list = [tr39_entry 0x41 0x5A SC_Latin GC_Lu None, tr39_entry 0x5F 0x5F SC_Latin GC_Pc None,
        tr39_entry 0x61 0x7A SC_Latin GC_Ll None, tr39_entry 0x40E 0x44F SC_Cyrillic GC_L None],
      nfc_n = [], nfc_m = [], nsm_letters = [], greek_confus = [], normalize = Some\<rparr>"

theorem accepted_identifier_safe_witness:
  "(\<exists>e. isTR39_start (start_list small_tables) 0x61 = Done (Some e)) \<and> known small_tables 0x62 \<and> known small_tables 0x31"
proof -
  have "u8ident_check_buf small_tables (utf8_bytes [0x61, 0x62, 0x31] @ [0]) (length (utf8_bytes [0x61, 0x62, 0x31])) zero_ctx
    = Done (U8ID_EOK, snd (add_script_ctx SC_Latin zero_ctx))"
    by code_simp
  from accepted_identifier_safe [OF this] show ?thesis by (simp add: valid_cps_def)
qed

text \<open>
  ASCII identifiers always pass: with tables that know ASCII, an identifier of letters, underscores and digits
  that does not start with a digit is accepted without a warning, whatever scripts were used before.
\<close>

theorem ascii_identifiers_pass:
  assumes "ascii_tables T" and "ascii_letter c" and "\<forall>d \<in> set cs. ascii_letter d \<or> ascii_digit d"
  shows "\<exists>ctx'. u8ident_check_buf T (utf8_bytes (c # cs) @ [0]) (length (utf8_bytes (c # cs))) ctx = Done (U8ID_EOK, ctx')"
proof -
  have v: "valid_cps (c # cs)"
    using assms(2,3) ascii_range(1,3) by (auto simp: valid_cps_def list_all_iff)
  obtain e where e: "isTR39_start (start_list T) c = Done (Some e)" "tr_sc e = SC_Latin"
    using assms(1,2) by (auto simp: ascii_tables_def)
  have len: "length cs \<le> length (utf8_bytes cs)"
    by (induction cs) (auto simp: encode_utf8_def)
  have "\<exists>s'. check_loop T 1 (length (utf8_bytes (c # cs) @ [0])) (start_state ctx c (utf8_bytes cs @ [0]) e) = pass s'
      \<and> \<not> l_norm s'"
    using assms len e
    by (intro check_loop_ascii [where cs = cs]) (auto simp: start_state_def list_all_iff ascii_entry_def)
  then show ?thesis
    unfolding check_buf_start [OF v e(1)] by (auto simp: pass_def verdict_of_def simp del: check_loop.simps)
qed

lemma small_tables_ascii: "ascii_tables small_tables"
proof -
  have s: "sorted_ranges (map tr_range (start_list small_tables))"
    by code_simp
  have f: "isTR39_start (start_list small_tables) c =
     Done (find (\<lambda>e. within c (tr_range e)) (start_list small_tables))" for c
    using binary_search_find [OF s] by (simp add: isTR39_start_def)
  have n: "maybe_normalized small_tables c = Done False" for c
    by (simp add: maybe_normalized_def small_tables_def range_bool_search_def binary_search.simps)
  show ?thesis
    unfolding ascii_tables_def f n
    by (auto simp: small_tables_def tr39_entry_def within_def ascii_letter_def ascii_digit_def word_le_nat_alt
        word_less_nat_alt)
qed

theorem ascii_identifiers_pass_witness:
  "\<exists>ctx'. u8ident_check_buf small_tables (utf8_bytes [0x5F, 0x78, 0x31] @ [0]) (length (utf8_bytes [0x5F, 0x78, 0x31])) zero_ctx
     = Done (U8ID_EOK, ctx')"
  by (rule ascii_identifiers_pass [OF small_tables_ascii]) (simp_all add: ascii_letter_def ascii_digit_def)

text \<open>
  Mixing Latin and Cyrillic is judged by the order of the letters: in a fresh context a Cyrillic letter after a
  Latin one is rejected, and the same two letters the other way round are accepted.
\<close>

theorem latin_cyrillic_order:
  "u8ident_check_buf small_tables (utf8_bytes [0x61, 0x430] @ [0]) 3 zero_ctx =
     Done (U8ID_ERR ERR_SCRIPTS, (snd (add_script_ctx SC_Latin zero_ctx))\<lparr>last_cp := 0x430\<rparr>) \<and>
   u8ident_check_buf small_tables (utf8_bytes [0x430, 0x61] @ [0]) 3 zero_ctx =
     Done (U8ID_EOK, snd (add_script_ctx SC_Latin (snd (add_script_ctx SC_Cyrillic zero_ctx))))"
  by code_simp

definition reported :: "(message option \<times> u8state) res \<Rightarrow> message option res" where
  "reported r = rmap fst r"

text \<open>
  After a reset the report looks at the wrong context: \<open>reset\<close> switches to context 1, the failing character is
  recorded there, and the message of a rejected identifier no longer names the script.
\<close>

theorem reset_loses_script:
  "reported (u8ident_check_ident small_tables (utf8_bytes [0x61, 0x430] @ [0]) 3 initial_state) =
     Done (Some (Disallowed_script SC_Cyrillic 0x430)) \<and>
   reported (rbind (u8ident_allow_script ''reset'' initial_state)
     (u8ident_check_ident small_tables (utf8_bytes [0x61, 0x430] @ [0]) 3)) = Done (Some Confusing_mix)"
  by code_simp

end
