(* ===== verification/StrBuf.thy ===== *)
theory StrBuf
  imports Outcome
begin

text \<open>
  The growing string buffer of the preprocessor (\<open>StrBuf\<close>, \<open>sb_init\<close>, \<open>sb_reserve\<close>, \<open>sb_putc\<close>,
  \<open>sb_puts\<close> in \<open>src/preprocess.c\<close>). \<open>buf\<close> is the whole array of \<open>cap\<close> characters; a write outside
  of it, a read of an unset position by \<open>memcpy\<close> and an overflowing \<open>int\<close> are \<open>UB\<close>. The lemmas show that
  a buffer grown through these operations never leaves its array and holds what was appended, so the
  other theories take the output of the preprocessor's functions to be a plain string.
\<close>

section \<open>Model\<close>

record strbuf =
  sb_buf :: string
  sb_len :: nat
  sb_cap :: nat

definition sb_content :: "strbuf \<Rightarrow> string" where
  "sb_content sb = take (sb_len sb) (sb_buf sb)"

text \<open>The arena returns zeroed memory, so a fresh array is full of NULs.\<close>

definition sb_init :: "nat \<Rightarrow> strbuf res" where
  "sb_init cap = (if cap = 0 then UB
     else Done \<lparr>sb_buf = (replicate cap NUL)[0 := NUL], sb_len = 0, sb_cap = cap\<rparr>)"

text \<open>\<open>while (new_cap < needed) new_cap *= 2\<close>: with a capacity of zero it does not return.\<close>

function grow_cap :: "nat \<Rightarrow> nat \<Rightarrow> nat res" where
  "grow_cap new_cap needed =
     (if needed \<le> new_cap then Done new_cap
      else if new_cap = 0 then Fuel
      else if 2 ^ 31 \<le> new_cap * 2 then UB
      else grow_cap (new_cap * 2) needed)"
  by pat_completeness auto
termination by (relation "measure (\<lambda>(c, n). 2 ^ 31 - c)") auto

declare grow_cap.simps [simp del]

definition write_at :: "strbuf \<Rightarrow> nat \<Rightarrow> char \<Rightarrow> strbuf res" where
  "write_at sb i c = (if i < length (sb_buf sb) then Done (sb\<lparr>sb_buf := (sb_buf sb)[i := c]\<rparr>) else UB)"

definition sb_reserve :: "strbuf \<Rightarrow> nat \<Rightarrow> strbuf res" where
  "sb_reserve sb needed =
     (if needed \<le> sb_cap sb then Done sb
      else rbind (grow_cap (sb_cap sb) needed) (\<lambda>new_cap.
        if sb_len sb + 1 \<le> length (sb_buf sb) \<and> sb_len sb + 1 \<le> new_cap
        then Done (sb\<lparr>sb_buf := take (sb_len sb + 1) (sb_buf sb) @ replicate (new_cap - (sb_len sb + 1)) NUL,
                      sb_cap := new_cap\<rparr>)
        else UB))"

definition sb_putc :: "strbuf \<Rightarrow> char \<Rightarrow> strbuf res" where
  "sb_putc sb c =
     rbind (sb_reserve sb (sb_len sb + 2)) (\<lambda>sb.
     rbind (write_at sb (sb_len sb) c) (\<lambda>sb.
       (let sb = sb\<lparr>sb_len := sb_len sb + 1\<rparr> in write_at sb (sb_len sb) NUL)))"

fun copy_in :: "strbuf \<Rightarrow> nat \<Rightarrow> string \<Rightarrow> strbuf res" where
  "copy_in sb i [] = Done sb"
| "copy_in sb i (c # s) = rbind (write_at sb i c) (\<lambda>sb. copy_in sb (Suc i) s)"

definition sb_puts :: "strbuf \<Rightarrow> string \<Rightarrow> strbuf res" where
  "sb_puts sb s =
     (let len = length s in
      rbind (sb_reserve sb (sb_len sb + len + 1)) (\<lambda>sb.
      rbind (copy_in sb (sb_len sb) s) (\<lambda>sb.
        (let sb = sb\<lparr>sb_len := sb_len sb + len\<rparr> in write_at sb (sb_len sb) NUL))))"

text \<open>A caller's run of appends.\<close>

datatype append_op = Putc char | Puts string

primrec append_step :: "strbuf \<Rightarrow> append_op \<Rightarrow> strbuf res" where
  "append_step sb (Putc c) = sb_putc sb c"
| "append_step sb (Puts s) = sb_puts sb s"

fun append_run :: "strbuf \<Rightarrow> append_op list \<Rightarrow> strbuf res" where
  "append_run sb [] = Done sb"
| "append_run sb (a # as) = rbind (append_step sb a) (\<lambda>sb. append_run sb as)"

primrec appended :: "append_op \<Rightarrow> string" where
  "appended (Putc c) = [c]"
| "appended (Puts s) = s"

section \<open>The invariant\<close>

definition sb_inv :: "strbuf \<Rightarrow> bool" where
  "sb_inv sb \<longleftrightarrow> length (sb_buf sb) = sb_cap sb \<and> sb_len sb < sb_cap sb \<and> sb_cap sb < 2 ^ 31
     \<and> sb_buf sb ! sb_len sb = NUL"

lemma grow_cap_Done:
  assumes "0 < c" and "needed \<le> 2 ^ 30" and "c < 2 ^ 31"
  shows "\<exists>n. grow_cap c needed = Done n \<and> c \<le> n \<and> needed \<le> n \<and> n < 2 ^ 31"
  using assms
proof (induction c needed rule: grow_cap.induct)
  case (1 c n)
  show ?case
  proof (cases "n \<le> c")
    case True
    then show ?thesis using "1.prems" by (subst grow_cap.simps) auto
  next
    case False
    then have "\<not> 2 ^ 31 \<le> c * 2" using "1.prems" by auto
    with False "1.prems" "1.IH" show ?thesis
      by (subst grow_cap.simps) fastforce
  qed
qed

lemma sb_init_inv: "0 < cap \<Longrightarrow> cap < 2 ^ 31 \<Longrightarrow> \<exists>sb. sb_init cap = Done sb \<and> sb_inv sb \<and> sb_content sb = []"
  by (simp add: sb_init_def sb_inv_def sb_content_def)

lemma sb_reserve_inv:
  assumes "sb_inv sb" and "needed \<le> 2 ^ 30"
  shows "\<exists>sb'. sb_reserve sb needed = Done sb' \<and> sb_inv sb' \<and> sb_content sb' = sb_content sb
    \<and> sb_len sb' = sb_len sb \<and> needed \<le> sb_cap sb'"
proof (cases "needed \<le> sb_cap sb")
  case False
  from assms have "0 < sb_cap sb" "sb_cap sb < 2 ^ 31" by (auto simp: sb_inv_def)
  from grow_cap_Done [OF this(1) assms(2) this(2)]
  obtain n where n: "grow_cap (sb_cap sb) needed = Done n" "sb_cap sb \<le> n" "needed \<le> n" "n < 2 ^ 31"
    by blast
  with False assms(1) show ?thesis
    by (auto simp: sb_reserve_def sb_inv_def sb_content_def nth_append)
qed (use assms in \<open>simp add: sb_reserve_def\<close>)

lemma copy_in_Done:
  "i + length s \<le> length (sb_buf sb) \<Longrightarrow>
   copy_in sb i s = Done (sb\<lparr>sb_buf := take i (sb_buf sb) @ s @ drop (i + length s) (sb_buf sb)\<rparr>)"
proof (induction s arbitrary: i sb)
  case Nil
  then show ?case by simp
next
  case (Cons c s)
  then have "take (Suc i) ((sb_buf sb)[i := c]) = take i (sb_buf sb) @ [c]"
    by (simp add: take_Suc_conv_app_nth)
  with Cons show ?case
    by (simp add: write_at_def)
qed

lemma sb_puts_inv:
  assumes "sb_inv sb" and "sb_len sb + length s + 1 \<le> 2 ^ 30"
  shows "\<exists>sb'. sb_puts sb s = Done sb' \<and> sb_inv sb' \<and> sb_content sb' = sb_content sb @ s"
proof -
  from sb_reserve_inv [OF assms] obtain r
    where r: "sb_reserve sb (sb_len sb + length s + 1) = Done r" "sb_inv r" "sb_content r = sb_content sb"
      "sb_len r = sb_len sb" "sb_len sb + length s + 1 \<le> sb_cap r" by blast
  with assms(1) copy_in_Done [of "sb_len r" s r] show ?thesis
    by (auto simp: sb_puts_def write_at_def sb_inv_def sb_content_def nth_append Let_def min_def)
qed

lemma sb_putc_as_puts: "sb_putc sb c = sb_puts sb [c]"
  by (simp add: sb_putc_def sb_puts_def Let_def rbind_assoc)

lemma append_run_ok:
  assumes "sb_inv sb" and "length (sb_content sb) + length (concat (map appended as)) + 1 \<le> 2 ^ 30"
  shows "\<exists>sb'. append_run sb as = Done sb' \<and> sb_inv sb' \<and> sb_content sb' = sb_content sb @ concat (map appended as)"
  using assms
proof (induction as arbitrary: sb)
  case (Cons a as)
  have step: "append_step sb a = sb_puts sb (appended a)"
    by (cases a) (simp_all add: sb_putc_as_puts)
  from Cons.prems(1) have len: "length (sb_content sb) = sb_len sb"
    by (auto simp: sb_inv_def sb_content_def)
  with Cons.prems have "sb_len sb + length (appended a) + 1 \<le> 2 ^ 30" by simp
  from sb_puts_inv [OF Cons.prems(1) this] obtain sb'
    where s: "sb_puts sb (appended a) = Done sb'" "sb_inv sb'" "sb_content sb' = sb_content sb @ appended a"
    by blast
  from Cons.IH [OF s(2)] Cons.prems(2) s(3) obtain sb2
    where "append_run sb' as = Done sb2" "sb_inv sb2"
      "sb_content sb2 = sb_content sb' @ concat (map appended as)" by auto
  with s step show ?case by auto
qed simp

text \<open>
  C37. A buffer made by \<open>sb_init\<close> with a positive capacity takes any run of \<open>sb_putc\<close> and \<open>sb_puts\<close> whose
  text stays under a gigabyte: every write is inside the array, the doubling of the capacity ends, and the buffer then
  holds exactly the concatenation of what was appended, terminated by a NUL.
\<close>

theorem strbuf_appends:
  assumes "0 < cap" and "cap < 2 ^ 31" and "length (concat (map appended as)) < 2 ^ 30"
  shows "\<exists>sb. rbind (sb_init cap) (\<lambda>sb. append_run sb as) = Done sb
    \<and> sb_content sb = concat (map appended as) \<and> sb_len sb < sb_cap sb \<and> sb_buf sb ! sb_len sb = NUL"
proof -
  from sb_init_inv [OF assms(1,2)] obtain sb
    where "sb_init cap = Done sb" "sb_inv sb" "sb_content sb = []" by blast
  with append_run_ok [of sb as] assms(3) show ?thesis
    by (auto simp: sb_inv_def)
qed

theorem strbuf_appends_witness:
  "\<exists>sb. rbind (sb_init 2) (\<lambda>sb. append_run sb [Puts ''#define '', Putc CHR ''X'']) = Done sb
    \<and> sb_content sb = ''#define X'' \<and> sb_len sb < sb_cap sb \<and> sb_buf sb ! sb_len sb = NUL"
  using strbuf_appends [of 2 "[Puts ''#define '', Putc CHR ''X'']"] by simp

end
