(* ===== verification/Chains.thy ===== *)
theory Chains
  imports Outcome
begin

text \<open>
  Singly linked lists through pointer fields, as the compiler's tables use them. \<open>nx a\<close> is the
  \<open>next\<close> field of the node at address \<open>a\<close>, \<open>None\<close> the null pointer. The two loops every table has:
  a search along the chain, and the search with a pointer to the link (\<open>for (p = &head; *p; p = &(*p)->next)\<close>)
  that is used to take a node out, which returns the node and the node in front of it, if any. Both take
  the number of nodes that they may visit as fuel; \<open>Fuel\<close> is a chain longer than that (or a cycle).
\<close>

type_synonym addr = nat

section \<open>Loops\<close>

fun find_chain :: "(addr \<Rightarrow> addr option) \<Rightarrow> (addr \<Rightarrow> bool) \<Rightarrow> nat \<Rightarrow> addr option \<Rightarrow> addr option res" where
  "find_chain nx P 0 p = Fuel"
| "find_chain nx P (Suc k) None = Done None"
| "find_chain nx P (Suc k) (Some a) = (if P a then Done (Some a) else find_chain nx P k (nx a))"

fun find_link :: "(addr \<Rightarrow> addr option) \<Rightarrow> (addr \<Rightarrow> bool) \<Rightarrow> nat \<Rightarrow> addr option \<Rightarrow> addr option \<Rightarrow> (addr option \<times> addr) option res" where
  "find_link nx P 0 prev p = Fuel"
| "find_link nx P (Suc k) prev None = Done None"
| "find_link nx P (Suc k) prev (Some a) =
     (if P a then Done (Some (prev, a)) else find_link nx P k (Some a) (nx a))"

section \<open>The list a chain spells\<close>

fun Chain :: "(addr \<Rightarrow> addr option) \<Rightarrow> addr option \<Rightarrow> addr list \<Rightarrow> bool" where
  "Chain nx p [] \<longleftrightarrow> p = None"
| "Chain nx p (a # as) \<longleftrightarrow> p = Some a \<and> Chain nx (nx a) as"

lemma Chain_cong: "(\<And>a. a \<in> set as \<Longrightarrow> nx a = nx' a) \<Longrightarrow> Chain nx p as \<longleftrightarrow> Chain nx' p as"
  by (induction as arbitrary: p) auto

lemma Chain_upd: "b \<notin> set as \<Longrightarrow> Chain (nx(b := q)) p as \<longleftrightarrow> Chain nx p as"
  by (rule Chain_cong) auto

lemma find_chain_Chain:
  "Chain nx p as \<Longrightarrow> length as < k \<Longrightarrow> find_chain nx P k p = Done (find P as)"
proof (induction as arbitrary: p k)
  case Nil
  then show ?case by (cases k) auto
next
  case (Cons a as)
  then show ?case by (cases k) auto
qed

lemma find_link_none:
  "Chain nx p as \<Longrightarrow> length as < k \<Longrightarrow> (\<And>a. a \<in> set as \<Longrightarrow> \<not> P a) \<Longrightarrow> find_link nx P k prev p = Done None"
proof (induction as arbitrary: p k prev)
  case Nil
  then show ?case by (cases k) auto
next
  case (Cons a as)
  then show ?case by (cases k) auto
qed

lemma find_link_some:
  "Chain nx p (us @ a # vs) \<Longrightarrow> length (us @ a # vs) < k \<Longrightarrow> (\<And>u. u \<in> set us \<Longrightarrow> \<not> P u) \<Longrightarrow> P a \<Longrightarrow>
   find_link nx P k prev p = Done (Some (if us = [] then prev else Some (last us), a))"
proof (induction us arbitrary: p k prev)
  case Nil
  then show ?case by (cases k) auto
next
  case (Cons u us)
  then show ?case by (cases k) auto
qed

lemma Chain_unlink_head: "Chain nx p (a # vs) \<Longrightarrow> Chain nx (nx a) vs"
  by simp

lemma Chain_unlink:
  "Chain nx p (us @ a # vs) \<Longrightarrow> us \<noteq> [] \<Longrightarrow> distinct (us @ a # vs) \<Longrightarrow>
   Chain (nx(last us := nx a)) p (us @ vs)"
proof (induction us arbitrary: p)
  case (Cons u us)
  show ?case
  proof (cases "us = []")
    case True
    then have "Chain (nx(u := nx a)) (nx a) vs = Chain nx (nx a) vs"
      using Cons.prems(3) by (intro Chain_upd) auto
    with True Cons.prems show ?thesis by (simp del: fun_upd_apply add: fun_upd_same)
  next
    case False
    with Cons have "Chain (nx(last us := nx a)) (nx u) (us @ vs)" by (simp del: fun_upd_apply)
    moreover have "u \<noteq> last us" using Cons.prems(3) False by (metis Cons_eq_appendI distinct.simps(2) last_in_set UnI1 set_append)
    ultimately show ?thesis using Cons.prems(1) False by (simp del: fun_upd_apply add: fun_upd_other)
  qed
qed simp

lemma Chain_push: "b \<notin> set as \<Longrightarrow> Chain nx p as \<Longrightarrow> Chain (nx(b := p)) (Some b) (b # as)"
  by (simp add: Chain_upd)

text \<open>Where the first node with the property is.\<close>

lemma find_split_first:
  assumes "find P as = Some a"
  shows "\<exists>us vs. as = us @ a # vs \<and> P a \<and> (\<forall>u \<in> set us. \<not> P u)"
  using assms
proof (induction as)
  case (Cons x as)
  then show ?case
  proof (cases "P x")
    case True
    with Cons.prems have "x # as = [] @ a # as \<and> P a" by simp
    then show ?thesis by (intro exI [of _ "[]"] exI [of _ as]) simp
  next
    case False
    with Cons obtain us vs where "as = us @ a # vs" "P a" "\<forall>u \<in> set us. \<not> P u" by auto
    with False have "x # as = (x # us) @ a # vs \<and> P a \<and> (\<forall>u \<in> set (x # us). \<not> P u)" by simp
    then show ?thesis by blast
  qed
qed simp

lemma length_distinct_less: "distinct as \<Longrightarrow> (\<And>a. a \<in> set as \<Longrightarrow> a < n) \<Longrightarrow> length as < Suc n"
proof -
  assume "distinct as" and b: "\<And>a. a \<in> set as \<Longrightarrow> a < n"
  then have "length as = card (set as)" by (simp add: distinct_card)
  also have "\<dots> \<le> card {..< n}" by (intro card_mono) (auto dest: b)
  finally show ?thesis by simp
qed

end
