(* ===== verification/PPText.thy ===== *)
theory PPText
  imports Outcome "HOL-Library.Sublist"
begin

text \<open>
  The text passes of the preprocessor (\<open>src/preprocess.c\<close>) that do not look at macros: joining of
  continued lines with the count of physical lines behind each logical one
  (\<open>splice_lines_with_counts\<close>), blanking of comments (\<open>strip_comments\<close>), and the trimming, quoting and
  parenthesis counting helpers. A buffer filled through \<open>StrBuf\<close> is the string it holds; a function that
  edits its text in place returns the edited text.
\<close>

section \<open>Characters of identifiers\<close>

definition pp_is_ident1 :: "char \<Rightarrow> bool" where
  "pp_is_ident1 c \<longleftrightarrow> in_chars CHR ''a'' CHR ''z'' c \<or> in_chars CHR ''A'' CHR ''Z'' c
     \<or> c = CHR ''_'' \<or> c = CHR ''$'' \<or> 128 \<le> code c"

definition pp_is_ident2 :: "char \<Rightarrow> bool" where
  "pp_is_ident2 c \<longleftrightarrow> pp_is_ident1 c \<or> in_chars CHR ''0'' CHR ''9'' c"

section \<open>Continued lines\<close>

text \<open>The loop: the text kept, the counts stored, and the count still running at the end.\<close>

fun splice_loop :: "string \<Rightarrow> nat \<Rightarrow> string \<times> nat list \<times> nat" where
  "splice_loop [] count = ([], [], count)"
| "splice_loop (c # s) count =
     (if c = BSL \<and> deref s = NL then splice_loop (tl s) (count + 1)
      else if c = NL then (case splice_loop s 1 of (t, cs, n) \<Rightarrow> (c # t, count # cs, n))
      else (case splice_loop s count of (t, cs, n) \<Rightarrow> (c # t, cs, n)))"

definition splice_lines_with_counts :: "string \<Rightarrow> string \<times> nat list" where
  "splice_lines_with_counts input =
     (case splice_loop input 1 of (buf, counts, count) \<Rightarrow>
       (buf, if count > 1 \<or> buf = [] \<or> last buf \<noteq> NL then counts @ [count] else counts))"

section \<open>Comments\<close>

text \<open>From behind the opening of a block comment to behind its end: the blanked text and the rest.\<close>

fun blank_block :: "string \<Rightarrow> string \<times> string" where
  "blank_block [] = ([], [])"
| "blank_block (c # p) =
     (if c = CHR ''*'' \<and> deref p = CHR ''/'' then ('' '' @ '' '', tl p)
      else (case blank_block p of (b, r) \<Rightarrow> ((if c = NL then NL else CHR '' '') # b, r)))"

lemma blank_block_rest: "length (snd (blank_block p)) \<le> length p"
  by (induction p rule: blank_block.induct) (auto split: prod.splits)

function strip_loop :: "bool \<Rightarrow> string \<Rightarrow> string" where
  "strip_loop in_string [] = []"
| "strip_loop in_string (c # p) =
     (if in_string then
        (if c = NL then c # strip_loop False p
         else if c = BSL \<and> p \<noteq> [] then c # hd p # strip_loop True (tl p)
         else if c = DQ then c # strip_loop False p
         else c # strip_loop True p)
      else if c = DQ then c # strip_loop True p
      else if c = CHR ''/'' \<and> deref p = CHR ''/'' then
        replicate (length (takeWhile (\<lambda>x. x \<noteq> NL) (c # p))) CHR '' ''
          @ strip_loop False (dropWhile (\<lambda>x. x \<noteq> NL) (c # p))
      else if c = CHR ''/'' \<and> deref p = CHR ''*'' then
        '' '' @ '' '' @ fst (blank_block (tl p)) @ strip_loop False (snd (blank_block (tl p)))
      else c # strip_loop False p)"
  by pat_completeness auto
termination
  by (relation "measure (\<lambda>(b, p). length p)")
     (auto simp: le_imp_less_Suc length_dropWhile_le intro: order.strict_trans1 [OF blank_block_rest])

definition strip_comments :: "string \<Rightarrow> string" where
  "strip_comments p = strip_loop False p"

section \<open>Trimming, quoting, markers\<close>

definition trim_copy :: "string \<Rightarrow> string" where
  "trim_copy p = rev (dropWhile is_space (rev (dropWhile is_space p)))"

fun quote_body :: "string \<Rightarrow> string" where
  "quote_body [] = []"
| "quote_body (c # s) = (if c = DQ \<or> c = BSL then BSL # c # quote_body s else c # quote_body s)"

definition quote_string :: "string \<Rightarrow> string" where
  "quote_string s = DQ # quote_body s @ [DQ]"

definition BLUE :: char where
  "BLUE = CHR 0x02"

definition strip_bluepaint :: "string \<Rightarrow> string" where
  "strip_bluepaint s = filter (\<lambda>c. c \<noteq> BLUE) s"

definition skip_spaces :: "string \<Rightarrow> string" where
  "skip_spaces p = dropWhile (\<lambda>c. c = CHR '' '' \<or> c = CHR 0x09) p"

text \<open>Output trimmed from the right: \<open>while (sb.len > 0 && isspace(...)) sb.buf[--sb.len] = 0\<close>.\<close>

definition chop_spaces :: "string \<Rightarrow> string" where
  "chop_spaces out = rev (dropWhile is_space (rev out))"

section \<open>Parentheses\<close>

text \<open>The rest of a quoted text behind its closing quote, with \<open>start < end\<close> as the bound.\<close>

fun skip_quoted :: "char \<Rightarrow> string \<Rightarrow> string" where
  "skip_quoted quote [] = []"
| "skip_quoted quote (c # s) =
     (if c = quote then s
      else if c = BSL \<and> s \<noteq> [] then skip_quoted quote (tl s)
      else skip_quoted quote s)"

lemma skip_quoted_length: "length (skip_quoted q s) \<le> length s"
  by (induction q s rule: skip_quoted.induct) auto

function unmatched_loop :: "string \<Rightarrow> int \<Rightarrow> int \<Rightarrow> int \<times> int" where
  "unmatched_loop [] opens closes = (opens, closes)"
| "unmatched_loop (c # s) opens closes =
     (if c = DQ \<or> c = SQ then unmatched_loop (skip_quoted c s) opens closes
      else if c = CHR ''('' then unmatched_loop s (opens + 1) closes
      else if c = CHR '')'' then unmatched_loop s opens (closes + 1)
      else unmatched_loop s opens closes)"
  by pat_completeness auto
termination
  by (relation "measure (\<lambda>(s, a, b). length s)") (auto simp: le_imp_less_Suc skip_quoted_length)

definition count_unmatched_parens :: "string \<Rightarrow> int" where
  "count_unmatched_parens s = (case unmatched_loop s 0 0 of (opens, closes) \<Rightarrow> opens - closes)"

text \<open>The quote state is \<open>None\<close> for the \<open>0\<close> of the code.\<close>

fun preserve_loop :: "string \<Rightarrow> int \<Rightarrow> int \<Rightarrow> char option \<Rightarrow> int \<times> int \<times> char option" where
  "preserve_loop [] opens closes qs = (opens, closes, qs)"
| "preserve_loop (c # s) opens closes qs =
     (case qs of
        Some q \<Rightarrow>
          if c = q then preserve_loop s opens closes None
          else if c = BSL \<and> s \<noteq> [] then preserve_loop (tl s) opens closes qs
          else preserve_loop s opens closes qs
      | None \<Rightarrow>
          if c = DQ \<or> c = SQ then preserve_loop s opens closes (Some c)
          else if c = CHR ''('' then preserve_loop s (opens + 1) closes qs
          else if c = CHR '')'' then preserve_loop s opens (closes + 1) qs
          else preserve_loop s opens closes qs)"

definition count_parens_preserve_quote :: "string \<Rightarrow> char option \<Rightarrow> int \<times> char option" where
  "count_parens_preserve_quote s qs =
     (case preserve_loop s 0 0 qs of (opens, closes, qs') \<Rightarrow> (opens - closes, qs'))"

section \<open>Continued lines: the specification\<close>

text \<open>The logical lines in their physical spelling, and what is left of one without its continuations.\<close>

fun phys_lines :: "string \<Rightarrow> string list" where
  "phys_lines [] = [[]]"
| "phys_lines (c # s) =
     (if c = BSL \<and> deref s = NL then
        (case phys_lines (tl s) of l # ls \<Rightarrow> (c # NL # l) # ls | [] \<Rightarrow> [[c, NL]])
      else if c = NL then [c] # phys_lines s
      else (case phys_lines s of l # ls \<Rightarrow> (c # l) # ls | [] \<Rightarrow> [[c]]))"

fun unspliced :: "string \<Rightarrow> string" where
  "unspliced [] = []"
| "unspliced (c # s) = (if c = BSL \<and> deref s = NL then unspliced (tl s) else c # unspliced s)"

definition newlines :: "string \<Rightarrow> nat" where
  "newlines s = length (filter (\<lambda>c. c = NL) s)"

lemma newlines_simps [simp]:
  "newlines [] = 0"
  "newlines (c # s) = (if c = NL then Suc (newlines s) else newlines s)"
  "newlines (s @ t) = newlines s + newlines t"
  by (simp_all add: newlines_def)

lemma NL_BSL [simp]: "NL \<noteq> BSL" "BSL \<noteq> NL" "NUL \<noteq> NL" "NL \<noteq> NUL" "NUL \<noteq> BSL"
  by (simp_all add: NUL_def)

lemma deref_eqD: "deref s = c \<Longrightarrow> c \<noteq> NUL \<Longrightarrow> \<exists>r. s = c # r"
  by (cases s) auto

lemma phys_lines_not_Nil [simp]: "phys_lines s \<noteq> []"
  by (induction s rule: phys_lines.induct) (auto split: list.splits)

lemma concat_phys_lines: "concat (phys_lines s) = s"
  by (induction s rule: phys_lines.induct) (auto split: list.splits dest: deref_eqD)

lemma deref_phys_lines: "phys_lines s = l # ls \<Longrightarrow> deref l = deref s"
  by (cases s) (auto split: if_splits list.splits)

lemma splice_loop_phys:
  "splice_loop s n = (t, cs, m) \<Longrightarrow>
   t = concat (map unspliced (phys_lines s))
   \<and> cs = (case map newlines (butlast (phys_lines s)) of [] \<Rightarrow> [] | k # ks \<Rightarrow> (k + n - 1) # ks)
   \<and> m = (if length (phys_lines s) = 1 then n else 1) + newlines (last (phys_lines s))"
proof (induction s n arbitrary: t cs m rule: splice_loop.induct)
  case (2 c s n)
  show ?case
  proof (cases "phys_lines s")
    case (Cons l ls)
    note p = this
    show ?thesis
    proof (cases "phys_lines (tl s)")
      case (Cons l' ls')
      show ?thesis using 2 p Cons deref_phys_lines [OF p]
        by (cases "c = BSL \<and> deref s = NL"; cases "c = NL")
           (auto split: prod.splits list.splits if_splits)
    qed simp
  qed simp
qed simp


lemma concat_map_last: "xs \<noteq> [] \<Longrightarrow> concat (map f xs) = concat (map f (butlast xs)) @ f (last xs)"
  by (induction xs) auto

lemma unspliced_phys:
  "(\<forall>l \<in> set (butlast (phys_lines s)). \<exists>b. unspliced l = b @ [NL] \<and> NL \<notin> set b)
   \<and> NL \<notin> set (unspliced (last (phys_lines s)))"
proof (induction s rule: phys_lines.induct)
  case (2 c s)
  show ?case
  proof (cases "phys_lines s")
    case (Cons l ls)
    note p = this
    show ?thesis
    proof (cases "phys_lines (tl s)")
      case (Cons l' ls')
      show ?thesis
      proof (cases "c = BSL \<and> deref s = NL")
        case True
        with 2 p Cons show ?thesis by (cases "ls' = []") auto
      next
        case F: False
        then have u: "c \<noteq> NL \<Longrightarrow> unspliced (c # l) = c # unspliced l" "unspliced [NL] = [NL]"
          using deref_phys_lines [OF p] by auto
        show ?thesis
        proof (cases "c = NL")
          case True
          with 2 p F u show ?thesis by auto
        next
          case False
          then have ps: "phys_lines (c # s) = (c # l) # ls" using F p by auto
          from 2 F False p
          have ih: "(\<forall>k \<in> set (butlast (l # ls)). \<exists>b. unspliced k = b @ [NL] \<and> NL \<notin> set b)
              \<and> NL \<notin> set (unspliced (last (l # ls)))" by auto
          show ?thesis
          proof (cases "ls = []")
            case True
            with ih False u(1) [OF False] show ?thesis by (simp add: ps del: unspliced.simps phys_lines.simps)
          next
            case ls: False
            with ih obtain b where "unspliced l = b @ [NL]" "NL \<notin> set b" by auto
            then have "unspliced (c # l) = (c # b) @ [NL] \<and> NL \<notin> set (c # b)"
              using u(1) [OF False] False by simp
            with ih ls show ?thesis by (auto simp: ps simp del: unspliced.simps phys_lines.simps)
          qed
        qed
      qed
    qed simp
  qed simp
qed simp

lemma unspliced_Nil: "unspliced l = [] \<Longrightarrow> newlines l = 0 \<Longrightarrow> l = []"
  by (cases l) (auto split: if_splits dest: deref_eqD)

lemma last_unspliced_phys:
  assumes "last (phys_lines s) = []" and "s \<noteq> []"
  shows "concat (map unspliced (phys_lines s)) \<noteq> [] \<and> last (concat (map unspliced (phys_lines s))) = NL"
proof -
  have b: "butlast (phys_lines s) \<noteq> []"
  proof
    assume "butlast (phys_lines s) = []"
    then have "phys_lines s = [[]]"
      using assms(1) append_butlast_last_id [OF phys_lines_not_Nil, of s] by simp
    with concat_phys_lines [of s] assms(2) show False by simp
  qed
  then have l: "last (butlast (phys_lines s)) \<in> set (butlast (phys_lines s))" by simp
  with unspliced_phys obtain q where q: "unspliced (last (butlast (phys_lines s))) = q @ [NL]" by blast
  from assms(1) b q show ?thesis
    by (simp add: concat_map_last [of "phys_lines s"] concat_map_last [of "butlast (phys_lines s)"])
qed

lemma length_phys_lines: "length (phys_lines s) \<le> length s + 1"
  by (induction s rule: phys_lines.induct) (auto split: list.splits dest: deref_eqD)

text \<open>
  C38. Joining continued lines loses no line: the input is cut into its logical lines, the text is these
  lines without their backslash-newline pairs, every one but the last ends in its only newline, and the
  count stored for a line is the number of physical lines it was written on, so the preprocessor can tell
  the line number of every line of the joined text. The counts fit the array of \<open>len + 1\<close> entries.
\<close>

theorem splice_lines_exact:
  "splice_lines_with_counts s =
     (concat (map unspliced (phys_lines s)),
      map newlines (butlast (phys_lines s))
        @ (if last (phys_lines s) = [] \<and> s \<noteq> [] then [] else [newlines (last (phys_lines s)) + 1]))
   \<and> concat (phys_lines s) = s
   \<and> (\<forall>l \<in> set (butlast (phys_lines s)). \<exists>b. unspliced l = b @ [NL] \<and> NL \<notin> set b)
   \<and> NL \<notin> set (unspliced (last (phys_lines s)))
   \<and> length (snd (splice_lines_with_counts s)) \<le> length s + 1"
proof -
  obtain t cs m where e: "splice_loop s 1 = (t, cs, m)" by (cases "splice_loop s 1") auto
  let ?L = "phys_lines s" and ?l = "last (phys_lines s)"
  from splice_loop_phys [OF e] have t: "t = concat (map unspliced ?L)"
    and cs: "cs = map newlines (butlast ?L)" and m: "m = 1 + newlines ?l"
    by (auto split: list.splits)
  have c: "(m > 1 \<or> t = [] \<or> last t \<noteq> NL) \<longleftrightarrow> \<not> (?l = [] \<and> s \<noteq> [])"
  proof (cases "?l = []")
    case True
    with last_unspliced_phys [of s] t m show ?thesis by (cases "s = []") auto
  next
    case False
    have split: "t = concat (map unspliced (butlast ?L)) @ unspliced ?l"
      using t by (simp add: concat_map_last [of ?L])
    show ?thesis
    proof (cases "newlines ?l = 0")
      case True
      with False unspliced_Nil have "unspliced ?l \<noteq> []" by blast
      moreover have "NL \<notin> set (unspliced ?l)" using unspliced_phys by blast
      ultimately have "last t \<noteq> NL" using split by (metis last_appendR last_in_set)
      with False show ?thesis by simp
    qed (use False m in simp)
  qed
  from e cs c m t have "splice_lines_with_counts s = (concat (map unspliced ?L),
      map newlines (butlast ?L) @ (if ?l = [] \<and> s \<noteq> [] then [] else [newlines ?l + 1]))"
    by (simp add: splice_lines_with_counts_def)
  moreover from this length_phys_lines [of s] have "length (snd (splice_lines_with_counts s)) \<le> length s + 1"
    by (cases ?L) auto
  ultimately show ?thesis
    using concat_phys_lines [of s] unspliced_phys [of s] by blast
qed

theorem splice_lines_exact_witness:
  "splice_lines_with_counts (''a'' @ [BSL, NL] @ ''b'' @ [NL] @ ''c'') = (''ab'' @ [NL] @ ''c'', [2, 1])"
  using splice_lines_exact [of "''a'' @ [BSL, NL] @ ''b'' @ [NL] @ ''c''"] by simp

section \<open>Comments: the specification\<close>

text \<open>No comment opens outside of a string literal, with the code's reading of string literals.\<close>

fun comment_free :: "bool \<Rightarrow> string \<Rightarrow> bool" where
  "comment_free in_string [] = True"
| "comment_free in_string (c # p) =
     (if in_string then
        (if c = NL then comment_free False p
         else if c = BSL \<and> p \<noteq> [] then comment_free True (tl p)
         else comment_free (c \<noteq> DQ) p)
      else if c = DQ then comment_free True p
      else \<not> (c = CHR ''/'' \<and> (deref p = CHR ''/'' \<or> deref p = CHR ''*'')) \<and> comment_free False p)"

lemma comment_free_fixed: "comment_free b s \<Longrightarrow> strip_loop b s = s"
  by (induction b s rule: comment_free.induct) (auto split: if_splits simp: neq_Nil_conv)

lemma deref_strip_loop: "deref (strip_loop False p) = deref p \<or> deref (strip_loop False p) = CHR '' ''"
  by (cases p) auto

lemma comment_free_blank:
  "\<forall>c \<in> set b. c = CHR '' '' \<or> c = NL \<Longrightarrow> comment_free False (b @ s) = comment_free False s"
  by (induction b) auto

lemma blank_block_blank: "\<forall>c \<in> set (fst (blank_block p)). c = CHR '' '' \<or> c = NL"
  by (induction p rule: blank_block.induct) (auto split: prod.splits)

lemma comment_free_replicate [simp]:
  "comment_free False (replicate n CHR '' '' @ s) = comment_free False s"
  by (rule comment_free_blank) auto

lemma comment_free_block [simp]:
  "comment_free False (fst (blank_block p) @ s) = comment_free False s"
  by (rule comment_free_blank) (rule blank_block_blank)

lemma strip_loop_comment_free: "comment_free b (strip_loop b s)"
proof (induction b s rule: strip_loop.induct)
  case (2 b c p)
  show ?case
  proof (cases b)
    case True
    consider "c = NL" | "c \<noteq> NL" "c = BSL" "p \<noteq> []" | "c \<noteq> NL" "c = BSL" "p = []" | "c \<noteq> NL" "c \<noteq> BSL" by blast
    then show ?thesis
    proof cases
      case 2
      then obtain d r where "p = d # r" by (cases p) auto
      with 2 True "2.IH"(2) show ?thesis by simp
    qed (use True "2.IH" in auto)
  next
    case False
    consider "c = DQ" | "c \<noteq> DQ" "c = CHR ''/''" "deref p = CHR ''/''"
      | "c \<noteq> DQ" "c = CHR ''/''" "deref p = CHR ''*''"
      | "c \<noteq> DQ" "\<not> (c = CHR ''/'' \<and> (deref p = CHR ''/'' \<or> deref p = CHR ''*''))" by blast
    then show ?thesis
    proof cases
      case 2
      with False "2.IH"(6) show ?thesis by simp
    next
      case 3
      with False "2.IH"(7) show ?thesis by simp
    next
      case 4
      then have "comment_free False (strip_loop False p)" using False "2.IH"(8) by blast
      with 4 False deref_strip_loop [of p] show ?thesis by auto
    qed (use False "2.IH"(5) in simp)
  qed
qed simp

section \<open>Comments: the pieces of a text\<close>

text \<open>
  A text is read as characters of code, string literals, string literals cut off by the end of the line or of the
  text, line comments and block comments. The inside of a literal is made of characters and escapes.
\<close>

datatype piece = Code char | Str string | Cut string | Line_comment string | Block_comment string

inductive quoted :: "string \<Rightarrow> bool" where
  empty: "quoted []"
| char: "c \<notin> {NL, BSL, DQ} \<Longrightarrow> quoted b \<Longrightarrow> quoted (c # b)"
| escape: "quoted b \<Longrightarrow> quoted (BSL # c # b)"

fun piece_text :: "piece \<Rightarrow> string" where
  "piece_text (Code c) = [c]"
| "piece_text (Str b) = DQ # b @ [DQ]"
| "piece_text (Cut b) = DQ # b"
| "piece_text (Line_comment b) = ''//'' @ b"
| "piece_text (Block_comment b) = ''/*'' @ b"

definition pieces_text :: "piece list \<Rightarrow> string" where
  "pieces_text ps = concat (map piece_text ps)"

definition at_line_end :: "string \<Rightarrow> bool" where
  "at_line_end r \<longleftrightarrow> r = [] \<or> hd r = NL"

text \<open>A block comment ends with its first star and slash, or it takes the rest of the text.\<close>

definition closed_block :: "string \<Rightarrow> bool" where
  "closed_block b \<longleftrightarrow> suffix ''*/'' b \<and> \<not> sublist ''*/'' (butlast b)"

text \<open>A piece, in front of the text \<open>r\<close>.\<close>

fun piece_ok :: "piece \<Rightarrow> string \<Rightarrow> bool" where
  "piece_ok (Code c) r \<longleftrightarrow> c \<noteq> DQ \<and> \<not> (c = CHR ''/'' \<and> r \<noteq> [] \<and> hd r \<in> {CHR ''/'', CHR ''*''})"
| "piece_ok (Str b) r \<longleftrightarrow> quoted b"
| "piece_ok (Cut b) r \<longleftrightarrow> quoted b \<and> at_line_end r \<or> r = [] \<and> b \<noteq> [] \<and> last b = BSL \<and> quoted (butlast b)"
| "piece_ok (Line_comment b) r \<longleftrightarrow> NL \<notin> set b \<and> at_line_end r"
| "piece_ok (Block_comment b) r \<longleftrightarrow> closed_block b \<or> r = [] \<and> \<not> sublist ''*/'' b"

fun pieces_ok :: "piece list \<Rightarrow> bool" where
  "pieces_ok [] = True"
| "pieces_ok (p # ps) = (piece_ok p (pieces_text ps) \<and> pieces_ok ps)"

definition blank_char :: "char \<Rightarrow> char" where
  "blank_char c = (if c = NL then NL else CHR '' '')"

fun piece_kept :: "piece \<Rightarrow> string" where
  "piece_kept (Line_comment b) = map blank_char (''//'' @ b)"
| "piece_kept (Block_comment b) = map blank_char (''/*'' @ b)"
| "piece_kept p = piece_text p"

lemma pieces_text_simps [simp]: "pieces_text [] = []" "pieces_text (p # ps) = piece_text p @ pieces_text ps"
  by (simp_all add: pieces_text_def)

lemma strip_quoted: "quoted b \<Longrightarrow> strip_loop True (b @ r) = b @ strip_loop True r"
proof (induction rule: quoted.induct)
  case (escape b c)
  then show ?case by simp
qed auto

lemma strip_line_end: "at_line_end r \<Longrightarrow> strip_loop True r = strip_loop False r"
  by (cases r) (auto simp: at_line_end_def)

lemma NL_blank: "blank_char CHR ''/'' = CHR '' ''" "blank_char CHR ''*'' = CHR '' ''"
  by (simp_all add: blank_char_def)

lemma map_blank_line: "NL \<notin> set b \<Longrightarrow> map blank_char b = replicate (length b) CHR '' ''"
  by (induction b) (auto simp: blank_char_def)

lemma sublist_star_slash: "\<not> sublist ''*/'' (c # s) \<Longrightarrow> \<not> sublist ''*/'' s \<and> \<not> (c = CHR ''*'' \<and> deref s = CHR ''/'')"
  by (cases s) (auto simp: sublist_Cons_right NUL_def)

lemma blank_block_open: "\<not> sublist ''*/'' u \<Longrightarrow> blank_block u = (map blank_char u, [])"
proof (induction u)
  case (Cons c u)
  then show ?case using sublist_star_slash [of c u] by (auto simp: blank_char_def)
qed simp

lemma blank_block_closed:
  "\<not> sublist ''*/'' (u @ ''*'') \<Longrightarrow> blank_block (u @ ''*/'' @ r) = (map blank_char (u @ ''*/''), r)"
proof (induction u)
  case Nil
  show ?case by (simp add: blank_char_def)
next
  case (Cons c u)
  then have "\<not> sublist ''*/'' (u @ ''*'')" "\<not> (c = CHR ''*'' \<and> deref (u @ ''*'') = CHR ''/'')"
    using sublist_star_slash [of c "u @ ''*''"] by auto
  moreover have "deref (u @ ''*/'' @ r) = deref (u @ ''*'')" by (cases u) auto
  ultimately show ?case using Cons.IH by (auto simp: blank_char_def)
qed

lemma closed_block_split: "closed_block b \<Longrightarrow> \<exists>u. b = u @ ''*/'' \<and> \<not> sublist ''*/'' (u @ ''*'')"
  by (auto simp: closed_block_def suffix_def butlast_append)

lemma strip_piece: "piece_ok p r \<Longrightarrow> strip_loop False (piece_text p @ r) = piece_kept p @ strip_loop False r"
proof (cases p)
  case (Code c)
  then show "piece_ok p r \<Longrightarrow> ?thesis" by (cases r) (auto simp: NUL_def)
next
  case (Str b)
  then show "piece_ok p r \<Longrightarrow> ?thesis" by (simp add: strip_quoted)
next
  case (Cut b)
  show ?thesis if ok: "piece_ok p r"
  proof (cases "quoted b \<and> at_line_end r")
    case True
    then show ?thesis using Cut strip_quoted [of b r] strip_line_end by simp
  next
    case False
    with ok Cut have r: "r = []" "b \<noteq> []" "last b = BSL" "quoted (butlast b)" by auto
    have b: "butlast b @ [BSL] = b" using append_butlast_last_id [OF r(2)] r(3) by simp
    have "strip_loop True (butlast b @ [BSL]) = butlast b @ [BSL]" using strip_quoted [OF r(4), of "[BSL]"] by simp
    then have "strip_loop True b = b" unfolding b .
    then show ?thesis using Cut r(1) by simp
  qed
next
  case (Line_comment b)
  show ?thesis if ok: "piece_ok p r"
  proof -
    have b: "NL \<notin> set b" "at_line_end r" using ok Line_comment by auto
    have t: "takeWhile (\<lambda>x. x \<noteq> NL) (b @ r) = b" "dropWhile (\<lambda>x. x \<noteq> NL) (b @ r) = r"
      using b by (cases r; auto simp: at_line_end_def takeWhile_append dropWhile_append)+
    show ?thesis using t Line_comment map_blank_line [OF b(1)] by (simp add: NL_blank)
  qed
next
  case (Block_comment b)
  show ?thesis if ok: "piece_ok p r"
  proof (cases "closed_block b")
    case True
    then obtain u where "b = u @ ''*/''" "\<not> sublist ''*/'' (u @ ''*'')" using closed_block_split by blast
    then show ?thesis using Block_comment blank_block_closed [of u r] by (simp add: NL_blank)
  next
    case False
    then show ?thesis using ok Block_comment blank_block_open [of b] by (simp add: NL_blank)
  qed
qed

lemma strip_pieces: "pieces_ok ps \<Longrightarrow> strip_loop False (pieces_text ps) = concat (map piece_kept ps)"
  by (induction ps) (simp_all add: strip_piece)

text \<open>How a string literal may go on behind its quote.\<close>

definition quoted_prefix :: "string \<Rightarrow> bool" where
  "quoted_prefix p \<longleftrightarrow> (\<exists>b t. p = b @ t \<and> quoted b \<and> (t = [BSL] \<or> at_line_end t \<or> hd t = DQ))"

lemma quoted_prefix_here: "t = [BSL] \<or> at_line_end t \<or> hd t = DQ \<Longrightarrow> quoted_prefix t"
  unfolding quoted_prefix_def using quoted.empty by (intro exI [of _ "[]"] exI [of _ t]) simp

lemma quoted_prefix_char: "c \<notin> {NL, BSL, DQ} \<Longrightarrow> quoted_prefix q \<Longrightarrow> quoted_prefix (c # q)"
  unfolding quoted_prefix_def using quoted.char by (metis append_Cons)

lemma quoted_prefix_escape: "quoted_prefix q \<Longrightarrow> quoted_prefix (BSL # c # q)"
  unfolding quoted_prefix_def using quoted.escape by (metis append_Cons)

lemma quoted_prefix_all: "quoted_prefix p"
proof (induction p rule: length_induct)
  case (1 p)
  show ?case
  proof (cases p)
    case Nil
    then show ?thesis by (simp add: quoted_prefix_here at_line_end_def)
  next
    case (Cons c q)
    consider "c = DQ" | "c = NL" | "c = BSL" "q = []" | d s where "c = BSL" "q = d # s" | "c \<notin> {NL, BSL, DQ}"
      by (cases q) auto
    then show ?thesis
    proof cases
      case 4
      with 1 Cons show ?thesis by (simp add: quoted_prefix_escape)
    next
      case 5
      with 1 Cons show ?thesis by (simp add: quoted_prefix_char)
    qed (use Cons in \<open>auto intro!: quoted_prefix_here simp: at_line_end_def\<close>)
  qed
qed

lemma quoted_split:
  "(\<exists>b r. p = b @ DQ # r \<and> quoted b) \<or> (\<exists>b r. p = b @ r \<and> quoted b \<and> at_line_end r) \<or>
   (\<exists>b. p = b @ [BSL] \<and> quoted b)"
proof -
  obtain b t where b: "p = b @ t" "quoted b" "t = [BSL] \<or> at_line_end t \<or> hd t = DQ"
    using quoted_prefix_all [of p] unfolding quoted_prefix_def by blast
  consider "t = [BSL]" | "at_line_end t" | "t \<noteq> []" "hd t = DQ" using b(3) by (cases t) (auto simp: at_line_end_def)
  then show ?thesis
  proof cases
    case 3
    then have "t = DQ # tl t" by (cases t) auto
    with b show ?thesis by metis
  qed (use b in blast)+
qed

lemma block_split: "(\<exists>b r. q = b @ r \<and> closed_block b) \<or> \<not> sublist ''*/'' q"
proof (induction q)
  case (Cons c q)
  show ?case
  proof (cases "c = CHR ''*'' \<and> deref q = CHR ''/''")
    case True
    then obtain r where "q = CHR ''/'' # r" by (cases q) (auto simp: NUL_def)
    then have "c # q = ''*/'' @ r" using True by simp
    moreover have "closed_block ''*/''" by (simp add: closed_block_def sublist_Cons_right)
    ultimately show ?thesis by blast
  next
    case False
    show ?thesis
    proof (cases "\<exists>b r. q = b @ r \<and> closed_block b")
      case True
      then obtain b r u where b: "q = b @ r" "b = u @ ''*/''" "\<not> sublist ''*/'' (u @ ''*'')" "closed_block b"
        using closed_block_split by blast
      have "\<not> sublist ''*/'' (c # u @ ''*'')"
        using b False by (cases u) (auto simp: sublist_Cons_right)
      then have "closed_block (c # b)"
        using b(2) by (auto simp: closed_block_def suffix_def butlast_append)
      then show ?thesis using b(1) by (metis append_Cons)
    next
      case no: False
      then show ?thesis using Cons False by (cases q) (auto simp: sublist_Cons_right)
    qed
  qed
qed simp

lemma pieces_exist: "\<exists>ps. pieces_ok ps \<and> pieces_text ps = s"
proof (induction s rule: length_induct)
  case (1 s)
  have step: ?case if "s = piece_text p @ r" "piece_ok p r" "piece_text p \<noteq> []" for p r
  proof -
    have "length r < length s" using that by simp
    with 1 obtain ps where "pieces_ok ps" "pieces_text ps = r" by blast
    with that show ?thesis by (intro exI [of _ "p # ps"]) simp
  qed
  show ?case
  proof (cases s)
    case Nil
    then show ?thesis by (intro exI [of _ "[]"]) simp
  next
    case (Cons c p)
    consider "c = DQ" | q where "c = CHR ''/''" "p = CHR ''/'' # q" | q where "c = CHR ''/''" "p = CHR ''*'' # q"
      | "c \<noteq> DQ" "\<not> (c = CHR ''/'' \<and> p \<noteq> [] \<and> hd p \<in> {CHR ''/'', CHR ''*''})"
      by (cases p) auto
    then show ?thesis
    proof cases
      case 1
      consider b r where "p = b @ DQ # r" "quoted b" | b r where "p = b @ r" "quoted b" "at_line_end r"
        | b where "p = b @ [BSL]" "quoted b"
        using quoted_split [of p] by blast
      then show ?thesis
      proof cases
        case (1 b r)
        then show ?thesis using Cons \<open>c = DQ\<close> by (intro step [of "Str b" r]) auto
      next
        case (2 b r)
        then show ?thesis using Cons \<open>c = DQ\<close> by (intro step [of "Cut b" r]) auto
      next
        case (3 b)
        then show ?thesis using Cons \<open>c = DQ\<close> by (intro step [of "Cut (b @ [BSL])" "[]"]) auto
      qed
    next
      case (2 q)
      let ?b = "takeWhile (\<lambda>x. x \<noteq> NL) q" and ?r = "dropWhile (\<lambda>x. x \<noteq> NL) q"
      have "at_line_end ?r" using hd_dropWhile [of "\<lambda>x. x \<noteq> NL" q] by (auto simp: at_line_end_def)
      moreover have "NL \<notin> set ?b" by (auto dest: set_takeWhileD)
      ultimately show ?thesis using 2 Cons by (intro step [of "Line_comment ?b" ?r]) auto
    next
      case (3 q)
      consider b r where "q = b @ r" "closed_block b" | "\<not> sublist ''*/'' q" using block_split [of q] by blast
      then show ?thesis
      proof cases
        case (1 b r)
        then show ?thesis using 3 Cons by (intro step [of "Block_comment b" r]) auto
      next
        case 2
        then show ?thesis using 3 Cons by (intro step [of "Block_comment q" "[]"]) auto
      qed
    next
      case 4
      then show ?thesis using Cons by (intro step [of "Code c" p]) auto
    qed
  qed
qed

text \<open>
  C39. Stripping the comments blanks the comments and keeps everything else: every text is a sequence of
  pieces (code, string literals, literals cut off at the end of a line, line comments, block comments, where a
  double quote always opens a literal), and for any such sequence the result is the code and the literals as they
  were, with the comments turned into blanks that keep the newlines in them. Stripping again changes nothing.
\<close>

theorem strip_comments_exact:
  "(\<exists>ps. pieces_ok ps \<and> pieces_text ps = s) \<and>
   (\<forall>ps. pieces_ok ps \<and> pieces_text ps = s \<longrightarrow> strip_comments s = concat (map piece_kept ps)) \<and>
   strip_comments (strip_comments s) = strip_comments s"
proof (intro conjI allI impI)
  show "\<exists>ps. pieces_ok ps \<and> pieces_text ps = s" by (rule pieces_exist)
  show "strip_comments s = concat (map piece_kept ps)" if "pieces_ok ps \<and> pieces_text ps = s" for ps
    using that strip_pieces by (auto simp: strip_comments_def)
  show "strip_comments (strip_comments s) = strip_comments s"
    by (simp add: strip_comments_def comment_free_fixed strip_loop_comment_free)
qed

theorem strip_comments_exact_witness:
  "strip_comments (''a/*b'' @ [NL] @ ''*/'' @ [DQ] @ ''//'' @ [DQ] @ ''//c'') =
     ''a   '' @ [NL] @ ''  '' @ [DQ] @ ''//'' @ [DQ] @ ''   ''"
proof -
  let ?ps = "[Code CHR ''a'', Block_comment (''b'' @ [NL] @ ''*/''), Str ''//'', Line_comment ''c'']"
  have "quoted ''//''" by (auto intro!: quoted.intros)
  then have "pieces_ok ?ps"
    by (simp add: closed_block_def suffix_def at_line_end_def sublist_Cons_right)
  moreover have "pieces_text ?ps = ''a/*b'' @ [NL] @ ''*/'' @ [DQ] @ ''//'' @ [DQ] @ ''//c''" by simp
  moreover have "concat (map piece_kept ?ps) = ''a   '' @ [NL] @ ''  '' @ [DQ] @ ''//'' @ [DQ] @ ''   ''"
    by (simp add: blank_char_def)
  ultimately show ?thesis
    using strip_comments_exact [of "''a/*b'' @ [NL] @ ''*/'' @ [DQ] @ ''//'' @ [DQ] @ ''//c''"] by metis
qed

text \<open>
  Character constants are not recognised: a double quote written as a character constant opens
  a string for \<open>strip_comments\<close>. The comment behind it stays in the text, and of a string literal behind it the inside is read as
  code, so that an URL in it is cut at its two slashes.
\<close>

theorem quote_constant_confuses_comments:
  "strip_comments ([SQ, DQ, SQ] @ ''/*x*/'') = [SQ, DQ, SQ] @ ''/*x*/''
   \<and> strip_comments ([SQ, DQ, SQ] @ '';s='' @ [DQ] @ ''a://b'' @ [DQ] @ '';'')
       = [SQ, DQ, SQ] @ '';s='' @ [DQ] @ ''a:     ''"
  by code_simp

section \<open>Parentheses and quotes\<close>

lemma preserve_loop_quoted:
  "(case preserve_loop s p c (Some q) of (a, b, _) \<Rightarrow> (a, b))
   = (case preserve_loop (skip_quoted q s) p c None of (a, b, _) \<Rightarrow> (a, b))"
  by (induction q s rule: skip_quoted.induct) auto

lemma preserve_loop_unmatched:
  "(case preserve_loop s p c None of (a, b, _) \<Rightarrow> (a, b)) = unmatched_loop s p c"
  by (induction s p c rule: unmatched_loop.induct) (auto simp: preserve_loop_quoted)

lemma preserve_loop_shift_by:
  "preserve_loop s (p + i) (c + j) qs = (case preserve_loop s p c qs of (a, b, qs') \<Rightarrow> (a + i, b + j, qs'))"
proof (induction s p c qs rule: preserve_loop.induct)
  case (2 x s p c qs)
  have e: "p + i + 1 = p + 1 + i" "c + j + 1 = c + 1 + j" by simp_all
  show ?case
    using 2 by (cases qs) (simp_all add: e split: if_splits)
qed simp

lemma preserve_loop_shift:
  "preserve_loop s p c qs = (case preserve_loop s 0 0 qs of (a, b, qs') \<Rightarrow> (a + p, b + c, qs'))"
  using preserve_loop_shift_by [of s 0 p 0 c qs] by simp

text \<open>A text is split between lines only where the first line does not end in a backslash.\<close>

lemma preserve_loop_append:
  "s = [] \<or> last s \<noteq> BSL \<Longrightarrow>
   preserve_loop (s @ t) p c qs = (case preserve_loop s p c qs of (a, b, qs') \<Rightarrow> preserve_loop t a b qs')"
proof (induction s p c qs rule: preserve_loop.induct)
  case (2 x s p c qs)
  show ?case
  proof (cases "s = []")
    case True
    with 2 show ?thesis by (cases qs) auto
  next
    case False
    then obtain d r where s: "s = d # r" by (cases s) auto
    with 2 False show ?thesis by (cases qs) (auto simp: tl_append2 split: if_splits)
  qed
qed simp

text \<open>
  Counting with the quote state kept from line to line agrees with counting in one go: on a single text both counters
  give the same number, and over lines that do not end in a backslash the counts add up and the quote state at the end is
  that of the whole text.
\<close>

theorem paren_counters_agree:
  "fst (count_parens_preserve_quote s None) = count_unmatched_parens s
   \<and> (s = [] \<or> last s \<noteq> BSL \<longrightarrow>
      (case count_parens_preserve_quote s qs of (n, qs') \<Rightarrow>
        case count_parens_preserve_quote t qs' of (m, qs'') \<Rightarrow>
          count_parens_preserve_quote (s @ t) qs = (n + m, qs'')))"
proof -
  have 1: "fst (count_parens_preserve_quote s None) = count_unmatched_parens s"
    using preserve_loop_unmatched [of s 0 0]
    by (auto simp: count_parens_preserve_quote_def count_unmatched_parens_def split: prod.splits)
  obtain a b qs' where l: "preserve_loop s 0 0 qs = (a, b, qs')" by (cases "preserve_loop s 0 0 qs") auto
  obtain a' b' qs'' where r: "preserve_loop t 0 0 qs' = (a', b', qs'')"
    by (cases "preserve_loop t 0 0 qs'") auto
  have "s = [] \<or> last s \<noteq> BSL \<Longrightarrow> preserve_loop (s @ t) 0 0 qs = (a' + a, b' + b, qs'')"
    using preserve_loop_append [of s t 0 0 qs] l r preserve_loop_shift [of t a b qs'] by simp
  with 1 l r show ?thesis by (auto simp: count_parens_preserve_quote_def)
qed

theorem paren_counters_agree_witness:
  "count_parens_preserve_quote (''f(a, '' @ ''b)'') None = (0, None)"
  using paren_counters_agree [where s = "''f(a, ''" and qs = None and t = "''b)''"]
  by (simp add: count_parens_preserve_quote_def)

end
