(* ===== verification/Macros.thy ===== *)
theory Macros
  imports Chains PPText
begin

text \<open>
  The macro table (\<open>src/preprocess.c\<close>): \<open>Macro\<close> objects on a heap, linked through \<open>next\<close> into the
  list \<open>macros\<close> and through \<open>hash_next\<close> into the buckets of \<open>macro_htab\<close>, with the list of the
  command line, the snapshot \<open>saved_macros\<close>, the stack of \<open>push_macro\<close> and the list of files marked
  \<open>#pragma once\<close>. Objects are changed in place and the tails of the lists are shared, as in the
  code. The abstract table is a partial map from names to definitions.
\<close>

section \<open>State\<close>

record macro_def =
  is_function :: bool
  is_variadic :: bool
  is_gnu_variadic :: bool
  params :: "string list"
  body :: string

record macro =
  m_name :: string
  m_next :: "addr option"
  m_hash_next :: "addr option"
  m_hash :: nat
  m_disabled :: bool
  m_def :: macro_def

record pp_state =
  heap :: "addr \<Rightarrow> macro"
  fresh :: addr
  macros :: "addr option"
  macro_htab :: "nat \<Rightarrow> addr option"
  cmdline_macros :: "addr option"
  saved_macros :: "addr option"
  macro_stack :: "(string \<times> macro_def option) list"
  once_files :: "string list"
  pp_counter :: int

definition empty_def :: macro_def where
  "empty_def = \<lparr>is_function = False, is_variadic = False, is_gnu_variadic = False, params = [], body = []\<rparr>"

definition zero_macro :: macro where
  "zero_macro = \<lparr>m_name = [], m_next = None, m_hash_next = None, m_hash = 0, m_disabled = False, m_def = empty_def\<rparr>"

definition pp_start :: pp_state where
  "pp_start = \<lparr>heap = (\<lambda>_. zero_macro), fresh = 0, macros = None, macro_htab = (\<lambda>_. None),
     cmdline_macros = None, saved_macros = None, macro_stack = [], once_files = [], pp_counter = 0\<rparr>"

text \<open>As many nodes as were ever made bound every chain.\<close>

definition chain_fuel :: "pp_state \<Rightarrow> nat" where
  "chain_fuel st = Suc (fresh st)"

definition upd_macro :: "addr \<Rightarrow> (macro \<Rightarrow> macro) \<Rightarrow> pp_state \<Rightarrow> pp_state" where
  "upd_macro a f st = st\<lparr>heap := (heap st)(a := f (heap st a))\<rparr>"

lemma upd_macro_simps [simp]:
  "heap (upd_macro a f st) = (heap st)(a := f (heap st a))"
  "fresh (upd_macro a f st) = fresh st" "macros (upd_macro a f st) = macros st"
  "macro_htab (upd_macro a f st) = macro_htab st" "chain_fuel (upd_macro a f st) = chain_fuel st"
  "macro_stack (upd_macro a f st) = macro_stack st" "once_files (upd_macro a f st) = once_files st"
  by (simp_all add: upd_macro_def chain_fuel_def)

section \<open>The hash table\<close>

definition MACRO_HT_SIZE :: nat where
  "MACRO_HT_SIZE = 2048"

fun macro_hash_loop :: "string \<Rightarrow> 32 word \<Rightarrow> 32 word" where
  "macro_hash_loop [] h = h"
| "macro_hash_loop (c # name) h = macro_hash_loop name ((h XOR of_char c) * 16777619)"

definition macro_hash :: "string \<Rightarrow> nat" where
  "macro_hash name = unat (macro_hash_loop name 2166136261 AND (of_nat MACRO_HT_SIZE - 1))"

definition macro_ht_add :: "addr \<Rightarrow> pp_state \<Rightarrow> pp_state" where
  "macro_ht_add a st =
     (let h = macro_hash (m_name (heap st a)) in
      (upd_macro a (\<lambda>m. m\<lparr>m_hash := h, m_hash_next := macro_htab st h\<rparr>) st)
        \<lparr>macro_htab := (macro_htab st)(h := Some a)\<rparr>)"

definition macro_ht_remove :: "string \<Rightarrow> pp_state \<Rightarrow> pp_state res" where
  "macro_ht_remove name st =
     (let h = macro_hash name;
          nx = (\<lambda>a. m_hash_next (heap st a)) in
      rbind (find_link nx (\<lambda>a. m_name (heap st a) = name) (chain_fuel st) None (macro_htab st h)) (\<lambda>r.
        Done (case r of
            None \<Rightarrow> st
          | Some (None, a) \<Rightarrow> st\<lparr>macro_htab := (macro_htab st)(h := nx a)\<rparr>
          | Some (Some b, a) \<Rightarrow> upd_macro b (\<lambda>m. m\<lparr>m_hash_next := nx a\<rparr>) st)))"

definition find_macro :: "pp_state \<Rightarrow> string \<Rightarrow> addr option res" where
  "find_macro st name =
     (let h = macro_hash name in
      find_chain (\<lambda>a. m_hash_next (heap st a))
        (\<lambda>a. m_hash (heap st a) = h \<and> m_name (heap st a) = name) (chain_fuel st) (macro_htab st h))"

text \<open>The loop that takes the first macro of a name out of \<open>macros\<close>.\<close>

definition macro_list_remove :: "string \<Rightarrow> pp_state \<Rightarrow> pp_state res" where
  "macro_list_remove name st =
     (let nx = (\<lambda>a. m_next (heap st a)) in
      rbind (find_link nx (\<lambda>a. m_name (heap st a) = name) (chain_fuel st) None (macros st)) (\<lambda>r.
        Done (case r of
            None \<Rightarrow> st
          | Some (None, a) \<Rightarrow> st\<lparr>macros := nx a\<rparr>
          | Some (Some b, a) \<Rightarrow> upd_macro b (\<lambda>m. m\<lparr>m_next := nx a\<rparr>) st)))"

section \<open>Definitions and their removal\<close>

definition new_macro :: "string \<Rightarrow> pp_state \<Rightarrow> pp_state" where
  "new_macro name st =
     (let a = fresh st;
          st1 = st\<lparr>heap := (heap st)(a := zero_macro\<lparr>m_name := name, m_next := macros st\<rparr>),
                   fresh := Suc a, macros := Some a\<rparr>
      in macro_ht_add a st1)"

definition define_macro :: "string \<Rightarrow> bool \<Rightarrow> string list \<Rightarrow> string \<Rightarrow> pp_state \<Rightarrow> pp_state res" where
  "define_macro name is_fun pars bdy st =
     rbind (find_macro st name) (\<lambda>r.
       let (a, st1) = (case r of Some a \<Rightarrow> (a, st) | None \<Rightarrow> (fresh st, new_macro name st)) in
       Done (upd_macro a (\<lambda>m. m\<lparr>m_name := name,
          m_def := \<lparr>is_function = is_fun, is_variadic = False, is_gnu_variadic = False,
                    params = pars, body = bdy\<rparr>\<rparr>) st1))"

text \<open>What \<open>#define\<close> does for a variadic macro after \<open>define_macro\<close>.\<close>

definition set_variadic :: "string \<Rightarrow> bool \<Rightarrow> pp_state \<Rightarrow> pp_state res" where
  "set_variadic name gnu st =
     rbind (find_macro st name) (\<lambda>r.
       Done (case r of None \<Rightarrow> st
         | Some a \<Rightarrow> upd_macro a (\<lambda>m. m\<lparr>m_def := (m_def m)\<lparr>is_variadic := True, is_gnu_variadic := gnu\<rparr>\<rparr>) st))"

text \<open>\<open>#undef\<close>.\<close>

definition undef_macro :: "string \<Rightarrow> pp_state \<Rightarrow> pp_state res" where
  "undef_macro name st = rbind (macro_ht_remove name st) (macro_list_remove name)"

section \<open>push_macro and pop_macro\<close>

definition push_macro :: "string \<Rightarrow> pp_state \<Rightarrow> pp_state res" where
  "push_macro name st =
     rbind (find_macro st name) (\<lambda>r.
       Done (st\<lparr>macro_stack := (name, map_option (\<lambda>a. m_def (heap st a)) r) # macro_stack st\<rparr>))"

fun take_entry :: "string \<Rightarrow> (string \<times> 'd) list \<Rightarrow> ('d \<times> (string \<times> 'd) list) option" where
  "take_entry name [] = None"
| "take_entry name ((n, d) # es) =
     (if n = name then Some (d, es) else map_option (\<lambda>(x, r). (x, (n, d) # r)) (take_entry name es))"

definition pop_macro :: "string \<Rightarrow> pp_state \<Rightarrow> pp_state res" where
  "pop_macro name st =
     (case take_entry name (macro_stack st) of
        None \<Rightarrow> Done st
      | Some (ms, rest) \<Rightarrow>
         (let st = st\<lparr>macro_stack := rest\<rparr> in
          case ms of
            None \<Rightarrow> rbind (macro_ht_remove name st) (macro_list_remove name)
          | Some d \<Rightarrow>
              rbind (find_macro st name) (\<lambda>r.
                let (a, st1) = (case r of Some a \<Rightarrow> (a, st) | None \<Rightarrow> (fresh st, new_macro name st)) in
                Done (upd_macro a (\<lambda>m. m\<lparr>m_def := d\<rparr>) st1))))"

section \<open>The command line and the start of a file\<close>

definition split_define :: "string \<Rightarrow> string \<times> string" where
  "split_define def =
     (if CHR ''='' \<in> set def
      then (takeWhile (\<lambda>c. c \<noteq> CHR ''='') def, tl (dropWhile (\<lambda>c. c \<noteq> CHR ''='') def))
      else (def, ''1''))"

definition add_define :: "string \<Rightarrow> pp_state \<Rightarrow> pp_state" where
  "add_define def st =
     (let (name, bdy) = split_define def; a = fresh st in
      st\<lparr>heap := (heap st)(a := zero_macro\<lparr>m_name := name, m_next := cmdline_macros st, m_def := empty_def\<lparr>body := bdy\<rparr>\<rparr>),
         fresh := Suc a, cmdline_macros := Some a\<rparr>)"

definition add_undef :: "string \<Rightarrow> pp_state \<Rightarrow> pp_state res" where
  "add_undef name st = rbind (macro_ht_remove name st) (macro_list_remove name)"

fun rehash :: "nat \<Rightarrow> addr option \<Rightarrow> pp_state \<Rightarrow> pp_state res" where
  "rehash 0 p st = Fuel"
| "rehash (Suc k) None st = Done st"
| "rehash (Suc k) (Some a) st = (let st' = macro_ht_add a st in rehash k (m_next (heap st' a)) st')"

definition clear_macros :: "pp_state \<Rightarrow> pp_state res" where
  "clear_macros st =
     (let st1 = st\<lparr>macros := (if saved_macros st \<noteq> None then saved_macros st else cmdline_macros st),
                   macro_stack := [], macro_htab := (\<lambda>_. None)\<rparr>
      in rehash (chain_fuel st1) (macros st1) st1)"

section \<open>Files marked once\<close>

definition is_once_file :: "string \<Rightarrow> pp_state \<Rightarrow> bool" where
  "is_once_file path st = (path \<in> set (once_files st))"

definition mark_once_file :: "string \<Rightarrow> pp_state \<Rightarrow> pp_state" where
  "mark_once_file path st = (if is_once_file path st then st else st\<lparr>once_files := path # once_files st\<rparr>)"

section \<open>The representation\<close>

text \<open>
  \<open>ml\<close> is the list \<open>macros\<close> spells, \<open>hl h\<close> the chain of bucket \<open>h\<close>. In a table made by definitions and removals both hold the
  same objects, one per name.
\<close>

definition table_rep :: "pp_state \<Rightarrow> addr list \<Rightarrow> (nat \<Rightarrow> addr list) \<Rightarrow> bool" where
  "table_rep st ml hl \<longleftrightarrow>
     Chain (\<lambda>a. m_next (heap st a)) (macros st) ml \<and> distinct ml \<and> (\<forall>a \<in> set ml. a < fresh st)
     \<and> distinct (map (\<lambda>a. m_name (heap st a)) ml)
     \<and> (\<forall>h. Chain (\<lambda>a. m_hash_next (heap st a)) (macro_htab st h) (hl h) \<and> distinct (hl h)
          \<and> set (hl h) = {a \<in> set ml. macro_hash (m_name (heap st a)) = h})
     \<and> (\<forall>a \<in> set ml. m_hash (heap st a) = macro_hash (m_name (heap st a)))"

definition table_ok :: "pp_state \<Rightarrow> bool" where
  "table_ok st \<longleftrightarrow> (\<exists>ml hl. table_rep st ml hl)"

text \<open>The abstract table: what a lookup of a name returns.\<close>

definition macro_map :: "pp_state \<Rightarrow> string \<Rightarrow> macro_def option" where
  "macro_map st name = (case find_macro st name of Done (Some a) \<Rightarrow> Some (m_def (heap st a)) | _ \<Rightarrow> None)"

lemma table_repD:
  assumes "table_rep st ml hl"
  shows "Chain (\<lambda>a. m_next (heap st a)) (macros st) ml" "distinct ml" "a \<in> set ml \<Longrightarrow> a < fresh st"
    "distinct (map (\<lambda>a. m_name (heap st a)) ml)"
    "Chain (\<lambda>a. m_hash_next (heap st a)) (macro_htab st h) (hl h)" "distinct (hl h)"
    "set (hl h) = {a \<in> set ml. macro_hash (m_name (heap st a)) = h}"
    "a \<in> set ml \<Longrightarrow> m_hash (heap st a) = macro_hash (m_name (heap st a))"
  using assms unfolding table_rep_def by simp_all

lemma table_rep_distinct_names:
  "table_rep st ml hl \<Longrightarrow> a \<in> set ml \<Longrightarrow> b \<in> set ml \<Longrightarrow> m_name (heap st a) = m_name (heap st b) \<Longrightarrow> a = b"
  using table_repD(4) [of st ml hl] by (auto simp: distinct_map dest: inj_onD)

lemma table_rep_fuel:
  assumes "table_rep st ml hl"
  shows "length ml < chain_fuel st" "length (hl h) < chain_fuel st"
proof -
  show "length ml < chain_fuel st" unfolding chain_fuel_def
    by (rule length_distinct_less [OF table_repD(2) [OF assms] table_repD(3) [OF assms]])
  show "length (hl h) < chain_fuel st" unfolding chain_fuel_def
  proof (rule length_distinct_less [OF table_repD(6) [OF assms]])
    fix a assume "a \<in> set (hl h)"
    then have "a \<in> set ml" unfolding table_repD(7) [OF assms] by blast
    then show "a < fresh st" by (rule table_repD(3) [OF assms])
  qed
qed

lemma find_unique_if: "\<forall>b \<in> set xs. b \<noteq> a \<longrightarrow> \<not> P b \<Longrightarrow> a \<in> set xs \<Longrightarrow> P a \<Longrightarrow> find P xs = Some a"
  by (induction xs) auto

lemma find_the_macro:
  assumes "\<And>b. b \<in> set xs \<Longrightarrow> P b \<Longrightarrow> b = a" and "a \<in> set xs" and "P a"
  shows "find P xs = Some a"
proof (rule find_unique_if)
  show "\<forall>b \<in> set xs. b \<noteq> a \<longrightarrow> \<not> P b" using assms(1) by blast
qed (fact assms(2,3))+

lemma find_macro_rep:
  assumes "table_rep st ml hl"
  shows "find_macro st name = Done (find (\<lambda>a. m_name (heap st a) = name) ml)"
proof -
  let ?h = "macro_hash name"
  let ?P = "\<lambda>a. m_hash (heap st a) = ?h \<and> m_name (heap st a) = name"
  have "find_macro st name = Done (find ?P (hl ?h))"
    unfolding find_macro_def Let_def
    by (rule find_chain_Chain [OF table_repD(5) [OF assms] table_rep_fuel(2) [OF assms]])
  also have "find ?P (hl ?h) = find (\<lambda>a. m_name (heap st a) = name) ml"
  proof (cases "find (\<lambda>a. m_name (heap st a) = name) ml")
    case None
    then have "\<forall>a \<in> set ml. m_name (heap st a) \<noteq> name" by (simp add: find_None_iff)
    then have "find ?P (hl ?h) = None"
      by (simp add: find_None_iff table_repD(7) [OF assms])
    with None show ?thesis by simp
  next
    case (Some a)
    then have a: "a \<in> set ml" "m_name (heap st a) = name" by (auto simp: find_Some_iff)
    then have "find ?P (hl ?h) = Some a"
      using assms table_rep_distinct_names [OF assms] by (intro find_the_macro) (simp_all add: table_repD(7,8) [OF assms])
    with Some show ?thesis by simp
  qed
  finally show ?thesis .
qed

lemma macro_map_rep:
  assumes "table_rep st ml hl"
  shows "macro_map st name = map_option (\<lambda>a. m_def (heap st a)) (find (\<lambda>a. m_name (heap st a) = name) ml)"
  by (simp add: macro_map_def find_macro_rep [OF assms] split: option.splits)

text \<open>A change of an object that keeps its links and its name keeps the lists.\<close>

lemma table_rep_upd:
  assumes "table_rep st ml hl"
    and "m_name (f (heap st a)) = m_name (heap st a)" "m_next (f (heap st a)) = m_next (heap st a)"
      "m_hash_next (f (heap st a)) = m_hash_next (heap st a)" "m_hash (f (heap st a)) = m_hash (heap st a)"
  shows "table_rep (upd_macro a f st) ml hl"
proof -
  have e: "m_name (((heap st)(a := f (heap st a))) b) = m_name (heap st b)"
    "m_next (((heap st)(a := f (heap st a))) b) = m_next (heap st b)"
    "m_hash_next (((heap st)(a := f (heap st a))) b) = m_hash_next (heap st b)"
    "m_hash (((heap st)(a := f (heap st a))) b) = m_hash (heap st b)" for b
    using assms by auto
  from assms(1) show ?thesis
    by (simp add: table_rep_def e del: fun_upd_apply)
qed

lemma macro_map_upd:
  assumes "table_rep st ml hl" and "a \<in> set ml"
    and "m_name (f (heap st a)) = m_name (heap st a)" "m_next (f (heap st a)) = m_next (heap st a)"
      "m_hash_next (f (heap st a)) = m_hash_next (heap st a)" "m_hash (f (heap st a)) = m_hash (heap st a)"
  shows "macro_map (upd_macro a f st) = (macro_map st)(m_name (heap st a) \<mapsto> m_def (f (heap st a)))"
proof
  fix n
  have e: "m_name (((heap st)(a := f (heap st a))) b) = m_name (heap st b)" for b using assms by auto
  have fa: "find (\<lambda>b. m_name (heap st b) = m_name (heap st a)) ml = Some a"
    using assms(2) table_rep_distinct_names [OF assms(1)] by (intro find_the_macro) auto
  note r = macro_map_rep [OF table_rep_upd [OF assms(1), where f = f and a = a, OF assms(3-6)]]
  show "macro_map (upd_macro a f st) n = ((macro_map st)(m_name (heap st a) \<mapsto> m_def (f (heap st a)))) n"
  proof (cases "n = m_name (heap st a)")
    case True
    then show ?thesis by (simp add: r e fa del: fun_upd_apply) (simp add: fun_upd_apply)
  next
    case False
    then have "find (\<lambda>b. m_name (heap st b) = n) ml = Some b \<Longrightarrow> b \<noteq> a" for b
      by (auto simp: find_Some_iff)
    then have "macro_map (upd_macro a f st) n = macro_map st n"
      unfolding r macro_map_rep [OF assms(1)] upd_macro_simps e
      by (cases "find (\<lambda>b. m_name (heap st b) = n) ml") auto
    with False show ?thesis by simp
  qed
qed


section \<open>New objects\<close>

lemma macro_ht_add_simps [simp]:
  "macros (macro_ht_add a st) = macros st" "fresh (macro_ht_add a st) = fresh st"
  "macro_stack (macro_ht_add a st) = macro_stack st" "once_files (macro_ht_add a st) = once_files st"
  by (simp_all add: macro_ht_add_def Let_def)

lemma table_repI:
  assumes "Chain (\<lambda>a. m_next (heap st a)) (macros st) ml" "distinct ml" "\<And>a. a \<in> set ml \<Longrightarrow> a < fresh st"
    "distinct (map (\<lambda>a. m_name (heap st a)) ml)"
    "\<And>h. Chain (\<lambda>a. m_hash_next (heap st a)) (macro_htab st h) (hl h)" "\<And>h. distinct (hl h)"
    "\<And>h. set (hl h) = {a \<in> set ml. macro_hash (m_name (heap st a)) = h}"
    "\<And>a. a \<in> set ml \<Longrightarrow> m_hash (heap st a) = macro_hash (m_name (heap st a))"
  shows "table_rep st ml hl"
  using assms unfolding table_rep_def by simp

lemma Collect_insert: "{b \<in> set (a # xs). P b} = (if P a then insert a {b \<in> set xs. P b} else {b \<in> set xs. P b})"
  by auto

lemma new_macro_rep:
  assumes "table_rep st ml hl" and "\<And>a. a \<in> set ml \<Longrightarrow> m_name (heap st a) \<noteq> name"
  shows "table_rep (new_macro name st) (fresh st # ml) (hl(macro_hash name := fresh st # hl (macro_hash name)))"
    and "\<And>b. b \<noteq> fresh st \<Longrightarrow> heap (new_macro name st) b = heap st b"
    and "m_name (heap (new_macro name st) (fresh st)) = name" "m_def (heap (new_macro name st) (fresh st)) = empty_def"
proof -
  let ?a = "fresh st" and ?h = "macro_hash name" and ?s = "new_macro name st"
  have hp: "heap ?s = (heap st)(?a := zero_macro\<lparr>m_name := name, m_next := macros st, m_hash := ?h, m_hash_next := macro_htab st ?h\<rparr>)"
    and ht: "macro_htab ?s = (macro_htab st)(?h := Some ?a)" and ms: "macros ?s = Some ?a" and fr: "fresh ?s = Suc ?a"
    by (simp_all add: new_macro_def macro_ht_add_def Let_def upd_macro_def zero_macro_def)
  show "\<And>b. b \<noteq> ?a \<Longrightarrow> heap ?s b = heap st b" by (simp add: hp)
  show "m_name (heap ?s ?a) = name" "m_def (heap ?s ?a) = empty_def" by (simp_all add: hp zero_macro_def)
  have new: "?a \<notin> set ml" using table_repD(3) [OF assms(1)] by blast
  then have newh: "?a \<notin> set (hl h)" for h by (simp add: table_repD(7) [OF assms(1)])
  have old: "b \<in> set ml \<Longrightarrow> heap ?s b = heap st b" for b using new by (auto simp: hp)
  have oldh: "b \<in> set (hl h) \<Longrightarrow> heap ?s b = heap st b" for b h using newh by (auto simp: hp)
  show "table_rep ?s (?a # ml) (hl(?h := ?a # hl ?h))"
  proof (rule table_repI)
    have "Chain (\<lambda>b. m_next (heap ?s b)) (macros st) ml \<longleftrightarrow> Chain (\<lambda>b. m_next (heap st b)) (macros st) ml"
      by (rule Chain_cong) (simp add: old)
    then show "Chain (\<lambda>b. m_next (heap ?s b)) (macros ?s) (?a # ml)"
      using table_repD(1) [OF assms(1)] by (simp add: ms hp)
    show "distinct (?a # ml)" using new table_repD(2) [OF assms(1)] by simp
    show "b < fresh ?s" if "b \<in> set (?a # ml)" for b
      using that table_repD(3) [OF assms(1), of b] by (auto simp: fr)
    have e: "map (\<lambda>b. m_name (heap ?s b)) ml = map (\<lambda>b. m_name (heap st b)) ml" by (simp add: old)
    have n: "m_name (heap ?s ?a) = name" by (simp add: hp)
    show "distinct (map (\<lambda>b. m_name (heap ?s b)) (?a # ml))"
      unfolding list.map(2) e n using table_repD(4) [OF assms(1)] assms(2) by auto
    show "Chain (\<lambda>b. m_hash_next (heap ?s b)) (macro_htab ?s h) ((hl(?h := ?a # hl ?h)) h)" for h
    proof -
      have e: "Chain (\<lambda>b. m_hash_next (heap ?s b)) q (hl h) \<longleftrightarrow> Chain (\<lambda>b. m_hash_next (heap st b)) q (hl h)" for q
        by (rule Chain_cong) (simp add: oldh)
      have "m_hash_next (heap ?s ?a) = macro_htab st ?h" by (simp add: hp)
      with table_repD(5) [OF assms(1), of h] e [of "macro_htab st h"] show ?thesis
        by (cases "h = ?h") (auto simp add: ht)
    qed
    show "distinct ((hl(?h := ?a # hl ?h)) h)" for h
      using table_repD(6) [OF assms(1)] newh by simp
    show "set ((hl(?h := ?a # hl ?h)) h) = {b \<in> set (?a # ml). macro_hash (m_name (heap ?s b)) = h}" for h
    proof -
      have "{b \<in> set ml. macro_hash (m_name (heap ?s b)) = h} = set (hl h)"
        using old by (auto simp: table_repD(7) [OF assms(1)])
      moreover have "m_name (heap ?s ?a) = name" by (simp add: hp)
      ultimately show ?thesis unfolding Collect_insert
        by (cases "h = ?h") simp_all
    qed
    show "m_hash (heap ?s b) = macro_hash (m_name (heap ?s b))" if "b \<in> set (?a # ml)" for b
      using that table_repD(8) [OF assms(1), of b] old [of b] by (auto simp: hp)
  qed
qed


section \<open>Removal\<close>

text \<open>What a removal leaves alone.\<close>

definition same_objects :: "pp_state \<Rightarrow> pp_state \<Rightarrow> bool" where
  "same_objects st st' \<longleftrightarrow> fresh st' = fresh st \<and> macro_stack st' = macro_stack st \<and> once_files st' = once_files st
     \<and> (\<forall>b. m_name (heap st' b) = m_name (heap st b) \<and> m_def (heap st' b) = m_def (heap st b)
          \<and> m_hash (heap st' b) = m_hash (heap st b) \<and> m_disabled (heap st' b) = m_disabled (heap st b))"

lemma same_objects_refl [simp]: "same_objects st st"
  by (simp add: same_objects_def)

lemma same_objects_trans: "same_objects st st' \<Longrightarrow> same_objects st' st'' \<Longrightarrow> same_objects st st''"
  by (simp add: same_objects_def)

lemma macro_ht_remove_some:
  assumes rep: "table_rep st ml hl" and a: "a \<in> set ml" "m_name (heap st a) = name"
  shows "\<exists>st' us vs. macro_ht_remove name st = Done st' \<and> same_objects st st' \<and> macros st' = macros st
    \<and> (\<forall>b. m_next (heap st' b) = m_next (heap st b)) \<and> hl (macro_hash name) = us @ a # vs
    \<and> (\<forall>h. Chain (\<lambda>b. m_hash_next (heap st' b)) (macro_htab st' h) ((hl(macro_hash name := us @ vs)) h))"
proof -
  let ?h = "macro_hash name" and ?nx = "\<lambda>b. m_hash_next (heap st b)"
  have "a \<in> set (hl ?h)" using a by (simp add: table_repD(7) [OF rep])
  then obtain us vs where split: "hl ?h = us @ a # vs" by (meson split_list)
  have dist: "distinct (us @ a # vs)" using table_repD(6) [OF rep, of ?h] split by simp
  have us: "u \<in> set us \<Longrightarrow> m_name (heap st u) \<noteq> name" for u
  proof
    assume "u \<in> set us" "m_name (heap st u) = name"
    then have "u \<in> set ml" using table_repD(7) [OF rep, of ?h] split by auto
    then have "u = a" using table_rep_distinct_names [OF rep _ a(1)] a(2) \<open>m_name (heap st u) = name\<close> by simp
    then show False using \<open>u \<in> set us\<close> dist by simp
  qed
  have ch: "Chain ?nx (macro_htab st ?h) (us @ a # vs)" using table_repD(5) [OF rep, of ?h] split by simp
  have len: "length (us @ a # vs) < chain_fuel st" using table_rep_fuel(2) [OF rep, of ?h] split by simp
  have link: "find_link ?nx (\<lambda>b. m_name (heap st b) = name) (chain_fuel st) None (macro_htab st ?h)
      = Done (Some (if us = [] then None else Some (last us), a))"
    by (rule find_link_some [OF ch len]) (use us a in auto)
  show ?thesis
  proof (cases "us = []")
    case True
    let ?s = "st\<lparr>macro_htab := (macro_htab st)(?h := ?nx a)\<rparr>"
    have "macro_ht_remove name st = Done ?s" using link True by (simp add: macro_ht_remove_def Let_def)
    moreover have "Chain (\<lambda>b. m_hash_next (heap ?s b)) (macro_htab ?s h) ((hl(?h := us @ vs)) h)" for h
      using ch True table_repD(5) [OF rep, of h] by simp
    ultimately show ?thesis using split by (intro exI [of _ ?s] exI [of _ us] exI [of _ vs]) (simp add: same_objects_def)
  next
    case False
    let ?s = "upd_macro (last us) (\<lambda>m. m\<lparr>m_hash_next := ?nx a\<rparr>) st"
    have nx: "(\<lambda>b. m_hash_next (heap ?s b)) = ?nx(last us := ?nx a)" by (auto simp: fun_eq_iff)
    have "macro_ht_remove name st = Done ?s" using link False by (simp add: macro_ht_remove_def Let_def)
    moreover have "Chain (\<lambda>b. m_hash_next (heap ?s b)) (macro_htab ?s h) ((hl(?h := us @ vs)) h)" for h
    proof (cases "h = ?h")
      case True
      with Chain_unlink [OF ch False dist] show ?thesis by (simp add: nx del: fun_upd_apply upd_macro_simps(1)) simp
    next
      case neq: False
      have "last us \<in> set (hl ?h)" using split False by simp
      then have "last us \<notin> set (hl h)" using neq by (auto simp: table_repD(7) [OF rep])
      then have "Chain (?nx(last us := ?nx a)) (macro_htab st h) (hl h)"
        using Chain_upd [of "last us" "hl h" ?nx "?nx a"] table_repD(5) [OF rep, of h] by blast
      with neq show ?thesis unfolding nx by (simp add: fun_upd_other del: fun_upd_apply)
    qed
    moreover have "same_objects st ?s" "\<forall>b. m_next (heap ?s b) = m_next (heap st b)" "macros ?s = macros st"
      by (simp_all add: same_objects_def)
    ultimately show ?thesis using split by blast
  qed
qed

lemma macro_list_remove_some:
  assumes ch: "Chain (\<lambda>b. m_next (heap st b)) (macros st) ml" and dist: "distinct ml" and len: "length ml < chain_fuel st"
    and names: "distinct (map (\<lambda>b. m_name (heap st b)) ml)" and a: "a \<in> set ml" "m_name (heap st a) = name"
  shows "\<exists>st' us vs. macro_list_remove name st = Done st' \<and> same_objects st st' \<and> macro_htab st' = macro_htab st
    \<and> (\<forall>b. m_hash_next (heap st' b) = m_hash_next (heap st b)) \<and> ml = us @ a # vs
    \<and> Chain (\<lambda>b. m_next (heap st' b)) (macros st') (us @ vs)"
proof -
  let ?nx = "\<lambda>b. m_next (heap st b)"
  obtain us vs where split: "ml = us @ a # vs" using a(1) by (meson split_list)
  have us: "u \<in> set us \<Longrightarrow> m_name (heap st u) \<noteq> name" for u
  proof -
    assume u: "u \<in> set us"
    have "m_name (heap st a) \<notin> (\<lambda>b. m_name (heap st b)) ` set us" using names unfolding split by simp
    with u a(2) show "m_name (heap st u) \<noteq> name" by (metis imageI)
  qed
  have link: "find_link ?nx (\<lambda>b. m_name (heap st b) = name) (chain_fuel st) None (macros st)
      = Done (Some (if us = [] then None else Some (last us), a))"
    by (rule find_link_some) (use ch len us a split in auto)
  show ?thesis
  proof (cases "us = []")
    case True
    with link ch split show ?thesis
      by (intro exI [of _ "st\<lparr>macros := ?nx a\<rparr>"] exI [of _ us] exI [of _ vs])
         (simp add: macro_list_remove_def Let_def same_objects_def)
  next
    case False
    let ?s = "upd_macro (last us) (\<lambda>m. m\<lparr>m_next := ?nx a\<rparr>) st"
    have nx: "(\<lambda>b. m_next (heap ?s b)) = ?nx(last us := ?nx a)" by (auto simp: fun_eq_iff)
    have "macro_list_remove name st = Done ?s" using link False by (simp add: macro_list_remove_def Let_def)
    moreover have "Chain (\<lambda>b. m_next (heap ?s b)) (macros ?s) (us @ vs)"
      unfolding nx using Chain_unlink [of ?nx "macros st" us a vs] ch dist split False by (simp del: fun_upd_apply)
    moreover have "same_objects st ?s" "\<forall>b. m_hash_next (heap ?s b) = m_hash_next (heap st b)" "macro_htab ?s = macro_htab st"
      by (simp_all add: same_objects_def)
    ultimately show ?thesis using split by blast
  qed
qed


lemma macro_remove_none:
  assumes rep: "table_rep st ml hl" and no: "\<And>a. a \<in> set ml \<Longrightarrow> m_name (heap st a) \<noteq> name"
  shows "macro_ht_remove name st = Done st" and "macro_list_remove name st = Done st"
proof -
  have "find_link (\<lambda>a. m_hash_next (heap st a)) (\<lambda>a. m_name (heap st a) = name) (chain_fuel st) None
      (macro_htab st (macro_hash name)) = Done None"
    by (rule find_link_none [OF table_repD(5) [OF rep] table_rep_fuel(2) [OF rep]])
       (use no in \<open>simp add: table_repD(7) [OF rep]\<close>)
  then show "macro_ht_remove name st = Done st" by (simp add: macro_ht_remove_def Let_def)
  have "find_link (\<lambda>a. m_next (heap st a)) (\<lambda>a. m_name (heap st a) = name) (chain_fuel st) None (macros st) = Done None"
    by (rule find_link_none [OF table_repD(1) [OF rep] table_rep_fuel(1) [OF rep]]) (use no in simp)
  then show "macro_list_remove name st = Done st" by (simp add: macro_list_remove_def Let_def)
qed

lemma same_objects_map:
  assumes "same_objects st st'" and "table_rep st ml hl" and "table_rep st' ml' hl'" and "m_name (heap st a) = name"
    and "ml = us @ a # vs" and "ml' = us @ vs"
  shows "macro_map st' = (macro_map st)(name := None)"
proof
  fix n
  have e: "m_name (heap st' b) = m_name (heap st b)" "m_def (heap st' b) = m_def (heap st b)" for b
    using assms(1) by (simp_all add: same_objects_def)
  have no: "\<forall>b \<in> set (us @ vs). m_name (heap st b) \<noteq> name"
  proof
    fix b assume b: "b \<in> set (us @ vs)"
    then have "b \<noteq> a" "b \<in> set ml" using table_repD(2) [OF assms(2)] assms(5) by auto
    with table_rep_distinct_names [OF assms(2), of b a] assms(4,5) show "m_name (heap st b) \<noteq> name" by auto
  qed
  show "macro_map st' n = ((macro_map st)(name := None)) n"
  proof (cases "n = name")
    case True
    have "find (\<lambda>b. m_name (heap st b) = name) (us @ vs) = None"
      using no by (auto simp: find_None_iff)
    with True show ?thesis unfolding macro_map_rep [OF assms(3)] by (simp add: assms(6) e)
  next
    case False
    then have "find (\<lambda>b. m_name (heap st b) = n) ml = find (\<lambda>b. m_name (heap st b) = n) ml'"
      using assms(4) by (auto simp: assms(5,6) find_append split: option.splits)
    with False show ?thesis
      unfolding macro_map_rep [OF assms(3)] e by (simp add: macro_map_rep [OF assms(2)])
  qed
qed

lemma undef_macro_correct:
  assumes "table_ok st"
  shows "\<exists>st'. undef_macro name st = Done st' \<and> table_ok st' \<and> same_objects st st'
    \<and> macro_map st' = (macro_map st)(name := None)"
proof -
  from assms obtain ml hl where rep: "table_rep st ml hl" by (auto simp: table_ok_def)
  show ?thesis
  proof (cases "find (\<lambda>a. m_name (heap st a) = name) ml")
    case None
    then have no: "a \<in> set ml \<Longrightarrow> m_name (heap st a) \<noteq> name" for a by (auto simp: find_None_iff)
    have "macro_map st name = None" using None by (simp add: macro_map_rep [OF rep])
    then have "(macro_map st)(name := None) = macro_map st" by auto
    with macro_remove_none [OF rep no] assms show ?thesis by (simp add: undef_macro_def)
  next
    case (Some a)
    then have a: "a \<in> set ml" "m_name (heap st a) = name" by (auto simp: find_Some_iff)
    from macro_ht_remove_some [OF rep a] obtain st1 us vs where r1: "macro_ht_remove name st = Done st1"
      "same_objects st st1" "macros st1 = macros st" "\<forall>b. m_next (heap st1 b) = m_next (heap st b)"
      "hl (macro_hash name) = us @ a # vs"
      "\<forall>h. Chain (\<lambda>b. m_hash_next (heap st1 b)) (macro_htab st1 h) ((hl(macro_hash name := us @ vs)) h)"
      by blast
    have n1: "m_name (heap st1 b) = m_name (heap st b)" for b using r1(2) by (simp add: same_objects_def)
    have f1: "chain_fuel st1 = chain_fuel st" using r1(2) by (simp add: same_objects_def chain_fuel_def)
    have c1: "Chain (\<lambda>b. m_next (heap st1 b)) (macros st1) ml" using table_repD(1) [OF rep] r1(3,4) by simp
    have l1: "length ml < chain_fuel st1" using table_rep_fuel(1) [OF rep] f1 by simp
    have d1: "distinct (map (\<lambda>b. m_name (heap st1 b)) ml)" using table_repD(4) [OF rep] n1 by simp
    from macro_list_remove_some [OF c1 table_repD(2) [OF rep] l1 d1 a(1)] a(2) n1
    obtain st2 us2 vs2 where r2: "macro_list_remove name st1 = Done st2" "same_objects st1 st2"
      "macro_htab st2 = macro_htab st1" "\<forall>b. m_hash_next (heap st2 b) = m_hash_next (heap st1 b)"
      "ml = us2 @ a # vs2" "Chain (\<lambda>b. m_next (heap st2 b)) (macros st2) (us2 @ vs2)"
      by auto
    from r1(2) r2(2) have so: "same_objects st st2" by (rule same_objects_trans)
    have n2: "m_name (heap st2 b) = m_name (heap st b)" "m_hash (heap st2 b) = m_hash (heap st b)" for b
      using so by (simp_all add: same_objects_def)
    let ?hl = "hl(macro_hash name := us @ vs)"
    have sub: "b \<in> set (us2 @ vs2) \<Longrightarrow> b \<in> set ml" for b using r2(5) by auto
    have rep2: "table_rep st2 (us2 @ vs2) ?hl"
    proof (rule table_repI)
      show "Chain (\<lambda>b. m_next (heap st2 b)) (macros st2) (us2 @ vs2)" by (fact r2(6))
      show "distinct (us2 @ vs2)" using table_repD(2) [OF rep] r2(5) by simp
      show "b \<in> set (us2 @ vs2) \<Longrightarrow> b < fresh st2" for b
        using table_repD(3) [OF rep sub] so by (simp add: same_objects_def)
      show "distinct (map (\<lambda>b. m_name (heap st2 b)) (us2 @ vs2))"
        using table_repD(4) [OF rep] unfolding n2 r2(5) by auto
      show "Chain (\<lambda>b. m_hash_next (heap st2 b)) (macro_htab st2 h) (?hl h)" for h
        using r1(6) r2(3,4) by simp
      show "distinct (?hl h)" for h
        using table_repD(6) [OF rep, of h] r1(5) by (cases "h = macro_hash name") auto
      show "set (?hl h) = {b \<in> set (us2 @ vs2). macro_hash (m_name (heap st2 b)) = h}" for h
      proof -
        have s: "set (hl h) = {b \<in> set ml. macro_hash (m_name (heap st b)) = h}" by (rule table_repD(7) [OF rep])
        have m: "set ml = insert a (set (us2 @ vs2))" "a \<notin> set (us2 @ vs2)"
          using r2(5) table_repD(2) [OF rep] by auto
        show ?thesis
        proof (cases "h = macro_hash name")
          case True
          have "a \<notin> set (us @ vs)" using table_repD(6) [OF rep, of h] r1(5) True by auto
          then have "set (us @ vs) = set (hl h) - {a}" using r1(5) True by auto
          also have "\<dots> = {b \<in> set (us2 @ vs2). macro_hash (m_name (heap st2 b)) = h}"
            unfolding s n2 using m by auto
          finally show ?thesis using True by simp
        next
          case False
          then show ?thesis unfolding n2 using s m a(2) by auto
        qed
      qed
      show "b \<in> set (us2 @ vs2) \<Longrightarrow> m_hash (heap st2 b) = macro_hash (m_name (heap st2 b))" for b
        unfolding n2 by (rule table_repD(8) [OF rep sub])
    qed
    have "undef_macro name st = Done st2" using r1(1) r2(1) by (simp add: undef_macro_def)
    with rep2 so same_objects_map [OF so rep rep2 a(2) r2(5) refl] show ?thesis
      by (auto simp: table_ok_def)
  qed
qed

section \<open>Definitions\<close>

lemma table_ok_find:
  assumes "table_ok st"
  shows "(\<exists>a. find_macro st name = Done (Some a) \<and> m_name (heap st a) = name \<and> (\<exists>ml hl. table_rep st ml hl \<and> a \<in> set ml))
    \<or> (find_macro st name = Done None \<and> (\<exists>ml hl. table_rep st ml hl \<and> (\<forall>a \<in> set ml. m_name (heap st a) \<noteq> name)))"
proof -
  from assms obtain ml hl where rep: "table_rep st ml hl" by (auto simp: table_ok_def)
  show ?thesis
  proof (cases "find (\<lambda>a. m_name (heap st a) = name) ml")
    case None
    then have "find_macro st name = Done None" "\<forall>a \<in> set ml. m_name (heap st a) \<noteq> name"
      by (simp add: find_macro_rep [OF rep]) (use None in \<open>auto simp: find_None_iff\<close>)
    with rep show ?thesis by blast
  next
    case (Some a)
    then have "a \<in> set ml" "m_name (heap st a) = name" by (auto simp: find_Some_iff)
    moreover have "find_macro st name = Done (Some a)" by (simp add: find_macro_rep [OF rep] Some)
    ultimately show ?thesis using rep by blast
  qed
qed

text \<open>The object of a name, made when there is none, changed in its definition.\<close>

definition put_def :: "string \<Rightarrow> (macro_def \<Rightarrow> macro_def) \<Rightarrow> pp_state \<Rightarrow> pp_state res" where
  "put_def name f st = rbind (find_macro st name) (\<lambda>r.
     let (a, st1) = (case r of Some a \<Rightarrow> (a, st) | None \<Rightarrow> (fresh st, new_macro name st)) in
     Done (upd_macro a (\<lambda>m. m\<lparr>m_def := f (m_def m)\<rparr>) st1))"

lemma new_macro_same [simp]:
  "macro_stack (new_macro name st) = macro_stack st" "once_files (new_macro name st) = once_files st"
  by (simp_all add: new_macro_def Let_def)

lemma put_def_correct:
  assumes "table_ok st"
  shows "\<exists>st'. put_def name f st = Done st' \<and> table_ok st' \<and> macro_stack st' = macro_stack st \<and> once_files st' = once_files st
    \<and> macro_map st' = (macro_map st)(name \<mapsto> f (case macro_map st name of Some d \<Rightarrow> d | None \<Rightarrow> empty_def))"
  using table_ok_find [OF assms, of name]
proof (elim disjE exE conjE)
  fix a ml hl
  assume f: "find_macro st name = Done (Some a)" and n: "m_name (heap st a) = name"
    and rep: "table_rep st ml hl" and a: "a \<in> set ml"
  let ?f = "\<lambda>m. m\<lparr>m_def := f (m_def m)\<rparr>"
  have "table_rep (upd_macro a ?f st) ml hl" by (rule table_rep_upd [OF rep]) simp_all
  moreover have "macro_map (upd_macro a ?f st) = (macro_map st)(name \<mapsto> f (m_def (heap st a)))"
    using macro_map_upd [OF rep a, of ?f] n by simp
  moreover have "macro_map st name = Some (m_def (heap st a))" using f by (simp add: macro_map_def)
  ultimately show ?thesis using f by (auto simp: put_def_def table_ok_def)
next
  fix ml hl
  assume f: "find_macro st name = Done None" and rep: "table_rep st ml hl" and "\<forall>a \<in> set ml. m_name (heap st a) \<noteq> name"
  then have no: "a \<in> set ml \<Longrightarrow> m_name (heap st a) \<noteq> name" for a by blast
  let ?s = "new_macro name st" and ?a = "fresh st"
  note new = new_macro_rep [OF rep no]
  let ?f = "\<lambda>m. m\<lparr>m_def := f (m_def m)\<rparr>"
  have rep': "table_rep (upd_macro ?a ?f ?s) (?a # ml) (hl(macro_hash name := ?a # hl (macro_hash name)))"
    by (rule table_rep_upd [OF new(1)]) simp_all
  have "macro_map (upd_macro ?a ?f ?s) = (macro_map ?s)(name \<mapsto> f empty_def)"
    using macro_map_upd [OF new(1), of ?a ?f] new(3,4) by simp
  moreover have "macro_map ?s = (macro_map st)(name \<mapsto> empty_def)"
  proof
    fix n
    have old: "b \<in> set ml \<Longrightarrow> heap ?s b = heap st b" for b
      using new(2) [of b] table_repD(3) [OF rep, of b] by blast
    then have "find (\<lambda>b. m_name (heap ?s b) = n) ml = find (\<lambda>b. m_name (heap st b) = n) ml"
      by (intro find_cong) simp_all
    moreover have "find (\<lambda>b. m_name (heap st b) = n) ml = Some b \<Longrightarrow> heap ?s b = heap st b" for b
      using old by (auto simp: find_Some_iff)
    moreover have "macro_map ?s n = map_option (\<lambda>b. m_def (heap ?s b)) (find (\<lambda>b. m_name (heap ?s b) = n) (?a # ml))"
      by (rule macro_map_rep [OF new(1)])
    moreover have "macro_map st n = map_option (\<lambda>b. m_def (heap st b)) (find (\<lambda>b. m_name (heap st b) = n) ml)"
      by (rule macro_map_rep [OF rep])
    ultimately show "macro_map ?s n = ((macro_map st)(name \<mapsto> empty_def)) n"
      using new(3,4) by (cases "find (\<lambda>b. m_name (heap st b) = n) ml") auto
  qed
  moreover have "macro_map st name = None" using f by (simp add: macro_map_def)
  ultimately show ?thesis using f rep' by (auto simp: put_def_def table_ok_def)
qed

lemma same_name_upd: "m_name m = name \<Longrightarrow> m\<lparr>m_name := name, m_def := d\<rparr> = m\<lparr>m_def := d\<rparr>"
  by (cases m) simp

lemma define_macro_put:
  assumes "table_ok st"
  shows "define_macro name is_fun pars bdy st = put_def name (\<lambda>_. \<lparr>is_function = is_fun, is_variadic = False,
    is_gnu_variadic = False, params = pars, body = bdy\<rparr>) st"
  using table_ok_find [OF assms, of name]
proof (elim disjE exE conjE)
  fix ml hl
  assume f: "find_macro st name = Done None" and rep: "table_rep st ml hl" and no: "\<forall>a \<in> set ml. m_name (heap st a) \<noteq> name"
  then have "m_name (heap (new_macro name st) (fresh st)) = name" by (intro new_macro_rep(3)) auto
  with f show ?thesis by (simp add: define_macro_def put_def_def upd_macro_def same_name_upd)
qed (simp add: define_macro_def put_def_def upd_macro_def same_name_upd)

section \<open>The table as a map with a stack\<close>

datatype macro_op = Define string macro_def | Undefine string | Push string | Pop string

text \<open>What the directives do to the table: \<open>#define\<close> marks a variadic macro after defining it.\<close>

definition define_directive :: "string \<Rightarrow> macro_def \<Rightarrow> pp_state \<Rightarrow> pp_state res" where
  "define_directive name d st =
     rbind (define_macro name (is_function d) (params d) (body d) st) (\<lambda>st.
       if is_variadic d then set_variadic name (is_gnu_variadic d) st else Done st)"

primrec macro_step :: "macro_op \<Rightarrow> pp_state \<Rightarrow> pp_state res" where
  "macro_step (Define name d) st = define_directive name d st"
| "macro_step (Undefine name) st = undef_macro name st"
| "macro_step (Push name) st = push_macro name st"
| "macro_step (Pop name) st = pop_macro name st"

type_synonym abs_table = "(string \<Rightarrow> macro_def option) \<times> (string \<times> macro_def option) list"

primrec abs_step :: "macro_op \<Rightarrow> abs_table \<Rightarrow> abs_table" where
  "abs_step (Define name d) t = ((fst t)(name \<mapsto> d), snd t)"
| "abs_step (Undefine name) t = ((fst t)(name := None), snd t)"
| "abs_step (Push name) t = (fst t, (name, fst t name) # snd t)"
| "abs_step (Pop name) t =
     (case take_entry name (snd t) of None \<Rightarrow> t | Some (d, rest) \<Rightarrow> ((fst t)(name := d), rest))"

definition table_abs :: "pp_state \<Rightarrow> abs_table" where
  "table_abs st = (macro_map st, macro_stack st)"

text \<open>A definition the code can make: only a variadic macro is marked GNU variadic.\<close>

fun op_allowed :: "macro_op \<Rightarrow> bool" where
  "op_allowed (Define name d) \<longleftrightarrow> (is_gnu_variadic d \<longrightarrow> is_variadic d)"
| "op_allowed x \<longleftrightarrow> True"

lemma define_directive_correct:
  assumes "table_ok st" and "is_gnu_variadic d \<longrightarrow> is_variadic d"
  shows "\<exists>st'. define_directive name d st = Done st' \<and> table_ok st' \<and> macro_stack st' = macro_stack st
    \<and> macro_map st' = (macro_map st)(name \<mapsto> d)"
proof -
  let ?d0 = "d\<lparr>is_variadic := False, is_gnu_variadic := False\<rparr>"
  have "define_macro name (is_function d) (params d) (body d) st = put_def name (\<lambda>_. ?d0) st"
    using define_macro_put [OF assms(1), of name "is_function d" "params d" "body d"] by (cases d) simp
  with put_def_correct [OF assms(1), of name "\<lambda>_. ?d0"] obtain st1
    where s1: "define_macro name (is_function d) (params d) (body d) st = Done st1" "table_ok st1"
      "macro_stack st1 = macro_stack st" "macro_map st1 = (macro_map st)(name \<mapsto> ?d0)" by auto
  show ?thesis
  proof (cases "is_variadic d")
    case False
    with assms(2) have "?d0 = d" by simp
    with s1 False show ?thesis by (simp add: define_directive_def)
  next
    case True
    let ?f = "\<lambda>d'. d'\<lparr>is_variadic := True, is_gnu_variadic := is_gnu_variadic d\<rparr>"
    from s1(4) have "macro_map st1 name \<noteq> None" by simp
    then obtain a where a: "find_macro st1 name = Done (Some a)"
      by (auto simp: macro_map_def split: res.splits option.splits)
    then have pd: "set_variadic name (is_gnu_variadic d) st1 = put_def name ?f st1"
      by (simp add: set_variadic_def put_def_def)
    have e: "?f ?d0 = d" using True by (cases d) simp
    have m: "(case macro_map st1 name of Some d \<Rightarrow> d | None \<Rightarrow> empty_def) = ?d0" using s1(4) by simp
    from put_def_correct [OF s1(2), of name ?f] obtain st2 where s2: "put_def name ?f st1 = Done st2" "table_ok st2"
      "macro_stack st2 = macro_stack st1" "macro_map st2 = (macro_map st1)(name \<mapsto> ?f ?d0)" unfolding m by blast
    have "macro_map st2 = (macro_map st)(name \<mapsto> d)" using s2(4) unfolding e s1(4) by simp
    with s1 s2 True pd show ?thesis by (simp add: define_directive_def)
  qed
qed

lemma macro_stack_upd [simp]:
  "find_macro (st\<lparr>macro_stack := q\<rparr>) name = find_macro st name"
  "macro_map (st\<lparr>macro_stack := q\<rparr>) = macro_map st"
proof -
  show f: "find_macro (st\<lparr>macro_stack := q\<rparr>) name = find_macro st name" for name
    by (simp add: find_macro_def chain_fuel_def Let_def)
  show "macro_map (st\<lparr>macro_stack := q\<rparr>) = macro_map st"
    unfolding macro_map_def f fun_eq_iff by (simp split: res.splits option.splits)
qed

lemma pop_macro_correct:
  assumes "table_ok st"
  shows "\<exists>st'. pop_macro name st = Done st' \<and> table_ok st' \<and> table_abs st' = abs_step (Pop name) (table_abs st)"
proof (cases "take_entry name (macro_stack st)")
  case None
  with assms show ?thesis by (simp add: pop_macro_def table_abs_def)
next
  case (Some p)
  obtain ms rest where p: "p = (ms, rest)" by (cases p)
  let ?s = "st\<lparr>macro_stack := rest\<rparr>"
  have e: "table_rep ?s ml hl = table_rep st ml hl" for ml hl by (simp add: table_rep_def)
  have ok: "table_ok ?s" using assms by (simp add: table_ok_def e)
  have m: "macro_map ?s = macro_map st" by simp
  show ?thesis
  proof (cases ms)
    case None
    with undef_macro_correct [OF ok, of name] Some p m show ?thesis
      by (auto simp: pop_macro_def undef_macro_def table_abs_def same_objects_def Let_def)
  next
    case d: (Some d)
    have "pop_macro name st = put_def name (\<lambda>_. d) ?s"
      by (simp add: pop_macro_def Some p d put_def_def Let_def)
    with put_def_correct [OF ok, of name "\<lambda>_. d"] Some p d m show ?thesis by (auto simp: table_abs_def)
  qed
qed

lemma push_macro_correct:
  assumes "table_ok st"
  shows "\<exists>st'. push_macro name st = Done st' \<and> table_ok st' \<and> table_abs st' = abs_step (Push name) (table_abs st)"
proof -
  have e: "table_rep (st\<lparr>macro_stack := q\<rparr>) ml hl = table_rep st ml hl" for q ml hl by (simp add: table_rep_def)
  have ok: "table_ok (st\<lparr>macro_stack := q\<rparr>)" for q using assms by (simp add: table_ok_def e)
  have m: "macro_map (st\<lparr>macro_stack := q\<rparr>) = macro_map st" for q by simp
  from table_ok_find [OF assms, of name] ok m show ?thesis
    by (auto simp: push_macro_def table_abs_def macro_map_def [of st name])
qed

interpretation mt: simulation macro_step op_allowed table_ok table_abs abs_step
proof
  fix st x
  assume ok: "table_ok st" and al: "op_allowed x"
  show "\<exists>st'. macro_step x st = Done st' \<and> table_ok st' \<and> table_abs st' = abs_step x (table_abs st)"
  proof (cases x)
    case (Define name d)
    with al define_directive_correct [OF ok, of d name] show ?thesis by (auto simp: table_abs_def)
  next
    case (Undefine name)
    with undef_macro_correct [OF ok, of name] show ?thesis by (auto simp: table_abs_def same_objects_def)
  next
    case (Push name)
    with push_macro_correct [OF ok, of name] show ?thesis by simp
  next
    case (Pop name)
    with pop_macro_correct [OF ok, of name] show ?thesis by simp
  qed
qed


lemma table_ok_start: "table_ok pp_start"
  unfolding table_ok_def table_rep_def pp_start_def
  by (intro exI [of _ "[]"] exI [of _ "\<lambda>_. []"]) simp

lemma macro_map_start: "macro_map pp_start = Map.empty"
  by (simp add: macro_map_def find_macro_def pp_start_def chain_fuel_def Let_def fun_eq_iff)

text \<open>
  C4. The macro table implements a partial map with a stack: on a consistent table, any sequence of
  \<open>#define\<close>, \<open>#undef\<close>, \<open>push_macro\<close> and \<open>pop_macro\<close> runs to its end (every walk along the linked lists
  ends), the hash table and the list \<open>macros\<close> stay consistent, and afterwards every lookup and the stack are those of the
  same operations on a plain map. A table is consistent when it starts empty, so this holds of every sequence from the start.
\<close>

theorem macro_table_refines:
  assumes "table_ok st" and "list_all op_allowed xs"
  shows "\<exists>st'. run_ops macro_step xs st = Done st' \<and> table_ok st'
    \<and> (macro_map st', macro_stack st') = fold abs_step xs (macro_map st, macro_stack st)"
  using mt.run_sim [OF assms] by (simp add: table_abs_def)

theorem macro_table_refines_witness:
  "\<exists>st'. run_ops macro_step [Define ''A'' (empty_def\<lparr>body := ''1''\<rparr>), Push ''A'', Undefine ''A'', Pop ''A''] pp_start = Done st' \<and> table_ok st'
    \<and> macro_map st' ''A'' = Some (empty_def\<lparr>body := ''1''\<rparr>) \<and> macro_stack st' = []"
proof -
  let ?xs = "[Define ''A'' (empty_def\<lparr>body := ''1''\<rparr>), Push ''A'', Undefine ''A'', Pop ''A'']"
  have "list_all op_allowed ?xs" by (simp add: empty_def_def)
  from macro_table_refines [OF table_ok_start this] moreover have "macro_stack pp_start = []" by (simp add: pp_start_def)
  ultimately show ?thesis by (auto simp: macro_map_start)
qed

text \<open>Between a \<open>push_macro\<close> and the matching \<open>pop_macro\<close>.\<close>

fun on_other_stack :: "string \<Rightarrow> macro_op \<Rightarrow> bool" where
  "on_other_stack name (Push n) \<longleftrightarrow> False"
| "on_other_stack name (Pop n) \<longleftrightarrow> False"
| "on_other_stack name x \<longleftrightarrow> True"

lemma fold_keeps_stack: "list_all (on_other_stack name) xs \<Longrightarrow> snd (fold abs_step xs t) = snd t"
proof (induction xs arbitrary: t)
  case (Cons x xs)
  then show ?case by (cases x) auto
qed simp

section \<open>The command line and the start of a file\<close>

text \<open>
  \<open>preprocess\<close> up to its call of \<open>preprocess_file\<close>: the table is reset, and the first time the
  predefined macros are added and the list is remembered. The predefined macros come from a generated header.
\<close>

definition start_file :: "(string \<times> macro_def) list \<Rightarrow> bool \<Rightarrow> pp_state \<Rightarrow> pp_state res" where
  "start_file predefined macros_inited st =
     rbind (clear_macros st) (\<lambda>st.
       if macros_inited then Done st
       else rbind (run_ops (\<lambda>(n, d). define_macro n (is_function d) (params d) (body d)) predefined st) (\<lambda>st.
         Done (st\<lparr>saved_macros := macros st\<rparr>)))"

text \<open>
  Definitions from the command line: of two \<open>-D\<close> for one name the first wins, an \<open>#undef\<close>
  of the name then leaves the second one defined, and \<open>-U\<close> after \<open>-D\<close> does not undefine the name.
\<close>

theorem command_line_definitions:
  "rmap (\<lambda>st. map_option body (macro_map st ''X''))
     (start_file [] False (add_define ''X=2'' (add_define ''X=1'' pp_start))) = Done (Some ''1'')
   \<and> rmap (\<lambda>st. map_option body (macro_map st ''X''))
       (rbind (start_file [] False (add_define ''X=2'' (add_define ''X=1'' pp_start))) (undef_macro ''X'')) = Done (Some ''2'')
   \<and> rmap (\<lambda>st. map_option body (macro_map st ''X''))
       (rbind (add_undef ''X'' (add_define ''X=1'' pp_start)) (start_file [] False)) = Done (Some ''1'')"
  by (intro conjI; code_simp)

text \<open>
  A second source file does not start afresh: a predefined macro that the first file redefined keeps the new
  body, one that it took out from the middle of the list stays undefined, and a file marked \<open>#pragma once\<close> in the first file
  counts as included already.
\<close>

theorem second_file_inherits:
  "rmap (\<lambda>st. (map_option body (macro_map st ''A''), macro_map st ''B'', is_once_file ''h'' st))
     (rbind (start_file [(''A'', empty_def\<lparr>body := ''1''\<rparr>), (''B'', empty_def\<lparr>body := ''2''\<rparr>), (''C'', empty_def\<lparr>body := ''3''\<rparr>)] False pp_start) (\<lambda>st.
      rbind (define_directive ''A'' (empty_def\<lparr>body := ''9''\<rparr>) st) (\<lambda>st.
      rbind (undef_macro ''B'' (mark_once_file ''h'' st)) (start_file [] True))))
   = Done (Some ''9'', None, True)"
  by code_simp

end
