(* ===== verification/Strtol.thy ===== *)
theory Strtol
  imports Outcome
begin

text \<open>
  The printing of numbers and the conversions of the C library that the sources call with base 0: \<open>strtol\<close> (conditions of the
  preprocessor) and \<open>strtoull\<close> (integer literals of the lexer), with the clamping of values that are out of range.
\<close>

section \<open>Printing\<close>

text \<open>\<open>format("%u", n)\<close> and \<open>format("%d", n)\<close>.\<close>

fun show_nat :: "nat \<Rightarrow> string" where
  "show_nat n = (if n < 10 then [char_of (48 + n)] else show_nat (n div 10) @ [char_of (48 + n mod 10)])"

declare show_nat.simps [simp del]

definition show_int :: "int \<Rightarrow> string" where
  "show_int i = (if i < 0 then CHR ''-'' # show_nat (nat (- i)) else show_nat (nat i))"

section \<open>strtol with base 0\<close>

definition digit_of :: "char \<Rightarrow> nat" where
  "digit_of c = (if is_digit c then code c - 48
     else if 97 \<le> code c \<and> code c \<le> 122 then code c - 87
     else if 65 \<le> code c \<and> code c \<le> 90 then code c - 55 else 36)"

fun digits_value :: "nat \<Rightarrow> nat \<Rightarrow> string \<Rightarrow> nat" where
  "digits_value base acc [] = acc"
| "digits_value base acc (c # p) = digits_value base (acc * base + digit_of c) p"

definition clamp_long :: "int \<Rightarrow> int" where
  "clamp_long x = (if x < - (2 ^ 63) then - (2 ^ 63) else if x > 2 ^ 63 - 1 then 2 ^ 63 - 1 else x)"

definition strtol0 :: "string \<Rightarrow> int \<times> string" where
  "strtol0 p =
     (let q = dropWhile is_space p;
          neg = (deref q = CHR ''-'');
          q1 = (if deref q = CHR ''-'' \<or> deref q = CHR ''+'' then tl q else q);
          hex = (deref q1 = CHR ''0'' \<and> (deref_at q1 1 = CHR ''x'' \<or> deref_at q1 1 = CHR ''X'') \<and> is_xdigit (deref_at q1 2));
          base = (if hex then 16 else if deref q1 = CHR ''0'' then 8 else 10);
          q2 = (if hex then drop 2 q1 else q1);
          ds = takeWhile (\<lambda>c. digit_of c < base) q2
      in if ds = [] then (0, p)
         else (clamp_long ((if neg then -1 else 1) * int (digits_value base 0 ds)), drop (length ds) q2))"

text \<open>Of a text that starts with a digit, as an integer literal does.\<close>

definition strtoull0 :: "string \<Rightarrow> nat" where
  "strtoull0 q =
     (let hex = (deref q = CHR ''0'' \<and> (deref_at q 1 = CHR ''x'' \<or> deref_at q 1 = CHR ''X'') \<and> is_xdigit (deref_at q 2));
          base = (if hex then 16 else if deref q = CHR ''0'' then 8 else 10);
          v = digits_value base 0 (takeWhile (\<lambda>c. digit_of c < base) (if hex then drop 2 q else q))
      in if int v > 2 ^ 64 - 1 then 2 ^ 64 - 1 else v)"

lemma drop_digits_length: "length (snd (strtol0 p)) \<le> length p"
proof -
  have q: "length (tl (dropWhile is_space p)) \<le> length p" "length (dropWhile is_space p) \<le> length p"
    using length_dropWhile_le [of is_space p] by simp_all
  then have "length (drop n (drop m (tl (dropWhile is_space p)))) \<le> length p"
    "length (drop n (drop m (dropWhile is_space p))) \<le> length p" for n m by simp_all
  from this [of _ 0] this [of _ 2] show ?thesis
    unfolding strtol0_def Let_def by (simp split: if_split)
qed

section \<open>Numbers read back\<close>

lemma is_digit_char_of: "k < (10::nat) \<Longrightarrow> is_digit (char_of (48 + k))"
  by (simp add: is_digit_def code_def of_char_of)

lemma show_nat_digits: "list_all is_digit (show_nat n) \<and> show_nat n \<noteq> []"
proof (induction n rule: show_nat.induct)
  case (1 n)
  then show ?case
    using is_digit_char_of [of n] is_digit_char_of [of "n mod 10"]
    by (cases "n < 10") (simp_all add: show_nat.simps [of n])
qed

lemma digits_value_append: "digits_value b acc (p @ q) = digits_value b (digits_value b acc p) q"
  by (induction p arbitrary: acc) auto

lemma digit_of_digit: "k < 10 \<Longrightarrow> digit_of (char_of (48 + k)) = k"
  by (simp add: digit_of_def is_digit_def code_def of_char_of)

lemma show_nat_value: "digits_value 10 0 (show_nat n) = n"
proof (induction n rule: show_nat.induct)
  case (1 n)
  show ?case
  proof (cases "n < 10")
    case True
    then show ?thesis by (subst show_nat.simps) (simp add: digit_of_digit)
  next
    case False
    with 1 show ?thesis by (subst show_nat.simps) (simp add: digits_value_append digit_of_digit)
  qed
qed

lemma show_nat_zero: "hd (show_nat n) = CHR ''0'' \<Longrightarrow> n = 0"
proof (induction n rule: show_nat.induct)
  case (1 n)
  show ?case
  proof (cases "n < 10")
    case True
    have "char_of (48 + n) = CHR ''0'' \<Longrightarrow> n = 0"
      using digit_of_digit [of n] True by (simp add: digit_of_def is_digit_def code_def)
    with 1 True show ?thesis by (simp add: show_nat.simps [of n])
  next
    case False
    with 1 show_nat_digits [of "n div 10"] show ?thesis by (subst (asm) (2) show_nat.simps) auto
  qed
qed

lemma strtol0_show_nat:
  assumes "digit_of (deref r) = 36" and "int n < 2 ^ 63"
  shows "strtol0 (show_nat n @ r) = (int n, r)"
proof -
  obtain c s where cs: "show_nat n = c # s" using show_nat_digits [of n] by (cases "show_nat n") auto
  have c: "is_digit c" "list_all is_digit s" using show_nat_digits [of n] cs by auto
  have dig: "is_digit x \<Longrightarrow> digit_of x < 10" for x by (auto simp: digit_of_def is_digit_def)
  have nx: "\<not> is_space c" "c \<noteq> CHR ''-''" "c \<noteq> CHR ''+''" using c(1) by (auto simp: is_digit_def is_space_def code_def)
  have stop: "takeWhile (\<lambda>x. digit_of x < b) r = []" if "b \<le> 36" for b
    using assms(1) that by (cases r) auto
  show ?thesis
  proof (cases "n = 0")
    case True
    have z: "show_nat 0 = ''0''" by code_simp
    have "deref r \<noteq> CHR ''x''" "deref r \<noteq> CHR ''X''" using assms(1) by (auto simp: digit_of_def is_digit_def code_def)
    moreover have "deref_at (CHR ''0'' # r) 1 = deref r" by (simp add: deref_at_def)
    moreover have d: "digit_of CHR ''0'' = 0" "\<not> is_space CHR ''0''" by code_simp+
    moreover have "takeWhile (\<lambda>x. digit_of x < 8) (CHR ''0'' # r) = ''0''" using stop [of 8] d by simp
    ultimately show ?thesis
      using True by (simp add: z strtol0_def Let_def clamp_long_def)
  next
    case False
    then have "c \<noteq> CHR ''0''" using show_nat_zero [of n] cs by auto
    moreover have tw: "takeWhile (\<lambda>x. digit_of x < 10) (c # s @ r) = c # s"
      using c dig stop [of 10] by (simp add: list_all_iff takeWhile_append)
    ultimately show ?thesis
      using nx assms(2) show_nat_value [of n]
      by (simp add: cs strtol0_def Let_def clamp_long_def)
  qed
qed

end
