(* ===== verification/Expand.thy ===== *)
theory Expand
  imports Macros Strtol
begin

text \<open>
  Macro expansion (\<open>src/preprocess.c\<close>: \<open>paste_tokens\<close>, \<open>substitute_macro\<close>, \<open>parse_macro_args\<close>,
  \<open>expand_text\<close>). The depth of
  \<open>expand_text\<close> is counted down from 21: at 0 the text is returned as it is, which is the code's \<open>depth > 20\<close>.
  The loop of \<open>expand_text\<close> takes the recursive call as an argument.
\<close>

section \<open>Quoted text, pasting\<close>

text \<open>A literal up to and with its closing quote, behind the opening one, and the rest.\<close>

fun take_quoted :: "char \<Rightarrow> string \<Rightarrow> string \<times> string" where
  "take_quoted quote [] = ([], [])"
| "take_quoted quote (c # p) =
     (if c = quote then ([c], p)
      else if c = BSL \<and> p \<noteq> [] then (case take_quoted quote (tl p) of (a, r) \<Rightarrow> (c # hd p # a, r))
      else (case take_quoted quote p of (a, r) \<Rightarrow> (c # a, r)))"

lemma take_quoted_append: "fst (take_quoted q p) @ snd (take_quoted q p) = p"
  by (induction q p rule: take_quoted.induct) (auto split: prod.splits)

lemma take_quoted_rest: "length (snd (take_quoted q p)) \<le> length p"
  using arg_cong [OF take_quoted_append [of q p], of length] by simp

function paste_loop :: "string \<Rightarrow> string \<Rightarrow> string" where
  "paste_loop [] out = out"
| "paste_loop (c # p) out =
     (if c = CHR ''#'' \<and> deref p = CHR ''#'' then
        let out1 = chop_spaces out;
            q = dropWhile is_space (tl p)
        in paste_loop q
             (if out1 \<noteq> [] \<and> q \<noteq> [] \<and> last out1 = hd q \<and> hd q \<in> set ''+-&|<>'' then out1 @ '' '' else out1)
      else paste_loop p (out @ [c]))"
  by pat_completeness auto
termination
  by (relation "measure (\<lambda>(p, out). length p)")
     (auto intro!: le_imp_less_Suc order_trans [OF length_dropWhile_le])

definition paste_tokens :: "string \<Rightarrow> string" where
  "paste_tokens s = paste_loop s []"

section \<open>Substitution\<close>

fun index_of :: "string \<Rightarrow> string list \<Rightarrow> nat option" where
  "index_of name [] = None"
| "index_of name (p # ps) = (if p = name then Some 0 else map_option Suc (index_of name ps))"

definition find_param_index :: "macro_def \<Rightarrow> string \<Rightarrow> nat option" where
  "find_param_index m name = index_of name (params m)"

definition param_len :: "macro_def \<Rightarrow> nat" where
  "param_len m = length (params m)"

fun join_args :: "string list \<Rightarrow> string" where
  "join_args [] = []"
| "join_args [a] = a"
| "join_args (a # b # as) = a @ '','' @ join_args (b # as)"

text \<open>
  The variadic arguments are merged into one slot. With \<open>is_gnu_variadic\<close> and no parameters the slot would be
  \<open>args[-1]\<close>.
\<close>

definition merge_variadic :: "macro_def \<Rightarrow> string list \<Rightarrow> string list res" where
  "merge_variadic m args =
     (if is_variadic m \<and> length args > param_len m then
        if is_gnu_variadic m \<and> param_len m = 0 then UB
        else let va = (if is_gnu_variadic m then param_len m - 1 else param_len m) in
          Done (take va args @ [join_args (drop va args)])
      else Done args)"

definition va_index :: "macro_def \<Rightarrow> nat" where
  "va_index m = (if is_gnu_variadic m \<and> param_len m > 0 then param_len m - 1 else param_len m)"

definition VA_ARGS :: string where
  "VA_ARGS = ''__VA_ARGS__''"

lemma ident_prefix_shorter: "pp_is_ident2 c \<Longrightarrow> length (dropWhile pp_is_ident2 (c # p)) < length (c # p)"
  by (simp add: le_imp_less_Suc length_dropWhile_le)

lemma ident1_ident2: "pp_is_ident1 c \<Longrightarrow> pp_is_ident2 c"
  by (simp add: pp_is_ident2_def)

function subst_loop :: "macro_def \<Rightarrow> string list \<Rightarrow> string list \<Rightarrow> string \<Rightarrow> string \<Rightarrow> string" where
  "subst_loop m args raws [] out = out"
| "subst_loop m args raws (c # p) out =
     (if c = DQ \<or> c = SQ then
        subst_loop m args raws (snd (take_quoted c p)) (out @ c # fst (take_quoted c p))
      else if c = CHR ''#'' \<and> deref p = CHR ''#'' then
        let q = dropWhile is_space (tl p) in
        if is_variadic m \<and> startswith q VA_ARGS \<and> \<not> pp_is_ident2 (deref_at q 11) then
          subst_loop m args raws (drop 11 q)
            (if va_index m \<ge> length args
             then let o1 = chop_spaces out in (if o1 \<noteq> [] \<and> last o1 = CHR '','' then butlast o1 else o1)
             else out @ args ! va_index m)
        else subst_loop m args raws q (out @ ''##'')
      else if c = CHR ''#'' then
        let q = dropWhile is_space p in
        if q \<noteq> [] \<and> pp_is_ident1 (hd q) then
          let name = takeWhile pp_is_ident2 q; r = dropWhile pp_is_ident2 q in
          subst_loop m args raws r
            (case find_param_index m name of
               Some i \<Rightarrow> if i < length args then out @ quote_string (raws ! i) else out @ ''#'' @ name
             | None \<Rightarrow> out @ ''#'' @ name)
        else subst_loop m args raws q (out @ ''#'')
      else if pp_is_ident1 c then
        let name = takeWhile pp_is_ident2 (c # p); r = dropWhile pp_is_ident2 (c # p) in
        subst_loop m args raws r
          (if is_variadic m \<and> name = VA_ARGS then
             (if va_index m < length args then out @ args ! va_index m else out)
           else (case find_param_index m name of
               Some i \<Rightarrow> if i < length args then out @ args ! i else out @ name
             | None \<Rightarrow> out @ name))
      else subst_loop m args raws p (out @ [c]))"
  by pat_completeness auto
termination
  by (relation "measure (\<lambda>(m, a, r, p, out). length p)")
     (auto simp: ident1_ident2 le_imp_less_Suc take_quoted_rest length_dropWhile_le
           intro!: le_imp_less_Suc order_trans [OF length_dropWhile_le] order_trans [OF diff_le_self])

text \<open>\<open>raw_args\<close> is never null at the only call.\<close>

definition substitute_macro :: "macro_def \<Rightarrow> string list \<Rightarrow> string list \<Rightarrow> string res" where
  "substitute_macro m args raw_args =
     rmap (\<lambda>args. paste_tokens (subst_loop m args raw_args (body m) [])) (merge_variadic m args)"

section \<open>Arguments of a call\<close>

text \<open>
  \<open>cur\<close> is the text since \<open>arg_start\<close>. The bound is checked at a comma only: the last argument is
  stored without a check.
\<close>

definition MAX_ARGS :: nat where
  "MAX_ARGS = 32"

function parse_args :: "string \<Rightarrow> nat \<Rightarrow> string \<Rightarrow> string list \<Rightarrow> (string list \<times> string) exec" where
  "parse_args [] depth cur args = fatal ''unterminated macro invocation''"
| "parse_args (c # p) depth cur args =
     (if c = DQ \<or> c = SQ then
        parse_args (snd (take_quoted c p)) depth (cur @ c # fst (take_quoted c p)) args
      else if c = CHR ''('' then parse_args p (depth + 1) (cur @ [c]) args
      else if c = CHR '')'' then
        (if depth - 1 = 0 then
           (if cur = [] \<and> args = [] then ok ([], p)
            else if length args < MAX_ARGS then ok (args @ [trim_copy cur], p)
            else UB)
         else parse_args p (depth - 1) (cur @ [c]) args)
      else if c = CHR '','' \<and> depth = 1 then
        (if length args \<ge> MAX_ARGS then fatal ''too many macro arguments''
         else parse_args p depth [] (args @ [trim_copy cur]))
      else parse_args p depth (cur @ [c]) args)"
  by pat_completeness auto
termination
  by (relation "measure (\<lambda>(p, d, cur, args). length p)") (auto simp: le_imp_less_Suc take_quoted_rest)

definition parse_macro_args :: "string \<Rightarrow> (string list \<times> string) exec" where
  "parse_macro_args p = parse_args p 1 [] []"

lemma parse_args_rest:
  "parse_args p d cur args = Done (Inr (as, r)) \<Longrightarrow> length r < length p"
proof (induction p d cur args rule: parse_args.induct)
  case (2 c p d cur args)
  show ?case
    using "2.prems" "2.IH" take_quoted_rest [of c p]
    by (auto simp: ok_def fatal_def split: if_splits intro: less_trans less_SucI)
qed (simp add: fatal_def)

lemma parse_macro_args_rest: "parse_macro_args p = Done (Inr (as, r)) \<Longrightarrow> length r < length p"
  unfolding parse_macro_args_def by (rule parse_args_rest)

section \<open>Expansion\<close>

definition is_suffix_char :: "char \<Rightarrow> bool" where
  "is_suffix_char c \<longleftrightarrow> c \<in> set ''FfLlUu''"

definition is_function_name :: "string \<Rightarrow> bool" where
  "is_function_name name \<longleftrightarrow> name = ''__FUNCTION__'' \<or> name = ''__func__'' \<or> name = ''__PRETTY_FUNCTION__''"

definition push_disabled :: "addr \<Rightarrow> pp_state \<Rightarrow> pp_state" where
  "push_disabled a = upd_macro a (\<lambda>m. m\<lparr>m_disabled := True\<rparr>)"

definition pop_disabled :: "addr \<Rightarrow> pp_state \<Rightarrow> pp_state" where
  "pop_disabled a = upd_macro a (\<lambda>m. m\<lparr>m_disabled := False\<rparr>)"

type_synonym expander = "string \<Rightarrow> pp_state \<Rightarrow> (string \<times> pp_state) exec"

text \<open>\<open>for (int i = 0; i < argc; i++) args[i] = expand_text(args[i], ...)\<close>.\<close>

fun expand_args :: "expander \<Rightarrow> string list \<Rightarrow> pp_state \<Rightarrow> (string list \<times> pp_state) exec" where
  "expand_args rec [] st = ok ([], st)"
| "expand_args rec (a # as) st =
     ebind (rec a st) (\<lambda>(a', st). ebind (expand_args rec as st) (\<lambda>(as', st). ok (a' # as', st)))"

text \<open>What replaces a call of the function-like macro at \<open>a\<close> with these arguments.\<close>

definition expand_call :: "expander \<Rightarrow> addr \<Rightarrow> string \<Rightarrow> string list \<Rightarrow> pp_state \<Rightarrow> (string \<times> pp_state) exec" where
  "expand_call rec a name args st =
     (let d = m_def (heap st a) in
      if \<not> is_variadic d \<and> length args > param_len d
      then ok (name @ ''('' @ join_args args @ '')'', st)
      else if param_len d > MAX_ARGS then UB
      else let raws = args @ replicate (param_len d - length args) [] in
        ebind (expand_args rec raws st) (\<lambda>(args', st).
        let st = push_disabled a st in
        rbind (substitute_macro (m_def (heap st a)) args' raws) (\<lambda>subst.
        ebind (rec subst st) (\<lambda>(s, st). ok (s, pop_disabled a st)))))"

lemma call_rest_length: "length (tl (dropWhile is_space (dropWhile pp_is_ident2 p))) \<le> length p"
  using length_dropWhile_le [of is_space "dropWhile pp_is_ident2 p"] length_dropWhile_le [of pp_is_ident2 p] by simp

text \<open>\<open>prev\<close> is the character in front of \<open>p\<close> in the text, if there is one.\<close>

function expand_loop :: "expander \<Rightarrow> string \<Rightarrow> nat \<Rightarrow> string \<Rightarrow> char option \<Rightarrow> string \<Rightarrow> pp_state \<Rightarrow> (string \<times> pp_state) exec" where
  "expand_loop rec file line [] prev out st = ok (out, st)"
| "expand_loop rec file line (c # p) prev out st =
     (if c = BLUE then
        let name = takeWhile pp_is_ident2 p in
        expand_loop rec file line (dropWhile pp_is_ident2 p) (Some (last (c # name))) (out @ c # name) st
      else if c = DQ \<or> c = SQ then
        let lit = fst (take_quoted c p) in
        expand_loop rec file line (snd (take_quoted c p)) (Some (last (c # lit))) (out @ c # lit) st
      else if \<not> pp_is_ident1 c then expand_loop rec file line p (Some c) (out @ [c]) st
      else let name = takeWhile pp_is_ident2 (c # p);
               r = dropWhile pp_is_ident2 (c # p);
               q = dropWhile is_space r;
               keep = (\<lambda>s st. expand_loop rec file line r (Some (last name)) (out @ s) st) in
        if name = ''__LINE__'' then keep (show_nat line) st
        else if name = ''__FILE__'' then keep (quote_string file) st
        else if name = ''__COUNTER__'' then
          keep (show_int (pp_counter st)) (st\<lparr>pp_counter := pp_counter st + 1\<rparr>)
        else if is_function_name name then keep name st
        else if (name = ''__has_include'' \<or> name = ''__has_include_next'') \<and> deref q = CHR ''('' then keep name st
        else if (case prev of None \<Rightarrow> False | Some d \<Rightarrow> is_digit d \<or> d = CHR ''.'') \<and> list_all is_suffix_char name
          then keep name st
        else rbind (find_macro st name) (\<lambda>m.
          case m of
            None \<Rightarrow> keep name st
          | Some a \<Rightarrow>
              if m_disabled (heap st a) then keep (BLUE # name) st
              else if is_function (m_def (heap st a)) then
                (if deref q \<noteq> CHR ''('' then keep name st
                 else ebind (parse_macro_args (tl q)) (\<lambda>(args, end).
                   ebind (expand_call rec a name args st) (\<lambda>(s, st).
                     expand_loop rec file line end (Some CHR '')'') (out @ s) st)))
              else
                ebind (rec (body (m_def (heap st a))) (push_disabled a st)) (\<lambda>(s, st).
                  keep s (pop_disabled a st))))"
  by pat_completeness auto
termination
  by (relation "measure (\<lambda>(rec, f, l, p, prev, out, st). length p)")
     (auto simp: ident1_ident2 le_imp_less_Suc take_quoted_rest length_dropWhile_le dest!: parse_macro_args_rest
       intro!: le_imp_less_Suc less_imp_le [OF less_le_trans [OF _ call_rest_length]])

text \<open>The end of \<open>expand_text\<close>: a text that changed is scanned again.\<close>

primrec expand_text :: "nat \<Rightarrow> string \<Rightarrow> nat \<Rightarrow> expander" where
  "expand_text 0 file line text st = ok (text, st)"
| "expand_text (Suc d) file line text st =
     ebind (expand_loop (expand_text d file line) file line text None [] st) (\<lambda>(out, st).
       if out \<noteq> text then expand_text d file line out st else ok (out, st))"

definition EXPAND_DEPTH :: nat where
  "EXPAND_DEPTH = 21"

section \<open>Expansion ends and leaves the table alone\<close>

definition counted :: "pp_state \<Rightarrow> pp_state \<Rightarrow> bool" where
  "counted st st' \<longleftrightarrow> st' = st\<lparr>pp_counter := pp_counter st'\<rparr>"

text \<open>The result of an expansion started in \<open>st\<close>: not \<open>Fuel\<close>, and the state is that of the start but for the counter.\<close>

definition expands :: "pp_state \<Rightarrow> ('a \<times> pp_state) exec \<Rightarrow> bool" where
  "expands st x \<longleftrightarrow> x \<noteq> Fuel \<and> (\<forall>a st'. x = Done (Inr (a, st')) \<longrightarrow> counted st st')"

definition expander_ok :: "expander \<Rightarrow> bool" where
  "expander_ok rec \<longleftrightarrow> (\<forall>t st. table_ok st \<longrightarrow> expands st (rec t st))"

lemma counted_refl [simp]: "counted st st"
  by (simp add: counted_def)

lemma counted_counter [simp]: "counted st (st\<lparr>pp_counter := k\<rparr>)"
  by (simp add: counted_def)

lemma counted_iff: "counted st st' \<longleftrightarrow> (\<exists>k. st' = st\<lparr>pp_counter := k\<rparr>)"
proof
  assume "\<exists>k. st' = st\<lparr>pp_counter := k\<rparr>"
  then show "counted st st'" by auto
qed (auto simp: counted_def)

lemma counted_trans: "counted st st1 \<Longrightarrow> counted st1 st2 \<Longrightarrow> counted st st2"
  unfolding counted_iff by auto

lemma table_ok_counter [simp]: "table_ok (st\<lparr>pp_counter := k\<rparr>) = table_ok st"
  by (simp add: table_ok_def table_rep_def)

lemma counted_table_ok: "counted st st' \<Longrightarrow> table_ok st' = table_ok st"
  unfolding counted_iff by auto

lemma expands_ok [simp]: "expands st (ok (a, st')) \<longleftrightarrow> counted st st'"
  by (simp add: expands_def ok_def)

lemma expands_simps [simp]: "expands st (fatal e)" "expands st UB" "expands st (Done (Inl e))" "\<not> expands st Fuel"
  by (auto simp: expands_def fatal_def)

lemma expands_counted: "counted st st' \<Longrightarrow> expands st' x \<Longrightarrow> expands st x"
  unfolding expands_def using counted_trans by blast

lemma expands_ebind:
  assumes "expands st x" and "\<And>a st'. x = Done (Inr (a, st')) \<Longrightarrow> counted st st' \<Longrightarrow> expands st (f (a, st'))"
  shows "expands st (ebind x f)"
proof (cases x)
  case (Done r)
  with assms show ?thesis by (cases r) (auto simp: expands_def)
qed (use assms in auto)

lemma expands_if: "(b \<Longrightarrow> expands st x) \<Longrightarrow> (\<not> b \<Longrightarrow> expands st y) \<Longrightarrow> expands st (if b then x else y)"
  by simp

lemma expand_args_ok:
  assumes "expander_ok rec"
  shows "table_ok st \<Longrightarrow> expands st (expand_args rec as st)"
proof (induction as arbitrary: st)
  case (Cons a as)
  show ?case
    unfolding expand_args.simps
  proof (rule expands_ebind)
    show "expands st (rec a st)" using assms Cons.prems by (simp add: expander_ok_def)
  next
    fix s st1 assume c: "counted st st1"
    have "expands st1 (expand_args rec as st1)" using Cons c by (simp add: counted_table_ok)
    then have "expands st (expand_args rec as st1)" by (rule expands_counted [OF c])
    then show "expands st (case (s, st1) of (a', st) \<Rightarrow> ebind (expand_args rec as st) (\<lambda>(as', st). ok (a' # as', st)))"
      by (auto intro: expands_ebind)
  qed
qed simp

lemma push_disabled_ok: "table_ok st \<Longrightarrow> table_ok (push_disabled a st)"
  unfolding push_disabled_def table_ok_def
  by (elim exE, rule exI, rule exI, rule table_rep_upd) auto

lemma pop_push: "\<not> m_disabled (heap st a) \<Longrightarrow> pop_disabled a ((push_disabled a st)\<lparr>pp_counter := k\<rparr>) = st\<lparr>pp_counter := k\<rparr>"
proof -
  assume "\<not> m_disabled (heap st a)"
  then have "(heap st a)\<lparr>m_disabled := False\<rparr> = heap st a" by (cases "heap st a") simp
  then show ?thesis
    by (cases st) (simp add: push_disabled_def pop_disabled_def upd_macro_def)
qed

lemma disabled_expands:
  assumes "expander_ok rec" and "table_ok st" and "\<not> m_disabled (heap st a)"
  shows "expands st (ebind (rec t (push_disabled a st)) (\<lambda>(s, st). ok (s, pop_disabled a st)))"
proof -
  have "expands (push_disabled a st) (rec t (push_disabled a st))"
    using assms push_disabled_ok by (simp add: expander_ok_def)
  then show ?thesis
    by (cases "rec t (push_disabled a st)")
       (auto simp: expands_def ebind_def ok_def counted_iff pop_push [OF assms(3)] split: sum.splits, blast)
qed

lemma substitute_macro_not_Fuel: "substitute_macro m args raws \<noteq> Fuel"
  by (simp add: substitute_macro_def merge_variadic_def Let_def)

lemma expand_call_ok:
  assumes rec: "expander_ok rec" and st: "table_ok st" and a: "\<not> m_disabled (heap st a)"
  shows "expands st (expand_call rec a name args st)"
proof -
  let ?d = "m_def (heap st a)" and ?raws = "args @ replicate (param_len (m_def (heap st a)) - length args) []"
  have main: "expands st (ebind (expand_args rec ?raws st) (\<lambda>(args', st).
        let st = push_disabled a st in
        rbind (substitute_macro (m_def (heap st a)) args' ?raws) (\<lambda>subst.
        ebind (rec subst st) (\<lambda>(s, st). ok (s, pop_disabled a st)))))"
  proof (rule expands_ebind [OF expand_args_ok [OF rec st]])
    fix as' st1 assume c: "counted st st1"
    then have st1: "table_ok st1" "\<not> m_disabled (heap st1 a)" using st a by (auto simp: counted_iff)
    have "expands st1 (let st = push_disabled a st1 in
        rbind (substitute_macro (m_def (heap st a)) as' ?raws) (\<lambda>subst.
        ebind (rec subst st) (\<lambda>(s, st). ok (s, pop_disabled a st))))"
      unfolding Let_def
      using substitute_macro_not_Fuel [of "m_def (heap (push_disabled a st1) a)" as' ?raws] disabled_expands [OF rec st1]
      by (cases "substitute_macro (m_def (heap (push_disabled a st1) a)) as' ?raws") simp_all
    from expands_counted [OF c this]
    show "expands st (case (as', st1) of (args', st) \<Rightarrow> let st = push_disabled a st in
        rbind (substitute_macro (m_def (heap st a)) args' ?raws) (\<lambda>subst.
        ebind (rec subst st) (\<lambda>(s, st). ok (s, pop_disabled a st))))" by simp
  qed
  then show ?thesis by (simp add: expand_call_def Let_def)
qed

lemma parse_args_not_Fuel: "parse_args p d cur args \<noteq> Fuel"
  by (induction p d cur args rule: parse_args.induct) (auto simp: ok_def fatal_def)


lemma call_expands:
  assumes "table_ok st" and "\<And>args end. parse_macro_args q = Done (Inr (args, end)) \<Longrightarrow> expands st (call args)"
    and "\<And>args end s st'. parse_macro_args q = Done (Inr (args, end)) \<Longrightarrow> counted st st' \<Longrightarrow> expands st' (cont s end st')"
  shows "expands st (ebind (parse_macro_args q) (\<lambda>(args, end). ebind (call args) (\<lambda>(s, st). cont s end st)))"
proof (cases "parse_macro_args q")
  case Fuel
  then show ?thesis by (simp add: parse_macro_args_def parse_args_not_Fuel)
next
  case (Done r)
  show ?thesis
  proof (cases r)
    case (Inr ae)
    with Done assms show ?thesis
      by (cases ae) (auto intro!: expands_ebind intro: expands_counted)
  qed (use Done in simp)
qed simp

lemma expand_loop_ok:
  assumes rec: "expander_ok rec"
  shows "table_ok st \<Longrightarrow> expands st (expand_loop rec file line p prev out st)"
proof (induction "length p" arbitrary: p prev out st rule: less_induct)
  case less
  show ?case
  proof (cases p)
    case (Cons c p')
    let ?name = "takeWhile pp_is_ident2 (c # p')" and ?r = "dropWhile pp_is_ident2 (c # p')"
    let ?q = "dropWhile is_space ?r"
    have step: "expands st (expand_loop rec file line p2 prev2 out2 st2)"
      if "length p2 < length p" "counted st st2" for p2 prev2 out2 st2
      using less.hyps [OF that(1)] less.prems counted_table_ok [OF that(2)] expands_counted [OF that(2)] by blast
    consider (blue) "c = BLUE" | (quote) "c \<noteq> BLUE" "c = DQ \<or> c = SQ" | (other) "c \<noteq> BLUE" "\<not> (c = DQ \<or> c = SQ)" "\<not> pp_is_ident1 c"
      | (ident) "c \<noteq> BLUE" "\<not> (c = DQ \<or> c = SQ)" "pp_is_ident1 c" by blast
    then show ?thesis
    proof cases
      case blue
      then show ?thesis unfolding Cons
        by (simp add: Let_def) (intro conjI impI step; simp add: Cons le_imp_less_Suc length_dropWhile_le)
    next
      case quote
      then show ?thesis unfolding Cons
        by (simp add: Let_def) (intro conjI impI step; simp add: Cons le_imp_less_Suc take_quoted_rest)
    next
      case other
      then show ?thesis unfolding Cons by simp (rule step, simp_all add: Cons)
    next
      case ident
      have r: "length ?r < length p" using ident by (simp add: Cons ident1_ident2 le_imp_less_Suc length_dropWhile_le)
      define keep where "keep = (\<lambda>s st. expand_loop rec file line ?r (Some (last ?name)) (out @ s) st)"
      have keep: "expands st (keep s st2)" if "counted st st2" for s st2
        unfolding keep_def by (rule step [OF r that])
      define number where "number \<longleftrightarrow> (case prev of None \<Rightarrow> False | Some d \<Rightarrow> is_digit d \<or> d = CHR ''.'') \<and> list_all is_suffix_char ?name"
      have eq: "expand_loop rec file line p prev out st =
        (if ?name = ''__LINE__'' then keep (show_nat line) st
         else if ?name = ''__FILE__'' then keep (quote_string file) st
         else if ?name = ''__COUNTER__'' then keep (show_int (pp_counter st)) (st\<lparr>pp_counter := pp_counter st + 1\<rparr>)
         else if is_function_name ?name then keep ?name st
         else if (?name = ''__has_include'' \<or> ?name = ''__has_include_next'') \<and> deref ?q = CHR ''('' then keep ?name st
         else if number then keep ?name st
         else rbind (find_macro st ?name) (\<lambda>m. case m of None \<Rightarrow> keep ?name st
          | Some a \<Rightarrow>
              if m_disabled (heap st a) then keep (BLUE # ?name) st
              else if is_function (m_def (heap st a)) then
                (if deref ?q \<noteq> CHR ''('' then keep ?name st
                 else ebind (parse_macro_args (tl ?q)) (\<lambda>(args, end).
                   ebind (expand_call rec a ?name args st) (\<lambda>(s, st).
                     expand_loop rec file line end (Some CHR '')'') (out @ s) st)))
              else ebind (rec (body (m_def (heap st a))) (push_disabled a st)) (\<lambda>(s, st). keep s (pop_disabled a st))))"
        using ident unfolding Cons keep_def number_def by (simp only: expand_loop.simps Let_def if_False if_True not_True_eq_False)
      have lookup: "expands st (rbind (find_macro st ?name) (\<lambda>m. case m of None \<Rightarrow> keep ?name st
          | Some a \<Rightarrow>
              if m_disabled (heap st a) then keep (BLUE # ?name) st
              else if is_function (m_def (heap st a)) then
                (if deref ?q \<noteq> CHR ''('' then keep ?name st
                 else ebind (parse_macro_args (tl ?q)) (\<lambda>(args, end).
                   ebind (expand_call rec a ?name args st) (\<lambda>(s, st).
                     expand_loop rec file line end (Some CHR '')'') (out @ s) st)))
              else ebind (rec (body (m_def (heap st a))) (push_disabled a st)) (\<lambda>(s, st). keep s (pop_disabled a st))))"
      proof (cases "find_macro st ?name")
        case (Done m)
        show ?thesis
        proof (cases m)
          case None
          with Done show ?thesis by (simp add: keep del: takeWhile.simps dropWhile.simps)
        next
          case (Some a)
          consider "m_disabled (heap st a)" | "\<not> m_disabled (heap st a)" "is_function (m_def (heap st a))" "deref ?q \<noteq> CHR ''(''"
            | "\<not> m_disabled (heap st a)" "is_function (m_def (heap st a))" "deref ?q = CHR ''(''"
            | "\<not> m_disabled (heap st a)" "\<not> is_function (m_def (heap st a))" by blast
          then show ?thesis
          proof cases
            case 3
            have "expands st (ebind (parse_macro_args (tl ?q)) (\<lambda>(args, end).
                   ebind (expand_call rec a ?name args st) (\<lambda>(s, st).
                     expand_loop rec file line end (Some CHR '')'') (out @ s) st)))"
            proof (rule call_expands [OF less.prems])
              show "expands st (expand_call rec a ?name args st)" for args
                by (rule expand_call_ok [OF rec less.prems 3(1)])
              fix args "end" s st2
              assume e: "parse_macro_args (tl ?q) = Done (Inr (args, end))" and c: "counted st st2"
              have "length end < length p"
                using parse_macro_args_rest [OF e] length_dropWhile_le [of is_space ?r] r by simp
              then show "expands st2 (expand_loop rec file line end (Some CHR '')'') (out @ s) st2)"
                using less.hyps less.prems c by (simp add: counted_table_ok)
            qed
            with 3 Done Some show ?thesis by (simp del: takeWhile.simps dropWhile.simps)
          next
            case 4
            have "expands st (ebind (rec (body (m_def (heap st a))) (push_disabled a st)) (\<lambda>(s, st). keep s (pop_disabled a st)))"
              using disabled_expands [OF rec less.prems 4(1), of "body (m_def (heap st a))"] keep
              by (cases "rec (body (m_def (heap st a))) (push_disabled a st)")
                 (auto simp: expands_def ebind_def ok_def split: sum.splits)
            with 4 Done Some show ?thesis by (simp del: takeWhile.simps dropWhile.simps)
          qed (use Done Some keep in \<open>simp_all del: takeWhile.simps dropWhile.simps\<close>)
        qed
      qed (use table_ok_find [OF less.prems, of ?name] in \<open>simp_all del: takeWhile.simps dropWhile.simps\<close>)
      show ?thesis unfolding eq
        by (intro expands_if lookup keep) simp_all
    qed
  qed simp
qed


lemma expander_ok_expand_text: "expander_ok (expand_text d file line)"
proof (induction d)
  case 0
  show ?case by (simp add: expander_ok_def)
next
  case (Suc d)
  show ?case
    unfolding expander_ok_def expand_text.simps
  proof (intro allI impI expands_ebind)
    fix t st assume st: "table_ok st"
    show "expands st (expand_loop (expand_text d file line) file line t None [] st)"
      by (rule expand_loop_ok [OF Suc st])
    fix out st1 assume c: "counted st st1"
    then have "expands st1 (expand_text d file line out st1)"
      using Suc st by (simp add: expander_ok_def counted_table_ok)
    from expands_counted [OF c this] c
    show "expands st (case (out, st1) of (out, st) \<Rightarrow> if out \<noteq> t then expand_text d file line out st else ok (out, st))"
      by simp
  qed
qed

text \<open>
  C17. Expansion always ends: on a consistent macro table \<open>expand_text\<close> comes back for every text and depth, with
  recursive macros too, and when it returns a text, no macro is left disabled or changed: the state is the old one but for the value of
  \<open>__COUNTER__\<close>.
\<close>

theorem expand_text_ends:
  assumes "table_ok st"
  shows "expand_text d file line text st \<noteq> Fuel
    \<and> (\<forall>out st'. expand_text d file line text st = Done (Inr (out, st')) \<longrightarrow> st' = st\<lparr>pp_counter := pp_counter st'\<rparr>)"
  using expander_ok_expand_text assms by (simp add: expander_ok_def expands_def counted_def)

definition with_macros :: "(string \<times> macro_def) list \<Rightarrow> pp_state" where
  "with_macros ds = the_res (run_ops (\<lambda>(n, d). define_directive n d) ds pp_start)"

lemma with_macros_ok: "list_all (\<lambda>(n, d). is_gnu_variadic d \<longrightarrow> is_variadic d) ds \<Longrightarrow> table_ok (with_macros ds)"
proof -
  assume a: "list_all (\<lambda>(n, d). is_gnu_variadic d \<longrightarrow> is_variadic d) ds"
  have e: "run_ops (\<lambda>(n, d). define_directive n d) ds st = run_ops macro_step (map (\<lambda>(n, d). Define n d) ds) st" for st
  proof (induction ds arbitrary: st)
    case (Cons x xs)
    then have "run_ops (\<lambda>(n, d). define_directive n d) xs = run_ops macro_step (map (\<lambda>(n, d). Define n d) xs)" by (intro ext)
    then show ?case by (cases x) simp
  qed simp
  have "list_all op_allowed (map (\<lambda>(n, d). Define n d) ds)" using a by (auto simp: list_all_iff)
  from mt.run_sim [OF table_ok_start this] show ?thesis unfolding with_macros_def e by auto
qed

definition obj_macro :: "string \<Rightarrow> macro_def" where
  "obj_macro b = empty_def\<lparr>body := b\<rparr>"

definition fun_macro :: "string list \<Rightarrow> string \<Rightarrow> macro_def" where
  "fun_macro ps b = empty_def\<lparr>is_function := True, params := ps, body := b\<rparr>"

text \<open>The text of a line expanded at the top level, without the markers.\<close>

definition expand_line :: "pp_state \<Rightarrow> string \<Rightarrow> string option" where
  "expand_line st s = (case expand_text EXPAND_DEPTH ''f.c'' 7 s st of
     Done (Inr (t, _)) \<Rightarrow> Some (strip_bluepaint t) | _ \<Rightarrow> None)"

theorem expand_text_ends_witness:
  "expand_text EXPAND_DEPTH ''f.c'' 7 ''X'' (with_macros [(''X'', obj_macro ''Y''), (''Y'', obj_macro ''X+1'')]) \<noteq> Fuel"
proof -
  have "table_ok (with_macros [(''X'', obj_macro ''Y''), (''Y'', obj_macro ''X+1'')])"
    by (rule with_macros_ok) (simp add: obj_macro_def empty_def_def)
  from expand_text_ends [OF this] show ?thesis by blast
qed

text \<open>
  The \<open>##\<close> operator and the \<open>#\<close> operator are not those of the C standard: the operands of
  \<open>##\<close> are expanded before they are pasted (C11 6.10.3.1 excludes them), \<open>#__VA_ARGS__\<close> is left as it is, and a
  \<open>##\<close> inside a string literal is taken out of it.
\<close>

theorem paste_and_stringize:
  "expand_line (with_macros [(''C'', fun_macro [''a'', ''b''] ''a##b''), (''X'', obj_macro ''1'')]) ''C(X,2)'' = Some ''12''
   \<and> expand_line (with_macros [(''S'', (fun_macro [] ''#__VA_ARGS__'')\<lparr>is_variadic := True\<rparr>)]) ''S(x,y)'' = Some ''#__VA_ARGS__''
   \<and> expand_line (with_macros [(''P'', fun_macro [''s''] ''p(s)'')]) (''P('' @ [DQ] @ ''## t'' @ [DQ] @ '')'')
       = Some (''p('' @ [DQ] @ ''t'' @ [DQ] @ '')'')"
  by (intro conjI; code_simp)

text \<open>
  A preprocessing number is not one token: the letters behind its digits are looked up as a macro name of
  their own, unless they are all of \<open>FfLlUu\<close>.
\<close>

theorem number_tail_expanded:
  "expand_line (with_macros [(''e5'', obj_macro ''9''), (''F'', obj_macro ''140'')]) ''1e5 0.0F'' = Some ''19 0.0F''"
  by code_simp

section \<open>Arguments of a call, read back\<close>

text \<open>An argument without separators and without spaces around it.\<close>

definition plain_arg :: "string \<Rightarrow> bool" where
  "plain_arg a \<longleftrightarrow> list_all (\<lambda>c. c \<notin> {DQ, SQ, CHR ''('', CHR '')'', CHR '',''}) a \<and> trim_copy a = a"

lemma parse_args_plain:
  "list_all (\<lambda>c. c \<notin> {DQ, SQ, CHR ''('', CHR '')'', CHR '',''}) a \<Longrightarrow>
   parse_args (a @ p) 1 cur args = parse_args p 1 (cur @ a) args"
  by (induction a arbitrary: cur) auto

lemma parse_args_join:
  "as \<noteq> [] \<Longrightarrow> list_all plain_arg as \<Longrightarrow> \<not> (as = [[]] \<and> acc = []) \<Longrightarrow> length acc \<le> MAX_ARGS \<Longrightarrow>
   parse_args (join_args as @ '')'' @ r) 1 [] acc =
     (if length acc + length as \<le> MAX_ARGS then ok (acc @ as, r)
      else if length acc + length as = MAX_ARGS + 1 then UB else fatal ''too many macro arguments'')"
proof (induction as arbitrary: acc rule: join_args.induct)
  case (2 a)
  then have "parse_args (a @ '')'' @ r) 1 [] acc = parse_args ('')'' @ r) 1 a acc"
    using parse_args_plain [of a "'')'' @ r" "[]" acc] by (simp add: plain_arg_def)
  with 2 show ?case by (auto simp: plain_arg_def)
next
  case (3 a b as)
  have p: "plain_arg a" "list_all plain_arg (b # as)" using 3(3) by simp_all
  then have a: "parse_args (a @ '','' @ s) 1 [] acc = parse_args ('','' @ s) 1 a acc" for s
    using parse_args_plain [of a "'','' @ s" "[]" acc] by (simp add: plain_arg_def)
  have j: "join_args (a # b # as) @ '')'' @ r = a @ '','' @ (join_args (b # as) @ '')'' @ r)" by simp
  show ?case
  proof (cases "length acc \<ge> MAX_ARGS")
    case True
    with 3(5) show ?thesis unfolding j a by simp
  next
    case False
    have t: "trim_copy a = a" using p(1) by (simp add: plain_arg_def)
    have "length (acc @ [a]) \<le> MAX_ARGS" "\<not> (b # as = [[]] \<and> acc @ [a] = [])" using False by simp_all
    from 3(1) [OF _ p(2) this(2,1)] False show ?thesis unfolding j a by (simp add: t)
  qed
qed simp

text \<open>
  C40. The arguments of a call are read as they were written: a list of at most 32 plain
  arguments joined by commas and closed by a parenthesis is read back with the text behind it. With 33 arguments the last one is written
  behind the end of the array, only from 34 on the code reports the error.
\<close>

theorem macro_args_read_back:
  assumes "as \<noteq> []" and "as \<noteq> [[]]" and "list_all plain_arg as"
  shows "parse_macro_args (join_args as @ '')'' @ r) =
    (if length as \<le> MAX_ARGS then ok (as, r)
     else if length as = MAX_ARGS + 1 then UB else fatal ''too many macro arguments'')"
  using parse_args_join [of as "[]" r] assms by (simp add: parse_macro_args_def MAX_ARGS_def)

theorem macro_args_read_back_witness:
  "parse_macro_args (join_args [''a'', '''', ''b+1''] @ '')'' @ '' ;'') = ok ([''a'', '''', ''b+1''], '' ;'')
   \<and> parse_macro_args (join_args (replicate 33 ''a'') @ '')'' @ []) = UB"
proof -
  have p: "list_all plain_arg [''a'', '''', ''b+1'']" "list_all plain_arg (replicate 33 ''a'')" by code_simp+
  from macro_args_read_back [OF _ _ p(1), of "'' ;''"] macro_args_read_back [OF _ _ p(2), of "[]"]
  moreover have "replicate 33 ''a'' \<noteq> [[]]" by (metis length_replicate length_Cons list.size(3) numeral_eq_one_iff One_nat_def semiring_norm(84))
  ultimately show ?thesis by (simp add: MAX_ARGS_def)
qed

end
