(* ===== verification/PPPaths.thy ===== *)
theory PPPaths
  imports Outcome
begin

text \<open>
  The path functions of the preprocessor (\<open>path_dirname\<close>, \<open>path_basename\<close>, \<open>path_join\<close> and
  \<open>canonical_path\<close> in \<open>src/preprocess.c\<close>, the branches without \<open>_WIN32\<close>). \<open>canonical_path\<close> keeps its
  components in arrays of 256 entries; writing behind them is \<open>UB\<close>. The meaning of a path is the
  directory list it leads to from a current directory (\<open>resolve\<close>), without symbolic links.
\<close>

abbreviation SLASH :: char where "SLASH \<equiv> CHR ''/''"

section \<open>Model\<close>

text \<open>The scan keeps in \<open>last\<close> the position behind the last slash seen.\<close>

fun last_slash :: "string \<Rightarrow> nat \<Rightarrow> nat \<Rightarrow> nat" where
  "last_slash [] pos lst = lst"
| "last_slash (c # p) pos lst = last_slash p (pos + 1) (if c = SLASH then pos + 1 else lst)"

definition path_dirname :: "string \<Rightarrow> string" where
  "path_dirname path = take (last_slash path 0 0) path"

definition path_basename :: "string \<Rightarrow> string" where
  "path_basename path = drop (last_slash path 0 0) path"

definition path_join :: "string \<Rightarrow> string \<Rightarrow> string" where
  "path_join dir file =
     (if dir = [] then file else dir @ (if last dir = SLASH then [] else [SLASH]) @ file)"

definition PATH_BUF :: nat where
  "PATH_BUF = 4096"

definition MAX_COMPS :: nat where
  "MAX_COMPS = 256"

definition push_comp :: "string list \<Rightarrow> string \<Rightarrow> string list res" where
  "push_comp comps c = (if length comps < MAX_COMPS then Done (comps @ [c]) else UB)"

definition next_comp :: "string \<Rightarrow> string" where
  "next_comp p = takeWhile (\<lambda>c. c \<noteq> SLASH) p"

definition after_comp :: "string \<Rightarrow> string" where
  "after_comp p = dropWhile (\<lambda>c. c = SLASH) (dropWhile (\<lambda>c. c \<noteq> SLASH) p)"

lemma after_comp_shorter: "length (after_comp (c # p)) < length (c # p)"
proof -
  have "length (after_comp (c # p)) \<le> length p"
    by (cases "c = SLASH")
       (auto simp: after_comp_def intro: order_trans [OF length_dropWhile_le] order_trans [OF length_dropWhile_le length_dropWhile_le])
  then show ?thesis by simp
qed

text \<open>What one component does to the array.\<close>

definition comp_step :: "bool \<Rightarrow> string list \<Rightarrow> string \<Rightarrow> string list res" where
  "comp_step absolute comps start =
     (if start = ''.'' then Done comps
      else if start = ''..'' then
        (if comps \<noteq> [] \<and> last comps \<noteq> ''..'' then Done (butlast comps)
         else if \<not> absolute then push_comp comps start
         else Done comps)
      else push_comp comps start)"

function comps_loop :: "bool \<Rightarrow> string \<Rightarrow> string list \<Rightarrow> string list res" where
  "comps_loop absolute [] comps = Done comps"
| "comps_loop absolute (c # p) comps =
     rbind (comp_step absolute comps (next_comp (c # p))) (\<lambda>comps'.
       comps_loop absolute (after_comp (c # p)) comps')"
  by pat_completeness auto
termination
  by (relation "measure (\<lambda>(a, p, cs). length p)") (auto simp: after_comp_shorter [simplified])

fun join_comps :: "string list \<Rightarrow> string" where
  "join_comps [] = []"
| "join_comps [c] = c"
| "join_comps (c # d # cs) = c @ SLASH # join_comps (d # cs)"

definition canonical_path :: "string \<Rightarrow> string res" where
  "canonical_path path =
     (if path = [] then Done path
      else if PATH_BUF \<le> length path then Done path
      else let absolute = (deref path = SLASH);
               p = (if absolute then tl path else path) in
        rbind (comps_loop absolute p []) (\<lambda>comps.
          let out = (if absolute then [SLASH] else []) @ join_comps comps in
          if PATH_BUF \<le> length out then UB
          else Done (if out = [] then ''.'' else out)))"

section \<open>The meaning of a path\<close>

text \<open>
  A directory is the list of names from the root to it, innermost first. The parent of the root is
  the root.
\<close>

definition enter :: "string \<Rightarrow> string list \<Rightarrow> string list" where
  "enter c dir = (if c = [] \<or> c = ''.'' then dir else if c = ''..'' then tl dir else c # dir)"

fun components :: "string \<Rightarrow> string list" where
  "components [] = [[]]"
| "components (c # p) =
     (if c = SLASH then [] # components p
      else (case components p of d # ds \<Rightarrow> (c # d) # ds | [] \<Rightarrow> [[c]]))"

definition resolve :: "string list \<Rightarrow> string \<Rightarrow> string list" where
  "resolve cwd p = fold enter (components p) (if deref p = SLASH then [] else cwd)"

section \<open>Directory and base name\<close>

lemma last_slash_bounds: "lst \<le> pos \<Longrightarrow> last_slash p pos lst \<le> pos + length p"
  by (induction p pos lst rule: last_slash.induct) force+

lemma last_slash_split:
  "lst \<le> length u \<Longrightarrow> (u = [] \<and> lst = 0 \<or> lst = 0 \<or> u ! (lst - 1) = SLASH) \<Longrightarrow> SLASH \<notin> set (drop lst u) \<Longrightarrow>
   SLASH \<notin> set (drop (last_slash p (length u) lst) (u @ p))
   \<and> (last_slash p (length u) lst = 0 \<or> (u @ p) ! (last_slash p (length u) lst - 1) = SLASH)"
proof (induction p arbitrary: u lst)
  case (Cons c p)
  show ?case
  proof (cases "c = SLASH")
    case True
    with Cons.IH [of "length (u @ [c])" "u @ [c]"] show ?thesis by simp
  next
    case False
    with Cons.prems have "lst = 0 \<or> (u @ [c]) ! (lst - 1) = SLASH"
      by (cases lst) (auto simp: nth_append)
    with False Cons.IH [of lst "u @ [c]"] Cons.prems show ?thesis by auto
  qed
qed auto

lemma dirname_basename:
  "path_dirname p @ path_basename p = p"
  "SLASH \<notin> set (path_basename p)"
  "path_dirname p = [] \<or> last (path_dirname p) = SLASH"
proof -
  show "path_dirname p @ path_basename p = p"
    by (simp add: path_dirname_def path_basename_def)
  from last_slash_split [of 0 "[]" p]
  have "SLASH \<notin> set (drop (last_slash p 0 0) p)" "last_slash p 0 0 = 0 \<or> p ! (last_slash p 0 0 - 1) = SLASH"
    by simp_all
  moreover have "last_slash p 0 0 \<le> length p" using last_slash_bounds [of 0 0 p] by simp
  moreover have "0 < k \<Longrightarrow> k \<le> length p \<Longrightarrow> last (take k p) = p ! (k - 1)" for k
    by (subst last_conv_nth) auto
  ultimately show "SLASH \<notin> set (path_basename p)" "path_dirname p = [] \<or> last (path_dirname p) = SLASH"
    by (simp_all add: path_basename_def path_dirname_def) (metis gr0I)
qed

section \<open>Components\<close>

lemma components_next:
  "components p = next_comp p #
     (case dropWhile (\<lambda>c. c \<noteq> SLASH) p of [] \<Rightarrow> [] | _ # r \<Rightarrow> components r)"
  by (induction p) (auto simp: next_comp_def split: list.splits)

lemma fold_components_slashes:
  "fold enter (components (dropWhile (\<lambda>c. c = SLASH) p)) d = fold enter (components p) d"
  by (induction p) (auto simp: enter_def)

lemma fold_components_after:
  "fold enter (components (after_comp p)) (enter (next_comp p) d) = fold enter (components p) d"
proof (cases "dropWhile (\<lambda>c. c \<noteq> SLASH) p")
  case Nil
  show ?thesis
    by (simp add: components_next [of p] after_comp_def enter_def Nil del: dropWhile_eq_Nil_conv)
next
  case (Cons s r)
  with hd_dropWhile [of "\<lambda>c. c \<noteq> SLASH" p] have "s = SLASH" by simp
  then show ?thesis
    by (simp add: components_next [of p] after_comp_def fold_components_slashes Cons)
qed

lemma next_comp_no_slash: "SLASH \<notin> set (next_comp p)"
  by (auto simp: next_comp_def dest: set_takeWhileD)

lemma after_comp_deref: "deref (after_comp p) \<noteq> SLASH"
proof (cases "after_comp p")
  case (Cons c r)
  then have "hd (after_comp p) \<noteq> SLASH"
    unfolding after_comp_def by (metis (mono_tags, lifting) hd_dropWhile list.discI)
  with Cons show ?thesis by simp
qed (simp add: NUL_def)

lemma next_comp_Nil: "next_comp (c # p) = [] \<longleftrightarrow> c = SLASH"
  by (simp add: next_comp_def)

text \<open>
  The components kept so far: no \<open>.\<close>, no slash, an empty one only in front of an absolute path (from a
  path that starts with two slashes), a \<open>..\<close> only in front of a relative one.
\<close>

fun dots_first :: "string list \<Rightarrow> bool" where
  "dots_first [] = True"
| "dots_first (c # cs) = (if c = ''..'' then dots_first cs else ''..'' \<notin> set cs)"

definition comps_inv :: "bool \<Rightarrow> string list \<Rightarrow> bool" where
  "comps_inv absolute cs \<longleftrightarrow> ''.'' \<notin> set cs \<and> (\<forall>c \<in> set cs. SLASH \<notin> set c) \<and> [] \<notin> set (tl cs)
     \<and> (absolute \<longrightarrow> ''..'' \<notin> set cs) \<and> (\<not> absolute \<longrightarrow> [] \<notin> set cs) \<and> dots_first cs"

lemma dots_first_append:
  "dots_first (cs @ [c]) \<longleftrightarrow> dots_first cs \<and> (c = ''..'' \<longrightarrow> (\<forall>d \<in> set cs. d = ''..''))"
  by (induction cs) auto

lemma dots_first_last: "dots_first cs \<Longrightarrow> cs \<noteq> [] \<Longrightarrow> last cs = ''..'' \<Longrightarrow> \<forall>d \<in> set cs. d = ''..''"
proof (induction cs)
  case (Cons c cs)
  then show ?case by (auto split: if_splits) (metis last_in_set)
qed simp

lemma comps_inv_butlast:
  assumes "comps_inv a (cs @ [l])"
  shows "comps_inv a cs"
proof -
  have "[] \<notin> set (tl cs)" using assms by (cases cs) (simp_all add: comps_inv_def)
  with assms show ?thesis by (simp add: comps_inv_def dots_first_append)
qed

lemma comps_inv_push:
  assumes "comps_inv a cs" and "SLASH \<notin> set c" and "c = [] \<Longrightarrow> a \<and> cs = []"
    and "c \<noteq> ''.''" and "c = ''..'' \<Longrightarrow> \<not> a \<and> (cs = [] \<or> last cs = ''..'')"
  shows "comps_inv a (cs @ [c])"
proof -
  have "dots_first (cs @ [c])"
    using assms(1,5) dots_first_last [of cs]
    unfolding comps_inv_def dots_first_append by fastforce
  moreover have "[] \<notin> set (tl (cs @ [c]))"
    using assms(1,3) by (cases cs) (auto simp: comps_inv_def)
  moreover have "a \<longrightarrow> ''..'' \<notin> set (cs @ [c])"
    using assms(1,5) by (auto simp: comps_inv_def)
  moreover have "\<not> a \<longrightarrow> [] \<notin> set (cs @ [c])"
    using assms(1,3) by (auto simp: comps_inv_def)
  ultimately show ?thesis
    using assms(1,2,4) by (simp add: comps_inv_def)
qed

lemma comp_step_inv:
  assumes "comps_inv a cs" and "comp_step a cs c = Done cs'" and "SLASH \<notin> set c"
    and "c = [] \<Longrightarrow> a \<and> cs = []"
  shows "comps_inv a cs'"
proof -
  have push: "comps_inv a (cs @ [c])"
    if "c \<noteq> ''.''" "c = ''..'' \<longrightarrow> \<not> a \<and> (cs = [] \<or> last cs = ''..'')"
    using assms that by (intro comps_inv_push) auto
  show ?thesis
  proof (cases "c = ''..'' \<and> cs \<noteq> [] \<and> last cs \<noteq> ''..''")
    case True
    then have "cs' = butlast cs" using assms(2) by (simp add: comp_step_def)
    moreover obtain ds l where "cs = ds @ [l]" using True by (meson rev_exhaust)
    ultimately show ?thesis using assms(1) comps_inv_butlast by auto
  next
    case False
    with assms(1,2) push show ?thesis
      by (auto simp: comp_step_def push_comp_def split: if_splits)
  qed
qed

lemma comp_step_meaning:
  assumes "comps_inv a cs" and "comp_step a cs c = Done cs'" and "a \<Longrightarrow> d = []"
  shows "fold enter cs' d = enter c (fold enter cs d)"
proof (cases "c = ''..'' \<and> cs \<noteq> [] \<and> last cs \<noteq> ''..''")
  case True
  then obtain ds l where cs: "cs = ds @ [l]" by (meson rev_exhaust)
  with True assms(1,2) have "cs' = ds" "l \<noteq> ''..''" "l \<noteq> ''.''"
    by (auto simp: comp_step_def comps_inv_def)
  moreover have "l = [] \<Longrightarrow> ds = [] \<and> a"
    using assms(1) cs by (cases ds) (auto simp: comps_inv_def)
  ultimately show ?thesis using True cs assms(3) by (auto simp: enter_def)
next
  case False
  have "cs = []" if "c = ''..''" "a"
    using False that assms(1) unfolding comps_inv_def by (metis last_in_set)
  with False assms(2,3) show ?thesis
    by (auto simp: comp_step_def push_comp_def enter_def split: if_splits)
qed

lemma comps_loop_meaning:
  "comps_loop a p cs = Done cs' \<Longrightarrow> comps_inv a cs \<Longrightarrow> (deref p = SLASH \<Longrightarrow> a \<and> cs = []) \<Longrightarrow> (a \<Longrightarrow> d = []) \<Longrightarrow>
   comps_inv a cs' \<and> fold enter cs' d = fold enter (components p) (fold enter cs d)"
proof (induction a p cs rule: comps_loop.induct)
  case (2 a c p cs)
  from "2.prems"(1) obtain cs1
    where s: "comp_step a cs (next_comp (c # p)) = Done cs1" and r: "comps_loop a (after_comp (c # p)) cs1 = Done cs'"
    by auto
  have inv: "comps_inv a cs1"
    using comp_step_inv [OF "2.prems"(2) s next_comp_no_slash] "2.prems"(3) by (simp add: next_comp_Nil)
  from "2.IH" [OF s r inv _ "2.prems"(4)] after_comp_deref
  have "comps_inv a cs' \<and> fold enter cs' d = fold enter (components (after_comp (c # p))) (fold enter cs1 d)"
    by blast
  with comp_step_meaning [OF "2.prems"(2) s "2.prems"(4)] fold_components_after [of "c # p"]
  show ?case by simp
qed (simp add: enter_def)


section \<open>The arrays are large enough\<close>

definition slashes :: "string \<Rightarrow> nat" where
  "slashes p = length (filter (\<lambda>c. c = SLASH) p)"

definition joined_size :: "string list \<Rightarrow> nat" where
  "joined_size cs = sum_list (map (\<lambda>c. length c + 1) cs)"

lemma joined_size_simps [simp]:
  "joined_size [] = 0"
  "joined_size (c # cs) = length c + 1 + joined_size cs"
  "joined_size (cs @ ds) = joined_size cs + joined_size ds"
  by (simp_all add: joined_size_def)

lemma length_join_comps: "cs \<noteq> [] \<Longrightarrow> length (join_comps cs) + 1 = joined_size cs"
  by (induction cs rule: join_comps.induct) auto

lemma joined_size_butlast: "joined_size (butlast cs) \<le> joined_size cs"
  by (induction cs) auto

definition path_size :: "string \<Rightarrow> nat" where
  "path_size p = (if p = [] then 0 else length p + 1)"

lemma after_comp_cases:
  "after_comp p = [] \<or> (length (next_comp p) + length (after_comp p) + 1 \<le> length p \<and> slashes (after_comp p) < slashes p)"
proof (cases "dropWhile (\<lambda>c. c \<noteq> SLASH) p")
  case Nil
  show ?thesis by (simp add: after_comp_def Nil del: dropWhile_eq_Nil_conv)
next
  case (Cons s r)
  with hd_dropWhile [of "\<lambda>c. c \<noteq> SLASH" p] have s: "s = SLASH" by simp
  then have a: "after_comp p = dropWhile (\<lambda>c. c = SLASH) r" by (simp add: after_comp_def Cons)
  have p: "p = next_comp p @ s # r"
    unfolding next_comp_def Cons [symmetric] by simp
  have "slashes p = Suc (slashes r)"
    using next_comp_no_slash [of p] unfolding slashes_def
    by (subst p) (auto simp: s filter_empty_conv)
  moreover have "slashes (dropWhile (\<lambda>c. c = SLASH) r) \<le> slashes r"
    unfolding slashes_def by (induction r) auto
  moreover have "length p = length (next_comp p) + Suc (length r)"
    using arg_cong [OF p, of length] by simp
  ultimately show ?thesis using a length_dropWhile_le [of "\<lambda>c. c = SLASH" r] by simp
qed

lemma comp_step_size:
  "comp_step a cs c = Done cs' \<Longrightarrow> joined_size cs' \<le> joined_size cs + length c + 1"
  using joined_size_butlast [of cs]
  by (auto simp: comp_step_def push_comp_def split: if_splits)

lemma comp_step_Done:
  "length cs < MAX_COMPS \<Longrightarrow> \<exists>cs'. comp_step a cs c = Done cs' \<and> length cs' \<le> length cs + 1"
  by (auto simp: comp_step_def push_comp_def)

lemma length_next_comp: "length (next_comp p) \<le> length p"
  by (simp add: next_comp_def length_takeWhile_le)

lemma comps_loop_size:
  "comps_loop a p cs = Done cs' \<Longrightarrow> joined_size cs' \<le> joined_size cs + path_size p"
proof (induction a p cs rule: comps_loop.induct)
  case (2 a c p cs)
  from "2.prems" obtain cs1
    where s: "comp_step a cs (next_comp (c # p)) = Done cs1" and r: "comps_loop a (after_comp (c # p)) cs1 = Done cs'"
    by auto
  from "2.IH" [OF s r] comp_step_size [OF s] after_comp_cases [of "c # p"] length_next_comp [of "c # p"]
  show ?case by (auto simp: path_size_def split: if_splits)
qed simp

lemma comps_loop_Done:
  "length cs + slashes p < MAX_COMPS \<Longrightarrow> \<exists>cs'. comps_loop a p cs = Done cs' \<and> length cs' \<le> MAX_COMPS"
proof (induction a p cs rule: comps_loop.induct)
  case (2 a c p cs)
  from comp_step_Done [of cs a "next_comp (c # p)"] "2.prems" obtain cs1
    where s: "comp_step a cs (next_comp (c # p)) = Done cs1" "length cs1 \<le> length cs + 1" by auto
  show ?case
  proof (cases "after_comp (c # p) = []")
    case True
    with s "2.prems" show ?thesis by simp
  next
    case False
    with after_comp_cases [of "c # p"] s "2.prems"
    have "length cs1 + slashes (after_comp (c # p)) < MAX_COMPS" by linarith
    from "2.IH" [OF s(1) this] s(1) show ?thesis by simp
  qed
qed simp

section \<open>Canonical paths are left as they are\<close>

lemma join_comps_next:
  assumes "SLASH \<notin> set c" and "\<forall>d \<in> set cs. SLASH \<notin> set d \<and> d \<noteq> []"
  shows "next_comp (join_comps (c # cs)) = c \<and> after_comp (join_comps (c # cs)) = join_comps cs"
proof (cases cs)
  case Nil
  have "takeWhile (\<lambda>x. x \<noteq> SLASH) c = c" "dropWhile (\<lambda>x. x \<noteq> SLASH) c = []"
    using assms(1) by (auto simp: takeWhile_eq_all_conv)
  with Nil show ?thesis by (simp add: next_comp_def after_comp_def del: dropWhile_eq_Nil_conv)
next
  case (Cons d ds)
  have "takeWhile (\<lambda>x. x \<noteq> SLASH) (c @ SLASH # r) = c" "dropWhile (\<lambda>x. x \<noteq> SLASH) (c @ SLASH # r) = SLASH # r" for r
    using assms(1) by (auto simp: takeWhile_append dropWhile_append)
  moreover from assms(2) Cons obtain x y where "d = x # y" "x \<noteq> SLASH" by (cases d) auto
  then have "dropWhile (\<lambda>x. x = SLASH) (join_comps (d # ds)) = join_comps (d # ds)"
    by (cases ds) auto
  ultimately show ?thesis using Cons by (simp add: next_comp_def after_comp_def)
qed

lemma dots_first_prefix: "dots_first (cs @ ds) \<Longrightarrow> dots_first cs"
  by (induction cs) (auto split: if_splits)

lemma comp_step_keep:
  assumes "comps_inv a (cs @ c # ds)" and "length cs < MAX_COMPS"
  shows "comp_step a cs c = Done (cs @ [c])"
proof -
  have "dots_first (cs @ [c])"
    using dots_first_prefix [of "cs @ [c]" ds] assms(1) by (simp add: comps_inv_def)
  then have last: "c = ''..'' \<Longrightarrow> cs = [] \<or> last cs = ''..''" unfolding dots_first_append by (metis last_in_set)
  from assms(1) have "c \<noteq> ''.''" "c = ''..'' \<Longrightarrow> \<not> a" unfolding comps_inv_def by auto
  with last assms(2) show ?thesis
    by (cases "c = ''..''"; cases "cs = []") (simp_all add: comp_step_def push_comp_def)
qed

lemma comps_loop_join:
  "comps_inv a (cs @ ds) \<Longrightarrow> length (cs @ ds) \<le> MAX_COMPS \<Longrightarrow> join_comps ds \<noteq> [] \<or> ds = [] \<Longrightarrow>
   comps_loop a (join_comps ds) cs = Done (cs @ ds)"
proof (induction ds arbitrary: cs)
  case (Cons d ds)
  have rest: "\<forall>e \<in> set ds. SLASH \<notin> set e \<and> e \<noteq> []"
    using Cons.prems(1) by (cases cs) (auto simp: comps_inv_def)
  from Cons.prems(1) have "SLASH \<notin> set d" by (auto simp: comps_inv_def)
  from join_comps_next [OF this rest]
  have n: "next_comp (join_comps (d # ds)) = d" "after_comp (join_comps (d # ds)) = join_comps ds" by auto
  obtain x y where xy: "join_comps (d # ds) = x # y"
    using Cons.prems(3) by (cases "join_comps (d # ds)") auto
  have "join_comps ds \<noteq> [] \<or> ds = []" using rest by (cases ds rule: join_comps.cases) auto
  with Cons.IH [of "cs @ [d]"] Cons.prems(1,2)
  have "comps_loop a (join_comps ds) (cs @ [d]) = Done (cs @ d # ds)" by simp
  with comp_step_keep [OF Cons.prems(1)] Cons.prems(2) n show ?case by (simp add: xy)
qed simp


lemma components_join:
  assumes "\<forall>c \<in> set cs. SLASH \<notin> set c" and "cs \<noteq> []"
  shows "components (join_comps cs) = cs"
proof -
  have one: "SLASH \<notin> set c \<Longrightarrow> components c = [c]" for c by (induction c) auto
  have more: "SLASH \<notin> set c \<Longrightarrow> components (c @ SLASH # r) = c # components r" for c r
    by (induction c) auto
  from assms show ?thesis by (induction cs rule: join_comps.induct) (simp_all add: one more)
qed

lemma deref_join: "cs \<noteq> [] \<Longrightarrow> hd cs \<noteq> [] \<Longrightarrow> deref (join_comps cs) = hd (hd cs)"
  by (cases cs rule: join_comps.cases; cases "hd cs") auto

lemma comps_inv_relative_start: "comps_inv False cs \<Longrightarrow> deref (join_comps cs) \<noteq> SLASH"
  using deref_join [of cs]
  by (cases cs; cases "hd cs") (auto simp: comps_inv_def NUL_def)

lemma resolve_join:
  assumes "comps_inv a cs"
  shows "resolve cwd (let out = (if a then [SLASH] else []) @ join_comps cs in if out = [] then ''.'' else out)
    = fold enter cs (if a then [] else cwd)"
proof (cases "join_comps cs = []")
  case True
  then have "cs = [] \<or> cs = [[]]" by (cases cs rule: join_comps.cases) auto
  then show ?thesis using True by (auto simp: resolve_def enter_def)
next
  case False
  then have "components (join_comps cs) = cs"
    using assms by (intro components_join) (auto simp: comps_inv_def)
  with False comps_inv_relative_start [of cs] assms show ?thesis
    by (cases a) (auto simp: resolve_def enter_def)
qed

lemma canonical_again:
  assumes "comps_inv a cs" and "length cs \<le> MAX_COMPS"
    and "out = (if a then [SLASH] else []) @ join_comps cs" and "length out < PATH_BUF"
  shows "canonical_path (if out = [] then ''.'' else out) = Done (if out = [] then ''.'' else out)"
proof (cases "out = []")
  case True
  then show ?thesis by (simp add: canonical_path_def PATH_BUF_def comp_step_def next_comp_def after_comp_def NUL_def)
next
  case False
  have d: "(deref out = SLASH) = a"
    using assms(1,3) comps_inv_relative_start [of cs] by (cases a) auto
  have p: "(if a then tl out else out) = join_comps cs" using assms(3) by simp
  show ?thesis
  proof (cases "join_comps cs = []")
    case True
    with False assms(3,4) d p show ?thesis
      by (auto simp: canonical_path_def)
  next
    case j: False
    with comps_loop_join [of a "[]" cs] assms(1,2)
    have "comps_loop a (join_comps cs) [] = Done cs" by simp
    with False assms(3,4) d p show ?thesis by (simp add: canonical_path_def Let_def)
  qed
qed

lemma canonical_path_total:
  assumes "slashes p < MAX_COMPS"
  shows "\<exists>q. canonical_path p = Done q \<and> (\<forall>cwd. resolve cwd q = resolve cwd p) \<and> canonical_path q = Done q"
proof (cases "p = [] \<or> PATH_BUF \<le> length p")
  case True
  then have "canonical_path p = Done p" by (auto simp: canonical_path_def)
  then show ?thesis by simp
next
  case False
  define a where "a = (deref p = SLASH)"
  define r where "r = (if a then tl p else p)"
  have pr: "p = (if a then [SLASH] else []) @ r"
    using False by (cases p) (auto simp: a_def r_def)
  have "slashes r \<le> slashes p" by (subst pr) (simp add: slashes_def)
  with comps_loop_Done [of "[]" r a] assms obtain cs
    where cs: "comps_loop a r [] = Done cs" "length cs \<le> MAX_COMPS" by auto
  have start: "deref r = SLASH \<Longrightarrow> a \<and> [] = []" using a_def r_def by (cases a) auto
  have inv0: "comps_inv a []" by (simp add: comps_inv_def)
  have inv: "comps_inv a cs" and m: "fold enter cs (if a then [] else cwd) = resolve cwd p" for cwd
  proof -
    have f: "resolve cwd p = fold enter (components r) (if a then [] else cwd)"
      using a_def by (cases a) (simp_all add: resolve_def pr enter_def)
    show "comps_inv a cs" using comps_loop_meaning [OF cs(1) inv0 start, of "if a then [] else cwd"] by simp
    show "fold enter cs (if a then [] else cwd) = resolve cwd p"
      using comps_loop_meaning [OF cs(1) inv0 start, of "if a then [] else cwd"] f by simp
  qed
  define out where "out = (if a then [SLASH] else []) @ join_comps cs"
  have len: "length out < PATH_BUF"
  proof -
    have "joined_size cs \<le> path_size r" using comps_loop_size [OF cs(1)] by simp
    moreover have "length p = (if a then 1 else 0) + length r" by (subst pr) simp
    ultimately show ?thesis
      using False length_join_comps [of cs]
      by (cases "cs = []") (auto simp: out_def path_size_def PATH_BUF_def split: if_splits)
  qed
  let ?q = "if out = [] then ''.'' else out"
  have "canonical_path p = Done ?q"
    using False cs(1) len by (simp add: canonical_path_def Let_def out_def flip: a_def r_def)
  moreover have "resolve cwd ?q = resolve cwd p" for cwd
    using resolve_join [OF inv, of cwd] m [of cwd] by (simp only: Let_def out_def)
  ultimately show ?thesis using canonical_again [OF inv cs(2) out_def len] by blast
qed

text \<open>
  A path of at most 255 slashes has a canonical form: no array of \<open>canonical_path\<close> overflows, the
  result leads to the same directory list as the path from every current directory, and making the
  result canonical again changes nothing.
\<close>

theorem canonical_path_ok:
  assumes "slashes p < MAX_COMPS"
  shows "\<exists>q. canonical_path p = Done q \<and> (\<forall>cwd. resolve cwd q = resolve cwd p) \<and> canonical_path q = Done q"
  using assms by (rule canonical_path_total)

theorem canonical_path_ok_witness:
  "\<exists>q. canonical_path ''../a//./b/../c'' = Done q
    \<and> (\<forall>cwd. resolve cwd q = resolve cwd ''../a//./b/../c'') \<and> canonical_path q = Done q"
  using canonical_path_ok [of "''../a//./b/../c''"] by (simp add: slashes_def MAX_COMPS_def)

text \<open>
  Two limits of \<open>canonical_path\<close>: a path of 257 components writes behind its array of 256, and a
  path that starts with two slashes keeps both, so one file has two canonical names.
\<close>

theorem canonical_path_limits:
  "canonical_path (concat (replicate 257 ''a/'')) = UB
   \<and> canonical_path ''//a'' = Done ''//a'' \<and> canonical_path ''/a'' = Done ''/a''
   \<and> resolve cwd ''//a'' = resolve cwd ''/a''"
proof -
  have "canonical_path (concat (replicate 257 ''a/'')) = UB" by code_simp
  moreover have "canonical_path ''//a'' = Done ''//a''" "canonical_path ''/a'' = Done ''/a''" by code_simp+
  ultimately show ?thesis by (simp add: resolve_def enter_def)
qed

section \<open>Finding an included file\<close>

text \<open>
  What the search depends on: which files exist (\<open>file_exists\<close>), the compiled-in include directory, the
  directories of \<open>-I\<close> in their order and the generated list of system directories.
\<close>

record include_env =
  file_exists :: "string \<Rightarrow> bool"
  rcc_incdir :: string
  user_include_paths :: "string list"
  sys_include_paths :: "string list"

definition add_include_path :: "string \<Rightarrow> include_env \<Rightarrow> include_env" where
  "add_include_path path env =
     (if length (user_include_paths env) < 64
      then env\<lparr>user_include_paths := user_include_paths env @ [path]\<rparr> else env)"

definition resolve_include :: "include_env \<Rightarrow> string \<Rightarrow> string \<Rightarrow> bool \<Rightarrow> string option res" where
  "resolve_include env curr_file spec is_angle =
     (case find (file_exists env)
        ((if is_angle then [] else [path_join (path_dirname curr_file) spec])
         @ [path_join (rcc_incdir env) spec]
         @ (if rcc_incdir env \<noteq> ''include'' then [path_join ''include'' spec] else [])
         @ map (\<lambda>d. path_join d spec) (user_include_paths env)
         @ map (\<lambda>d. path_join d spec) (sys_include_paths env)
         @ [spec]) of
        Some path \<Rightarrow> rmap Some (canonical_path path)
      | None \<Rightarrow> Done None)"

lemma slashes_simps [simp]: "slashes [] = 0" "slashes (c # p) = (if c = SLASH then Suc (slashes p) else slashes p)"
  "slashes (p @ q) = slashes p + slashes q"
  by (simp_all add: slashes_def)

lemma resolve_include_local:
  assumes "file_exists env (path_join (path_dirname curr_file) spec)" and "slashes curr_file + slashes spec < MAX_COMPS"
  shows "\<exists>q. resolve_include env curr_file spec False = Done (Some q)
    \<and> (\<forall>cwd. resolve cwd q = resolve cwd (path_dirname curr_file @ spec))"
proof -
  from dirname_basename [of curr_file] have j: "path_join (path_dirname curr_file) spec = path_dirname curr_file @ spec"
    by (auto simp: path_join_def)
  have "slashes curr_file = slashes (path_dirname curr_file) + slashes (path_basename curr_file)"
    by (subst dirname_basename(1) [symmetric]) (simp del: dirname_basename)
  with assms canonical_path_total [of "path_dirname curr_file @ spec"] show ?thesis
    by (auto simp: resolve_include_def j)
qed

end
