(* ===== verification/PPExpr.thy ===== *)
theory PPExpr
  imports Expand PPPaths
begin

text \<open>
  The conditions of \<open>#if\<close> and \<open>#elif\<close> (\<open>eval_primary\<close> to \<open>eval_condition\<close> in
  \<open>src/preprocess.c\<close>): a recursive descent over the text that returns the value, a \<open>long\<close>, and the
  text that is left. Arithmetic out of the range of \<open>long\<close> is \<open>UB\<close>. A level of the grammar takes the evaluation of a whole
  expression as an argument; \<open>eval_pp_expr\<close> ties the knot with the nesting depth as fuel, and a loop
  over operators takes the length of its text as fuel.
\<close>

section \<open>Primary expressions\<close>

type_synonym evaluator = "string \<Rightarrow> pp_state \<Rightarrow> (int \<times> string \<times> pp_state) exec"

definition bool_long :: "bool \<Rightarrow> int" where
  "bool_long b = (if b then 1 else 0)"

definition close_paren :: "string \<Rightarrow> string" where
  "close_paren p = (if deref p = CHR '')'' then tl p else p)"

definition open_paren :: "string \<Rightarrow> string" where
  "open_paren p = (if deref p = CHR ''('' then tl p else p)"

definition eval_defined :: evaluator where
  "eval_defined p st =
     (let p1 = skip_spaces (drop 7 p);
          p2 = (if deref p1 = CHR ''('' then skip_spaces (tl p1) else p1);
          name = takeWhile pp_is_ident2 p2;
          p3 = skip_spaces (dropWhile pp_is_ident2 p2)
      in rbind (find_macro st name) (\<lambda>m. ok (bool_long (m \<noteq> None), close_paren p3, st)))"

text \<open>A name between delimiters: \<open>spec[strlen(spec) - 1] = 0; spec++\<close>.\<close>

definition unwrap_spec :: "string \<Rightarrow> string res" where
  "unwrap_spec spec = (if length spec < 2 then UB else Done (tl (butlast spec)))"

definition eval_has_include :: "include_env \<Rightarrow> string \<Rightarrow> evaluator" where
  "eval_has_include env file p st =
     (let p1 = skip_spaces (drop (if startswith p ''__has_include_next'' then 18 else 13) p);
          p2 = skip_spaces (open_paren p1);
          finish = (\<lambda>spec angle p st.
            rbind (resolve_include env file spec angle) (\<lambda>r. ok (bool_long (r \<noteq> None), close_paren p, st)))
      in if deref p2 = DQ then
           let spec = takeWhile (\<lambda>c. c \<noteq> DQ) (tl p2); r = dropWhile (\<lambda>c. c \<noteq> DQ) (tl p2)
           in finish spec False (if deref r = DQ then tl r else r) st
         else if deref p2 = CHR ''<'' then
           let spec = takeWhile (\<lambda>c. c \<noteq> CHR ''>'') (tl p2); r = dropWhile (\<lambda>c. c \<noteq> CHR ''>'') (tl p2)
           in finish spec True (if deref r = CHR ''>'' then tl r else r) st
         else
           let spec = trim_copy (takeWhile (\<lambda>c. c \<noteq> CHR '')'') p2);
               r = dropWhile (\<lambda>c. c \<noteq> CHR '')'') p2
           in if deref spec = DQ then rbind (unwrap_spec spec) (\<lambda>spec. finish spec False r st)
              else ebind (expand_text EXPAND_DEPTH file 1 spec st) (\<lambda>(spec, st).
                if deref spec = DQ then rbind (unwrap_spec spec) (\<lambda>spec. finish spec False r st)
                else if deref spec = CHR ''<'' then rbind (unwrap_spec spec) (\<lambda>spec. finish spec True r st)
                else finish spec False r st))"

definition eval_identifier :: "string \<Rightarrow> evaluator" where
  "eval_identifier file p st =
     (let name = takeWhile pp_is_ident2 p; r = dropWhile pp_is_ident2 p in
      rbind (find_macro st name) (\<lambda>m.
        case m of
          None \<Rightarrow> ok (0, r, st)
        | Some a \<Rightarrow>
            if is_function (m_def (heap st a)) then ok (0, r, st)
            else ebind (expand_text EXPAND_DEPTH file 1 (body (m_def (heap st a))) st) (\<lambda>(t, st).
              ok (fst (strtol0 t), r, st))))"

lemma skip_spaces_length: "length (skip_spaces p) \<le> length p"
  by (simp add: skip_spaces_def length_dropWhile_le)

lemma skip_spaces_tail: "skip_spaces p = c # q \<Longrightarrow> length q < length p"
  using skip_spaces_length [of p] by simp

function eval_primary :: "evaluator \<Rightarrow> include_env \<Rightarrow> string \<Rightarrow> evaluator" where
  "eval_primary rec env file p0 st =
     (case skip_spaces p0 of
        [] \<Rightarrow> ok (0, [], st)
      | c # q \<Rightarrow>
         if startswith (c # q) ''defined'' then eval_defined (c # q) st
         else if startswith (c # q) ''__has_include'' then eval_has_include env file (c # q) st
         else if c = CHR ''('' then
           ebind (rec q st) (\<lambda>(val, r, st). ok (val, close_paren (skip_spaces r), st))
         else if c = CHR ''!'' then
           ebind (eval_primary rec env file q st) (\<lambda>(val, r, st). ok (bool_long (val = 0), r, st))
         else if c = CHR ''-'' then
           ebind (eval_primary rec env file q st) (\<lambda>(val, r, st). rbind (ck64 (- val)) (\<lambda>v. ok (v, r, st)))
         else if is_digit c then ok (fst (strtol0 (c # q)), snd (strtol0 (c # q)), st)
         else if pp_is_ident1 c then eval_identifier file (c # q) st
         else ok (0, c # q, st))"
  by pat_completeness auto
termination
  by (relation "measure (\<lambda>(rec, e, f, p, st). length p)")
     (simp_all only: in_measure split_conv wf_measure skip_spaces_tail)

declare eval_primary.simps [simp del]

section \<open>Operators\<close>

text \<open>
  A level with left associative operators: \<open>opr\<close> gives the operation at the front of a text and the
  text behind the operator. The text is left with its spaces skipped.
\<close>

type_synonym operation = "int \<Rightarrow> int \<Rightarrow> int res"

fun op_loop :: "nat \<Rightarrow> evaluator \<Rightarrow> (string \<Rightarrow> (operation \<times> string) option) \<Rightarrow> int \<Rightarrow> evaluator" where
  "op_loop 0 sub opr val p st = Fuel"
| "op_loop (Suc n) sub opr val p st =
     (let p = skip_spaces p in
      case opr p of
        None \<Rightarrow> ok (val, p, st)
      | Some (f, q) \<Rightarrow>
          ebind (sub q st) (\<lambda>(rhs, p, st). rbind (f val rhs) (\<lambda>v. op_loop n sub opr v p st)))"

definition op_level :: "evaluator \<Rightarrow> (string \<Rightarrow> (operation \<times> string) option) \<Rightarrow> evaluator" where
  "op_level sub opr p st = ebind (sub p st) (\<lambda>(val, p, st). op_loop (Suc (length p)) sub opr val p st)"

definition long_div :: operation where
  "long_div a b = (if b = 0 then Done 0 else ck64 (a sdiv b))"

definition long_mod :: operation where
  "long_mod a b = (if b = 0 then Done 0 else rbind (ck64 (a sdiv b)) (\<lambda>_. Done (a smod b)))"

definition mul_op :: "string \<Rightarrow> (operation \<times> string) option" where
  "mul_op p = (if deref p = CHR ''*'' then Some (\<lambda>a b. ck64 (a * b), tl p)
     else if deref p = CHR ''/'' then Some (long_div, tl p)
     else if deref p = CHR ''%'' then Some (long_mod, tl p)
     else None)"

definition add_op :: "string \<Rightarrow> (operation \<times> string) option" where
  "add_op p = (if deref p = CHR ''+'' then Some (\<lambda>a b. ck64 (a + b), tl p)
     else if deref p = CHR ''-'' then Some (\<lambda>a b. ck64 (a - b), tl p)
     else None)"

definition rel_op :: "string \<Rightarrow> (operation \<times> string) option" where
  "rel_op p = (if startswith p ''<='' then Some (\<lambda>a b. Done (bool_long (a \<le> b)), drop 2 p)
     else if startswith p ''>='' then Some (\<lambda>a b. Done (bool_long (a \<ge> b)), drop 2 p)
     else if deref p = CHR ''<'' then Some (\<lambda>a b. Done (bool_long (a < b)), tl p)
     else if deref p = CHR ''>'' then Some (\<lambda>a b. Done (bool_long (a > b)), tl p)
     else None)"

definition eq_op :: "string \<Rightarrow> (operation \<times> string) option" where
  "eq_op p = (if startswith p ''=='' then Some (\<lambda>a b. Done (bool_long (a = b)), drop 2 p)
     else if startswith p ''!='' then Some (\<lambda>a b. Done (bool_long (a \<noteq> b)), drop 2 p)
     else None)"

definition eval_mul :: "evaluator \<Rightarrow> include_env \<Rightarrow> string \<Rightarrow> evaluator" where
  "eval_mul rec env file = op_level (eval_primary rec env file) mul_op"

definition eval_add :: "evaluator \<Rightarrow> include_env \<Rightarrow> string \<Rightarrow> evaluator" where
  "eval_add rec env file = op_level (eval_mul rec env file) add_op"

definition eval_rel :: "evaluator \<Rightarrow> include_env \<Rightarrow> string \<Rightarrow> evaluator" where
  "eval_rel rec env file = op_level (eval_add rec env file) rel_op"

definition eval_eq :: "evaluator \<Rightarrow> include_env \<Rightarrow> string \<Rightarrow> evaluator" where
  "eval_eq rec env file = op_level (eval_rel rec env file) eq_op"

text \<open>The loops of \<open>&&\<close> and \<open>||\<close>: both sides are always evaluated, and the text is left unskipped.\<close>

fun logic_loop :: "nat \<Rightarrow> evaluator \<Rightarrow> string \<Rightarrow> (bool \<Rightarrow> bool \<Rightarrow> bool) \<Rightarrow> int \<Rightarrow> evaluator" where
  "logic_loop 0 sub opr f val p st = Fuel"
| "logic_loop (Suc n) sub opr f val p st =
     (if startswith (skip_spaces p) opr then
        ebind (sub (drop 2 (skip_spaces p)) st) (\<lambda>(rhs, p, st).
          logic_loop n sub opr f (bool_long (f (val \<noteq> 0) (rhs \<noteq> 0))) p st)
      else ok (val, p, st))"

definition eval_land :: "evaluator \<Rightarrow> include_env \<Rightarrow> string \<Rightarrow> evaluator" where
  "eval_land rec env file p st =
     ebind (eval_eq rec env file p st) (\<lambda>(val, p, st).
       logic_loop (Suc (length p)) (eval_eq rec env file) ''&&'' (\<and>) val p st)"

definition eval_lor :: "evaluator \<Rightarrow> include_env \<Rightarrow> string \<Rightarrow> evaluator" where
  "eval_lor rec env file p st =
     ebind (eval_land rec env file p st) (\<lambda>(val, p, st).
       logic_loop (Suc (length p)) (eval_land rec env file) ''||'' (\<or>) val p st)"

primrec eval_pp_expr :: "nat \<Rightarrow> include_env \<Rightarrow> string \<Rightarrow> evaluator" where
  "eval_pp_expr 0 env file p st = Fuel"
| "eval_pp_expr (Suc n) env file p st =
     ebind (eval_lor (eval_pp_expr n env file) env file p st) (\<lambda>(val, p, st).
       let p = skip_spaces p in
       if deref p = CHR ''?'' then
         ebind (eval_pp_expr n env file (tl p) st) (\<lambda>(true_val, p, st).
           let p = skip_spaces p;
               p = (if deref p = CHR '':'' then tl p else p)
           in ebind (eval_pp_expr n env file p st) (\<lambda>(false_val, p, st).
             ok (if val \<noteq> 0 then true_val else false_val, p, st)))
       else ok (val, p, st))"

definition eval_condition :: "include_env \<Rightarrow> string \<Rightarrow> string \<Rightarrow> pp_state \<Rightarrow> (int \<times> pp_state) exec" where
  "eval_condition env file expr st =
     ebind (eval_pp_expr (Suc (length expr)) env file expr st) (\<lambda>(val, rest, st). ok (val, st))"

section \<open>Evaluation ends\<close>

definition evals :: "string \<Rightarrow> pp_state \<Rightarrow> (int \<times> string \<times> pp_state) exec \<Rightarrow> bool" where
  "evals p st x \<longleftrightarrow> x \<noteq> Fuel
     \<and> (\<forall>v r st'. x = Done (Inr (v, r, st')) \<longrightarrow> length r \<le> length p \<and> counted st st')"

definition evaluator_ok :: "nat \<Rightarrow> evaluator \<Rightarrow> bool" where
  "evaluator_ok n sub \<longleftrightarrow> (\<forall>p st. table_ok st \<longrightarrow> length p < n \<longrightarrow> evals p st (sub p st))"

lemma evals_ok [simp]: "evals p st (ok (v, r, st')) \<longleftrightarrow> length r \<le> length p \<and> counted st st'"
  by (simp add: evals_def ok_def)

lemma evals_simps [simp]: "evals p st UB" "evals p st (Done (Inl e))" "evals p st (fatal e)" "\<not> evals p st Fuel"
  by (auto simp: evals_def fatal_def)

lemma evals_weaken: "length q \<le> length p \<Longrightarrow> counted st st' \<Longrightarrow> evals q st' x \<Longrightarrow> evals p st x"
  unfolding evals_def using counted_trans by (blast intro: order_trans)

lemma evals_ebind:
  assumes "evals q st x" and "\<And>v r st'. length r \<le> length q \<Longrightarrow> counted st st' \<Longrightarrow> evals p st (f (v, r, st'))"
  shows "evals p st (ebind x f)"
proof (cases x)
  case (Done r)
  with assms show ?thesis by (cases r) (auto simp: evals_def)
qed (use assms in auto)

lemma evals_rbind: "x \<noteq> Fuel \<Longrightarrow> (\<And>v. evals p st (f v)) \<Longrightarrow> evals p st (rbind x f)"
  by (cases x) auto

lemma comps_loop_not_Fuel: "comps_loop a p cs \<noteq> Fuel"
proof (induction a p cs rule: comps_loop.induct)
  case (2 a c p cs)
  show ?case
    using "2.IH" by (cases "comp_step a cs (next_comp (c # p))") (auto simp: comp_step_def push_comp_def split: if_splits)
qed simp

lemma resolve_include_not_Fuel: "resolve_include env f spec ang \<noteq> Fuel"
proof -
  have "canonical_path q \<noteq> Fuel" for q
  proof -
    have "rbind (comps_loop a r []) (\<lambda>comps. if PATH_BUF \<le> g comps then UB else Done (h comps)) \<noteq> Fuel" for a r g and h :: "string list \<Rightarrow> string"
      using comps_loop_not_Fuel [of a r "[]"] by (cases "comps_loop a r []") auto
    then show ?thesis by (simp add: canonical_path_def Let_def)
  qed
  then have "rmap Some (canonical_path q) \<noteq> Fuel" for q by (cases "canonical_path q") auto
  then show ?thesis by (auto simp: resolve_include_def split: option.splits)
qed

lemma find_macro_not_Fuel: "table_ok st \<Longrightarrow> find_macro st name \<noteq> Fuel"
  using table_ok_find [of st name] by auto

lemma length_dropWhile_tl: "length (dropWhile P (tl q)) \<le> length q" "length (tl (dropWhile P (tl q))) \<le> length q"
  using length_dropWhile_le [of P "tl q"] by simp_all

lemma close_paren_length: "length (close_paren p) \<le> length p" "length (open_paren p) \<le> length p"
  by (simp_all add: close_paren_def open_paren_def)

lemmas shorter = skip_spaces_length close_paren_length length_dropWhile_le length_dropWhile_tl

lemma eval_defined_ok: "table_ok st \<Longrightarrow> evals p st (eval_defined p st)"
  unfolding eval_defined_def Let_def
proof (rule evals_rbind [OF find_macro_not_Fuel])
  assume "table_ok st"
  let ?p1 = "skip_spaces (drop 7 p)"
  let ?p2 = "if deref ?p1 = CHR ''('' then skip_spaces (tl ?p1) else ?p1"
  have "length (skip_spaces (tl ?p1)) \<le> length ?p1"
    by (rule order_trans [OF skip_spaces_length]) simp
  then have "length ?p2 \<le> length ?p1" by simp
  also have "length ?p1 \<le> length p" using skip_spaces_length [of "drop 7 p"] by simp
  finally have "length (close_paren (skip_spaces (dropWhile pp_is_ident2 ?p2))) \<le> length p"
    by (meson order_trans shorter(1,2,4))
  then show "evals p st (ok (bool_long (m \<noteq> None), close_paren (skip_spaces (dropWhile pp_is_ident2 ?p2)), st))" for m :: "addr option"
    by simp
qed

lemma finish_ok:
  "length r \<le> length p \<Longrightarrow> evals p st (rbind (resolve_include env file spec ang) (\<lambda>x. ok (g x, close_paren r, st)))"
  by (rule evals_rbind [OF resolve_include_not_Fuel]) (auto intro: order_trans [OF close_paren_length(1)])

lemma unwrap_ok: "(\<And>spec. evals p st (f spec)) \<Longrightarrow> evals p st (rbind (unwrap_spec spec) f)"
  by (simp add: unwrap_spec_def)

lemma expand_evals:
  assumes "table_ok st" and "\<And>t st'. counted st st' \<Longrightarrow> evals p st (f (t, st'))"
  shows "evals p st (ebind (expand_text d file l t st) f)"
proof (cases "expand_text d file l t st")
  case Fuel
  with expander_ok_expand_text assms(1) show ?thesis by (simp add: expander_ok_def expands_def)
next
  case (Done r)
  with expander_ok_expand_text assms show ?thesis
    by (cases r) (auto simp: expander_ok_def expands_def)
qed simp

lemma evals_if: "(b \<Longrightarrow> evals p st x) \<Longrightarrow> (\<not> b \<Longrightarrow> evals p st y) \<Longrightarrow> evals p st (if b then x else y)"
  by simp

lemma finish_counted:
  "length r \<le> length p \<Longrightarrow> counted st st' \<Longrightarrow>
   evals p st (rbind (resolve_include env file spec ang) (\<lambda>x. ok (g x, close_paren r, st')))"
  by (rule evals_weaken [OF order_refl _ finish_ok])

lemma eval_has_include_ok:
  assumes "table_ok st"
  shows "evals p st (eval_has_include env file p st)"
proof -
  define p2 where "p2 = skip_spaces (open_paren (skip_spaces (drop (if startswith p ''__has_include_next'' then 18 else 13) p)))"
  have "length p2 \<le> length (drop (if startswith p ''__has_include_next'' then 18 else 13) p)"
    unfolding p2_def by (meson order_trans shorter(1,3))
  then have p2: "length p2 \<le> length p" by simp
  have r: "length (dropWhile P (tl p2)) \<le> length p" "length (tl (dropWhile P (tl p2))) \<le> length p"
    "length (dropWhile P p2) \<le> length p" for P
    using order_trans [OF length_dropWhile_tl(1) p2] order_trans [OF length_dropWhile_tl(2) p2]
      order_trans [OF length_dropWhile_le p2] by blast+
  then have r': "length (dropWhile P (tl p2)) - Suc 0 \<le> length p" for P by (meson diff_le_self order_trans)
  show ?thesis
    unfolding eval_has_include_def Let_def p2_def [symmetric]
    by (auto intro!: finish_ok finish_counted unwrap_ok expand_evals assms evals_if simp: r r')
qed


lemma eval_identifier_ok: "table_ok st \<Longrightarrow> evals p st (eval_identifier f p st)"
  unfolding eval_identifier_def Let_def
  by (rule evals_rbind [OF find_macro_not_Fuel])
     (auto split: option.splits intro!: expand_evals evals_if simp: length_dropWhile_le)

lemma evals_shorter: "length q \<le> length p \<Longrightarrow> evals q st x \<Longrightarrow> evals p st x"
  by (rule evals_weaken) simp_all

lemma eval_primary_ok:
  assumes rec: "evaluator_ok n rec"
  shows "table_ok st \<Longrightarrow> length p \<le> n \<Longrightarrow> evals p st (eval_primary rec env f p st)"
proof (induction "length p" arbitrary: p rule: less_induct)
  case less
  show ?case
  proof (cases "skip_spaces p")
    case Nil
    then show ?thesis by (subst eval_primary.simps) simp
  next
    case (Cons c q)
    have q: "length q < length p" by (rule skip_spaces_tail [OF Cons])
    have cq: "length (c # q) \<le> length p" using q by simp
    have self: "evals q st (eval_primary rec env f q st)" using less.hyps [OF q] less.prems q by simp
    have rq: "evals q st (rec q st)" using rec less.prems q by (simp add: evaluator_ok_def)
    have par: "length (close_paren (skip_spaces r)) \<le> length p" if "length r \<le> length q" for r
      using close_paren_length(1) [of "skip_spaces r"] skip_spaces_length [of r] that q by linarith
    show ?thesis
      unfolding eval_primary.simps [of rec env f p st] Cons list.case(2)
    proof (intro evals_if)
      show "evals p st (eval_defined (c # q) st)" by (rule evals_shorter [OF cq eval_defined_ok [OF less.prems(1)]])
      show "evals p st (eval_has_include env f (c # q) st)"
        by (rule evals_shorter [OF cq eval_has_include_ok [OF less.prems(1)]])
      show "evals p st (eval_identifier f (c # q) st)"
        by (rule evals_shorter [OF cq eval_identifier_ok [OF less.prems(1)]])
      show "evals p st (ebind (rec q st) (\<lambda>(val, r, st). ok (val, close_paren (skip_spaces r), st)))"
        by (rule evals_ebind [OF rq]) (simp add: par)
      show "evals p st (ebind (eval_primary rec env f q st) (\<lambda>(val, r, st). ok (bool_long (val = 0), r, st)))"
        by (rule evals_ebind [OF self]) (use q in simp)
      show "evals p st (ebind (eval_primary rec env f q st) (\<lambda>(val, r, st). rbind (ck64 (- val)) (\<lambda>v. ok (v, r, st))))"
        by (rule evals_ebind [OF self]) (use q in \<open>auto intro!: evals_rbind\<close>)
      show "evals p st (ok (fst (strtol0 (c # q)), snd (strtol0 (c # q)), st))"
        using order_trans [OF drop_digits_length cq] by simp
      show "evals p st (ok (0, c # q, st))" using cq by simp
    qed
  qed
qed

text \<open>An operator table: the text behind an operator is shorter, and its operations return.\<close>

definition op_table :: "(string \<Rightarrow> (operation \<times> string) option) \<Rightarrow> bool" where
  "op_table opr \<longleftrightarrow> (\<forall>p f q. opr p = Some (f, q) \<longrightarrow> length q < length p \<and> (\<forall>a b. f a b \<noteq> Fuel))"

lemma op_loop_ok:
  assumes sub: "evaluator_ok (Suc k) sub" and opr: "op_table opr"
  shows "table_ok st \<Longrightarrow> length p \<le> k \<Longrightarrow> length p < n \<Longrightarrow> evals p st (op_loop n sub opr val p st)"
proof (induction n arbitrary: p st val)
  case (Suc n)
  show ?case
  proof (cases "opr (skip_spaces p)")
    case None
    then show ?thesis by (simp add: skip_spaces_length)
  next
    case (Some fq)
    obtain f q where fq: "fq = (f, q)" by (cases fq)
    with Some opr have q: "length q < length (skip_spaces p)" and f: "f a b \<noteq> Fuel" for a b
      by (auto simp: op_table_def)
    then have qp: "length q < length p" using skip_spaces_length [of p] by linarith
    have "evals q st (sub q st)" using sub Suc.prems qp by (simp add: evaluator_ok_def)
    then show ?thesis
      unfolding op_loop.simps Let_def Some fq option.case prod.case
    proof (rule evals_ebind)
      fix v and r :: string and st1 assume r: "length r \<le> length q" and c: "counted st st1"
      have "evals r st1 (op_loop n sub opr v2 r st1)" for v2
        using Suc.prems r qp c by (intro Suc.IH) (auto simp: counted_table_ok)
      then have "evals p st (op_loop n sub opr v2 r st1)" for v2
        by (rule evals_weaken [rotated 2]) (use r qp c in auto)
      then show "evals p st (case (v, r, st1) of (rhs, p, st) \<Rightarrow> rbind (f val rhs) (\<lambda>v. op_loop n sub opr v p st))"
        by (simp add: evals_rbind f)
    qed
  qed
qed simp

lemma op_level_ok:
  assumes sub: "evaluator_ok n sub" and opr: "op_table opr"
  shows "evaluator_ok n (op_level sub opr)"
  unfolding evaluator_ok_def op_level_def
proof (intro allI impI)
  fix p :: string and st assume st: "table_ok st" and p: "length p < n"
  have s: "evals p st (sub p st)" using sub st p by (simp add: evaluator_ok_def)
  show "evals p st (ebind (sub p st) (\<lambda>(val, p, st). op_loop (Suc (length p)) sub opr val p st))"
  proof (rule evals_ebind [OF s])
    fix v and r :: string and st1 assume r: "length r \<le> length p" and c: "counted st st1"
    have "evaluator_ok (Suc (n - 1)) sub" using sub p by simp
    from op_loop_ok [OF this opr, of st1 r "Suc (length r)" v] st c r p
    have "evals r st1 (op_loop (Suc (length r)) sub opr v r st1)" by (simp add: counted_table_ok)
    from evals_weaken [OF r c this]
    show "evals p st (case (v, r, st1) of (val, p, st) \<Rightarrow> op_loop (Suc (length p)) sub opr val p st)" by simp
  qed
qed

lemma op_tables: "op_table mul_op" "op_table add_op" "op_table rel_op" "op_table eq_op"
proof -
  have ne: "deref p = c \<Longrightarrow> c \<noteq> NUL \<Longrightarrow> length p - Suc 0 < length p" for p and c :: char by (cases p) auto
  have two: "startswith p [a, b] \<Longrightarrow> length (drop 2 p) < length p" for p a b
    using startswith_length [of p "[a, b]"] by simp
  show "op_table mul_op" "op_table add_op"
    by (auto simp: op_table_def mul_op_def add_op_def long_div_def long_mod_def ck64_def NUL_def intro: ne split: if_splits)
  show "op_table rel_op" "op_table eq_op"
    using two by (auto simp: op_table_def rel_op_def eq_op_def NUL_def intro: ne split: if_splits)
qed


declare logic_loop.simps(2) [simp del]
declare op_loop.simps(2) [simp del]

lemma logic_loop_ok:
  assumes sub: "evaluator_ok (Suc k) sub" and opr: "length opr = 2"
  shows "table_ok st \<Longrightarrow> length p \<le> k \<Longrightarrow> length p < n \<Longrightarrow> evals p st (logic_loop n sub opr g val p st)"
proof (induction n arbitrary: p st val)
  case (Suc n)
  show ?case
  proof (cases "startswith (skip_spaces p) opr")
    case False
    then show ?thesis by (simp add: logic_loop.simps)
  next
    case True
    let ?q = "drop 2 (skip_spaces p)"
    have q: "length ?q < length p"
      using startswith_length [OF True] skip_spaces_length [of p] opr by simp
    have "evals ?q st (sub ?q st)" using sub Suc.prems q by (simp add: evaluator_ok_def)
    then show ?thesis
      unfolding logic_loop.simps using True
    proof (simp, intro evals_ebind)
      fix v and r :: string and st1 assume r: "length r \<le> length ?q" and c: "counted st st1"
      have "evals r st1 (logic_loop n sub opr g v2 r st1)" for v2
        using Suc.prems r q c by (intro Suc.IH) (auto simp: counted_table_ok)
      then have "evals p st (logic_loop n sub opr g v2 r st1)" for v2
        by (rule evals_weaken [rotated 2]) (use r q c in auto)
      then show "evals p st (case (v, r, st1) of (rhs, p, st) \<Rightarrow> logic_loop n sub opr g (bool_long (g (val \<noteq> 0) (rhs \<noteq> 0))) p st)"
        by simp
    qed simp
  qed
qed simp

lemma logic_level_ok:
  assumes sub: "evaluator_ok n sub" and opr: "length opr = 2"
  shows "evaluator_ok n (\<lambda>p st. ebind (sub p st) (\<lambda>(val, p, st). logic_loop (Suc (length p)) sub opr g val p st))"
  unfolding evaluator_ok_def
proof (intro allI impI)
  fix p :: string and st assume st: "table_ok st" and p: "length p < n"
  have s: "evals p st (sub p st)" using sub st p by (simp add: evaluator_ok_def)
  show "evals p st (ebind (sub p st) (\<lambda>(val, p, st). logic_loop (Suc (length p)) sub opr g val p st))"
  proof (rule evals_ebind [OF s])
    fix v and r :: string and st1 assume r: "length r \<le> length p" and c: "counted st st1"
    have "evaluator_ok (Suc (n - 1)) sub" using sub p by simp
    from logic_loop_ok [OF this opr, of st1 r "Suc (length r)" g v] st c r p
    have "evals r st1 (logic_loop (Suc (length r)) sub opr g v r st1)" by (simp add: counted_table_ok)
    from evals_weaken [OF r c this]
    show "evals p st (case (v, r, st1) of (val, p, st) \<Rightarrow> logic_loop (Suc (length p)) sub opr g val p st)" by simp
  qed
qed

lemma eval_lor_ok:
  assumes "evaluator_ok n rec"
  shows "evaluator_ok (Suc n) (eval_lor rec env f)"
proof -
  have "evaluator_ok (Suc n) (eval_primary rec env f)"
    using eval_primary_ok [OF assms] by (simp add: evaluator_ok_def)
  then have "evaluator_ok (Suc n) (eval_eq rec env f)"
    unfolding eval_eq_def eval_rel_def eval_add_def eval_mul_def by (intro op_level_ok op_tables)
  then have "evaluator_ok (Suc n) (eval_land rec env f)"
    using logic_level_ok [of "Suc n" "eval_eq rec env f" "''&&''" "(\<and>)"]
    by (simp add: eval_land_def [abs_def])
  then show ?thesis
    using logic_level_ok [of "Suc n" "eval_land rec env f" "''||''" "(\<or>)"]
    by (simp add: eval_lor_def [abs_def])
qed

lemma eval_pp_expr_ok: "evaluator_ok n (eval_pp_expr n env f)"
proof (induction n)
  case (Suc n)
  show ?case
    unfolding evaluator_ok_def eval_pp_expr.simps
  proof (intro allI impI)
    fix p :: string and st assume st: "table_ok st" and p: "length p < Suc n"
    have rec: "evals q st' (eval_pp_expr n env f q st')" if "length q < n" "counted st st'" for q st'
      using Suc that st by (simp add: evaluator_ok_def counted_table_ok)
    have lor: "evals p st (eval_lor (eval_pp_expr n env f) env f p st)"
      using eval_lor_ok [OF Suc] st p by (simp add: evaluator_ok_def)
    show "evals p st (ebind (eval_lor (eval_pp_expr n env f) env f p st) (\<lambda>(val, p, st).
       let p = skip_spaces p in
       if deref p = CHR ''?'' then
         ebind (eval_pp_expr n env f (tl p) st) (\<lambda>(true_val, p, st).
           let p = skip_spaces p;
               p = (if deref p = CHR '':'' then tl p else p)
           in ebind (eval_pp_expr n env f p st) (\<lambda>(false_val, p, st).
             ok (if val \<noteq> 0 then true_val else false_val, p, st)))
       else ok (val, p, st)))"
    proof (rule evals_ebind [OF lor])
      fix v and r :: string and st1 assume r: "length r \<le> length p" and c: "counted st st1"
      let ?r = "skip_spaces r"
      have lr: "length ?r \<le> length p" using skip_spaces_length [of r] r by linarith
      show "evals p st (case (v, r, st1) of (val, p, st) \<Rightarrow> let p = skip_spaces p in
       if deref p = CHR ''?'' then
         ebind (eval_pp_expr n env f (tl p) st) (\<lambda>(true_val, p, st).
           let p = skip_spaces p;
               p = (if deref p = CHR '':'' then tl p else p)
           in ebind (eval_pp_expr n env f p st) (\<lambda>(false_val, p, st).
             ok (if val \<noteq> 0 then true_val else false_val, p, st)))
       else ok (val, p, st))"
        unfolding prod.case Let_def
      proof (intro evals_if)
        assume "deref ?r = CHR ''?''"
        then have "?r \<noteq> []" by (auto simp: NUL_def)
        then have tl: "length (tl ?r) < length p" using lr by (cases ?r) auto
        have "evals (tl ?r) st1 (eval_pp_expr n env f (tl ?r) st1)" by (rule rec [OF _ c]) (use tl p in simp)
        then show "evals p st (ebind (eval_pp_expr n env f (tl ?r) st1) (\<lambda>(true_val, p, st).
            ebind (eval_pp_expr n env f (if deref (skip_spaces p) = CHR '':'' then tl (skip_spaces p) else skip_spaces p) st)
              (\<lambda>(false_val, p, st). ok (if v \<noteq> 0 then true_val else false_val, p, st))))"
        proof (intro evals_weaken [OF less_imp_le [OF tl] c] evals_ebind)
          fix v2 and r2 :: string and st2 assume r2: "length r2 \<le> length (tl ?r)" and c2: "counted st1 st2"
          let ?q = "if deref (skip_spaces r2) = CHR '':'' then tl (skip_spaces r2) else skip_spaces r2"
          have "length (skip_spaces r2) \<le> length (tl ?r)" using skip_spaces_length [of r2] r2 by linarith
          then have q: "length ?q \<le> length (tl ?r)" by (rule order_trans [rotated]) simp
          have "evals ?q st2 (eval_pp_expr n env f ?q st2)"
            by (rule rec [OF _ counted_trans [OF c c2]]) (use q tl p in linarith)
          then have "evals (tl ?r) st1 (ebind (eval_pp_expr n env f ?q st2)
              (\<lambda>(false_val, p, st). ok (if v \<noteq> 0 then v2 else false_val, p, st)))"
            by (intro evals_weaken [OF q c2] evals_ebind) simp_all
          then show "evals (tl ?r) st1 (case (v2, r2, st2) of (true_val, p, st) \<Rightarrow>
            ebind (eval_pp_expr n env f (if deref (skip_spaces p) = CHR '':'' then tl (skip_spaces p) else skip_spaces p) st)
              (\<lambda>(false_val, p, st). ok (if v \<noteq> 0 then true_val else false_val, p, st)))" by simp
        qed
      qed (use lr c in simp)
    qed
  qed
qed (simp add: evaluator_ok_def)

text \<open>
  Every condition of \<open>#if\<close> is evaluated to an end: on a consistent macro table
  \<open>eval_condition\<close> returns for every text, malformed ones too, and the fuel of the model is enough; the
  table is as before but for the value of \<open>__COUNTER__\<close>.
\<close>

theorem eval_condition_ends:
  assumes "table_ok st"
  shows "eval_condition env f expr st \<noteq> Fuel
    \<and> (\<forall>v st'. eval_condition env f expr st = Done (Inr (v, st')) \<longrightarrow> st' = st\<lparr>pp_counter := pp_counter st'\<rparr>)"
proof -
  have "evals expr st (eval_pp_expr (Suc (length expr)) env f expr st)"
    using eval_pp_expr_ok [of "Suc (length expr)"] assms by (simp add: evaluator_ok_def)
  then show ?thesis
    unfolding eval_condition_def
    by (cases "eval_pp_expr (Suc (length expr)) env f expr st")
       (auto simp: evals_def counted_def ebind_def ok_def simp del: eval_pp_expr.simps split: sum.splits)
qed

definition no_includes :: include_env where
  "no_includes = \<lparr>file_exists = (\<lambda>_. False), rcc_incdir = ''include'', user_include_paths = [], sys_include_paths = []\<rparr>"

theorem eval_condition_ends_witness:
  "eval_condition no_includes ''f.c'' ''((1 ? (2'' (with_macros [(''X'', obj_macro ''X'')]) \<noteq> Fuel"
proof -
  have "table_ok (with_macros [(''X'', obj_macro ''X'')])"
    by (rule with_macros_ok) (simp add: obj_macro_def empty_def_def)
  from eval_condition_ends [OF this] show ?thesis by blast
qed

definition condition_value :: "pp_state \<Rightarrow> string \<Rightarrow> int option" where
  "condition_value st s = (case eval_condition no_includes ''f.c'' s st of Done (Inr (v, _)) \<Rightarrow> Some v | _ \<Rightarrow> None)"

text \<open>
  Conditions that are read wrongly: a suffix of a number ends the evaluation, so the rest of the condition is
  ignored; the bitwise operators are not known, with the same effect; of a macro only the number in
  front of its expansion counts; a call of a function-like macro is 0.
\<close>

theorem conditions_misread:
  "condition_value pp_start ''1L == 2L'' = Some 1
   \<and> condition_value pp_start ''2 >= 1L && 0'' = Some 1
   \<and> condition_value pp_start ''6 & 1'' = Some 6
   \<and> condition_value (with_macros [(''V'', obj_macro ''(1+1)'')]) ''V == 2'' = Some 0
   \<and> condition_value (with_macros [(''F'', fun_macro [''a''] ''a'')]) ''F(3) == 3'' = Some 0"
  by (intro conjI; code_simp)

section \<open>Conditions in the form the evaluator reads correctly\<close>

text \<open>
  Conditions over numbers and \<open>defined\<close>, their value with C's rules, and their spelling with
  all parentheses. \<open>None\<close> is a value out of the range of \<open>long\<close>; the quotient by zero is taken as 0, as
  the code does.
\<close>

datatype cbin = CMul | CDiv | CMod | CAdd | CSub | CLe | CGe | CLt | CGt | CEq | CNe | CAnd | COr

datatype cexp = CNum nat | CDefined string | CNot cexp | CNeg cexp | CBin cbin cexp cexp | CCond cexp cexp cexp

definition in_long :: "int \<Rightarrow> int option" where
  "in_long x = (if in64 x then Some x else None)"

primrec cbin_value :: "cbin \<Rightarrow> int \<Rightarrow> int \<Rightarrow> int option" where
  "cbin_value CMul a b = in_long (a * b)"
| "cbin_value CDiv a b = (if b = 0 then Some 0 else in_long (a sdiv b))"
| "cbin_value CMod a b = (if b = 0 then Some 0 else if in64 (a sdiv b) then Some (a smod b) else None)"
| "cbin_value CAdd a b = in_long (a + b)"
| "cbin_value CSub a b = in_long (a - b)"
| "cbin_value CLe a b = Some (if a \<le> b then 1 else 0)"
| "cbin_value CGe a b = Some (if a \<ge> b then 1 else 0)"
| "cbin_value CLt a b = Some (if a < b then 1 else 0)"
| "cbin_value CGt a b = Some (if a > b then 1 else 0)"
| "cbin_value CEq a b = Some (if a = b then 1 else 0)"
| "cbin_value CNe a b = Some (if a \<noteq> b then 1 else 0)"
| "cbin_value CAnd a b = Some (if a \<noteq> 0 \<and> b \<noteq> 0 then 1 else 0)"
| "cbin_value COr a b = Some (if a \<noteq> 0 \<or> b \<noteq> 0 then 1 else 0)"

primrec cvalue :: "(string \<Rightarrow> bool) \<Rightarrow> cexp \<Rightarrow> int option" where
  "cvalue d (CNum n) = in_long (int n)"
| "cvalue d (CDefined x) = Some (if d x then 1 else 0)"
| "cvalue d (CNot e) = (case cvalue d e of Some v \<Rightarrow> Some (if v = 0 then 1 else 0) | None \<Rightarrow> None)"
| "cvalue d (CNeg e) = (case cvalue d e of Some v \<Rightarrow> in_long (- v) | None \<Rightarrow> None)"
| "cvalue d (CBin f a b) = (case cvalue d a of None \<Rightarrow> None | Some x \<Rightarrow>
     (case cvalue d b of None \<Rightarrow> None | Some y \<Rightarrow> cbin_value f x y))"
| "cvalue d (CCond c a b) = (case cvalue d c of None \<Rightarrow> None | Some z \<Rightarrow>
     (case cvalue d a of None \<Rightarrow> None | Some x \<Rightarrow>
     (case cvalue d b of None \<Rightarrow> None | Some y \<Rightarrow> Some (if z \<noteq> 0 then x else y))))"

primrec cbin_text :: "cbin \<Rightarrow> string" where
  "cbin_text CMul = ''*''" | "cbin_text CDiv = ''/''" | "cbin_text CMod = ''%''"
| "cbin_text CAdd = ''+''" | "cbin_text CSub = ''-''" | "cbin_text CLe = ''<=''" | "cbin_text CGe = ''>=''"
| "cbin_text CLt = ''<''" | "cbin_text CGt = ''>''" | "cbin_text CEq = ''==''" | "cbin_text CNe = ''!=''"
| "cbin_text CAnd = ''&&''" | "cbin_text COr = ''||''"

primrec cprint :: "cexp \<Rightarrow> string" where
  "cprint (CNum n) = show_nat n"
| "cprint (CDefined x) = ''defined('' @ x @ '')''"
| "cprint (CNot e) = ''!'' @ cprint e"
| "cprint (CNeg e) = ''-'' @ cprint e"
| "cprint (CBin f a b) = ''('' @ cprint a @ '' '' @ cbin_text f @ '' '' @ cprint b @ '')''"
| "cprint (CCond c a b) = ''('' @ cprint c @ '' ? '' @ cprint a @ '' : '' @ cprint b @ '')''"

definition plain_name :: "string \<Rightarrow> bool" where
  "plain_name x \<longleftrightarrow> x \<noteq> [] \<and> list_all pp_is_ident2 x"

primrec cnames_ok :: "cexp \<Rightarrow> bool" where
  "cnames_ok (CNum n) = True"
| "cnames_ok (CDefined x) = plain_name x"
| "cnames_ok (CNot e) = cnames_ok e"
| "cnames_ok (CNeg e) = cnames_ok e"
| "cnames_ok (CBin f a b) = (cnames_ok a \<and> cnames_ok b)"
| "cnames_ok (CCond c a b) = (cnames_ok c \<and> cnames_ok a \<and> cnames_ok b)"

primrec cdepth :: "cexp \<Rightarrow> nat" where
  "cdepth (CNum n) = 0"
| "cdepth (CDefined x) = 0"
| "cdepth (CNot e) = cdepth e"
| "cdepth (CNeg e) = cdepth e"
| "cdepth (CBin f a b) = Suc (max (cdepth a) (cdepth b))"
| "cdepth (CCond c a b) = Suc (Suc (max (cdepth c) (max (cdepth a) (cdepth b))))"

section \<open>The evaluator on printed conditions\<close>

lemma eval_primary_space: "eval_primary rec env f (CHR '' '' # p) st = eval_primary rec env f p st"
proof -
  have "skip_spaces (CHR '' '' # p) = skip_spaces p" by (simp add: skip_spaces_def)
  then show ?thesis
    unfolding eval_primary.simps [of rec env f "CHR '' '' # p" st] eval_primary.simps [of rec env f p st] by simp
qed

lemmas levels = eval_lor_def eval_land_def eval_eq_def eval_rel_def eval_add_def eval_mul_def op_level_def
  op_loop.simps(2) logic_loop.simps(2) mul_op_def add_op_def rel_op_def eq_op_def skip_spaces_def

lemma eval_lor_stop:
  assumes "eval_primary rec env f p st = ok (v, r, st)" and "deref (skip_spaces r) \<in> {NUL, CHR '')'', CHR ''?'', CHR '':''}"
  shows "eval_lor rec env f p st = ok (v, skip_spaces r, st)"
proof (cases "skip_spaces r")
  case Nil
  then have "dropWhile (\<lambda>c. c = CHR '' '' \<or> c = CHR 0x09) r = []" by (simp add: skip_spaces_def)
  with assms(1) show ?thesis by (simp add: levels NUL_def del: dropWhile_eq_Nil_conv)
next
  case (Cons c q)
  then have d: "dropWhile (\<lambda>c. c = CHR '' '' \<or> c = CHR 0x09) r = c # q" by (simp add: skip_spaces_def)
  then have "\<not> (c = CHR '' '' \<or> c = CHR 0x09)" using hd_dropWhile [of "\<lambda>c. c = CHR '' '' \<or> c = CHR 0x09" r] by simp
  with assms Cons d show ?thesis
    by (auto simp add: levels NUL_def)
qed

lemma eval_lor_bin:
  assumes "eval_primary rec env f p st = ok (x, '' '' @ cbin_text g @ '' '' @ q, st)"
    and "eval_primary rec env f q st = ok (y, '')'' @ r, st)"
    and "cbin_value g x y = Some v"
  shows "eval_lor rec env f p st = ok (v, '')'' @ r, st)"
  using assms
  by (cases g) (simp_all add: levels eval_primary_space in_long_def ck64_def long_div_def long_mod_def bool_long_def split: if_splits)


declare eval_pp_expr.simps(2) [simp del]

text \<open>What the text behind an operand may start with: nothing that continues a number.\<close>

definition ends_operand :: "string \<Rightarrow> bool" where
  "ends_operand r \<longleftrightarrow> digit_of (deref r) = 36"

lemma ends_operand_simps [simp]:
  "ends_operand []" "ends_operand (CHR '' '' # p)" "ends_operand (CHR '')'' # p)"
  by (simp_all add: ends_operand_def digit_of_def is_digit_def code_def NUL_def)

lemma eval_primary_number:
  assumes "ends_operand r" and "int n < 2 ^ 63"
  shows "eval_primary rec env f (show_nat n @ r) st = ok (int n, r, st)"
proof -
  obtain c s where cs: "show_nat n = c # s" using show_nat_digits [of n] by (cases "show_nat n") auto
  have c: "is_digit c" using show_nat_digits [of n] cs by auto
  then have "c \<noteq> CHR '' ''" "c \<noteq> CHR 0x09" "c \<noteq> CHR ''d''" "c \<noteq> CHR ''_''" "c \<noteq> CHR ''(''" "c \<noteq> CHR ''!''" "c \<noteq> CHR ''-''"
    by (auto simp: is_digit_def code_def)
  with c strtol0_show_nat [of r n] assms show ?thesis
    by (subst eval_primary.simps) (simp add: skip_spaces_def ends_operand_def cs)
qed

lemma eval_primary_defined:
  assumes "table_ok st" and "plain_name x"
  shows "eval_primary rec env f (''defined('' @ x @ '')'' @ r) st = ok (if macro_map st x \<noteq> None then 1 else 0, r, st)"
proof -
  obtain c s where cs: "x = c # s" using assms(2) by (cases x) (auto simp: plain_name_def)
  have x: "pp_is_ident2 c" "list_all pp_is_ident2 s" using assms(2) cs by (auto simp: plain_name_def)
  have sp: "\<not> pp_is_ident2 CHR '' ''" "\<not> pp_is_ident2 CHR 0x09" "\<not> pp_is_ident2 CHR '')''"
    by (simp_all add: pp_is_ident2_def pp_is_ident1_def in_chars_def code_def)
  then have c: "c \<noteq> CHR '' ''" "c \<noteq> CHR 0x09" using x(1) by auto
  have "takeWhile pp_is_ident2 (x @ CHR '')'' # r) = x" "dropWhile pp_is_ident2 (x @ CHR '')'' # r) = CHR '')'' # r"
    using x sp cs by (simp_all add: list_all_iff takeWhile_append dropWhile_append)
  then have "eval_defined (''defined('' @ x @ '')'' @ r) st = ok (if macro_map st x \<noteq> None then 1 else 0, r, st)"
    using c cs table_ok_find [OF assms(1), of x]
    by (auto simp: eval_defined_def Let_def skip_spaces_def close_paren_def macro_map_def bool_long_def)
  then show ?thesis
    by (subst eval_primary.simps) (simp add: skip_spaces_def)
qed

lemma eval_primary_sign:
  "eval_primary rec env f (CHR ''!'' # p) st =
     ebind (eval_primary rec env f p st) (\<lambda>(val, r, st). ok (bool_long (val = 0), r, st))"
  "eval_primary rec env f (CHR ''-'' # p) st =
     ebind (eval_primary rec env f p st) (\<lambda>(val, r, st). rbind (ck64 (- val)) (\<lambda>v. ok (v, r, st)))"
  "eval_primary rec env f (CHR ''('' # p) st =
     ebind (rec p st) (\<lambda>(val, r, st). ok (val, close_paren (skip_spaces r), st))"
  by (simp_all add: eval_primary.simps [of _ _ _ "CHR ''!'' # p"] eval_primary.simps [of _ _ _ "CHR ''-'' # p"]
    eval_primary.simps [of _ _ _ "CHR ''('' # p"] skip_spaces_def)

lemma eval_pp_expr_stop:
  assumes "eval_lor (eval_pp_expr n env f) env f p st = ok (v, r, st)" and "skip_spaces r = r" and "deref r \<noteq> CHR ''?''"
  shows "eval_pp_expr (Suc n) env f p st = ok (v, r, st)"
  using assms by (simp add: eval_pp_expr.simps(2))

lemma eval_primary_cprint:
  assumes st: "table_ok st"
  shows "cdepth e \<le> n \<Longrightarrow> cnames_ok e \<Longrightarrow> ends_operand r \<Longrightarrow> cvalue (\<lambda>x. macro_map st x \<noteq> None) e = Some v \<Longrightarrow>
    eval_primary (eval_pp_expr n env f) env f (cprint e @ r) st = ok (v, r, st)"
proof (induction e arbitrary: n r v)
  case (CNum k)
  then have "v = int k" "int k < 2 ^ 63" by (auto simp: in_long_def in64_def split: if_splits)
  with CNum show ?case by (simp add: eval_primary_number)
next
  case (CDefined x)
  then show ?case using eval_primary_defined [OF st, of x _ env f r] by auto
next
  case (CNot e)
  from CNot.prems(4) obtain w where w: "cvalue (\<lambda>x. macro_map st x \<noteq> None) e = Some w" "v = (if w = 0 then 1 else 0)"
    by (auto split: option.splits)
  with CNot.IH [of n r w] CNot.prems show ?case by (simp add: eval_primary_sign bool_long_def)
next
  case (CNeg e)
  from CNeg.prems(4) obtain w where w: "cvalue (\<lambda>x. macro_map st x \<noteq> None) e = Some w" "in64 (- w)" "v = - w"
    by (auto simp: in_long_def split: option.splits if_splits)
  with CNeg.IH [of n r w] CNeg.prems show ?case by (simp add: eval_primary_sign ck64_def)
next
  case (CBin g a b)
  from CBin.prems(4) obtain x y where xy: "cvalue (\<lambda>x. macro_map st x \<noteq> None) a = Some x"
    "cvalue (\<lambda>x. macro_map st x \<noteq> None) b = Some y" "cbin_value g x y = Some v"
    by (auto split: option.splits)
  from CBin.prems(1) obtain m where n: "n = Suc m" "cdepth a \<le> m" "cdepth b \<le> m" by (cases n) auto
  let ?s = "'' '' @ cbin_text g @ '' '' @ cprint b @ '')'' @ r"
  have "eval_primary (eval_pp_expr m env f) env f (cprint a @ ?s) st = ok (x, ?s, st)"
    using CBin.IH(1) [of m ?s x] CBin.prems(2) n xy(1) by simp
  moreover have "eval_primary (eval_pp_expr m env f) env f (cprint b @ '')'' @ r) st = ok (y, '')'' @ r, st)"
    using CBin.IH(2) [of m "'')'' @ r" y] CBin.prems(2) n xy(2) by simp
  ultimately have "eval_lor (eval_pp_expr m env f) env f (cprint a @ ?s) st = ok (v, '')'' @ r, st)"
    using eval_lor_bin [OF _ _ xy(3)] by blast
  then have "eval_pp_expr n env f (cprint a @ ?s) st = ok (v, '')'' @ r, st)"
    unfolding n(1) by (rule eval_pp_expr_stop) (simp_all add: skip_spaces_def)
  then show ?case by (simp add: eval_primary_sign skip_spaces_def close_paren_def)
next
  case (CCond c a b)
  from CCond.prems(4) obtain z x y where xy: "cvalue (\<lambda>x. macro_map st x \<noteq> None) c = Some z"
    "cvalue (\<lambda>x. macro_map st x \<noteq> None) a = Some x" "cvalue (\<lambda>x. macro_map st x \<noteq> None) b = Some y"
    "v = (if z \<noteq> 0 then x else y)"
    by (auto split: option.splits)
  from CCond.prems(1) obtain m where n: "n = Suc (Suc m)" "cdepth c \<le> Suc m" "cdepth a \<le> m" "cdepth b \<le> m"
    by (cases n; cases "n - 1") auto
  let ?b = "cprint b @ '')'' @ r"
  let ?a = "cprint a @ '' : '' @ ?b"
  have C: "eval_lor (eval_pp_expr (Suc m) env f) env f (cprint c @ '' ? '' @ ?a) st = ok (z, ''? '' @ ?a, st)"
  proof -
    have "eval_primary (eval_pp_expr (Suc m) env f) env f (cprint c @ '' ? '' @ ?a) st = ok (z, '' ? '' @ ?a, st)"
      using CCond.IH(1) [of "Suc m" "'' ? '' @ ?a" z] CCond.prems(2) n xy(1) by simp
    from eval_lor_stop [OF this] show ?thesis by (simp add: skip_spaces_def)
  qed
  have A: "eval_pp_expr (Suc m) env f (CHR '' '' # ?a) st = ok (x, '': '' @ ?b, st)"
  proof -
    have "eval_primary (eval_pp_expr m env f) env f (CHR '' '' # ?a) st = ok (x, '' : '' @ ?b, st)"
      using CCond.IH(2) [of m "'' : '' @ ?b" x] CCond.prems(2) n xy(2) by (simp add: eval_primary_space)
    from eval_lor_stop [OF this] have "eval_lor (eval_pp_expr m env f) env f (CHR '' '' # ?a) st = ok (x, '': '' @ ?b, st)"
      by (simp add: skip_spaces_def)
    then show ?thesis by (rule eval_pp_expr_stop) (simp_all add: skip_spaces_def)
  qed
  have B: "eval_pp_expr (Suc m) env f (CHR '' '' # ?b) st = ok (y, '')'' @ r, st)"
  proof -
    have "eval_primary (eval_pp_expr m env f) env f (CHR '' '' # ?b) st = ok (y, '')'' @ r, st)"
      using CCond.IH(3) [of m "'')'' @ r" y] CCond.prems(2) n xy(3) by (simp add: eval_primary_space)
    from eval_lor_stop [OF this] have "eval_lor (eval_pp_expr m env f) env f (CHR '' '' # ?b) st = ok (y, '')'' @ r, st)"
      by (simp add: skip_spaces_def)
    then show ?thesis by (rule eval_pp_expr_stop) (simp_all add: skip_spaces_def)
  qed
  have "eval_pp_expr n env f (cprint c @ '' ? '' @ ?a) st = ok (v, '')'' @ r, st)"
    unfolding n(1) eval_pp_expr.simps(2) [of "Suc m"] C using A B xy(4)
    by (simp add: Let_def skip_spaces_def)
  then show ?case by (simp add: eval_primary_sign skip_spaces_def close_paren_def)
qed

lemma cdepth_length: "cdepth e < length (cprint e) \<or> cdepth e = 0"
  by (induction e) auto

text \<open>
  C7. The evaluator computes what C says for every condition over numbers without suffix and
  \<open>defined\<close>, with all of its thirteen binary operators, \<open>!\<close>, the unary minus and the conditional, however deeply nested, when it
  is written with all parentheses and no value leaves the range of \<open>long\<close>.
\<close>

theorem eval_condition_correct:
  assumes "table_ok st" and "cnames_ok e" and "cvalue (\<lambda>x. macro_map st x \<noteq> None) e = Some v"
  shows "eval_condition env f (cprint e) st = ok (v, st)"
proof -
  let ?n = "length (cprint e)"
  have "cdepth e \<le> ?n" using cdepth_length [of e] by auto
  from eval_primary_cprint [OF assms(1) this assms(2) _ assms(3), of "[]"]
  have "eval_primary (eval_pp_expr ?n env f) env f (cprint e) st = ok (v, [], st)" by simp
  from eval_lor_stop [OF this] have "eval_lor (eval_pp_expr ?n env f) env f (cprint e) st = ok (v, [], st)"
    by (simp add: skip_spaces_def)
  then have "eval_pp_expr (Suc ?n) env f (cprint e) st = ok (v, [], st)"
    by (rule eval_pp_expr_stop) (simp_all add: skip_spaces_def NUL_def)
  then show ?thesis by (simp add: eval_condition_def)
qed

theorem eval_condition_correct_witness:
  "eval_condition no_includes ''f.c'' ''((3 * -2) < defined(X))'' pp_start = ok (1, pp_start)"
proof -
  let ?e = "CBin CLt (CBin CMul (CNum 3) (CNeg (CNum 2))) (CDefined ''X'')"
  have "cprint ?e = ''((3 * -2) < defined(X))''" by code_simp
  moreover have "cnames_ok ?e" by code_simp
  moreover have "cvalue (\<lambda>x. macro_map pp_start x \<noteq> None) ?e = Some 1"
    by (simp add: macro_map_start in_long_def in64_def)
  ultimately show ?thesis using eval_condition_correct [OF table_ok_start, of ?e 1] by metis
qed

end
