(* ===== verification/CondIncl.thy ===== *)
theory CondIncl
  imports Macros
begin

text \<open>
  Conditional sections (\<open>CondIncl\<close> and the branches for \<open>#if\<close>, \<open>#ifdef\<close>,
  \<open>#ifndef\<close>, \<open>#elif\<close>, \<open>#else\<close>, \<open>#endif\<close> in \<open>preprocess_file\<close> of
  \<open>src/preprocess.c\<close>): the stack of open sections and the flag \<open>active\<close>. The value of a condition is an
  argument here, \<open>PPFile\<close> evaluates it.
\<close>

section \<open>Model\<close>

record cond_incl =
  parent_active :: bool
  c_active :: bool
  branch_taken :: bool

type_synonym cond_state = "cond_incl list \<times> bool"

text \<open>\<open>#if\<close>, \<open>#ifdef\<close> and \<open>#ifndef\<close>, whose condition holds or not.\<close>

definition cond_open :: "bool \<Rightarrow> cond_state \<Rightarrow> cond_state" where
  "cond_open val s = (case s of (conds, active) \<Rightarrow>
     let a = (active \<and> val) in
     (\<lparr>parent_active = active, c_active = a, branch_taken = a\<rparr> # conds, a))"

text \<open>Whether \<open>#elif\<close> evaluates its condition.\<close>

definition elif_evaluates :: "cond_state \<Rightarrow> bool" where
  "elif_evaluates s = (case fst s of [] \<Rightarrow> False | c # _ \<Rightarrow> \<not> branch_taken c \<and> parent_active c)"

definition cond_elif :: "bool \<Rightarrow> cond_state \<Rightarrow> cond_state" where
  "cond_elif val s = (case s of
     ([], active) \<Rightarrow> ([], False)
   | (c # conds, active) \<Rightarrow>
       let c' = (if \<not> branch_taken c then
                   let a = (parent_active c \<and> val) in
                   c\<lparr>c_active := a, branch_taken := (if a then True else branch_taken c)\<rparr>
                 else c\<lparr>c_active := False\<rparr>)
       in (c' # conds, c_active c'))"

definition cond_else :: "cond_state \<Rightarrow> cond_state" where
  "cond_else s = (case s of
     ([], active) \<Rightarrow> ([], active)
   | (c # conds, active) \<Rightarrow>
       let a = (parent_active c \<and> \<not> branch_taken c) in
       (c\<lparr>c_active := a, branch_taken := True\<rparr> # conds, a))"

definition cond_endif :: "cond_state \<Rightarrow> cond_state" where
  "cond_endif s = (case s of
     ([], active) \<Rightarrow> ([], active)
   | (c # conds, active) \<Rightarrow> (conds, parent_active c))"

datatype cond_op = OpIf bool | OpElif bool | OpElse | OpEndif

primrec cond_step :: "cond_op \<Rightarrow> cond_state \<Rightarrow> cond_state" where
  "cond_step (OpIf v) = cond_open v"
| "cond_step (OpElif v) = cond_elif v"
| "cond_step OpElse = cond_else"
| "cond_step OpEndif = cond_endif"

section \<open>Specification\<close>

text \<open>
  The C standard: of the groups of a section the first one whose condition holds is processed, \<open>#else\<close> counting as a
  condition that holds, and a line is processed when every section around it is in its selected group.
  A section is the list of the conditions of its groups so far, the current one first. A stray \<open>#elif\<close> ends all processing
  outside of sections; that is the code's own reaction to the error.
\<close>

type_synonym cond_spec = "bool list list \<times> bool"

definition selected :: "bool list \<Rightarrow> bool" where
  "selected g \<longleftrightarrow> g \<noteq> [] \<and> hd g \<and> True \<notin> set (tl g)"

definition spec_active :: "cond_spec \<Rightarrow> bool" where
  "spec_active t \<longleftrightarrow> snd t \<and> list_all selected (fst t)"

primrec spec_step :: "cond_op \<Rightarrow> cond_spec \<Rightarrow> cond_spec" where
  "spec_step (OpIf v) t = ([v] # fst t, snd t)"
| "spec_step (OpElif v) t = (case fst t of [] \<Rightarrow> ([], False) | g # gs \<Rightarrow> ((v # g) # gs, snd t))"
| "spec_step OpElse t = (case fst t of [] \<Rightarrow> t | g # gs \<Rightarrow> ((True # g) # gs, snd t))"
| "spec_step OpEndif t = (tl (fst t), snd t)"

section \<open>Refinement\<close>

text \<open>Outside of the sections that are being processed, \<open>branch_taken\<close> may miss groups with a true condition.\<close>

fun cond_rel :: "cond_incl list \<Rightarrow> bool list list \<Rightarrow> bool \<Rightarrow> bool" where
  "cond_rel [] [] live = True"
| "cond_rel (c # cs) (g # gs) live =
     (g \<noteq> [] \<and> parent_active c = (live \<and> list_all selected gs)
      \<and> (parent_active c \<longrightarrow> branch_taken c = (True \<in> set g)) \<and> cond_rel cs gs live)"
| "cond_rel _ _ live = False"

lemma cond_rel_Nil: "cond_rel cs gs live \<Longrightarrow> (cs = []) = (gs = [])"
  by (cases cs; cases gs) auto

lemma cond_step_rel:
  assumes "cond_rel cs gs live" and "active = spec_active (gs, live)"
  shows "case (cond_step x (cs, active), spec_step x (gs, live)) of
    ((cs', active'), (gs', live')) \<Rightarrow> cond_rel cs' gs' live' \<and> active' = spec_active (gs', live')"
proof (cases x)
  case (OpIf v)
  with assms show ?thesis by (auto simp: cond_open_def spec_active_def selected_def Let_def)
next
  case (OpElif v)
  with assms show ?thesis
    by (cases cs; cases gs) (auto simp: cond_elif_def spec_active_def selected_def Let_def)
next
  case OpElse
  with assms show ?thesis
    by (cases cs; cases gs) (auto simp: cond_else_def spec_active_def selected_def Let_def)
next
  case OpEndif
  with assms show ?thesis
    by (cases cs; cases gs) (auto simp: cond_endif_def spec_active_def)
qed

lemma cond_run_rel:
  assumes "cond_rel (fst s) (fst t) (snd t)" and "snd s = spec_active t"
  shows "cond_rel (fst (fold cond_step xs s)) (fst (fold spec_step xs t)) (snd (fold spec_step xs t))
    \<and> snd (fold cond_step xs s) = spec_active (fold spec_step xs t)"
  using assms
proof (induction xs arbitrary: s t)
  case (Cons x xs)
  from cond_step_rel [of "fst s" "fst t" "snd t" "snd s" x] Cons.prems
  have "cond_rel (fst (cond_step x s)) (fst (spec_step x t)) (snd (spec_step x t))
    \<and> snd (cond_step x s) = spec_active (spec_step x t)" by (cases s; cases t) (simp split: prod.splits)
  with Cons.IH [of "cond_step x s" "spec_step x t"] show ?case by (cases s; cases t) simp
qed simp

text \<open>
  C6. Conditional sections follow the C standard: after any sequence of conditional directives, nested, with
  any number of \<open>#elif\<close>, badly matched ones too, a line is processed exactly when in every open section the current group is the
  first one whose condition holds.
\<close>

theorem conditional_sections_refine:
  "snd (fold cond_step xs ([], True)) = spec_active (fold spec_step xs ([], True))"
  using cond_run_rel [of "([], True)" "([], True)" xs] by (simp add: spec_active_def)

end
