(* ===== verification/PPFile.thy ===== *)
theory PPFile
  imports PPExpr CondIncl
begin

text \<open>
  The main loop of the preprocessor (\<open>preprocess_file\<close> in \<open>src/preprocess.c\<close>) and its entry
  \<open>preprocess\<close>: the text of a file is taken line by line, directives act on the macro table, the conditional
  sections, the packing state and the included files, other lines are expanded, several together while a parenthesis is open.
  Reading files, \<open>realpath\<close> and the identifier check (which only prints warnings) are outside: the contents of files and
  their full paths are arguments. The names given to \<open>#pragma unicode\<close> are collected in the state.
  An error message followed by \<open>exit\<close> is the left side of a sum.
\<close>

section \<open>State\<close>

text \<open>What outlives a file: the macro table and the packing of structs.\<close>

record pp_global =
  g_table :: pp_state
  pack_align :: nat
  pack_align_stack :: "nat list"
  allowed_scripts :: "string list"

text \<open>The variables of one call of \<open>preprocess_file\<close>; \<open>f_acc\<close> is the accumulator of joined lines.\<close>

record file_state =
  f_out :: string
  f_cond :: cond_state
  f_line_no :: nat
  f_line_idx :: nat
  f_acc :: string
  f_acc_line_no :: nat
  f_acc_phys :: nat
  f_acc_parens :: int
  f_acc_quote :: "char option"
  f_global :: pp_global

text \<open>The file system and the constants of a call: the include search, full paths, file contents.\<close>

record pp_env =
  e_include :: include_env
  e_full_path :: "string \<Rightarrow> string"
  e_read :: "string \<Rightarrow> string option"

type_synonym includer = "string \<Rightarrow> string \<Rightarrow> nat list \<Rightarrow> pp_global \<Rightarrow> (string \<times> pp_global) exec"

definition f_active :: "file_state \<Rightarrow> bool" where
  "f_active fs = snd (f_cond fs)"

definition f_table :: "file_state \<Rightarrow> pp_state" where
  "f_table fs = g_table (f_global fs)"

definition set_table :: "pp_state \<Rightarrow> file_state \<Rightarrow> file_state" where
  "set_table st fs = fs\<lparr>f_global := (f_global fs)\<lparr>g_table := st\<rparr>\<rparr>"

definition put :: "string \<Rightarrow> file_state \<Rightarrow> file_state" where
  "put s fs = fs\<lparr>f_out := f_out fs @ s\<rparr>"

text \<open>\<open>line_counts[line_idx]\<close>; the array is zeroed memory of \<open>len + 1\<close> entries.\<close>

definition count_at :: "nat list \<Rightarrow> nat \<Rightarrow> nat" where
  "count_at counts i = (if i < length counts then counts ! i else 0)"

definition put_lines :: "nat \<Rightarrow> file_state \<Rightarrow> file_state" where
  "put_lines n fs = put (replicate n NL) fs"

text \<open>A macro operation on the table of the state.\<close>

definition on_table :: "(pp_state \<Rightarrow> pp_state res) \<Rightarrow> file_state \<Rightarrow> file_state exec" where
  "on_table f fs = rbind (f (f_table fs)) (\<lambda>st. ok (set_table st fs))"

text \<open>\<open>strip_bluepaint(expand_text(text, filename, line_no, 0))\<close>, appended to the output.\<close>

definition put_expanded :: "string \<Rightarrow> string \<Rightarrow> nat \<Rightarrow> file_state \<Rightarrow> file_state exec" where
  "put_expanded file text line fs =
     ebind (expand_text EXPAND_DEPTH file line text (f_table fs)) (\<lambda>(s, st).
       ok (put (strip_bluepaint s) (set_table st fs)))"

section \<open>The accumulator\<close>

text \<open>Flushing in front of a directive and at the end leaves the counts of parentheses and the quote as they are.\<close>

definition flush_acc :: "string \<Rightarrow> file_state \<Rightarrow> file_state exec" where
  "flush_acc file fs =
     (if f_acc fs \<noteq> [] then
        ebind (put_expanded file (f_acc fs) (f_acc_line_no fs) fs) (\<lambda>fs.
          ok ((put_lines (f_acc_phys fs) fs)\<lparr>f_acc := [], f_acc_phys := 0\<rparr>))
      else ok fs)"

definition text_line :: "string \<Rightarrow> nat list \<Rightarrow> string \<Rightarrow> file_state \<Rightarrow> file_state exec" where
  "text_line file counts line fs =
     (let n = count_at counts (f_line_idx fs) in
      if f_acc fs \<noteq> [] \<or> count_unmatched_parens line > 0 then
        let fs = (if f_acc fs = [] then fs\<lparr>f_acc_line_no := f_line_no fs, f_acc_parens := 0, f_acc_quote := None\<rparr> else fs);
            acc = (if f_acc fs \<noteq> [] then f_acc fs @ '' '' else f_acc fs) @ line;
            (d, q) = count_parens_preserve_quote line (f_acc_quote fs);
            fs = fs\<lparr>f_acc := acc, f_acc_phys := f_acc_phys fs + n, f_acc_parens := f_acc_parens fs + d, f_acc_quote := q\<rparr>
        in if f_acc_parens fs \<le> 0 then
             ebind (put_expanded file (f_acc fs) (f_acc_line_no fs) fs) (\<lambda>fs.
               ok ((put_lines (f_acc_phys fs) fs)\<lparr>f_acc := [], f_acc_phys := 0, f_acc_parens := 0\<rparr>))
           else ok fs
      else ebind (put_expanded file line (f_line_no fs) fs) (\<lambda>fs. ok (put_lines n fs)))"

definition inactive_line :: "string \<Rightarrow> nat list \<Rightarrow> file_state \<Rightarrow> file_state exec" where
  "inactive_line file counts fs =
     ebind (if f_acc fs \<noteq> [] then
              ebind (flush_acc file fs) (\<lambda>fs. ok (fs\<lparr>f_acc_parens := 0, f_acc_quote := None\<rparr>))
            else ok fs) (\<lambda>fs.
       ok (put_lines (count_at counts (f_line_idx fs)) fs))"

section \<open>Pragmas\<close>

definition skip_isspace :: "string \<Rightarrow> string" where
  "skip_isspace s = dropWhile is_space s"

definition is_pack_digit :: "char \<Rightarrow> bool" where
  "is_pack_digit c \<longleftrightarrow> in_chars CHR ''1'' CHR ''9'' c"

definition set_pack :: "nat \<Rightarrow> file_state \<Rightarrow> file_state" where
  "set_pack n fs = fs\<lparr>f_global := (f_global fs)\<lparr>pack_align := n\<rparr>\<rparr>"

definition pack_note :: "nat \<Rightarrow> string" where
  "pack_note n = ''# pragma pack('' @ show_nat n @ '')'' @ [NL]"

definition PACK_DEPTH :: nat where
  "PACK_DEPTH = 16"

text \<open>\<open>s\<close> is the text behind \<open>pack\<close>. The stack is the written part of the array, its top first.\<close>

definition pragma_pack :: "string \<Rightarrow> file_state \<Rightarrow> file_state exec" where
  "pragma_pack s fs =
     (let s = skip_isspace s;
          s = (if deref s = CHR ''('' then skip_isspace (tl s) else s);
          g = f_global fs
      in if startswith s ''push'' then
           (if length (pack_align_stack g) < PACK_DEPTH then
              let fs = fs\<lparr>f_global := g\<lparr>pack_align_stack := pack_align g # pack_align_stack g\<rparr>\<rparr>;
                  s = skip_isspace (drop 4 s);
                  s = (if deref s = CHR '','' then skip_isspace (tl s) else s);
                  fs = (if is_pack_digit (deref s) then set_pack (digit_val (deref s)) fs else fs)
              in ok (put (pack_note (pack_align (f_global fs))) fs)
            else UB)
         else if startswith s ''pop'' then
           (case pack_align_stack g of
              [] \<Rightarrow> UB
            | a # st \<Rightarrow> ok (put (''# pragma pack()'' @ [NL]) (fs\<lparr>f_global := g\<lparr>pack_align := a, pack_align_stack := st\<rparr>\<rparr>)))
         else if is_pack_digit (deref s) then
           ok (put (pack_note (digit_val (deref s))) (set_pack (digit_val (deref s)) fs))
         else ok fs)"

text \<open>The name given to \<open>push_macro\<close> and \<open>pop_macro\<close>.\<close>

definition pragma_macro :: "(string \<Rightarrow> pp_state \<Rightarrow> pp_state res) \<Rightarrow> string \<Rightarrow> file_state \<Rightarrow> file_state exec" where
  "pragma_macro f s fs =
     (let s = skip_isspace s in
      if deref s = CHR ''('' then
        let s = skip_isspace (tl s);
            name = (if deref s = DQ then takeWhile (\<lambda>c. c \<noteq> DQ) (tl s) else takeWhile pp_is_ident2 s)
        in ebind (on_table (f name) fs) (\<lambda>fs. ok (put [NL] fs))
      else ok fs)"

definition word_of :: "string \<Rightarrow> string" where
  "word_of s = takeWhile (\<lambda>c. \<not> is_space c) s"

definition pragma_unicode :: "string \<Rightarrow> file_state \<Rightarrow> file_state" where
  "pragma_unicode s fs =
     (let name = word_of (skip_isspace s);
          g = f_global fs;
          fs = (if name \<noteq> [] then fs\<lparr>f_global := g\<lparr>allowed_scripts := allowed_scripts g @ [name]\<rparr>\<rparr> else fs)
      in put (''# pragma unicode'' @ name @ [NL]) fs)"

definition pragma_line :: "string \<Rightarrow> string \<Rightarrow> file_state \<Rightarrow> file_state exec" where
  "pragma_line fpath s fs =
     (let s = skip_isspace s in
      if startswith s ''once'' then
        ok (put [NL] (set_table (mark_once_file fpath (f_table fs)) fs))
      else if startswith s ''pack'' then pragma_pack (drop 4 s) fs
      else if startswith s ''push_macro'' then pragma_macro push_macro (drop 10 s) fs
      else if startswith s ''pop_macro'' then pragma_macro pop_macro (drop 9 s) fs
      else if startswith s ''unicode'' then ok (pragma_unicode (drop 7 s) fs)
      else ok (put [NL] fs))"

section \<open>Definitions of macros\<close>

definition MAX_PARAMS :: nat where
  "MAX_PARAMS = 32"

text \<open>
  Whether the dots behind a parameter belong to it (\<open>args...\<close>): the last character in front of them that is no space,
  from the start of the line on, is one of an identifier.
\<close>

definition gnu_dots :: "string \<Rightarrow> string \<Rightarrow> string list \<Rightarrow> bool" where
  "gnu_dots line s pars =
     (let back = chop_spaces (take (length line - length s) line) in
      pars \<noteq> [] \<and> back \<noteq> [] \<and> last back \<noteq> CHR '','' \<and> pp_is_ident2 (last back))"

lemma skip_isspace_length: "length (skip_isspace s) \<le> length s"
  by (simp add: skip_isspace_def length_dropWhile_le)

text \<open>
  The loop over the parameters: \<open>s\<close> is the unread part of \<open>line\<close>. When an iteration reads nothing the loop does not end:
  that is the \<open>Fuel\<close> here.
\<close>

function params_loop :: "string \<Rightarrow> string \<Rightarrow> string list \<Rightarrow> bool \<Rightarrow> bool \<Rightarrow> (string list \<times> bool \<times> bool \<times> string) res" where
  "params_loop line s pars variadic gnu =
     (if s = [] \<or> deref s = CHR '')'' then Done (pars, variadic, gnu, s)
      else let s1 = skip_isspace s in
        if startswith s1 ''...'' then
          let gnu' = gnu_dots line s1 pars; s2 = skip_isspace (drop 3 s1) in
          if deref s2 = CHR '','' then params_loop line (tl s2) pars True gnu'
          else Done (pars, True, gnu', s2)
        else let name = takeWhile pp_is_ident2 s1;
                 s2 = skip_isspace (dropWhile pp_is_ident2 s1);
                 s3 = (if deref s2 = CHR '','' then tl s2 else s2) in
          if name \<noteq> [] \<and> length pars \<ge> MAX_PARAMS then UB
          else if length s \<le> length s3 then Fuel
          else params_loop line s3 (if name \<noteq> [] then pars @ [name] else pars) variadic gnu)"
  by pat_completeness auto
termination
proof (relation "measure (\<lambda>(l, s, p, v, g). length s)")
  fix line s pars variadic gnu s1 gnu' s2
  assume a: "\<not> (s = [] \<or> deref s = CHR '')'')" "s1 = skip_isspace s" "startswith s1 ''...''" "s2 = skip_isspace (drop 3 s1)"
  have "length s2 \<le> length (drop 3 s1)" unfolding a(4) by (rule skip_isspace_length)
  moreover have "length s1 \<le> length s" unfolding a(2) by (rule skip_isspace_length)
  ultimately have "length (tl s2) < length s" using a(1) by (cases s) auto
  then show "((line, tl s2, pars, True, gnu'), line, s, pars, variadic, gnu) \<in> measure (\<lambda>(l, s, p, v, g). length s)" by simp
qed auto

declare params_loop.simps [simp del]

definition define_line :: "string \<Rightarrow> nat list \<Rightarrow> string \<Rightarrow> file_state \<Rightarrow> file_state exec" where
  "define_line line counts s fs =
     (let s = skip_isspace s;
          name = takeWhile pp_is_ident2 s;
          s = dropWhile pp_is_ident2 s;
          n = count_at counts (f_line_idx fs)
      in if deref s = CHR ''('' then
           rbind (params_loop line (tl s) [] False False) (\<lambda>(pars, variadic, gnu, s).
             let bdy = trim_copy (if deref s = CHR '')'' then tl s else s) in
             ebind (on_table (define_macro name True pars bdy) fs) (\<lambda>fs.
             ebind (if variadic then on_table (set_variadic name gnu) fs else ok fs) (\<lambda>fs.
               ok (put_lines n fs))))
         else ebind (on_table (define_macro name False [] (trim_copy (skip_spaces s))) fs) (\<lambda>fs.
           ok (put_lines n fs)))"

definition undef_line :: "nat list \<Rightarrow> string \<Rightarrow> file_state \<Rightarrow> file_state exec" where
  "undef_line counts s fs =
     ebind (on_table (undef_macro (takeWhile pp_is_ident2 (skip_isspace s))) fs) (\<lambda>fs.
       ok (put_lines (count_at counts (f_line_idx fs)) fs))"

section \<open>Inclusion\<close>

text \<open>The name between the delimiters, if the text starts with one, and whether it is in angle brackets.\<close>

definition include_spec :: "string \<Rightarrow> (string \<times> bool) option" where
  "include_spec s =
     (if deref s = DQ then Some (takeWhile (\<lambda>c. c \<noteq> DQ) (tl s), False)
      else if deref s = CHR ''<'' then Some (takeWhile (\<lambda>c. c \<noteq> CHR ''>'') (tl s), True)
      else None)"

text \<open>
  \<open>read_pp_file\<close> reads into a buffer of 10 MB, what is behind it is lost, and ends the text with a newline.
  A text is what is in front of the first NUL of the file.
\<close>

definition read_pp_file :: "pp_env \<Rightarrow> string \<Rightarrow> string option" where
  "read_pp_file env path =
     map_option (\<lambda>t. let buf = (if int (length t) \<le> 10 * 1024 * 1024 - 2 then t else take (10 * 1024 * 1024 - 2) t) in
       if buf = [] \<or> last buf \<noteq> NL then buf @ [NL] else buf) (e_read env path)"

definition line_note :: "nat \<Rightarrow> string \<Rightarrow> string" where
  "line_note n name = ''# '' @ show_nat n @ '' '' @ [DQ] @ name @ [DQ, NL]"

definition include_file :: "pp_env \<Rightarrow> includer \<Rightarrow> string \<Rightarrow> string \<times> bool \<Rightarrow> file_state \<Rightarrow> file_state exec" where
  "include_file env inc fpath spec fs =
     rbind (resolve_include (e_include env) fpath (fst spec) (snd spec)) (\<lambda>path.
       case path of
         None \<Rightarrow> fatal (''include file not found: '' @ fst spec)
       | Some path \<Rightarrow>
          (case read_pp_file env path of
             None \<Rightarrow> fatal (''cannot read include file: '' @ path)
           | Some text \<Rightarrow>
              (let incl_lines = length (filter (\<lambda>c. c = NL) text);
                   src_resume = f_line_no fs + 1;
                   fs = put (line_note (f_line_no fs + 1) (fst spec)) fs;
                   (t, counts) = splice_lines_with_counts text
               in ebind (inc (e_full_path env path) t counts (f_global fs)) (\<lambda>(o1, g).
                    let fs = put o1 (fs\<lparr>f_global := g\<rparr>);
                        fs = fs\<lparr>f_line_no := f_line_no fs + incl_lines\<rparr>
                    in ok (put (line_note src_resume fpath) fs)))))"

definition include_line :: "pp_env \<Rightarrow> includer \<Rightarrow> string \<Rightarrow> string \<Rightarrow> string \<Rightarrow> file_state \<Rightarrow> file_state exec" where
  "include_line env inc file fpath s fs =
     (let s = skip_isspace s in
      case include_spec s of
        Some spec \<Rightarrow> include_file env inc fpath spec fs
      | None \<Rightarrow>
         ebind (expand_text EXPAND_DEPTH file 1 s (f_table fs)) (\<lambda>(t, st).
           let fs = set_table st fs in
           (case include_spec (skip_isspace (strip_bluepaint t)) of
              Some spec \<Rightarrow> include_file env inc fpath spec fs
            | None \<Rightarrow> ok fs)))"

section \<open>Conditionals\<close>

definition set_cond :: "cond_state \<Rightarrow> file_state \<Rightarrow> file_state" where
  "set_cond c fs = put [NL] (fs\<lparr>f_cond := c\<rparr>)"

definition if_line :: "pp_env \<Rightarrow> string \<Rightarrow> string \<Rightarrow> file_state \<Rightarrow> file_state exec" where
  "if_line env file s fs =
     ebind (eval_condition (e_include env) file (skip_isspace s) (f_table fs)) (\<lambda>(val, st).
       ok (set_cond (cond_open (val \<noteq> 0) (f_cond fs)) (set_table st fs)))"

definition elif_line :: "pp_env \<Rightarrow> string \<Rightarrow> string \<Rightarrow> file_state \<Rightarrow> file_state exec" where
  "elif_line env file s fs =
     (if elif_evaluates (f_cond fs) then
        ebind (eval_condition (e_include env) file (trim_copy (skip_isspace s)) (f_table fs)) (\<lambda>(val, st).
          ok (set_cond (cond_elif (val \<noteq> 0) (f_cond fs)) (set_table st fs)))
      else ok (set_cond (cond_elif False (f_cond fs)) fs))"

definition ifdef_line :: "bool \<Rightarrow> string \<Rightarrow> file_state \<Rightarrow> file_state exec" where
  "ifdef_line want s fs =
     (if f_active fs then
        rbind (find_macro (f_table fs) (takeWhile pp_is_ident2 (skip_isspace s))) (\<lambda>m.
          ok (set_cond (cond_open ((m \<noteq> None) = want) (f_cond fs)) fs))
      else ok (set_cond (cond_open False (f_cond fs)) fs))"

section \<open>A line, a file\<close>

definition directive_line :: "pp_env \<Rightarrow> includer \<Rightarrow> string \<Rightarrow> string \<Rightarrow> nat list \<Rightarrow> string \<Rightarrow> string \<Rightarrow> file_state \<Rightarrow> file_state exec" where
  "directive_line env inc file fpath counts line s fs =
     (if startswith s ''pragma'' \<and> f_active fs then pragma_line fpath (drop 6 s) fs
      else if startswith s ''define'' \<and> f_active fs then define_line line counts (drop 6 s) fs
      else if startswith s ''undef'' \<and> f_active fs then undef_line counts (drop 5 s) fs
      else if startswith s ''include'' \<and> f_active fs then include_line env inc file fpath (drop 7 s) fs
      else if startswith s ''if'' \<and> \<not> startswith s ''ifdef'' \<and> \<not> startswith s ''ifndef'' then if_line env file (drop 2 s) fs
      else if startswith s ''elif'' then elif_line env file (drop 4 s) fs
      else if startswith s ''ifdef'' then ifdef_line True (drop 5 s) fs
      else if startswith s ''ifndef'' then ifdef_line False (drop 6 s) fs
      else if startswith s ''else'' then ok (set_cond (cond_else (f_cond fs)) fs)
      else if startswith s ''endif'' then ok (set_cond (cond_endif (f_cond fs)) fs)
      else ok (put_lines (count_at counts (f_line_idx fs)) fs))"

definition process_line :: "pp_env \<Rightarrow> includer \<Rightarrow> string \<Rightarrow> string \<Rightarrow> nat list \<Rightarrow> string \<Rightarrow> file_state \<Rightarrow> file_state exec" where
  "process_line env inc file fpath counts line fs =
     ebind (let s = skip_spaces line in
            if deref s = CHR ''#'' then
              ebind (flush_acc file fs) (\<lambda>fs. directive_line env inc file fpath counts line (skip_isspace (tl s)) fs)
            else if f_active fs then text_line file counts line fs
            else inactive_line file counts fs) (\<lambda>fs.
       ok (fs\<lparr>f_line_no := f_line_no fs + count_at counts (f_line_idx fs), f_line_idx := f_line_idx fs + 1\<rparr>))"

function text_lines :: "string \<Rightarrow> string list" where
  "text_lines [] = []"
| "text_lines (c # p) =
     takeWhile (\<lambda>c. c \<noteq> NL) (c # p) # text_lines (tl (dropWhile (\<lambda>c. c \<noteq> NL) (c # p)))"
  by pat_completeness auto
termination
proof (relation "measure length")
  fix c :: char and p
  show "(tl (dropWhile (\<lambda>c. c \<noteq> NL) (c # p)), c # p) \<in> measure length"
    using length_dropWhile_le [of "\<lambda>c. c \<noteq> NL" p] by (auto simp: less_Suc_eq_le intro: order_trans)
qed simp

fun process_lines :: "(string \<Rightarrow> file_state \<Rightarrow> file_state exec) \<Rightarrow> string list \<Rightarrow> file_state \<Rightarrow> file_state exec" where
  "process_lines f [] fs = ok fs"
| "process_lines f (l # ls) fs = ebind (f l fs) (process_lines f ls)"

definition file_start :: "pp_global \<Rightarrow> file_state" where
  "file_start g = \<lparr>f_out = [], f_cond = ([], True), f_line_no = 1, f_line_idx = 0, f_acc = [], f_acc_line_no = 0,
     f_acc_phys = 0, f_acc_parens = 0, f_acc_quote = None, f_global = g\<rparr>"

definition file_body :: "pp_env \<Rightarrow> includer \<Rightarrow> string \<Rightarrow> string \<Rightarrow> nat list \<Rightarrow> string \<Rightarrow> pp_global \<Rightarrow> (string \<times> pp_global) exec" where
  "file_body env inc file fpath counts input g =
     ebind (process_lines (process_line env inc file fpath counts) (text_lines (strip_comments input)) (file_start g)) (\<lambda>fs.
     ebind (flush_acc file fs) (\<lambda>fs. ok (f_out fs, f_global fs)))"

text \<open>The depth is counted down from 246: at 0 the code's \<open>depth > 245\<close> holds.\<close>

primrec preprocess_file :: "nat \<Rightarrow> pp_env \<Rightarrow> includer" where
  "preprocess_file 0 env file input counts g =
     (if is_once_file (e_full_path env file) (g_table g) then ok ([], g)
      else fatal (''Include depth exceeded in file: '' @ file))"
| "preprocess_file (Suc d) env file input counts g =
     (let fpath = e_full_path env file in
      if is_once_file fpath (g_table g) then ok ([], g)
      else file_body env (preprocess_file d env) file fpath counts input g)"

definition INCLUDE_DEPTH :: nat where
  "INCLUDE_DEPTH = 246"

text \<open>\<open>preprocess\<close>, without \<open>-dM\<close>.\<close>

definition preprocess :: "pp_env \<Rightarrow> (string \<times> macro_def) list \<Rightarrow> bool \<Rightarrow> string \<Rightarrow> string \<Rightarrow> pp_global \<Rightarrow> (string \<times> pp_global) exec" where
  "preprocess env predefined macros_inited file p g =
     rbind (start_file predefined macros_inited (g_table g)) (\<lambda>st.
     rbind (canonical_path file) (\<lambda>path.
       case splice_lines_with_counts p of (t, counts) \<Rightarrow>
         preprocess_file INCLUDE_DEPTH env path t counts (g\<lparr>g_table := st\<rparr>)))"


section \<open>Runs on small files\<close>

definition one_header :: "string \<Rightarrow> string \<Rightarrow> pp_env" where
  "one_header name text = \<lparr>e_include = no_includes\<lparr>file_exists := (\<lambda>p. p = name)\<rparr>, e_full_path = (\<lambda>p. p),
     e_read = (\<lambda>p. if p = name then Some text else None)\<rparr>"

definition global_start :: pp_global where
  "global_start = \<lparr>g_table = pp_start, pack_align = 0, pack_align_stack = [], allowed_scripts = []\<rparr>"

fun unlines :: "string list \<Rightarrow> string" where
  "unlines [] = []"
| "unlines (l # ls) = l @ [NL] @ unlines ls"

definition run_file :: "pp_env \<Rightarrow> string list \<Rightarrow> (string list \<times> nat) exec" where
  "run_file env ls = ebind (preprocess env [] False ''m.c'' (unlines ls) global_start)
     (\<lambda>(out, g). ok (text_lines out, pack_align g))"

section \<open>The table stays consistent\<close>

definition global_ok :: "pp_global \<Rightarrow> bool" where
  "global_ok g \<longleftrightarrow> table_ok (g_table g) \<and> length (pack_align_stack g) \<le> PACK_DEPTH"

definition file_ok :: "file_state \<Rightarrow> bool" where
  "file_ok fs \<longleftrightarrow> global_ok (f_global fs)"

text \<open>A step that starts well does not hang and ends in a consistent state if it ends normally.\<close>

definition keeps :: "file_state exec \<Rightarrow> bool" where
  "keeps x \<longleftrightarrow> (\<forall>fs. x = Done (Inr fs) \<longrightarrow> file_ok fs)"

lemma keeps_simps [simp]: "keeps (ok fs) \<longleftrightarrow> file_ok fs" "keeps (fatal e)" "keeps UB" "keeps Fuel" "keeps (Done (Inl e))"
  by (simp_all add: keeps_def ok_def fatal_def)

lemma keeps_ebind:
  "(\<And>a. x = Done (Inr a) \<Longrightarrow> keeps (f a)) \<Longrightarrow> keeps (ebind x f)"
  by (auto simp: keeps_def)

lemma keeps_rbind:
  "(\<And>a. x = Done a \<Longrightarrow> keeps (f a)) \<Longrightarrow> keeps (rbind x f)"
  by (auto simp: keeps_def)

lemma keeps_step: "keeps x \<Longrightarrow> (\<And>fs. file_ok fs \<Longrightarrow> keeps (f fs)) \<Longrightarrow> keeps (ebind x f)"
  by (auto simp: keeps_def)

lemma file_ok_simps [simp]:
  "file_ok (put s fs) = file_ok fs" "file_ok (put_lines n fs) = file_ok fs"
  "file_ok (fs\<lparr>f_acc := a\<rparr>) = file_ok fs" "file_ok (fs\<lparr>f_acc_phys := n\<rparr>) = file_ok fs"
  "file_ok (fs\<lparr>f_acc_parens := i\<rparr>) = file_ok fs" "file_ok (fs\<lparr>f_acc_quote := q\<rparr>) = file_ok fs"
  "file_ok (fs\<lparr>f_acc_line_no := n\<rparr>) = file_ok fs" "file_ok (fs\<lparr>f_line_no := n\<rparr>) = file_ok fs"
  "file_ok (fs\<lparr>f_line_idx := n\<rparr>) = file_ok fs" "file_ok (set_cond c fs) = file_ok fs"
  "file_ok (fs\<lparr>f_global := g\<rparr>) = global_ok g"
  by (simp_all add: file_ok_def put_def put_lines_def set_cond_def)

lemma file_ok_table: "file_ok fs \<Longrightarrow> table_ok (f_table fs)"
  by (simp add: file_ok_def global_ok_def f_table_def)

lemma file_ok_set_table: "file_ok fs \<Longrightarrow> table_ok st \<Longrightarrow> file_ok (set_table st fs)"
  by (simp add: file_ok_def global_ok_def set_table_def)

lemma expand_text_table_ok:
  "table_ok st \<Longrightarrow> expand_text d f l t st = Done (Inr (s, st')) \<Longrightarrow> table_ok st'"
  using expander_ok_expand_text by (metis counted_table_ok expander_ok_def expands_def)

lemma eval_condition_table_ok:
  assumes "table_ok st" and "eval_condition env f e st = Done (Inr (v, st'))"
  shows "table_ok st'"
proof -
  have "evals e st (eval_pp_expr (Suc (length e)) env f e st)"
    using eval_pp_expr_ok [of "Suc (length e)"] assms(1) by (simp add: evaluator_ok_def)
  with assms show ?thesis by (auto simp: eval_condition_def evals_def ok_def counted_table_ok)
qed

lemma keeps_put_expanded: "file_ok fs \<Longrightarrow> keeps (put_expanded f t l fs)"
  unfolding put_expanded_def
  by (rule keeps_ebind) (auto simp: file_ok_set_table dest: expand_text_table_ok [rotated] intro: file_ok_table)

lemma keeps_flush: "file_ok fs \<Longrightarrow> keeps (flush_acc f fs)"
  unfolding flush_acc_def by (auto intro!: keeps_step [OF keeps_put_expanded])

lemma keeps_on_table:
  "file_ok fs \<Longrightarrow> (\<And>st st'. table_ok st \<Longrightarrow> g st = Done st' \<Longrightarrow> table_ok st') \<Longrightarrow> keeps (on_table g fs)"
  unfolding on_table_def by (rule keeps_rbind) (auto intro: file_ok_set_table file_ok_table)

lemma table_ops_ok:
  "table_ok st \<Longrightarrow> define_macro n b ps t st = Done st' \<Longrightarrow> table_ok st'"
  "table_ok st \<Longrightarrow> set_variadic n gnu st = Done st' \<Longrightarrow> table_ok st'"
  "table_ok st \<Longrightarrow> undef_macro n st = Done st' \<Longrightarrow> table_ok st'"
  "table_ok st \<Longrightarrow> push_macro n st = Done st' \<Longrightarrow> table_ok st'"
  "table_ok st \<Longrightarrow> pop_macro n st = Done st' \<Longrightarrow> table_ok st'"
proof -
  assume ok: "table_ok st"
  show "define_macro n b ps t st = Done st' \<Longrightarrow> table_ok st'"
    unfolding define_macro_put [OF ok] using put_def_correct [OF ok] by (metis res.inject)
  show "undef_macro n st = Done st' \<Longrightarrow> table_ok st'" using undef_macro_correct [OF ok, of n] by auto
  show "push_macro n st = Done st' \<Longrightarrow> table_ok st'" using push_macro_correct [OF ok, of n] by auto
  show "pop_macro n st = Done st' \<Longrightarrow> table_ok st'" using pop_macro_correct [OF ok, of n] by auto
  show "set_variadic n gnu st = Done st' \<Longrightarrow> table_ok st'"
  proof -
    assume s: "set_variadic n gnu st = Done st'"
    let ?f = "\<lambda>d. d\<lparr>is_variadic := True, is_gnu_variadic := gnu\<rparr>"
    show "table_ok st'"
    proof (cases "find_macro st n")
      case (Done r)
      show ?thesis
      proof (cases r)
        case None
        with Done s ok show ?thesis by (simp add: set_variadic_def)
      next
        case (Some a)
        with Done have "set_variadic n gnu st = put_def n ?f st" by (simp add: set_variadic_def put_def_def)
        with s put_def_correct [OF ok, of n ?f] show ?thesis by auto
      qed
    qed (use s in \<open>simp_all add: set_variadic_def\<close>)
  qed
qed

lemma keeps_text_line: "file_ok fs \<Longrightarrow> keeps (text_line f counts line fs)"
  unfolding text_line_def Let_def
  by (auto intro!: keeps_step [OF keeps_put_expanded] split: prod.splits)

lemma keeps_inactive_line: "file_ok fs \<Longrightarrow> keeps (inactive_line f counts fs)"
  unfolding inactive_line_def
  by (rule keeps_step) (auto intro!: keeps_step [OF keeps_flush])

lemma keeps_pragma_line: "file_ok fs \<Longrightarrow> keeps (pragma_line fpath s fs)"
proof -
  assume ok: "file_ok fs"
  have once: "table_ok (mark_once_file fpath (f_table fs))"
    using file_ok_table [OF ok] by (simp add: mark_once_file_def table_ok_def table_rep_def)
  have pack: "keeps (pragma_pack t fs)" for t
    using ok by (auto simp: pragma_pack_def Let_def set_pack_def file_ok_def global_ok_def put_def split: list.splits)
  have mac: "keeps (pragma_macro g t fs)" if "\<And>n st st'. table_ok st \<Longrightarrow> g n st = Done st' \<Longrightarrow> table_ok st'" for g t
    using ok that by (auto simp: pragma_macro_def Let_def intro!: keeps_step [OF keeps_on_table])
  have uni: "file_ok (pragma_unicode t fs)" for t
    using ok by (simp add: pragma_unicode_def Let_def file_ok_def global_ok_def put_def)
  show ?thesis
    unfolding pragma_line_def Let_def
    using ok once pack uni mac [OF table_ops_ok(4)] mac [OF table_ops_ok(5)] by (auto simp: file_ok_set_table)
qed

lemma keeps_define: "file_ok fs \<Longrightarrow> keeps (on_table (define_macro n fn ps t) fs)"
  by (erule keeps_on_table) (rule table_ops_ok(1))

lemma keeps_variadic: "file_ok fs \<Longrightarrow> keeps (on_table (set_variadic n gnu) fs)"
  by (erule keeps_on_table) (rule table_ops_ok(2))

lemma keeps_define_line: "file_ok fs \<Longrightarrow> keeps (define_line line counts s fs)"
  unfolding define_line_def Let_def
  by (auto intro!: keeps_rbind keeps_step [OF keeps_define] keeps_step [OF keeps_variadic] split: prod.splits)

lemma keeps_undef_line: "file_ok fs \<Longrightarrow> keeps (undef_line counts s fs)"
  unfolding undef_line_def by (auto intro!: keeps_step [OF keeps_on_table] elim: table_ops_ok)

definition includer_ok :: "includer \<Rightarrow> bool" where
  "includer_ok inc \<longleftrightarrow>
     (\<forall>f t c g o1 g'. global_ok g \<longrightarrow> inc f t c g = Done (Inr (o1, g')) \<longrightarrow> global_ok g')"

lemma keeps_include_file: "includer_ok inc \<Longrightarrow> file_ok fs \<Longrightarrow> keeps (include_file env inc fpath spec fs)"
  unfolding include_file_def Let_def
  by (rule keeps_rbind)
     (auto split: option.splits prod.splits intro!: keeps_ebind simp: includer_ok_def file_ok_def put_def)

lemma keeps_include_line:
  assumes "includer_ok inc" and "file_ok fs"
  shows "keeps (include_line env inc f fpath s fs)"
proof -
  have "file_ok (set_table b fs)" if "expand_text d l n t (f_table fs) = Done (Inr (a, b))" for d l n t a b
    using expand_text_table_ok [OF file_ok_table that] assms(2) by (simp add: file_ok_set_table)
  then show ?thesis
    unfolding include_line_def Let_def
    using assms by (auto split: option.splits intro!: keeps_ebind keeps_include_file)
qed

lemma file_ok_after_condition:
  "file_ok fs \<Longrightarrow> eval_condition env f e (f_table fs) = Done (Inr (v, st)) \<Longrightarrow> file_ok (set_table st fs)"
  using eval_condition_table_ok [OF file_ok_table] by (simp add: file_ok_set_table)

lemma keeps_if_line: "file_ok fs \<Longrightarrow> keeps (if_line env f s fs)"
  unfolding if_line_def
  by (auto intro!: keeps_ebind intro: file_ok_after_condition)

lemma keeps_elif_line: "file_ok fs \<Longrightarrow> keeps (elif_line env f s fs)"
  unfolding elif_line_def
  by (auto intro!: keeps_ebind intro: file_ok_after_condition)

lemma keeps_ifdef_line: "file_ok fs \<Longrightarrow> keeps (ifdef_line want s fs)"
  unfolding ifdef_line_def by (auto intro!: keeps_rbind)

lemma keeps_process_line:
  assumes "includer_ok inc" and "file_ok fs"
  shows "keeps (process_line env inc f fpath counts line fs)"
proof -
  have dir: "keeps (directive_line env inc f fpath counts line s fs')" if "file_ok fs'" for s fs'
    unfolding directive_line_def
    using that assms(1) by (simp add: keeps_pragma_line keeps_define_line keeps_undef_line keeps_include_line
      keeps_if_line keeps_elif_line keeps_ifdef_line)
  show ?thesis
    unfolding process_line_def Let_def
  proof (rule keeps_step)
    show "keeps (if deref (skip_spaces line) = CHR ''#'' then
        ebind (flush_acc f fs) (\<lambda>fs. directive_line env inc f fpath counts line (skip_isspace (tl (skip_spaces line))) fs)
      else if f_active fs then text_line f counts line fs else inactive_line f counts fs)"
      using assms(2) by (auto intro: keeps_step keeps_flush dir keeps_text_line keeps_inactive_line)
  qed simp
qed

lemma keeps_process_lines:
  "(\<And>l fs. file_ok fs \<Longrightarrow> keeps (h l fs)) \<Longrightarrow> file_ok fs \<Longrightarrow> keeps (process_lines h ls fs)"
  by (induction ls arbitrary: fs) (auto intro!: keeps_step)

lemma file_body_ok:
  assumes "includer_ok inc" and "global_ok g" and "file_body env inc f fpath counts input g = Done (Inr (o1, g'))"
  shows "global_ok g'"
proof -
  have "file_ok (file_start g)" using assms(2) by (simp add: file_start_def file_ok_def)
  then have "keeps (process_lines (process_line env inc f fpath counts) (text_lines (strip_comments input)) (file_start g))"
    by (intro keeps_process_lines keeps_process_line assms(1))
  with assms(3) show ?thesis
    unfolding file_body_def using keeps_flush by (auto simp: keeps_def ok_def file_ok_def)
qed

lemma preprocess_file_ok: "includer_ok (preprocess_file d env)"
proof (induction d)
  case 0
  show ?case by (auto simp: includer_ok_def ok_def fatal_def)
next
  case (Suc d)
  show ?case
    unfolding includer_ok_def
    by (auto simp: Let_def ok_def split: if_splits dest: file_body_ok [OF Suc])
qed

lemma predefined_ok:
  "table_ok st \<Longrightarrow> run_ops (\<lambda>(n, d). define_macro n (is_function d) (params d) (body d)) ds st = Done st' \<Longrightarrow> table_ok st'"
proof (induction ds arbitrary: st)
  case (Cons x ds)
  then show ?case by (cases x) (auto dest: table_ops_ok(1))
qed simp

text \<open>
  C18. Preprocessing keeps its tables: whenever \<open>preprocess_file\<close> returns a text for a file, with all the files it includes,
  directives it runs and macros it expands, the list of macros and the hash table are consistent with each other and the
  packing stack is within its array. A file that pushes more than 16 packings or pops the empty stack is undefined behaviour
  in the code (it does not check) and in the model, and nothing is said about it.
\<close>

theorem preprocess_keeps_tables:
  assumes "table_ok (g_table g)" and "length (pack_align_stack g) \<le> PACK_DEPTH"
    and "preprocess_file d env file input counts g = Done (Inr (out, g'))"
  shows "table_ok (g_table g') \<and> length (pack_align_stack g') \<le> PACK_DEPTH"
  using preprocess_file_ok [of d env] assms unfolding includer_ok_def global_ok_def by blast


lemma small_file:
  "case preprocess_file 2 (one_header ''a.h'' ''#pragma pack(push, 4)'') ''m.c''
      (unlines [''#define X 1'', ''#include <a.h>'', ''X'']) [1, 1, 1] global_start
    of Done (Inr (s, g)) \<Rightarrow> pack_align g = 4 \<and> last (text_lines s) = ''1'' | _ \<Rightarrow> False"
  by code_simp

theorem preprocess_keeps_tables_witness:
  "\<exists>s g. preprocess_file 2 (one_header ''a.h'' ''#pragma pack(push, 4)'') ''m.c''
      (unlines [''#define X 1'', ''#include <a.h>'', ''X'']) [1, 1, 1] global_start = Done (Inr (s, g)) \<and>
     table_ok (g_table g) \<and> length (pack_align_stack g) \<le> PACK_DEPTH"
proof -
  obtain s g where run: "preprocess_file 2 (one_header ''a.h'' ''#pragma pack(push, 4)'') ''m.c''
      (unlines [''#define X 1'', ''#include <a.h>'', ''X'']) [1, 1, 1] global_start = Done (Inr (s, g))"
    using small_file by (auto split: res.splits sum.splits)
  have "table_ok (g_table global_start)" "length (pack_align_stack global_start) \<le> PACK_DEPTH"
    by (simp_all add: global_start_def table_ok_start)
  from preprocess_keeps_tables [OF this run] run show ?thesis by blast
qed

section \<open>Skipped groups\<close>

text \<open>The lines that open, continue or close a conditional section.\<close>

definition is_conditional :: "string \<Rightarrow> bool" where
  "is_conditional line \<longleftrightarrow> (let s = skip_spaces line; d = skip_isspace (tl s) in
     deref s = CHR ''#'' \<and> (startswith d ''if'' \<or> startswith d ''elif'' \<or> startswith d ''else'' \<or> startswith d ''endif''))"

text \<open>The state after \<open>k\<close> lines were dropped, whose physical lines are replaced by newlines.\<close>

definition dropped :: "nat list \<Rightarrow> nat \<Rightarrow> file_state \<Rightarrow> file_state" where
  "dropped counts k fs = (let n = sum_list (map (count_at counts) [f_line_idx fs..<f_line_idx fs + k]) in
     (put_lines n fs)\<lparr>f_line_no := f_line_no fs + n, f_line_idx := f_line_idx fs + k\<rparr>)"

lemma startswith_append: "startswith s (p @ q) \<Longrightarrow> startswith s p"
proof (induction p arbitrary: s)
  case (Cons c p)
  then show ?case by (cases s) auto
qed simp

lemma dropped_fields [simp]:
  "f_cond (dropped c k fs) = f_cond fs" "f_acc (dropped c k fs) = f_acc fs" "f_active (dropped c k fs) = f_active fs"
  "f_line_idx (dropped c k fs) = f_line_idx fs + k"
  by (simp_all add: dropped_def put_lines_def put_def f_active_def Let_def)

lemma dropped_0 [simp]: "dropped c 0 fs = fs"
  by (simp add: dropped_def put_lines_def put_def)

lemma dropped_dropped: "dropped c 1 (dropped c k fs) = dropped c (Suc k) fs"
  by (simp add: dropped_def put_lines_def put_def Let_def replicate_add)

lemma process_skipped_line:
  assumes "\<not> f_active fs" and "f_acc fs = []" and "\<not> is_conditional line"
  shows "process_line env inc f fpath counts line fs = ok (dropped counts 1 fs)"
proof (cases "deref (skip_spaces line) = CHR ''#''")
  case True
  let ?d = "skip_isspace (tl (skip_spaces line))"
  have no: "\<not> startswith ?d ''if''" "\<not> startswith ?d ''elif''" "\<not> startswith ?d ''else''" "\<not> startswith ?d ''endif''"
    using assms(3) True by (simp_all add: is_conditional_def Let_def)
  then have "\<not> startswith ?d ''ifdef''" "\<not> startswith ?d ''ifndef''"
    using startswith_append [of ?d "''if''" "''def''"] startswith_append [of ?d "''if''" "''ndef''"] by auto
  with no have "directive_line env inc f fpath counts line ?d fs = ok (put_lines (count_at counts (f_line_idx fs)) fs)"
    using assms(1) by (simp add: directive_line_def)
  with True assms(2) show ?thesis
    by (simp add: process_line_def Let_def flush_acc_def dropped_def put_lines_def put_def)
next
  case False
  with assms(1,2) show ?thesis
    by (simp add: process_line_def Let_def inactive_line_def dropped_def put_lines_def put_def)
qed

text \<open>
  C19. The lines of a group that is not selected, other than the conditional directives in it, have no effect: they define
  no macro, include no file, run no pragma and expand nothing; the preprocessor only counts them and puts a newline for every
  physical line they had, so that the lines behind the group keep their numbers.
\<close>

theorem skipped_group_inert:
  assumes "\<not> f_active fs" and "f_acc fs = []" and "\<forall>l \<in> set ls. \<not> is_conditional l"
  shows "process_lines (process_line env inc f fpath counts) ls fs = ok (dropped counts (length ls) fs)"
proof -
  have "process_lines (process_line env inc f fpath counts) ls (dropped counts k fs) = ok (dropped counts (k + length ls) fs)" for k
    using assms(3)
  proof (induction ls arbitrary: k)
    case (Cons l ls)
    with assms(1,2) show ?case by (simp add: process_skipped_line dropped_dropped del: One_nat_def)
  qed simp
  from this [of 0] show ?thesis by simp
qed

definition in_skipped_group :: file_state where
  "in_skipped_group = (file_start global_start)\<lparr>f_cond := cond_open False ([], True)\<rparr>"

theorem skipped_group_inert_witness:
  "process_lines (process_line (one_header ''a.h'' []) (\<lambda>_ _ _ g. ok ([], g)) ''m.c'' ''m.c'' [1, 2])
     [''#define X 1'', ''#error no''] in_skipped_group = ok (dropped [1, 2] 2 in_skipped_group)"
proof -
  have "\<not> f_active in_skipped_group" "f_acc in_skipped_group = []" by code_simp+
  moreover have "\<forall>l \<in> set [''#define X 1'', ''#error no'']. \<not> is_conditional l" by code_simp
  ultimately have "process_lines (process_line (one_header ''a.h'' []) (\<lambda>_ _ _ g. ok ([], g)) ''m.c'' ''m.c'' [1, 2])
     [''#define X 1'', ''#error no''] in_skipped_group = ok (dropped [1, 2] (length [''#define X 1'', ''#error no'']) in_skipped_group)"
    by (rule skipped_group_inert)
  then show ?thesis by (simp only: list.size One_nat_def Suc_1 add_0 plus_nat.simps numeral_2_eq_2)
qed

section \<open>Packing\<close>

lemma skip_isspace_here:
  "\<not> is_space x \<Longrightarrow> skip_isspace (x # s) = x # s"
  by (simp add: skip_isspace_def)

lemma pack_chars:
  "\<not> is_space CHR ''(''" "\<not> is_space CHR '',''" "\<not> is_space CHR ''p''"
  by (simp_all add: is_space_def code_def)

lemma pack_digit: "c \<in> set ''123456789'' \<Longrightarrow> \<not> is_space c \<and> is_pack_digit c \<and> c \<noteq> CHR '',''"
proof -
  have "list_all (\<lambda>c. \<not> is_space c \<and> is_pack_digit c \<and> c \<noteq> CHR '','') ''123456789''" by code_simp
  then show "c \<in> set ''123456789'' \<Longrightarrow> \<not> is_space c \<and> is_pack_digit c \<and> c \<noteq> CHR '',''"
    unfolding list_all_iff by blast
qed

lemma pack_push:
  assumes "c \<in> set ''123456789''"
  shows "pragma_pack (''(push,'' @ c # '')'') fs =
    (let g = f_global fs in
     if length (pack_align_stack g) < PACK_DEPTH then
       ok (put (pack_note (digit_val c)) (fs\<lparr>f_global := g
         \<lparr>pack_align_stack := pack_align g # pack_align_stack g, pack_align := digit_val c\<rparr>\<rparr>))
     else UB)"
  using pack_digit [OF assms] by (simp add: pragma_pack_def Let_def skip_isspace_here pack_chars set_pack_def)

lemma pack_pop:
  "pragma_pack ''(pop)'' fs =
    (case pack_align_stack (f_global fs) of
       [] \<Rightarrow> UB
     | a # st \<Rightarrow> ok (put (''# pragma pack()'' @ [NL]) (fs\<lparr>f_global := (f_global fs)\<lparr>pack_align := a, pack_align_stack := st\<rparr>\<rparr>)))"
  by (simp add: pragma_pack_def Let_def skip_isspace_here pack_chars)

text \<open>
  \<open>#pragma pack(pop)\<close> undoes \<open>#pragma pack(push, n)\<close> in the preprocessor: the alignment and the stack
  are what they were, as long as the 16 entries of the array suffice. What the parser is told is something else: \<open>pack()\<close>, no packing, 
  whatever the alignment in front of the \<open>push\<close> was.
\<close>

theorem pack_push_pop:
  assumes "c \<in> set ''123456789''" and "length (pack_align_stack (f_global fs)) < PACK_DEPTH"
  shows "ebind (pragma_pack (''(push,'' @ c # '')'') fs) (pragma_pack ''(pop)'') =
    ok (put (pack_note (digit_val c) @ ''# pragma pack()'' @ [NL]) fs)"
  unfolding pack_push [OF assms(1)] by (simp add: assms(2) pack_pop Let_def put_def ok_def)

theorem pack_push_pop_witness:
  "ebind (pragma_pack ''(push,4)'' (file_start global_start)) (pragma_pack ''(pop)'') =
    ok (put (pack_note 4 @ ''# pragma pack()'' @ [NL]) (file_start global_start))"
proof -
  have "length (pack_align_stack (f_global (file_start global_start))) < PACK_DEPTH" by code_simp
  from pack_push_pop [OF _ this, of "CHR ''4''"] show ?thesis by (simp add: digit_val_def code_def)
qed

section \<open>Inclusion\<close>

definition self_env :: pp_env where
  "self_env = one_header ''a.h'' ''#include <a.h>''"

lemma self_env_reads:
  "text_lines (strip_comments (unlines [''#include <a.h>''])) = [''#include <a.h>'']"
  "resolve_include (e_include self_env) ''a.h'' ''a.h'' True = Done (Some ''a.h'')"
  "read_pp_file self_env ''a.h'' = Some (unlines [''#include <a.h>''])"
  "splice_lines_with_counts (unlines [''#include <a.h>'']) = (unlines [''#include <a.h>''], [1])"
  "e_full_path self_env ''a.h'' = ''a.h''"
  by code_simp+

lemma self_include_line:
  "skip_spaces ''#include <a.h>'' = ''#include <a.h>''"
  "skip_isspace (tl ''#include <a.h>'') = ''include <a.h>''"
  "include_spec (skip_isspace (drop 7 ''include <a.h>'')) = Some (''a.h'', True)"
  by code_simp+

lemma self_include_step:
  assumes "\<And>g. is_once_file ''a.h'' (g_table g) = False \<Longrightarrow> inc ''a.h'' (unlines [''#include <a.h>'']) [1] g = fatal e"
    and "\<not> is_once_file ''a.h'' (g_table g)"
  shows "file_body self_env inc ''a.h'' ''a.h'' [1] (unlines [''#include <a.h>'']) g = fatal e"
proof -
  have "include_line self_env inc ''a.h'' ''a.h'' (drop 7 ''include <a.h>'') (file_start g) = fatal e"
    using assms unfolding include_line_def self_include_line Let_def option.case
    by (simp add: include_file_def self_env_reads file_start_def put_def fatal_def Let_def split_def del: unlines.simps One_nat_def)
  then have "directive_line self_env inc ''a.h'' ''a.h'' [1] ''#include <a.h>'' ''include <a.h>'' (file_start g) = fatal e"
    by (simp add: directive_line_def f_active_def file_start_def)
  then have "process_line self_env inc ''a.h'' ''a.h'' [1] ''#include <a.h>'' (file_start g) = fatal e"
    unfolding process_line_def self_include_line Let_def by (simp add: flush_acc_def file_start_def fatal_def)
  then show ?thesis
    unfolding file_body_def self_env_reads by (simp add: fatal_def)
qed

text \<open>
  A file that includes itself without a guard does not hang the preprocessor: at every depth the nested calls end in
  the error about the include depth, unless the file was marked with \<open>#pragma once\<close>, then the call returns nothing.
\<close>

theorem self_include_reported:
  "preprocess_file d self_env ''a.h'' (unlines [''#include <a.h>'']) [1] g =
    (if is_once_file ''a.h'' (g_table g) then ok ([], g) else fatal ''Include depth exceeded in file: a.h'')"
proof (induction d arbitrary: g)
  case 0
  show ?case by (simp add: self_env_reads)
next
  case (Suc d)
  show ?case unfolding preprocess_file.simps self_env_reads Let_def
    using Suc self_include_step [of "preprocess_file d self_env"] by simp
qed

section \<open>Line numbers\<close>

text \<open>
  After \<open>#include\<close> the code adds the lines of the header to the number of its own line: \<open>__LINE__\<close> in line 2
  of a file, behind the inclusion of a header of two lines, is 4, in contradiction to the marker \<open># 2\<close> the preprocessor
  puts in front of it; and the header itself is announced as starting at line 2.
\<close>

theorem include_shifts_line:
  "run_file (one_header ''a.h'' (unlines [''a'', ''b''])) [''#include <a.h>'', ''__LINE__''] =
     ok ([''# 2 '' @ [DQ] @ ''a.h'' @ [DQ], ''a'', ''b'', ''# 2 '' @ [DQ] @ ''m.c'' @ [DQ], ''4''], 0)"
  by code_simp

text \<open>
  \<open>#pragma pack()\<close>, which resets the packing to the default in other compilers, changes nothing
  and is not passed on, so the next struct is still packed.
\<close>

theorem pack_reset_ignored: "pragma_line fpath ('' pack()'' @ s) fs = ok fs"
  by (simp add: pragma_line_def pragma_pack_def Let_def skip_isspace_def is_space_def is_pack_digit_def in_chars_def code_def)

end
