(* ===== verification/Lexer.thy ===== *)
theory Lexer
  imports PPText Strtol RangeSearch "HOL-Library.Sublist"
begin

text \<open>
  The lexer (\<open>src/lexer.c\<close>): preprocessed text to tokens, and the line numbers of its error messages. A pointer into
  the text is what is left of the text there, its position counts from the start. \<open>tokenize\<close> takes the length of the
  text as fuel. The value of floating-point literals (\<open>strtod\<close>) and the warnings about identifiers are not modelled.
\<close>

section \<open>Tokens and state\<close>

datatype token_kind = TK_IDENT | TK_PUNCT | TK_NUM | TK_FNUM | TK_STR | TK_EOF

text \<open>\<open>tk_loc\<close> is a position in the text; the code can point in front of it.\<close>

record token =
  tk_kind :: token_kind
  tk_val :: int
  tk_name :: string
  tk_str :: string
  tk_loc :: int
  tk_len :: nat
  tk_prefix :: nat
  tk_filename :: string
  tk_lineno :: int

text \<open>
  The globals \<open>current_input\<close>, \<open>current_line_offset\<close>, \<open>line_num\<close>, \<open>current_debug_filename\<close>, the variable
  \<open>cur_lineno\<close>, the names given to \<open>#pragma unicode\<close> and the list of tokens.
\<close>

record lexer =
  current_input :: nat
  current_line_offset :: nat
  line_num :: int
  current_debug_filename :: string
  cur_lineno :: int
  lx_scripts :: "string list"
  lx_tokens :: "token list"

record lex_config =
  opt_g :: bool
  lx_filename :: string
  lx_text :: string
  lx_start_list :: "sc_tr39 list"

definition pos_of :: "lex_config \<Rightarrow> string \<Rightarrow> nat" where
  "pos_of cf p = length (lx_text cf) - length p"

definition is_ident1 :: "char \<Rightarrow> bool" where
  "is_ident1 c \<longleftrightarrow> in_chars CHR ''a'' CHR ''z'' c \<or> in_chars CHR ''A'' CHR ''Z'' c \<or> c = CHR ''_'' \<or> c = CHR ''$''"

definition is_ident2 :: "char \<Rightarrow> bool" where
  "is_ident2 c \<longleftrightarrow> is_ident1 c \<or> in_chars CHR ''0'' CHR ''9'' c"

section \<open>Errors\<close>

fun line_start :: "string \<Rightarrow> nat \<Rightarrow> nat \<Rightarrow> nat" where
  "line_start t lo 0 = 0"
| "line_start t lo (Suc l) = (if lo < Suc l \<and> t ! l \<noteq> NL then line_start t lo l else Suc l)"

definition newlines :: "string \<Rightarrow> nat \<Rightarrow> nat \<Rightarrow> nat" where
  "newlines t a b = length (filter (\<lambda>c. c = NL) (drop a (take b t)))"

definition compute_line_no :: "string \<Rightarrow> lexer \<Rightarrow> nat \<Rightarrow> int" where
  "compute_line_no t st loc =
     (let line = line_start t (current_input st) loc in
      if current_line_offset st = 0 \<or> loc < current_input st + current_line_offset st
      then 1 + int (newlines t (current_input st) line)
      else line_num st + int (newlines t (current_input st + current_line_offset st) line))"

definition ESC :: char where
  "ESC = CHR 0x1B"

definition verror_at :: "lex_config \<Rightarrow> lexer \<Rightarrow> int \<Rightarrow> nat \<Rightarrow> string \<Rightarrow> 'a exec" where
  "verror_at cf st l len msg =
     (if l < 0 then UB else
        let t = lx_text cf; loc = nat l;
            line = line_start t (current_input st) loc;
            src = take (loc - line) (drop line t) @ takeWhile (\<lambda>c. c \<noteq> NL) (drop loc t)
        in fatal (ESC # ''[1;37m'' @ lx_filename cf @ '':'' @ show_int (compute_line_no t st loc) @ '': '' @ ESC # ''[0m''
             @ ESC # ''[1;31merror:'' @ ESC # ''[0m '' @ msg @ [NL]
             @ '' '' @ src @ [NL]
             @ replicate (loc - line + 1) CHR '' '' @ ESC # ''[1;31m^''
             @ replicate ((if len > 0 then len else 1) - 1) CHR ''~'' @ ESC # ''[0m'' @ [NL]))"

definition error_at :: "lex_config \<Rightarrow> lexer \<Rightarrow> string \<Rightarrow> string \<Rightarrow> 'a exec" where
  "error_at cf st p msg = verror_at cf st (int (pos_of cf p)) 1 msg"

definition error_tok :: "lex_config \<Rightarrow> lexer \<Rightarrow> token \<Rightarrow> string \<Rightarrow> 'a exec" where
  "error_tok cf st t msg = verror_at cf st (tk_loc t) (tk_len t) msg"

section \<open>Making tokens\<close>

text \<open>Zeroed memory with the fields \<open>new_token\<close> sets; \<open>start\<close> is a position.\<close>

definition new_token :: "lex_config \<Rightarrow> lexer \<Rightarrow> token_kind \<Rightarrow> int \<Rightarrow> string \<Rightarrow> token" where
  "new_token cf st k start p =
     \<lparr>tk_kind = k, tk_val = 0, tk_name = [], tk_str = [], tk_loc = start, tk_len = nat (int (pos_of cf p) - start), tk_prefix = 0,
      tk_filename = (if opt_g cf then current_debug_filename st else []),
      tk_lineno = (if opt_g cf then cur_lineno st else 0)\<rparr>"

definition push_token :: "token \<Rightarrow> lexer \<Rightarrow> lexer" where
  "push_token t st = st\<lparr>lx_tokens := lx_tokens st @ [t]\<rparr>"

text \<open>\<open>cur_lineno\<close> is a host \<open>int\<close>.\<close>

definition add_lines :: "nat \<Rightarrow> lexer \<Rightarrow> lexer res" where
  "add_lines k st = rbind (ck32 (cur_lineno st + int k)) (\<lambda>n. Done (st\<lparr>cur_lineno := n\<rparr>))"

text \<open>\<open>if (*p == '\n') cur_lineno++\<close>.\<close>

definition count_nl :: "string \<Rightarrow> lexer \<Rightarrow> lexer res" where
  "count_nl p st = (if deref p = NL then add_lines 1 st else Done st)"

type_synonym lex_step = "string \<Rightarrow> lexer \<Rightarrow> (string \<times> lexer) exec"

section \<open>Lines that start with a number sign\<close>

definition to_eol :: "string \<Rightarrow> string" where
  "to_eol p = dropWhile (\<lambda>c. c \<noteq> NL) p"

text \<open>\<open># 12 "name"\<close>: \<open>p\<close> is the text at the sign, \<open>q\<close> at the closing quote.\<close>

definition line_marker :: "lex_config \<Rightarrow> string \<Rightarrow> int \<Rightarrow> string \<Rightarrow> string \<Rightarrow> lexer \<Rightarrow> (string \<times> lexer) exec" where
  "line_marker cf p n name q st =
     (let st = (if opt_g cf then st\<lparr>current_debug_filename := name\<rparr> else st);
          st = st\<lparr>current_input := pos_of cf p, current_line_offset := pos_of cf (tl q) - pos_of cf p,
                  line_num := n - 1, cur_lineno := n\<rparr>;
          r = to_eol (tl q)
      in rbind (count_nl r st) (\<lambda>st. ok (r, st)))"

text \<open>To the next line, over its newline.\<close>

definition skip_line :: lex_step where
  "skip_line p st =
     (let r = to_eol p in rbind (count_nl r st) (\<lambda>st. ok ((if deref r = NL then tl r else r), st)))"

definition lex_pragma_unicode :: lex_step where
  "lex_pragma_unicode r st =
     (let r = skip_spaces r;
          name = takeWhile (\<lambda>c. \<not> is_space c) r
      in skip_line r (if name \<noteq> [] then st\<lparr>lx_scripts := lx_scripts st @ [name]\<rparr> else st))"

text \<open>\<open>None\<close>: the line is \<open>#pragma pack\<close> and is left to the parser.\<close>

definition lex_hash :: "lex_config \<Rightarrow> string \<Rightarrow> lexer \<Rightarrow> (string \<times> lexer) option exec" where
  "lex_hash cf p st =
     (let q = skip_spaces (tl p);
          ds = takeWhile is_digit q;
          q1 = (if ds = [] then q else skip_spaces (dropWhile is_digit q));
          quoted = (ds \<noteq> [] \<and> deref q1 = DQ);
          name = takeWhile (\<lambda>c. c \<noteq> DQ) (tl q1);
          q2 = (if quoted then dropWhile (\<lambda>c. c \<noteq> DQ) (tl q1) else q1);
          r = skip_spaces (drop 6 q2)
      in rbind (ck32 (int (digits_value 10 0 ds))) (\<lambda>n.
           if quoted \<and> deref q2 = DQ then ebind (line_marker cf p n name q2 st) (\<lambda>x. ok (Some x))
           else if startswith q2 ''pragma'' \<and> startswith r ''pack'' then ok None
           else if startswith q2 ''pragma'' \<and> startswith r ''unicode'' then ebind (lex_pragma_unicode (drop 7 r) st) (\<lambda>x. ok (Some x))
           else ebind (skip_line p st) (\<lambda>x. ok (Some x))))"

section \<open>Comments\<close>

fun find_comment_end :: "string \<Rightarrow> (string \<times> string) option" where
  "find_comment_end [] = None"
| "find_comment_end (c # p) =
     (if startswith (c # p) ''*/'' then Some ([], tl p)
      else map_option (\<lambda>(a, r). (c # a, r)) (find_comment_end p))"

definition lex_block_comment :: "lex_config \<Rightarrow> lex_step" where
  "lex_block_comment cf p st =
     (case find_comment_end (drop 2 p) of
        None \<Rightarrow> error_at cf st p ''unclosed block comment''
      | Some (inside, r) \<Rightarrow> rbind (add_lines (newlines inside 0 (length inside)) st) (\<lambda>st. ok (r, st)))"

section \<open>Numbers\<close>

definition skip_sign :: "string \<Rightarrow> string" where
  "skip_sign p = (if deref p = CHR ''+'' \<or> deref p = CHR ''-'' then tl p else p)"

text \<open>Whether a literal is a floating-point one, and the text behind it, without and with its suffix.\<close>

definition number_body :: "string \<Rightarrow> bool \<times> string" where
  "number_body p =
     (if deref p = CHR ''0'' \<and> deref_at p 1 \<in> set ''xX'' then
        let p1 = dropWhile is_xdigit (drop 2 p);
            (fl, p2) = (if deref p1 = CHR ''.'' then (True, dropWhile is_xdigit (tl p1)) else (False, p1))
        in if deref p2 \<in> set ''pP'' then (True, dropWhile is_digit (skip_sign (tl p2))) else (fl, p2)
      else if deref p = CHR ''0'' \<and> deref_at p 1 \<in> set ''bB'' then
        (False, dropWhile (\<lambda>c. c = CHR ''0'' \<or> c = CHR ''1'') (drop 2 p))
      else
        let p1 = dropWhile is_digit p;
            (fl, p2) = (if deref p1 = CHR ''.'' \<and> deref_at p1 1 \<noteq> CHR ''.'' then (True, dropWhile is_digit (tl p1)) else (False, p1))
        in if deref p2 \<in> set ''eE'' then (True, dropWhile is_digit (skip_sign (tl p2))) else (fl, p2))"

definition number_suffix :: "bool \<Rightarrow> string \<Rightarrow> bool \<times> string" where
  "number_suffix fl p =
     (if deref p \<in> set ''fF'' then (True, tl p)
      else if deref p \<in> set ''lL'' \<and> fl then (fl, tl p)
      else (fl, dropWhile (\<lambda>c. c \<in> set ''uUlL'') p))"

fun binary_value :: "int \<Rightarrow> string \<Rightarrow> int res" where
  "binary_value v [] = Done v"
| "binary_value v (c # p) =
     (if c = CHR ''0'' \<or> c = CHR ''1'' then rbind (ck64 (v * 2 + int (digit_val c))) (\<lambda>v. binary_value v p) else Done v)"

definition float_flag :: "char \<Rightarrow> int" where
  "float_flag c = (if c \<in> set ''fF'' then 1 else if c \<in> set ''lL'' then 2 else 0)"

definition lex_number :: "lex_config \<Rightarrow> lex_step" where
  "lex_number cf q st =
     (let (fl, p) = number_body q;
          (fl, p) = number_suffix fl p;
          spelling = take (length q - length p) q;
          tok = new_token cf st (if fl then TK_FNUM else TK_NUM) (int (pos_of cf q)) p
      in if fl then ok (p, push_token (tok\<lparr>tk_val := float_flag (last spelling)\<rparr>) st)
         else if deref q = CHR ''0'' \<and> deref_at q 1 \<in> set ''bB'' then
           rbind (binary_value 0 (drop 2 q)) (\<lambda>v. ok (p, push_token (tok\<lparr>tk_val := v\<rparr>) st))
         else ok (p, push_token (tok\<lparr>tk_val := wrap64 (int (strtoull0 q))\<rparr>) st))"

section \<open>Identifiers\<close>

text \<open>\<open>decode_utf8\<close> at a pointer: the code point and the bytes it takes; the NUL at the end counts as one.\<close>

definition decode_at :: "lex_config \<Rightarrow> lexer \<Rightarrow> string \<Rightarrow> (codepoint \<times> nat) exec" where
  "decode_at cf st p =
     (case decode_utf8 (map of_char (take 4 p)) of
        Inl e \<Rightarrow> error_at cf st p ''invalid UTF-8 sequence''
      | Inr (c, rest) \<Rightarrow> ok (c, if p = [] then 1 else length (take 4 p) - length rest))"

lemma decode_at_progress: "decode_at cf st p = Done (Inr (c, n)) \<Longrightarrow> 0 < n"
  by (auto simp: decode_at_def error_at_def verror_at_def fatal_def ok_def Let_def split: sum.splits if_splits
      dest!: decode_utf8_progress)

text \<open>The \<open>do ... while\<close> loop: the text behind an identifier whose first character has been read, and \<open>pos - p\<close>.\<close>

function ident_loop :: "lex_config \<Rightarrow> lexer \<Rightarrow> string \<Rightarrow> (string \<times> nat) exec" where
  "ident_loop cf st p =
     ebind (decode_at cf st p) (\<lambda>(c, n).
       ebind (if is_ident2 (deref p) then ok True else rbind (is32_ident2 (lx_start_list cf) c) (\<lambda>b. ok (b \<and> n \<noteq> 0))) (\<lambda>b.
         if \<not> b then ok (p, n) else if p = [] then UB else ident_loop cf st (drop n p)))"
  by pat_completeness auto
termination
proof (relation "measure (\<lambda>(cf, st, p). length p)")
  fix cf st and p :: string and x c n b
  assume "decode_at cf st p = Done (Inr x)" "(c, n) = x" "p \<noteq> []"
  then show "((cf, st, drop n p), cf, st, p) \<in> measure (\<lambda>(cf, st, p). length p)"
    using decode_at_progress [of cf st p c n] by auto
qed simp

declare ident_loop.simps [simp del]

definition ident_token :: "lex_config \<Rightarrow> lexer \<Rightarrow> string \<Rightarrow> string \<Rightarrow> token" where
  "ident_token cf st start p =
     (new_token cf st TK_IDENT (int (pos_of cf start)) p)\<lparr>tk_name := take (length start - length p) start\<rparr>"

text \<open>A byte from 128 on that does not start an identifier leaves the pointer where it is.\<close>

definition lex_utf8_ident :: "lex_config \<Rightarrow> lex_step" where
  "lex_utf8_ident cf p st =
     ebind (decode_at cf st p) (\<lambda>(c, n).
     rbind (is32_ident1 (lx_start_list cf) c) (\<lambda>b.
       if \<not> b \<or> n = 0 then ok (p, st)
       else ebind (ident_loop cf st (drop n p)) (\<lambda>(r, k).
         ok (r, if k \<noteq> 0 then push_token (ident_token cf st p r) st else st))))"

definition lex_ident :: "lex_config \<Rightarrow> lex_step" where
  "lex_ident cf p st =
     ebind (ident_loop cf st (tl p)) (\<lambda>(r, k). ok (r, push_token (ident_token cf st p r) st))"

section \<open>Escapes\<close>

definition get_escape_char :: "char \<Rightarrow> char" where
  "get_escape_char c =
     (if c = CHR ''a'' then CHR 0x07 else if c = CHR ''b'' then CHR 0x08 else if c = CHR ''f'' then CHR 0x0C
      else if c = CHR ''n'' then NL else if c = CHR ''r'' then CHR 0x0D else if c = CHR ''t'' then CHR 0x09
      else if c = CHR ''v'' then CHR 0x0B else if c = CHR ''0'' then NUL else c)"

definition from_octal :: "char \<Rightarrow> int" where
  "from_octal c = int (code c) - 48"

definition from_hex :: "char \<Rightarrow> int" where
  "from_hex c =
     (if in_chars CHR ''0'' CHR ''9'' c then int (code c) - 48
      else if in_chars CHR ''a'' CHR ''f'' c then int (code c) - 97 + 10
      else if in_chars CHR ''A'' CHR ''F'' c then int (code c) - 65 + 10
      else - 1)"

definition to_char :: "int \<Rightarrow> char" where
  "to_char v = char_of (nat (v mod 256))"

fun hex_loop :: "int \<Rightarrow> string \<Rightarrow> (int \<times> string) res" where
  "hex_loop v [] = Done (v, [])"
| "hex_loop v (c # p) =
     (if from_hex c \<ge> 0 then rbind (ck32 (v * 16 + from_hex c)) (\<lambda>v. hex_loop v p) else Done (v, c # p))"

fun octal_loop :: "nat \<Rightarrow> int \<Rightarrow> string \<Rightarrow> int \<times> string" where
  "octal_loop 0 v p = (v, p)"
| "octal_loop (Suc n) v p =
     (if in_chars CHR ''0'' CHR ''7'' (deref p) then octal_loop n (v * 8 + from_octal (deref p)) (tl p) else (v, p))"

text \<open>Behind the backslash. At the end of the text the code steps over the terminating NUL.\<close>

definition read_escaped_char :: "lex_config \<Rightarrow> lexer \<Rightarrow> string \<Rightarrow> (char \<times> string) exec" where
  "read_escaped_char cf st p =
     (if deref p = CHR ''x'' then
        (if from_hex (deref (tl p)) < 0 then error_at cf st (tl p) ''invalid hex escape''
         else rbind (hex_loop 0 (tl p)) (\<lambda>(v, p). ok (to_char v, p)))
      else if in_chars CHR ''0'' CHR ''7'' (deref p) then
        (case octal_loop 3 0 p of (v, p) \<Rightarrow> ok (to_char v, p))
      else if p = [] then UB
      else ok (get_escape_char (deref p), tl p))"

fun unicode_digits :: "lex_config \<Rightarrow> lexer \<Rightarrow> nat \<Rightarrow> 32 word \<Rightarrow> string \<Rightarrow> (32 word \<times> string) exec" where
  "unicode_digits cf st 0 v p = ok (v, p)"
| "unicode_digits cf st (Suc n) v p =
     (if from_hex (deref p) < 0 then error_at cf st p ''invalid unicode escape''
      else unicode_digits cf st n (v * 16 + of_int (from_hex (deref p))) (tl p))"

definition word_char :: "32 word \<Rightarrow> char" where
  "word_char w = char_of (unat w mod 256)"

definition escape_bytes :: "32 word \<Rightarrow> string" where
  "escape_bytes v =
     (if v < 0x80 then [word_char v]
      else if v < 0x800 then [word_char (0xC0 OR drop_bit 6 v), word_char (0x80 OR (v AND 0x3F))]
      else if v < 0x10000 then
        [word_char (0xE0 OR drop_bit 12 v), word_char (0x80 OR (drop_bit 6 v AND 0x3F)), word_char (0x80 OR (v AND 0x3F))]
      else
        [word_char (0xF0 OR drop_bit 18 v), word_char (0x80 OR (drop_bit 12 v AND 0x3F)),
         word_char (0x80 OR (drop_bit 6 v AND 0x3F)), word_char (0x80 OR (v AND 0x3F))])"

section \<open>String and character literals\<close>

definition STR_BUF :: nat where
  "STR_BUF = 2048"

text \<open>\<open>buf[len++] = c\<close> for each character.\<close>

definition put_buf :: "string \<Rightarrow> string \<Rightarrow> string res" where
  "put_buf s buf = (if length buf + length s \<le> STR_BUF then Done (buf @ s) else UB)"

text \<open>One character or escape of a string literal, in front of its closing quote.\<close>

definition string_char :: "lex_config \<Rightarrow> lexer \<Rightarrow> string \<Rightarrow> string \<Rightarrow> (string \<times> string) exec" where
  "string_char cf st p buf =
     (if deref p = BSL then
        let p = tl p in
        if deref p = CHR ''u'' \<or> deref p = CHR ''U'' then
          ebind (unicode_digits cf st (if deref p = CHR ''u'' then 4 else 8) 0 (tl p)) (\<lambda>(v, p).
          rbind (put_buf (escape_bytes v) buf) (\<lambda>buf. ok (p, buf)))
        else ebind (read_escaped_char cf st p) (\<lambda>(c, p). rbind (put_buf [c] buf) (\<lambda>buf. ok (p, buf)))
      else rbind (put_buf [deref p] buf) (\<lambda>buf. ok (tl p, buf)))"

lemma hex_loop_length: "hex_loop v p = Done (w, r) \<Longrightarrow> length r \<le> length p"
  by (induction v p rule: hex_loop.induct) (auto split: if_splits intro: le_SucI)

lemma octal_loop_length: "octal_loop n v p = (w, r) \<Longrightarrow> length r \<le> length p"
proof (induction n v p rule: octal_loop.induct)
  case (2 n v p)
  then show ?case by (fastforce split: if_splits dest: order_trans)
qed simp

lemma read_escaped_char_length: "read_escaped_char cf st p = Done (Inr (c, r)) \<Longrightarrow> length r \<le> length p"
  by (auto simp: read_escaped_char_def error_at_def verror_at_def fatal_def ok_def Let_def split: if_splits prod.splits
      dest!: hex_loop_length octal_loop_length)

lemma unicode_digits_length: "unicode_digits cf st n v p = Done (Inr (w, r)) \<Longrightarrow> length r \<le> length p"
proof (induction n arbitrary: v p)
  case (Suc n)
  from Suc.prems have "unicode_digits cf st n (v * 16 + of_int (from_hex (deref p))) (tl p) = Done (Inr (w, r))"
    by (simp add: error_at_def verror_at_def fatal_def Let_def split: if_splits)
  from Suc.IH [OF this] show ?case by simp
qed (simp add: ok_def)

lemma string_char_length:
  assumes "string_char cf st p buf = Done (Inr (r, b))" and "p \<noteq> []"
  shows "length r < length p"
proof -
  have "length r \<le> length (tl p)"
    using assms(1) unfolding string_char_def Let_def
    by (auto simp: ok_def split: if_splits prod.splits dest!: read_escaped_char_length unicode_digits_length)
  with assms(2) show ?thesis by (cases p) auto
qed

text \<open>Up to the closing quote, the end of the line or of the text.\<close>

function string_part :: "lex_config \<Rightarrow> lexer \<Rightarrow> string \<Rightarrow> string \<Rightarrow> (string \<times> string) exec" where
  "string_part cf st p buf =
     (if p = [] \<or> deref p = DQ \<or> deref p = NL then ok (p, buf)
      else ebind (string_char cf st p buf) (\<lambda>(p, buf). string_part cf st p buf))"
  by pat_completeness auto
termination
proof (relation "measure (\<lambda>(cf, st, p, buf). length p)")
  fix cf st and p buf x :: string and y z
  assume "\<not> (p = [] \<or> deref p = DQ \<or> deref p = NL)" "string_char cf st p buf = Done (Inr y)" "(x, z) = y"
  then show "((cf, st, x, z), cf, st, p, buf) \<in> measure (\<lambda>(cf, st, p, buf). length p)"
    using string_char_length [of cf st p buf x z] by auto
qed simp

declare string_part.simps [simp del]

definition is_str_prefix :: "char \<Rightarrow> bool" where
  "is_str_prefix c \<longleftrightarrow> c \<in> set ''LuU''"

text \<open>
  A literal and the adjacent ones that are merged with it, from behind the opening quote. The newlines between a literal and
  what follows are counted here, and once more by the main loop if that is not a literal.
\<close>

lemma string_part_length: "string_part cf st p buf = Done (Inr (r, b)) \<Longrightarrow> length r \<le> length p"
proof (induction cf st p buf rule: string_part.induct)
  case (1 cf st p buf)
  show ?case
  proof (cases "p = [] \<or> deref p = DQ \<or> deref p = NL")
    case True
    with 1(2) show ?thesis by (simp add: string_part.simps [of cf st p buf] ok_def)
  next
    case False
    with 1(2) obtain p' b' where c: "string_char cf st p buf = Done (Inr (p', b'))"
      and r: "string_part cf st p' b' = Done (Inr (r, b))"
      by (auto simp: string_part.simps [of cf st p buf])
    from False have "p \<noteq> []" by simp
    with 1(1) [OF False c refl r] string_char_length [OF c] show ?thesis by simp
  qed
qed

function string_loop :: "lex_config \<Rightarrow> int \<Rightarrow> string \<Rightarrow> string \<Rightarrow> lexer \<Rightarrow> (string \<times> string \<times> lexer) exec" where
  "string_loop cf start p buf st =
     ebind (string_part cf st p buf) (\<lambda>(p1, buf).
       if deref p1 \<noteq> DQ then verror_at cf st start 1 ''unclosed string literal''
       else let p1 = tl p1; ws = takeWhile is_space p1; q = dropWhile is_space p1 in
         rbind (add_lines (newlines ws 0 (length ws)) st) (\<lambda>st.
           let q = (if is_str_prefix (deref q) \<and> deref_at q 1 = DQ then tl q else q) in
           if deref q \<noteq> DQ then ok (p1, buf, st)
           else string_loop cf start (tl q) buf st))"
  by pat_completeness auto

termination
proof (relation "measure (\<lambda>(cf, start, p, buf, st). length p)")
  fix cf start and p buf p1 b ws q q2 :: string and st y st' p2
  assume a: "string_part cf st p buf = Done (Inr y)" "(p1, b) = y" "\<not> deref p1 \<noteq> DQ" "p2 = tl p1"
    "q = dropWhile is_space p2" "q2 = (if is_str_prefix (deref q) \<and> deref_at q 1 = DQ then tl q else q)" 
  have "length q2 \<le> length p2" unfolding a(6,5) using length_dropWhile_le [of is_space p2] by (auto intro: order_trans [OF diff_le_self])
  moreover have "p1 \<noteq> []" using a(3) by (auto simp: NUL_def)
  moreover have "length p1 \<le> length p" using a(1,2) by (blast dest: string_part_length)
  ultimately show "((cf, start, tl q2, b, st'), cf, start, p, buf, st) \<in> measure (\<lambda>(cf, start, p, buf, st). length p)"
    using a(4) by (cases p1) auto
qed simp

declare string_loop.simps [simp del]

text \<open>\<open>p\<close> is at the opening quote; the start of the token is the pointer less the code of the prefix.\<close>

definition lex_string :: "lex_config \<Rightarrow> char option \<Rightarrow> lex_step" where
  "lex_string cf pr p st =
     (let pre = (case pr of None \<Rightarrow> 0 | Some c \<Rightarrow> code c);
          start = int (pos_of cf p) - int pre
      in ebind (string_loop cf start (tl p) [] st) (\<lambda>(p, buf, st).
           if length buf < STR_BUF then
             ok (p, push_token ((new_token cf st TK_STR start p)\<lparr>tk_str := buf, tk_len := length buf, tk_prefix := pre\<rparr>) st)
           else UB))"

text \<open>The last character of a character literal, in front of its closing quote.\<close>

function char_loop :: "lex_config \<Rightarrow> lexer \<Rightarrow> char \<Rightarrow> string \<Rightarrow> (char \<times> string) exec" where
  "char_loop cf st c p =
     (if p = [] \<or> deref p = SQ \<or> deref p = NL then ok (c, p)
      else if deref p = BSL then ebind (read_escaped_char cf st (tl p)) (\<lambda>(c, r). char_loop cf st c r)
      else char_loop cf st (deref p) (tl p))"
  by pat_completeness auto
termination
proof (relation "measure (\<lambda>(cf, st, c, p). length p)")
  fix cf st c and p :: string and y c' r
  assume "\<not> (p = [] \<or> deref p = SQ \<or> deref p = NL)" "read_escaped_char cf st (tl p) = Done (Inr y)" "(c', r) = y"
  then show "((cf, st, c', r), cf, st, c, p) \<in> measure (\<lambda>(cf, st, c, p). length p)"
    using read_escaped_char_length [of cf st "tl p" c' r] by (cases p) auto
next
  fix cf :: lex_config and st :: lexer and c :: char and p :: string
  assume "\<not> (p = [] \<or> deref p = SQ \<or> deref p = NL)"
  then show "((cf, st, deref p, tl p), cf, st, c, p) \<in> measure (\<lambda>(cf, st, c, p). length p)" by simp
qed simp

declare char_loop.simps [simp del]

definition lex_char :: "lex_config \<Rightarrow> lex_step" where
  "lex_char cf p st =
     ebind (char_loop cf st NUL (tl p)) (\<lambda>(c, r).
       if deref r \<noteq> SQ then error_at cf st p ''unclosed character literal''
       else ok (tl r, push_token ((new_token cf st TK_NUM (int (pos_of cf p)) (tl r))\<lparr>tk_val := int (code c)\<rparr>) st))"

section \<open>Punctuators and the main loop\<close>

definition punct2 :: "string list" where
  "punct2 = [''=='', ''!='', ''<='', ''>='', ''++'', ''--'', ''&&'', ''||'', ''->'', ''<<'', ''>>'',
     ''+='', ''-='', ''*='', ''/='', ''%='', ''&='', ''|='', ''^='']"

definition read_punct :: "string \<Rightarrow> nat" where
  "read_punct p =
     (if startswith p ''...'' then 3
      else if startswith p ''<<='' \<or> startswith p ''>>='' then 3
      else if list_ex (startswith p) punct2 then 2
      else if is_punct (deref p) then 1 else 0)"

text \<open>What follows the comments in the loop of \<open>tokenize\<close>.\<close>

definition lex_token :: "lex_config \<Rightarrow> lex_step" where
  "lex_token cf p st =
     (if is_digit (deref p) \<or> (deref p = CHR ''.'' \<and> is_digit (deref_at p 1)) then lex_number cf p st
      else if 128 \<le> code (deref p) then lex_utf8_ident cf p st
      else if is_ident1 (deref p) \<and> \<not> (is_str_prefix (deref p) \<and> deref_at p 1 \<in> {DQ, SQ}) then lex_ident cf p st
      else if is_str_prefix (deref p) \<and> deref_at p 1 = DQ then lex_string cf (Some (deref p)) (tl p) st
      else if deref p = DQ then lex_string cf None p st
      else if is_str_prefix (deref p) \<and> deref_at p 1 = SQ then lex_char cf (tl p) st
      else if deref p = SQ then lex_char cf p st
      else if read_punct p \<noteq> 0 then
        ok (drop (read_punct p) p, push_token (new_token cf st TK_PUNCT (int (pos_of cf p)) (drop (read_punct p) p)) st)
      else error_at cf st p ''invalid token'')"

text \<open>One round of the loop; \<open>p\<close> is not at the end.\<close>

definition lex_step :: "lex_config \<Rightarrow> lex_step" where
  "lex_step cf p st =
     (if is_space (deref p) then rbind (count_nl p st) (\<lambda>st. ok (tl p, st))
      else ebind (if deref p = CHR ''#'' then lex_hash cf p st else ok None) (\<lambda>skipped.
        case skipped of
          Some x \<Rightarrow> ok x
        | None \<Rightarrow>
           if startswith p ''//'' then ok (to_eol (drop 2 p), st)
           else if startswith p ''/*'' then lex_block_comment cf p st
           else lex_token cf p st))"

fun lex_loop :: "nat \<Rightarrow> lex_config \<Rightarrow> lex_step" where
  "lex_loop 0 cf p st = Fuel"
| "lex_loop (Suc n) cf p st = (if p = [] then ok (p, st) else ebind (lex_step cf p st) (\<lambda>(p, st). lex_loop n cf p st))"

definition lex_start :: "lex_config \<Rightarrow> lexer \<Rightarrow> lexer" where
  "lex_start cf st =
     st\<lparr>current_input := 0, current_debug_filename := (if opt_g cf then lx_filename cf else current_debug_filename st),
        cur_lineno := 1, lx_tokens := []\<rparr>"

definition tokenize :: "lex_config \<Rightarrow> lexer \<Rightarrow> (token list \<times> lexer) exec" where
  "tokenize cf st =
     ebind (lex_loop (Suc (length (lx_text cf))) cf (lx_text cf) (lex_start cf st)) (\<lambda>(p, st).
       ok (lx_tokens st @ [new_token cf st TK_EOF (int (pos_of cf p)) p], st))"

definition lexer_start :: lexer where
  "lexer_start = \<lparr>current_input = 0, current_line_offset = 0, line_num = 1, current_debug_filename = [], cur_lineno = 1,
     lx_scripts = [], lx_tokens = []\<rparr>"

section \<open>Progress\<close>

lemma binary_search_not_Fuel: "binary_search f cp xs lo hi \<noteq> Fuel"
  by (induction f cp xs lo hi rule: binary_search.induct) (subst binary_search.simps, auto simp: Let_def)

lemma rmap_Fuel: "rmap f x = Fuel \<longleftrightarrow> x = Fuel"
  by (cases x) auto

lemma is32_ident1_not_Fuel [simp]: "is32_ident1 sl c \<noteq> Fuel"
  by (simp add: is32_ident1_def isTR39_start_def rmap_Fuel binary_search_not_Fuel)

lemma is32_ident2_not_Fuel [simp]: "is32_ident2 sl c \<noteq> Fuel"
  by (cases "is32_ident1 sl c")
     (auto simp: is32_ident2_def isTR39_cont_def rmap_Fuel binary_search_not_Fuel split: if_splits)

text \<open>An operation that ends, and leaves a tail of the text it was given.\<close>

definition ends_in :: "('a \<Rightarrow> string) \<Rightarrow> string \<Rightarrow> 'a exec \<Rightarrow> bool" where
  "ends_in f p x \<longleftrightarrow> x \<noteq> Fuel \<and> (\<forall>y. x = Done (Inr y) \<longrightarrow> suffix (f y) p)"

lemma ends_in_simps [simp]:
  "ends_in f p (ok y) \<longleftrightarrow> suffix (f y) p" "ends_in f p (fatal e)" "ends_in f p UB" "\<not> ends_in f p Fuel"
  "ends_in f p (verror_at cf st l n e)" "ends_in f p (error_at cf st q e)"
  by (simp_all add: ends_in_def ok_def fatal_def error_at_def verror_at_def Let_def)

lemma ends_ebind:
  "ends_in g p x \<Longrightarrow> (\<And>y. x = Done (Inr y) \<Longrightarrow> suffix (g y) p \<Longrightarrow> ends_in f p (h y)) \<Longrightarrow> ends_in f p (ebind x h)"
  by (cases x) (auto simp: ends_in_def ebind_def split: sum.splits)

lemma ends_rbind: "x \<noteq> Fuel \<Longrightarrow> (\<And>y. x = Done y \<Longrightarrow> ends_in f p (h y)) \<Longrightarrow> ends_in f p (rbind x h)"
  by (cases x) (auto simp: ends_in_def)

lemma ends_shorter: "suffix q p \<Longrightarrow> ends_in f q x \<Longrightarrow> ends_in f p x"
  by (auto simp: ends_in_def intro: suffix_order.trans)

lemma suffixes [simp, intro]:
  "suffix (tl p) p" "suffix (drop n p) p" "suffix (dropWhile P p) p" "suffix (skip_spaces p) p" "suffix (to_eol p) p"
  by (simp_all add: suffix_tl suffix_drop suffix_dropWhile skip_spaces_def to_eol_def)

lemma suffix_steps [intro]:
  "suffix q p \<Longrightarrow> suffix (tl q) p" "suffix q p \<Longrightarrow> suffix (drop n q) p" "suffix q p \<Longrightarrow> suffix (dropWhile P q) p"
  "suffix q p \<Longrightarrow> suffix (skip_spaces q) p" "suffix q p \<Longrightarrow> suffix (to_eol q) p"
  using suffixes suffix_order.trans by blast+

lemma ck_steps [simp]: "add_lines k st \<noteq> Fuel" "count_nl p st \<noteq> Fuel" "put_buf s b \<noteq> Fuel" "ck32 x \<noteq> Fuel"
  by (simp_all add: add_lines_def count_nl_def put_buf_def ck32_def)

lemma decode_at_ends: "decode_at cf st p \<noteq> Fuel"
  by (auto simp: decode_at_def ok_def error_at_def verror_at_def fatal_def Let_def split: sum.splits prod.splits)

lemma ident_loop_ends: "ends_in fst p (ident_loop cf st p)"
proof (induction cf st p rule: ident_loop.induct)
  case (1 cf st p)
  show ?case
  proof (subst ident_loop.simps, rule ends_ebind [where g = "\<lambda>_. p"], use decode_at_ends in \<open>simp add: ends_in_def\<close>, clarsimp simp only: prod.case)
    fix c n
    assume d: "decode_at cf st p = Done (Inr (c, n))"
    let ?go = "if is_ident2 (deref p) then ok True else rbind (is32_ident2 (lx_start_list cf) c) (\<lambda>b. ok (b \<and> n \<noteq> 0))"
    show "ends_in fst p (ebind ?go (\<lambda>b. if \<not> b then ok (p, n) else if p = [] then UB else ident_loop cf st (drop n p)))"
    proof (rule ends_ebind [where g = "\<lambda>_. p"])
      show "ends_in (\<lambda>_. p) p ?go" by (auto intro!: ends_rbind)
      fix b
      assume go: "?go = Done (Inr b)"
      show "ends_in fst p (if \<not> b then ok (p, n) else if p = [] then UB else ident_loop cf st (drop n p))"
        using 1 [OF d refl go] by (auto intro: ends_shorter [OF suffixes(2)])
    qed
  qed
qed

lemma suffix_from_tl: "suffix q (tl p) \<Longrightarrow> suffix q p"
  by (rule suffix_order.trans [OF _ suffix_tl])

lemma hex_loop_ends: "hex_loop v p \<noteq> Fuel" "hex_loop v p = Done (w, r) \<Longrightarrow> suffix r p"
  by (induction v p rule: hex_loop.induct) (auto simp: ck32_def suffix_Cons split: if_splits)

lemma octal_loop_ends: "suffix (snd (octal_loop n v p)) p"
  by (induction n v p rule: octal_loop.induct) (auto intro: suffix_from_tl)

lemma read_escaped_char_ends: "ends_in snd p (read_escaped_char cf st p)"
proof -
  have "ends_in snd p (rbind (hex_loop 0 (tl p)) (\<lambda>(v, p). ok (to_char v, p)))"
    using hex_loop_ends [of 0 "tl p"] by (cases "hex_loop 0 (tl p)") (auto simp: ends_in_def ok_def intro: suffix_from_tl)
  then show ?thesis
    using octal_loop_ends [of 3 0 p] by (auto simp: read_escaped_char_def split: prod.splits)
qed

lemma unicode_digits_ends: "ends_in snd p (unicode_digits cf st n v p)"
  by (induction n arbitrary: v p) (auto intro: ends_shorter [OF suffixes(1)])

lemma string_char_ends: "ends_in fst p (string_char cf st p buf)"
  unfolding string_char_def Let_def
  by (auto intro!: ends_rbind ends_ebind [where g = snd, OF ends_shorter [OF _ unicode_digits_ends]]
      ends_ebind [where g = snd, OF ends_shorter [OF _ read_escaped_char_ends]])

lemma string_part_ends: "ends_in fst p (string_part cf st p buf)"
proof (induction cf st p buf rule: string_part.induct)
  case (1 cf st p buf)
  show ?case
    by (subst string_part.simps)
       (auto intro!: ends_ebind [where g = fst, OF string_char_ends] ends_shorter [OF _ 1])
qed

lemma string_loop_ends: "ends_in fst p (string_loop cf start p buf st)"
proof (induction cf start p buf st rule: string_loop.induct)
  case (1 cf start p buf st)
  show ?case
  proof (subst string_loop.simps, rule ends_ebind [where g = fst, OF string_part_ends], clarsimp simp only: prod.case fst_conv)
    fix p1 b
    assume part: "string_part cf st p buf = Done (Inr (p1, b))" and p1: "suffix p1 p"
    let ?ws = "takeWhile is_space (tl p1)" and ?q = "dropWhile is_space (tl p1)"
    let ?q2 = "if is_str_prefix (deref ?q) \<and> deref_at ?q 1 = DQ then tl ?q else ?q"
    have q2: "suffix (tl ?q2) p" using p1 by auto
    have go: "ends_in fst p (rbind (add_lines (newlines ?ws 0 (length ?ws)) st) (\<lambda>st.
           if deref ?q2 \<noteq> DQ then ok (tl p1, b, st) else string_loop cf start (tl ?q2) b st))" if "deref p1 = DQ"
    proof (rule ends_rbind)
      fix st'
      assume al: "add_lines (newlines ?ws 0 (length ?ws)) st = Done st'"
      show "ends_in fst p (if deref ?q2 \<noteq> DQ then ok (tl p1, b, st') else string_loop cf start (tl ?q2) b st')"
      proof (cases "deref ?q2 = DQ")
        case True
        then have "\<not> deref ?q2 \<noteq> DQ" by blast
        from 1 [OF part refl _ refl refl refl al refl this] that ends_shorter [OF q2]
        have "ends_in fst p (string_loop cf start (tl ?q2) b st')" by blast
        then show ?thesis by (subst if_not_P [OF \<open>\<not> deref ?q2 \<noteq> DQ\<close>])
      next
        case False
        show ?thesis by (subst if_P [OF False]) (use p1 in \<open>auto simp: ok_def ends_in_def\<close>)
      qed
    qed simp
    show "ends_in fst p (if deref p1 \<noteq> DQ then verror_at cf st start 1 ''unclosed string literal''
       else let p1 = tl p1; ws = takeWhile is_space p1; q = dropWhile is_space p1 in
         rbind (add_lines (newlines ws 0 (length ws)) st) (\<lambda>st.
           let q = (if is_str_prefix (deref q) \<and> deref_at q 1 = DQ then tl q else q) in
           if deref q \<noteq> DQ then ok (p1, b, st) else string_loop cf start (tl q) b st))"
    proof (cases "deref p1 = DQ")
      case True
      then have n: "\<not> deref p1 \<noteq> DQ" by blast
      from go [OF True] show ?thesis unfolding Let_def if_not_P [OF n] .
    qed simp
  qed
qed

lemma char_loop_ends: "ends_in snd p (char_loop cf st c p)"
proof (induction cf st c p rule: char_loop.induct)
  case (1 cf st c p)
  show ?case
    by (subst char_loop.simps)
       (auto intro!: ends_ebind [where g = snd, OF ends_shorter [OF suffixes(1) read_escaped_char_ends]] 
          intro: ends_shorter [OF _ 1(1)] ends_shorter [OF _ 1(2)])
qed


lemma ident_loop_tail: "suffix q p \<Longrightarrow> ends_in fst p (ident_loop cf st q)"
  by (rule ends_shorter [OF _ ident_loop_ends])

section \<open>A round of the main loop\<close>

text \<open>A round that makes progress.\<close>

definition advances :: "string \<Rightarrow> (string \<times> lexer) exec \<Rightarrow> bool" where
  "advances p x \<longleftrightarrow> ends_in fst (tl p) x"

lemma number_suffix_tail: "suffix (snd (number_suffix fl p)) p"
  by (auto simp: number_suffix_def)

lemma suffix_strict: "suffix q p \<Longrightarrow> length q < length p \<Longrightarrow> suffix q (tl p)"
  by (cases p) (auto simp: suffix_Cons)

lemma skip_sign_tail: "suffix q p \<Longrightarrow> suffix (skip_sign q) p"
  by (auto simp: skip_sign_def)

lemma fraction_tail:
  "suffix x p \<Longrightarrow> suffix y p \<Longrightarrow>
   suffix (snd (case (if b then (True, x) else (False, y)) of
     (fl, q) \<Rightarrow> if deref q \<in> E then (True, dropWhile is_digit (skip_sign (tl q))) else (fl, q))) p"
  by (cases b) (auto intro!: suffix_steps(3) skip_sign_tail)

lemma suffix_if: "suffix (snd x) s \<Longrightarrow> suffix (snd y) s \<Longrightarrow> suffix (snd (if b then x else y)) s"
  by simp

lemma number_body_less:
  assumes "is_digit (deref p) \<or> (deref p = CHR ''.'' \<and> is_digit (deref_at p 1))"
  shows "suffix (snd (number_body p)) (tl p)"
proof -
  have nd: "\<not> is_digit CHR ''.''" "\<not> is_digit NUL" by (simp_all add: is_digit_def code_def NUL_def)
  obtain c s where p: "p = c # s" using assms nd by (cases p) auto
  let ?p1 = "dropWhile is_digit p"
  have p1: "suffix ?p1 s \<or> (?p1 = p \<and> deref s \<noteq> CHR ''.'' \<and> c = CHR ''.'')"
    using assms nd p by (auto simp: deref_at_def)
  have "suffix (snd (case (if deref ?p1 = CHR ''.'' \<and> deref_at ?p1 1 \<noteq> CHR ''.'' then (True, dropWhile is_digit (tl ?p1)) else (False, ?p1)) of
     (fl, q) \<Rightarrow> if deref q \<in> set ''eE'' then (True, dropWhile is_digit (skip_sign (tl q))) else (fl, q))) s"
  proof (cases "suffix ?p1 s")
    case True
    then show ?thesis by (intro fraction_tail) auto
  next
    case False
    with p1 have e: "?p1 = c # s" "c = CHR ''.''" "deref s \<noteq> CHR ''.''" using p by auto
    have "suffix (snd (case (if True then (True, dropWhile is_digit s) else (False, s)) of
     (fl, q) \<Rightarrow> if deref q \<in> set ''eE'' then (True, dropWhile is_digit (skip_sign (tl q))) else (fl, q))) s"
      by (rule fraction_tail) auto
    with e(2,3) show ?thesis unfolding e(1) by (simp add: deref_at_def)
  qed
  note dec = this
  have d2: "suffix (drop 2 p) s" using p by (simp add: suffix_drop numeral_2_eq_2)
  let ?h = "dropWhile is_xdigit (drop 2 p)"
  have hex: "suffix (snd (case (if deref ?h = CHR ''.'' then (True, dropWhile is_xdigit (tl ?h)) else (False, ?h)) of
     (fl, q) \<Rightarrow> if deref q \<in> set ''pP'' then (True, dropWhile is_digit (skip_sign (tl q))) else (fl, q))) s"
    by (rule fraction_tail) (intro suffix_steps d2)+
  have bin: "suffix (snd (False, dropWhile (\<lambda>c. c = CHR ''0'' \<or> c = CHR ''1'') (drop 2 p))) s"
    unfolding snd_conv by (intro suffix_steps d2)
  have tp: "tl p = s" using p by simp
  show ?thesis unfolding number_body_def Let_def tp by (intro suffix_if hex bin dec)
qed

lemma binary_value_ends: "binary_value v p \<noteq> Fuel"
  by (induction v p rule: binary_value.induct) (auto simp: ck64_def)

lemma lex_number_advances:
  assumes "is_digit (deref p) \<or> (deref p = CHR ''.'' \<and> is_digit (deref_at p 1))"
  shows "advances p (lex_number cf p st)"
proof -
  have "suffix (snd (number_suffix fl (snd (number_body p)))) (tl p)" for fl
    using number_body_less [OF assms] number_suffix_tail by (rule suffix_order.trans [rotated])
  then show ?thesis
    unfolding advances_def lex_number_def Let_def
    by (auto simp: case_prod_beta intro!: ends_rbind binary_value_ends)
qed

lemma find_comment_end_tail: "find_comment_end p = Some (a, r) \<Longrightarrow> suffix r p"
  by (induction p arbitrary: a r rule: find_comment_end.induct)
     (auto split: if_splits intro: suffix_ConsI suffix_ConsI [OF suffix_tl])

lemma skip_line_ends: "suffix q p \<Longrightarrow> ends_in fst p (skip_line q st)"
  unfolding skip_line_def Let_def by (auto intro!: ends_rbind suffix_steps)

lemma lex_pragma_unicode_ends: "suffix q p \<Longrightarrow> ends_in fst p (lex_pragma_unicode q st)"
  unfolding lex_pragma_unicode_def Let_def by (auto intro!: skip_line_ends suffix_steps)

lemma line_marker_ends: "suffix q p \<Longrightarrow> ends_in fst p (line_marker cf l n name q st)"
  unfolding line_marker_def Let_def by (auto intro!: ends_rbind suffix_steps)

text \<open>The line at a number sign is either left alone or skipped over its first character.\<close>

definition hash_rest :: "string \<Rightarrow> (string \<times> lexer) option \<Rightarrow> string" where
  "hash_rest p x = (case x of None \<Rightarrow> p | Some (r, st) \<Rightarrow> r)"

lemma skip_line_hash: "deref p = CHR ''#'' \<Longrightarrow> skip_line p st = skip_line (tl p) st"
  by (cases p) (auto simp: skip_line_def to_eol_def NUL_def)

lemma if_both: "ends_in f p x \<Longrightarrow> ends_in f p y \<Longrightarrow> ends_in f p (if b then x else y)"
  by simp

lemma lex_hash_ends:
  assumes "deref p = CHR ''#''"
  shows "ends_in (hash_rest (tl p)) (tl p) (lex_hash cf p st)"
proof -
  let ?q = "skip_spaces (tl p)"
  let ?ds = "takeWhile is_digit ?q"
  let ?q1 = "if ?ds = [] then ?q else skip_spaces (dropWhile is_digit ?q)"
  let ?q2 = "if ?ds \<noteq> [] \<and> deref ?q1 = DQ then dropWhile (\<lambda>c. c \<noteq> DQ) (tl ?q1) else ?q1"
  have q2: "suffix ?q2 (tl p)" by (simp split: if_split) (intro conjI impI suffix_steps suffix_order.refl)
  have some: "ends_in fst (tl p) x \<Longrightarrow> ends_in (hash_rest (tl p)) (tl p) (ebind x (\<lambda>x. ok (Some x)))" for x
    by (rule ends_ebind [where g = fst]) (auto simp: hash_rest_def split: prod.splits)
  have "ends_in (hash_rest (tl p)) (tl p) (ok None)" by (simp add: hash_rest_def)
  then show ?thesis
    unfolding lex_hash_def Let_def skip_line_hash [OF assms]
    by (intro ends_rbind if_both some line_marker_ends skip_line_ends lex_pragma_unicode_ends q2 ck_steps suffix_steps suffix_order.refl)
qed

lemma suffix_drop_tl: "n \<noteq> 0 \<Longrightarrow> suffix (drop n p) (tl p)"
  by (cases n) (auto simp: drop_Suc suffix_drop)

lemma lex_string_advances: "suffix q p \<Longrightarrow> advances p (lex_string cf pr q st)"
  unfolding advances_def lex_string_def Let_def
  apply (rule ends_ebind [where g = fst, OF ends_shorter [OF _ string_loop_ends]])
   apply (cases p; auto simp: suffix_Cons intro: suffix_steps)
  apply (auto split: prod.splits)
  done

lemma lex_char_advances: "suffix q p \<Longrightarrow> advances p (lex_char cf q st)"
  unfolding advances_def lex_char_def Let_def
  apply (rule ends_ebind [where g = snd, OF ends_shorter [OF _ char_loop_ends]])
   apply (cases p; auto simp: suffix_Cons intro: suffix_steps)
  apply (auto split: prod.splits)
  done

lemma lex_token_advances:
  assumes "code (deref p) < 128"
  shows "advances p (lex_token cf p st)"
proof -
  have "advances p (lex_ident cf p st)"
    unfolding advances_def lex_ident_def
    by (rule ends_ebind [where g = fst, OF ident_loop_ends]) (auto split: prod.splits)
  moreover have "advances p (ok (drop (read_punct p) p, push_token t st))" if "read_punct p \<noteq> 0" for t
    using suffix_drop_tl [OF that] by (simp add: advances_def)
  ultimately show ?thesis
    using assms unfolding lex_token_def
    by (auto simp: lex_number_advances lex_string_advances lex_char_advances) (simp_all add: advances_def)
qed

lemma lex_step_advances:
  assumes "code (deref p) < 128"
  shows "advances p (lex_step cf p st)"
proof (cases "is_space (deref p)")
  case True
  then show ?thesis by (auto simp: lex_step_def advances_def intro!: ends_rbind)
next
  case False
  let ?rest = "if startswith p ''//'' then ok (to_eol (drop 2 p), st)
           else if startswith p ''/*'' then lex_block_comment cf p st else lex_token cf p st"
  have d2: "suffix (drop 2 p) (tl p)" by (rule suffix_drop_tl) simp
  have "ends_in fst (tl p) (lex_block_comment cf p st)"
    unfolding lex_block_comment_def
    by (auto split: option.splits intro!: ends_rbind suffix_order.trans [OF find_comment_end_tail d2])
  with d2 lex_token_advances [OF assms] have rest: "ends_in fst (tl p) ?rest"
    by (auto simp: advances_def)
  show ?thesis
  proof (cases "deref p = CHR ''#''")
    case True
    show ?thesis
      unfolding lex_step_def advances_def if_not_P [OF False] if_P [OF True]
      by (rule ends_ebind [OF lex_hash_ends [OF True]])
        (use rest in \<open>auto simp: hash_rest_def split: option.splits\<close>)
  next
    case f: False
    with rest False show ?thesis by (simp add: lex_step_def advances_def)
  qed
qed

lemma lex_loop_ends:
  assumes "\<forall>c \<in> set p. code c < 128" and "length p < n"
  shows "lex_loop n cf p st \<noteq> Fuel"
  using assms
proof (induction n arbitrary: p st)
  case (Suc n)
  show ?case
  proof (cases "p = []")
    case False
    then have "code (deref p) < 128" using Suc.prems by (cases p) auto
    from lex_step_advances [OF this, of cf st] have s: "ends_in fst (tl p) (lex_step cf p st)" by (simp add: advances_def)
    have "ebind (lex_step cf p st) (\<lambda>(p, st). lex_loop n cf p st) \<noteq> Fuel"
    proof (cases "lex_step cf p st")
      case (Done x)
      show ?thesis
      proof (cases x)
        case (Inr y)
        with Done s have t: "suffix (fst y) (tl p)" by (simp add: ends_in_def)
        then have "set (fst y) \<subseteq> set p" by (meson set_mono_suffix suffix_from_tl)
        moreover have "length (fst y) < n" using suffix_length_le [OF t] False Suc.prems(2) by (cases p) auto
        ultimately have "lex_loop n cf (fst y) (snd y) \<noteq> Fuel" using Suc.prems(1) by (intro Suc.IH) auto
        then show ?thesis using Done Inr by (simp add: case_prod_beta)
      qed (use Done in simp)
    qed (use s in auto)
    with False show ?thesis by simp
  qed (simp add: ok_def)
qed simp

text \<open>
  C22. The lexer never loops on a text of ASCII characters, whatever literals, escapes, comments and directives it has: the
  loop of \<open>tokenize\<close> ends with its tokens, with an error, or in undefined behaviour (a literal of 2048 or more characters, a
  backslash at the end of the text).
\<close>

theorem tokenize_ends:
  assumes "\<forall>c \<in> set (lx_text cf). code c < 128"
  shows "tokenize cf st \<noteq> Fuel"
proof -
  have "lex_loop (Suc (length (lx_text cf))) cf (lx_text cf) s \<noteq> Fuel" for s
    by (rule lex_loop_ends [OF assms]) simp
  then show ?thesis
    unfolding tokenize_def ebind_def
    by (cases "lex_loop (Suc (length (lx_text cf))) cf (lx_text cf) (lex_start cf st)") (auto simp: ok_def split: sum.splits)
qed

definition text_config :: "string \<Rightarrow> lex_config" where
  "text_config t = \<lparr>opt_g = True, lx_filename = ''m.c'', lx_text = t, lx_start_list = []\<rparr>"

theorem tokenize_ends_witness: "tokenize (text_config ''int x = 0x1fL + 3.5f;'') lexer_start \<noteq> Fuel"
  by (rule tokenize_ends) (simp add: text_config_def code_def)

text \<open>
  C25. A character beyond ASCII that does not start an identifier, outside of literals and comments, hangs the lexer: the loop
  comes back to it without a step, however long it runs.
\<close>

theorem lexer_hangs:
  assumes "128 \<le> code (deref p)" and "decode_at cf st p = Done (Inr (c, n))" and "is32_ident1 (lx_start_list cf) c = Done False"
  shows "lex_loop k cf p st = Fuel"
proof -
  have b: "code x = code y \<Longrightarrow> x = y" for x y :: char by simp
  have c: "code CHR ''#'' = 35" "code CHR ''/'' = 47" "code CHR ''.'' = 46" by (simp_all add: code_def)
  have d: "\<not> is_space (deref p)" "deref p \<noteq> CHR ''#''" "\<not> is_digit (deref p)" "deref p \<noteq> CHR ''.''" "p \<noteq> []" "deref p \<noteq> CHR ''/''"
    using assms(1) c by (auto simp: is_space_def is_digit_def code_NUL)
  then have "\<not> startswith p ''//''" "\<not> startswith p ''/*''" by (cases p; simp)+
  with d assms have "lex_step cf p st = ok (p, st)"
    by (simp add: lex_step_def lex_token_def lex_utf8_ident_def)
  with d(5) show ?thesis by (induction k) auto
qed

theorem lexer_hangs_witness:
  "lex_loop 1000 (text_config (CHR 0xC3 # CHR 0x97 # ''2;'')) (CHR 0xC3 # CHR 0x97 # ''2;'') lexer_start = Fuel"
proof (rule lexer_hangs)
  show "128 \<le> code (deref (CHR 0xC3 # CHR 0x97 # ''2;''))" by (simp add: code_def)
  show "decode_at (text_config (CHR 0xC3 # CHR 0x97 # ''2;'')) lexer_start (CHR 0xC3 # CHR 0x97 # ''2;'') = Done (Inr (0xD7, 2))"
    by code_simp
  show "is32_ident1 (lx_start_list (text_config (CHR 0xC3 # CHR 0x97 # ''2;''))) 0xD7 = Done False" by code_simp
qed

section \<open>String literals read back\<close>

text \<open>A literal for any bytes: what is not plain is written as an octal escape of three digits.\<close>

definition octal_digit :: "nat \<Rightarrow> char" where
  "octal_digit n = char_of (48 + n mod 8)"

definition plain_char :: "char \<Rightarrow> bool" where
  "plain_char c \<longleftrightarrow> 32 \<le> code c \<and> code c < 127 \<and> c \<noteq> DQ \<and> c \<noteq> BSL"

definition quote_char :: "char \<Rightarrow> string" where
  "quote_char c =
     (if plain_char c then [c]
      else [BSL, octal_digit (code c div 64), octal_digit (code c div 8), octal_digit (code c)])"

definition quote_string :: "string \<Rightarrow> string" where
  "quote_string s = concat (map quote_char s)"

lemma octal_digit_code: "code (octal_digit n) = 48 + n mod 8"
  by (simp add: octal_digit_def code_def of_char_of)

lemma octal_sum: "a * 64 + b * 8 + d = e \<Longrightarrow> int a * 64 + int b * 8 + int d = int e"
  by linarith

lemma octal_escape:
  "octal_loop 3 0 (octal_digit (code c div 64) # octal_digit (code c div 8) # octal_digit (code c) # r) = (int (code c), r)"
proof -
  have digit: "in_chars CHR ''0'' CHR ''7'' (octal_digit n)" for n
    by (simp add: in_chars_def octal_digit_code) (simp add: code_def)
  have val: "from_octal (octal_digit n) = int (n mod 8)" for n
    by (simp add: from_octal_def octal_digit_code)
  have "(code c div 64 mod 8) * 64 + (code c div 8 mod 8) * 8 + code c mod 8 = code c"
  proof -
    have "code c div 64 < 8" using code_bound [of c] by (simp add: less_mult_imp_div_less)
    then have "code c div 64 mod 8 = code c div 64" by simp
    moreover have "code c div 64 = code c div 8 div 8" by (simp add: div_mult2_eq [symmetric])
    ultimately show ?thesis
      using div_mult_mod_eq [of "code c" 8] div_mult_mod_eq [of "code c div 8" 8] by linarith
  qed
  then have eq: "int (code c div 64 mod 8) * 64 + int (code c div 8 mod 8) * 8 + int (code c mod 8) = int (code c)"
    by (rule octal_sum)
  have "octal_loop 3 0 (octal_digit (code c div 64) # octal_digit (code c div 8) # octal_digit (code c) # r) =
      ((int (code c div 64 mod 8) * 8 + int (code c div 8 mod 8)) * 8 + int (code c mod 8), r)"
    by (simp only: numeral_3_eq_3 octal_loop.simps deref_simps digit val if_True list.sel mult_zero_left add_0)
  also have "\<dots> = (int (code c), r)" unfolding eq [symmetric] by simp
  finally show ?thesis .
qed

lemma read_octal:
  "read_escaped_char cf st (octal_digit (code c div 64) # octal_digit (code c div 8) # octal_digit (code c) # r) = ok (c, r)"
proof -
  have digit: "in_chars CHR ''0'' CHR ''7'' (octal_digit n)" "octal_digit n \<noteq> CHR ''x''" for n
  proof -
    have b: "n mod 8 < 8" by simp
    show "in_chars CHR ''0'' CHR ''7'' (octal_digit n)" by (simp add: in_chars_def octal_digit_code) (simp add: code_def)
    show "octal_digit n \<noteq> CHR ''x''" using octal_digit_code [of n] b by (auto simp: code_def)
  qed
  have "to_char (int (code c)) = c" using code_bound [of c] by (simp add: to_char_def code_def)
  then show ?thesis by (simp add: read_escaped_char_def digit octal_escape)
qed

lemma string_char_quoted:
  "string_char cf st (quote_char c @ r) buf = rbind (put_buf [c] buf) (\<lambda>buf. ok (r, buf))"
proof (cases "plain_char c")
  case True
  then show ?thesis by (auto simp: string_char_def quote_char_def plain_char_def)
next
  case False
  have "octal_digit n \<noteq> CHR ''u''" "octal_digit n \<noteq> CHR ''U''" for n
    using octal_digit_code [of n] by (auto simp: code_def)
  with False show ?thesis by (simp add: string_char_def quote_char_def read_octal Let_def)
qed

lemma quote_char_start: "quote_char c = x # r \<Longrightarrow> x \<noteq> DQ \<and> x \<noteq> NL"
  by (auto simp: quote_char_def plain_char_def code_def split: if_splits)

lemma string_part_quoted:
  "length buf \<le> STR_BUF \<Longrightarrow>
   string_part cf st (quote_string s @ DQ # r) buf =
     (if length buf + length s \<le> STR_BUF then ok (DQ # r, buf @ s) else UB)"
proof (induction s arbitrary: buf)
  case Nil
  then show ?case by (simp add: quote_string_def string_part.simps)
next
  case (Cons c s)
  obtain x y where q: "quote_char c = x # y" by (cases "quote_char c") (auto simp: quote_char_def split: if_splits)
  have "string_part cf st (quote_char c @ quote_string s @ DQ # r) buf =
      ebind (string_char cf st (quote_char c @ quote_string s @ DQ # r) buf) (\<lambda>(p, buf). string_part cf st p buf)"
    using quote_char_start [OF q] q by (subst string_part.simps) simp
  also have "\<dots> = (if length buf + length (c # s) \<le> STR_BUF then ok (DQ # r, buf @ c # s) else UB)"
    using Cons by (simp add: string_char_quoted put_buf_def)
  finally show ?case by (simp add: quote_string_def)
qed

lemma lex_string_quoted:
  assumes "deref r \<noteq> DQ" "\<not> is_space (deref r)" "\<not> is_str_prefix (deref r)" "in32 (cur_lineno st)"
  shows "lex_string cf None (DQ # quote_string s @ DQ # r) st =
    (if length s < STR_BUF then
       ok (r, push_token ((new_token cf st TK_STR (int (pos_of cf (DQ # quote_string s @ DQ # r))) r)
         \<lparr>tk_str := s, tk_len := length s, tk_prefix := 0\<rparr>) st)
     else UB)"
proof -
  have ws: "takeWhile is_space r = []" "dropWhile is_space r = r" using assms(2) by (cases r; simp)+
  have "string_loop cf (int (pos_of cf (DQ # quote_string s @ DQ # r))) (quote_string s @ DQ # r) [] st =
      (if length s \<le> STR_BUF then ok (r, s, st) else UB)"
    using assms by (subst string_loop.simps)
      (simp add: string_part_quoted ws Let_def add_lines_def newlines_def ck32_def)
  then show ?thesis by (simp add: lex_string_def Let_def)
qed

lemma tokenize_literal:
  assumes "lx_text cf = DQ # quote_string s @ [DQ]"
  shows "tokenize cf lexer_start =
    (if length s < 2048 then
       ebind (ok (lex_start cf lexer_start)) (\<lambda>st.
         let t = (new_token cf st TK_STR 0 [])\<lparr>tk_str := s, tk_len := length s\<rparr>;
             st = st\<lparr>lx_tokens := [t]\<rparr>
         in ok ([t, new_token cf st TK_EOF (int (length (lx_text cf))) []], st))
     else UB)"
proof -
  let ?st = "lex_start cf lexer_start"
  have sp: "\<not> is_space DQ" "\<not> is_digit DQ" "\<not> is_ident1 DQ" "\<not> is_str_prefix DQ" "code DQ < 128"
    "\<not> is_space NUL" "\<not> is_str_prefix NUL"
    by (simp_all add: is_space_def is_digit_def is_ident1_def is_str_prefix_def in_chars_def code_def NUL_def)
  have l32: "in32 (cur_lineno ?st)" by (simp add: lex_start_def in32_def)
  have step: "lex_step cf (lx_text cf) ?st =
    (if length s < STR_BUF then
       ok ([], push_token ((new_token cf ?st TK_STR 0 [])\<lparr>tk_str := s, tk_len := length s, tk_prefix := 0\<rparr>) ?st)
     else UB)"
    using sp lex_string_quoted [of "[]" ?st cf s] l32 unfolding assms
    by (simp add: lex_step_def lex_token_def NUL_def pos_of_def assms)
  show ?thesis
  proof (cases "length s < STR_BUF")
    case True
    obtain n where n: "length (lx_text cf) = Suc n" using assms by simp
    have "lex_loop (Suc (length (lx_text cf))) cf (lx_text cf) ?st = ok ([], push_token ((new_token cf ?st TK_STR 0 [])
        \<lparr>tk_str := s, tk_len := length s, tk_prefix := 0\<rparr>) ?st)"
      using step True n assms by simp
    with True show ?thesis
      by (simp add: tokenize_def push_token_def new_token_def pos_of_def STR_BUF_def lex_start_def Let_def)
  next
    case False
    with step assms show ?thesis by (simp add: tokenize_def STR_BUF_def)
  qed
qed

text \<open>The lexer on a file that holds nothing but a literal.\<close>

definition literal_config :: "lex_config \<Rightarrow> string \<Rightarrow> lex_config" where
  "literal_config cf s = cf\<lparr>lx_text := DQ # quote_string s @ [DQ]\<rparr>"

text \<open>
  C21. String literals are read exactly: for any string of bytes, NUL and newline among them, a literal for it gives a single
  token whose contents are that string, if they and a NUL fit into the buffer of 2048 bytes; a longer literal is written
  behind the buffer.
\<close>

theorem string_literal_read_back:
  "tokenize (literal_config cf s) lexer_start =
    (if length s < 2048 then
       let cf = literal_config cf s; st = lex_start cf lexer_start;
           t = (new_token cf st TK_STR 0 [])\<lparr>tk_str := s, tk_len := length s\<rparr>
       in ok ([t, new_token cf (st\<lparr>lx_tokens := [t]\<rparr>) TK_EOF (int (length (lx_text cf))) []], st\<lparr>lx_tokens := [t]\<rparr>)
     else UB)"
  using tokenize_literal [of "literal_config cf s" s] by (simp add: literal_config_def Let_def)

section \<open>Tokens read back\<close>

datatype lex_item = LIdent string | LNum nat | LPunct string

primrec item_text :: "lex_item \<Rightarrow> string" where
  "item_text (LIdent x) = x"
| "item_text (LNum n) = show_nat n"
| "item_text (LPunct s) = s"

definition item_puncts :: "string list" where
  "item_puncts = [''...'', ''<<='', ''>>=''] @ punct2 @ map (\<lambda>c. [c]) (''!%&()*+,-./:;<=>?@[]^`{|}~'' @ [BSL])"

primrec item_ok :: "lex_item \<Rightarrow> bool" where
  "item_ok (LIdent x) \<longleftrightarrow> x \<noteq> [] \<and> is_ident1 (hd x) \<and> list_all is_ident2 x"
| "item_ok (LNum n) \<longleftrightarrow> int n < 2 ^ 64"
| "item_ok (LPunct s) \<longleftrightarrow> s \<in> set item_puncts"

text \<open>The token an item at a position is read as, in a file without line markers and newlines.\<close>

definition item_token :: "lex_config \<Rightarrow> nat \<Rightarrow> lex_item \<Rightarrow> token" where
  "item_token cf pos i =
     \<lparr>tk_kind = (case i of LIdent x \<Rightarrow> TK_IDENT | LNum n \<Rightarrow> TK_NUM | LPunct s \<Rightarrow> TK_PUNCT),
      tk_val = (case i of LNum n \<Rightarrow> wrap64 (int n) | _ \<Rightarrow> 0),
      tk_name = (case i of LIdent x \<Rightarrow> x | _ \<Rightarrow> []), tk_str = [], tk_loc = int pos, tk_len = length (item_text i), tk_prefix = 0,
      tk_filename = (if opt_g cf then lx_filename cf else []), tk_lineno = (if opt_g cf then 1 else 0)\<rparr>"

fun item_tokens :: "lex_config \<Rightarrow> nat \<Rightarrow> lex_item list \<Rightarrow> token list" where
  "item_tokens cf pos [] = []"
| "item_tokens cf pos (i # is) = item_token cf pos i # item_tokens cf (pos + length (item_text i) + 1) is"

definition items_text :: "lex_item list \<Rightarrow> string" where
  "items_text is = concat (map (\<lambda>i. item_text i @ '' '') is)"

lemma decode_at_ascii:
  assumes "code c < 128"
  shows "\<exists>w. decode_at cf st (c # r) = ok (w, 1) \<and> w = of_char c"
proof -
  have b: "(of_char c :: byte) = of_nat (code c)" "(of_char c :: codepoint) = of_nat (code c)"
    by (simp_all add: code_def of_nat_of_char)
  have n: "(of_nat (code c) :: byte) < 128" "ucast (of_nat (code c) :: byte) = (of_nat (code c) :: codepoint)"
    using assms by (simp_all add: word_less_nat_alt unsigned_of_nat take_bit_nat_eq_self)
  then show ?thesis unfolding decode_at_def decode_utf8_def byte_at_def Let_def by (simp add: b)
qed

lemma ident2_ascii: "is_ident2 c \<Longrightarrow> code c < 128"
  by (auto simp: is_ident2_def is_ident1_def in_chars_def code_def)

lemma ident_loop_plain:
  assumes "list_all is_ident2 x" and "is32_ident2 (lx_start_list cf) 32 = Done False"
  shows "ident_loop cf st (x @ CHR '' '' # r) = ok (CHR '' '' # r, 1)"
  using assms(1)
proof (induction x)
  case Nil
  have "code CHR '' '' < 128" "\<not> is_ident2 CHR '' ''" by (simp_all add: code_def is_ident2_def is_ident1_def in_chars_def)
  moreover have "of_char CHR '' '' = (32 :: codepoint)" by simp
  ultimately show ?case
    using decode_at_ascii [of "CHR '' ''" cf st r] assms(2) by (subst ident_loop.simps) auto
next
  case (Cons c x)
  then show ?case
    using decode_at_ascii [OF ident2_ascii, of c cf st "x @ CHR '' '' # r"] by (subst ident_loop.simps) auto
qed

lemma strtoull0_show_nat:
  assumes "digit_of (deref r) = 36" and "int n < 2 ^ 64"
  shows "strtoull0 (show_nat n @ r) = n"
proof -
  obtain c s where cs: "show_nat n = c # s" using show_nat_digits [of n] by (cases "show_nat n") auto
  have c: "is_digit c" "list_all is_digit s" using show_nat_digits [of n] cs by auto
  have dig: "is_digit x \<Longrightarrow> digit_of x < 10" for x by (auto simp: digit_of_def is_digit_def)
  have stop: "takeWhile (\<lambda>x. digit_of x < b) r = []" if "b \<le> 36" for b
    using assms(1) that by (cases r) auto
  show ?thesis
  proof (cases "n = 0")
    case True
    have z: "show_nat 0 = ''0''" by code_simp
    have "deref r \<noteq> CHR ''x''" "deref r \<noteq> CHR ''X''" using assms(1) by (auto simp: digit_of_def is_digit_def code_def)
    moreover have "deref_at (CHR ''0'' # r) 1 = deref r" by (simp add: deref_at_def)
    moreover have d: "digit_of CHR ''0'' = 0" by code_simp
    moreover have "takeWhile (\<lambda>x. digit_of x < 8) (CHR ''0'' # r) = ''0''" using stop [of 8] d by simp
    ultimately show ?thesis
      using True by (simp add: z strtoull0_def Let_def)
  next
    case False
    then have "c \<noteq> CHR ''0''" using show_nat_zero [of n] cs by auto
    moreover have tw: "takeWhile (\<lambda>x. digit_of x < 10) (c # s @ r) = c # s"
      using c dig stop [of 10] by (simp add: list_all_iff takeWhile_append)
    ultimately show ?thesis
      using assms(2) show_nat_value [of n] by (simp add: cs strtoull0_def Let_def)
  qed
qed

lemma number_plain:
  assumes "int n < 2 ^ 64"
  shows "number_body (show_nat n @ CHR '' '' # r) = (False, CHR '' '' # r)"
    and "strtoull0 (show_nat n @ CHR '' '' # r) = n"
proof -
  obtain c s where cs: "show_nat n = c # s" using show_nat_digits [of n] by (cases "show_nat n") auto
  have dig: "is_digit c" "list_all is_digit s" using show_nat_digits [of n] cs by auto
  have no: "\<not> is_digit CHR ''x''" "\<not> is_digit CHR ''X''" "\<not> is_digit CHR ''b''" "\<not> is_digit CHR ''B''" "\<not> is_digit CHR '' ''"
    by (simp_all add: is_digit_def code_def)
  have second: "deref (s @ CHR '' '' # r) \<notin> set ''xXbB''" using dig(2) no by (cases s) auto
  have dw: "dropWhile is_digit (s @ CHR '' '' # r) = CHR '' '' # r" "takeWhile is_digit (s @ CHR '' '' # r) = s"
    using dig(2) no by (simp_all add: dropWhile_append2 takeWhile_append2 list_all_iff)
  show "number_body (show_nat n @ CHR '' '' # r) = (False, CHR '' '' # r)"
    using second dw dig no by (simp add: cs number_body_def Let_def deref_at_def)
  have "digit_of CHR '' '' = 36" by code_simp
  then show "strtoull0 (show_nat n @ CHR '' '' # r) = n" using assms by (intro strtoull0_show_nat) simp_all
qed

definition punct_start :: "char \<Rightarrow> bool" where
  "punct_start c \<longleftrightarrow> \<not> is_digit c \<and> code c < 128 \<and> \<not> is_ident1 c \<and> \<not> is_str_prefix c \<and> c \<noteq> DQ \<and> c \<noteq> SQ
     \<and> c \<noteq> CHR ''#'' \<and> \<not> is_space c"

lemma item_puncts_start: "s \<in> set item_puncts \<Longrightarrow> s \<noteq> [] \<and> punct_start (hd s)"
proof -
  have "list_all (\<lambda>s. s \<noteq> [] \<and> punct_start (hd s)) item_puncts" by code_simp
  then show "s \<in> set item_puncts \<Longrightarrow> s \<noteq> [] \<and> punct_start (hd s)" unfolding list_all_iff by blast
qed

lemma punct_chars:
  "is_punct CHR ''!''" "is_punct CHR ''%''" "is_punct CHR ''&''" "is_punct CHR ''(''" "is_punct CHR '')''" "is_punct CHR ''*''"
  "is_punct CHR ''+''" "is_punct CHR '',''" "is_punct CHR ''-''" "is_punct CHR ''.''" "is_punct CHR ''/''" "is_punct CHR '':''"
  "is_punct CHR '';''" "is_punct CHR ''<''" "is_punct CHR ''=''" "is_punct CHR ''>''" "is_punct CHR ''?''" "is_punct CHR ''@''"
  "is_punct CHR ''[''" "is_punct CHR '']''" "is_punct CHR ''^''" "is_punct CHR ''`''" "is_punct CHR ''{''" "is_punct CHR ''|''"
  "is_punct CHR ''}''" "is_punct CHR ''~''" "is_punct BSL"
  by code_simp+

lemma punct_read:
  assumes "s \<in> set item_puncts"
  shows "read_punct (s @ CHR '' '' # r) = length s \<and> \<not> startswith (s @ CHR '' '' # r) ''//''
    \<and> \<not> startswith (s @ CHR '' '' # r) ''/*'' \<and> (hd s = CHR ''.'' \<longrightarrow> deref_at (s @ CHR '' '' # r) 1 \<in> {CHR ''.'', CHR '' ''})"
  using assms
  by (simp add: item_puncts_def punct2_def)
     (elim disjE; simp add: read_punct_def punct2_def punct_chars deref_at_def)


lemma pos_of_append: "lx_text cf = q @ p \<Longrightarrow> pos_of cf p = length q"
  by (simp add: pos_of_def)

lemma new_token_plain:
  "lx_text cf = q @ x @ r \<Longrightarrow> new_token cf st k (int (length q)) r =
     \<lparr>tk_kind = k, tk_val = 0, tk_name = [], tk_str = [], tk_loc = int (length q), tk_len = length x, tk_prefix = 0,
      tk_filename = (if opt_g cf then current_debug_filename st else []), tk_lineno = (if opt_g cf then cur_lineno st else 0)\<rparr>"
  using pos_of_append [of cf "q @ x" r] by (simp add: new_token_def)

lemma item_read:
  assumes t: "lx_text cf = q @ item_text i @ CHR '' '' # r" and i: "item_ok i"
    and sp: "is32_ident2 (lx_start_list cf) 32 = Done False"
    and st: "opt_g cf \<longrightarrow> current_debug_filename st = lx_filename cf" "cur_lineno st = 1"
  shows "lex_step cf (item_text i @ CHR '' '' # r) st = ok (CHR '' '' # r, push_token (item_token cf (length q) i) st)"
proof -
  let ?p = "item_text i @ CHR '' '' # r"
  have pos: "pos_of cf ?p = length q" by (rule pos_of_append [OF t])
  note tok = new_token_plain [OF t, of st]
  have c: "code CHR ''#'' = 35" "code CHR ''/'' = 47" "code CHR ''.'' = 46" "code DQ = 34" "code SQ = 39" by (simp_all add: code_def)
  show ?thesis
  proof (cases i)
    case (LIdent x)
    then obtain a y where x: "x = a # y" "is_ident1 a" "list_all is_ident2 y" using i by (cases x) auto
    have a: "\<not> is_space a" "\<not> is_digit a" "code a < 128" "a \<noteq> CHR ''#''" "a \<noteq> CHR ''/''" "a \<noteq> CHR ''.''"
      using x(2) c by (auto simp: is_ident1_def in_chars_def is_space_def is_digit_def code_def)
    have second: "deref (y @ CHR '' '' # r) \<notin> {DQ, SQ}"
      using x(3) c by (cases y) (auto simp: is_ident2_def is_ident1_def in_chars_def code_def)
    have "lex_step cf ?p st = lex_ident cf ?p st"
      using a x(2) second LIdent by (simp add: x(1) lex_step_def lex_token_def deref_at_def)
    also have "\<dots> = ok (CHR '' '' # r, push_token (item_token cf (length q) i) st)"
      using ident_loop_plain [OF x(3) sp, of st r] pos tok [of TK_IDENT] st LIdent
      by (simp add: x(1) lex_ident_def ident_token_def item_token_def)
    finally show ?thesis .
  next
    case (LNum n)
    obtain a y where s: "show_nat n = a # y" using show_nat_digits [of n] by (cases "show_nat n") auto
    have d: "is_digit a" "list_all is_digit y" using show_nat_digits [of n] s by auto
    have a: "\<not> is_space a" "a \<noteq> CHR ''#''" "a \<noteq> CHR ''/''"
      using d(1) c by (auto simp: is_space_def is_digit_def)
    have second: "deref (y @ CHR '' '' # r) \<notin> set ''bB''"
      using d(2) by (cases y) (auto simp: is_digit_def code_def)
    have n: "int n < 2 ^ 64" using i LNum by simp
    have "lex_step cf ?p st = lex_number cf ?p st"
      using a d LNum by (simp add: s lex_step_def lex_token_def)
    also have "\<dots> = ok (CHR '' '' # r, push_token (item_token cf (length q) i) st)"
      using number_plain [OF n, of r] pos tok [of TK_NUM] st LNum second
      by (simp add: s lex_number_def number_suffix_def item_token_def Let_def deref_at_def)
    finally show ?thesis .
  next
    case (LPunct s)
    then have s: "s \<in> set item_puncts" using i by simp
    from item_puncts_start [OF s] obtain a y where x: "s = a # y" "punct_start a" by (cases s) auto
    have dot: "a = CHR ''.'' \<Longrightarrow> \<not> is_digit (deref_at (s @ CHR '' '' # r) 1)"
      using punct_read [OF s, of r] x(1) by (auto simp: is_digit_def code_def)
    have "lex_step cf ?p st = lex_token cf ?p st"
      using punct_read [OF s, of r] x LPunct by (auto simp: lex_step_def punct_start_def)
    also have "\<dots> = ok (CHR '' '' # r, push_token (item_token cf (length q) i) st)"
      using punct_read [OF s, of r] x LPunct dot pos tok [of TK_PUNCT] st
      by (auto simp: lex_token_def punct_start_def item_token_def)
    finally show ?thesis .
  qed
qed

lemma space_read:
  "lex_step cf (CHR '' '' # r) st = ok (r, st)"
proof -
  have "is_space CHR '' ''" by code_simp
  then show ?thesis by (simp add: lex_step_def count_nl_def)
qed

lemma items_read:
  assumes "is32_ident2 (lx_start_list cf) 32 = Done False"
  shows "lx_text cf = q @ items_text is \<Longrightarrow> list_all item_ok is \<Longrightarrow>
    (opt_g cf \<longrightarrow> current_debug_filename st = lx_filename cf) \<Longrightarrow> cur_lineno st = 1 \<Longrightarrow> 2 * length is < n \<Longrightarrow>
    lex_loop n cf (items_text is) st = ok ([], st\<lparr>lx_tokens := lx_tokens st @ item_tokens cf (length q) is\<rparr>)"
proof (induction "is" arbitrary: q st n)
  case Nil
  then show ?case by (cases n) (simp_all add: items_text_def)
next
  case (Cons i iss)
  obtain m where n: "n = Suc (Suc m)" using Cons.prems(5) by (cases n; cases "n - 1") auto
  let ?st = "push_token (item_token cf (length q) i) st"
  have t: "lx_text cf = q @ item_text i @ CHR '' '' # items_text iss" using Cons.prems(1) by (simp add: items_text_def)
  have "item_text i \<noteq> []" using Cons.prems(2) item_puncts_start show_nat_digits by (cases i) auto
  then have "lex_loop n cf (items_text (i # iss)) st = lex_loop m cf (items_text iss) ?st"
    using item_read [OF t _ assms Cons.prems(3,4)] Cons.prems(2) by (simp add: items_text_def n space_read)
  also have "\<dots> = ok ([], ?st\<lparr>lx_tokens := lx_tokens ?st @ item_tokens cf (length (q @ item_text i @ '' '')) iss\<rparr>)"
    by (rule Cons.IH) (use Cons.prems t n in \<open>simp_all add: push_token_def\<close>)
  finally show ?case by (simp add: push_token_def)
qed

text \<open>The lexer on the printed items, each followed by a space.\<close>

definition items_config :: "lex_config \<Rightarrow> lex_item list \<Rightarrow> lex_config" where
  "items_config cf is = cf\<lparr>lx_text := items_text is\<rparr>"

lemma items_text_length: "list_all item_ok is \<Longrightarrow> 2 * length is \<le> length (items_text is)"
proof (induction "is")
  case (Cons i iss)
  then have "item_text i \<noteq> []" using item_puncts_start show_nat_digits by (cases i) auto
  with Cons show ?case by (cases "item_text i") (simp_all add: items_text_def)
qed (simp add: items_text_def)

text \<open>
  C20. Tokens are read back: identifiers, decimal numbers below \<open>2 ^ 64\<close> and punctuators, printed one after another with
  spaces between, are read as exactly these tokens, with their names, their values as 64-bit numbers, their
  positions and lengths, and the end of file behind them. 
\<close>

theorem tokens_read_back:
  assumes "list_all item_ok is" and "is32_ident2 (lx_start_list cf) 32 = Done False"
  shows "rmap (map_sum id fst) (tokenize (items_config cf is) lexer_start) =
    ok (item_tokens (items_config cf is) 0 is @
        [new_token (items_config cf is) (lex_start (items_config cf is) lexer_start) TK_EOF (int (length (items_text is))) []])"
proof -
  let ?cf = "items_config cf is"
  let ?st = "lex_start ?cf lexer_start"
  have t: "lx_text ?cf = [] @ items_text is" by (simp add: items_config_def)
  have "lex_loop (Suc (length (lx_text ?cf))) ?cf (items_text is) ?st =
      ok ([], ?st\<lparr>lx_tokens := lx_tokens ?st @ item_tokens ?cf (length ([] :: string)) is\<rparr>)"
    by (rule items_read [OF _ t assms(1)])
      (use assms(2) items_text_length [OF assms(1)] in \<open>simp_all add: lex_start_def items_config_def\<close>)
  moreover have "lx_text ?cf = items_text is" by (simp add: items_config_def)
  ultimately show ?thesis
    by (simp add: tokenize_def ok_def new_token_def lex_start_def pos_of_def lexer_start_def)
qed

theorem tokens_read_back_witness:
  "rmap (map_sum id fst) (tokenize (items_config (text_config []) [LIdent ''x1'', LPunct ''<<='', LNum 18446744073709551615, LPunct '';'']) lexer_start) =
    ok (item_tokens (items_config (text_config []) [LIdent ''x1'', LPunct ''<<='', LNum 18446744073709551615, LPunct '';'']) 0
          [LIdent ''x1'', LPunct ''<<='', LNum 18446744073709551615, LPunct '';''] @
        [new_token (items_config (text_config []) [LIdent ''x1'', LPunct ''<<='', LNum 18446744073709551615, LPunct '';''])
           (lex_start (items_config (text_config []) [LIdent ''x1'', LPunct ''<<='', LNum 18446744073709551615, LPunct '';'']) lexer_start)
           TK_EOF (int (length (items_text [LIdent ''x1'', LPunct ''<<='', LNum 18446744073709551615, LPunct '';'']))) []])"
proof (rule tokens_read_back)
  show "list_all item_ok [LIdent ''x1'', LPunct ''<<='', LNum 18446744073709551615, LPunct '';'']"
    by (simp add: item_puncts_def punct2_def) (simp add: is_ident1_def is_ident2_def in_chars_def code_def)
  show "is32_ident2 (lx_start_list (text_config [])) 32 = Done False" by code_simp
qed

section \<open>Places in messages and tokens\<close>

lemma line_start_below: "l \<le> lo \<Longrightarrow> line_start t lo l = l"
  by (cases l) auto

lemma line_start_le: "line_start t lo l \<le> l"
  by (induction l) (auto intro: le_SucI)

lemma newlines_line: "lo \<le> l \<Longrightarrow> l \<le> length t \<Longrightarrow> newlines t lo (line_start t lo l) = newlines t lo l"
proof (induction l)
  case (Suc l)
  show ?case
  proof (cases "lo < Suc l \<and> t ! l \<noteq> NL")
    case True
    then have "newlines t lo (Suc l) = newlines t lo l"
      using Suc.prems(2) by (simp add: newlines_def take_Suc_conv_app_nth)
    with True Suc show ?thesis by simp
  next
    case False
    then show ?thesis by auto
  qed
qed simp

text \<open>
  In a text without line markers an error message gives the right line: one more than the newlines in front of
  the place of the error.
\<close>

theorem error_line:
  assumes "current_input st = 0" and "current_line_offset st = 0" and "loc \<le> length t"
  shows "compute_line_no t st loc = 1 + int (newlines t 0 loc)"
  using assms newlines_line [of 0 loc t] by (simp add: compute_line_no_def Let_def)

theorem error_line_witness: "compute_line_no [NL, NL, CHR ''x''] lexer_start 2 = 1 + int (newlines [NL, NL, CHR ''x''] 0 2)"
  by (rule error_line) (simp_all add: lexer_start_def)

text \<open>A round of the lexer leaves \<open>current_input\<close> alone or sets it to the place of the round, where a marker is.\<close>

lemma lines_input [dest]:
  "add_lines k st = Done st' \<Longrightarrow> current_input st' = current_input st"
  "count_nl p st = Done st' \<Longrightarrow> current_input st' = current_input st"
  by (auto simp: add_lines_def count_nl_def ck32_def split: if_splits)

lemma push_token_input [simp]: "current_input (push_token t st) = current_input st"
  by (simp add: push_token_def)

lemma errors_not_ok [simp]:
  "verror_at cf st l n e \<noteq> Done (Inr y)" "error_at cf st p e \<noteq> Done (Inr y)"
  by (auto simp: error_at_def verror_at_def fatal_def Let_def)

lemma skip_line_input: "skip_line p st = Done (Inr (r, st')) \<Longrightarrow> current_input st' = current_input st"
  by (auto simp: skip_line_def Let_def ok_def)

lemma lex_number_input: "lex_number cf p st = Done (Inr (r, st')) \<Longrightarrow> current_input st' = current_input st"
  by (auto simp: lex_number_def Let_def ok_def split: prod.splits if_splits)

lemma lex_ident_input:
  "lex_ident cf p st = Done (Inr (r, st')) \<Longrightarrow> current_input st' = current_input st"
  "lex_utf8_ident cf p st = Done (Inr (r, st')) \<Longrightarrow> current_input st' = current_input st"
  by (auto simp: lex_ident_def lex_utf8_ident_def ok_def split: prod.splits if_splits)

lemma string_loop_input:
  "string_loop cf start p buf st = Done (Inr (r, b, st')) \<Longrightarrow> current_input st' = current_input st"
proof (induction cf start p buf st rule: string_loop.induct)
  case (1 cf start p buf st)
  from 1(2) show ?case
    unfolding string_loop.simps [of cf start p buf st]
    by (auto simp: ok_def Let_def split: prod.splits if_splits dest!: 1(1))
qed

lemma lex_literal_input:
  "lex_string cf pr p st = Done (Inr (r, st')) \<Longrightarrow> current_input st' = current_input st"
  "lex_char cf p st = Done (Inr (r, st')) \<Longrightarrow> current_input st' = current_input st"
  by (auto simp: lex_string_def lex_char_def Let_def ok_def split: prod.splits if_splits dest: string_loop_input)

lemma lex_token_input: "lex_token cf p st = Done (Inr (r, st')) \<Longrightarrow> current_input st' = current_input st"
  unfolding lex_token_def
  by (auto simp: ok_def split: if_splits dest: lex_number_input lex_ident_input lex_literal_input)

lemma lex_block_comment_input: "lex_block_comment cf p st = Done (Inr (r, st')) \<Longrightarrow> current_input st' = current_input st"
  by (auto simp: lex_block_comment_def ok_def split: option.splits)

lemma line_marker_input: "line_marker cf p n name q st = Done (Inr (r, st')) \<Longrightarrow> current_input st' = pos_of cf p"
  by (auto simp: line_marker_def Let_def ok_def split: if_splits)

lemma lex_hash_input:
  "lex_hash cf p st = Done (Inr (Some (r, st'))) \<Longrightarrow>
   current_input st' = current_input st \<or> current_input st' = pos_of cf p"
  unfolding lex_hash_def Let_def
  by (auto simp: ok_def lex_pragma_unicode_def Let_def split: if_splits dest!: line_marker_input skip_line_input)

lemma lex_step_input:
  "lex_step cf p st = Done (Inr (r, st')) \<Longrightarrow>
   current_input st' = current_input st \<or> current_input st' = pos_of cf p"
  unfolding lex_step_def
  by (auto simp: ok_def split: if_splits option.splits
      dest!: lex_hash_input lex_token_input lex_block_comment_input)

lemma lex_loop_input:
  assumes "\<forall>c \<in> set p. code c < 128" and "lex_loop n cf p st = Done (Inr (r, st'))"
  shows "current_input st' = current_input st \<or> pos_of cf p \<le> current_input st'"
  using assms
proof (induction n arbitrary: p st)
  case (Suc n)
  show ?case
  proof (cases "p = []")
    case True
    with Suc.prems show ?thesis by (simp add: ok_def)
  next
    case False
    then have "code (deref p) < 128" using Suc.prems(1) by (cases p) auto
    from lex_step_advances [OF this, of cf st] have s: "ends_in fst (tl p) (lex_step cf p st)" by (simp add: advances_def)
    from Suc.prems(2) False obtain q st1 where
      q: "lex_step cf p st = Done (Inr (q, st1))" "lex_loop n cf q st1 = Done (Inr (r, st'))" by auto
    then have t: "suffix q (tl p)" using s by (simp add: ends_in_def)
    then have "set q \<subseteq> set p" by (meson set_mono_suffix suffix_from_tl)
    with Suc.IH [OF _ q(2)] Suc.prems(1) have "current_input st' = current_input st1 \<or> pos_of cf q \<le> current_input st'" by auto
    moreover have "pos_of cf p \<le> pos_of cf q" using suffix_length_le [OF t] by (simp add: pos_of_def)
    ultimately show ?thesis using lex_step_input [OF q(1)] by auto
  qed
qed simp

text \<open>The text of a line marker, as the preprocessor writes it: the number of a line and the name of a file.\<close>

definition marker_text :: "string \<Rightarrow> string \<Rightarrow> string" where
  "marker_text ds name = ''# '' @ ds @ '' '' @ [DQ] @ name @ [DQ]"

lemma marker_step:
  assumes "ds \<noteq> []" "\<forall>c \<in> set ds. is_digit c" "DQ \<notin> set name"
    and "lex_step cf (marker_text ds name @ rest) st = Done (Inr (r, st'))"
  shows "current_input st' = pos_of cf (marker_text ds name @ rest)"
proof -
  let ?p = "marker_text ds name @ rest"
  let ?q1 = "DQ # name @ DQ # rest"
  obtain d es where ds: "ds = d # es" using assms(1) by (cases ds) auto
  have d: "d \<noteq> CHR '' ''" "d \<noteq> CHR 0x09" using assms(2) ds by (auto simp: is_digit_def in_chars_def code_def)
  have 1: "skip_spaces (tl ?p) = ds @ '' '' @ ?q1"
    using d by (simp add: marker_text_def skip_spaces_def ds)
  have sp: "\<not> is_digit CHR '' ''" by (simp add: is_digit_def in_chars_def code_def)
  have 2: "takeWhile is_digit (ds @ '' '' @ ?q1) = ds" "dropWhile is_digit (ds @ '' '' @ ?q1) = '' '' @ ?q1"
    using assms(2) sp by (simp_all add: takeWhile_append dropWhile_append)
  have 3: "skip_spaces ('' '' @ ?q1) = ?q1" by (simp add: skip_spaces_def)
  have 4: "dropWhile (\<lambda>c. c \<noteq> DQ) (name @ DQ # rest) = DQ # rest"
    using assms(3) by (induction name) auto
  have "deref ?p = CHR ''#''" by (simp add: marker_text_def)
  moreover have "\<not> is_space CHR ''#''" by (simp add: is_space_def code_def)
  ultimately have "lex_hash cf ?p st = Done (Inr (Some (r, st'))) \<or> lex_hash cf ?p st = Done (Inr None)"
    using assms(4) unfolding lex_step_def by (auto simp: ok_def split: option.splits)
  then show ?thesis
    using assms(1) unfolding lex_hash_def Let_def 1 2 if_not_P [OF assms(1)] 3
    by (auto simp: 4 ok_def dest!: line_marker_input)
qed

text \<open>
  C26. When the lexer has gone over a line marker (in an ASCII text, from any state, and up to any later place), the
  messages about everything in front of it, the whole of the file before its last inclusion, are wrong: the marker
  moves \<open>current_input\<close>, which is never moved back, and the reported line is 1.
\<close>

theorem error_line_lost:
  assumes "\<forall>c \<in> set (marker_text ds name @ rest). code c < 128"
    and "ds \<noteq> []" and "\<forall>c \<in> set ds. is_digit c" and "DQ \<notin> set name"
    and "lex_loop n cf (marker_text ds name @ rest) st = ok (r, st')" and "0 < n"
    and "loc \<le> pos_of cf (marker_text ds name @ rest)"
  shows "compute_line_no (lx_text cf) st' loc = 1"
proof -
  let ?p = "marker_text ds name @ rest"
  obtain m where n: "n = Suc m" using assms(6) by (cases n) auto
  have "?p \<noteq> []" by (simp add: marker_text_def)
  then obtain q st1 where
    q: "lex_step cf ?p st = Done (Inr (q, st1))" "lex_loop m cf q st1 = Done (Inr (r, st'))"
    using assms(5) unfolding n ok_def by auto
  have "code (deref ?p) < 128" using assms(1) by (auto simp: marker_text_def)
  from lex_step_advances [OF this, of cf st] q(1) have t: "suffix q (tl ?p)" by (simp add: advances_def ends_in_def)
  then have "set q \<subseteq> set ?p" by (meson set_mono_suffix suffix_from_tl)
  with lex_loop_input [OF _ q(2)] assms(1) have "current_input st' = current_input st1 \<or> pos_of cf q \<le> current_input st'" by blast
  moreover have "pos_of cf ?p \<le> pos_of cf q" using suffix_length_le [OF t] by (simp add: pos_of_def)
  ultimately have "loc \<le> current_input st'"
    using marker_step [OF assms(2-4) q(1)] assms(7) by auto
  then show ?thesis by (simp add: compute_line_no_def line_start_below newlines_def)
qed

theorem error_line_lost_witness:
  "\<exists>st'. lex_loop 20 (text_config ([NL, NL] @ marker_text ''7'' ''f.h'' @ [NL] @ ''a''))
      (marker_text ''7'' ''f.h'' @ [NL] @ ''a'') lexer_start = ok ([], st') \<and>
     compute_line_no ([NL, NL] @ marker_text ''7'' ''f.h'' @ [NL] @ ''a'') st' 2 = 1"
proof -
  let ?cf = "text_config ([NL, NL] @ marker_text ''7'' ''f.h'' @ [NL] @ ''a'')"
  let ?x = "lex_loop 20 ?cf (marker_text ''7'' ''f.h'' @ [NL] @ ''a'') lexer_start"
  have "(case ?x of Done (Inr (r, st)) \<Rightarrow> r = [] | _ \<Rightarrow> False)" by code_simp
  then obtain st' where x: "?x = ok ([], st')" by (auto simp: ok_def split: res.splits sum.splits prod.splits)
  have t: "lx_text (text_config s) = s" for s by (simp add: text_config_def)
  have "compute_line_no (lx_text ?cf) st' 2 = 1"
    by (rule error_line_lost [OF _ _ _ _ x]) (simp_all add: t marker_text_def pos_of_def is_digit_def in_chars_def code_def)
  then show ?thesis using x unfolding t by blast
qed

text \<open>
  Debug positions behind a line marker are off: the newline that ends the marker is counted twice, so the first line of
  the file the marker announces as line 7 is numbered 9.
\<close>

theorem marker_counts_twice:
  "rmap (map_sum id (map (\<lambda>t. (tk_name t, tk_lineno t)) \<circ> fst))
     (tokenize (text_config (''# 7 '' @ [DQ] @ ''f.h'' @ [DQ, NL] @ ''a'' @ [NL] @ ''b'')) lexer_start) =
   ok [(''a'', 9), (''b'', 10), ([], 10)]"
  by code_simp

text \<open>
  The place of a string literal with a prefix is the pointer less the character code of the prefix: a literal that
  starts at position 80 is placed 75 characters in front of that, and an error message about it shows the text there.
\<close>

theorem prefixed_literal_place:
  "rmap (map_sum id (map (\<lambda>t. (tk_str t, tk_loc t)) \<circ> fst))
     (tokenize (text_config (replicate 80 CHR '' '' @ ''L'' @ [DQ] @ ''w'' @ [DQ])) lexer_start) =
   ok [(''w'', 5), ([], 84)]"
  by code_simp

end
