(* ===== verification/StructLayout.thy ===== *)
theory StructLayout
  imports CTypes Outcome
begin

text \<open>
  The layout of structs and unions (\<open>struct_or_union_specifier\<close> in \<open>src/parser.c\<close>), from the parsed declarations of
  the members on: offsets, bit-fields in the three ways the compiler knows (GCC, dense under \<open>#pragma pack\<close>,
  Microsoft), size and alignment. Variables of type \<open>int\<close> are wrapped where an \<open>int64_t\<close> is stored in them.
  The expression for the size of a struct with a variable length array is outside.
\<close>

section \<open>Model\<close>

text \<open>
  A declaration without a declarator, or one with a declarator: its name, its type and what follows the colon.
\<close>

datatype member_decl = TypeOnly ctype | Declarator "string option" ctype "int option"

record layout_config =
  lc_union :: bool
  lc_pack :: int
  lc_ms :: bool

text \<open>\<open>pack_align\<close> is the global of the preprocessor.\<close>

definition layout_config_of :: "bool \<Rightarrow> int \<Rightarrow> bool \<Rightarrow> bf_mode \<Rightarrow> bool \<Rightarrow> layout_config" where
  "layout_config_of is_union pack_align is_packed mode opt_ms_bitfields =
     \<lparr>lc_union = is_union,
      lc_pack = (if is_packed \<and> pack_align = 0 then 1 else pack_align),
      lc_ms = (\<not> is_union \<and> (if mode = BF_MODE_MS then True else if mode = BF_MODE_GCC then False else opt_ms_bitfields))\<rparr>"

record layout =
  lo_offset :: int
  lo_max_size :: int
  lo_max_align :: int
  lo_bit_pos :: int
  lo_ms_run_base :: int
  lo_ms_prev_kind :: type_kind
  lo_ms_prev_bit_width :: int
  lo_pack_align :: int
  lo_members :: "member list"

definition add_member :: "string option \<Rightarrow> ctype \<Rightarrow> int \<Rightarrow> int \<Rightarrow> int \<Rightarrow> int \<Rightarrow> layout \<Rightarrow> layout" where
  "add_member nm ty off width bo ls lo =
     lo\<lparr>lo_members := lo_members lo @
       [Member ty \<lparr>mname = nm, moffset = wrap32 off, bit_width = width, bit_offset = bo, bf_load_size = ls\<rparr>]\<rparr>"

definition capped_align :: "layout_config \<Rightarrow> int \<Rightarrow> int" where
  "capped_align cf a = (if lc_pack cf > 0 \<and> (lc_pack cf < a \<or> a = 0) then lc_pack cf else a)"

text \<open>A member of its own bytes in a struct.\<close>

definition place_bytes :: "layout_config \<Rightarrow> string option \<Rightarrow> ctype \<Rightarrow> layout \<Rightarrow> layout" where
  "place_bytes cf nm ty lo =
     (let a = capped_align cf (alignof ty);
          off = align_to (lo_offset lo) a;
          lo = add_member nm ty off 0 0 0 lo
      in lo\<lparr>lo_offset := off + sizeof ty, lo_bit_pos := wrap32 ((off + sizeof ty) * 8),
            lo_max_align := max (lo_max_align lo) a\<rparr>)"

definition anon_aggregate :: "layout_config \<Rightarrow> ctype \<Rightarrow> layout \<Rightarrow> layout" where
  "anon_aggregate cf ty lo =
     (if lc_union cf then (add_member None ty 0 0 0 0 lo)\<lparr>lo_max_size := max (lo_max_size lo) (sizeof ty)\<rparr>
      else place_bytes cf None ty lo)"

text \<open>The Microsoft rule, for named and unnamed bit-fields: a new run of units or the current one.\<close>

definition ms_advance :: "layout_config \<Rightarrow> ctype \<Rightarrow> int \<Rightarrow> layout \<Rightarrow> layout" where
  "ms_advance cf ty width lo =
     (let unit = wrap32 (sizeof ty);
          align = (if lc_pack cf > 0 \<and> lc_pack cf < alignof ty then lc_pack cf else alignof ty);
          new_run = (lo_bit_pos lo + width > unit * 8 \<or> ((width > 0) = (tkind ty \<noteq> lo_ms_prev_kind lo)))
      in if new_run then
           let off = align_to (lo_offset lo) align in
           lo\<lparr>lo_ms_run_base := wrap32 off, lo_bit_pos := 0,
              lo_offset := (if width > 0 \<or> lo_ms_prev_bit_width lo > 0 then off + unit else off)\<rparr>
         else lo)"

definition ms_note :: "ctype \<Rightarrow> int \<Rightarrow> layout \<Rightarrow> layout" where
  "ms_note ty width lo =
     lo\<lparr>lo_ms_prev_kind := tkind ty, lo_ms_prev_bit_width := width, lo_bit_pos := wrap32 (lo_bit_pos lo + width)\<rparr>"

definition bf_align :: "layout_config \<Rightarrow> ctype \<Rightarrow> int" where
  "bf_align cf ty = (if lc_pack cf > 0 \<and> lc_pack cf < alignof ty then lc_pack cf else alignof ty)"

text \<open>\<open>end_byte\<close>: the offset covers the bits placed so far.\<close>

definition cover_bits :: "layout \<Rightarrow> layout" where
  "cover_bits lo = lo\<lparr>lo_offset := max (lo_offset lo) ((lo_bit_pos lo + 7) sdiv 8)\<rparr>"

definition anon_bitfield :: "layout_config \<Rightarrow> ctype \<Rightarrow> int \<Rightarrow> layout \<Rightarrow> layout res" where
  "anon_bitfield cf ty width lo =
     (let unit = wrap32 (sizeof ty); unit_bits = unit * 8; bp = lo_bit_pos lo in
      if lc_union cf then Done lo
      else if lc_ms cf then
        let lo = ms_note ty width (ms_advance cf ty width lo) in
        Done (if width > 0 \<and> bf_align cf ty > lo_max_align lo then lo\<lparr>lo_max_align := bf_align cf ty\<rparr> else lo)
      else if width = 0 then
        (if unit_bits = 0 then UB
         else let base = (bp sdiv unit_bits) * unit;
                  base = (if bp smod unit_bits \<noteq> 0 then base + unit else base)
              in Done (lo\<lparr>lo_offset := max (lo_offset lo) base, lo_bit_pos := wrap32 (base * 8)\<rparr>))
      else if lc_pack cf > 0 then Done (cover_bits (lo\<lparr>lo_bit_pos := wrap32 (bp + width)\<rparr>))
      else if unit_bits = 0 then UB
      else let base = (bp sdiv unit_bits) * unit;
               lo = (if bp - base * 8 + width > unit_bits
                     then lo\<lparr>lo_bit_pos := wrap32 ((base + unit) * 8), lo_offset := max (lo_offset lo) (base + unit)\<rparr>
                     else lo)
           in Done (cover_bits (lo\<lparr>lo_bit_pos := wrap32 (lo_bit_pos lo + width)\<rparr>)))"

text \<open>\<open>int ls = unit; while (ls < needed) ls *= 2;\<close>\<close>

function load_size :: "int \<Rightarrow> int \<Rightarrow> int" where
  "load_size ls needed = (if ls < needed \<and> 0 < ls then load_size (ls * 2) needed else ls)"
  by pat_completeness auto
termination by (relation "measure (\<lambda>(ls, needed). nat (needed - ls))") auto

declare load_size.simps [simp del]

text \<open>Dense packing: at the current bit.\<close>

definition dense_bitfield :: "layout_config \<Rightarrow> string option \<Rightarrow> ctype \<Rightarrow> int \<Rightarrow> layout \<Rightarrow> layout" where
  "dense_bitfield cf nm ty width lo =
     (let unit = wrap32 (sizeof ty);
          eff = max 1 (min (alignof ty) (lc_pack cf));
          aligned_byte = align_to ((lo_bit_pos lo + 7) sdiv 8) eff;
          lo = (if alignof ty > sizeof ty
                then lo\<lparr>lo_bit_pos := wrap32 (aligned_byte * 8), lo_offset := max (lo_offset lo) aligned_byte\<rparr> else lo);
          byte_pos = lo_bit_pos lo sdiv 8;
          bit_off = lo_bit_pos lo smod 8;
          needed = (bit_off + width + 7) sdiv 8;
          lo = add_member nm ty byte_pos width bit_off (if needed > unit then load_size unit needed else 0) lo
      in cover_bits (lo\<lparr>lo_bit_pos := wrap32 (lo_bit_pos lo + width)\<rparr>))"

text \<open>The GCC rule: in the aligned unit of the declared type if it fits there, else in the next unit.\<close>

definition unit_bitfield :: "string option \<Rightarrow> ctype \<Rightarrow> int \<Rightarrow> layout \<Rightarrow> layout res" where
  "unit_bitfield nm ty width lo =
     (let unit = wrap32 (sizeof ty); unit_bits = unit * 8; bp = lo_bit_pos lo in
      if unit_bits = 0 then UB
      else
        let base = (bp sdiv unit_bits) * unit;
            bit_off = bp - base * 8;
            (base, bit_off) = (if bit_off + width > unit_bits then (base + unit, 0) else (base, bit_off));
            (base, bit_off) = (if alignof ty > unit then (align_to base (alignof ty), 0) else (base, bit_off));
            lo = add_member nm ty base width bit_off 0 lo;
            lo = lo\<lparr>lo_offset := max (lo_offset lo) base, lo_bit_pos := wrap32 (base * 8 + bit_off + width)\<rparr>;
            lo = cover_bits lo
        in Done (lo\<lparr>lo_max_align := max (lo_max_align lo) (alignof ty)\<rparr>))"

definition named_bitfield :: "layout_config \<Rightarrow> string option \<Rightarrow> ctype \<Rightarrow> int \<Rightarrow> layout \<Rightarrow> layout res" where
  "named_bitfield cf nm ty width lo =
     (let unit = wrap32 (sizeof ty) in
      rmap (\<lambda>lo. lo\<lparr>lo_max_align := max (lo_max_align lo) unit\<rparr>)
        (if lc_union cf then Done ((add_member nm ty 0 width 0 0 lo)\<lparr>lo_max_size := max (lo_max_size lo) unit\<rparr>)
         else if lc_ms cf then
           let lo = ms_advance cf ty width lo;
               lo = ms_note ty width (add_member nm ty (lo_ms_run_base lo) width (lo_bit_pos lo) 0 lo)
           in Done (lo\<lparr>lo_max_align := max (lo_max_align lo) (bf_align cf ty)\<rparr>)
         else if lc_pack cf > 0 then Done (dense_bitfield cf nm ty width lo)
         else unit_bitfield nm ty width lo))"

definition plain_member :: "layout_config \<Rightarrow> string option \<Rightarrow> ctype \<Rightarrow> layout \<Rightarrow> layout" where
  "plain_member cf nm ty lo =
     (let lo = (if lc_union cf then
                  (add_member nm ty 0 0 0 0 lo)
                    \<lparr>lo_max_size := max (lo_max_size lo) (sizeof ty), lo_max_align := max (lo_max_align lo) (alignof ty)\<rparr>
                else (place_bytes cf nm ty lo)\<lparr>lo_ms_prev_kind := TY_FUNC, lo_ms_prev_bit_width := 0\<rparr>)
      in if lc_pack cf > 0 \<and> lo_pack_align lo = 0 then lo\<lparr>lo_pack_align := lc_pack cf\<rparr> else lo)"

definition is_aggregate :: "ctype \<Rightarrow> bool" where
  "is_aggregate ty \<longleftrightarrow> tkind ty = TY_STRUCT \<or> tkind ty = TY_UNION"

definition lay_declarator :: "layout_config \<Rightarrow> string option \<Rightarrow> ctype \<Rightarrow> int \<Rightarrow> layout \<Rightarrow> layout res" where
  "lay_declarator cf nm ty width lo =
     (if nm = None \<and> width = 0 \<and> is_aggregate ty then Done (anon_aggregate cf ty lo)
      else if nm = None then anon_bitfield cf ty width lo
      else if width > 0 then named_bitfield cf nm ty width lo
      else Done (plain_member cf nm ty lo))"

primrec lay_decl :: "layout_config \<Rightarrow> member_decl \<Rightarrow> layout \<Rightarrow> layout exec" where
  "lay_decl cf (TypeOnly ty) lo = ok (if is_aggregate ty then anon_aggregate cf ty lo else lo)"
| "lay_decl cf (Declarator nm ty colon) lo =
     (case colon of
        None \<Rightarrow> rbind (lay_declarator cf nm ty 0 lo) ok
      | Some w \<Rightarrow>
         (if wrap32 w < 0 \<or> wrap32 w > sizeof ty * 8 then fatal ''bitfield width out of range''
          else rbind (lay_declarator cf nm ty (wrap32 w) lo) ok))"

fun lay_decls :: "layout_config \<Rightarrow> member_decl list \<Rightarrow> layout \<Rightarrow> layout exec" where
  "lay_decls cf [] lo = ok lo"
| "lay_decls cf (d # ds) lo = ebind (lay_decl cf d lo) (lay_decls cf ds)"

text \<open>\<open>ty->pack_align\<close> is the one of the type being defined.\<close>

definition layout_start :: "int \<Rightarrow> layout" where
  "layout_start pa = \<lparr>lo_offset = 0, lo_max_size = 0, lo_max_align = 1, lo_bit_pos = 0, lo_ms_run_base = 0,
     lo_ms_prev_kind = TY_FUNC, lo_ms_prev_bit_width = 0, lo_pack_align = pa, lo_members = []\<rparr>"

definition final_align :: "layout_config \<Rightarrow> int \<Rightarrow> int \<Rightarrow> int" where
  "final_align cf attr_align max_align =
     (let a = (if lc_pack cf > 0 \<and> lc_pack cf < max_align then lc_pack cf else max_align)
      in if attr_align > a then attr_align else a)"

definition lay_struct :: "layout_config \<Rightarrow> int \<Rightarrow> ctype \<Rightarrow> member_decl list \<Rightarrow> ctype exec" where
  "lay_struct cf attr_align ty ds =
     ebind (lay_decls cf ds (layout_start (pack_align_of (tinfo ty)))) (\<lambda>lo.
       let a = final_align cf attr_align (lo_max_align lo) in
       ok (CType ((tinfo ty)\<lparr>tsize := align_to (if lc_union cf then lo_max_size lo else lo_offset lo) a, talign := a,
                    pack_align_of := lo_pack_align lo\<rparr>)
             (tbase ty) (lo_members lo) (treturn ty) (tparams ty)))"

text \<open>A new struct or union type.\<close>

definition new_aggregate :: "bool \<Rightarrow> ctype" where
  "new_aggregate is_union = basic (if is_union then TY_UNION else TY_STRUCT) 0 1 False"

section \<open>Arithmetic\<close>

lemma sdiv_nonneg: "0 \<le> a \<Longrightarrow> 0 < b \<Longrightarrow> a sdiv b = (a :: int) div b" "0 \<le> a \<Longrightarrow> 0 < b \<Longrightarrow> a smod b = (a :: int) mod b"
  by (cases "a = 0"; simp add: signed_divide_int_def signed_modulo_int_def minus_div_mult_eq_mod)+

lemma wrap32_small: "0 \<le> x \<Longrightarrow> x < 2 ^ 31 \<Longrightarrow> wrap32 x = x"
  by (simp add: wrap32_def signed_take_bit_int_eq_self)

definition pow2 :: "int \<Rightarrow> bool" where
  "pow2 a \<longleftrightarrow> (\<exists>k. a = 2 ^ k)"

lemma pow2_1 [simp]: "pow2 1"
  unfolding pow2_def by (rule exI [of _ 0]) simp

lemma pow2_max: "pow2 a \<Longrightarrow> pow2 b \<Longrightarrow> pow2 (max a b)"
  by (simp add: max_def)

lemma pow2_dvd: "pow2 a \<Longrightarrow> pow2 b \<Longrightarrow> a \<le> b \<Longrightarrow> a dvd b"
  unfolding pow2_def by (auto intro: le_imp_power_dvd)

lemma pow2_align: "pow2 a \<Longrightarrow> n \<le> align_to n a" "pow2 a \<Longrightarrow> a dvd align_to n a" "pow2 a \<Longrightarrow> align_to n a < n + a" "pow2 a \<Longrightarrow> 1 \<le> a"
  by (auto simp: pow2_def align_to_bounds)

section \<open>Members in order\<close>

definition mstart :: "member \<Rightarrow> int" where
  "mstart m = 8 * moffset (minfo m) + bit_offset (minfo m)"

definition mbits :: "member \<Rightarrow> int" where
  "mbits m = (if bit_width (minfo m) > 0 then bit_width (minfo m) else 8 * sizeof (mty m))"

fun spans :: "int \<Rightarrow> member list \<Rightarrow> int \<Rightarrow> bool" where
  "spans a [] b \<longleftrightarrow> a \<le> b"
| "spans a (m # ms) b \<longleftrightarrow> a \<le> mstart m \<and> 0 \<le> mbits m \<and> spans (mstart m + mbits m) ms b"

lemma spans_snoc: "spans a ms b \<Longrightarrow> b \<le> mstart m \<Longrightarrow> 0 \<le> mbits m \<Longrightarrow> mstart m + mbits m \<le> c \<Longrightarrow> spans a (ms @ [m]) c"
  by (induction a ms b rule: spans.induct) auto

lemma spans_more: "spans a ms b \<Longrightarrow> b \<le> c \<Longrightarrow> spans a ms c"
  by (induction a ms b rule: spans.induct) auto

lemma spans_order:
  "spans a ms b \<Longrightarrow> sorted_wrt (\<lambda>m n. mstart m + mbits m \<le> mstart n) ms \<and> a \<le> b \<and>
    (\<forall>m \<in> set ms. a \<le> mstart m \<and> mstart m + mbits m \<le> b)"
  by (induction a ms b rule: spans.induct) fastforce+

section \<open>The invariant\<close>

definition wf_type :: "ctype \<Rightarrow> bool" where
  "wf_type ty \<longleftrightarrow> 0 \<le> sizeof ty \<and> pow2 (alignof ty)"

text \<open>The bit-field types of the theorems: as wide as their alignment at least, and at most 16 bytes.\<close>

definition field_type :: "ctype \<Rightarrow> bool" where
  "field_type ty \<longleftrightarrow> alignof ty \<le> sizeof ty \<and> sizeof ty \<le> 16 \<and> pow2 (sizeof ty) \<and> pow2 (alignof ty)"

primrec wf_decl :: "member_decl \<Rightarrow> bool" where
  "wf_decl (TypeOnly ty) \<longleftrightarrow> wf_type ty"
| "wf_decl (Declarator nm ty colon) \<longleftrightarrow> wf_type ty \<and>
     (colon \<noteq> None \<or> nm = None \<and> \<not> is_aggregate ty \<longrightarrow> field_type ty)"

definition plain_config :: "layout_config \<Rightarrow> bool" where
  "plain_config cf \<longleftrightarrow> \<not> lc_union cf \<and> \<not> lc_ms cf \<and> lc_pack cf \<in> {0, 1, 2, 4, 8}"

definition layout_inv :: "layout \<Rightarrow> bool" where
  "layout_inv lo \<longleftrightarrow> 0 \<le> lo_bit_pos lo \<and> lo_bit_pos lo \<le> 8 * lo_offset lo \<and> spans 0 (lo_members lo) (lo_bit_pos lo)
     \<and> pow2 (lo_max_align lo)"

lemma pack_pow2: "plain_config cf \<Longrightarrow> lc_pack cf > 0 \<Longrightarrow> pow2 (lc_pack cf)"
  unfolding plain_config_def pow2_def
  by (auto intro: exI [of _ 0] exI [of _ 1] exI [of _ 2] exI [of _ 3])

lemma capped_pow2: "plain_config cf \<Longrightarrow> pow2 a \<Longrightarrow> pow2 (capped_align cf a)"
  using pack_pow2 by (auto simp: capped_align_def)

lemma layout_fields [simp]:
  "lo_offset (add_member nm ty off w bo ls lo) = lo_offset lo" "lo_bit_pos (add_member nm ty off w bo ls lo) = lo_bit_pos lo"
  "lo_max_align (add_member nm ty off w bo ls lo) = lo_max_align lo"
  "lo_members (add_member nm ty off w bo ls lo) =
     lo_members lo @ [Member ty \<lparr>mname = nm, moffset = wrap32 off, bit_width = w, bit_offset = bo, bf_load_size = ls\<rparr>]"
  by (simp_all add: add_member_def)

lemma place_bytes_inv:
  assumes "plain_config cf" "layout_inv lo" "wf_type ty" "lo_offset (place_bytes cf nm ty lo) < 2 ^ 27"
  shows "layout_inv (place_bytes cf nm ty lo)"
proof -
  define a where "a = capped_align cf (alignof ty)"
  define o1 where "o1 = align_to (lo_offset lo) a"
  define e where "e = o1 + sizeof ty"
  have a: "pow2 a" using assms(1,3) by (simp add: a_def capped_pow2 wf_type_def)
  have o: "lo_offset lo \<le> o1" unfolding o1_def by (rule pow2_align(1) [OF a])
  have b: "0 \<le> lo_offset lo" "lo_bit_pos lo \<le> 8 * lo_offset lo" using assms(2) by (simp_all add: layout_inv_def)
  have s: "o1 \<le> e" "e < 2 ^ 27"
    using assms(3,4) by (simp_all add: wf_type_def place_bytes_def Let_def e_def o1_def a_def)
  have w: "wrap32 o1 = o1" "wrap32 (e * 8) = e * 8"
    using o b s by (intro wrap32_small; simp)+
  have "spans 0 (lo_members lo @ [Member ty \<lparr>mname = nm, moffset = o1, bit_width = 0, bit_offset = 0, bf_load_size = 0\<rparr>]) (e * 8)"
    using assms(2) o b s by (intro spans_snoc [of _ _ "lo_bit_pos lo"]) (auto simp: layout_inv_def mstart_def mbits_def e_def)
  moreover have "place_bytes cf nm ty lo =
    (add_member nm ty o1 0 0 0 lo)\<lparr>lo_offset := e, lo_bit_pos := e * 8, lo_max_align := max (lo_max_align lo) a\<rparr>"
    unfolding place_bytes_def Let_def a_def [symmetric] o1_def [symmetric] e_def [symmetric] w by simp
  ultimately show ?thesis
    using assms(2) a o b s by (simp add: layout_inv_def w pow2_max)
qed

lemma cover_bits_inv:
  "0 \<le> lo_bit_pos lo \<Longrightarrow> spans 0 (lo_members lo) (lo_bit_pos lo) \<Longrightarrow> pow2 (lo_max_align lo) \<Longrightarrow> layout_inv (cover_bits lo)"
  by (auto simp: layout_inv_def cover_bits_def sdiv_nonneg)


lemma field_unit: "field_type ty \<Longrightarrow> wrap32 (sizeof ty) = sizeof ty \<and> 0 < sizeof ty \<and> sizeof ty \<le> 16"
  using pow2_align(4) [of "sizeof ty"] by (simp add: field_type_def wrap32_small)

text \<open>How a unit base relates to the bits in front of it.\<close>

lemma unit_base:
  fixes bp unit :: int
  assumes "0 \<le> bp" "0 < unit" "unit \<le> 16" "bp < 2 ^ 30"
  defines "base \<equiv> (bp div (unit * 8)) * unit"
  shows "0 \<le> base" "base * 8 \<le> bp" "bp - base * 8 = bp mod (unit * 8)" "bp < (base + unit) * 8" "base < 2 ^ 27"
proof -
  have m: "bp = (bp div (unit * 8)) * (unit * 8) + bp mod (unit * 8)" by (rule div_mult_mod_eq [symmetric])
  define q where "q = bp mod (unit * 8)"
  have r: "0 \<le> q" "q < unit * 8" using assms(2) by (simp_all add: q_def)
  have e: "base * 8 = (bp div (unit * 8)) * (unit * 8)" by (simp add: base_def)
  show "0 \<le> base" using assms(1,2) by (simp add: base_def pos_imp_zdiv_nonneg_iff)
  have "bp = base * 8 + q" using m e by (simp add: q_def)
  with r have b: "base * 8 \<le> bp" "bp - base * 8 = q" "bp < base * 8 + unit * 8" by linarith+
  then show "base * 8 \<le> bp" "bp - base * 8 = bp mod (unit * 8)" "bp < (base + unit) * 8" by (simp_all add: q_def)
  with assms(4) show "base < 2 ^ 27" by simp
qed

definition small :: "layout \<Rightarrow> bool" where
  "small lo \<longleftrightarrow> lo_offset lo < 2 ^ 27"

lemma cover_bits_offset: "lo_offset lo \<le> lo_offset (cover_bits lo)"
  by (simp add: cover_bits_def)

lemma advance_bits_inv:
  assumes "layout_inv lo" "small lo" "0 \<le> w" "w \<le> 2 ^ 30"
  shows "layout_inv (cover_bits (lo\<lparr>lo_bit_pos := wrap32 (lo_bit_pos lo + w)\<rparr>))"
proof -
  have b: "0 \<le> lo_bit_pos lo" "lo_bit_pos lo < 2 ^ 30" using assms(1,2) by (simp_all add: layout_inv_def small_def)
  then have "wrap32 (lo_bit_pos lo + w) = lo_bit_pos lo + w" using assms(3,4) by (intro wrap32_small) simp_all
  then show ?thesis
    using assms b spans_more [of 0 "lo_members lo" "lo_bit_pos lo" "lo_bit_pos lo + w"]
    by (intro cover_bits_inv) (simp_all add: layout_inv_def)
qed

lemma small_bits: "layout_inv lo \<Longrightarrow> small lo \<Longrightarrow> 0 \<le> lo_bit_pos lo \<and> lo_bit_pos lo < 2 ^ 30"
  by (simp add: layout_inv_def small_def)

lemma inv_later: "layout_inv lo \<Longrightarrow> lo_bit_pos lo \<le> b \<Longrightarrow> b \<le> 8 * o1 \<Longrightarrow> layout_inv (lo\<lparr>lo_offset := o1, lo_bit_pos := b\<rparr>)"
  using spans_more [of 0 "lo_members lo" "lo_bit_pos lo" b] by (auto simp: layout_inv_def)

lemma anon_bitfield_inv:
  assumes cf: "plain_config cf" and inv: "layout_inv lo" and ty: "field_type ty"
    and w: "0 \<le> width" "width \<le> sizeof ty * 8" and r: "anon_bitfield cf ty width lo = Done lo'" and sm: "small lo"
    and sm': "small lo'"
  shows "layout_inv lo'"
proof -
  define unit where "unit = sizeof ty"
  define bp where "bp = lo_bit_pos lo"
  define base where "base = (bp div (unit * 8)) * unit"
  have u: "wrap32 unit = unit" "0 < unit" "unit \<le> 16" using field_unit [OF ty] by (simp_all add: unit_def)
  have bp: "0 \<le> bp" "bp < 2 ^ 30" using small_bits [OF inv sm] by (simp_all add: bp_def)
  note base = unit_base [OF bp(1) u(2,3) bp(2), folded base_def]
  have sd: "bp sdiv (unit * 8) = bp div (unit * 8)" "bp smod (unit * 8) = bp mod (unit * 8)" using bp u by (simp_all add: sdiv_nonneg)
  have w8: "width \<le> 2 ^ 30" using w(2) u(3) by (simp add: unit_def)
  have nf: "\<not> lc_union cf" "\<not> lc_ms cf" using cf by (simp_all add: plain_config_def)
  have wr: "wrap32 ((base + k) * 8) = (base + k) * 8" if "0 \<le> k" "k \<le> unit" for k
    using base(1,5) that u by (intro wrap32_small) simp_all
  consider (zero) "width = 0" | (pack) "width \<noteq> 0" "lc_pack cf > 0" | (fit) "width \<noteq> 0" "\<not> lc_pack cf > 0"
    by blast
  then show ?thesis
  proof cases
    case zero
    define b1 where "b1 = (if bp mod (unit * 8) \<noteq> 0 then base + unit else base)"
    have b1: "bp \<le> b1 * 8" "wrap32 (b1 * 8) = b1 * 8"
      using base(2,3,4) wr [of 0] wr [of unit] u by (auto simp: b1_def)
    have "lo\<lparr>lo_offset := max (lo_offset lo) b1, lo_bit_pos := b1 * 8\<rparr> = lo'"
      using r zero nf u(2) unfolding anon_bitfield_def Let_def unit_def [symmetric] bp_def [symmetric]
        u(1) sd base_def [symmetric] b1_def [symmetric] b1(2) by (simp add: ac_simps)
    then show ?thesis using inv_later [OF inv, of "b1 * 8" "max (lo_offset lo) b1"] b1(1) by (simp add: bp_def)
  next
    case pack
    then show ?thesis
      using r nf advance_bits_inv [OF inv sm w(1) w8] by (simp add: anon_bitfield_def Let_def)
  next
    case fit
    define lo1 where "lo1 = (if bp - base * 8 + width > unit * 8
      then lo\<lparr>lo_offset := max (lo_offset lo) (base + unit), lo_bit_pos := (base + unit) * 8\<rparr> else lo)"
    have "lo' = cover_bits (lo1\<lparr>lo_bit_pos := wrap32 (lo_bit_pos lo1 + width)\<rparr>)"
      using r fit nf u(2) wr [of unit] unfolding anon_bitfield_def Let_def unit_def [symmetric] bp_def [symmetric] u(1) sd base_def [symmetric]
      by (cases "bp - base * 8 + width > unit * 8") (simp_all add: lo1_def)
    moreover have "layout_inv lo1"
      using inv inv_later [OF inv, of "(base + unit) * 8" "max (lo_offset lo) (base + unit)"] base(4)
        max.cobounded2 [of "base + unit" "lo_offset lo"] unfolding lo1_def bp_def [symmetric] by simp
    moreover have "small lo1" using sm' calculation(1) by (simp add: small_def cover_bits_def)
    ultimately show ?thesis using advance_bits_inv [OF _ _ w(1) w8] by simp
  qed
qed

lemma named_bits_inv:
  assumes "layout_inv lo" and "small lo" and "0 \<le> base" "base < 2 ^ 27 + 64" "lo_bit_pos lo \<le> 8 * base + bo" "0 < w" "w \<le> 128" "0 \<le> bo" "bo \<le> 128"
  shows "layout_inv (cover_bits ((add_member nm ty base w bo ls lo)\<lparr>lo_offset := o1, lo_bit_pos := wrap32 (8 * base + bo + w)\<rparr>))"
proof -
  have "wrap32 base = base" "wrap32 (8 * base + bo + w) = 8 * base + bo + w" using assms by (intro wrap32_small; simp)+
  moreover have "spans 0 (lo_members lo @ [Member ty \<lparr>mname = nm, moffset = base, bit_width = w, bit_offset = bo, bf_load_size = ls\<rparr>])
      (8 * base + bo + w)"
    using assms by (intro spans_snoc [of _ _ "lo_bit_pos lo"]) (auto simp: layout_inv_def mstart_def mbits_def)
  ultimately show ?thesis using assms by (intro cover_bits_inv) (simp_all add: layout_inv_def)
qed

lemma inv_max_align: "layout_inv lo \<Longrightarrow> pow2 a \<Longrightarrow> layout_inv (lo\<lparr>lo_max_align := max (lo_max_align lo) a\<rparr>)"
  by (simp add: layout_inv_def pow2_max)

lemma dense_bitfield_inv:
  assumes inv: "layout_inv lo" and ty: "field_type ty" and w: "0 < width" "width \<le> sizeof ty * 8" and sm: "small lo"
  shows "layout_inv (dense_bitfield cf nm ty width lo)"
proof -
  define bp where "bp = lo_bit_pos lo"
  have bp: "0 \<le> bp" "bp < 2 ^ 30" using small_bits [OF inv sm] by (simp_all add: bp_def)
  have u: "sizeof ty \<le> 16" "\<not> alignof ty > sizeof ty" using ty by (simp_all add: field_type_def)
  have e: "8 * (bp div 8) + bp mod 8 = bp" by simp
  have "layout_inv (cover_bits ((add_member nm ty (bp div 8) width (bp mod 8) ls lo)
    \<lparr>lo_offset := lo_offset lo, lo_bit_pos := wrap32 (8 * (bp div 8) + bp mod 8 + width)\<rparr>))" for ls
    using bp w u sm inv by (intro named_bits_inv) (auto simp: bp_def pos_imp_zdiv_nonneg_iff)
  then have *: "layout_inv (cover_bits ((add_member nm ty (bp div 8) width (bp mod 8) ls lo)
    \<lparr>lo_offset := lo_offset lo, lo_bit_pos := wrap32 (bp + width)\<rparr>))" for ls
    unfolding e .
  have "(add_member nm ty (bp div 8) width (bp mod 8) ls lo)\<lparr>lo_bit_pos := b\<rparr> =
    (add_member nm ty (bp div 8) width (bp mod 8) ls lo)\<lparr>lo_offset := lo_offset lo, lo_bit_pos := b\<rparr>" for ls b
    by (simp add: add_member_def)
  note ** = * [folded this]
  show ?thesis
    using ** u(2) unfolding dense_bitfield_def Let_def if_not_P [OF u(2)] bp_def [symmetric]
    by (simp add: sdiv_nonneg bp(1) bp_def [symmetric])
qed

lemma unit_bitfield_inv:
  assumes inv: "layout_inv lo" and ty: "field_type ty" and w: "0 < width" "width \<le> sizeof ty * 8" and sm: "small lo"
    and r: "unit_bitfield nm ty width lo = Done lo'"
  shows "layout_inv lo'"
proof -
  define unit where "unit = sizeof ty"
  define bp where "bp = lo_bit_pos lo"
  define base where "base = (bp div (unit * 8)) * unit"
  define k where "k = (if bp - base * 8 + width > unit * 8 then unit else 0)"
  define bo where "bo = (if bp - base * 8 + width > unit * 8 then 0 else bp - base * 8)"
  have u: "wrap32 unit = unit" "0 < unit" "unit \<le> 16" "\<not> alignof ty > unit" "pow2 (alignof ty)"
    using field_unit [OF ty] ty by (simp_all add: unit_def field_type_def)
  have bp: "0 \<le> bp" "bp < 2 ^ 30" using small_bits [OF inv sm] by (simp_all add: bp_def)
  note base = unit_base [OF bp(1) u(2,3) bp(2), folded base_def]
  have sd: "bp sdiv (unit * 8) = bp div (unit * 8)" using bp u by (simp add: sdiv_nonneg)
  have "layout_inv (cover_bits ((add_member nm ty (base + k) width bo 0 lo)
    \<lparr>lo_offset := max (lo_offset lo) (base + k), lo_bit_pos := wrap32 (8 * (base + k) + bo + width)\<rparr>))"
    using base u w by (intro named_bits_inv inv sm) (auto simp: bp_def k_def bo_def unit_def [symmetric])
  moreover have "lo' = (let lo = cover_bits ((add_member nm ty (base + k) width bo 0 lo)
    \<lparr>lo_offset := max (lo_offset lo) (base + k), lo_bit_pos := wrap32 (8 * (base + k) + bo + width)\<rparr>)
      in lo\<lparr>lo_max_align := max (lo_max_align lo) (alignof ty)\<rparr>)"
    using r u(2,4) unfolding unit_bitfield_def Let_def unit_def [symmetric] bp_def [symmetric] u(1) sd base_def [symmetric]
    by (cases "bp - base * 8 + width > unit * 8") (simp_all add: k_def bo_def algebra_simps)
  ultimately show ?thesis using u(5) by (simp add: Let_def inv_max_align)
qed


text \<open>Offsets only grow.\<close>

lemma place_bytes_mono: "plain_config cf \<Longrightarrow> wf_type ty \<Longrightarrow> lo_offset lo \<le> lo_offset (place_bytes cf nm ty lo)"
  using pow2_align(1) [OF capped_pow2, of cf "alignof ty" "lo_offset lo"]
  by (simp add: place_bytes_def Let_def wf_type_def)

lemma cover_mono: "lo_offset lo \<le> o1 \<Longrightarrow> lo_offset lo \<le> lo_offset (cover_bits (l\<lparr>lo_offset := o1, lo_bit_pos := b\<rparr>))"
  by (simp add: cover_bits_def)

lemma anon_bitfield_mono:
  "\<not> lc_ms cf \<Longrightarrow> anon_bitfield cf ty w lo = Done lo' \<Longrightarrow> lo_offset lo \<le> lo_offset lo'"
  by (auto simp: anon_bitfield_def Let_def cover_bits_def split: if_splits)

lemma named_bitfield_mono:
  assumes "\<not> lc_ms cf" "named_bitfield cf nm ty w lo = Done lo'"
  shows "lo_offset lo \<le> lo_offset lo'"
proof -
  have "lo_offset lo \<le> lo_offset (dense_bitfield cf nm ty w lo)"
    by (auto simp: dense_bitfield_def Let_def cover_bits_def intro: max.coboundedI1)
  moreover have "lo_offset lo \<le> lo_offset l" if "unit_bitfield nm ty w lo = Done l" for l
    using that by (auto simp: unit_bitfield_def Let_def cover_bits_def split: if_splits prod.splits)
  ultimately show ?thesis using assms by (auto simp: named_bitfield_def Let_def split: if_splits)
qed

lemma lay_decl_mono:
  assumes "plain_config cf" "wf_decl d" "lay_decl cf d lo = Done (Inr lo')"
  shows "lo_offset lo \<le> lo_offset lo'"
proof -
  have nf: "\<not> lc_union cf" "\<not> lc_ms cf" using assms(1) by (simp_all add: plain_config_def)
  have agg: "wf_type ty \<Longrightarrow> lo_offset lo \<le> lo_offset (anon_aggregate cf ty lo)" for ty
    using place_bytes_mono [OF assms(1)] nf by (simp add: anon_aggregate_def)
  have plain: "wf_type ty \<Longrightarrow> lo_offset lo \<le> lo_offset (plain_member cf nm ty lo)" for nm ty
    using place_bytes_mono [OF assms(1)] nf by (simp add: plain_member_def Let_def)
  have decl: "wf_type ty \<Longrightarrow> lay_declarator cf nm ty w lo = Done l \<Longrightarrow> lo_offset lo \<le> lo_offset l" for nm ty w l
    using agg plain anon_bitfield_mono [OF nf(2)] named_bitfield_mono [OF nf(2)]
    by (auto simp: lay_declarator_def split: if_splits)
  show ?thesis
    using assms(2,3) agg decl by (cases d) (auto simp: ok_def fatal_def split: if_splits option.splits)
qed

lemma lay_decl_inv:
  assumes cf: "plain_config cf" and d: "wf_decl d" and r: "lay_decl cf d lo = Done (Inr lo')" and sm: "small lo'" and inv: "layout_inv lo"
  shows "layout_inv lo'"
proof -
  have nf: "\<not> lc_union cf" "\<not> lc_ms cf" using cf by (simp_all add: plain_config_def)
  have sm0: "small lo" using lay_decl_mono [OF cf d r] sm by (simp add: small_def)
  have agg: "layout_inv (anon_aggregate cf ty lo)" if "wf_type ty" "small (anon_aggregate cf ty lo)" for ty
    using place_bytes_inv [OF cf inv that(1)] that(2) nf by (simp add: anon_aggregate_def small_def)
  have plain: "layout_inv (plain_member cf nm ty lo)" if "wf_type ty" "small (plain_member cf nm ty lo)" for nm ty
    using place_bytes_inv [OF cf inv that(1), of nm] that(2) nf
    by (simp add: plain_member_def small_def layout_inv_def Let_def split: if_splits)
  have named: "layout_inv l" if "field_type ty" "0 < w" "w \<le> sizeof ty * 8" "named_bitfield cf nm ty w lo = Done l" for nm ty w l
    using that nf dense_bitfield_inv [OF inv that(1-3) sm0] unit_bitfield_inv [OF inv that(1-3) sm0]
      field_unit [OF that(1)]
    by (auto simp: named_bitfield_def Let_def field_type_def intro!: inv_max_align split: if_splits)
  have decl: "layout_inv l"
    if "wf_type ty" "nm = None \<and> \<not> is_aggregate ty \<or> w \<noteq> 0 \<Longrightarrow> field_type ty" "0 \<le> w" "w \<le> sizeof ty * 8"
      "lay_declarator cf nm ty w lo = Done l" "small l" for nm ty w l
    using that agg plain named anon_bitfield_inv [OF cf inv _ that(3,4) _ sm0]
    by (auto simp: lay_declarator_def split: if_splits)
  show ?thesis
  proof (cases d)
    case (TypeOnly ty)
    with d r sm inv agg show ?thesis by (auto simp: ok_def split: if_splits)
  next
    case (Declarator nm ty colon)
    show ?thesis
    proof (cases colon)
      case None
      with Declarator d r sm show ?thesis by (intro decl [of ty nm 0]) (auto simp: ok_def wf_type_def)
    next
      case (Some w)
      with Declarator d r sm show ?thesis
        by (intro decl [of ty nm "wrap32 w"]) (auto simp: ok_def fatal_def split: if_splits)
    qed
  qed
qed

lemma lay_decls_mono:
  "plain_config cf \<Longrightarrow> list_all wf_decl ds \<Longrightarrow> lay_decls cf ds lo = Done (Inr lo') \<Longrightarrow> lo_offset lo \<le> lo_offset lo'"
proof (induction ds arbitrary: lo)
  case (Cons d ds)
  then obtain l1 where "lay_decl cf d lo = Done (Inr l1)" "lay_decls cf ds l1 = Done (Inr lo')" by auto
  with Cons lay_decl_mono [of cf d lo l1] show ?case by force
qed (simp add: ok_def)

lemma lay_decls_keep:
  assumes "list_all wf_decl ds" and "lay_decls cf ds lo = Done (Inr lo')" and "P lo"
    and step: "\<And>d l l'. wf_decl d \<Longrightarrow> lay_decl cf d l = Done (Inr l') \<Longrightarrow> P l \<Longrightarrow> P l'"
  shows "P lo'"
  using assms(1-3)
proof (induction ds arbitrary: lo)
  case (Cons d ds)
  then obtain l1 where "lay_decl cf d lo = Done (Inr l1)" "lay_decls cf ds l1 = Done (Inr lo')" by auto
  with Cons step [of d lo l1] show ?case by simp
qed (simp add: ok_def)

lemma lay_decls_induct:
  assumes "plain_config cf" and "list_all wf_decl ds" and "lay_decls cf ds lo = Done (Inr lo')" and "small lo'" and "P lo"
    and step: "\<And>d l l'. wf_decl d \<Longrightarrow> lay_decl cf d l = Done (Inr l') \<Longrightarrow> small l' \<Longrightarrow> P l \<Longrightarrow> P l'"
  shows "P lo'"
proof -
  have "small lo' \<longrightarrow> small lo' \<and> P lo'"
  proof (rule mp)
    show "small lo'" by (rule assms(4))
    have "small lo' \<longrightarrow> P lo'"
    proof (rule lay_decls_keep [OF assms(2,3), where P = "\<lambda>l. small l \<longrightarrow> P l"])
      fix d l l'
      assume "wf_decl d" "lay_decl cf d l = Done (Inr l')" "small l \<longrightarrow> P l"
      with lay_decl_mono [OF assms(1)] step show "small l' \<longrightarrow> P l'" by (force simp: small_def)
    qed (use assms(5) in simp)
    then show "small lo' \<longrightarrow> small lo' \<longrightarrow> small lo' \<and> P lo'" by simp
  qed
  with assms(4) show ?thesis by simp
qed

lemma lay_decl_max_align:
  assumes cf: "plain_config cf" and "wf_decl d" and "lay_decl cf d lo = Done (Inr lo')" and inv: "pow2 (lo_max_align lo)"
  shows "pow2 (lo_max_align lo')"
proof -
  have nf: "\<not> lc_union cf" "\<not> lc_ms cf" using cf by (simp_all add: plain_config_def)
  have pb: "wf_type ty \<Longrightarrow> pow2 (lo_max_align (place_bytes cf nm ty lo))" for nm ty
    using inv capped_pow2 [OF cf] by (simp add: place_bytes_def Let_def pow2_max wf_type_def)
  have anon: "anon_bitfield cf ty w lo = Done l \<Longrightarrow> lo_max_align l = lo_max_align lo" for ty w l
    using nf by (auto simp: anon_bitfield_def Let_def cover_bits_def split: if_splits)
  have dense: "lo_max_align (dense_bitfield cf nm ty w lo) = lo_max_align lo" for nm ty w
    by (simp add: dense_bitfield_def Let_def cover_bits_def)
  have unit: "unit_bitfield nm ty w lo = Done l \<Longrightarrow> pow2 (alignof ty) \<Longrightarrow> pow2 (lo_max_align l)" for nm ty w l
    using inv by (auto simp: unit_bitfield_def Let_def cover_bits_def pow2_max split: if_splits prod.splits)
  have named: "pow2 (lo_max_align l)" if "field_type ty" "named_bitfield cf nm ty w lo = Done l" for nm ty w l
    using that nf inv dense unit field_unit [OF that(1)]
    by (auto simp: named_bitfield_def Let_def field_type_def pow2_max split: if_splits)
  have decl: "pow2 (lo_max_align l)"
    if "wf_type ty" "nm = None \<and> \<not> is_aggregate ty \<or> w \<noteq> 0 \<Longrightarrow> field_type ty" "lay_declarator cf nm ty w lo = Done l" for nm ty w l
    using that pb anon named inv nf
    by (auto simp: lay_declarator_def anon_aggregate_def plain_member_def Let_def split: if_splits)
  show ?thesis
  proof (cases d)
    case (TypeOnly ty)
    with assms(2,3) nf pb inv show ?thesis by (auto simp: ok_def anon_aggregate_def split: if_splits)
  next
    case (Declarator nm ty colon)
    show ?thesis
    proof (cases colon)
      case None
      with Declarator assms(2,3) show ?thesis by (intro decl [of ty nm 0]) (auto simp: ok_def)
    next
      case (Some w)
      with Declarator assms(2,3) show ?thesis
        by (intro decl [of ty nm "wrap32 w"]) (auto simp: ok_def fatal_def split: if_splits)
    qed
  qed
qed

lemma layout_start_inv: "layout_inv (layout_start pa)"
  by (simp add: layout_inv_def layout_start_def)

lemma final_align_pow2:
  assumes "plain_config cf" "pow2 m" "a = 0 \<or> pow2 a"
  shows "pow2 (final_align cf a m)"
  using assms pack_pow2 [OF assms(1)] pow2_align(4) [of m]
  by (auto simp: final_align_def Let_def)

text \<open>What the layout of a struct ends with.\<close>

lemma lay_struct_result:
  assumes cf: "plain_config cf" and ds: "list_all wf_decl ds" and at: "attr = 0 \<or> pow2 attr"
    and r: "lay_struct cf attr ty ds = Done (Inr t)" and sz: "sizeof t < 2 ^ 27"
  obtains lo where "lay_decls cf ds (layout_start (pack_align_of (tinfo ty))) = Done (Inr lo)" "tmembers t = lo_members lo"
    "alignof t = final_align cf attr (lo_max_align lo)" "pow2 (alignof t)" "sizeof t = align_to (lo_offset lo) (alignof t)"
    "small lo" "layout_inv lo"
proof -
  let ?start = "layout_start (pack_align_of (tinfo ty))"
  obtain lo where lo: "lay_decls cf ds ?start = Done (Inr lo)" "tmembers t = lo_members lo"
    "alignof t = final_align cf attr (lo_max_align lo)" "sizeof t = align_to (lo_offset lo) (alignof t)"
    using r cf by (auto simp: lay_struct_def Let_def ok_def plain_config_def)
  have "pow2 (lo_max_align lo)"
    by (rule lay_decls_keep [OF ds lo(1)]) (auto simp: layout_start_def intro: lay_decl_max_align [OF cf])
  then have p: "pow2 (alignof t)" unfolding lo(3) by (rule final_align_pow2 [OF cf _ at])
  then have sm: "small lo" using pow2_align(1) [OF p, of "lo_offset lo"] lo(4) sz by (simp add: small_def)
  have "layout_inv lo"
    by (rule lay_decls_induct [OF cf ds lo(1) sm, where P = layout_inv, OF layout_start_inv]) (rule lay_decl_inv [OF cf])
  with lo p sm that show thesis by blast
qed

text \<open>
  C14. Members do not overlap: in a struct of less than 2 ^ 27 bytes the compiler lays out by the GCC rule or under
  \<open>#pragma pack\<close> (1, 2, 4, 8), bit-fields and unnamed ones included, each member's bits start behind those of the member
  before, and all lie within the size of the struct, provided that the types of bit-fields are not aligned beyond their size
  and have at most 16 bytes. Without this condition they can overlap (\<open>layouts_gone_wrong\<close>).
\<close>

theorem members_disjoint:
  assumes "plain_config cf" and "list_all wf_decl ds" and "attr = 0 \<or> pow2 attr"
    and "lay_struct cf attr ty ds = Done (Inr t)" and "sizeof t < 2 ^ 27"
  shows "sorted_wrt (\<lambda>m n. mstart m + mbits m \<le> mstart n) (tmembers t) \<and>
    (\<forall>m \<in> set (tmembers t). 0 \<le> mstart m \<and> mstart m + mbits m \<le> 8 * sizeof t)"
proof -
  obtain lo where lo: "tmembers t = lo_members lo" "pow2 (alignof t)" "sizeof t = align_to (lo_offset lo) (alignof t)" "layout_inv lo"
    by (rule lay_struct_result [OF assms])
  have "spans 0 (lo_members lo) (8 * sizeof t)"
    using lo(4) pow2_align(1) [OF lo(2), of "lo_offset lo"] lo(3)
    by (auto simp: layout_inv_def intro: spans_more)
  from spans_order [OF this] show ?thesis by (simp add: lo(1))
qed

definition example_fields :: "member_decl list" where
  "example_fields = [Declarator (Some ''c'') ty_char None, Declarator (Some ''x'') ty_int (Some 5), Declarator None ty_int (Some 0),
     Declarator (Some ''y'') ty_uint (Some 30), Declarator (Some ''d'') ty_double None]"

definition gcc_rule :: layout_config where
  "gcc_rule = layout_config_of False 0 False BF_MODE_GCC False"

lemma wf_static: "wf_type ty_char" "wf_type ty_int" "wf_type ty_uint" "wf_type ty_double" "field_type ty_int" "field_type ty_uint"
proof -
  have "pow2 4" "pow2 8" unfolding pow2_def by (rule exI [of _ 2], simp) (rule exI [of _ 3], simp)
  then show "wf_type ty_char" "wf_type ty_int" "wf_type ty_uint" "wf_type ty_double" "field_type ty_int" "field_type ty_uint"
    by (simp_all add: wf_type_def field_type_def static_types)
qed

lemma example_layout:
  "case lay_struct gcc_rule 0 (new_aggregate False) example_fields of
     Done (Inr t) \<Rightarrow> sizeof t = 16 \<and> alignof t = 8 \<and> map mstart (tmembers t) = [0, 8, 32, 64] | _ \<Rightarrow> False"
  by code_simp

lemma example_obtain:
  obtains t where "lay_struct gcc_rule 0 (new_aggregate False) example_fields = Done (Inr t)" "sizeof t = 16"
  using example_layout by (auto split: res.splits sum.splits)

lemma example_config: "plain_config gcc_rule" "list_all wf_decl example_fields"
  by (simp_all add: plain_config_def gcc_rule_def layout_config_of_def example_fields_def wf_static)

theorem members_disjoint_witness:
  "\<exists>t. lay_struct gcc_rule 0 (new_aggregate False) example_fields = Done (Inr t) \<and>
     sorted_wrt (\<lambda>m n. mstart m + mbits m \<le> mstart n) (tmembers t) \<and>
     (\<forall>m \<in> set (tmembers t). 0 \<le> mstart m \<and> mstart m + mbits m \<le> 8 * sizeof t)"
proof -
  obtain t where t: "lay_struct gcc_rule 0 (new_aggregate False) example_fields = Done (Inr t)" "sizeof t = 16"
    by (rule example_obtain)
  from members_disjoint [OF example_config disjI1 t(1)] t show ?thesis by simp
qed

section \<open>Alignment and storage units\<close>

definition member_ok :: "layout_config \<Rightarrow> layout \<Rightarrow> member \<Rightarrow> bool" where
  "member_ok cf lo m \<longleftrightarrow>
     (if bit_width (minfo m) = 0 then
        pow2 (capped_align cf (alignof (mty m))) \<and> capped_align cf (alignof (mty m)) dvd moffset (minfo m)
        \<and> capped_align cf (alignof (mty m)) \<le> lo_max_align lo
      else lc_pack cf = 0 \<longrightarrow>
        pow2 (sizeof (mty m)) \<and> sizeof (mty m) dvd moffset (minfo m) \<and> 0 \<le> bit_offset (minfo m)
        \<and> bit_offset (minfo m) + bit_width (minfo m) \<le> 8 * sizeof (mty m)
        \<and> sizeof (mty m) \<le> lo_max_align lo \<and> moffset (minfo m) < lo_offset lo)"

lemma member_ok_later:
  "member_ok cf lo m \<Longrightarrow> lo_max_align lo \<le> lo_max_align lo' \<Longrightarrow> lo_offset lo \<le> lo_offset lo' \<Longrightarrow> member_ok cf lo' m"
  by (auto simp: member_ok_def)

text \<open>A step that at most adds one member, and that one is well placed.\<close>

definition adds_ok :: "layout_config \<Rightarrow> layout \<Rightarrow> layout \<Rightarrow> bool" where
  "adds_ok cf lo lo' \<longleftrightarrow> lo_max_align lo \<le> lo_max_align lo' \<and>
     (lo_members lo' = lo_members lo \<or> (\<exists>m. lo_members lo' = lo_members lo @ [m] \<and> member_ok cf lo' m))"

lemma place_bytes_ok:
  assumes "plain_config cf" "layout_inv lo" "wf_type ty" "small (place_bytes cf nm ty lo)"
  shows "adds_ok cf lo (place_bytes cf nm ty lo)"
proof -
  let ?a = "capped_align cf (alignof ty)"
  have a: "pow2 ?a" using assms(1,3) by (simp add: capped_pow2 wf_type_def)
  have b: "0 \<le> lo_offset lo" using assms(2) by (simp add: layout_inv_def)
  have "align_to (lo_offset lo) ?a < 2 ^ 27" using assms(3,4) by (simp add: wf_type_def small_def place_bytes_def Let_def)
  with b pow2_align(1) [OF a, of "lo_offset lo"] have w: "wrap32 (align_to (lo_offset lo) ?a) = align_to (lo_offset lo) ?a"
    by (intro wrap32_small) auto
  show ?thesis
    using a pow2_align(2) [OF a, of "lo_offset lo"] by (simp add: adds_ok_def place_bytes_def Let_def member_ok_def w)
qed

lemma anon_bitfield_ok:
  "\<not> lc_union cf \<Longrightarrow> \<not> lc_ms cf \<Longrightarrow> anon_bitfield cf ty w lo = Done lo' \<Longrightarrow> adds_ok cf lo lo'"
  by (auto simp: adds_ok_def anon_bitfield_def Let_def cover_bits_def split: if_splits)

lemma dense_bitfield_ok:
  assumes "0 < lc_pack cf" "0 < w"
  shows "adds_ok cf lo (dense_bitfield cf nm ty w lo)"
  using assms by (simp add: adds_ok_def dense_bitfield_def Let_def cover_bits_def member_ok_def)

lemma unit_bitfield_ok:
  assumes inv: "layout_inv lo" and ty: "field_type ty" and w: "0 < width" "width \<le> sizeof ty * 8" and sm: "small lo"
    and r: "unit_bitfield nm ty width lo = Done lo'"
  shows "adds_ok cf lo (lo'\<lparr>lo_max_align := max (lo_max_align lo') (sizeof ty)\<rparr>)"
proof -
  define unit where "unit = sizeof ty"
  define bp where "bp = lo_bit_pos lo"
  define base where "base = (bp div (unit * 8)) * unit"
  define k where "k = (if bp - base * 8 + width > unit * 8 then unit else 0)"
  define bo where "bo = (if bp - base * 8 + width > unit * 8 then 0 else bp - base * 8)"
  have u: "wrap32 unit = unit" "0 < unit" "unit \<le> 16" "\<not> alignof ty > unit" "pow2 unit"
    using field_unit [OF ty] ty by (simp_all add: unit_def field_type_def)
  have bp: "0 \<le> bp" "bp < 2 ^ 30" using small_bits [OF inv sm] by (simp_all add: bp_def)
  note base = unit_base [OF bp(1) u(2,3) bp(2), folded base_def]
  have sd: "bp sdiv (unit * 8) = bp div (unit * 8)" using bp u by (simp add: sdiv_nonneg)
  have n: "wrap32 (base + k) = base + k" "wrap32 (8 * (base + k) + bo + width) = 8 * (base + k) + bo + width"
    using base u w by (intro wrap32_small; simp add: k_def bo_def unit_def [symmetric])+
  have pos: "0 \<le> 8 * (base + k) + bo + width + 7" using base(1) u w by (simp add: k_def bo_def base(2))
  have "0 \<le> bo" using base(2) by (simp add: bo_def)
  then have "8 * (base + k + 1) div 8 \<le> (8 * (base + k) + bo + width + 7) div 8"
    using w(1) by (intro zdiv_mono1) simp_all
  then have "base + k < (8 * (base + k) + bo + width + 7) div 8" by simp
  moreover have "unit dvd base + k" by (simp add: base_def k_def)
  moreover have "0 \<le> bo" "bo + width \<le> 8 * unit" using base(2) w(2) by (auto simp: bo_def unit_def)
  ultimately have m: "member_ok cf (lo\<lparr>lo_offset := max o1 ((8 * (base + k) + bo + width + 7) sdiv 8), lo_max_align := max x unit\<rparr>)
      (Member ty \<lparr>mname = nm, moffset = base + k, bit_width = width, bit_offset = bo, bf_load_size = 0\<rparr>)" for o1 x
    using w(1) u(5) pos by (auto simp: member_ok_def unit_def sdiv_nonneg less_max_iff_disj)
  have "lo' = (let lo = cover_bits ((add_member nm ty (base + k) width bo 0 lo)
    \<lparr>lo_offset := max (lo_offset lo) (base + k), lo_bit_pos := wrap32 (8 * (base + k) + bo + width)\<rparr>)
      in lo\<lparr>lo_max_align := max (lo_max_align lo) (alignof ty)\<rparr>)"
    using r u(2,4) unfolding unit_bitfield_def Let_def unit_def [symmetric] bp_def [symmetric] u(1) sd base_def [symmetric]
    by (cases "bp - base * 8 + width > unit * 8") (simp_all add: k_def bo_def algebra_simps)
  with m [where ?o1.0 = "max (lo_offset lo) (base + k)" and x = "max (lo_max_align lo) (alignof ty)"] show ?thesis
    using w(1) unfolding n by (simp add: adds_ok_def Let_def cover_bits_def unit_def member_ok_def n(1) le_max_iff_disj)
qed


lemma lay_decl_ok:
  assumes cf: "plain_config cf" and d: "wf_decl d" and r: "lay_decl cf d lo = Done (Inr lo')" and sm: "small lo'" and inv: "layout_inv lo"
  shows "adds_ok cf lo lo'"
proof -
  have nf: "\<not> lc_union cf" "\<not> lc_ms cf" "0 \<le> lc_pack cf" using cf by (auto simp: plain_config_def)
  have sm0: "small lo" using lay_decl_mono [OF cf d r] sm by (simp add: small_def)
  have same: "adds_ok cf lo lo" by (simp add: adds_ok_def)
  have agg: "adds_ok cf lo (anon_aggregate cf ty lo)" if "wf_type ty" "small (anon_aggregate cf ty lo)" for ty
    using place_bytes_ok [OF cf inv that(1)] that(2) nf by (simp add: anon_aggregate_def)
  have plain: "adds_ok cf lo (plain_member cf nm ty lo)" if "wf_type ty" "small (plain_member cf nm ty lo)" for nm ty
    using place_bytes_ok [OF cf inv that(1), of nm] that(2) nf
    by (auto simp: plain_member_def small_def adds_ok_def member_ok_def Let_def split: if_splits)
  have named: "adds_ok cf lo l" if f: "field_type ty" and w: "0 < w" "w \<le> sizeof ty * 8" and n: "named_bitfield cf nm ty w lo = Done l" for nm ty w l
  proof (cases "lc_pack cf = 0")
    case True
    with n nf field_unit [OF f] obtain l0 where "unit_bitfield nm ty w lo = Done l0" "l = l0\<lparr>lo_max_align := max (lo_max_align l0) (sizeof ty)\<rparr>"
      by (auto simp: named_bitfield_def Let_def)
    with unit_bitfield_ok [OF inv f w sm0, of nm l0] show ?thesis by simp
  next
    case False
    with nf have p: "0 < lc_pack cf" by simp
    with n nf field_unit [OF f] have "l = (dense_bitfield cf nm ty w lo)\<lparr>lo_max_align := max (lo_max_align (dense_bitfield cf nm ty w lo)) (sizeof ty)\<rparr>"
      by (auto simp: named_bitfield_def Let_def)
    with dense_bitfield_ok [OF p w(1), of lo nm ty] p w(1) show ?thesis
      by (auto simp: adds_ok_def member_ok_def dense_bitfield_def cover_bits_def Let_def)
  qed
  have decl: "adds_ok cf lo l"
    if "wf_type ty" "nm = None \<and> \<not> is_aggregate ty \<or> w \<noteq> 0 \<Longrightarrow> field_type ty" "0 \<le> w" "w \<le> sizeof ty * 8"
      "lay_declarator cf nm ty w lo = Done l" "small l" for nm ty w l
    using that agg plain named anon_bitfield_ok [OF nf(1,2)]
    by (auto simp: lay_declarator_def split: if_splits)
  show ?thesis
  proof (cases d)
    case (TypeOnly ty)
    with d r sm same agg show ?thesis by (auto simp: ok_def split: if_splits)
  next
    case (Declarator nm ty colon)
    show ?thesis
    proof (cases colon)
      case None
      with Declarator d r sm show ?thesis by (intro decl [of ty nm 0]) (auto simp: ok_def wf_type_def)
    next
      case (Some w)
      with Declarator d r sm show ?thesis
        by (intro decl [of ty nm "wrap32 w"]) (auto simp: ok_def fatal_def split: if_splits)
    qed
  qed
qed

lemma lay_struct_members_ok:
  assumes cf: "plain_config cf" and ds: "list_all wf_decl ds" and at: "attr = 0 \<or> pow2 attr"
    and r: "lay_struct cf attr ty ds = Done (Inr t)" and sz: "sizeof t < 2 ^ 27"
  obtains lo where "tmembers t = lo_members lo" "list_all (member_ok cf lo) (lo_members lo)"
    "alignof t = final_align cf attr (lo_max_align lo)" "pow2 (alignof t)" "sizeof t = align_to (lo_offset lo) (alignof t)" "pow2 (lo_max_align lo)"
proof -
  obtain lo where lo: "lay_decls cf ds (layout_start (pack_align_of (tinfo ty))) = Done (Inr lo)" "tmembers t = lo_members lo"
    "alignof t = final_align cf attr (lo_max_align lo)" "pow2 (alignof t)" "sizeof t = align_to (lo_offset lo) (alignof t)"
    "small lo" "layout_inv lo"
    by (rule lay_struct_result [OF assms])
  have "layout_inv lo \<and> list_all (member_ok cf lo) (lo_members lo)"
  proof (rule lay_decls_induct [OF cf ds lo(1,6), where P = "\<lambda>l. layout_inv l \<and> list_all (member_ok cf l) (lo_members l)"])
    show "layout_inv (layout_start (pack_align_of (tinfo ty))) \<and>
      list_all (member_ok cf (layout_start (pack_align_of (tinfo ty)))) (lo_members (layout_start (pack_align_of (tinfo ty))))"
      using layout_start_inv by (simp add: layout_start_def)
    fix d l l'
    assume s: "wf_decl d" "lay_decl cf d l = Done (Inr l')" "small l'" "layout_inv l \<and> list_all (member_ok cf l) (lo_members l)"
    have a: "adds_ok cf l l'" using s by (intro lay_decl_ok [OF cf]) auto
    then have "list_all (member_ok cf l') (lo_members l)"
      using s(4) member_ok_later [of cf l _ l'] lay_decl_mono [OF cf s(1,2)]
      by (auto simp: adds_ok_def list_all_iff)
    with a lay_decl_inv [OF cf s(1,2,3)] s(4) show "layout_inv l' \<and> list_all (member_ok cf l') (lo_members l')"
      by (auto simp: adds_ok_def)
  qed
  with lo that show thesis by (simp add: layout_inv_def)
qed

text \<open>
  C15. Members are aligned: each one that is no bit-field is at a multiple of its alignment, or of the packing if that is less;
  this alignment divides the alignment of the struct, and that the size, so the members of every element of an array of
  such structs are aligned as well.
\<close>

theorem members_aligned:
  assumes "plain_config cf" and "list_all wf_decl ds" and "attr = 0 \<or> pow2 attr"
    and "lay_struct cf attr ty ds = Done (Inr t)" and "sizeof t < 2 ^ 27"
  shows "alignof t dvd sizeof t \<and> (\<forall>m \<in> set (tmembers t). bit_width (minfo m) = 0 \<longrightarrow>
    capped_align cf (alignof (mty m)) dvd moffset (minfo m) \<and> capped_align cf (alignof (mty m)) dvd alignof t)"
proof -
  obtain lo where lo: "tmembers t = lo_members lo" "list_all (member_ok cf lo) (lo_members lo)"
    "alignof t = final_align cf attr (lo_max_align lo)" "pow2 (alignof t)" "sizeof t = align_to (lo_offset lo) (alignof t)" "pow2 (lo_max_align lo)"
    by (rule lay_struct_members_ok [OF assms])
  have "alignof t dvd sizeof t" unfolding lo(5) by (rule pow2_align(2) [OF lo(4)])
  moreover have "capped_align cf a \<le> alignof t" if "capped_align cf a \<le> lo_max_align lo" for a
    using that unfolding lo(3) by (auto simp: final_align_def capped_align_def Let_def split: if_splits)
  ultimately show ?thesis
    using lo(1,2) pow2_dvd [OF _ lo(4)] by (auto simp: list_all_iff member_ok_def)
qed

theorem members_aligned_witness:
  "\<exists>t. lay_struct gcc_rule 0 (new_aggregate False) example_fields = Done (Inr t) \<and> alignof t dvd sizeof t \<and>
    (\<forall>m \<in> set (tmembers t). bit_width (minfo m) = 0 \<longrightarrow>
      capped_align gcc_rule (alignof (mty m)) dvd moffset (minfo m) \<and> capped_align gcc_rule (alignof (mty m)) dvd alignof t)"
proof -
  obtain t where t: "lay_struct gcc_rule 0 (new_aggregate False) example_fields = Done (Inr t)" "sizeof t = 16"
    by (rule example_obtain)
  from members_aligned [OF example_config disjI1 t(1)] t show ?thesis by simp
qed

text \<open>
  C23. By the GCC rule and without packing the code may read and write a bit-field as a whole unit of its declared type: in a
  struct of less than 2 ^ 27 bytes whose bit-field types are not aligned beyond their size, every bit-field lies in one unit,
  aligned to its size, and the unit is inside of the struct. By the Microsoft rule this is not so (\<open>ms_unit_misplaced\<close>).
\<close>

theorem bitfield_units_inside:
  assumes "plain_config cf" and "lc_pack cf = 0" and "list_all wf_decl ds" and "attr = 0 \<or> pow2 attr"
    and "lay_struct cf attr ty ds = Done (Inr t)" and "sizeof t < 2 ^ 27"
    and "m \<in> set (tmembers t)" and "bit_width (minfo m) \<noteq> 0"
  shows "sizeof (mty m) dvd moffset (minfo m) \<and> 0 \<le> bit_offset (minfo m) \<and>
    bit_offset (minfo m) + bit_width (minfo m) \<le> 8 * sizeof (mty m) \<and> moffset (minfo m) + sizeof (mty m) \<le> sizeof t"
proof -
  obtain lo where lo: "tmembers t = lo_members lo" "list_all (member_ok cf lo) (lo_members lo)"
    "alignof t = final_align cf attr (lo_max_align lo)" "pow2 (alignof t)" "sizeof t = align_to (lo_offset lo) (alignof t)" "pow2 (lo_max_align lo)"
    by (rule lay_struct_members_ok [OF assms(1,3-6)])
  define u where "u = sizeof (mty m)"
  define a where "a = moffset (minfo m)"
  have m: "pow2 u" "u dvd a" "u \<le> lo_max_align lo" "a < lo_offset lo"
    using lo(1,2) assms(2,7,8) by (auto simp: list_all_iff member_ok_def u_def a_def)
  have "u \<le> alignof t" using m(3) assms(2) unfolding lo(3) by (simp add: final_align_def Let_def)
  then have "u dvd alignof t" by (rule pow2_dvd [OF m(1) lo(4)])
  then have "u dvd sizeof t" unfolding lo(5) using pow2_align(2) [OF lo(4)] by (rule dvd_trans)
  then have "u dvd sizeof t - a" using m(2) by (rule dvd_diff)
  moreover have "0 < sizeof t - a" using m(4) pow2_align(1) [OF lo(4), of "lo_offset lo"] lo(5) by simp
  ultimately have "u \<le> sizeof t - a" by (rule zdvd_imp_le)
  then show ?thesis
    using lo(1,2) assms(2,7,8) by (auto simp: list_all_iff member_ok_def u_def a_def)
qed

theorem bitfield_units_inside_witness:
  "\<exists>t m. lay_struct gcc_rule 0 (new_aggregate False) example_fields = Done (Inr t) \<and> m \<in> set (tmembers t) \<and> bit_width (minfo m) \<noteq> 0 \<and>
    moffset (minfo m) + sizeof (mty m) \<le> sizeof t"
proof -
  have "case lay_struct gcc_rule 0 (new_aggregate False) example_fields of
      Done (Inr t) \<Rightarrow> sizeof t = 16 \<and> bit_width (minfo (tmembers t ! 1)) = 5 \<and> length (tmembers t) = 4 | _ \<Rightarrow> False"
    by code_simp
  then obtain t where t: "lay_struct gcc_rule 0 (new_aggregate False) example_fields = Done (Inr t)" "sizeof t = 16"
    "bit_width (minfo (tmembers t ! 1)) = 5" "length (tmembers t) = 4"
    by (auto split: res.splits sum.splits)
  have "tmembers t ! 1 \<in> set (tmembers t)" using t(4) by (intro nth_mem) simp
  moreover have "lc_pack gcc_rule = 0" by code_simp
  ultimately show ?thesis
    using bitfield_units_inside [OF example_config(1) _ example_config(2) disjI1 t(1), of "tmembers t ! 1"] t
    by (intro exI [of _ t] exI [of _ "tmembers t ! 1"]) simp
qed

section \<open>Unions\<close>

definition union_inv :: "layout \<Rightarrow> bool" where
  "union_inv lo \<longleftrightarrow> pow2 (lo_max_align lo) \<and>
     list_all (\<lambda>m. moffset (minfo m) = 0 \<and> bit_offset (minfo m) = 0 \<and> sizeof (mty m) \<le> lo_max_size lo) (lo_members lo)"

lemma wrap32_0 [simp]: "wrap32 0 = 0"
  by (simp add: wrap32_def)

lemma union_inv_add:
  "union_inv lo \<Longrightarrow> pow2 a \<Longrightarrow> lo_max_size lo \<le> s \<Longrightarrow> sizeof ty \<le> s \<Longrightarrow>
   union_inv (lo\<lparr>lo_members := lo_members lo @ [Member ty \<lparr>mname = nm, moffset = 0, bit_width = w, bit_offset = 0, bf_load_size = 0\<rparr>],
     lo_max_size := s, lo_max_align := a\<rparr>)"
  by (auto simp: union_inv_def list_all_iff)

lemma lay_decl_union:
  assumes u: "lc_union cf" and "wf_decl d" and "lay_decl cf d lo = Done (Inr lo')" and inv: "union_inv lo"
  shows "union_inv lo'"
proof -
  have ms: "pow2 a \<Longrightarrow> pow2 (max (lo_max_align lo) a)" for a using inv by (simp add: union_inv_def pow2_max)
  have agg: "union_inv (anon_aggregate cf ty lo)" for ty
    using inv u by (auto simp: anon_aggregate_def add_member_def union_inv_def list_all_iff le_max_iff_disj)
  have plain: "wf_type ty \<Longrightarrow> union_inv (plain_member cf nm ty lo)" for nm ty
    using inv u ms by (auto simp: plain_member_def add_member_def union_inv_def list_all_iff le_max_iff_disj Let_def wf_type_def)
  have named: "field_type ty \<Longrightarrow> named_bitfield cf nm ty w lo = Done l \<Longrightarrow> union_inv l" for nm ty w l
    using inv u ms field_unit [of ty]
    by (auto simp: named_bitfield_def add_member_def union_inv_def list_all_iff le_max_iff_disj Let_def field_type_def)
  have decl: "union_inv l"
    if "wf_type ty" "nm = None \<and> \<not> is_aggregate ty \<or> w \<noteq> 0 \<Longrightarrow> field_type ty" "lay_declarator cf nm ty w lo = Done l" for nm ty w l
    using that agg plain named inv u
    by (auto simp: lay_declarator_def anon_bitfield_def Let_def split: if_splits)
  show ?thesis
  proof (cases d)
    case (TypeOnly ty)
    with assms(3) inv agg show ?thesis by (auto simp: ok_def split: if_splits)
  next
    case (Declarator nm ty colon)
    show ?thesis
    proof (cases colon)
      case None
      with Declarator assms(2,3) show ?thesis by (intro decl [of ty nm 0]) (auto simp: ok_def)
    next
      case (Some w)
      with Declarator assms(2,3) show ?thesis
        by (intro decl [of ty nm "wrap32 w"]) (auto simp: ok_def fatal_def split: if_splits)
    qed
  qed
qed

text \<open>
  The members of a union, bit-fields included, all start at its first bit, and the union is at least as large as the
  largest of them.
\<close>

theorem union_members_overlaid:
  assumes "lc_union cf" and "lc_pack cf \<in> {0, 1, 2, 4, 8}" and "list_all wf_decl ds" and "attr = 0 \<or> pow2 attr"
    and "lay_struct cf attr ty ds = Done (Inr t)" and "m \<in> set (tmembers t)"
  shows "mstart m = 0 \<and> sizeof (mty m) \<le> sizeof t"
proof -
  obtain lo where lo: "lay_decls cf ds (layout_start (pack_align_of (tinfo ty))) = Done (Inr lo)" "tmembers t = lo_members lo"
    "alignof t = final_align cf attr (lo_max_align lo)" "sizeof t = align_to (lo_max_size lo) (alignof t)"
    using assms(1,5) by (auto simp: lay_struct_def Let_def ok_def)
  have inv: "union_inv lo"
  proof (rule lay_decls_keep [OF assms(3) lo(1), where P = union_inv])
    show "union_inv (layout_start (pack_align_of (tinfo ty)))" by (simp add: union_inv_def layout_start_def)
  qed (rule lay_decl_union [OF assms(1)])
  have "plain_config (cf\<lparr>lc_union := False, lc_ms := False\<rparr>)" using assms(2) by (simp add: plain_config_def)
  note final_align_pow2 [OF this _ assms(4), of "lo_max_align lo"]
  moreover have "final_align (cf\<lparr>lc_union := False, lc_ms := False\<rparr>) attr x = final_align cf attr x" for x
    unfolding final_align_def by simp
  ultimately have "pow2 (alignof t)" unfolding lo(3) using inv by (simp add: union_inv_def)
  with inv assms(6) pow2_align(1) [of "alignof t" "lo_max_size lo"] show ?thesis
    unfolding lo(2,4) union_inv_def list_all_iff mstart_def by force
qed

definition union_rule :: layout_config where
  "union_rule = layout_config_of True 0 False BF_MODE_DEFAULT False"

theorem union_members_overlaid_witness:
  "\<exists>t m. lay_struct union_rule 0 (new_aggregate True) example_fields = Done (Inr t) \<and> m \<in> set (tmembers t) \<and>
     mstart m = 0 \<and> sizeof (mty m) \<le> sizeof t"
proof -
  have "case lay_struct union_rule 0 (new_aggregate True) example_fields of Done (Inr t) \<Rightarrow> tmembers t \<noteq> [] | _ \<Rightarrow> False"
    by code_simp
  then obtain t where t: "lay_struct union_rule 0 (new_aggregate True) example_fields = Done (Inr t)" "tmembers t \<noteq> []"
    by (auto split: res.splits sum.splits)
  have "lc_union union_rule" "lc_pack union_rule \<in> {0, 1, 2, 4, 8}" by code_simp+
  from union_members_overlaid [OF this example_config(2) disjI1 t(1), of "hd (tmembers t)"] t show ?thesis
    by (intro exI [of _ t] exI [of _ "hd (tmembers t)"]) simp
qed

section \<open>Layouts that go wrong\<close>

text \<open>Where the members of a layout start and how many bits they take, its size and its alignment.\<close>

definition layout_of :: "ctype exec \<Rightarrow> ((int \<times> int) list \<times> int \<times> int) exec" where
  "layout_of x = ebind x (\<lambda>t. ok (map (\<lambda>m. (mstart m, mbits m)) (tmembers t), sizeof t, alignof t))"

definition with_align :: "ctype \<Rightarrow> int \<Rightarrow> ctype" where
  "with_align ty a = CType ((tinfo ty)\<lparr>talign := a\<rparr>) (tbase ty) (tmembers ty) (treturn ty) (tparams ty)"

definition ms_rule :: layout_config where
  "ms_rule = layout_config_of False 0 False BF_MODE_MS False"

definition pack1_rule :: layout_config where
  "pack1_rule = layout_config_of False 1 False BF_MODE_GCC False"

text \<open>
  Four layouts that are wrong. A bit-field of a type aligned beyond its size is put on top of the bit-field in front of it.
  By the Microsoft rule, \<open>char a : 3; int : 0; int b : 20; char c\<close> puts \<open>c\<close> on top of bits of \<open>b\<close>. An unnamed
  struct in a union does not count for the alignment of the union. Under \<open>#pragma pack(1)\<close> a struct of one \<open>int\<close>
  bit-field of 9 bits has two bytes, though it is accessed as four.
\<close>

theorem layouts_gone_wrong:
  "layout_of (lay_struct gcc_rule 0 (new_aggregate False)
      [Declarator (Some ''a'') ty_char (Some 4), Declarator (Some ''b'') (with_align ty_char 16) (Some 4)]) =
     ok ([(0, 4), (0, 4)], 16, 16) \<and>
   layout_of (lay_struct ms_rule 0 (new_aggregate False)
      [Declarator (Some ''a'') ty_char (Some 3), Declarator None ty_int (Some 0), Declarator (Some ''b'') ty_int (Some 20),
       Declarator (Some ''c'') ty_char None]) =
     ok ([(0, 3), (3, 20), (8, 8)], 4, 4) \<and>
   ebind (lay_struct gcc_rule 0 (new_aggregate False) [Declarator (Some ''l'') (ty_long Linux) None]) (\<lambda>s.
      layout_of (lay_struct union_rule 0 (new_aggregate True) [TypeOnly s, Declarator (Some ''s'') (array_of ty_char 9) None])) =
     ok ([(0, 64), (0, 72)], 9, 1) \<and>
   layout_of (lay_struct pack1_rule 0 (new_aggregate False) [Declarator (Some ''a'') ty_int (Some 9)]) = ok ([(0, 9)], 2, 1)"
  by (intro conjI; code_simp)

text \<open>
  By the Microsoft rule \<open>char x; char a : 3; int : 0; int b : 20\<close> puts the \<open>int\<close> field \<open>b\<close> at byte 1 of a struct
  of 4 bytes: its unit is not aligned and ends behind the struct.
\<close>

lemma ms_unit_misplaced:
  "case lay_struct ms_rule 0 (new_aggregate False)
      [Declarator (Some ''x'') ty_char None, Declarator (Some ''a'') ty_char (Some 3), Declarator None ty_int (Some 0),
       Declarator (Some ''b'') ty_int (Some 20)] of
     Done (Inr t) \<Rightarrow> (moffset (minfo (last (tmembers t))), sizeof t) = (1, 4) | _ \<Rightarrow> False"
  by code_simp

end
