(* ===== verification/X86.thy ===== *)
theory X86
  imports Strtol
begin

text \<open>
  The x86-64 machine the code generator of \<open>src/codegen.c\<close> writes for, as far as the integer code
  it prints needs it: the instructions with their AT&T text, sixteen 64-bit registers, a byte
  memory, the four condition flags and a table of symbol addresses. An instruction with no
  behaviour here (a division that traps, an immediate that does not fit) is \<open>None\<close>. Nothing of this
  theory is a translation of code; it is the documented behaviour of the processor and the syntax
  of the assembler.
\<close>

named_theorems mach_simps "reading back what an instruction wrote"

section \<open>Instructions\<close>

datatype preg =
  RAX | RCX | RDX | RBX | RSP | RBP | RSI | RDI | R8 | R9 | R10 | R11 | R12 | R13 | R14 | R15

text \<open>\<open>$v\<close>, a register read at a size in bytes, \<open>d(%r)\<close> and \<open>name(%rip)\<close>.\<close>

datatype opd = Imm int | Reg nat preg | Mem int preg | Rip string

text \<open>The size suffix of a mnemonic.\<close>

datatype sfx = S_none | S_b | S_w | S_l | S_q | S_abs | S_absq

datatype alu = A_add | A_sub | A_imul | A_and | A_or | A_xor | A_cmp | A_shl | A_shr | A_sar

datatype cc = CC_E | CC_NE | CC_L | CC_LE | CC_GE | CC_G | CC_B | CC_BE | CC_AE | CC_A

text \<open>The numbered local labels the generator makes, the return label, and the labels of \<open>goto\<close>.\<close>

datatype label =
    L_end nat | L_else nat | L_begin nat | L_continue nat | L_case nat | L_skip nat
  | L_return string | L_label string string | L_func string

datatype instr =
    Mov sfx opd opd
  | Ext bool nat nat opd preg     \<comment> \<open>\<open>movz\<close> or \<open>movs\<close>, from and to how many bytes\<close>
  | Lea opd preg
  | Alu alu sfx opd opd
  | ShiftCl alu nat preg
  | INeg nat preg
  | INot nat preg
  | Cdq | Cqo
  | Div bool nat preg             \<comment> \<open>\<open>div\<close> or \<open>idiv\<close>\<close>
  | Setcc cc preg
  | Push sfx preg | Pop sfx preg
  | Jcc cc label | Jmp label | Label label | Ret

subsection \<open>Their text\<close>

fun reg_text :: "nat \<Rightarrow> preg \<Rightarrow> string" where
  "reg_text n RAX = (if n = 1 then ''%al'' else if n = 2 then ''%ax'' else if n = 4 then ''%eax'' else ''%rax'')"
| "reg_text n RCX = (if n = 1 then ''%cl'' else if n = 2 then ''%cx'' else if n = 4 then ''%ecx'' else ''%rcx'')"
| "reg_text n RDX = (if n = 1 then ''%dl'' else if n = 2 then ''%dx'' else if n = 4 then ''%edx'' else ''%rdx'')"
| "reg_text n RBX = (if n = 1 then ''%bl'' else if n = 2 then ''%bx'' else if n = 4 then ''%ebx'' else ''%rbx'')"
| "reg_text n RSP = (if n = 1 then ''%spl'' else if n = 2 then ''%sp'' else if n = 4 then ''%esp'' else ''%rsp'')"
| "reg_text n RBP = (if n = 1 then ''%bpl'' else if n = 2 then ''%bp'' else if n = 4 then ''%ebp'' else ''%rbp'')"
| "reg_text n RSI = (if n = 1 then ''%sil'' else if n = 2 then ''%si'' else if n = 4 then ''%esi'' else ''%rsi'')"
| "reg_text n RDI = (if n = 1 then ''%dil'' else if n = 2 then ''%di'' else if n = 4 then ''%edi'' else ''%rdi'')"
| "reg_text n R8 = ''%r8'' @ (if n = 1 then ''b'' else if n = 2 then ''w'' else if n = 4 then ''d'' else [])"
| "reg_text n R9 = ''%r9'' @ (if n = 1 then ''b'' else if n = 2 then ''w'' else if n = 4 then ''d'' else [])"
| "reg_text n R10 = ''%r10'' @ (if n = 1 then ''b'' else if n = 2 then ''w'' else if n = 4 then ''d'' else [])"
| "reg_text n R11 = ''%r11'' @ (if n = 1 then ''b'' else if n = 2 then ''w'' else if n = 4 then ''d'' else [])"
| "reg_text n R12 = ''%r12'' @ (if n = 1 then ''b'' else if n = 2 then ''w'' else if n = 4 then ''d'' else [])"
| "reg_text n R13 = ''%r13'' @ (if n = 1 then ''b'' else if n = 2 then ''w'' else if n = 4 then ''d'' else [])"
| "reg_text n R14 = ''%r14'' @ (if n = 1 then ''b'' else if n = 2 then ''w'' else if n = 4 then ''d'' else [])"
| "reg_text n R15 = ''%r15'' @ (if n = 1 then ''b'' else if n = 2 then ''w'' else if n = 4 then ''d'' else [])"

fun opd_text :: "opd \<Rightarrow> string" where
  "opd_text (Imm v) = CHR ''$'' # show_int v"
| "opd_text (Reg n r) = reg_text n r"
| "opd_text (Mem d r) = (if d = 0 then [] else show_int d) @ ''('' @ reg_text 8 r @ '')''"
| "opd_text (Rip s) = s @ ''(%rip)''"

fun sfx_text :: "sfx \<Rightarrow> string" where
  "sfx_text S_none = []" | "sfx_text S_b = ''b''" | "sfx_text S_w = ''w''" | "sfx_text S_l = ''l''"
| "sfx_text S_q = ''q''" | "sfx_text S_abs = ''abs''" | "sfx_text S_absq = ''absq''"

fun size_char :: "nat \<Rightarrow> string" where
  "size_char n = (if n = 1 then ''b'' else if n = 2 then ''w'' else if n = 4 then ''l'' else ''q'')"

fun alu_text :: "alu \<Rightarrow> string" where
  "alu_text A_add = ''add''" | "alu_text A_sub = ''sub''" | "alu_text A_imul = ''imul''"
| "alu_text A_and = ''and''" | "alu_text A_or = ''or''" | "alu_text A_xor = ''xor''"
| "alu_text A_cmp = ''cmp''" | "alu_text A_shl = ''shl''" | "alu_text A_shr = ''shr''" | "alu_text A_sar = ''sar''"

fun cc_text :: "cc \<Rightarrow> string" where
  "cc_text CC_E = ''e''" | "cc_text CC_NE = ''ne''" | "cc_text CC_L = ''l''" | "cc_text CC_LE = ''le''"
| "cc_text CC_GE = ''ge''" | "cc_text CC_G = ''g''" | "cc_text CC_B = ''b''" | "cc_text CC_BE = ''be''"
| "cc_text CC_AE = ''ae''" | "cc_text CC_A = ''a''"

fun label_text :: "label \<Rightarrow> string" where
  "label_text (L_end n) = ''.L.end.'' @ show_nat n"
| "label_text (L_else n) = ''.L.else.'' @ show_nat n"
| "label_text (L_begin n) = ''.L.begin.'' @ show_nat n"
| "label_text (L_continue n) = ''.L.continue.'' @ show_nat n"
| "label_text (L_case n) = ''.L.case.'' @ show_nat n"
| "label_text (L_skip n) = ''.L.skip.'' @ show_nat n"
| "label_text (L_return f) = ''.L.return.'' @ f"
| "label_text (L_label f l) = ''.L.label.'' @ f @ ''.'' @ l"
| "label_text (L_func f) = f"

definition two :: "string \<Rightarrow> opd \<Rightarrow> opd \<Rightarrow> string" where
  "two m a b = ''  '' @ m @ '' '' @ opd_text a @ '', '' @ opd_text b"

fun instr_text :: "instr \<Rightarrow> string" where
  "instr_text (Mov s a b) = two (''mov'' @ sfx_text s) a b"
| "instr_text (Ext sg f t a r) = two (''mov'' @ (if sg then ''s'' else ''z'') @ size_char f @ size_char t) a (Reg t r)"
| "instr_text (Lea a r) = two ''lea'' a (Reg 8 r)"
| "instr_text (Alu oper s a b) = two (alu_text oper @ sfx_text s) a b"
| "instr_text (ShiftCl oper n r) = two (alu_text oper) (Reg 1 RCX) (Reg n r)"
| "instr_text (INeg n r) = ''  neg '' @ reg_text n r"
| "instr_text (INot n r) = ''  not '' @ reg_text n r"
| "instr_text Cdq = ''  cdq''"
| "instr_text Cqo = ''  cqo''"
| "instr_text (Div sg n r) = (if sg then ''  idiv '' else ''  div '') @ reg_text n r"
| "instr_text (Setcc c r) = ''  set'' @ cc_text c @ '' '' @ reg_text 1 r"
| "instr_text (Push s r) = ''  push'' @ sfx_text s @ '' '' @ reg_text 8 r"
| "instr_text (Pop s r) = ''  pop'' @ sfx_text s @ '' '' @ reg_text 8 r"
| "instr_text (Jcc c l) = ''  j'' @ cc_text c @ '' '' @ label_text l"
| "instr_text (Jmp l) = ''  jmp '' @ label_text l"
| "instr_text (Label l) = label_text l @ '':''"
| "instr_text Ret = ''  ret''"

text \<open>The text of a piece of code, one instruction a line.\<close>

definition asm_text :: "instr list \<Rightarrow> string" where
  "asm_text c = concat (map (\<lambda>i. instr_text i @ [NL]) c)"

section \<open>The machine\<close>

type_synonym memory = "64 word \<Rightarrow> 8 word"

record flags =
  zf :: bool
  sf :: bool
  cf :: bool
  ovf :: bool

record mach =
  regs :: "preg \<Rightarrow> 64 word"
  mem :: memory
  flags_of :: "flags option"
  syms :: "string \<Rightarrow> 64 word"

text \<open>\<open>n\<close> bytes from address \<open>a\<close> on, the lowest first.\<close>

fun load :: "memory \<Rightarrow> nat \<Rightarrow> 64 word \<Rightarrow> int" where
  "load m 0 a = 0"
| "load m (Suc n) a = uint (m a) + 256 * load m n (a + 1)"

fun store :: "memory \<Rightarrow> nat \<Rightarrow> 64 word \<Rightarrow> int \<Rightarrow> memory" where
  "store m 0 a v = m"
| "store m (Suc n) a v = store (m(a := word_of_int v)) n (a + 1) (v div 256)"

text \<open>The low \<open>n\<close> bytes of a number, unsigned and signed.\<close>

definition low :: "nat \<Rightarrow> int \<Rightarrow> int" where
  "low n v = take_bit (8 * n) v"

definition slow :: "nat \<Rightarrow> int \<Rightarrow> int" where
  "slow n v = signed_take_bit (8 * n - 1) v"

definition getr :: "mach \<Rightarrow> nat \<Rightarrow> preg \<Rightarrow> int" where
  "getr m n r = low n (uint (regs m r))"

text \<open>A 32-bit write clears the upper half of the register; an 8- or 16-bit write leaves the rest.\<close>

definition putr :: "nat \<Rightarrow> preg \<Rightarrow> int \<Rightarrow> mach \<Rightarrow> mach" where
  "putr n r v m = m\<lparr>regs := (regs m)(r :=
     word_of_int (if n < 4 then uint (regs m r) - low n (uint (regs m r)) + low n v else low n v))\<rparr>"

fun addr :: "mach \<Rightarrow> opd \<Rightarrow> 64 word option" where
  "addr m (Mem d r) = Some (regs m r + word_of_int d)"
| "addr m (Rip s) = Some (syms m s)"
| "addr m _ = None"

text \<open>An immediate operand of all but \<open>mov\<close> has 32 bits; a 64-bit operation extends its sign.\<close>

definition imm_fits :: "nat \<Rightarrow> int \<Rightarrow> bool" where
  "imm_fits n v \<longleftrightarrow> - (2 ^ 31) \<le> v \<and> v < (if n = 8 then 2 ^ 31 else 2 ^ (8 * n))"

definition rd :: "nat \<Rightarrow> opd \<Rightarrow> mach \<Rightarrow> int option" where
  "rd n a m =
     (case a of
        Imm v \<Rightarrow> Some (low n v)
      | Reg k r \<Rightarrow> if k = n then Some (getr m n r) else None
      | _ \<Rightarrow> map_option (load (mem m) n) (addr m a))"

definition wr :: "nat \<Rightarrow> opd \<Rightarrow> int \<Rightarrow> mach \<Rightarrow> mach option" where
  "wr n a v m =
     (case a of
        Imm _ \<Rightarrow> None
      | Reg k r \<Rightarrow> if k = n then Some (putr n r v m) else None
      | _ \<Rightarrow> map_option (\<lambda>p. m\<lparr>mem := store (mem m) n p v\<rparr>) (addr m a))"

text \<open>The operand size: the suffix says it, or else a register operand does.\<close>

fun opd_size :: "opd \<Rightarrow> nat" where
  "opd_size (Reg n r) = n"
| "opd_size _ = 0"

fun op_bytes :: "sfx \<Rightarrow> opd \<Rightarrow> opd \<Rightarrow> nat" where
  "op_bytes S_none a b = max (opd_size a) (opd_size b)"
| "op_bytes S_b a b = 1" | "op_bytes S_w a b = 2" | "op_bytes S_l a b = 4" | "op_bytes S_q a b = 8"
| "op_bytes S_abs a b = 8" | "op_bytes S_absq a b = 8"

subsection \<open>Flags and conditions\<close>

definition sub_flags :: "nat \<Rightarrow> int \<Rightarrow> int \<Rightarrow> flags" where
  "sub_flags n d s =
     \<lparr>zf = (low n (d - s) = 0), sf = (slow n (d - s) < 0), cf = (low n d < low n s),
      ovf = (slow n d - slow n s \<noteq> slow n (d - s))\<rparr>"

definition add_flags :: "nat \<Rightarrow> int \<Rightarrow> int \<Rightarrow> flags" where
  "add_flags n d s =
     \<lparr>zf = (low n (d + s) = 0), sf = (slow n (d + s) < 0), cf = (low n d + low n s \<noteq> low n (d + s)),
      ovf = (slow n d + slow n s \<noteq> slow n (d + s))\<rparr>"

definition logic_flags :: "nat \<Rightarrow> int \<Rightarrow> flags" where
  "logic_flags n v = \<lparr>zf = (low n v = 0), sf = (slow n v < 0), cf = False, ovf = False\<rparr>"

fun holds :: "cc \<Rightarrow> flags \<Rightarrow> bool" where
  "holds CC_E f = zf f"
| "holds CC_NE f = (\<not> zf f)"
| "holds CC_L f = (sf f \<noteq> ovf f)"
| "holds CC_LE f = (zf f \<or> sf f \<noteq> ovf f)"
| "holds CC_GE f = (sf f = ovf f)"
| "holds CC_G f = (\<not> zf f \<and> sf f = ovf f)"
| "holds CC_B f = cf f"
| "holds CC_BE f = (cf f \<or> zf f)"
| "holds CC_AE f = (\<not> cf f)"
| "holds CC_A f = (\<not> cf f \<and> \<not> zf f)"

subsection \<open>Execution of one instruction\<close>

text \<open>The count of a shift is taken modulo the width of the operand (32 for the narrow ones).\<close>

definition shift_count :: "nat \<Rightarrow> int \<Rightarrow> nat" where
  "shift_count n s = nat (s mod (if n = 8 then 64 else 32))"

definition shift_result :: "alu \<Rightarrow> nat \<Rightarrow> int \<Rightarrow> int \<Rightarrow> int" where
  "shift_result oper n s d =
     (let k = shift_count n s
      in case oper of A_shl \<Rightarrow> push_bit k d | A_shr \<Rightarrow> drop_bit k (low n d) | _ \<Rightarrow> drop_bit k (slow n d))"

text \<open>The result and the flags of \<open>op src, dst\<close>; \<open>cmp\<close> has no result.\<close>

fun alu_result :: "alu \<Rightarrow> nat \<Rightarrow> int \<Rightarrow> int \<Rightarrow> int option \<times> flags option" where
  "alu_result A_add n s d = (Some (d + s), Some (add_flags n d s))"
| "alu_result A_sub n s d = (Some (d - s), Some (sub_flags n d s))"
| "alu_result A_cmp n s d = (None, Some (sub_flags n d s))"
| "alu_result A_imul n s d = (Some (d * s), None)"
| "alu_result A_and n s d = (Some (d AND s), Some (logic_flags n (d AND s)))"
| "alu_result A_or n s d = (Some (d OR s), Some (logic_flags n (d OR s)))"
| "alu_result A_xor n s d = (Some (d XOR s), Some (logic_flags n (d XOR s)))"
| "alu_result oper n s d = (Some (shift_result oper n s d), None)"

definition exec_alu :: "alu \<Rightarrow> nat \<Rightarrow> opd \<Rightarrow> opd \<Rightarrow> mach \<Rightarrow> mach option" where
  "exec_alu oper n a b m =
     (if (case a of Imm v \<Rightarrow> imm_fits n v | _ \<Rightarrow> True) then
        Option.bind (rd n a m) (\<lambda>s. Option.bind (rd n b m) (\<lambda>d.
          case alu_result oper n s d of
            (None, f) \<Rightarrow> Some (m\<lparr>flags_of := f\<rparr>)
          | (Some v, f) \<Rightarrow> wr n b v (m\<lparr>flags_of := f\<rparr>)))
      else None)"

text \<open>\<open>rdx:rax\<close> by the operand; a quotient that does not fit traps, as does a zero divisor.\<close>

definition exec_div :: "bool \<Rightarrow> nat \<Rightarrow> preg \<Rightarrow> mach \<Rightarrow> mach option" where
  "exec_div sg n r m =
     (let hi = getr m n RDX; lo = getr m n RAX; d = getr m n r
      in if sg then
           (let num = slow n hi * 2 ^ (8 * n) + lo; den = slow n d; q = num sdiv den
            in if den = 0 \<or> slow n q \<noteq> q then None
               else Some (putr n RDX (num smod den) (putr n RAX q (m\<lparr>flags_of := None\<rparr>))))
         else
           (let num = hi * 2 ^ (8 * n) + lo; q = num div d
            in if d = 0 \<or> low n q \<noteq> q then None
               else Some (putr n RDX (num mod d) (putr n RAX q (m\<lparr>flags_of := None\<rparr>)))))"

fun exec_instr :: "instr \<Rightarrow> mach \<Rightarrow> mach option" where
  "exec_instr (Mov s a b) m =
     (let n = op_bytes s a b in Option.bind (rd n a m) (\<lambda>v. wr n b v m))"
| "exec_instr (Ext sg f t a r) m =
     map_option (\<lambda>v. putr t r (if sg then slow f v else v) m) (rd f a m)"
| "exec_instr (Lea a r) m = map_option (\<lambda>p. putr 8 r (uint p) m) (addr m a)"
| "exec_instr (Alu oper s a b) m = exec_alu oper (op_bytes s a b) a b m"
| "exec_instr (ShiftCl oper n r) m =
     Some (putr n r (shift_result oper n (getr m 1 RCX) (getr m n r)) (m\<lparr>flags_of := None\<rparr>))"
| "exec_instr (INeg n r) m =
     Some (putr n r (- getr m n r) (m\<lparr>flags_of := Some (sub_flags n 0 (getr m n r))\<rparr>))"
| "exec_instr (INot n r) m = Some (putr n r (NOT (getr m n r)) m)"
| "exec_instr Cdq m = Some (putr 4 RDX (if slow 4 (getr m 4 RAX) < 0 then -1 else 0) m)"
| "exec_instr Cqo m = Some (putr 8 RDX (if slow 8 (getr m 8 RAX) < 0 then -1 else 0) m)"
| "exec_instr (Div sg n r) m = exec_div sg n r m"
| "exec_instr (Setcc c r) m = map_option (\<lambda>f. putr 1 r (of_bool (holds c f)) m) (flags_of m)"
| "exec_instr (Push s r) m =
     (let p = regs m RSP - 8
      in Some (putr 8 RSP (uint p) (m\<lparr>mem := store (mem m) 8 p (getr m 8 r)\<rparr>)))"
| "exec_instr (Pop s r) m =
     (let p = regs m RSP
      in Some (putr 8 r (load (mem m) 8 p) (putr 8 RSP (uint (p + 8)) m)))"
| "exec_instr i m = None"

section \<open>Running a program\<close>

text \<open>A program is a list of instructions; a jump goes to the first place its label is defined.\<close>

type_synonym config = "nat \<times> mach"

fun find_label :: "instr list \<Rightarrow> label \<Rightarrow> nat option" where
  "find_label [] l = None"
| "find_label (i # is) l = (if i = Label l then Some 0 else map_option Suc (find_label is l))"

definition goto :: "instr list \<Rightarrow> label \<Rightarrow> mach \<Rightarrow> config option" where
  "goto P l m = map_option (\<lambda>k. (k, m)) (find_label P l)"

definition step :: "instr list \<Rightarrow> config \<Rightarrow> config option" where
  "step P = (\<lambda>(pc, m).
     if pc \<ge> length P then None
     else case P ! pc of
        Label l \<Rightarrow> Some (pc + 1, m)
      | Jmp l \<Rightarrow> goto P l m
      | Jcc c l \<Rightarrow> Option.bind (flags_of m) (\<lambda>f. if holds c f then goto P l m else Some (pc + 1, m))
      | i \<Rightarrow> map_option (\<lambda>m'. (pc + 1, m')) (exec_instr i m))"

text \<open>At most \<open>n\<close> steps, stopping where there is none.\<close>

fun run :: "nat \<Rightarrow> instr list \<Rightarrow> config \<Rightarrow> config" where
  "run 0 P c = c"
| "run (Suc n) P c = (case step P c of None \<Rightarrow> c | Some c' \<Rightarrow> run n P c')"

definition steps :: "instr list \<Rightarrow> config \<Rightarrow> config \<Rightarrow> bool" where
  "steps P = (\<lambda>c c'. step P c = Some c')\<^sup>*\<^sup>*"

section \<open>Numbers of a given size\<close>

lemma low_low [simp, mach_simps]: "low n (low m v) = low (min n m) v"
  by (cases "n \<le> m") (simp_all add: low_def min_absorb1 min_absorb2)

lemma low_add [mach_simps]: "low n (low n a + low n b) = low n (a + b)"
  and low_diff [mach_simps]: "low n (low n a - low n b) = low n (a - b)"
  and low_mult [mach_simps]: "low n (low n a * low n b) = low n (a * b)"
  and low_minus [mach_simps]: "low n (- low n a) = low n (- a)"
  by (simp_all add: low_def take_bit_add take_bit_diff take_bit_mult take_bit_minus)

lemma low_and: "low n (a AND b) = low n a AND low n b"
  and low_or: "low n (a OR b) = low n a OR low n b"
  and low_xor: "low n (a XOR b) = low n a XOR low n b"
  and low_not: "low n (NOT (low n a)) = low n (NOT a)"
  by (simp_all add: low_def take_bit_not_take_bit)

lemma low_eqI_le: "low m a = low m b \<Longrightarrow> n \<le> m \<Longrightarrow> low n a = low n b"
  by (metis low_low min.absorb1)

lemma low_bounds: "0 \<le> low n v" "low n v < 2 ^ (8 * n)"
  by (simp_all add: low_def)

lemma low_id: "0 \<le> v \<Longrightarrow> v < 2 ^ (8 * n) \<Longrightarrow> low n v = v"
  by (simp add: low_def take_bit_int_eq_self)

lemma low_0 [simp]: "low n 0 = 0"
  by (simp add: low_def)

lemma slow_bounds:
  assumes "0 < n"
  shows "- (2 ^ (8 * n - 1)) \<le> slow n v" "slow n v < 2 ^ (8 * n - 1)"
  by (simp_all add: slow_def signed_take_bit_int_greater_eq_minus_exp signed_take_bit_int_less_exp)

lemma slow_eq_iff: "0 < n \<Longrightarrow> slow n a = slow n b \<longleftrightarrow> low n a = low n b"
  by (simp add: slow_def low_def signed_take_bit_eq_iff_take_bit_eq)

lemma slow_low [simp, mach_simps]: "0 < n \<Longrightarrow> slow n (low n v) = slow n v"
  by (simp add: slow_eq_iff)

lemma low_slow [simp, mach_simps]: "0 < n \<Longrightarrow> low n (slow n v) = low n v"
  using slow_eq_iff [of n "slow n v" v]
  by (simp add: slow_def)

lemma slow_id: "0 < n \<Longrightarrow> - (2 ^ (8 * n - 1)) \<le> v \<Longrightarrow> v < 2 ^ (8 * n - 1) \<Longrightarrow> slow n v = v"
  unfolding slow_def by (rule signed_take_bit_int_eq_self) simp_all

lemma slow_cong:
  assumes "0 < n"
  obtains k where "slow n v = v + k * 2 ^ (8 * n)"
proof -
  have "low n (slow n v) = low n v" using assms by simp
  then have "(slow n v) mod 2 ^ (8 * n) = v mod 2 ^ (8 * n)"
    by (simp add: low_def take_bit_eq_mod)
  then have "2 ^ (8 * n) dvd slow n v - v" by (simp add: mod_eq_dvd_iff)
  then obtain k where "slow n v - v = 2 ^ (8 * n) * k" by (rule dvdE)
  then have "slow n v = v + k * 2 ^ (8 * n)" by (simp add: algebra_simps)
  then show thesis by (rule that)
qed

lemma double_half: "0 < n \<Longrightarrow> (2::int) ^ (8 * n) = 2 * 2 ^ (8 * n - 1)"
  by (metis One_nat_def Suc_pred mult_pos_pos power_Suc zero_less_numeral)

text \<open>The signed conditions after a comparison.\<close>

lemma signed_overflow:
  assumes n: "0 < n"
  shows "((slow n (d - s) < 0) \<noteq> (slow n d - slow n s \<noteq> slow n (d - s))) \<longleftrightarrow> slow n d < slow n s"
proof -
  define M :: int where "M = 2 ^ (8 * n - 1)"
  have M: "0 < M" "(2::int) ^ (8 * n) = 2 * M" using double_half [OF n] by (simp_all add: M_def)
  define r where "r = slow n (d - s)"
  define D where "D = slow n d"
  define S where "S = slow n s"
  have "low n (slow n d - slow n s) = low n (low n (slow n d) - low n (slow n s))"
    by (simp only: low_diff)
  also have "\<dots> = low n (d - s)" using n by (simp add: low_diff)
  finally have "r = slow n (D - S)"
    unfolding r_def D_def S_def using n by (simp add: slow_eq_iff)
  then obtain k where k: "r = D - S + k * (2 * M)"
    using slow_cong [OF n, of "D - S"] M(2) by metis
  have b: "- M \<le> r" "r < M" "- M \<le> D" "D < M" "- M \<le> S" "S < M"
    unfolding r_def D_def S_def M_def by (rule slow_bounds [OF n])+
  have kk: "k = -1 \<or> k = 0 \<or> k = 1"
  proof -
    have "\<not> 2 \<le> k"
    proof
      assume "2 \<le> k"
      then have "2 * (2 * M) \<le> k * (2 * M)" using M(1) by (intro mult_right_mono) auto
      then show False using k b by linarith
    qed
    moreover have "\<not> k \<le> -2"
    proof
      assume "k \<le> -2"
      then have "k * (2 * M) \<le> (-2) * (2 * M)" using M(1) by (intro mult_right_mono) auto
      then show False using k b by linarith
    qed
    ultimately show ?thesis by linarith
  qed
  have "((r < 0) \<noteq> (D - S \<noteq> r)) \<longleftrightarrow> D < S"
    using kk
  proof (elim disjE)
    assume "k = -1" then show ?thesis using k b M(1) by auto
  next
    assume "k = 0" then show ?thesis using k by auto
  next
    assume "k = 1" then show ?thesis using k b M(1) by auto
  qed
  then show ?thesis by (simp add: r_def D_def S_def)
qed

lemma low_diff_zero: "low n (d - s) = 0 \<longleftrightarrow> low n d = low n s"
proof
  assume "low n (d - s) = 0"
  then have "low n (low n (d - s) + low n s) = low n s" by simp
  then show "low n d = low n s" by (simp add: low_add)
next
  assume "low n d = low n s"
  then have "low n (low n d - low n s) = 0" by simp
  then show "low n (d - s) = 0" by (simp add: low_diff)
qed

lemma cmp_conditions:
  assumes "0 < n"
  shows "holds CC_E (sub_flags n d s) \<longleftrightarrow> low n d = low n s"
    "holds CC_NE (sub_flags n d s) \<longleftrightarrow> low n d \<noteq> low n s"
    "holds CC_L (sub_flags n d s) \<longleftrightarrow> slow n d < slow n s"
    "holds CC_LE (sub_flags n d s) \<longleftrightarrow> slow n d \<le> slow n s"
    "holds CC_GE (sub_flags n d s) \<longleftrightarrow> slow n s \<le> slow n d"
    "holds CC_G (sub_flags n d s) \<longleftrightarrow> slow n s < slow n d"
    "holds CC_B (sub_flags n d s) \<longleftrightarrow> low n d < low n s"
    "holds CC_BE (sub_flags n d s) \<longleftrightarrow> low n d \<le> low n s"
    "holds CC_AE (sub_flags n d s) \<longleftrightarrow> low n s \<le> low n d"
    "holds CC_A (sub_flags n d s) \<longleftrightarrow> low n s < low n d"
  using signed_overflow [OF assms, of d s] slow_eq_iff [OF assms, of d s]
  by (auto simp: sub_flags_def low_diff_zero)

section \<open>Registers\<close>

lemma uint_bound: "0 \<le> uint (w :: 64 word)" "uint w < 2 ^ 64"
  using uint_lt2p [of w] by simp_all

lemma low8_uint [simp]: "low 8 (uint (w :: 64 word)) = uint w"
  using uint_bound [of w] by (intro low_id) simp_all

lemma uint_of_int64 [simp]: "uint (word_of_int v :: 64 word) = low 8 v"
  by (simp add: low_def uint_word_of_int take_bit_eq_mod)

lemma putr_regs [simp]: "r \<noteq> q \<Longrightarrow> regs (putr n r v m) q = regs m q"
  "mem (putr n r v m) = mem m" "flags_of (putr n r v m) = flags_of m" "syms (putr n r v m) = syms m"
  by (simp_all add: putr_def)

lemma getr_other [simp]: "r \<noteq> q \<Longrightarrow> getr (putr n r v m) k q = getr m k q"
  by (simp add: getr_def)

lemma low_split:
  assumes "n < 4"
  shows "low n (low 8 (u - low n u + low n v)) = low n v"
proof -
  have "low n (low 8 (u - low n u + low n v)) = low n (u - low n u + low n v)"
    using assms by simp
  also have "\<dots> = low n (low n (u - low n u) + low n v)"
    by (metis low_add low_low min.idem)
  also have "low n (u - low n u) = 0" by (simp add: low_diff_zero)
  finally show ?thesis by simp
qed

lemma getr_putr:
  assumes "k \<le> n" "n \<in> {1, 2, 4, 8}"
  shows "getr (putr n r v m) k r = low k v"
proof (cases "n < 4")
  case True
  have "getr (putr n r v m) k r = low k (low n (low 8 (uint (regs m r) - low n (uint (regs m r)) + low n v)))"
    using assms True uint_of_int64 [of "uint (regs m r) - low n (uint (regs m r)) + low n v"]
    by (simp add: getr_def putr_def del: uint_of_int64 of_int_add of_int_diff)
  also have "\<dots> = low k (low n v)" by (simp only: low_split [OF True])
  finally show ?thesis using assms by simp
next
  case False
  then show ?thesis using assms by (auto simp: getr_def putr_def)
qed

lemma getr_flags [simp]: "getr (m\<lparr>flags_of := f\<rparr>) n r = getr m n r"
  "getr (m\<lparr>mem := mm\<rparr>) n r = getr m n r"
  by (simp_all add: getr_def)

lemma low_getr [simp]: "k \<le> n \<Longrightarrow> low k (getr m n r) = getr m k r"
  by (simp add: getr_def)

section \<open>Memory\<close>

lemma load_bounds: "0 \<le> load m n a" "load m n a < 2 ^ (8 * n)"
proof (induction n arbitrary: a)
  case (Suc n)
  {
    case 1
    then show ?case using Suc(1) [of "a + 1"] uint_lt2p [of "m a"] by simp
  next
    case 2
    have "uint (m a) < 256" using uint_lt2p [of "m a"] by simp
    moreover have "load m n (a + 1) + 1 \<le> 2 ^ (8 * n)" using Suc(2) [of "a + 1"] by simp
    ultimately show ?case by (simp add: power_add)
  }
qed simp_all

lemma low_load [simp]: "low n (load m n a) = load m n a"
  using load_bounds by (rule low_id)

text \<open>The bytes of an access.\<close>

definition area :: "64 word \<Rightarrow> nat \<Rightarrow> 64 word set" where
  "area a n = (\<lambda>k. a + word_of_nat k) ` {..<n}"

lemma area_0 [simp]: "area a 0 = {}"
  by (simp add: area_def)

lemma area_Suc: "area a (Suc n) = insert a (area (a + 1) n)"
proof -
  have "{..<Suc n} = insert 0 (Suc ` {..<n})" by (rule lessThan_Suc_eq_insert_0)
  then show ?thesis by (simp add: area_def image_image add.assoc)
qed

lemma area_mono: "n \<le> m \<Longrightarrow> area a n \<subseteq> area a m"
  by (auto simp: area_def)

lemma load_cong: "(\<And>x. x \<in> area a n \<Longrightarrow> m x = m' x) \<Longrightarrow> load m n a = load m' n a"
  by (induction n arbitrary: a) (auto simp: area_Suc)

lemma store_other: "x \<notin> area a n \<Longrightarrow> store m n a v x = m x"
  by (induction n arbitrary: a v m) (auto simp: area_Suc)

lemma store_agree:
  "\<forall>x \<in> V. m x = m' x \<Longrightarrow> \<forall>x \<in> V. store m n a v x = store m' n a v x"
proof (induction n arbitrary: a v m m')
  case (Suc n)
  have "\<forall>x \<in> V. (m(a := word_of_int v)) x = (m'(a := word_of_int v)) x" using Suc.prems by simp
  then show ?case unfolding store.simps by (rule Suc.IH)
qed simp

lemma load_store_disjoint:
  assumes "area a n \<inter> area b k = {}"
  shows "load (store m k b v) n a = load m n a"
  using assms by (intro load_cong store_other) auto

lemma not_in_area:
  assumes "n < 2 ^ 64"
  shows "a \<notin> area (a + 1) n"
proof
  assume "a \<in> area (a + 1) n"
  then obtain k where k: "k < n" "a = a + 1 + word_of_nat k" by (auto simp: area_def)
  then have "word_of_nat (Suc k) = (0 :: 64 word)" by (simp add: add.assoc)
  then have "2 ^ LENGTH(64) dvd Suc k" by (simp only: word_of_nat_eq_0_iff)
  then have "2 ^ 64 \<le> Suc k" using dvd_imp_le [of "2 ^ LENGTH(64)" "Suc k"] by simp
  then show False using k(1) assms by linarith
qed

lemma store_low: "store m n a (low n v) = store m n a v"
proof (induction n arbitrary: a v m)
  case (Suc n)
  have "word_of_int (low (Suc n) v) = (word_of_int v :: 8 word)"
    by (simp add: low_def word_of_int_eq_iff)
  moreover have "low (Suc n) v div 256 = low n (v div 256)"
    by (simp add: low_def take_bit_eq_mod power_add zmod_zmult2_eq flip: mult.commute)
  ultimately show ?case by (simp only: store.simps Suc.IH)
qed simp

lemma load_store:
  assumes "n \<le> 8"
  shows "load (store m n a v) n a = low n v"
  using assms
proof (induction n arbitrary: a v m)
  case (Suc n)
  have "a \<notin> area (a + 1) n" using Suc.prems by (intro not_in_area) simp
  then have "uint (store (m(a := word_of_int v)) n (a + 1) (v div 256) a) = v mod 256"
    by (simp add: store_other uint_word_of_int)
  moreover have "load (store (m(a := word_of_int v)) n (a + 1) (v div 256)) n (a + 1) = low n (v div 256)"
    using Suc by simp
  ultimately have "load (store m (Suc n) a v) (Suc n) a = v mod 256 + 256 * low n (v div 256)"
    by simp
  also have "\<dots> = low (Suc n) v"
    by (simp add: low_def take_bit_eq_mod power_add zmod_zmult2_eq mult.commute)
  finally show ?case .
qed (simp add: low_def)

section \<open>Code inside a program\<close>

definition code_at :: "instr list \<Rightarrow> nat \<Rightarrow> instr list \<Rightarrow> bool" where
  "code_at P i c \<longleftrightarrow> i + length c \<le> length P \<and> take (length c) (drop i P) = c"

lemma code_at_nth:
  assumes "code_at P i c" "k < length c"
  shows "P ! (i + k) = c ! k"
proof -
  have a: "i + length c \<le> length P" "take (length c) (drop i P) = c" using assms by (auto simp: code_at_def)
  have "take (length c) (drop i P) ! k = P ! (i + k)" using a(1) assms(2) by simp
  then show ?thesis by (simp only: a(2))
qed

lemma code_at_iff:
  "code_at P i c \<longleftrightarrow> i + length c \<le> length P \<and> (\<forall>k < length c. P ! (i + k) = c ! k)"
proof
  assume "code_at P i c"
  then show "i + length c \<le> length P \<and> (\<forall>k < length c. P ! (i + k) = c ! k)"
    using code_at_nth by (auto simp: code_at_def)
next
  assume "i + length c \<le> length P \<and> (\<forall>k < length c. P ! (i + k) = c ! k)"
  then show "code_at P i c"
    unfolding code_at_def by (auto intro: nth_equalityI)
qed

lemma code_at_append [simp]:
  "code_at P i (c @ d) \<longleftrightarrow> code_at P i c \<and> code_at P (i + length c) d"
proof
  assume a: "code_at P i (c @ d)"
  show "code_at P i c \<and> code_at P (i + length c) d"
    unfolding code_at_iff
  proof (intro conjI allI impI)
    fix k assume "k < length d"
    then show "P ! (i + length c + k) = d ! k"
      using a [unfolded code_at_iff] by (auto simp: nth_append dest!: spec [of _ "length c + k"] simp: add.assoc)
  next
    fix k assume "k < length c"
    then show "P ! (i + k) = c ! k"
      using a [unfolded code_at_iff] by (auto simp: nth_append dest!: spec [of _ k])
  qed (use a in \<open>auto simp: code_at_def\<close>)
next
  assume a: "code_at P i c \<and> code_at P (i + length c) d"
  show "code_at P i (c @ d)"
    unfolding code_at_iff
  proof (intro conjI allI impI)
    fix k assume k: "k < length (c @ d)"
    show "P ! (i + k) = (c @ d) ! k"
    proof (cases "k < length c")
      case True then show ?thesis using a by (simp add: nth_append code_at_iff)
    next
      case False
      then have "k - length c < length d" using k by simp
      then have "P ! (i + length c + (k - length c)) = d ! (k - length c)"
        using a by (intro code_at_nth) simp_all
      moreover have "i + length c + (k - length c) = i + k" using False by simp
      ultimately have "P ! (i + k) = d ! (k - length c)" by simp
      then show ?thesis using False by (simp add: nth_append)
    qed
  qed (use a in \<open>auto simp: code_at_def\<close>)
qed

lemma code_at_Cons:
  "code_at P i (x # c) \<longleftrightarrow> i < length P \<and> P ! i = x \<and> code_at P (Suc i) c"
proof -
  have "code_at P i ([x] @ c) \<longleftrightarrow> code_at P i [x] \<and> code_at P (i + 1) c"
    by (simp only: code_at_append) simp
  moreover have "code_at P i [x] \<longleftrightarrow> i < length P \<and> P ! i = x"
    by (auto simp: code_at_iff)
  ultimately show ?thesis by simp
qed

lemma code_at_Nil: "code_at P i [] \<longleftrightarrow> i \<le> length P"
  by (simp add: code_at_def)

lemma code_at_self: "code_at P 0 P"
  by (simp add: code_at_def)

subsection \<open>Labels\<close>

fun labels :: "instr list \<Rightarrow> label list" where
  "labels [] = []"
| "labels (Label l # c) = l # labels c"
| "labels (i # c) = labels c"

lemma labels_append [simp]: "labels (c @ d) = labels c @ labels d"
  by (induction c rule: labels.induct) auto

lemma find_label_None: "find_label P l = None \<longleftrightarrow> l \<notin> set (labels P)"
  by (induction P rule: labels.induct) auto

lemma find_label_at:
  assumes "distinct (labels P)" "i < length P" "P ! i = Label l"
  shows "find_label P l = Some i"
  using assms
proof (induction P arbitrary: i)
  case (Cons x P)
  show ?case
  proof (cases i)
    case 0 then show ?thesis using Cons.prems by simp
  next
    case (Suc j)
    then have j: "j < length P" "P ! j = Label l" using Cons.prems by auto
    then have "l \<in> set (labels P)"
      using Cons.IH [of j] find_label_None [of P l] Cons.prems(1)
      by (cases x rule: instr.exhaust) auto
    then have "x \<noteq> Label l" using Cons.prems(1) by auto
    moreover have "distinct (labels P)" using Cons.prems(1) by (cases x) auto
    ultimately show ?thesis using Cons.IH j Suc by simp
  qed
qed simp

subsection \<open>Steps\<close>

lemma steps_refl [simp, intro]: "steps P c c"
  by (simp add: steps_def)

lemma steps_trans [trans]: "steps P a b \<Longrightarrow> steps P b c \<Longrightarrow> steps P a c"
  by (simp add: steps_def)

lemma steps_step: "step P a = Some b \<Longrightarrow> steps P b c \<Longrightarrow> steps P a c"
  unfolding steps_def by (rule converse_rtranclp_into_rtranclp)

lemma step_instr:
  assumes "code_at P i (x # c)" "exec_instr x m = Some m'"
  shows "step P (i, m) = Some (Suc i, m')"
  using assms by (cases x) (auto simp: step_def code_at_Cons)

lemma step_label:
  assumes "code_at P i (Label l # c)"
  shows "step P (i, m) = Some (Suc i, m)"
  using assms by (simp add: step_def code_at_Cons)

lemma step_jmp:
  assumes "code_at P i (Jmp l # c)" "distinct (labels P)" "code_at P k (Label l # d)"
  shows "step P (i, m) = Some (k, m)"
  using assms find_label_at [of P k l] by (auto simp: step_def code_at_Cons goto_def)

lemma step_jcc:
  assumes "code_at P i (Jcc q l # c)" "flags_of m = Some f"
    "holds q f \<Longrightarrow> distinct (labels P) \<and> code_at P k (Label l # d)"
  shows "step P (i, m) = Some (if holds q f then k else Suc i, m)"
  using assms find_label_at [of P k l] by (auto simp: step_def code_at_Cons goto_def)

text \<open>Code without jumps or labels runs as a function.\<close>

fun exec_seq :: "instr list \<Rightarrow> mach \<Rightarrow> mach option" where
  "exec_seq [] m = Some m"
| "exec_seq (x # c) m = Option.bind (exec_instr x m) (exec_seq c)"

lemma exec_seq_append: "exec_seq (c @ d) m = Option.bind (exec_seq c m) (exec_seq d)"
  by (induction c arbitrary: m) (auto split: option.splits simp: bind_eq_Some_conv Option.bind_assoc
    intro!: arg_cong [where f = "Option.bind _"])

lemma steps_seq:
  assumes "exec_seq c m = Some m'" "code_at P i c"
  shows "steps P (i, m) (i + length c, m')"
  using assms
proof (induction c arbitrary: i m)
  case (Cons x c)
  then obtain m1 where m1: "exec_instr x m = Some m1" "exec_seq c m1 = Some m'"
    by (auto simp: bind_eq_Some_conv)
  have "step P (i, m) = Some (Suc i, m1)" using Cons.prems(2) m1(1) by (rule step_instr)
  moreover have "steps P (Suc i, m1) (Suc i + length c, m')"
    using Cons.IH [OF m1(2), of "Suc i"] Cons.prems(2) by (simp only: code_at_Cons)
  ultimately show ?case using steps_step by fastforce
qed simp

lemma run_steps: "steps P c (run n P c)"
  by (induction n arbitrary: c) (auto split: option.splits intro: steps_step)

end
