(* ===== verification/RegAlloc.thy ===== *)
theory RegAlloc
  imports X86 Ast
begin

text \<open>
  The state of the code generator of \<open>src/codegen.c\<close> on x86-64 and its register allocator: the
  bit masks \<open>used_regs\<close>, \<open>ever_used_regs\<close>, \<open>spilled_regs\<close> as sets of register numbers, the spill
  slots of the frame, the label counter, the stacks of the enclosing loops. What the code prints
  is the list of instructions a function returns besides its result. Printing for debuggers
  (\<open>-g\<close>) and warnings about spilling (\<open>-W\<close>, \<open>reg_owner\<close>) are left out. A call of \<open>error\<close> is \<open>None\<close>,
  as is what the model does not cover.
\<close>

section \<open>State\<close>

record gst =
  used :: "nat set"
  ever_used :: "nat set"
  spilled :: "nat set"
  spill_count :: nat
  spill_slot :: "nat \<Rightarrow> int"
  next_spill_slot :: int
  spill_logand :: int
  spill_atomic_old :: int
  label_count :: nat
  break_stack :: "nat list"
  continue_stack :: "nat list"

type_synonym 'a gm = "gst \<Rightarrow> ('a \<times> instr list \<times> gst) option"

definition gret :: "'a \<Rightarrow> 'a gm" where
  "gret x g = Some (x, [], g)"

definition gfail :: "'a gm" where
  "gfail g = None"

definition gbind :: "'a gm \<Rightarrow> ('a \<Rightarrow> 'b gm) \<Rightarrow> 'b gm" where
  "gbind f k g =
     (case f g of
        None \<Rightarrow> None
      | Some (a, c, g') \<Rightarrow>
          (case k a g' of None \<Rightarrow> None | Some (b, d, g'') \<Rightarrow> Some (b, c @ d, g'')))"

definition gseq :: "unit gm \<Rightarrow> 'b gm \<Rightarrow> 'b gm" where
  "gseq f k = gbind f (\<lambda>_. k)"

definition emit :: "instr list \<Rightarrow> unit gm" where
  "emit c g = Some ((), c, g)"

definition lift_opt :: "'a option \<Rightarrow> 'a gm" where
  "lift_opt x = (case x of None \<Rightarrow> gfail | Some a \<Rightarrow> gret a)"

section \<open>Registers\<close>

definition NUM_REGS :: nat where
  "NUM_REGS = 8"

definition alloc_regs :: "preg list" where
  "alloc_regs = [R10, R11, RBX, R12, R13, R14, R15, RSI]"

definition phys :: "nat \<Rightarrow> preg" where
  "phys r = alloc_regs ! r"

text \<open>\<open>reg(r, size)\<close>.\<close>

definition reg_bytes :: "int \<Rightarrow> nat" where
  "reg_bytes sz = (if sz = 1 then 1 else if sz = 2 then 2 else if sz = 4 then 4 else 8)"

definition reg :: "nat \<Rightarrow> int \<Rightarrow> opd" where
  "reg r sz = Reg (reg_bytes sz) (phys r)"

section \<open>Spill slots\<close>

definition alloc_spill_slot :: "gst \<Rightarrow> int \<times> gst" where
  "alloc_spill_slot g = (next_spill_slot g, g\<lparr>next_spill_slot := next_spill_slot g + 8\<rparr>)"

definition init_spill_slots :: "gst \<Rightarrow> gst" where
  "init_spill_slots g =
     (let g = g\<lparr>spill_slot := (\<lambda>_. 0), next_spill_slot := 8\<rparr>;
          (a, g) = alloc_spill_slot g;
          (b, g) = alloc_spill_slot g
      in g\<lparr>spill_logand := a, spill_atomic_old := b\<rparr>)"

definition spill_offset :: "nat \<Rightarrow> gst \<Rightarrow> int \<times> gst" where
  "spill_offset r g =
     (if spill_slot g r = 0 then
        (let (s, g) = alloc_spill_slot g in (s, g\<lparr>spill_slot := (spill_slot g)(r := s)\<rparr>))
      else (spill_slot g r, g))"

section \<open>Allocation\<close>

text \<open>
  The lowest free register; when there is none, the highest one is stored in its slot and handed out
  again.
\<close>

definition alloc_reg :: "nat gm" where
  "alloc_reg g =
     (case find (\<lambda>i. i \<notin> used g) [0..<NUM_REGS] of
        Some i \<Rightarrow> Some (i, [], g\<lparr>used := insert i (used g), ever_used := insert i (ever_used g)\<rparr>)
      | None \<Rightarrow>
          (case find (\<lambda>i. i \<in> used g) (rev [0..<NUM_REGS]) of
             None \<Rightarrow> None
           | Some i \<Rightarrow>
               (let (off, g) = spill_offset i g
                in Some (i, [Mov S_none (Reg 8 (phys i)) (Mem (- off) RBP)],
                     g\<lparr>ever_used := insert i (ever_used g), spilled := insert i (spilled g),
                       spill_count := spill_count g + 1\<rparr>))))"

definition free_reg :: "nat \<Rightarrow> unit gm" where
  "free_reg i g =
     (if i \<in> spilled g then
        (let (off, g) = spill_offset i g
         in Some ((), [Mov S_none (Mem (- off) RBP) (Reg 8 (phys i))],
              g\<lparr>used := used g - {i}, spilled := spilled g - {i}\<rparr>))
      else Some ((), [], g\<lparr>used := used g - {i}\<rparr>))"

text \<open>\<open>if (r != -1) free_reg(r)\<close>: the result \<open>-1\<close> of \<open>gen\<close> is \<open>None\<close>.\<close>

definition free_opt :: "nat option \<Rightarrow> unit gm" where
  "free_opt r = (case r of None \<Rightarrow> gret () | Some i \<Rightarrow> free_reg i)"

definition new_label :: "nat gm" where
  "new_label g = Some (label_count g + 1, [], g\<lparr>label_count := label_count g + 1\<rparr>)"

text \<open>A state at the start of a function body.\<close>

definition fresh_gst :: "nat \<Rightarrow> gst" where
  "fresh_gst n =
     init_spill_slots \<lparr>used = {}, ever_used = {}, spilled = {}, spill_count = 0, spill_slot = (\<lambda>_. 0),
       next_spill_slot = 0, spill_logand = 0, spill_atomic_old = 0, label_count = n,
       break_stack = [], continue_stack = []\<rparr>"

section \<open>Types\<close>

definition op_size :: "ctype \<Rightarrow> int" where
  "op_size t =
     (if is_integer t \<and> sizeof t < 4 then 4 else if sizeof t > 8 then 8 else sizeof t)"

definition promote_int :: "ctype \<Rightarrow> ctype" where
  "promote_int t = (if is_integer t \<and> sizeof t < 4 then ty_int else t)"

definition size_suffix :: "int \<Rightarrow> sfx" where
  "size_suffix sz = (if sz = 1 then S_b else if sz = 2 then S_w else if sz = 4 then S_l else S_q)"

definition use_unsigned :: "ctype \<Rightarrow> bool" where
  "use_unsigned t \<longleftrightarrow> is_integer t \<and> unsigned_ty t"

definition use_unsigned_cmp :: "ctype \<Rightarrow> ctype \<Rightarrow> bool" where
  "use_unsigned_cmp lt rt =
     (let l = promote_int lt; r = promote_int rt;
          sz = max 4 (max (sizeof l) (sizeof r))
      in unsigned_ty (get_integer_type sz (unsigned_ty l \<or> unsigned_ty r)))"

section \<open>Widening and loading\<close>

definition sign_extend_to :: "nat \<Rightarrow> int \<Rightarrow> int \<Rightarrow> unit gm" where
  "sign_extend_to r from_size to_size =
     (if to_size \<le> from_size then gret ()
      else if to_size = 8 then
        emit [if from_size = 4 then Ext True 4 8 (Reg 4 (phys r)) (phys r)
              else if from_size = 2 then Ext True 2 8 (Reg 2 (phys r)) (phys r)
              else if from_size = 1 then Ext True 1 8 (Reg 1 (phys r)) (phys r)
              else Ext True 4 8 (Reg 4 (phys r)) (phys r)]
      else if to_size = 4 then
        emit [if from_size = 2 then Ext True 2 4 (Reg 2 (phys r)) (phys r)
              else if from_size = 1 then Ext True 1 4 (Reg 1 (phys r)) (phys r)
              else Mov S_none (Reg 4 (phys r)) (Reg 4 (phys r))]
      else gret ())"

definition zero_extend_to :: "nat \<Rightarrow> int \<Rightarrow> int \<Rightarrow> unit gm" where
  "zero_extend_to r from_size to_size =
     (if to_size \<le> from_size then gret ()
      else if to_size = 8 \<or> to_size = 4 then
        emit [if from_size = 4 then Mov S_none (Reg 4 (phys r)) (Reg 4 (phys r))
              else if from_size = 2 then Ext False 2 4 (Reg 2 (phys r)) (phys r)
              else if from_size = 1 then Ext False 1 4 (Reg 1 (phys r)) (phys r)
              else Mov S_none (Reg 4 (phys r)) (Reg 4 (phys r))]
      else gret ())"

text \<open>For a type of one or two bytes \<open>load_sz\<close> is always 4.\<close>

definition emit_load :: "ctype \<Rightarrow> nat \<Rightarrow> opd \<Rightarrow> unit gm" where
  "emit_load t r a =
     (if sizeof t = 1 then emit [Ext (\<not> unsigned_ty t) 1 4 a (phys r)]
      else if sizeof t = 2 then emit [Ext (\<not> unsigned_ty t) 2 4 a (phys r)]
      else if sizeof t = 4 then emit [Mov S_l a (Reg 4 (phys r))]
      else emit [Mov S_q a (Reg 8 (phys r))])"

end
