(* ===== verification/Peephole.thy ===== *)
theory Peephole
  imports RegAlloc
begin

text \<open>
  The peephole pass over the text of a function body (\<open>emit_peephole_body\<close> in \<open>src/codegen.c\<close>, for x86-64): a window
  of three lines, rewritten by five patterns until none applies. It works on the printed assembly, so this
  theory does: the helpers take lines apart the way the code does with \<open>strchr\<close> and \<open>sscanf\<close>, with the sizes of their
  buffers. A write behind a buffer is \<open>UB\<close>. The conversion \<open>%d\<close> of \<open>sscanf\<close> truncates to 32 bits. A line that was
  deleted is empty.
\<close>

section \<open>Taking lines apart\<close>

text \<open>\<open>strchr\<close>: the text in front of the character and behind it.\<close>

definition split_at :: "char \<Rightarrow> string \<Rightarrow> (string \<times> string) option" where
  "split_at c p =
     (case dropWhile (\<lambda>x. x \<noteq> c) p of [] \<Rightarrow> None | _ # q \<Rightarrow> Some (takeWhile (\<lambda>x. x \<noteq> c) p, q))"

definition skip_blanks :: "string \<Rightarrow> string" where
  "skip_blanks p = dropWhile (\<lambda>c. c = CHR '' '' \<or> c = CHR 0x09) p"

text \<open>What fits into a buffer of \<open>n\<close> bytes.\<close>

definition buf :: "nat \<Rightarrow> string \<Rightarrow> string option" where
  "buf n s = (if length s < n then Some s else None)"

text \<open>The conversion \<open>%d\<close> and the literal texts of \<open>sscanf\<close>.\<close>

definition scan_int :: "string \<Rightarrow> (int \<times> string) option" where
  "scan_int p =
     (let q = dropWhile is_space p;
          neg = (deref q = CHR ''-'');
          q1 = (if deref q = CHR ''-'' \<or> deref q = CHR ''+'' then tl q else q);
          ds = takeWhile is_digit q1
      in if ds = [] then None
         else Some (wrap32 (clamp_long ((if neg then -1 else 1) * int (digits_value 10 0 ds))), drop (length ds) q1))"

definition scan_text :: "string \<Rightarrow> string \<Rightarrow> string option" where
  "scan_text s p = (if startswith p s then Some (drop (length s) p) else None)"

text \<open>\<open>"-%d"\<close>: what follows does not count, only the number of conversions does.\<close>

definition scan_dash_int :: "string \<Rightarrow> (int \<times> string) option" where
  "scan_dash_int p = Option.bind (scan_text ''-'' p) scan_int"

definition two_operands :: "nat \<Rightarrow> nat \<Rightarrow> string \<Rightarrow> (string \<times> string) option" where
  "two_operands n k p =
     Option.bind (split_at (CHR '','') p) (\<lambda>(a, q).
       Option.bind (buf n a) (\<lambda>a. Option.bind (buf k (skip_blanks q)) (\<lambda>b. Some (a, b))))"

definition peep_mov_reg_reg :: "nat \<Rightarrow> nat \<Rightarrow> string \<Rightarrow> (string \<times> string) option" where
  "peep_mov_reg_reg n k line = Option.bind (scan_text ''  mov '' line) (two_operands n k)"

definition peep_label :: "nat \<Rightarrow> string \<Rightarrow> string option" where
  "peep_label n line =
     Option.bind (split_at (CHR '':'') line) (\<lambda>(a, _). if a = [] then None else buf n a)"

text \<open>The text behind \<open>mov\<close> or \<open>movl\<close> or \<open>movq\<close> and one space.\<close>

definition after_mov :: "string \<Rightarrow> string option" where
  "after_mov line =
     Option.bind (scan_text ''  mov'' line) (\<lambda>p.
       scan_text '' '' (if deref p = CHR ''l'' \<or> deref p = CHR ''q'' then tl p else p))"

definition peep_mov_rbp_reg :: "nat \<Rightarrow> string \<Rightarrow> (int \<times> string) option" where
  "peep_mov_rbp_reg n line =
     Option.bind (after_mov line) (\<lambda>p.
     Option.bind (split_at (CHR '','') p) (\<lambda>(r, q).
     Option.bind (buf n r) (\<lambda>r.
     Option.bind (scan_dash_int (skip_blanks q)) (\<lambda>(off, _). Some (off, r)))))"

text \<open>
  \<open>sscanf(p, "-%d(%%rbp), %s", off, dst)\<close>: the word behind the comma goes to a buffer of 32 bytes without a check. The
  flag says \<open>"dword"\<close>, otherwise \<open>"qword"\<close>.
\<close>

definition peep_mov_reg_rbp :: "string \<Rightarrow> (string \<times> bool \<times> int) option res" where
  "peep_mov_reg_rbp line =
     (case Option.bind (scan_text ''  mov'' line) (\<lambda>p.
             if deref p = CHR ''l'' \<or> deref p = CHR ''q'' then
               Option.bind (scan_text '' '' (tl p)) (\<lambda>p1.
               Option.bind (scan_dash_int p1) (\<lambda>(off, p2).
               Option.bind (scan_text ''(%rbp),'' p2) (\<lambda>p3.
               Some (takeWhile (\<lambda>c. \<not> is_space c) (dropWhile is_space p3), deref p = CHR ''l'', off))))
             else None) of
        None \<Rightarrow> Done None
      | Some (dst, dword, off) \<Rightarrow>
          if dst = [] then Done None else if length dst \<ge> 32 then UB else Done (Some (dst, dword, off)))"

definition peep_mov_rbp_imm :: "string \<Rightarrow> (int \<times> int) option" where
  "peep_mov_rbp_imm line =
     Option.bind (scan_text ''movl'' (dropWhile is_space line)) (\<lambda>p.
     Option.bind (scan_text ''$'' (dropWhile is_space p)) (\<lambda>p.
     Option.bind (scan_int p) (\<lambda>(v, p).
     Option.bind (scan_text '','' p) (\<lambda>p.
     Option.bind (scan_dash_int (dropWhile is_space p)) (\<lambda>(off, _). Some (off, v))))))"

definition peep_jmp :: "nat \<Rightarrow> string \<Rightarrow> string option" where
  "peep_jmp n line = Option.bind (scan_text ''  jmp '' line) (buf n)"

text \<open>\<open>strtoll\<close> with base 0 converts as \<open>strtol\<close> does.\<close>

definition peep_mov_reg_imm :: "nat \<Rightarrow> string \<Rightarrow> (string \<times> int) option" where
  "peep_mov_reg_imm n line =
     Option.bind (after_mov line) (\<lambda>p.
     Option.bind (scan_text ''$'' p) (\<lambda>p.
       let (v, q) = strtol0 p
       in if length q = length p then None
          else Option.bind (scan_text '','' q) (\<lambda>q. Option.bind (buf n (skip_blanks q)) (\<lambda>r. Some (r, v)))))"

definition peep_op_reg_reg :: "nat \<Rightarrow> nat \<Rightarrow> nat \<Rightarrow> string \<Rightarrow> (string \<times> string \<times> string) option" where
  "peep_op_reg_reg l n k line =
     Option.bind (scan_text ''  '' line) (\<lambda>p.
     Option.bind (split_at (CHR '' '') p) (\<lambda>(opr, q).
     Option.bind (buf l opr) (\<lambda>opr. Option.bind (two_operands n k q) (\<lambda>(a, b). Some (opr, a, b)))))"

definition peep_mov_reg_mem :: "nat \<Rightarrow> nat \<Rightarrow> string \<Rightarrow> (string \<times> string) option" where
  "peep_mov_reg_mem n k line =
     Option.bind (after_mov line) (\<lambda>p. map_option (\<lambda>(m, r). (r, m)) (two_operands k n p))"

section \<open>Register names\<close>

definition strip_percent :: "string \<Rightarrow> string" where
  "strip_percent s = (if deref s = CHR ''%'' then tl s else s)"

definition phys_reg_id :: "string \<Rightarrow> nat option" where
  "phys_reg_id s0 =
     (let s = strip_percent s0;
          short = (\<lambda>r. startswith s r \<and> (deref_at s 2 = NUL \<or> deref_at s 2 \<in> set ''dwb''))
      in if startswith s ''r10'' then Some 10
         else if startswith s ''r11'' then Some 11
         else if startswith s ''r12'' then Some 12
         else if startswith s ''r13'' then Some 13
         else if startswith s ''r14'' then Some 14
         else if startswith s ''r15'' then Some 15
         else if startswith s ''rax'' \<or> startswith s ''eax'' \<or> s = ''al'' \<or> s = ''ax'' then Some 0
         else if startswith s ''rcx'' \<or> startswith s ''ecx'' \<or> s = ''cl'' \<or> s = ''cx'' then Some 1
         else if startswith s ''rdx'' \<or> startswith s ''edx'' \<or> s = ''dl'' \<or> s = ''dx'' then Some 2
         else if startswith s ''rbx'' \<or> startswith s ''ebx'' \<or> s = ''bl'' \<or> s = ''bx'' then Some 3
         else if startswith s ''rsp'' \<or> startswith s ''esp'' then Some 4
         else if startswith s ''rbp'' \<or> startswith s ''ebp'' then Some 5
         else if startswith s ''rsi'' \<or> startswith s ''esi'' \<or> s = ''sil'' \<or> s = ''si'' then Some 6
         else if short ''r8'' then Some 8
         else if short ''r9'' then Some 9
         else None)"

definition same_phys :: "string \<Rightarrow> string \<Rightarrow> bool" where
  "same_phys a b \<longleftrightarrow> phys_reg_id a \<noteq> None \<and> phys_reg_id a = phys_reg_id b"

definition to32 :: "string \<Rightarrow> string option" where
  "to32 s =
     map_of [(''rax'', ''%eax''), (''rcx'', ''%ecx''), (''rdx'', ''%edx''), (''r8'', ''%r8d''), (''r9'', ''%r9d''),
       (''r10'', ''%r10d''), (''r11'', ''%r11d''), (''rbx'', ''%ebx''), (''r12'', ''%r12d''), (''r13'', ''%r13d''),
       (''r14'', ''%r14d''), (''r15'', ''%r15d''), (''rsi'', ''%esi'')] (strip_percent s)"

definition is_reg :: "string \<Rightarrow> bool" where
  "is_reg s0 \<longleftrightarrow>
     (let s = strip_percent s0
      in deref s = CHR ''r'' \<or> deref s = CHR ''e'' \<or> startswith s ''si'' \<or> startswith s ''bl'' \<or> startswith s ''bx'')"

section \<open>The patterns\<close>

definition mov_line :: "string \<Rightarrow> string \<Rightarrow> string" where
  "mov_line a b = ''  mov '' @ a @ '', '' @ b"

text \<open>Pattern 1, the new second line: the value is taken from where the first \<open>mov\<close> took it.\<close>

definition peep_pattern1 :: "string \<Rightarrow> string \<Rightarrow> string option" where
  "peep_pattern1 a b =
     (case (peep_mov_reg_reg 80 80 a, peep_mov_reg_reg 80 80 b) of
        (Some (d1, s1), Some (d2, s2)) \<Rightarrow>
          if d2 = s1 \<and> d1 \<noteq> d2 \<and> is_reg d1 \<and> is_reg s1 \<and> is_reg s2 then Some (mov_line d1 s2) else None
      | _ \<Rightarrow> None)"

text \<open>Pattern 2, the new second line: a load of what the first line has stored.\<close>

definition peep_pattern2b :: "string \<Rightarrow> string \<Rightarrow> string option res" where
  "peep_pattern2b a b =
     (case peep_mov_rbp_imm a of
        None \<Rightarrow> Done None
      | Some (off1, v) \<Rightarrow>
          rmap (\<lambda>r. case r of
              None \<Rightarrow> None
            | Some (dr, dword, off2) \<Rightarrow>
                if off1 = off2 \<and> dword then Some (''  movl $'' @ show_int v @ '', '' @ dr) else None)
            (peep_mov_reg_rbp b))"

definition peep_pattern2 :: "string \<Rightarrow> string \<Rightarrow> string option res" where
  "peep_pattern2 a b =
     (case peep_mov_rbp_reg 32 a of
        None \<Rightarrow> peep_pattern2b a b
      | Some (off1, sr) \<Rightarrow>
          rbind (peep_mov_reg_rbp b) (\<lambda>r.
            case r of
              None \<Rightarrow> peep_pattern2b a b
            | Some (dr, dword, off2) \<Rightarrow>
                if off1 \<noteq> off2 then peep_pattern2b a b
                else if dword then
                  (case to32 sr of Some r32 \<Rightarrow> Done (Some (mov_line r32 dr)) | None \<Rightarrow> peep_pattern2b a b)
                else Done (Some (mov_line sr dr))))"

text \<open>Pattern 3: a jump to the next line.\<close>

definition peep_pattern3 :: "string \<Rightarrow> string \<Rightarrow> bool" where
  "peep_pattern3 a b =
     (case (peep_jmp 80 a, peep_label 80 b) of
        (Some l1, Some l2) \<Rightarrow> l1 = dropWhile (\<lambda>c. c = CHR '' '') l2
      | _ \<Rightarrow> False)"

text \<open>Pattern 4, the new second line (empty if it is deleted): an operation with a register just loaded with a constant.\<close>

definition op_name :: "string \<Rightarrow> string" where
  "op_name opr = (if length opr > 1 \<and> last opr \<in> set ''lqwb'' then butlast opr else opr)"

definition peep_pattern4 :: "string \<Rightarrow> string \<Rightarrow> string option" where
  "peep_pattern4 a b =
     (case peep_mov_reg_imm 32 a of
        None \<Rightarrow> None
      | Some (reg1, v) \<Rightarrow>
          if \<not> is_reg reg1 then None
          else
            let v_check = fst (strtol0 (tl (dropWhile (\<lambda>c. c \<noteq> CHR ''$'') a)))
            in if wrap32 v_check \<noteq> v_check then None
               else case peep_op_reg_reg 16 64 32 b of
                  None \<Rightarrow> None
                | Some (opr, od, os) \<Rightarrow>
                    if \<not> same_phys od reg1 then None
                    else
                      let name = op_name opr
                      in if name \<in> {''cmp'', ''add'', ''sub'', ''and'', ''or'', ''xor'', ''imul''} then
                           if name \<in> {''add'', ''sub'', ''or'', ''xor''} \<and> v = 0 \<or> name = ''imul'' \<and> v = 1 then Some []
                           else Some (''  '' @ opr @ '' $'' @ show_int v @ '', '' @ os)
                         else None)"

text \<open>The names looked for when the rest of the text is searched for a register.\<close>

definition reg_variants :: "nat \<Rightarrow> string list" where
  "reg_variants pid =
     (case find (\<lambda>r. phys_reg_id (reg_text 8 r) = Some pid) alloc_regs of
        None \<Rightarrow> [] | Some r \<Rightarrow> [reg_text 8 r, reg_text 4 r]) @
     (if pid = 0 then [''%rax'', ''%eax'', ''%al'']
      else if pid = 1 then [''%rcx'', ''%ecx'', ''%cl'']
      else if pid = 2 then [''%rdx'', ''%edx'']
      else if pid = 3 then [''%rbx'', ''%ebx'', ''%bl'']
      else [])"

fun occurs_in :: "string \<Rightarrow> string \<Rightarrow> bool" where
  "occurs_in v [] = (v = [])"
| "occurs_in v (c # p) = (startswith (c # p) v \<or> occurs_in v p)"

fun live_scan :: "nat \<Rightarrow> string list \<Rightarrow> string \<Rightarrow> bool" where
  "live_scan 0 vs p = False"
| "live_scan (Suc cnt) vs p =
     (if p = [] then False
      else let line = takeWhile (\<lambda>c. c \<noteq> NL) p
        in if line \<noteq> [] \<and> (deref line \<noteq> CHR '' '' \<or> list_ex (\<lambda>v. occurs_in v line) vs) then True
           else live_scan cnt vs (drop (Suc (length line)) p))"

definition reg_live_in_text :: "string \<Rightarrow> nat \<Rightarrow> bool" where
  "reg_live_in_text text pid = live_scan 30 (reg_variants pid) text"

text \<open>Pattern 5, the new first and second line; the third is deleted.\<close>

definition peep_pattern5 :: "string \<Rightarrow> string \<Rightarrow> string \<Rightarrow> string \<Rightarrow> (string \<times> string) option" where
  "peep_pattern5 a b c rest =
     (case (peep_mov_reg_mem 32 128 a, peep_op_reg_reg 16 32 32 b, peep_mov_reg_reg 32 32 c) of
        (Some (r1, mem1), Some (op2, r2, imm2), Some (d3, r3)) \<Rightarrow>
          if r1 = imm2 \<and> imm2 = r3 \<and> is_reg d3 \<and> \<not> is_reg mem1 then
            if (case phys_reg_id r1 of None \<Rightarrow> False | Some pid \<Rightarrow> reg_live_in_text rest pid) then None
            else Some (mov_line mem1 d3, ''  '' @ op2 @ '' '' @ r2 @ '', '' @ d3)
          else None
      | _ \<Rightarrow> None)"

section \<open>The window\<close>

text \<open>The next line of the window that is not empty.\<close>

definition next_line :: "string list \<Rightarrow> nat \<Rightarrow> nat option" where
  "next_line w i = find (\<lambda>j. w ! j \<noteq> []) [Suc i..<length w]"

definition rewrite_at :: "string list \<Rightarrow> string \<Rightarrow> nat \<Rightarrow> nat \<Rightarrow> string list option res" where
  "rewrite_at w rest ii jj =
     (case peep_pattern1 (w ! ii) (w ! jj) of
        Some l \<Rightarrow> Done (Some (w[jj := l]))
      | None \<Rightarrow>
          rbind (peep_pattern2 (w ! ii) (w ! jj)) (\<lambda>p2.
            case p2 of
              Some l \<Rightarrow> Done (Some (w[jj := l]))
            | None \<Rightarrow>
                Done (if peep_pattern3 (w ! ii) (w ! jj) then Some (w[ii := []])
                      else case peep_pattern4 (w ! ii) (w ! jj) of
                          Some l \<Rightarrow> Some (w[jj := l])
                        | None \<Rightarrow>
                            (case next_line w jj of
                               None \<Rightarrow> None
                             | Some kk \<Rightarrow>
                                 map_option (\<lambda>(a, b). w[ii := a, jj := b, kk := []])
                                   (peep_pattern5 (w ! ii) (w ! jj) (w ! kk) rest)))))"

fun rewrite_from :: "string list \<Rightarrow> string \<Rightarrow> nat list \<Rightarrow> string list option res" where
  "rewrite_from w rest [] = Done None"
| "rewrite_from w rest (ii # is) =
     (if w ! ii = [] then rewrite_from w rest is
      else case next_line w ii of
          None \<Rightarrow> Done None
        | Some jj \<Rightarrow>
            rbind (rewrite_at w rest ii jj) (\<lambda>r.
              case r of Some w' \<Rightarrow> Done (Some w') | None \<Rightarrow> rewrite_from w rest is))"

definition rewrite_window :: "string list \<Rightarrow> string \<Rightarrow> string list option res" where
  "rewrite_window w rest = rewrite_from w rest [0..<length w]"

fun settle :: "nat \<Rightarrow> string list \<Rightarrow> string \<Rightarrow> string list res" where
  "settle 0 w rest = Fuel"
| "settle (Suc n) w rest =
     rbind (rewrite_window w rest) (\<lambda>r. case r of None \<Rightarrow> Done w | Some w' \<Rightarrow> settle n w' rest)"

text \<open>The window is rewritten less than 256 times before the next line comes (\<open>settle_ends\<close>).\<close>

definition SETTLE_FUEL :: nat where
  "SETTLE_FUEL = 256"

definition emit_lines :: "string list \<Rightarrow> string" where
  "emit_lines ls = concat (map (\<lambda>l. if l = [] then [] else l @ [NL]) ls)"

function peep_loop :: "string \<Rightarrow> string list \<Rightarrow> string res" where
  "peep_loop p w =
     (if p = [] then Done (emit_lines w)
      else
        let line = takeWhile (\<lambda>c. c \<noteq> NL) p;
            rest = drop (Suc (length line)) p;
            (out, w) = (if length w = 3 then (emit_lines [w ! 0], tl w) else ([], w))
        in rbind (settle SETTLE_FUEL (w @ [line]) rest) (\<lambda>w. rmap (\<lambda>t. out @ t) (peep_loop rest w)))"
  by auto
termination by (relation "measure (\<lambda>(p, w). length p)") auto

declare peep_loop.simps [simp del]

definition emit_peephole_body :: "bool \<Rightarrow> string \<Rightarrow> string res" where
  "emit_peephole_body opt_O0 body_text = (if opt_O0 then Done body_text else peep_loop body_text [])"

end
