(* ===== verification/PeepholeEnds.thy ===== *)
theory PeepholeEnds
  imports Peephole
begin

text \<open>
  The peephole pass ends on every text. A window is weighed by its lines, its loads from the frame, its
  operations with a register and its pairs of moves, in this order; every rewriting makes it lighter.
\<close>

section \<open>Parsing what was printed\<close>

lemma split_at_Some: "split_at c p = Some (a, q) \<longleftrightarrow> p = a @ c # q \<and> c \<notin> set a"
proof (induction p arbitrary: a)
  case (Cons x p)
  show ?case
  proof (cases "x = c")
    case True
    then show ?thesis by (cases a) (auto simp: split_at_def)
  next
    case False
    then have "split_at c (x # p) = map_option (\<lambda>(a, q). (x # a, q)) (split_at c p)"
      using False by (cases "dropWhile (\<lambda>y. y \<noteq> c) p") (simp_all add: split_at_def del: dropWhile_eq_Nil_conv)
    then show ?thesis using False Cons by (cases a) auto
  qed
qed (simp add: split_at_def)

lemma buf_Some [simp]: "buf n s = Some t \<longleftrightarrow> t = s \<and> length s < n"
  by (auto simp: buf_def)

lemma skip_blanks_idem [simp]: "skip_blanks (skip_blanks p) = skip_blanks p"
  by (induction p) (auto simp: skip_blanks_def)

lemma two_operands_Some:
  "two_operands n k p = Some (a, b) \<longleftrightarrow>
     (\<exists>q. p = a @ CHR '','' # q \<and> CHR '','' \<notin> set a \<and> length a < n \<and> b = skip_blanks q \<and> length b < k)"
  by (auto simp: two_operands_def bind_eq_Some_conv split_at_Some)

lemma two_operands_print:
  assumes "CHR '','' \<notin> set a" "length a < n" "length b < k" "skip_blanks b = b"
  shows "two_operands n k (a @ '', '' @ b) = Some (a, b)"
  using assms by (auto simp: two_operands_Some skip_blanks_def)

lemma scan_text_append [simp]: "scan_text s (s @ p) = Some p"
  by (simp add: scan_text_def startswith_def)

lemma scan_text_Some: "scan_text s p = Some q \<longleftrightarrow> p = s @ q"
  by (auto simp: scan_text_def startswith_iff)

lemma scan_text_Cons [simp]:
  "scan_text [] p = Some p"
  "scan_text (c # s) (d # p) = (if c = d then scan_text s p else None)"
  "scan_text (c # s) [] = None"
  by (auto simp: scan_text_def)

section \<open>The window settles\<close>

definition load_line :: "string \<Rightarrow> bool" where
  "load_line l \<longleftrightarrow> peep_mov_reg_rbp l \<noteq> Done None"

definition op_line :: "string \<Rightarrow> bool" where
  "op_line l \<longleftrightarrow>
     (case peep_op_reg_reg 16 64 32 l of
        None \<Rightarrow> False
      | Some (opr, od, _) \<Rightarrow>
          op_name opr \<in> {''cmp'', ''add'', ''sub'', ''and'', ''or'', ''xor'', ''imul''} \<and> phys_reg_id od \<noteq> None)"

definition able :: "string \<Rightarrow> string \<Rightarrow> bool" where
  "able a b \<longleftrightarrow> peep_pattern1 a b \<noteq> None"

lemma mov_not_op:
  assumes "scan_text ''  mov'' l = Some p" "p = CHR '' '' # q \<or> p = CHR ''l'' # CHR '' '' # q"
  shows "\<not> op_line l"
proof -
  have "opr \<in> {''mov'', ''movl''}" if "peep_op_reg_reg 16 64 32 l = Some (opr, od, os)" for opr od os
  proof -
    have l: "l = ''  '' @ ''mov'' @ p" using assms(1) by (simp add: scan_text_Some)
    have "split_at CHR '' '' (''mov'' @ p) = Some (''mov'', q) \<or> split_at CHR '' '' (''mov'' @ p) = Some (''movl'', q)"
      using assms(2) by (auto simp: split_at_Some)
    then show ?thesis using that unfolding l by (auto simp: peep_op_reg_reg_def bind_eq_Some_conv)
  qed
  then show ?thesis by (fastforce simp: op_line_def op_name_def split: option.splits)
qed

lemma mov_line_plain: "mov_line a b \<noteq> []" "\<not> load_line (mov_line a b)" "\<not> op_line (mov_line a b)"
proof -
  show "mov_line a b \<noteq> []" by (simp add: mov_line_def)
  show "\<not> load_line (mov_line a b)" by (simp add: load_line_def peep_mov_reg_rbp_def mov_line_def)
  show "\<not> op_line (mov_line a b)" by (rule mov_not_op [of _ "CHR '' '' # a @ '', '' @ b"]) (simp_all add: mov_line_def)
qed

lemma movl_imm_plain: "\<not> load_line (''  movl $'' @ p)" "\<not> op_line (''  movl $'' @ p)"
proof -
  show "\<not> load_line (''  movl $'' @ p)" by (simp add: load_line_def peep_mov_reg_rbp_def scan_dash_int_def)
  show "\<not> op_line (''  movl $'' @ p)" by (rule mov_not_op [of _ "CHR ''l'' # '' $'' @ p"]) simp_all
qed

lemma pattern1_effect:
  assumes "peep_pattern1 a b = Some l"
  shows "l \<noteq> []" "\<not> load_line l" "\<not> op_line l" "\<not> able a l"
proof -
  obtain d1 s1 s2 where p: "peep_mov_reg_reg 80 80 a = Some (d1, s1)" "peep_mov_reg_reg 80 80 b = Some (s1, s2)"
    "d1 \<noteq> s1" "l = mov_line d1 s2"
    using assms by (auto simp: peep_pattern1_def split: option.splits if_splits)
  show "l \<noteq> []" "\<not> load_line l" "\<not> op_line l" using p(4) mov_line_plain by auto
  have "two_operands 80 80 (d1 @ '', '' @ s2) = Some (d1, s2)"
    using p(1,2) by (intro two_operands_print) (auto simp: peep_mov_reg_reg_def bind_eq_Some_conv two_operands_Some)
  then have "peep_mov_reg_reg 80 80 l = Some (d1, s2)" using p(4) by (simp add: peep_mov_reg_reg_def mov_line_def)
  then show "\<not> able a l" using p(1,3) by (auto simp: able_def peep_pattern1_def)
qed

lemma pattern2b_SomeE:
  assumes "peep_pattern2b a b = Done (Some l)"
  obtains off v dr where "peep_mov_rbp_imm a = Some (off, v)" "peep_mov_reg_rbp b = Done (Some (dr, True, off))"
    "l = ''  movl $'' @ show_int v @ '', '' @ dr"
proof -
  obtain off v r where a: "peep_mov_rbp_imm a = Some (off, v)" "peep_mov_reg_rbp b = Done r"
    "(case r of None \<Rightarrow> None | Some (dr, dword, off2) \<Rightarrow>
        if off = off2 \<and> dword then Some (''  movl $'' @ show_int v @ '', '' @ dr) else None) = Some l"
    using assms unfolding peep_pattern2b_def by (auto split: option.splits)
  then show thesis using that by (cases r) (auto split: if_splits)
qed

lemma pattern2_SomeE:
  assumes "peep_pattern2 a b = Done (Some l)"
  obtains "peep_pattern2b a b = Done (Some l)"
  | off sr dr r32 where "peep_mov_rbp_reg 32 a = Some (off, sr)" "peep_mov_reg_rbp b = Done (Some (dr, True, off))"
      "to32 sr = Some r32" "l = mov_line r32 dr"
  | off sr dr where "peep_mov_rbp_reg 32 a = Some (off, sr)" "peep_mov_reg_rbp b = Done (Some (dr, False, off))" "l = mov_line sr dr"
proof (cases "peep_mov_rbp_reg 32 a")
  case None
  then show thesis using assms that(1) by (simp add: peep_pattern2_def)
next
  case (Some p)
  then obtain off sr where p: "peep_mov_rbp_reg 32 a = Some (off, sr)" by (cases p) auto
  then obtain r where r: "peep_mov_reg_rbp b = Done r" using assms by (auto simp: peep_pattern2_def)
  show thesis
  proof (cases r)
    case None
    then show thesis using assms that(1) p r by (simp add: peep_pattern2_def)
  next
    case (Some q)
    then obtain dr dw off2 where "peep_mov_reg_rbp b = Done (Some (dr, dw, off2))" using r by (cases q) auto
    then show thesis using assms that p by (cases dw) (auto simp: peep_pattern2_def split: if_splits option.splits)
  qed
qed

lemma pattern2_effect:
  assumes "peep_pattern2 a b = Done (Some l)"
  shows "l \<noteq> []" "load_line b" "\<not> load_line l" "\<not> op_line l"
proof -
  have "load_line b \<and> ((\<exists>x y. l = mov_line x y) \<or> (\<exists>p. l = ''  movl $'' @ p))"
    using assms by (elim pattern2_SomeE pattern2b_SomeE) (simp_all add: load_line_def, blast+)
  then consider x y where "load_line b" "l = mov_line x y" | p where "load_line b" "l = ''  movl $'' @ p" by blast
  then have "l \<noteq> [] \<and> load_line b \<and> \<not> load_line l \<and> \<not> op_line l"
  proof cases
    case 1
    then show ?thesis using mov_line_plain by simp
  next
    case 2
    then show ?thesis using movl_imm_plain by simp
  qed
  then show "l \<noteq> []" "load_line b" "\<not> load_line l" "\<not> op_line l" by simp_all
qed

lemma op_name_cases:
  assumes "op_name opr \<in> {''cmp'', ''add'', ''sub'', ''and'', ''or'', ''xor'', ''imul''}"
  obtains c where "opr = op_name opr" | c where "opr = op_name opr @ [c]"
  using assms that by (cases opr rule: rev_cases) (auto simp: op_name_def split: if_splits)

lemma pattern4_SomeE:
  assumes "peep_pattern4 a b = Some l"
  obtains reg1 v opr od os where "peep_mov_reg_imm 32 a = Some (reg1, v)" "is_reg reg1" "peep_op_reg_reg 16 64 32 b = Some (opr, od, os)"
    "same_phys od reg1" "op_name opr \<in> {''cmp'', ''add'', ''sub'', ''and'', ''or'', ''xor'', ''imul''}"
    "l = [] \<or> l = ''  '' @ opr @ '' $'' @ show_int v @ '', '' @ os"
proof -
  obtain reg1 v where 1: "peep_mov_reg_imm 32 a = Some (reg1, v)"
    using assms by (cases "peep_mov_reg_imm 32 a") (auto simp: peep_pattern4_def)
  obtain opr od os where 2: "peep_op_reg_reg 16 64 32 b = Some (opr, od, os)"
    using assms 1 by (cases "peep_op_reg_reg 16 64 32 b") (auto simp: peep_pattern4_def Let_def split: if_splits)
  show thesis
    using assms 1 2 unfolding peep_pattern4_def Let_def
    by (intro that [OF 1 _ 2]) (simp_all split: if_splits)
qed

lemma pattern4_effect:
  assumes "peep_pattern4 a b = Some l" "l \<noteq> []"
  shows "op_line b" "\<not> load_line l" "\<not> op_line l"
proof -
  obtain reg1 v opr od os where q: "peep_op_reg_reg 16 64 32 b = Some (opr, od, os)" "same_phys od reg1"
    "op_name opr \<in> {''cmp'', ''add'', ''sub'', ''and'', ''or'', ''xor'', ''imul''}"
    "l = ''  '' @ opr @ '' $'' @ show_int v @ '', '' @ os"
    using assms(2) pattern4_SomeE [OF assms(1)] by metis
  have "phys_reg_id od \<noteq> None" using q(2) unfolding same_phys_def by (rule conjunct1)
  note p = q(1) this q(3,4)
  show "op_line b" unfolding op_line_def using p by simp
  have m: "scan_text ''mov'' (opr @ q) = None" for q
  proof -
    have "scan_text ''mov'' (name @ t) = None" if "name \<in> {''cmp'', ''add'', ''sub'', ''and'', ''or'', ''xor'', ''imul''}" for name t
      using that by auto
    from this [OF p(3)] show ?thesis using op_name_cases [OF p(3)] by (metis append_assoc)
  qed
  then show "\<not> load_line l" using p(4) by (simp add: load_line_def peep_mov_reg_rbp_def)
  have sp: "CHR '' '' \<notin> set opr" using p(1) by (auto simp: peep_op_reg_reg_def bind_eq_Some_conv split_at_Some)
  have "split_at CHR '' '' (opr @ '' $'' @ q) = Some (opr, CHR ''$'' # q)" for q
    using sp by (simp add: split_at_Some)
  then have "peep_op_reg_reg 16 64 32 l = Option.bind (buf 16 opr) (\<lambda>opr. Option.bind (two_operands 64 32 (CHR ''$'' # show_int v @ '', '' @ os)) (\<lambda>(a, b). Some (opr, a, b)))"
    using p(4) by (simp add: peep_op_reg_reg_def)
  moreover have "phys_reg_id x = None" if x: "two_operands 64 32 (CHR ''$'' # q) = Some (x, y)" for q x y
  proof -
    obtain z where "x = CHR ''$'' # z" using x by (cases x) (auto simp: two_operands_Some)
    then show ?thesis by (simp add: phys_reg_id_def strip_percent_def Let_def)
  qed
  ultimately show "\<not> op_line l" unfolding op_line_def by (auto split: option.splits simp: bind_eq_Some_conv)
qed


text \<open>Lines left, loads from the frame, operations with a register, and pairs for pattern 1, in this order.\<close>

definition count :: "(string \<Rightarrow> bool) \<Rightarrow> string list \<Rightarrow> nat" where
  "count P w = length (filter P w)"

fun pairs :: "string list \<Rightarrow> nat" where
  "pairs (a # b # w) = (if able a b then Suc (length w) else 0) + pairs (b # w)"
| "pairs w = 0"

definition weight :: "string list \<Rightarrow> nat" where
  "weight w = 64 * count (\<lambda>l. l \<noteq> []) w + 16 * count load_line w + 4 * count op_line w + pairs (filter (\<lambda>l. l \<noteq> []) w)"

lemma count_update:
  "j < length w \<Longrightarrow> count P (w[j := l]) + (if P (w ! j) then 1 else 0) = count P w + (if P l then 1 else 0)"
proof (induction w arbitrary: j)
  case (Cons x w)
  then show ?case by (cases j) (auto simp: count_def)
qed simp

lemma count_le: "count P w \<le> length w"
  by (simp add: count_def)

lemma pairs_le: "length w \<le> 3 \<Longrightarrow> pairs w \<le> 3"
  by (cases w rule: pairs.cases) (auto split: list.splits if_splits simp: le_Suc_eq numeral_eq_Suc length_Suc_conv)

lemma weight_bound:
  assumes "length w \<le> 3"
  shows "pairs (filter P w) \<le> 3" "weight w < 256"
    "16 * count load_line w + 4 * count op_line w + pairs (filter (\<lambda>l. l \<noteq> []) w) < 64"
proof -
  have f: "length (filter Q w) \<le> 3" for Q using assms length_filter_le [of Q w] by linarith
  then show p: "pairs (filter P w) \<le> 3" for P by (rule pairs_le)
  have "count Q w \<le> 3" for Q using f by (simp add: count_def)
  note c = this [of load_line] this [of op_line] this [of "\<lambda>l. l \<noteq> []"]
  show "weight w < 256" "16 * count load_line w + 4 * count op_line w + pairs (filter (\<lambda>l. l \<noteq> []) w) < 64"
    using c p [of "\<lambda>l. l \<noteq> []"] by (simp_all add: weight_def)
qed

lemma deleted_lighter:
  assumes "length w \<le> 3" "length w' \<le> 3" "count (\<lambda>l. l \<noteq> []) w' < count (\<lambda>l. l \<noteq> []) w"
  shows "weight w' < weight w"
  using assms weight_bound(3) [of w'] by (simp add: weight_def)

lemma next_lineD:
  assumes "next_line w i = Some j"
  shows "i < j" "j < length w" "w ! j \<noteq> []" "\<And>k. i < k \<Longrightarrow> k < j \<Longrightarrow> w ! k = []"
proof -
  obtain n where n: "n < length w - Suc i" "w ! (Suc i + n) \<noteq> []" "j = Suc i + n" "\<forall>m<n. w ! (Suc i + m) = []"
    using assms by (auto simp: next_line_def find_Some_iff)
  then show "i < j" "j < length w" "w ! j \<noteq> []" by simp_all
  show "w ! k = []" if "i < k" "k < j" for k
  proof -
    have "k - Suc i < n" "Suc i + (k - Suc i) = k" using that n(3) by simp_all
    then show ?thesis using n(4) by metis
  qed
qed

lemma pairs_update:
  assumes "length w \<le> 3" "w ! i \<noteq> []" "next_line w i = Some j" "able (w ! i) (w ! j)" "\<not> able (w ! i) l" "l \<noteq> []"
  shows "pairs (filter (\<lambda>l. l \<noteq> []) (w[j := l])) < pairs (filter (\<lambda>l. l \<noteq> []) w)"
proof -
  note n = next_lineD [OF assms(3)]
  have "length w = 2 \<or> length w = 3" using n(1,2) assms(1) by arith
  then consider x y where "w = [x, y]" "i = 0" "j = 1"
    | x y z where "w = [x, y, z]" "i = 0" "j = 1" | x y z where "w = [x, y, z]" "i = 1" "j = 2"
    | x y z where "w = [x, y, z]" "i = 0" "j = 2" "y = []"
  proof
    assume "length w = 2"
    then obtain x y where "w = [x, y]" by (auto simp: numeral_eq_Suc length_Suc_conv)
    then show thesis using that(1) n(1,2) by (simp add: less_Suc_eq)
  next
    assume "length w = 3"
    then obtain x y z where w: "w = [x, y, z]" by (auto simp: numeral_eq_Suc length_Suc_conv)
    then have "i = 0 \<and> j = 1 \<or> i = 1 \<and> j = 2 \<or> i = 0 \<and> j = 2" using n(1,2) by auto
    then show thesis using that(2-4) w n(4) [of 1] by fastforce
  qed
  then show ?thesis
  proof cases
    case 2
    then show ?thesis using assms(2,4-6) n(3) by (cases "z = []") simp_all
  next
    case 3
    then show ?thesis using assms(2,4-6) n(3) by (cases "x = []") simp_all
  qed (use assms(2,4-6) n(3) in simp_all)
qed

lemma rewrite_at_lighter:
  assumes "length w \<le> 3" "w ! i \<noteq> []" "next_line w i = Some j" "rewrite_at w rest i j = Done (Some w')"
  shows "length w' = length w \<and> weight w' < weight w"
proof -
  note n = next_lineD(1-3) [OF assms(3)]
  let ?ne = "\<lambda>l. l \<noteq> []"
  have upd: "count P (w[j := l]) + (if P (w ! j) then 1 else 0) = count P w + (if P l then 1 else 0)" for P l
    using count_update [OF n(2)] .
  show ?thesis
  proof (cases "peep_pattern1 (w ! i) (w ! j)")
    case (Some l)
    note e = pattern1_effect [OF Some]
    have "pairs (filter ?ne (w[j := l])) < pairs (filter ?ne w)"
      using assms(1-3) Some e(1,4) by (intro pairs_update) (auto simp: able_def)
    moreover have "count ?ne (w[j := l]) = count ?ne w" "count load_line (w[j := l]) \<le> count load_line w" "count op_line (w[j := l]) \<le> count op_line w"
      using upd [of ?ne l] upd [of load_line l] upd [of op_line l] e n(3) by simp_all
    moreover have "w' = w[j := l]" using assms(4) Some by (simp add: rewrite_at_def)
    ultimately show ?thesis by (simp add: weight_def)
  next
    case 1: None
    then obtain p2 where p2: "peep_pattern2 (w ! i) (w ! j) = Done p2" using assms(4) by (auto simp: rewrite_at_def)
    show ?thesis
    proof (cases p2)
      case (Some l)
      then have w': "w' = w[j := l]" using assms(4) 1 p2 by (simp add: rewrite_at_def)
      note e = pattern2_effect [OF p2 [unfolded Some]]
      have "count ?ne w' = count ?ne w" "count load_line w' < count load_line w" "count op_line w' \<le> count op_line w"
        using upd [of ?ne l] upd [of load_line l] upd [of op_line l] e n(3) w' by (simp_all split: if_splits)
      moreover have "count op_line w' \<le> 3" "pairs (filter ?ne w') \<le> 3"
        using count_le [of op_line w'] weight_bound(1) [of w'] assms(1) w' by simp_all
      ultimately show ?thesis using w' by (simp add: weight_def)
    next
      case 2: None
      show ?thesis
      proof (cases "peep_pattern3 (w ! i) (w ! j)")
        case True
        then have "w' = w[i := []]" using assms(4) 1 p2 2 by (simp add: rewrite_at_def)
        moreover have "i < length w" using n by simp
        ultimately show ?thesis using deleted_lighter [OF assms(1)] count_update [of i w ?ne "[]"] assms(1,2) by simp
      next
        case 3: False
        show ?thesis
        proof (cases "peep_pattern4 (w ! i) (w ! j)")
          case (Some l)
          then have w': "w' = w[j := l]" using assms(4) 1 p2 2 3 by (simp add: rewrite_at_def)
          show ?thesis
          proof (cases "l = []")
            case True
            then show ?thesis using w' deleted_lighter [OF assms(1)] upd [of ?ne l] assms(1) n(3) by simp
          next
            case False
            note e = pattern4_effect [OF Some False]
            have "count ?ne w' = count ?ne w" "count load_line w' \<le> count load_line w" "count op_line w' < count op_line w"
              using upd [of ?ne l] upd [of load_line l] upd [of op_line l] e n(3) w' False by (simp_all split: if_splits)
            moreover have "pairs (filter ?ne w') \<le> 3" using weight_bound(1) [of w'] assms(1) w' by simp
            ultimately show ?thesis using w' by (simp add: weight_def)
          qed
        next
          case 4: None
          then obtain k a b where k: "next_line w j = Some k" "w' = w[i := a, j := b, k := []]"
            using assms(4) 1 p2 2 3 by (auto simp: rewrite_at_def split: option.splits)
          note kk = next_lineD(1-3) [OF k(1)]
          have "count ?ne (w[i := a]) \<le> count ?ne w" using count_update [of i w ?ne a] n assms(2) by (simp split: if_splits)
          moreover have "count ?ne (w[i := a, j := b]) \<le> count ?ne (w[i := a])"
            using count_update [of j "w[i := a]" ?ne b] n by (simp split: if_splits)
          moreover have "count ?ne w' < count ?ne (w[i := a, j := b])"
            using count_update [of k "w[i := a, j := b]" ?ne "[]"] kk n k(2) by simp
          ultimately show ?thesis using deleted_lighter [OF assms(1)] assms(1) k(2) by simp
        qed
      qed
    qed
  qed
qed

lemma rewrite_from_lighter:
  "length w \<le> 3 \<Longrightarrow> rewrite_from w rest is = Done (Some w') \<Longrightarrow> length w' = length w \<and> weight w' < weight w"
proof (induction "is")
  case (Cons i "is")
  show ?case
  proof (cases "w ! i = []")
    case False
    then obtain j r where j: "next_line w i = Some j" "rewrite_at w rest i j = Done r"
      "(case r of Some w' \<Rightarrow> Done (Some w') | None \<Rightarrow> rewrite_from w rest is) = Done (Some w')"
      using Cons.prems(2) by (auto split: option.splits)
    then show ?thesis using Cons rewrite_at_lighter [OF Cons.prems(1) False j(1)] by (cases r) auto
  qed (use Cons in simp)
qed simp

text \<open>No pattern runs out of fuel.\<close>

lemma pattern2_not_Fuel: "peep_pattern2 a b \<noteq> Fuel"
proof -
  have r: "peep_mov_reg_rbp b \<noteq> Fuel" by (auto simp: peep_mov_reg_rbp_def split: option.splits)
  then have "peep_pattern2b a b \<noteq> Fuel" by (cases "peep_mov_reg_rbp b") (auto simp: peep_pattern2b_def split: option.splits)
  then show ?thesis using r by (cases "peep_mov_reg_rbp b") (auto simp: peep_pattern2_def split: option.splits)
qed

lemma rewrite_not_Fuel: "rewrite_from w rest is \<noteq> Fuel"
proof (induction "is")
  case (Cons i "is")
  have "rewrite_at w rest i j \<noteq> Fuel" for j
    using pattern2_not_Fuel [of "w ! i" "w ! j"]
    by (cases "peep_pattern2 (w ! i) (w ! j)") (auto simp: rewrite_at_def split: option.splits)
  then show ?case using Cons
    by (cases "next_line w i"; cases "rewrite_at w rest i (the (next_line w i))") (auto split: option.splits)
qed simp

lemma settle_ends:
  assumes "length w \<le> 3" "weight w < n"
  shows "settle n w rest \<noteq> Fuel \<and> (\<forall>w'. settle n w rest = Done w' \<longrightarrow> length w' = length w)"
  using assms
proof (induction n arbitrary: w)
  case (Suc n)
  show ?case
  proof (cases "rewrite_window w rest")
    case Fuel
    then show ?thesis using rewrite_not_Fuel by (simp add: rewrite_window_def)
  next
    case (Done r)
    show ?thesis
    proof (cases r)
      case None
      then show ?thesis using Done by simp
    next
      case (Some w')
      then have "length w' = length w \<and> weight w' < weight w"
        using Done rewrite_from_lighter [OF Suc.prems(1)] unfolding rewrite_window_def by metis
      then show ?thesis using Done Some Suc.IH [of w'] Suc.prems by simp
    qed
  qed simp
qed simp

lemma peep_loop_ends: "length w \<le> 3 \<Longrightarrow> peep_loop p w \<noteq> Fuel"
proof (induction p w rule: peep_loop.induct)
  case (1 p w)
  show ?case
  proof (cases "p = []")
    case False
    define line where "line = takeWhile (\<lambda>c. c \<noteq> NL) p"
    define rest where "rest = drop (Suc (length line)) p"
    define v where "v = (if length w = 3 then tl w else w)"
    have v: "length (v @ [line]) \<le> 3" using 1(2) by (auto simp: v_def)
    have s: "settle SETTLE_FUEL (v @ [line]) rest \<noteq> Fuel"
      "\<And>w'. settle SETTLE_FUEL (v @ [line]) rest = Done w' \<Longrightarrow> length w' \<le> 3"
      using settle_ends [OF v] weight_bound(2) [OF v] v by (auto simp: SETTLE_FUEL_def)
    have "peep_loop p w = rbind (settle SETTLE_FUEL (v @ [line]) rest)
      (\<lambda>w'. rmap (\<lambda>t. (if length w = 3 then emit_lines [w ! 0] else []) @ t) (peep_loop rest w'))"
      using False by (subst peep_loop.simps) (simp add: Let_def line_def rest_def v_def)
    moreover have "peep_loop rest w' \<noteq> Fuel" if "settle SETTLE_FUEL (v @ [line]) rest = Done w'" for w'
      
      using 1(1) [OF False line_def rest_def refl, of "if length w = 3 then emit_lines [w ! 0] else []" v] that s(2) [OF that]
      by (auto simp: v_def)
    ultimately show ?thesis using s(1)
      by (cases "settle SETTLE_FUEL (v @ [line]) rest") (auto simp: rmap_def dest: rbind.elims)
  qed (simp add: peep_loop.simps)
qed

text \<open>
  C24. The peephole pass never loops, whatever the text: the rewriting of the window stops within the 256 rounds the model
  counts for each line. Undefined behaviour (a register name of 32 or more characters behind a load from the frame, which
  overruns its buffer) counts as an end.
\<close>
theorem peephole_ends: "emit_peephole_body opt_O0 body_text \<noteq> Fuel"
  using peep_loop_ends [of "[]"] by (simp add: emit_peephole_body_def)

end
