(* ===== verification/PeepholeText.thy ===== *)
theory PeepholeText
  imports PeepholeEnds
begin

text \<open>
  How the helpers of the peephole pass read the text of an instruction: the bridge from lines to instructions.
\<close>

section \<open>The text of instructions\<close>

definition name_ok :: "string \<Rightarrow> bool" where
  "name_ok s \<longleftrightarrow> list_all (\<lambda>c. is_alpha c \<or> is_digit c \<or> c = CHR ''_'' \<or> c = CHR ''.'') s"

definition plain_opd :: "opd \<Rightarrow> bool" where
  "plain_opd a \<longleftrightarrow>
     (case a of
        Imm v \<Rightarrow> in64 v
      | Reg n r \<Rightarrow> n \<in> {1, 2, 4, 8}
      | Mem d r \<Rightarrow> \<bar>d\<bar> < 2 ^ 31 \<and> (d < 0 \<longrightarrow> r = RBP)
      | Rip s \<Rightarrow> name_ok s)"

text \<open>The instructions printed with two operands.\<close>

fun two_form :: "instr \<Rightarrow> (string \<times> opd \<times> opd) option" where
  "two_form (Mov s a b) = Some (''mov'' @ sfx_text s, a, b)"
| "two_form (Ext sg f t a r) = Some (''mov'' @ (if sg then ''s'' else ''z'') @ size_char f @ size_char t, a, Reg t r)"
| "two_form (Lea a r) = Some (''lea'', a, Reg 8 r)"
| "two_form (Alu oper s a b) = Some (alu_text oper @ sfx_text s, a, b)"
| "two_form (ShiftCl oper n r) = Some (alu_text oper, Reg 1 RCX, Reg n r)"
| "two_form _ = None"

fun plain_label :: "label \<Rightarrow> bool" where
  "plain_label (L_return f) = name_ok f"
| "plain_label (L_label f l) = (name_ok f \<and> name_ok l)"
| "plain_label (L_func f) = name_ok f"
| "plain_label _ = True"

definition is_mem :: "opd \<Rightarrow> bool" where
  "is_mem a \<longleftrightarrow> (case a of Mem _ _ \<Rightarrow> True | Rip _ \<Rightarrow> True | _ \<Rightarrow> False)"

text \<open>
  No \<open>mov\<close> between two places in memory, nor of a constant to memory but with a narrow size, nor of a symbol without a
  size; no operation on a symbol.
\<close>

definition plain_instr :: "instr \<Rightarrow> bool" where
  "plain_instr i \<longleftrightarrow>
     (case two_form i of Some (_, a, b) \<Rightarrow> plain_opd a \<and> plain_opd b | None \<Rightarrow> True) \<and>
     (case i of
        Mov s a b \<Rightarrow>
          \<not> (is_mem a \<and> is_mem b) \<and> (\<forall>v. b \<noteq> Imm v) \<and> \<not> (s \<in> {S_none, S_l, S_q} \<and> (\<exists>v. a = Imm v) \<and> is_mem b) \<and>
          (s = S_none \<longrightarrow> (\<forall>n. a \<noteq> Rip n \<and> b \<noteq> Rip n))
      | Alu _ _ a _ \<Rightarrow> (\<forall>n. a \<noteq> Rip n)
      | ShiftCl k _ _ \<Rightarrow> k \<in> {A_shl, A_shr, A_sar}
      | INeg n r \<Rightarrow> n \<in> {1, 2, 4, 8} | INot n r \<Rightarrow> n \<in> {1, 2, 4, 8} | Div _ n r \<Rightarrow> n \<in> {1, 2, 4, 8}
      | Jcc _ l \<Rightarrow> plain_label l | Jmp l \<Rightarrow> plain_label l | Label l \<Rightarrow> plain_label l
      | _ \<Rightarrow> True)"

lemma instr_text_two: "two_form i = Some (m, a, b) \<Longrightarrow> instr_text i = two m a b"
  by (cases i rule: two_form.cases) auto

subsection \<open>Characters\<close>

text \<open>What can occur in an operand: no blank, comma or line end.\<close>

definition word_chars :: "string \<Rightarrow> bool" where
  "word_chars s \<longleftrightarrow> list_all (\<lambda>c. \<not> is_space c \<and> c \<noteq> CHR '','' \<and> c \<noteq> CHR '':'') s"

lemma word_chars_simps [simp]:
  "word_chars []" "word_chars (c # s) \<longleftrightarrow> \<not> is_space c \<and> c \<noteq> CHR '','' \<and> c \<noteq> CHR '':'' \<and> word_chars s"
  "word_chars (s @ t) \<longleftrightarrow> word_chars s \<and> word_chars t"
  by (auto simp: word_chars_def)

lemma is_digit_word: "list_all is_digit s \<Longrightarrow> word_chars s"
  by (auto simp: word_chars_def list_all_iff is_digit_def is_space_def code_def)

lemma word_chars_num: "word_chars (show_nat n)" "word_chars (show_int v)"
proof -
  show n: "word_chars (show_nat n)" for n using show_nat_digits [of n] by (simp add: is_digit_word)
  have "\<not> is_space CHR ''-''" by code_simp
  then show "word_chars (show_int v)" using n by (simp add: show_int_def)
qed

lemma name_ok_word: "name_ok s \<Longrightarrow> word_chars s"
proof -
  have "\<not> is_space c \<and> c \<noteq> CHR '','' \<and> c \<noteq> CHR '':''" if "is_alpha c \<or> is_digit c \<or> c = CHR ''_'' \<or> c = CHR ''.''" for c
    using that by (auto simp: is_alpha_def is_digit_def is_space_def code_def)
  then show "name_ok s \<Longrightarrow> word_chars s" by (auto simp: name_ok_def word_chars_def list_all_iff)
qed

lemma all_regs: "(\<forall>r. P r) \<longleftrightarrow> list_all P [RAX, RCX, RDX, RBX, RSP, RBP, RSI, RDI, R8, R9, R10, R11, R12, R13, R14, R15]"
  (is "_ \<longleftrightarrow> list_all P ?rs")
proof -
  have "r \<in> set ?rs" for r by (cases r) auto
  then show ?thesis by (metis list_all_iff)
qed

lemma reg_text_facts:
  assumes "n \<in> {1, 2, 4, 8}"
  shows "word_chars (reg_text n r)" "hd (reg_text n r) = CHR ''%''" "reg_text n r \<noteq> []" "length (reg_text n r) < 6"
proof -
  have "list_all (\<lambda>n. list_all (\<lambda>r. word_chars (reg_text n r) \<and> hd (reg_text n r) = CHR ''%'' \<and> reg_text n r \<noteq> [] \<and> length (reg_text n r) < 6)
    [RAX, RCX, RDX, RBX, RSP, RBP, RSI, RDI, R8, R9, R10, R11, R12, R13, R14, R15]) [1, 2, 4, 8]"
    by code_simp
  then have "\<forall>r. word_chars (reg_text n r) \<and> hd (reg_text n r) = CHR ''%'' \<and> reg_text n r \<noteq> [] \<and> length (reg_text n r) < 6"
    unfolding all_regs using assms by (auto simp: list_all_iff)
  then show "word_chars (reg_text n r)" "hd (reg_text n r) = CHR ''%''" "reg_text n r \<noteq> []" "length (reg_text n r) < 6" by simp_all
qed

lemma reg_text_inj:
  assumes "n \<in> {1, 2, 4, 8}" "n' \<in> {1, 2, 4, 8}" "reg_text n r = reg_text n' r'"
  shows "n = n' \<and> r = r'"
proof -
  have "list_all (\<lambda>n. list_all (\<lambda>n'. list_all (\<lambda>r. list_all (\<lambda>r'. reg_text n r = reg_text n' r' \<longrightarrow> n = n' \<and> r = r')
    [RAX, RCX, RDX, RBX, RSP, RBP, RSI, RDI, R8, R9, R10, R11, R12, R13, R14, R15])
    [RAX, RCX, RDX, RBX, RSP, RBP, RSI, RDI, R8, R9, R10, R11, R12, R13, R14, R15]) [1, 2, 4, 8]) [1, 2, 4, 8]"
    by code_simp
  then have "\<forall>r r'. reg_text n r = reg_text n' r' \<longrightarrow> n = n' \<and> r = r'"
    unfolding all_regs using assms(1,2) by (auto simp: list_all_iff)
  then show ?thesis using assms(3) by blast
qed

lemma word_chars_opd: "plain_opd a \<Longrightarrow> word_chars (opd_text a)"
proof (cases a)
  case (Mem d r)
  have "word_chars (reg_text 8 r)" by (rule reg_text_facts) simp
  moreover have "\<not> is_space CHR ''(''" "\<not> is_space CHR '')''" by code_simp+
  ultimately show ?thesis using Mem by (simp add: word_chars_num)
next
  case (Rip s)
  moreover have "\<not> is_space CHR ''(''" "\<not> is_space CHR '')''" "\<not> is_space CHR ''%''" "\<not> is_space CHR ''r''" "\<not> is_space CHR ''i''"
    "\<not> is_space CHR ''p''" by code_simp+
  moreover assume "plain_opd a"
  ultimately show ?thesis by (simp add: name_ok_word plain_opd_def)
next
  case (Imm v)
  have "\<not> is_space CHR ''$''" by code_simp
  then show ?thesis using Imm by (simp add: word_chars_num)
qed (simp add: plain_opd_def reg_text_facts)

section \<open>Lines read back\<close>

lemma not_space [simp]:
  "\<not> is_space CHR ''a''"
  "\<not> is_space CHR ''b''"
  "\<not> is_space CHR ''c''"
  "\<not> is_space CHR ''d''"
  "\<not> is_space CHR ''e''"
  "\<not> is_space CHR ''f''"
  "\<not> is_space CHR ''g''"
  "\<not> is_space CHR ''h''"
  "\<not> is_space CHR ''i''"
  "\<not> is_space CHR ''j''"
  "\<not> is_space CHR ''k''"
  "\<not> is_space CHR ''l''"
  "\<not> is_space CHR ''m''"
  "\<not> is_space CHR ''n''"
  "\<not> is_space CHR ''o''"
  "\<not> is_space CHR ''p''"
  "\<not> is_space CHR ''q''"
  "\<not> is_space CHR ''r''"
  "\<not> is_space CHR ''s''"
  "\<not> is_space CHR ''t''"
  "\<not> is_space CHR ''u''"
  "\<not> is_space CHR ''v''"
  "\<not> is_space CHR ''w''"
  "\<not> is_space CHR ''x''"
  "\<not> is_space CHR ''y''"
  "\<not> is_space CHR ''z''"
  "\<not> is_space CHR ''.''"
  "\<not> is_space CHR ''$''"
  "\<not> is_space CHR ''%''"
  "\<not> is_space CHR ''(''"
  "\<not> is_space CHR '')''"
  "\<not> is_space CHR ''-''"
  by code_simp+

lemma space_split:
  "CHR '' '' \<notin> set m \<Longrightarrow> CHR '' '' \<notin> set n \<Longrightarrow> m @ CHR '' '' # p = n @ CHR '' '' # q \<longleftrightarrow> m = n \<and> p = q"
proof (induction m arbitrary: n)
  case Nil
  then show ?case by (cases n) auto
next
  case (Cons x m)
  then show ?case by (cases n) auto
qed

lemma word_chars_space: "word_chars s \<Longrightarrow> CHR '' '' \<notin> set s" "word_chars s \<Longrightarrow> CHR '','' \<notin> set s" "word_chars s \<Longrightarrow> NL \<notin> set s"
  "word_chars s \<Longrightarrow> CHR '':'' \<notin> set s"
proof -
  have "is_space CHR '' ''" "is_space NL" by code_simp+
  then show "word_chars s \<Longrightarrow> CHR '' '' \<notin> set s" "word_chars s \<Longrightarrow> CHR '','' \<notin> set s" "word_chars s \<Longrightarrow> NL \<notin> set s"
    "word_chars s \<Longrightarrow> CHR '':'' \<notin> set s"
    by (auto simp: word_chars_def list_all_iff)
qed

lemma word_chars_blanks: "word_chars s \<Longrightarrow> skip_blanks s = s" "word_chars s \<Longrightarrow> dropWhile is_space s = s"
  "word_chars s \<Longrightarrow> takeWhile (\<lambda>c. \<not> is_space c) s = s"
proof -
  have "is_space CHR '' ''" "is_space CHR 0x09" by code_simp+
  then show "word_chars s \<Longrightarrow> skip_blanks s = s" "word_chars s \<Longrightarrow> dropWhile is_space s = s"
    by (cases s; auto simp: skip_blanks_def)+
  show "word_chars s \<Longrightarrow> takeWhile (\<lambda>c. \<not> is_space c) s = s" by (simp add: word_chars_def list_all_iff takeWhile_eq_all_conv)
qed

lemma two_operands_word:
  assumes "word_chars a" "word_chars b"
  shows "two_operands n k (a @ '', '' @ b) = (if length a < n \<and> length b < k then Some (a, b) else None)"
proof -
  have "split_at CHR '','' (a @ '', '' @ b) = Some (a, CHR '' '' # b)" using word_chars_space [OF assms(1)] by (simp add: split_at_Some)
  moreover have "skip_blanks (CHR '' '' # b) = b" using word_chars_blanks [OF assms(2)] by (simp add: skip_blanks_def)
  ultimately show ?thesis by (auto simp: two_operands_def buf_def)
qed

lemma mnemonic_word: "two_form i = Some (m, a, b) \<Longrightarrow> word_chars m \<and> m \<noteq> []"
proof -
  have s: "word_chars (sfx_text s)" "word_chars (size_char n)" "word_chars (alu_text k)" "alu_text k \<noteq> []" "word_chars ''mov''" "word_chars ''lea''"
    "\<not> is_space CHR ''s''" "\<not> is_space CHR ''z''" for s n k
  proof -
    show "word_chars (sfx_text s)" by (cases s) simp_all
    show "word_chars (size_char n)" by simp
    show "word_chars (alu_text k)" "alu_text k \<noteq> []" by (cases k; simp)+
    show "word_chars ''mov''" "word_chars ''lea''" "\<not> is_space CHR ''s''" "\<not> is_space CHR ''z''" by simp_all
  qed
  show "two_form i = Some (m, a, b) \<Longrightarrow> word_chars m \<and> m \<noteq> []"
    using s by (cases i rule: two_form.cases) auto
qed

lemma mov_mnemonic:
  assumes "two_form i = Some (m, a, b)" "m \<in> {''mov'', ''movl'', ''movq''}"
  obtains s where "i = Mov s a b" "s \<in> {S_none, S_l, S_q}" "m = ''mov'' @ sfx_text s"
proof (cases i rule: two_form.cases)
  case (1 s x y)
  then have "s \<in> {S_none, S_l, S_q}" using assms by (cases s) auto
  then show thesis using 1 assms that by auto
next
  case (2 sg f t x r)
  have "length m = 6" using 2 assms(1) by auto
  then show thesis using assms(2) by auto
next
  case (4 k s x y)
  then show thesis using assms by (cases k) auto
next
  case (5 k n r)
  then show thesis using assms by (cases k) auto
qed (use assms in auto)

lemma plain_two: "plain_instr i \<Longrightarrow> two_form i = Some (m, a, b) \<Longrightarrow> word_chars (opd_text a) \<and> word_chars (opd_text b) \<and> plain_opd a \<and> plain_opd b"
  by (auto simp: plain_instr_def word_chars_opd)

lemma scan_word:
  assumes "word_chars m" "CHR '' '' \<notin> set n"
  shows "scan_text (n @ '' '') (m @ CHR '' '' # p) = (if m = n then Some p else None)"
proof -
  have "scan_text (n @ '' '') (m @ CHR '' '' # p) = Some q \<longleftrightarrow> m = n \<and> p = q" for q
    using space_split [OF word_chars_space(1) [OF assms(1)] assms(2)] by (auto simp: scan_text_Some)
  then show ?thesis by (cases "scan_text (n @ '' '') (m @ CHR '' '' # p)") auto
qed

lemma mov_two:
  assumes "word_chars m" "word_chars (opd_text a)" "word_chars (opd_text b)"
  shows "peep_mov_reg_reg n k (two m a b) =
    (if m = ''mov'' \<and> length (opd_text a) < n \<and> length (opd_text b) < k then Some (opd_text a, opd_text b) else None)"
proof -
  have "scan_text ''  mov '' (two m a b) = (if m = ''mov'' then Some (opd_text a @ '', '' @ opd_text b) else None)"
    using scan_word [OF assms(1), of "''mov''" "opd_text a @ '', '' @ opd_text b"] by (simp add: two_def)
  then show ?thesis using two_operands_word [OF assms(2,3)] by (simp add: peep_mov_reg_reg_def)
qed

lemma op_two:
  assumes "word_chars m" "word_chars (opd_text a)" "word_chars (opd_text b)"
  shows "peep_op_reg_reg l n k (two m a b) =
    (if length m < l \<and> length (opd_text a) < n \<and> length (opd_text b) < k then Some (m, opd_text a, opd_text b) else None)"
proof -
  have "split_at CHR '' '' (m @ CHR '' '' # opd_text a @ '', '' @ opd_text b) = Some (m, opd_text a @ '', '' @ opd_text b)"
    using word_chars_space [OF assms(1)] by (simp add: split_at_Some)
  then show ?thesis using two_operands_word [OF assms(2,3)] by (simp add: peep_op_reg_reg_def two_def buf_def)
qed

lemma after_mov_two:
  assumes "word_chars m"
  shows "after_mov (two m a b) = (if m \<in> {''mov'', ''movl'', ''movq''} then Some (opd_text a @ '', '' @ opd_text b) else None)"
proof -
  let ?p = "opd_text a @ '', '' @ opd_text b"
  have sp: "is_space CHR '' ''" by code_simp
  show ?thesis
  proof (cases "scan_text ''mov'' (m @ CHR '' '' # ?p)")
    case None
    then have "m \<noteq> ''mov'' @ t" for t by (auto simp: scan_text_def startswith_def)
    then have "m \<notin> {''mov'', ''movl'', ''movq''}" by (metis append_Cons append_Nil append_Nil2 insertE singletonD)
    then show ?thesis using None by (simp add: after_mov_def two_def)
  next
    case (Some q)
    then have e: "m @ CHR '' '' # ?p = ''mov'' @ q" by (simp add: scan_text_Some)
    have "\<exists>t. m = ''mov'' @ t"
    proof (cases "length m < 3")
      case True
      then have "CHR '' '' \<in> set ''mov''" using arg_cong [OF e, of "\<lambda>x. x ! length m"] by (auto simp: nth_append less_Suc_eq numeral_eq_Suc)
      then show ?thesis by simp
    next
      case False
      then have "take 3 m = ''mov''" using arg_cong [OF e, of "take 3"] by simp
      then show ?thesis by (metis append_take_drop_id)
    qed
    then obtain t where t: "m = ''mov'' @ t" by blast
    have w: "word_chars t" using assms t by simp
    have "after_mov (two m a b) = scan_text '' '' (if deref (t @ CHR '' '' # ?p) = CHR ''l'' \<or> deref (t @ CHR '' '' # ?p) = CHR ''q'' then tl (t @ CHR '' '' # ?p) else t @ CHR '' '' # ?p)"
      by (simp add: after_mov_def two_def t)
    also have "\<dots> = (if t \<in> {[], ''l'', ''q''} then Some ?p else None)"
    proof (cases t)
      case (Cons x u)
      then show ?thesis using w sp by (cases u) auto
    qed simp
    finally show ?thesis using t by auto
  qed
qed

text \<open>Instructions without two operands.\<close>

lemma plain_label_word: "plain_label l \<Longrightarrow> word_chars (label_text l)"
proof -
  have "word_chars ''.L.end.''" "word_chars ''.L.else.''" "word_chars ''.L.begin.''" "word_chars ''.L.continue.''" "word_chars ''.L.case.''"
    "word_chars ''.L.skip.''" "word_chars ''.L.return.''" "word_chars ''.L.label.''" "word_chars ''.''" by code_simp+
  then show "plain_label l \<Longrightarrow> word_chars (label_text l)"
    by (cases l rule: plain_label.cases) (simp_all only: label_text.simps plain_label.simps word_chars_simps(3) word_chars_num name_ok_word simp_thms)
qed

lemma no_comma_split: "CHR '','' \<notin> set p \<Longrightarrow> split_at CHR '','' p = None"
  by (cases "split_at CHR '','' p") (auto simp: split_at_Some)

lemma one_form_facts:
  assumes "two_form i = None" "plain_instr i"
  shows "CHR '','' \<notin> set (instr_text i)" "scan_text ''  mov'' (instr_text i) = None" "CHR ''$'' \<notin> set (instr_text i)"
    "NL \<notin> set (instr_text i)" "instr_text i \<noteq> []"
proof -
  have dol: "CHR ''$'' \<notin> set s" if "name_ok s" for s
    using that by (auto simp: name_ok_def list_all_iff is_alpha_def is_digit_def code_def)
  have dig: "CHR ''$'' \<notin> set (show_nat n)" for n
    using show_nat_digits [of n] by (auto simp: list_all_iff is_digit_def code_def)
  define clean where "clean s \<longleftrightarrow> CHR '','' \<notin> set s \<and> CHR ''$'' \<notin> set s \<and> NL \<notin> set s" for s
  have lw: "word_chars (label_text l) \<and> CHR ''$'' \<notin> set (label_text l)" if "plain_label l" for l
    using plain_label_word [OF that] that by (cases l rule: plain_label.cases) (auto simp: dol dig)
  then have lc: "clean (label_text l)" if "plain_label l" for l
    using that word_chars_space(2,3) by (simp add: clean_def)
  have rc: "clean (reg_text n r)" if "n \<in> {1, 2, 4, 8}" for n r
  proof -
    have "list_all (\<lambda>n. list_all (\<lambda>r. CHR ''$'' \<notin> set (reg_text n r))
      [RAX, RCX, RDX, RBX, RSP, RBP, RSI, RDI, R8, R9, R10, R11, R12, R13, R14, R15]) [1, 2, 4, 8]" by code_simp
    then have "\<forall>r. CHR ''$'' \<notin> set (reg_text n r)" unfolding all_regs using that by (auto simp: list_all_iff)
    then show ?thesis using reg_text_facts(1) [OF that] word_chars_space(2,3) by (simp add: clean_def)
  qed
  have cs: "clean (cc_text c)" "clean (sfx_text x)" for c x
    by (cases c; simp add: clean_def) (cases x; simp add: clean_def)
  have ca: "clean []" "clean (c # s) \<longleftrightarrow> c \<noteq> CHR '','' \<and> c \<noteq> CHR ''$'' \<and> c \<noteq> NL \<and> clean s" "clean (s @ t) \<longleftrightarrow> clean s \<and> clean t" for c s t
    by (auto simp: clean_def)
  have "clean (instr_text i)"
    using assms by (cases i rule: two_form.cases) (simp_all add: plain_instr_def ca cs lc rc)
  then show "CHR '','' \<notin> set (instr_text i)" "CHR ''$'' \<notin> set (instr_text i)" "NL \<notin> set (instr_text i)" by (simp_all add: clean_def)
  have "scan_text ''  mov'' (label_text l @ '':'') = None \<and> label_text l @ '':'' \<noteq> []" if "plain_label l" for l
  proof -
    have "CHR '' '' \<notin> set (label_text l)" using lw [OF that] word_chars_space(1) by blast
    then show ?thesis by (cases "label_text l") (auto simp: scan_text_def startswith_def)
  qed
  note lab = this
  show "scan_text ''  mov'' (instr_text i) = None"
    using assms by (cases i rule: two_form.cases) (auto simp: plain_instr_def lab)
  show "instr_text i \<noteq> []" using assms(1) by (cases i) auto
qed

lemma one_form_silent:
  assumes "two_form i = None" "plain_instr i"
  shows "peep_mov_reg_reg n k (instr_text i) = None" "peep_mov_rbp_reg n (instr_text i) = None" "peep_mov_reg_rbp (instr_text i) = Done None"
    "peep_mov_rbp_imm (instr_text i) = None" "peep_mov_reg_imm n (instr_text i) = None" "peep_op_reg_reg l n k (instr_text i) = None"
    "peep_mov_reg_mem n k (instr_text i) = None"
proof -
  note f = one_form_facts [OF assms]
  have a: "after_mov (instr_text i) = None" using f(2) by (simp add: after_mov_def)
  have m: "scan_text ''  mov '' (instr_text i) = None"
  proof (cases "scan_text ''  mov '' (instr_text i)")
    case (Some q)
    then have "instr_text i = ''  mov'' @ CHR '' '' # q" by (simp add: scan_text_Some)
    then have "scan_text ''  mov'' (instr_text i) = Some (CHR '' '' # q)" by (simp only: scan_text_append)
    then show ?thesis using f(2) by simp
  qed
  show "peep_mov_reg_reg n k (instr_text i) = None" using m by (simp add: peep_mov_reg_reg_def)
  show "peep_mov_rbp_reg n (instr_text i) = None" "peep_mov_reg_imm n (instr_text i) = None" "peep_mov_reg_mem n k (instr_text i) = None"
    using a by (simp_all add: peep_mov_rbp_reg_def peep_mov_reg_imm_def peep_mov_reg_mem_def)
  show "peep_mov_reg_rbp (instr_text i) = Done None" using f(2) by (simp add: peep_mov_reg_rbp_def)
  show "peep_mov_rbp_imm (instr_text i) = None"
  proof (cases "peep_mov_rbp_imm (instr_text i)")
    case (Some x)
    then obtain p q where p: "scan_text ''movl'' (dropWhile is_space (instr_text i)) = Some p" "scan_text ''$'' (dropWhile is_space p) = Some q"
      by (auto simp: peep_mov_rbp_imm_def bind_eq_Some_conv)
    then have "CHR ''$'' \<in> set (dropWhile is_space p)" "dropWhile is_space (instr_text i) = ''movl'' @ p" by (auto simp: scan_text_Some)
    then have "CHR ''$'' \<in> set (instr_text i)" by (metis Un_iff set_append set_dropWhileD)
    then show ?thesis using f(3) by simp
  qed simp
  have "split_at CHR '','' q = None" if "scan_text ''  '' (instr_text i) = Some p" "split_at CHR '' '' p = Some (x, q)" for p q x
    using that f(1) by (intro no_comma_split) (auto simp: scan_text_Some split_at_Some)
  then show "peep_op_reg_reg l n k (instr_text i) = None"
    by (cases "peep_op_reg_reg l n k (instr_text i)") (auto simp: peep_op_reg_reg_def bind_eq_Some_conv two_operands_def)
qed

section \<open>Frame slots\<close>

lemma scan_int_nat:
  assumes "int n < 2 ^ 31" "\<not> is_digit (deref p)"
  shows "scan_int (show_nat n @ p) = Some (int n, p)"
proof -
  obtain c s where cs: "show_nat n = c # s" using show_nat_digits [of n] by (cases "show_nat n") auto
  have d: "list_all is_digit (c # s)" using show_nat_digits [of n] cs by simp
  have nx: "\<not> is_space c" "c \<noteq> CHR ''-''" "c \<noteq> CHR ''+''" using d by (auto simp: is_digit_def is_space_def code_def)
  have tp: "takeWhile is_digit p = []" using assms(2) by (cases p) auto
  have "takeWhile is_digit (c # s @ p) = c # s"
    using d tp by (simp add: takeWhile_append list_all_iff)
  moreover have "digits_value 10 0 (c # s) = n" using show_nat_value [of n] cs by simp
  moreover have "wrap32 (clamp_long (int n)) = int n" using assms(1) by (simp add: clamp_long_def wraps in32_def)
  ultimately show ?thesis using nx by (simp add: scan_int_def cs Let_def)
qed

lemma not_digit [simp]: "\<not> is_digit CHR ''(''" "\<not> is_digit NUL" "\<not> is_digit CHR '',''"
  by code_simp+

lemma scan_dash_opd:
  assumes "plain_opd a"
  shows "scan_dash_int (opd_text a @ p) =
    (case a of Mem d r \<Rightarrow> if d < 0 then Some (- d, ''(%rbp)'' @ p) else None | _ \<Rightarrow> None)"
proof (cases a)
  case (Mem d r)
  show ?thesis
  proof (cases "d < 0")
    case True
    then have "r = RBP" "int (nat (- d)) < 2 ^ 31" using Mem assms by (auto simp: plain_opd_def)
    then show ?thesis using Mem True scan_int_nat [of "nat (- d)" "''(%rbp)'' @ p"]
      by (simp add: scan_dash_int_def show_int_def)
  next
    case False
    have "hd (show_nat n) \<noteq> CHR ''-'' \<and> show_nat n \<noteq> []" for n
      using show_nat_digits [of n] by (cases "show_nat n") (auto simp: is_digit_def code_def)
    then have "scan_text ''-'' (show_nat n @ q) = None" for n q by (cases "show_nat n") (auto, metis list.sel(1) scan_text_Cons(2))
    then show ?thesis using Mem False by (simp add: scan_dash_int_def show_int_def)
  qed
next
  case (Reg n r)
  then have "hd (reg_text n r) = CHR ''%''" "reg_text n r \<noteq> []" using assms reg_text_facts [of n r] by (auto simp: plain_opd_def)
  then show ?thesis using Reg by (cases "reg_text n r") (auto simp: scan_dash_int_def)
next
  case (Rip s)
  then have "list_all (\<lambda>c. c \<noteq> CHR ''-'') s"
    using assms by (auto simp: plain_opd_def name_ok_def list_all_iff is_alpha_def is_digit_def code_def)
  then show ?thesis using Rip by (cases s) (auto simp: scan_dash_int_def)
qed (simp add: scan_dash_int_def)

lemma mem_text: "a = Mem d RBP \<Longrightarrow> d < 0 \<Longrightarrow> opd_text a = CHR ''-'' # show_nat (nat (- d)) @ ''(%rbp)''"
  by (simp add: show_int_def)

section \<open>What the helpers find\<close>

lemma mov_reg_reg_found:
  assumes "plain_instr i" "peep_mov_reg_reg n k (instr_text i) = Some (p, q)"
  obtains a b where "i = Mov S_none a b" "p = opd_text a" "q = opd_text b" "plain_opd a" "plain_opd b"
proof -
  obtain m a b where t: "two_form i = Some (m, a, b)" using one_form_silent(1) [OF _ assms(1)] assms(2) by (cases "two_form i") auto
  note w = plain_two [OF assms(1) t] mnemonic_word [OF t]
  have m: "m = ''mov''" "p = opd_text a" "q = opd_text b"
    using assms(2) mov_two [of m a b n k] w by (auto simp: instr_text_two [OF t] split: if_splits)
  then obtain s where "i = Mov s a b" "''mov'' = ''mov'' @ sfx_text s" using mov_mnemonic [OF t] by auto
  then show thesis using that m w by (cases s) auto
qed

lemma op_found:
  assumes "plain_instr i" "peep_op_reg_reg l n k (instr_text i) = Some (opr, p, q)"
  obtains a b where "two_form i = Some (opr, a, b)" "p = opd_text a" "q = opd_text b" "plain_opd a" "plain_opd b"
proof -
  obtain m a b where t: "two_form i = Some (m, a, b)" using one_form_silent(6) [OF _ assms(1)] assms(2) by (cases "two_form i") auto
  note w = plain_two [OF assms(1) t] mnemonic_word [OF t]
  show thesis using assms(2) op_two [of m a b l n k] w that t by (auto simp: instr_text_two [OF t] split: if_splits)
qed

lemma mov_rbp_reg_found:
  assumes "plain_instr i" "peep_mov_rbp_reg n (instr_text i) = Some (off, p)"
  obtains s a where "i = Mov s a (Mem (- off) RBP)" "0 < off" "s \<in> {S_none, S_l, S_q}" "p = opd_text a" "plain_opd a"
proof -
  obtain m a b where t: "two_form i = Some (m, a, b)" using one_form_silent(2) [OF _ assms(1)] assms(2) by (cases "two_form i") auto
  note w = plain_two [OF assms(1) t] mnemonic_word [OF t]
  have am: "m \<in> {''mov'', ''movl'', ''movq''}" using assms(2) after_mov_two [of m a b] w
    by (auto simp: peep_mov_rbp_reg_def instr_text_two [OF t] split: if_splits)
  then have "after_mov (two m a b) = Some (opd_text a @ '', '' @ opd_text b)" using after_mov_two [of m a b] w by simp
  moreover have "split_at CHR '','' (opd_text a @ '', '' @ opd_text b) = Some (opd_text a, CHR '' '' # opd_text b)"
    using w word_chars_space(2) by (simp add: split_at_Some)
  moreover have "skip_blanks (CHR '' '' # opd_text b) = opd_text b" using w word_chars_blanks(1) by (simp add: skip_blanks_def)
  ultimately have "\<exists>z. scan_dash_int (opd_text b) = Some (off, z)" "p = opd_text a"
    using assms(2) by (auto simp: peep_mov_rbp_reg_def instr_text_two [OF t] bind_eq_Some_conv)
  moreover have "b = Mem (- off) RBP \<and> 0 < off" if "scan_dash_int (opd_text b) = Some (off, z)" for z
    using that scan_dash_opd [of b "[]"] w by (auto simp: plain_opd_def split: opd.splits if_splits)
  ultimately show thesis using mov_mnemonic [OF t am] that w by metis
qed

lemma mov_reg_rbp_found:
  assumes "plain_instr j"
  shows "\<exists>r. peep_mov_reg_rbp (instr_text j) = Done r \<and>
    (\<forall>p dword off. r = Some (p, dword, off) \<longrightarrow>
       (\<exists>n q. j = Mov (if dword then S_l else S_q) (Mem (- off) RBP) (Reg n q) \<and> 0 < off \<and> n \<in> {1, 2, 4, 8} \<and> p = reg_text n q))"
proof (cases "two_form j")
  case None
  then show ?thesis using one_form_silent(3) [OF _ assms] by simp
next
  case (Some x)
  then obtain m a b where t: "two_form j = Some (m, a, b)" by (cases x) auto
  note w = plain_two [OF assms t] mnemonic_word [OF t]
  let ?q = "opd_text a @ '', '' @ opd_text b"
  show ?thesis
  proof (cases "m = ''movl'' \<or> m = ''movq''")
    case False
    have "scan_text '' '' (tl p) = None" if p: "scan_text ''  mov'' (two m a b) = Some p" "deref p = CHR ''l'' \<or> deref p = CHR ''q''" for p
    proof (cases "scan_text '' '' (tl p)")
      case (Some r)
      then have "p = deref p # CHR '' '' # r" using p(2) by (cases p) (auto simp: scan_text_Some NUL_def)
      then have "m @ CHR '' '' # ?q = (''mov'' @ [deref p]) @ CHR '' '' # r" using p(1) by (simp add: scan_text_Some two_def)
      then have "m = ''mov'' @ [deref p]" using space_split [of m "''mov'' @ [deref p]"] word_chars_space(1) w p(2) by auto
      then show ?thesis using False p(2) by auto
    qed simp
    then have "peep_mov_reg_rbp (two m a b) = Done None"
      by (cases "scan_text ''  mov'' (two m a b)") (auto simp: peep_mov_reg_rbp_def)
    then show ?thesis by (simp add: instr_text_two [OF t])
  next
    case True
    then obtain s where s: "j = Mov s a b" "m = ''mov'' @ sfx_text s" "s \<in> {S_none, S_l, S_q}" using mov_mnemonic [OF t] by blast
    then have s': "s = (if m = ''movl'' then S_l else S_q)" using True by auto
    show ?thesis
    proof (cases "\<exists>d. a = Mem d RBP \<and> d < 0")
      case False
      then have "scan_dash_int ?q = None" using scan_dash_opd [of a "'', '' @ opd_text b"] w by (auto simp: plain_opd_def split: opd.splits)
      then have "peep_mov_reg_rbp (two m a b) = Done None" using True by (auto simp: peep_mov_reg_rbp_def two_def)
      then show ?thesis by (simp add: instr_text_two [OF t])
    next
      case mem: True
      then obtain d where d: "a = Mem d RBP" "d < 0" by blast
      then obtain n q where b: "b = Reg n q" "n \<in> {1, 2, 4, 8}" using assms s(1) w by (cases b) (auto simp: plain_instr_def is_mem_def plain_opd_def)
      have sd: "scan_dash_int ?q = Some (- d, ''(%rbp), '' @ opd_text b)" using scan_dash_opd [of a "'', '' @ opd_text b"] w d by simp
      have sc: "scan_text ''(%rbp),'' (''(%rbp), '' @ opd_text b) = Some (CHR '' '' # opd_text b)" by simp
      have sp: "is_space CHR '' ''" by code_simp
      have tk: "takeWhile (\<lambda>c. \<not> is_space c) (dropWhile is_space (CHR '' '' # opd_text b)) = opd_text b"
        using word_chars_blanks(2) [of "opd_text b"] word_chars_blanks(3) [of "opd_text b"] w sp by (simp del: takeWhile_eq_all_conv)
      have ne: "opd_text b \<noteq> []" "length (opd_text b) < 32" using reg_text_facts(3,4) [OF b(2), of q] b(1) by auto
      have "peep_mov_reg_rbp (two m a b) = Done (Some (opd_text b, m = ''movl'', - d))"
        using True sd sc tk ne by (elim disjE) (simp_all add: peep_mov_reg_rbp_def two_def del: opd_text.simps dropWhile.simps)
      then have r: "peep_mov_reg_rbp (instr_text j) = Done (Some (opd_text b, m = ''movl'', - d))" by (simp only: instr_text_two [OF t])
      have "\<forall>p dword off. Some (opd_text b, m = ''movl'', - d) = Some (p, dword, off) \<longrightarrow>
        (\<exists>n q. j = Mov (if dword then S_l else S_q) (Mem (- off) RBP) (Reg n q) \<and> 0 < off \<and> n \<in> {1, 2, 4, 8} \<and> p = reg_text n q)"
      proof (intro allI impI)
        fix p dword off
        assume "Some (opd_text b, m = ''movl'', - d) = Some (p, dword, off)"
        then have e: "p = reg_text n q" "dword = (m = ''movl'')" "off = - d" using b(1) by simp_all
        then have "j = Mov (if dword then S_l else S_q) (Mem (- off) RBP) (Reg n q)" using s(1) s' d(1) b(1) by simp
        then show "\<exists>n q. j = Mov (if dword then S_l else S_q) (Mem (- off) RBP) (Reg n q) \<and> 0 < off \<and> n \<in> {1, 2, 4, 8} \<and> p = reg_text n q"
          using e d(2) b(2) by (intro exI [of _ n] exI [of _ q]) simp
      qed
      with r show ?thesis by blast
    qed
  qed
qed

lemma prefix_word:
  assumes "word_chars m" "CHR '' '' \<notin> set n" "m @ CHR '' '' # x = n @ p"
  obtains t where "m = n @ t" "p = t @ CHR '' '' # x"
proof -
  have "length n \<le> length m"
  proof (rule ccontr)
    assume l: "\<not> length n \<le> length m"
    have "(m @ CHR '' '' # x) ! length m = CHR '' ''" by simp
    then have "n ! length m = CHR '' ''" using l unfolding assms(3) by (simp add: nth_append)
    then show False using assms(2) l by (metis not_le nth_mem)
  qed
  then have "take (length n) m = n" using arg_cong [OF assms(3), of "take (length n)"] by simp
  then obtain t where t: "m = n @ t" by (metis append_take_drop_id)
  then have "p = t @ CHR '' '' # x" using assms(3) by simp
  then show thesis using t that by blast
qed

lemma scan_int_split:
  assumes "scan_int p = Some (v, r)"
  obtains u where "p = u @ r" "CHR '','' \<notin> set u"
proof -
  let ?q = "dropWhile is_space p"
  let ?q1 = "if deref ?q = CHR ''-'' \<or> deref ?q = CHR ''+'' then tl ?q else ?q"
  have c: "\<not> is_space CHR '',''" "\<not> is_digit CHR '',''" by code_simp+
  define q1 where "q1 = ?q1"
  have r: "r = drop (length (takeWhile is_digit q1)) q1" using assms by (simp add: scan_int_def Let_def q1_def split: if_splits)
  then have 1: "q1 = takeWhile is_digit q1 @ r" by (simp add: dropWhile_eq_drop [symmetric])
  obtain w where w: "?q = w @ q1" "CHR '','' \<notin> set w"
  proof (cases ?q)
    case (Cons x y)
    then show thesis using that [of "[x]"] that [of "[]"] by (cases "x = CHR ''-'' \<or> x = CHR ''+''") (auto simp: q1_def)
  next
    case Nil
    then have "q1 = []" unfolding q1_def Nil by simp
    then show thesis using that [of "[]"] Nil by simp
  qed
  have "takeWhile is_space p @ ?q = p" by simp
  then have "p = takeWhile is_space p @ w @ takeWhile is_digit q1 @ r" unfolding w(1) using 1 by simp
  moreover have "CHR '','' \<notin> set (takeWhile is_space p @ w @ takeWhile is_digit q1)" using c w(2) by (auto dest: set_takeWhileD)
  ultimately show thesis using that by (metis append.assoc)
qed

lemma mov_rbp_imm_found:
  assumes "plain_instr i"
  shows "peep_mov_rbp_imm (instr_text i) = None"
proof (cases "two_form i")
  case None
  then show ?thesis using one_form_silent(4) [OF _ assms] by simp
next
  case (Some x)
  then obtain m a b where t: "two_form i = Some (m, a, b)" by (cases x) auto
  note w = plain_two [OF assms t] mnemonic_word [OF t]
  show ?thesis
  proof (rule ccontr)
    assume "peep_mov_rbp_imm (instr_text i) \<noteq> None"
    then obtain p q v r off z where p: "scan_text ''movl'' (dropWhile is_space (two m a b)) = Some p"
      "scan_text ''$'' (dropWhile is_space p) = Some q" "scan_int q = Some (v, r)" "scan_text '','' r = Some z" "scan_dash_int (dropWhile is_space z) = Some off"
      by (auto simp: peep_mov_rbp_imm_def instr_text_two [OF t] bind_eq_Some_conv)
    have sp: "is_space CHR '' ''" by code_simp
    have "dropWhile is_space (two m a b) = m @ CHR '' '' # opd_text a @ '', '' @ opd_text b"
    proof -
      obtain x y where "m = x # y" using w by (cases m) auto
      then show ?thesis using w sp by (simp add: two_def)
    qed
    then have e: "m @ CHR '' '' # opd_text a @ '', '' @ opd_text b = ''movl'' @ p" using p(1) by (simp add: scan_text_Some)
    then obtain u where u: "m = ''movl'' @ u" "p = u @ CHR '' '' # opd_text a @ '', '' @ opd_text b"
      using prefix_word [of m "''movl''"] w by auto
    have "m = ''movl''"
    proof (cases i rule: two_form.cases)
      case (1 s x y)
      then show ?thesis using t u(1) by (cases s) auto
    next
      case (4 k s x y)
      then show ?thesis using t u(1) by (cases k) auto
    next
      case (5 k n r)
      then show ?thesis using t u(1) by (cases k) auto
    qed (use t u(1) in \<open>auto split: if_splits\<close>)
    then obtain s where s: "i = Mov s a b" "m = ''mov'' @ sfx_text s" "s \<in> {S_none, S_l, S_q}" using mov_mnemonic [OF t] by blast
    have "dropWhile is_space p = opd_text a @ '', '' @ opd_text b"
    proof -
      have "opd_text a \<noteq> []" using w reg_text_facts(3) by (cases a) (auto simp: plain_opd_def)
      then obtain x y where "opd_text a = x # y" by (cases "opd_text a") auto
      then show ?thesis using u \<open>m = ''movl''\<close> sp w by simp
    qed
    then have "opd_text a @ '', '' @ opd_text b = CHR ''$'' # q" using p(2) by (simp add: scan_text_Some)
    then have imm: "\<exists>v. a = Imm v" and q: "opd_text a = CHR ''$'' # tl (opd_text a)" "q = tl (opd_text a) @ '', '' @ opd_text b"
    proof -
      assume e: "opd_text a @ '', '' @ opd_text b = CHR ''$'' # q"
      have h: "hd (opd_text a) = CHR ''$''" "opd_text a \<noteq> []"
        using e by (cases "opd_text a"; simp)+
      then show "opd_text a = CHR ''$'' # tl (opd_text a)" "q = tl (opd_text a) @ '', '' @ opd_text b" using e by (cases "opd_text a"; simp)+
      show "\<exists>v. a = Imm v"
      proof (cases a)
        case (Reg n r)
        then show ?thesis using h w reg_text_facts(2) [of n r] by (auto simp: plain_opd_def)
      next
        case (Mem d r)
        have "hd (show_nat n) \<noteq> CHR ''$'' \<and> show_nat n \<noteq> []" for n
          using show_nat_digits [of n] by (cases "show_nat n") (auto simp: is_digit_def code_def)
        then show ?thesis using Mem h by (auto simp: show_int_def split: if_splits)
      next
        case (Rip s)
        then have "list_all (\<lambda>c. c \<noteq> CHR ''$'') s"
          using w by (auto simp: plain_opd_def name_ok_def list_all_iff is_alpha_def is_digit_def code_def)
        then show ?thesis using Rip h by (cases s) auto
      qed simp
    qed
    then have nm: "\<not> is_mem b" using assms s by (auto simp: plain_instr_def)
    obtain y where y: "q = y @ CHR '','' # z" "CHR '','' \<notin> set y"
      using scan_int_split [OF p(3)] p(4) by (auto simp: scan_text_Some)
    moreover have "CHR '','' \<notin> set (tl (opd_text a))" using w word_chars_space(2) q(1) by (metis list.set_intros(2))
    ultimately have "split_at CHR '','' q = Some (y, z)" "split_at CHR '','' q = Some (tl (opd_text a), CHR '' '' # opd_text b)"
      using q(2) by (simp_all add: split_at_Some)
    then have "z = CHR '' '' # opd_text b" by simp
    then have "dropWhile is_space z = opd_text b" using word_chars_blanks(2) [of "opd_text b"] w sp by simp
    then show False using p(5) scan_dash_opd [of b "[]"] w nm by (auto simp: is_mem_def split: opd.splits)
  qed
qed

end
