(* ===== verification/CodeGen.thy ===== *)
theory CodeGen
  imports RegAlloc
begin

text \<open>
  The code generator of \<open>src/codegen.c\<close> for x86-64 (\<open>gen\<close>, \<open>gen_addr\<close>, \<open>gen_cond_branch_inv\<close>) on
  integers and pointers. One definition per case of \<open>gen\<close>; it takes what the recursive calls on the
  children do as arguments, and \<open>gen\<close> below ties the knot. Left out, with result \<open>None\<close>: floating
  point, copying of structs and arrays, calls, \<open>switch\<close>, \<open>goto\<close> and labels, statement expressions,
  inline assembly, variable arguments, atomics. The output is position dependent (\<open>opt_pic\<close> is off)
  and no variable has a cleanup function.
\<close>

type_synonym cgen = "nat option gm"

definition with_reg :: "cgen \<Rightarrow> (nat \<Rightarrow> 'a gm) \<Rightarrow> 'a gm" where
  "with_reg f k = gbind f (\<lambda>r. case r of None \<Rightarrow> gfail | Some i \<Rightarrow> k i)"

definition with_type :: "ctype option \<Rightarrow> (ctype \<Rightarrow> 'a gm) \<Rightarrow> 'a gm" where
  "with_type t k = (case t of None \<Rightarrow> gfail | Some u \<Rightarrow> k u)"

definition with_child :: "node option \<Rightarrow> (node \<Rightarrow> 'a gm) \<Rightarrow> 'a gm" where
  "with_child n k = (case n of None \<Rightarrow> gfail | Some m \<Rightarrow> k m)"

text \<open>Print the code, then return the register.\<close>

definition emits :: "instr list \<Rightarrow> nat \<Rightarrow> cgen" where
  "emits c r = gseq (emit c) (gret (Some r))"

text \<open>What \<open>current_fn\<close> and \<open>current_fn_def->ty->return_ty\<close> are while a body is generated.\<close>

record fenv =
  fn_name :: string
  fn_return :: "ctype option"

section \<open>Leaves\<close>

definition gen_num :: "node \<Rightarrow> cgen" where
  "gen_num n =
     gbind alloc_reg (\<lambda>r.
       if in32 (ndval n) then with_type (ndty n) (\<lambda>t. emits [Mov S_none (Imm (ndval n)) (reg r (op_size t))] r)
       else emits [Mov S_abs (Imm (ndval n)) (Reg 8 (phys r))] r)"

definition asm_reserved :: "string list" where
  "asm_reserved =
     [''cs'', ''ds'', ''es'', ''fs'', ''gs'', ''ss'',
      ''%al'', ''%ah'', ''%ax'', ''%eax'', ''%rax'',
      ''%bl'', ''%bh'', ''%bx'', ''%ebx'', ''%rbx'',
      ''%cl'', ''%ch'', ''%cx'', ''%ecx'', ''%rcx'',
      ''%dl'', ''%dh'', ''%dx'', ''%edx'', ''%rdx'',
      ''%sil'', ''%si'', ''%esi'', ''%rsi'',
      ''%dil'', ''%di'', ''%edi'', ''%rdi'',
      ''%bpl'', ''%bp'', ''%ebp'', ''%rbp'',
      ''%spl'', ''%sp'', ''%esp'', ''%rsp'',
      ''%r8'', ''%r8b'', ''%r8w'', ''%r8d'',
      ''%r9'', ''%r9b'', ''%r9w'', ''%r9d'',
      ''%r10'', ''%r10b'', ''%r10w'', ''%r10d'',
      ''%r11'', ''%r11b'', ''%r11w'', ''%r11d'',
      ''%r12'', ''%r12b'', ''%r12w'', ''%r12d'',
      ''%r13'', ''%r13b'', ''%r13w'', ''%r13d'',
      ''%r14'', ''%r14b'', ''%r14w'', ''%r14d'',
      ''%r15'', ''%r15b'', ''%r15w'', ''%r15d'',
      ''and'', ''or'', ''not'', ''xor'', ''shl'', ''shr'', ''mod'',
      ''eq'', ''ne'', ''lt'', ''le'', ''ge'', ''gt'']"

definition is_asm_reserved :: "string \<Rightarrow> bool" where
  "is_asm_reserved name \<longleftrightarrow> name \<in> set asm_reserved"

definition var_label :: "lvar \<Rightarrow> string" where
  "var_label v =
     (case vasm_name v of
        Some a \<Rightarrow> a
      | None \<Rightarrow> if is_asm_reserved (vname v) then ''.L_rcc_'' @ vname v else vname v)"

text \<open>Where a variable lives: below the frame pointer, or at its symbol.\<close>

definition var_opd :: "lvar \<Rightarrow> opd" where
  "var_opd v = (if vis_local v then Mem (- voffset v) RBP else Rip (var_label v))"

definition is_vla :: "ctype \<Rightarrow> bool" where
  "is_vla t \<longleftrightarrow>
     tkind t = TY_VLA \<or> ((tkind t = TY_STRUCT \<or> tkind t = TY_UNION) \<and> vla_len_expr (tinfo t) \<noteq> None)"

definition is_copied :: "ctype \<Rightarrow> bool" where
  "is_copied t \<longleftrightarrow> tkind t = TY_ARRAY \<or> tkind t = TY_STRUCT \<or> tkind t = TY_UNION"

definition gen_lvar :: "node \<Rightarrow> cgen" where
  "gen_lvar n =
     gbind alloc_reg (\<lambda>r.
       case nvar (info n) of
         None \<Rightarrow> gfail
       | Some v \<Rightarrow>
           with_type (vty v) (\<lambda>vt.
             if is_vla vt then
               emits [Mov S_none (if vis_local v then Mem (- (voffset v - 8)) RBP else Rip (var_label v)) (Reg 8 (phys r))] r
             else if tkind vt = TY_ARRAY then emits [Lea (var_opd v) (phys r)] r
             else if \<not> vis_local v \<and> tkind vt = TY_FUNC then emits [Lea (var_opd v) (phys r)] r
             else if is_flonum vt then gfail
             else with_type (ndty n) (\<lambda>t. gseq (emit_load t r (var_opd v)) (gret (Some r)))))"

definition addr_lvar :: "node \<Rightarrow> cgen" where
  "addr_lvar n =
     gbind alloc_reg (\<lambda>r.
       case nvar (info n) of
         None \<Rightarrow> gfail
       | Some v \<Rightarrow>
           with_type (vty v) (\<lambda>vt.
             if vis_local v \<and> is_vla vt then emits [Mov S_none (Mem (- (voffset v - 8)) RBP) (Reg 8 (phys r))] r
             else emits [Lea (var_opd v) (phys r)] r))"

section \<open>Bit-fields and members\<close>

text \<open>\<open>(1ULL << bw) - 1\<close>; \<open>~x\<close> as an unsigned 64-bit number.\<close>

definition ones :: "int \<Rightarrow> int" where
  "ones bw = take_bit 64 (2 ^ nat bw - 1)"

definition field_mask :: "member \<Rightarrow> int" where
  "field_mask m = take_bit 64 (ones (bit_width (minfo m)) * 2 ^ nat (bit_offset (minfo m)))"

definition not64 :: "int \<Rightarrow> int" where
  "not64 x = take_bit 64 (NOT x)"

definition and_const :: "int \<Rightarrow> nat \<Rightarrow> instr list" where
  "and_const v r = [Mov S_absq (Imm v) (Reg 8 RAX), Alu A_and S_q (Reg 8 RAX) (Reg 8 (phys r))]"

definition shift_const :: "alu \<Rightarrow> int \<Rightarrow> nat \<Rightarrow> instr list" where
  "shift_const oper k r = [Alu oper S_none (Imm k) (Reg 8 (phys r))]"

definition shift_down :: "member \<Rightarrow> nat \<Rightarrow> instr list" where
  "shift_down m r = (if bit_offset (minfo m) > 0 then shift_const A_shr (bit_offset (minfo m)) r else [])"

definition unsigned_field :: "member \<Rightarrow> bool" where
  "unsigned_field m \<longleftrightarrow> unsigned_ty (mty m) \<or> is_enum (tinfo (mty m))"

text \<open>Cut the loaded bits down to the field: mask them, or shift the sign bit up and down.\<close>

definition extract_field :: "member \<Rightarrow> int \<Rightarrow> nat \<Rightarrow> instr list" where
  "extract_field m load_bits r =
     (let bw = bit_width (minfo m)
      in if bw < load_bits then
           (if unsigned_field m then and_const (ones bw) r
            else shift_const A_shl (64 - bw) r @ shift_const A_sar (64 - bw) r)
         else [])"

definition field_unit :: "member \<Rightarrow> int" where
  "field_unit m = (if bf_load_size (minfo m) \<noteq> 0 then bf_load_size (minfo m) else sizeof (mty m))"

definition is_field :: "node \<Rightarrow> bool" where
  "is_field n \<longleftrightarrow>
     ndkind n = ND_MEMBER \<and> (case nmember (info n) of None \<Rightarrow> False | Some m \<Rightarrow> bit_width (minfo m) > 0)"

text \<open>\<open>BF_LOAD\<close> and \<open>BF_STORE\<close>.\<close>

definition bf_load :: "int \<Rightarrow> nat \<Rightarrow> nat \<Rightarrow> instr" where
  "bf_load sz ra rt =
     (if sz = 1 then Ext False 1 4 (Mem 0 (phys ra)) (phys rt)
      else if sz = 2 then Ext False 2 4 (Mem 0 (phys ra)) (phys rt)
      else if sz = 4 then Mov S_l (Mem 0 (phys ra)) (Reg 4 (phys rt))
      else Mov S_q (Mem 0 (phys ra)) (Reg 8 (phys rt)))"

definition bf_store :: "int \<Rightarrow> nat \<Rightarrow> nat \<Rightarrow> instr" where
  "bf_store sz ra rt =
     (if sz = 1 then Mov S_b (Reg 1 (phys rt)) (Mem 0 (phys ra))
      else if sz = 2 then Mov S_w (Reg 2 (phys rt)) (Mem 0 (phys ra))
      else if sz = 4 then Mov S_l (Reg 4 (phys rt)) (Mem 0 (phys ra))
      else Mov S_q (Reg 8 (phys rt)) (Mem 0 (phys ra)))"

text \<open>A member read through the address its own \<open>gen_addr\<close> leaves in a register.\<close>

definition gen_member :: "node \<Rightarrow> cgen \<Rightarrow> cgen" where
  "gen_member n self_addr =
     with_reg self_addr (\<lambda>r. with_type (ndty n) (\<lambda>t.
       if tkind t = TY_ARRAY \<or> tkind t = TY_VLA then gret (Some r)
       else case nmember (info n) of
         None \<Rightarrow> if is_flonum t then gfail else gseq (emit_load t r (Mem 0 (phys r))) (gret (Some r))
       | Some m \<Rightarrow>
          (let i = minfo m; load_ty = (if bit_width i > 0 then mty m else t)
           in if is_flonum load_ty then gfail
              else if bit_width i > 0 \<and> bf_load_size i \<noteq> 0 then
                (let ls = bf_load_size i; bo = bit_offset i; bw = bit_width i
                 in if ls > 8 \<and> bo + bw > 64 then
                      gbind alloc_reg (\<lambda>ra.
                      gseq (emit ([Mov S_none (Reg 8 (phys r)) (Reg 8 (phys ra)), bf_load 8 r r] @ shift_down m r))
                      (gbind alloc_reg (\<lambda>tmp.
                       gseq (emit [Ext False 1 4 (Mem 8 (phys ra)) (phys tmp),
                                   Alu A_and S_none (Imm (2 ^ nat (bo + bw - 64) - 1)) (Reg 4 (phys tmp)),
                                   Alu A_shl S_none (Imm (64 - bo)) (Reg 8 (phys tmp)),
                                   Alu A_or S_none (Reg 8 (phys tmp)) (Reg 8 (phys r))])
                       (gseq (free_reg tmp) (gseq (free_reg ra)
                          (emits (extract_field m (ls * 8) r) r))))))
                    else emits (bf_load (min ls 8) r r # shift_down m r @ extract_field m (ls * 8) r) r)
              else gseq (emit_load load_ty r (Mem 0 (phys r)))
                     (if bit_width i > 0 then emits (shift_down m r @ extract_field m (sizeof (mty m) * 8) r) r
                      else gret (Some r)))))"

definition addr_member :: "node \<Rightarrow> cgen \<Rightarrow> cgen" where
  "addr_member n lhs_addr =
     with_reg lhs_addr (\<lambda>r.
       case nmember (info n) of
         None \<Rightarrow> gfail
       | Some m \<Rightarrow> emits [Alu A_add S_none (Imm (moffset (minfo m))) (Reg 8 (phys r))] r)"

section \<open>Assignment\<close>

text \<open>The value a bit-field assignment yields: the unit is loaded again and the field cut out.\<close>

definition reload_field :: "member \<Rightarrow> int \<Rightarrow> nat \<Rightarrow> nat \<Rightarrow> instr list" where
  "reload_field m eff_sz ra rt = bf_load eff_sz ra rt # shift_down m rt @ extract_field m (eff_sz * 8) rt"

definition same_field :: "member \<Rightarrow> node option \<Rightarrow> bool" where
  "same_field m n \<longleftrightarrow>
     (case n of None \<Rightarrow> False | Some x \<Rightarrow> ndkind x = ND_MEMBER \<and> nmember (info x) = Some m)"

definition rhs_reads_same :: "member \<Rightarrow> node \<Rightarrow> bool" where
  "rhs_reads_same m x \<longleftrightarrow>
     (if same_field m (Some x) then True
      else if ndkind x \<in> {ND_ADD, ND_SUB, ND_MUL, ND_DIV, ND_BITAND, ND_BITOR, ND_BITXOR}
      then same_field m (lhs x) \<or> same_field m (rhs x) else False)"

text \<open>Clear the field in the unit held in \<open>rt\<close>, put the low bits of \<open>rv\<close> there.\<close>

definition insert_field :: "member \<Rightarrow> nat \<Rightarrow> nat \<Rightarrow> instr list" where
  "insert_field m rt rv =
     and_const (ones (bit_width (minfo m))) rv @
     (if bit_offset (minfo m) > 0 then shift_const A_shl (bit_offset (minfo m)) rv else []) @
     [Alu A_or S_none (Reg 8 (phys rv)) (Reg 8 (phys rt))]"

text \<open>The assignment whose right side reads the same field loads the unit twice.\<close>

definition assign_field_same :: "member \<Rightarrow> nat \<Rightarrow> cgen \<Rightarrow> cgen" where
  "assign_field_same m r2 lhs_addr =
     (let unit_sz = field_unit m; bw = bit_width (minfo m)
      in with_reg lhs_addr (\<lambda>ra. gbind alloc_reg (\<lambda>rt.
         gseq (emit (bf_load (min unit_sz 8) ra rt # shift_down m rt @
                     (if bw < unit_sz * 8 then and_const (ones bw) rt else []) @
                     [bf_load unit_sz ra rt] @ and_const (not64 (field_mask m)) rt))
         (gbind alloc_reg (\<lambda>rv.
         gseq (emit (Mov S_none (Reg 8 (phys r2)) (Reg 8 (phys rv)) # insert_field m rt rv @ [bf_store unit_sz ra rt]))
         (gseq (free_reg rv)
         (gseq (emit (reload_field m (min unit_sz 8) ra rt))
         (gseq (free_reg r2) (gseq (free_reg ra) (gret (Some rt)))))))))))"

definition assign_field :: "member \<Rightarrow> nat \<Rightarrow> cgen \<Rightarrow> cgen" where
  "assign_field m r2 lhs_addr =
     (let unit_sz = field_unit m; eff_sz = min unit_sz 8;
          bo = bit_offset (minfo m); bw = bit_width (minfo m)
      in with_reg lhs_addr (\<lambda>ra0. gseq (free_reg ra0)
        (with_reg lhs_addr (\<lambda>ra. gbind alloc_reg (\<lambda>rt.
         gseq (emit (bf_load eff_sz ra rt # and_const (not64 (field_mask m)) rt))
         (gbind alloc_reg (\<lambda>rv.
         gseq (emit (Mov S_none (Reg 8 (phys r2)) (Reg 8 (phys rv)) # insert_field m rt rv @ [bf_store eff_sz ra rt]))
         (gseq (emit (if unit_sz > 8 \<and> bo + bw > 64 then
                 (let ovf = 2 ^ nat (bo + bw - 64) - 1
                  in [Alu A_add S_none (Imm 8) (Reg 8 (phys ra)),
                      Ext False 1 4 (Mem 0 (phys ra)) (phys rt),
                      Alu A_and S_none (Imm (NOT ovf AND 255)) (Reg 4 (phys rt)),
                      Mov S_none (Reg 8 (phys r2)) (Reg 8 (phys rv)),
                      Alu A_shr S_none (Imm (64 - bo)) (Reg 8 (phys rv)),
                      Alu A_and S_none (Imm ovf) (Reg 4 (phys rv)),
                      Alu A_or S_none (Reg 4 (phys rv)) (Reg 4 (phys rt)),
                      Mov S_b (Reg 1 (phys rt)) (Mem 0 (phys ra))]) else []))
         (gseq (free_reg rv)
         (gseq (emit (reload_field m eff_sz ra rt))
         (gseq (free_reg r2) (gseq (free_reg ra) (gret (Some rt))))))))))))))"

definition local_scalar :: "node \<Rightarrow> lvar option" where
  "local_scalar n =
     (if ndkind n = ND_LVAR then
        (case nvar (info n) of
           None \<Rightarrow> None
         | Some v \<Rightarrow> if vis_local v \<and> map_option tkind (vty v) \<noteq> Some TY_ARRAY then Some v else None)
      else None)"

definition assign_local :: "lvar \<Rightarrow> ctype \<Rightarrow> cgen \<Rightarrow> cgen" where
  "assign_local v lt rhs_code =
     with_reg rhs_code (\<lambda>r2.
       emits (Mov S_none (reg r2 (sizeof lt)) (Mem (- voffset v) RBP) #
              (if unsigned_ty lt \<and> sizeof lt < 4
               then [Alu A_and S_none (Imm (2 ^ nat (sizeof lt * 8) - 1)) (reg r2 4)] else [])) r2)"

definition gen_assign :: "node \<Rightarrow> cgen \<Rightarrow> cgen \<Rightarrow> cgen" where
  "gen_assign n lhs_addr rhs_code =
     with_child (lhs n) (\<lambda>l. with_type (ndty l) (\<lambda>lt.
       if is_copied lt \<or> is_flonum lt then gfail
       else case local_scalar l of
         Some v \<Rightarrow> assign_local v lt rhs_code
       | None \<Rightarrow>
           if is_field l then
             (case nmember (info l) of
                None \<Rightarrow> gfail
              | Some m \<Rightarrow>
                  with_child (rhs n) (\<lambda>x. with_reg rhs_code (\<lambda>r2.
                    if rhs_reads_same m x then assign_field_same m r2 lhs_addr
                    else assign_field m r2 lhs_addr)))
           else
             with_reg lhs_addr (\<lambda>r1. with_reg rhs_code (\<lambda>r2.
               gseq (emit [Mov S_none (reg r2 (sizeof lt)) (Mem 0 (phys r1))])
               (gseq (free_reg r1) (gret (Some r2)))))))"

section \<open>Increment and decrement\<close>

definition post_field :: "node_kind \<Rightarrow> member \<Rightarrow> nat \<Rightarrow> nat \<Rightarrow> cgen" where
  "post_field k m r r2 =
     (let eff_sz = min (field_unit m) 8; bw = bit_width (minfo m)
      in gseq (emit [bf_load eff_sz r r2])
        (gbind alloc_reg (\<lambda>r3.
         gseq (emit (Mov S_none (Reg 8 (phys r2)) (Reg 8 (phys r3)) # shift_down m r3 @ extract_field m (eff_sz * 8) r3 @
                     and_const (not64 (field_mask m)) r2))
         (gbind alloc_reg (\<lambda>rn.
         gseq (emit ([Mov S_none (Reg 8 (phys r3)) (Reg 8 (phys rn))] @ and_const (ones bw) rn @
                     [Alu (if k = ND_POST_INC then A_add else A_sub) S_none (Imm 1) (Reg 4 (phys rn))] @
                     insert_field m r2 rn @ [bf_store eff_sz r r2]))
         (gseq (free_reg rn) (gseq (free_reg r3) (gseq (free_reg r2) (gseq (free_reg r) (gret (Some r3)))))))))))"

definition step_width :: "ctype \<Rightarrow> int option" where
  "step_width t =
     (if tkind t = TY_PTR \<or> tkind t = TY_ARRAY then map_option sizeof (tbase t) else Some 1)"

definition gen_post :: "node \<Rightarrow> cgen \<Rightarrow> cgen" where
  "gen_post n lhs_addr =
     with_reg lhs_addr (\<lambda>r. gbind alloc_reg (\<lambda>r2. with_child (lhs n) (\<lambda>l. with_type (ndty l) (\<lambda>lt.
       if is_field l then
         (case nmember (info l) of None \<Rightarrow> gfail | Some m \<Rightarrow> post_field (ndkind n) m r r2)
       else if is_flonum lt then gfail
       else gbind (lift_opt (step_width lt)) (\<lambda>delta.
         gseq (emit [Mov S_none (Mem 0 (phys r)) (reg r2 (sizeof lt)),
                     Alu (if ndkind n = ND_POST_INC then A_add else A_sub) (size_suffix (sizeof lt)) (Imm delta) (Mem 0 (phys r))])
         (gseq (free_reg r) (gret (Some r2))))))))"

section \<open>Conversions and unary operators\<close>

definition gen_cast :: "node \<Rightarrow> cgen \<Rightarrow> cgen" where
  "gen_cast n operand =
     with_reg operand (\<lambda>r. with_child (lhs n) (\<lambda>l. with_type (ndty l) (\<lambda>from. with_type (ndty n) (\<lambda>to.
       if is_flonum from \<or> is_flonum to then gfail
       else if sizeof to = 1 then emits [Ext (\<not> unsigned_ty to) 1 4 (Reg 1 (phys r)) (phys r)] r
       else if sizeof to = 2 then emits [Ext (\<not> unsigned_ty to) 2 4 (Reg 2 (phys r)) (phys r)] r
       else if sizeof to = 4 \<and> sizeof from = 8 then emits [Mov S_none (Reg 4 (phys r)) (Reg 4 (phys r))] r
       else if sizeof to = 8 \<and> sizeof from < 8 \<and> \<not> is_copied from then
         gseq (if unsigned_ty from then zero_extend_to r (sizeof from) 8 else sign_extend_to r (sizeof from) 8)
           (gret (Some r))
       else gret (Some r)))))"

definition gen_neg :: "node \<Rightarrow> cgen \<Rightarrow> cgen" where
  "gen_neg n operand =
     with_reg operand (\<lambda>r. with_type (ndty n) (\<lambda>t.
       if is_flonum t then gfail
       else emits [INeg (reg_bytes (op_size t)) (phys r)] r))"

definition gen_bitnot :: "node \<Rightarrow> cgen \<Rightarrow> cgen" where
  "gen_bitnot n operand =
     with_reg operand (\<lambda>r. with_type (ndty n) (\<lambda>t.
       emits [INot (reg_bytes (op_size t)) (phys r)] r))"

definition gen_not :: "node \<Rightarrow> cgen \<Rightarrow> cgen" where
  "gen_not n operand =
     with_reg operand (\<lambda>r. with_child (lhs n) (\<lambda>l. with_type (ndty l) (\<lambda>lt.
       if is_flonum lt then gfail
       else emits [Alu A_cmp S_none (Imm 0) (reg r (op_size lt)), Setcc CC_E RAX,
                   Ext False 1 4 (Reg 1 RAX) (phys r)] r)))"

definition gen_deref :: "node \<Rightarrow> cgen \<Rightarrow> cgen" where
  "gen_deref n operand =
     with_type (ndty n) (\<lambda>t.
       if tkind t = TY_FUNC \<or> tkind t = TY_ARRAY \<or> tkind t = TY_VLA then operand
       else with_reg operand (\<lambda>r.
         if is_flonum t then gfail else gseq (emit_load t r (Mem 0 (phys r))) (gret (Some r))))"

section \<open>Binary operators\<close>

definition is_comparison :: "node_kind \<Rightarrow> bool" where
  "is_comparison k \<longleftrightarrow> k = ND_EQ \<or> k = ND_NE \<or> k = ND_LT \<or> k = ND_LE"

definition gen_div :: "node \<Rightarrow> nat \<Rightarrow> cgen \<Rightarrow> cgen" where
  "gen_div n r_lhs rhs_code =
     with_type (ndty n) (\<lambda>t.
       let sz = op_size t; un = use_unsigned t; w = (if sz = 8 then 8 else 4)
       in with_reg rhs_code (\<lambda>r_rhs.
            gseq (emit [Mov S_none (reg r_lhs sz) (Reg w RAX),
                        (if un then Alu A_xor S_l (Reg 4 RDX) (Reg 4 RDX) else if sz = 8 then Cqo else Cdq),
                        Div (\<not> un) (reg_bytes sz) (phys r_rhs),
                        Mov S_none (Reg w (if ndkind n = ND_DIV then RAX else RDX)) (reg r_lhs sz)])
            (gseq (free_reg r_rhs) (gret (Some r_lhs)))))"

definition gen_shift :: "node \<Rightarrow> nat \<Rightarrow> cgen \<Rightarrow> cgen" where
  "gen_shift n r_lhs rhs_code =
     with_type (ndty n) (\<lambda>t. with_child (rhs n) (\<lambda>x.
       let oper = (if ndkind n = ND_SHL then A_shl else if use_unsigned t then A_shr else A_sar)
       in if ndkind x = ND_NUM then emits [Alu oper S_none (Imm (wrap32 (ndval x))) (reg r_lhs (op_size t))] r_lhs
          else with_reg rhs_code (\<lambda>r_rhs.
            gseq (emit [Mov S_l (Reg 4 (phys r_rhs)) (Reg 4 RCX), ShiftCl oper (reg_bytes (op_size t)) (phys r_lhs)])
            (gseq (free_reg r_rhs) (gret (Some r_lhs))))))"

fun arith_inst :: "node_kind \<Rightarrow> alu" where
  "arith_inst ND_ADD = A_add"
| "arith_inst ND_SUB = A_sub"
| "arith_inst ND_MUL = A_imul"
| "arith_inst ND_BITAND = A_and"
| "arith_inst ND_BITXOR = A_xor"
| "arith_inst ND_BITOR = A_or"
| "arith_inst k = A_cmp"

text \<open>\<open>while (tmp > 1) { shift++; tmp >>= 1; }\<close>\<close>

fun log2_loop :: "nat \<Rightarrow> nat" where
  "log2_loop n = (if n > 1 then Suc (log2_loop (n div 2)) else 0)"

declare log2_loop.simps [simp del]

definition power_of_two :: "int \<Rightarrow> bool" where
  "power_of_two v \<longleftrightarrow> v AND (v - 1) = 0"

text \<open>The right operand is a literal that fits in 32 bits.\<close>

definition arith_imm :: "node_kind \<Rightarrow> int \<Rightarrow> opd \<Rightarrow> instr list" where
  "arith_imm k imm dst =
     (if (k = ND_MUL \<and> imm = 1) \<or> (k \<in> {ND_ADD, ND_SUB, ND_BITOR, ND_BITXOR} \<and> imm = 0) then []
      else if k = ND_MUL \<and> imm > 0 \<and> power_of_two imm
      then [Alu A_shl S_none (Imm (int (log2_loop (nat imm)))) dst]
      else [Alu (arith_inst k) S_none (Imm imm) dst])"

text \<open>Pointer difference: the byte distance over the size of the element.\<close>

definition scale_down :: "int \<Rightarrow> int \<Rightarrow> nat \<Rightarrow> instr list" where
  "scale_down elem sz r =
     (let w = (if sz = 8 then 8 else 4)
      in if elem > 1 then
           (if power_of_two elem then [Alu A_sar S_none (Imm (int (log2_loop (nat elem)))) (reg r sz)]
            else [Mov S_none (reg r sz) (Reg w RAX), (if sz = 8 then Cqo else Cdq),
                  Mov S_none (Imm elem) (Reg w R11), Div True w R11,
                  Mov S_none (Reg w RAX) (reg r sz)])
         else [])"

definition arith_regs :: "node_kind \<Rightarrow> int \<Rightarrow> ctype \<Rightarrow> ctype \<Rightarrow> nat \<Rightarrow> nat \<Rightarrow> instr list" where
  "arith_regs k sz lt rt r_lhs r_rhs =
     (if sz = 8 \<and> op_size rt = 4 \<and> \<not> use_unsigned rt
      then [Ext True 4 8 (Reg 4 (phys r_rhs)) (phys r_rhs)] else []) @
     [Alu (arith_inst k) S_none (reg r_rhs sz) (reg r_lhs sz)] @
     (case (tbase lt, tbase rt) of
        (Some b, Some _) \<Rightarrow> if k = ND_SUB then scale_down (sizeof b) sz r_lhs else []
      | _ \<Rightarrow> [])"

text \<open>A comparison leaves its condition in the flags; they become 0 or 1.\<close>

definition compare_cc :: "node_kind \<Rightarrow> bool \<Rightarrow> cc" where
  "compare_cc k un =
     (if k = ND_EQ then CC_E else if k = ND_NE then CC_NE
      else if k = ND_LT then (if un then CC_B else CC_L)
      else (if un then CC_BE else CC_LE))"

definition field_operand_width :: "node option \<Rightarrow> int" where
  "field_operand_width x =
     (case x of None \<Rightarrow> 0
      | Some n \<Rightarrow>
          if ndkind n = ND_MEMBER then
            (case nmember (info n) of None \<Rightarrow> 0
             | Some m \<Rightarrow>
                 if bit_width (minfo m) > 32 \<and> bit_width (minfo m) < 64 \<and> sizeof (mty m) \<ge> 8 \<and> unsigned_ty (mty m)
                 then bit_width (minfo m) else 0)
          else 0)"

definition gen_arith :: "node \<Rightarrow> nat \<Rightarrow> cgen \<Rightarrow> cgen" where
  "gen_arith n r_lhs rhs_code =
     with_child (lhs n) (\<lambda>l. with_child (rhs n) (\<lambda>x.
     with_type (ndty n) (\<lambda>t. with_type (ndty l) (\<lambda>lt. with_type (ndty x) (\<lambda>rt.
       let k = ndkind n; sz = max (op_size (if is_comparison k then lt else t)) (op_size rt)
       in gseq (if ndkind x = ND_NUM \<and> in32 (ndval x) then emit (arith_imm k (ndval x) (reg r_lhs sz))
                else with_reg rhs_code (\<lambda>r_rhs.
                  gseq (emit (arith_regs k sz lt rt r_lhs r_rhs)) (free_reg r_rhs)))
          (emits ((if is_comparison k then
                     [Setcc (compare_cc k (use_unsigned_cmp lt rt)) RAX,
                      Ext False 1 (reg_bytes (op_size t)) (Reg 1 RAX) (phys r_lhs)]
                   else []) @
                  (if k \<in> {ND_MUL, ND_ADD, ND_SUB} then
                     (let bw = max (field_operand_width (lhs n)) (field_operand_width (rhs n))
                      in if bw > 0 then and_const (ones bw) r_lhs else [])
                   else [])) r_lhs))))))"

text \<open>Everything after the \<open>switch\<close> of \<open>gen\<close>.\<close>

definition gen_binary :: "node \<Rightarrow> cgen \<Rightarrow> cgen \<Rightarrow> cgen" where
  "gen_binary n lhs_code rhs_code =
     with_reg lhs_code (\<lambda>r_lhs. with_child (lhs n) (\<lambda>l. with_child (rhs n) (\<lambda>x.
     with_type (ndty n) (\<lambda>t. with_type (ndty l) (\<lambda>lt. with_type (ndty x) (\<lambda>rt.
       if is_flonum t \<or> is_flonum lt \<or> is_flonum rt then gfail
       else if ndkind n = ND_DIV \<or> ndkind n = ND_MOD then gen_div n r_lhs rhs_code
       else if ndkind n = ND_SHL \<or> ndkind n = ND_SHR then gen_shift n r_lhs rhs_code
       else if ndkind n \<in> {ND_ADD, ND_SUB, ND_MUL, ND_BITAND, ND_BITXOR, ND_BITOR, ND_EQ, ND_NE, ND_LT, ND_LE}
       then gen_arith n r_lhs rhs_code
       else gfail))))))"

section \<open>Control flow in expressions\<close>

text \<open>\<open>&&\<close> and \<open>||\<close>; \<open>flag\<close> is the value when the left operand decides, \<open>q\<close> the condition of that.\<close>

definition gen_logical :: "node \<Rightarrow> int \<Rightarrow> cc \<Rightarrow> cgen \<Rightarrow> cgen \<Rightarrow> cgen" where
  "gen_logical n flag q lhs_code rhs_code =
     gbind new_label (\<lambda>c. with_reg lhs_code (\<lambda>a. with_child (lhs n) (\<lambda>l. with_type (ndty l) (\<lambda>lt.
     gbind (\<lambda>g. gret (spill_logand g) g) (\<lambda>slot.
       gseq (emit [Alu A_cmp S_none (Imm 0) (reg a (sizeof lt)), Mov S_b (Imm flag) (Mem (- slot) RBP), Jcc q (L_end c)])
       (gseq (free_reg a)
       (with_reg rhs_code (\<lambda>b. with_child (rhs n) (\<lambda>x. with_type (ndty x) (\<lambda>rt.
         gseq (emit [Alu A_cmp S_none (Imm 0) (reg b (sizeof rt)), Setcc CC_NE RAX, Mov S_b (Reg 1 RAX) (Mem (- slot) RBP)])
         (gseq (free_reg b)
         (gseq (emit [Label (L_end c)])
         (gbind alloc_reg (\<lambda>r. emits [Ext False 1 4 (Mem (- slot) RBP) (phys r)] r))))))))))))))"

definition gen_cond :: "node \<Rightarrow> cgen \<Rightarrow> cgen \<Rightarrow> cgen \<Rightarrow> cgen" where
  "gen_cond n cond_code then_code else_code =
     gbind new_label (\<lambda>c. gbind alloc_reg (\<lambda>r. with_reg cond_code (\<lambda>q.
     with_child (ncond n) (\<lambda>x. with_type (ndty x) (\<lambda>ct.
       gseq (emit [Alu A_cmp S_none (Imm 0) (reg q (sizeof ct)), Jcc CC_E (L_else c)])
       (gseq (free_reg q)
       (with_reg then_code (\<lambda>a.
         gseq (emit [Mov S_none (Reg 8 (phys a)) (Reg 8 (phys r))])
         (gseq (free_reg a)
         (gseq (emit [Jmp (L_end c), Label (L_else c)])
         (with_reg else_code (\<lambda>b.
           gseq (emit [Mov S_none (Reg 8 (phys b)) (Reg 8 (phys r))])
           (gseq (free_reg b) (emits [Label (L_end c)] r))))))))))))))"

definition gen_comma :: "cgen \<Rightarrow> cgen \<Rightarrow> cgen" where
  "gen_comma lhs_code rhs_code = gbind lhs_code (\<lambda>r. gseq (free_opt r) rhs_code)"

end
