(* ===== verification/Gen.thy ===== *)
theory Gen
  imports CodeGen
begin

text \<open>
  The statements of the code generator of \<open>src/codegen.c\<close> (\<open>return\<close>, blocks, \<open>if\<close>, loops) and the
  recursive functions \<open>gen\<close>, \<open>gen_addr\<close> and \<open>gen_cond_branch_inv\<close> themselves.
\<close>

section \<open>Branching\<close>

text \<open>Jump to \<open>lab\<close> when the condition is false.\<close>

definition inverse_cc :: "node_kind \<Rightarrow> bool \<Rightarrow> cc" where
  "inverse_cc k un =
     (if k = ND_EQ then CC_NE else if k = ND_NE then CC_E
      else if k = ND_LT then (if un then CC_AE else CC_GE)
      else (if un then CC_A else CC_G))"

definition cond_branch_inv :: "node \<Rightarrow> cgen \<Rightarrow> cgen \<Rightarrow> cgen \<Rightarrow> label \<Rightarrow> unit gm" where
  "cond_branch_inv n lhs_code rhs_code self_code lab =
     (if is_comparison (ndkind n) then
        with_child (lhs n) (\<lambda>l. with_type (ndty l) (\<lambda>lt.
          if is_flonum lt then gfail
          else with_reg lhs_code (\<lambda>a. with_child (rhs n) (\<lambda>x. with_type (ndty x) (\<lambda>rt.
            let sz = max (op_size lt) (op_size rt)
            in gseq (if ndkind x = ND_NUM \<and> in32 (ndval x)
                     then emit [Alu A_cmp S_none (Imm (ndval x)) (reg a sz)]
                     else with_reg rhs_code (\<lambda>b.
                       gseq (emit [Alu A_cmp S_none (reg b sz) (reg a sz)]) (free_reg b)))
               (gseq (free_reg a)
                 (emit [Jcc (inverse_cc (ndkind n) (use_unsigned_cmp lt rt)) lab])))))))
      else
        with_reg self_code (\<lambda>r. with_type (ndty n) (\<lambda>t.
          gseq (emit [Alu A_cmp S_none (Imm 0) (reg r (sizeof t))])
          (gseq (free_reg r) (emit [Jcc CC_E lab])))))"

section \<open>Statements\<close>

definition no_value :: "unit gm \<Rightarrow> cgen" where
  "no_value f = gseq f (gret None)"

definition gen_stmt :: "cgen \<Rightarrow> unit gm" where
  "gen_stmt e = gbind e free_opt"

text \<open>
  What a jump out of a scope does for the variables it leaves, from \<open>cleanup_begin\<close> up to \<open>cleanup_end\<close>:
  the calls of cleanup functions and the release of VLAs are not modelled, so a variable that needs one is a
  failure.
\<close>

definition var_has_cleanup :: "lvar \<Rightarrow> bool" where
  "var_has_cleanup v \<longleftrightarrow>
     vis_local v \<and>
     (vcleanup v \<noteq> None \<or>
      (case vty v of
         None \<Rightarrow> False
       | Some t \<Rightarrow>
           tkind t = TY_ARRAY \<and> (case tbase t of None \<Rightarrow> False | Some b \<Rightarrow> cleanup_func (tinfo b) \<noteq> None)))"

definition emit_cleanup_range :: "lvar list \<Rightarrow> unit gm" where
  "emit_cleanup_range vs = (if list_ex var_has_cleanup vs then gfail else gret ())"

definition emit_vla_dealloc :: "lvar list \<Rightarrow> unit gm" where
  "emit_vla_dealloc vs =
     (if list_ex (\<lambda>v. case vty v of None \<Rightarrow> False | Some t \<Rightarrow> is_vla t) vs then gfail else gret ())"

definition gen_return :: "fenv \<Rightarrow> node \<Rightarrow> cgen \<Rightarrow> cgen" where
  "gen_return E n value_code =
     gseq (case lhs n of
             None \<Rightarrow> gret ()
           | Some l \<Rightarrow>
               with_type (ndty l) (\<lambda>lt.
                 if tkind lt = TY_STRUCT \<or> tkind lt = TY_UNION \<or> is_flonum lt then gfail
                 else with_reg value_code (\<lambda>r.
                   if (case fn_return E of None \<Rightarrow> False | Some t \<Rightarrow> is_flonum t) then gfail
                   else gseq (emit (Mov S_q (Reg 8 (phys r)) (Reg 8 RAX) #
                          (case fn_return E of
                             None \<Rightarrow> []
                           | Some t \<Rightarrow>
                               if sizeof t < 4 \<and> unsigned_ty t
                               then [Alu A_and S_l (Imm (2 ^ nat (sizeof t * 8) - 1)) (Reg 4 RAX)] else [])))
                     (free_reg r))))
       (gseq (emit_cleanup_range (leaves (info n))) (no_value (emit [Jmp (L_return (fn_name E))])))"

text \<open>
  Whether a branch with a constant condition must be kept because something may jump into it: a walk
  with a stack of at most 512 nodes, the top of the stack first.
\<close>

definition push :: "node option \<Rightarrow> node list \<Rightarrow> node list" where
  "push x st = (case x of Some n \<Rightarrow> if length st < 512 then n # st else st | None \<Rightarrow> st)"

definition first :: "node list \<Rightarrow> node option" where
  "first ns = (case ns of [] \<Rightarrow> None | n # _ \<Rightarrow> Some n)"

definition scan_children :: "node \<Rightarrow> node list \<Rightarrow> node list" where
  "scan_children n st =
     (if ndkind n = ND_FOR \<or> ndkind n = ND_DO \<or> ndkind n = ND_IF then
        (let st = push (ncond n) (push (nthen n) st);
             st = (if ndkind n = ND_FOR then push (ninc n) (push (ninit n) (push (first (nbody n)) st)) else st)
         in push (nels n) st)
      else if ndkind n = ND_BLOCK then fold (\<lambda>c. push (Some c)) (nbody n) st
      else st)"

definition osize :: "node option \<Rightarrow> nat" where
  "osize x = (case x of None \<Rightarrow> 0 | Some n \<Rightarrow> Suc (size n))"

lemma osize_simps [simp]: "osize None = 0" "osize (Some n) = Suc (size n)"
  by (simp_all add: osize_def)

lemma osize_le: "osize x \<le> size_option size x"
  by (cases x) simp_all

definition weight :: "node list \<Rightarrow> nat" where
  "weight st = sum_list (map (\<lambda>n. Suc (size n)) st)"

lemma weight_simps [simp]: "weight [] = 0" "weight (n # st) = Suc (size n) + weight st"
  by (simp_all add: weight_def)

lemma weight_push: "weight (push x st) \<le> osize x + weight st"
  by (auto simp: push_def split: option.splits)

lemma weight_first: "osize (first ns) \<le> size_list size ns"
  by (cases ns) (auto simp: first_def)

lemma weight_fold: "weight (fold (\<lambda>c. push (Some c)) ns st) \<le> size_list size ns + weight st"
proof (induction ns arbitrary: st)
  case (Cons n ns)
  show ?case using Cons [of "push (Some n) st"] weight_push [of "Some n" st] by simp
qed simp

lemma weight_children: "weight (scan_children n st) < Suc (size n) + weight st"
proof (cases n)
  case (Node i l r c t e a b bo ar sr)
  note le = osize_le [of c] osize_le [of t] osize_le [of e] osize_le [of a] osize_le [of b] weight_first [of bo]
  have "weight (push e (push b (push a (push (first bo) (push c (push t st)))))) \<le>
    osize e + (osize b + (osize a + (osize (first bo) + (osize c + (osize t + weight st)))))"
    by (meson add_left_mono order_trans weight_push)
  moreover have "weight (push e (push c (push t st))) \<le> osize e + (osize c + (osize t + weight st))"
    by (meson add_left_mono order_trans weight_push)
  moreover have "weight (fold (\<lambda>c. push (Some c)) bo st) \<le> size_list size bo + weight st"
    by (rule weight_fold)
  ultimately show ?thesis using le by (auto simp: Node scan_children_def Let_def)
qed

function has_label_scan :: "node list \<Rightarrow> bool" where
  "has_label_scan [] = False"
| "has_label_scan (n # st) =
     (if ndkind n \<in> {ND_LABEL, ND_GOTO, ND_GOTO_IND, ND_CASE, ND_LABEL_VAL} then True
      else has_label_scan (scan_children n st))"
  by pat_completeness auto
termination
  by (relation "measure weight") (use weight_children in auto)

definition has_label :: "node \<Rightarrow> bool" where
  "has_label n = has_label_scan (push (nels n) (push (nthen n) []))"

text \<open>A constant condition selects its branch, unless something may jump into the other.\<close>

definition gen_if :: "node \<Rightarrow> (label \<Rightarrow> unit gm) \<Rightarrow> cgen \<Rightarrow> cgen \<Rightarrow> cgen" where
  "gen_if n branch then_code else_code =
     with_child (ncond n) (\<lambda>q.
       if ndkind q = ND_NUM then
         (if has_label n then gfail
          else no_value (gen_stmt (if ndval q \<noteq> 0 then then_code
                                   else if nels n \<noteq> None then else_code else gret None)))
       else gbind new_label (\<lambda>c. no_value (
         if nels n \<noteq> None then
           gseq (branch (L_else c)) (gseq (gen_stmt then_code)
             (gseq (emit [Jmp (L_end c), Label (L_else c)]) (gseq (gen_stmt else_code) (emit [Label (L_end c)]))))
         else gseq (branch (L_end c)) (gseq (gen_stmt then_code) (emit [Label (L_end c)])))))"

text \<open>\<open>break_stack\<close> and \<open>continue_stack\<close> have 128 entries, which nothing checks.\<close>

definition push_loop :: "nat \<Rightarrow> unit gm" where
  "push_loop c g =
     (if length (break_stack g) < 128 then
        Some ((), [], g\<lparr>break_stack := c # break_stack g, continue_stack := c # continue_stack g\<rparr>)
      else None)"

definition pop_loop :: "unit gm" where
  "pop_loop g = Some ((), [], g\<lparr>break_stack := tl (break_stack g), continue_stack := tl (continue_stack g)\<rparr>)"

definition gen_for :: "node \<Rightarrow> cgen \<Rightarrow> (label \<Rightarrow> unit gm) \<Rightarrow> cgen \<Rightarrow> cgen \<Rightarrow> cgen" where
  "gen_for n init_code branch then_code inc_code =
     gbind new_label (\<lambda>c. no_value (
       gseq (gen_stmt init_code)
       (gseq (push_loop c)
       (gseq (emit [Label (L_begin c)])
       (gseq (if ncond n \<noteq> None then branch (L_end c) else gret ())
       (gseq (gen_stmt then_code)
       (gseq (emit [Label (L_continue c)])
       (gseq (gen_stmt inc_code)
       (gseq (emit [Jmp (L_begin c), Label (L_end c)]) pop_loop)))))))))"

definition gen_do :: "node \<Rightarrow> cgen \<Rightarrow> cgen \<Rightarrow> cgen" where
  "gen_do n then_code cond_code =
     gbind new_label (\<lambda>c. no_value (
       gseq (emit [Label (L_begin c)])
       (gseq (push_loop c)
       (gseq (gen_stmt then_code)
       (gseq (emit [Label (L_continue c)])
       (gseq (with_reg cond_code (\<lambda>r. with_child (ncond n) (\<lambda>q. with_type (ndty q) (\<lambda>t.
                gseq (emit [Alu A_cmp S_none (Imm 0) (reg r (sizeof t))])
                (gseq (free_reg r) (emit [Jcc CC_NE (L_begin c)]))))))
       (gseq (emit [Label (L_end c)]) pop_loop)))))))"

definition leave_scope :: "node \<Rightarrow> unit gm" where
  "leave_scope n = gseq (emit_cleanup_range (leaves (info n))) (emit_vla_dealloc (leaves (info n)))"

definition gen_break :: "node \<Rightarrow> cgen" where
  "gen_break n g =
     (case break_stack g of
        [] \<Rightarrow> None
      | c # _ \<Rightarrow> no_value (gseq (leave_scope n) (emit [Jmp (L_end c)])) g)"

definition gen_continue :: "node \<Rightarrow> cgen" where
  "gen_continue n g =
     (case continue_stack g of
        [] \<Rightarrow> None
      | c # _ \<Rightarrow> no_value (gseq (leave_scope n) (emit [Jmp (L_continue c)])) g)"

text \<open>Nothing to do for the variables a jump leaves.\<close>

definition leaves_nothing :: "node \<Rightarrow> bool" where
  "leaves_nothing n \<longleftrightarrow>
     list_all (\<lambda>v. \<not> var_has_cleanup v \<and> (case vty v of None \<Rightarrow> True | Some t \<Rightarrow> \<not> is_vla t)) (leaves (info n))"

lemma leaves_nothing_code:
  assumes "leaves_nothing n"
  shows "emit_cleanup_range (leaves (info n)) = gret ()" "leave_scope n = gret ()"
proof -
  show c: "emit_cleanup_range (leaves (info n)) = gret ()"
    using assms by (auto simp: leaves_nothing_def emit_cleanup_range_def list_all_iff list_ex_iff)
  have "emit_vla_dealloc (leaves (info n)) = gret ()"
    using assms by (auto simp: leaves_nothing_def emit_vla_dealloc_def list_all_iff list_ex_iff split: option.splits)
  with c show "leave_scope n = gret ()" by (simp add: leave_scope_def gseq_def gbind_def gret_def fun_eq_iff)
qed

section \<open>The recursive functions\<close>

text \<open>How far a recursive call goes down: the code of a node before its address, children before both.\<close>

lemma node_child_size:
  "osize (lhs n) < size n" "osize (rhs n) < size n" "osize (ncond n) < size n" "osize (nthen n) < size n"
  "osize (nels n) < size n" "osize (ninit n) < size n" "osize (ninc n) < size n"
  "size_list size (nbody n) < size n"
  using osize_le [of "lhs n"] osize_le [of "rhs n"] osize_le [of "ncond n"] osize_le [of "nthen n"]
    osize_le [of "nels n"] osize_le [of "ninit n"] osize_le [of "ninc n"]
  by (cases n; simp)+

lemma child_measure:
  "2 * osize (lhs n) < Suc (2 * size n)" "2 * osize (rhs n) < Suc (2 * size n)"
  "2 * osize (lhs n) < 2 * size n" "2 * osize (rhs n) < 2 * size n"
  "2 * osize (ncond n) < 2 * size n" "2 * osize (nthen n) < 2 * size n" "2 * osize (nels n) < 2 * size n"
  "2 * osize (ncond n) < Suc (2 * size n)" "2 * osize (nthen n) < Suc (2 * size n)"
  "2 * osize (nels n) < Suc (2 * size n)" "2 * osize (ninit n) < Suc (2 * size n)"
  "2 * osize (ninc n) < Suc (2 * size n)" "2 * size_list size (nbody n) < Suc (2 * size n)"
  "Suc (2 * osize (ncond n)) < Suc (2 * size n)"
  "2 * osize (lhs n) < Suc (Suc (Suc (2 * size n)))" "2 * osize (rhs n) < Suc (Suc (Suc (2 * size n)))"
  using node_child_size [of n] by simp_all

function gen :: "fenv \<Rightarrow> node \<Rightarrow> cgen"
  and gen_opt :: "fenv \<Rightarrow> node option \<Rightarrow> cgen"
  and gen_addr :: "fenv \<Rightarrow> node \<Rightarrow> cgen"
  and gen_addr_opt :: "fenv \<Rightarrow> node option \<Rightarrow> cgen"
  and gen_list :: "fenv \<Rightarrow> node list \<Rightarrow> unit gm"
  and gen_branch :: "fenv \<Rightarrow> node option \<Rightarrow> label \<Rightarrow> unit gm" where
  "gen E n =
     (case ndkind n of
        ND_NUM \<Rightarrow> gen_num n
      | ND_LVAR \<Rightarrow> gen_lvar n
      | ND_ASSIGN \<Rightarrow> gen_assign n (gen_addr_opt E (lhs n)) (gen_opt E (rhs n))
      | ND_NEG \<Rightarrow> gen_neg n (gen_opt E (lhs n))
      | ND_NOT \<Rightarrow> gen_not n (gen_opt E (lhs n))
      | ND_POST_INC \<Rightarrow> gen_post n (gen_addr_opt E (lhs n))
      | ND_POST_DEC \<Rightarrow> gen_post n (gen_addr_opt E (lhs n))
      | ND_MEMBER \<Rightarrow> gen_member n (gen_addr E n)
      | ND_ADDR \<Rightarrow> gen_addr_opt E (lhs n)
      | ND_CAST \<Rightarrow> gen_cast n (gen_opt E (lhs n))
      | ND_BITNOT \<Rightarrow> gen_bitnot n (gen_opt E (lhs n))
      | ND_DEREF \<Rightarrow> gen_deref n (gen_opt E (lhs n))
      | ND_RETURN \<Rightarrow> gen_return E n (gen_opt E (lhs n))
      | ND_NULL \<Rightarrow> gret None
      | ND_COMMA \<Rightarrow> gen_comma (gen_opt E (lhs n)) (gen_opt E (rhs n))
      | ND_CHAIN \<Rightarrow> gen_comma (gen_opt E (lhs n)) (gen_opt E (rhs n))
      | ND_BLOCK \<Rightarrow> no_value (gen_list E (nbody n))
      | ND_EXPR_STMT \<Rightarrow> no_value (gen_stmt (gen_opt E (lhs n)))
      | ND_LOGAND \<Rightarrow> gen_logical n 0 CC_E (gen_opt E (lhs n)) (gen_opt E (rhs n))
      | ND_LOGOR \<Rightarrow> gen_logical n 1 CC_NE (gen_opt E (lhs n)) (gen_opt E (rhs n))
      | ND_COND \<Rightarrow> gen_cond n (gen_opt E (ncond n)) (gen_opt E (nthen n)) (gen_opt E (nels n))
      | ND_IF \<Rightarrow> gen_if n (gen_branch E (ncond n)) (gen_opt E (nthen n)) (gen_opt E (nels n))
      | ND_FOR \<Rightarrow> gen_for n (gen_opt E (ninit n)) (gen_branch E (ncond n)) (gen_opt E (nthen n)) (gen_opt E (ninc n))
      | ND_DO \<Rightarrow> gen_do n (gen_opt E (nthen n)) (gen_opt E (ncond n))
      | ND_BREAK \<Rightarrow> gen_break n
      | ND_CONTINUE \<Rightarrow> gen_continue n
      | ND_ADD \<Rightarrow> gen_binary n (gen_opt E (lhs n)) (gen_opt E (rhs n))
      | ND_SUB \<Rightarrow> gen_binary n (gen_opt E (lhs n)) (gen_opt E (rhs n))
      | ND_MUL \<Rightarrow> gen_binary n (gen_opt E (lhs n)) (gen_opt E (rhs n))
      | ND_DIV \<Rightarrow> gen_binary n (gen_opt E (lhs n)) (gen_opt E (rhs n))
      | ND_MOD \<Rightarrow> gen_binary n (gen_opt E (lhs n)) (gen_opt E (rhs n))
      | ND_SHL \<Rightarrow> gen_binary n (gen_opt E (lhs n)) (gen_opt E (rhs n))
      | ND_SHR \<Rightarrow> gen_binary n (gen_opt E (lhs n)) (gen_opt E (rhs n))
      | ND_BITAND \<Rightarrow> gen_binary n (gen_opt E (lhs n)) (gen_opt E (rhs n))
      | ND_BITXOR \<Rightarrow> gen_binary n (gen_opt E (lhs n)) (gen_opt E (rhs n))
      | ND_BITOR \<Rightarrow> gen_binary n (gen_opt E (lhs n)) (gen_opt E (rhs n))
      | ND_EQ \<Rightarrow> gen_binary n (gen_opt E (lhs n)) (gen_opt E (rhs n))
      | ND_NE \<Rightarrow> gen_binary n (gen_opt E (lhs n)) (gen_opt E (rhs n))
      | ND_LT \<Rightarrow> gen_binary n (gen_opt E (lhs n)) (gen_opt E (rhs n))
      | ND_LE \<Rightarrow> gen_binary n (gen_opt E (lhs n)) (gen_opt E (rhs n))
      | _ \<Rightarrow> gfail)"
| "gen_opt E None = gret None"
| "gen_opt E (Some n) = gen E n"
| "gen_addr E n =
     (case ndkind n of
        ND_LVAR \<Rightarrow> addr_lvar n
      | ND_DEREF \<Rightarrow> gen_opt E (lhs n)
      | ND_MEMBER \<Rightarrow> addr_member n (gen_addr_opt E (lhs n))
      | ND_COND \<Rightarrow> gen_cond n (gen_opt E (ncond n)) (gen_addr_opt E (nthen n)) (gen_addr_opt E (nels n))
      | ND_CAST \<Rightarrow> with_type (ndty n) (\<lambda>t. if is_copied t then gen_addr_opt E (lhs n) else gfail)
      | ND_COMMA \<Rightarrow> gen_comma (gen_opt E (lhs n)) (gen_addr_opt E (rhs n))
      | ND_ASSIGN \<Rightarrow> gen_addr_opt E (lhs n)
      | ND_NUM \<Rightarrow> gret None
      | ND_FNUM \<Rightarrow> gret None
      | _ \<Rightarrow> gfail)"
| "gen_addr_opt E None = gfail"
| "gen_addr_opt E (Some n) = gen_addr E n"
| "gen_list E [] = gret ()"
| "gen_list E (n # ns) = gseq (gen_stmt (gen E n)) (gen_list E ns)"
| "gen_branch E None lab = gfail"
| "gen_branch E (Some n) lab = cond_branch_inv n (gen_opt E (lhs n)) (gen_opt E (rhs n)) (gen E n) lab"
  by pat_completeness auto
termination
  by (relation "measure (\<lambda>x. case x of
       Inl (Inl (E, n)) \<Rightarrow> 2 * size n + 1
     | Inl (Inr (Inl (E, x))) \<Rightarrow> 2 * osize x
     | Inl (Inr (Inr (E, n))) \<Rightarrow> 2 * size n
     | Inr (Inl (E, x)) \<Rightarrow> 2 * osize x
     | Inr (Inr (Inl (E, ns))) \<Rightarrow> 2 * size_list size ns
     | Inr (Inr (Inr (E, x, lab))) \<Rightarrow> 2 * osize x + 1)")
    (use child_measure in \<open>simp_all add: node_child_size\<close>)

declare gen.simps [simp del] gen_addr.simps [simp del]

end
