(* ===== verification/CSem.thy ===== *)
theory CSem
  imports Gen
begin

text \<open>
  What the typed expressions the code generator receives mean in C: a reference evaluator over the
  byte memory of the machine. A variable lives at an address, \<open>visible\<close> says which addresses the
  program may touch; operands are evaluated from left to right. Signed arithmetic wraps. The result
  is \<open>None\<close> where C leaves it undefined (division by zero, shift counts, a pointer difference that
  is not a multiple of the element or does not fit, an access outside the visible memory) and on the constructs
  that are not modelled.
\<close>

record cenv =
  vaddr :: "lvar \<Rightarrow> 64 word"
  visible :: "64 word \<Rightarrow> bool"

section \<open>Values\<close>

text \<open>A value is a mathematical integer; addresses are read as signed 64-bit numbers.\<close>

definition scalar :: "ctype \<Rightarrow> bool" where
  "scalar t \<longleftrightarrow> (is_integer t \<and> sizeof t \<in> {1, 2, 4, 8}) \<or> (tkind t = TY_PTR \<and> sizeof t = 8 \<and> \<not> unsigned_ty t)"

definition int_scalar :: "ctype \<Rightarrow> bool" where
  "int_scalar t \<longleftrightarrow> is_integer t \<and> sizeof t \<in> {1, 2, 4, 8}"

definition is_array :: "ctype \<Rightarrow> bool" where
  "is_array t \<longleftrightarrow> tkind t = TY_ARRAY"

abbreviation is_bool :: "ctype \<Rightarrow> bool" where
  "is_bool t \<equiv> tkind t = TY_BOOL"

text \<open>The bytes of a register a value occupies.\<close>

definition vbytes :: "ctype \<Rightarrow> nat" where
  "vbytes t = (if is_integer t then (if sizeof t < 4 then 4 else nat (sizeof t)) else 8)"

definition conv :: "ctype \<Rightarrow> int \<Rightarrow> int" where
  "conv t v =
     (if is_integer t then (if unsigned_ty t then low (nat (sizeof t)) v else slow (nat (sizeof t)) v)
      else slow 8 v)"

text \<open>Conversion to \<open>_Bool\<close> is a test against zero.\<close>

definition cconv :: "ctype \<Rightarrow> int \<Rightarrow> int" where
  "cconv t v = (if is_bool t then of_bool (v \<noteq> 0) else conv t v)"

definition can_access :: "cenv \<Rightarrow> 64 word \<Rightarrow> nat \<Rightarrow> bool" where
  "can_access E a n \<longleftrightarrow> list_all (\<lambda>k. visible E (a + word_of_nat k)) [0..<n]"

definition cload :: "cenv \<Rightarrow> ctype \<Rightarrow> 64 word \<Rightarrow> memory \<Rightarrow> int option" where
  "cload E t a m =
     (if can_access E a (nat (sizeof t)) then Some (conv t (load m (nat (sizeof t)) a)) else None)"

definition cstore :: "cenv \<Rightarrow> ctype \<Rightarrow> 64 word \<Rightarrow> int \<Rightarrow> memory \<Rightarrow> memory option" where
  "cstore E t a v m =
     (if can_access E a (nat (sizeof t)) then Some (store m (nat (sizeof t)) a v) else None)"

type_synonym ceval = "memory \<Rightarrow> (int \<times> memory) option"

definition cbind :: "ceval \<Rightarrow> (int \<Rightarrow> ceval) \<Rightarrow> ceval" where
  "cbind f k m = (case f m of None \<Rightarrow> None | Some (v, m') \<Rightarrow> k v m')"

definition cret :: "int \<Rightarrow> ceval" where
  "cret v m = Some (v, m)"

definition cfail :: ceval where
  "cfail m = None"

definition ctype_of :: "node option \<Rightarrow> ctype" where
  "ctype_of x = (case x of Some n \<Rightarrow> (case ndty n of Some t \<Rightarrow> t | None \<Rightarrow> ty_void) | None \<Rightarrow> ty_void)"

abbreviation tyof :: "node \<Rightarrow> ctype" where
  "tyof n \<equiv> ctype_of (Some n)"

section \<open>Operators\<close>

text \<open>Integer arithmetic in the type of the node; a pointer plus a scaled index; a pointer difference.\<close>

definition arith_value :: "node_kind \<Rightarrow> int \<Rightarrow> int \<Rightarrow> int" where
  "arith_value k a b =
     (case k of ND_ADD \<Rightarrow> a + b | ND_SUB \<Rightarrow> a - b | ND_MUL \<Rightarrow> a * b
      | ND_BITAND \<Rightarrow> a AND b | ND_BITXOR \<Rightarrow> a XOR b | _ \<Rightarrow> a OR b)"

definition pointer_difference :: "node_kind \<Rightarrow> ctype \<Rightarrow> ctype \<Rightarrow> bool" where
  "pointer_difference k lt rt \<longleftrightarrow> k = ND_SUB \<and> tbase lt \<noteq> None \<and> tbase rt \<noteq> None"

definition elem_size :: "ctype \<Rightarrow> int" where
  "elem_size t = (case tbase t of None \<Rightarrow> 1 | Some b \<Rightarrow> max 1 (sizeof b))"

text \<open>Integers are compared in their common type (C11 6.3.1.8), pointers as they are.\<close>

definition compare_value :: "node_kind \<Rightarrow> ctype \<Rightarrow> ctype \<Rightarrow> int \<Rightarrow> int \<Rightarrow> bool" where
  "compare_value k lt rt a b =
     (let c = (if is_integer lt \<and> is_integer rt then
                 (case c_usual (c_arith_of lt) (c_arith_of rt) of
                    C_int _ n u \<Rightarrow> if u then low (n div 8) else slow (n div 8)
                  | C_float _ \<Rightarrow> (\<lambda>v. v))
               else (\<lambda>v. v))
      in if k = ND_EQ then c a = c b else if k = ND_NE then c a \<noteq> c b
         else if k = ND_LT then c a < c b else c a \<le> c b)"

definition sem_arith :: "node_kind \<Rightarrow> ctype \<Rightarrow> ctype \<Rightarrow> ctype \<Rightarrow> int \<Rightarrow> int \<Rightarrow> int option" where
  "sem_arith k t lt rt a b =
     (if is_comparison k then Some (of_bool (compare_value k lt rt a b))
      else if pointer_difference k lt rt then
        (if elem_size lt dvd a - b \<and> in64 (a - b) then Some (conv t ((a - b) div elem_size lt)) else None)
      else Some (conv t (arith_value k (conv t a) (conv t b))))"

definition sem_div :: "node_kind \<Rightarrow> ctype \<Rightarrow> int \<Rightarrow> int \<Rightarrow> int option" where
  "sem_div k t a b =
     (let a = conv t a; b = conv t b
      in if b = 0 \<or> conv t (a sdiv b) \<noteq> a sdiv b then None
         else Some (if k = ND_DIV then a sdiv b else a smod b))"

definition sem_shift :: "node_kind \<Rightarrow> ctype \<Rightarrow> int \<Rightarrow> int \<Rightarrow> int option" where
  "sem_shift k t a b =
     (if b < 0 \<or> 8 * sizeof t \<le> b then None
      else Some (if k = ND_SHL then conv t (push_bit (nat b) (conv t a)) else drop_bit (nat b) (conv t a)))"

definition sem_binary :: "node_kind \<Rightarrow> ctype \<Rightarrow> ctype \<Rightarrow> ctype \<Rightarrow> int \<Rightarrow> int \<Rightarrow> int option" where
  "sem_binary k t lt rt a b =
     (if k = ND_DIV \<or> k = ND_MOD then sem_div k t a b
      else if k = ND_SHL \<or> k = ND_SHR then sem_shift k t a b
      else sem_arith k t lt rt a b)"

section \<open>Expressions\<close>

definition cpure :: "int option \<Rightarrow> ceval" where
  "cpure v m = map_option (\<lambda>x. (x, m)) v"

definition sem_load :: "cenv \<Rightarrow> ctype \<Rightarrow> int \<Rightarrow> ceval" where
  "sem_load E t p m = map_option (\<lambda>v. (v, m)) (cload E t (word_of_int p) m)"

definition sem_store :: "cenv \<Rightarrow> ctype \<Rightarrow> int \<Rightarrow> int \<Rightarrow> int \<Rightarrow> ceval" where
  "sem_store E t p v x m = map_option (\<lambda>m'. (x, m')) (cstore E t (word_of_int p) v m)"

definition sem_lvar :: "cenv \<Rightarrow> node \<Rightarrow> ceval" where
  "sem_lvar E n =
     (case nvar (info n) of
        None \<Rightarrow> cfail
      | Some v \<Rightarrow>
          (let p = slow 8 (uint (vaddr E v))
           in if is_array (tyof n) then cret p else sem_load E (tyof n) p))"

definition sem_assign :: "cenv \<Rightarrow> ctype \<Rightarrow> ceval \<Rightarrow> ceval \<Rightarrow> ceval" where
  "sem_assign E t addr_of value_of =
     cbind addr_of (\<lambda>p. cbind value_of (\<lambda>v. sem_store E t p (cconv t v) (cconv t v)))"

definition sem_post :: "cenv \<Rightarrow> node_kind \<Rightarrow> ctype \<Rightarrow> ceval \<Rightarrow> ceval" where
  "sem_post E k t addr_of =
     cbind addr_of (\<lambda>p. cbind (sem_load E t p) (\<lambda>v.
       case step_width t of
         None \<Rightarrow> cfail
       | Some d \<Rightarrow> sem_store E t p (conv t (if k = ND_POST_INC then v + d else v - d)) v))"

definition sem_read :: "cenv \<Rightarrow> ctype \<Rightarrow> ceval \<Rightarrow> ceval" where
  "sem_read E t addr_of = cbind addr_of (\<lambda>p. if is_array t then cret p else sem_load E t p)"

definition sem_logical :: "bool \<Rightarrow> ceval \<Rightarrow> ceval \<Rightarrow> ceval" where
  "sem_logical is_and a b =
     cbind a (\<lambda>v. if (v = 0) = is_and then cret (of_bool (v \<noteq> 0)) else cbind b (\<lambda>w. cret (of_bool (w \<noteq> 0))))"

function cev :: "cenv \<Rightarrow> node \<Rightarrow> ceval"
  and cev_opt :: "cenv \<Rightarrow> node option \<Rightarrow> ceval"
  and caddr :: "cenv \<Rightarrow> node \<Rightarrow> ceval"
  and caddr_opt :: "cenv \<Rightarrow> node option \<Rightarrow> ceval" where
  "cev E n =
     (case ndkind n of
        ND_NUM \<Rightarrow> cret (conv (tyof n) (ndval n))
      | ND_LVAR \<Rightarrow> sem_lvar E n
      | ND_ASSIGN \<Rightarrow> sem_assign E (ctype_of (lhs n)) (caddr_opt E (lhs n)) (cev_opt E (rhs n))
      | ND_NEG \<Rightarrow> cbind (cev_opt E (lhs n)) (\<lambda>v. cret (conv (tyof n) (- v)))
      | ND_BITNOT \<Rightarrow> cbind (cev_opt E (lhs n)) (\<lambda>v. cret (conv (tyof n) (NOT v)))
      | ND_NOT \<Rightarrow> cbind (cev_opt E (lhs n)) (\<lambda>v. cret (of_bool (v = 0)))
      | ND_POST_INC \<Rightarrow> sem_post E ND_POST_INC (ctype_of (lhs n)) (caddr_opt E (lhs n))
      | ND_POST_DEC \<Rightarrow> sem_post E ND_POST_DEC (ctype_of (lhs n)) (caddr_opt E (lhs n))
      | ND_MEMBER \<Rightarrow> sem_read E (tyof n) (caddr E n)
      | ND_ADDR \<Rightarrow> caddr_opt E (lhs n)
      | ND_DEREF \<Rightarrow> sem_read E (tyof n) (cev_opt E (lhs n))
      | ND_CAST \<Rightarrow> cbind (cev_opt E (lhs n)) (\<lambda>v. cret (cconv (tyof n) v))
      | ND_COMMA \<Rightarrow> cbind (cev_opt E (lhs n)) (\<lambda>_. cev_opt E (rhs n))
      | ND_CHAIN \<Rightarrow> cbind (cev_opt E (lhs n)) (\<lambda>_. cev_opt E (rhs n))
      | ND_LOGAND \<Rightarrow> sem_logical True (cev_opt E (lhs n)) (cev_opt E (rhs n))
      | ND_LOGOR \<Rightarrow> sem_logical False (cev_opt E (lhs n)) (cev_opt E (rhs n))
      | ND_COND \<Rightarrow>
          cbind (cev_opt E (ncond n)) (\<lambda>q.
            cbind (if q \<noteq> 0 then cev_opt E (nthen n) else cev_opt E (nels n)) (\<lambda>v. cret (conv (tyof n) v)))
      | k \<Rightarrow>
          if k \<in> {ND_ADD, ND_SUB, ND_MUL, ND_DIV, ND_MOD, ND_SHL, ND_SHR, ND_BITAND, ND_BITXOR, ND_BITOR,
                  ND_EQ, ND_NE, ND_LT, ND_LE}
          then cbind (cev_opt E (lhs n)) (\<lambda>a. cbind (cev_opt E (rhs n)) (\<lambda>b.
                 cpure (sem_binary k (tyof n) (ctype_of (lhs n)) (ctype_of (rhs n)) a b)))
          else cfail)"
| "cev_opt E None = cfail"
| "cev_opt E (Some n) = cev E n"
| "caddr E n =
     (case ndkind n of
        ND_LVAR \<Rightarrow> (case nvar (info n) of None \<Rightarrow> cfail | Some v \<Rightarrow> cret (slow 8 (uint (vaddr E v))))
      | ND_DEREF \<Rightarrow> cev_opt E (lhs n)
      | ND_MEMBER \<Rightarrow>
          (case nmember (info n) of
             None \<Rightarrow> cfail
           | Some m \<Rightarrow> cbind (caddr_opt E (lhs n)) (\<lambda>p. cret (slow 8 (p + moffset (minfo m)))))
      | _ \<Rightarrow> cfail)"
| "caddr_opt E None = cfail"
| "caddr_opt E (Some n) = caddr E n"
  by pat_completeness auto
termination
  by (relation "measure (\<lambda>x. case x of
       Inl (Inl (E, n)) \<Rightarrow> 2 * size n + 1
     | Inl (Inr (E, x)) \<Rightarrow> 2 * osize x
     | Inr (Inl (E, n)) \<Rightarrow> 2 * size n
     | Inr (Inr (E, x)) \<Rightarrow> 2 * osize x)")
    (use child_measure in \<open>simp_all add: node_child_size\<close>)

declare cev.simps [simp del] caddr.simps [simp del]

end
