(* ===== verification/GenOk.thy ===== *)
theory GenOk
  imports CSem
begin

text \<open>
  For which typed expressions the generated code is right, and how many registers it takes.
  \<open>value_ok b n\<close> says that the types in the tree are those the type checker leaves and that none of
  the constructs is used whose code is known to be wrong; \<open>b\<close> tells whether the value of the
  expression is wanted or only its effect (an assignment to a narrow signed variable leaves the
  unconverted value in the register).
\<close>

section \<open>Well-formed expressions\<close>

definition lvar_ok :: "node \<Rightarrow> bool" where
  "lvar_ok n \<longleftrightarrow>
     (case nvar (info n) of
        None \<Rightarrow> False
      | Some v \<Rightarrow> vty v = ndty n \<and> (scalar (tyof n) \<or> is_array (tyof n)))"

definition lvar_addr_ok :: "node \<Rightarrow> bool" where
  "lvar_addr_ok n \<longleftrightarrow>
     (case nvar (info n) of
        None \<Rightarrow> False
      | Some v \<Rightarrow> (case vty v of None \<Rightarrow> False | Some t \<Rightarrow> \<not> is_vla t))"

definition member_ok :: "node \<Rightarrow> bool" where
  "member_ok n \<longleftrightarrow>
     (case nmember (info n) of
        None \<Rightarrow> False
      | Some m \<Rightarrow> bit_width (minfo m) = 0 \<and> in32 (moffset (minfo m)))"

text \<open>Expressions whose value is 0 or 1.\<close>

definition boolish :: "node \<Rightarrow> bool" where
  "boolish n \<longleftrightarrow> ndkind n \<in> {ND_EQ, ND_NE, ND_LT, ND_LE, ND_NOT, ND_LOGAND, ND_LOGOR}"

definition to_bool_ok :: "ctype \<Rightarrow> node option \<Rightarrow> bool" where
  "to_bool_ok t x \<longleftrightarrow> is_bool t \<longrightarrow> (case x of None \<Rightarrow> False | Some n \<Rightarrow> boolish n)"

definition num_ok :: "node \<Rightarrow> bool" where
  "num_ok n \<longleftrightarrow>
     scalar (tyof n) \<and> in64 (ndval n) \<and> (sizeof (tyof n) \<ge> 4 \<or> conv (tyof n) (ndval n) = ndval n)"

definition address_ty :: "ctype \<Rightarrow> bool" where
  "address_ty t \<longleftrightarrow> (scalar t \<and> \<not> is_integer t) \<or> is_array t"

text \<open>The register holds the converted value after the assignment.\<close>

definition assign_exact :: "node \<Rightarrow> ctype \<Rightarrow> ctype \<Rightarrow> bool" where
  "assign_exact l lt rt \<longleftrightarrow>
     sizeof lt \<ge> 4 \<or> (unsigned_ty lt \<and> local_scalar l \<noteq> None) \<or>
     (int_scalar rt \<and> sizeof rt = sizeof lt \<and> unsigned_ty rt = unsigned_ty lt)"

definition assign_ok :: "bool \<Rightarrow> node \<Rightarrow> bool" where
  "assign_ok b n \<longleftrightarrow>
     (case lhs n of
        None \<Rightarrow> False
      | Some l \<Rightarrow>
          (let lt = tyof l; rt = ctype_of (rhs n)
           in ndty l \<noteq> None \<and> ndty n = ndty l \<and> scalar lt \<and> (scalar rt \<or> is_array rt) \<and>
              sizeof lt \<le> int (vbytes rt) \<and> to_bool_ok lt (rhs n) \<and>
              (local_scalar l = None \<longrightarrow> ndkind l = ND_DEREF \<or> ndkind l = ND_MEMBER \<or> ndkind l = ND_LVAR) \<and>
              (b \<longrightarrow> assign_exact l lt rt)))"

definition post_ok :: "bool \<Rightarrow> node \<Rightarrow> bool" where
  "post_ok b n \<longleftrightarrow>
     (let lt = ctype_of (lhs n)
      in ndty n = Some lt \<and> scalar lt \<and> \<not> is_bool lt \<and>
         (case step_width lt of None \<Rightarrow> False | Some d \<Rightarrow> in32 d) \<and> (b \<longrightarrow> sizeof lt \<ge> 4))"

text \<open>A literal the generator puts into the instruction.\<close>

definition small_literal :: "node option \<Rightarrow> bool" where
  "small_literal x \<longleftrightarrow> (case x of None \<Rightarrow> False | Some n \<Rightarrow> ndkind n = ND_NUM \<and> in32 (ndval n))"

text \<open>Both operands and the result have the same width; the elements of a pointer difference are a power of two.\<close>

definition arith_ok :: "node \<Rightarrow> bool" where
  "arith_ok n \<longleftrightarrow>
     (let t = tyof n; lt = ctype_of (lhs n); rt = ctype_of (rhs n)
      in scalar t \<and> sizeof t \<ge> 4 \<and> scalar rt \<and> (scalar lt \<or> is_array lt) \<and>
         (if pointer_difference (ndkind n) lt rt then
            scalar lt \<and> \<not> is_integer lt \<and> \<not> is_integer rt \<and> \<not> small_literal (rhs n) \<and>
            power_of_two (elem_size lt) \<and> elem_size lt < 2 ^ 31
          else vbytes lt = vbytes t \<and> vbytes rt = vbytes t))"

definition compare_ok :: "node \<Rightarrow> bool" where
  "compare_ok n \<longleftrightarrow>
     (let lt = ctype_of (lhs n); rt = ctype_of (rhs n)
      in tyof n = ty_int \<and>
         ((int_scalar lt \<and> int_scalar rt \<and> vbytes lt = vbytes rt) \<or>
          (ndkind n \<in> {ND_EQ, ND_NE} \<and> scalar lt \<and> \<not> is_integer lt \<and>
           ((scalar rt \<and> \<not> is_integer rt) \<or>
            (rt = ty_int \<and> small_literal (rhs n))))))"

definition shift_ok :: "node \<Rightarrow> bool" where
  "shift_ok n \<longleftrightarrow>
     int_scalar (tyof n) \<and> int_scalar (ctype_of (lhs n)) \<and> int_scalar (ctype_of (rhs n)) \<and>
     sizeof (tyof n) \<ge> 4 \<and> vbytes (tyof n) = vbytes (ctype_of (lhs n))"

definition div_ok :: "node \<Rightarrow> bool" where
  "div_ok n \<longleftrightarrow>
     int_scalar (tyof n) \<and> int_scalar (ctype_of (lhs n)) \<and> int_scalar (ctype_of (rhs n)) \<and>
     sizeof (tyof n) \<ge> 4 \<and> vbytes (ctype_of (lhs n)) = vbytes (tyof n) \<and> vbytes (ctype_of (rhs n)) = vbytes (tyof n)"

definition binary_ok :: "node \<Rightarrow> bool" where
  "binary_ok n \<longleftrightarrow>
     (if ndkind n = ND_DIV \<or> ndkind n = ND_MOD then div_ok n
      else if ndkind n = ND_SHL \<or> ndkind n = ND_SHR then shift_ok n
      else if is_comparison (ndkind n) then compare_ok n
      else arith_ok n)"

definition promoted_ok :: "node \<Rightarrow> bool" where
  "promoted_ok n \<longleftrightarrow>
     int_scalar (tyof n) \<and> int_scalar (ctype_of (lhs n)) \<and> vbytes (tyof n) = vbytes (ctype_of (lhs n)) \<and>
     sizeof (tyof n) \<ge> 4"

definition logical_ok :: "node \<Rightarrow> bool" where
  "logical_ok n \<longleftrightarrow> tyof n = ty_int \<and> scalar (ctype_of (lhs n)) \<and> scalar (ctype_of (rhs n))"

definition cond_ok :: "node \<Rightarrow> bool" where
  "cond_ok n \<longleftrightarrow>
     (let t = tyof n; a = ctype_of (nthen n); b = ctype_of (nels n)
      in scalar (ctype_of (ncond n)) \<and> scalar t \<and> (sizeof t \<ge> 4) \<and>
         (scalar a \<or> is_array a) \<and> (scalar b \<or> is_array b) \<and> vbytes a = vbytes t \<and> vbytes b = vbytes t)"

function value_ok :: "bool \<Rightarrow> node \<Rightarrow> bool"
  and value_ok_opt :: "bool \<Rightarrow> node option \<Rightarrow> bool"
  and addr_ok :: "node \<Rightarrow> bool"
  and addr_ok_opt :: "node option \<Rightarrow> bool" where
  "value_ok b n \<longleftrightarrow>
     ndty n \<noteq> None \<and>
     (case ndkind n of
        ND_NUM \<Rightarrow> num_ok n
      | ND_LVAR \<Rightarrow> lvar_ok n
      | ND_ASSIGN \<Rightarrow> assign_ok b n \<and> addr_ok_opt (lhs n) \<and> value_ok_opt True (rhs n)
      | ND_NEG \<Rightarrow> promoted_ok n \<and> value_ok_opt True (lhs n)
      | ND_BITNOT \<Rightarrow> promoted_ok n \<and> value_ok_opt True (lhs n)
      | ND_NOT \<Rightarrow> tyof n = ty_int \<and> scalar (ctype_of (lhs n)) \<and> value_ok_opt True (lhs n)
      | ND_POST_INC \<Rightarrow> post_ok b n \<and> addr_ok_opt (lhs n)
      | ND_POST_DEC \<Rightarrow> post_ok b n \<and> addr_ok_opt (lhs n)
      | ND_MEMBER \<Rightarrow> (scalar (tyof n) \<or> is_array (tyof n)) \<and> member_ok n \<and> addr_ok_opt (lhs n)
      | ND_ADDR \<Rightarrow> scalar (tyof n) \<and> \<not> is_integer (tyof n) \<and> addr_ok_opt (lhs n)
      | ND_DEREF \<Rightarrow>
          (scalar (tyof n) \<or> is_array (tyof n)) \<and> address_ty (ctype_of (lhs n)) \<and> value_ok_opt True (lhs n)
      | ND_CAST \<Rightarrow>
          scalar (tyof n) \<and> (scalar (ctype_of (lhs n)) \<or> is_array (ctype_of (lhs n))) \<and>
          to_bool_ok (tyof n) (lhs n) \<and> value_ok_opt True (lhs n)
      | ND_COMMA \<Rightarrow> ndty n = Some (ctype_of (rhs n)) \<and> value_ok_opt False (lhs n) \<and> value_ok_opt b (rhs n)
      | ND_CHAIN \<Rightarrow> ndty n = Some (ctype_of (rhs n)) \<and> value_ok_opt False (lhs n) \<and> value_ok_opt b (rhs n)
      | ND_LOGAND \<Rightarrow> logical_ok n \<and> value_ok_opt True (lhs n) \<and> value_ok_opt True (rhs n)
      | ND_LOGOR \<Rightarrow> logical_ok n \<and> value_ok_opt True (lhs n) \<and> value_ok_opt True (rhs n)
      | ND_COND \<Rightarrow>
          cond_ok n \<and> value_ok_opt True (ncond n) \<and> value_ok_opt True (nthen n) \<and> value_ok_opt True (nels n)
      | k \<Rightarrow>
          k \<in> {ND_ADD, ND_SUB, ND_MUL, ND_DIV, ND_MOD, ND_SHL, ND_SHR, ND_BITAND, ND_BITXOR, ND_BITOR,
               ND_EQ, ND_NE, ND_LT, ND_LE} \<and>
          binary_ok n \<and> value_ok_opt True (lhs n) \<and> value_ok_opt True (rhs n))"
| "value_ok_opt b None = False"
| "value_ok_opt b (Some n) = value_ok b n"
| "addr_ok n \<longleftrightarrow>
     (case ndkind n of
        ND_LVAR \<Rightarrow> lvar_addr_ok n
      | ND_DEREF \<Rightarrow> address_ty (ctype_of (lhs n)) \<and> value_ok_opt True (lhs n)
      | ND_MEMBER \<Rightarrow> member_ok n \<and> addr_ok_opt (lhs n)
      | _ \<Rightarrow> False)"
| "addr_ok_opt None = False"
| "addr_ok_opt (Some n) = addr_ok n"
  by pat_completeness auto
termination
  by (relation "measure (\<lambda>x. case x of
       Inl (Inl (b, n)) \<Rightarrow> 2 * size n + 1
     | Inl (Inr (b, x)) \<Rightarrow> 2 * osize x
     | Inr (Inl n) \<Rightarrow> 2 * size n
     | Inr (Inr x) \<Rightarrow> 2 * osize x)")
    (use child_measure in \<open>simp_all add: node_child_size\<close>)

declare value_ok.simps [simp del] addr_ok.simps [simp del]

section \<open>Registers needed\<close>

function rneed :: "node \<Rightarrow> nat"
  and rneed_opt :: "node option \<Rightarrow> nat"
  and aneed :: "node \<Rightarrow> nat"
  and aneed_opt :: "node option \<Rightarrow> nat" where
  "rneed n =
     (case ndkind n of
        ND_NUM \<Rightarrow> 1
      | ND_LVAR \<Rightarrow> 1
      | ND_ASSIGN \<Rightarrow> max (aneed_opt (lhs n)) (1 + rneed_opt (rhs n))
      | ND_POST_INC \<Rightarrow> max (aneed_opt (lhs n)) 2
      | ND_POST_DEC \<Rightarrow> max (aneed_opt (lhs n)) 2
      | ND_MEMBER \<Rightarrow> aneed_opt (lhs n)
      | ND_ADDR \<Rightarrow> aneed_opt (lhs n)
      | ND_COMMA \<Rightarrow> max (rneed_opt (lhs n)) (rneed_opt (rhs n))
      | ND_CHAIN \<Rightarrow> max (rneed_opt (lhs n)) (rneed_opt (rhs n))
      | ND_LOGAND \<Rightarrow> max 1 (max (rneed_opt (lhs n)) (rneed_opt (rhs n)))
      | ND_LOGOR \<Rightarrow> max 1 (max (rneed_opt (lhs n)) (rneed_opt (rhs n)))
      | ND_COND \<Rightarrow> 1 + max (rneed_opt (ncond n)) (max (rneed_opt (nthen n)) (rneed_opt (nels n)))
      | ND_NEG \<Rightarrow> rneed_opt (lhs n)
      | ND_NOT \<Rightarrow> rneed_opt (lhs n)
      | ND_BITNOT \<Rightarrow> rneed_opt (lhs n)
      | ND_DEREF \<Rightarrow> rneed_opt (lhs n)
      | ND_CAST \<Rightarrow> rneed_opt (lhs n)
      | _ \<Rightarrow> max (rneed_opt (lhs n)) (1 + rneed_opt (rhs n)))"
| "rneed_opt None = 0"
| "rneed_opt (Some n) = rneed n"
| "aneed n =
     (case ndkind n of
        ND_LVAR \<Rightarrow> 1
      | ND_DEREF \<Rightarrow> rneed_opt (lhs n)
      | _ \<Rightarrow> aneed_opt (lhs n))"
| "aneed_opt None = 0"
| "aneed_opt (Some n) = aneed n"
  by pat_completeness auto
termination
  by (relation "measure (\<lambda>x. case x of
       Inl (Inl n) \<Rightarrow> 2 * size n + 1
     | Inl (Inr x) \<Rightarrow> 2 * osize x
     | Inr (Inl n) \<Rightarrow> 2 * size n
     | Inr (Inr x) \<Rightarrow> 2 * osize x)")
    (use child_measure in \<open>simp_all add: node_child_size\<close>)

declare rneed.simps [simp del] aneed.simps [simp del]

end
