(* ===== verification/GenBase.thy ===== *)
theory GenBase
  imports GenOk
begin

text \<open>
  What the correctness proof of the code generator rests on: the relation between the machine and
  the C memory, what a piece of code leaves alone, the effect of the register allocator while
  registers are free, and the lemmas that let a straight-line sequence be executed symbolically.
\<close>

named_theorems gen_defs "the monad of the generator"

lemmas [gen_defs] = gbind_def gseq_def gret_def gfail_def emit_def emits_def with_reg_def with_type_def
  with_child_def lift_opt_def no_value_def free_opt_def

section \<open>Physical registers\<close>

definition scratch :: "preg set" where
  "scratch = {RAX, RCX, RDX}"

lemma less8: "r < 8 \<longleftrightarrow> r = 0 \<or> r = 1 \<or> r = 2 \<or> r = 3 \<or> r = 4 \<or> r = 5 \<or> r = 6 \<or> r = (7 :: nat)"
  by auto

lemma phys_not_special [simp]:
  assumes "r < 8"
  shows "phys r \<noteq> RAX" "phys r \<noteq> RCX" "phys r \<noteq> RDX" "phys r \<noteq> RBP" "phys r \<noteq> RSP"
    "RAX \<noteq> phys r" "RCX \<noteq> phys r" "RDX \<noteq> phys r" "RBP \<noteq> phys r" "RSP \<noteq> phys r"
  using assms by (auto simp: less8 phys_def alloc_regs_def)

lemma phys_inj [simp]:
  assumes "r < 8" "s < 8"
  shows "phys r = phys s \<longleftrightarrow> r = s"
  using assms by (auto simp: less8 phys_def alloc_regs_def)

section \<open>The machine and the C memory\<close>

text \<open>The byte of the frame that \<open>&&\<close> and \<open>||\<close> go through; the program cannot touch it.\<close>

definition slot_addr :: "int \<Rightarrow> mach \<Rightarrow> 64 word" where
  "slot_addr sl m = regs m RBP + word_of_int (- sl)"

definition Rel :: "cenv \<Rightarrow> int \<Rightarrow> mach \<Rightarrow> memory \<Rightarrow> bool" where
  "Rel E sl m mm \<longleftrightarrow>
     (\<forall>a. visible E a \<longrightarrow> mem m a = mm a) \<and>
     (\<forall>v. vaddr E v = (if vis_local v then regs m RBP + word_of_int (- voffset v) else syms m (var_label v))) \<and>
     \<not> visible E (slot_addr sl m)"

definition keeps :: "cenv \<Rightarrow> int \<Rightarrow> nat set \<Rightarrow> mach \<Rightarrow> mach \<Rightarrow> bool" where
  "keeps E sl U m m' \<longleftrightarrow>
     (\<forall>k \<in> U. regs m' (phys k) = regs m (phys k)) \<and>
     regs m' RBP = regs m RBP \<and> regs m' RSP = regs m RSP \<and> syms m' = syms m \<and>
     (\<forall>a. \<not> visible E a \<and> a \<noteq> slot_addr sl m \<longrightarrow> mem m' a = mem m a)"

lemma keeps_refl [simp]: "keeps E sl U m m"
  by (simp add: keeps_def)

lemma keeps_trans:
  assumes "keeps E sl U m m1" "keeps E sl V m1 m2" "U \<subseteq> V"
  shows "keeps E sl U m m2"
  using assms unfolding keeps_def slot_addr_def by (metis subsetD)

lemma keeps_mono: "keeps E sl V m m' \<Longrightarrow> U \<subseteq> V \<Longrightarrow> keeps E sl U m m'"
  by (auto simp: keeps_def)

lemma keeps_reg: "keeps E sl U m m' \<Longrightarrow> k \<in> U \<Longrightarrow> regs m' (phys k) = regs m (phys k)"
  by (simp add: keeps_def)

lemma keeps_rbp: "keeps E sl U m m' \<Longrightarrow> regs m' RBP = regs m RBP"
  by (simp add: keeps_def)

text \<open>Code that only writes the scratch registers and those of \<open>R\<close>.\<close>

definition only_regs :: "nat set \<Rightarrow> mach \<Rightarrow> mach \<Rightarrow> bool" where
  "only_regs R m m' \<longleftrightarrow>
     mem m' = mem m \<and> syms m' = syms m \<and> (\<forall>q. q \<notin> scratch \<union> phys ` R \<longrightarrow> regs m' q = regs m q)"

lemma only_regs_keeps:
  assumes o: "only_regs R m m'" and R: "R \<subseteq> {..<8}" and U: "U \<subseteq> {..<8}" and d: "R \<inter> U = {}"
  shows "keeps E sl U m m'" "Rel E sl m mm \<Longrightarrow> Rel E sl m' mm"
proof -
  have out: "phys k \<notin> scratch \<union> phys ` R" if "k \<in> U" for k
  proof
    assume "phys k \<in> scratch \<union> phys ` R"
    moreover have "k < 8" using that U by auto
    ultimately obtain r where "r \<in> R" "phys k = phys r"
      by (auto simp: scratch_def)
    then have "k = r" using that R U phys_inj [of k r] by (meson lessThan_iff subsetD)
    with that \<open>r \<in> R\<close> d show False by auto
  qed
  have b: "RBP \<notin> scratch \<union> phys ` R" "RSP \<notin> scratch \<union> phys ` R"
    using R by (auto simp: scratch_def)
  show "keeps E sl U m m'" using o out b by (auto simp: keeps_def only_regs_def)
  show "Rel E sl m mm \<Longrightarrow> Rel E sl m' mm" using o b by (simp add: Rel_def only_regs_def slot_addr_def)
qed

lemma only_regs_refl [simp]: "only_regs R m m"
  by (simp add: only_regs_def)

lemma only_regs_trans: "only_regs R m m1 \<Longrightarrow> only_regs R m1 m2 \<Longrightarrow> only_regs R m m2"
  by (simp add: only_regs_def)

lemma only_regs_putr:
  "q \<in> scratch \<union> phys ` R \<Longrightarrow> only_regs R m (putr n q v m)"
  by (auto simp: only_regs_def putr_def)

lemma only_regs_flags: "only_regs R m (m\<lparr>flags_of := f\<rparr>)"
  by (simp add: only_regs_def)

section \<open>Values in registers\<close>

definition rep :: "ctype \<Rightarrow> int \<Rightarrow> 64 word \<Rightarrow> bool" where
  "rep t v w \<longleftrightarrow> low (vbytes t) (uint w) = low (vbytes t) v"

lemma rep_low: "rep t v w \<Longrightarrow> n \<le> vbytes t \<Longrightarrow> low n (uint w) = low n v"
  unfolding rep_def by (rule low_eqI_le)

lemma rep_getr: "rep t v (regs m r) \<Longrightarrow> n \<le> vbytes t \<Longrightarrow> getr m n r = low n v"
  by (simp add: getr_def rep_low)

lemma repI: "getr m n r = low n v \<Longrightarrow> vbytes t \<le> n \<Longrightarrow> rep t v (regs m r)"
  unfolding rep_def getr_def by (rule low_eqI_le)

lemma rep_word:
  assumes "rep t v w" "vbytes t = 8"
  shows "w = word_of_int v"
proof -
  have "uint w = uint (word_of_int v :: 64 word)" using assms by (simp add: rep_def)
  then show ?thesis by (simp only: word_uint_eqI)
qed

section \<open>The allocator while registers are free\<close>

definition free_count :: "nat set \<Rightarrow> nat" where
  "free_count U = card ({..<8} - U)"

lemma free_count_insert:
  assumes "r < 8" "r \<notin> U"
  shows "free_count U = Suc (free_count (insert r U))"
proof -
  have "{..<8} - U = insert r ({..<8} - insert r U)" using assms by auto
  moreover have "r \<notin> {..<8} - insert r U" by simp
  ultimately show ?thesis unfolding free_count_def by (metis card_insert_disjoint finite_Diff finite_lessThan)
qed

text \<open>The part of the state that only the allocator and the label counter change.\<close>

definition gext :: "nat set \<Rightarrow> gst \<Rightarrow> gst \<Rightarrow> bool" where
  "gext U g g' \<longleftrightarrow>
     used g' = U \<and> spilled g' = {} \<and> spill_logand g' = spill_logand g \<and>
     break_stack g' = break_stack g \<and> continue_stack g' = continue_stack g \<and>
     next_spill_slot g' = next_spill_slot g \<and> label_count g \<le> label_count g' \<and>
     ever_used g \<subseteq> ever_used g' \<and> U - used g \<subseteq> ever_used g'"

text \<open>A state the lemmas start from.\<close>

definition ready :: "gst \<Rightarrow> bool" where
  "ready g \<longleftrightarrow> spilled g = {} \<and> used g \<subseteq> {..<8}"

lemma gext_trans:
  assumes "gext U g g1" "gext V g1 g2" "V - U \<union> (U - used g) \<supseteq> V - used g"
  shows "gext V g g2"
  using assms unfolding gext_def by auto

lemma alloc_free:
  assumes "0 < free_count (used g)"
  obtains r where "r < 8" "r \<notin> used g"
    "alloc_reg g = Some (r, [], g\<lparr>used := insert r (used g), ever_used := insert r (ever_used g)\<rparr>)"
proof -
  have "{..<8} - used g \<noteq> {}"
    using assms unfolding free_count_def by (metis card.empty less_irrefl)
  then obtain x where "x < 8" "x \<notin> used g" by auto
  then have "find (\<lambda>i. i \<notin> used g) [0..<NUM_REGS] \<noteq> None"
    by (auto simp: find_None_iff NUM_REGS_def)
  then obtain r where r: "find (\<lambda>i. i \<notin> used g) [0..<NUM_REGS] = Some r" by auto
  then have "r < 8" "r \<notin> used g"
    by (auto simp: find_Some_iff NUM_REGS_def)
  with r show thesis by (intro that [of r]) (simp_all add: alloc_reg_def)
qed

lemma alloc_gext:
  assumes "ready g" "r < 8" "r \<notin> used g"
  shows "gext (insert r (used g)) g (g\<lparr>used := insert r (used g), ever_used := insert r (ever_used g)\<rparr>)"
  using assms by (auto simp: gext_def ready_def)

lemma free_reg_plain: "spilled g = {} \<Longrightarrow> free_reg i g = Some ((), [], g\<lparr>used := used g - {i}\<rparr>)"
  by (simp add: free_reg_def)

lemma gext_ready: "gext U g g' \<Longrightarrow> U \<subseteq> {..<8} \<Longrightarrow> ready g'"
  by (simp add: gext_def ready_def)

lemma gext_used: "gext U g g' \<Longrightarrow> used g' = U"
  by (simp add: gext_def)

lemma gext_spilled: "gext U g g' \<Longrightarrow> spilled g' = {}"
  by (simp add: gext_def)

lemma gext_slot: "gext U g g' \<Longrightarrow> spill_logand g' = spill_logand g"
  by (simp add: gext_def)

lemma gext_free:
  "gext (insert r U) g g' \<Longrightarrow> r \<notin> U \<Longrightarrow> gext U g (g'\<lparr>used := used g' - {r}\<rparr>)"
  by (auto simp: gext_def)

section \<open>Labels of generated code\<close>

definition label_num :: "label \<Rightarrow> nat option" where
  "label_num l =
     (case l of L_end n \<Rightarrow> Some n | L_else n \<Rightarrow> Some n | L_begin n \<Rightarrow> Some n | L_continue n \<Rightarrow> Some n
      | L_case n \<Rightarrow> Some n | L_skip n \<Rightarrow> Some n | _ \<Rightarrow> None)"

text \<open>Every label the code defines has a number the counter passed while the code was made.\<close>

definition labels_between :: "nat \<Rightarrow> nat \<Rightarrow> instr list \<Rightarrow> bool" where
  "labels_between a b c \<longleftrightarrow>
     distinct (labels c) \<and> (\<forall>l \<in> set (labels c). \<exists>k. label_num l = Some k \<and> a < k \<and> k \<le> b)"

lemma labels_between_Nil: "labels c = [] \<Longrightarrow> labels_between a b c"
  by (simp add: labels_between_def)

lemma labels_between_mono:
  "labels_between a b c \<Longrightarrow> a' \<le> a \<Longrightarrow> b \<le> b' \<Longrightarrow> labels_between a' b' c"
  unfolding labels_between_def by (meson le_less_trans le_trans)

lemma labels_between_append:
  assumes "labels_between a b c" "labels_between b d e" "a \<le> b" "b \<le> d"
  shows "labels_between a d (c @ e)"
proof -
  have "l \<notin> set (labels e)" if l: "l \<in> set (labels c)" for l
  proof
    assume "l \<in> set (labels e)"
    then obtain k where "label_num l = Some k" "b < k" using assms(2) by (auto simp: labels_between_def)
    moreover obtain k' where "label_num l = Some k'" "k' \<le> b"
      using assms(1) l by (auto simp: labels_between_def)
    ultimately show False by simp
  qed
  then have "set (labels c) \<inter> set (labels e) = {}" by auto
  moreover have "\<forall>l \<in> set (labels c). \<exists>k. label_num l = Some k \<and> a < k \<and> k \<le> d"
    using assms(1,4) unfolding labels_between_def by (meson le_trans)
  moreover have "\<forall>l \<in> set (labels e). \<exists>k. label_num l = Some k \<and> a < k \<and> k \<le> d"
    using assms(2,3) unfolding labels_between_def by (meson le_less_trans)
  ultimately show ?thesis using assms(1,2) by (auto simp: labels_between_def)
qed

lemma labels_between_plain:
  "labels_between a b c \<Longrightarrow> labels d = [] \<Longrightarrow> labels_between a b (c @ d)"
  "labels_between a b c \<Longrightarrow> labels d = [] \<Longrightarrow> labels_between a b (d @ c)"
  by (simp_all add: labels_between_def)

section \<open>Running a piece of code\<close>

text \<open>From the start of the code at \<open>i\<close> to its end.\<close>

definition goes :: "instr list \<Rightarrow> nat \<Rightarrow> instr list \<Rightarrow> mach \<Rightarrow> mach \<Rightarrow> bool" where
  "goes P i c m m' \<longleftrightarrow> steps P (i, m) (i + length c, m')"

lemma goes_Nil [simp]: "goes P i [] m m"
  by (simp add: goes_def)

lemma goes_append:
  "goes P i c m m1 \<Longrightarrow> goes P (i + length c) d m1 m2 \<Longrightarrow> goes P i (c @ d) m m2"
  by (auto simp: goes_def add.assoc intro: steps_trans)

lemma goes_seq: "code_at P i c \<Longrightarrow> exec_seq c m = Some m' \<Longrightarrow> goes P i c m m'"
  unfolding goes_def by (rule steps_seq)

end
