(* ===== verification/GenRefine.thy ===== *)
theory GenRefine
  imports GenBase
begin

text \<open>
  Correctness of generated code as a refinement between a generator and an evaluator, and the rules
  that build it up: one for each shape of code the cases of \<open>gen\<close> emit (a leaf, an operand, two
  operands, a sequence, the short-circuit operators, the conditional).
\<close>

section \<open>Refinement of an evaluator by generated code\<close>

text \<open>The code computes what \<open>sem\<close> does and leaves the value in \<open>r\<close>, if it is wanted.\<close>

definition computes :: "int \<Rightarrow> nat set \<Rightarrow> instr list \<Rightarrow> nat \<Rightarrow> ctype \<Rightarrow> (cenv \<Rightarrow> ceval) \<Rightarrow> bool \<Rightarrow> bool" where
  "computes sl U c r t sem b \<longleftrightarrow>
     (\<forall>E P i m mm v mm'. code_at P i c \<longrightarrow> distinct (labels P) \<longrightarrow> Rel E sl m mm \<longrightarrow> sem E mm = Some (v, mm') \<longrightarrow>
        (\<exists>m'. goes P i c m m' \<and> Rel E sl m' mm' \<and> keeps E sl U m m' \<and> (b \<longrightarrow> rep t v (regs m' (phys r)))))"

definition yields :: "cgen \<Rightarrow> (cenv \<Rightarrow> ceval) \<Rightarrow> ctype \<Rightarrow> bool \<Rightarrow> gst \<Rightarrow> nat \<Rightarrow> instr list \<Rightarrow> gst \<Rightarrow> bool" where
  "yields f sem t b g r c g' \<longleftrightarrow>
     f g = Some (Some r, c, g') \<and> r < 8 \<and> r \<notin> used g \<and> gext (insert r (used g)) g g' \<and>
     labels_between (label_count g) (label_count g') c \<and> computes (spill_logand g) (used g) c r t sem b"

text \<open>
  The generator \<open>f\<close>, started with \<open>k\<close> registers free, yields a register that was free and code that
  computes what \<open>sem\<close> does: the visible memory ends as \<open>sem\<close> leaves it, the registers in use and the
  rest of the memory are as before, and (when the value is wanted) the register represents it.
\<close>

definition implements :: "cgen \<Rightarrow> (cenv \<Rightarrow> ceval) \<Rightarrow> ctype \<Rightarrow> nat \<Rightarrow> bool \<Rightarrow> bool" where
  "implements f sem t k b \<longleftrightarrow>
     (\<forall>g. ready g \<longrightarrow> k \<le> free_count (used g) \<longrightarrow> (\<exists>r c g'. yields f sem t b g r c g'))"

lemma implementsI:
  "(\<And>g. ready g \<Longrightarrow> k \<le> free_count (used g) \<Longrightarrow> used g \<subseteq> {..<8} \<Longrightarrow> \<exists>r c g'. yields f sem t b g r c g') \<Longrightarrow>
   implements f sem t k b"
  by (simp add: implements_def ready_def)

lemma implementsE:
  assumes "implements f sem t k b" "ready g" "k \<le> free_count (used g)"
  obtains r c g' where "yields f sem t b g r c g'"
  using assms unfolding implements_def by blast

lemma yieldsD:
  assumes "yields f sem t b g r c g'"
  shows "f g = Some (Some r, c, g')" "r < 8" "r \<notin> used g" "gext (insert r (used g)) g g'"
    "labels_between (label_count g) (label_count g') c" "computes (spill_logand g) (used g) c r t sem b"
  using assms by (simp_all add: yields_def)

lemma yields_ready: "yields f sem t b g r c g' \<Longrightarrow> ready g \<Longrightarrow> ready g'"
  unfolding yields_def ready_def gext_def by auto

lemma computesE:
  assumes "computes sl U c r t sem b" "code_at P i c" "distinct (labels P)" "Rel E sl m mm" "sem E mm = Some (v, mm')"
  obtains m' where "goes P i c m m'" "Rel E sl m' mm'" "keeps E sl U m m'" "b \<Longrightarrow> rep t v (regs m' (phys r))"
  using assms unfolding computes_def by blast

lemma computesI:
  assumes "\<And>E P i m mm v mm'. code_at P i c \<Longrightarrow> distinct (labels P) \<Longrightarrow> Rel E sl m mm \<Longrightarrow> sem E mm = Some (v, mm') \<Longrightarrow>
    \<exists>m'. goes P i c m m' \<and> Rel E sl m' mm' \<and> keeps E sl U m m' \<and> (b \<longrightarrow> rep t v (regs m' (phys r)))"
  shows "computes sl U c r t sem b"
  using assms unfolding computes_def by blast

lemma implements_weaken:
  assumes "implements f sem t k c" "k \<le> k'" "b \<longrightarrow> c"
  shows "implements f sem t k' b"
proof (rule implementsI)
  fix g assume "ready g" "k' \<le> free_count (used g)"
  with assms(2) have "k \<le> free_count (used g)" by simp
  with assms(1) \<open>ready g\<close> obtain r d g' where "yields f sem t c g r d g'" by (rule implementsE)
  then have "yields f sem t b g r d g'" using assms(3) unfolding yields_def computes_def by meson
  then show "\<exists>r c g'. yields f sem t b g r c g'" by blast
qed

lemma cbind_Some: "cbind f h m = Some x \<longleftrightarrow> (\<exists>v m'. f m = Some (v, m') \<and> h v m' = Some x)"
  by (auto simp: cbind_def split: option.splits)

text \<open>A leaf: a fresh register and straight-line code that only writes it.\<close>

lemma implements_leaf:
  assumes K: "\<And>r g. r < 8 \<Longrightarrow> K r g = Some (Some r, tail r, g)"
    and lab: "\<And>r. labels (tail r) = []"
    and ex: "\<And>r E sl m mm v mm'. r < 8 \<Longrightarrow> Rel E sl m mm \<Longrightarrow> sem E mm = Some (v, mm') \<Longrightarrow>
      mm' = mm \<and> (\<exists>m'. exec_seq (tail r) m = Some m' \<and> only_regs {r} m m' \<and> rep t v (regs m' (phys r)))"
    and k: "0 < k"
  shows "implements (gbind alloc_reg K) sem t k b"
proof (rule implementsI)
  fix g assume g: "ready g" "k \<le> free_count (used g)" and U: "used g \<subseteq> {..<8}"
  then have "0 < free_count (used g)" using k by simp
  then obtain r where r: "r < 8" "r \<notin> used g"
    "alloc_reg g = Some (r, [], g\<lparr>used := insert r (used g), ever_used := insert r (ever_used g)\<rparr>)"
    by (rule alloc_free)
  let ?g = "g\<lparr>used := insert r (used g), ever_used := insert r (ever_used g)\<rparr>"
  have "computes (spill_logand g) (used g) (tail r) r t sem b"
  proof (rule computesI)
    fix E P i m mm v mm'
    assume h: "code_at P i (tail r)" "distinct (labels P)" "Rel E (spill_logand g) m mm" "sem E mm = Some (v, mm')"
    obtain m' where m': "mm' = mm" "exec_seq (tail r) m = Some m'" "only_regs {r} m m'" "rep t v (regs m' (phys r))"
      using ex [OF r(1) h(3,4)] by blast
    show "\<exists>m'. goes P i (tail r) m m' \<and> Rel E (spill_logand g) m' mm' \<and> keeps E (spill_logand g) (used g) m m' \<and>
        (b \<longrightarrow> rep t v (regs m' (phys r)))"
      using only_regs_keeps [OF m'(3) _ U, of E "spill_logand g"] r h m'(1,4) goes_seq [OF h(1) m'(2)]
      by (intro exI [of _ m']) auto
  qed
  then have "yields (gbind alloc_reg K) sem t b g r (tail r) ?g"
    using r K alloc_gext [OF g(1) r(1,2)] labels_between_Nil [OF lab]
    by (simp add: yields_def gbind_def)
  then show "\<exists>r c g'. yields (gbind alloc_reg K) sem t b g r c g'" by blast
qed

text \<open>An operand, then straight-line code that works on its register (and may write to memory).\<close>

lemma implements_unary_gen:
  assumes L: "implements f semL lt k lb"
    and K: "\<And>r g. r < 8 \<Longrightarrow> K r g = Some (Some r, tail r, g)"
    and lab: "\<And>r. labels (tail r) = []"
    and ex: "\<And>r U E sl m mm u v mm'. r < 8 \<Longrightarrow> U \<subseteq> {..<8} \<Longrightarrow> r \<notin> U \<Longrightarrow> Rel E sl m mm \<Longrightarrow>
      (lb \<Longrightarrow> rep lt u (regs m (phys r))) \<Longrightarrow>
      (\<exists>E mm0. semL E mm0 = Some (u, mm)) \<Longrightarrow> h E u mm = Some (v, mm') \<Longrightarrow>
      \<exists>m'. exec_seq (tail r) m = Some m' \<and> Rel E sl m' mm' \<and> keeps E sl U m m' \<and> (b \<longrightarrow> rep t v (regs m' (phys r)))"
  shows "implements (with_reg f K) (\<lambda>E. cbind (semL E) (h E)) t k b"
proof (rule implementsI)
  fix g assume g: "ready g" "k \<le> free_count (used g)" and U: "used g \<subseteq> {..<8}"
  obtain r c g1 where y: "yields f semL lt lb g r c g1" by (rule implementsE [OF L g])
  note r = yieldsD [OF y]
  have "computes (spill_logand g) (used g) (c @ tail r) r t (\<lambda>E. cbind (semL E) (h E)) b"
  proof (rule computesI)
    fix E P i m mm v mm'
    assume c: "code_at P i (c @ tail r)" "distinct (labels P)" "Rel E (spill_logand g) m mm"
      "cbind (semL E) (h E) mm = Some (v, mm')"
    obtain u mm1 where u: "semL E mm = Some (u, mm1)" "h E u mm1 = Some (v, mm')"
      using c(4) by (auto simp: cbind_Some)
    have "code_at P i c" using c(1) by simp
    then obtain m1 where m1: "goes P i c m m1" "Rel E (spill_logand g) m1 mm1"
      "keeps E (spill_logand g) (used g) m m1" "lb \<Longrightarrow> rep lt u (regs m1 (phys r))"
      using computesE [OF r(6) _ c(2,3) u(1)] by blast
    obtain m' where m': "exec_seq (tail r) m1 = Some m'" "Rel E (spill_logand g) m' mm'"
      "keeps E (spill_logand g) (used g) m1 m'" "b \<longrightarrow> rep t v (regs m' (phys r))"
      using ex [OF r(2) U r(3) m1(2) m1(4) _ u(2)] u(1) by blast
    moreover have "goes P (i + length c) (tail r) m1 m'" using c(1) m'(1) by (auto intro: goes_seq)
    ultimately show "\<exists>m'. goes P i (c @ tail r) m m' \<and> Rel E (spill_logand g) m' mm' \<and>
        keeps E (spill_logand g) (used g) m m' \<and> (b \<longrightarrow> rep t v (regs m' (phys r)))"
      using goes_append [OF m1(1)] keeps_trans [OF m1(3)] by blast
  qed
  then have "yields (with_reg f K) (\<lambda>E. cbind (semL E) (h E)) t b g r (c @ tail r) g1"
    using r K labels_between_plain(1) [OF r(5) lab [of r]]
    by (simp add: yields_def with_reg_def gbind_def)
  then show "\<exists>r c g'. yields (with_reg f K) (\<lambda>E. cbind (semL E) (h E)) t b g r c g'" by blast
qed

lemma implements_unary:
  assumes L: "implements f semL lt k True"
    and K: "\<And>r g. r < 8 \<Longrightarrow> K r g = Some (Some r, tail r, g)"
    and lab: "\<And>r. labels (tail r) = []"
    and ex: "\<And>r E sl m mm u v mm'. r < 8 \<Longrightarrow> Rel E sl m mm \<Longrightarrow> rep lt u (regs m (phys r)) \<Longrightarrow>
      (\<exists>E mm0. semL E mm0 = Some (u, mm)) \<Longrightarrow> h E u mm = Some (v, mm') \<Longrightarrow>
      mm' = mm \<and> (\<exists>m'. exec_seq (tail r) m = Some m' \<and> only_regs {r} m m' \<and> rep t v (regs m' (phys r)))"
  shows "implements (with_reg f K) (\<lambda>E. cbind (semL E) (h E)) t k b"
proof (rule implements_unary_gen [OF L K lab])
  fix r U E sl m mm u v mm'
  assume a: "r < 8" "U \<subseteq> {..<8}" "r \<notin> U" "Rel E sl m mm" "True \<Longrightarrow> rep lt u (regs m (phys r))"
    "\<exists>E mm0. semL E mm0 = Some (u, mm)" "h E u mm = Some (v, mm')"
  obtain m' where m': "mm' = mm" "exec_seq (tail r) m = Some m'" "only_regs {r} m m'" "rep t v (regs m' (phys r))"
    using ex [OF a(1,4) a(5) [OF TrueI] a(6,7)] by blast
  have "keeps E sl U m m'" "Rel E sl m' mm"
    using only_regs_keeps [OF m'(3) _ a(2), of E sl] a(1,3,4) by auto
  with m' show "\<exists>m'. exec_seq (tail r) m = Some m' \<and> Rel E sl m' mm' \<and> keeps E sl U m m' \<and> (b \<longrightarrow> rep t v (regs m' (phys r)))"
    by blast
qed

text \<open>
  Two operands, then straight-line code on their registers; one of the two registers is freed, the
  second when \<open>keep_first\<close>.
\<close>

lemma free_after_two:
  assumes "gext (insert a U) g g1" "gext (insert b (insert a U)) g1 g2" "a \<notin> U" "b \<notin> insert a U" "used g = U"
  shows "gext (insert a U) g (g2\<lparr>used := used g2 - {b}\<rparr>)" "gext (insert b U) g (g2\<lparr>used := used g2 - {a}\<rparr>)"
  using assms unfolding gext_def by auto

lemma implements_binary_gen:
  fixes keep_first :: bool
  defines "res \<equiv> \<lambda>a b :: nat. if keep_first then a else b"
    and "rel \<equiv> \<lambda>a b :: nat. if keep_first then b else a"
  assumes L: "implements f semL lt kl lb" and R: "implements f' semR rt kr rb"
    and K: "\<And>a b g. a < 8 \<Longrightarrow> b < 8 \<Longrightarrow> a \<noteq> b \<Longrightarrow> spilled g = {} \<Longrightarrow>
      K a b g = Some (Some (res a b), tail a b, g\<lparr>used := used g - {rel a b}\<rparr>)"
    and lab: "\<And>a b. labels (tail a b) = []"
    and ex: "\<And>a b U E sl m mm u w v mm'. a < 8 \<Longrightarrow> b < 8 \<Longrightarrow> a \<noteq> b \<Longrightarrow> U \<subseteq> {..<8} \<Longrightarrow> a \<notin> U \<Longrightarrow> b \<notin> U \<Longrightarrow>
      Rel E sl m mm \<Longrightarrow> (lb \<Longrightarrow> rep lt u (regs m (phys a))) \<Longrightarrow> (rb \<Longrightarrow> rep rt w (regs m (phys b))) \<Longrightarrow>
      (\<exists>E mm0 mm1. semL E mm0 = Some (u, mm1)) \<Longrightarrow> (\<exists>E mm0. semR E mm0 = Some (w, mm)) \<Longrightarrow>
      h E u w mm = Some (v, mm') \<Longrightarrow>
      \<exists>m'. exec_seq (tail a b) m = Some m' \<and> Rel E sl m' mm' \<and> keeps E sl U m m' \<and>
        (d \<longrightarrow> rep t v (regs m' (phys (res a b))))"
  shows "implements (with_reg f (\<lambda>a. with_reg f' (K a)))
    (\<lambda>E. cbind (semL E) (\<lambda>u. cbind (semR E) (h E u))) t (max kl (1 + kr)) d"
    (is "implements ?f ?sem t ?k d")
proof (rule implementsI)
  fix g assume g: "ready g" "?k \<le> free_count (used g)" and U: "used g \<subseteq> {..<8}"
  then have kl: "kl \<le> free_count (used g)" by simp
  obtain a c g1 where y1: "yields f semL lt lb g a c g1" by (rule implementsE [OF L g(1) kl])
  note a = yieldsD [OF y1]
  have g1: "ready g1" using y1 g(1) by (rule yields_ready)
  have u1: "used g1 = insert a (used g)" using a(4) by (rule gext_used)
  have "kr \<le> free_count (used g1)"
    using g(2) free_count_insert [OF a(2,3)] u1 by simp
  then obtain b e g2 where y2: "yields f' semR rt rb g1 b e g2" by (rule implementsE [OF R g1])
  note b = yieldsD [OF y2]
  have sl: "spill_logand g1 = spill_logand g" using a(4) by (rule gext_slot)
  let ?g = "g2\<lparr>used := used g2 - {rel a b}\<rparr>"
  have ab: "a \<noteq> b" using b(3) u1 by auto
  have bU: "b \<notin> used g" using b(3) u1 by auto
  have "computes (spill_logand g) (used g) (c @ e @ tail a b) (res a b) t ?sem d"
  proof (rule computesI)
    fix E P i m mm v mm'
    assume x: "code_at P i (c @ e @ tail a b)" "distinct (labels P)" "Rel E (spill_logand g) m mm"
      "?sem E mm = Some (v, mm')"
    obtain u mm1 w mm2 where s: "semL E mm = Some (u, mm1)" "semR E mm1 = Some (w, mm2)" "h E u w mm2 = Some (v, mm')"
      using x(4) by (auto simp: cbind_Some)
    have xc: "code_at P i c" "code_at P (i + length c) e" "code_at P (i + length c + length e) (tail a b)"
      using x(1) by simp_all
    obtain m1 where m1: "goes P i c m m1" "Rel E (spill_logand g) m1 mm1"
      "keeps E (spill_logand g) (used g) m m1" "lb \<Longrightarrow> rep lt u (regs m1 (phys a))"
      using computesE [OF a(6) xc(1) x(2,3) s(1)] by blast
    obtain m2 where m2: "goes P (i + length c) e m1 m2" "Rel E (spill_logand g) m2 mm2"
      "keeps E (spill_logand g) (used g1) m1 m2" "rb \<Longrightarrow> rep rt w (regs m2 (phys b))"
      using computesE [OF b(6) xc(2) x(2) _ s(2)] m1(2) unfolding sl by blast
    have "regs m2 (phys a) = regs m1 (phys a)" using keeps_reg [OF m2(3)] u1 by simp
    then have "lb \<Longrightarrow> rep lt u (regs m2 (phys a))" using m1(4) by simp
    then obtain m' where m': "exec_seq (tail a b) m2 = Some m'" "Rel E (spill_logand g) m' mm'"
      "keeps E (spill_logand g) (used g) m2 m'" "d \<longrightarrow> rep t v (regs m' (phys (res a b)))"
      using ex [OF a(2) b(2) ab U a(3) bU m2(2) _ m2(4) _ _ s(3)] s(1,2) by blast
    have "goes P (i + length c + length e) (tail a b) m2 m'" using xc(3) m'(1) by (rule goes_seq)
    then have "goes P i (c @ e @ tail a b) m m'"
      using goes_append [OF m1(1) goes_append [OF m2(1)]] by simp
    moreover have "keeps E (spill_logand g) (used g) m m2"
      using keeps_trans [OF m1(3) m2(3)] u1 by auto
    ultimately show "\<exists>m'. goes P i (c @ e @ tail a b) m m' \<and> Rel E (spill_logand g) m' mm' \<and>
        keeps E (spill_logand g) (used g) m m' \<and> (d \<longrightarrow> rep t v (regs m' (phys (res a b))))"
      using keeps_trans [OF _ m'(3)] m'(2,4) by blast
  qed
  moreover have "labels_between (label_count g) (label_count g2) (c @ e @ tail a b)"
  proof -
    have "label_count g \<le> label_count g1" "label_count g1 \<le> label_count g2" using a(4) b(4) by (simp_all add: gext_def)
    then have "labels_between (label_count g) (label_count g2) (c @ e)"
      using labels_between_append [OF a(5) b(5)] by simp
    then show ?thesis using labels_between_plain(1) [OF _ lab [of a b]] by fastforce
  qed
  moreover have "gext (insert (res a b) (used g)) g ?g"
    using free_after_two [OF a(4)] b(3,4) a(3) u1 by (auto simp: res_def rel_def)
  moreover have "?f g = Some (Some (res a b), c @ e @ tail a b, ?g)"
    using a(1) b(1) K [OF a(2) b(2) ab gext_spilled [OF b(4)]] by (simp add: with_reg_def gbind_def)
  ultimately have "yields ?f ?sem t d g (res a b) (c @ e @ tail a b) ?g"
    using a(2,3) b(2) bU by (simp add: yields_def res_def)
  then show "\<exists>r c g'. yields ?f ?sem t d g r c g'" by blast
qed

lemma implements_binary:
  assumes L: "implements f semL lt kl True" and R: "implements f' semR rt kr True"
    and K: "\<And>a b g. a < 8 \<Longrightarrow> b < 8 \<Longrightarrow> a \<noteq> b \<Longrightarrow> spilled g = {} \<Longrightarrow>
      K a b g = Some (Some a, tail a b, g\<lparr>used := used g - {b}\<rparr>)"
    and lab: "\<And>a b. labels (tail a b) = []"
    and ex: "\<And>a b E sl m mm u w v mm'. a < 8 \<Longrightarrow> b < 8 \<Longrightarrow> a \<noteq> b \<Longrightarrow> Rel E sl m mm \<Longrightarrow>
      rep lt u (regs m (phys a)) \<Longrightarrow> rep rt w (regs m (phys b)) \<Longrightarrow>
      (\<exists>E mm0 mm1. semL E mm0 = Some (u, mm1)) \<Longrightarrow> (\<exists>E mm0. semR E mm0 = Some (w, mm)) \<Longrightarrow>
      h E u w mm = Some (v, mm') \<Longrightarrow>
      mm' = mm \<and> (\<exists>m'. exec_seq (tail a b) m = Some m' \<and> only_regs {a, b} m m' \<and> rep t v (regs m' (phys a)))"
  shows "implements (with_reg f (\<lambda>a. with_reg f' (K a)))
    (\<lambda>E. cbind (semL E) (\<lambda>u. cbind (semR E) (h E u))) t (max kl (1 + kr)) d"
proof (rule implements_binary_gen [OF L R, of K True tail])
  fix a b :: nat and g :: gst
  assume "a < 8" "b < 8" "a \<noteq> b" "spilled g = {}"
  then show "K a b g = Some (Some (if True then a else b), tail a b, g\<lparr>used := used g - {if True then b else a}\<rparr>)"
    using K by simp
next
  fix a b U E sl m mm u w v mm'
  assume x: "a < 8" "b < 8" "a \<noteq> b" "U \<subseteq> {..<8}" "a \<notin> U" "b \<notin> U" "Rel E sl m mm"
    "True \<Longrightarrow> rep lt u (regs m (phys a))" "True \<Longrightarrow> rep rt w (regs m (phys b))"
    "\<exists>E mm0 mm1. semL E mm0 = Some (u, mm1)" "\<exists>E mm0. semR E mm0 = Some (w, mm)" "h E u w mm = Some (v, mm')"
  obtain m' where m': "mm' = mm" "exec_seq (tail a b) m = Some m'" "only_regs {a, b} m m'" "rep t v (regs m' (phys a))"
    using ex [OF x(1-3,7) x(8) [OF TrueI] x(9) [OF TrueI] x(10-12)] by blast
  have "keeps E sl U m m'" "Rel E sl m' mm"
    using only_regs_keeps [OF m'(3) _ x(4), of E sl] x(1,2,5,6,7) by auto
  with m' show "\<exists>m'. exec_seq (tail a b) m = Some m' \<and> Rel E sl m' mm' \<and> keeps E sl U m m' \<and>
      (d \<longrightarrow> rep t v (regs m' (phys (if True then a else b))))" by auto
qed (rule lab)

section \<open>Sequence\<close>

lemma implements_comma:
  assumes L: "implements f semL lt kl False" and R: "implements f' semR t kr b"
  shows "implements (gen_comma f f') (\<lambda>E. cbind (semL E) (\<lambda>_. semR E)) t (max kl kr) b"
proof (rule implementsI)
  fix g assume g: "ready g" "max kl kr \<le> free_count (used g)" and U: "used g \<subseteq> {..<8}"
  then have kl: "kl \<le> free_count (used g)" by simp
  obtain a c g1 where y1: "yields f semL lt False g a c g1" by (rule implementsE [OF L g(1) kl])
  note a = yieldsD [OF y1]
  let ?g1 = "g1\<lparr>used := used g1 - {a}\<rparr>"
  have e1: "gext (used g) g ?g1" using a(3,4) gext_free by auto
  have u1: "used ?g1 = used g" using gext_used [OF e1] by simp
  have "ready ?g1" using gext_ready [OF e1 U] by simp
  moreover have "kr \<le> free_count (used ?g1)" using g(2) u1 by simp
  ultimately obtain r e g2 where y2: "yields f' semR t b ?g1 r e g2" by (rule implementsE [OF R])
  note r = yieldsD [OF y2]
  have sl: "spill_logand ?g1 = spill_logand g" using e1 by (rule gext_slot)
  have "computes (spill_logand g) (used g) (c @ e) r t (\<lambda>E. cbind (semL E) (\<lambda>_. semR E)) b"
  proof (rule computesI)
    fix E P i m mm v mm'
    assume x: "code_at P i (c @ e)" "distinct (labels P)" "Rel E (spill_logand g) m mm"
      "cbind (semL E) (\<lambda>_. semR E) mm = Some (v, mm')"
    obtain u mm1 where s: "semL E mm = Some (u, mm1)" "semR E mm1 = Some (v, mm')"
      using x(4) by (auto simp: cbind_Some)
    have xc: "code_at P i c" "code_at P (i + length c) e" using x(1) by simp_all
    obtain m1 where m1: "goes P i c m m1" "Rel E (spill_logand g) m1 mm1" "keeps E (spill_logand g) (used g) m m1"
      using computesE [OF a(6) xc(1) x(2,3) s(1)] by blast
    obtain m2 where m2: "goes P (i + length c) e m1 m2" "Rel E (spill_logand g) m2 mm'"
      "keeps E (spill_logand g) (used ?g1) m1 m2" "b \<Longrightarrow> rep t v (regs m2 (phys r))"
      using computesE [OF r(6) xc(2) x(2) _ s(2)] m1(2) unfolding sl by blast
    show "\<exists>m'. goes P i (c @ e) m m' \<and> Rel E (spill_logand g) m' mm' \<and> keeps E (spill_logand g) (used g) m m' \<and>
        (b \<longrightarrow> rep t v (regs m' (phys r)))"
      using goes_append [OF m1(1) m2(1)] m2(2,4) keeps_trans [OF m1(3) m2(3)] u1 by blast
  qed
  moreover have "labels_between (label_count g) (label_count g2) (c @ e)"
    using labels_between_append [OF a(5)] r(4,5) a(4) by (simp add: gext_def)
  moreover have "gext (insert r (used g)) g g2" using e1 r(4) u1 by (auto simp: gext_def)
  ultimately have "yields (gen_comma f f') (\<lambda>E. cbind (semL E) (\<lambda>_. semR E)) t b g r (c @ e) g2"
    using a(1) r(1-3) u1 free_reg_plain [OF gext_spilled [OF a(4)]]
    by (simp add: yields_def gen_comma_def gen_defs)
  then show "\<exists>r c g'. yields (gen_comma f f') (\<lambda>E. cbind (semL E) (\<lambda>_. semR E)) t b g r c g'" by blast
qed

section \<open>Tests against zero\<close>

lemma scalar_bytes: "scalar t \<Longrightarrow> reg_bytes (sizeof t) = nat (sizeof t) \<and> 0 < nat (sizeof t) \<and> nat (sizeof t) \<le> vbytes t"
  by (auto simp: scalar_def reg_bytes_def vbytes_def is_integer_def)

lemma zero_test:
  assumes "scalar t" "conv t v = v"
  shows "low (nat (sizeof t)) v = 0 \<longleftrightarrow> v = 0"
proof (cases "is_integer t \<and> unsigned_ty t")
  case True
  then show ?thesis using assms(2) by (simp add: conv_def)
next
  case False
  then have s: "slow (nat (sizeof t)) v = v"
    using assms by (auto simp: conv_def scalar_def split: if_splits)
  have n: "0 < nat (sizeof t)" using scalar_bytes [OF assms(1)] by simp
  have "low (nat (sizeof t)) v = low (nat (sizeof t)) 0 \<longleftrightarrow> slow (nat (sizeof t)) v = slow (nat (sizeof t)) 0"
    using slow_eq_iff [OF n] by simp
  then show ?thesis using s by (simp add: slow_def)
qed

lemma exec_cmp0:
  assumes "0 < n" "n \<in> {1, 2, 4, 8}"
  shows "exec_instr (Alu A_cmp S_none (Imm 0) (Reg n r)) m =
    Some (m\<lparr>flags_of := Some (sub_flags n (getr m n r) 0)\<rparr>)"
  using assms by (auto simp: exec_alu_def imm_fits_def rd_def)

text \<open>The condition after \<open>cmp $0, r\<close> for the value of a scalar.\<close>

lemma cmp0_value:
  assumes t: "scalar t" "conv t v = v" and r: "rep t v (regs m p)"
  defines "n \<equiv> nat (sizeof t)"
  shows "holds CC_E (sub_flags n (getr m n p) 0) \<longleftrightarrow> v = 0" "holds CC_NE (sub_flags n (getr m n p) 0) \<longleftrightarrow> v \<noteq> 0"
    "exec_instr (Alu A_cmp S_none (Imm 0) (Reg (reg_bytes (sizeof t)) p)) m =
      Some (m\<lparr>flags_of := Some (sub_flags n (getr m n p) 0)\<rparr>)"
proof -
  have n: "reg_bytes (sizeof t) = n" "0 < n" "n \<le> vbytes t" using scalar_bytes [OF t(1)] by (simp_all add: n_def)
  have n4: "n \<in> {1, 2, 4, 8}" using n(1) by (auto simp: reg_bytes_def split: if_splits)
  have g: "getr m n p = low n v" using rep_getr [OF r n(3)] .
  show "holds CC_E (sub_flags n (getr m n p) 0) \<longleftrightarrow> v = 0" "holds CC_NE (sub_flags n (getr m n p) 0) \<longleftrightarrow> v \<noteq> 0"
    using cmp_conditions(1,2) [OF n(2), of "getr m n p" 0] zero_test [OF t] g by (simp_all add: n_def)
  show "exec_instr (Alu A_cmp S_none (Imm 0) (Reg (reg_bytes (sizeof t)) p)) m =
      Some (m\<lparr>flags_of := Some (sub_flags n (getr m n p) 0)\<rparr>)"
    unfolding n(1) using n(2) n4 by (rule exec_cmp0)
qed

section \<open>The slot of the short-circuit operators\<close>

definition set_slot :: "int \<Rightarrow> int \<Rightarrow> mach \<Rightarrow> mach" where
  "set_slot sl v m = m\<lparr>mem := (mem m)(slot_addr sl m := word_of_int v)\<rparr>"

lemma exec_set_slot_imm:
  assumes "0 \<le> v" "v < 256"
  shows "exec_instr (Mov S_b (Imm v) (Mem (- sl) RBP)) m = Some (set_slot sl v m)"
  using assms by (simp add: rd_def wr_def set_slot_def slot_addr_def low_id)

lemma exec_set_slot_al:
  "exec_instr (Mov S_b (Reg 1 RAX) (Mem (- sl) RBP)) m = Some (set_slot sl (getr m 1 RAX) m)"
  by (simp add: rd_def wr_def set_slot_def slot_addr_def)

lemma exec_get_slot:
  "exec_instr (Ext False 1 4 (Mem (- sl) RBP) r) m = Some (putr 4 r (uint (mem m (slot_addr sl m))) m)"
  by (simp add: rd_def slot_addr_def numeral_eq_Suc)

lemma set_slot_simps [simp]:
  "regs (set_slot sl v m) = regs m" "syms (set_slot sl v m) = syms m" "flags_of (set_slot sl v m) = flags_of m"
  "mem (set_slot sl v m) (slot_addr sl m) = word_of_int v" "slot_addr sl (set_slot sl v m) = slot_addr sl m"
  "getr (set_slot sl v m) n r = getr m n r"
  by (simp_all add: set_slot_def slot_addr_def getr_def)

lemma set_slot_keeps: "keeps E sl U m (set_slot sl v m)" "Rel E sl m mm \<Longrightarrow> Rel E sl (set_slot sl v m) mm"
  by (auto simp: keeps_def Rel_def set_slot_def slot_addr_def)

lemma flags_keeps: "keeps E sl U m (m\<lparr>flags_of := f\<rparr>)" "Rel E sl m mm \<Longrightarrow> Rel E sl (m\<lparr>flags_of := f\<rparr>) mm"
  by (auto simp: keeps_def Rel_def slot_addr_def)

lemma putr_keeps:
  assumes "q \<in> scratch \<union> phys ` R" "R \<subseteq> {..<8}" "U \<subseteq> {..<8}" "R \<inter> U = {}"
  shows "keeps E sl U m (putr n q v m)" "Rel E sl m mm \<Longrightarrow> Rel E sl (putr n q v m) mm"
  using only_regs_keeps [OF only_regs_putr [OF assms(1)] assms(2-4)] by blast+

lemma code_at_mid: "code_at P i (c @ x # d) \<Longrightarrow> code_at P (i + length c) (x # d)"
  by simp

lemma goes_1: "step P (i, m) = Some (Suc i, m') \<Longrightarrow> goes P i [x] m m'"
  unfolding goes_def using steps_step [OF _ steps_refl] by simp

lemma goes_instr: "code_at P i [x] \<Longrightarrow> exec_instr x m = Some m' \<Longrightarrow> goes P i [x] m m'"
  by (rule goes_1) (rule step_instr)

lemma goes_label: "code_at P i [Label l] \<Longrightarrow> goes P i [Label l] m m"
  by (rule goes_1) (rule step_label)

end
