(* ===== verification/GenMem.thy ===== *)
theory GenMem
  imports GenRefine
begin

text \<open>
  Correctness of the code for literals and variables, for reading through a pointer and for members:
  each case of \<open>gen\<close> and \<open>gen_addr\<close> implements its meaning when its operand does.
\<close>

section \<open>Scalar types\<close>

lemma scalar_facts:
  assumes "scalar t"
  shows "\<not> is_flonum t" "\<not> is_vla t" "tkind t \<noteq> TY_FUNC" "\<not> is_array t" "tkind t \<noteq> TY_VLA" "\<not> is_copied t"
    "tkind t \<noteq> TY_ARRAY" "reg_bytes (op_size t) = vbytes t" "sizeof t \<in> {1, 2, 4, 8}" "vbytes t \<in> {4, 8}" "nat (sizeof t) \<le> vbytes t"
    "4 \<le> sizeof t \<Longrightarrow> vbytes t = nat (sizeof t)" "sizeof t < 4 \<Longrightarrow> is_integer t \<and> vbytes t = 4"
    "4 \<le> sizeof t \<Longrightarrow> sizeof t \<in> {4, 8}" "reg_bytes (sizeof t) = nat (sizeof t)" "op_size t = int (vbytes t)"
proof -
  have k: "is_integer t \<or> tkind t = TY_PTR" "is_integer t \<or> sizeof t = 8" "sizeof t = 1 \<or> sizeof t = 2 \<or> sizeof t = 4 \<or> sizeof t = 8"
    using assms unfolding scalar_def by auto
  have "tkind t \<notin> {TY_FLOAT, TY_DOUBLE, TY_LDOUBLE, TY_VLA, TY_STRUCT, TY_UNION, TY_FUNC, TY_ARRAY}"
    using k(1) unfolding is_integer_def by auto
  then show "\<not> is_flonum t" "\<not> is_vla t" "tkind t \<noteq> TY_FUNC" "\<not> is_array t" "tkind t \<noteq> TY_VLA" "\<not> is_copied t"
    "tkind t \<noteq> TY_ARRAY"
    by (simp_all add: is_flonum_def is_vla_def is_array_def is_copied_def)
  show "reg_bytes (op_size t) = vbytes t" "vbytes t \<in> {4, 8}" "nat (sizeof t) \<le> vbytes t" "op_size t = int (vbytes t)"
    "reg_bytes (sizeof t) = nat (sizeof t)" "sizeof t \<in> {1, 2, 4, 8}"
    using k(2,3) unfolding op_size_def reg_bytes_def vbytes_def by auto
  show "4 \<le> sizeof t \<Longrightarrow> vbytes t = nat (sizeof t)" "sizeof t < 4 \<Longrightarrow> is_integer t \<and> vbytes t = 4"
    "4 \<le> sizeof t \<Longrightarrow> sizeof t \<in> {4, 8}"
    using k(2,3) unfolding vbytes_def by auto
qed

lemma array_facts:
  assumes "is_array t"
  shows "vbytes t = 8" "\<not> is_flonum t" "\<not> is_vla t" "tkind t = TY_ARRAY" "\<not> scalar t"
  using assms by (auto simp: is_array_def vbytes_def is_flonum_def is_vla_def is_integer_def scalar_def)

lemma conv_low: "scalar t \<Longrightarrow> low (nat (sizeof t)) (conv t v) = low (nat (sizeof t)) v"
  by (auto simp: conv_def scalar_def)

lemma conv_low_wide: "scalar t \<Longrightarrow> 4 \<le> sizeof t \<Longrightarrow> low (vbytes t) (conv t v) = low (vbytes t) v"
  using conv_low scalar_facts(12) by metis

lemma conv_conv: "scalar t \<Longrightarrow> conv t (conv t v) = conv t v"
  by (auto simp: conv_def scalar_def slow_def)

lemma putr_cong: "low n v = low n w \<Longrightarrow> putr n r v m = putr n r w m"
  by (simp add: putr_def)

lemma vbytes_bytes: "scalar t \<Longrightarrow> vbytes t \<in> {1, 2, 4, 8}"
  using scalar_facts(10) by auto

lemma rep_putr: "scalar t \<Longrightarrow> rep t v (regs (putr (vbytes t) q v m) q)"
  using vbytes_bytes by (intro repI [where n = "vbytes t"] getr_putr) auto

lemma implements_retype: "implements f sem t k b \<Longrightarrow> vbytes t = vbytes t' \<Longrightarrow> implements f sem t' k b"
  by (simp add: implements_def yields_def computes_def rep_def)

section \<open>Memory\<close>

lemma Rel_load:
  assumes "Rel E sl m mm" "can_access E p n"
  shows "load (mem m) n p = load mm n p"
  using assms by (intro load_cong) (auto simp: Rel_def can_access_def area_def list_all_iff)

definition load_code :: "ctype \<Rightarrow> nat \<Rightarrow> opd \<Rightarrow> instr list" where
  "load_code t r a =
     (if sizeof t = 1 then [Ext (\<not> unsigned_ty t) 1 4 a (phys r)]
      else if sizeof t = 2 then [Ext (\<not> unsigned_ty t) 2 4 a (phys r)]
      else if sizeof t = 4 then [Mov S_l a (Reg 4 (phys r))]
      else [Mov S_q a (Reg 8 (phys r))])"

lemma emit_load_code: "emit_load t r a = emit (load_code t r a)"
  by (simp add: emit_load_def load_code_def)

lemma labels_load_code [simp]: "labels (load_code t r a) = []"
  by (simp add: load_code_def)

lemma rd_mem: "addr m a = Some p \<Longrightarrow> rd n a m = Some (load (mem m) n p)"
  by (cases a) (simp_all add: rd_def)

lemma exec_load:
  assumes t: "scalar t" and a: "addr m a = Some p"
  shows "exec_seq (load_code t r a) m = Some (putr (vbytes t) (phys r) (conv t (load (mem m) (nat (sizeof t)) p)) m)"
proof -
  have "sizeof t = 1 \<or> sizeof t = 2 \<or> sizeof t = 4 \<or> sizeof t = 8" using scalar_facts(9) [OF t] by simp
  then show ?thesis
    using t scalar_facts(12,13) [OF t] rd_mem [OF a]
    by (elim disjE) (auto simp: load_code_def conv_def wr_def scalar_def simp del: load.simps intro!: putr_cong)
qed

lemma load_result:
  assumes "scalar t" "addr m a = Some p" "Rel E sl m mm" "cload E t p mm = Some v"
  shows "\<exists>m'. exec_seq (load_code t r a) m = Some m' \<and> only_regs {r} m m' \<and> rep t v (regs m' (phys r))"
  using assms exec_load [OF assms(1,2)] Rel_load [of E sl m mm p "nat (sizeof t)"] rep_putr [OF assms(1)] only_regs_putr
  by (auto simp: cload_def split: if_splits)

section \<open>Literals and variables\<close>

lemma implements_num:
  assumes n: "num_ok n" "ndty n = Some t"
  shows "implements (gen_num n) (\<lambda>E. cret (conv t (ndval n))) t 1 b"
  unfolding gen_num_def
proof (rule implements_leaf [where tail = "\<lambda>r. if in32 (ndval n) then [Mov S_none (Imm (ndval n)) (reg r (op_size t))]
    else [Mov S_abs (Imm (ndval n)) (Reg 8 (phys r))]"])
  have t: "scalar t" "4 \<le> sizeof t \<or> conv t (ndval n) = ndval n" "tyof n = t"
    using n by (auto simp: num_ok_def ctype_of_def)
  have l: "low (vbytes t) (conv t (ndval n)) = low (vbytes t) (ndval n)"
    using t(2) conv_low_wide [OF t(1)] by auto
  fix r :: nat and E sl m mm v mm'
  assume "r < 8" "Rel E sl m mm" "cret (conv t (ndval n)) mm = Some (v, mm')"
  then have v: "v = conv t (ndval n)" "mm' = mm" by (simp_all add: cret_def)
  have "rep t v (regs (putr (vbytes t) (phys r) (ndval n) m) (phys r))" "rep t v (regs (putr 8 (phys r) (ndval n) m) (phys r))"
    using l scalar_facts(10) [OF t(1)] getr_putr [of "vbytes t" "vbytes t"] getr_putr [of "vbytes t" 8] unfolding v
    by (auto intro!: repI [where n = "vbytes t"])
  then show "mm' = mm \<and> (\<exists>m'. exec_seq (if in32 (ndval n) then [Mov S_none (Imm (ndval n)) (reg r (op_size t))]
      else [Mov S_abs (Imm (ndval n)) (Reg 8 (phys r))]) m = Some m' \<and> only_regs {r} m m' \<and> rep t v (regs m' (phys r)))"
    using v(2) scalar_facts(8) [OF t(1)] only_regs_putr
    by (simp add: reg_def rd_def wr_def low_low putr_cong [of _ "low _ _"])
qed (use n in \<open>auto simp: gen_defs\<close>)

lemma Rel_var: "Rel E sl m mm \<Longrightarrow> addr m (var_opd v) = Some (vaddr E v)"
  by (simp add: Rel_def var_opd_def)


lemma word_slow8 [simp]: "word_of_int (slow 8 v) = (word_of_int v :: 64 word)"
proof -
  have "uint (word_of_int (slow 8 v) :: 64 word) = uint (word_of_int v :: 64 word)" by simp
  then show ?thesis by (simp only: word_uint_eqI)
qed

lemma implements_lvar:
  assumes n: "lvar_ok n" "ndty n = Some t"
  shows "implements (gen_lvar n) (\<lambda>E. sem_lvar E n) t 1 b"
proof -
  obtain x where x: "nvar (info n) = Some x" "vty x = Some t" "scalar t \<or> is_array t"
    using n by (auto simp: lvar_ok_def ctype_of_def split: option.splits)
  have t: "tyof n = t" using n(2) by (simp add: ctype_of_def)
  show ?thesis
    unfolding gen_lvar_def
  proof (rule implements_leaf [where tail = "\<lambda>r. if is_array t then [Lea (var_opd x) (phys r)] else load_code t r (var_opd x)"])
    fix r :: nat and E sl m mm v mm'
    assume h: "r < 8" "Rel E sl m mm" "sem_lvar E n mm = Some (v, mm')"
    show "mm' = mm \<and> (\<exists>m'. exec_seq (if is_array t then [Lea (var_opd x) (phys r)] else load_code t r (var_opd x)) m = Some m' \<and>
        only_regs {r} m m' \<and> rep t v (regs m' (phys r)))"
    proof (cases "is_array t")
      case True
      then have v: "v = slow 8 (uint (vaddr E x))" "mm' = mm" using h(3) x(1) t by (simp_all add: sem_lvar_def cret_def Let_def)
      then have "rep t v (regs (putr 8 (phys r) (uint (vaddr E x)) m) (phys r))"
        using array_facts(1) [OF True] by (intro repI [where n = 8]) (simp_all add: getr_putr)
      then show ?thesis using True v(2) Rel_var [OF h(2)] only_regs_putr by simp
    next
      case False
      then have "cload E t (vaddr E x) mm = Some v" "mm' = mm"
        using h(3) x(1) t by (auto simp: sem_lvar_def sem_load_def Let_def)
      then show ?thesis using False x(3) load_result [OF _ Rel_var [OF h(2)] h(2)] by auto
    qed
  next
    fix r :: nat and g assume "r < 8"
    show "(case nvar (info n) of None \<Rightarrow> gfail | Some v \<Rightarrow> with_type (vty v) (\<lambda>vt.
             if is_vla vt then
               emits [Mov S_none (if vis_local v then Mem (- (voffset v - 8)) RBP else Rip (var_label v)) (Reg 8 (phys r))] r
             else if tkind vt = TY_ARRAY then emits [Lea (var_opd v) (phys r)] r
             else if \<not> vis_local v \<and> tkind vt = TY_FUNC then emits [Lea (var_opd v) (phys r)] r
             else if is_flonum vt then gfail
             else with_type (ndty n) (\<lambda>t. gseq (emit_load t r (var_opd v)) (gret (Some r))))) g =
      Some (Some r, if is_array t then [Lea (var_opd x) (phys r)] else load_code t r (var_opd x), g)"
      using x(3) array_facts [of t] scalar_facts [of t] x(1,2) n(2)
      by (elim disjE) (simp_all add: gen_defs emit_load_code)
  qed simp_all
qed

lemma implements_addr_lvar:
  assumes n: "lvar_addr_ok n" "nvar (info n) = Some x" and t: "vbytes t = 8"
  shows "implements (addr_lvar n) (\<lambda>E. cret (slow 8 (uint (vaddr E x)))) t 1 b"
  unfolding addr_lvar_def
proof (rule implements_leaf [where tail = "\<lambda>r. [Lea (var_opd x) (phys r)]"])
  fix r :: nat and E sl m mm v mm'
  assume h: "r < 8" "Rel E sl m mm" "cret (slow 8 (uint (vaddr E x))) mm = Some (v, mm')"
  then have "rep t v (regs (putr 8 (phys r) (uint (vaddr E x)) m) (phys r))"
    using t by (intro repI [where n = 8]) (auto simp: getr_putr cret_def)
  then show "mm' = mm \<and> (\<exists>m'. exec_seq [Lea (var_opd x) (phys r)] m = Some m' \<and> only_regs {r} m m' \<and> rep t v (regs m' (phys r)))"
    using h(3) Rel_var [OF h(2)] only_regs_putr by (simp add: cret_def)
qed (use n in \<open>auto simp: gen_defs lvar_addr_ok_def split: option.splits\<close>)

section \<open>Indirection and members\<close>

text \<open>Reading through the address an operand leaves.\<close>

definition read_code :: "ctype \<Rightarrow> nat \<Rightarrow> instr list" where
  "read_code t r = (if is_array t then [] else load_code t r (Mem 0 (phys r)))"

lemma implements_read:
  assumes f: "implements f semA pt k True" and t: "scalar t \<or> is_array t" "vbytes pt = 8"
    and K: "\<And>r g. r < 8 \<Longrightarrow> K r g = Some (Some r, read_code t r, g)"
  shows "implements (with_reg f K) (\<lambda>E. sem_read E t (semA E)) t k b"
  unfolding sem_read_def
proof (rule implements_unary [OF f, of K "read_code t"])
  fix r :: nat and E sl m mm u v mm'
  assume h: "r < 8" "Rel E sl m mm" "rep pt u (regs m (phys r))" "(if is_array t then cret u else sem_load E t u) mm = Some (v, mm')"
  have w: "regs m (phys r) = word_of_int u" using h(3) t(2) by (rule rep_word)
  show "mm' = mm \<and> (\<exists>m'. exec_seq (read_code t r) m = Some m' \<and> only_regs {r} m m' \<and> rep t v (regs m' (phys r)))"
  proof (cases "is_array t")
    case True
    then show ?thesis using h array_facts(1) [OF True] t(2) by (auto simp: read_code_def cret_def rep_def)
  next
    case False
    then have "cload E t (word_of_int u) mm = Some v" "mm' = mm" using h(4) by (auto simp: sem_load_def)
    moreover have "addr m (Mem 0 (phys r)) = Some (word_of_int u)" using w by simp
    ultimately show ?thesis using False t(1) load_result [OF _ _ h(2)] by (simp add: read_code_def)
  qed
qed (simp_all add: K read_code_def)

lemma with_reg_id:
  assumes "implements f sem t k b"
  shows "implements (with_reg f (\<lambda>r. gret (Some r))) sem t k b"
  using assms unfolding implements_def yields_def by (fastforce simp: gen_defs)

lemma implements_deref:
  assumes f: "implements f semA pt k True" and t: "scalar t \<or> is_array t" "vbytes pt = 8" "ndty n = Some t"
  shows "implements (gen_deref n f) (\<lambda>E. sem_read E t (semA E)) t k b"
proof (cases "is_array t")
  case True
  have "implements (with_reg f (\<lambda>r. gret (Some r))) (\<lambda>E. sem_read E t (semA E)) t k b"
    by (rule implements_read [OF f t(1,2)]) (simp add: gret_def read_code_def True)
  moreover have "gen_deref n f = f" using True t(3) by (simp add: gen_deref_def with_type_def is_array_def)
  moreover have "sem_read E t (semA E) = semA E" for E
    by (auto simp: sem_read_def True cbind_def cret_def fun_eq_iff split: option.splits)
  ultimately show ?thesis using implements_weaken [OF f, of k b] implements_retype [of f semA pt k b t] array_facts(1) [OF True] t(2)
    by simp
next
  case False
  then have s: "scalar t" using t(1) by simp
  have "gen_deref n f = with_reg f (\<lambda>r. gseq (emit (read_code t r)) (gret (Some r)))"
    using scalar_facts [OF s] t(3) by (simp add: gen_deref_def with_type_def emit_load_code read_code_def)
  moreover have "implements (with_reg f (\<lambda>r. gseq (emit (read_code t r)) (gret (Some r)))) (\<lambda>E. sem_read E t (semA E)) t k b"
    by (rule implements_read [OF f t(1,2)]) (simp add: gen_defs)
  ultimately show ?thesis by simp
qed

lemma implements_member:
  assumes f: "implements f semA pt k True" and n: "member_ok n" "ndty n = Some t" "scalar t \<or> is_array t" "vbytes pt = 8"
  shows "implements (gen_member n f) (\<lambda>E. sem_read E t (semA E)) t k b"
  unfolding gen_member_def
proof (rule implements_read [OF f n(3,4)])
  fix r :: nat and g
  obtain m where m: "nmember (info n) = Some m" "bit_width (minfo m) = 0"
    using n(1) by (auto simp: member_ok_def split: option.splits)
  show "with_type (ndty n) (\<lambda>t.
       if tkind t = TY_ARRAY \<or> tkind t = TY_VLA then gret (Some r)
       else case nmember (info n) of
         None \<Rightarrow> if is_flonum t then gfail else gseq (emit_load t r (Mem 0 (phys r))) (gret (Some r))
       | Some m \<Rightarrow>
          (let i = minfo m; load_ty = (if bit_width i > 0 then mty m else t)
           in if is_flonum load_ty then gfail
              else if bit_width i > 0 \<and> bf_load_size i \<noteq> 0 then
                (let ls = bf_load_size i; bo = bit_offset i; bw = bit_width i
                 in if ls > 8 \<and> bo + bw > 64 then
                      gbind alloc_reg (\<lambda>ra.
                      gseq (emit ([Mov S_none (Reg 8 (phys r)) (Reg 8 (phys ra)), bf_load 8 r r] @ shift_down m r))
                      (gbind alloc_reg (\<lambda>tmp.
                       gseq (emit [Ext False 1 4 (Mem 8 (phys ra)) (phys tmp),
                                   Alu A_and S_none (Imm (2 ^ nat (bo + bw - 64) - 1)) (Reg 4 (phys tmp)),
                                   Alu A_shl S_none (Imm (64 - bo)) (Reg 8 (phys tmp)),
                                   Alu A_or S_none (Reg 8 (phys tmp)) (Reg 8 (phys r))])
                       (gseq (free_reg tmp) (gseq (free_reg ra)
                          (emits (extract_field m (ls * 8) r) r))))))
                    else emits (bf_load (min ls 8) r r # shift_down m r @ extract_field m (ls * 8) r) r)
              else gseq (emit_load load_ty r (Mem 0 (phys r)))
                     (if bit_width i > 0 then emits (shift_down m r @ extract_field m (sizeof (mty m) * 8) r) r
                      else gret (Some r)))) g = Some (Some r, read_code t r, g)"
  proof (cases "is_array t")
    case True
    then show ?thesis using n(2) array_facts(4) [OF True] by (simp add: with_type_def gret_def read_code_def)
  next
    case False
    then have "scalar t" using n(3) by simp
    then show ?thesis
      using n(2) m scalar_facts(1,5,7) [OF \<open>scalar t\<close>] False
      by (simp add: with_type_def Let_def read_code_def emit_load_code) (simp add: gen_defs)
  qed
qed

lemma implements_addr_member:
  assumes f: "implements f semA pt k True" and n: "member_ok n" "nmember (info n) = Some x" "vbytes pt = 8"
  shows "implements (addr_member n f) (\<lambda>E. cbind (semA E) (\<lambda>p. cret (slow 8 (p + moffset (minfo x))))) pt k b"
  unfolding addr_member_def
proof (rule implements_unary [OF f, where tail = "\<lambda>r. [Alu A_add S_none (Imm (moffset (minfo x))) (Reg 8 (phys r))]"])
  fix r :: nat and E sl m mm u v mm'
  assume h: "r < 8" "Rel E sl m mm" "rep pt u (regs m (phys r))" "cret (slow 8 (u + moffset (minfo x))) mm = Some (v, mm')"
  have o: "in32 (moffset (minfo x))" using n(1,2) by (simp add: member_ok_def)
  let ?o = "moffset (minfo x)"
  define m' where "m' = putr 8 (phys r) (getr m 8 (phys r) + low 8 ?o)
    (m\<lparr>flags_of := Some (add_flags 8 (getr m 8 (phys r)) (low 8 ?o))\<rparr>)"
  have "exec_seq [Alu A_add S_none (Imm ?o) (Reg 8 (phys r))] m = Some m'"
    using o by (simp add: exec_alu_def imm_fits_def in32_def rd_def wr_def m'_def)
  moreover have "only_regs {r} m m'"
    unfolding m'_def by (rule only_regs_trans [OF only_regs_flags only_regs_putr]) simp
  moreover have "getr m 8 (phys r) = low 8 u" using rep_getr [OF h(3)] n(3) by simp
  then have "rep pt v (regs m' (phys r))"
    using h(4) n(3) by (intro repI [where n = 8]) (auto simp: m'_def getr_putr low_add cret_def)
  ultimately show "mm' = mm \<and> (\<exists>m'. exec_seq [Alu A_add S_none (Imm ?o) (Reg 8 (phys r))] m = Some m' \<and>
      only_regs {r} m m' \<and> rep pt v (regs m' (phys r)))"
    using h(4) by (simp add: cret_def)
qed (use n in \<open>simp_all add: gen_defs\<close>)

end
