(* ===== verification/GenControl.thy ===== *)
theory GenControl
  imports GenRefine
begin

text \<open>
  The expressions with control flow inside: the short-circuit operators, which go through a byte of
  the frame, and the conditional operator.
\<close>

section \<open>The short-circuit operators\<close>

definition in_range :: "(cenv \<Rightarrow> ceval) \<Rightarrow> ctype \<Rightarrow> bool" where
  "in_range sem t \<longleftrightarrow> (\<forall>E m v m'. sem E m = Some (v, m') \<longrightarrow> conv t v = v)"

lemma in_rangeD: "in_range sem t \<Longrightarrow> sem E m = Some (v, m') \<Longrightarrow> conv t v = v"
  unfolding in_range_def by blast

text \<open>The code after both operands: the flag from the second, the label, the flag as the result.\<close>

definition logical_test :: "int \<Rightarrow> nat \<Rightarrow> ctype \<Rightarrow> int \<Rightarrow> cc \<Rightarrow> nat \<Rightarrow> instr list" where
  "logical_test sl a lt flag q c =
     [Alu A_cmp S_none (Imm 0) (reg a (sizeof lt)), Mov S_b (Imm flag) (Mem (- sl) RBP), Jcc q (L_end c)]"

definition logical_end :: "int \<Rightarrow> nat \<Rightarrow> ctype \<Rightarrow> nat \<Rightarrow> nat \<Rightarrow> instr list" where
  "logical_end sl b rt c r =
     [Alu A_cmp S_none (Imm 0) (reg b (sizeof rt)), Setcc CC_NE RAX, Mov S_b (Reg 1 RAX) (Mem (- sl) RBP),
      Label (L_end c), Ext False 1 4 (Mem (- sl) RBP) (phys r)]"

lemma logical_result:
  assumes r: "r < 8" "U \<subseteq> {..<8}" "r \<notin> U" and R: "Rel E sl m mm"
    and v: "mem m (slot_addr sl m) = word_of_int (of_bool z)" and t: "vbytes t = 4"
    and c: "code_at P i [Ext False 1 4 (Mem (- sl) RBP) (phys r)]"
  shows "\<exists>m'. goes P i [Ext False 1 4 (Mem (- sl) RBP) (phys r)] m m' \<and> Rel E sl m' mm \<and> keeps E sl U m m' \<and>
    rep t (of_bool z) (regs m' (phys r))"
proof -
  let ?m = "putr 4 (phys r) (uint (mem m (slot_addr sl m))) m"
  have "goes P i [Ext False 1 4 (Mem (- sl) RBP) (phys r)] m ?m"
    using c exec_get_slot by (rule goes_instr)
  moreover have "uint (mem m (slot_addr sl m)) = of_bool z" using v by (cases z) simp_all
  then have "getr ?m 4 (phys r) = low 4 (of_bool z)" by (simp add: getr_putr)
  then have "rep t (of_bool z) (regs ?m (phys r))" using t by (intro repI [where n = 4]) simp_all
  moreover have "keeps E sl U m ?m" "Rel E sl ?m mm"
    using putr_keeps [where q = "phys r" and R = "{r}" and U = U and m = m] r R by auto
  ultimately show ?thesis by blast
qed

lemma implements_logical:
  assumes L: "implements f semL lt kl True" and R: "implements f' semR rt kr True"
    and rl: "in_range semL lt" and rr: "in_range semR rt" and sc: "scalar lt" "scalar rt"
    and n: "lhs n = Some l" "ndty l = Some lt" "rhs n = Some x" "ndty x = Some rt"
    and q: "(is_and \<and> flag = 0 \<and> q = CC_E) \<or> (\<not> is_and \<and> flag = 1 \<and> q = CC_NE)"
    and t: "vbytes t = 4"
  shows "implements (gen_logical n flag q f f') (\<lambda>E. sem_logical is_and (semL E) (semR E)) t (max 1 (max kl kr)) d"
    (is "implements ?f ?sem t ?k d")
proof (rule implementsI)
  fix g assume g: "ready g" "?k \<le> free_count (used g)" and U: "used g \<subseteq> {..<8}"
  define sl where "sl = spill_logand g"
  let ?g0 = "g\<lparr>label_count := label_count g + 1\<rparr>"
  define c where "c = label_count g + 1"
  have g0: "ready ?g0" "kl \<le> free_count (used ?g0)" using g by (simp_all add: ready_def)
  obtain a cL g1 where y1: "yields f semL lt True ?g0 a cL g1" by (rule implementsE [OF L g0])
  note a = yieldsD [OF y1, simplified]
  let ?g1 = "g1\<lparr>used := used g1 - {a}\<rparr>"
  have e1: "gext (used g) ?g0 ?g1" using gext_free [of a "used g"] a(3,4) by simp
  have u1: "used ?g1 = used g" using gext_used [OF e1] by simp
  have g1: "ready ?g1" "kr \<le> free_count (used ?g1)" using gext_ready [OF e1 U] g(2) u1 by simp_all
  obtain b cR g2 where y2: "yields f' semR rt True ?g1 b cR g2" by (rule implementsE [OF R g1])
  note b = yieldsD [OF y2]
  have bU: "b \<notin> used g" using b(3) u1 by simp
  let ?g2 = "g2\<lparr>used := used g2 - {b}\<rparr>"
  have e2: "gext (used g) ?g1 ?g2" using gext_free [of b "used g"] b(4) bU u1 by simp
  have u2: "used ?g2 = used g" using gext_used [OF e2] by simp
  have "0 < free_count (used ?g2)" using g(2) u2 by simp
  then obtain r where r: "r < 8" "r \<notin> used ?g2"
    "alloc_reg ?g2 = Some (r, [], ?g2\<lparr>used := insert r (used ?g2), ever_used := insert r (ever_used ?g2)\<rparr>)"
    by (rule alloc_free)
  let ?g3 = "?g2\<lparr>used := insert r (used ?g2), ever_used := insert r (ever_used ?g2)\<rparr>"
  have rU: "r \<notin> used g" using r(2) u2 by simp
  let ?code = "cL @ logical_test sl a lt flag q c @ cR @ logical_end sl b rt c r"
  have lc: "label_count ?g0 \<le> label_count g1" "label_count g1 \<le> label_count g2"
    using a(4) b(4) by (simp_all add: gext_def)
  have slot: "spill_logand g1 = sl" "spill_logand g2 = sl"
    using a(4) b(4) by (simp_all add: gext_def sl_def)
  have "?f g = Some (Some r, ?code, ?g3)"
    using a(1) b(1) r(3) n free_reg_plain [OF gext_spilled [OF a(4)]] free_reg_plain [OF gext_spilled [OF b(4)]] slot
    by (simp add: gen_logical_def gen_defs new_label_def logical_test_def logical_end_def c_def)
  moreover have "gext (insert r (used g)) g ?g3"
    using e1 e2 r rU u2 by (auto simp: gext_def)
  moreover have "labels_between (label_count g) (label_count ?g3) ?code"
  proof -
    have "labels_between (label_count ?g0) (label_count g2) (cL @ cR)"
      using labels_between_append [OF a(5)] b(5) lc by simp
    moreover have "labels ?code = labels cL @ labels cR @ [L_end c]"
      by (simp add: logical_test_def logical_end_def)
    moreover have "label_num (L_end c) = Some (label_count g + 1)" by (simp add: label_num_def c_def)
    moreover have "L_end c \<notin> set (labels (cL @ cR))"
    proof
      assume "L_end c \<in> set (labels (cL @ cR))"
      then obtain k where "label_num (L_end c) = Some k" "label_count ?g0 < k"
        using \<open>labels_between (label_count ?g0) (label_count g2) (cL @ cR)\<close> unfolding labels_between_def by blast
      then show False by (simp add: label_num_def c_def)
    qed
    ultimately show ?thesis
      using lc unfolding labels_between_def by (auto dest!: bspec intro: less_trans)
  qed
  moreover have "computes sl (used g) ?code r t ?sem d"
  proof (rule computesI)
    fix E P i m mm v mm'
    assume h: "code_at P i ?code" "distinct (labels P)" "Rel E sl m mm" "?sem E mm = Some (v, mm')"
    let ?j = "i + length cL"
    let ?k = "?j + 3 + length cR"
    have len: "length (logical_test sl a lt flag q c) = 3" by (simp add: logical_test_def)
    have at: "code_at P i cL" "code_at P ?j (logical_test sl a lt flag q c)" "code_at P (?j + 3) cR"
      "code_at P ?k (logical_end sl b rt c r)"
      using h(1) by (simp_all add: len add.assoc)
    have atl: "code_at P (?k + 3) [Label (L_end c), Ext False 1 4 (Mem (- sl) RBP) (phys r)]"
      using at(4) by (simp add: logical_end_def code_at_Cons)
    obtain u mm1 where s: "semL E mm = Some (u, mm1)"
      "(if (u = 0) = is_and then cret (of_bool (u \<noteq> 0)) else cbind (semR E) (\<lambda>w. cret (of_bool (w \<noteq> 0)))) mm1 = Some (v, mm')"
      using h(4) by (auto simp: sem_logical_def cbind_Some)
    obtain m1 where m1: "goes P i cL m m1" "Rel E sl m1 mm1" "keeps E sl (used g) m m1" "rep lt u (regs m1 (phys a))"
      using computesE [OF a(6) at(1) h(2) _ s(1)] h(3) unfolding sl_def by auto
    define m2 where "m2 = set_slot sl flag (m1\<lparr>flags_of := Some (sub_flags (nat (sizeof lt)) (getr m1 (nat (sizeof lt)) (phys a)) 0)\<rparr>)"
    have u: "conv lt u = u" using rl s(1) by (rule in_rangeD)
    note cmp = cmp0_value [OF sc(1) u m1(4)]
    have fl: "0 \<le> flag" "flag < 256" using q by auto
    have "exec_seq (take 2 (logical_test sl a lt flag q c)) m1 = Some m2"
      using cmp(3) exec_set_slot_imm [OF fl, of sl]
      by (simp add: logical_test_def reg_def m2_def del: exec_instr.simps)
    then have g2: "goes P ?j (take 2 (logical_test sl a lt flag q c)) m1 m2"
      using at(2) by (intro goes_seq) (auto simp: logical_test_def code_at_Cons code_at_Nil)
    have atj: "code_at P (?j + 2) [Jcc q (L_end c)]" using at(2) by (simp add: logical_test_def code_at_Cons)
    have k2: "Rel E sl m2 mm1" "keeps E sl (used g) m1 m2"
      using m1(2) by (auto simp: m2_def intro!: set_slot_keeps flags_keeps intro: keeps_trans [OF flags_keeps(1) set_slot_keeps(1)])
    have jump: "step P (?j + 2, m2) = Some (if (u = 0) = is_and then ?k + 3 else Suc (?j + 2), m2)"
    proof -
      have "holds q (sub_flags (nat (sizeof lt)) (getr m1 (nat (sizeof lt)) (phys a)) 0) \<longleftrightarrow> (u = 0) = is_and"
        using q cmp(1,2) by auto
      moreover have "flags_of m2 = Some (sub_flags (nat (sizeof lt)) (getr m1 (nat (sizeof lt)) (phys a)) 0)"
        by (simp add: m2_def)
      ultimately show ?thesis
        using step_jcc [OF atj, of m2 _ "?k + 3" "[Ext False 1 4 (Mem (- sl) RBP) (phys r)]"] h(2) atl by auto
    qed
    have start: "steps P (i, m) (?j + 2, m2)"
      using m1(1) g2 by (auto simp: goes_def logical_test_def intro: steps_trans)
    have "\<exists>m3. steps P (?j + 2, m2) (?k + 3, m3) \<and> Rel E sl m3 mm' \<and> keeps E sl (used g) m2 m3 \<and>
        (\<exists>z. v = of_bool z \<and> mem m3 (slot_addr sl m3) = word_of_int (of_bool z))"
    proof (cases "(u = 0) = is_and")
      case True
      then have "v = of_bool (u \<noteq> 0)" "mm' = mm1" using s(2) by (auto simp: cret_def)
      moreover have "flag = of_bool (u \<noteq> 0)" using q True by auto
      moreover have "mem m2 (slot_addr sl m2) = word_of_int flag" by (simp add: m2_def)
      ultimately show ?thesis
        using steps_step [OF jump steps_refl] k2(1) True by (intro exI [of _ m2]) auto
    next
      case False
      then obtain w where w: "semR E mm1 = Some (w, mm')" "v = of_bool (w \<noteq> 0)"
        using s(2) by (auto simp: cbind_Some cret_def)
      obtain m3 where m3: "goes P (?j + 3) cR m2 m3" "Rel E sl m3 mm'" "keeps E sl (used g) m2 m3" "rep rt w (regs m3 (phys b))"
        using computesE [OF b(6) at(3) h(2) _ w(1)] k2(1) u1 slot(1) by auto
      have w': "conv rt w = w" using rr w(1) by (rule in_rangeD)
      note cmp' = cmp0_value [OF sc(2) w' m3(4)]
      define m4 where "m4 = m3\<lparr>flags_of := Some (sub_flags (nat (sizeof rt)) (getr m3 (nat (sizeof rt)) (phys b)) 0)\<rparr>"
      define m5 where "m5 = putr 1 RAX (of_bool (w \<noteq> 0)) m4"
      have "exec_seq (take 3 (logical_end sl b rt c r)) m3 = Some (set_slot sl (of_bool (w \<noteq> 0)) m5)"
        using cmp'(2,3) exec_set_slot_al [of sl m5]
        by (simp add: logical_end_def reg_def m5_def m4_def getr_putr low_def del: exec_instr.simps(1,4))
      then have "goes P ?k (take 3 (logical_end sl b rt c r)) m3 (set_slot sl (of_bool (w \<noteq> 0)) m5)"
        using at(4) by (intro goes_seq) (auto simp: logical_end_def code_at_Cons code_at_Nil)
      then have s3: "steps P (?k, m3) (?k + 3, set_slot sl (of_bool (w \<noteq> 0)) m5)"
        by (simp add: goes_def logical_end_def)
      have s2: "steps P (?j + 3, m2) (?k, m3)" using m3(1) by (simp add: goes_def)
      have "step P (?j + 2, m2) = Some (?j + 3, m2)" using jump False by (simp add: numeral_eq_Suc)
      then have "steps P (?j + 2, m2) (?k + 3, set_slot sl (of_bool (w \<noteq> 0)) m5)"
        using steps_step steps_trans [OF s2 s3] by blast
      moreover have "keeps E sl (used g) m3 m5" "Rel E sl m5 mm'"
        using putr_keeps [where q = RAX and R = "{}" and U = "used g" and m = m4] flags_keeps [where E = E and sl = sl and m = m3] m3(2) U
          keeps_trans [of E sl "used g" m3 m4 "used g" m5]
        by (auto simp: m5_def m4_def scratch_def)
      moreover from this have "keeps E sl (used g) m2 (set_slot sl (of_bool (w \<noteq> 0)) m5)"
        "Rel E sl (set_slot sl (of_bool (w \<noteq> 0)) m5) mm'"
        using keeps_trans [OF m3(3) keeps_trans [OF _ set_slot_keeps(1)]] set_slot_keeps(2) by blast+
      ultimately show ?thesis
        using w(2) by (intro exI [of _ "set_slot sl (of_bool (w \<noteq> 0)) m5"]) auto
    qed
    then obtain m3 z where m3: "steps P (?j + 2, m2) (?k + 3, m3)" "Rel E sl m3 mm'" "keeps E sl (used g) m2 m3"
      "v = of_bool z" "mem m3 (slot_addr sl m3) = word_of_int (of_bool z)" by blast
    have lab: "step P (?k + 3, m3) = Some (Suc (?k + 3), m3)" using atl by (rule step_label)
    have "code_at P (Suc (?k + 3)) [Ext False 1 4 (Mem (- sl) RBP) (phys r)]" using atl by (simp add: code_at_Cons)
    then obtain m4 where m4: "goes P (Suc (?k + 3)) [Ext False 1 4 (Mem (- sl) RBP) (phys r)] m3 m4"
      "Rel E sl m4 mm'" "keeps E sl (used g) m3 m4" "rep t (of_bool z) (regs m4 (phys r))"
      using logical_result [OF r(1) U rU m3(2,5) t] by blast
    have "steps P (Suc (?k + 3), m3) (Suc (Suc (?k + 3)), m4)" using m4(1) by (simp add: goes_def)
    then have "steps P (i, m) (Suc (Suc (?k + 3)), m4)"
      using steps_trans [OF start steps_trans [OF m3(1) steps_step [OF lab]]] by blast
    moreover have "i + length ?code = Suc (Suc (?k + 3))" by (simp add: logical_test_def logical_end_def)
    ultimately have "steps P (i, m) (i + length ?code, m4)" by (simp only:)
    then show "\<exists>m'. goes P i ?code m m' \<and> Rel E sl m' mm' \<and> keeps E sl (used g) m m' \<and> (d \<longrightarrow> rep t v (regs m' (phys r)))"
      using m4(2,4) m3(4) keeps_trans [OF m1(3) keeps_trans [OF k2(2) keeps_trans [OF m3(3) m4(3)]]]
      by (auto simp: goes_def)
  qed
  ultimately have "yields ?f ?sem t d g r ?code ?g3" using r rU by (simp add: yields_def sl_def)
  then show "\<exists>r c g'. yields ?f ?sem t d g r c g'" by blast
qed

section \<open>A test and a conditional jump\<close>

definition test_branch :: "nat \<Rightarrow> ctype \<Rightarrow> cc \<Rightarrow> label \<Rightarrow> instr list" where
  "test_branch a t q lab = [Alu A_cmp S_none (Imm 0) (reg a (sizeof t)), Jcc q lab]"

lemma test_branch_simps [simp]: "length (test_branch a t q l) = 2" "labels (test_branch a t q l) = []"
  by (simp_all add: test_branch_def)

lemma test_branch_steps:
  assumes at: "code_at P i (test_branch a t q lab)" and L: "distinct (labels P)" "code_at P k (Label lab # e)"
    and v: "scalar t" "conv t v = v" "rep t v (regs m (phys a))" and q: "q = CC_E \<or> q = CC_NE"
  obtains m' where "steps P (i, m) (if (v = 0) = (q = CC_E) then k else i + 2, m')"
    "\<And>E sl U. keeps E sl U m m'" "\<And>E sl mm. Rel E sl m mm \<Longrightarrow> Rel E sl m' mm" "regs m' = regs m"
proof -
  let ?f = "sub_flags (nat (sizeof t)) (getr m (nat (sizeof t)) (phys a)) 0"
  let ?m = "m\<lparr>flags_of := Some ?f\<rparr>"
  note c = cmp0_value [OF v]
  have 1: "step P (i, m) = Some (Suc i, ?m)"
    using at c(3) by (intro step_instr) (simp_all add: test_branch_def reg_def del: exec_instr.simps)
  have 2: "step P (Suc i, ?m) = Some (if holds q ?f then k else Suc (Suc i), ?m)"
    using at L by (intro step_jcc) (auto simp: test_branch_def code_at_Cons)
  have "holds q ?f \<longleftrightarrow> (v = 0) = (q = CC_E)" using q c(1,2) by auto
  then have "steps P (i, m) (if (v = 0) = (q = CC_E) then k else i + 2, ?m)"
    using steps_step [OF 1 steps_step [OF 2 steps_refl]] by (simp only: add_2_eq_Suc')
  then show thesis using flags_keeps by (intro that [of ?m]) auto
qed

section \<open>The conditional operator\<close>

definition move :: "nat \<Rightarrow> nat \<Rightarrow> instr list" where
  "move a r = [Mov S_none (Reg 8 (phys a)) (Reg 8 (phys r))]"

lemma move_simps [simp]: "length (move a r) = 1" "labels (move a r) = []"
  by (simp_all add: move_def)

lemma move_goes:
  assumes "code_at P i (move a r)" "r < 8" "r \<notin> U" "U \<subseteq> {..<8}" "Rel E sl m mm"
    and "rep ta v (regs m (phys a))" "vbytes ta = vbytes t" "low (vbytes t) w = low (vbytes t) v"
  obtains m' where "goes P i (move a r) m m'" "Rel E sl m' mm" "keeps E sl U m m'" "rep t w (regs m' (phys r))"
proof -
  let ?m = "putr 8 (phys r) (getr m 8 (phys a)) m"
  have "goes P i (move a r) m ?m"
    using assms(1) unfolding move_def by (intro goes_instr) (simp_all add: rd_def wr_def)
  moreover have "Rel E sl ?m mm" "keeps E sl U m ?m"
    using putr_keeps [where q = "phys r" and R = "{r}" and U = U and m = m] assms(2-5) by auto
  moreover have "regs ?m (phys r) = regs m (phys a)" by (simp add: putr_def getr_def)
  then have "rep t w (regs ?m (phys r))" using assms(6-8) by (simp add: rep_def)
  ultimately show thesis by (rule that)
qed

definition sem_cond :: "ctype \<Rightarrow> ceval \<Rightarrow> ceval \<Rightarrow> ceval \<Rightarrow> ceval" where
  "sem_cond t c a b = cbind c (\<lambda>q. cbind (if q \<noteq> 0 then a else b) (\<lambda>v. cret (conv t v)))"

definition cond_code :: "instr list \<Rightarrow> nat \<Rightarrow> ctype \<Rightarrow> nat \<Rightarrow> instr list \<Rightarrow> nat \<Rightarrow> instr list \<Rightarrow> nat \<Rightarrow> nat \<Rightarrow> instr list" where
  "cond_code cq q ct c ca a cb b r =
     cq @ test_branch q ct CC_E (L_else c) @ ca @ move a r @ [Jmp (L_end c), Label (L_else c)] @ cb @ move b r @
     [Label (L_end c)]"

lemma cond_code_at:
  fixes i
  defines "i1 \<equiv> \<lambda>cq. i + length cq" and "i2 \<equiv> \<lambda>cq ca. i + length cq + 2 + length ca + 1"
  assumes "code_at P i (cond_code cq q ct c ca a cb b r)"
  shows "code_at P i cq" "code_at P (i1 cq) (test_branch q ct CC_E (L_else c))" "code_at P (i1 cq + 2) ca"
    "code_at P (i1 cq + 2 + length ca) (move a r)" "code_at P (i2 cq ca) [Jmp (L_end c)]"
    "code_at P (i2 cq ca + 1) [Label (L_else c)]" "code_at P (i2 cq ca + 2) cb"
    "code_at P (i2 cq ca + 2 + length cb) (move b r)" "code_at P (i2 cq ca + 3 + length cb) [Label (L_end c)]"
    "i + length (cond_code cq q ct c ca a cb b r) = i2 cq ca + 4 + length cb"
  using assms by (simp_all add: cond_code_def code_at_Cons code_at_Nil numeral_eq_Suc add.assoc)

lemma cond_computes:
  assumes C: "computes sl (insert r U) cq q ct semC True" and A: "computes sl (insert r U) ca a ta semA True"
    and B: "computes sl (insert r U) cb b tb semB True"
    and q: "in_range semC ct" "scalar ct" and U: "U \<subseteq> {..<8}" "r < 8" "r \<notin> U"
    and t: "vbytes ta = vbytes t" "vbytes tb = vbytes t" "\<And>v. low (vbytes t) (conv t v) = low (vbytes t) v"
  shows "computes sl U (cond_code cq q ct c ca a cb b r) r t (\<lambda>E. sem_cond t (semC E) (semA E) (semB E)) d"
proof (rule computesI)
  fix E P i m mm v mm'
  let ?code = "cond_code cq q ct c ca a cb b r"
  assume h: "code_at P i ?code" "distinct (labels P)" "Rel E sl m mm"
    "sem_cond t (semC E) (semA E) (semB E) mm = Some (v, mm')"
  note at = cond_code_at [OF h(1)]
  obtain u mm1 w where s: "semC E mm = Some (u, mm1)" "(if u \<noteq> 0 then semA E else semB E) mm1 = Some (w, mm')" "v = conv t w"
    using h(4) by (auto simp: sem_cond_def cbind_Some cret_def)
  obtain m1 where m1: "goes P i cq m m1" "Rel E sl m1 mm1" "keeps E sl (insert r U) m m1" "rep ct u (regs m1 (phys q))"
    using computesE [OF C at(1) h(2,3) s(1)] by blast
  have u: "conv ct u = u" using q(1) s(1) by (rule in_rangeD)
  obtain m2 where m2: "steps P (i + length cq, m1) (if (u = 0) = (CC_E = CC_E) then i + length cq + 2 + length ca + 1 + 1 else i + length cq + 2, m2)"
    "\<And>E sl U. keeps E sl U m1 m2" "\<And>E sl mm. Rel E sl m1 mm \<Longrightarrow> Rel E sl m2 mm"
    by (rule test_branch_steps [OF at(2) h(2) at(6) q(2) u m1(4), of thesis]) auto
  have k2: "keeps E sl U m m2" using keeps_trans [OF keeps_mono [OF m1(3)] m2(2)] by blast
  have R2: "Rel E sl m2 mm1" using m2(3) m1(2) by blast
  let ?stop = "i + length cq + 2 + length ca + 1 + 3 + length cb"
  have "\<exists>m3. steps P (i, m) (?stop, m3) \<and> Rel E sl m3 mm' \<and> keeps E sl U m2 m3 \<and> rep t v (regs m3 (phys r))"
  proof (cases "u = 0")
    case False
    then have "semA E mm1 = Some (w, mm')" using s(2) by simp
    then obtain m3 where m3: "goes P (i + length cq + 2) ca m2 m3" "Rel E sl m3 mm'" "keeps E sl (insert r U) m2 m3"
      "rep ta w (regs m3 (phys a))"
      using computesE [OF A at(3) h(2) R2] by blast
    obtain m4 where m4: "goes P (i + length cq + 2 + length ca) (move a r) m3 m4" "Rel E sl m4 mm'" "keeps E sl U m3 m4"
      "rep t v (regs m4 (phys r))"
      using move_goes [OF at(4) U(2,3,1) m3(2,4) t(1)] t(3) s(3) by metis
    have "step P (i + length cq + 2 + length ca + 1, m4) = Some (?stop, m4)"
      using at(5) h(2) at(9) by (rule step_jmp)
    then have "steps P (i + length cq + 2 + length ca, m3) (?stop, m4)"
      using m4(1) steps_trans [OF _ steps_step [OF _ steps_refl]] by (simp add: goes_def)
    then have "steps P (i, m) (?stop, m4)"
      using m1(1) m2(1) m3(1) False by (auto simp: goes_def intro: steps_trans)
    then show ?thesis using m4 keeps_trans [OF keeps_mono [OF m3(3)] m4(3)] by blast
  next
    case True
    then have "semB E mm1 = Some (w, mm')" using s(2) by simp
    then obtain m3 where m3: "goes P (i + length cq + 2 + length ca + 1 + 2) cb m2 m3" "Rel E sl m3 mm'" "keeps E sl (insert r U) m2 m3"
      "rep tb w (regs m3 (phys b))"
      using computesE [OF B at(7) h(2) R2] by blast
    obtain m4 where m4: "goes P (i + length cq + 2 + length ca + 1 + 2 + length cb) (move b r) m3 m4" "Rel E sl m4 mm'" "keeps E sl U m3 m4"
      "rep t v (regs m4 (phys r))"
      using move_goes [OF at(8) U(2,3,1) m3(2,4) t(2)] t(3) s(3) by metis
    have "step P (i + length cq + 2 + length ca + 1 + 1, m2) = Some (Suc (i + length cq + 2 + length ca + 1 + 1), m2)"
      using at(6) by (rule step_label)
    then have "steps P (i, m) (i + length cq + 2 + length ca + 1 + 2, m2)"
      using m1(1) m2(1) True steps_trans [OF _ steps_step [OF _ steps_refl]] by (auto simp: goes_def intro: steps_trans)
    then have "steps P (i, m) (?stop, m4)"
      using m3(1) m4(1) by (auto simp: goes_def numeral_eq_Suc intro: steps_trans)
    then show ?thesis using m4 keeps_trans [OF keeps_mono [OF m3(3)] m4(3)] by blast
  qed
  then obtain m3 where m3: "steps P (i, m) (?stop, m3)" "Rel E sl m3 mm'" "keeps E sl U m2 m3" "rep t v (regs m3 (phys r))"
    by blast
  have "steps P (i, m) (i + length ?code, m3)"
    using steps_trans [OF m3(1) steps_step [OF step_label [OF at(9)] steps_refl]] by (simp add: at(10) add.assoc)
  then show "\<exists>m'. goes P i ?code m m' \<and> Rel E sl m' mm' \<and> keeps E sl U m m' \<and> (d \<longrightarrow> rep t v (regs m' (phys r)))"
    using m3 keeps_trans [OF k2 m3(3)] unfolding goes_def by blast
qed


lemma implements_cond:
  assumes C: "implements fq semC ct kc True" and A: "implements fa semA ta ka True" and B: "implements fb semB tb kb True"
    and n: "ncond n = Some x" "ndty x = Some ct" and q: "in_range semC ct" "scalar ct"
    and t: "vbytes ta = vbytes t" "vbytes tb = vbytes t" "\<And>v. low (vbytes t) (conv t v) = low (vbytes t) v"
  shows "implements (gen_cond n fq fa fb) (\<lambda>E. sem_cond t (semC E) (semA E) (semB E)) t (1 + max kc (max ka kb)) d"
    (is "implements ?f ?sem t ?k d")
proof (rule implementsI)
  fix g assume g: "ready g" "?k \<le> free_count (used g)" and U: "used g \<subseteq> {..<8}"
  let ?g0 = "g\<lparr>label_count := label_count g + 1\<rparr>"
  define c where "c = label_count g + 1"
  have "0 < free_count (used ?g0)" using g by simp
  then obtain r where r: "r < 8" "r \<notin> used ?g0"
    "alloc_reg ?g0 = Some (r, [], ?g0\<lparr>used := insert r (used ?g0), ever_used := insert r (ever_used ?g0)\<rparr>)"
    by (rule alloc_free)
  let ?gr = "?g0\<lparr>used := insert r (used ?g0), ever_used := insert r (ever_used ?g0)\<rparr>"
  have rU: "r \<notin> used g" using r(2) by simp
  define V where "V = insert r (used g)"
  have V: "V \<subseteq> {..<8}" using r(1) U by (auto simp: V_def)
  have er: "gext V ?g0 ?gr" using alloc_gext [of ?g0 r] g(1) r(1,2) by (simp add: ready_def V_def)
  have fV: "max kc (max ka kb) \<le> free_count V"
    using g(2) free_count_insert [OF r(1) rU] by (simp add: V_def)
  obtain q cq g1 where y1: "yields fq semC ct True ?gr q cq g1"
    by (rule implementsE [OF C gext_ready [OF er V]]) (use fV gext_used [OF er] in simp)
  note y1 = yieldsD [OF y1]
  let ?g1 = "g1\<lparr>used := used g1 - {q}\<rparr>"
  have e1: "gext V ?gr ?g1" using gext_free [of q V] y1(3,4) by (simp add: V_def)
  obtain a ca g2 where y2: "yields fa semA ta True ?g1 a ca g2"
    by (rule implementsE [OF A gext_ready [OF e1 V]]) (use fV gext_used [OF e1] in simp)
  note y2 = yieldsD [OF y2]
  let ?g2 = "g2\<lparr>used := used g2 - {a}\<rparr>"
  have e2: "gext V ?g1 ?g2" using gext_free [of a V] y2(3,4) gext_used [OF e1] by simp
  obtain b cb g3 where y3: "yields fb semB tb True ?g2 b cb g3"
    by (rule implementsE [OF B gext_ready [OF e2 V]]) (use fV gext_used [OF e2] in simp)
  note y3 = yieldsD [OF y3]
  let ?g3 = "g3\<lparr>used := used g3 - {b}\<rparr>"
  have e3: "gext V ?g2 ?g3" using gext_free [of b V] y3(3,4) gext_used [OF e2] by simp
  let ?code = "cond_code cq q ct c ca a cb b r"
  have "?f g = Some (Some r, ?code, ?g3)"
    using y1(1) y2(1) y3(1) r(3) n free_reg_plain [OF gext_spilled [OF y1(4)]] free_reg_plain [OF gext_spilled [OF y2(4)]]
      free_reg_plain [OF gext_spilled [OF y3(4)]]
    by (simp add: gen_cond_def gen_defs new_label_def cond_code_def test_branch_def move_def c_def)
  moreover have "gext V g ?g3" using er e1 e2 e3 by (auto simp: gext_def V_def)
  moreover have "labels_between (label_count g) (label_count ?g3) ?code"
  proof -
    have lc: "label_count ?g0 \<le> label_count g1" "label_count g1 \<le> label_count g2" "label_count g2 \<le> label_count g3"
      using y1(4) y2(4) y3(4) by (simp_all add: gext_def)
    have lb: "labels_between (label_count ?g0) (label_count g3) (cq @ ca @ cb)"
      using labels_between_append [OF y1(5) labels_between_append [OF _ _ _ lc(3)], of ca cb] y2(5) y3(5) lc by simp
    have new: "l \<notin> set (labels (cq @ ca @ cb))" if "label_num l = Some c" for l
    proof
      assume "l \<in> set (labels (cq @ ca @ cb))"
      then obtain k where "label_num l = Some k" "label_count ?g0 < k" using lb unfolding labels_between_def by blast
      then show False using that by (simp add: c_def)
    qed
    have "labels ?code = labels cq @ labels ca @ [L_else c] @ labels cb @ [L_end c]" by (simp add: cond_code_def)
    then show ?thesis
      using lb lc new [of "L_else c"] new [of "L_end c"] unfolding labels_between_def
      by (auto simp: label_num_def c_def dest!: bspec intro: less_trans)
  qed
  moreover have "computes (spill_logand g) (used g) ?code r t ?sem d"
  proof (rule cond_computes [OF _ _ _ q U r(1) rU t])
    show "computes (spill_logand g) (insert r (used g)) cq q ct semC True" using y1(6) by simp
    show "computes (spill_logand g) (insert r (used g)) ca a ta semA True"
      using y2(6) gext_slot [OF e1] gext_used [OF e1] by (simp add: V_def)
    show "computes (spill_logand g) (insert r (used g)) cb b tb semB True"
      using y3(6) gext_slot [OF e1] gext_slot [OF e2] gext_used [OF e2] by (simp add: V_def)
  qed
  ultimately have "yields ?f ?sem t d g r ?code ?g3" using r rU by (simp add: yields_def V_def)
  then show "\<exists>r c g'. yields ?f ?sem t d g r c g'" by blast
qed

end
