(* ===== verification/GenUnary.thy ===== *)
theory GenUnary
  imports GenMem GenControl
begin

text \<open>
  Correctness of the code for the unary operators and for casts.
\<close>

section \<open>Unary operators\<close>

lemma int_scalar_scalar: "int_scalar t \<Longrightarrow> scalar t"
  by (simp add: int_scalar_def scalar_def)

lemma low_vbytes_zero:
  assumes "scalar t" "conv t v = v"
  shows "low (vbytes t) v = 0 \<longleftrightarrow> v = 0"
proof
  assume "low (vbytes t) v = 0"
  then have "low (nat (sizeof t)) (low (vbytes t) v) = 0" by simp
  then have "low (nat (sizeof t)) v = 0" using scalar_facts(11) [OF assms(1)] by simp
  then show "v = 0" using zero_test [OF assms] by simp
qed simp

lemma unary_result:
  assumes t: "scalar t" "4 \<le> sizeof t" and w: "low (vbytes t) w = low (vbytes t) v"
  shows "rep t (conv t v) (regs (putr (vbytes t) q w m) q)"
  using rep_putr [OF t(1), of w q m] conv_low_wide [OF t] w by (simp add: rep_def)

lemma implements_neg:
  assumes f: "implements f semA lt k True" and n: "ndty n = Some t" "scalar t" "4 \<le> sizeof t" "vbytes t = vbytes lt"
  shows "implements (gen_neg n f) (\<lambda>E. cbind (semA E) (\<lambda>v. cret (conv t (- v)))) t k b"
  unfolding gen_neg_def
proof (rule implements_unary [OF f, where tail = "\<lambda>r. [INeg (vbytes t) (phys r)]"])
  fix r :: nat and E sl m mm u v mm'
  assume h: "r < 8" "Rel E sl m mm" "rep lt u (regs m (phys r))" "cret (conv t (- u)) mm = Some (v, mm')"
  have g: "getr m (vbytes t) (phys r) = low (vbytes t) u" using rep_getr [OF h(3)] n(4) by simp
  define m' where "m' = putr (vbytes t) (phys r) (- getr m (vbytes t) (phys r))
    (m\<lparr>flags_of := Some (sub_flags (vbytes t) 0 (getr m (vbytes t) (phys r)))\<rparr>)"
  have "exec_seq [INeg (vbytes t) (phys r)] m = Some m'" by (simp add: m'_def)
  moreover have "only_regs {r} m m'"
    unfolding m'_def by (rule only_regs_trans [OF only_regs_flags only_regs_putr]) simp
  moreover have "rep t v (regs m' (phys r))"
    using h(4) unfolding m'_def g cret_def by (auto intro!: unary_result n(2,3) simp: low_minus)
  ultimately show "mm' = mm \<and> (\<exists>m'. exec_seq [INeg (vbytes t) (phys r)] m = Some m' \<and> only_regs {r} m m' \<and> rep t v (regs m' (phys r)))"
    using h(4) by (auto simp: cret_def)
qed (use n scalar_facts(1,8) [OF n(2)] in \<open>simp_all add: gen_defs\<close>)

lemma implements_bitnot:
  assumes f: "implements f semA lt k True" and n: "ndty n = Some t" "scalar t" "4 \<le> sizeof t" "vbytes t = vbytes lt"
  shows "implements (gen_bitnot n f) (\<lambda>E. cbind (semA E) (\<lambda>v. cret (conv t (NOT v)))) t k b"
  unfolding gen_bitnot_def
proof (rule implements_unary [OF f, where tail = "\<lambda>r. [INot (vbytes t) (phys r)]"])
  fix r :: nat and E sl m mm u v mm'
  assume h: "r < 8" "Rel E sl m mm" "rep lt u (regs m (phys r))" "cret (conv t (NOT u)) mm = Some (v, mm')"
  have g: "getr m (vbytes t) (phys r) = low (vbytes t) u" using rep_getr [OF h(3)] n(4) by simp
  let ?m = "putr (vbytes t) (phys r) (NOT (getr m (vbytes t) (phys r))) m"
  have "rep t v (regs ?m (phys r))"
    using h(4) unfolding g cret_def by (auto intro!: unary_result n(2,3) simp: low_not)
  then show "mm' = mm \<and> (\<exists>m'. exec_seq [INot (vbytes t) (phys r)] m = Some m' \<and> only_regs {r} m m' \<and> rep t v (regs m' (phys r)))"
    using h(4) only_regs_putr by (auto simp: cret_def)
qed (use n scalar_facts(1,8) [OF n(2)] in \<open>simp_all add: gen_defs\<close>)

definition not_code :: "ctype \<Rightarrow> nat \<Rightarrow> instr list" where
  "not_code lt r = [Alu A_cmp S_none (Imm 0) (Reg (vbytes lt) (phys r)), Setcc CC_E RAX, Ext False 1 4 (Reg 1 RAX) (phys r)]"

text \<open>A condition as 0 or 1 in a register.\<close>

lemma exec_setcc:
  fixes q :: cc
  assumes "flags_of m = Some f" "r < 8"
  defines "m' \<equiv> putr 4 (phys r) (of_bool (holds q f)) (putr 1 RAX (of_bool (holds q f)) m)"
  shows "exec_seq [Setcc q RAX, Ext False 1 4 (Reg 1 RAX) (phys r)] m = Some m'" "only_regs {r} m m'"
    "vbytes t = 4 \<Longrightarrow> rep t (of_bool (holds q f)) (regs m' (phys r))"
proof -
  have "getr (putr 1 RAX (of_bool (holds q f)) m) 1 RAX = of_bool (holds q f)"
    by (simp add: getr_putr low_def)
  then show "exec_seq [Setcc q RAX, Ext False 1 4 (Reg 1 RAX) (phys r)] m = Some m'"
    using assms(1) by (simp add: rd_def m'_def)
  show "only_regs {r} m m'"
    unfolding m'_def by (rule only_regs_trans [OF only_regs_putr only_regs_putr]) (simp_all add: scratch_def)
  show "vbytes t = 4 \<Longrightarrow> rep t (of_bool (holds q f)) (regs m' (phys r))"
    by (intro repI [where n = 4]) (simp_all add: m'_def getr_putr)
qed

lemma implements_not:
  assumes f: "implements f semA lt k True" "in_range semA lt" and n: "lhs n = Some l" "ndty l = Some lt" "scalar lt" "vbytes t = 4"
  shows "implements (gen_not n f) (\<lambda>E. cbind (semA E) (\<lambda>v. cret (of_bool (v = 0)))) t k b"
  unfolding gen_not_def
proof (rule implements_unary [OF f(1), where tail = "not_code lt"])
  fix r :: nat and E sl m mm u v mm'
  assume h: "r < 8" "Rel E sl m mm" "rep lt u (regs m (phys r))" "\<exists>E mm0. semA E mm0 = Some (u, mm)"
    "cret (of_bool (u = 0)) mm = Some (v, mm')"
  define fl where "fl = sub_flags (vbytes lt) (getr m (vbytes lt) (phys r)) 0"
  define m1 where "m1 = m\<lparr>flags_of := Some fl\<rparr>"
  have n4: "0 < vbytes lt" "vbytes lt \<in> {1, 2, 4, 8}" using scalar_facts(10) [OF n(3)] by auto
  have "getr m (vbytes lt) (phys r) = low (vbytes lt) u" using rep_getr [OF h(3)] by simp
  moreover have "conv lt u = u" using f(2) h(4) in_rangeD by blast
  ultimately have z: "holds CC_E fl \<longleftrightarrow> u = 0"
    using cmp_conditions(1) [OF n4(1)] low_vbytes_zero [OF n(3)] by (simp add: fl_def)
  have e: "exec_instr (Alu A_cmp S_none (Imm 0) (Reg (vbytes lt) (phys r))) m = Some m1"
    unfolding m1_def fl_def by (rule exec_cmp0 [OF n4])
  have fl: "flags_of m1 = Some fl" by (simp add: m1_def)
  note s = exec_setcc [OF fl h(1), where q = CC_E]
  show "mm' = mm \<and> (\<exists>m'. exec_seq (not_code lt r) m = Some m' \<and> only_regs {r} m m' \<and> rep t v (regs m' (phys r)))"
    using s(1,3) only_regs_trans [OF only_regs_flags s(2) [unfolded m1_def]] e z n(4) h(5)
    by (auto simp: not_code_def cret_def m1_def simp del: exec_instr.simps)
qed (use n scalar_facts(1,8) [OF n(3)] in \<open>simp_all add: gen_defs not_code_def reg_def\<close>)


section \<open>Casts\<close>

definition zero_or_one :: "(cenv \<Rightarrow> ceval) \<Rightarrow> bool" where
  "zero_or_one sem \<longleftrightarrow> (\<forall>E m v m'. sem E m = Some (v, m') \<longrightarrow> v = 0 \<or> v = 1)"

definition cast_code :: "ctype \<Rightarrow> ctype \<Rightarrow> nat \<Rightarrow> instr list" where
  "cast_code fr to r =
     (if sizeof to = 1 then [Ext (\<not> unsigned_ty to) 1 4 (Reg 1 (phys r)) (phys r)]
      else if sizeof to = 2 then [Ext (\<not> unsigned_ty to) 2 4 (Reg 2 (phys r)) (phys r)]
      else if sizeof to = 4 \<and> sizeof fr = 8 then [Mov S_none (Reg 4 (phys r)) (Reg 4 (phys r))]
      else if sizeof to = 8 \<and> sizeof fr < 8 \<and> \<not> is_copied fr then
        (if unsigned_ty fr then
           (if sizeof fr = 4 then [Mov S_none (Reg 4 (phys r)) (Reg 4 (phys r))]
            else [Ext False (nat (sizeof fr)) 4 (Reg (nat (sizeof fr)) (phys r)) (phys r)])
         else [Ext True (nat (sizeof fr)) 8 (Reg (nat (sizeof fr)) (phys r)) (phys r)])
      else [])"

lemma labels_cast_code [simp]: "labels (cast_code fr to r) = []"
  by (simp add: cast_code_def)

text \<open>A value of a type is what its bytes say.\<close>

lemma conv_value:
  assumes "scalar t" "conv t u = u"
  shows "u = (if is_integer t \<and> unsigned_ty t then low (nat (sizeof t)) u else slow (nat (sizeof t)) u)"
proof -
  have "conv t u = (if is_integer t \<and> unsigned_ty t then low (nat (sizeof t)) u else slow (nat (sizeof t)) u)"
    using assms(1) by (auto simp: conv_def scalar_def)
  then show ?thesis using assms(2) by simp
qed

lemma exec_ext:
  assumes "n \<in> {1, 2, 4}" "k \<in> {4, 8}"
  shows "exec_seq [Ext sg n k (Reg n q) q] m = Some (putr k q (if sg then slow n (getr m n q) else getr m n q) m)"
  using assms by (auto simp: rd_def)

lemma exec_cast:
  assumes fr: "scalar fr \<and> conv fr u = u \<or> is_array fr" and to: "scalar to" and r: "rep fr u (regs m (phys r))"
  shows "\<exists>m'. exec_seq (cast_code fr to r) m = Some m' \<and> only_regs {r} m m' \<and> rep to (conv to u) (regs m' (phys r))"
proof -
  note wide = conv_low_wide [OF to]
  have g: "getr m k (phys r) = low k u" if "k \<le> 4" for k
  proof -
    have "k \<le> vbytes fr" using that fr scalar_facts(10) [of fr] array_facts(1) [of fr] by auto
    then show ?thesis using r by (rule rep_getr [rotated])
  qed
  have narrow: "sizeof to < 4 \<Longrightarrow> conv to u = (if unsigned_ty to then low (nat (sizeof to)) u else slow (nat (sizeof to)) u)"
    using scalar_facts(13) [OF to] by (simp add: conv_def)
  have wide4: "4 \<le> vbytes fr" using fr scalar_facts(10) [of fr] array_facts(1) [of fr] by auto
  have wide8: "vbytes fr = 8" if "\<not> (sizeof fr < 8 \<and> \<not> is_copied fr)"
    using fr
  proof (elim disjE conjE)
    assume "scalar fr"
    then have "sizeof fr = 8" using that scalar_facts(6,9) [of fr] by auto
    then show ?thesis using scalar_facts(12) [OF \<open>scalar fr\<close>] by simp
  qed (rule array_facts(1))
  have "sizeof to = 1 \<or> sizeof to = 2 \<or> sizeof to = 4 \<or> sizeof to = 8" using scalar_facts(9) [OF to] by simp
  then consider "sizeof to = 1 \<or> sizeof to = 2" | "sizeof to = 4" "sizeof fr = 8" | "sizeof to = 8" "sizeof fr < 8" "\<not> is_copied fr"
    | "sizeof to = 4" "sizeof fr \<noteq> 8" | "sizeof to = 8" "\<not> (sizeof fr < 8 \<and> \<not> is_copied fr)"
    by argo
  then consider "sizeof to = 1 \<or> sizeof to = 2" | "sizeof to = 4" "sizeof fr = 8" | "sizeof to = 8" "sizeof fr < 8" "\<not> is_copied fr"
    | "cast_code fr to r = []" "4 \<le> sizeof to" "vbytes to \<le> vbytes fr"
  proof cases
    case 4
    then show ?thesis using that(4) wide4 scalar_facts(12) [OF to] by (simp add: cast_code_def)
  next
    case 5
    then show ?thesis using that(4) wide8 scalar_facts(12) [OF to] by (simp add: cast_code_def)
  qed (use that in blast)+
  then show ?thesis
  proof cases
    case 1
    define n where "n = nat (sizeof to)"
    have n: "n \<in> {1, 2, 4}" "n \<le> 4" "0 < n" and v: "vbytes to = 4" using 1 scalar_facts(13) [OF to] by (auto simp: n_def)
    let ?m = "putr 4 (phys r) (if \<not> unsigned_ty to then slow n (getr m n (phys r)) else getr m n (phys r)) m"
    have "cast_code fr to r = [Ext (\<not> unsigned_ty to) n 4 (Reg n (phys r)) (phys r)]"
      using 1 by (auto simp: cast_code_def n_def)
    then have "exec_seq (cast_code fr to r) m = Some ?m" using exec_ext [OF n(1), of 4] by simp
    moreover have "(if \<not> unsigned_ty to then slow n (getr m n (phys r)) else getr m n (phys r)) = conv to u"
      using narrow 1 g [OF n(2)] n(3) by (auto simp: n_def)
    then have "rep to (conv to u) (regs ?m (phys r))" using rep_putr [OF to] v by metis
    ultimately show ?thesis using only_regs_putr by auto
  next
    case 2
    let ?m = "putr 4 (phys r) (getr m 4 (phys r)) m"
    have v: "vbytes to = 4" using 2 scalar_facts(12) [OF to] by simp
    have "exec_seq (cast_code fr to r) m = Some ?m" using 2 by (simp add: cast_code_def rd_def wr_def)
    moreover have "rep to (conv to u) (regs ?m (phys r))"
      using unary_result [OF to, of "getr m 4 (phys r)" u] g [of 4] v 2 by simp
    ultimately show ?thesis using only_regs_putr by auto
  next
    case 3
    then have f: "scalar fr" "conv fr u = u" using fr by (auto simp: is_copied_def is_array_def)
    define n where "n = nat (sizeof fr)"
    have i: "is_integer fr" "n \<in> {1, 2, 4}" "n \<le> 4" "0 < n" using f(1) 3 by (auto simp: scalar_def n_def)
    have u: "u = (if unsigned_ty fr then low n u else slow n u)" using conv_value [OF f] i(1) unfolding n_def by argo
    have v: "vbytes to = 8" using 3 scalar_facts(12) [OF to] by simp
    show ?thesis
    proof (cases "unsigned_ty fr")
      case True
      let ?m = "putr 4 (phys r) (getr m n (phys r)) m"
      have "exec_seq (cast_code fr to r) m = Some ?m"
        using 3 True i(2) exec_ext [OF i(2), of 4 False] by (auto simp: cast_code_def n_def rd_def wr_def)
      moreover have "getr m n (phys r) = u" using g [OF i(3)] u True by simp
      moreover have lu: "low n u = u" using u True by argo
      have "low k (low n u) = low n u" if "n \<le> k" for k using that by simp
      then have "low 8 u = low 4 u" using i(3) unfolding lu by simp
      then have "rep to (conv to u) (regs (putr 4 (phys r) u m) (phys r))"
        using wide 3 v by (simp add: rep_def putr_def)
      ultimately show ?thesis using only_regs_putr by auto
    next
      case False
      let ?m = "putr 8 (phys r) (slow n (getr m n (phys r))) m"
      have "cast_code fr to r = [Ext True n 8 (Reg n (phys r)) (phys r)]"
        using 3 False i(2) by (auto simp: cast_code_def n_def)
      then have "exec_seq (cast_code fr to r) m = Some ?m" using exec_ext [OF i(2), of 8 True] by simp
      moreover have "slow n (getr m n (phys r)) = u" using g [OF i(3)] u False i(4) by simp
      moreover have "rep to (conv to u) (regs (putr 8 (phys r) u m) (phys r))"
        using unary_result [OF to _ refl, of u "phys r" m] 3 v by simp
      ultimately show ?thesis using only_regs_putr by auto
    qed
  next
    case 4
    then have "rep to (conv to u) (regs m (phys r))"
      using rep_low [OF r 4(3)] wide by (simp add: rep_def)
    then show ?thesis using 4(1) by simp
  qed
qed

lemma sign_extend_code:
  assumes "from_size = 1 \<or> from_size = 2 \<or> from_size = 4"
  shows "sign_extend_to r from_size 8 = emit [Ext True (nat from_size) 8 (Reg (nat from_size) (phys r)) (phys r)]"
  using assms by (auto simp: sign_extend_to_def)

lemma zero_extend_code:
  assumes "from_size = 1 \<or> from_size = 2 \<or> from_size = 4"
  shows "zero_extend_to r from_size 8 = emit (if from_size = 4 then [Mov S_none (Reg 4 (phys r)) (Reg 4 (phys r))]
    else [Ext False (nat from_size) 4 (Reg (nat from_size) (phys r)) (phys r)])"
  using assms by (auto simp: zero_extend_to_def)

lemma cconv_conv:
  assumes "scalar t" "is_bool t \<longrightarrow> v = 0 \<or> v = 1"
  shows "cconv t v = conv t v"
proof (cases "is_bool t")
  case True
  have n: "sizeof t \<in> {1, 2, 4, 8}" using scalar_facts(9) [OF assms(1)] .
  have one: "low n 1 = 1 \<and> slow n 1 = 1" if "n \<in> {1, 2, 4, 8}" for n
    using that by (auto simp: low_def slow_def)
  have "nat (sizeof t) \<in> {1, 2, 4, 8}" using n by auto
  then have "conv t 1 = 1" using one [of 8] by (simp only: conv_def one if_cancel simp_thms insert_iff)
  moreover have "conv t 0 = 0" by (simp add: conv_def slow_def)
  ultimately show ?thesis using assms(2) True by (auto simp: cconv_def)
qed (simp add: cconv_def)

lemma implements_cast:
  assumes f: "implements f semA fr k True" and fr: "scalar fr \<and> in_range semA fr \<or> is_array fr"
    and n: "lhs n = Some l" "ndty l = Some fr" "ndty n = Some to" "scalar to"
    and b: "is_bool to \<Longrightarrow> zero_or_one semA"
  shows "implements (gen_cast n f) (\<lambda>E. cbind (semA E) (\<lambda>v. cret (cconv to v))) to k d"
  unfolding gen_cast_def
proof (rule implements_unary [OF f, where tail = "cast_code fr to"])
  fix r :: nat and E sl m mm u v mm'
  assume h: "r < 8" "Rel E sl m mm" "rep fr u (regs m (phys r))" "\<exists>E mm0. semA E mm0 = Some (u, mm)"
    "cret (cconv to u) mm = Some (v, mm')"
  have "is_bool to \<longrightarrow> u = 0 \<or> u = 1" using b h(4) by (auto simp: zero_or_one_def)
  then have v: "v = conv to u" "mm' = mm" using h(5) cconv_conv [OF n(4)] by (simp_all add: cret_def)
  have "scalar fr \<and> conv fr u = u \<or> is_array fr" using fr h(4) in_rangeD by blast
  then show "mm' = mm \<and> (\<exists>m'. exec_seq (cast_code fr to r) m = Some m' \<and> only_regs {r} m m' \<and> rep to v (regs m' (phys r)))"
    using exec_cast [OF _ n(4) h(3)] v by simp
next
  fix r :: nat and g assume "r < 8"
  have fl: "\<not> is_flonum fr" using fr scalar_facts(1) array_facts(2) by blast
  have sz: "sizeof fr = 1 \<or> sizeof fr = 2 \<or> sizeof fr = 4" if "sizeof fr < 8" "\<not> is_copied fr"
    using that fr scalar_facts(9) [of fr] by (auto simp: is_copied_def is_array_def)
  show "with_child (lhs n) (\<lambda>l. with_type (ndty l) (\<lambda>fr. with_type (ndty n) (\<lambda>to.
       if is_flonum fr \<or> is_flonum to then gfail
       else if sizeof to = 1 then emits [Ext (\<not> unsigned_ty to) 1 4 (Reg 1 (phys r)) (phys r)] r
       else if sizeof to = 2 then emits [Ext (\<not> unsigned_ty to) 2 4 (Reg 2 (phys r)) (phys r)] r
       else if sizeof to = 4 \<and> sizeof fr = 8 then emits [Mov S_none (Reg 4 (phys r)) (Reg 4 (phys r))] r
       else if sizeof to = 8 \<and> sizeof fr < 8 \<and> \<not> is_copied fr then
         gseq (if unsigned_ty fr then zero_extend_to r (sizeof fr) 8 else sign_extend_to r (sizeof fr) 8)
           (gret (Some r))
       else gret (Some r)))) g = Some (Some r, cast_code fr to r, g)"
  proof (cases "sizeof to = 8")
    case False
    then show ?thesis using n(1-3) fl scalar_facts(1) [OF n(4)] by (simp add: cast_code_def gen_defs)
  next
    case t8: True
    show ?thesis
    proof (cases "is_copied fr")
      case True
      then show ?thesis using n(1-3) fl scalar_facts(1) [OF n(4)] t8 by (simp add: cast_code_def gen_defs)
    next
      case agg: False
      show ?thesis
      proof (cases "sizeof fr < 8")
        case True
        note s = sz [OF True agg]
        show ?thesis
          using n(1-3) fl scalar_facts(1) [OF n(4)] t8 agg True
          by (simp add: cast_code_def gen_defs sign_extend_code [OF s] zero_extend_code [OF s])
      next
        case False
        then show ?thesis using n(1-3) fl scalar_facts(1) [OF n(4)] t8 by (simp add: cast_code_def gen_defs)
      qed
    qed
  qed
qed simp

end
