(* ===== verification/GenAssign.thy ===== *)
theory GenAssign
  imports GenUnary
begin

text \<open>
  Correctness of the code that writes to memory: assignment to a local variable and through an
  address, post-increment and post-decrement.
\<close>

section \<open>Writing to memory\<close>

lemma can_access_area: "can_access E p n \<Longrightarrow> x \<in> area p n \<Longrightarrow> visible E x"
  by (auto simp: can_access_def area_def list_all_iff)

definition write_mem :: "nat \<Rightarrow> 64 word \<Rightarrow> int \<Rightarrow> mach \<Rightarrow> mach" where
  "write_mem n p v m = m\<lparr>mem := store (mem m) n p v\<rparr>"

lemma write_mem_regs [simp]: "regs (write_mem n p v m) = regs m" "getr (write_mem n p v m) k q = getr m k q"
  by (simp_all add: write_mem_def getr_def)

lemma write_mem_ok:
  assumes "Rel E sl m mm" "can_access E p n" "low n v = low n w"
  shows "Rel E sl (write_mem n p v m) (store mm n p w)" "keeps E sl U m (write_mem n p v m)"
proof -
  have "store (mem m) n p v = store (mem m) n p w"
    using store_low [of "mem m" n p v] store_low [of "mem m" n p w] assms(3) by simp
  moreover have "\<forall>x \<in> {x. visible E x}. store (mem m) n p w x = store mm n p w x"
    using assms(1) by (intro store_agree) (simp add: Rel_def)
  ultimately show "Rel E sl (write_mem n p v m) (store mm n p w)"
    using assms(1) by (auto simp: Rel_def write_mem_def slot_addr_def)
  have "mem (write_mem n p v m) a = mem m a" if "\<not> visible E a" for a
    using can_access_area [OF assms(2), of a] that store_other [of a p n "mem m" v] by (auto simp: write_mem_def)
  then show "keeps E sl U m (write_mem n p v m)" by (simp add: keeps_def write_mem_def)
qed

lemma exec_store:
  assumes "addr m (Mem d q) = Some p" "n \<in> {1, 2, 4, 8}"
  shows "exec_instr (Mov S_none (Reg n s) (Mem d q)) m = Some (write_mem n p (getr m n s) m)"
  using assms by (auto simp: rd_def wr_def write_mem_def)

section \<open>Assignment\<close>

text \<open>What the register of the right operand stands for after the store.\<close>

definition assigned_exact :: "ctype \<Rightarrow> ctype \<Rightarrow> (cenv \<Rightarrow> ceval) \<Rightarrow> bool" where
  "assigned_exact lt rt semR \<longleftrightarrow>
     4 \<le> sizeof lt \<or> (int_scalar rt \<and> in_range semR rt \<and> sizeof rt = sizeof lt \<and> unsigned_ty rt = unsigned_ty lt)"

lemma assigned_rep:
  assumes "assigned_exact lt rt semR" "scalar lt" "nat (sizeof lt) \<le> vbytes rt" "rep rt u w" "semR E m = Some (u, m')"
  shows "rep lt (conv lt u) w"
proof (cases "4 \<le> sizeof lt")
  case True
  then have "vbytes lt \<le> vbytes rt" using assms(2,3) scalar_facts(12) by auto
  then have "low (vbytes lt) (uint w) = low (vbytes lt) u" using assms(4) by (rule rep_low [rotated])
  then show ?thesis using conv_low_wide [OF assms(2) True] by (simp add: rep_def)
next
  case False
  then have r: "int_scalar rt" "conv rt u = u" "sizeof rt = sizeof lt" "unsigned_ty rt = unsigned_ty lt"
    using assms(1,5) in_rangeD by (auto simp: assigned_exact_def)
  have "is_integer lt" "vbytes lt = 4" using scalar_facts(13) [OF assms(2)] False by auto
  moreover have "vbytes rt = 4" using scalar_facts(13) [OF int_scalar_scalar [OF r(1)]] r(3) False by simp
  moreover have "conv lt u = conv rt u" using r(1,3,4) calculation(1) by (simp add: conv_def int_scalar_def)
  ultimately show ?thesis using assms(4) r(2) by (simp add: rep_def)
qed

lemma narrow_unsigned:
  assumes "scalar lt" "unsigned_ty lt" "sizeof lt < 4" "4 \<le> vbytes rt" "rep rt u (regs m (phys r))"
  defines "k \<equiv> 2 ^ nat (sizeof lt * 8) - 1"
  defines "m' \<equiv> putr 4 (phys r) (getr m 4 (phys r) AND k) (m\<lparr>flags_of := Some (logic_flags 4 (getr m 4 (phys r) AND k))\<rparr>)"
  shows "exec_instr (Alu A_and S_none (Imm k) (reg r 4)) m = Some m'"
    "only_regs {r} m m'" "rep lt (conv lt u) (regs m' (phys r))"
proof -
  have s: "sizeof lt = 1 \<or> sizeof lt = 2" "is_integer lt" "vbytes lt = 4"
    using scalar_facts(9,13) [OF assms(1)] assms(3) by auto
  then have k: "k = mask (8 * nat (sizeof lt))" "low 4 k = k" "imm_fits 4 k"
    by (auto simp: k_def mask_eq_exp_minus_1 low_def take_bit_int_eq_self imm_fits_def)
  show "exec_instr (Alu A_and S_none (Imm k) (reg r 4)) m = Some m'"
    using k(2,3) by (simp add: exec_alu_def reg_def reg_bytes_def rd_def wr_def m'_def)
  show "only_regs {r} m m'"
    unfolding m'_def by (rule only_regs_trans [OF only_regs_flags only_regs_putr]) simp
  have "getr m 4 (phys r) = low 4 u" using rep_getr [OF assms(5,4)] .
  then have "getr m 4 (phys r) AND k = low (nat (sizeof lt)) (low 4 u)"
    unfolding k(1) by (simp add: low_def flip: take_bit_eq_mask)
  also have "\<dots> = conv lt u" using s assms(2) by (auto simp: conv_def)
  finally show "rep lt (conv lt u) (regs m' (phys r))"
    using rep_putr [OF assms(1)] s(3) unfolding m'_def by metis
qed

lemma implements_assign_local:
  assumes f: "implements f semR rt k True" and v: "vis_local v" and lt: "scalar lt" "nat (sizeof lt) \<le> vbytes rt" "4 \<le> vbytes rt"
    and bl: "is_bool lt \<Longrightarrow> zero_or_one semR" and b: "b \<Longrightarrow> assigned_exact lt rt semR \<or> unsigned_ty lt"
  shows "implements (assign_local v lt f) (\<lambda>E. sem_assign E lt (cret (slow 8 (uint (vaddr E v)))) (semR E)) lt k b"
proof -
  let ?mask = "\<lambda>r. if unsigned_ty lt \<and> sizeof lt < 4 then [Alu A_and S_none (Imm (2 ^ nat (sizeof lt * 8) - 1)) (reg r 4)] else []"
  let ?tail = "\<lambda>r. Mov S_none (reg r (sizeof lt)) (Mem (- voffset v) RBP) # ?mask r"
  let ?n = "nat (sizeof lt)"
  have "(\<lambda>E. sem_assign E lt (cret (slow 8 (uint (vaddr E v)))) (semR E)) =
      (\<lambda>E. cbind (semR E) (\<lambda>x. sem_store E lt (slow 8 (uint (vaddr E v))) (cconv lt x) (cconv lt x)))"
    by (simp add: sem_assign_def cbind_def cret_def fun_eq_iff)
  moreover have "implements (assign_local v lt f)
      (\<lambda>E. cbind (semR E) (\<lambda>x. sem_store E lt (slow 8 (uint (vaddr E v))) (cconv lt x) (cconv lt x))) lt k b"
    unfolding assign_local_def
  proof (rule implements_unary_gen [OF f, where tail = ?tail])
    fix r :: nat and U E sl m mm u w mm'
    assume h: "r < 8" "U \<subseteq> {..<8}" "r \<notin> U" "Rel E sl m mm" "True \<Longrightarrow> rep rt u (regs m (phys r))"
      "\<exists>E mm0. semR E mm0 = Some (u, mm)" "sem_store E lt (slow 8 (uint (vaddr E v))) (cconv lt u) (cconv lt u) mm = Some (w, mm')"
    have "is_bool lt \<longrightarrow> u = 0 \<or> u = 1" using bl h(6) by (auto simp: zero_or_one_def)
    then have c: "cconv lt u = conv lt u" by (rule cconv_conv [OF lt(1)])
    then have s: "can_access E (vaddr E v) ?n" "mm' = store mm ?n (vaddr E v) (conv lt u)" "w = conv lt u"
      using h(7) by (auto simp: sem_store_def cstore_def split: if_splits)
    have r: "rep rt u (regs m (phys r))" using h(5) by simp
    have a: "addr m (Mem (- voffset v) RBP) = Some (vaddr E v)" using h(4) v by (simp add: Rel_def)
    let ?m1 = "write_mem ?n (vaddr E v) (getr m ?n (phys r)) m"
    have e: "exec_instr (Mov S_none (reg r (sizeof lt)) (Mem (- voffset v) RBP)) m = Some ?m1"
      using exec_store [OF a, of ?n "phys r"] scalar_facts(9,15) [OF lt(1)] by (auto simp: reg_def)
    have "low ?n (getr m ?n (phys r)) = low ?n (conv lt u)"
      using rep_getr [OF r lt(2)] conv_low [OF lt(1)] by simp
    note st = write_mem_ok [OF h(4) s(1) this]
    have r1: "rep rt u (regs ?m1 (phys r))" using r by simp
    show "\<exists>m'. exec_seq (?tail r) m = Some m' \<and> Rel E sl m' mm' \<and> keeps E sl U m m' \<and> (b \<longrightarrow> rep lt w (regs m' (phys r)))"
    proof (cases "unsigned_ty lt \<and> sizeof lt < 4")
      case True
      note an = narrow_unsigned [OF lt(1) conjunct1 [OF True] conjunct2 [OF True] lt(3) r1]
      note k = only_regs_keeps [OF an(2) _ h(2), of E sl, simplified]
      show ?thesis
        using e an(1,3) k h(1,3) st s(2,3) True keeps_trans [OF st(2)] by (auto simp del: exec_instr.simps)
    next
      case False
      have "b \<Longrightarrow> assigned_exact lt rt semR" using b False by (auto simp: assigned_exact_def)
      then have "b \<longrightarrow> rep lt w (regs m (phys r))" using assigned_rep [OF _ lt(1,2) r] h(6) s(3) by blast
      then show ?thesis using e st False s(2) by (auto simp del: exec_instr.simps)
    qed
  qed (simp_all add: gen_defs)
  ultimately show ?thesis by simp
qed

lemma implements_assign_mem:
  assumes a: "implements f semA pt ka True" "vbytes pt = 8" and f: "implements f' semR rt k True"
    and lt: "scalar lt" "nat (sizeof lt) \<le> vbytes rt" and bl: "is_bool lt \<Longrightarrow> zero_or_one semR"
    and b: "b \<Longrightarrow> assigned_exact lt rt semR"
  shows "implements (with_reg f (\<lambda>r1. with_reg f' (\<lambda>r2.
      gseq (emit [Mov S_none (reg r2 (sizeof lt)) (Mem 0 (phys r1))]) (gseq (free_reg r1) (gret (Some r2))))))
    (\<lambda>E. sem_assign E lt (semA E) (semR E)) lt (max ka (1 + k)) b"
  unfolding sem_assign_def
proof (rule implements_binary_gen [OF a(1) f, where keep_first = False and
    tail = "\<lambda>r1 r2. [Mov S_none (reg r2 (sizeof lt)) (Mem 0 (phys r1))]"])
  fix r1 r2 U E sl m mm p u w mm'
  let ?n = "nat (sizeof lt)"
  assume h: "r1 < 8" "r2 < 8" "r1 \<noteq> r2" "U \<subseteq> {..<8}" "r1 \<notin> U" "r2 \<notin> U" "Rel E sl m mm"
    "True \<Longrightarrow> rep pt p (regs m (phys r1))" "True \<Longrightarrow> rep rt u (regs m (phys r2))"
    "\<exists>E mm0 mm1. semA E mm0 = Some (p, mm1)" "\<exists>E mm0. semR E mm0 = Some (u, mm)"
    "sem_store E lt p (cconv lt u) (cconv lt u) mm = Some (w, mm')"
  have "is_bool lt \<longrightarrow> u = 0 \<or> u = 1" using bl h(11) by (auto simp: zero_or_one_def)
  then have c: "cconv lt u = conv lt u" by (rule cconv_conv [OF lt(1)])
  then have s: "can_access E (word_of_int p) ?n" "mm' = store mm ?n (word_of_int p) (conv lt u)" "w = conv lt u"
    using h(12) by (auto simp: sem_store_def cstore_def split: if_splits)
  have r: "rep rt u (regs m (phys r2))" using h(9) by simp
  have a: "addr m (Mem 0 (phys r1)) = Some (word_of_int p)" using rep_word [OF h(8) a(2)] by simp
  have e: "exec_instr (Mov S_none (reg r2 (sizeof lt)) (Mem 0 (phys r1))) m =
      Some (write_mem ?n (word_of_int p) (getr m ?n (phys r2)) m)"
    using exec_store [OF a, of ?n "phys r2"] scalar_facts(9,15) [OF lt(1)] by (auto simp: reg_def)
  have "low ?n (getr m ?n (phys r2)) = low ?n (conv lt u)"
    using rep_getr [OF r lt(2)] conv_low [OF lt(1)] by simp
  note st = write_mem_ok [OF h(7) s(1) this]
  have "b \<longrightarrow> rep lt w (regs m (phys r2))" using assigned_rep [OF b lt(1,2) r] h(11) s(3) by blast
  then show "\<exists>m'. exec_seq [Mov S_none (reg r2 (sizeof lt)) (Mem 0 (phys r1))] m = Some m' \<and> Rel E sl m' mm' \<and>
      keeps E sl U m m' \<and> (b \<longrightarrow> rep lt w (regs m' (phys (if False then r1 else r2))))"
    using e st s(2) by (auto simp del: exec_instr.simps)
qed (simp_all add: gen_defs free_reg_plain)


section \<open>Increment and decrement\<close>

text \<open>A fresh register as a second operand, with no value in it yet.\<close>

lemma with_reg_alloc: "with_reg (gbind alloc_reg (\<lambda>r. gret (Some r))) K = gbind alloc_reg K"
  by (auto simp: gen_defs fun_eq_iff split: option.splits)

lemma gbind_gret: "gbind (gret x) K = K x"
  by (auto simp: gen_defs fun_eq_iff split: option.splits)

lemma cbind_cret: "cbind (cret x) h = h x"
  by (simp add: cbind_def cret_def fun_eq_iff)

lemma implements_alloc: "implements (gbind alloc_reg (\<lambda>r. gret (Some r))) (\<lambda>E. cret 0) t 1 False"
proof (rule implementsI)
  fix g assume g: "ready g" "1 \<le> free_count (used g)"
  then have "0 < free_count (used g)" by simp
  then obtain r where r: "r < 8" "r \<notin> used g"
    "alloc_reg g = Some (r, [], g\<lparr>used := insert r (used g), ever_used := insert r (ever_used g)\<rparr>)"
    by (rule alloc_free)
  have "computes (spill_logand g) (used g) [] r t (\<lambda>E. cret 0) False"
    unfolding computes_def cret_def using goes_Nil keeps_refl by blast
  then have "yields (gbind alloc_reg (\<lambda>r. gret (Some r))) (\<lambda>E. cret 0) t False g r []
      (g\<lparr>used := insert r (used g), ever_used := insert r (ever_used g)\<rparr>)"
    using r alloc_gext [OF g(1) r(1,2)] labels_between_Nil [of "[]"] by (simp add: yields_def gen_defs)
  then show "\<exists>r c g'. yields (gbind alloc_reg (\<lambda>r. gret (Some r))) (\<lambda>E. cret 0) t False g r c g'" by blast
qed

definition post_code :: "node_kind \<Rightarrow> ctype \<Rightarrow> int \<Rightarrow> nat \<Rightarrow> nat \<Rightarrow> instr list" where
  "post_code k lt d r r2 =
     [Mov S_none (Mem 0 (phys r)) (reg r2 (sizeof lt)),
      Alu (if k = ND_POST_INC then A_add else A_sub) (size_suffix (sizeof lt)) (Imm d) (Mem 0 (phys r))]"

lemma op_bytes_suffix: "sz \<in> {1, 2, 4, 8} \<Longrightarrow> op_bytes (size_suffix sz) a b = nat sz"
  by (auto simp: size_suffix_def)

lemma step_fits:
  assumes "scalar lt" "step_width lt = Some d" "in32 d"
  shows "imm_fits (nat (sizeof lt)) d"
proof (cases "tkind lt = TY_PTR")
  case True
  then have "sizeof lt = 8" using assms(1) by (auto simp: scalar_def is_integer_def)
  then show ?thesis using assms(3) by (simp add: imm_fits_def in32_def)
next
  case False
  then have "d = 1" using assms(1,2) scalar_facts(7) by (auto simp: step_width_def)
  then show ?thesis using scalar_facts(9) [OF assms(1)] by (auto simp: imm_fits_def)
qed

lemma exec_post:
  assumes lt: "scalar lt" "imm_fits (nat (sizeof lt)) d" and r: "r < 8" "r2 < 8" "r \<noteq> r2" and a: "regs m (phys r) = p"
  defines "n \<equiv> nat (sizeof lt)"
  defines "old \<equiv> load (mem m) n p"
  obtains m1 w where "exec_seq (post_code k lt d r r2) m = Some (write_mem n p w m1)" "only_regs {r2} m m1"
    "low n w = low n (if k = ND_POST_INC then old + d else old - d)" "getr m1 n (phys r2) = old"
proof -
  have n: "n \<in> {1, 2, 4, 8}" "op_bytes (size_suffix (sizeof lt)) (Imm d) (Mem 0 (phys r)) = n" "reg_bytes (sizeof lt) = n"
    using scalar_facts(9,15) [OF lt(1)] op_bytes_suffix by (auto simp: n_def)
  let ?m1 = "putr n (phys r2) old m"
  define f where "f = (if k = ND_POST_INC then add_flags n old (low n d) else sub_flags n old (low n d))"
  define w where "w = (if k = ND_POST_INC then old + low n d else old - low n d)"
  define m2 where "m2 = ?m1\<lparr>flags_of := Some f\<rparr>"
  have "exec_instr (Mov S_none (Mem 0 (phys r)) (reg r2 (sizeof lt))) m = Some ?m1"
    using n(1,3) a by (auto simp: reg_def rd_def wr_def old_def)
  moreover have "exec_instr (Alu (if k = ND_POST_INC then A_add else A_sub) (size_suffix (sizeof lt)) (Imm d) (Mem 0 (phys r))) ?m1 =
      Some (write_mem n p w m2)"
    using lt(2) n(2) r a by (auto simp: exec_alu_def rd_def wr_def write_mem_def old_def [symmetric] w_def f_def m2_def n_def [symmetric])
  ultimately have "exec_seq (post_code k lt d r r2) m = Some (write_mem n p w m2)"
    by (simp add: post_code_def del: exec_instr.simps)
  moreover have "only_regs {r2} m m2"
    unfolding m2_def by (rule only_regs_trans [OF only_regs_putr only_regs_flags]) simp
  moreover have "low n w = low n (if k = ND_POST_INC then old + d else old - d)"
    using low_add [of n old d] low_diff [of n old d] by (auto simp: w_def old_def)
  moreover have "getr m2 n (phys r2) = old"
    using getr_putr [OF order_refl n(1), of "phys r2" old m] by (simp add: m2_def old_def)
  ultimately show thesis by (rule that)
qed

definition post_value :: "node_kind \<Rightarrow> int \<Rightarrow> int \<Rightarrow> int" where
  "post_value k v d = (if k = ND_POST_INC then v + d else v - d)"

lemma implements_post:
  assumes f: "implements f semA pt ka True" "vbytes pt = 8" and n: "lhs n = Some l" "ndty l = Some lt" "\<not> is_field l"
    and lt: "scalar lt" "step_width lt = Some d" "in32 d" and b: "b \<Longrightarrow> 4 \<le> sizeof lt" and k: "ndkind n = k"
  shows "implements (gen_post n f) (\<lambda>E. sem_post E k lt (semA E)) lt (max ka 2) b"
proof -
  let ?n = "nat (sizeof lt)"
  let ?K = "\<lambda>r r2. gseq (emit (post_code k lt d r r2)) (gseq (free_reg r) (gret (Some r2)))"
  let ?h = "\<lambda>E p (_ :: int). cbind (sem_load E lt p) (\<lambda>v. sem_store E lt p (conv lt (post_value k v d)) v)"
  have "gen_post n f = with_reg f (\<lambda>r. with_reg (gbind alloc_reg (\<lambda>r. gret (Some r))) (?K r))"
    unfolding with_reg_alloc
    using n k lt scalar_facts(1) [OF lt(1)]
    by (simp add: gen_post_def post_code_def with_child_def with_type_def lift_opt_def gbind_gret)
  moreover have "(\<lambda>E. sem_post E k lt (semA E)) = (\<lambda>E. cbind (semA E) (\<lambda>p. cbind (cret 0) (?h E p)))"
    using lt(2) by (simp add: sem_post_def post_value_def cbind_cret)
  moreover have "implements (with_reg f (\<lambda>r. with_reg (gbind alloc_reg (\<lambda>r. gret (Some r))) (?K r)))
      (\<lambda>E. cbind (semA E) (\<lambda>p. cbind (cret 0) (?h E p))) lt (max ka (1 + 1)) b"
  proof (rule implements_binary_gen [OF f(1) implements_alloc, where keep_first = False and tail = "post_code k lt d"])
    fix r r2 U E sl m mm p u v mm'
    assume h: "r < 8" "r2 < 8" "r \<noteq> r2" "U \<subseteq> {..<8}" "r \<notin> U" "r2 \<notin> U" "Rel E sl m mm"
      "True \<Longrightarrow> rep pt p (regs m (phys r))" "?h E p u mm = Some (v, mm')"
    let ?p = "word_of_int p :: 64 word"
    define old where "old = load mm ?n ?p"
    have s: "can_access E ?p ?n" "v = conv lt old" "mm' = store mm ?n ?p (conv lt (post_value k v d))"
      using h(9) by (auto simp: cbind_Some sem_load_def cload_def sem_store_def cstore_def old_def split: if_splits)
    have old: "load (mem m) ?n ?p = old" using Rel_load [OF h(7) s(1)] by (simp add: old_def)
    have "regs m (phys r) = ?p" using rep_word [OF h(8) f(2)] by simp
    then obtain m1 w where m1: "exec_seq (post_code k lt d r r2) m = Some (write_mem ?n ?p w m1)" "only_regs {r2} m m1"
      "low ?n w = low ?n (post_value k old d)" "getr m1 ?n (phys r2) = old"
      using exec_post [OF lt(1) step_fits [OF lt] h(1-3), of m ?p] unfolding post_value_def old by metis
    note kk = only_regs_keeps [OF m1(2) _ h(4), of E sl, simplified]
    have "low ?n (post_value k old d) = low ?n (post_value k v d)"
      using low_add [of ?n old d] low_add [of ?n v d] low_diff [of ?n old d] low_diff [of ?n v d] conv_low [OF lt(1)]
      by (simp add: post_value_def s(2))
    then have "low ?n w = low ?n (conv lt (post_value k v d))" using m1(3) conv_low [OF lt(1)] by simp
    note st = write_mem_ok [OF kk(2) [OF h(2,6,7)] s(1) this]
    have "b \<longrightarrow> rep lt v (regs m1 (phys r2))"
      using b m1(4) conv_low_wide [OF lt(1)] scalar_facts(12) [OF lt(1)] s(2)
      by (auto simp: rep_def getr_def)
    then show "\<exists>m'. exec_seq (post_code k lt d r r2) m = Some m' \<and> Rel E sl m' mm' \<and>
        keeps E sl U m m' \<and> (b \<longrightarrow> rep lt v (regs m' (phys (if False then r else r2))))"
      using m1(1) st s(3) keeps_trans [OF kk(1) [OF h(2,6)] st(2)] by auto
  qed (simp_all add: gen_defs free_reg_plain post_code_def)
  ultimately show ?thesis by (simp add: numeral_2_eq_2)
qed

end
