(* ===== verification/GenArith.thy ===== *)
theory GenArith
  imports GenAssign
begin

text \<open>
  Correctness of the code for the binary operators: arithmetic with a register or a literal, pointer
  differences, comparisons, shifts and divisions.
\<close>

section \<open>The shape of the code\<close>

lemma gseq_with_reg: "gseq (with_reg f K) X = with_reg f (\<lambda>b. gseq (K b) X)"
  by (auto simp: gen_defs fun_eq_iff split: option.splits)

lemma gseq_assoc: "gseq (gseq a b) c = gseq a (gseq b c)"
  by (auto simp: gen_defs fun_eq_iff split: option.splits)

definition operand_size :: "node_kind \<Rightarrow> ctype \<Rightarrow> ctype \<Rightarrow> ctype \<Rightarrow> int" where
  "operand_size k t lt rt = max (op_size (if is_comparison k then lt else t)) (op_size rt)"

definition compare_tail :: "node_kind \<Rightarrow> ctype \<Rightarrow> ctype \<Rightarrow> ctype \<Rightarrow> nat \<Rightarrow> instr list" where
  "compare_tail k t lt rt r =
     (if is_comparison k then
        [Setcc (compare_cc k (use_unsigned_cmp lt rt)) RAX, Ext False 1 (reg_bytes (op_size t)) (Reg 1 RAX) (phys r)]
      else [])"

lemma labels_arith [simp]:
  "labels (arith_imm k v d) = []" "labels (arith_regs k sz lt rt a b) = []" "labels (compare_tail k t lt rt r) = []"
  by (auto simp: arith_imm_def arith_regs_def scale_down_def compare_tail_def Let_def split: option.splits)

lemma gen_arith_imm:
  assumes "lhs n = Some l" "rhs n = Some x" "ndty n = Some t" "ndty l = Some lt" "ndty x = Some rt"
    and "field_operand_width (Some l) = 0" "field_operand_width (Some x) = 0"
    and "ndkind x = ND_NUM" "in32 (ndval x)"
  shows "gen_arith n r f g = Some (Some r, arith_imm (ndkind n) (ndval x) (reg r (operand_size (ndkind n) t lt rt)) @
    compare_tail (ndkind n) t lt rt r, g)"
  using assms
  by (simp add: gen_arith_def compare_tail_def operand_size_def with_child_def with_type_def Let_def) (simp add: gen_defs)

lemma gen_arith_reg:
  assumes "lhs n = Some l" "rhs n = Some x" "ndty n = Some t" "ndty l = Some lt" "ndty x = Some rt"
    and "field_operand_width (Some l) = 0" "field_operand_width (Some x) = 0"
    and "\<not> (ndkind x = ND_NUM \<and> in32 (ndval x))"
  shows "gen_arith n r f = with_reg f (\<lambda>b. gseq (gseq (emit (arith_regs (ndkind n) (operand_size (ndkind n) t lt rt) lt rt r b)) (free_reg b))
    (emits (compare_tail (ndkind n) t lt rt r) r))"
  using assms
  by (auto simp add: gen_arith_def compare_tail_def operand_size_def with_child_def with_type_def Let_def gseq_with_reg)

section \<open>Arithmetic\<close>

definition arith_kind :: "node_kind \<Rightarrow> bool" where
  "arith_kind k \<longleftrightarrow> k \<in> {ND_ADD, ND_SUB, ND_MUL, ND_BITAND, ND_BITXOR, ND_BITOR}"

lemma arith_low:
  assumes "low n a = low n a'" "low n b = low n b'"
  shows "low n (arith_value k a b) = low n (arith_value k a' b')"
  using assms low_add [of n a b] low_add [of n a' b'] low_diff [of n a b] low_diff [of n a' b']
    low_mult [of n a b] low_mult [of n a' b']
  by (cases k) (simp_all add: arith_value_def low_and low_or low_xor)

text \<open>One instruction of the processor on a register; the second operand is a register or a number.\<close>

lemma exec_arith:
  assumes k: "arith_kind k" and s: "rd n src m = Some s" "case src of Imm v \<Rightarrow> imm_fits n v | _ \<Rightarrow> True"
    and n: "op_bytes S_none src (Reg n q) = n"
  obtains f where "exec_instr (Alu (arith_inst k) S_none src (Reg n q)) m =
    Some (putr n q (arith_value k (getr m n q) s) (m\<lparr>flags_of := f\<rparr>))"
proof -
  have "\<exists>f. alu_result (arith_inst k) n s (getr m n q) = (Some (arith_value k (getr m n q) s), f)"
    using k by (auto simp: arith_kind_def arith_value_def)
  then obtain f where "alu_result (arith_inst k) n s (getr m n q) = (Some (arith_value k (getr m n q) s), f)" ..
  moreover have "rd n (Reg n q) m = Some (getr m n q)" by (simp add: rd_def)
  ultimately have "exec_instr (Alu (arith_inst k) S_none src (Reg n q)) m =
      Some (putr n q (arith_value k (getr m n q) s) (m\<lparr>flags_of := f\<rparr>))"
    unfolding exec_instr.simps n exec_alu_def using s by (simp add: wr_def)
  then show thesis by (rule that)
qed

lemma only_regs_putr_flags: "only_regs {r} m (putr n (phys r) w (m\<lparr>flags_of := f\<rparr>))"
  by (rule only_regs_trans [OF only_regs_flags only_regs_putr]) simp

lemma exec_arith_regs:
  assumes k: "arith_kind k" and r: "a < 8" "b < 8" "a \<noteq> b" and t: "scalar t" "4 \<le> sizeof t"
    and u: "rep lt u (regs m (phys a))" "vbytes lt = vbytes t" and w: "rep rt w (regs m (phys b))" "vbytes rt = vbytes t"
    and rt: "scalar rt" and p: "\<not> pointer_difference k lt rt"
  shows "\<exists>m'. exec_seq (arith_regs k (operand_size k t lt rt) lt rt a b) m = Some m' \<and> only_regs {a, b} m m' \<and>
    rep t (conv t (arith_value k u w)) (regs m' (phys a))"
proof -
  let ?n = "vbytes t"
  have n: "?n \<in> {1, 2, 4, 8}" "?n = 4 \<or> ?n = 8" using scalar_facts(10) [OF t(1)] by auto
  have "\<not> is_comparison k" using k by (auto simp: arith_kind_def is_comparison_def)
  then have sz: "operand_size k t lt rt = int ?n" "op_size rt = int ?n"
    using scalar_facts(16) [OF t(1)] scalar_facts(16) [OF rt] w(2) by (simp_all add: operand_size_def)
  have rb: "reg_bytes (int ?n) = ?n" using n(2) by (auto simp: reg_bytes_def)
  have "(case (tbase lt, tbase rt) of (Some b, Some _) \<Rightarrow> if k = ND_SUB then scale_down (sizeof b) (int ?n) a else [] | _ \<Rightarrow> []) = []"
    using p by (auto simp: pointer_difference_def split: option.splits)
  moreover have "\<not> (int ?n = 8 \<and> int ?n = 4)" by simp
  ultimately have code: "arith_regs k (operand_size k t lt rt) lt rt a b =
      [Alu (arith_inst k) S_none (Reg ?n (phys b)) (Reg ?n (phys a))]"
    unfolding arith_regs_def sz by (simp add: reg_def rb)
  have g: "getr m ?n (phys a) = low ?n u" "getr m ?n (phys b) = low ?n w"
    using rep_getr [OF u(1)] rep_getr [OF w(1)] u(2) w(2) by simp_all
  obtain f where e: "exec_instr (Alu (arith_inst k) S_none (Reg ?n (phys b)) (Reg ?n (phys a))) m =
      Some (putr ?n (phys a) (arith_value k (getr m ?n (phys a)) (getr m ?n (phys b))) (m\<lparr>flags_of := f\<rparr>))"
    by (rule exec_arith [OF k, of ?n "Reg ?n (phys b)" m "getr m ?n (phys b)" "phys a"]) (simp_all add: rd_def)
  have "low ?n (arith_value k (getr m ?n (phys a)) (getr m ?n (phys b))) = low ?n (arith_value k u w)"
    unfolding g by (rule arith_low) simp_all
  then have "rep t (conv t (arith_value k u w)) (regs (putr ?n (phys a) (arith_value k (getr m ?n (phys a)) (getr m ?n (phys b)))
      (m\<lparr>flags_of := f\<rparr>)) (phys a))" by (rule unary_result [OF t])
  moreover have "only_regs {a, b} m (putr ?n (phys a) z (m\<lparr>flags_of := f\<rparr>))" for z
    by (rule only_regs_trans [OF only_regs_flags only_regs_putr]) simp
  ultimately show ?thesis using e unfolding code by (simp del: exec_instr.simps)
qed

lemma power_of_two_log:
  assumes "0 < v" "power_of_two v"
  shows "v = 2 ^ log2_loop (nat v)"
proof -
  have "0 < n \<Longrightarrow> power_of_two (int n) \<Longrightarrow> int n = 2 ^ log2_loop n" for n
  proof (induction n rule: log2_loop.induct)
    case (1 n)
    show ?case
    proof (cases "n > 1")
      case False
      then show ?thesis using 1(2) by (simp add: log2_loop.simps)
    next
      case True
      have "even n"
      proof (rule ccontr)
        assume "odd n"
        then obtain m where n: "n = 2 * m + 1" by (metis oddE)
        have "int n AND (int n - 1) = 2 * (int m AND int m)"
        proof -
          have "(1 + 2 * int m) AND (2 * int m) = 2 * (int m AND int m)"
            by (subst and_rec [of "1 + 2 * int m"]) simp
          then show ?thesis by (simp add: n)
        qed
        then show False using 1(3) True n by (simp add: power_of_two_def)
      qed
      then obtain m where n: "n = 2 * m" by (metis evenE)
      have m: "0 < m" using True n by simp
      have "int n AND (int n - 1) = 2 * (int m AND (int m - 1))"
      proof -
        have "(int n - 1) div 2 = int m - 1" "int n div 2 = int m" "\<not> odd (int n)" using n by simp_all
        then show ?thesis by (subst and_rec [of "int n"]) simp
      qed
      then have "power_of_two (int m)" using 1(3) by (simp add: power_of_two_def)
      moreover have "n div 2 = m" using n by simp
      ultimately have "int m = 2 ^ log2_loop m" using 1(1) [OF True] m by simp
      then show ?thesis using True n \<open>n div 2 = m\<close> by (subst log2_loop.simps) simp
    qed
  qed
  from this [of "nat v"] assms show ?thesis by simp
qed


lemma log2_bound: "0 < v \<Longrightarrow> power_of_two v \<Longrightarrow> v < 2 ^ 31 \<Longrightarrow> log2_loop (nat v) < 31"
  using power_of_two_log [of v] power_strict_increasing_iff [of "2 :: int" "log2_loop (nat v)" 31] by simp

lemma exec_shift_imm:
  assumes "oper \<in> {A_shl, A_shr, A_sar}" "n = 4 \<or> n = 8" "k < 8 * n"
  shows "exec_instr (Alu oper S_none (Imm (int k)) (Reg n q)) m =
    Some (putr n q (case oper of A_shl \<Rightarrow> push_bit k (getr m n q) | A_shr \<Rightarrow> drop_bit k (getr m n q)
      | _ \<Rightarrow> drop_bit k (slow n (getr m n q))) (m\<lparr>flags_of := None\<rparr>))"
proof -
  have "low n (int k) = int k" "imm_fits n (int k)"
    using assms(2,3) by (auto simp: low_def take_bit_int_eq_self imm_fits_def)
  moreover have "shift_count n (int k) = k" using assms(2,3) by (auto simp: shift_count_def)
  ultimately show ?thesis
    using assms(1,2) by (auto simp: exec_alu_def rd_def wr_def shift_result_def)
qed

lemma exec_arith_imm:
  assumes k: "arith_kind k" and t: "scalar t" "4 \<le> sizeof t" and u: "rep lt u (regs m (phys a))" "vbytes lt = vbytes t"
    and rt: "scalar rt" "vbytes rt = vbytes t" and v: "in32 v"
  shows "\<exists>m'. exec_seq (arith_imm k v (reg a (operand_size k t lt rt))) m = Some m' \<and> only_regs {a} m m' \<and>
    rep t (conv t (arith_value k u v)) (regs m' (phys a))"
proof -
  let ?n = "vbytes t"
  have n: "?n \<in> {1, 2, 4, 8}" "?n = 4 \<or> ?n = 8" using scalar_facts(10) [OF t(1)] by auto
  have "\<not> is_comparison k" using k by (auto simp: arith_kind_def is_comparison_def)
  then have sz: "operand_size k t lt rt = int ?n"
    using scalar_facts(16) [OF t(1)] scalar_facts(16) [OF rt(1)] rt(2) by (simp add: operand_size_def)
  have rg: "reg a (operand_size k t lt rt) = Reg ?n (phys a)" using n(2) by (auto simp: reg_def reg_bytes_def sz)
  have g: "getr m ?n (phys a) = low ?n u" using rep_getr [OF u(1)] u(2) by simp
  consider (skip) "(k = ND_MUL \<and> v = 1) \<or> (k \<in> {ND_ADD, ND_SUB, ND_BITOR, ND_BITXOR} \<and> v = 0)"
    | (shl) "k = ND_MUL" "v \<noteq> 1" "0 < v" "power_of_two v"
    | (arith) "arith_imm k v (Reg ?n (phys a)) = [Alu (arith_inst k) S_none (Imm v) (Reg ?n (phys a))]"
    unfolding arith_imm_def by argo
  then show ?thesis
  proof cases
    case skip
    then have "arith_value k u v = u" by (auto simp: arith_value_def)
    moreover have "rep t (conv t u) (regs m (phys a))" using u conv_low_wide [OF t] by (simp add: rep_def)
    moreover have "arith_imm k v (reg a (operand_size k t lt rt)) = []" using skip by (auto simp: arith_imm_def)
    ultimately show ?thesis by simp
  next
    case shl
    let ?s = "log2_loop (nat v)"
    have s: "?s < 31" using log2_bound shl v by (simp add: in32_def)
    have code: "arith_imm k v (reg a (operand_size k t lt rt)) = [Alu A_shl S_none (Imm (int ?s)) (Reg ?n (phys a))]"
      unfolding rg using shl by (simp add: arith_imm_def)
    have "low ?n (push_bit ?s (low ?n u)) = low ?n (u * v)"
      using low_mult [of ?n "low ?n u" "2 ^ ?s"] low_mult [of ?n u "2 ^ ?s"] power_of_two_log [OF shl(3,4)]
      by (simp add: push_bit_eq_mult)
    then have "rep t (conv t (arith_value k u v)) (regs (putr ?n (phys a) (push_bit ?s (low ?n u)) (m\<lparr>flags_of := None\<rparr>)) (phys a))"
      using shl(1) by (intro unary_result [OF t]) (simp add: arith_value_def)
    then show ?thesis
      using exec_shift_imm [of A_shl ?n ?s "phys a" m] n(2) s only_regs_putr_flags g unfolding code
      by (auto simp del: exec_instr.simps)
  next
    case arith
    have fit: "imm_fits ?n v" using v n(2) by (auto simp: imm_fits_def in32_def)
    obtain f where e: "exec_instr (Alu (arith_inst k) S_none (Imm v) (Reg ?n (phys a))) m =
        Some (putr ?n (phys a) (arith_value k (getr m ?n (phys a)) (low ?n v)) (m\<lparr>flags_of := f\<rparr>))"
      by (rule exec_arith [OF k, of ?n "Imm v" m "low ?n v" "phys a"]) (simp_all add: rd_def fit)
    have "low ?n (arith_value k (getr m ?n (phys a)) (low ?n v)) = low ?n (arith_value k u v)"
      unfolding g by (rule arith_low) simp_all
    then have "rep t (conv t (arith_value k u v)) (regs (putr ?n (phys a) (arith_value k (getr m ?n (phys a)) (low ?n v))
        (m\<lparr>flags_of := f\<rparr>)) (phys a))" by (rule unary_result [OF t])
    then show ?thesis using e only_regs_putr_flags unfolding rg arith by (auto simp del: exec_instr.simps)
  qed
qed

section \<open>Pointer difference\<close>

lemma exec_pointer_difference:
  assumes r: "a < 8" "b < 8" "a \<noteq> b" and t: "scalar t" "4 \<le> sizeof t"
    and p: "scalar lt" "\<not> is_integer lt" "scalar rt" "\<not> is_integer rt" "pointer_difference ND_SUB lt rt"
    and u: "rep lt u (regs m (phys a))" and w: "rep rt w (regs m (phys b))"
    and e: "power_of_two (elem_size lt)" "elem_size lt < 2 ^ 31" "elem_size lt dvd u - w" "in64 (u - w)"
  shows "\<exists>m'. exec_seq (arith_regs ND_SUB (operand_size ND_SUB t lt rt) lt rt a b) m = Some m' \<and> only_regs {a, b} m m' \<and>
    rep t (conv t ((u - w) div elem_size lt)) (regs m' (phys a))"
proof -
  obtain c d where c: "tbase lt = Some c" "tbase rt = Some d" using p(5) by (auto simp: pointer_difference_def)
  have v: "vbytes lt = 8" "vbytes rt = 8" "vbytes t \<le> 8" "op_size rt = 8" "op_size t \<le> 8"
    using p scalar_facts(16) [OF p(3)] scalar_facts(10,16) [OF t(1)] by (auto simp: vbytes_def)
  have sz: "operand_size ND_SUB t lt rt = 8" using v by (simp add: operand_size_def is_comparison_def)
  have g: "getr m 8 (phys a) = low 8 u" "getr m 8 (phys b) = low 8 w"
    using rep_getr [OF u] rep_getr [OF w] v by simp_all
  define m1 where "m1 = putr 8 (phys a) (low 8 u - low 8 w) (m\<lparr>flags_of := Some (sub_flags 8 (low 8 u) (low 8 w))\<rparr>)"
  have sub: "exec_instr (Alu A_sub S_none (Reg 8 (phys b)) (Reg 8 (phys a))) m = Some m1"
    by (simp add: exec_alu_def rd_def wr_def g m1_def)
  have o1: "only_regs {a, b} m m1"
    unfolding m1_def by (rule only_regs_trans [OF only_regs_flags only_regs_putr]) simp
  have g1: "getr m1 8 (phys a) = low 8 (u - w)" by (simp add: m1_def getr_putr low_diff)
  have code: "arith_regs ND_SUB 8 lt rt a b = Alu A_sub S_none (Reg 8 (phys b)) (Reg 8 (phys a)) # scale_down (sizeof c) 8 a"
    using v c by (simp add: arith_regs_def reg_def reg_bytes_def)
  have s8: "slow 8 (u - w) = u - w" using e(4) by (intro slow_id) (simp_all add: in64_def)
  have fin: "rep t (conv t q) z" if "uint z = low 8 q" for q z
    using that v(3) conv_low_wide [OF t] by (simp add: rep_def min_absorb1)
  show ?thesis
  proof (cases "sizeof c > 1")
    case False
    then have "elem_size lt = 1" using c by (simp add: elem_size_def)
    moreover have "uint (regs m1 (phys a)) = low 8 (u - w)" using g1 by (simp add: getr_def)
    ultimately show ?thesis using sub o1 False fin unfolding sz code by (simp add: scale_down_def del: exec_instr.simps)
  next
    case True
    let ?e = "sizeof c"
    let ?s = "log2_loop (nat ?e)"
    have el: "elem_size lt = ?e" using True c by (simp add: elem_size_def)
    have s: "?s < 31" using log2_bound [of ?e] True e(1,2) el by simp
    let ?m2 = "putr 8 (phys a) (drop_bit ?s (slow 8 (getr m1 8 (phys a)))) (m1\<lparr>flags_of := None\<rparr>)"
    have "exec_instr (Alu A_sar S_none (Imm (int ?s)) (Reg 8 (phys a))) m1 = Some ?m2"
      using exec_shift_imm [of A_sar 8 ?s "phys a" m1] s by simp
    moreover have "scale_down ?e 8 a = [Alu A_sar S_none (Imm (int ?s)) (Reg 8 (phys a))]"
      using True e(1) el by (simp add: scale_down_def reg_def reg_bytes_def)
    moreover have "drop_bit ?s (slow 8 (getr m1 8 (phys a))) = (u - w) div ?e"
      using g1 s8 power_of_two_log [of ?e] True e(1) el by (simp add: drop_bit_eq_div)
    then have "uint (regs ?m2 (phys a)) = low 8 ((u - w) div ?e)" by (simp add: putr_def)
    moreover have "only_regs {a, b} m ?m2"
      by (rule only_regs_trans [OF o1 only_regs_trans [OF only_regs_flags only_regs_putr]]) simp
    ultimately show ?thesis using sub fin el unfolding sz code by (auto simp del: exec_instr.simps)
  qed
qed

section \<open>Comparisons\<close>

lemma c_promote_scalar:
  assumes "int_scalar t"
  obtains r where "c_promote (c_arith_of t) = C_int r (8 * vbytes t) (unsigned_ty (promote_int t))"
proof -
  note obt = that
  have i: "is_integer t" "tkind t \<noteq> TY_FLOAT" "tkind t \<noteq> TY_DOUBLE" "tkind t \<noteq> TY_LDOUBLE"
    using assms by (auto simp: int_scalar_def is_integer_def)
  consider "sizeof t = 1" | "sizeof t = 2" | "sizeof t = 4" | "sizeof t = 8" using assms by (auto simp: int_scalar_def)
  then have "c_promote (c_arith_of t) =
      C_int (c_rank (c_promote (c_arith_of t))) (8 * vbytes t) (unsigned_ty (promote_int t))"
    by cases (simp_all add: i c_arith_of_def standard_sizes_def can_hold_def vbytes_def promote_int_def static_types)
  then show thesis by (rule obt)
qed

lemma c_usual_same_width:
  assumes "0 < n"
  obtains k where "c_usual_int (C_int r n u) (C_int q n v) = C_int k n (u \<or> v)"
proof -
  have "(2::int) ^ (n - 1) < 2 ^ n" using assms by simp
  then have "\<not> can_hold (C_int x n False) (C_int y n True)" for x y by (simp add: can_hold_def)
  then show thesis by (cases u; cases v; cases "q \<le> r"; cases "r \<le> q") (auto intro!: that simp: c_usual_int_def)
qed

lemma common_type:
  assumes "int_scalar lt" "int_scalar rt" "vbytes lt = vbytes rt"
  obtains k where "c_usual (c_arith_of lt) (c_arith_of rt) = C_int k (8 * vbytes lt) (use_unsigned_cmp lt rt)"
proof -
  note obt = that
  obtain r where r: "c_promote (c_arith_of lt) = C_int r (8 * vbytes lt) (unsigned_ty (promote_int lt))"
    using c_promote_scalar [OF assms(1)] .
  obtain q where q: "c_promote (c_arith_of rt) = C_int q (8 * vbytes lt) (unsigned_ty (promote_int rt))"
    using c_promote_scalar [OF assms(2)] assms(3) by auto
  have n: "0 < 8 * vbytes lt" using scalar_facts(10) [OF int_scalar_scalar [OF assms(1)]] by auto
  have c: "c_usual (c_arith_of lt) (c_arith_of rt) = c_usual_int (c_promote (c_arith_of lt)) (c_promote (c_arith_of rt))"
    using r q by (cases "c_arith_of lt"; cases "c_arith_of rt") auto
  have "use_unsigned_cmp lt rt \<longleftrightarrow> unsigned_ty (promote_int lt) \<or> unsigned_ty (promote_int rt)"
    by (simp add: use_unsigned_cmp_def Let_def get_integer_type_def static_types)
  moreover obtain k where
    "c_usual_int (C_int r (8 * vbytes lt) (unsigned_ty (promote_int lt)))
       (C_int q (8 * vbytes lt) (unsigned_ty (promote_int rt))) =
     C_int k (8 * vbytes lt) (unsigned_ty (promote_int lt) \<or> unsigned_ty (promote_int rt))"
    by (rule c_usual_same_width [OF n])
  ultimately have "c_usual (c_arith_of lt) (c_arith_of rt) = C_int k (8 * vbytes lt) (use_unsigned_cmp lt rt)"
    by (simp only: c r q)
  then show thesis by (rule obt)
qed

lemma compare_holds:
  assumes "int_scalar lt" "int_scalar rt" "vbytes lt = vbytes rt" and k: "is_comparison k"
  shows "holds (compare_cc k (use_unsigned_cmp lt rt)) (sub_flags (vbytes lt) (low (vbytes lt) u) (low (vbytes lt) w)) \<longleftrightarrow>
    compare_value k lt rt u w"
proof -
  let ?n = "vbytes lt"
  have n: "0 < ?n" using scalar_facts(10) [OF int_scalar_scalar [OF assms(1)]] by auto
  have i: "is_integer lt" "is_integer rt" using assms by (simp_all add: int_scalar_def)
  note c = cmp_conditions [OF n, of "low ?n u" "low ?n w"]
  obtain r where common: "c_usual (c_arith_of lt) (c_arith_of rt) = C_int r (8 * ?n) (use_unsigned_cmp lt rt)"
    using common_type [OF assms(1-3)] .
  show ?thesis
    using k n i slow_eq_iff [OF n, of u w]
    by (auto simp: compare_value_def common is_comparison_def compare_cc_def c Let_def simp del: holds.simps)
qed

lemma compare_holds_pointer:
  assumes "\<not> is_integer lt" "k = ND_EQ \<or> k = ND_NE" "slow 8 u = u" "slow 8 w = w"
  shows "holds (compare_cc k un) (sub_flags 8 (low 8 u) (low 8 w)) \<longleftrightarrow> compare_value k lt rt u w"
proof -
  have "low 8 u = low 8 w \<longleftrightarrow> u = w" using slow_eq_iff [of 8 u w] assms(3,4) by simp
  then show ?thesis
    using cmp_conditions(1,2) [of 8 "low 8 u" "low 8 w"] assms(1,2)
    by (auto simp: compare_value_def compare_cc_def simp del: holds.simps)
qed

text \<open>The operands of a comparison whose condition comes out right.\<close>

definition comparable :: "node_kind \<Rightarrow> ctype \<Rightarrow> ctype \<Rightarrow> int \<Rightarrow> int \<Rightarrow> bool" where
  "comparable k lt rt u w \<longleftrightarrow>
     is_comparison k \<and> scalar lt \<and>
     ((int_scalar lt \<and> int_scalar rt \<and> vbytes lt = vbytes rt) \<or>
      (\<not> is_integer lt \<and> (k = ND_EQ \<or> k = ND_NE) \<and> slow 8 u = u \<and> slow 8 w = w))"

lemma comparable_holds:
  assumes "comparable k lt rt u w"
  shows "holds (compare_cc k (use_unsigned_cmp lt rt)) (sub_flags (vbytes lt) (low (vbytes lt) u) (low (vbytes lt) w)) \<longleftrightarrow>
    compare_value k lt rt u w"
proof (cases "is_integer lt")
  case True
  then show ?thesis using assms compare_holds by (auto simp: comparable_def)
next
  case False
  then have "vbytes lt = 8" "\<not> int_scalar lt" by (simp_all add: vbytes_def int_scalar_def)
  then show ?thesis using assms compare_holds_pointer [OF False] by (auto simp: comparable_def)
qed

text \<open>The comparison and the code that makes its condition a number.\<close>

lemma exec_compare:
  assumes c: "comparable k lt rt u w" and a: "a < 8" and t: "reg_bytes (op_size t) = 4" "vbytes t = 4"
    and u: "rep lt u (regs m (phys a))"
    and s: "rd (vbytes lt) src m = Some (low (vbytes lt) w)" "case src of Imm v \<Rightarrow> imm_fits (vbytes lt) v | _ \<Rightarrow> True"
      "op_bytes S_none src (Reg (vbytes lt) (phys a)) = vbytes lt"
  shows "\<exists>m'. exec_seq (Alu A_cmp S_none src (Reg (vbytes lt) (phys a)) # compare_tail k t lt rt a) m = Some m' \<and>
    only_regs {a} m m' \<and> rep t (of_bool (compare_value k lt rt u w)) (regs m' (phys a))"
proof -
  let ?n = "vbytes lt" and ?q = "compare_cc k (use_unsigned_cmp lt rt)"
  let ?f = "sub_flags ?n (low ?n u) (low ?n w)"
  let ?m = "m\<lparr>flags_of := Some ?f\<rparr>"
  have "getr m ?n (phys a) = low ?n u" using rep_getr [OF u] by simp
  then have e: "exec_instr (Alu A_cmp S_none src (Reg ?n (phys a))) m = Some ?m"
    unfolding exec_instr.simps s(3) exec_alu_def using s(1,2) by (simp add: rd_def)
  have f: "flags_of ?m = Some ?f" by simp
  have k: "is_comparison k" using c by (simp add: comparable_def)
  have tail: "compare_tail k t lt rt a = [Setcc ?q RAX, Ext False 1 4 (Reg 1 RAX) (phys a)]"
    using k t(1) by (simp add: compare_tail_def)
  note x = exec_setcc [OF f a, where q = ?q]
  show ?thesis
    using e x(1) only_regs_trans [OF only_regs_flags x(2)] x(3) [OF t(2)] comparable_holds [OF c]
    unfolding tail by (simp del: exec_instr.simps exec_seq.simps(2) add: exec_seq.simps(2) [of "Alu A_cmp S_none src (Reg ?n (phys a))"])
qed


section \<open>Arithmetic and comparison nodes\<close>

text \<open>The types the code for an operator is right for; \<open>lit\<close> when the right operand is a literal.\<close>

definition operands_ok :: "node_kind \<Rightarrow> ctype \<Rightarrow> ctype \<Rightarrow> ctype \<Rightarrow> bool \<Rightarrow> bool" where
  "operands_ok k t lt rt lit \<longleftrightarrow>
     (if is_comparison k then
        t = ty_int \<and>
        ((int_scalar lt \<and> int_scalar rt \<and> vbytes lt = vbytes rt) \<or>
         ((k = ND_EQ \<or> k = ND_NE) \<and> scalar lt \<and> \<not> is_integer lt \<and>
          ((scalar rt \<and> \<not> is_integer rt) \<or> (rt = ty_int \<and> lit))))
      else
        arith_kind k \<and> scalar t \<and> 4 \<le> sizeof t \<and> scalar rt \<and> (scalar lt \<or> is_array lt) \<and>
        (if pointer_difference k lt rt then
           scalar lt \<and> \<not> is_integer lt \<and> \<not> is_integer rt \<and> \<not> lit \<and>
           power_of_two (elem_size lt) \<and> elem_size lt < 2 ^ 31
         else vbytes lt = vbytes t \<and> vbytes rt = vbytes t))"

lemma conv_cong:
  assumes "scalar t" "4 \<le> sizeof t" "low (vbytes t) a = low (vbytes t) b"
  shows "conv t a = conv t b"
proof -
  have n: "vbytes t = nat (sizeof t)" "0 < nat (sizeof t)" using scalar_facts(12) [OF assms(1)] assms(2) by auto
  then have "slow (nat (sizeof t)) a = slow (nat (sizeof t)) b" using assms(3) slow_eq_iff [OF n(2)] by simp
  then show ?thesis using assms(1,3) n by (auto simp: conv_def scalar_def)
qed

lemma sem_arith_value:
  assumes "arith_kind k" "\<not> pointer_difference k lt rt" "scalar t" "4 \<le> sizeof t"
  shows "sem_arith k t lt rt a b = Some (conv t (arith_value k a b))"
proof -
  have "\<not> is_comparison k" using assms(1) by (auto simp: arith_kind_def is_comparison_def)
  moreover have "conv t (arith_value k (conv t a) (conv t b)) = conv t (arith_value k a b)"
    using conv_low_wide [OF assms(3,4)] by (intro conv_cong [OF assms(3,4)] arith_low) auto
  ultimately show ?thesis using assms(2) by (simp add: sem_arith_def)
qed

lemma compare_size:
  assumes "operands_ok k t lt rt lit" "is_comparison k"
  shows "operand_size k t lt rt = int (vbytes lt)" "reg_bytes (int (vbytes lt)) = vbytes lt" "scalar lt"
    "vbytes lt = 4 \<or> vbytes lt = 8"
proof -
  show s: "scalar lt" using assms int_scalar_scalar by (auto simp: operands_ok_def)
  then show n: "vbytes lt = 4 \<or> vbytes lt = 8" using scalar_facts(10) by auto
  then show "reg_bytes (int (vbytes lt)) = vbytes lt" by (auto simp: reg_bytes_def)
  consider "int_scalar rt" "vbytes lt = vbytes rt" | "\<not> is_integer lt" "scalar rt" "\<not> is_integer rt" | "\<not> is_integer lt" "rt = ty_int"
    using assms by (auto simp: operands_ok_def)
  then show "operand_size k t lt rt = int (vbytes lt)"
  proof cases
    case 1
    then show ?thesis using assms(2) scalar_facts(16) [OF s] scalar_facts(16) [OF int_scalar_scalar [OF 1(1)]]
      by (simp add: operand_size_def)
  next
    case 2
    then show ?thesis using assms(2) scalar_facts(16) [OF s] scalar_facts(16) [OF 2(2)]
      by (simp add: operand_size_def vbytes_def)
  next
    case 3
    have "op_size ty_int = 4" by (simp add: op_size_def static_types)
    then show ?thesis using assms(2) scalar_facts(16) [OF s] 3 by (simp add: operand_size_def vbytes_def)
  qed
qed

lemma pointer_conv: "\<not> is_integer t \<Longrightarrow> conv t v = v \<Longrightarrow> slow 8 v = v"
  by (simp add: conv_def)

lemma vbytes_pointer: "\<not> is_integer t \<Longrightarrow> vbytes t = 8"
  by (simp add: vbytes_def)

lemma ty_int_facts [simp]: "scalar ty_int" "op_size ty_int = 4" "vbytes ty_int = 4" "is_integer ty_int" "sizeof ty_int = 4" "\<not> unsigned_ty ty_int"
  by (simp_all add: scalar_def op_size_def vbytes_def is_integer_def static_types)

lemma exec_binary_regs:
  assumes ok: "operands_ok k t lt rt False" and r: "a < 8" "b < 8" "a \<noteq> b"
    and u: "rep lt u (regs m (phys a))" "scalar lt \<Longrightarrow> conv lt u = u"
    and w: "rep rt w (regs m (phys b))" "scalar rt \<Longrightarrow> conv rt w = w" and v: "sem_arith k t lt rt u w = Some v"
  shows "\<exists>m'. exec_seq (arith_regs k (operand_size k t lt rt) lt rt a b @ compare_tail k t lt rt a) m = Some m' \<and>
    only_regs {a, b} m m' \<and> rep t v (regs m' (phys a))"
proof (cases "is_comparison k")
  case True
  note sz = compare_size [OF ok True]
  let ?n = "vbytes lt"
  have t: "t = ty_int" using ok True by (simp add: operands_ok_def)
  have rt: "vbytes rt = ?n" "scalar rt" using ok True int_scalar_scalar vbytes_pointer by (auto simp: operands_ok_def)
  have c: "comparable k lt rt u w"
    using ok True sz(3) pointer_conv [OF _ u(2)] pointer_conv [OF _ w(2)] int_scalar_scalar
    by (auto simp: operands_ok_def comparable_def)
  have "k \<noteq> ND_SUB" "arith_inst k = A_cmp" using True by (auto simp: is_comparison_def)
  moreover have "\<not> (int ?n = 8 \<and> op_size rt = 4)" using scalar_facts(16) [OF rt(2)] rt(1) by simp
  ultimately have code: "arith_regs k (operand_size k t lt rt) lt rt a b = [Alu A_cmp S_none (Reg ?n (phys b)) (Reg ?n (phys a))]"
    unfolding sz(1) by (auto simp: arith_regs_def reg_def sz(2) split: option.splits)
  have "rd ?n (Reg ?n (phys b)) m = Some (low ?n w)" using rep_getr [OF w(1)] rt(1) by (simp add: rd_def)
  then obtain m' where m': "exec_seq (Alu A_cmp S_none (Reg ?n (phys b)) (Reg ?n (phys a)) # compare_tail k t lt rt a) m = Some m'"
      "only_regs {a} m m'" "rep t (of_bool (compare_value k lt rt u w)) (regs m' (phys a))"
    using exec_compare [OF c r(1) _ _ u(1), of t "Reg ?n (phys b)"] t by (auto simp: reg_bytes_def)
  moreover have "only_regs {a, b} m m'" using m'(2) by (auto simp: only_regs_def)
  moreover have "v = of_bool (compare_value k lt rt u w)" using v True by (simp add: sem_arith_def)
  ultimately show ?thesis unfolding code by (auto simp del: exec_seq.simps)
next
  case False
  then have tail: "compare_tail k t lt rt a = []" by (simp add: compare_tail_def)
  have k: "arith_kind k" "scalar t" "4 \<le> sizeof t" "scalar rt" using ok False by (simp_all add: operands_ok_def)
  show ?thesis
  proof (cases "pointer_difference k lt rt")
    case True
    then have "k = ND_SUB" by (simp add: pointer_difference_def)
    moreover have "elem_size lt dvd u - w" "in64 (u - w)" "v = conv t ((u - w) div elem_size lt)"
      using v False True by (simp_all add: sem_arith_def split: if_splits)
    ultimately show ?thesis
      using exec_pointer_difference [OF r k(2,3) _ _ k(4) _ _ u(1) w(1)] ok False True tail by (simp add: operands_ok_def)
  next
    case np: False
    then show ?thesis
      using exec_arith_regs [OF k(1) r k(2,3) u(1) _ w(1) _ k(4) np] ok False tail v sem_arith_value [OF k(1) np k(2,3)]
      by (simp add: operands_ok_def)
  qed
qed

lemma exec_binary_imm:
  assumes ok: "operands_ok k t lt rt True" and a: "a < 8"
    and u: "rep lt u (regs m (phys a))" "scalar lt \<Longrightarrow> conv lt u = u"
    and i: "in32 i" "scalar rt \<Longrightarrow> 4 \<le> sizeof rt \<or> conv rt i = i" and v: "sem_arith k t lt rt u (conv rt i) = Some v"
  shows "\<exists>m'. exec_seq (arith_imm k i (reg a (operand_size k t lt rt)) @ compare_tail k t lt rt a) m = Some m' \<and>
    only_regs {a} m m' \<and> rep t v (regs m' (phys a))"
proof -
  have low_i: "scalar rt \<Longrightarrow> low (vbytes rt) (conv rt i) = low (vbytes rt) i"
    using i(2) conv_low_wide [of rt i] by auto
  show ?thesis
  proof (cases "is_comparison k")
    case True
    note sz = compare_size [OF ok True]
    let ?n = "vbytes lt"
    have t: "t = ty_int" using ok True by (simp add: operands_ok_def)
    have srt: "scalar rt" "vbytes rt = ?n \<or> rt = ty_int"
      using ok True int_scalar_scalar vbytes_pointer by (auto simp: operands_ok_def)
    have int_i: "conv ty_int i = i" using i(1) by (simp add: conv_def slow_id in32_def)
    have w: "low ?n (conv rt i) = low ?n i" using srt low_i int_i by auto
    have ptr: "slow 8 (conv rt i) = conv rt i" if "\<not> is_integer rt \<or> rt = ty_int"
    proof (cases "is_integer rt")
      case False
      then show ?thesis using conv_conv [OF srt(1)] pointer_conv by blast
    next
      case True
      then show ?thesis using that int_i i(1) by (auto simp: slow_id in32_def)
    qed
    have c: "comparable k lt rt u (conv rt i)"
      using ok True sz(3) pointer_conv [OF _ u(2)] ptr by (auto simp: operands_ok_def comparable_def)
    have "arith_inst k = A_cmp" "k \<notin> {ND_MUL, ND_ADD, ND_SUB, ND_BITOR, ND_BITXOR}" using True by (auto simp: is_comparison_def)
    then have code: "arith_imm k i (reg a (operand_size k t lt rt)) = [Alu A_cmp S_none (Imm i) (Reg ?n (phys a))]"
      unfolding sz(1) by (simp add: arith_imm_def reg_def sz(2))
    have "imm_fits ?n i" using i(1) sz(4) by (auto simp: imm_fits_def in32_def)
    then have "\<exists>m'. exec_seq (Alu A_cmp S_none (Imm i) (Reg ?n (phys a)) # compare_tail k t lt rt a) m = Some m' \<and>
        only_regs {a} m m' \<and> rep t (of_bool (compare_value k lt rt u (conv rt i))) (regs m' (phys a))"
      using t w by (intro exec_compare [OF c a _ _ u(1)]) (simp_all add: rd_def reg_bytes_def)
    moreover have "v = of_bool (compare_value k lt rt u (conv rt i))" using v True by (simp add: sem_arith_def)
    ultimately show ?thesis unfolding code by (auto simp del: exec_seq.simps)
  next
    case False
    have k: "arith_kind k" "scalar t" "4 \<le> sizeof t" "scalar rt" "\<not> pointer_difference k lt rt" "vbytes lt = vbytes t" "vbytes rt = vbytes t"
      using ok False by (auto simp: operands_ok_def split: if_splits)
    have "conv t (arith_value k u (conv rt i)) = conv t (arith_value k u i)"
      using low_i [OF k(4)] k(7) by (intro conv_cong [OF k(2,3)] arith_low) simp_all
    then have "v = conv t (arith_value k u i)" using v sem_arith_value [OF k(1,5,2,3)] by simp
    then show ?thesis
      using exec_arith_imm [OF k(1-3) u(1) k(6,4,7) i(1)] False by (simp add: compare_tail_def)
  qed
qed


lemma implements_arith:
  assumes L: "implements f semL lt kl True" "scalar lt \<Longrightarrow> in_range semL lt"
    and R: "implements f' semR rt kr True" "scalar rt \<Longrightarrow> in_range semR rt"
    and ch: "lhs n = Some l" "rhs n = Some x" "ndty n = Some t" "ndty l = Some lt" "ndty x = Some rt"
      "field_operand_width (Some l) = 0" "field_operand_width (Some x) = 0"
    and ok: "operands_ok (ndkind n) t lt rt (small_literal (rhs n))"
    and lit: "small_literal (rhs n) \<Longrightarrow> (\<forall>E. semR E = cret (conv rt (ndval x))) \<and> (4 \<le> sizeof rt \<or> conv rt (ndval x) = ndval x)"
  shows "implements (with_reg f (\<lambda>a. gen_arith n a f'))
    (\<lambda>E. cbind (semL E) (\<lambda>a. cbind (semR E) (\<lambda>b. cpure (sem_arith (ndkind n) t lt rt a b)))) t (max kl (1 + kr)) d"
proof (cases "small_literal (rhs n)")
  case True
  then have x: "ndkind x = ND_NUM" "in32 (ndval x)" using ch(2) by (simp_all add: small_literal_def)
  note k = gen_arith_imm [OF ch x, of _ f']
  have sem: "semR E = cret (conv rt (ndval x))" for E using lit True by blast
  have "implements (with_reg f (\<lambda>a. gen_arith n a f'))
      (\<lambda>E. cbind (semL E) (\<lambda>a. cpure (sem_arith (ndkind n) t lt rt a (conv rt (ndval x))))) t kl d"
  proof (rule implements_unary [OF L(1), where
      tail = "\<lambda>r. arith_imm (ndkind n) (ndval x) (reg r (operand_size (ndkind n) t lt rt)) @ compare_tail (ndkind n) t lt rt r"])
    fix r :: nat and E sl m mm u v mm'
    assume h: "r < 8" "Rel E sl m mm" "rep lt u (regs m (phys r))" "\<exists>E mm0. semL E mm0 = Some (u, mm)"
      "cpure (sem_arith (ndkind n) t lt rt u (conv rt (ndval x))) mm = Some (v, mm')"
    have "scalar lt \<Longrightarrow> conv lt u = u" using L(2) h(4) in_rangeD by blast
    moreover have "sem_arith (ndkind n) t lt rt u (conv rt (ndval x)) = Some v" "mm' = mm" using h(5) by (auto simp: cpure_def)
    ultimately show "mm' = mm \<and> (\<exists>m'. exec_seq (arith_imm (ndkind n) (ndval x) (reg r (operand_size (ndkind n) t lt rt)) @
        compare_tail (ndkind n) t lt rt r) m = Some m' \<and> only_regs {r} m m' \<and> rep t v (regs m' (phys r)))"
      using exec_binary_imm [OF _ h(1,3) _ x(2)] ok lit True by simp
  qed (simp_all add: k)
  then show ?thesis unfolding sem cbind_cret by (rule implements_weaken) simp_all
next
  case False
  then have x: "\<not> (ndkind x = ND_NUM \<and> in32 (ndval x))" using ch(2) by (simp add: small_literal_def)
  show ?thesis
    unfolding gen_arith_reg [OF ch x]
  proof (rule implements_binary [OF L(1) R(1), where
      tail = "\<lambda>a b. arith_regs (ndkind n) (operand_size (ndkind n) t lt rt) lt rt a b @ compare_tail (ndkind n) t lt rt a"])
    fix a b E sl m mm u w v mm'
    assume h: "a < 8" "b < 8" "a \<noteq> b" "Rel E sl m mm" "rep lt u (regs m (phys a))" "rep rt w (regs m (phys b))"
      "\<exists>E mm0 mm1. semL E mm0 = Some (u, mm1)" "\<exists>E mm0. semR E mm0 = Some (w, mm)"
      "cpure (sem_arith (ndkind n) t lt rt u w) mm = Some (v, mm')"
    have "scalar lt \<Longrightarrow> conv lt u = u" "scalar rt \<Longrightarrow> conv rt w = w" using L(2) R(2) h(7,8) in_rangeD by blast+
    moreover have "sem_arith (ndkind n) t lt rt u w = Some v" "mm' = mm" using h(9) by (auto simp: cpure_def)
    ultimately show "mm' = mm \<and> (\<exists>m'. exec_seq (arith_regs (ndkind n) (operand_size (ndkind n) t lt rt) lt rt a b @
        compare_tail (ndkind n) t lt rt a) m = Some m' \<and> only_regs {a, b} m m' \<and> rep t v (regs m' (phys a)))"
      using exec_binary_regs [OF _ h(1-3,5) _ h(6)] ok False by simp
  qed (simp_all add: gen_defs free_reg_plain)
qed

end
