(* ===== verification/GenDiv.thy ===== *)
theory GenDiv
  imports GenArith
begin

text \<open>
  Correctness of the code for shifts and divisions.
\<close>

section \<open>Shifts\<close>

definition shift_value :: "alu \<Rightarrow> nat \<Rightarrow> nat \<Rightarrow> int \<Rightarrow> int" where
  "shift_value oper n k d =
     (case oper of A_shl \<Rightarrow> push_bit k d | A_shr \<Rightarrow> drop_bit k d | _ \<Rightarrow> drop_bit k (slow n d))"

definition shift_alu :: "node_kind \<Rightarrow> ctype \<Rightarrow> alu" where
  "shift_alu k t = (if k = ND_SHL then A_shl else if use_unsigned t then A_shr else A_sar)"

lemma low_push: "low n a = low n b \<Longrightarrow> low n (push_bit k a) = low n (push_bit k b)"
  using low_mult [of n a "2 ^ k"] low_mult [of n b "2 ^ k"] by (simp add: push_bit_eq_mult)

lemma shift_rep:
  assumes t: "int_scalar t" "4 \<le> sizeof t" and s: "sem_shift k t u b = Some v" "k = ND_SHL \<or> k = ND_SHR"
  shows "rep t v (regs (putr (vbytes t) q (shift_value (shift_alu k t) (vbytes t) (nat b) (low (vbytes t) u)) m) q)"
    "0 \<le> b" "b < 8 * int (vbytes t)"
proof -
  have st: "scalar t" using t(1) by (rule int_scalar_scalar)
  have n: "vbytes t = nat (sizeof t)" "0 < vbytes t" "is_integer t" using scalar_facts(12) [OF st] t by (auto simp: int_scalar_def)
  have b: "0 \<le> b" "b < 8 * int (vbytes t)" using s(1) n(1) t(2) by (auto simp: sem_shift_def split: if_splits)
  then show "0 \<le> b" "b < 8 * int (vbytes t)" by simp_all
  have v: "v = (if k = ND_SHL then conv t (push_bit (nat b) (conv t u)) else drop_bit (nat b) (conv t u))"
    using s(1) by (auto simp: sem_shift_def split: if_splits)
  have c: "conv t u = (if unsigned_ty t then low (vbytes t) u else slow (vbytes t) u)" using n by (simp add: conv_def)
  show "rep t v (regs (putr (vbytes t) q (shift_value (shift_alu k t) (vbytes t) (nat b) (low (vbytes t) u)) m) q)"
  proof (cases "k = ND_SHL")
    case True
    have "low (vbytes t) (push_bit (nat b) (low (vbytes t) u)) = low (vbytes t) (push_bit (nat b) (conv t u))"
      using conv_low_wide [OF st t(2)] by (intro low_push) simp
    then show ?thesis using True v unary_result [OF st t(2)] by (simp add: shift_value_def shift_alu_def)
  next
    case False
    then have "shift_value (shift_alu k t) (vbytes t) (nat b) (low (vbytes t) u) = v"
      using v c n(2,3) by (simp add: shift_value_def shift_alu_def use_unsigned_def)
    then show ?thesis using rep_putr [OF st] by simp
  qed
qed

lemma shift_count_literal:
  assumes "scalar rt" "4 \<le> sizeof rt \<or> conv rt i = i" "0 \<le> conv rt i" "conv rt i < 64"
  shows "wrap32 i = conv rt i"
proof -
  have "low (vbytes rt) i = low (vbytes rt) (conv rt i)" using assms(2) conv_low_wide [OF assms(1)] by auto
  then have "low 4 i = low 4 (conv rt i)" using scalar_facts(10) [OF assms(1)] low_eqI_le [of "vbytes rt" i _ 4] by auto
  then have "slow 4 i = slow 4 (conv rt i)" using slow_eq_iff [of 4] by simp
  moreover have "wrap32 i = slow 4 i" by (simp add: wrap32_def slow_def)
  moreover have "slow 4 (conv rt i) = conv rt i" using assms(3,4) by (intro slow_id) simp_all
  ultimately show ?thesis by simp
qed

lemma exec_shift_cl:
  assumes "n = 4 \<or> n = 8" "oper \<in> {A_shl, A_shr, A_sar}" and w: "getr m 4 q = low 4 b" "0 \<le> b" "b < 8 * int n" and p: "p \<noteq> RCX"
  obtains m1 where "exec_seq [Mov S_l (Reg 4 q) (Reg 4 RCX), ShiftCl oper n p] m =
      Some (putr n p (shift_value oper n (nat b) (getr m n p)) m1)"
    "\<And>R. only_regs R m m1"
proof -
  let ?m1 = "putr 4 RCX (getr m 4 q) m"
  have "low 1 (low 4 b) = b" using w(2,3) assms(1) by (auto simp: low_def take_bit_int_eq_self)
  then have c: "getr ?m1 1 RCX = b" using w(1) by (simp add: getr_putr)
  have "shift_count n b = nat b" using w(2,3) assms(1) by (auto simp: shift_count_def)
  then have "shift_result oper n b (getr m n p) = shift_value oper n (nat b) (getr m n p)"
    using assms(2) by (auto simp: shift_result_def shift_value_def)
  then have "exec_seq [Mov S_l (Reg 4 q) (Reg 4 RCX), ShiftCl oper n p] m =
      Some (putr n p (shift_value oper n (nat b) (getr m n p)) (?m1\<lparr>flags_of := None\<rparr>))"
    using c p by (simp add: rd_def wr_def)
  moreover have "only_regs R m (?m1\<lparr>flags_of := None\<rparr>)" for R
    by (rule only_regs_trans [OF only_regs_putr only_regs_flags]) (simp add: scratch_def)
  ultimately show thesis by (rule that)
qed

lemma implements_shift:
  assumes L: "implements f semL lt kl True" and R: "implements f' semR rt kr True"
    and ch: "lhs n = Some l" "rhs n = Some x" "ndty n = Some t" "ndty l = Some lt" "ndty x = Some rt"
    and k: "ndkind n = ND_SHL \<or> ndkind n = ND_SHR"
    and ok: "int_scalar t" "4 \<le> sizeof t" "vbytes t = vbytes lt" "scalar rt"
    and lit: "ndkind x = ND_NUM \<Longrightarrow> (\<forall>E. semR E = cret (conv rt (ndval x))) \<and> (4 \<le> sizeof rt \<or> conv rt (ndval x) = ndval x)"
  shows "implements (with_reg f (\<lambda>a. gen_shift n a f'))
    (\<lambda>E. cbind (semL E) (\<lambda>a. cbind (semR E) (\<lambda>b. cpure (sem_shift (ndkind n) t a b)))) t (max kl (1 + kr)) d"
proof -
  let ?n = "vbytes t" and ?o = "shift_alu (ndkind n) t"
  have st: "scalar t" using ok(1) by (rule int_scalar_scalar)
  have n4: "?n = 4 \<or> ?n = 8" using scalar_facts(10) [OF st] by simp
  have rg: "reg r (op_size t) = Reg ?n (phys r)" for r using scalar_facts(8) [OF st] by (simp add: reg_def)
  have o: "?o \<in> {A_shl, A_shr, A_sar}" by (simp add: shift_alu_def)
  show ?thesis
  proof (cases "ndkind x = ND_NUM")
    case True
    let ?i = "conv rt (ndval x)"
    have sem: "semR E = cret ?i" for E using lit True by blast
    have "implements (with_reg f (\<lambda>a. gen_shift n a f')) (\<lambda>E. cbind (semL E) (\<lambda>a. cpure (sem_shift (ndkind n) t a ?i))) t kl d"
    proof (rule implements_unary [OF L, where tail = "\<lambda>r. [Alu ?o S_none (Imm (wrap32 (ndval x))) (reg r (op_size t))]"])
      fix r :: nat and E sl m mm u v mm'
      assume h: "r < 8" "Rel E sl m mm" "rep lt u (regs m (phys r))" "cpure (sem_shift (ndkind n) t u ?i) mm = Some (v, mm')"
      have v: "sem_shift (ndkind n) t u ?i = Some v" "mm' = mm" using h(4) by (auto simp: cpure_def)
      note s = shift_rep [OF ok(1,2) v(1) k]
      have "?i < 64" using s(3) n4 by auto
      then have i: "wrap32 (ndval x) = int (nat ?i)" using shift_count_literal [OF ok(4)] lit True s(2) by simp
      have g: "getr m ?n (phys r) = low ?n u" using rep_getr [OF h(3)] ok(3) by simp
      have "nat ?i < 8 * ?n" using s(2,3) by linarith
      from exec_shift_imm [OF o n4 this, of "phys r" m]
      have "exec_seq [Alu ?o S_none (Imm (wrap32 (ndval x))) (reg r (op_size t))] m =
          Some (putr ?n (phys r) (shift_value ?o ?n (nat ?i) (low ?n u)) (m\<lparr>flags_of := None\<rparr>))"
        unfolding rg i shift_value_def g [symmetric] by (simp del: exec_instr.simps)
      then show "mm' = mm \<and> (\<exists>m'. exec_seq [Alu ?o S_none (Imm (wrap32 (ndval x))) (reg r (op_size t))] m = Some m' \<and>
          only_regs {r} m m' \<and> rep t v (regs m' (phys r)))"
        using s(1) v(2) only_regs_putr_flags by blast
    qed (use ch True in \<open>simp_all add: gen_shift_def shift_alu_def gen_defs Let_def\<close>)
    then show ?thesis unfolding sem cbind_cret by (rule implements_weaken) simp_all
  next
    case False
    let ?K = "\<lambda>a b. gseq (emit [Mov S_l (Reg 4 (phys b)) (Reg 4 RCX), ShiftCl ?o ?n (phys a)]) (gseq (free_reg b) (gret (Some a)))"
    have "gen_shift n a f' = with_reg f' (?K a)" for a
      using ch False scalar_facts(8) [OF st] by (simp add: gen_shift_def shift_alu_def with_child_def with_type_def Let_def)
    moreover have "implements (with_reg f (\<lambda>a. with_reg f' (?K a)))
      (\<lambda>E. cbind (semL E) (\<lambda>a. cbind (semR E) (\<lambda>b. cpure (sem_shift (ndkind n) t a b)))) t (max kl (1 + kr)) d"
    proof (rule implements_binary [OF L R, where tail = "\<lambda>a b. [Mov S_l (Reg 4 (phys b)) (Reg 4 RCX), ShiftCl ?o ?n (phys a)]"])
      fix a b E sl m mm u w v mm'
      assume h: "a < 8" "b < 8" "a \<noteq> b" "Rel E sl m mm" "rep lt u (regs m (phys a))" "rep rt w (regs m (phys b))"
        "cpure (sem_shift (ndkind n) t u w) mm = Some (v, mm')"
      have v: "sem_shift (ndkind n) t u w = Some v" "mm' = mm" using h(7) by (auto simp: cpure_def)
      note s = shift_rep [OF ok(1,2) v(1) k]
      have g: "getr m ?n (phys a) = low ?n u" "getr m 4 (phys b) = low 4 w"
        using rep_getr [OF h(5)] rep_getr [OF h(6)] ok(3) scalar_facts(10) [OF ok(4)] by auto
      obtain m1 where m1: "exec_seq [Mov S_l (Reg 4 (phys b)) (Reg 4 RCX), ShiftCl ?o ?n (phys a)] m =
          Some (putr ?n (phys a) (shift_value ?o ?n (nat w) (getr m ?n (phys a))) m1)" "\<And>R. only_regs R m m1"
        using exec_shift_cl [OF n4 o g(2) s(2,3), of "phys a"] h(1) by auto
      have "only_regs {a, b} m (putr ?n (phys a) z m1)" for z
        by (rule only_regs_trans [OF m1(2) only_regs_putr]) simp
      then show "mm' = mm \<and> (\<exists>m'. exec_seq [Mov S_l (Reg 4 (phys b)) (Reg 4 RCX), ShiftCl ?o ?n (phys a)] m = Some m' \<and>
          only_regs {a, b} m m' \<and> rep t v (regs m' (phys a)))"
        using s(1) v(2) m1(1) unfolding g by blast
    qed (simp_all add: gen_defs free_reg_plain)
    ultimately show ?thesis by simp
  qed
qed

section \<open>Division\<close>

lemma slow_as_low:
  assumes "0 < n"
  shows "slow n u = low n u - (if slow n u < 0 then 2 ^ (8 * n) else 0)"
proof -
  have "low n (slow n u) = low n u" using assms by simp
  then have l: "slow n u mod 2 ^ (8 * n) = low n u" by (simp add: low_def take_bit_eq_mod)
  note b = slow_bounds [OF assms, of u] double_half [OF assms]
  show ?thesis
  proof (cases "slow n u < 0")
    case True
    then have "(slow n u + 2 ^ (8 * n)) mod 2 ^ (8 * n) = slow n u + 2 ^ (8 * n)" using b by (intro mod_pos_pos_trivial) auto
    then show ?thesis using l True by simp
  next
    case False
    then have "slow n u mod 2 ^ (8 * n) = slow n u" using b by (intro mod_pos_pos_trivial) auto
    then show ?thesis using l False by simp
  qed
qed

definition div_code :: "node_kind \<Rightarrow> bool \<Rightarrow> nat \<Rightarrow> nat \<Rightarrow> nat \<Rightarrow> instr list" where
  "div_code k un n a b =
     [Mov S_none (Reg n (phys a)) (Reg n RAX),
      (if un then Alu A_xor S_l (Reg 4 RDX) (Reg 4 RDX) else if n = 8 then Cqo else Cdq),
      Div (\<not> un) n (phys b),
      Mov S_none (Reg n (if k = ND_DIV then RAX else RDX)) (Reg n (phys a))]"

lemma exec_div_code:
  fixes un :: bool
  assumes n: "n = 4 \<or> n = 8" and r: "a < 8" "b < 8" "a \<noteq> b"
    and u: "getr m n (phys a) = low n u" and w: "getr m n (phys b) = low n w"
  defines "c \<equiv> (if un then low n else slow n)"
  assumes q: "c w \<noteq> 0" "c (c u sdiv c w) = c u sdiv c w"
  shows "\<exists>m'. exec_seq (div_code k un n a b) m = Some m' \<and> only_regs {a, b} m m' \<and>
    getr m' n (phys a) = low n (if k = ND_DIV then c u sdiv c w else c u smod c w)"
proof -
  have n4: "n \<in> {1, 2, 4, 8}" "0 < n" using n by auto
  let ?m1 = "putr n RAX (low n u) m"
  obtain m2 where m2: "exec_instr (if un then Alu A_xor S_l (Reg 4 RDX) (Reg 4 RDX) else if n = 8 then Cqo else Cdq) ?m1 = Some m2"
    "only_regs {a, b} ?m1 m2" "getr m2 n RAX = low n u" "getr m2 n (phys b) = low n w"
    "getr m2 n RDX = (if un then 0 else low n (if slow n u < 0 then -1 else 0))"
  proof (cases un)
    case True
    let ?m2 = "putr 4 RDX 0 (?m1\<lparr>flags_of := Some (logic_flags 4 0)\<rparr>)"
    have "exec_instr (if un then Alu A_xor S_l (Reg 4 RDX) (Reg 4 RDX) else if n = 8 then Cqo else Cdq) ?m1 = Some ?m2"
      using True by (simp add: exec_alu_def rd_def wr_def)
    moreover have "only_regs {a, b} ?m1 ?m2"
      by (rule only_regs_trans [OF only_regs_flags only_regs_putr]) (simp add: scratch_def)
    moreover have "getr ?m2 n RDX = 0" by (simp add: getr_def putr_def)
    ultimately show thesis using that [of ?m2] True r w n4 by (simp add: getr_putr)
  next
    case False
    let ?m2 = "putr n RDX (if slow n u < 0 then -1 else 0) ?m1"
    have "exec_instr (if un then Alu A_xor S_l (Reg 4 RDX) (Reg 4 RDX) else if n = 8 then Cqo else Cdq) ?m1 = Some ?m2"
      using n False n4 by (elim disjE) (simp_all add: getr_putr)
    moreover have "only_regs {a, b} ?m1 ?m2" by (rule only_regs_putr) (simp add: scratch_def)
    ultimately show thesis using that [of ?m2] False r w n4 by (simp add: getr_putr)
  qed
  let ?q = "c u sdiv c w" and ?r = "c u smod c w"
  let ?m3 = "putr n RDX ?r (putr n RAX ?q (m2\<lparr>flags_of := None\<rparr>))"
  have div: "exec_instr (Div (\<not> un) n (phys b)) m2 = Some ?m3"
  proof (cases un)
    case True
    then have c: "c u = low n u" "c w = low n w" by (simp_all add: c_def)
    have nn: "0 \<le> low n u" "0 < low n w" using q(1) low_bounds(1) [of n w] low_bounds(1) [of n u] unfolding c by linarith+
    then have "low n u sdiv low n w = low n u div low n w" "low n u smod low n w = low n u mod low n w"
      by (simp_all add: signed_divide_int_def signed_modulo_int_def sgn_if minus_div_mult_eq_mod [symmetric])
    then show ?thesis using True m2(3-5) q nn unfolding c by (simp add: exec_div_def c_def Let_def)
  next
    case False
    then have c: "c u = slow n u" "c w = slow n w" by (simp_all add: c_def)
    have "slow n (low n (if slow n u < 0 then -1 else 0)) = (if slow n u < 0 then -1 else 0)"
      using n4(2) by (simp add: slow_def [of n "-1"] slow_def [of n 0])
    then have "slow n (getr m2 n RDX) * 2 ^ (8 * n) + getr m2 n RAX = slow n u"
      using m2(3,5) False slow_as_low [OF n4(2), of u] by (cases "slow n u < 0") (simp_all del: slow_low)
    then show ?thesis using False m2(4) q n4(2) unfolding c by (simp add: exec_div_def c_def Let_def)
  qed
  let ?m4 = "putr n (phys a) (getr ?m3 n (if k = ND_DIV then RAX else RDX)) ?m3"
  have mv1: "exec_instr (Mov S_none (Reg n (phys a)) (Reg n RAX)) m = Some ?m1" by (simp add: rd_def wr_def u)
  have mv2: "exec_instr (Mov S_none (Reg n (if k = ND_DIV then RAX else RDX)) (Reg n (phys a))) ?m3 = Some ?m4"
    by (simp add: rd_def wr_def)
  have "exec_seq (div_code k un n a b) m = Some ?m4"
    by (simp only: div_code_def exec_seq.simps mv1 m2(1) div mv2 Option.bind_lunit)
  moreover have "only_regs {a, b} m ?m1" by (rule only_regs_putr) (simp add: scratch_def)
  then have "only_regs {a, b} m ?m3"
    by (intro only_regs_trans [OF _ only_regs_trans [OF m2(2) only_regs_trans [OF only_regs_flags only_regs_trans [OF only_regs_putr only_regs_putr]]]])
      (simp_all add: scratch_def)
  then have "only_regs {a, b} m ?m4" by (rule only_regs_trans [OF _ only_regs_putr]) simp
  moreover have "getr ?m4 n (phys a) = low n (if k = ND_DIV then ?q else ?r)"
    using n4 by (simp add: getr_putr)
  ultimately show ?thesis by blast
qed


lemma implements_div:
  assumes L: "implements f semL lt kl True" and R: "implements f' semR rt kr True"
    and ch: "ndty n = Some t" and k: "ndkind n = ND_DIV \<or> ndkind n = ND_MOD"
    and ok: "int_scalar t" "4 \<le> sizeof t" "vbytes lt = vbytes t" "vbytes rt = vbytes t"
  shows "implements (with_reg f (\<lambda>a. gen_div n a f'))
    (\<lambda>E. cbind (semL E) (\<lambda>a. cbind (semR E) (\<lambda>b. cpure (sem_div (ndkind n) t a b)))) t (max kl (1 + kr)) d"
proof -
  let ?n = "vbytes t" and ?un = "use_unsigned t"
  have st: "scalar t" using ok(1) by (rule int_scalar_scalar)
  have n4: "?n = 4 \<or> ?n = 8" using scalar_facts(10) [OF st] by simp
  have c: "conv t = (if ?un then low ?n else slow ?n)"
    using ok(1,2) scalar_facts(12) [OF st] by (auto simp: conv_def int_scalar_def use_unsigned_def fun_eq_iff)
  let ?K = "\<lambda>a b. gseq (emit (div_code (ndkind n) ?un ?n a b)) (gseq (free_reg b) (gret (Some a)))"
  have "gen_div n a f' = with_reg f' (?K a)" for a
    using ch n4 scalar_facts(16) [OF st]
    by (elim disjE) (simp_all add: gen_div_def div_code_def with_type_def Let_def reg_def reg_bytes_def)
  moreover have "implements (with_reg f (\<lambda>a. with_reg f' (?K a)))
      (\<lambda>E. cbind (semL E) (\<lambda>a. cbind (semR E) (\<lambda>b. cpure (sem_div (ndkind n) t a b)))) t (max kl (1 + kr)) d"
  proof (rule implements_binary [OF L R, where tail = "div_code (ndkind n) ?un ?n"])
    fix a b E sl m mm u w v mm'
    assume h: "a < 8" "b < 8" "a \<noteq> b" "Rel E sl m mm" "rep lt u (regs m (phys a))" "rep rt w (regs m (phys b))"
      "cpure (sem_div (ndkind n) t u w) mm = Some (v, mm')"
    have v: "sem_div (ndkind n) t u w = Some v" "mm' = mm" using h(7) by (auto simp: cpure_def)
    have q: "conv t w \<noteq> 0" "conv t (conv t u sdiv conv t w) = conv t u sdiv conv t w"
      "v = (if ndkind n = ND_DIV then conv t u sdiv conv t w else conv t u smod conv t w)"
      using v(1) by (auto simp: sem_div_def Let_def split: if_splits)
    have g: "getr m ?n (phys a) = low ?n u" "getr m ?n (phys b) = low ?n w"
      using rep_getr [OF h(5)] rep_getr [OF h(6)] ok(3,4) by auto
    obtain m' where m': "exec_seq (div_code (ndkind n) ?un ?n a b) m = Some m'" "only_regs {a, b} m m'"
      "getr m' ?n (phys a) = low ?n v"
      using exec_div_code [OF n4 h(1-3) g, of ?un "ndkind n"] q unfolding c by blast
    then show "mm' = mm \<and> (\<exists>m'. exec_seq (div_code (ndkind n) ?un ?n a b) m = Some m' \<and> only_regs {a, b} m m' \<and>
        rep t v (regs m' (phys a)))"
      using repI [OF m'(3)] v(2) by blast
  qed (simp_all add: gen_defs free_reg_plain div_code_def)
  ultimately show ?thesis by simp
qed

end
