(* ===== verification/GenRange.thy ===== *)
theory GenRange
  imports GenDiv
begin

text \<open>
  The values of well-formed expressions are in the range of their types; the cases of the
  well-formedness conditions as elimination rules.
\<close>

section \<open>Values are in the range of their type\<close>

definition good_value :: "ctype \<Rightarrow> int \<Rightarrow> bool" where
  "good_value t v \<longleftrightarrow> (scalar t \<longrightarrow> conv t v = v) \<and> (is_array t \<longrightarrow> slow 8 v = v)"

lemma slow_slow8 [simp]: "slow 8 (slow 8 v) = slow 8 v"
  by (simp add: slow_def)

lemma conv_bool [simp]: "conv ty_int (of_bool q) = of_bool q"
  by (simp add: conv_def slow_def)

lemma good_conv [simp]: "scalar t \<Longrightarrow> good_value t (conv t v)"
  using scalar_facts(4) by (auto simp: good_value_def conv_conv)

lemma conv_01:
  assumes t: "scalar t" and v: "v = 0 \<or> v = 1"
  shows "conv t v = v"
proof -
  have one: "low n 1 = 1 \<and> slow n 1 = 1" if "n \<in> {1, 2, 4, 8}" for n
    using that by (auto simp: low_def slow_def)
  have "nat (sizeof t) \<in> {1, 2, 4, 8}" using scalar_facts(9) [OF t] by auto
  note n = one [OF this]
  have "low (nat (sizeof t)) 0 = 0" "slow (nat (sizeof t)) 0 = 0" "slow 8 0 = 0" by (simp_all add: slow_def)
  then show ?thesis using v n one [of 8] by (elim disjE) (simp_all only: conv_def if_cancel simp_thms insert_iff)
qed

lemma good_cconv [simp]: "scalar t \<Longrightarrow> good_value t (cconv t v)"
  using conv_01 [of t "of_bool (v \<noteq> 0)"] scalar_facts(4) by (auto simp: cconv_def good_value_def conv_conv)

text \<open>The numbers of an integer type are an interval around zero.\<close>

lemma conv_between:
  assumes "int_scalar t" "conv t a = a" "\<bar>b\<bar> \<le> \<bar>a\<bar>" "0 \<le> a \<longrightarrow> 0 \<le> b" "a < 0 \<longrightarrow> b \<le> 0"
  shows "conv t b = b"
proof -
  let ?n = "nat (sizeof t)"
  have n: "0 < ?n" "is_integer t" using assms(1) by (auto simp: int_scalar_def)
  show ?thesis
  proof (cases "unsigned_ty t")
    case True
    then have "low ?n a = a" using assms(2) n by (simp add: conv_def)
    then have "0 \<le> a" "a < 2 ^ (8 * ?n)" using low_bounds [of ?n a] by simp_all
    then have "low ?n b = b" using assms(3,4) by (intro low_id) auto
    then show ?thesis using True n by (simp add: conv_def)
  next
    case False
    then have "slow ?n a = a" using assms(2) n by (simp add: conv_def)
    then have "- (2 ^ (8 * ?n - 1)) \<le> a" "a < 2 ^ (8 * ?n - 1)" using slow_bounds [OF n(1), of a] by simp_all
    then have "slow ?n b = b" using assms(3-5) by (intro slow_id [OF n(1)]) auto
    then show ?thesis using False n by (simp add: conv_def)
  qed
qed

lemma conv_smod: "int_scalar t \<Longrightarrow> conv t a = a \<Longrightarrow> conv t (a smod b) = a smod b"
proof (erule conv_between)
  have m: "a smod b = sgn a * (\<bar>a\<bar> mod \<bar>b\<bar>)"
    by (simp add: signed_modulo_int_def signed_divide_int_def minus_mult_div_eq_mod [symmetric] algebra_simps sgn_if abs_if)
  have "\<bar>a\<bar> mod \<bar>b\<bar> \<le> \<bar>a\<bar>" "0 \<le> \<bar>a\<bar> mod \<bar>b\<bar>"
    by (cases "b = 0"; simp add: zmod_le_nonneg_dividend)+
  then show "\<bar>a smod b\<bar> \<le> \<bar>a\<bar>" "0 \<le> a \<longrightarrow> 0 \<le> a smod b" "a < 0 \<longrightarrow> a smod b \<le> 0"
    unfolding m by (auto simp: sgn_if abs_mult)
qed

lemma conv_drop_bit: "int_scalar t \<Longrightarrow> conv t a = a \<Longrightarrow> conv t (drop_bit k a) = drop_bit k a"
proof (erule conv_between)
  have p: "(1 :: int) \<le> 2 ^ k" by simp
  show "0 \<le> a \<longrightarrow> 0 \<le> drop_bit k a" "a < 0 \<longrightarrow> drop_bit k a \<le> 0"
    by (simp_all add: drop_bit_eq_div pos_imp_zdiv_nonneg_iff pos_imp_zdiv_neg_iff order_less_imp_le)
  show "\<bar>drop_bit k a\<bar> \<le> \<bar>a\<bar>"
  proof (cases "0 \<le> a")
    case True
    then show ?thesis using zdiv_mono2 [of a 1 "2 ^ k"] by (simp add: drop_bit_eq_div pos_imp_zdiv_nonneg_iff)
  next
    case False
    then have "a div 2 ^ k < 0" by (simp add: pos_imp_zdiv_neg_iff)
    then show ?thesis using False zdiv_mono2_neg [of a 1 "2 ^ k"] by (simp add: drop_bit_eq_div)
  qed
qed

lemma good_binary:
  assumes "sem_binary k t lt rt a b = Some v" "scalar t" "k = ND_DIV \<or> k = ND_MOD \<or> k = ND_SHL \<or> k = ND_SHR \<Longrightarrow> int_scalar t"
    "is_comparison k \<Longrightarrow> t = ty_int"
  shows "good_value t v"
proof -
  have "conv t v = v"
    using assms conv_conv [OF assms(2)] conv_smod [of t] conv_drop_bit [of t] conv_bool
    by (auto simp: sem_binary_def sem_div_def sem_shift_def sem_arith_def Let_def split: if_splits)
  then show ?thesis using scalar_facts(4) [OF assms(2)] by (simp add: good_value_def)
qed


section \<open>What the well-formedness conditions give\<close>

lemma ctype_of_Some: "ndty n = Some t \<Longrightarrow> tyof n = t"
  by (simp add: ctype_of_def)

lemma value_ok_opt_Some: "value_ok_opt b x \<longleftrightarrow> (\<exists>n. x = Some n \<and> value_ok b n)"
  by (cases x) simp_all

lemma addr_ok_opt_Some: "addr_ok_opt x \<longleftrightarrow> (\<exists>n. x = Some n \<and> addr_ok n)"
  by (cases x) simp_all

definition binary_kind :: "node_kind \<Rightarrow> bool" where
  "binary_kind k \<longleftrightarrow> k \<in> {ND_ADD, ND_SUB, ND_MUL, ND_DIV, ND_MOD, ND_SHL, ND_SHR, ND_BITAND, ND_BITXOR, ND_BITOR,
     ND_EQ, ND_NE, ND_LT, ND_LE}"

text \<open>The cases of a well-formed expression.\<close>

lemma value_ok_cases:
  assumes "value_ok b n"
  obtains
    (num) "ndkind n = ND_NUM" "num_ok n"
  | (lvar) "ndkind n = ND_LVAR" "lvar_ok n"
  | (assign) l x where "ndkind n = ND_ASSIGN" "assign_ok b n" "lhs n = Some l" "rhs n = Some x" "addr_ok l" "value_ok True x"
  | (promoted) l where "ndkind n = ND_NEG \<or> ndkind n = ND_BITNOT" "promoted_ok n" "lhs n = Some l" "value_ok True l"
  | (not) l where "ndkind n = ND_NOT" "tyof n = ty_int" "lhs n = Some l" "scalar (tyof l)" "value_ok True l"
  | (post) l where "ndkind n = ND_POST_INC \<or> ndkind n = ND_POST_DEC" "post_ok b n" "lhs n = Some l" "addr_ok l"
  | (member) l where "ndkind n = ND_MEMBER" "scalar (tyof n) \<or> is_array (tyof n)" "member_ok n" "lhs n = Some l" "addr_ok l"
  | (addr) l where "ndkind n = ND_ADDR" "scalar (tyof n)" "\<not> is_integer (tyof n)" "lhs n = Some l" "addr_ok l"
  | (deref) l where "ndkind n = ND_DEREF" "scalar (tyof n) \<or> is_array (tyof n)" "lhs n = Some l" "address_ty (tyof l)" "value_ok True l"
  | (cast) l where "ndkind n = ND_CAST" "scalar (tyof n)" "lhs n = Some l" "scalar (tyof l) \<or> is_array (tyof l)"
      "to_bool_ok (tyof n) (Some l)" "value_ok True l"
  | (comma) l x where "ndkind n = ND_COMMA \<or> ndkind n = ND_CHAIN" "lhs n = Some l" "rhs n = Some x" "ndty n = Some (tyof x)"
      "value_ok False l" "value_ok b x"
  | (logical) l x where "ndkind n = ND_LOGAND \<or> ndkind n = ND_LOGOR" "logical_ok n" "lhs n = Some l" "rhs n = Some x"
      "value_ok True l" "value_ok True x"
  | (cond) q x y where "ndkind n = ND_COND" "cond_ok n" "ncond n = Some q" "nthen n = Some x" "nels n = Some y"
      "value_ok True q" "value_ok True x" "value_ok True y"
  | (binary) l x where "binary_kind (ndkind n)" "binary_ok n" "lhs n = Some l" "rhs n = Some x" "value_ok True l" "value_ok True x"
proof (cases "ndkind n")
  case ND_ASSIGN then show ?thesis using assms that(3) by (auto simp: value_ok.simps [of b n] value_ok_opt_Some addr_ok_opt_Some)
next
  case ND_POST_INC then show ?thesis using assms that(6) by (auto simp: value_ok.simps [of b n] value_ok_opt_Some addr_ok_opt_Some)
next
  case ND_POST_DEC then show ?thesis using assms that(6) by (auto simp: value_ok.simps [of b n] value_ok_opt_Some addr_ok_opt_Some)
next
  case ND_COMMA then show ?thesis using assms that(11) by (auto simp: value_ok.simps [of b n] value_ok_opt_Some)
next
  case ND_CHAIN then show ?thesis using assms that(11) by (auto simp: value_ok.simps [of b n] value_ok_opt_Some)
next
  case ND_LOGAND then show ?thesis using assms that(12) by (auto simp: value_ok.simps [of b n] value_ok_opt_Some)
next
  case ND_LOGOR then show ?thesis using assms that(12) by (auto simp: value_ok.simps [of b n] value_ok_opt_Some)
next
  case ND_COND then show ?thesis using assms that(13) by (auto simp: value_ok.simps [of b n] value_ok_opt_Some)
next
  case ND_NUM then show ?thesis using assms that(1) by (simp add: value_ok.simps [of b n])
next
  case ND_LVAR then show ?thesis using assms that(2) by (simp add: value_ok.simps [of b n])
next
  case ND_NEG then show ?thesis using assms that(4) by (auto simp: value_ok.simps [of b n] value_ok_opt_Some)
next
  case ND_BITNOT then show ?thesis using assms that(4) by (auto simp: value_ok.simps [of b n] value_ok_opt_Some)
next
  case ND_NOT then show ?thesis using assms that(5) by (auto simp: value_ok.simps [of b n] value_ok_opt_Some)
next
  case ND_MEMBER then show ?thesis using assms that(7) by (auto simp: value_ok.simps [of b n] addr_ok_opt_Some)
next
  case ND_ADDR then show ?thesis using assms that(8) by (auto simp: value_ok.simps [of b n] addr_ok_opt_Some)
next
  case ND_DEREF then show ?thesis using assms that(9) by (auto simp: value_ok.simps [of b n] value_ok_opt_Some)
next
  case ND_CAST then show ?thesis using assms that(10) by (auto simp: value_ok.simps [of b n] value_ok_opt_Some)
qed (use assms that(14) in \<open>auto simp: value_ok.simps [of b n] value_ok_opt_Some binary_kind_def\<close>)

lemma addr_ok_cases:
  assumes "addr_ok n"
  obtains
    (lvar) v where "ndkind n = ND_LVAR" "lvar_addr_ok n" "nvar (info n) = Some v"
  | (deref) l where "ndkind n = ND_DEREF" "lhs n = Some l" "address_ty (tyof l)" "value_ok True l"
  | (member) m l where "ndkind n = ND_MEMBER" "member_ok n" "nmember (info n) = Some m" "lhs n = Some l" "addr_ok l"
proof (cases "ndkind n")
  case ND_LVAR then show ?thesis using assms that(1) by (auto simp: addr_ok.simps [of n] lvar_addr_ok_def split: option.splits)
next
  case ND_DEREF then show ?thesis using assms that(2) by (auto simp: addr_ok.simps [of n] value_ok_opt_Some)
next
  case ND_MEMBER then show ?thesis using assms that(3) by (auto simp: addr_ok.simps [of n] addr_ok_opt_Some member_ok_def split: option.splits)
qed (use assms in \<open>simp_all add: addr_ok.simps [of n]\<close>)

lemma value_ok_typed: "value_ok b n \<Longrightarrow> ndty n = Some (tyof n)"
  by (auto simp: value_ok.simps [of b n] ctype_of_def split: option.splits)

end
