(* ===== verification/GenExpr.thy ===== *)
theory GenExpr
  imports GenRange
begin

text \<open>
  The correctness theorem for expressions: every well-formed expression and every well-formed
  address implements its meaning (\<open>gen_implements\<close>, \<open>gen_addr_implements\<close>), by induction on the size
  of the node over the cases of the theories before.
\<close>

section \<open>The range of an expression\<close>

lemma cev_binary:
  assumes "binary_kind (ndkind n)" "lhs n = Some l" "rhs n = Some x"
  shows "cev E n = cbind (cev E l) (\<lambda>a. cbind (cev E x) (\<lambda>b. cpure (sem_binary (ndkind n) (tyof n) (tyof l) (tyof x) a b)))"
  using assms by (auto simp: cev.simps [of E n] binary_kind_def ctype_of_def)

lemma sem_load_good: "sem_load E t p m = Some (v, m') \<Longrightarrow> scalar t \<Longrightarrow> good_value t v"
  by (auto simp: sem_load_def cload_def split: if_splits)

lemma good_address: "good_value t v \<Longrightarrow> address_ty t \<Longrightarrow> slow 8 v = v"
  by (auto simp: good_value_def address_ty_def conv_def)

lemma good_address_value: "slow 8 v = v \<Longrightarrow> scalar t \<Longrightarrow> \<not> is_integer t \<Longrightarrow> good_value t v"
  by (simp add: good_value_def conv_def)

lemma good_bool: "good_value ty_int (of_bool q)"
  by (simp add: good_value_def is_array_def static_types) (simp add: conv_def slow_def static_types is_integer_def)

lemma binary_ok_type:
  assumes "binary_ok n" "binary_kind (ndkind n)"
  shows "scalar (tyof n)" "ndkind n = ND_DIV \<or> ndkind n = ND_MOD \<or> ndkind n = ND_SHL \<or> ndkind n = ND_SHR \<Longrightarrow> int_scalar (tyof n)"
    "is_comparison (ndkind n) \<Longrightarrow> tyof n = ty_int"
proof -
  show d: "int_scalar (tyof n)" if "ndkind n = ND_DIV \<or> ndkind n = ND_MOD \<or> ndkind n = ND_SHL \<or> ndkind n = ND_SHR"
    using assms(1) that by (auto simp: binary_ok_def div_ok_def shift_ok_def)
  show c: "tyof n = ty_int" if "is_comparison (ndkind n)"
    using assms(1) that by (auto simp: binary_ok_def compare_ok_def is_comparison_def Let_def)
  show "scalar (tyof n)"
  proof (cases "ndkind n = ND_DIV \<or> ndkind n = ND_MOD \<or> ndkind n = ND_SHL \<or> ndkind n = ND_SHR \<or> is_comparison (ndkind n)")
    case True
    then show ?thesis using d c int_scalar_scalar by auto
  next
    case False
    then show ?thesis using assms(1) by (simp add: binary_ok_def arith_ok_def Let_def)
  qed
qed

lemma caddr_range_step:
  assumes IH: "\<And>x b E m v m'. size x < size n \<Longrightarrow> value_ok b x \<Longrightarrow> cev E x m = Some (v, m') \<Longrightarrow> good_value (tyof x) v"
    and n: "addr_ok n" "caddr E n m = Some (v, m')"
  shows "slow 8 v = v"
  using n(1)
proof (cases rule: addr_ok_cases)
  case (lvar w)
  then show ?thesis using n(2) by (auto simp: caddr.simps [of E n] cret_def)
next
  case (deref l)
  then have "size l < size n" using node_child_size(1) [of n] by simp
  moreover have "cev E l m = Some (v, m')" using n(2) deref by (simp add: caddr.simps [of E n])
  ultimately show ?thesis using IH [of l True] deref good_address by blast
next
  case (member x l)
  then show ?thesis using n(2) by (auto simp: caddr.simps [of E n] cret_def cbind_Some)
qed

lemma cev_range_step:
  assumes IH: "\<And>x b E m v m'. size x < size n \<Longrightarrow> value_ok b x \<Longrightarrow> cev E x m = Some (v, m') \<Longrightarrow> good_value (tyof x) v"
    and AH: "\<And>x E m v m'. size x \<le> size n \<Longrightarrow> addr_ok x \<Longrightarrow> caddr E x m = Some (v, m') \<Longrightarrow> slow 8 v = v"
    and n: "value_ok b n" "cev E n m = Some (v, m')"
  shows "good_value (tyof n) v"
proof -
  note ch = node_child_size [of n]
  note ev = n(2) [unfolded cev.simps [of E n]]
  note d = cbind_Some cret_def cpure_def cfail_def
  show ?thesis
    using n(1)
  proof (cases rule: value_ok_cases)
    case num
    then show ?thesis using ev good_conv [of "tyof n" "ndval n"] by (auto simp: d num_ok_def)
  next
    case lvar
    then show ?thesis
      using ev sem_load_good [of E "tyof n"] array_facts(5) [of "tyof n"]
      by (auto simp: d lvar_ok_def sem_lvar_def Let_def good_value_def split: option.splits if_splits)
  next
    case (assign l x)
    then show ?thesis
      using ev by (auto simp: d assign_ok_def Let_def sem_assign_def sem_store_def cstore_def ctype_of_def split: if_splits option.splits)
  next
    case (promoted l)
    then show ?thesis using ev int_scalar_scalar by (auto simp: d promoted_ok_def)
  next
    case (not l)
    then show ?thesis using ev good_bool by (auto simp: d)
  next
    case (post l)
    then have "scalar (tyof l)" "tyof n = tyof l" by (auto simp: post_ok_def Let_def ctype_of_def)
    then show ?thesis
      using ev post sem_load_good [of E "tyof l"]
      by (auto simp: d sem_post_def sem_store_def split: option.splits)
  next
    case (member l)
    have "addr_ok n" using member by (simp add: addr_ok.simps [of n])
    then show ?thesis
      using ev member sem_load_good [of E "tyof n"] AH [of n] array_facts(5) [of "tyof n"]
      by (auto simp: d sem_read_def good_value_def split: if_splits)
  next
    case (addr l)
    then show ?thesis using ev AH [of l] ch(1) good_address_value by auto
  next
    case (deref l)
    have "slow 8 u = u" if "cev E l m = Some (u, m1)" for u m1
    proof (rule good_address)
      have "size l < size n" using ch(1) deref(3) by simp
      then show "good_value (tyof l) u" using IH [OF _ deref(5) that] by blast
    qed (rule deref(4))
    then show ?thesis
      using ev deref sem_load_good [of E "tyof n"] array_facts(5) [of "tyof n"]
      by (auto simp: d sem_read_def good_value_def [of "tyof n"] split: if_splits)
  next
    case (cast l)
    then show ?thesis using ev by (auto simp: d)
  next
    case (comma l x)
    then have "tyof n = tyof x" by (simp add: ctype_of_Some)
    then show ?thesis using ev comma IH [of x] ch(2) by (auto simp: d)
  next
    case (logical l x)
    then show ?thesis using ev good_bool [of True] good_bool [of False] by (auto simp: d sem_logical_def logical_ok_def split: if_splits)
  next
    case (cond q x y)
    then show ?thesis using ev by (auto simp: d cond_ok_def Let_def)
  next
    case (binary l x)
    then show ?thesis
      using n(2) cev_binary [OF binary(1,3,4), of E] good_binary binary_ok_type [OF binary(2,1)] by (auto simp: d)
  qed
qed

lemma ranges:
  "(\<forall>b E m v m'. value_ok b n \<longrightarrow> cev E n m = Some (v, m') \<longrightarrow> good_value (tyof n) v) \<and>
   (\<forall>E m v m'. addr_ok n \<longrightarrow> caddr E n m = Some (v, m') \<longrightarrow> slow 8 v = v)"
proof (induction n rule: measure_induct_rule [where f = size])
  case (less n)
  have IH: "\<And>x b E m v m'. size x < size n \<Longrightarrow> value_ok b x \<Longrightarrow> cev E x m = Some (v, m') \<Longrightarrow> good_value (tyof x) v"
    using less.IH by blast
  have A: "addr_ok n \<Longrightarrow> caddr E n m = Some (v, m') \<Longrightarrow> slow 8 v = v" for E m v m'
    using caddr_range_step [of n] IH by blast
  have AH: "slow 8 v = v" if "size x \<le> size n" "addr_ok x" "caddr E x m = Some (v, m')" for x E m v m'
  proof (cases "size x < size n")
    case True
    then show ?thesis using less.IH that by blast
  next
    case False
    then have "size x = size n" using that(1) by simp
    then show ?thesis using caddr_range_step [of x] IH that by (metis less_le_not_le)
  qed
  show ?case using A cev_range_step [of n] IH AH by blast
qed

lemma cev_range: "value_ok b n \<Longrightarrow> cev E n m = Some (v, m') \<Longrightarrow> good_value (tyof n) v"
  and caddr_range: "addr_ok n \<Longrightarrow> caddr E n m = Some (v, m') \<Longrightarrow> slow 8 v = v"
  using ranges [of n] by blast+

lemma cev_in_range: "value_ok b n \<Longrightarrow> scalar (tyof n) \<Longrightarrow> in_range (\<lambda>E. cev E n) (tyof n)"
  using cev_range [of b n] by (auto simp: in_range_def good_value_def)

lemma boolish_range:
  assumes "value_ok b n" "boolish n"
  shows "zero_or_one (\<lambda>E. cev E n)"
proof -
  have "v = 0 \<or> v = 1" if v: "cev E n m = Some (v, m')" for E m v m'
    using assms(1)
  proof (cases rule: value_ok_cases)
    case (not l)
    then show ?thesis using v by (auto simp: cev.simps [of E n] cbind_Some cret_def)
  next
    case (logical l x)
    then show ?thesis using v by (auto simp: cev.simps [of E n] cbind_Some cret_def sem_logical_def split: if_splits)
  next
    case (binary l x)
    then have "is_comparison (ndkind n)" using assms(2) by (auto simp: boolish_def binary_kind_def is_comparison_def)
    then show ?thesis using v cev_binary [OF binary(1,3,4), of E]
      by (auto simp: cbind_Some cpure_def sem_binary_def sem_arith_def is_comparison_def)
  qed (use assms(2) in \<open>auto simp: boolish_def\<close>)
  then show ?thesis by (auto simp: zero_or_one_def)
qed


section \<open>Correctness of expressions\<close>

text \<open>The code of an address leaves a pointer.\<close>

abbreviation addr_type :: ctype where
  "addr_type \<equiv> pointer_to ty_void"

definition value_right :: "fenv \<Rightarrow> node \<Rightarrow> bool" where
  "value_right F n \<longleftrightarrow> (\<forall>b. value_ok b n \<longrightarrow> implements (gen F n) (\<lambda>E. cev E n) (tyof n) (rneed n) b)"

definition addr_right :: "fenv \<Rightarrow> node \<Rightarrow> bool" where
  "addr_right F n \<longleftrightarrow> (addr_ok n \<longrightarrow> implements (gen_addr F n) (\<lambda>E. caddr E n) addr_type (aneed n) True)"

lemma value_rightD: "value_right F n \<Longrightarrow> value_ok b n \<Longrightarrow> implements (gen F n) (\<lambda>E. cev E n) (tyof n) (rneed n) b"
  unfolding value_right_def by blast

lemma addr_rightD: "addr_right F n \<Longrightarrow> addr_ok n \<Longrightarrow> implements (gen_addr F n) (\<lambda>E. caddr E n) addr_type (aneed n) True"
  unfolding addr_right_def by blast

lemma vbytes_addr [simp]: "vbytes addr_type = 8"
  by (simp add: vbytes_def is_integer_def pointer_to_opt_def zero_info_def)

lemma address_bytes: "address_ty t \<Longrightarrow> vbytes t = 8"
  using array_facts(1) by (auto simp: address_ty_def vbytes_pointer)

lemma addr_right_step:
  assumes V: "\<And>l. lhs n = Some l \<Longrightarrow> value_right F l" and A: "\<And>l. lhs n = Some l \<Longrightarrow> addr_right F l"
  shows "addr_right F n"
  unfolding addr_right_def
proof
  assume "addr_ok n"
  then show "implements (gen_addr F n) (\<lambda>E. caddr E n) addr_type (aneed n) True"
  proof (cases rule: addr_ok_cases)
    case (lvar v)
    then show ?thesis
      using implements_addr_lvar [OF lvar(2,3), of addr_type] by (simp add: gen_addr.simps [of F n] caddr.simps [of _ n] aneed.simps [of n])
  next
    case (deref l)
    have "implements (gen F l) (\<lambda>E. cev E l) addr_type (rneed l) True"
      using implements_retype [OF value_rightD [OF V [OF deref(2)] deref(4)]] address_bytes [OF deref(3)] by simp
    then show ?thesis using deref(1,2) by (simp add: gen_addr.simps [of F n] caddr.simps [of _ n] aneed.simps [of n])
  next
    case (member m l)
    show ?thesis
      using implements_addr_member [OF addr_rightD [OF A [OF member(4)] member(5)] member(2,3)] member(1,3,4)
      by (simp add: gen_addr.simps [of F n] caddr.simps [of _ n] aneed.simps [of n])
  qed
qed


lemma assign_exact_assigned:
  assumes "assign_exact l lt rt" "value_ok True x" "tyof x = rt" "local_scalar l = None"
  shows "assigned_exact lt rt (\<lambda>E. cev E x)"
  using assms cev_in_range [of True x] int_scalar_scalar by (auto simp: assign_exact_def assigned_exact_def)

lemma assign_right:
  assumes n: "ndkind n = ND_ASSIGN" "assign_ok b n" "lhs n = Some l" "rhs n = Some x" "addr_ok l" "value_ok True x"
    and V: "value_right F x" and A: "addr_right F l"
  shows "implements (gen F n) (\<lambda>E. cev E n) (tyof n) (rneed n) b"
proof -
  let ?lt = "tyof l" and ?rt = "tyof x"
  have t: "ndty l = Some ?lt" "tyof n = ?lt" "scalar ?lt" "scalar ?rt \<or> is_array ?rt" "sizeof ?lt \<le> int (vbytes ?rt)"
    and bl: "to_bool_ok ?lt (Some x)" and ex: "b \<Longrightarrow> assign_exact l ?lt ?rt"
    using n(2-4) by (auto simp: assign_ok_def Let_def ctype_of_def)
  have sz: "nat (sizeof ?lt) \<le> vbytes ?rt" "4 \<le> vbytes ?rt"
    using t(4,5) scalar_facts(10) [of ?rt] array_facts(1) [of ?rt] by auto
  have zo: "is_bool ?lt \<Longrightarrow> zero_or_one (\<lambda>E. cev E x)"
    using bl boolish_range [OF n(6)] by (auto simp: to_bool_ok_def)
  note R = value_rightD [OF V n(6)]
  have sem: "cev E n = sem_assign E ?lt (caddr E l) (cev E x)" for E
    using n by (simp add: cev.simps [of E n])
  have code: "gen F n = (case local_scalar l of Some v \<Rightarrow> assign_local v ?lt (gen F x)
      | None \<Rightarrow> with_reg (gen_addr F l) (\<lambda>r1. with_reg (gen F x) (\<lambda>r2.
          gseq (emit [Mov S_none (reg r2 (sizeof ?lt)) (Mem 0 (phys r1))]) (gseq (free_reg r1) (gret (Some r2))))))"
  proof -
    have "\<not> is_field l" using n(5) by (auto simp: is_field_def addr_ok.simps [of l] member_ok_def split: option.splits)
    then show ?thesis
      using n t(1) scalar_facts(1,6) [OF t(3)]
      by (simp add: gen.simps [of F n] gen_assign_def with_child_def with_type_def split: option.splits)
  qed
  have need: "rneed n = max (aneed l) (1 + rneed x)" using n by (simp add: rneed.simps [of n])
  show ?thesis
  proof (cases "local_scalar l")
    case None
    have "b \<Longrightarrow> assigned_exact ?lt ?rt (\<lambda>E. cev E x)" using ex assign_exact_assigned [OF _ n(6) refl None] by blast
    then have "implements (with_reg (gen_addr F l) (\<lambda>r1. with_reg (gen F x) (\<lambda>r2.
          gseq (emit [Mov S_none (reg r2 (sizeof ?lt)) (Mem 0 (phys r1))]) (gseq (free_reg r1) (gret (Some r2))))))
        (\<lambda>E. sem_assign E ?lt (caddr E l) (cev E x)) ?lt (max (aneed l) (1 + rneed x)) b"
      by (intro implements_assign_mem [OF addr_rightD [OF A n(5)] vbytes_addr R t(3) sz(1) zo])
    then show ?thesis unfolding sem code need t(2) using None by simp
  next
    case (Some v)
    then have v: "ndkind l = ND_LVAR" "nvar (info l) = Some v" "vis_local v"
      by (auto simp: local_scalar_def split: if_splits option.splits)
    have ca: "caddr E l = cret (slow 8 (uint (vaddr E v)))" for E using v by (simp add: caddr.simps [of E l])
    have "b \<Longrightarrow> assigned_exact ?lt ?rt (\<lambda>E. cev E x) \<or> unsigned_ty ?lt"
      using ex cev_in_range [OF n(6)] int_scalar_scalar by (auto simp: assign_exact_def assigned_exact_def)
    then have "implements (assign_local v ?lt (gen F x))
        (\<lambda>E. sem_assign E ?lt (cret (slow 8 (uint (vaddr E v)))) (cev E x)) ?lt (rneed x) b"
      by (intro implements_assign_local [OF R v(3) t(3) sz zo])
    then show ?thesis unfolding sem code need t(2) ca using Some implements_weaken by simp
  qed
qed

lemma post_right:
  assumes n: "ndkind n = ND_POST_INC \<or> ndkind n = ND_POST_DEC" "post_ok b n" "lhs n = Some l" "addr_ok l" and A: "addr_right F l"
  shows "implements (gen F n) (\<lambda>E. cev E n) (tyof n) (rneed n) b"
proof -
  let ?lt = "tyof l"
  obtain d where t: "tyof n = ?lt" "scalar ?lt" "step_width ?lt = Some d" "in32 d" "b \<Longrightarrow> 4 \<le> sizeof ?lt"
    using n(2,3) by (auto simp: post_ok_def Let_def ctype_of_def split: option.splits)
  have l: "ndty l = Some ?lt"
  proof (cases "ndty l")
    case None
    then have "?lt = ty_void" by (simp add: ctype_of_def)
    then show ?thesis using t(2) by (simp add: scalar_def is_integer_def static_types)
  qed (simp add: ctype_of_def)
  have "\<not> is_field l" using n(4) by (auto simp: is_field_def addr_ok.simps [of l] member_ok_def split: option.splits)
  note i = implements_post [OF addr_rightD [OF A n(4)] vbytes_addr n(3) l this t(2-4), of b, OF t(5) refl]
  have "gen F n = gen_post n (gen_addr F l)" "rneed n = max (aneed l) 2" "cev E n = sem_post E (ndkind n) ?lt (caddr E l)" for E
    using n(1,3) by (auto simp: gen.simps [of F n] cev.simps [of E n] rneed.simps [of n])
  then show ?thesis using i t(1) by simp
qed

lemma cond_right:
  assumes n: "ndkind n = ND_COND" "cond_ok n" "ncond n = Some q" "nthen n = Some x" "nels n = Some y"
    "value_ok True q" "value_ok True x" "value_ok True y"
    and V: "value_right F q" "value_right F x" "value_right F y"
  shows "implements (gen F n) (\<lambda>E. cev E n) (tyof n) (rneed n) b"
proof -
  have t: "scalar (tyof q)" "scalar (tyof n)" "4 \<le> sizeof (tyof n)" "vbytes (tyof x) = vbytes (tyof n)" "vbytes (tyof y) = vbytes (tyof n)"
    using n(2-5) by (simp_all add: cond_ok_def Let_def)
  note i = implements_cond [OF value_rightD [OF V(1) n(6)] value_rightD [OF V(2) n(7)] value_rightD [OF V(3) n(8)] n(3)
    value_ok_typed [OF n(6)] cev_in_range [OF n(6) t(1)] t(1,4,5) conv_low_wide [OF t(2,3)], of b]
  have "gen F n = gen_cond n (gen F q) (gen F x) (gen F y)" "rneed n = 1 + max (rneed q) (max (rneed x) (rneed y))"
    "cev E n = sem_cond (tyof n) (cev E q) (cev E x) (cev E y)" for E
    using n by (simp_all add: gen.simps [of F n] cev.simps [of E n] rneed.simps [of n] sem_cond_def cong: if_cong)
  then show ?thesis using i by simp
qed

lemma logical_right:
  assumes n: "ndkind n = ND_LOGAND \<or> ndkind n = ND_LOGOR" "logical_ok n" "lhs n = Some l" "rhs n = Some x"
    "value_ok True l" "value_ok True x" and V: "value_right F l" "value_right F x"
  shows "implements (gen F n) (\<lambda>E. cev E n) (tyof n) (rneed n) b"
proof -
  have t: "scalar (tyof l)" "scalar (tyof x)" "vbytes (tyof n) = 4" using n(2-4) by (simp_all add: logical_ok_def)
  note i = implements_logical [OF value_rightD [OF V(1) n(5)] value_rightD [OF V(2) n(6)] cev_in_range [OF n(5) t(1)]
    cev_in_range [OF n(6) t(2)] t(1,2) n(3) value_ok_typed [OF n(5)] n(4) value_ok_typed [OF n(6)] _ t(3)]
  show ?thesis
  proof (cases "ndkind n = ND_LOGAND")
    case True
    then show ?thesis
      using i [of True 0 CC_E b] n(3,4) by (simp add: gen.simps [of F n] cev.simps [of _ n] rneed.simps [of n])
  next
    case False
    then show ?thesis
      using i [of False 1 CC_NE b] n(1,3,4) by (simp add: gen.simps [of F n] cev.simps [of _ n] rneed.simps [of n])
  qed
qed


lemma binary_ok_operands:
  assumes "binary_ok n" "binary_kind (ndkind n)" "lhs n = Some l" "rhs n = Some x"
  shows "scalar (tyof l) \<or> is_array (tyof l)" "scalar (tyof x)"
    "\<not> (ndkind n = ND_DIV \<or> ndkind n = ND_MOD \<or> ndkind n = ND_SHL \<or> ndkind n = ND_SHR) \<Longrightarrow>
      operands_ok (ndkind n) (tyof n) (tyof l) (tyof x) (small_literal (rhs n))"
proof -
  consider (div) "div_ok n" "ndkind n = ND_DIV \<or> ndkind n = ND_MOD" | (shift) "shift_ok n" "ndkind n = ND_SHL \<or> ndkind n = ND_SHR"
    | (compare) "compare_ok n" "is_comparison (ndkind n)"
    | (arith) "arith_ok n" "arith_kind (ndkind n)" "\<not> is_comparison (ndkind n)"
    using assms(1,2) by (auto simp: binary_ok_def binary_kind_def arith_kind_def is_comparison_def split: if_splits)
  then have "(scalar (tyof l) \<or> is_array (tyof l)) \<and> scalar (tyof x) \<and>
    (\<not> (ndkind n = ND_DIV \<or> ndkind n = ND_MOD \<or> ndkind n = ND_SHL \<or> ndkind n = ND_SHR) \<longrightarrow>
      operands_ok (ndkind n) (tyof n) (tyof l) (tyof x) (small_literal (rhs n)))"
  proof cases
    case div
    then show ?thesis using assms(3,4) int_scalar_scalar by (auto simp: div_ok_def)
  next
    case shift
    then show ?thesis using assms(3,4) int_scalar_scalar by (auto simp: shift_ok_def)
  next
    case compare
    then show ?thesis using assms(3,4) int_scalar_scalar by (auto simp: compare_ok_def operands_ok_def Let_def)
  next
    case arith
    then show ?thesis using assms(3,4) by (auto simp: arith_ok_def operands_ok_def Let_def split: if_splits)
  qed
  then show "scalar (tyof l) \<or> is_array (tyof l)" "scalar (tyof x)"
    "\<not> (ndkind n = ND_DIV \<or> ndkind n = ND_MOD \<or> ndkind n = ND_SHL \<or> ndkind n = ND_SHR) \<Longrightarrow>
      operands_ok (ndkind n) (tyof n) (tyof l) (tyof x) (small_literal (rhs n))" by blast+
qed

lemma no_wide_field: "value_ok b x \<Longrightarrow> field_operand_width (Some x) = 0"
  by (erule value_ok_cases) (auto simp: field_operand_width_def member_ok_def binary_kind_def split: option.splits)

lemma literal_value:
  assumes "value_ok b x" "ndkind x = ND_NUM"
  shows "(\<forall>E. cev E x = cret (conv (tyof x) (ndval x))) \<and> (4 \<le> sizeof (tyof x) \<or> conv (tyof x) (ndval x) = ndval x)"
  using assms(1)
  by (cases rule: value_ok_cases) (use assms(2) in \<open>auto simp: num_ok_def cev.simps [of _ x] binary_kind_def\<close>)

lemma binary_right:
  assumes n: "binary_kind (ndkind n)" "binary_ok n" "lhs n = Some l" "rhs n = Some x" "value_ok True l" "value_ok True x"
    and N: "value_ok b n" and V: "value_right F l" "value_right F x"
  shows "implements (gen F n) (\<lambda>E. cev E n) (tyof n) (rneed n) b"
proof -
  note t = value_ok_typed [OF N] value_ok_typed [OF n(5)] value_ok_typed [OF n(6)]
  note o = binary_ok_operands [OF n(2,1,3,4)]
  note L = value_rightD [OF V(1) n(5)] and R = value_rightD [OF V(2) n(6)]
  have fl: "\<not> is_flonum (tyof n)" "\<not> is_flonum (tyof l)" "\<not> is_flonum (tyof x)"
    using scalar_facts(1) [OF binary_ok_type(1) [OF n(2,1)]] scalar_facts(1) [of "tyof l"] array_facts(2) [of "tyof l"]
      scalar_facts(1) [of "tyof x"] o by auto
  have need: "rneed n = max (rneed l) (1 + rneed x)" using n(1,3,4) by (auto simp: rneed.simps [of n] binary_kind_def)
  have gb: "gen F n = gen_binary n (gen F l) (gen F x)" using n(1,3,4) by (auto simp: gen.simps [of F n] binary_kind_def)
  note sem = cev_binary [OF n(1,3,4)]
  let ?k = "ndkind n"
  consider (div) "?k = ND_DIV \<or> ?k = ND_MOD" | (shift) "?k = ND_SHL \<or> ?k = ND_SHR"
    | (arith) "\<not> (?k = ND_DIV \<or> ?k = ND_MOD \<or> ?k = ND_SHL \<or> ?k = ND_SHR)" by blast
  then show ?thesis
  proof cases
    case div
    have ok: "int_scalar (tyof n)" "4 \<le> sizeof (tyof n)" "vbytes (tyof l) = vbytes (tyof n)" "vbytes (tyof x) = vbytes (tyof n)"
      using n(2-4) div by (simp_all add: binary_ok_def div_ok_def)
    have "gen F n = with_reg (gen F l) (\<lambda>a. gen_div n a (gen F x))"
      unfolding gb using n(3,4) t fl div by (simp add: gen_binary_def with_child_def with_type_def)
    moreover have "sem_binary ?k = (\<lambda>t lt rt. sem_div ?k t)" using div by (auto simp: sem_binary_def fun_eq_iff)
    ultimately show ?thesis unfolding need sem using implements_div [OF L R t(1) div ok] by simp
  next
    case shift
    have ok: "int_scalar (tyof n)" "4 \<le> sizeof (tyof n)" "vbytes (tyof n) = vbytes (tyof l)"
      using n(2-4) shift by (auto simp: binary_ok_def shift_ok_def)
    have "gen F n = with_reg (gen F l) (\<lambda>a. gen_shift n a (gen F x))"
      unfolding gb using n(3,4) t fl shift by (auto simp: gen_binary_def with_child_def with_type_def)
    moreover have "sem_binary ?k = (\<lambda>t lt rt. sem_shift ?k t)" using shift by (auto simp: sem_binary_def fun_eq_iff)
    ultimately show ?thesis
      unfolding need sem using implements_shift [OF L R n(3,4) t shift ok o(2) literal_value [OF n(6)]] by simp
  next
    case arith
    have k: "?k \<in> {ND_ADD, ND_SUB, ND_MUL, ND_BITAND, ND_BITXOR, ND_BITOR, ND_EQ, ND_NE, ND_LT, ND_LE}"
      using n(1) arith by (auto simp: binary_kind_def)
    have "gen F n = with_reg (gen F l) (\<lambda>a. gen_arith n a (gen F x))"
      unfolding gb using n(3,4) t fl arith k by (simp add: gen_binary_def with_child_def with_type_def)
    moreover have "sem_binary ?k = sem_arith ?k" using arith by (auto simp: sem_binary_def fun_eq_iff)
    moreover have "small_literal (rhs n) \<Longrightarrow> ndkind x = ND_NUM" using n(4) by (simp add: small_literal_def)
    ultimately show ?thesis
      unfolding need sem
      using implements_arith [OF L cev_in_range [OF n(5)] R cev_in_range [OF n(6)] n(3,4) t no_wide_field [OF n(5)]
          no_wide_field [OF n(6)] o(3) [OF arith] literal_value [OF n(6)]] by simp
  qed
qed

lemma value_right_step:
  assumes V: "\<And>x. size x < size n \<Longrightarrow> value_right F x" and A: "\<And>x. size x \<le> size n \<Longrightarrow> addr_right F x"
  shows "value_right F n"
  unfolding value_right_def
proof (intro allI impI)
  fix b assume N: "value_ok b n"
  note ch = node_child_size [of n]
  show "implements (gen F n) (\<lambda>E. cev E n) (tyof n) (rneed n) b"
    using N
  proof (cases rule: value_ok_cases)
    case num
    then show ?thesis
      using implements_num [OF num(2) value_ok_typed [OF N]] by (simp add: gen.simps [of F n] cev.simps [of _ n] rneed.simps [of n])
  next
    case lvar
    then show ?thesis
      using implements_lvar [OF lvar(2) value_ok_typed [OF N]] by (simp add: gen.simps [of F n] cev.simps [of _ n] rneed.simps [of n])
  next
    case (assign l x)
    then show ?thesis using assign_right [OF assign] V [of x] A [of l] ch(1,2) by simp
  next
    case (promoted l)
    then have s: "size l < size n" using ch(1) by simp
    have t: "scalar (tyof n)" "4 \<le> sizeof (tyof n)" "vbytes (tyof n) = vbytes (tyof l)"
      using promoted(2,3) int_scalar_scalar by (simp_all add: promoted_ok_def)
    note L = value_rightD [OF V [OF s] promoted(4)]
    show ?thesis
      using promoted(1)
    proof
      assume "ndkind n = ND_NEG"
      then show ?thesis
        using implements_neg [OF L value_ok_typed [OF N] t] promoted(3)
        by (simp add: gen.simps [of F n] cev.simps [of _ n] rneed.simps [of n])
    next
      assume "ndkind n = ND_BITNOT"
      then show ?thesis
        using implements_bitnot [OF L value_ok_typed [OF N] t] promoted(3)
        by (simp add: gen.simps [of F n] cev.simps [of _ n] rneed.simps [of n])
    qed
  next
    case (not l)
    then have s: "size l < size n" using ch(1) by simp
    have "vbytes (tyof n) = 4" using not(2) by simp
    then show ?thesis
      using implements_not [OF value_rightD [OF V [OF s] not(5)] cev_in_range [OF not(5,4)] not(3) value_ok_typed [OF not(5)] not(4)] not(1,3)
      by (simp add: gen.simps [of F n] cev.simps [of _ n] rneed.simps [of n])
  next
    case (post l)
    then show ?thesis using post_right [OF post] A [of l] ch(1) by simp
  next
    case (member l)
    have "addr_ok n" using member by (simp add: addr_ok.simps [of n])
    then have "implements (gen_addr F n) (\<lambda>E. caddr E n) addr_type (aneed n) True" using A [of n] addr_rightD by blast
    note i = implements_member [OF this member(3) value_ok_typed [OF N] member(2) vbytes_addr]
    then show ?thesis
      using member by (simp add: gen.simps [of F n] cev.simps [of _ n] rneed.simps [of n] aneed.simps [of n])
  next
    case (addr l)
    then have "implements (gen_addr F l) (\<lambda>E. caddr E l) addr_type (aneed l) True" using A [of l] addr_rightD ch(1) by simp
    then have "implements (gen_addr F l) (\<lambda>E. caddr E l) (tyof n) (aneed l) b"
      using implements_retype implements_weaken vbytes_pointer [OF addr(3)] by (metis order_refl vbytes_addr)
    then show ?thesis using addr by (simp add: gen.simps [of F n] cev.simps [of _ n] rneed.simps [of n])
  next
    case (deref l)
    then have s: "size l < size n" using ch(1) by simp
    note i = implements_deref [OF value_rightD [OF V [OF s] deref(5)] deref(2) address_bytes [OF deref(4)] value_ok_typed [OF N]]
    then show ?thesis using deref by (simp add: gen.simps [of F n] cev.simps [of _ n] rneed.simps [of n])
  next
    case (cast l)
    then have s: "size l < size n" using ch(1) by simp
    have fr: "scalar (tyof l) \<and> in_range (\<lambda>E. cev E l) (tyof l) \<or> is_array (tyof l)" using cast(4) cev_in_range [OF cast(6)] by blast
    have zo: "is_bool (tyof n) \<Longrightarrow> zero_or_one (\<lambda>E. cev E l)" using cast(5) boolish_range [OF cast(6)] by (simp add: to_bool_ok_def)
    note i = implements_cast [OF value_rightD [OF V [OF s] cast(6)] fr cast(3) value_ok_typed [OF cast(6)] value_ok_typed [OF N] cast(2) zo]
    then show ?thesis using cast(1,3) by (simp add: gen.simps [of F n] cev.simps [of _ n] rneed.simps [of n])
  next
    case (comma l x)
    then have s: "size l < size n" "size x < size n" "tyof n = tyof x" using ch(1,2) by (simp_all add: ctype_of_Some)
    note i = implements_comma [OF value_rightD [OF V [OF s(1)] comma(5)] value_rightD [OF V [OF s(2)] comma(6)]]
    then show ?thesis using comma(1-3) s(3) by (auto simp: gen.simps [of F n] cev.simps [of _ n] rneed.simps [of n])
  next
    case (logical l x)
    then show ?thesis using logical_right [OF logical] V [of l] V [of x] ch(1,2) by simp
  next
    case (cond q x y)
    then show ?thesis using cond_right [OF cond] V [of q] V [of x] V [of y] ch(3-5) by simp
  next
    case (binary l x)
    then show ?thesis using binary_right [OF binary N] V [of l] V [of x] ch(1,2) by simp
  qed
qed

lemma addr_right_smaller:
  assumes "\<And>x. size x < size n \<Longrightarrow> value_right F x \<and> addr_right F x"
  shows "addr_right F n"
proof (rule addr_right_step)
  fix l assume "lhs n = Some l"
  then have "size l < size n" using node_child_size(1) [of n] by simp
  then show "value_right F l" "addr_right F l" using assms by blast+
qed

lemma gen_right: "value_right F n \<and> addr_right F n"
proof (induction n rule: measure_induct_rule [where f = size])
  case (less n)
  have A: "addr_right F x" if "size x \<le> size n" for x
    by (rule addr_right_smaller, rule less.IH) (use that in simp)
  have "value_right F x" if "size x < size n" for x using less.IH [OF that] ..
  then have "value_right F n" using A by (rule value_right_step)
  then show ?case using A [of n] by simp
qed

lemma gen_implements: "value_ok b n \<Longrightarrow> implements (gen F n) (\<lambda>E. cev E n) (tyof n) (rneed n) b"
  using gen_right value_rightD by blast

lemma gen_addr_implements: "addr_ok n \<Longrightarrow> implements (gen_addr F n) (\<lambda>E. caddr E n) addr_type (aneed n) True"
  using gen_right addr_rightD by blast

end
