(* ===== verification/GenBranch.thy ===== *)
theory GenBranch
  imports GenExpr
begin

text \<open>
  Correctness of \<open>gen_cond_branch_inv\<close>: the code of a condition jumps to the label when the condition
  is false and falls through when it holds; a comparison is not materialised.
\<close>

section \<open>Conditional jumps\<close>

text \<open>Code that jumps to \<open>lab\<close> when the value is zero and falls through otherwise.\<close>

definition jumps_on_zero :: "int \<Rightarrow> nat set \<Rightarrow> instr list \<Rightarrow> label \<Rightarrow> (cenv \<Rightarrow> ceval) \<Rightarrow> bool" where
  "jumps_on_zero sl U c lab sem \<longleftrightarrow>
     (\<forall>E P i m mm v mm' j d. code_at P i c \<longrightarrow> distinct (labels P) \<longrightarrow> code_at P j (Label lab # d) \<longrightarrow> Rel E sl m mm \<longrightarrow>
        sem E mm = Some (v, mm') \<longrightarrow>
        (\<exists>m'. steps P (i, m) (if v = 0 then j else i + length c, m') \<and> Rel E sl m' mm' \<and> keeps E sl U m m'))"

definition branches :: "(label \<Rightarrow> unit gm) \<Rightarrow> (cenv \<Rightarrow> ceval) \<Rightarrow> nat \<Rightarrow> bool" where
  "branches f sem k \<longleftrightarrow>
     (\<forall>lab g. ready g \<longrightarrow> k \<le> free_count (used g) \<longrightarrow>
        (\<exists>c g'. f lab g = Some ((), c, g') \<and> gext (used g) g g' \<and> labels_between (label_count g) (label_count g') c \<and>
           jumps_on_zero (spill_logand g) (used g) c lab sem))"

lemma branchesE:
  assumes "branches f sem k" "ready g" "k \<le> free_count (used g)"
  obtains c g' where "f lab g = Some ((), c, g')" "gext (used g) g g'" "labels_between (label_count g) (label_count g') c"
    "jumps_on_zero (spill_logand g) (used g) c lab sem"
  using assms unfolding branches_def by meson

lemma jumps_on_zeroE:
  assumes "jumps_on_zero sl U c lab sem" "code_at P i c" "distinct (labels P)" "code_at P j (Label lab # d)" "Rel E sl m mm"
    "sem E mm = Some (v, mm')"
  obtains m' where "steps P (i, m) (if v = 0 then j else i + length c, m')" "Rel E sl m' mm'" "keeps E sl U m m'"
  using assms unfolding jumps_on_zero_def by meson

lemma branches_weaken: "branches f sem k \<Longrightarrow> k \<le> k' \<Longrightarrow> branches f sem k'"
  unfolding branches_def by (meson order_trans)

text \<open>The comparison sets the flags, and the condition \<open>q\<close> holds exactly when the value is zero.\<close>

definition tests :: "instr \<Rightarrow> cc \<Rightarrow> mach \<Rightarrow> int \<Rightarrow> bool" where
  "tests x q m v \<longleftrightarrow> (\<exists>f. exec_instr x m = Some (m\<lparr>flags_of := Some f\<rparr>) \<and> (holds q f \<longleftrightarrow> v = 0))"

lemma tests_steps:
  assumes "tests x q m v" "code_at P i [x, Jcc q lab]" "distinct (labels P)" "code_at P j (Label lab # d)"
  obtains m' where "steps P (i, m) (if v = 0 then j else i + 2, m')" "\<And>E sl U. keeps E sl U m m'"
    "\<And>E sl mm. Rel E sl m mm \<Longrightarrow> Rel E sl m' mm"
proof -
  obtain f where f: "exec_instr x m = Some (m\<lparr>flags_of := Some f\<rparr>)" "holds q f \<longleftrightarrow> v = 0"
    using assms(1) unfolding tests_def by blast
  let ?m = "m\<lparr>flags_of := Some f\<rparr>"
  have 1: "step P (i, m) = Some (Suc i, ?m)" using assms(2) f(1) by (rule step_instr)
  have 2: "step P (Suc i, ?m) = Some (if holds q f then j else Suc (Suc i), ?m)"
    using assms(2-4) by (intro step_jcc) (auto simp: code_at_Cons)
  have "steps P (i, m) (if v = 0 then j else i + 2, ?m)"
    using steps_step [OF 1 steps_step [OF 2 steps_refl]] by (simp only: f(2) add_2_eq_Suc')
  then show thesis using flags_keeps by (intro that [of ?m]) auto
qed

lemma branches_unary:
  assumes f: "implements f semL lt k True"
    and K: "\<And>r g lab. r < 8 \<Longrightarrow> spilled g = {} \<Longrightarrow> K lab r g = Some ((), [x r, Jcc q lab], g\<lparr>used := used g - {r}\<rparr>)"
    and x: "\<And>r. labels [x r] = []"
    and ex: "\<And>r E sl m mm u v mm'. r < 8 \<Longrightarrow> rep lt u (regs m (phys r)) \<Longrightarrow> (\<exists>E mm0. semL E mm0 = Some (u, mm)) \<Longrightarrow>
      h E u mm = Some (v, mm') \<Longrightarrow> mm' = mm \<and> tests (x r) q m v"
  shows "branches (\<lambda>lab. with_reg f (K lab)) (\<lambda>E. cbind (semL E) (h E)) k"
  unfolding branches_def
proof (intro allI impI)
  fix lab g assume g: "ready g" "k \<le> free_count (used g)"
  let ?sl = "spill_logand g"
  obtain r c g1 where y: "yields f semL lt True g r c g1" by (rule implementsE [OF f g])
  note r = yieldsD [OF y]
  let ?g = "g1\<lparr>used := used g1 - {r}\<rparr>"
  let ?c = "c @ [x r, Jcc q lab]"
  have "with_reg f (K lab) g = Some ((), ?c, ?g)"
    using r(1) K [OF r(2) gext_spilled [OF r(4)]] by (simp add: gen_defs)
  moreover have "gext (used g) g ?g" using gext_free [OF r(4,3)] .
  moreover have "labels [x r, Jcc q lab] = []" using x [of r] labels_append [of "[x r]" "[Jcc q lab]"] by simp
  then have "labels_between (label_count g) (label_count ?g) ?c" using labels_between_plain(1) [OF r(5)] by fastforce
  moreover have "jumps_on_zero ?sl (used g) ?c lab (\<lambda>E. cbind (semL E) (h E))"
    unfolding jumps_on_zero_def
  proof (intro allI impI)
    fix E P i m mm v mm' j d
    assume a: "code_at P i ?c" "distinct (labels P)" "code_at P j (Label lab # d)" "Rel E ?sl m mm"
      "cbind (semL E) (h E) mm = Some (v, mm')"
    have at: "code_at P i c" "code_at P (i + length c) [x r, Jcc q lab]" using a(1) by simp_all
    obtain u mm1 where u: "semL E mm = Some (u, mm1)" "h E u mm1 = Some (v, mm')" using a(5) by (auto simp: cbind_Some)
    obtain m1 where m1: "goes P i c m m1" "Rel E ?sl m1 mm1" "keeps E ?sl (used g) m m1" "rep lt u (regs m1 (phys r))"
      using computesE [OF r(6) at(1) a(2,4) u(1)] by blast
    have t: "mm' = mm1" "tests (x r) q m1 v" using ex [OF r(2) m1(4) _ u(2)] u(1) by blast+
    obtain m2 where m2: "steps P (i + length c, m1) (if v = 0 then j else i + length c + 2, m2)"
      "\<And>E sl U. keeps E sl U m1 m2" "\<And>E sl mm. Rel E sl m1 mm \<Longrightarrow> Rel E sl m2 mm"
      by (rule tests_steps [OF t(2) at(2) a(2,3), of thesis]) blast
    have "steps P (i, m) (if v = 0 then j else i + length ?c, m2)"
      using steps_trans [OF m1(1) [unfolded goes_def] m2(1)] by (cases "v = 0") simp_all
    then show "\<exists>m'. steps P (i, m) (if v = 0 then j else i + length ?c, m') \<and> Rel E ?sl m' mm' \<and> keeps E ?sl (used g) m m'"
      using m2(3) [OF m1(2)] t(1) keeps_trans [OF m1(3) m2(2)] by blast
  qed
  ultimately show "\<exists>c g'. with_reg f (K lab) g = Some ((), c, g') \<and> gext (used g) g g' \<and>
      labels_between (label_count g) (label_count g') c \<and> jumps_on_zero ?sl (used g) c lab (\<lambda>E. cbind (semL E) (h E))" by blast
qed

lemma branches_binary:
  assumes L: "implements f semL lt kl True" and R: "implements f' semR rt kr True"
    and K: "\<And>a b g lab. a < 8 \<Longrightarrow> b < 8 \<Longrightarrow> a \<noteq> b \<Longrightarrow> spilled g = {} \<Longrightarrow>
      K lab a b g = Some ((), [x a b, Jcc q lab], g\<lparr>used := used g - {b} - {a}\<rparr>)"
    and x: "\<And>a b. labels [x a b] = []"
    and ex: "\<And>a b E m mm u w v mm'. a < 8 \<Longrightarrow> b < 8 \<Longrightarrow> a \<noteq> b \<Longrightarrow>
      rep lt u (regs m (phys a)) \<Longrightarrow> rep rt w (regs m (phys b)) \<Longrightarrow>
      (\<exists>E mm0 mm1. semL E mm0 = Some (u, mm1)) \<Longrightarrow> (\<exists>E mm0. semR E mm0 = Some (w, mm)) \<Longrightarrow>
      h E u w mm = Some (v, mm') \<Longrightarrow> mm' = mm \<and> tests (x a b) q m v"
  shows "branches (\<lambda>lab. with_reg f (\<lambda>a. with_reg f' (K lab a))) (\<lambda>E. cbind (semL E) (\<lambda>u. cbind (semR E) (h E u))) (max kl (1 + kr))"
    (is "branches ?f ?sem ?k")
  unfolding branches_def
proof (intro allI impI)
  fix lab g assume g: "ready g" "?k \<le> free_count (used g)"
  let ?sl = "spill_logand g"
  have kl: "kl \<le> free_count (used g)" using g(2) by simp
  obtain a c g1 where y1: "yields f semL lt True g a c g1" by (rule implementsE [OF L g(1) kl])
  note a = yieldsD [OF y1]
  have g1: "ready g1" using y1 g(1) by (rule yields_ready)
  have u1: "used g1 = insert a (used g)" using a(4) by (rule gext_used)
  have "kr \<le> free_count (used g1)" using g(2) free_count_insert [OF a(2,3)] u1 by simp
  then obtain b e g2 where y2: "yields f' semR rt True g1 b e g2" by (rule implementsE [OF R g1])
  note b = yieldsD [OF y2]
  have sl: "spill_logand g1 = ?sl" using a(4) by (rule gext_slot)
  have ab: "a \<noteq> b" "b \<notin> used g" using b(3) u1 by auto
  let ?g = "g2\<lparr>used := used g2 - {b} - {a}\<rparr>"
  let ?c = "c @ e @ [x a b, Jcc q lab]"
  have "?f lab g = Some ((), ?c, ?g)"
    using a(1) b(1) K [OF a(2) b(2) ab(1) gext_spilled [OF b(4)]] by (simp add: gen_defs)
  moreover have "gext (used g) g ?g" using a(3,4) b(4) u1 ab by (auto simp: gext_def)
  moreover have "labels_between (label_count g) (label_count ?g) ?c"
  proof -
    have "label_count g \<le> label_count g1" "label_count g1 \<le> label_count g2" using a(4) b(4) by (simp_all add: gext_def)
    then have l: "labels_between (label_count g) (label_count g2) (c @ e)" using labels_between_append [OF a(5) b(5)] by simp
    have "labels [x a b, Jcc q lab] = []" using x [of a b] labels_append [of "[x a b]" "[Jcc q lab]"] by simp
    then show ?thesis using labels_between_plain(1) [OF l] by fastforce
  qed
  moreover have "jumps_on_zero ?sl (used g) ?c lab ?sem"
    unfolding jumps_on_zero_def
  proof (intro allI impI)
    fix E P i m mm v mm' j d
    assume h: "code_at P i ?c" "distinct (labels P)" "code_at P j (Label lab # d)" "Rel E ?sl m mm" "?sem E mm = Some (v, mm')"
    have at: "code_at P i c" "code_at P (i + length c) e" "code_at P (i + length c + length e) [x a b, Jcc q lab]"
      using h(1) by simp_all
    obtain u mm1 w mm2 where s: "semL E mm = Some (u, mm1)" "semR E mm1 = Some (w, mm2)" "h E u w mm2 = Some (v, mm')"
      using h(5) by (auto simp: cbind_Some)
    obtain m1 where m1: "goes P i c m m1" "Rel E ?sl m1 mm1" "keeps E ?sl (used g) m m1" "rep lt u (regs m1 (phys a))"
      using computesE [OF a(6) at(1) h(2,4) s(1)] by blast
    obtain m2 where m2: "goes P (i + length c) e m1 m2" "Rel E ?sl m2 mm2" "keeps E ?sl (used g1) m1 m2" "rep rt w (regs m2 (phys b))"
      using computesE [OF b(6) at(2) h(2) _ s(2)] m1(2) unfolding sl by blast
    have "rep lt u (regs m2 (phys a))" using keeps_reg [OF m2(3)] u1 m1(4) by simp
    then have t: "mm' = mm2" "tests (x a b) q m2 v" using ex [OF a(2) b(2) ab(1) _ m2(4) _ _ s(3)] s(1,2) by blast+
    obtain m3 where m3: "steps P (i + length c + length e, m2) (if v = 0 then j else i + length c + length e + 2, m3)"
      "\<And>E sl U. keeps E sl U m2 m3" "\<And>E sl mm. Rel E sl m2 mm \<Longrightarrow> Rel E sl m3 mm"
      by (rule tests_steps [OF t(2) at(3) h(2,3), of thesis]) blast
    have "steps P (i, m) (if v = 0 then j else i + length ?c, m3)"
      using steps_trans [OF m1(1) [unfolded goes_def] steps_trans [OF m2(1) [unfolded goes_def] m3(1)]]
      by (cases "v = 0") (simp_all add: add.assoc)
    moreover have "used g \<subseteq> used g1" using u1 by auto
    then have "keeps E ?sl (used g) m m3" using keeps_trans [OF keeps_trans [OF m1(3) m2(3)] m3(2)] by blast
    ultimately show "\<exists>m'. steps P (i, m) (if v = 0 then j else i + length ?c, m') \<and> Rel E ?sl m' mm' \<and> keeps E ?sl (used g) m m'"
      using m3(3) [OF m2(2)] t(1) by blast
  qed
  ultimately show "\<exists>c g'. ?f lab g = Some ((), c, g') \<and> gext (used g) g g' \<and> labels_between (label_count g) (label_count g') c \<and>
      jumps_on_zero ?sl (used g) c lab ?sem" by blast
qed

section \<open>Jumps on a comparison\<close>

lemma inverse_holds: "is_comparison k \<Longrightarrow> holds (inverse_cc k un) f \<longleftrightarrow> \<not> holds (compare_cc k un) f"
  by (auto simp: is_comparison_def inverse_cc_def compare_cc_def)

text \<open>The state after the comparison: its flags say whether the relation holds.\<close>

lemma compare_regs:
  assumes ok: "operands_ok k t lt rt False" "is_comparison k"
    and u: "rep lt u (regs m (phys a))" "scalar lt \<Longrightarrow> conv lt u = u"
    and w: "rep rt w (regs m (phys b))" "scalar rt \<Longrightarrow> conv rt w = w"
  obtains f where "exec_instr (Alu A_cmp S_none (reg b (operand_size k t lt rt)) (reg a (operand_size k t lt rt))) m =
      Some (m\<lparr>flags_of := Some f\<rparr>)" "holds (compare_cc k (use_unsigned_cmp lt rt)) f \<longleftrightarrow> compare_value k lt rt u w"
proof -
  note sz = compare_size [OF ok]
  let ?n = "vbytes lt"
  have rt: "vbytes rt = ?n" "scalar rt" using ok int_scalar_scalar vbytes_pointer by (auto simp: operands_ok_def)
  have c: "comparable k lt rt u w"
    using ok sz(3) pointer_conv [OF _ u(2)] pointer_conv [OF _ w(2)] rt int_scalar_scalar by (auto simp: operands_ok_def comparable_def)
  have "getr m ?n (phys a) = low ?n u" "getr m ?n (phys b) = low ?n w"
    using rep_getr [OF u(1)] rep_getr [OF w(1)] rt(1) by simp_all
  then have "exec_instr (Alu A_cmp S_none (reg b (operand_size k t lt rt)) (reg a (operand_size k t lt rt))) m =
      Some (m\<lparr>flags_of := Some (sub_flags ?n (low ?n u) (low ?n w))\<rparr>)"
    unfolding sz(1) by (simp add: reg_def sz(2) exec_alu_def rd_def)
  then show thesis using comparable_holds [OF c] by (rule that)
qed

lemma compare_imm:
  assumes ok: "operands_ok k t lt rt True" "is_comparison k"
    and u: "rep lt u (regs m (phys a))" "scalar lt \<Longrightarrow> conv lt u = u"
    and i: "in32 i" "4 \<le> sizeof rt \<or> conv rt i = i"
  obtains f where "exec_instr (Alu A_cmp S_none (Imm i) (reg a (operand_size k t lt rt))) m =
      Some (m\<lparr>flags_of := Some f\<rparr>)" "holds (compare_cc k (use_unsigned_cmp lt rt)) f \<longleftrightarrow> compare_value k lt rt u (conv rt i)"
proof -
  note sz = compare_size [OF ok]
  let ?n = "vbytes lt"
  have srt: "scalar rt" "vbytes rt = ?n \<or> rt = ty_int" using ok int_scalar_scalar vbytes_pointer by (auto simp: operands_ok_def)
  have int_i: "conv ty_int i = i" using i(1) by (simp add: conv_def slow_id in32_def)
  have "low (vbytes rt) (conv rt i) = low (vbytes rt) i" using i(2) conv_low_wide [OF srt(1)] by auto
  then have w: "low ?n (conv rt i) = low ?n i" using srt int_i by auto
  have ptr: "slow 8 (conv rt i) = conv rt i" if "\<not> is_integer rt \<or> rt = ty_int"
    using that int_i i(1) conv_conv [OF srt(1)] pointer_conv [of rt] by (auto simp: slow_id in32_def)
  have c: "comparable k lt rt u (conv rt i)"
    using ok sz(3) pointer_conv [OF _ u(2)] ptr by (auto simp: operands_ok_def comparable_def)
  have "getr m ?n (phys a) = low ?n u" using rep_getr [OF u(1)] by simp
  moreover have "imm_fits ?n i" using i(1) sz(4) by (auto simp: imm_fits_def in32_def)
  ultimately have "exec_instr (Alu A_cmp S_none (Imm i) (reg a (operand_size k t lt rt))) m =
      Some (m\<lparr>flags_of := Some (sub_flags ?n (low ?n u) (low ?n (conv rt i)))\<rparr>)"
    unfolding sz(1) by (simp add: reg_def sz(2) exec_alu_def rd_def w)
  then show thesis using comparable_holds [OF c] by (rule that)
qed


section \<open>The condition of a statement\<close>

lemma branch_right:
  assumes n: "value_ok True n" "scalar (tyof n)"
  shows "branches (gen_branch F (Some n)) (\<lambda>E. cev E n) (rneed n)"
proof (cases "is_comparison (ndkind n)")
  case False
  have t: "ndty n = Some (tyof n)" using value_ok_typed [OF n(1)] .
  let ?K = "\<lambda>lab r. gseq (emit [Alu A_cmp S_none (Imm 0) (reg r (sizeof (tyof n)))]) (gseq (free_reg r) (emit [Jcc CC_E lab]))"
  have "gen_branch F (Some n) = (\<lambda>lab. with_reg (gen F n) (?K lab))"
    using False t by (simp add: fun_eq_iff cond_branch_inv_def with_type_def)
  moreover have "branches (\<lambda>lab. with_reg (gen F n) (?K lab)) (\<lambda>E. cbind (cev E n) cret) (rneed n)"
  proof (rule branches_unary [OF gen_implements [OF n(1)]])
    fix r E sl and m :: mach and mm u v mm'
    assume h: "r < 8" "rep (tyof n) u (regs m (phys r))" "\<exists>E mm0. cev E n mm0 = Some (u, mm)" "cret u mm = Some (v, mm')"
    have "conv (tyof n) u = u" using h(3) in_rangeD [OF cev_in_range [OF n]] by blast
    note c = cmp0_value [OF n(2) this h(2)]
    then show "mm' = mm \<and> tests (Alu A_cmp S_none (Imm 0) (reg r (sizeof (tyof n)))) CC_E m v"
      using h(4) unfolding tests_def reg_def by (auto simp: cret_def simp del: exec_instr.simps holds.simps)
  qed (simp_all add: gen_defs free_reg_plain)
  moreover have "cbind (cev E n) cret = cev E n" for E
    by (auto simp: cbind_def cret_def fun_eq_iff split: option.splits)
  ultimately show ?thesis by simp
next
  case cmp: True
  obtain l x where b: "binary_kind (ndkind n)" "binary_ok n" "lhs n = Some l" "rhs n = Some x" "value_ok True l" "value_ok True x"
    using n(1) cmp by (cases rule: value_ok_cases) (auto simp: is_comparison_def)
  let ?k = "ndkind n" and ?lt = "tyof l" and ?rt = "tyof x"
  note t = value_ok_typed [OF n(1)] value_ok_typed [OF b(5)] value_ok_typed [OF b(6)]
  have nd: "\<not> (?k = ND_DIV \<or> ?k = ND_MOD \<or> ?k = ND_SHL \<or> ?k = ND_SHR)" using cmp by (auto simp: is_comparison_def)
  note ok = binary_ok_operands(3) [OF b(2,1,3,4) nd]
  note sz = compare_size [OF ok cmp]
  have fl: "\<not> is_flonum ?lt" using scalar_facts(1) [OF sz(3)] .
  have need: "rneed n = max (rneed l) (1 + rneed x)" using b(1,3,4) by (auto simp: rneed.simps [of n] binary_kind_def)
  have sem: "cev E n = cbind (cev E l) (\<lambda>a. cbind (cev E x) (\<lambda>b. cret (of_bool (compare_value ?k ?lt ?rt a b))))" for E
    unfolding cev_binary [OF b(1,3,4)] using nd cmp
    by (intro arg_cong [where f = "cbind _"] ext) (simp add: sem_binary_def sem_arith_def cpure_def cret_def cbind_def cong: option.case_cong)
  have rl: "scalar ?lt \<Longrightarrow> conv ?lt u = u" if "\<exists>E mm0 mm1. cev E l mm0 = Some (u, mm1)" for u
    using that in_rangeD [OF cev_in_range [OF b(5)]] by blast
  have rr: "scalar ?rt \<Longrightarrow> conv ?rt u = u" if "\<exists>E mm0 mm1. cev E x mm0 = Some (u, mm1)" for u
    using that in_rangeD [OF cev_in_range [OF b(6)]] by blast
  let ?q = "inverse_cc ?k (use_unsigned_cmp ?lt ?rt)" and ?sz = "operand_size ?k (tyof n) ?lt ?rt"
  have osz: "max (op_size ?lt) (op_size ?rt) = ?sz" using cmp by (simp add: operand_size_def)
  show ?thesis
  proof (cases "small_literal (rhs n)")
    case True
    then have x: "ndkind x = ND_NUM" "in32 (ndval x)" using b(4) by (simp_all add: small_literal_def)
    let ?i = "conv ?rt (ndval x)"
    let ?K = "\<lambda>lab a. gseq (emit [Alu A_cmp S_none (Imm (ndval x)) (reg a ?sz)]) (gseq (free_reg a) (emit [Jcc ?q lab]))"
    have code: "gen_branch F (Some n) = (\<lambda>lab. with_reg (gen F l) (?K lab))"
      using cmp b(3,4) t fl x osz by (simp add: fun_eq_iff cond_branch_inv_def with_type_def with_child_def Let_def)
    note lit = literal_value [OF b(6) x(1)]
    have ok': "operands_ok ?k (tyof n) ?lt ?rt True" using ok True by simp
    have s: "cev E n = cbind (cev E l) (\<lambda>a. cret (of_bool (compare_value ?k ?lt ?rt a ?i)))" for E
      unfolding sem using lit by (simp add: cbind_cret)
    have "branches (\<lambda>lab. with_reg (gen F l) (?K lab)) (\<lambda>E. cev E n) (rneed l)"
      unfolding s
    proof (rule branches_unary [OF gen_implements [OF b(5)]])
      fix r E sl and m :: mach and mm u v mm'
      assume h: "r < 8" "rep ?lt u (regs m (phys r))" "\<exists>E mm0. cev E l mm0 = Some (u, mm)"
        "cret (of_bool (compare_value ?k ?lt ?rt u ?i)) mm = Some (v, mm')"
      have w: "\<exists>E mm0 mm1. cev E l mm0 = Some (u, mm1)" using h(3) by blast
      obtain f where "exec_instr (Alu A_cmp S_none (Imm (ndval x)) (reg r ?sz)) m = Some (m\<lparr>flags_of := Some f\<rparr>)"
        "holds (compare_cc ?k (use_unsigned_cmp ?lt ?rt)) f \<longleftrightarrow> compare_value ?k ?lt ?rt u ?i"
        by (rule compare_imm [OF ok' cmp h(2) rl [OF w] x(2) conjunct2 [OF lit]])
      then show "mm' = mm \<and> tests (Alu A_cmp S_none (Imm (ndval x)) (reg r ?sz)) ?q m v"
        using h(4) inverse_holds [OF cmp] unfolding tests_def by (auto simp: cret_def simp del: exec_instr.simps)
    qed (simp_all add: gen_defs free_reg_plain)
    then show ?thesis unfolding code need by (rule branches_weaken) simp
  next
    case False
    then have x: "\<not> (ndkind x = ND_NUM \<and> in32 (ndval x))" using b(4) by (simp add: small_literal_def)
    let ?K = "\<lambda>lab a b. gseq (gseq (emit [Alu A_cmp S_none (reg b ?sz) (reg a ?sz)]) (free_reg b)) (gseq (free_reg a) (emit [Jcc ?q lab]))"
    have code: "gen_branch F (Some n) = (\<lambda>lab. with_reg (gen F l) (\<lambda>a. with_reg (gen F x) (?K lab a)))"
      using cmp b(3,4) t fl x osz by (auto simp: fun_eq_iff cond_branch_inv_def with_type_def with_child_def Let_def gseq_with_reg)
    have ok': "operands_ok ?k (tyof n) ?lt ?rt False" using ok False by simp
    show ?thesis
      unfolding code need sem
    proof (rule branches_binary [OF gen_implements [OF b(5)] gen_implements [OF b(6)]])
      fix a b E and m :: mach and mm u w v mm'
      assume h: "rep ?lt u (regs m (phys a))" "rep ?rt w (regs m (phys b))"
        "\<exists>E mm0 mm1. cev E l mm0 = Some (u, mm1)" "\<exists>E mm0. cev E x mm0 = Some (w, mm)"
        "cret (of_bool (compare_value ?k ?lt ?rt u w)) mm = Some (v, mm')"
      have w: "\<exists>E mm0 mm1. cev E x mm0 = Some (w, mm1)" using h(4) by blast
      obtain f where "exec_instr (Alu A_cmp S_none (reg b ?sz) (reg a ?sz)) m = Some (m\<lparr>flags_of := Some f\<rparr>)"
        "holds (compare_cc ?k (use_unsigned_cmp ?lt ?rt)) f \<longleftrightarrow> compare_value ?k ?lt ?rt u w"
        by (rule compare_regs [OF ok' cmp h(1) rl [OF h(3)] h(2) rr [OF w]])
      then show "mm' = mm \<and> tests (Alu A_cmp S_none (reg b ?sz) (reg a ?sz)) ?q m v"
        using h(5) inverse_holds [OF cmp] unfolding tests_def by (auto simp: cret_def simp del: exec_instr.simps)
    qed (simp_all add: gen_defs free_reg_plain)
  qed
qed

end
