(* ===== verification/CStmt.thy ===== *)
theory CStmt
  imports GenBranch
begin

text \<open>
  What statements mean in C, as a big-step relation (a loop may not end), and for which statements
  the generated code is right. An outcome says how a statement is left.
\<close>

datatype outcome = Normal | Breaks | Continues | Returns "int option"

section \<open>Big-step semantics\<close>

definition stmt_kind :: "node_kind \<Rightarrow> bool" where
  "stmt_kind k \<longleftrightarrow>
     k \<in> {ND_RETURN, ND_IF, ND_FOR, ND_DO, ND_BREAK, ND_CONTINUE, ND_BLOCK, ND_EXPR_STMT, ND_NULL}"

definition truth :: "cenv \<Rightarrow> node option \<Rightarrow> memory \<Rightarrow> (bool \<times> memory) option" where
  "truth E q m =
     (case q of None \<Rightarrow> Some (True, m) | Some n \<Rightarrow> map_option (\<lambda>(v, m'). (v \<noteq> 0, m')) (cev E n m))"

inductive exec :: "cenv \<Rightarrow> node option \<Rightarrow> memory \<Rightarrow> outcome \<Rightarrow> memory \<Rightarrow> bool"
  and execs :: "cenv \<Rightarrow> node list \<Rightarrow> memory \<Rightarrow> outcome \<Rightarrow> memory \<Rightarrow> bool"
  and loops :: "cenv \<Rightarrow> node \<Rightarrow> memory \<Rightarrow> outcome \<Rightarrow> memory \<Rightarrow> bool"
  and dos :: "cenv \<Rightarrow> node \<Rightarrow> memory \<Rightarrow> outcome \<Rightarrow> memory \<Rightarrow> bool"
  for E :: cenv where
  exec_none: "exec E None m Normal m"
| exec_value: "\<not> stmt_kind (ndkind n) \<Longrightarrow> cev E n m = Some (v, m') \<Longrightarrow> exec E (Some n) m Normal m'"
| exec_null: "ndkind n = ND_NULL \<Longrightarrow> exec E (Some n) m Normal m"
| exec_expr: "ndkind n = ND_EXPR_STMT \<Longrightarrow> exec E (lhs n) m out m' \<Longrightarrow> exec E (Some n) m out m'"
| exec_block: "ndkind n = ND_BLOCK \<Longrightarrow> execs E (nbody n) m out m' \<Longrightarrow> exec E (Some n) m out m'"
| exec_if: "ndkind n = ND_IF \<Longrightarrow> truth E (ncond n) m = Some (b, m1) \<Longrightarrow>
    exec E (if b then nthen n else nels n) m1 out m' \<Longrightarrow> exec E (Some n) m out m'"
| exec_for: "ndkind n = ND_FOR \<Longrightarrow> exec E (ninit n) m Normal m1 \<Longrightarrow> loops E n m1 out m' \<Longrightarrow> exec E (Some n) m out m'"
| exec_do: "ndkind n = ND_DO \<Longrightarrow> dos E n m out m' \<Longrightarrow> exec E (Some n) m out m'"
| exec_break: "ndkind n = ND_BREAK \<Longrightarrow> exec E (Some n) m Breaks m"
| exec_continue: "ndkind n = ND_CONTINUE \<Longrightarrow> exec E (Some n) m Continues m"
| exec_return_void: "ndkind n = ND_RETURN \<Longrightarrow> lhs n = None \<Longrightarrow> exec E (Some n) m (Returns None) m"
| exec_return: "ndkind n = ND_RETURN \<Longrightarrow> lhs n = Some l \<Longrightarrow> cev E l m = Some (v, m') \<Longrightarrow>
    exec E (Some n) m (Returns (Some v)) m'"
| execs_nil: "execs E [] m Normal m"
| execs_cons: "exec E (Some n) m Normal m1 \<Longrightarrow> execs E ns m1 out m' \<Longrightarrow> execs E (n # ns) m out m'"
| execs_left: "exec E (Some n) m out m' \<Longrightarrow> out \<noteq> Normal \<Longrightarrow> execs E (n # ns) m out m'"
| loops_done: "truth E (ncond n) m = Some (False, m') \<Longrightarrow> loops E n m Normal m'"
| loops_again: "truth E (ncond n) m = Some (True, m1) \<Longrightarrow> exec E (nthen n) m1 out1 m2 \<Longrightarrow>
    out1 = Normal \<or> out1 = Continues \<Longrightarrow> exec E (ninc n) m2 Normal m3 \<Longrightarrow> loops E n m3 out m' \<Longrightarrow> loops E n m out m'"
| loops_break: "truth E (ncond n) m = Some (True, m1) \<Longrightarrow> exec E (nthen n) m1 Breaks m' \<Longrightarrow> loops E n m Normal m'"
| loops_return: "truth E (ncond n) m = Some (True, m1) \<Longrightarrow> exec E (nthen n) m1 (Returns v) m' \<Longrightarrow> loops E n m (Returns v) m'"
| dos_again: "exec E (nthen n) m out1 m1 \<Longrightarrow> out1 = Normal \<or> out1 = Continues \<Longrightarrow>
    truth E (ncond n) m1 = Some (True, m2) \<Longrightarrow> dos E n m2 out m' \<Longrightarrow> dos E n m out m'"
| dos_done: "exec E (nthen n) m out1 m1 \<Longrightarrow> out1 = Normal \<or> out1 = Continues \<Longrightarrow>
    truth E (ncond n) m1 = Some (False, m') \<Longrightarrow> dos E n m Normal m'"
| dos_break: "exec E (nthen n) m Breaks m' \<Longrightarrow> dos E n m Normal m'"
| dos_return: "exec E (nthen n) m (Returns v) m' \<Longrightarrow> dos E n m (Returns v) m'"

section \<open>Well-formed statements\<close>

definition test_ok :: "node option \<Rightarrow> bool" where
  "test_ok q \<longleftrightarrow> (case q of None \<Rightarrow> False | Some n \<Rightarrow> value_ok True n \<and> scalar (tyof n) \<and> rneed n \<le> 8)"

text \<open>The generator looks at the literal itself, not at its value in the type.\<close>

definition if_ok :: "node \<Rightarrow> bool" where
  "if_ok n \<longleftrightarrow>
     (case ncond n of
        None \<Rightarrow> False
      | Some q \<Rightarrow> ndkind q = ND_NUM \<longrightarrow> conv (tyof q) (ndval q) = ndval q \<and> \<not> has_label n)"

definition return_ok :: "fenv \<Rightarrow> node \<Rightarrow> bool" where
  "return_ok F n \<longleftrightarrow>
     leaves_nothing n \<and>
     (case lhs n of
        None \<Rightarrow> True
      | Some l \<Rightarrow>
          value_ok True l \<and> rneed l \<le> 8 \<and> (scalar (tyof l) \<or> is_array (tyof l)) \<and>
          (case fn_return F of
             None \<Rightarrow> False
           | Some t \<Rightarrow> scalar t \<and> vbytes t \<le> vbytes (tyof l) \<and>
               (4 \<le> sizeof t \<or> unsigned_ty t \<or>
                (int_scalar (tyof l) \<and> sizeof (tyof l) = sizeof t \<and> unsigned_ty (tyof l) = unsigned_ty t))))"

text \<open>\<open>d\<close> is the number of enclosing loops.\<close>

lemma body_measure: "Suc (2 * size_list size (nbody n)) < 2 * size n"
  using node_child_size(8) [of n] by linarith

function stmt_ok :: "fenv \<Rightarrow> nat \<Rightarrow> node \<Rightarrow> bool"
  and stmt_ok_opt :: "fenv \<Rightarrow> nat \<Rightarrow> node option \<Rightarrow> bool"
  and stmts_ok :: "fenv \<Rightarrow> nat \<Rightarrow> node list \<Rightarrow> bool" where
  "stmt_ok F d n \<longleftrightarrow>
     (case ndkind n of
        ND_NULL \<Rightarrow> True
      | ND_EXPR_STMT \<Rightarrow> stmt_ok_opt F d (lhs n)
      | ND_BLOCK \<Rightarrow> stmts_ok F d (nbody n)
      | ND_IF \<Rightarrow> test_ok (ncond n) \<and> if_ok n \<and> stmt_ok_opt F d (nthen n) \<and> stmt_ok_opt F d (nels n)
      | ND_FOR \<Rightarrow>
          d < 128 \<and> stmt_ok_opt F d (ninit n) \<and> (ncond n = None \<or> test_ok (ncond n)) \<and>
          stmt_ok_opt F (Suc d) (nthen n) \<and> stmt_ok_opt F (Suc d) (ninc n)
      | ND_DO \<Rightarrow> d < 128 \<and> test_ok (ncond n) \<and> stmt_ok_opt F (Suc d) (nthen n)
      | ND_BREAK \<Rightarrow> 0 < d \<and> leaves_nothing n
      | ND_CONTINUE \<Rightarrow> 0 < d \<and> leaves_nothing n
      | ND_RETURN \<Rightarrow> return_ok F n
      | _ \<Rightarrow> value_ok False n \<and> rneed n \<le> 8)"
| "stmt_ok_opt F d None = True"
| "stmt_ok_opt F d (Some n) = stmt_ok F d n"
| "stmts_ok F d [] = True"
| "stmts_ok F d (n # ns) \<longleftrightarrow> stmt_ok F d n \<and> stmts_ok F d ns"
  by pat_completeness auto
termination
  by (relation "measure (\<lambda>x. case x of
       Inl (F, d, n) \<Rightarrow> 2 * size n
     | Inr (Inl (F, d, x)) \<Rightarrow> 2 * osize x
     | Inr (Inr (F, d, ns)) \<Rightarrow> 2 * size_list size ns + 1)")
    (use node_child_size body_measure in simp_all)

declare stmt_ok.simps [simp del]

end
