(* ===== verification/GenStmt.thy ===== *)
theory GenStmt
  imports CStmt
begin

text \<open>
  The shape of the code of statements: for every well-formed statement the generator succeeds, gives
  the registers back, restores the stacks of loop labels, and the labels it defines are new. One
  lemma per compound statement says what its code consists of.
\<close>

section \<open>The code of a statement\<close>

definition idle :: "nat \<Rightarrow> gst \<Rightarrow> bool" where
  "idle d g \<longleftrightarrow> ready g \<and> used g = {} \<and> length (break_stack g) = d \<and> length (continue_stack g) = d"

definition stmt_total :: "fenv \<Rightarrow> nat \<Rightarrow> node option \<Rightarrow> bool" where
  "stmt_total F d x \<longleftrightarrow>
     (\<forall>g. idle d g \<longrightarrow> (\<exists>c g'. gen_stmt (gen_opt F x) g = Some ((), c, g') \<and> gext {} g g' \<and>
        labels_between (label_count g) (label_count g') c))"

lemma stmt_totalE:
  assumes "stmt_total F d x" "idle d g"
  obtains c g' where "gen_stmt (gen_opt F x) g = Some ((), c, g')" "gext {} g g'" "labels_between (label_count g) (label_count g') c"
  using assms unfolding stmt_total_def by blast

lemma idle_gext: "idle d g \<Longrightarrow> gext {} g g' \<Longrightarrow> idle d g'"
  by (simp add: idle_def gext_def ready_def)

lemma idle_label [simp]: "idle d (g\<lparr>label_count := k\<rparr>) = idle d g"
  by (simp add: idle_def ready_def)

lemma gen_stmt_none: "gen_stmt (gret None) g = Some ((), [], g)"
  by (simp add: gen_stmt_def gen_defs)

lemma gen_stmt_no_value: "gen_stmt (no_value f) = f"
  by (auto simp: gen_stmt_def gen_defs fun_eq_iff split: option.splits)

lemma gseq_Some: "f g = Some ((), c, g1) \<Longrightarrow> k g1 = Some (x, d, g2) \<Longrightarrow> gseq f k g = Some (x, c @ d, g2)"
  by (simp add: gen_defs)

lemma emit_Some: "emit c g = Some ((), c, g)"
  by (simp add: emit_def)

lemma label_stmt:
  assumes "X (label_count g + 1) (g\<lparr>label_count := label_count g + 1\<rparr>) = Some ((), c, g')"
  shows "gen_stmt (gbind new_label (\<lambda>l. no_value (X l))) g = Some ((), c, g')"
  using assms by (simp add: gen_stmt_def gen_defs new_label_def)

lemma free_count_empty: "free_count {} = 8"
  by (simp add: free_count_def)

lemma gext_refl: "idle d g \<Longrightarrow> gext {} g g"
  by (simp add: gext_def idle_def ready_def)

lemma gext_trans0: "gext {} g g1 \<Longrightarrow> gext {} g1 g2 \<Longrightarrow> gext {} g g2"
  by (auto simp: gext_def)

text \<open>An expression whose value is dropped.\<close>

lemma value_stmt:
  assumes "value_ok False n" "rneed n \<le> 8" "idle d g"
  obtains c g' where "gen_stmt (gen F n) g = Some ((), c, g')" "gext {} g g'" "labels_between (label_count g) (label_count g') c"
    "\<And>E P i m mm v mm'. code_at P i c \<Longrightarrow> distinct (labels P) \<Longrightarrow> Rel E (spill_logand g) m mm \<Longrightarrow> cev E n mm = Some (v, mm') \<Longrightarrow>
      \<exists>m'. goes P i c m m' \<and> Rel E (spill_logand g) m' mm' \<and> keeps E (spill_logand g) {} m m'"
proof -
  have g: "ready g" "rneed n \<le> free_count (used g)" "used g = {}"
    using assms(2,3) by (simp_all add: idle_def free_count_empty)
  obtain r c g1 where y: "yields (gen F n) (\<lambda>E. cev E n) (tyof n) False g r c g1"
    by (rule implementsE [OF gen_implements [OF assms(1)] g(1,2)])
  note r = yieldsD [OF y]
  let ?g = "g1\<lparr>used := used g1 - {r}\<rparr>"
  show thesis
  proof
    show "gen_stmt (gen F n) g = Some ((), c, ?g)"
      using r(1) free_reg_plain [OF gext_spilled [OF r(4)]] by (simp add: gen_stmt_def gen_defs)
    show "gext {} g ?g" using gext_free [OF r(4,3)] g(3) by simp
    show "labels_between (label_count g) (label_count ?g) c" using r(5) by simp
    show "\<exists>m'. goes P i c m m' \<and> Rel E (spill_logand g) m' mm' \<and> keeps E (spill_logand g) {} m m'"
      if "code_at P i c" "distinct (labels P)" "Rel E (spill_logand g) m mm" "cev E n mm = Some (v, mm')" for E P i m mm v mm'
      using computesE [OF r(6) that] g(3) by metis
  qed
qed

text \<open>A condition.\<close>

lemma test_branch_code:
  assumes "test_ok q" "idle d g"
  obtains n c g' where "q = Some n" "gen_branch F q lab g = Some ((), c, g')" "gext {} g g'"
    "labels_between (label_count g) (label_count g') c" "jumps_on_zero (spill_logand g) {} c lab (\<lambda>E. cev E n)"
proof -
  obtain n where n: "q = Some n" "value_ok True n" "scalar (tyof n)" "rneed n \<le> 8"
    using assms(1) by (auto simp: test_ok_def split: option.splits)
  have g: "ready g" "rneed n \<le> free_count (used g)" "used g = {}"
    using assms(2) n(4) by (simp_all add: idle_def free_count_empty)
  show thesis
    by (rule branchesE [OF branch_right [OF n(2,3)] g(1,2), of F lab]) (use that n(1) g(3) in auto)
qed

section \<open>The shape of the code of compound statements\<close>

text \<open>What the numbers of the labels say about two pieces of code and a label between them.\<close>

lemma labels_between_new:
  assumes "labels_between a b c" "label_num l = Some k" "k \<le> a"
  shows "l \<notin> set (labels c)"
  using assms by (auto simp: labels_between_def)

lemma labels_between_insert:
  assumes "labels_between (Suc a) b c" "label_num l = Some (Suc a)" "Suc a \<le> b" "labels d = [l]"
  shows "labels_between a b (d @ c)" "labels_between a b (c @ d)"
  using assms labels_between_new [OF assms(1,2)] labels_between_mono [OF assms(1), of a b]
  by (auto simp: labels_between_def)

definition if_code :: "nat \<Rightarrow> bool \<Rightarrow> instr list \<Rightarrow> instr list \<Rightarrow> instr list \<Rightarrow> instr list" where
  "if_code l els cq ct ce =
     cq @ ct @ (if els then [Jmp (L_end l), Label (L_else l)] @ ce @ [Label (L_end l)] else [Label (L_end l)])"

definition if_label :: "nat \<Rightarrow> bool \<Rightarrow> label" where
  "if_label l els = (if els then L_else l else L_end l)"

lemma if_shape:
  assumes n: "ndkind n = ND_IF" "test_ok (ncond n)" "ncond n = Some q" "ndkind q \<noteq> ND_NUM" and g: "idle d g"
    and T: "stmt_total F d (nthen n)" "stmt_total F d (nels n)"
  defines "l \<equiv> label_count g + 1" and "els \<equiv> nels n \<noteq> None"
  obtains cq ct ce g1 g2 g3 where
    "gen_stmt (gen F n) g = Some ((), if_code l els cq ct ce, g3)" "gext {} g g3"
    "labels_between (label_count g) (label_count g3) (if_code l els cq ct ce)"
    "jumps_on_zero (spill_logand g) {} cq (if_label l els) (\<lambda>E. cev E q)"
    "gext {} g g1" "gen_stmt (gen_opt F (nthen n)) g1 = Some ((), ct, g2)"
    "gext {} g g2" "gen_stmt (gen_opt F (nels n)) g2 = Some ((), ce, g3)"
proof -
  let ?g0 = "g\<lparr>label_count := l\<rparr>"
  have i0: "idle d ?g0" using g by simp
  obtain m cq g1 where q: "ncond n = Some m" "gen_branch F (ncond n) (if_label l els) ?g0 = Some ((), cq, g1)" "gext {} ?g0 g1"
    "labels_between (label_count ?g0) (label_count g1) cq" "jumps_on_zero (spill_logand ?g0) {} cq (if_label l els) (\<lambda>E. cev E m)"
    by (rule test_branch_code [OF n(2) i0])
  have m: "m = q" using q(1) n(3) by simp
  have i1: "idle d g1" by (rule idle_gext [OF i0 q(3)])
  obtain ct g2 where t: "gen_stmt (gen_opt F (nthen n)) g1 = Some ((), ct, g2)" "gext {} g1 g2"
    "labels_between (label_count g1) (label_count g2) ct" by (rule stmt_totalE [OF T(1) i1])
  have i2: "idle d g2" by (rule idle_gext [OF i1 t(2)])
  obtain ce g3 where e: "gen_stmt (gen_opt F (nels n)) g2 = Some ((), ce, g3)" "gext {} g2 g3"
    "labels_between (label_count g2) (label_count g3) ce" by (rule stmt_totalE [OF T(2) i2])
  have ext: "gext {} g g1" using q(3) by (auto simp: gext_def l_def)
  have lc: "Suc (label_count g) \<le> label_count g1" "label_count g1 \<le> label_count g2" "label_count g2 \<le> label_count g3"
    using q(3) t(2) e(2) by (simp_all add: gext_def l_def)
  have ne: "\<not> els \<Longrightarrow> ce = [] \<and> g3 = g2" using e(1) by (simp add: els_def gen_stmt_none)
  have gen: "gen F n = gbind new_label (\<lambda>c. no_value (
         if els then
           gseq (gen_branch F (ncond n) (L_else c)) (gseq (gen_stmt (gen_opt F (nthen n)))
             (gseq (emit [Jmp (L_end c), Label (L_else c)]) (gseq (gen_stmt (gen_opt F (nels n))) (emit [Label (L_end c)]))))
         else gseq (gen_branch F (ncond n) (L_end c)) (gseq (gen_stmt (gen_opt F (nthen n))) (emit [Label (L_end c)]))))"
    using n(1,3,4) by (simp add: gen.simps [of F n] gen_if_def with_child_def els_def del: gen_branch.simps cong: if_cong)
  have gc: "gen_stmt (gen F n) g = Some ((), if_code l els cq ct ce, g3)"
    unfolding gen
  proof (rule label_stmt, fold l_def)
    show "(if els then
           gseq (gen_branch F (ncond n) (L_else l)) (gseq (gen_stmt (gen_opt F (nthen n)))
             (gseq (emit [Jmp (L_end l), Label (L_else l)]) (gseq (gen_stmt (gen_opt F (nels n))) (emit [Label (L_end l)]))))
         else gseq (gen_branch F (ncond n) (L_end l)) (gseq (gen_stmt (gen_opt F (nthen n))) (emit [Label (L_end l)]))) ?g0 =
      Some ((), if_code l els cq ct ce, g3)"
    proof (cases els)
      case True
      show ?thesis
        unfolding if_code_def if_P [OF True]
        using q(2) t(1) e(1) True by (intro gseq_Some) (simp_all add: if_label_def emit_Some)
    next
      case False
      show ?thesis
        unfolding if_code_def if_not_P [OF False]
        using q(2) t(1) ne [OF False] False by (intro gseq_Some) (auto simp add: if_label_def emit_Some)
    qed
  qed
  have lb: "labels_between (label_count ?g0) (label_count g3) (cq @ ct @ ce)"
    using labels_between_append [OF q(4) labels_between_append [OF t(3) e(3)]] lc by (simp add: l_def)
  have "labels_between (label_count g) (label_count g3) (if_code l els cq ct ce)"
  proof -
    have nl: "L_else l \<notin> set (labels (cq @ ct @ ce))" "L_end l \<notin> set (labels (cq @ ct @ ce))"
      using labels_between_new [OF lb, of _ l] by (simp_all add: label_num_def)
    have "labels (if_code l els cq ct ce) = labels cq @ labels ct @ (if els then [L_else l] else []) @ labels ce @ [L_end l]"
      using ne by (auto simp: if_code_def)
    then show ?thesis
      using lb lc nl by (auto simp: labels_between_def label_num_def l_def dest!: bspec intro: less_trans)
  qed
  then show thesis
    using that [OF gc gext_trans0 [OF ext gext_trans0 [OF t(2) e(2)]] _ _ ext t(1) gext_trans0 [OF ext t(2)] e(1)] q(5) m
    by simp
qed


text \<open>The literal selects its branch.\<close>

lemma if_constant:
  assumes n: "ndkind n = ND_IF" "ncond n = Some q" "ndkind q = ND_NUM" "\<not> has_label n"
  shows "gen_stmt (gen F n) = gen_stmt (gen_opt F (if ndval q \<noteq> 0 then nthen n else nels n))"
proof -
  have "gen F n = no_value (gen_stmt (if ndval q \<noteq> 0 then gen_opt F (nthen n) else if nels n \<noteq> None then gen_opt F (nels n) else gret None))"
    using n by (simp add: gen.simps [of F n] gen_if_def with_child_def)
  moreover have "(if nels n \<noteq> None then gen_opt F (nels n) else gret None) = gen_opt F (nels n)" by auto
  ultimately show ?thesis by (simp add: gen_stmt_no_value)
qed

section \<open>Loops\<close>

definition enter :: "nat \<Rightarrow> gst \<Rightarrow> gst" where
  "enter l g = g\<lparr>break_stack := l # break_stack g, continue_stack := l # continue_stack g\<rparr>"

definition leave :: "gst \<Rightarrow> gst" where
  "leave g = g\<lparr>break_stack := tl (break_stack g), continue_stack := tl (continue_stack g)\<rparr>"

lemma push_loop_Some: "idle d g \<Longrightarrow> d < 128 \<Longrightarrow> push_loop l g = Some ((), [], enter l g)"
  by (simp add: push_loop_def enter_def idle_def)

lemma pop_loop_Some: "pop_loop g = Some ((), [], leave g)"
  by (simp add: pop_loop_def leave_def)

lemma enter_idle: "idle d g \<Longrightarrow> idle (Suc d) (enter l g)"
  by (simp add: idle_def enter_def ready_def)

lemma leave_gext: "gext {} (enter l g) g' \<Longrightarrow> gext {} g (leave g')"
  by (auto simp: gext_def enter_def leave_def)

lemma enter_simps [simp]: "label_count (enter l g) = label_count g" "spill_logand (enter l g) = spill_logand g"
  "break_stack (enter l g) = l # break_stack g" "continue_stack (enter l g) = l # continue_stack g"
  by (simp_all add: enter_def)

lemma leave_simps [simp]: "label_count (leave g) = label_count g"
  by (simp add: leave_def)

text \<open>The part of a \<open>for\<close> that is run again and again, with the states its pieces are generated in.\<close>

definition loop_code :: "nat \<Rightarrow> instr list \<Rightarrow> instr list \<Rightarrow> instr list \<Rightarrow> instr list" where
  "loop_code l cq ct ci =
     [Label (L_begin l)] @ cq @ ct @ [Label (L_continue l)] @ ci @ [Jmp (L_begin l), Label (L_end l)]"

text \<open>What the code of a condition that may be missing does.\<close>

definition tests_cond :: "int \<Rightarrow> instr list \<Rightarrow> label \<Rightarrow> node option \<Rightarrow> bool" where
  "tests_cond sl c lab q \<longleftrightarrow> (case q of None \<Rightarrow> c = [] | Some n \<Rightarrow> jumps_on_zero sl {} c lab (\<lambda>E. cev E n))"

definition for_shape :: "fenv \<Rightarrow> node \<Rightarrow> nat \<Rightarrow> gst \<Rightarrow> nat \<Rightarrow> instr list \<Rightarrow> instr list \<Rightarrow> instr list \<Rightarrow> gst \<Rightarrow> bool" where
  "for_shape F n d g l cq ct ci g' \<longleftrightarrow>
     (\<exists>g1 g2. tests_cond (spill_logand g) cq (L_end l) (ncond n) \<and> idle d g \<and>
        gext {} (enter l g) g1 \<and> gen_stmt (gen_opt F (nthen n)) g1 = Some ((), ct, g2) \<and>
        gext {} (enter l g) g2 \<and> gen_stmt (gen_opt F (ninc n)) g2 = Some ((), ci, g') \<and> gext {} (enter l g) g')"

lemma cond_code_total:
  assumes "q = None \<or> test_ok q" "idle d g"
  obtains c g' where "(if q \<noteq> None then gen_branch F q lab else gret ()) g = Some ((), c, g')" "gext {} g g'"
    "labels_between (label_count g) (label_count g') c" "tests_cond (spill_logand g) c lab q"
proof (cases q)
  case None
  then show thesis
    using that [of "[]" g] gext_refl [OF assms(2)] labels_between_Nil [of "[]"] by (simp add: gret_def tests_cond_def)
next
  case (Some n)
  then have q: "test_ok q" using assms(1) by auto
  obtain m c g' where "q = Some m" "gen_branch F q lab g = Some ((), c, g')" "gext {} g g'"
    "labels_between (label_count g) (label_count g') c" "jumps_on_zero (spill_logand g) {} c lab (\<lambda>E. cev E m)"
    by (rule test_branch_code [OF q assms(2)])
  then show thesis using that [of c g'] Some by (simp add: tests_cond_def del: gen_branch.simps)
qed

lemma for_generated:
  assumes n: "ndkind n = ND_FOR" "d < 128" "ncond n = None \<or> test_ok (ncond n)" and g: "idle d g"
    and T: "stmt_total F d (ninit n)" "stmt_total F (Suc d) (nthen n)" "stmt_total F (Suc d) (ninc n)"
  defines "l \<equiv> label_count g + 1"
  obtains c0 cq ct ci g0 g' where
    "gen_stmt (gen F n) g = Some ((), c0 @ loop_code l cq ct ci, leave g')" "gext {} g (leave g')"
    "labels_between (label_count g) (label_count (leave g')) (c0 @ loop_code l cq ct ci)"
    "gen_stmt (gen_opt F (ninit n)) (g\<lparr>label_count := l\<rparr>) = Some ((), c0, g0)" "gext {} g g0"
    "for_shape F n d g0 l cq ct ci g'"
proof -
  let ?g0 = "g\<lparr>label_count := l\<rparr>"
  have i0: "idle d ?g0" using g by simp
  obtain c0 g0 where a: "gen_stmt (gen_opt F (ninit n)) ?g0 = Some ((), c0, g0)" "gext {} ?g0 g0"
    "labels_between (label_count ?g0) (label_count g0) c0" by (rule stmt_totalE [OF T(1) i0])
  have ia: "idle d g0" by (rule idle_gext [OF i0 a(2)])
  have ie: "idle (Suc d) (enter l g0)" by (rule enter_idle [OF ia])
  obtain cq g1 where q: "(if ncond n \<noteq> None then gen_branch F (ncond n) (L_end l) else gret ()) (enter l g0) = Some ((), cq, g1)"
    "gext {} (enter l g0) g1" "labels_between (label_count (enter l g0)) (label_count g1) cq"
    "tests_cond (spill_logand (enter l g0)) cq (L_end l) (ncond n)" by (rule cond_code_total [OF n(3) ie])
  have i1: "idle (Suc d) g1" by (rule idle_gext [OF ie q(2)])
  obtain ct g2 where t: "gen_stmt (gen_opt F (nthen n)) g1 = Some ((), ct, g2)" "gext {} g1 g2"
    "labels_between (label_count g1) (label_count g2) ct" by (rule stmt_totalE [OF T(2) i1])
  have i2: "idle (Suc d) g2" by (rule idle_gext [OF i1 t(2)])
  obtain ci g3 where i: "gen_stmt (gen_opt F (ninc n)) g2 = Some ((), ci, g3)" "gext {} g2 g3"
    "labels_between (label_count g2) (label_count g3) ci" by (rule stmt_totalE [OF T(3) i2])
  have ext: "gext {} g g0" using a(2) by (auto simp: gext_def l_def)
  have e2: "gext {} (enter l g0) g2" by (rule gext_trans0 [OF q(2) t(2)])
  have e3: "gext {} (enter l g0) g3" by (rule gext_trans0 [OF e2 i(2)])
  have gen: "gen F n = gbind new_label (\<lambda>c. no_value (
       gseq (gen_stmt (gen_opt F (ninit n)))
       (gseq (push_loop c)
       (gseq (emit [Label (L_begin c)])
       (gseq (if ncond n \<noteq> None then gen_branch F (ncond n) (L_end c) else gret ())
       (gseq (gen_stmt (gen_opt F (nthen n)))
       (gseq (emit [Label (L_continue c)])
       (gseq (gen_stmt (gen_opt F (ninc n)))
       (gseq (emit [Jmp (L_begin c), Label (L_end c)]) pop_loop)))))))))"
    using n(1) by (simp add: gen.simps [of F n] gen_for_def)
  have gc: "gen_stmt (gen F n) g = Some ((), c0 @ [] @ [Label (L_begin l)] @ cq @ ct @ [Label (L_continue l)] @ ci @
      [Jmp (L_begin l), Label (L_end l)] @ [], leave g3)"
    unfolding gen
    by (rule label_stmt, fold l_def, intro gseq_Some)
      (rule a(1), rule push_loop_Some [OF ia n(2)], rule emit_Some, rule q(1), rule t(1), rule emit_Some, rule i(1),
       rule emit_Some, rule pop_loop_Some)
  have lc: "Suc (label_count g) \<le> label_count g0" "label_count g0 \<le> label_count g1" "label_count g1 \<le> label_count g2"
    "label_count g2 \<le> label_count g3"
    using a(2) q(2) t(2) i(2) by (simp_all add: gext_def l_def)
  have lb: "labels_between (label_count ?g0) (label_count g3) (c0 @ cq @ ct @ ci)"
    using labels_between_append [OF a(3) labels_between_append [OF _ labels_between_append [OF t(3) i(3)]], of cq] q(3) lc
    by (simp add: l_def)
  have "labels_between (label_count g) (label_count g3) (c0 @ loop_code l cq ct ci)"
  proof -
    have nl: "x \<notin> set (labels (c0 @ cq @ ct @ ci))" if "label_num x = Some l" for x
      using labels_between_new [OF lb that] by simp
    have "labels (c0 @ loop_code l cq ct ci) =
        labels c0 @ [L_begin l] @ labels cq @ labels ct @ [L_continue l] @ labels ci @ [L_end l]"
      by (simp add: loop_code_def)
    then show ?thesis
      using lb lc nl [of "L_begin l"] nl [of "L_continue l"] nl [of "L_end l"]
      by (auto simp: labels_between_def label_num_def l_def dest!: bspec intro: less_trans)
  qed
  moreover have "for_shape F n d g0 l cq ct ci g3"
    unfolding for_shape_def using q(2,4) t(1) i(1) e2 e3 ia by auto
  moreover have "gext {} g (leave g3)" by (rule gext_trans0 [OF ext leave_gext [OF e3]])
  ultimately show thesis using that [of c0 cq ct ci g3 g0] gc a(1) ext by (simp add: loop_code_def)
qed


text \<open>The test at the end of a \<open>do\<close> loop jumps back when the condition holds.\<close>

definition jumps_on_nonzero :: "int \<Rightarrow> instr list \<Rightarrow> label \<Rightarrow> (cenv \<Rightarrow> ceval) \<Rightarrow> bool" where
  "jumps_on_nonzero sl c lab sem \<longleftrightarrow>
     (\<forall>E P i m mm v mm' j d. code_at P i c \<longrightarrow> distinct (labels P) \<longrightarrow> code_at P j (Label lab # d) \<longrightarrow> Rel E sl m mm \<longrightarrow>
        sem E mm = Some (v, mm') \<longrightarrow>
        (\<exists>m'. steps P (i, m) (if v \<noteq> 0 then j else i + length c, m') \<and> Rel E sl m' mm' \<and> keeps E sl {} m m'))"

definition do_test :: "node \<Rightarrow> nat \<Rightarrow> cgen \<Rightarrow> unit gm" where
  "do_test n c cond_gen =
     with_reg cond_gen (\<lambda>r. with_child (ncond n) (\<lambda>q. with_type (ndty q) (\<lambda>t.
       gseq (emit [Alu A_cmp S_none (Imm 0) (reg r (sizeof t))])
       (gseq (free_reg r) (emit [Jcc CC_NE (L_begin c)])))))"

lemma do_test_code:
  assumes "test_ok (ncond n)" "idle d g"
  obtains q c g' where "ncond n = Some q" "do_test n l (gen_opt F (ncond n)) g = Some ((), c, g')" "gext {} g g'"
    "labels_between (label_count g) (label_count g') c" "jumps_on_nonzero (spill_logand g) c (L_begin l) (\<lambda>E. cev E q)"
proof -
  obtain q where q: "ncond n = Some q" "value_ok True q" "scalar (tyof q)" "rneed q \<le> 8"
    using assms(1) by (auto simp: test_ok_def split: option.splits)
  have g: "ready g" "rneed q \<le> free_count (used g)" "used g = {}"
    using assms(2) q(4) by (simp_all add: idle_def free_count_empty)
  let ?sl = "spill_logand g" and ?t = "tyof q"
  obtain r c g1 where y: "yields (gen F q) (\<lambda>E. cev E q) ?t True g r c g1"
    by (rule implementsE [OF gen_implements [OF q(2)] g(1,2)])
  note r = yieldsD [OF y]
  let ?g = "g1\<lparr>used := used g1 - {r}\<rparr>"
  let ?c = "c @ test_branch r ?t CC_NE (L_begin l)"
  have "do_test n l (gen_opt F (ncond n)) g = Some ((), ?c, ?g)"
    using r(1) q(1) value_ok_typed [OF q(2)] free_reg_plain [OF gext_spilled [OF r(4)]]
    by (simp add: do_test_def gen_defs test_branch_def)
  moreover have "gext {} g ?g" using gext_free [OF r(4,3)] g(3) by simp
  moreover have "labels_between (label_count g) (label_count ?g) ?c" using labels_between_plain(1) [OF r(5)] by simp
  moreover have "jumps_on_nonzero ?sl ?c (L_begin l) (\<lambda>E. cev E q)"
    unfolding jumps_on_nonzero_def
  proof (intro allI impI)
    fix E P i m mm v mm' j d
    assume h: "code_at P i ?c" "distinct (labels P)" "code_at P j (Label (L_begin l) # d)" "Rel E ?sl m mm" "cev E q mm = Some (v, mm')"
    have at: "code_at P i c" "code_at P (i + length c) (test_branch r ?t CC_NE (L_begin l))" using h(1) by simp_all
    obtain m1 where m1: "goes P i c m m1" "Rel E ?sl m1 mm'" "keeps E ?sl {} m m1" "rep ?t v (regs m1 (phys r))"
      using computesE [OF r(6) at(1) h(2,4,5)] g(3) by auto
    have v: "conv ?t v = v" using cev_in_range [OF q(2,3)] h(5) by (rule in_rangeD)
    obtain m2 where m2: "steps P (i + length c, m1) (if (v = 0) = (CC_NE = CC_E) then j else i + length c + 2, m2)"
      "\<And>E sl U. keeps E sl U m1 m2" "\<And>E sl mm. Rel E sl m1 mm \<Longrightarrow> Rel E sl m2 mm"
      by (rule test_branch_steps [OF at(2) h(2,3) q(3) v m1(4), of thesis]) auto
    have "steps P (i, m) (if v \<noteq> 0 then j else i + length ?c, m2)"
      using steps_trans [OF m1(1) [unfolded goes_def] m2(1)] by (cases "v = 0") simp_all
    then show "\<exists>m'. steps P (i, m) (if v \<noteq> 0 then j else i + length ?c, m') \<and> Rel E ?sl m' mm' \<and> keeps E ?sl {} m m'"
      using m2(3) [OF m1(2)] keeps_trans [OF m1(3) m2(2)] by blast
  qed
  ultimately show thesis using that q(1) by blast
qed

definition do_code :: "nat \<Rightarrow> instr list \<Rightarrow> instr list \<Rightarrow> instr list" where
  "do_code l ct cq = [Label (L_begin l)] @ ct @ [Label (L_continue l)] @ cq @ [Label (L_end l)]"

definition do_shape :: "fenv \<Rightarrow> node \<Rightarrow> nat \<Rightarrow> gst \<Rightarrow> nat \<Rightarrow> instr list \<Rightarrow> instr list \<Rightarrow> bool" where
  "do_shape F n d g l ct cq \<longleftrightarrow>
     (\<exists>g1 q. idle d g \<and> gen_stmt (gen_opt F (nthen n)) (enter l g) = Some ((), ct, g1) \<and> gext {} (enter l g) g1 \<and>
        ncond n = Some q \<and> jumps_on_nonzero (spill_logand g) cq (L_begin l) (\<lambda>E. cev E q))"

lemma do_generated:
  assumes n: "ndkind n = ND_DO" "d < 128" "test_ok (ncond n)" and g: "idle d g" and T: "stmt_total F (Suc d) (nthen n)"
  defines "l \<equiv> label_count g + 1"
  obtains ct cq g' where "gen_stmt (gen F n) g = Some ((), do_code l ct cq, g')" "gext {} g g'"
    "labels_between (label_count g) (label_count g') (do_code l ct cq)" "do_shape F n d (g\<lparr>label_count := l\<rparr>) l ct cq"
proof -
  let ?g0 = "g\<lparr>label_count := l\<rparr>"
  have i0: "idle d ?g0" using g by simp
  have ie: "idle (Suc d) (enter l ?g0)" by (rule enter_idle [OF i0])
  obtain ct g1 where t: "gen_stmt (gen_opt F (nthen n)) (enter l ?g0) = Some ((), ct, g1)" "gext {} (enter l ?g0) g1"
    "labels_between (label_count (enter l ?g0)) (label_count g1) ct" by (rule stmt_totalE [OF T ie])
  have i1: "idle (Suc d) g1" by (rule idle_gext [OF ie t(2)])
  obtain q cq g2 where q: "ncond n = Some q" "do_test n l (gen_opt F (ncond n)) g1 = Some ((), cq, g2)" "gext {} g1 g2"
    "labels_between (label_count g1) (label_count g2) cq" "jumps_on_nonzero (spill_logand g1) cq (L_begin l) (\<lambda>E. cev E q)"
    by (rule do_test_code [OF n(3) i1])
  have gen: "gen F n = gbind new_label (\<lambda>c. no_value (
       gseq (emit [Label (L_begin c)])
       (gseq (push_loop c)
       (gseq (gen_stmt (gen_opt F (nthen n)))
       (gseq (emit [Label (L_continue c)])
       (gseq (do_test n c (gen_opt F (ncond n)))
       (gseq (emit [Label (L_end c)]) pop_loop)))))))"
    using n(1) by (simp add: gen.simps [of F n] gen_do_def do_test_def)
  have gc: "gen_stmt (gen F n) g = Some ((), [Label (L_begin l)] @ [] @ ct @ [Label (L_continue l)] @ cq @ [Label (L_end l)] @ [], leave g2)"
    unfolding gen
    by (rule label_stmt, fold l_def, intro gseq_Some)
      (rule emit_Some, rule push_loop_Some [OF i0 n(2)], rule t(1), rule emit_Some, rule q(2), rule emit_Some, rule pop_loop_Some)
  have e2: "gext {} (enter l ?g0) g2" by (rule gext_trans0 [OF t(2) q(3)])
  have lc: "Suc (label_count g) \<le> label_count g1" "label_count g1 \<le> label_count g2"
    using t(2) q(3) by (simp_all add: gext_def l_def)
  have lb: "labels_between (label_count ?g0) (label_count g2) (ct @ cq)"
    using labels_between_append [OF t(3) q(4)] lc by (simp add: l_def)
  have "labels_between (label_count g) (label_count g2) (do_code l ct cq)"
  proof -
    have nl: "x \<notin> set (labels (ct @ cq))" if "label_num x = Some l" for x
      using labels_between_new [OF lb that] by simp
    have "labels (do_code l ct cq) = [L_begin l] @ labels ct @ [L_continue l] @ labels cq @ [L_end l]"
      by (simp add: do_code_def)
    then show ?thesis
      using lb lc nl [of "L_begin l"] nl [of "L_continue l"] nl [of "L_end l"]
      by (auto simp: labels_between_def label_num_def l_def dest!: bspec intro: less_trans)
  qed
  moreover have "gext {} g ?g0" using gext_refl [OF g] by (simp add: gext_def l_def)
  then have "gext {} g (leave g2)" by (rule gext_trans0 [OF _ leave_gext [OF e2]])
  moreover have "do_shape F n d ?g0 l ct cq"
    unfolding do_shape_def using i0 t(1,2) q(1,5) gext_slot [OF t(2)] by auto
  ultimately show thesis using that [of ct cq "leave g2"] gc by (simp add: do_code_def)
qed

section \<open>Return\<close>

definition return_value :: "fenv \<Rightarrow> int option \<Rightarrow> mach \<Rightarrow> bool" where
  "return_value F v m \<longleftrightarrow>
     (case (fn_return F, v) of (Some t, Some x) \<Rightarrow> rep t (conv t x) (regs m RAX) | _ \<Rightarrow> True)"

definition return_code :: "ctype \<Rightarrow> nat \<Rightarrow> instr list" where
  "return_code t r =
     Mov S_q (Reg 8 (phys r)) (Reg 8 RAX) #
     (if sizeof t < 4 \<and> unsigned_ty t then [Alu A_and S_l (Imm (2 ^ nat (sizeof t * 8) - 1)) (Reg 4 RAX)] else [])"

lemma mask_rax:
  assumes t: "scalar t" "unsigned_ty t" "sizeof t < 4" and r: "rep lt v (regs m RAX)" "4 \<le> vbytes lt"
  obtains m' where "exec_instr (Alu A_and S_l (Imm (2 ^ nat (sizeof t * 8) - 1)) (Reg 4 RAX)) m = Some m'"
    "only_regs {} m m'" "rep t (conv t v) (regs m' RAX)"
proof -
  let ?k = "2 ^ nat (sizeof t * 8) - 1 :: int"
  have s: "sizeof t = 1 \<or> sizeof t = 2" "is_integer t" "vbytes t = 4"
    using scalar_facts(9,13) [OF t(1)] t(3) by auto
  then have k: "?k = mask (8 * nat (sizeof t))" "low 4 ?k = ?k" "imm_fits 4 ?k"
    by (auto simp: mask_eq_exp_minus_1 low_def take_bit_int_eq_self imm_fits_def)
  define m' where "m' = putr 4 RAX (getr m 4 RAX AND ?k) (m\<lparr>flags_of := Some (logic_flags 4 (getr m 4 RAX AND ?k))\<rparr>)"
  have "exec_instr (Alu A_and S_l (Imm ?k) (Reg 4 RAX)) m = Some m'"
    using k(2,3) by (simp add: exec_alu_def rd_def wr_def m'_def)
  moreover have "only_regs {} m m'"
    unfolding m'_def by (rule only_regs_trans [OF only_regs_flags only_regs_putr]) (simp add: scratch_def)
  moreover have "getr m 4 RAX = low 4 v" using rep_getr [OF r] .
  then have "getr m 4 RAX AND ?k = low (nat (sizeof t)) (low 4 v)"
    unfolding k(1) by (simp add: low_def flip: take_bit_eq_mask)
  then have "getr m 4 RAX AND ?k = conv t v" using s t(2) by (auto simp: conv_def)
  then have "rep t (conv t v) (regs m' RAX)" using rep_putr [OF t(1)] s(3) unfolding m'_def by metis
  ultimately show thesis by (rule that)
qed

lemma exec_return_code:
  assumes ok: "return_ok F n" "lhs n = Some l" "fn_return F = Some t" and r: "rep (tyof l) v (regs m (phys r))" "r < 8"
    and v: "cev E l m0 = Some (v, m1)"
  obtains m' where "exec_seq (return_code t r) m = Some m'" "only_regs {} m m'" "rep t (conv t v) (regs m' RAX)"
proof -
  let ?lt = "tyof l"
  have o: "value_ok True l" "scalar ?lt \<or> is_array ?lt" "scalar t" "vbytes t \<le> vbytes ?lt"
    "4 \<le> sizeof t \<or> unsigned_ty t \<or> (int_scalar ?lt \<and> sizeof ?lt = sizeof t \<and> unsigned_ty ?lt = unsigned_ty t)"
    using ok by (auto simp: return_ok_def)
  let ?m = "putr 8 RAX (getr m 8 (phys r)) m"
  have mv: "exec_instr (Mov S_q (Reg 8 (phys r)) (Reg 8 RAX)) m = Some ?m" by (simp add: rd_def wr_def)
  have om: "only_regs {} m ?m" by (rule only_regs_putr) (simp add: scratch_def)
  have "regs ?m RAX = regs m (phys r)" by (simp add: putr_def getr_def)
  then have rm: "rep ?lt v (regs ?m RAX)" using r(1) by simp
  show thesis
  proof (cases "sizeof t < 4 \<and> unsigned_ty t")
    case True
    have "4 \<le> vbytes ?lt" using o(2) scalar_facts(10) [of ?lt] array_facts(1) [of ?lt] by auto
    then obtain m' where m': "exec_instr (Alu A_and S_l (Imm (2 ^ nat (sizeof t * 8) - 1)) (Reg 4 RAX)) ?m = Some m'"
      "only_regs {} ?m m'" "rep t (conv t v) (regs m' RAX)"
      using mask_rax [OF o(3) conjunct2 [OF True] conjunct1 [OF True] rm] by blast
    have "exec_seq (return_code t r) m = Some m'"
      using True by (simp only: return_code_def if_True exec_seq.simps mv m'(1) Option.bind_lunit simp_thms)
    then show thesis using that only_regs_trans [OF om m'(2)] m'(3) by blast
  next
    case False
    then have "assigned_exact t ?lt (\<lambda>E. cev E l)"
      using o(5) cev_in_range [OF o(1)] int_scalar_scalar by (auto simp: assigned_exact_def)
    moreover have "nat (sizeof t) \<le> vbytes ?lt" using scalar_facts(11) [OF o(3)] o(4) by simp
    ultimately have "rep t (conv t v) (regs ?m RAX)" using assigned_rep [OF _ o(3) _ rm] v by blast
    moreover have "exec_seq (return_code t r) m = Some ?m"
      using False by (simp only: return_code_def if_False exec_seq.simps mv Option.bind_lunit)
    ultimately show thesis using that om by blast
  qed
qed

lemma return_generated:
  assumes n: "ndkind n = ND_RETURN" "return_ok F n" and g: "idle d g"
  obtains c g' where "gen_stmt (gen F n) g = Some ((), c, g')" "gext {} g g'" "labels_between (label_count g) (label_count g') c"
    "\<And>E P i m mm v mm' k. code_at P i c \<Longrightarrow> distinct (labels P) \<Longrightarrow> code_at P k [Label (L_return (fn_name F))] \<Longrightarrow>
      Rel E (spill_logand g) m mm \<Longrightarrow>
      (case lhs n of None \<Rightarrow> v = None \<and> mm' = mm | Some l \<Rightarrow> \<exists>x. v = Some x \<and> cev E l mm = Some (x, mm')) \<Longrightarrow>
      \<exists>m'. steps P (i, m) (k, m') \<and> Rel E (spill_logand g) m' mm' \<and> keeps E (spill_logand g) {} m m' \<and> return_value F v m'"
proof (cases "lhs n")
  case None
  have left: "emit_cleanup_range (leaves (info n)) = gret ()"
    using n(2) by (simp add: return_ok_def leaves_nothing_code)
  let ?c = "[Jmp (L_return (fn_name F))]"
  have "gen_stmt (gen F n) g = Some ((), ?c, g)"
    using n(1) None left by (simp add: gen.simps [of F n] gen_return_def gen_stmt_def gen_defs)
  moreover have "\<exists>m'. steps P (i, m) (k, m') \<and> Rel E (spill_logand g) m' mm' \<and> keeps E (spill_logand g) {} m m' \<and> return_value F v m'"
    if h: "code_at P i ?c" "distinct (labels P)" "code_at P k [Label (L_return (fn_name F))]" "Rel E (spill_logand g) m mm"
      "case lhs n of None \<Rightarrow> v = None \<and> mm' = mm | Some l \<Rightarrow> \<exists>x. v = Some x \<and> cev E l mm = Some (x, mm')"
    for E P i m mm v mm' k
  proof -
    have "v = None" "mm' = mm" using h(5) None by simp_all
    then have "return_value F v m" "Rel E (spill_logand g) m mm'" using h(4) by (simp_all add: return_value_def split: option.splits)
    then show ?thesis using steps_step [OF step_jmp [OF h(1-3)] steps_refl] keeps_refl by blast
  qed
  ultimately show thesis using that gext_refl [OF g] labels_between_Nil [of ?c] by simp
next
  case (Some l)
  have left: "emit_cleanup_range (leaves (info n)) = gret ()"
    using n(2) by (simp add: return_ok_def leaves_nothing_code)
  obtain t where t: "fn_return F = Some t" "scalar t" "value_ok True l" "rneed l \<le> 8" "scalar (tyof l) \<or> is_array (tyof l)"
    using n(2) Some by (auto simp: return_ok_def split: option.splits)
  have gg: "ready g" "rneed l \<le> free_count (used g)" "used g = {}"
    using g t(4) by (simp_all add: idle_def free_count_empty)
  let ?sl = "spill_logand g" and ?lt = "tyof l"
  obtain r c g1 where y: "yields (gen F l) (\<lambda>E. cev E l) ?lt True g r c g1"
    by (rule implementsE [OF gen_implements [OF t(3)] gg(1,2)])
  note r = yieldsD [OF y]
  let ?g = "g1\<lparr>used := used g1 - {r}\<rparr>"
  let ?c = "c @ return_code t r @ [Jmp (L_return (fn_name F))]"
  have "tkind ?lt \<noteq> TY_STRUCT \<and> tkind ?lt \<noteq> TY_UNION \<and> \<not> is_flonum ?lt"
    using t(5) scalar_facts(1,6) [of ?lt] array_facts(2,4) [of ?lt] by (auto simp: is_copied_def)
  then have "gen_stmt (gen F n) g = Some ((), ?c, ?g)"
    using n(1) Some t(1) left r(1) value_ok_typed [OF t(3)] scalar_facts(1) [OF t(2)] free_reg_plain [OF gext_spilled [OF r(4)]]
    by (simp add: gen.simps [of F n] gen_return_def gen_stmt_def gen_defs return_code_def)
  moreover have "gext {} g ?g" using gext_free [OF r(4,3)] gg(3) by simp
  moreover have "labels_between (label_count g) (label_count ?g) ?c"
    using labels_between_plain(1) [OF r(5), of "return_code t r @ [Jmp (L_return (fn_name F))]"] by (simp add: return_code_def)
  moreover have "\<exists>m'. steps P (i, m) (k, m') \<and> Rel E ?sl m' mm' \<and> keeps E ?sl {} m m' \<and> return_value F v m'"
    if h: "code_at P i ?c" "distinct (labels P)" "code_at P k [Label (L_return (fn_name F))]" "Rel E ?sl m mm"
      "case lhs n of None \<Rightarrow> v = None \<and> mm' = mm | Some l \<Rightarrow> \<exists>x. v = Some x \<and> cev E l mm = Some (x, mm')"
    for E P i m mm v mm' k
  proof -
    obtain x where x: "v = Some x" "cev E l mm = Some (x, mm')" using h(5) Some by auto
    have at: "code_at P i c" "code_at P (i + length c) (return_code t r)"
      "code_at P (i + length c + length (return_code t r)) [Jmp (L_return (fn_name F))]" using h(1) by simp_all
    obtain m1 where m1: "goes P i c m m1" "Rel E ?sl m1 mm'" "keeps E ?sl {} m m1" "rep ?lt x (regs m1 (phys r))"
      using computesE [OF r(6) at(1) h(2,4) x(2)] gg(3) by auto
    obtain m2 where m2: "exec_seq (return_code t r) m1 = Some m2" "only_regs {} m1 m2" "rep t (conv t x) (regs m2 RAX)"
      by (rule exec_return_code [OF n(2) Some t(1) m1(4) r(2) x(2)])
    note kk = only_regs_keeps [OF m2(2) empty_subsetI empty_subsetI Int_empty_left, of E ?sl]
    have "steps P (i, m) (k, m2)"
      using steps_trans [OF m1(1) [unfolded goes_def] steps_trans [OF steps_seq [OF m2(1) at(2)] steps_step [OF step_jmp [OF at(3) h(2,3)] steps_refl]]] .
    then show ?thesis
      using kk(2) [OF m1(2)] keeps_trans [OF m1(3) kk(1) subset_refl] m2(3) x(1) t(1) by (auto simp: return_value_def)
  qed
  ultimately show thesis using that by blast
qed

section \<open>The generator succeeds\<close>

lemma stmts_total:
  assumes "\<And>n. n \<in> set ns \<Longrightarrow> stmt_total F d (Some n)" "idle d g"
  shows "\<exists>c g'. gen_list F ns g = Some ((), c, g') \<and> gext {} g g' \<and> labels_between (label_count g) (label_count g') c"
  using assms
proof (induction ns arbitrary: g)
  case Nil
  then show ?case using gext_refl labels_between_Nil [of "[]"] by (auto simp: gret_def)
next
  case (Cons n ns)
  then have "stmt_total F d (Some n)" by simp
  then obtain c g1 where c: "gen_stmt (gen_opt F (Some n)) g = Some ((), c, g1)" "gext {} g g1"
    "labels_between (label_count g) (label_count g1) c" by (rule stmt_totalE [OF _ Cons.prems(2)])
  obtain e g2 where e: "gen_list F ns g1 = Some ((), e, g2)" "gext {} g1 g2" "labels_between (label_count g1) (label_count g2) e"
    using Cons.IH [of g1] Cons.prems idle_gext [OF Cons.prems(2) c(2)] by auto
  have "label_count g \<le> label_count g1" "label_count g1 \<le> label_count g2" using c(2) e(2) by (simp_all add: gext_def)
  moreover have "gen_list F (n # ns) g = Some ((), c @ e, g2)"
    unfolding gen_list.simps by (rule gseq_Some) (use c(1) e(1) in simp_all)
  ultimately show ?case
    using gext_trans0 [OF c(2) e(2)] labels_between_append [OF c(3) e(3)] by auto
qed

lemma stmts_ok_set: "stmts_ok F d ns \<longleftrightarrow> (\<forall>n \<in> set ns. stmt_ok F d n)"
  by (induction ns) auto

lemma member_size: "x \<in> set ns \<Longrightarrow> Suc (size x) \<le> size_list size ns"
  by (induction ns) auto

lemma stmt_body_size: "x \<in> set (nbody n) \<Longrightarrow> Suc (size x) < size n"
  using member_size [of x "nbody n"] node_child_size(8) [of n] by simp

lemma stmt_total_none: "stmt_total F d None"
  using gext_refl labels_between_Nil [of "[]"] by (auto simp: stmt_total_def gen_stmt_none)


lemma value_total:
  assumes "value_ok False n" "rneed n \<le> 8"
  shows "stmt_total F d (Some n)"
  unfolding stmt_total_def
proof (intro allI impI)
  fix g assume "idle d g"
  then obtain c g' where "gen_stmt (gen F n) g = Some ((), c, g')" "gext {} g g'" "labels_between (label_count g) (label_count g') c"
    by (rule value_stmt [OF assms, of d g F])
  then show "\<exists>c g'. gen_stmt (gen_opt F (Some n)) g = Some ((), c, g') \<and> gext {} g g' \<and>
      labels_between (label_count g) (label_count g') c" by auto
qed

lemma stmt_total_eq:
  assumes "stmt_total F d x" "\<And>g. idle d g \<Longrightarrow> gen_stmt (gen_opt F y) g = gen_stmt (gen_opt F x) g"
  shows "stmt_total F d y"
  using assms unfolding stmt_total_def by metis

lemma loop_stack:
  assumes "idle d g" "0 < d"
  obtains b bs c cs where "break_stack g = b # bs" "continue_stack g = c # cs"
  using assms by (cases "break_stack g"; cases "continue_stack g") (auto simp: idle_def)

lemma gen_break_code:
  assumes "ndkind n = ND_BREAK" "leaves_nothing n" "break_stack g = b # bs"
  shows "gen_stmt (gen F n) g = Some ((), [Jmp (L_end b)], g)"
  using assms by (simp add: gen.simps [of F n] gen_stmt_def gen_break_def leaves_nothing_code gen_defs)

lemma gen_continue_code:
  assumes "ndkind n = ND_CONTINUE" "leaves_nothing n" "continue_stack g = b # bs"
  shows "gen_stmt (gen F n) g = Some ((), [Jmp (L_continue b)], g)"
  using assms by (simp add: gen.simps [of F n] gen_stmt_def gen_continue_def leaves_nothing_code gen_defs)

lemma block_code: "ndkind n = ND_BLOCK \<Longrightarrow> gen_stmt (gen F n) = gen_list F (nbody n)"
  by (simp add: gen.simps [of F n] gen_stmt_no_value)

lemma expr_stmt_code: "ndkind n = ND_EXPR_STMT \<Longrightarrow> gen_stmt (gen F n) = gen_stmt (gen_opt F (lhs n))"
  by (simp add: gen.simps [of F n] gen_stmt_no_value)

lemma null_code: "ndkind n = ND_NULL \<Longrightarrow> gen_stmt (gen F n) g = Some ((), [], g)"
  by (simp add: gen.simps [of F n] gen_stmt_none)

lemma stmt_total_step:
  assumes IH: "\<And>x d. osize x < size n \<Longrightarrow> stmt_ok_opt F d x \<Longrightarrow> stmt_total F d x"
    and n: "stmt_ok F d n"
  shows "stmt_total F d (Some n)"
proof -
  note ch = node_child_size [of n]
  note ok = n [unfolded stmt_ok.simps [of F d n]]
  have leaf: "stmt_total F d (Some n)" if "\<And>g. idle d g \<Longrightarrow> \<exists>c. gen_stmt (gen F n) g = Some ((), c, g) \<and> labels c = []"
    unfolding stmt_total_def
  proof (intro allI impI)
    fix g assume g: "idle d g"
    from that [OF g] obtain c where "gen_stmt (gen F n) g = Some ((), c, g)" "labels c = []" by blast
    then show "\<exists>c g'. gen_stmt (gen_opt F (Some n)) g = Some ((), c, g') \<and> gext {} g g' \<and>
        labels_between (label_count g) (label_count g') c"
      using gext_refl [OF g] labels_between_Nil [of c] by auto
  qed
  show ?thesis
  proof (cases "stmt_kind (ndkind n)")
    case False
    then have "value_ok False n" "rneed n \<le> 8" using ok by (cases "ndkind n"; simp add: stmt_kind_def)+
    then show ?thesis by (rule value_total)
  next
    case True
    then consider "ndkind n = ND_NULL" | "ndkind n = ND_EXPR_STMT" | "ndkind n = ND_BLOCK" | "ndkind n = ND_IF" | "ndkind n = ND_FOR"
      | "ndkind n = ND_DO" | "ndkind n = ND_BREAK" | "ndkind n = ND_CONTINUE" | "ndkind n = ND_RETURN"
      unfolding stmt_kind_def by blast
    then show ?thesis
    proof cases
      case 1
      then show ?thesis using null_code by (intro leaf) auto
    next
      case 2
      have "stmt_total F d (lhs n)" using IH [of "lhs n" d] ok 2 ch(1) by simp
      then show ?thesis by (rule stmt_total_eq) (simp add: expr_stmt_code [OF 2])
    next
      case 3
      have "stmt_total F d (Some x)" if "x \<in> set (nbody n)" for x
        using IH [of "Some x" d] ok 3 that by (auto simp: stmts_ok_set dest: stmt_body_size)
      then show ?thesis using stmts_total [of "nbody n" F d] block_code [OF 3] by (auto simp: stmt_total_def)
    next
      case 4
      have T: "stmt_total F d (nthen n)" "stmt_total F d (nels n)" using IH ok 4 ch(4,5) by simp_all
      obtain q where q: "ncond n = Some q" "test_ok (ncond n)" "if_ok n" using ok 4 by (auto simp: test_ok_def split: option.splits)
      show ?thesis
      proof (cases "ndkind q = ND_NUM")
        case True
        then have "\<not> has_label n" using q by (simp add: if_ok_def)
        note c = if_constant [OF 4 q(1) True this, of F]
        show ?thesis by (rule stmt_total_eq [of F d "if ndval q \<noteq> 0 then nthen n else nels n"]) (use T c in auto)
      next
        case False
        show ?thesis
          unfolding stmt_total_def
        proof (intro allI impI)
          fix g assume g: "idle d g"
          show "\<exists>c g'. gen_stmt (gen_opt F (Some n)) g = Some ((), c, g') \<and> gext {} g g' \<and> labels_between (label_count g) (label_count g') c"
            by (rule if_shape [OF 4 q(2,1) False g T]) auto
        qed
      qed
    next
      case 5
      have T: "stmt_total F d (ninit n)" "stmt_total F (Suc d) (nthen n)" "stmt_total F (Suc d) (ninc n)" "d < 128"
        "ncond n = None \<or> test_ok (ncond n)" using IH ok 5 ch(4,6,7) by simp_all
      show ?thesis
        unfolding stmt_total_def
      proof (intro allI impI)
        fix g assume g: "idle d g"
        show "\<exists>c g'. gen_stmt (gen_opt F (Some n)) g = Some ((), c, g') \<and> gext {} g g' \<and> labels_between (label_count g) (label_count g') c"
          by (rule for_generated [OF 5 T(4,5) g T(1-3)]) auto
      qed
    next
      case 6
      have T: "stmt_total F (Suc d) (nthen n)" "d < 128" "test_ok (ncond n)" using IH ok 6 ch(4) by simp_all
      show ?thesis
        unfolding stmt_total_def
      proof (intro allI impI)
        fix g assume g: "idle d g"
        show "\<exists>c g'. gen_stmt (gen_opt F (Some n)) g = Some ((), c, g') \<and> gext {} g g' \<and> labels_between (label_count g) (label_count g') c"
          by (rule do_generated [OF 6 T(2,3) g T(1)]) auto
      qed
    next
      case 7
      then have d: "0 < d" "leaves_nothing n" using ok by simp_all
      then show ?thesis using gen_break_code [OF 7 d(2)] loop_stack [of d] by (intro leaf) (metis labels.simps)
    next
      case 8
      then have d: "0 < d" "leaves_nothing n" using ok by simp_all
      then show ?thesis using gen_continue_code [OF 8 d(2)] loop_stack [of d] by (intro leaf) (metis labels.simps)
    next
      case 9
      then have "return_ok F n" using ok by simp
      then show ?thesis
        unfolding stmt_total_def using return_generated [OF 9, of F d] by (metis gen_opt.simps(2))
    qed
  qed
qed

lemma stmts_generated: "stmt_ok_opt F d x \<Longrightarrow> stmt_total F d x"
proof (induction x arbitrary: d rule: measure_induct_rule [where f = osize])
  case (less x)
  show ?case
  proof (cases x)
    case None
    then show ?thesis by (simp add: stmt_total_none)
  next
    case (Some n)
    then show ?thesis using less by (auto intro!: stmt_total_step)
  qed
qed

end
