(* ===== verification/GenRun.thy ===== *)
theory GenRun
  imports GenStmt
begin

text \<open>
  The generated code of a statement does what the statement means: by rule induction over the
  big-step semantics, one lemma per rule. The machine ends behind the code, at the label of the
  innermost loop or at the return label of the function, whichever the outcome asks for.
\<close>

section \<open>Where control goes\<close>

definition jump_targets :: "instr list \<Rightarrow> fenv \<Rightarrow> gst \<Rightarrow> bool" where
  "jump_targets P F g \<longleftrightarrow>
     (\<forall>b bs. break_stack g = b # bs \<longrightarrow> (\<exists>k. code_at P k [Label (L_end b)])) \<and>
     (\<forall>b bs. continue_stack g = b # bs \<longrightarrow> (\<exists>k. code_at P k [Label (L_continue b)])) \<and>
     (\<exists>k. code_at P k [Label (L_return (fn_name F))])"

definition arrives :: "instr list \<Rightarrow> fenv \<Rightarrow> gst \<Rightarrow> nat \<Rightarrow> outcome \<Rightarrow> nat \<Rightarrow> bool" where
  "arrives P F g e out k \<longleftrightarrow>
     (case out of
        Normal \<Rightarrow> k = e
      | Breaks \<Rightarrow> (\<exists>b bs. break_stack g = b # bs \<and> code_at P k [Label (L_end b)])
      | Continues \<Rightarrow> (\<exists>b bs. continue_stack g = b # bs \<and> code_at P k [Label (L_continue b)])
      | Returns v \<Rightarrow> code_at P k [Label (L_return (fn_name F))])"

text \<open>
  From \<open>i\<close> the machine gets to where the outcome leads (the end \<open>e\<close> of the code, the label of the
  innermost loop, the return label) with the memory the semantics says.
\<close>

definition ends :: "instr list \<Rightarrow> fenv \<Rightarrow> cenv \<Rightarrow> gst \<Rightarrow> nat \<Rightarrow> nat \<Rightarrow> mach \<Rightarrow> outcome \<Rightarrow> memory \<Rightarrow> bool" where
  "ends P F E g i e m out mm' \<longleftrightarrow>
     (\<exists>k m'. steps P (i, m) (k, m') \<and> arrives P F g e out k \<and> Rel E (spill_logand g) m' mm' \<and>
        keeps E (spill_logand g) {} m m' \<and> (\<forall>v. out = Returns v \<longrightarrow> return_value F v m'))"

lemma keeps_trans0: "keeps E sl {} m m1 \<Longrightarrow> keeps E sl {} m1 m2 \<Longrightarrow> keeps E sl {} m m2"
  by (rule keeps_trans) auto

lemma ends_after:
  assumes "ends P F E g j e m1 out mm'" "steps P (i, m) (j, m1)" "keeps E (spill_logand g) {} m m1"
  shows "ends P F E g i e m out mm'"
  using assms steps_trans keeps_trans0 unfolding ends_def by blast

lemma ends_normalI:
  assumes "steps P (i, m) (e, m')" "Rel E (spill_logand g) m' mm'" "keeps E (spill_logand g) {} m m'"
  shows "ends P F E g i e m Normal mm'"
  using assms unfolding ends_def by (intro exI [of _ e] exI [of _ m']) (simp add: arrives_def)

lemma ends_normalE:
  assumes "ends P F E g i e m Normal mm'"
  obtains m' where "steps P (i, m) (e, m')" "Rel E (spill_logand g) m' mm'" "keeps E (spill_logand g) {} m m'"
  using assms by (auto simp: ends_def arrives_def)

text \<open>What follows the code does not matter when the statement is left early, and neither do changes of the allocator.\<close>

lemma ends_early:
  assumes "ends P F E g i e m out mm'" "out \<noteq> Normal"
  shows "ends P F E g i e' m out mm'"
  using assms by (cases out) (auto simp: ends_def arrives_def)

lemma ends_gext:
  assumes "ends P F E g1 i e m out mm'" "gext {} g g1"
  shows "ends P F E g i e m out mm'"
  using assms unfolding ends_def arrives_def gext_def by (cases out) auto

lemma ends_seq:
  assumes "ends P F E g i e m out mm'" "gext {} g0 g"
    and "\<And>m1. steps P (e, m1) (e', m1)"
  shows "ends P F E g0 i e' m out mm'"
proof (cases "out = Normal")
  case True
  then obtain m' where "steps P (i, m) (e, m')" "Rel E (spill_logand g) m' mm'" "keeps E (spill_logand g) {} m m'"
    using assms(1) ends_normalE by blast
  then have "ends P F E g i e' m Normal mm'" using steps_trans [OF _ assms(3)] ends_normalI by blast
  then show ?thesis using ends_gext [OF _ assms(2)] True by simp
next
  case False
  then show ?thesis using ends_early [OF assms(1)] ends_gext [OF _ assms(2)] by blast
qed

lemma targets_gext: "jump_targets P F g \<Longrightarrow> gext {} g g1 \<Longrightarrow> jump_targets P F g1"
  by (simp add: jump_targets_def gext_def)

lemma label_unique:
  assumes "code_at P j (Label l # c)" "code_at P k (Label l # d)" "distinct (labels P)"
  shows "j = k"
proof -
  have "find_label P l = Some j" "find_label P l = Some k"
    using find_label_at [OF assms(3)] assms(1,2) by (simp_all add: code_at_Cons)
  then show ?thesis by simp
qed

lemma label_skip: "code_at P j (Label l # c) \<Longrightarrow> steps P (j, m) (Suc j, m)"
  by (rule steps_step [OF step_label steps_refl])

lemma jump_skip:
  "code_at P i (Jmp l # c) \<Longrightarrow> distinct (labels P) \<Longrightarrow> code_at P k (Label l # d) \<Longrightarrow> steps P (i, m) (Suc k, m)"
  by (rule steps_step [OF step_jmp label_skip])

section \<open>Statements run as they should\<close>

definition exec_right :: "cenv \<Rightarrow> node option \<Rightarrow> memory \<Rightarrow> outcome \<Rightarrow> memory \<Rightarrow> bool" where
  "exec_right E x mm out mm' \<longleftrightarrow>
     (\<forall>F d g c g' P i m. stmt_ok_opt F d x \<longrightarrow> idle d g \<longrightarrow> gen_stmt (gen_opt F x) g = Some ((), c, g') \<longrightarrow> code_at P i c \<longrightarrow>
        distinct (labels P) \<longrightarrow> jump_targets P F g \<longrightarrow> Rel E (spill_logand g) m mm \<longrightarrow>
        ends P F E g i (i + length c) m out mm')"

definition execs_right :: "cenv \<Rightarrow> node list \<Rightarrow> memory \<Rightarrow> outcome \<Rightarrow> memory \<Rightarrow> bool" where
  "execs_right E ns mm out mm' \<longleftrightarrow>
     (\<forall>F d g c g' P i m. stmts_ok F d ns \<longrightarrow> idle d g \<longrightarrow> gen_list F ns g = Some ((), c, g') \<longrightarrow> code_at P i c \<longrightarrow>
        distinct (labels P) \<longrightarrow> jump_targets P F g \<longrightarrow> Rel E (spill_logand g) m mm \<longrightarrow>
        ends P F E g i (i + length c) m out mm')"

definition loops_right :: "cenv \<Rightarrow> node \<Rightarrow> memory \<Rightarrow> outcome \<Rightarrow> memory \<Rightarrow> bool" where
  "loops_right E n mm out mm' \<longleftrightarrow>
     (\<forall>F d g l cq ct ci g' P i m. ndkind n = ND_FOR \<longrightarrow> stmt_ok F d n \<longrightarrow> for_shape F n d g l cq ct ci g' \<longrightarrow>
        code_at P i (loop_code l cq ct ci) \<longrightarrow> distinct (labels P) \<longrightarrow> jump_targets P F g \<longrightarrow> Rel E (spill_logand g) m mm \<longrightarrow>
        ends P F E g i (i + length (loop_code l cq ct ci)) m out mm')"

definition dos_right :: "cenv \<Rightarrow> node \<Rightarrow> memory \<Rightarrow> outcome \<Rightarrow> memory \<Rightarrow> bool" where
  "dos_right E n mm out mm' \<longleftrightarrow>
     (\<forall>F d g l ct cq P i m. ndkind n = ND_DO \<longrightarrow> stmt_ok F d n \<longrightarrow> do_shape F n d g l ct cq \<longrightarrow>
        code_at P i (do_code l ct cq) \<longrightarrow> distinct (labels P) \<longrightarrow> jump_targets P F g \<longrightarrow> Rel E (spill_logand g) m mm \<longrightarrow>
        ends P F E g i (i + length (do_code l ct cq)) m out mm')"

lemma exec_rightD:
  "exec_right E x mm out mm' \<Longrightarrow> stmt_ok_opt F d x \<Longrightarrow> idle d g \<Longrightarrow> gen_stmt (gen_opt F x) g = Some ((), c, g') \<Longrightarrow>
   code_at P i c \<Longrightarrow> distinct (labels P) \<Longrightarrow> jump_targets P F g \<Longrightarrow> Rel E (spill_logand g) m mm \<Longrightarrow>
   ends P F E g i (i + length c) m out mm'"
  unfolding exec_right_def by blast

lemma value_runs:
  assumes "\<not> stmt_kind (ndkind n)" "cev E n mm = Some (v, mm')"
  shows "exec_right E (Some n) mm Normal mm'"
  unfolding exec_right_def
proof (intro allI impI)
  fix F d g c g' P i m
  assume h: "stmt_ok_opt F d (Some n)" "idle d g" "gen_stmt (gen_opt F (Some n)) g = Some ((), c, g')" "code_at P i c"
    "distinct (labels P)" "jump_targets P F g" "Rel E (spill_logand g) m mm"
  have ok: "value_ok False n" "rneed n \<le> 8"
    using h(1) assms(1) by (cases "ndkind n"; simp add: stmt_kind_def stmt_ok.simps [of F d n])+
  have "\<exists>m'. goes P i c m m' \<and> Rel E (spill_logand g) m' mm' \<and> keeps E (spill_logand g) {} m m'"
    by (rule value_stmt [OF ok h(2), of F thesis for thesis]) (use h assms(2) in auto)
  then show "ends P F E g i (i + length c) m Normal mm'" using ends_normalI unfolding goes_def by blast
qed

lemma return_runs:
  assumes "ndkind n = ND_RETURN" "case lhs n of None \<Rightarrow> v = None \<and> mm' = mm | Some l \<Rightarrow> \<exists>x. v = Some x \<and> cev E l mm = Some (x, mm')"
  shows "exec_right E (Some n) mm (Returns v) mm'"
  unfolding exec_right_def
proof (intro allI impI)
  fix F d g c g' P i m
  assume h: "stmt_ok_opt F d (Some n)" "idle d g" "gen_stmt (gen_opt F (Some n)) g = Some ((), c, g')" "code_at P i c"
    "distinct (labels P)" "jump_targets P F g" "Rel E (spill_logand g) m mm"
  have ok: "return_ok F n" using h(1) assms(1) by (simp add: stmt_ok.simps [of F d n])
  obtain k where k: "code_at P k [Label (L_return (fn_name F))]" using h(6) by (auto simp: jump_targets_def)
  have "\<exists>m'. steps P (i, m) (k, m') \<and> Rel E (spill_logand g) m' mm' \<and> keeps E (spill_logand g) {} m m' \<and> return_value F v m'"
    by (rule return_generated [OF assms(1) ok h(2), of thesis for thesis]) (use h k assms(2) in auto)
  then show "ends P F E g i (i + length c) m (Returns v) mm'" using k unfolding ends_def arrives_def by auto
qed

lemma left_runs:
  assumes "ndkind n = ND_BREAK \<and> out = Breaks \<or> ndkind n = ND_CONTINUE \<and> out = Continues"
  shows "exec_right E (Some n) mm out mm"
  unfolding exec_right_def
proof (intro allI impI)
  fix F d g c g' P i m
  assume h: "stmt_ok_opt F d (Some n)" "idle d g" "gen_stmt (gen_opt F (Some n)) g = Some ((), c, g')" "code_at P i c"
    "distinct (labels P)" "jump_targets P F g" "Rel E (spill_logand g) m mm"
  have d: "0 < d" "leaves_nothing n" using h(1) assms by (auto simp: stmt_ok.simps [of F d n])
  from d(1) obtain b bs b' bs' where st: "break_stack g = b # bs" "continue_stack g = b' # bs'" by (rule loop_stack [OF h(2)])
  obtain k where "code_at P k [Label (if out = Breaks then L_end b else L_continue b')]"
    using h(6) st by (cases "out = Breaks") (auto simp: jump_targets_def)
  moreover have "c = [Jmp (if out = Breaks then L_end b else L_continue b')]"
    using h(3) assms gen_break_code [OF _ d(2), of g b bs F] gen_continue_code [OF _ d(2), of g b' bs' F] st by auto
  ultimately have "steps P (i, m) (k, m)" "arrives P F g (i + length c) out k"
    using h(4,5) steps_step [OF step_jmp steps_refl] st assms by (auto simp: arrives_def)
  then show "ends P F E g i (i + length c) m out mm"
    using h(7) keeps_refl assms unfolding ends_def by blast
qed


subsection \<open>Sequences and branches\<close>

lemma execs_cons_runs:
  assumes "exec_right E (Some n) mm Normal mm1" "execs_right E ns mm1 out mm'"
  shows "execs_right E (n # ns) mm out mm'"
  unfolding execs_right_def
proof (intro allI impI)
  fix F d g c g' P i m
  assume h: "stmts_ok F d (n # ns)" "idle d g" "gen_list F (n # ns) g = Some ((), c, g')" "code_at P i c"
    "distinct (labels P)" "jump_targets P F g" "Rel E (spill_logand g) m mm"
  have ok: "stmt_ok_opt F d (Some n)" "stmts_ok F d ns" using h(1) by simp_all
  obtain c1 g1 where c1: "gen_stmt (gen_opt F (Some n)) g = Some ((), c1, g1)" "gext {} g g1"
    by (rule stmt_totalE [OF stmts_generated [OF ok(1)] h(2)])
  obtain c2 where c2: "gen_list F ns g1 = Some ((), c2, g')" "c = c1 @ c2"
    using h(3) c1(1) by (auto simp: gseq_def gbind_def split: option.splits)
  have at: "code_at P i c1" "code_at P (i + length c1) c2" using h(4) c2(2) by simp_all
  obtain m1 where m1: "steps P (i, m) (i + length c1, m1)" "Rel E (spill_logand g) m1 mm1" "keeps E (spill_logand g) {} m m1"
    by (rule ends_normalE [OF exec_rightD [OF assms(1) ok(1) h(2) c1(1) at(1) h(5-7)]])
  have "ends P F E g1 (i + length c1) (i + length c1 + length c2) m1 out mm'"
    using assms(2) ok(2) idle_gext [OF h(2) c1(2)] c2(1) at(2) h(5) targets_gext [OF h(6) c1(2)] m1(2) gext_slot [OF c1(2)]
    unfolding execs_right_def by metis
  then have "ends P F E g (i + length c1) (i + length c) m1 out mm'" using ends_gext [OF _ c1(2)] c2(2) by (simp add: add.assoc)
  then show "ends P F E g i (i + length c) m out mm'" using m1(1,3) by (rule ends_after)
qed

lemma execs_left_runs:
  assumes "exec_right E (Some n) mm out mm'" "out \<noteq> Normal"
  shows "execs_right E (n # ns) mm out mm'"
  unfolding execs_right_def
proof (intro allI impI)
  fix F d g c g' P i m
  assume h: "stmts_ok F d (n # ns)" "idle d g" "gen_list F (n # ns) g = Some ((), c, g')" "code_at P i c"
    "distinct (labels P)" "jump_targets P F g" "Rel E (spill_logand g) m mm"
  have ok: "stmt_ok_opt F d (Some n)" using h(1) by simp
  obtain c1 g1 where c1: "gen_stmt (gen_opt F (Some n)) g = Some ((), c1, g1)" "gext {} g g1"
    by (rule stmt_totalE [OF stmts_generated [OF ok] h(2)])
  obtain c2 where c2: "c = c1 @ c2" using h(3) c1(1) by (auto simp: gseq_def gbind_def split: option.splits)
  then have "code_at P i c1" using h(4) by simp
  then show "ends P F E g i (i + length c) m out mm'"
    using ends_early [OF exec_rightD [OF assms(1) ok h(2) c1(1) _ h(5-7)] assms(2)] by blast
qed

lemma truth_test:
  assumes "truth E q mm = Some (b, mm')" "q = Some n"
  obtains v where "cev E n mm = Some (v, mm')" "b \<longleftrightarrow> v \<noteq> 0"
  using assms by (auto simp: truth_def)

lemma if_code_at:
  assumes "code_at P i (if_code l els cq ct ce)"
  shows "code_at P i cq" "code_at P (i + length cq) ct"
    "els \<Longrightarrow> code_at P (i + length cq + length ct) [Jmp (L_end l)]"
    "els \<Longrightarrow> code_at P (i + length cq + length ct + 1) [Label (L_else l)]"
    "els \<Longrightarrow> code_at P (i + length cq + length ct + 2) ce"
    "els \<Longrightarrow> code_at P (i + length cq + length ct + 2 + length ce) [Label (L_end l)]"
    "els \<Longrightarrow> i + length (if_code l els cq ct ce) = i + length cq + length ct + 2 + length ce + 1"
    "\<not> els \<Longrightarrow> code_at P (i + length cq + length ct) [Label (L_end l)]"
    "\<not> els \<Longrightarrow> i + length (if_code l els cq ct ce) = i + length cq + length ct + 1"
  using assms by (cases els; simp add: if_code_def code_at_Cons code_at_Nil numeral_eq_Suc add.assoc)+

lemma if_runs:
  assumes n: "ndkind n = ND_IF" and t: "truth E (ncond n) mm = Some (b, mm1)"
    and R: "exec_right E (if b then nthen n else nels n) mm1 out mm'"
    and none: "(if b then nthen n else nels n) = None \<Longrightarrow> out = Normal \<and> mm' = mm1"
  shows "exec_right E (Some n) mm out mm'"
  unfolding exec_right_def
proof (intro allI impI)
  fix F d g c g' P i m
  assume h: "stmt_ok_opt F d (Some n)" "idle d g" "gen_stmt (gen_opt F (Some n)) g = Some ((), c, g')" "code_at P i c"
    "distinct (labels P)" "jump_targets P F g" "Rel E (spill_logand g) m mm"
  have ok: "test_ok (ncond n)" "if_ok n" "stmt_ok_opt F d (nthen n)" "stmt_ok_opt F d (nels n)"
    using h(1) n by (simp_all add: stmt_ok.simps [of F d n])
  then obtain q where q: "ncond n = Some q" by (auto simp: test_ok_def split: option.splits)
  obtain v where v: "cev E q mm = Some (v, mm1)" "b \<longleftrightarrow> v \<noteq> 0" by (rule truth_test [OF t q])
  show "ends P F E g i (i + length c) m out mm'"
  proof (cases "ndkind q = ND_NUM")
    case True
    then have lit: "conv (tyof q) (ndval q) = ndval q" "\<not> has_label n" using ok(2) q by (simp_all add: if_ok_def)
    then have "v = ndval q" "mm1 = mm" using v(1) True by (simp_all add: cev.simps [of E q] cret_def)
    then have "gen_stmt (gen_opt F (if b then nthen n else nels n)) g = Some ((), c, g')"
      using h(3) if_constant [OF n q True lit(2), of F] v(2) by simp
    moreover have "stmt_ok_opt F d (if b then nthen n else nels n)" using ok by simp
    ultimately show ?thesis using exec_rightD [OF R _ h(2) _ h(4-6)] h(7) \<open>mm1 = mm\<close> by blast
  next
    case False
    let ?l = "label_count g + 1" and ?els = "nels n \<noteq> None"
    obtain cq ct ce g1 g2 g3 where s: "gen_stmt (gen F n) g = Some ((), if_code ?l ?els cq ct ce, g3)"
      "jumps_on_zero (spill_logand g) {} cq (if_label ?l ?els) (\<lambda>E. cev E q)"
      "gext {} g g1" "gen_stmt (gen_opt F (nthen n)) g1 = Some ((), ct, g2)"
      "gext {} g g2" "gen_stmt (gen_opt F (nels n)) g2 = Some ((), ce, g3)"
      by (rule if_shape [OF n ok(1) q False h(2) stmts_generated [OF ok(3)] stmts_generated [OF ok(4)]])
    have c: "c = if_code ?l ?els cq ct ce" using h(3) s(1) by simp
    note at = if_code_at [OF h(4) [unfolded c]]
    let ?j = "i + length cq + length ct"
    have lab: "code_at P (if ?els then ?j + 1 else ?j) (Label (if_label ?l ?els) # [])"
      using at(4,8) by (auto simp: if_label_def)
    obtain m1 where m1: "steps P (i, m) (if v = 0 then (if ?els then ?j + 1 else ?j) else i + length cq, m1)"
      "Rel E (spill_logand g) m1 mm1" "keeps E (spill_logand g) {} m m1"
      by (rule jumps_on_zeroE [OF s(2) at(1) h(5) lab h(7) v(1)])
    have skip_end: "steps P (?j, x) (i + length c, x)" for x
    proof (cases ?els)
      case True
      have "i + length c = Suc (?j + 2 + length ce)" using at(7) [OF True] c by simp
      then show ?thesis using jump_skip [OF at(3) [OF True] h(5) at(6) [OF True]] by (simp only:)
    next
      case els: False
      have "i + length c = Suc ?j" using at(9) [OF els] c by simp
      then show ?thesis using label_skip [OF at(8) [OF els]] by (simp only:)
    qed
    show ?thesis
    proof (cases "v = 0")
      case False
      then have "ends P F E g1 (i + length cq) ?j m1 out mm'"
        using exec_rightD [OF R, of F d g1 ct g2 P "i + length cq" m1] v(2) ok(3) idle_gext [OF h(2) s(3)] s(4) at(2) h(5)
          targets_gext [OF h(6) s(3)] m1(2) gext_slot [OF s(3)] by simp
      then have "ends P F E g (i + length cq) (i + length c) m1 out mm'" using s(3) skip_end by (rule ends_seq)
      then show ?thesis using m1(1,3) False by (simp add: ends_after)
    next
      case v0: True
      show ?thesis
      proof (cases ?els)
        case True
        have "ends P F E g2 (?j + 2) (?j + 2 + length ce) m1 out mm'"
          using exec_rightD [OF R, of F d g2 ce g3 P "?j + 2" m1] v(2) v0 ok(4) idle_gext [OF h(2) s(5)] s(6) at(5) [OF True] h(5)
            targets_gext [OF h(6) s(5)] m1(2) gext_slot [OF s(5)] by simp
        moreover have "steps P (?j + 2 + length ce, x) (i + length c, x)" for x
        proof -
          have "i + length c = Suc (?j + 2 + length ce)" using at(7) [OF True] c by simp
          then show ?thesis using label_skip [OF at(6) [OF True]] by (simp only:)
        qed
        ultimately have "ends P F E g (?j + 2) (i + length c) m1 out mm'" by (rule ends_seq [OF _ s(5)])
        moreover have "steps P (i, m) (?j + 2, m1)"
          using steps_trans [OF _ label_skip [OF at(4) [OF True]]] m1(1) v0 True by (simp del: not_None_eq)
        ultimately show ?thesis using m1(3) by (rule ends_after)
      next
        case False
        then have "out = Normal" "mm' = mm1" using none v(2) v0 by auto
        moreover have "steps P (i, m) (i + length c, m1)" using steps_trans [OF _ skip_end] m1(1) v0 False by auto
        ultimately show ?thesis using ends_normalI m1(2,3) by blast
      qed
    qed
  qed
qed

subsection \<open>Loops\<close>

lemma cond_runs:
  assumes "tests_cond sl c lab q" "truth E q mm = Some (b, mm1)" "code_at P i c" "distinct (labels P)" "code_at P j (Label lab # d)"
    "Rel E sl m mm"
  obtains m' where "steps P (i, m) (if b then i + length c else j, m')" "Rel E sl m' mm1" "keeps E sl {} m m'"
proof (cases q)
  case None
  then have "b" "mm1 = mm" "c = []" using assms(1,2) by (simp_all add: truth_def tests_cond_def)
  then show thesis using that [of m] assms(6) steps_refl keeps_refl by simp
next
  case (Some n)
  obtain v where v: "cev E n mm = Some (v, mm1)" "b \<longleftrightarrow> v \<noteq> 0" by (rule truth_test [OF assms(2) Some])
  have z: "jumps_on_zero sl {} c lab (\<lambda>E. cev E n)" using assms(1) Some by (simp add: tests_cond_def)
  obtain m' where m': "steps P (i, m) (if v = 0 then j else i + length c, m')" "Rel E sl m' mm1" "keeps E sl {} m m'"
    by (rule jumps_on_zeroE [OF z assms(3-6) v(1)])
  show thesis using that [OF _ m'(2,3)] m'(1) v(2) by (cases "v = 0") auto
qed

lemma loop_code_at:
  assumes "code_at P i (loop_code l cq ct ci)"
  obtains kt kc kj ke where "code_at P i [Label (L_begin l)]" "code_at P (Suc i) cq" "kt = Suc i + length cq" "code_at P kt ct"
    "kc = kt + length ct" "code_at P kc [Label (L_continue l)]" "code_at P (Suc kc) ci" "kj = Suc kc + length ci"
    "code_at P kj [Jmp (L_begin l)]" "ke = Suc kj" "code_at P ke [Label (L_end l)]" "i + length (loop_code l cq ct ci) = Suc ke"
  using assms that [of "Suc i + length cq" "Suc i + length cq + length ct" "Suc (Suc i + length cq + length ct) + length ci"
    "Suc (Suc (Suc i + length cq + length ct) + length ci)"]
  by (simp add: loop_code_def code_at_Cons code_at_Nil add.assoc)

lemma do_code_at:
  assumes "code_at P i (do_code l ct cq)"
  obtains kc ke where "code_at P i [Label (L_begin l)]" "code_at P (Suc i) ct" "kc = Suc i + length ct"
    "code_at P kc [Label (L_continue l)]" "code_at P (Suc kc) cq" "ke = Suc kc + length cq"
    "code_at P ke [Label (L_end l)]" "i + length (do_code l ct cq) = Suc ke"
  using assms that [of "Suc i + length ct" "Suc (Suc i + length ct) + length cq"]
  by (simp add: do_code_def code_at_Cons code_at_Nil add.assoc)

lemma enter_targets:
  assumes "jump_targets P F g" "code_at P kc [Label (L_continue l)]" "code_at P ke [Label (L_end l)]"
  shows "jump_targets P F (enter l g)"
  using assms by (auto simp: jump_targets_def)

text \<open>The body of a loop, by the way it is left.\<close>

lemma body_runs:
  assumes R: "exec_right E x mm out mm'" and ok: "stmt_ok_opt F (Suc d) x" and g: "idle d g" "gext {} (enter l g) g1"
    and c: "gen_stmt (gen_opt F x) g1 = Some ((), c, g2)" "code_at P k c" "distinct (labels P)"
    and L: "jump_targets P F g" "code_at P kc [Label (L_continue l)]" "code_at P ke [Label (L_end l)]" "kc = k + length c"
    and m: "Rel E (spill_logand g) m mm"
  shows "out = Normal \<or> out = Continues \<Longrightarrow>
      \<exists>m'. steps P (k, m) (kc, m') \<and> Rel E (spill_logand g) m' mm' \<and> keeps E (spill_logand g) {} m m'"
    and "out = Breaks \<Longrightarrow>
      \<exists>m'. steps P (k, m) (ke, m') \<and> Rel E (spill_logand g) m' mm' \<and> keeps E (spill_logand g) {} m m'"
    and "out = Returns v \<Longrightarrow> ends P F E g k e m out mm'"
proof -
  have sl: "spill_logand g1 = spill_logand g" "break_stack g1 = l # break_stack g" "continue_stack g1 = l # continue_stack g"
    using g(2) by (simp_all add: gext_def)
  have "ends P F E g1 k (k + length c) m out mm'"
    using exec_rightD [OF R ok idle_gext [OF enter_idle [OF g(1)] g(2)] c targets_gext [OF enter_targets [OF L(1-3)] g(2)]] m sl(1)
    by simp
  then obtain j m' where j: "steps P (k, m) (j, m')" "arrives P F g1 kc out j" "Rel E (spill_logand g) m' mm'"
    "keeps E (spill_logand g) {} m m'" "\<forall>v. out = Returns v \<longrightarrow> return_value F v m'"
    unfolding ends_def L(4) sl(1) by blast
  have lab: "code_at P j [Label (L_end l)] \<Longrightarrow> j = ke" "code_at P j [Label (L_continue l)] \<Longrightarrow> j = kc"
    using label_unique [OF _ _ c(3)] L(2,3) by blast+
  show "out = Normal \<or> out = Continues \<Longrightarrow>
      \<exists>m'. steps P (k, m) (kc, m') \<and> Rel E (spill_logand g) m' mm' \<and> keeps E (spill_logand g) {} m m'"
    using j sl(3) lab(2) by (auto simp: arrives_def)
  show "out = Breaks \<Longrightarrow> \<exists>m'. steps P (k, m) (ke, m') \<and> Rel E (spill_logand g) m' mm' \<and> keeps E (spill_logand g) {} m m'"
    using j sl(2) lab(1) by (auto simp: arrives_def)
  show "out = Returns v \<Longrightarrow> ends P F E g k e m out mm'"
    using j unfolding ends_def arrives_def by auto
qed

lemma loops_rightI:
  assumes "\<And>F d g l cq ct ci g' P i m. ndkind n = ND_FOR \<Longrightarrow> stmt_ok F d n \<Longrightarrow> for_shape F n d g l cq ct ci g' \<Longrightarrow>
        code_at P i (loop_code l cq ct ci) \<Longrightarrow> distinct (labels P) \<Longrightarrow> jump_targets P F g \<Longrightarrow> Rel E (spill_logand g) m mm \<Longrightarrow>
        ends P F E g i (i + length (loop_code l cq ct ci)) m out mm'"
  shows "loops_right E n mm out mm'"
  using assms unfolding loops_right_def by blast

lemma loops_done_runs:
  assumes "truth E (ncond n) mm = Some (False, mm')"
  shows "loops_right E n mm Normal mm'"
proof (rule loops_rightI)
  fix F d g l cq ct ci g' P i m
  assume h: "ndkind n = ND_FOR" "stmt_ok F d n" "for_shape F n d g l cq ct ci g'" "code_at P i (loop_code l cq ct ci)"
    "distinct (labels P)" "jump_targets P F g" "Rel E (spill_logand g) m mm"
  have tc: "tests_cond (spill_logand g) cq (L_end l) (ncond n)" using h(3) by (auto simp: for_shape_def)
  show "ends P F E g i (i + length (loop_code l cq ct ci)) m Normal mm'"
  proof (rule loop_code_at [OF h(4)])
    fix kt kc kj ke
    assume at: "code_at P i [Label (L_begin l)]" "code_at P (Suc i) cq" "code_at P ke [Label (L_end l)]"
      "i + length (loop_code l cq ct ci) = Suc ke"
    obtain m1 where m1: "steps P (Suc i, m) (if False then Suc i + length cq else ke, m1)" "Rel E (spill_logand g) m1 mm'"
      "keeps E (spill_logand g) {} m m1" by (rule cond_runs [OF tc assms at(2) h(5) at(3) h(7)])
    have "steps P (i, m) (Suc ke, m1)"
      using steps_trans [OF label_skip [OF at(1)] steps_trans [OF m1(1) [unfolded if_False] label_skip [OF at(3)]]] .
    then show ?thesis using m1(2,3) unfolding at(4) by (rule ends_normalI)
  qed
qed

text \<open>When the condition holds the body is run.\<close>

lemma loop_starts:
  assumes t: "truth E (ncond n) mm = Some (True, mm1)"
    and h: "for_shape F n d g l cq ct ci g'" "code_at P i [Label (L_begin l)]" "code_at P (Suc i) cq" "code_at P ke [Label (L_end l)]"
      "kt = Suc i + length cq" "distinct (labels P)" "Rel E (spill_logand g) m mm"
  obtains m1 where "steps P (i, m) (kt, m1)" "Rel E (spill_logand g) m1 mm1" "keeps E (spill_logand g) {} m m1"
proof -
  have tc: "tests_cond (spill_logand g) cq (L_end l) (ncond n)" using h(1) by (auto simp: for_shape_def)
  obtain m1 where m1: "steps P (Suc i, m) (if True then Suc i + length cq else ke, m1)" "Rel E (spill_logand g) m1 mm1"
    "keeps E (spill_logand g) {} m m1" by (rule cond_runs [OF tc t h(3,6,4,7)])
  show thesis using that [OF steps_trans [OF label_skip [OF h(2)]]] m1 h(5) by simp
qed

lemma loops_again_runs:
  assumes t: "truth E (ncond n) mm = Some (True, mm1)" and B: "exec_right E (nthen n) mm1 out1 mm2" "out1 = Normal \<or> out1 = Continues"
    and I: "exec_right E (ninc n) mm2 Normal mm3" and L: "loops_right E n mm3 out mm'"
  shows "loops_right E n mm out mm'"
proof (rule loops_rightI)
  fix F d g l cq ct ci g' P i m
  assume h: "ndkind n = ND_FOR" "stmt_ok F d n" "for_shape F n d g l cq ct ci g'" "code_at P i (loop_code l cq ct ci)"
    "distinct (labels P)" "jump_targets P F g" "Rel E (spill_logand g) m mm"
  have ok: "stmt_ok_opt F (Suc d) (nthen n)" "stmt_ok_opt F (Suc d) (ninc n)" using h(1,2) by (simp_all add: stmt_ok.simps [of F d n])
  obtain g1 g2 where s: "idle d g" "gext {} (enter l g) g1" "gen_stmt (gen_opt F (nthen n)) g1 = Some ((), ct, g2)"
    "gext {} (enter l g) g2" "gen_stmt (gen_opt F (ninc n)) g2 = Some ((), ci, g')"
    using h(3) unfolding for_shape_def by blast
  let ?sl = "spill_logand g"
  show "ends P F E g i (i + length (loop_code l cq ct ci)) m out mm'"
  proof (rule loop_code_at [OF h(4)])
    fix kt kc kj ke
    assume at: "code_at P i [Label (L_begin l)]" "code_at P (Suc i) cq" "kt = Suc i + length cq" "code_at P kt ct"
      "kc = kt + length ct" "code_at P kc [Label (L_continue l)]" "code_at P (Suc kc) ci" "kj = Suc kc + length ci"
      "code_at P kj [Jmp (L_begin l)]" "ke = Suc kj" "code_at P ke [Label (L_end l)]"
    obtain m1 where m1: "steps P (i, m) (kt, m1)" "Rel E ?sl m1 mm1" "keeps E ?sl {} m m1"
      by (rule loop_starts [OF t h(3) at(1,2,11,3) h(5,7)])
    obtain m2 where m2: "steps P (kt, m1) (kc, m2)" "Rel E ?sl m2 mm2" "keeps E ?sl {} m1 m2"
      using body_runs(1) [OF B(1) ok(1) s(1-3) at(4) h(5,6) at(6,11,5) m1(2) B(2)] by blast
    have e2: "spill_logand g2 = ?sl" using gext_slot [OF s(4)] by simp
    have "ends P F E g2 (Suc kc) (Suc kc + length ci) m2 Normal mm3"
      using exec_rightD [OF I ok(2) idle_gext [OF enter_idle [OF s(1)] s(4)] s(5) at(7) h(5)
          targets_gext [OF enter_targets [OF h(6) at(6,11)] s(4)]] m2(2) e2 by simp
    then obtain m3 where m3: "steps P (Suc kc, m2) (kj, m3)" "Rel E ?sl m3 mm3" "keeps E ?sl {} m2 m3"
      using ends_normalE at(8) e2 by metis
    have "ends P F E g i (i + length (loop_code l cq ct ci)) m3 out mm'"
      using L h(1-6) m3(2) unfolding loops_right_def by blast
    moreover have "steps P (i, m) (i, m3)"
      using steps_trans [OF m1(1) steps_trans [OF m2(1) steps_trans [OF label_skip [OF at(6)] steps_trans [OF m3(1)
            steps_step [OF step_jmp [OF at(9) h(5) at(1)] steps_refl]]]]] .
    ultimately show ?thesis using keeps_trans0 [OF m1(3) keeps_trans0 [OF m2(3) m3(3)]] by (rule ends_after)
  qed
qed

lemma loops_left_runs:
  assumes t: "truth E (ncond n) mm = Some (True, mm1)" and B: "exec_right E (nthen n) mm1 out1 mm'"
    and out: "out1 = Breaks \<and> out = Normal \<or> out1 = Returns v \<and> out = Returns v"
  shows "loops_right E n mm out mm'"
proof (rule loops_rightI)
  fix F d g l cq ct ci g' P i m
  assume h: "ndkind n = ND_FOR" "stmt_ok F d n" "for_shape F n d g l cq ct ci g'" "code_at P i (loop_code l cq ct ci)"
    "distinct (labels P)" "jump_targets P F g" "Rel E (spill_logand g) m mm"
  have ok: "stmt_ok_opt F (Suc d) (nthen n)" using h(1,2) by (simp add: stmt_ok.simps [of F d n])
  obtain g1 g2 where s: "idle d g" "gext {} (enter l g) g1" "gen_stmt (gen_opt F (nthen n)) g1 = Some ((), ct, g2)"
    using h(3) unfolding for_shape_def by blast
  let ?sl = "spill_logand g" and ?e = "i + length (loop_code l cq ct ci)"
  show "ends P F E g i ?e m out mm'"
  proof (rule loop_code_at [OF h(4)])
    fix kt kc kj ke
    assume at: "code_at P i [Label (L_begin l)]" "code_at P (Suc i) cq" "kt = Suc i + length cq" "code_at P kt ct"
      "kc = kt + length ct" "code_at P kc [Label (L_continue l)]" "code_at P ke [Label (L_end l)]" "?e = Suc ke"
    obtain m1 where m1: "steps P (i, m) (kt, m1)" "Rel E ?sl m1 mm1" "keeps E ?sl {} m m1"
      by (rule loop_starts [OF t h(3) at(1,2,7,3) h(5,7)])
    note b = body_runs [OF B(1) ok(1) s(1-3) at(4) h(5,6) at(6,7,5) m1(2)]
    have "ends P F E g kt ?e m1 out mm'"
    proof (cases "out1 = Breaks")
      case True
      then obtain m2 where m2: "steps P (kt, m1) (ke, m2)" "Rel E ?sl m2 mm'" "keeps E ?sl {} m1 m2" using b(2) by blast
      have "steps P (kt, m1) (?e, m2)" using steps_trans [OF m2(1) label_skip [OF at(7)]] at(8) by simp
      then show ?thesis using ends_normalI m2(2,3) out True by blast
    next
      case False
      then show ?thesis using b(3) [of v ?e] out by auto
    qed
    then show ?thesis using m1(1,3) by (rule ends_after)
  qed
qed

lemma loops_rightD:
  "loops_right E n mm out mm' \<Longrightarrow> ndkind n = ND_FOR \<Longrightarrow> stmt_ok F d n \<Longrightarrow> for_shape F n d g l cq ct ci g' \<Longrightarrow>
   code_at P i (loop_code l cq ct ci) \<Longrightarrow> distinct (labels P) \<Longrightarrow> jump_targets P F g \<Longrightarrow> Rel E (spill_logand g) m mm \<Longrightarrow>
   ends P F E g i (i + length (loop_code l cq ct ci)) m out mm'"
  unfolding loops_right_def by blast

lemma jump_targets_label [simp]: "jump_targets P F (g\<lparr>label_count := k\<rparr>) = jump_targets P F g"
  by (simp add: jump_targets_def)

lemma ends_label: "ends P F E (g\<lparr>label_count := k\<rparr>) i e m out mm = ends P F E g i e m out mm"
  by (cases out) (simp_all add: ends_def arrives_def)

lemma for_runs:
  assumes n: "ndkind n = ND_FOR" and I: "exec_right E (ninit n) mm Normal mm1" and L: "loops_right E n mm1 out mm'"
  shows "exec_right E (Some n) mm out mm'"
  unfolding exec_right_def
proof (intro allI impI)
  fix F d g c g' P i m
  assume h: "stmt_ok_opt F d (Some n)" "idle d g" "gen_stmt (gen_opt F (Some n)) g = Some ((), c, g')" "code_at P i c"
    "distinct (labels P)" "jump_targets P F g" "Rel E (spill_logand g) m mm"
  have ok: "stmt_ok F d n" "d < 128" "ncond n = None \<or> test_ok (ncond n)" "stmt_ok_opt F d (ninit n)"
    "stmt_ok_opt F (Suc d) (nthen n)" "stmt_ok_opt F (Suc d) (ninc n)"
    using h(1) n by (simp_all add: stmt_ok.simps [of F d n])
  let ?l = "label_count g + 1"
  obtain c0 cq ct ci g0 g1 where s: "gen_stmt (gen F n) g = Some ((), c0 @ loop_code ?l cq ct ci, leave g1)"
    "gen_stmt (gen_opt F (ninit n)) (g\<lparr>label_count := ?l\<rparr>) = Some ((), c0, g0)" "gext {} g g0" "for_shape F n d g0 ?l cq ct ci g1"
    by (rule for_generated [OF n ok(2,3) h(2) stmts_generated [OF ok(4)] stmts_generated [OF ok(5)] stmts_generated [OF ok(6)]])
  have c: "c = c0 @ loop_code ?l cq ct ci" using h(3) s(1) by simp
  have at: "code_at P i c0" "code_at P (i + length c0) (loop_code ?l cq ct ci)" using h(4) c by simp_all
  have "ends P F E (g\<lparr>label_count := ?l\<rparr>) i (i + length c0) m Normal mm1"
    using exec_rightD [OF I ok(4) _ s(2) at(1) h(5)] h(2,6,7) by simp
  then obtain m1 where m1: "steps P (i, m) (i + length c0, m1)" "Rel E (spill_logand g) m1 mm1" "keeps E (spill_logand g) {} m m1"
    unfolding ends_label by (rule ends_normalE)
  have "Rel E (spill_logand g0) m1 mm1" using m1(2) gext_slot [OF s(3)] by simp
  then have "ends P F E g0 (i + length c0) (i + length c) m1 out mm'"
    using loops_rightD [OF L n ok(1) s(4) at(2) h(5) targets_gext [OF h(6) s(3)]] c by (simp add: add.assoc)
  then have "ends P F E g (i + length c0) (i + length c) m1 out mm'" using s(3) by (rule ends_gext)
  then show "ends P F E g i (i + length c) m out mm'" using m1(1,3) by (rule ends_after)
qed

lemma dos_rightI:
  assumes "\<And>F d g l ct cq P i m. ndkind n = ND_DO \<Longrightarrow> stmt_ok F d n \<Longrightarrow> do_shape F n d g l ct cq \<Longrightarrow> code_at P i (do_code l ct cq) \<Longrightarrow>
      distinct (labels P) \<Longrightarrow> jump_targets P F g \<Longrightarrow> Rel E (spill_logand g) m mm \<Longrightarrow>
      ends P F E g i (i + length (do_code l ct cq)) m out mm'"
  shows "dos_right E n mm out mm'"
  using assms unfolding dos_right_def by blast

lemma dos_left_runs:
  assumes B: "exec_right E (nthen n) mm out1 mm'" and out: "out1 = Breaks \<and> out = Normal \<or> out1 = Returns v \<and> out = Returns v"
  shows "dos_right E n mm out mm'"
proof (rule dos_rightI)
  fix F d g l ct cq P i m
  assume h: "ndkind n = ND_DO" "stmt_ok F d n" "do_shape F n d g l ct cq" "code_at P i (do_code l ct cq)"
    "distinct (labels P)" "jump_targets P F g" "Rel E (spill_logand g) m mm"
  have ok: "stmt_ok_opt F (Suc d) (nthen n)" using h(1,2) by (simp add: stmt_ok.simps [of F d n])
  let ?sl = "spill_logand g" and ?e = "i + length (do_code l ct cq)"
  obtain g1 q where s: "idle d g" "gen_stmt (gen_opt F (nthen n)) (enter l g) = Some ((), ct, g1)" "gext {} (enter l g) g1"
    using h(3) unfolding do_shape_def by blast
  show "ends P F E g i ?e m out mm'"
  proof (rule do_code_at [OF h(4)])
    fix kc ke
    assume at: "code_at P i [Label (L_begin l)]" "code_at P (Suc i) ct" "kc = Suc i + length ct" "code_at P kc [Label (L_continue l)]"
      "code_at P ke [Label (L_end l)]" "?e = Suc ke"
    note b = body_runs [OF B ok s(1) gext_refl [OF enter_idle [OF s(1)]] s(2) at(2) h(5,6) at(4,5,3) h(7)]
    have "ends P F E g (Suc i) ?e m out mm'"
    proof (cases "out1 = Breaks")
      case True
      then obtain m2 where m2: "steps P (Suc i, m) (ke, m2)" "Rel E ?sl m2 mm'" "keeps E ?sl {} m m2" using b(2) by blast
      have "steps P (Suc i, m) (?e, m2)" using steps_trans [OF m2(1) label_skip [OF at(5)]] at(6) by simp
      then show ?thesis using ends_normalI m2(2,3) out True by blast
    next
      case False
      then show ?thesis using b(3) [of v ?e] out by auto
    qed
    then show ?thesis using label_skip [OF at(1)] keeps_refl by (rule ends_after)
  qed
qed

lemma dos_test_runs:
  assumes B: "exec_right E (nthen n) mm out1 mm1" "out1 = Normal \<or> out1 = Continues"
    and t: "truth E (ncond n) mm1 = Some (b, mm2)" and D: "b \<Longrightarrow> dos_right E n mm2 out mm'" "\<not> b \<Longrightarrow> out = Normal \<and> mm' = mm2"
  shows "dos_right E n mm out mm'"
proof (rule dos_rightI)
  fix F d g l ct cq P i m
  assume h: "ndkind n = ND_DO" "stmt_ok F d n" "do_shape F n d g l ct cq" "code_at P i (do_code l ct cq)"
    "distinct (labels P)" "jump_targets P F g" "Rel E (spill_logand g) m mm"
  have ok: "stmt_ok_opt F (Suc d) (nthen n)" using h(1,2) by (simp add: stmt_ok.simps [of F d n])
  let ?sl = "spill_logand g" and ?e = "i + length (do_code l ct cq)"
  obtain g1 q where s: "idle d g" "gen_stmt (gen_opt F (nthen n)) (enter l g) = Some ((), ct, g1)" "gext {} (enter l g) g1"
    "ncond n = Some q" "jumps_on_nonzero ?sl cq (L_begin l) (\<lambda>E. cev E q)"
    using h(3) unfolding do_shape_def by blast
  obtain v where v: "cev E q mm1 = Some (v, mm2)" "b \<longleftrightarrow> v \<noteq> 0" by (rule truth_test [OF t s(4)])
  show "ends P F E g i ?e m out mm'"
  proof (rule do_code_at [OF h(4)])
    fix kc ke
    assume at: "code_at P i [Label (L_begin l)]" "code_at P (Suc i) ct" "kc = Suc i + length ct" "code_at P kc [Label (L_continue l)]"
      "code_at P (Suc kc) cq" "ke = Suc kc + length cq" "code_at P ke [Label (L_end l)]" "?e = Suc ke"
    obtain m1 where m1: "steps P (Suc i, m) (kc, m1)" "Rel E ?sl m1 mm1" "keeps E ?sl {} m m1"
      using body_runs(1) [OF B(1) ok s(1) gext_refl [OF enter_idle [OF s(1)]] s(2) at(2) h(5,6) at(4,7,3) h(7) B(2)] by blast
    have kc: "steps P (i, m) (Suc kc, m1)"
      using steps_trans [OF label_skip [OF at(1)] steps_trans [OF m1(1) label_skip [OF at(4)]]] .
    obtain m2 where m2: "steps P (Suc kc, m1) (if v \<noteq> 0 then i else Suc kc + length cq, m2)" "Rel E ?sl m2 mm2" "keeps E ?sl {} m1 m2"
      using s(5) at(5,1) h(5) m1(2) v(1) unfolding jumps_on_nonzero_def by meson
    have "ends P F E g (Suc kc) ?e m1 out mm'"
    proof (cases b)
      case True
      then have "ends P F E g i ?e m2 out mm'" using D(1) h(1-6) m2(2) unfolding dos_right_def by blast
      moreover have "steps P (Suc kc, m1) (i, m2)" using m2(1) True v(2) by simp
      ultimately show ?thesis using m2(3) by (rule ends_after)
    next
      case False
      then have o: "out = Normal" "mm' = mm2" "v = 0" using D(2) v(2) by simp_all
      have "steps P (Suc kc, m1) (ke, m2)" using m2(1) o(3) at(6) by simp
      then have "steps P (Suc kc, m1) (?e, m2)" using steps_trans [OF _ label_skip [OF at(7)]] at(8) by simp
      then show ?thesis using ends_normalI m2(2,3) o(1,2) by blast
    qed
    then show ?thesis using kc keeps_trans0 [OF m1(3) keeps_refl] by (rule ends_after)
  qed
qed

lemma do_runs:
  assumes n: "ndkind n = ND_DO" and D: "dos_right E n mm out mm'"
  shows "exec_right E (Some n) mm out mm'"
  unfolding exec_right_def
proof (intro allI impI)
  fix F d g c g' P i m
  assume h: "stmt_ok_opt F d (Some n)" "idle d g" "gen_stmt (gen_opt F (Some n)) g = Some ((), c, g')" "code_at P i c"
    "distinct (labels P)" "jump_targets P F g" "Rel E (spill_logand g) m mm"
  have ok: "stmt_ok F d n" "d < 128" "test_ok (ncond n)" "stmt_ok_opt F (Suc d) (nthen n)"
    using h(1) n by (simp_all add: stmt_ok.simps [of F d n])
  let ?l = "label_count g + 1"
  obtain ct cq g1 where s: "gen_stmt (gen F n) g = Some ((), do_code ?l ct cq, g1)" "do_shape F n d (g\<lparr>label_count := ?l\<rparr>) ?l ct cq"
    by (rule do_generated [OF n ok(2,3) h(2) stmts_generated [OF ok(4)]])
  have c: "c = do_code ?l ct cq" using h(3) s(1) by simp
  have "ends P F E (g\<lparr>label_count := ?l\<rparr>) i (i + length c) m out mm'"
    using D n ok(1) s(2) h(4-7) c unfolding dos_right_def by simp
  then show "ends P F E g i (i + length c) m out mm'" by (simp only: ends_label)
qed

subsection \<open>All statements\<close>

lemma none_runs: "exec_right E None mm Normal mm"
  unfolding exec_right_def
proof (intro allI impI)
  fix F d g c g' P i m
  assume h: "gen_stmt (gen_opt F None) g = Some ((), c, g')" "Rel E (spill_logand g) m mm"
  have "c = []" using h(1) by (simp add: gen_stmt_none)
  then show "ends P F E g i (i + length c) m Normal mm"
    using ends_normalI [OF _ h(2) keeps_refl] steps_refl by simp
qed

lemma same_code_runs:
  assumes "exec_right E x mm out mm'" "\<And>F d. stmt_ok_opt F d y \<Longrightarrow> stmt_ok_opt F d x"
    "\<And>F g. gen_stmt (gen_opt F y) g = gen_stmt (gen_opt F x) g"
  shows "exec_right E y mm out mm'"
  using assms unfolding exec_right_def by metis

lemma block_runs:
  assumes "ndkind n = ND_BLOCK" "execs_right E (nbody n) mm out mm'"
  shows "exec_right E (Some n) mm out mm'"
  unfolding exec_right_def
proof (intro allI impI)
  fix F d g c g' P i m
  assume h: "stmt_ok_opt F d (Some n)" "idle d g" "gen_stmt (gen_opt F (Some n)) g = Some ((), c, g')" "code_at P i c"
    "distinct (labels P)" "jump_targets P F g" "Rel E (spill_logand g) m mm"
  have "stmts_ok F d (nbody n)" "gen_list F (nbody n) g = Some ((), c, g')"
    using h(1,3) assms(1) block_code [OF assms(1)] by (simp_all add: stmt_ok.simps [of F d n])
  then show "ends P F E g i (i + length c) m out mm'"
    using assms(2) h(2,4-7) unfolding execs_right_def by blast
qed

lemma execs_nil_runs: "execs_right E [] mm Normal mm"
  unfolding execs_right_def using ends_normalI [OF _ _ keeps_refl] steps_refl by (auto simp: gret_def)

lemma null_runs: "ndkind n = ND_NULL \<Longrightarrow> exec_right E (Some n) mm Normal mm"
  by (rule same_code_runs [OF none_runs]) (simp_all add: null_code gen_stmt_none)

lemma exec_none_left: "exec E None mm out mm' \<Longrightarrow> out = Normal \<and> mm' = mm"
  by (auto elim: exec.cases)

lemma statements_run:
  "exec E x mm out mm' \<Longrightarrow> exec_right E x mm out mm'"
  "execs E ns mm out mm' \<Longrightarrow> execs_right E ns mm out mm'"
  "loops E n mm out mm' \<Longrightarrow> loops_right E n mm out mm'"
  "dos E n mm out mm' \<Longrightarrow> dos_right E n mm out mm'"
proof (induction rule: exec_execs_loops_dos.inducts)
  case (exec_none m) show ?case by (rule none_runs)
next
  case exec_value then show ?case by (rule value_runs)
next
  case exec_null then show ?case by (rule null_runs)
next
  case (exec_expr n m out m')
  show ?case
    by (rule same_code_runs [OF exec_expr.IH(2)]) (simp_all add: expr_stmt_code exec_expr.hyps(1) stmt_ok.simps [of _ _ n])
next
  case exec_block then show ?case by (blast intro: block_runs)
next
  case (exec_if n m b m1 out m')
  show ?case by (rule if_runs [OF exec_if.hyps(1) exec_if.IH(1) exec_if.IH(3)]) (use exec_if.IH(2) exec_none_left in auto)
next
  case exec_for then show ?case by (blast intro: for_runs)
next
  case exec_do then show ?case by (blast intro: do_runs)
next
  case exec_break then show ?case by (intro left_runs) simp
next
  case exec_continue then show ?case by (intro left_runs) simp
next
  case exec_return_void then show ?case by (intro return_runs) simp_all
next
  case exec_return then show ?case by (intro return_runs) simp_all
next
  case (execs_nil m) show ?case by (rule execs_nil_runs)
next
  case execs_cons then show ?case by (blast intro: execs_cons_runs)
next
  case execs_left then show ?case by (blast intro: execs_left_runs)
next
  case loops_done then show ?case by (blast intro: loops_done_runs)
next
  case loops_again then show ?case by (blast intro: loops_again_runs)
next
  case (loops_break n m m1 m') then show ?case by (intro loops_left_runs [where ?out1.0 = Breaks]) auto
next
  case (loops_return n m m1 v m') then show ?case by (intro loops_left_runs [where ?out1.0 = "Returns v"]) auto
next
  case dos_again then show ?case by (blast intro: dos_test_runs)
next
  case dos_done then show ?case by (blast intro: dos_test_runs)
next
  case (dos_break n m m') then show ?case by (intro dos_left_runs [where ?out1.0 = Breaks]) auto
next
  case (dos_return n m v m') then show ?case by (intro dos_left_runs [where ?out1.0 = "Returns v"]) auto
qed

end
