(* ===== verification/GenRegs.thy ===== *)
theory GenRegs
  imports Gen
begin

text \<open>
  Every register the generated code writes is recorded in \<open>ever_used_regs\<close>, from which the prologue of a
  function takes the registers it saves: a syntactic invariant of the whole generator, spilling included.
\<close>

section \<open>The registers an instruction writes\<close>

fun writes :: "instr \<Rightarrow> preg set" where
  "writes (Mov s a (Reg n r)) = {r}"
| "writes (Ext sg f t a r) = {r}"
| "writes (Lea a r) = {r}"
| "writes (Alu oper s a (Reg n r)) = (if oper = A_cmp then {} else {r})"
| "writes (ShiftCl oper n r) = {r}"
| "writes (INeg n r) = {r}"
| "writes (INot n r) = {r}"
| "writes Cdq = {RDX}"
| "writes Cqo = {RDX}"
| "writes (Div sg n r) = {RAX, RDX}"
| "writes (Setcc c r) = {r}"
| "writes (Push s r) = {RSP}"
| "writes (Pop s r) = {r, RSP}"
| "writes x = {}"

lemma wr_regs: "wr n a v m = Some m' \<Longrightarrow> (\<And>k. a \<noteq> Reg k q) \<Longrightarrow> regs m' q = regs m q"
  by (cases a) (auto simp: wr_def split: if_splits)

lemma exec_writes:
  assumes "exec_instr x m = Some m'" "q \<notin> writes x"
  shows "regs m' q = regs m q"
proof (cases x)
  case (Mov s a b)
  then have "\<And>k. b \<noteq> Reg k q" using assms(2) by (cases b) auto
  then show ?thesis using assms(1) Mov wr_regs [of _ b _ m m' q] by (auto simp: Let_def bind_eq_Some_conv)
next
  case (Alu oper s a b)
  show ?thesis
  proof (cases "oper = A_cmp")
    case True
    then show ?thesis using assms(1) Alu by (auto simp: exec_alu_def bind_eq_Some_conv split: if_splits)
  next
    case False
    then have b: "\<And>k. b \<noteq> Reg k q" using assms(2) Alu by (cases b) auto
    obtain m1 v n where "wr n b v m1 = Some m'" "regs m1 = regs m"
      using assms(1) Alu False by (cases oper) (auto simp: exec_alu_def bind_eq_Some_conv split: if_splits)
    then show ?thesis using wr_regs [of _ b] b by metis
  qed
qed (use assms in \<open>auto simp: exec_div_def Let_def split: if_splits\<close>)

text \<open>A run of a program that never writes \<open>q\<close> leaves it alone.\<close>

lemma step_writes:
  assumes "step P (i, m) = Some (j, m')" "\<forall>x \<in> set P. q \<notin> writes x"
  shows "regs m' q = regs m q"
proof -
  have i: "i < length P" using assms(1) by (auto simp: step_def split: if_splits)
  then have w: "q \<notin> writes (P ! i)" using assms(2) by simp
  show ?thesis
  proof (cases "exec_instr (P ! i) m")
    case None
    then have "m' = m"
      using assms(1) i by (auto simp: step_def goto_def bind_eq_Some_conv split: instr.splits if_splits)
    then show ?thesis by simp
  next
    case (Some m1)
    then have "m' = m1 \<or> m' = m"
      using assms(1) i by (auto simp: step_def goto_def bind_eq_Some_conv split: instr.splits if_splits)
    then show ?thesis using exec_writes [OF Some w] by auto
  qed
qed

lemma steps_writes:
  assumes "steps P c d" "\<forall>x \<in> set P. q \<notin> writes x"
  shows "regs (snd d) q = regs (snd c) q"
  using assms(1) unfolding steps_def
proof (induction rule: rtranclp_induct)
  case (step d e)
  then show ?case using step_writes [OF _ assms(2), of "fst d" "snd d" "fst e" "snd e"] by simp
qed simp

section \<open>Which registers the generator may write\<close>

definition may_write :: "nat set \<Rightarrow> preg set" where
  "may_write U = {RAX, RCX, RDX, R11} \<union> phys ` U"

definition recorded :: "gst \<Rightarrow> bool" where
  "recorded g \<longleftrightarrow> used g \<subseteq> ever_used g \<and> spilled g \<subseteq> ever_used g \<and> ever_used g \<subseteq> {..<8}"

text \<open>
  Started in a state where the registers in use and those of \<open>R\<close> are recorded in \<open>ever_used_regs\<close>, the generator
  stays in such states, never drops a record, returns a recorded register, and prints code that writes only
  recorded registers besides the scratch registers.
\<close>

definition careful :: "nat set \<Rightarrow> 'a gm \<Rightarrow> ('a \<Rightarrow> nat set) \<Rightarrow> bool" where
  "careful R f Q \<longleftrightarrow>
     (\<forall>g x c g'. recorded g \<longrightarrow> R \<subseteq> ever_used g \<longrightarrow> f g = Some (x, c, g') \<longrightarrow>
        recorded g' \<and> ever_used g \<subseteq> ever_used g' \<and> Q x \<subseteq> ever_used g' \<and>
        (\<forall>y \<in> set c. writes y \<subseteq> may_write (ever_used g')))"

definition none :: "'a \<Rightarrow> nat set" where
  "none x = {}"

named_theorems careful

lemma may_write_mono: "U \<subseteq> V \<Longrightarrow> may_write U \<subseteq> may_write V"
  by (auto simp: may_write_def)

lemma careful_ret [careful]: "Q x \<subseteq> R \<Longrightarrow> careful R (gret x) Q"
  by (auto simp: careful_def gret_def)

lemma careful_fail [careful]: "careful R gfail Q"
  by (simp add: careful_def gfail_def)

lemma careful_emit [careful]: "\<forall>y \<in> set c. writes y \<subseteq> may_write R \<Longrightarrow> careful R (emit c) none"
  unfolding careful_def emit_def none_def using may_write_mono by (metis Pair_inject empty_subsetI option.inject order_refl order_trans)

lemma careful_bind:
  assumes "careful R f P" "\<And>x. careful (R \<union> P x) (k x) Q"
  shows "careful R (gbind f k) Q"
  unfolding careful_def
proof (intro allI impI)
  fix g x c g'
  assume g: "recorded g" "R \<subseteq> ever_used g" "gbind f k g = Some (x, c, g')"
  then obtain a d g1 e where s: "f g = Some (a, d, g1)" "k a g1 = Some (x, e, g')" "c = d @ e"
    by (auto simp: gbind_def split: option.splits)
  have 1: "recorded g1" "ever_used g \<subseteq> ever_used g1" "P a \<subseteq> ever_used g1" "\<forall>y \<in> set d. writes y \<subseteq> may_write (ever_used g1)"
    using assms(1) g(1,2) s(1) unfolding careful_def by blast+
  then have "R \<union> P a \<subseteq> ever_used g1" using g(2) by auto
  then have "recorded g'" "ever_used g1 \<subseteq> ever_used g'" "Q x \<subseteq> ever_used g'" "\<forall>y \<in> set e. writes y \<subseteq> may_write (ever_used g')"
    using assms(2) [of a] 1(1) s(2) unfolding careful_def by blast+
  then show "recorded g' \<and> ever_used g \<subseteq> ever_used g' \<and> Q x \<subseteq> ever_used g' \<and> (\<forall>y \<in> set c. writes y \<subseteq> may_write (ever_used g'))"
    using 1 s(3) order_trans [OF _ may_write_mono [of "ever_used g1" "ever_used g'"]] by (auto 0 2 simp: ball_Un)
qed

lemma careful_seq [careful]:
  assumes "careful R f none" "careful R k Q"
  shows "careful R (gseq f k) Q"
  unfolding gseq_def by (rule careful_bind [OF assms(1)]) (use assms(2) in \<open>simp add: none_def\<close>)

lemma careful_mono: "careful R f P \<Longrightarrow> R \<subseteq> R' \<Longrightarrow> (\<And>x. Q x \<subseteq> P x \<union> R') \<Longrightarrow> careful R' f Q"
  unfolding careful_def by (meson Un_least order_trans)

text \<open>A generator that may yield a register.\<close>

definition set_opt :: "nat option \<Rightarrow> nat set" where
  "set_opt r = (case r of None \<Rightarrow> {} | Some i \<Rightarrow> {i})"

lemma set_opt_simps [simp]: "set_opt None = {}" "set_opt (Some i) = {i}"
  by (simp_all add: set_opt_def)

abbreviation careful_gen :: "cgen \<Rightarrow> bool" where
  "careful_gen f \<equiv> careful {} f set_opt"

lemma careful_gen: "careful_gen f \<Longrightarrow> careful R f set_opt"
  by (rule careful_mono) auto

lemma find_member: "find P xs = Some x \<Longrightarrow> x \<in> set xs \<and> P x"
  by (induction xs) (auto split: if_splits)

lemma careful_alloc: "careful R alloc_reg (\<lambda>r. {r})"
  unfolding careful_def
proof (intro allI impI)
  fix g x c g'
  assume g: "recorded g" "R \<subseteq> ever_used g" "alloc_reg g = Some (x, c, g')"
  show "recorded g' \<and> ever_used g \<subseteq> ever_used g' \<and> {x} \<subseteq> ever_used g' \<and> (\<forall>y \<in> set c. writes y \<subseteq> may_write (ever_used g'))"
    using g(1,3) by (auto simp: alloc_reg_def recorded_def NUM_REGS_def spill_offset_def alloc_spill_slot_def Let_def
        split: option.splits if_splits dest!: find_member)
qed

lemma careful_free [careful]: "careful R (free_reg i) none"
  unfolding careful_def
proof (intro allI impI)
  fix g x c g'
  assume g: "recorded g" "R \<subseteq> ever_used g" "free_reg i g = Some (x, c, g')"
  show "recorded g' \<and> ever_used g \<subseteq> ever_used g' \<and> none x \<subseteq> ever_used g' \<and> (\<forall>y \<in> set c. writes y \<subseteq> may_write (ever_used g'))"
    using g(1,3)
    by (auto simp: free_reg_def recorded_def none_def spill_offset_def alloc_spill_slot_def Let_def may_write_def split: if_splits)
qed

lemma careful_alloc_bind [careful]: "(\<And>r. careful (insert r R) (k r) Q) \<Longrightarrow> careful R (gbind alloc_reg k) Q"
  by (rule careful_bind [OF careful_alloc]) simp

lemma careful_unit: "Q () = {} \<Longrightarrow> careful R (gret ()) Q"
  by (simp add: careful_ret)

lemma careful_free_opt [careful]: "careful R (free_opt r) none"
  by (cases r) (simp_all add: free_opt_def careful_free careful_unit none_def)

lemma careful_label: "careful R new_label none"
  by (auto simp: careful_def new_label_def recorded_def none_def)

lemma careful_label_bind [careful]: "(\<And>c. careful R (k c) Q) \<Longrightarrow> careful R (gbind new_label k) Q"
  by (rule careful_bind [OF careful_label]) (simp add: none_def)

lemma careful_emits [careful]:
  "\<forall>y \<in> set c. writes y \<subseteq> may_write R \<Longrightarrow> r \<in> R \<Longrightarrow> careful R (emits c r) set_opt"
  unfolding emits_def by (rule careful_seq [OF careful_emit careful_ret]) auto

lemma careful_with_reg [careful]:
  assumes "careful_gen f" "\<And>i. careful (insert i R) (k i) Q"
  shows "careful R (with_reg f k) Q"
  unfolding with_reg_def
proof (rule careful_bind [OF careful_gen [OF assms(1)]])
  fix r show "careful (R \<union> set_opt r) (case r of None \<Rightarrow> gfail | Some i \<Rightarrow> k i) Q"
    by (cases r) (use assms(2) in \<open>auto intro: careful\<close>)
qed

lemma careful_with_type [careful]: "(\<And>u. careful R (k u) Q) \<Longrightarrow> careful R (with_type t k) Q"
  by (cases t) (auto simp: with_type_def intro: careful)

lemma careful_with_child [careful]: "(\<And>u. careful R (k u) Q) \<Longrightarrow> careful R (with_child t k) Q"
  by (cases t) (auto simp: with_child_def intro: careful)

lemma careful_if [careful]: "(b \<Longrightarrow> careful R f Q) \<Longrightarrow> (\<not> b \<Longrightarrow> careful R g Q) \<Longrightarrow> careful R (if b then f else g) Q"
  by simp

lemma careful_option [careful]:
  "careful R f Q \<Longrightarrow> (\<And>x. careful R (k x) Q) \<Longrightarrow> careful R (case y of None \<Rightarrow> f | Some x \<Rightarrow> k x) Q"
  by (cases y) auto

lemma careful_lift [careful]: "(\<And>x. careful R (k x) Q) \<Longrightarrow> careful R (gbind (lift_opt y) k) Q"
  by (rule careful_bind [where P = none]) (cases y; simp add: lift_opt_def none_def careful_fail careful_ret)+

lemma careful_slot [careful]: "(\<And>x. careful R (k x) Q) \<Longrightarrow> careful R (gbind (\<lambda>g. gret (spill_logand g) g) k) Q"
  by (rule careful_bind [where P = none]) (auto simp: careful_def gret_def none_def)

lemma in_may_write [simp]: "RAX \<in> may_write R" "RCX \<in> may_write R" "RDX \<in> may_write R" "R11 \<in> may_write R"
  "r \<in> R \<Longrightarrow> phys r \<in> may_write R"
  by (auto simp: may_write_def)

lemma none_simp [simp]: "none x = {}"
  by (simp add: none_def)

section \<open>The cases of the generator\<close>

lemma careful_extend [careful]: "r \<in> R \<Longrightarrow> careful R (sign_extend_to r a b) none" "r \<in> R \<Longrightarrow> careful R (zero_extend_to r a b) none"
  unfolding sign_extend_to_def zero_extend_to_def by (intro careful; auto)+

lemma careful_load [careful]: "r \<in> R \<Longrightarrow> careful R (emit_load t r a) none"
  unfolding emit_load_def by (intro careful; auto)

lemma careful_leaves: "careful_gen (gen_num n)" "careful_gen (gen_lvar n)" "careful_gen (addr_lvar n)"
  unfolding gen_num_def gen_lvar_def addr_lvar_def by (intro careful; auto simp: reg_def)+

abbreviation clean :: "nat set \<Rightarrow> instr list \<Rightarrow> bool" where
  "clean R c \<equiv> \<forall>y \<in> set c. writes y \<subseteq> may_write R"

lemma clean_append: "clean R c \<Longrightarrow> clean R d \<Longrightarrow> clean R (c @ d)"
  by auto

lemma clean_Cons: "writes x \<subseteq> may_write R \<Longrightarrow> clean R d \<Longrightarrow> clean R (x # d)"
  by simp

lemma clean_if: "(b \<Longrightarrow> clean R c) \<Longrightarrow> (\<not> b \<Longrightarrow> clean R d) \<Longrightarrow> clean R (if b then c else d)"
  by simp

lemma clean_let: "(\<And>x. clean R (k x)) \<Longrightarrow> clean R (let x = a in k x)"
  by simp

lemma writes_reg [simp]: "writes (Alu oper s a (reg r n)) = (if oper = A_cmp then {} else {phys r})" "writes (Mov s a (reg r n)) = {phys r}"
  by (simp_all add: reg_def)

lemma clean_Nil: "clean R []"
  by simp

lemma writes_bf [simp]: "writes (bf_load sz ra rt) = {phys rt}" "writes (bf_store sz ra rt) = {}"
  by (simp_all add: bf_load_def bf_store_def)

lemma clean_pieces:
  assumes "r \<in> R"
  shows "clean R (and_const v r)" "clean R (shift_const A_shl k r)" "clean R (shift_const A_sar k r)" "clean R (shift_const A_shr k r)"
    "clean R (shift_down m r)" "clean R (extract_field m b r)" "clean R (scale_down e sz r)" "clean R (arith_imm k' imm (reg r sz))"
  using assms
  by (auto simp: and_const_def shift_const_def shift_down_def extract_field_def scale_down_def arith_imm_def reg_def Let_def
      split: if_splits)

lemma clean_fields:
  assumes "ra \<in> R" "rt \<in> R"
  shows "clean R (reload_field m e ra rt)" "clean R (insert_field m rt ra)"
  unfolding reload_field_def insert_field_def
  by (intro clean_append clean_Cons clean_if clean_Nil clean_pieces; simp add: assms)+

lemma clean_arith:
  assumes "a \<in> R" "b \<in> R"
  shows "clean R (arith_regs k sz lt rt a b)"
proof -
  have "clean R (case (tbase lt, tbase rt) of (Some b, Some _) \<Rightarrow> if k = ND_SUB then scale_down (sizeof b) sz a else [] | _ \<Rightarrow> [])"
    using clean_pieces(7) [OF assms(1)] by (cases "tbase lt"; cases "tbase rt") (auto split: if_splits)
  then show ?thesis using assms unfolding arith_regs_def by (intro clean_append clean_if clean_Cons clean_Nil; simp)
qed

lemmas clean_rules = clean_let clean_append clean_Cons clean_if clean_Nil clean_pieces clean_fields clean_arith

lemma careful_let [careful]: "(\<And>x. x = a \<Longrightarrow> careful R (k x) Q) \<Longrightarrow> careful R (let x = a in k x) Q"
  by simp

lemma careful_member:
  assumes "careful_gen a"
  shows "careful_gen (gen_member n a)" "careful_gen (addr_member n a)"
  unfolding gen_member_def addr_member_def
  by (intro careful clean_rules assms; simp)+

lemma careful_assign:
  assumes "careful_gen a" "careful_gen b"
  shows "careful_gen (gen_assign n a b)"
proof -
  have same: "careful {r} (assign_field_same m r a) set_opt" for m r
    unfolding assign_field_same_def by (intro careful clean_rules assms; simp)
  have field: "careful {r} (assign_field m r a) set_opt" for m r
    unfolding assign_field_def by (intro careful clean_rules assms; simp)
  have loc: "careful_gen (assign_local v t b)" for v t
    unfolding assign_local_def by (intro careful clean_rules assms; simp add: reg_def)
  show ?thesis
    unfolding gen_assign_def by (intro careful clean_rules assms same field loc; simp add: reg_def)
qed

lemma careful_post:
  assumes "careful_gen a"
  shows "careful_gen (gen_post n a)"
proof -
  have "careful R (post_field k m r r2) set_opt" if "r \<in> R" "r2 \<in> R" for R k m r r2
    unfolding post_field_def by (intro careful clean_rules assms; simp add: that reg_def)
  then show ?thesis unfolding gen_post_def by (intro careful clean_rules assms; simp add: reg_def)
qed

lemma careful_unary:
  assumes "careful_gen a"
  shows "careful_gen (gen_cast n a)" "careful_gen (gen_neg n a)" "careful_gen (gen_bitnot n a)" "careful_gen (gen_not n a)"
    "careful_gen (gen_deref n a)"
  unfolding gen_cast_def gen_neg_def gen_bitnot_def gen_not_def gen_deref_def
  by (intro careful clean_rules assms; simp add: reg_def)+

lemma careful_binary:
  assumes "careful_gen a" "careful_gen b"
  shows "careful_gen (gen_binary n a b)"
proof -
  have "careful R (gen_div n r b) set_opt" "careful R (gen_shift n r b) set_opt" "careful R (gen_arith n r b) set_opt"
    if "r \<in> R" for R r
    using that unfolding gen_div_def gen_shift_def gen_arith_def
    by (intro careful clean_rules assms; simp add: reg_def)+
  then show ?thesis unfolding gen_binary_def by (intro careful clean_rules assms; simp)
qed

lemma careful_logic:
  assumes "careful_gen a" "careful_gen b" "careful_gen d"
  shows "careful_gen (gen_logical n v q a b)" "careful_gen (gen_cond n a b d)" "careful_gen (gen_comma a b)"
  subgoal unfolding gen_logical_def by (intro careful clean_rules assms; simp)
  subgoal unfolding gen_cond_def by (intro careful clean_rules assms; simp)
  subgoal unfolding gen_comma_def by (rule careful_bind [OF assms(1) careful_seq [OF careful_free_opt careful_gen [OF assms(2)]]])
  done

subsection \<open>Statements\<close>

lemma careful_stmt [careful]: "careful_gen a \<Longrightarrow> careful R (gen_stmt a) none"
  unfolding gen_stmt_def by (rule careful_bind [OF careful_gen careful_free_opt])

lemma careful_no_value [careful]: "careful R a none \<Longrightarrow> careful R (no_value a) set_opt"
  unfolding no_value_def by (rule careful_seq [OF _ careful_ret]) simp_all

lemma careful_loop [careful]: "careful R (push_loop l) none" "careful R pop_loop none"
  by (auto simp: careful_def push_loop_def pop_loop_def recorded_def)

lemma careful_branch:
  assumes "careful_gen a" "careful_gen b" "careful_gen d"
  shows "careful {} (cond_branch_inv n a b d lab) none"
  unfolding cond_branch_inv_def by (intro careful clean_rules assms; simp)

lemma careful_return:
  assumes "careful_gen a"
  shows "careful_gen (gen_return F n a)"
  unfolding gen_return_def emit_cleanup_range_def
  by (intro careful_seq careful_no_value careful_option careful_with_type careful_if careful_with_reg careful_unit careful_fail
      careful_emit careful_free assms clean_rules; simp split: option.splits)

lemma careful_control:
  assumes "careful_gen a" "careful_gen b" "careful_gen d" "\<And>l. careful {} (br l) none"
  shows "careful_gen (gen_if n br a b)" "careful_gen (gen_for n a br b d)" "careful_gen (gen_do n a b)"
proof -
  have e: "careful_gen (if c then a else if d then b else gret None)" for c d
    using assms by (simp add: careful_ret)
  show "careful_gen (gen_if n br a b)"
    unfolding gen_if_def by (intro careful clean_rules assms e; simp)
  show "careful_gen (gen_for n a br b d)"
    unfolding gen_for_def by (intro careful clean_rules assms careful_unit; simp)
  show "careful_gen (gen_do n a b)"
    unfolding gen_do_def by (intro careful clean_rules assms; simp)
qed

lemma careful_leave: "careful_gen (gen_break n)" "careful_gen (gen_continue n)"
  by (auto simp: careful_def gen_break_def gen_continue_def leave_scope_def emit_cleanup_range_def emit_vla_dealloc_def
      no_value_def gseq_def gbind_def emit_def gret_def gfail_def split: list.splits if_splits)

lemma careful_step:
  assumes IH: "\<And>m. size m < size n \<Longrightarrow> careful_gen (gen F m) \<and> careful_gen (gen_addr F m)"
  shows "careful_gen (gen F n)" "careful_gen (gen_addr F n)"
proof -
  have opt: "careful_gen (gen_opt F x)" "careful_gen (gen_addr_opt F x)" if "osize x < size n" for x
    using IH that by (cases x; simp add: careful_ret careful_fail)+
  note ch = node_child_size [of n]
  note o = opt(1) [OF ch(1)] opt(1) [OF ch(2)] opt(1) [OF ch(3)] opt(1) [OF ch(4)] opt(1) [OF ch(5)] opt(1) [OF ch(6)] opt(1) [OF ch(7)]
  note a = opt(2) [OF ch(1)] opt(2) [OF ch(2)] opt(2) [OF ch(4)] opt(2) [OF ch(5)]
  have br: "careful {} (gen_branch F (ncond n) lab) none" for lab
  proof (cases "ncond n")
    case (Some q)
    have "size q < size n" using ch(3) Some by simp
    moreover from this have "osize (lhs q) < size n" "osize (rhs q) < size n" using node_child_size [of q] by simp_all
    ultimately show ?thesis using careful_branch [OF opt(1) opt(1)] IH Some by simp
  qed (simp add: careful_fail)
  have li: "careful {} (gen_list F (nbody n)) none"
  proof -
    have "careful {} (gen_list F ns) none" if "size_list size ns < size n" for ns
      using that by (induction ns) (simp_all add: careful_unit careful_seq careful_stmt IH)
    then show ?thesis using ch(8) .
  qed
  have ad: "careful_gen (gen_addr F n)"
    unfolding gen_addr.simps [of F n]
    using careful_leaves(3) careful_member(2) [OF a(1), of n] careful_logic(2) [OF o(3) a(3,4), of n] careful_logic(3) [OF o(1) a(2) o(1)]
    by (cases "ndkind n"; simp add: o a careful_ret careful_fail; intro careful a)
  show "careful_gen (gen_addr F n)" by (rule ad)
  show "careful_gen (gen F n)"
    unfolding gen.simps [of F n]
    using careful_leaves(1,2) careful_assign [OF a(1) o(2), of n] careful_unary [OF o(1), of n] careful_post [OF a(1), of n]
      careful_member(1) [OF ad, of n] careful_return [OF o(1), of F n] careful_binary [OF o(1,2), of n]
      careful_logic(1) [OF o(1,2) o(1), of n] careful_logic(2) [OF o(3,4,5), of n] careful_logic(3) [OF o(1,2) o(1)]
      careful_control(1) [OF o(4,5) o(1) br, of n] careful_control(2) [OF o(6,4,7) br, of n] careful_control(3) [OF o(4,3) o(1) br, of n]
      careful_leave careful_no_value [OF li] careful_no_value [OF careful_stmt [OF o(1)]]
    by (cases "ndkind n"; simp add: o a careful_ret careful_fail)
qed

lemma careful_all: "careful_gen (gen F n)" "careful_gen (gen_addr F n)"
  by (induction n rule: measure_induct_rule [where f = size]) (use careful_step in blast)+

lemma careful_list: "careful {} (gen_list F ns) none"
  by (induction ns) (simp_all add: careful_unit careful_seq careful_stmt careful_all)

end
