(* ===== verification/GenFunc.thy ===== *)
theory GenFunc
  imports GenRun GenRegs
begin

text \<open>
  Whole functions (\<open>codegen\<close>): parameters, prologue, body, epilogue, for x86-64 Linux, and the machinery of their
  correctness proof: the frame as bytes below the stack pointer at entry, pushes and pops, moving a piece of code into
  a larger program, parameters. Left out: variadic functions, struct results, variables with cleanup functions,
  \<open>alloca\<close>, and the assembler directives around the function.
\<close>

section \<open>Functions\<close>

record cfunc =
  fn_env :: fenv
  fn_params :: "lvar list"
  fn_body :: "node list"
  fn_stack_size :: int

definition param_regs :: "preg list" where
  "param_regs = [RDI, RSI, RDX, RCX, R8, R9]"

definition param_bytes :: "int \<Rightarrow> nat" where
  "param_bytes sz = (if sz = 1 then 1 else if sz = 2 then 2 else if sz \<le> 4 then 4 else 8)"

text \<open>The parameters go from their registers, or from the stack of the caller, to their places in the frame.\<close>

fun save_params :: "nat \<Rightarrow> nat \<Rightarrow> lvar list \<Rightarrow> instr list option" where
  "save_params i k [] = Some []"
| "save_params i k (v # vs) =
     (case vty v of
        None \<Rightarrow> None
      | Some t \<Rightarrow>
          if is_flonum t \<or> ((tkind t = TY_STRUCT \<or> tkind t = TY_UNION) \<and> sizeof t > 8) then None
          else if i < length param_regs then
            map_option (\<lambda>c. Mov S_none (Reg (param_bytes (sizeof t)) (param_regs ! i)) (Mem (- voffset v) RBP) # c)
              (save_params (Suc i) k vs)
          else
            map_option (\<lambda>c. Mov S_none (Mem (16 + int k * 8) RBP) (Reg (param_bytes (sizeof t)) RAX) #
                            Mov S_none (Reg (param_bytes (sizeof t)) RAX) (Mem (- voffset v) RBP) # c)
              (save_params i (Suc k) vs))"

text \<open>The callee-saved registers that were ever used: \<open>%rbx\<close> and \<open>%r12\<close> to \<open>%r15\<close> are the allocator's 2 to 6.\<close>

definition callee_saved :: "gst \<Rightarrow> preg list" where
  "callee_saved g = map (\<lambda>j. phys (j + 2)) (filter (\<lambda>j. j + 2 \<in> ever_used g) [0..<5])"

definition frame_need :: "cfunc \<Rightarrow> gst \<Rightarrow> int" where
  "frame_need f g = max (fn_stack_size f + 32) (next_spill_slot g)"

definition sub_amount :: "cfunc \<Rightarrow> gst \<Rightarrow> int" where
  "sub_amount f g =
     (let push_bytes = int (length (callee_saved g)) * 8;
          sub = max 32 (frame_need f g - push_bytes)
      in if (push_bytes + sub) mod 16 \<noteq> 0 then sub + 8 else sub)"

definition prologue :: "cfunc \<Rightarrow> gst \<Rightarrow> instr list" where
  "prologue f g =
     [Label (L_func (fn_name (fn_env f))), Push S_q RBP, Mov S_q (Reg 8 RSP) (Reg 8 RBP)] @
     map (Push S_none) (callee_saved g) @ [Alu A_sub S_q (Imm (sub_amount f g)) (Reg 8 RSP)]"

definition epilogue :: "cfunc \<Rightarrow> gst \<Rightarrow> instr list" where
  "epilogue f g =
     [Label (L_return (fn_name (fn_env f))), Alu A_add S_q (Imm (sub_amount f g)) (Reg 8 RSP)] @
     map (Pop S_none) (rev (callee_saved g)) @ [Pop S_q RBP, Ret]"

text \<open>The whole text of a function that is neither variadic nor returns a struct, before the peephole pass.\<close>

definition gen_function :: "cfunc \<Rightarrow> nat \<Rightarrow> (instr list \<times> gst) option" where
  "gen_function f k =
     Option.bind (save_params 0 0 (fn_params f)) (\<lambda>c0.
       case gen_list (fn_env f) (fn_body f) (fresh_gst k) of
         None \<Rightarrow> None
       | Some (_, c, g) \<Rightarrow> Some (prologue f g @ c0 @ c @ epilogue f g, g))"

section \<open>The frame\<close>

lemma sub_amount_facts:
  assumes "8 dvd fn_stack_size f" "8 dvd next_spill_slot g"
  shows "16 dvd int (length (callee_saved g)) * 8 + sub_amount f g" "32 \<le> sub_amount f g"
    "frame_need f g \<le> int (length (callee_saved g)) * 8 + sub_amount f g"
proof -
  let ?p = "int (length (callee_saved g)) * 8"
  define sub where "sub = max 32 (frame_need f g - ?p)"
  have "8 dvd frame_need f g" using assms by (auto simp: frame_need_def max_def)
  then have d: "8 dvd ?p + sub" by (auto simp: sub_def max_def)
  have s: "sub_amount f g = (if (?p + sub) mod 16 \<noteq> 0 then sub + 8 else sub)" by (simp add: sub_amount_def sub_def Let_def)
  have "(?p + sub) mod 16 = 0 \<or> (?p + sub) mod 16 = 8" using d by presburger
  then show "16 dvd ?p + sub_amount f g" using s by presburger
  show "32 \<le> sub_amount f g" "frame_need f g \<le> ?p + sub_amount f g" using s by (auto simp: sub_def)
qed

subsection \<open>Bytes below an address\<close>

definition below :: "64 word \<Rightarrow> nat \<Rightarrow> nat \<Rightarrow> 64 word set" where
  "below sp a b = (\<lambda>j. sp - word_of_nat j) ` {a<..b}"

lemma area_below:
  assumes "0 < n"
  shows "area (sp - word_of_nat (a + n)) n = below sp a (a + n)"
proof -
  have "{a<..a + n} = (\<lambda>k. a + n - k) ` {..<n}"
  proof -
    have "j \<in> (\<lambda>k. a + n - k) ` {..<n}" if "j \<in> {a<..a + n}" for j
      using that by (intro image_eqI [of _ _ "a + n - j"]) auto
    then show ?thesis by auto
  qed
  then have "below sp a (a + n) = (\<lambda>k. sp - word_of_nat (a + n - k)) ` {..<n}"
    by (simp add: below_def image_image)
  also have "\<dots> = (\<lambda>k. sp - word_of_nat (a + n) + word_of_nat k) ` {..<n}"
    by (rule image_cong) (simp_all add: of_nat_diff)
  finally show ?thesis by (simp add: area_def)
qed

lemma word_of_nat_inj:
  assumes "a < 2 ^ 64" "b < 2 ^ 64"
  shows "(word_of_nat a :: 64 word) = word_of_nat b \<longleftrightarrow> a = b"
  using assms by (simp add: word_of_nat_eq_iff take_bit_nat_eq_self)

lemma below_disjoint:
  assumes "b \<le> c" "d < 2 ^ 64"
  shows "below sp a b \<inter> below sp c d = {}"
proof -
  have "sp - word_of_nat j \<noteq> sp - word_of_nat j'" if "j \<le> b" "c < j'" "j' \<le> d" for j j'
    using that assms word_of_nat_inj [of j j'] by auto
  then show ?thesis unfolding below_def by auto
qed

lemma below_mono: "a' \<le> a \<Longrightarrow> b \<le> b' \<Longrightarrow> below sp a b \<subseteq> below sp a' b'"
  by (auto simp: below_def)


subsection \<open>Saving and restoring registers\<close>

text \<open>The words below \<open>sp\<close> from depth \<open>d\<close> on.\<close>

fun saved :: "memory \<Rightarrow> 64 word \<Rightarrow> nat \<Rightarrow> 64 word list \<Rightarrow> bool" where
  "saved mm sp d [] \<longleftrightarrow> True"
| "saved mm sp d (w # ws) \<longleftrightarrow> load mm 8 (sp - word_of_nat (d + 8)) = uint w \<and> saved mm sp (d + 8) ws"

lemma saved_cong:
  assumes "saved mm sp d ws" "\<And>x. x \<in> below sp d (d + 8 * length ws) \<Longrightarrow> mm' x = mm x"
  shows "saved mm' sp d ws"
  using assms
proof (induction ws arbitrary: d)
  case (Cons w ws)
  have "below sp d (d + 8) \<subseteq> below sp d (d + 8 * length (w # ws))" by (rule below_mono) auto
  then have "load mm' 8 (sp - word_of_nat (d + 8)) = load mm 8 (sp - word_of_nat (d + 8))"
    using Cons.prems(2) by (intro load_cong) (auto simp: area_below simp del: of_nat_add)
  moreover have "below sp (d + 8) (d + 8 + 8 * length ws) \<subseteq> below sp d (d + 8 * length (w # ws))"
    by (rule below_mono) auto
  then have "saved mm' sp (d + 8) ws" using Cons by (intro Cons.IH) auto
  ultimately show ?case using Cons.prems(1) by simp
qed simp

lemma saved_nth:
  "saved mm sp d ws \<Longrightarrow> i < length ws \<Longrightarrow> load mm 8 (sp - word_of_nat (d + 8 * Suc i)) = uint (ws ! i)"
proof (induction ws arbitrary: d i)
  case (Cons w ws)
  show ?case
  proof (cases i)
    case (Suc j)
    then have "load mm 8 (sp - word_of_nat (d + 8 + 8 * Suc j)) = uint (ws ! j)" using Cons by (intro Cons.IH) auto
    then show ?thesis using Suc by (simp add: add.assoc)
  qed (use Cons.prems in simp)
qed simp

lemma exec_push:
  assumes "r \<noteq> RSP" "regs m RSP = sp - word_of_nat d"
  defines "m1 \<equiv> putr 8 RSP (uint (regs m RSP - 8)) (m\<lparr>mem := store (mem m) 8 (regs m RSP - 8) (getr m 8 r)\<rparr>)"
  shows "exec_instr (Push s r) m = Some m1" "regs m1 RSP = sp - word_of_nat (d + 8)" "\<And>q. q \<noteq> RSP \<Longrightarrow> regs m1 q = regs m q"
    "syms m1 = syms m" "\<And>x. x \<notin> below sp d (d + 8) \<Longrightarrow> mem m1 x = mem m x"
    "load (mem m1) 8 (sp - word_of_nat (d + 8)) = uint (regs m r)"
proof -
  have p: "regs m RSP - 8 = sp - word_of_nat (d + 8)" using assms(2) by simp
  show "exec_instr (Push s r) m = Some m1" by (simp add: m1_def Let_def)
  show "regs m1 RSP = sp - word_of_nat (d + 8)" using p by (simp add: m1_def putr_def)
  show "\<And>q. q \<noteq> RSP \<Longrightarrow> regs m1 q = regs m q" "syms m1 = syms m" by (simp_all add: m1_def)
  show "mem m1 x = mem m x" if "x \<notin> below sp d (d + 8)" for x
    using that by (simp add: m1_def p store_other area_below del: of_nat_add)
  show "load (mem m1) 8 (sp - word_of_nat (d + 8)) = uint (regs m r)"
    by (simp add: m1_def p load_store getr_def del: of_nat_add)
qed

lemma exec_pushes:
  assumes "regs m RSP = sp - word_of_nat d" "RSP \<notin> set qs" "d + 8 * length qs < 2 ^ 64"
  obtains m1 where "exec_seq (map (Push s) qs) m = Some m1" "regs m1 RSP = sp - word_of_nat (d + 8 * length qs)"
    "\<And>q. q \<noteq> RSP \<Longrightarrow> regs m1 q = regs m q" "syms m1 = syms m"
    "\<And>x. x \<notin> below sp d (d + 8 * length qs) \<Longrightarrow> mem m1 x = mem m x" "saved (mem m1) sp d (map (regs m) qs)"
proof -
  have "\<exists>m1. exec_seq (map (Push s) qs) m = Some m1 \<and> regs m1 RSP = sp - word_of_nat (d + 8 * length qs) \<and>
    (\<forall>q. q \<noteq> RSP \<longrightarrow> regs m1 q = regs m q) \<and> syms m1 = syms m \<and>
    (\<forall>x. x \<notin> below sp d (d + 8 * length qs) \<longrightarrow> mem m1 x = mem m x) \<and> saved (mem m1) sp d (map (regs m) qs)"
    using assms
  proof (induction qs arbitrary: m d)
    case Nil
    then show ?case by simp
  next
    case (Cons r qs)
    then have r: "r \<noteq> RSP" by auto
    note 1 = exec_push [OF r Cons.prems(1)]
    let ?m = "putr 8 RSP (uint (regs m RSP - 8)) (m\<lparr>mem := store (mem m) 8 (regs m RSP - 8) (getr m 8 r)\<rparr>)"
    obtain m2 where m2: "exec_seq (map (Push s) qs) ?m = Some m2" "regs m2 RSP = sp - word_of_nat (d + 8 + 8 * length qs)"
      "\<And>q. q \<noteq> RSP \<Longrightarrow> regs m2 q = regs ?m q" "syms m2 = syms ?m"
      "\<And>x. x \<notin> below sp (d + 8) (d + 8 + 8 * length qs) \<Longrightarrow> mem m2 x = mem ?m x" "saved (mem m2) sp (d + 8) (map (regs ?m) qs)"
      using Cons.IH [OF 1(2)] Cons.prems(2,3) by auto
    have dj: "below sp d (d + 8) \<inter> below sp (d + 8) (d + 8 + 8 * length qs) = {}"
      using Cons.prems(3) by (intro below_disjoint) auto
    have "load (mem m2) 8 (sp - word_of_nat (d + 8)) = uint (regs m r)"
    proof -
      have "load (mem m2) 8 (sp - word_of_nat (d + 8)) = load (mem ?m) 8 (sp - word_of_nat (d + 8))"
        using m2(5) dj by (intro load_cong) (auto simp: area_below simp del: of_nat_add)
      then show ?thesis using 1(6) by simp
    qed
    moreover have mp: "map (regs ?m) qs = map (regs m) qs" using Cons.prems(2) 1(3) by (intro map_cong refl) (metis list.set_intros(2))
    have "saved (mem m2) sp (d + 8) (map (regs m) qs)" using m2(6) by (simp only: mp)
    moreover have "mem m2 x = mem m x" if "x \<notin> below sp d (d + 8 * length (r # qs))" for x
    proof -
      have "x \<notin> below sp d (d + 8)" "x \<notin> below sp (d + 8) (d + 8 + 8 * length qs)"
        using that below_mono [of d d "d + 8" "d + 8 * length (r # qs)" sp]
          below_mono [of d "d + 8" "d + 8 + 8 * length qs" "d + 8 * length (r # qs)" sp] by auto
      then show ?thesis using m2(5) 1(5) by metis
    qed
    moreover have "d + 8 * length (r # qs) = d + 8 + 8 * length qs" by simp
    ultimately show ?case
      using m2(1-4) 1(1,3,4) by (intro exI [of _ m2]) (simp add: add.assoc del: of_nat_add exec_instr.simps)
  qed
  then show thesis using that by blast
qed

lemma exec_pop:
  assumes "r \<noteq> RSP" "regs m RSP = sp - word_of_nat (d + 8)"
  obtains m1 where "exec_instr (Pop s r) m = Some m1" "regs m1 RSP = sp - word_of_nat d" "mem m1 = mem m" "syms m1 = syms m"
    "regs m1 r = word_of_int (load (mem m) 8 (sp - word_of_nat (d + 8)))" "\<And>q. q \<noteq> RSP \<Longrightarrow> q \<noteq> r \<Longrightarrow> regs m1 q = regs m q"
proof (rule that)
  let ?m = "putr 8 r (load (mem m) 8 (regs m RSP)) (putr 8 RSP (uint (regs m RSP + 8)) m)"
  show "exec_instr (Pop s r) m = Some ?m" by (simp add: Let_def)
  show "regs ?m RSP = sp - word_of_nat d" using assms by (simp add: putr_def)
  show "regs ?m r = word_of_int (load (mem m) 8 (sp - word_of_nat (d + 8)))" using assms by (simp add: putr_def)
qed (use assms in auto)

lemma exec_pops:
  assumes "regs m RSP = sp - word_of_nat (d + 8 * length qs)" "RSP \<notin> set qs" "distinct qs"
  obtains m1 where "exec_seq (map (Pop s) (rev qs)) m = Some m1" "regs m1 RSP = sp - word_of_nat d" "mem m1 = mem m"
    "\<And>i. i < length qs \<Longrightarrow> regs m1 (qs ! i) = word_of_int (load (mem m) 8 (sp - word_of_nat (d + 8 * Suc i)))"
    "\<And>q. q \<noteq> RSP \<Longrightarrow> q \<notin> set qs \<Longrightarrow> regs m1 q = regs m q"
proof -
  have "\<exists>m1. exec_seq (map (Pop s) (rev qs)) m = Some m1 \<and> regs m1 RSP = sp - word_of_nat d \<and> mem m1 = mem m \<and>
    (\<forall>i < length qs. regs m1 (qs ! i) = word_of_int (load (mem m) 8 (sp - word_of_nat (d + 8 * Suc i)))) \<and>
    (\<forall>q. q \<noteq> RSP \<longrightarrow> q \<notin> set qs \<longrightarrow> regs m1 q = regs m q)"
    using assms
  proof (induction qs arbitrary: d)
    case Nil
    then show ?case by simp
  next
    case (Cons r qs)
    have "regs m RSP = sp - word_of_nat (d + 8 + 8 * length qs)" using Cons.prems(1) by (simp add: add.assoc)
    then obtain m1 where m1: "exec_seq (map (Pop s) (rev qs)) m = Some m1" "regs m1 RSP = sp - word_of_nat (d + 8)" "mem m1 = mem m"
      "\<And>i. i < length qs \<Longrightarrow> regs m1 (qs ! i) = word_of_int (load (mem m) 8 (sp - word_of_nat (d + 8 + 8 * Suc i)))"
      "\<And>q. q \<noteq> RSP \<Longrightarrow> q \<notin> set qs \<Longrightarrow> regs m1 q = regs m q"
      using Cons.IH [of "d + 8"] Cons.prems(2,3) by auto
    have r: "r \<noteq> RSP" "r \<notin> set qs" using Cons.prems by auto
    obtain m2 where m2: "exec_instr (Pop s r) m1 = Some m2" "regs m2 RSP = sp - word_of_nat d" "mem m2 = mem m1"
      "regs m2 r = word_of_int (load (mem m1) 8 (sp - word_of_nat (d + 8)))" "\<And>q. q \<noteq> RSP \<Longrightarrow> q \<noteq> r \<Longrightarrow> regs m2 q = regs m1 q"
      by (rule exec_pop [OF r(1) m1(2), of s]) auto
    have "exec_seq (map (Pop s) (rev (r # qs))) m = Some m2"
      using m1(1) m2(1) by (simp add: exec_seq_append del: exec_instr.simps)
    moreover have "regs m2 ((r # qs) ! i) = word_of_int (load (mem m) 8 (sp - word_of_nat (d + 8 * Suc i)))"
      if "i < length (r # qs)" for i
    proof (cases i)
      case 0
      then show ?thesis using m2(4) m1(3) by simp
    next
      case (Suc j)
      then have "j < length qs" "qs ! j \<noteq> r" "qs ! j \<noteq> RSP" using that r Cons.prems(2) by (auto dest: nth_mem)
      then show ?thesis using m2(5) m1(4) Suc by (simp add: add.assoc del: of_nat_add)
    qed
    ultimately show ?case using m1 m2 by (intro exI [of _ m2]) auto
  qed
  then show thesis using that by blast
qed


subsection \<open>Moving code\<close>

lemma find_label_inside:
  assumes "find_label c l = Some k" "distinct (labels (a @ c @ b))"
  shows "find_label (a @ c @ b) l = Some (length a + k)"
proof -
  have k: "k < length c \<and> c ! k = Label l" using assms(1)
  proof (induction c arbitrary: k)
    case (Cons x c)
    then show ?case by (auto split: if_splits)
  qed simp
  then have "(a @ c @ b) ! (length a + k) = Label l" "length a + k < length (a @ c @ b)" by (simp_all add: nth_append)
  then show ?thesis using find_label_at [OF assms(2)] by blast
qed

lemma step_inside:
  assumes "step c (i, m) = Some (j, m')" "distinct (labels (a @ c @ b))"
  shows "step (a @ c @ b) (length a + i, m) = Some (length a + j, m')"
proof -
  have i: "i < length c" using assms(1) by (auto simp: step_def split: if_splits)
  note lab = find_label_inside [OF _ assms(2)]
  show ?thesis
    using assms(1) i lab
    by (cases "c ! i") (auto simp: step_def nth_append goto_def bind_eq_Some_conv simp del: exec_instr.simps split: if_splits)
qed

lemma steps_inside:
  assumes "steps c (i, m) (j, m')" "distinct (labels (a @ c @ b))"
  shows "steps (a @ c @ b) (length a + i, m) (length a + j, m')"
proof -
  have "steps (a @ c @ b) (length a + fst x, snd x) (length a + fst y, snd y)" if "steps c x y" for x y
    using that unfolding steps_def
  proof (induction rule: rtranclp_induct)
    case (step y z)
    have "step (a @ c @ b) (length a + fst y, snd y) = Some (length a + fst z, snd z)"
      using step_inside [OF _ assms(2), of "fst y" "snd y" "fst z" "snd z"] step.hyps(2) by simp
    then show ?case using step.IH by (meson rtranclp.rtrancl_into_rtrancl)
  qed simp
  from this [OF assms(1)] show ?thesis by simp
qed

section \<open>Parameters\<close>

text \<open>The C memory after the parameters have been stored.\<close>

fun store_params :: "cenv \<Rightarrow> mach \<Rightarrow> nat \<Rightarrow> lvar list \<Rightarrow> memory \<Rightarrow> memory" where
  "store_params E m i [] mm = mm"
| "store_params E m i (v # vs) mm =
     store_params E m (Suc i) vs
       (store mm (nat (sizeof (case vty v of Some t \<Rightarrow> t | None \<Rightarrow> ty_void))) (vaddr E v) (uint (regs m (param_regs ! i))))"

definition param_ok :: "cenv \<Rightarrow> lvar \<Rightarrow> bool" where
  "param_ok E v \<longleftrightarrow>
     vis_local v \<and> (case vty v of None \<Rightarrow> False | Some t \<Rightarrow> scalar t \<and> can_access E (vaddr E v) (nat (sizeof t)))"

lemma param_bytes_scalar: "scalar t \<Longrightarrow> param_bytes (sizeof t) = nat (sizeof t) \<and> nat (sizeof t) \<in> {1, 2, 4, 8}"
  by (auto simp: scalar_def param_bytes_def)

lemma save_params_right:
  assumes "list_all (param_ok E) vs" "i + length vs \<le> 6" "Rel E sl m mm"
  obtains c m' where "save_params i k vs = Some c" "exec_seq c m = Some m'" "regs m' = regs m" "labels c = []" "clean {} c"
    "keeps E sl {} m m'" "Rel E sl m' (store_params E m i vs mm)"
proof -
  have "\<exists>c m'. save_params i k vs = Some c \<and> exec_seq c m = Some m' \<and> regs m' = regs m \<and> labels c = [] \<and> clean {} c \<and>
      keeps E sl {} m m' \<and> Rel E sl m' (store_params E m0 i vs mm)"
    if "regs m0 = regs m" for m0
    using assms that
  proof (induction vs arbitrary: i m mm)
    case Nil
    then show ?case by simp
  next
    case (Cons v vs)
    obtain t where t: "vis_local v" "vty v = Some t" "scalar t" "can_access E (vaddr E v) (nat (sizeof t))"
      using Cons.prems(1) by (auto simp: param_ok_def split: option.splits)
    note b = param_bytes_scalar [OF t(3)]
    have va: "vaddr E v = regs m RBP + word_of_int (- voffset v)" using Cons.prems(3) t(1) by (simp add: Rel_def)
    let ?n = "nat (sizeof t)" and ?r = "param_regs ! i"
    let ?x = "Mov S_none (Reg (param_bytes (sizeof t)) ?r) (Mem (- voffset v) RBP)"
    let ?m = "m\<lparr>mem := store (mem m) ?n (vaddr E v) (getr m ?n ?r)\<rparr>"
    have x: "exec_instr ?x m = Some ?m" using b va by (simp add: Let_def rd_def wr_def)
    have st: "store mm' ?n a (getr m ?n ?r) = store mm' ?n a (uint (regs m0 ?r))" for mm' a
      by (simp add: getr_def store_low Cons.prems(4))
    have R: "Rel E sl ?m (store mm ?n (vaddr E v) (uint (regs m0 ?r)))"
      using Cons.prems(3) store_agree [of "{a. visible E a}" "mem m" mm ?n "vaddr E v" "getr m ?n ?r"]
      unfolding st [symmetric] by (auto simp: Rel_def slot_addr_def)
    have K: "keeps E sl {} m ?m"
      using can_access_area [OF t(4)] by (auto simp: keeps_def intro: store_other)
    obtain c m' where c: "save_params (Suc i) k vs = Some c" "exec_seq c ?m = Some m'" "regs m' = regs ?m" "labels c = []" "clean {} c"
      "keeps E sl {} ?m m'" "Rel E sl m' (store_params E m0 (Suc i) vs (store mm ?n (vaddr E v) (uint (regs m0 ?r))))"
    proof -
      have "list_all (param_ok E) vs" "Suc i + length vs \<le> 6" "regs m0 = regs ?m" using Cons.prems(1,2,4) by simp_all
      then show thesis using Cons.IH [OF _ _ R] that by blast
    qed
    have "\<not> is_flonum t" "tkind t \<noteq> TY_STRUCT" "tkind t \<noteq> TY_UNION" using scalar_facts(1,6) [OF t(3)] by (auto simp: is_copied_def)
    moreover have "i < length param_regs" using Cons.prems(2) by (simp add: param_regs_def)
    ultimately have "save_params i k (v # vs) = Some (?x # c)" using c(1) t(2) by simp
    moreover have "exec_seq (?x # c) m = Some m'" using x c(2) by (simp del: exec_instr.simps)
    ultimately show ?case
      using c(3-7) keeps_trans0 [OF K c(6)] t(2) by (intro exI [of _ "?x # c"] exI [of _ m']) simp
  qed
  then show thesis using that by blast
qed

end
