(* ===== verification/GenFuncOk.thy ===== *)
theory GenFuncOk
  imports GenFunc
begin

text \<open>
  A generated function, called with its arguments in registers, runs to its \<open>ret\<close>: it leaves the C memory as the
  semantics of its body says, returns the value, and gives the caller its stack and frame pointers and its
  callee-saved registers back, up to one byte.
\<close>

section \<open>A function does what its body means\<close>

text \<open>The bytes of the frame the program must not see: what the prologue pushes and the return address.\<close>

definition frame_private :: "cenv \<Rightarrow> 64 word \<Rightarrow> bool" where
  "frame_private E sp \<longleftrightarrow> (\<forall>x \<in> below sp 0 48. \<not> visible E x)"

text \<open>The machine at the entry of a function, and the C memory it has then.\<close>

definition enters :: "cenv \<Rightarrow> mach \<Rightarrow> memory \<Rightarrow> bool" where
  "enters E m mm \<longleftrightarrow>
     (\<forall>a. visible E a \<longrightarrow> mem m a = mm a) \<and>
     (\<forall>v. vaddr E v = (if vis_local v then regs m RSP - 8 + word_of_int (- voffset v) else syms m (var_label v))) \<and>
     frame_private E (regs m RSP)"

lemma slot_below: "sp - 8 + word_of_int (- 8) \<in> below sp 8 16"
  unfolding below_def by (rule image_eqI [of _ _ 16]) simp_all

lemma callee_saved_facts: "distinct (callee_saved g)" "length (callee_saved g) \<le> 5" "set (callee_saved g) \<subseteq> {RBX, R12, R13, R14, R15}"
  "RSP \<notin> set (callee_saved g)" "RBP \<notin> set (callee_saved g)" "RAX \<notin> set (callee_saved g)"
proof -
  have "length (callee_saved g) \<le> length [0..<5 :: nat]" unfolding callee_saved_def by (simp only: length_map length_filter_le)
  then show "length (callee_saved g) \<le> 5" by simp
  have "inj_on (\<lambda>j. phys (j + 2)) {..<5}" by (intro inj_onI) simp
  then show "distinct (callee_saved g)"
    unfolding callee_saved_def by (subst distinct_map) (auto intro: inj_on_subset)
  have "phys (j + 2) \<in> {RBX, R12, R13, R14, R15}" if "j < 5" for j
  proof -
    have "j = 0 \<or> j = 1 \<or> j = 2 \<or> j = 3 \<or> j = 4" using that by auto
    then show ?thesis by (auto simp: phys_def alloc_regs_def)
  qed
  then show s: "set (callee_saved g) \<subseteq> {RBX, R12, R13, R14, R15}" by (auto simp: callee_saved_def)
  show "RSP \<notin> set (callee_saved g)" "RBP \<notin> set (callee_saved g)" "RAX \<notin> set (callee_saved g)" using s by auto
qed

text \<open>A callee-saved register that is not pushed is never written.\<close>

lemma not_saved:
  assumes "q \<in> {RBX, R12, R13, R14, R15}" "q \<notin> set (callee_saved g)" "ever_used g \<subseteq> {..<8}"
  shows "q \<notin> may_write (ever_used g)"
proof
  assume "q \<in> may_write (ever_used g)"
  then obtain r where r: "r \<in> ever_used g" "q = phys r" using assms(1) by (auto simp: may_write_def)
  then have "r < 8" using assms(3) by auto
  then have b: "2 \<le> r \<and> r < 7" using r(2) assms(1) by (auto simp: less8 phys_def alloc_regs_def)
  have j: "r = r - 2 + 2" "r - 2 < 5" using b by linarith+
  have "phys (r - 2 + 2) \<in> set (callee_saved g)"
    unfolding callee_saved_def set_map set_filter using r(1) j by (intro image_eqI [OF refl]) (simp del: add_2_eq_Suc')
  then have "phys r \<in> set (callee_saved g)" using j(1) by simp
  then show False using assms(2) r(2) by simp
qed

lemma alu_rsp:
  assumes "imm_fits 8 v" "oper = A_sub \<and> w = regs m RSP - word_of_int v \<or> oper = A_add \<and> w = regs m RSP + word_of_int v"
  obtains m' where "exec_instr (Alu oper S_q (Imm v) (Reg 8 RSP)) m = Some m'" "regs m' = (regs m)(RSP := w)" "mem m' = mem m" "syms m' = syms m"
proof -
  have z: "word_of_int (low 8 x) = (word_of_int x :: 64 word)" for x by (simp add: low_def word_of_int_eq_iff)
  show thesis
    using assms that by (auto simp: exec_alu_def rd_def wr_def putr_def getr_def z)
qed

lemma mov_rbp: "exec_instr (Mov S_q (Reg 8 RSP) (Reg 8 RBP)) m = Some (putr 8 RBP (getr m 8 RSP) m)"
  by (simp add: rd_def wr_def)

subsection \<open>The prologue\<close>

text \<open>What holds when the body starts: the saved registers in their places, everything else as at entry.\<close>

definition framed :: "cfunc \<Rightarrow> gst \<Rightarrow> mach \<Rightarrow> mach \<Rightarrow> bool" where
  "framed f g m m1 \<longleftrightarrow>
     (let sp = regs m RSP; qs = callee_saved g
      in regs m1 RBP = sp - 8 \<and> regs m1 RSP = sp - word_of_nat (8 + 8 * length qs) - word_of_int (sub_amount f g) \<and>
         (\<forall>q. q \<noteq> RSP \<longrightarrow> q \<noteq> RBP \<longrightarrow> regs m1 q = regs m q) \<and> syms m1 = syms m \<and>
         (\<forall>x. x \<notin> below sp 0 48 \<longrightarrow> mem m1 x = mem m x) \<and>
         saved (mem m1) sp 0 (regs m RBP # map (regs m) qs))"

lemma prologue_runs:
  assumes "imm_fits 8 (sub_amount f g)"
  obtains m1 where "exec_seq (tl (prologue f g)) m = Some m1" "framed f g m m1"
proof -
  let ?sp = "regs m RSP" and ?qs = "callee_saved g"
  note cs = callee_saved_facts [of g]
  have d0: "regs m RSP = ?sp - word_of_nat 0" by simp
  have nr: "RBP \<noteq> RSP" by simp
  note p = exec_push [OF nr d0]
  let ?m1 = "putr 8 RSP (uint (regs m RSP - 8)) (m\<lparr>mem := store (mem m) 8 (regs m RSP - 8) (getr m 8 RBP)\<rparr>)"
  let ?m2 = "putr 8 RBP (getr ?m1 8 RSP) ?m1"
  have r2: "regs ?m2 RSP = ?sp - word_of_nat 8" "regs ?m2 RBP = ?sp - 8" "mem ?m2 = mem ?m1" "syms ?m2 = syms m"
    "\<And>q. q \<noteq> RSP \<Longrightarrow> q \<noteq> RBP \<Longrightarrow> regs ?m2 q = regs m q"
    using p(2-4) by (simp_all add: putr_def getr_def)
  obtain m3 where m3: "exec_seq (map (Push S_none) ?qs) ?m2 = Some m3" "regs m3 RSP = ?sp - word_of_nat (8 + 8 * length ?qs)"
    "\<And>q. q \<noteq> RSP \<Longrightarrow> regs m3 q = regs ?m2 q" "syms m3 = syms ?m2"
    "\<And>x. x \<notin> below ?sp 8 (8 + 8 * length ?qs) \<Longrightarrow> mem m3 x = mem ?m2 x" "saved (mem m3) ?sp 8 (map (regs ?m2) ?qs)"
    by (rule exec_pushes [OF r2(1) cs(4), of S_none]) (use cs(2) in auto)
  obtain m4 where m4: "exec_instr (Alu A_sub S_q (Imm (sub_amount f g)) (Reg 8 RSP)) m3 = Some m4"
    "regs m4 = (regs m3)(RSP := ?sp - word_of_nat (8 + 8 * length ?qs) - word_of_int (sub_amount f g))" "mem m4 = mem m3" "syms m4 = syms m3"
    by (rule alu_rsp [OF assms, of A_sub "?sp - word_of_nat (8 + 8 * length ?qs) - word_of_int (sub_amount f g)" m3])
      (use m3(2) in auto)
  have ex: "exec_seq (tl (prologue f g)) m = Some m4"
    using p(1) mov_rbp [of ?m1] m3(1) m4(1) by (simp add: prologue_def exec_seq_append del: exec_instr.simps)
  have dj: "below ?sp 0 8 \<inter> below ?sp 8 (8 + 8 * length ?qs) = {}"
    using cs(2) by (intro below_disjoint) auto
  have "load (mem m4) 8 (?sp - word_of_nat (0 + 8)) = uint (regs m RBP)"
  proof -
    have "load (mem m4) 8 (?sp - word_of_nat (0 + 8)) = load (mem ?m1) 8 (?sp - word_of_nat (0 + 8))"
      using m3(5) m4(3) r2(3) dj area_below [of 8 ?sp 0] by (intro load_cong) auto
    then show ?thesis using p(6) by simp
  qed
  moreover have mp: "map (regs ?m2) ?qs = map (regs m) ?qs"
    using cs(4,5) r2(5) by (intro map_cong refl) metis
  have "saved (mem m4) ?sp (0 + 8) (map (regs m) ?qs)" using m3(6) m4(3) by (simp only: mp add_0)
  moreover have "mem m4 x = mem m x" if "x \<notin> below ?sp 0 48" for x
  proof -
    have "x \<notin> below ?sp 0 (0 + 8)" "x \<notin> below ?sp 8 (8 + 8 * length ?qs)"
      using that below_mono [of 0 0 "0 + 8" 48 ?sp] below_mono [of 0 8 "8 + 8 * length ?qs" 48 ?sp] cs(2) by auto
    then show ?thesis using p(5) m3(5) m4(3) r2(3) by metis
  qed
  ultimately have "framed f g m m4"
    unfolding framed_def Let_def using m4 m3(3,4) r2 by (auto simp del: of_nat_add of_nat_mult)
  with ex show thesis by (rule that)
qed


subsection \<open>The epilogue\<close>

text \<open>
  The stack and frame pointers are those of the caller, and so are the callee-saved registers, but for the low byte of the
  first one pushed, whose place in the frame is the slot of the logical operators.
\<close>

definition restored :: "gst \<Rightarrow> mach \<Rightarrow> mach \<Rightarrow> bool" where
  "restored g m m' \<longleftrightarrow>
     regs m' RSP = regs m RSP \<and> regs m' RBP = regs m RBP \<and>
     (\<forall>q \<in> {RBX, R12, R13, R14, R15}.
        regs m' q = regs m q \<or>
        (callee_saved g \<noteq> [] \<and> q = hd (callee_saved g) \<and> uint (regs m' q) div 256 = uint (regs m q) div 256))"

lemma epilogue_runs:
  assumes imm: "imm_fits 8 (sub_amount f g)" and fr: "framed f g m m1"
    and b: "regs m3 RSP = regs m1 RSP" "\<And>x. x \<in> below (regs m RSP) 0 48 \<Longrightarrow> x \<noteq> regs m RSP - 16 \<Longrightarrow> mem m3 x = mem m1 x"
      "\<And>q. q \<in> {RBX, R12, R13, R14, R15} - set (callee_saved g) \<Longrightarrow> regs m3 q = regs m q"
  obtains m4 where "exec_seq (butlast (tl (epilogue f g))) m3 = Some m4" "restored g m m4" "mem m4 = mem m3" "regs m4 RAX = regs m3 RAX"
proof -
  let ?sp = "regs m RSP" and ?qs = "callee_saved g"
  let ?rs = "RBP # ?qs"
  note cs = callee_saved_facts [of g]
  note fr = fr [unfolded framed_def Let_def]
  have rs: "regs m3 RSP = ?sp - word_of_nat (8 + 8 * length ?qs) - word_of_int (sub_amount f g)" using fr b(1) by simp
  obtain m4 where m4: "exec_instr (Alu A_add S_q (Imm (sub_amount f g)) (Reg 8 RSP)) m3 = Some m4"
    "regs m4 = (regs m3)(RSP := ?sp - word_of_nat (0 + 8 * length ?rs))" "mem m4 = mem m3"
    by (rule alu_rsp [OF imm, of A_add "?sp - word_of_nat (0 + 8 * length ?rs)" m3]) (use rs in auto)
  have p4: "regs m4 RSP = ?sp - word_of_nat (0 + 8 * length ?rs)" using m4(2) by simp
  have n4: "RSP \<notin> set ?rs" "distinct ?rs" using cs(1,4,5) by auto
  obtain m5 where m5: "exec_seq (map (Pop S_none) (rev ?rs)) m4 = Some m5" "regs m5 RSP = ?sp - word_of_nat 0" "mem m5 = mem m4"
    "\<And>i. i < length ?rs \<Longrightarrow> regs m5 (?rs ! i) = word_of_int (load (mem m4) 8 (?sp - word_of_nat (0 + 8 * Suc i)))"
    "\<And>q. q \<noteq> RSP \<Longrightarrow> q \<notin> set ?rs \<Longrightarrow> regs m5 q = regs m4 q"
    by (rule exec_pops [OF p4 n4, of S_none]) blast
  have sv: "saved (mem m1) ?sp 0 (map (regs m) ?rs)" using fr by simp
  have old: "load (mem m1) 8 (?sp - word_of_nat (0 + 8 * Suc i)) = uint (regs m (?rs ! i))" if "i < length ?rs" for i
    using saved_nth [OF sv, of i] that nth_map [of i ?rs "regs m"] by simp
  have sl: "?sp - 16 = ?sp - word_of_nat (8 + 8)" by simp
  have place: "area (?sp - word_of_nat (0 + 8 * Suc i)) 8 = below ?sp (8 * i) (8 * i + 8)" for i
    using area_below [of 8 ?sp "8 * i"] by (simp add: add.commute)
  have inside: "below ?sp (8 * i) (8 * i + 8) \<subseteq> below ?sp 0 48" if "i < length ?rs" for i
    using that cs(2) by (intro below_mono) auto
  have exact: "regs m5 (?rs ! i) = regs m (?rs ! i)" if i: "i < length ?rs" "i \<noteq> 1" for i
  proof -
    have "?sp - 16 \<notin> below ?sp (8 * i) (8 * i + 8)"
    proof -
      have "?sp - 16 \<in> below ?sp 15 16" unfolding below_def by (rule image_eqI [of _ _ 16]) simp_all
      moreover have "below ?sp (8 * i) (8 * i + 8) \<inter> below ?sp 15 16 = {}"
      proof (cases "i = 0")
        case True
        then show ?thesis using below_disjoint [of 8 15 16 ?sp 0] by simp
      next
        case False
        then have "16 \<le> 8 * i" "8 * i + 8 < 2 ^ 64" using i cs(2) by auto
        then show ?thesis using below_disjoint [of 16 "8 * i" "8 * i + 8" ?sp 15] by blast
      qed
      ultimately show ?thesis by blast
    qed
    then have out: "?sp - 16 \<notin> area (?sp - word_of_nat (0 + 8 * Suc i)) 8" by (simp only: place not_False_eq_True)
    have "load (mem m4) 8 (?sp - word_of_nat (0 + 8 * Suc i)) = load (mem m1) 8 (?sp - word_of_nat (0 + 8 * Suc i))"
    proof (rule load_cong)
      fix x assume x: "x \<in> area (?sp - word_of_nat (0 + 8 * Suc i)) 8"
      have "x \<noteq> ?sp - 16" using x out by (cases "x = ?sp - 16") simp_all
      moreover have "x \<in> below ?sp 0 48" by (rule subsetD [OF inside [OF i(1)]]) (use x in \<open>simp only: place\<close>)
      ultimately show "mem m4 x = mem m1 x" using b(2) m4(3) by simp
    qed
    then show ?thesis using m5(4) [OF i(1)] old [OF i(1)] by simp
  qed
  have first: "uint (regs m5 (hd ?qs)) div 256 = uint (regs m (hd ?qs)) div 256" if q: "?qs \<noteq> []"
  proof -
    have l: "1 < length ?rs" "?rs ! 1 = hd ?qs" using q by (simp_all add: hd_conv_nth)
    let ?a = "?sp - word_of_nat (0 + 8 * Suc 1)"
    have a: "?a = ?sp - 16" by simp
    have "load (mem m4) 7 (?a + 1) = load (mem m1) 7 (?a + 1)"
    proof (rule load_cong)
      fix x assume x: "x \<in> area (?a + 1) 7"
      then have "x \<noteq> ?sp - 16" using not_in_area [of 7 ?a] a by auto
      moreover have "x \<in> below ?sp 0 48" using x place [of 1] inside [OF l(1)] area_Suc [of ?a 7] by auto
      ultimately show "mem m4 x = mem m1 x" using b(2) m4(3) by simp
    qed
    moreover have split: "load mm 8 ?a div 256 = load mm 7 (?a + 1)" for mm
    proof -
      have "load mm 8 ?a = uint (mm ?a) + 256 * load mm 7 (?a + 1)" using load.simps(2) [of mm 7 ?a] by simp
      moreover have "0 \<le> uint (mm ?a) \<and> uint (mm ?a) < 256" using uint_lt2p [of "mm ?a"] by simp
      ultimately show ?thesis by simp
    qed
    ultimately have "load (mem m4) 8 ?a div 256 = load (mem m1) 8 ?a div 256" by simp
    moreover have "uint (regs m5 (hd ?qs)) = load (mem m4) 8 ?a" using m5(4) [OF l(1)] l(2) by simp
    ultimately show ?thesis using old [OF l(1)] l(2) by simp
  qed
  have "restored g m m5"
    unfolding restored_def
  proof (intro conjI ballI)
    show "regs m5 RSP = regs m RSP" using m5(2) by simp
    show "regs m5 RBP = regs m RBP" using exact [of 0] by simp
    fix q assume q: "q \<in> {RBX, R12, R13, R14, R15}"
    show "regs m5 q = regs m q \<or> (?qs \<noteq> [] \<and> q = hd ?qs \<and> uint (regs m5 q) div 256 = uint (regs m q) div 256)"
    proof (cases "q \<in> set ?qs")
      case True
      then obtain i where i: "i < length ?qs" "q = ?qs ! i" by (auto simp: in_set_conv_nth)
      show ?thesis
      proof (cases i)
        case 0
        then have "?qs \<noteq> []" "q = hd ?qs" using i by (auto simp: hd_conv_nth)
        then show ?thesis using first by simp
      next
        case (Suc j)
        then show ?thesis using exact [of "Suc i"] i by simp
      qed
    next
      case False
      then have "regs m5 q = regs m4 q" "regs m4 q = regs m3 q" using m5(5) q m4(2) by auto
      then show ?thesis using b(3) q False by auto
    qed
  qed
  moreover have "exec_seq (butlast (tl (epilogue f g))) m3 = Some m5"
  proof -
    have "butlast (tl (epilogue f g)) = Alu A_add S_q (Imm (sub_amount f g)) (Reg 8 RSP) # map (Pop S_none) (rev ?qs) @ [Pop S_q RBP]"
      by (simp add: epilogue_def butlast_append)
    moreover have "exec_seq [Pop S_q RBP] = exec_seq [Pop S_none RBP]" by (simp add: fun_eq_iff)
    ultimately show ?thesis using m4(1) m5(1) by (simp add: exec_seq_append del: exec_instr.simps)
  qed
  moreover have "regs m5 RAX = regs m3 RAX" using m5(5) [of RAX] cs(6) m4(2) by simp
  ultimately show thesis using that m5(3) m4(3) by simp
qed


subsection \<open>The whole function\<close>

lemma labels_plain: "labels (map (Push s) qs) = []" "labels (map (Pop s) qs) = []"
  by (induction qs) simp_all

lemma function_labels:
  "labels (prologue f g) = [L_func (fn_name (fn_env f))]" "labels (epilogue f g) = [L_return (fn_name (fn_env f))]"
  "prologue f g = Label (L_func (fn_name (fn_env f))) # tl (prologue f g)"
  "epilogue f g = Label (L_return (fn_name (fn_env f))) # butlast (tl (epilogue f g)) @ [Ret]"
  "labels (butlast (tl (epilogue f g))) = []"
  by (simp_all add: prologue_def epilogue_def labels_plain butlast_append)

lemma body_generated:
  assumes "stmts_ok F 0 ns"
  obtains c g' where "gen_list F ns (fresh_gst k) = Some ((), c, g')" "gext {} (fresh_gst k) g'" "labels_between k (label_count g') c"
    "clean (ever_used g') c" "ever_used g' \<subseteq> {..<8}"
proof -
  have id: "idle 0 (fresh_gst k)" by (simp add: idle_def ready_def fresh_gst_def init_spill_slots_def alloc_spill_slot_def)
  have "stmt_total F 0 (Some n)" if "n \<in> set ns" for n
    using assms that by (intro stmts_generated) (simp add: stmts_ok_set)
  then obtain c g' where c: "gen_list F ns (fresh_gst k) = Some ((), c, g')" "gext {} (fresh_gst k) g'"
    "labels_between (label_count (fresh_gst k)) (label_count g') c"
    using stmts_total [OF _ id] by blast
  have "recorded (fresh_gst k)" "label_count (fresh_gst k) = k"
    by (simp_all add: recorded_def fresh_gst_def init_spill_slots_def alloc_spill_slot_def)
  moreover from this have "recorded g' \<and> clean (ever_used g') c"
    using careful_list [of F ns] c(1) unfolding careful_def by blast
  ultimately show thesis using that [of c g'] c by (simp add: recorded_def)
qed

lemma sub_amount_fits:
  assumes "0 \<le> fn_stack_size f" "fn_stack_size f < 2 ^ 31 - 128" "next_spill_slot g = 24"
  shows "imm_fits 8 (sub_amount f g)"
proof -
  have "0 \<le> sub_amount f g \<and> sub_amount f g \<le> frame_need f g + 40"
    using assms by (auto simp: sub_amount_def frame_need_def Let_def)
  then show ?thesis using assms by (auto simp: imm_fits_def frame_need_def)
qed

lemma body_ends:
  assumes "execs E ns mm out mm'" "stmts_ok F 0 ns" "gen_list F ns (fresh_gst k) = Some ((), c, g')"
    "gext {} (fresh_gst k) g'" "labels_between k (label_count g') c" "Rel E 8 m mm"
  obtains m' where "steps (c @ [Label (L_return (fn_name F))]) (0, m) (Suc (length c), m')" "Rel E 8 m' mm'" "keeps E 8 {} m m'"
    "\<And>v. out = Returns v \<Longrightarrow> return_value F v m'" "out = Normal \<or> (\<exists>v. out = Returns v)"
proof -
  let ?P = "c @ [Label (L_return (fn_name F))]"
  have id: "idle 0 (fresh_gst k)" and sl: "spill_logand (fresh_gst k) = 8" and st: "break_stack (fresh_gst k) = []" "continue_stack (fresh_gst k) = []"
    by (simp_all add: idle_def ready_def fresh_gst_def init_spill_slots_def alloc_spill_slot_def)
  have at: "code_at ?P 0 c" "code_at ?P (length c) [Label (L_return (fn_name F))]"
    using code_at_self [of ?P] by simp_all
  have di: "distinct (labels ?P)" using assms(5) by (auto simp: labels_between_def label_num_def)
  have tg: "jump_targets ?P F (fresh_gst k)" using at(2) st by (auto simp: jump_targets_def)
  have "ends ?P F E (fresh_gst k) 0 (0 + length c) m out mm'"
    using statements_run(2) [OF assms(1), unfolded execs_right_def] assms(2,3,6) id at(1) di tg sl by metis
  then obtain j m' where j: "steps ?P (0, m) (j, m')" "arrives ?P F (fresh_gst k) (length c) out j" "Rel E 8 m' mm'" "keeps E 8 {} m m'"
    "\<forall>v. out = Returns v \<longrightarrow> return_value F v m'"
    unfolding ends_def sl by auto
  have "j = length c"
    using j(2) st label_unique [OF _ at(2) di, of j "[]"] by (cases out) (auto simp: arrives_def)
  then have "steps ?P (0, m) (Suc (length c), m')" using steps_trans [OF j(1)] label_skip [OF at(2)] by simp
  moreover have "out = Normal \<or> (\<exists>v. out = Returns v)" using j(2) st by (cases out) (auto simp: arrives_def)
  ultimately show thesis using that j(3-5) by blast
qed

lemma function_code:
  assumes ok: "stmts_ok (fn_env f) 0 (fn_body f)" and pars: "list_all (param_ok E) (fn_params f)" "length (fn_params f) \<le> 6"
    and size: "0 \<le> fn_stack_size f" "fn_stack_size f < 2 ^ 31 - 128"
    and entry: "enters E m mm" and ex: "execs E (fn_body f) (store_params E m 0 (fn_params f) mm) out mm'"
  shows "\<exists>P g m'. gen_function f k = Some (P, g) \<and> last P = Ret \<and> distinct (labels P) \<and>
    steps P (0, m) (length P - 1, m') \<and> restored g m m' \<and> (\<forall>a. visible E a \<longrightarrow> mem m' a = mm' a) \<and>
    (\<forall>v. out = Returns v \<longrightarrow> return_value (fn_env f) v m')"
proof -
  let ?F = "fn_env f" and ?sp = "regs m RSP"
  obtain c g where c: "gen_list ?F (fn_body f) (fresh_gst k) = Some ((), c, g)" "gext {} (fresh_gst k) g"
    "labels_between k (label_count g) c" "clean (ever_used g) c" "ever_used g \<subseteq> {..<8}" by (rule body_generated [OF ok])
  have "next_spill_slot g = 24" using c(2) by (simp add: gext_def fresh_gst_def init_spill_slots_def alloc_spill_slot_def)
  then have imm: "imm_fits 8 (sub_amount f g)" using size by (intro sub_amount_fits)
  obtain m1 where m1: "exec_seq (tl (prologue f g)) m = Some m1" "framed f g m m1" by (rule prologue_runs [OF imm])
  note fr = m1(2) [unfolded framed_def Let_def]
  have en: "\<And>a. visible E a \<Longrightarrow> mem m a = mm a \<and> a \<notin> below ?sp 0 48" using entry by (auto simp: enters_def frame_private_def)
  have sa: "slot_addr 8 m1 = ?sp - 16" using fr by (simp add: slot_addr_def)
  have slot: "?sp - 16 \<in> below ?sp 0 48" unfolding below_def by (rule image_eqI [of _ _ 16]) simp_all
  have R1: "Rel E 8 m1 mm"
    unfolding Rel_def sa using fr en slot entry by (auto simp: enters_def)
  obtain c0 m2 where m2: "save_params 0 0 (fn_params f) = Some c0" "exec_seq c0 m1 = Some m2" "regs m2 = regs m1" "labels c0 = []" "clean {} c0"
    "keeps E 8 {} m1 m2" "Rel E 8 m2 (store_params E m1 0 (fn_params f) mm)"
    by (rule save_params_right [OF pars(1) _ R1, of 0 0]) (use pars(2) in auto)
  have same: "store_params E m1 i vs mm0 = store_params E m i vs mm0" if "i + length vs \<le> 6" for i vs mm0
    using that
  proof (induction vs arbitrary: i mm0)
    case (Cons v vs)
    have "i < 6" using Cons.prems by simp
    then have "param_regs ! i \<noteq> RSP \<and> param_regs ! i \<noteq> RBP"
      by (auto simp: param_regs_def less_Suc_eq numeral_eq_Suc nth_Cons')
    then have "regs m1 (param_regs ! i) = regs m (param_regs ! i)" using fr by blast
    then show ?case using Cons by simp
  qed simp
  have R2: "Rel E 8 m2 (store_params E m 0 (fn_params f) mm)" using m2(7) same pars(2) by simp
  obtain m3 where m3: "steps (c @ [Label (L_return (fn_name ?F))]) (0, m2) (Suc (length c), m3)" "Rel E 8 m3 mm'" "keeps E 8 {} m2 m3"
    "\<And>v. out = Returns v \<Longrightarrow> return_value ?F v m3" by (rule body_ends [OF ex ok c(1-3) R2]) blast
  let ?P = "prologue f g @ c0 @ c @ epilogue f g"
  have split: "?P = (prologue f g @ c0) @ (c @ [Label (L_return (fn_name ?F))]) @ (butlast (tl (epilogue f g)) @ [Ret])"
    using function_labels(4) [of f g] by simp
  have di: "distinct (labels ?P)"
    using c(3) function_labels(1,2) [of f g] m2(4) by (auto simp: labels_between_def label_num_def)
  have at: "code_at ?P 0 (prologue f g)" "code_at ?P (length (prologue f g)) c0"
    "code_at ?P (length (prologue f g) + length c0 + Suc (length c)) (butlast (tl (epilogue f g)))"
    using code_at_self [of ?P] unfolding split by (simp_all add: code_at_Cons add.assoc)
  have s1: "steps ?P (0, m) (length (prologue f g), m1)"
  proof -
    have l: "code_at ?P 0 (Label (L_func (fn_name ?F)) # tl (prologue f g))" using at(1) function_labels(3) [of f g] by simp
    then have t: "code_at ?P (Suc 0) (tl (prologue f g))" by (simp only: code_at_Cons)
    have "length (prologue f g) = Suc 0 + length (tl (prologue f g))" using function_labels(3) [of f g] by (metis length_Cons plus_1_eq_Suc One_nat_def)
    then show ?thesis using steps_trans [OF label_skip [OF l] steps_seq [OF m1(1) t]] by simp
  qed
  have s2: "steps ?P (length (prologue f g), m1) (length (prologue f g) + length c0, m2)" by (rule steps_seq [OF m2(2) at(2)])
  have s3: "steps ?P (length (prologue f g) + length c0, m2) (length (prologue f g) + length c0 + Suc (length c), m3)"
    using steps_inside [OF m3(1) di [unfolded split]] unfolding split by simp
  have k3: "regs m3 RSP = regs m1 RSP" "\<And>x. x \<in> below ?sp 0 48 \<Longrightarrow> x \<noteq> ?sp - 16 \<Longrightarrow> mem m3 x = mem m1 x"
    using keeps_trans0 [OF m2(6) m3(3)] en sa by (auto simp: keeps_def)
  have u3: "regs m3 q = regs m q" if q: "q \<in> {RBX, R12, R13, R14, R15} - set (callee_saved g)" for q
  proof -
    have "q \<notin> may_write (ever_used g)" using not_saved q c(5) by blast
    then have "\<forall>x \<in> set (c @ [Label (L_return (fn_name ?F))]). q \<notin> writes x" using c(4) by auto
    then have "regs m3 q = regs m2 q" using steps_writes [OF m3(1)] by simp
    then show ?thesis using m2(3) fr q by auto
  qed
  obtain m4 where m4: "exec_seq (butlast (tl (epilogue f g))) m3 = Some m4" "restored g m m4" "mem m4 = mem m3" "regs m4 RAX = regs m3 RAX"
    by (rule epilogue_runs [OF imm m1(2) k3 u3])
  have s4: "steps ?P (length (prologue f g) + length c0 + Suc (length c), m3) (length ?P - 1, m4)"
    using steps_seq [OF m4(1) at(3)] unfolding split by (simp add: add.assoc)
  have "steps ?P (0, m) (length ?P - 1, m4)" by (rule steps_trans [OF s1 steps_trans [OF s2 steps_trans [OF s3 s4]]])
  moreover have "gen_function f k = Some (?P, g)" using m2(1) c(1) by (simp add: gen_function_def)
  moreover have "last ?P = Ret" by (simp add: epilogue_def)
  moreover have "\<forall>a. visible E a \<longrightarrow> mem m4 a = mm' a" using m3(2) m4(3) by (simp add: Rel_def)
  moreover have "return_value ?F v m4" if "out = Returns v" for v
    using m3(4) [OF that] m4(4) by (simp add: return_value_def split: option.splits)
  ultimately show ?thesis using m4(2) di by blast
qed

end
