(* ===== verification/PeepholeOk.thy ===== *)
theory PeepholeOk
  imports PeepholeText GenFuncOk
begin

text \<open>
  The peephole pass on the text of instructions: where the patterns that delete lines or fold constants cannot apply
  (\<open>calm\<close>), it only replaces a \<open>mov\<close> by one that takes its value from elsewhere, and the program runs as before.
\<close>

section \<open>Which instruction is replaced\<close>

text \<open>A second \<open>mov\<close> that takes its value from where the first took or put it.\<close>

inductive forwards :: "instr \<Rightarrow> instr \<Rightarrow> instr \<Rightarrow> bool" where
  copy: "(n, a) \<noteq> (k, b) \<Longrightarrow> is_reg (reg_text n a) \<Longrightarrow> is_reg (reg_text k b) \<Longrightarrow> n \<in> {1, 2, 4, 8} \<Longrightarrow> l \<in> {1, 2, 4, 8} \<Longrightarrow>
    forwards (Mov S_none (Reg n a) (Reg k b)) (Mov S_none (Reg k b) (Reg l c)) (Mov S_none (Reg n a) (Reg l c))"
| reload4: "d < 0 \<Longrightarrow> s \<in> {S_none, S_l, S_q} \<Longrightarrow> l \<in> {1, 2, 4, 8} \<Longrightarrow>
    forwards (Mov s (Reg 8 a) (Mem d RBP)) (Mov S_l (Mem d RBP) (Reg l c)) (Mov S_none (Reg 4 a) (Reg l c))"
| reload8: "d < 0 \<Longrightarrow> s \<in> {S_none, S_l, S_q} \<Longrightarrow> l \<in> {1, 2, 4, 8} \<Longrightarrow>
    forwards (Mov s (Reg 8 a) (Mem d RBP)) (Mov S_q (Mem d RBP) (Reg l c)) (Mov S_none (Reg 8 a) (Reg l c))"

text \<open>
  Neighbours the other patterns leave alone: no jump to the next line, no operation with a register just loaded with a
  constant, no load of eight bytes from where fewer were just stored.
\<close>

definition calm_pair :: "instr \<Rightarrow> instr \<Rightarrow> bool" where
  "calm_pair i j \<longleftrightarrow>
     (case (i, j) of
        (Jmp l, Label l') \<Rightarrow> label_text l \<noteq> label_text l'
      | (Mov s (Imm v) (Reg n r), Alu oper s' (Reg n' r') b) \<Rightarrow> \<not> same_phys (reg_text n' r') (reg_text n r)
      | (Mov s (Reg n a) (Mem d r), Mov S_q (Mem d' r') b) \<Rightarrow> n = 8 \<or> d \<noteq> d'
      | _ \<Rightarrow> True)"

text \<open>A value loaded and used for an operation is not overwritten at once from another register.\<close>

definition calm_triple :: "instr \<Rightarrow> instr \<Rightarrow> instr \<Rightarrow> bool" where
  "calm_triple i j k \<longleftrightarrow>
     (case (i, k) of
        (Mov s a b, Mov S_none c b') \<Rightarrow>
          \<not> (s \<in> {S_none, S_l, S_q} \<and> \<not> is_reg (opd_text a) \<and> is_reg (opd_text c) \<and> opd_text b' = opd_text b \<and>
             map_option (\<lambda>(_, _, x). opd_text x) (two_form j) = Some (opd_text b))
      | _ \<Rightarrow> True)"

fun calm :: "instr list \<Rightarrow> bool" where
  "calm (i # j # k # c) = (calm_pair i j \<and> calm_triple i j k \<and> calm (j # k # c))"
| "calm [i, j] = calm_pair i j"
| "calm _ = True"

subsection \<open>Registers and operands in text\<close>

lemma mem_head:
  obtains h t where "opd_text (Mem d r) = h # t" "is_digit h \<or> h = CHR ''-'' \<or> h = CHR ''(''"
proof (cases "d = 0")
  case False
  obtain c s where "show_nat (nat d) = c # s" "is_digit c" using show_nat_digits [of "nat d"] by (cases "show_nat (nat d)") auto
  then show thesis using that False by (cases "d < 0") (simp_all add: show_int_def)
qed (use that in simp)

lemma not_reg_head:
  assumes "is_digit h \<or> h = CHR ''-'' \<or> h = CHR ''('' \<or> h = CHR ''$''"
  shows "\<not> is_reg (h # s)" "phys_reg_id (h # s) = None"
proof -
  have "h \<noteq> CHR ''%''" "h \<noteq> CHR ''r''" "h \<noteq> CHR ''e''" "h \<noteq> CHR ''s''" "h \<noteq> CHR ''b''" "h \<noteq> CHR ''a''" "h \<noteq> CHR ''c''" "h \<noteq> CHR ''d''"
    using assms by (auto simp: is_digit_def code_def)
  then show "\<not> is_reg (h # s)" "phys_reg_id (h # s) = None"
    by (simp_all add: is_reg_def phys_reg_id_def strip_percent_def Let_def)
qed

lemma is_reg_opd:
  assumes "plain_opd a" "is_reg (opd_text a)" "\<And>n. a \<noteq> Rip n"
  obtains n r where "a = Reg n r" "n \<in> {1, 2, 4, 8}"
proof (cases a)
  case (Mem d r)
  then show thesis using assms(2) mem_head [of d r] not_reg_head(1) by metis
next
  case (Imm v)
  then show thesis using assms(2) not_reg_head(1) by simp
next
  case (Reg n r)
  then show thesis using assms(1) that by (simp add: plain_opd_def)
qed (use assms in simp)

lemma phys_reg_opd:
  assumes "phys_reg_id (opd_text a) \<noteq> None" "\<And>n. a \<noteq> Rip n"
  obtains n r where "a = Reg n r"
proof (cases a)
  case (Mem d r)
  then show thesis using assms(1) mem_head [of d r] not_reg_head(2) by metis
next
  case (Imm v)
  then show thesis using assms(1) not_reg_head(2) by simp
qed (use assms that in auto)

lemma to32_reg:
  assumes "n \<in> {1, 2, 4, 8}" "to32 (reg_text n a) = Some r"
  shows "n = 8 \<and> r = reg_text 4 a"
proof -
  define P where "P n a = (case to32 (reg_text n a) of None \<Rightarrow> True | Some r \<Rightarrow> n = 8 \<and> r = reg_text 4 a)" for n a
  have "list_all (\<lambda>n. list_all (P n) [RAX, RCX, RDX, RBX, RSP, RBP, RSI, RDI, R8, R9, R10, R11, R12, R13, R14, R15]) [1, 2, 4, 8]"
    unfolding P_def by code_simp
  then have "\<forall>a. P n a" unfolding all_regs using assms(1) by auto
  then have "P n a" by blast
  then show ?thesis using assms(2) by (simp add: P_def)
qed

subsection \<open>What the patterns do\<close>

lemma pattern1_plain:
  assumes "plain_instr i" "plain_instr j" "peep_pattern1 (instr_text i) (instr_text j) = Some l"
  obtains j' where "forwards i j j'" "l = instr_text j'"
proof -
  obtain d1 s1 s2 where p: "peep_mov_reg_reg 80 80 (instr_text i) = Some (d1, s1)" "peep_mov_reg_reg 80 80 (instr_text j) = Some (s1, s2)"
    "d1 \<noteq> s1" "is_reg d1" "is_reg s1" "is_reg s2" "l = mov_line d1 s2"
    using assms(3) by (auto simp: peep_pattern1_def split: option.splits if_splits)
  obtain a b where a: "i = Mov S_none a b" "d1 = opd_text a" "s1 = opd_text b" "plain_opd a" "plain_opd b"
    by (rule mov_reg_reg_found [OF assms(1) p(1)])
  obtain b' c where b: "j = Mov S_none b' c" "s1 = opd_text b'" "s2 = opd_text c" "plain_opd b'" "plain_opd c"
    by (rule mov_reg_reg_found [OF assms(2) p(2)])
  have nr: "a \<noteq> Rip n" "b \<noteq> Rip n" "b' \<noteq> Rip n" "c \<noteq> Rip n" for n using assms(1,2) a(1) b(1) by (auto simp: plain_instr_def)
  obtain n1 r1 where 1: "a = Reg n1 r1" "n1 \<in> {1, 2, 4, 8}" using is_reg_opd [OF a(4) _ nr(1)] p(4) a(2) by metis
  obtain n2 r2 where 2: "b = Reg n2 r2" "n2 \<in> {1, 2, 4, 8}" using is_reg_opd [OF a(5) _ nr(2)] p(5) a(3) by metis
  obtain n3 r3 where 3: "b' = Reg n3 r3" "n3 \<in> {1, 2, 4, 8}" using is_reg_opd [OF b(4) _ nr(3)] p(5) b(2) by metis
  obtain n4 r4 where 4: "c = Reg n4 r4" "n4 \<in> {1, 2, 4, 8}" using is_reg_opd [OF b(5) _ nr(4)] p(6) b(3) by metis
  have "reg_text n2 r2 = reg_text n3 r3" using a(3) b(2) 2(1) 3(1) by simp
  then have "n2 = n3 \<and> r2 = r3" by (rule reg_text_inj [OF 2(2) 3(2)])
  moreover have "(n1, r1) \<noteq> (n2, r2)" using p(3) a(2,3) 1 2 by auto
  ultimately have "forwards i j (Mov S_none (Reg n1 r1) (Reg n4 r4))"
    using a b p 1 2 3 4 by (auto intro!: copy)
  moreover have "l = instr_text (Mov S_none (Reg n1 r1) (Reg n4 r4))" using p(7) a(2) b(3) 1 4 by (simp add: mov_line_def two_def)
  ultimately show thesis by (rule that)
qed

lemma pattern2_plain:
  assumes "plain_instr i" "plain_instr j" "calm_pair i j"
  shows "peep_pattern2 (instr_text i) (instr_text j) = Done None \<or>
    (\<exists>j'. peep_pattern2 (instr_text i) (instr_text j) = Done (Some (instr_text j')) \<and> forwards i j j')"
proof -
  have b: "peep_pattern2b (instr_text i) (instr_text j) = Done None" using mov_rbp_imm_found [OF assms(1)] by (simp add: peep_pattern2b_def)
  obtain r where r: "peep_mov_reg_rbp (instr_text j) = Done r"
    "\<And>p dword off. r = Some (p, dword, off) \<Longrightarrow>
       \<exists>n q. j = Mov (if dword then S_l else S_q) (Mem (- off) RBP) (Reg n q) \<and> 0 < off \<and> n \<in> {1, 2, 4, 8} \<and> p = reg_text n q"
    using mov_reg_rbp_found [OF assms(2)] by blast
  show ?thesis
  proof (cases "peep_mov_rbp_reg 32 (instr_text i)")
    case (Some x)
    then obtain off1 sr where x: "peep_mov_rbp_reg 32 (instr_text i) = Some (off1, sr)" by (cases x) auto
    obtain s a where a: "i = Mov s a (Mem (- off1) RBP)" "0 < off1" "s \<in> {S_none, S_l, S_q}" "sr = opd_text a" "plain_opd a"
      by (rule mov_rbp_reg_found [OF assms(1) x])
    then obtain n q where n: "a = Reg n q" "n \<in> {1, 2, 4, 8}"
      using assms(1) by (cases a) (auto simp: plain_instr_def is_mem_def plain_opd_def)
    show ?thesis
    proof (cases r)
      case None
      then show ?thesis using b r(1) x by (simp add: peep_pattern2_def)
    next
      case (Some y)
      then obtain dr dword off2 where y: "r = Some (dr, dword, off2)" by (cases y) auto
      then obtain l c where l: "j = Mov (if dword then S_l else S_q) (Mem (- off2) RBP) (Reg l c)" "l \<in> {1, 2, 4, 8}" "dr = reg_text l c"
        using r(2) by blast
      show ?thesis
      proof (cases "off1 = off2")
        case False
        then show ?thesis using b r(1) x y by (simp add: peep_pattern2_def)
      next
        case True
        show ?thesis
        proof (cases dword)
          case dw: True
          show ?thesis
          proof (cases "to32 sr")
            case None
            then show ?thesis using b r(1) x y True dw by (simp add: peep_pattern2_def)
          next
            case (Some r32)
            then have 8: "n = 8" "r32 = reg_text 4 q" using to32_reg [OF n(2)] a(4) n(1) by auto
            have "forwards i j (Mov S_none (Reg 4 q) (Reg l c))"
              using a l n 8 True dw by (auto intro!: reload4)
            moreover have "peep_pattern2 (instr_text i) (instr_text j) = Done (Some (instr_text (Mov S_none (Reg 4 q) (Reg l c))))"
              using r(1) x y True dw Some 8 l(3) by (simp add: peep_pattern2_def mov_line_def two_def)
            ultimately show ?thesis by blast
          qed
        next
          case False
          then have 8: "n = 8" using assms(3) a(1) l(1) n(1) True by (simp add: calm_pair_def)
          have "forwards i j (Mov S_none (Reg 8 q) (Reg l c))"
            using a l n 8 True False by (auto intro!: reload8)
          moreover have "peep_pattern2 (instr_text i) (instr_text j) = Done (Some (instr_text (Mov S_none (Reg 8 q) (Reg l c))))"
            using r(1) x y True False 8 l(3) a(4) n(1) by (simp add: peep_pattern2_def mov_line_def two_def)
          ultimately show ?thesis by blast
        qed
      qed
    qed
  qed (use b in \<open>simp add: peep_pattern2_def\<close>)
qed

lemma peep_jmp_plain:
  assumes "plain_instr i" "peep_jmp n (instr_text i) = Some t"
  obtains l where "i = Jmp l" "t = label_text l"
proof (cases "two_form i")
  case (Some x)
  then obtain m a b where t: "two_form i = Some (m, a, b)" by (cases x) auto
  note w = plain_two [OF assms(1) t] mnemonic_word [OF t]
  have "scan_text ''  jmp '' (two m a b) = (if m = ''jmp'' then Some (opd_text a @ '', '' @ opd_text b) else None)"
    using scan_word [of m "''jmp''" "opd_text a @ '', '' @ opd_text b"] w by (simp add: two_def)
  then have "m = ''jmp''" using assms(2) by (simp add: peep_jmp_def instr_text_two [OF t] split: if_splits)
  then show thesis using t
  proof (cases i rule: two_form.cases)
    case (4 k s x y)
    then show ?thesis using t \<open>m = ''jmp''\<close> by (cases k) auto
  next
    case (5 k s x)
    then show ?thesis using t \<open>m = ''jmp''\<close> by (cases k) auto
  qed auto
next
  case None
  have "scan_text ''  jmp '' (label_text l @ '':'') = None" if "plain_label l" for l
  proof -
    have "CHR '' '' \<notin> set (label_text l)" using plain_label_word [OF that] word_chars_space(1) by blast
    then show ?thesis by (cases "label_text l") (auto simp: scan_text_def startswith_def)
  qed
  moreover have "scan_text ''mp '' (cc_text c @ CHR '' '' # x) = None" for c x by (cases c) auto
  ultimately show thesis
    using None assms that by (cases i rule: two_form.cases) (auto simp: peep_jmp_def plain_instr_def bind_eq_Some_conv split: if_splits)
qed

lemma colon_free:
  assumes "plain_instr i" "\<not> (\<exists>l. i = Label l)"
  shows "CHR '':'' \<notin> set (instr_text i)"
proof (cases "two_form i")
  case (Some x)
  then obtain m a b where t: "two_form i = Some (m, a, b)" by (cases x) auto
  note w = plain_two [OF assms(1) t] mnemonic_word [OF t]
  then show ?thesis using word_chars_space(4) by (simp add: instr_text_two [OF t] two_def)
next
  case None
  have "CHR '':'' \<notin> set (label_text l)" if "plain_label l" for l using plain_label_word [OF that] word_chars_space(4) by blast
  moreover have "CHR '':'' \<notin> set (reg_text n r)" if "n \<in> {1, 2, 4, 8}" for n r using reg_text_facts(1) [OF that] word_chars_space(4) by blast
  moreover have "CHR '':'' \<notin> set (cc_text c)" "CHR '':'' \<notin> set (sfx_text x)" for c x by (cases c; simp) (cases x; simp)
  ultimately show ?thesis using None assms by (cases i rule: two_form.cases) (auto simp: plain_instr_def)
qed

lemma pattern3_plain:
  assumes "plain_instr i" "plain_instr j" "calm_pair i j"
  shows "\<not> peep_pattern3 (instr_text i) (instr_text j)"
proof
  assume "peep_pattern3 (instr_text i) (instr_text j)"
  then obtain t u where p: "peep_jmp 80 (instr_text i) = Some t" "peep_label 80 (instr_text j) = Some u" "t = dropWhile (\<lambda>c. c = CHR '' '') u"
    by (auto simp: peep_pattern3_def split: option.splits)
  obtain l where l: "i = Jmp l" "t = label_text l" by (rule peep_jmp_plain [OF assms(1) p(1)])
  show False
  proof (cases "\<exists>l'. j = Label l'")
    case True
    then obtain l' where j: "j = Label l'" by blast
    then have w: "word_chars (label_text l')" using assms(2) plain_label_word by (simp add: plain_instr_def)
    have "split_at CHR '':'' (label_text l' @ '':'') = Some (label_text l', [])" using word_chars_space(4) [OF w] by (simp add: split_at_Some)
    then have "u = label_text l'" using p(2) j by (auto simp: peep_label_def split: if_splits)
    moreover have "dropWhile (\<lambda>c. c = CHR '' '') (label_text l') = label_text l'"
      using word_chars_space(1) [OF w] by (cases "label_text l'") auto
    ultimately show False using p(3) l assms(3) j by (simp add: calm_pair_def)
  next
    case False
    then have c: "CHR '':'' \<notin> set (instr_text j)" using colon_free [OF assms(2)] by simp
    have "split_at CHR '':'' (instr_text j) \<noteq> Some (a, b)" for a b
    proof
      assume "split_at CHR '':'' (instr_text j) = Some (a, b)"
      then have "instr_text j = a @ CHR '':'' # b" by (simp only: split_at_Some)
      then show False using c by (metis in_set_conv_decomp)
    qed
    then have "split_at CHR '':'' (instr_text j) = None" by (cases "split_at CHR '':'' (instr_text j)") auto
    then show False using p(2) by (simp add: peep_label_def)
  qed
qed

text \<open>\<open>strtoll\<close> stops in front of a comma.\<close>

lemma strtol0_split:
  assumes "strtol0 p = (v, q)"
  obtains u where "p = u @ q" "CHR '','' \<notin> set u"
proof -
  define s where "s = dropWhile is_space p"
  define s1 where "s1 = (if deref s = CHR ''-'' \<or> deref s = CHR ''+'' then tl s else s)"
  define hex where "hex \<longleftrightarrow> deref s1 = CHR ''0'' \<and> (deref_at s1 1 = CHR ''x'' \<or> deref_at s1 1 = CHR ''X'') \<and> is_xdigit (deref_at s1 2)"
  define base :: nat where "base = (if hex then 16 else if deref s1 = CHR ''0'' then 8 else 10)"
  define s2 where "s2 = (if hex then drop 2 s1 else s1)"
  define ds where "ds = takeWhile (\<lambda>c. digit_of c < base) s2"
  have c: "\<not> is_space CHR '',''" "digit_of CHR '','' = 36" by code_simp+
  have q: "q = p \<or> q = drop (length ds) s2"
    using assms unfolding strtol0_def Let_def s_def [symmetric] s1_def [symmetric] hex_def [symmetric] base_def [symmetric] s2_def [symmetric] ds_def [symmetric]
    by (auto split: if_splits)
  have "takeWhile is_space p @ s = p" by (simp add: s_def)
  moreover obtain w where w: "s = w @ s1" "CHR '','' \<notin> set w"
  proof (cases s)
    case Nil
    then show thesis using that [of "[]"] by (simp add: s1_def)
  next
    case (Cons x y)
    then show thesis using that [of "[x]"] that [of "[]"] by (cases "x = CHR ''-'' \<or> x = CHR ''+''") (auto simp: s1_def)
  qed
  moreover obtain h where h: "s1 = h @ s2" "CHR '','' \<notin> set h"
  proof (cases hex)
    case True
    then obtain x y where "s1 = CHR ''0'' # x # y" "x = CHR ''x'' \<or> x = CHR ''X''"
      unfolding hex_def by (cases s1; cases "tl s1") (auto simp: NUL_def)
    then show thesis using that [of "[CHR ''0'', x]"] True by (auto simp: s2_def)
  qed (use that [of "[]"] in \<open>simp add: s2_def\<close>)
  moreover have "s2 = ds @ drop (length ds) s2" by (simp add: ds_def dropWhile_eq_drop [symmetric])
  ultimately have e: "p = (takeWhile is_space p @ w @ h @ ds) @ drop (length ds) s2" by simp
  have n: "CHR '','' \<notin> set (takeWhile is_space p @ w @ h @ ds)"
    using c w(2) h(2) by (auto simp: ds_def base_def dest: set_takeWhileD split: if_splits)
  show thesis using q
  proof
    assume "q = p"
    then show thesis using that [of "[]"] by simp
  next
    assume "q = drop (length ds) s2"
    then show thesis using that [OF _ n] e by simp
  qed
qed

lemma mov_reg_imm_found:
  assumes "plain_instr i" "peep_mov_reg_imm n (instr_text i) = Some (r, v)"
  obtains s w b where "i = Mov s (Imm w) b" "r = opd_text b" "plain_opd b" "s \<in> {S_none, S_l, S_q}" "\<not> is_mem b"
proof -
  obtain m a b where t: "two_form i = Some (m, a, b)" using one_form_silent(5) [OF _ assms(1)] assms(2) by (cases "two_form i") auto
  note w = plain_two [OF assms(1) t] mnemonic_word [OF t]
  have am: "m \<in> {''mov'', ''movl'', ''movq''}" using assms(2) after_mov_two [of m a b] w
    by (auto simp: peep_mov_reg_imm_def instr_text_two [OF t] split: if_splits)
  then have "after_mov (two m a b) = Some (opd_text a @ '', '' @ opd_text b)" using after_mov_two [of m a b] w by simp
  then obtain p where p: "scan_text ''$'' (opd_text a @ '', '' @ opd_text b) = Some p"
    "(let (v, q) = strtol0 p in if length q = length p then None
          else Option.bind (scan_text '','' q) (\<lambda>q. Option.bind (buf n (skip_blanks q)) (\<lambda>r. Some (r, v)))) = Some (r, v)"
    using assms(2) by (auto simp: peep_mov_reg_imm_def instr_text_two [OF t] bind_eq_Some_conv)
  obtain v0 q z where q: "strtol0 p = (v0, q)" "q = CHR '','' # z" "r = skip_blanks z"
    using p(2) by (cases "strtol0 p") (auto simp: bind_eq_Some_conv scan_text_Some split: if_splits)
  obtain u where u: "p = u @ CHR '','' # z" "CHR '','' \<notin> set u" using strtol0_split [OF q(1)] q(2) by blast
  have e: "opd_text a @ '', '' @ opd_text b = CHR ''$'' # p" using p(1) by (simp add: scan_text_Some)
  then obtain y where y: "opd_text a = CHR ''$'' # y" by (cases "opd_text a") auto
  then have h: "p = y @ '', '' @ opd_text b" using e by simp
  have "word_chars (opd_text a)" using w by simp
  then have "CHR '','' \<notin> set y" using word_chars_space(2) unfolding y by (metis list.set_intros(2))
  then have "split_at CHR '','' p = Some (u, z)" "split_at CHR '','' p = Some (y, CHR '' '' # opd_text b)"
    using u h by (simp_all add: split_at_Some)
  then have z: "z = CHR '' '' # opd_text b" by simp
  have "skip_blanks (opd_text b) = opd_text b" using w word_chars_blanks(1) by simp
  then have r: "r = opd_text b" unfolding q(3) z by (simp add: skip_blanks_def)
  obtain s where s: "i = Mov s a b" "s \<in> {S_none, S_l, S_q}" by (rule mov_mnemonic [OF t am])
  obtain c where c: "a = Imm c"
  proof (cases a)
    case (Reg k x)
    then have "hd (opd_text a) = CHR ''%''" using w reg_text_facts(2) [of k x] by (simp add: plain_opd_def)
    then show thesis using y by simp
  next
    case (Mem d x)
    obtain f fs where f: "opd_text (Mem d x) = f # fs" "is_digit f \<or> f = CHR ''-'' \<or> f = CHR ''(''" by (rule mem_head)
    then have "f = CHR ''$''" using y unfolding Mem by simp
    then show thesis using f(2) by (simp add: is_digit_def code_def)
  next
    case (Rip x)
    then have "list_all (\<lambda>c. c \<noteq> CHR ''$'') x"
      using w by (auto simp: plain_opd_def name_ok_def list_all_iff is_alpha_def is_digit_def code_def)
    then show thesis using Rip y by (cases x) auto
  qed
  have "\<not> is_mem b" using assms(1) s c by (auto simp: plain_instr_def)
  then show thesis using that s c r w by blast
qed

lemma pattern4_plain:
  assumes "plain_instr i" "plain_instr j" "calm_pair i j"
  shows "peep_pattern4 (instr_text i) (instr_text j) = None"
proof (rule ccontr)
  assume "peep_pattern4 (instr_text i) (instr_text j) \<noteq> None"
  then obtain l where "peep_pattern4 (instr_text i) (instr_text j) = Some l" by blast
  then obtain reg1 v opr od os where p: "peep_mov_reg_imm 32 (instr_text i) = Some (reg1, v)" "peep_op_reg_reg 16 64 32 (instr_text j) = Some (opr, od, os)"
    "same_phys od reg1" "op_name opr \<in> {''cmp'', ''add'', ''sub'', ''and'', ''or'', ''xor'', ''imul''}" by (elim pattern4_SomeE) blast
  obtain s c b where i: "i = Mov s (Imm c) b" "reg1 = opd_text b" "plain_opd b" "\<not> is_mem b" by (rule mov_reg_imm_found [OF assms(1) p(1)])
  obtain x y where j: "two_form j = Some (opr, x, y)" "od = opd_text x" "plain_opd x" by (rule op_found [OF assms(2) p(2)])
  obtain k s' where k: "j = Alu k s' x y"
  proof (cases j rule: two_form.cases)
    case (1 s x y)
    then show thesis using j(1) p(4) by (cases s) (auto simp: op_name_def split: if_splits)
  next
    case (2 sg f t x r)
    then have "length opr = 6" "hd opr = CHR ''m''" using j(1) by auto
    then show thesis using p(4) by (cases opr) (auto simp: op_name_def split: if_splits)
  next
    case (3 x r)
    then show thesis using j(1) p(4) by (auto simp: op_name_def split: if_splits)
  next
    case (5 k n r)
    then have "k \<in> {A_shl, A_shr, A_sar}" using assms(2) by (simp add: plain_instr_def)
    then show thesis using 5 j(1) p(4) by (auto simp: op_name_def split: if_splits)
  qed (use that j(1) in auto)
  have ph: "phys_reg_id od \<noteq> None" "phys_reg_id (opd_text b) \<noteq> None" using p(3) i(2) unfolding same_phys_def by metis+
  obtain n r where "x = Reg n r" using phys_reg_opd [of x] ph(1) j(2) assms(2) k by (auto simp: plain_instr_def)
  moreover obtain n' r' where "b = Reg n' r'" using phys_reg_opd [of b] ph(2) i(4) by (auto simp: is_mem_def split: opd.splits)
  ultimately show False using assms(3) i(1,2) j(2) k p(3) by (simp add: calm_pair_def)
qed

lemma mov_reg_mem_found:
  assumes "plain_instr i" "peep_mov_reg_mem n k (instr_text i) = Some (r, x)"
  obtains s a b where "i = Mov s a b" "x = opd_text a" "r = opd_text b" "s \<in> {S_none, S_l, S_q}"
proof -
  obtain m a b where t: "two_form i = Some (m, a, b)" using one_form_silent(7) [OF _ assms(1)] assms(2) by (cases "two_form i") auto
  note w = plain_two [OF assms(1) t] mnemonic_word [OF t]
  have am: "m \<in> {''mov'', ''movl'', ''movq''}" using assms(2) after_mov_two [of m a b] w
    by (auto simp: peep_mov_reg_mem_def instr_text_two [OF t] split: if_splits)
  then have "x = opd_text a" "r = opd_text b"
    using assms(2) after_mov_two [of m a b] two_operands_word [of "opd_text a" "opd_text b" k n] w
    by (auto simp: peep_mov_reg_mem_def instr_text_two [OF t] split: if_splits)
  then show thesis using mov_mnemonic [OF t am] that by metis
qed

lemma pattern5_plain:
  assumes "plain_instr i" "plain_instr j" "plain_instr k" "calm_triple i j k"
  shows "peep_pattern5 (instr_text i) (instr_text j) (instr_text k) rest = None"
proof (rule ccontr)
  assume n: "peep_pattern5 (instr_text i) (instr_text j) (instr_text k) rest \<noteq> None"
  obtain x1 where "peep_mov_reg_mem 32 128 (instr_text i) = Some x1"
    using n by (cases "peep_mov_reg_mem 32 128 (instr_text i)") (simp_all add: peep_pattern5_def)
  then obtain r1 mem1 where 1: "peep_mov_reg_mem 32 128 (instr_text i) = Some (r1, mem1)" by (cases x1) simp
  obtain x2 where "peep_op_reg_reg 16 32 32 (instr_text j) = Some x2"
    using n 1 by (cases "peep_op_reg_reg 16 32 32 (instr_text j)") (simp_all add: peep_pattern5_def)
  then obtain op2 r2 imm2 where 2: "peep_op_reg_reg 16 32 32 (instr_text j) = Some (op2, r2, imm2)" by (cases x2) simp
  obtain x3 where "peep_mov_reg_reg 32 32 (instr_text k) = Some x3"
    using n 1 2 by (cases "peep_mov_reg_reg 32 32 (instr_text k)") (simp_all add: peep_pattern5_def)
  then obtain d3 r3 where 3: "peep_mov_reg_reg 32 32 (instr_text k) = Some (d3, r3)" by (cases x3) simp
  have "r1 = imm2 \<and> imm2 = r3 \<and> is_reg d3 \<and> \<not> is_reg mem1"
    using n unfolding peep_pattern5_def 1 2 3 option.case prod.case by (metis (no_types, lifting))
  note p = 1 2 3 this
  obtain s a b where i: "i = Mov s a b" "mem1 = opd_text a" "r1 = opd_text b" "s \<in> {S_none, S_l, S_q}" by (rule mov_reg_mem_found [OF assms(1) p(1)])
  obtain x y where j: "two_form j = Some (op2, x, y)" "imm2 = opd_text y" by (rule op_found [OF assms(2) p(2)])
  obtain c d where k: "k = Mov S_none c d" "d3 = opd_text c" "r3 = opd_text d" by (rule mov_reg_reg_found [OF assms(3) p(3)])
  show False using assms(4) i j k p by (simp add: calm_triple_def)
qed

section \<open>The replacement does the same\<close>

lemma low_Suc:
  assumes "0 \<le> u" "u < 256"
  shows "low (Suc k) (u + 256 * v) = u + 256 * low k v"
proof -
  have "(u + 256 * v) mod (256 * 2 ^ (8 * k)) = 256 * ((u + 256 * v) div 256 mod 2 ^ (8 * k)) + (u + 256 * v) mod 256"
    by (rule zmod_zmult2_eq) simp
  moreover have "(u + 256 * v) div 256 = v" "(u + 256 * v) mod 256 = u" using assms by simp_all
  ultimately show ?thesis by (simp add: low_def take_bit_eq_mod power_add)
qed

lemma load_prefix: "load m k a = low k (load m (k + j) a)"
proof (induction k arbitrary: a)
  case 0
  then show ?case by (simp add: low_def)
next
  case (Suc k)
  have "low (Suc k) (uint (m a) + 256 * load m (k + j) (a + 1)) = uint (m a) + 256 * low k (load m (k + j) (a + 1))"
    using uint_lt2p [of "m a"] by (intro low_Suc) simp_all
  then show ?case using Suc.IH by simp
qed

lemma load_narrow:
  assumes "k \<le> n" "n \<le> 8"
  shows "load (store m n a v) k a = low k v"
  using load_prefix [of "store m n a v" k a "n - k"] load_store [OF assms(2), of m a v] assms(1) by simp

lemma exec_mov_regs:
  assumes "exec_instr (Mov S_none (Reg n a) (Reg k b)) m = Some m1" 
  shows "k = n" "m1 = putr n b (getr m n a) m"
  using assms by (auto simp: Let_def rd_def wr_def max_def split: if_splits)

lemma forwards_exec:
  assumes "forwards i j j'" "exec_instr i m = Some m1"
  shows "exec_instr j' m1 = exec_instr j m1"
  using assms
proof (induction rule: forwards.induct)
  case (copy n a k b l c)
  note e = exec_mov_regs [OF copy.prems]
  have ab: "a \<noteq> b" using copy.hyps(1) e(1) by auto
  have "getr m1 n a = getr m n a" using ab by (simp add: e(2))
  moreover have "getr m1 n b = getr m n a" using copy.hyps(4) by (simp add: e(2) getr_putr)
  ultimately show ?case using e(1) by (simp add: Let_def rd_def)
next
  case (reload4 d s l a c)
  have "m1 = m\<lparr>mem := store (mem m) 8 (regs m RBP + word_of_int d) (getr m 8 a)\<rparr>"
    using reload4 by (auto simp: Let_def rd_def wr_def split: if_splits)
  then show ?case by (simp add: Let_def rd_def wr_def load_narrow max_def)
next
  case (reload8 d s l a c)
  have "m1 = m\<lparr>mem := store (mem m) 8 (regs m RBP + word_of_int d) (getr m 8 a)\<rparr>"
    using reload8 by (auto simp: Let_def rd_def wr_def split: if_splits)
  then show ?case by (simp add: Let_def rd_def wr_def load_narrow max_def)
qed

subsection \<open>Programs\<close>

definition same_runs :: "instr list \<Rightarrow> instr list \<Rightarrow> bool" where
  "same_runs P Q \<longleftrightarrow> (\<forall>A Z m c. steps (A @ P @ Z) (0, m) c \<longleftrightarrow> steps (A @ Q @ Z) (0, m) c)"

lemma same_runs_refl [simp]: "same_runs P P"
  by (simp add: same_runs_def)

lemma same_runs_trans [trans]: "same_runs P Q \<Longrightarrow> same_runs Q R \<Longrightarrow> same_runs P R"
  by (simp add: same_runs_def)

lemma same_runs_inside: "same_runs P Q \<Longrightarrow> same_runs (A @ P @ Z) (A @ Q @ Z)"
  unfolding same_runs_def
proof (intro allI)
  fix B Y m c
  assume s: "\<forall>A Z m c. steps (A @ P @ Z) (0, m) c = steps (A @ Q @ Z) (0, m) c"
  show "steps (B @ (A @ P @ Z) @ Y) (0, m) c = steps (B @ (A @ Q @ Z) @ Y) (0, m) c"
    using s [rule_format, of "B @ A" "Z @ Y" m c] by simp
qed

lemma find_label_append: "find_label (P @ Q) l = (case find_label P l of Some k \<Rightarrow> Some k | None \<Rightarrow> map_option (\<lambda>k. k + length P) (find_label Q l))"
  by (induction P) (auto simp: option.map_comp comp_def option.map_ident split: option.splits)

lemma find_label_is_label: "find_label P l = Some k \<Longrightarrow> k < length P \<and> P ! k = Label l"
proof (induction P arbitrary: k)
  case (Cons i P)
  then show ?case by (cases k) (auto split: if_splits)
qed simp

lemma forwards_movs: "forwards i j j' \<Longrightarrow> (\<exists>s a b. i = Mov s a b) \<and> (\<exists>s a b. j = Mov s a b) \<and> (\<exists>s a b. j' = Mov s a b)"
  by (induction rule: forwards.induct) auto

lemma forwards_steps:
  assumes "forwards i j j'"
  shows "steps (A @ i # j # Z) (0, m) c \<longleftrightarrow> steps (A @ i # j' # Z) (0, m) c"
proof -
  define P where "P = A @ i # j # Z"
  define Q where "Q = A @ i # j' # Z"
  define k where "k = length A"
  define inv where "inv = (\<lambda>(pc, m1). pc = Suc k \<longrightarrow> (\<exists>m0. exec_instr i m0 = Some m1))"
  obtain s a b where i: "i = Mov s a b" using forwards_movs [OF assms] by blast
  obtain s a b where j: "j = Mov s a b" using forwards_movs [OF assms] by blast
  obtain s a b where j': "j' = Mov s a b" using forwards_movs [OF assms] by blast
  have n: "P ! k = i" "P ! Suc k = j" "Q ! k = i" "Q ! Suc k = j'" "length P = length Q" "k < length P"
    by (simp_all add: P_def Q_def k_def nth_append)
  have other: "P ! x = Q ! x" if "x \<noteq> Suc k" for x
    using that by (auto simp: P_def Q_def k_def nth_append nth_Cons split: nat.split)
  have lab: "find_label P l = find_label Q l" for l
    using j j' by (auto simp: P_def Q_def find_label_append split: option.split)
  have gt: "goto P = goto Q" by (intro ext) (simp add: goto_def lab)
  have st: "step P x = step Q x" if v: "inv x" for x
  proof (cases x)
    case (Pair pc m1)
    show ?thesis
    proof (cases "pc = Suc k")
      case True
      then obtain m0 where "exec_instr i m0 = Some m1" using v Pair by (auto simp: inv_def)
      then show ?thesis using forwards_exec [OF assms] n True Pair j j' by (simp add: step_def del: exec_instr.simps)
    next
      case False
      then show ?thesis by (simp only: step_def Pair prod.case n(5) other [OF False] gt)
    qed
  qed
  have inv: "inv y" if "step R x = Some y" "R ! k = i" "\<And>l. find_label R l \<noteq> Some (Suc k)" for R x y
  proof (cases x)
    case (Pair pc m1)
    show ?thesis
    proof (cases "pc = k")
      case True
      then show ?thesis using that(1,2) Pair i by (auto simp: step_def inv_def simp del: exec_instr.simps split: if_splits)
    next
      case False
      then show ?thesis using that(1,3) Pair
        by (auto simp: step_def inv_def goto_def bind_eq_Some_conv simp del: exec_instr.simps split: if_splits instr.splits)
    qed
  qed
  have nl: "find_label P l \<noteq> Some (Suc k)" "find_label Q l \<noteq> Some (Suc k)" for l
    using find_label_is_label [of P l "Suc k"] find_label_is_label [of Q l "Suc k"] n j j' by auto
  have 1: "steps Q (0, m) c \<and> inv c" if "steps P (0, m) c"
    using that unfolding steps_def
  proof (induction rule: rtranclp_induct)
    case (step y z)
    then show ?case using st [of y] inv [of P y z] n(1) nl(1) by (auto intro: rtranclp.rtrancl_into_rtrancl)
  qed (simp add: inv_def)
  have 2: "steps P (0, m) c \<and> inv c" if "steps Q (0, m) c"
    using that unfolding steps_def
  proof (induction rule: rtranclp_induct)
    case (step y z)
    then show ?case using st [of y] inv [of Q y z] n(3) nl(2) by (auto intro: rtranclp.rtrancl_into_rtrancl)
  qed (simp add: inv_def)
  show ?thesis using 1 2 unfolding P_def Q_def by blast
qed

lemma forwards_same_runs: "forwards i j j' \<Longrightarrow> same_runs (i # j # R) (i # j' # R)"
  unfolding same_runs_def using forwards_steps by simp

section \<open>The pass\<close>

lemma calm_iff:
  "calm P \<longleftrightarrow>
     (\<forall>n. Suc n < length P \<longrightarrow> calm_pair (P ! n) (P ! Suc n)) \<and>
     (\<forall>n. Suc (Suc n) < length P \<longrightarrow> calm_triple (P ! n) (P ! Suc n) (P ! Suc (Suc n)))"
proof (induction P rule: calm.induct)
  case (1 i j k c)
  have split: "(\<forall>n. Q n) \<longleftrightarrow> Q 0 \<and> (\<forall>n. Q (Suc n))" for Q :: "nat \<Rightarrow> bool" by (metis not0_implies_Suc)
  let ?p = "i # j # k # c"
  have "(\<forall>n. Suc n < length ?p \<longrightarrow> calm_pair (?p ! n) (?p ! Suc n)) \<longleftrightarrow>
      calm_pair i j \<and> (\<forall>n. Suc n < length (j # k # c) \<longrightarrow> calm_pair ((j # k # c) ! n) ((j # k # c) ! Suc n))"
    by (subst split) simp
  moreover have "(\<forall>n. Suc (Suc n) < length ?p \<longrightarrow> calm_triple (?p ! n) (?p ! Suc n) (?p ! Suc (Suc n))) \<longleftrightarrow>
      calm_triple i j k \<and> (\<forall>n. Suc (Suc n) < length (j # k # c) \<longrightarrow> calm_triple ((j # k # c) ! n) ((j # k # c) ! Suc n) ((j # k # c) ! Suc (Suc n)))"
    by (subst split) simp
  ultimately show ?case unfolding calm.simps(1) 1 by blast
qed (auto simp: less_Suc_eq)

lemma calm_left: "calm (A @ B) \<Longrightarrow> calm A"
  unfolding calm_iff
proof (elim conjE, intro conjI allI impI)
  fix n
  assume "\<forall>n. Suc n < length (A @ B) \<longrightarrow> calm_pair ((A @ B) ! n) ((A @ B) ! Suc n)" "Suc n < length A"
  from this(1) [rule_format, of n] this(2) show "calm_pair (A ! n) (A ! Suc n)" by (simp add: nth_append)
next
  fix n
  assume "\<forall>n. Suc (Suc n) < length (A @ B) \<longrightarrow> calm_triple ((A @ B) ! n) ((A @ B) ! Suc n) ((A @ B) ! Suc (Suc n))" "Suc (Suc n) < length A"
  from this(1) [rule_format, of n] this(2) show "calm_triple (A ! n) (A ! Suc n) (A ! Suc (Suc n))" by (simp add: nth_append)
qed

lemma calm_tl: "calm (i # c) \<Longrightarrow> calm c"
  by (cases "i # c" rule: calm.cases) auto

lemma is_reg_wide: "is_reg (reg_text 8 a)" "is_reg (reg_text 4 a)"
  by (cases a; simp add: is_reg_def strip_percent_def)+

lemma forwards_calm:
  assumes "forwards i j j'"
  shows "calm_pair i j'" "calm_pair j' n" "calm_triple p i j \<Longrightarrow> calm_triple p i j'" "calm_triple i j' n" "calm_triple j' n q" "plain_instr j'"
  using assms
proof (induction rule: forwards.induct)
  case (copy n a k b l c)
  {
    case 1 show ?case by (simp add: calm_pair_def)
  next
    case 2 show ?case by (simp add: calm_pair_def split: instr.splits)
  next
    case 3 then show ?case using copy by (auto simp: calm_triple_def split: instr.splits)
  next
    case 4 show ?case using copy by (simp add: calm_triple_def split: instr.splits sfx.splits)
  next
    case 5 show ?case using copy by (simp add: calm_triple_def split: instr.splits sfx.splits)
  next
    case 6 show ?case using copy by (simp add: plain_instr_def plain_opd_def is_mem_def)
  }
next
  case (reload4 d s l a c)
  have t: "reg_text l c \<noteq> opd_text (Mem d RBP)"
    using reload4 reg_text_facts(2) [of l c] by (auto simp: show_int_def)
  {
    case 1 show ?case by (simp add: calm_pair_def)
  next
    case 2 show ?case by (simp add: calm_pair_def split: instr.splits)
  next
    case 3 then show ?case using t by (auto simp: calm_triple_def split: instr.splits)
  next
    case 4 show ?case using is_reg_wide by (simp add: calm_triple_def split: instr.splits sfx.splits)
  next
    case 5 show ?case using is_reg_wide by (simp add: calm_triple_def split: instr.splits sfx.splits)
  next
    case 6 show ?case using reload4 by (simp add: plain_instr_def plain_opd_def is_mem_def)
  }
next
  case (reload8 d s l a c)
  have t: "reg_text l c \<noteq> opd_text (Mem d RBP)"
    using reload8 reg_text_facts(2) [of l c] by (auto simp: show_int_def)
  {
    case 1 show ?case by (simp add: calm_pair_def)
  next
    case 2 show ?case by (simp add: calm_pair_def split: instr.splits)
  next
    case 3 then show ?case using t by (auto simp: calm_triple_def split: instr.splits)
  next
    case 4 show ?case using is_reg_wide by (simp add: calm_triple_def split: instr.splits sfx.splits)
  next
    case 5 show ?case using is_reg_wide by (simp add: calm_triple_def split: instr.splits sfx.splits)
  next
    case 6 show ?case using reload8 by (simp add: plain_instr_def plain_opd_def is_mem_def)
  }
qed

lemma calm_update:
  assumes "calm P" "Suc k < length P" "forwards (P ! k) (P ! Suc k) j'"
  shows "calm (P[Suc k := j'])"
proof -
  note f = forwards_calm [OF assms(3)]
  note c = assms(1) [unfolded calm_iff]
  have "calm_pair (P[Suc k := j'] ! n) (P[Suc k := j'] ! Suc n)" if "Suc n < length P" for n
    using that c f(1,2) assms(2) by (cases "n = k"; cases "n = Suc k") (auto simp: nth_list_update)
  moreover have "calm_triple (P[Suc k := j'] ! n) (P[Suc k := j'] ! Suc n) (P[Suc k := j'] ! Suc (Suc n))" if "Suc (Suc n) < length P" for n
  proof -
    have t: "calm_triple (P ! n) (P ! Suc n) (P ! Suc (Suc n))" using c that by blast
    consider "n = Suc k" | "n = k" | "Suc n = k" | "n \<noteq> Suc k" "n \<noteq> k" "Suc n \<noteq> k" by blast
    then show ?thesis using t f(3-5) that by cases (auto simp: nth_list_update)
  qed
  ultimately show ?thesis unfolding calm_iff by simp
qed

lemma instr_text_nonempty: "plain_instr i \<Longrightarrow> instr_text i \<noteq> []"
  using one_form_facts(5) [of i] instr_text_two by (cases "two_form i") (auto simp: two_def)

lemma next_line_texts:
  assumes "list_all plain_instr W" "k < length W"
  shows "next_line (map instr_text W) k = (if Suc k < length W then Some (Suc k) else None)"
proof -
  have "instr_text (W ! n) \<noteq> []" if "n < length W" for n using assms(1) that instr_text_nonempty by (simp add: list_all_length)
  then show ?thesis by (auto simp: next_line_def upt_conv_Cons)
qed

lemma rewrite_at_texts:
  assumes "list_all plain_instr W" "calm W" "Suc k < length W"
  shows "rewrite_at (map instr_text W) rest k (Suc k) = Done None \<or>
    (\<exists>j'. forwards (W ! k) (W ! Suc k) j' \<and> rewrite_at (map instr_text W) rest k (Suc k) = Done (Some (map instr_text (W[Suc k := j']))))"
proof -
  let ?w = "map instr_text W"
  have p: "plain_instr (W ! k)" "plain_instr (W ! Suc k)" "calm_pair (W ! k) (W ! Suc k)"
    using assms by (auto simp: list_all_length calm_iff)
  have w: "?w ! k = instr_text (W ! k)" "?w ! Suc k = instr_text (W ! Suc k)" using assms(3) by simp_all
  show ?thesis
  proof (cases "peep_pattern1 (?w ! k) (?w ! Suc k)")
    case (Some l)
    obtain j' where "forwards (W ! k) (W ! Suc k) j'" "l = instr_text j'" using pattern1_plain [OF p(1,2)] Some w by metis
    then show ?thesis using Some by (auto simp: rewrite_at_def map_update)
  next
    case 1: None
    show ?thesis
    proof (cases "peep_pattern2 (?w ! k) (?w ! Suc k) = Done None")
      case False
      then obtain j' where "peep_pattern2 (?w ! k) (?w ! Suc k) = Done (Some (instr_text j'))" "forwards (W ! k) (W ! Suc k) j'"
        using pattern2_plain [OF p] unfolding w by blast
      then show ?thesis using 1 by (auto simp: rewrite_at_def map_update)
    next
      case True
      have 34: "\<not> peep_pattern3 (?w ! k) (?w ! Suc k)" "peep_pattern4 (?w ! k) (?w ! Suc k) = None"
        unfolding w using pattern3_plain [OF p] pattern4_plain [OF p] by simp_all
      have "peep_pattern5 (?w ! k) (?w ! Suc k) (?w ! Suc (Suc k)) rest = None" if "Suc (Suc k) < length W"
      proof -
        have "plain_instr (W ! Suc (Suc k))" "calm_triple (W ! k) (W ! Suc k) (W ! Suc (Suc k))"
          using assms(1,2) that by (auto simp: list_all_length calm_iff)
        then show ?thesis using pattern5_plain [OF p(1,2)] that assms(3) by simp
      qed
      then have "rewrite_at ?w rest k (Suc k) = Done None"
        using 1 True 34 next_line_texts [OF assms(1,3)] by (simp add: rewrite_at_def)
      then show ?thesis by blast
    qed
  qed
qed

lemma rewrite_from_texts:
  assumes "list_all plain_instr W" "calm W" "\<forall>k \<in> set is. k < length W"
  shows "rewrite_from (map instr_text W) rest is = Done None \<or>
    (\<exists>k j'. Suc k < length W \<and> forwards (W ! k) (W ! Suc k) j' \<and>
       rewrite_from (map instr_text W) rest is = Done (Some (map instr_text (W[Suc k := j']))))"
  using assms(3)
proof (induction "is")
  case (Cons k "is")
  then have k: "k < length W" by simp
  have ne: "map instr_text W ! k \<noteq> []" using k assms(1) instr_text_nonempty by (simp add: list_all_length)
  show ?case
  proof (cases "Suc k < length W")
    case True
    then have n: "next_line (map instr_text W) k = Some (Suc k)" using next_line_texts [OF assms(1) k] by simp
    show ?thesis using rewrite_at_texts [OF assms(1,2) True, of rest]
    proof (elim disjE exE conjE)
      assume "rewrite_at (map instr_text W) rest k (Suc k) = Done None"
      then show ?thesis using Cons ne n by simp
    next
      fix j'
      assume "forwards (W ! k) (W ! Suc k) j'" "rewrite_at (map instr_text W) rest k (Suc k) = Done (Some (map instr_text (W[Suc k := j'])))"
      then show ?thesis using True ne n by (intro disjI2 exI [of _ k] exI [of _ j']) simp
    qed
  next
    case False
    then show ?thesis using next_line_texts [OF assms(1) k] ne by simp
  qed
qed simp

lemma same_runs_update:
  assumes "Suc k < length W" "forwards (W ! k) (W ! Suc k) j'"
  shows "same_runs (W @ R) (W[Suc k := j'] @ R)"
proof -
  have w: "W = take k W @ W ! k # W ! Suc k # drop (Suc (Suc k)) W" using assms(1)
    by (metis Cons_nth_drop_Suc Suc_lessD append_take_drop_id)
  have e: "W @ R = take k W @ (W ! k # W ! Suc k # drop (Suc (Suc k)) W) @ R" using arg_cong [OF w, of "\<lambda>x. x @ R"] by simp
  have u: "W[Suc k := j'] @ R = take k W @ (W ! k # j' # drop (Suc (Suc k)) W) @ R"
    using assms(1) by (subst w) (simp add: list_update_append min_def)
  show ?thesis unfolding e u by (intro same_runs_inside forwards_same_runs assms(2))
qed

lemma settle_texts:
  assumes "list_all plain_instr (W @ R)" "calm (W @ R)"
  shows "settle n (map instr_text W) rest = Fuel \<or>
    (\<exists>W'. settle n (map instr_text W) rest = Done (map instr_text W') \<and> length W' = length W \<and>
       same_runs (W @ R) (W' @ R) \<and> calm (W' @ R) \<and> list_all plain_instr (W' @ R))"
  using assms
proof (induction n arbitrary: W)
  case (Suc n)
  have w: "list_all plain_instr W" "calm W"
  proof -
    show "list_all plain_instr W" using Suc.prems(1) by simp
    show "calm W" using Suc.prems(2) by (rule calm_left)
  qed
  have "\<forall>k \<in> set [0..<length (map instr_text W)]. k < length W" by simp
  from rewrite_from_texts [OF w this, of rest] show ?case
  proof (elim disjE exE conjE)
    assume "rewrite_from (map instr_text W) rest [0..<length (map instr_text W)] = Done None"
    then show ?thesis using Suc.prems by (auto simp: rewrite_window_def)
  next
    fix k j'
    assume k: "Suc k < length W" "forwards (W ! k) (W ! Suc k) j'"
      and r: "rewrite_from (map instr_text W) rest [0..<length (map instr_text W)] = Done (Some (map instr_text (W[Suc k := j'])))"
    have u: "W[Suc k := j'] @ R = (W @ R)[Suc k := j']" using k(1) by (simp add: list_update_append)
    have c: "calm (W[Suc k := j'] @ R)" unfolding u
      using k by (intro calm_update [OF Suc.prems(2)]) (simp_all add: nth_append)
    have pl: "list_all plain_instr (W[Suc k := j'] @ R)"
      using Suc.prems(1) forwards_calm(6) [OF k(2)] set_update_subset_insert [of W "Suc k" j'] by (auto simp: list_all_iff)
    have sr: "same_runs (W @ R) (W[Suc k := j'] @ R)" by (rule same_runs_update [OF k])
    show ?thesis using Suc.IH [OF pl c] r sr by (auto simp: rewrite_window_def intro: same_runs_trans)
  qed
qed simp

lemma asm_text_Cons: "asm_text (i # c) = instr_text i @ NL # asm_text c"
  by (simp add: asm_text_def)

lemma instr_text_line: "plain_instr i \<Longrightarrow> takeWhile (\<lambda>c. c \<noteq> NL) (instr_text i @ NL # p) = instr_text i"
proof -
  assume p: "plain_instr i"
  have "NL \<notin> set (instr_text i)"
  proof (cases "two_form i")
    case None
    then show ?thesis using one_form_facts(4) p by blast
  next
    case (Some x)
    then obtain m a b where t: "two_form i = Some (m, a, b)" by (cases x) auto
    then show ?thesis using plain_two [OF p t] mnemonic_word [OF t] word_chars_space(3) by (auto simp: instr_text_two [OF t] two_def)
  qed
  then show ?thesis by (auto simp: takeWhile_append)
qed

lemma emit_lines_texts: "list_all plain_instr W \<Longrightarrow> emit_lines (map instr_text W) = asm_text W"
  using instr_text_nonempty by (induction W) (auto simp: emit_lines_def asm_text_def)

lemma peep_loop_texts:
  assumes "list_all plain_instr (W @ R)" "calm (W @ R)" "length W \<le> 3"
  shows "\<exists>Q. peep_loop (asm_text R) (map instr_text W) = Done (asm_text Q) \<and> length Q = length (W @ R) \<and> same_runs (W @ R) Q"
  using assms
proof (induction R arbitrary: W)
  case Nil
  then show ?case by (intro exI [of _ W]) (simp add: peep_loop.simps asm_text_def emit_lines_texts [unfolded asm_text_def])
next
  case (Cons r R)
  define V where "V = (if length W = 3 then tl W else W)"
  define H where "H = (if length W = 3 then [hd W] else [])"
  have hv: "W = H @ V" "length V \<le> 2" using Cons.prems(3) by (cases W; auto simp: V_def H_def)+
  have pr: "plain_instr r" using Cons.prems(1) by simp
  let ?w = "map instr_text W"
  have lw: "length ?w = 3 \<longleftrightarrow> length W = 3" by simp
  have line: "takeWhile (\<lambda>c. c \<noteq> NL) (asm_text (r # R)) = instr_text r" "drop (Suc (length (instr_text r))) (asm_text (r # R)) = asm_text R"
    using instr_text_line [OF pr] by (simp_all add: asm_text_Cons)
  have "(if length ?w = 3 then (emit_lines [?w ! 0], tl ?w) else ([], ?w)) = (asm_text H, map instr_text V)"
    using Cons.prems(1) emit_lines_texts [of "[hd W]"] by (cases W) (auto simp: H_def V_def asm_text_def)
  then have lp: "peep_loop (asm_text (r # R)) ?w =
    rbind (settle SETTLE_FUEL (map instr_text (V @ [r])) (asm_text R)) (\<lambda>w. rmap (\<lambda>t. asm_text H @ t) (peep_loop (asm_text R) w))"
  proof -
    assume w: "(if length ?w = 3 then (emit_lines [?w ! 0], tl ?w) else ([], ?w)) = (asm_text H, map instr_text V)"
    have "asm_text (r # R) \<noteq> []" by (simp add: asm_text_Cons)
    then show ?thesis by (subst peep_loop.simps) (simp only: if_False Let_def line w prod.case map_append list.map)
  qed
  have pl: "list_all plain_instr ((V @ [r]) @ R)" using Cons.prems(1) hv(1) by simp
  have cl: "calm ((V @ [r]) @ R)"
    using Cons.prems(2) calm_tl by (cases W) (auto simp: V_def)
  have w3: "length (map instr_text (V @ [r])) \<le> 3" using hv(2) by simp
  have nf: "settle SETTLE_FUEL (map instr_text (V @ [r])) (asm_text R) \<noteq> Fuel"
    using settle_ends [OF w3] weight_bound(2) [OF w3] by (simp add: SETTLE_FUEL_def)
  obtain W' where W': "settle SETTLE_FUEL (map instr_text (V @ [r])) (asm_text R) = Done (map instr_text W')" "length W' = length (V @ [r])"
    "same_runs ((V @ [r]) @ R) (W' @ R)" "calm (W' @ R)" "list_all plain_instr (W' @ R)"
    using settle_texts [OF pl cl] nf by blast
  obtain Q where Q: "peep_loop (asm_text R) (map instr_text W') = Done (asm_text Q)" "length Q = length (W' @ R)" "same_runs (W' @ R) Q"
    using Cons.IH [OF W'(5,4)] W'(2) hv(2) by auto
  have "same_runs (H @ ((V @ [r]) @ R) @ []) (H @ Q @ [])" by (intro same_runs_inside same_runs_trans [OF W'(3) Q(3)])
  then have "same_runs (W @ r # R) (H @ Q)" using hv(1) by simp
  moreover have "peep_loop (asm_text (r # R)) ?w = Done (asm_text (H @ Q))" using lp W'(1) Q(1) by (simp add: asm_text_def)
  moreover have "length (H @ Q) = length (W @ r # R)" using Q(2) W'(2) hv(1) by simp
  ultimately show ?case by blast
qed

end
