(* ===== verification/GenCorrect.thy ===== *)
theory GenCorrect
  imports GenFuncOk
begin

text \<open>
  What the code generator gets right and what it does not. Expressions and whole functions in the fragment of
  \<open>GenOk\<close> are translated correctly (before the peephole pass), frames are large enough, every register written is saved; three
  constructs outside the fragment are shown to be translated wrongly, by running the code on a small machine.
\<close>

section \<open>Small programs\<close>

definition int_var :: "string \<Rightarrow> int \<Rightarrow> lvar" where
  "int_var s off = \<lparr>vname = s, voffset = off, vty = Some ty_int, vis_local = True, vcleanup = None, vasm_name = None\<rparr>"

definition int_op :: "node_kind \<Rightarrow> node \<Rightarrow> node \<Rightarrow> node" where
  "int_op k a b = set_ty (Some ty_int) (new_binary k a b)"

definition int_num :: "int \<Rightarrow> node" where
  "int_num v = num_node v (Some ty_int)"

definition if_node :: "node \<Rightarrow> node \<Rightarrow> node" where
  "if_node q t = Node (zero_node ND_IF) None None (Some q) (Some t) None None None [] [] None"

abbreviation vx :: node where
  "vx \<equiv> new_var_node (int_var ''x'' 84)"

abbreviation vy :: node where
  "vy \<equiv> new_var_node (int_var ''y'' 88)"

text \<open>\<open>x - (x - (\<dots> - y))\<close>\<close>

fun nested :: "nat \<Rightarrow> node" where
  "nested 0 = vy"
| "nested (Suc n) = int_op ND_SUB vx (nested n)"

definition ex_env :: fenv where
  "ex_env = \<lparr>fn_name = ''f'', fn_return = Some ty_int\<rparr>"

text \<open>The frame at 4096: \<open>x\<close> is at 4012, \<open>y\<close> at 4008.\<close>

definition ex_frame :: cenv where
  "ex_frame =
     \<lparr>vaddr = (\<lambda>v. if vis_local v then 4096 + word_of_int (- voffset v) else 0), visible = (\<lambda>a. 4000 \<le> a \<and> a < 4020)\<rparr>"

definition ex_mach :: "64 word \<Rightarrow> memory \<Rightarrow> mach" where
  "ex_mach w mm = \<lparr>regs = (\<lambda>r. if r = RDI then 1 else w), mem = mm, flags_of = None, syms = (\<lambda>_. 0)\<rparr>"

definition ex_mem :: memory where
  "ex_mem = (\<lambda>a. if a = 4012 then 2 else if a = 4008 then 1 else 0)"

lemma ex_rel: "Rel ex_frame 8 (ex_mach 4096 mm) mm"
  by (simp add: Rel_def ex_frame_def ex_mach_def slot_addr_def)

section \<open>Expressions\<close>

lemma expression_code:
  assumes "value_ok True n" "rneed n \<le> 8" "Rel E 8 m mm" "cev E n mm = Some (v, mm')"
  shows "\<exists>r c g' m'. gen F n (fresh_gst k) = Some (Some r, c, g') \<and> used g' = {r} \<and> spilled g' = {} \<and>
    steps c (0, m) (length c, m') \<and> rep (tyof n) v (regs m' (phys r)) \<and> Rel E 8 m' mm' \<and> keeps E 8 {} m m'"
proof -
  have f: "used (fresh_gst k) = {}" "spilled (fresh_gst k) = {}" "spill_logand (fresh_gst k) = 8"
    by (simp_all add: fresh_gst_def init_spill_slots_def alloc_spill_slot_def)
  then have g: "ready (fresh_gst k)" "rneed n \<le> free_count (used (fresh_gst k))"
    using assms(2) by (simp_all add: ready_def free_count_empty)
  obtain r c g' where y: "yields (gen F n) (\<lambda>E. cev E n) (tyof n) True (fresh_gst k) r c g'"
    by (rule implementsE [OF gen_implements [OF assms(1)] g])
  note r = yieldsD [OF y]
  have "distinct (labels c)" using r(5) by (simp add: labels_between_def)
  then obtain m' where "goes c 0 c m m'" "Rel E 8 m' mm'" "keeps E 8 {} m m'" "rep (tyof n) v (regs m' (phys r))"
    using computesE [OF r(6) code_at_self] assms(3,4) f by metis
  then show ?thesis using r(1,4) f(1) by (auto simp: goes_def gext_def)
qed

text \<open>
  C3. What the code generator prints for an expression of the fragment (\<open>value_ok\<close>) that needs at most eight
  registers (\<open>rneed\<close>) computes its C value: a machine that agrees with the C
  memory runs from the first instruction to the end of the code, the register handed out holds the value, the memory
  ends as the C semantics says, every byte the program cannot see but the slot of the logical operators keeps its
  value, and so do the frame and stack pointers. One register is in use afterwards and none is spilled.
\<close>
theorem expression_code_correct:
  assumes "value_ok True n" "rneed n \<le> 8" "Rel E 8 m mm" "cev E n mm = Some (v, mm')"
  shows "\<exists>r c g' m'. gen F n (fresh_gst k) = Some (Some r, c, g') \<and> used g' = {r} \<and> spilled g' = {} \<and>
    steps c (0, m) (length c, m') \<and> rep (tyof n) v (regs m' (phys r)) \<and> Rel E 8 m' mm' \<and> keeps E 8 {} m m'"
  using assms by (rule expression_code)

definition ex_assign :: node where
  "ex_assign = int_op ND_ASSIGN vx (int_op ND_ADD (int_op ND_MUL vx vx) (int_num 5))"

theorem expression_code_correct_witness:
  "\<exists>r c g' m'. gen ex_env ex_assign (fresh_gst 0) = Some (Some r, c, g') \<and>
     steps c (0, ex_mach 4096 ex_mem) (length c, m') \<and> rep ty_int 9 (regs m' (phys r))"
proof -
  have ok: "value_ok True ex_assign" "rneed ex_assign \<le> 8" by code_simp+
  have "map_option fst (cev ex_frame ex_assign ex_mem) = Some 9" by code_simp
  then obtain mm' where c: "cev ex_frame ex_assign ex_mem = Some (9, mm')" by auto
  have "tyof ex_assign = ty_int" by (simp add: ex_assign_def int_op_def ctype_of_def)
  then show ?thesis using expression_code_correct [OF ok ex_rel c, of ex_env 0] by metis
qed

section \<open>Functions\<close>

text \<open>
  C2. The code of a function before the peephole pass: if its body is in the fragment (\<open>stmts_ok\<close>: integers and
  pointers, no calls), it has at most six scalar parameters and a frame below 2 ^ 31 - 128 bytes, then the code,
  called with the arguments in registers, runs from its first instruction to its \<open>ret\<close>. The memory the program can see is
  then what the C semantics of the body says, starting from the parameters stored in their places; \<open>%rax\<close> holds the
  returned value converted to the result type; stack and frame pointers and callee-saved registers are the caller's
  again, except that the callee-saved register pushed first may come back with its low byte changed.
\<close>
theorem function_code_correct:
  assumes "stmts_ok (fn_env f) 0 (fn_body f)" "list_all (param_ok E) (fn_params f)" "length (fn_params f) \<le> 6"
    and "0 \<le> fn_stack_size f" "fn_stack_size f < 2 ^ 31 - 128"
    and "enters E m mm" "execs E (fn_body f) (store_params E m 0 (fn_params f) mm) out mm'"
  shows "\<exists>P g m'. gen_function f k = Some (P, g) \<and> last P = Ret \<and> distinct (labels P) \<and>
    steps P (0, m) (length P - 1, m') \<and> restored g m m' \<and> (\<forall>a. visible E a \<longrightarrow> mem m' a = mm' a) \<and>
    (\<forall>v. out = Returns v \<longrightarrow> return_value (fn_env f) v m')"
  using assms by (rule function_code)

text \<open>\<open>int f(int x) { if (x < 3) x = x + 4; return x; }\<close>\<close>

definition ex_fun :: cfunc where
  "ex_fun = \<lparr>fn_env = ex_env, fn_params = [int_var ''x'' 84],
     fn_body = [if_node (int_op ND_LT vx (int_num 3)) (int_op ND_ASSIGN vx (int_op ND_ADD vx (int_num 4))),
                new_unary ND_RETURN vx], fn_stack_size = 96\<rparr>"

lemma ex_fun_enters: "enters ex_frame (ex_mach 4104 mm) mm"
proof -
  have "\<forall>x \<in> set (map (\<lambda>j. 4104 - word_of_nat j) [1..<49]). \<not> visible ex_frame x" by code_simp
  then have "frame_private ex_frame 4104" by (auto simp: frame_private_def below_def)
  then show ?thesis by (simp add: enters_def ex_mach_def) (simp add: ex_frame_def)
qed

lemma ex_fun_ok:
  "stmts_ok (fn_env ex_fun) 0 (fn_body ex_fun)" "list_all (param_ok ex_frame) (fn_params ex_fun)" "length (fn_params ex_fun) \<le> 6"
  "0 \<le> fn_stack_size ex_fun" "fn_stack_size ex_fun < 2 ^ 31 - 128"
  by code_simp+

lemma ex_fun_runs:
  obtains mm where "execs ex_frame (fn_body ex_fun) (store_params ex_frame (ex_mach 4104 ex_mem) 0 (fn_params ex_fun) ex_mem) (Returns (Some 5)) mm"
proof -
  let ?E = ex_frame and ?m = "ex_mach 4104 ex_mem"
  let ?q = "int_op ND_LT vx (int_num 3)" and ?a = "int_op ND_ASSIGN vx (int_op ND_ADD vx (int_num 4))"
  let ?mm = "store_params ?E ?m 0 (fn_params ex_fun) ex_mem"
  have "Option.bind (cev ?E ?q ?mm) (\<lambda>(b, m1). Option.bind (cev ?E ?a m1) (\<lambda>(_, m2). map_option (\<lambda>(v, _). (b, v)) (cev ?E vx m2))) = Some (1, 5)"
    by code_simp
  then obtain m1 v m2 m3 where s: "cev ?E ?q ?mm = Some (1, m1)" "cev ?E ?a m1 = Some (v, m2)" "cev ?E vx m2 = Some (5, m3)"
    by (auto simp: bind_eq_Some_conv)
  have "exec ?E (Some ?a) m1 Normal m2" using s(2) by (intro exec_value) (simp_all add: stmt_kind_def int_op_def)
  then have "exec ?E (Some (if_node ?q ?a)) ?mm Normal m2"
    using s(1) by (intro exec_if [where b = True]) (simp_all add: if_node_def zero_node_def truth_def)
  moreover have "exec ?E (Some (new_unary ND_RETURN vx)) m2 (Returns (Some 5)) m3" using s(3) by (intro exec_return) simp_all
  ultimately have "execs ?E (fn_body ex_fun) ?mm (Returns (Some 5)) m3"
    unfolding ex_fun_def by (auto intro: execs_cons execs_left)
  then show thesis by (rule that)
qed

lemma ex_fun_returns:
  assumes "restored g (ex_mach 4104 ex_mem) m'" "return_value (fn_env ex_fun) (Some 5) m'"
  shows "regs m' RSP = 4104" "rep ty_int 5 (regs m' RAX)"
proof -
  show "regs m' RSP = 4104" using assms(1) by (simp add: restored_def ex_mach_def)
  have "conv ty_int 5 = 5" by code_simp
  then show "rep ty_int 5 (regs m' RAX)" using assms(2) by (simp add: return_value_def ex_fun_def ex_env_def)
qed

theorem function_code_correct_witness:
  "\<exists>P g m'. gen_function ex_fun 0 = Some (P, g) \<and> steps P (0, ex_mach 4104 ex_mem) (length P - 1, m') \<and>
     regs m' RSP = 4104 \<and> rep ty_int 5 (regs m' RAX)"
proof -
  obtain mm where ex: "execs ex_frame (fn_body ex_fun) (store_params ex_frame (ex_mach 4104 ex_mem) 0 (fn_params ex_fun) ex_mem) (Returns (Some 5)) mm"
    by (rule ex_fun_runs)
  obtain P g m' where r: "gen_function ex_fun 0 = Some (P, g)" "steps P (0, ex_mach 4104 ex_mem) (length P - 1, m')"
    "restored g (ex_mach 4104 ex_mem) m'" "\<forall>v. Returns (Some 5) = Returns v \<longrightarrow> return_value (fn_env ex_fun) v m'"
    using function_code_correct [OF ex_fun_ok ex_fun_enters ex, of 0] by blast
  then show ?thesis using ex_fun_returns by blast
qed

text \<open>
  C10. The generator produces code for every statement list of the fragment, whether or not the program ends when it
  runs: no register is in use or spilled afterwards, the spill slots and the stacks of enclosing loops are those of the
  start, and the labels defined are distinct and numbered from the count at the start to the count at the end.
\<close>
theorem statements_generated:
  assumes "stmts_ok F 0 ns"
  shows "\<exists>c g. gen_list F ns (fresh_gst k) = Some ((), c, g) \<and> used g = {} \<and> spilled g = {} \<and>
    next_spill_slot g = 24 \<and> break_stack g = [] \<and> continue_stack g = [] \<and> distinct (labels c) \<and>
    (\<forall>l \<in> set (labels c). \<exists>i. label_num l = Some i \<and> k < i \<and> i \<le> label_count g)"
proof -
  obtain c g where "gen_list F ns (fresh_gst k) = Some ((), c, g)" "gext {} (fresh_gst k) g" "labels_between k (label_count g) c"
    by (rule body_generated [OF assms])
  then show ?thesis by (auto simp: gext_def labels_between_def fresh_gst_def init_spill_slots_def alloc_spill_slot_def)
qed

text \<open>\<open>for (;;) x = x + 4;\<close>\<close>

definition ex_loop :: node where
  "ex_loop = Node (zero_node ND_FOR) None None None (Some (int_op ND_ASSIGN vx (int_op ND_ADD vx (int_num 4)))) None None None [] [] None"

theorem statements_generated_witness:
  "\<exists>c g. gen_list ex_env [ex_loop] (fresh_gst 7) = Some ((), c, g) \<and> used g = {} \<and> distinct (labels c)"
proof -
  have "stmts_ok ex_env 0 [ex_loop]" by code_simp
  from statements_generated [OF this, of 7] show ?thesis by blast
qed

text \<open>
  C11. The frame of a function is aligned and large enough: what is pushed and subtracted keeps the stack pointer
  aligned to 16 bytes, leaves at least 32 bytes, and covers the locals and the spill slots.
\<close>
theorem frame_covers:
  assumes "8 dvd fn_stack_size f" "8 dvd next_spill_slot g"
  shows "16 dvd int (length (callee_saved g)) * 8 + sub_amount f g \<and> 32 \<le> sub_amount f g \<and>
    fn_stack_size f + 32 \<le> int (length (callee_saved g)) * 8 + sub_amount f g \<and>
    next_spill_slot g \<le> int (length (callee_saved g)) * 8 + sub_amount f g"
  using sub_amount_facts [OF assms] by (simp add: frame_need_def)

theorem frame_covers_witness: "16 dvd int (length (callee_saved (fresh_gst 0))) * 8 + sub_amount ex_fun (fresh_gst 0)"
proof -
  have "8 dvd fn_stack_size ex_fun" "8 dvd next_spill_slot (fresh_gst 0)" by code_simp+
  from frame_covers [OF this] show ?thesis by blast
qed

text \<open>
  C5. Every register the code of a function body writes is one the prologue looks at: whatever the statements are,
  spilling included, an instruction that is printed writes only \<open>%rax\<close>, \<open>%rcx\<close>, \<open>%rdx\<close>, \<open>%r11\<close>
  or an allocatable register recorded in \<open>ever_used_regs\<close>, and so each callee-saved register it writes is pushed.
\<close>
theorem written_registers_saved:
  assumes "gen_list F ns (fresh_gst k) = Some ((), c, g)" "x \<in> set c" "q \<in> writes x"
  shows "q \<in> {RAX, RCX, RDX, R11} \<union> phys ` ever_used g \<and> ever_used g \<subseteq> {..<8} \<and>
    (q \<in> {RBX, R12, R13, R14, R15} \<longrightarrow> q \<in> set (callee_saved g))"
proof -
  have "recorded (fresh_gst k)"
    by (simp add: recorded_def fresh_gst_def init_spill_slots_def alloc_spill_slot_def)
  then have "recorded g \<and> clean (ever_used g) c" using careful_list [of F ns] assms(1) unfolding careful_def by blast
  then have w: "q \<in> may_write (ever_used g)" "ever_used g \<subseteq> {..<8}" using assms(2,3) by (auto simp: recorded_def)
  have "q \<in> set (callee_saved g)" if "q \<in> {RBX, R12, R13, R14, R15}" using not_saved [OF that _ w(2)] w(1) by blast
  then show ?thesis using w by (simp add: may_write_def)
qed

theorem written_registers_saved_witness:
  "\<exists>c g. gen_list ex_env [ex_assign] (fresh_gst 0) = Some ((), c, g) \<and>
     (hd c = Mov S_l (Mem (-84) RBP) (Reg 4 R10) \<and> R10 \<in> phys ` ever_used g)"
proof -
  have "(case gen_list ex_env [ex_assign] (fresh_gst 0) of None \<Rightarrow> False | Some (_, c, g) \<Rightarrow> c \<noteq> [] \<and> hd c = Mov S_l (Mem (-84) RBP) (Reg 4 R10))"
    by code_simp
  then obtain c g where c: "gen_list ex_env [ex_assign] (fresh_gst 0) = Some ((), c, g)" "c \<noteq> []" "hd c = Mov S_l (Mem (-84) RBP) (Reg 4 R10)"
    by (auto split: option.splits)
  have "Mov S_l (Mem (-84) RBP) (Reg 4 R10) \<in> set c" "R10 \<in> writes (Mov S_l (Mem (-84) RBP) (Reg 4 R10))"
    using c(2,3) hd_in_set [OF c(2)] by simp_all
  from written_registers_saved [OF c(1) this] show ?thesis using c by auto
qed


section \<open>Where the code is wrong\<close>

subsection \<open>Running code by simplification\<close>

lemma access_simps:
  "load m 1 a = uint (m a)"
  "load m 4 a = uint (m a) + 256 * (uint (m (a + 1)) + 256 * (uint (m (a + 2)) + 256 * uint (m (a + 3))))"
  "load m 8 a = uint (m a) + 256 * (uint (m (a + 1)) + 256 * (uint (m (a + 2)) + 256 * (uint (m (a + 3)) +
     256 * (uint (m (a + 4)) + 256 * (uint (m (a + 5)) + 256 * (uint (m (a + 6)) + 256 * uint (m (a + 7))))))))"
  "store m 1 a v = m(a := word_of_int v)"
  by (simp_all add: numeral_eq_Suc add.assoc)

lemma store8:
  "store m 8 a v = (((((((m(a := word_of_int v))(a + 1 := word_of_int (v div 256)))(a + 2 := word_of_int (v div 256 div 256)))
     (a + 3 := word_of_int (v div 256 div 256 div 256)))(a + 4 := word_of_int (v div 256 div 256 div 256 div 256)))
     (a + 5 := word_of_int (v div 256 div 256 div 256 div 256 div 256)))
     (a + 6 := word_of_int (v div 256 div 256 div 256 div 256 div 256 div 256)))
     (a + 7 := word_of_int (v div 256 div 256 div 256 div 256 div 256 div 256 div 256))"
  by (simp add: numeral_eq_Suc add.assoc)

lemmas machine_simps = access_simps store8 exec_alu_def rd_def wr_def putr_def getr_def low_def slow_def ex_mach_def ex_mem_def imm_fits_def


lemma run_numeral: "run (numeral k) P c = (case step P c of None \<Rightarrow> c | Some c' \<Rightarrow> run (pred_numeral k) P c')"
  by (simp add: numeral_eq_Suc)


text \<open>The value code without jumps leaves in its register, read as an \<open>int\<close>.\<close>

definition code_value :: "node \<Rightarrow> mach \<Rightarrow> int option" where
  "code_value n m =
     (case gen ex_env n (fresh_gst 0) of
        Some (Some r, c, g) \<Rightarrow> map_option (\<lambda>m'. slow 4 (getr m' 4 (phys r))) (exec_seq c m)
      | _ \<Rightarrow> None)"

lemma code_value_run:
  assumes "map_option (\<lambda>(r, c, g). (r, c)) (gen ex_env n (fresh_gst 0)) = Some (Some r, c)"
  shows "code_value n m = map_option (\<lambda>m'. slow 4 (getr m' 4 (phys r))) (exec_seq c m)"
  using assms by (auto simp: code_value_def)

lemma phys_0: "phys 0 = R10" "phys 1 = R11"
  by (simp_all add: phys_def alloc_regs_def)

subsection \<open>Spilling\<close>

lemma nested8_code:
  "map_option (\<lambda>(r, c, g). (r, c)) (gen ex_env (nested 8) (fresh_gst 0)) = Some (Some 0,
     [Mov S_l (Mem (- 84) RBP) (Reg 4 R10), Mov S_l (Mem (- 84) RBP) (Reg 4 R11), Mov S_l (Mem (- 84) RBP) (Reg 4 RBX),
      Mov S_l (Mem (- 84) RBP) (Reg 4 R12), Mov S_l (Mem (- 84) RBP) (Reg 4 R13), Mov S_l (Mem (- 84) RBP) (Reg 4 R14),
      Mov S_l (Mem (- 84) RBP) (Reg 4 R15), Mov S_l (Mem (- 84) RBP) (Reg 4 RSI), Mov S_none (Reg 8 RSI) (Mem (- 24) RBP),
      Mov S_l (Mem (- 88) RBP) (Reg 4 RSI), Alu A_sub S_none (Reg 4 RSI) (Reg 4 RSI), Mov S_none (Mem (- 24) RBP) (Reg 8 RSI),
      Alu A_sub S_none (Reg 4 RSI) (Reg 4 R15), Alu A_sub S_none (Reg 4 R15) (Reg 4 R14), Alu A_sub S_none (Reg 4 R14) (Reg 4 R13),
      Alu A_sub S_none (Reg 4 R13) (Reg 4 R12), Alu A_sub S_none (Reg 4 R12) (Reg 4 RBX), Alu A_sub S_none (Reg 4 RBX) (Reg 4 R11),
      Alu A_sub S_none (Reg 4 R11) (Reg 4 R10)])"
  by code_simp

text \<open>
  With nine operands waiting the allocator stores the register of the eighth and hands the same register out for the
  ninth, while both are still in use: \<open>x - (x - (\<dots> - y))\<close> with eight subtractions computes 0 where C says 1.
\<close>
theorem spilling_loses_value:
  "code_value (nested 8) (ex_mach 4096 ex_mem) = Some 0 \<and> map_option fst (cev ex_frame (nested 8) ex_mem) = Some 1"
proof
  show "code_value (nested 8) (ex_mach 4096 ex_mem) = Some 0"
    unfolding code_value_run [OF nested8_code] phys_0 by (simp add: machine_simps)
  show "map_option fst (cev ex_frame (nested 8) ex_mem) = Some 1" by code_simp
qed

subsection \<open>The slot of the logical operators\<close>

text \<open>\<open>int f(void) { int x, y; return x - (x - (x - y)) && y; }\<close>\<close>

definition logical_fun :: cfunc where
  "logical_fun = \<lparr>fn_env = ex_env, fn_params = [], fn_body = [new_unary ND_RETURN (int_op ND_LOGAND (nested 3) vy)], fn_stack_size = 96\<rparr>"

definition logical_code :: "instr list" where
  "logical_code =
   [Label (L_func ''f''), Push S_q RBP, Mov S_q (Reg 8 RSP) (Reg 8 RBP),
   Push S_none RBX, Push S_none R12, Alu A_sub S_q (Imm 112) (Reg 8 RSP),
   Mov S_l (Mem (- 84) RBP) (Reg 4 R10),
   Mov S_l (Mem (- 84) RBP) (Reg 4 R11),
   Mov S_l (Mem (- 84) RBP) (Reg 4 RBX),
   Mov S_l (Mem (- 88) RBP) (Reg 4 R12),
   Alu A_sub S_none (Reg 4 R12) (Reg 4 RBX),
   Alu A_sub S_none (Reg 4 RBX) (Reg 4 R11),
   Alu A_sub S_none (Reg 4 R11) (Reg 4 R10),
   Alu A_cmp S_none (Imm 0) (Reg 4 R10), Mov S_b (Imm 0) (Mem (- 8) RBP),
   Jcc CC_E (L_end 1), Mov S_l (Mem (- 88) RBP) (Reg 4 R10),
   Alu A_cmp S_none (Imm 0) (Reg 4 R10), Setcc CC_NE RAX,
   Mov S_b (Reg 1 RAX) (Mem (- 8) RBP), Label (L_end 1),
   Ext False 1 4 (Mem (- 8) RBP) R10, Mov S_q (Reg 8 R10) (Reg 8 RAX),
   Jmp (L_return ''f''), Label (L_return ''f''),
   Alu A_add S_q (Imm 112) (Reg 8 RSP), Pop S_none R12, Pop S_none RBX,
   Pop S_q RBP, Ret]"

lemma logical_code: "map_option fst (gen_function logical_fun 0) = Some logical_code"
  by code_simp


text \<open>
  The slot the operators \<open>&&\<close> and \<open>||\<close> go through is the place of the first callee-saved register the
  prologue pushed: a function that uses three registers and \<open>&&\<close> runs to its \<open>ret\<close> with the right value and
  hands the caller's \<open>%rbx\<close> back with its low byte overwritten.
\<close>
theorem logical_operator_clobbers_rbx:
  "case gen_function logical_fun 0 of
     None \<Rightarrow> False
   | Some (P, g) \<Rightarrow>
       (case run 40 P (0, ex_mach 4104 ex_mem) of
          (pc, m') \<Rightarrow> pc = length P - 1 \<and> regs m' RAX = 1 \<and> regs (ex_mach 4104 ex_mem) RBX = 0x1008 \<and> regs m' RBX = 0x1001)"
proof -
  obtain g where g: "gen_function logical_fun 0 = Some (logical_code, g)" using logical_code by auto
  have "case run 40 logical_code (0, ex_mach 4104 ex_mem) of (pc, m') \<Rightarrow> pc = 29 \<and> regs m' RAX = 1 \<and> regs m' RBX = 0x1001"
    by (simp add: logical_code_def run_numeral step_def goto_def machine_simps sub_flags_def add_flags_def)
  then show ?thesis by (auto simp: g logical_code_def ex_mach_def)
qed

subsection \<open>Values narrower than a register\<close>

text \<open>\<open>char c;\<close>\<close>

abbreviation vc :: node where
  "vc \<equiv> new_var_node ((int_var ''c'' 81)\<lparr>vty := Some ty_char\<rparr>)"

definition narrow_assign :: node where
  "narrow_assign = set_ty (Some ty_char) (new_binary ND_ASSIGN vc (int_num 300))"

definition bool_cast :: node where
  "bool_cast = cast_node (int_num 256) ty_bool"

lemma narrow_codes:
  "map_option (\<lambda>(r, c, g). (r, c)) (gen ex_env narrow_assign (fresh_gst 0)) =
     Some (Some 0, [Mov S_none (Imm 300) (Reg 4 R10), Mov S_none (Reg 1 R10) (Mem (- 81) RBP)])"
  "map_option (\<lambda>(r, c, g). (r, c)) (gen ex_env bool_cast (fresh_gst 0)) =
     Some (Some 0, [Mov S_none (Imm 256) (Reg 4 R10), Ext False 1 4 (Reg 1 R10) R10])"
  by code_simp+

text \<open>
  Values narrower than a register: the value of \<open>c = 300\<close> for a \<open>char c\<close> is left in the register
  unconverted, so that it reads as 300 where C says 44; and a cast to \<open>_Bool\<close> keeps the low byte, so that
  \<open>(_Bool) 256\<close> is 0 where C says 1.
\<close>
theorem narrow_values_wrong:
  "code_value narrow_assign (ex_mach 4096 ex_mem) = Some 300 \<and> map_option fst (cev ex_frame narrow_assign ex_mem) = Some 44 \<and>
   code_value bool_cast (ex_mach 4096 ex_mem) = Some 0 \<and> map_option fst (cev ex_frame bool_cast ex_mem) = Some 1"
proof (intro conjI)
  show "code_value narrow_assign (ex_mach 4096 ex_mem) = Some 300" "code_value bool_cast (ex_mach 4096 ex_mem) = Some 0"
    unfolding code_value_run [OF narrow_codes(1)] code_value_run [OF narrow_codes(2)] phys_0
    by (simp_all add: machine_simps getr_def)
  show "map_option fst (cev ex_frame narrow_assign ex_mem) = Some 44" "map_option fst (cev ex_frame bool_cast ex_mem) = Some 1"
    by code_simp+
qed

end
