(* ===== verification/PeepholeCorrect.thy ===== *)
theory PeepholeCorrect
  imports PeepholeOk GenCorrect
begin

text \<open>
  What the peephole pass keeps and what it breaks, and the text of a whole function: generated code that has gone through
  the pass still does what the C function does.
\<close>

section \<open>The pass keeps what a program does\<close>

text \<open>
  C8. The copy and reload patterns (1, 2 and 2b) keep what code does: plain code without the neighbours that the patterns 3
  to 5 look for (\<open>calm\<close>) is printed, rewritten as text line by line, and comes out as the text of code of the same length
  that runs the same, step by step, in front of and behind any other code.
\<close>
theorem peephole_keeps_runs:
  assumes "list_all plain_instr P" "calm P"
  shows "\<exists>Q. emit_peephole_body False (asm_text P) = Done (asm_text Q) \<and> length Q = length P \<and>
    (\<forall>A Z m c. steps (A @ P @ Z) (0, m) c \<longleftrightarrow> steps (A @ Q @ Z) (0, m) c)"
  using peep_loop_texts [of "[]" P] assms by (simp add: emit_peephole_body_def same_runs_def)

text \<open>A value spilled and fetched again, and copied twice.\<close>

definition ex_copies :: "instr list" where
  "ex_copies =
     [Mov S_none (Reg 8 R10) (Mem (- 24) RBP), Mov S_l (Mem (- 24) RBP) (Reg 4 R11), Jmp (L_end 1),
      Label (L_else 1), Mov S_none (Reg 8 RAX) (Reg 8 R12), Mov S_none (Reg 8 R12) (Reg 8 R13), Label (L_end 1)]"

theorem peephole_keeps_runs_witness:
  "\<exists>Q. emit_peephole_body False (asm_text ex_copies) = Done (asm_text Q) \<and> length Q = 7 \<and>
    (\<forall>m c. steps ex_copies (0, m) c \<longleftrightarrow> steps Q (0, m) c)"
proof -
  have "list_all plain_instr ex_copies"
    by (simp add: ex_copies_def plain_instr_def plain_opd_def is_mem_def)
  moreover have "calm ex_copies" by code_simp
  ultimately obtain Q where Q: "emit_peephole_body False (asm_text ex_copies) = Done (asm_text Q)" "length Q = length ex_copies"
    "\<And>A Z m c. steps (A @ ex_copies @ Z) (0, m) c \<longleftrightarrow> steps (A @ Q @ Z) (0, m) c"
    using peephole_keeps_runs by blast
  then show ?thesis using Q(3) [of "[]" "[]"] by (intro exI [of _ Q]) (simp add: ex_copies_def)
qed

section \<open>Whole functions\<close>

text \<open>The text between prologue and epilogue, as code, and the text the compiler writes for a function.\<close>

definition function_body :: "cfunc \<Rightarrow> nat \<Rightarrow> (instr list \<times> gst) option" where
  "function_body f k =
     Option.bind (save_params 0 0 (fn_params f)) (\<lambda>c0.
       map_option (\<lambda>(_, c, g). (c0 @ c, g)) (gen_list (fn_env f) (fn_body f) (fresh_gst k)))"

definition emit_function :: "bool \<Rightarrow> cfunc \<Rightarrow> nat \<Rightarrow> string res option" where
  "emit_function opt_O0 f k =
     map_option (\<lambda>(b, g). rmap (\<lambda>t. asm_text (prologue f g) @ t @ asm_text (epilogue f g)) (emit_peephole_body opt_O0 (asm_text b)))
       (function_body f k)"

lemma gen_function_body: "gen_function f k = map_option (\<lambda>(b, g). (prologue f g @ b @ epilogue f g, g)) (function_body f k)"
  by (cases "save_params 0 0 (fn_params f)"; cases "gen_list (fn_env f) (fn_body f) (fresh_gst k)")
    (auto simp: gen_function_def function_body_def)

text \<open>
  C1. What the compiler writes for a function is correct, the peephole pass included: if the body is in the fragment
  (\<open>stmts_ok\<close>), there are at most six scalar parameters, the frame is below 2 ^ 31 - 128 bytes, and the generated code is
  plain and calm (no neighbouring lines that patterns 3 to 5 rewrite), then the text is that of a program that runs from the
  entry of the function to its \<open>ret\<close> and leaves the memory and the returned value as C prescribes and the registers of
  the caller as they were, except that the callee-saved register pushed first may come back with its low byte changed.
\<close>
theorem emitted_function_correct:
  assumes "stmts_ok (fn_env f) 0 (fn_body f)" "list_all (param_ok E) (fn_params f)" "length (fn_params f) \<le> 6"
    and "0 \<le> fn_stack_size f" "fn_stack_size f < 2 ^ 31 - 128"
    and "enters E m mm" "execs E (fn_body f) (store_params E m 0 (fn_params f) mm) out mm'"
    and "\<And>b g. function_body f k = Some (b, g) \<Longrightarrow> list_all plain_instr b \<and> calm b"
  shows "\<exists>Q g m'. emit_function False f k = Some (Done (asm_text Q)) \<and>
    steps Q (0, m) (length Q - 1, m') \<and> last Q = Ret \<and> restored g m m' \<and> (\<forall>a. visible E a \<longrightarrow> mem m' a = mm' a) \<and>
    (\<forall>v. out = Returns v \<longrightarrow> return_value (fn_env f) v m')"
proof -
  obtain P g m' where P: "gen_function f k = Some (P, g)" "last P = Ret" "steps P (0, m) (length P - 1, m')" "restored g m m'"
    "\<forall>a. visible E a \<longrightarrow> mem m' a = mm' a" "\<forall>v. out = Returns v \<longrightarrow> return_value (fn_env f) v m'"
    using function_code [OF assms(1-7)] by blast
  obtain b where b: "function_body f k = Some (b, g)" "P = prologue f g @ b @ epilogue f g" using P(1) by (auto simp: gen_function_body)
  obtain Q where Q: "peep_loop (asm_text b) [] = Done (asm_text Q)" "length Q = length b" "same_runs b Q"
    using peep_loop_texts [of "[]" b] assms(8) [OF b(1)] by auto
  let ?Q = "prologue f g @ Q @ epilogue f g"
  have "emit_function False f k = Some (Done (asm_text ?Q))" using b(1) Q(1) by (simp add: emit_function_def emit_peephole_body_def asm_text_def)
  moreover have "steps ?Q (0, m) (length ?Q - 1, m')" using P(3) Q(2,3) by (simp add: b(2) same_runs_def)
  moreover have "last ?Q = Ret" by (simp add: epilogue_def)
  ultimately show ?thesis using P(4-6) by blast
qed

definition ex_body :: "instr list" where
  "ex_body =
     [Mov S_none (Reg 4 RDI) (Mem (- 84) RBP), Mov S_l (Mem (- 84) RBP) (Reg 4 R10), Alu A_cmp S_none (Imm 3) (Reg 4 R10),
      Jcc CC_GE (L_end 1), Mov S_l (Mem (- 84) RBP) (Reg 4 R10), Alu A_add S_none (Imm 4) (Reg 4 R10),
      Mov S_none (Reg 4 R10) (Mem (- 84) RBP), Label (L_end 1), Mov S_l (Mem (- 84) RBP) (Reg 4 R10),
      Mov S_q (Reg 8 R10) (Reg 8 RAX), Jmp (L_return ''f'')]"

lemma ex_body: "map_option fst (function_body ex_fun 0) = Some ex_body"
  by code_simp

theorem emitted_function_correct_witness:
  "\<exists>Q m'. emit_function False ex_fun 0 = Some (Done (asm_text Q)) \<and> steps Q (0, ex_mach 4104 ex_mem) (length Q - 1, m') \<and>
     regs m' RSP = 4104 \<and> rep ty_int 5 (regs m' RAX)"
proof -
  obtain mm where ex: "execs ex_frame (fn_body ex_fun) (store_params ex_frame (ex_mach 4104 ex_mem) 0 (fn_params ex_fun) ex_mem) (Returns (Some 5)) mm"
    by (rule ex_fun_runs)
  have "list_all plain_instr ex_body"
    by (simp add: ex_body_def plain_instr_def plain_opd_def is_mem_def name_ok_def is_alpha_def code_def in64_def)
  moreover have "calm ex_body" by code_simp
  ultimately have calm: "list_all plain_instr b \<and> calm b" if "function_body ex_fun 0 = Some (b, g)" for b g
    using ex_body that by simp
  obtain Q g m' where r: "emit_function False ex_fun 0 = Some (Done (asm_text Q))" "steps Q (0, ex_mach 4104 ex_mem) (length Q - 1, m')"
    "restored g (ex_mach 4104 ex_mem) m'" "\<forall>v. Returns (Some 5) = Returns v \<longrightarrow> return_value (fn_env ex_fun) v m'"
    using emitted_function_correct [OF ex_fun_ok ex_fun_enters ex, of 0] calm by blast
  then show ?thesis using ex_fun_returns by blast
qed

section \<open>Where the pass is wrong\<close>

definition p5_code :: "instr list" where
  "p5_code =
     [Mov S_l (Mem (- 84) RBP) (Reg 4 R10), Alu A_add S_none (Imm 5) (Reg 4 R10), Mov S_none (Reg 4 R11) (Reg 4 R10),
      Mov S_none (Reg 4 R11) (Mem (- 88) RBP)]"

definition p5_out :: "instr list" where
  "p5_out =
     [Mov S_none (Mem (- 84) RBP) (Reg 4 R11), Alu A_add S_none (Imm 5) (Reg 4 R11), Mov S_none (Reg 4 R11) (Mem (- 88) RBP)]"

definition p4_code :: "instr list" where
  "p4_code = [Mov S_none (Imm (-1)) (Reg 4 R10), Alu A_add S_none (Reg 8 R10) (Reg 8 R11)]"

definition p4_out :: "instr list" where
  "p4_out = [Mov S_none (Imm (-1)) (Reg 4 R10), Alu A_add S_none (Imm (-1)) (Reg 8 R11)]"

lemma peep_out:
  "emit_peephole_body False (asm_text p5_code) = Done (asm_text p5_out)"
  "emit_peephole_body False (asm_text p4_code) = Done (asm_text p4_out)"
  by code_simp+

lemma store4:
  "store m 4 a v = ((((m(a := word_of_int v))(a + 1 := word_of_int (v div 256)))(a + 2 := word_of_int (v div 256 div 256)))
     (a + 3 := word_of_int (v div 256 div 256 div 256)))"
  by (simp add: numeral_eq_Suc add.assoc)

text \<open>
  Pattern 5 reads the operands of the AT\&T syntax in the wrong order: it takes a value that is loaded, changed and
  then overwritten from a register for one that is copied to the register, and destroys the register. Pattern 4 turns the
  addition of a register that holds a 32-bit constant into the addition of the constant, which is extended with its
  sign when the operation has 64 bits.
\<close>
theorem peephole_wrong:
  "emit_peephole_body False (asm_text p5_code) = Done (asm_text p5_out) \<and>
   map_option (\<lambda>m. load (mem m) 4 4008) (exec_seq p5_code (ex_mach 4096 ex_mem)) = Some 4096 \<and>
   map_option (\<lambda>m. load (mem m) 4 4008) (exec_seq p5_out (ex_mach 4096 ex_mem)) = Some 7 \<and>
   emit_peephole_body False (asm_text p4_code) = Done (asm_text p4_out) \<and>
   map_option (\<lambda>m. regs m R11) (exec_seq p4_code (ex_mach 4096 ex_mem)) = Some 0x100000FFF \<and>
   map_option (\<lambda>m. regs m R11) (exec_seq p4_out (ex_mach 4096 ex_mem)) = Some 4095"
proof (intro conjI peep_out)
  show "map_option (\<lambda>m. load (mem m) 4 4008) (exec_seq p5_code (ex_mach 4096 ex_mem)) = Some 4096"
    "map_option (\<lambda>m. load (mem m) 4 4008) (exec_seq p5_out (ex_mach 4096 ex_mem)) = Some 7"
    by (simp_all add: p5_code_def p5_out_def machine_simps store4)
  show "map_option (\<lambda>m. regs m R11) (exec_seq p4_code (ex_mach 4096 ex_mem)) = Some 0x100000FFF"
    "map_option (\<lambda>m. regs m R11) (exec_seq p4_out (ex_mach 4096 ex_mem)) = Some 4095"
    by (simp_all add: p4_code_def p4_out_def machine_simps mask_eq_exp_minus_1)
qed

text \<open>
  The subtractions and multiplications of a constant in a register are not folded, as the names of the operations
  lose their last letter when it looks like a size; the addition is.
\<close>
theorem constants_not_folded:
  "(\<forall>opr \<in> {A_sub, A_imul}. let c = asm_text [Mov S_none (Imm 1) (Reg 4 R10), Alu opr S_none (Reg 4 R10) (Reg 4 R11)] in
      emit_peephole_body False c = Done c) \<and>
   emit_peephole_body False (asm_text [Mov S_none (Imm 1) (Reg 4 R10), Alu A_add S_none (Reg 4 R10) (Reg 4 R11)]) =
     Done (asm_text [Mov S_none (Imm 1) (Reg 4 R10), Alu A_add S_none (Imm 1) (Reg 4 R11)])"
  by code_simp

end
