(* ===== verification/Spec2Isabelle.thy ===== *)
theory Spec2Isabelle
  imports Intern CheckType Optimizer Scripts StrBuf PPFile Lexer StructLayout PeepholeCorrect
begin

text \<open>
  RCC, the Regoshi C compiler: a verification development.

  The program. RCC is a C11 compiler in C. \<open>main.c\<close> reads a file and calls \<open>preprocess\<close> (\<open>preprocess.c\<close>), which
  returns one preprocessed text with line markers; \<open>tokenize\<close> (\<open>lexer.c\<close>) makes tokens of it, with names interned
  through \<open>alloc.c\<close> and identifiers checked by \<open>unicode.c\<close>; \<open>parse\<close> (\<open>parser.c\<close>) builds types and typed syntax
  trees, calling \<open>add_type\<close> (\<open>type.c\<close>) on each expression and the evaluator of constant expressions where the
  language wants a constant; \<open>optimize\<close> (\<open>opt.c\<close>, with \<open>-O1\<close>) folds constants and interprets calls with constant
  arguments; \<open>codegen\<close> (\<open>codegen.c\<close>) prints x86-64 or ARM64 assembly, one function at a time, which an external
  assembler translates. All passes are modelled for their main paths; the theories follow the passes. Definitions
  have the names of the C functions they translate.

  Conventions. \<open>Prelude\<close>: a C string is a list of characters, a pointer into it is the rest of the string; machine
  integers are words, or integers with \<open>wrap32\<close> and \<open>wrap64\<close> written where the code's arithmetic wraps. \<open>Outcome\<close>: a
  result is \<open>Done\<close>, \<open>UB\<close> (the C code has undefined behaviour) or \<open>Fuel\<close> (the model stopped counting); an error that
  ends the compiler is the left side of a sum, the type error of \<open>CheckType\<close> or \<open>None\<close> of the code generator. Fuel
  only bounds recursion that the code does not bound, and each use comes with a proof of how much is enough, listed
  below.

  Memory and names. \<open>Arena\<close> is the allocator of \<open>alloc.c\<close> (\<open>arena_alloc\<close>, chunks newest first); blocks handed out are
  as large as asked for, aligned, inside of their chunk and disjoint. \<open>Intern\<close> is \<open>str_intern\<close> and the lookups in \<open>parser.c\<close> that compare
  interned names by address: two strings have one address exactly when they are equal, so a lookup by address is a
  lookup by spelling.

  Preprocessor. \<open>StrBuf\<close> is the growing buffer; it never leaves its array and holds what was appended, so the other
  theories use strings for its results. \<open>PPText\<close> has the passes over the whole text (line splicing with its counts,
  comments) and the small scanners. \<open>PPPaths\<close> has path functions and the search for included files. \<open>Chains\<close> and
  \<open>Macros\<close> model the macro table as objects on a heap with two threaded linked lists (the definition order and the
  hash buckets), the saved list, \<open>push_macro\<close> and \<open>pop_macro\<close>; the table refines a partial map from names to
  definitions. \<open>Expand\<close> is macro expansion with arguments, pasting, quoting and the disabling of macros; it ends and
  leaves the table as it was. \<open>PPExpr\<close> is the evaluator of conditions (with \<open>Strtol\<close> for numbers), shown to agree
  with C's meaning of the printed expression. \<open>CondIncl\<close> is the stack of conditional sections, refined to the rule of
  the C standard. \<open>PPFile\<close> is the main loop that puts all of them together: every directive, inclusion, and the joining
  of lines while a parenthesis is open.

  Characters and tokens. \<open>Utf8\<close> has the two pairs of codecs of \<open>unicode.c\<close> (round trip, agreement). \<open>RangeSearch\<close> has
  the searches in sorted range tables, \<open>Scripts\<close> the TR39 check of identifiers with its script context. \<open>Lexer\<close> is
  \<open>tokenize\<close> with all its literals, and the computation of line numbers for error messages: printed tokens are
  read back, string literals are read back below the size of the buffer, the lexer never loops on ASCII text, and loops on
  one character beyond ASCII.

  Trees and types. \<open>CTypes\<close> has types, conversions and equality (\<open>type.c\<close>), \<open>Ast\<close> the nodes of \<open>rcc.h\<close>,
  \<open>CheckType\<close> the whole of \<open>add_type_internal\<close>, \<open>ConstEval\<close> the constant evaluator of the parser, \<open>StructLayout\<close>
  the layout of structs and unions with the three rules for bit-fields, \<open>Optimizer\<close> the interpreter and folder of \<open>opt.c\<close>.
  \<open>CTypes\<close> also states the promotions and usual conversions of C11 with ranks and ranges of their own (\<open>c_promote\<close>,
  \<open>c_usual\<close>): those of \<open>type.c\<close> agree except when a signed operand is wider than an unsigned one, and for the name of the
  type when a signed \<open>long\<close> is made unsigned. Where they agree, arithmetic expressions get the types of the
  standard, with their operands converted (\<open>elaborated\<close>, the typing rules of the standard). Two types are equal exactly when
  what they say to a program has a common completion (\<open>ty_view\<close>, \<open>completes\<close>). Folding keeps the value the constant
  evaluator of the compiler gives, which is not always that of C. Members of a struct are disjoint, aligned and inside, with the
  exceptions \<open>StructLayout\<close> shows.

  Code generator. \<open>X86\<close> is the machine: instructions, registers, byte memory, flags, jumps to labels, small steps.
  \<open>RegAlloc\<close> (allocator and spill slots), \<open>CodeGen\<close> (one definition per case of \<open>gen\<close> and \<open>gen_addr\<close>), \<open>Gen\<close>
  (statements, fused compare and branch, and the recursive functions) and \<open>GenFunc\<close> (parameters, prologue, epilogue)
  translate \<open>codegen.c\<close>. \<open>CSem\<close> and \<open>CStmt\<close> are what the expressions and statements mean in C, over the same memory,
  independent of the generator. \<open>GenOk\<close> and \<open>CStmt\<close> say for which trees the translation is right (\<open>value_ok\<close>,
  \<open>addr_ok\<close>, \<open>stmts_ok\<close>). \<open>GenBase\<close> (what generated code may change), \<open>GenRefine\<close> (the refinement relation and a rule per
  shape of code), \<open>GenMem\<close>, \<open>GenControl\<close>, \<open>GenUnary\<close>, \<open>GenAssign\<close>, \<open>GenArith\<close>, \<open>GenDiv\<close>, \<open>GenRange\<close> lead to
  \<open>GenExpr\<close> (all expressions) and \<open>GenBranch\<close> (conditions). \<open>GenStmt\<close> shows that statements are translated, with
  registers, stacks and labels in order, \<open>GenRun\<close> that the code does what the statement means, by induction
  over the big-step semantics. \<open>GenRegs\<close> is an invariant of all code the generator can print, inside of the fragment or not:
  a register that is written is recorded. \<open>GenFuncOk\<close> and \<open>GenCorrect\<close> put the parts together: the code of a function of
  the fragment, before the peephole pass, runs from its entry to its \<open>ret\<close>, with the memory and the value C prescribes
  and the caller's registers restored, but for the low byte of the register pushed first, where the logical operators
  keep their result. \<open>GenCorrect\<close> also runs code that is wrong.

  Peephole pass. Unless \<open>-O0\<close> is given, \<open>codegen\<close> prints the body of a function into a buffer, and
  \<open>emit_peephole_body\<close> rewrites its lines as text in a window of three. \<open>Peephole\<close> models it on that text: the parsers of
  lines with the sizes of their buffers, the five patterns, the window and its loop. \<open>PeepholeEnds\<close> shows that it never
  loops. \<open>PeepholeText\<close> relates lines to the instructions of \<open>X86\<close> that print as them, \<open>PeepholeOk\<close> shows that patterns 1 and 2
  keep what code does when no neighbouring lines match the other patterns (\<open>calm\<close>). \<open>PeepholeCorrect\<close> has the text of a
  whole function, \<open>emit_function\<close>, the theorem that it does what C says for calm bodies of the fragment, and code that patterns
  4 and 5 break. \<open>gen_function\<close> in \<open>GenFunc\<close> is the code before this pass.

  Interfaces. Four locales: \<open>fresh_alloc\<close> (an allocator hands out fresh blocks; the arena, used by the string table),
  \<open>interner\<close> (equal strings have equal addresses; \<open>str_intern\<close>, used by the lookups of names), \<open>simulation\<close> (a step
  function refines an abstract one; the macro table), \<open>codepoint_set\<close> (a search decides membership in a table;
  the searches of \<open>unicode.c\<close>). The parts of the preprocessor share the predicates \<open>table_rep\<close> (the heap represents the
  map) and \<open>counted\<close> (expansion only disables and enables macros), those of the code generator \<open>implements\<close> (a
  generator against an evaluator), \<open>keeps\<close> (what code leaves alone) and \<open>ends\<close> (where a statement is left), and the peephole
  pass \<open>forwards\<close> (one instruction may replace another behind a given one) and \<open>same_runs\<close> (code runs alike in any
  surrounding code).

  Fuel. Chains of macros: the number of objects ever made (\<open>chain_fuel\<close>), which no chain exceeds. Expansion: 21 nested
  levels, the limit in the code (\<open>EXPAND_DEPTH\<close>). Inclusion: 246, the limit in the code (\<open>INCLUDE_DEPTH\<close>). Conditions and the lexer: the length of the text and one, enough because every step takes a character
  (\<open>eval_condition_ends\<close>, \<open>tokenize_ends\<close>). The interpreter of \<open>opt.c\<close>: the caller's choice, as it may run for ever;
  a call-free body needs no more than its size (\<open>eval_ast_terminates\<close>). The window of the peephole pass: 256 rounds, more
  than can happen (\<open>settle_ends\<close>). The machine: none, runs are step relations.

  Parameters. Outside of the sources, and arguments of the definitions that use them: the contents and full paths
  of files, the predefined macros and system directories, which are made by the build; the generated tables of \<open>unicode.h\<close>;
  the placement of objects in memory (\<open>cenv\<close>). \<open>calloc\<close> and \<open>malloc\<close> succeed.

  Not modelled. \<open>main.c\<close>: options, and calls of other programs. The generated tables of \<open>unicode.h\<close>: data of more than
  ten thousand lines. The declarations, statements and initialisers of \<open>parser.c\<close>: recursive descent over token
  lists that builds the trees the other theories start from. In \<open>codegen.c\<close>: floating point, calls, struct copies, \<open>switch\<close>, \<open>goto\<close>, inline
  assembly, atomics, variable arguments, cleanup functions and the release of VLAs, the data section, debugging information,
  names of functions that the assembler reserves, and all that is compiled only for ARM64, Windows or Darwin; where a modelled
  function meets one of them the result is \<open>None\<close>. The frame of \<open>frame_need\<close> is that of a function that is neither
  variadic nor calls functions that return structs.
\<close>

end
